(* ===== verification/Kernel_Prelude.thy ===== *)
theory Kernel_Prelude
  imports Main "HOL-Library.Word" "HOL-Library.Multiset"
begin

unbundle bit_operations_syntax

text \<open>
  The types and lemmas that every component of the development shares: the machine words of
  the kernel, the way a run of kernel code can fail, and generic facts on lists.

  \<^item> \<open>kfault\<close> is how a call can fail to return: \<open>Panic\<close> is a call of \<open>kpanic\<close> or a failed
    \<open>kassert\<close> (\<^verbatim>\<open>include/kpanic/kpanic.hpp\<close>, \<^verbatim>\<open>include/kassert/kassert.hpp\<close>), \<open>Fault\<close> is an
    access the C++ program must not make: a null pointer followed, an index past the end of
    an array, a freed node read.
  \<^item> \<open>'a kres\<close> is the result of such a call, and \<open>kbind\<close> runs the rest of the code only when
    the first call returned.
\<close>

type_synonym u8 = "8 word"
type_synonym u16 = "16 word"
type_synonym u32 = "32 word"
type_synonym u64 = "64 word"

datatype kfault = Panic string | Fault string

type_synonym 'a kres = "kfault + 'a"

definition kbind :: "'a kres \<Rightarrow> ('a \<Rightarrow> 'b kres) \<Rightarrow> 'b kres" where
  "kbind m f = (case m of Inl e \<Rightarrow> Inl e | Inr x \<Rightarrow> f x)"

definition kassert :: "bool \<Rightarrow> string \<Rightarrow> unit kres" where
  "kassert b msg = (if b then Inr () else Inl (Panic msg))"

lemma kbind_simps [simp]:
  "kbind (Inl e) f = Inl e"
  "kbind (Inr x) f = f x"
  by (simp_all add: kbind_def)

lemma kassert_simps [simp]:
  "kassert True msg = Inr ()"
  "kassert False msg = Inl (Panic msg)"
  by (simp_all add: kassert_def)

lemma kbind_Inr_iff: "kbind m f = Inr y \<longleftrightarrow> (\<exists>x. m = Inr x \<and> f x = Inr y)"
  by (cases m) auto

lemma kbind_InrE: "kbind m f = Inr y \<Longrightarrow> (\<And>x. m = Inr x \<Longrightarrow> f x = Inr y \<Longrightarrow> P) \<Longrightarrow> P"
  by (auto simp: kbind_Inr_iff)

lemma kbind_InrE2: "kbind m (\<lambda>(a, b). f a b) = Inr y \<Longrightarrow> (\<And>a b. m = Inr (a, b) \<Longrightarrow> f a b = Inr y \<Longrightarrow> P) \<Longrightarrow> P"
  by (auto simp: kbind_Inr_iff)

lemma kbind_cong [fundef_cong]:
  "m = m' \<Longrightarrow> (\<And>x. m' = Inr x \<Longrightarrow> f x = f' x) \<Longrightarrow> kbind m f = kbind m' f'"
  by (cases m') simp_all

section \<open>Counting loops\<close>

text \<open>\<open>kfor a b body\<close> is \<^verbatim>\<open>for (i = a; i < b; i++) body(i)\<close> over a state.\<close>

function kfor :: "nat \<Rightarrow> nat \<Rightarrow> (nat \<Rightarrow> 's \<Rightarrow> 's kres) \<Rightarrow> 's \<Rightarrow> 's kres" where
  "kfor a b body s = (if a < b then kbind (body a s) (kfor (Suc a) b body) else Inr s)"
  by pat_completeness auto
termination
  by (relation "measure (\<lambda>(a, b, body, s). b - a)") auto

declare kfor.simps [simp del]

lemma kfor_rule:
  assumes "I a s" "a \<le> b" "\<And>i t. a \<le> i \<Longrightarrow> i < b \<Longrightarrow> I i t \<Longrightarrow> \<exists>t'. body i t = Inr t' \<and> I (Suc i) t'"
  shows "\<exists>s'. kfor a b body s = Inr s' \<and> I b s'"
  using assms
proof (induction "b - a" arbitrary: a s)
  case 0
  then show ?case by (simp add: kfor.simps)
next
  case (Suc n)
  then obtain t where t: "body a s = Inr t" "I (Suc a) t" by (metis diff_is_0_eq' nat.simps(3) nat_le_linear not_le order_refl)
  have "\<exists>s'. kfor (Suc a) b body t = Inr s' \<and> I b s'"
    by (rule Suc.hyps(1)) (use Suc t(2) in auto)
  with t(1) Suc.hyps(2) show ?case by (subst kfor.simps) auto
qed

lemma kfor_split:
  assumes "a \<le> b" "b \<le> c"
  shows "kfor a c body s = kbind (kfor a b body s) (kfor b c body)"
  using assms
proof (induction "b - a" arbitrary: a s)
  case 0
  then have "a = b" by simp
  moreover have "kfor a a body s = Inr s" by (subst kfor.simps) simp
  ultimately show ?case by simp
next
  case (Suc n)
  then have l: "a < b" "a < c" "n = b - Suc a" by auto
  have e: "kfor a m body s = kbind (body a s) (kfor (Suc a) m body)" if "a < m" for m using that by (subst kfor.simps) simp
  show ?case unfolding e [OF l(1)] e [OF l(2)] using Suc.hyps(1) [OF l(3)] l(1) Suc.prems(2) by (cases "body a s") auto
qed

lemma kfor_inv:
  assumes "kfor a b body s = Inr s'" "I a s" "a \<le> b" "\<And>i t t'. a \<le> i \<Longrightarrow> i < b \<Longrightarrow> I i t \<Longrightarrow> body i t = Inr t' \<Longrightarrow> I (Suc i) t'"
  shows "I b s'"
  using assms
proof (induction "b - a" arbitrary: a s)
  case 0
  then show ?case by (simp add: kfor.simps)
next
  case (Suc n)
  have a: "a < b" "n = b - Suc a" using Suc.hyps(2) by auto
  from Suc.prems(1) a(1) obtain t where t: "body a s = Inr t" "kfor (Suc a) b body t = Inr s'"
    by (auto simp: kbind_Inr_iff kfor.simps [of a])
  show ?case
    by (rule Suc.hyps(1) [OF a(2) t(2) Suc.prems(4) [OF order_refl a(1) Suc.prems(2) t(1)]]) (use a(1) Suc.prems(4) in auto)
qed

section \<open>Lists updated by index\<close>

definition swap_at :: "'a list \<Rightarrow> nat \<Rightarrow> nat \<Rightarrow> 'a list" where
  "swap_at xs i j = xs[i := xs ! j, j := xs ! i]"

lemma length_swap_at [simp]: "length (swap_at xs i j) = length xs"
  by (simp add: swap_at_def)

lemma nth_swap_at:
  assumes "i < length xs" and "j < length xs"
  shows "swap_at xs i j ! k = (if k = j then xs ! i else if k = i then xs ! j else xs ! k)"
  using assms by (auto simp: swap_at_def nth_list_update)

lemma mset_swap_at [simp]:
  assumes "i < length xs" and "j < length xs"
  shows "mset (swap_at xs i j) = mset xs"
  using assms by (simp add: swap_at_def mset_swap)

end
