(* ===== verification/Kheap.thy ===== *)
theory Kheap
  imports Kernel_Prelude
begin

text \<open>
  The binary heaps \<^verbatim>\<open>kmin_heap\<close> and \<^verbatim>\<open>kmax_heap\<close> (\<^verbatim>\<open>include/containers/kmin_heap.hpp\<close>,
  \<^verbatim>\<open>kmax_heap.hpp\<close>). The two class templates are the same code with the comparison turned
  round, so the sifting loops are written once over the comparison they use: \<open>lt\<close> is the \<open><\<close>
  (or \<open>>\<close>) of \<open>min_heapify\<close> (\<open>max_heapify\<close>), \<open>le\<close> the \<open>\<le>\<close> (or \<open>\<ge>\<close>) of \<open>insert\<close>. The member
  \<^verbatim>\<open>_array\<close> is the list of elements of the \<^verbatim>\<open>kvector\<close>.
\<close>

record ('k, 'v) hnode =
  key :: 'k
  val :: 'v

type_synonym ('k, 'v) harray = "('k, 'v) hnode list"

definition get_left :: "nat \<Rightarrow> nat" where
  "get_left i = i * 2 + 1"

definition get_right :: "nat \<Rightarrow> nat" where
  "get_right i = i * 2 + 2"

definition get_parent :: "nat \<Rightarrow> nat" where
  "get_parent i = (i - 1) div 2"

definition get_key :: "('k, 'v) harray \<Rightarrow> nat \<Rightarrow> 'k" where
  "get_key a i = key (a ! i)"

text \<open>The child (or the root itself) that \<^verbatim>\<open>min_heapify\<close> swaps the root with.\<close>

definition heapify_pick :: "('k \<Rightarrow> 'k \<Rightarrow> bool) \<Rightarrow> ('k, 'v) harray \<Rightarrow> nat \<Rightarrow> nat" where
  "heapify_pick lt a root =
    (let l = get_left root;
         r = get_right root;
         smallest = (if l < length a \<and> lt (get_key a l) (get_key a root) then l else root)
     in if r < length a \<and> lt (get_key a r) (get_key a smallest) then r else smallest)"

lemma heapify_pick_cases:
  "heapify_pick lt a root = root \<or>
   (heapify_pick lt a root = get_left root \<and> get_left root < length a) \<or>
   (heapify_pick lt a root = get_right root \<and> get_right root < length a)"
  by (auto simp: heapify_pick_def Let_def)

function heapify :: "('k \<Rightarrow> 'k \<Rightarrow> bool) \<Rightarrow> ('k, 'v) harray \<Rightarrow> nat \<Rightarrow> ('k, 'v) harray" where
  "heapify lt a root =
    (let smallest = heapify_pick lt a root
     in if smallest = root then a else heapify lt (swap_at a root smallest) smallest)"
  by pat_completeness auto
termination
proof (relation "measure (\<lambda>(lt, a, root). length a - root)", goal_cases)
  case (2 lt a root smallest)
  then show ?case
    using heapify_pick_cases [of lt a root] by (auto simp: get_left_def get_right_def)
qed simp

function sift_up :: "('k \<Rightarrow> 'k \<Rightarrow> bool) \<Rightarrow> ('k, 'v) harray \<Rightarrow> nat \<Rightarrow> ('k, 'v) harray" where
  "sift_up le a i =
    (if i \<noteq> 0
     then let parent = get_parent i
          in if le (get_key a parent) (get_key a i) then a
             else sift_up le (swap_at a i parent) parent
     else a)"
  by pat_completeness auto
termination
  by (relation "measure (\<lambda>(le, a, i). i)") (auto simp: get_parent_def)

declare heapify.simps [simp del] sift_up.simps [simp del]

definition heap_insert :: "('k \<Rightarrow> 'k \<Rightarrow> bool) \<Rightarrow> 'k \<Rightarrow> 'v \<Rightarrow> ('k, 'v) harray \<Rightarrow> ('k, 'v) harray" where
  "heap_insert le k v a =
    (let a' = a @ [\<lparr>key = k, val = v\<rparr>] in sift_up le a' (length a' - 1))"

definition heap_peak :: "('k, 'v) harray \<Rightarrow> 'v kres" where
  "heap_peak a = (if a = [] then Inl (Panic ''!empty()'') else Inr (val (a ! 0)))"

definition heap_pop :: "('k \<Rightarrow> 'k \<Rightarrow> bool) \<Rightarrow> ('k, 'v) harray \<Rightarrow> ('k, 'v) harray kres" where
  "heap_pop lt a =
    (if a = [] then Inl (Panic ''!empty()'')
     else if length a = 1 then Inr (butlast a)
     else let back = last a in Inr (heapify lt (butlast (a[0 := back])) 0))"

definition kmin_insert :: "'k::linorder \<Rightarrow> 'v \<Rightarrow> ('k, 'v) harray \<Rightarrow> ('k, 'v) harray" where
  "kmin_insert = heap_insert (\<le>)"

definition kmin_peak :: "('k::linorder, 'v) harray \<Rightarrow> 'v kres" where
  "kmin_peak = heap_peak"

definition kmin_pop :: "('k::linorder, 'v) harray \<Rightarrow> ('k, 'v) harray kres" where
  "kmin_pop = heap_pop (<)"

definition kmax_insert :: "'k::linorder \<Rightarrow> 'v \<Rightarrow> ('k, 'v) harray \<Rightarrow> ('k, 'v) harray" where
  "kmax_insert = heap_insert (\<ge>)"

definition kmax_peak :: "('k::linorder, 'v) harray \<Rightarrow> 'v kres" where
  "kmax_peak = heap_peak"

definition kmax_pop :: "('k::linorder, 'v) harray \<Rightarrow> ('k, 'v) harray kres" where
  "kmax_pop = heap_pop (>)"

section \<open>The heap order\<close>

text \<open>
  \<open>is_heap\<close>: no element is before its parent. While an element sinks (or rises), the order
  holds everywhere but between it and its children (or its parent), and its children are
  in order with its parent.
\<close>

definition is_heap :: "('k \<Rightarrow> 'k \<Rightarrow> bool) \<Rightarrow> ('k, 'v) harray \<Rightarrow> bool" where
  "is_heap le a \<longleftrightarrow> (\<forall>j<length a. 0 < j \<longrightarrow> le (get_key a (get_parent j)) (get_key a j))"

definition sinking :: "('k \<Rightarrow> 'k \<Rightarrow> bool) \<Rightarrow> ('k, 'v) harray \<Rightarrow> nat \<Rightarrow> bool" where
  "sinking le a i \<longleftrightarrow>
    (\<forall>j<length a. 0 < j \<longrightarrow> get_parent j \<noteq> i \<longrightarrow> le (get_key a (get_parent j)) (get_key a j)) \<and>
    (\<forall>j<length a. 0 < j \<longrightarrow> get_parent j = i \<longrightarrow> 0 < i \<longrightarrow> le (get_key a (get_parent i)) (get_key a j))"

definition rising :: "('k \<Rightarrow> 'k \<Rightarrow> bool) \<Rightarrow> ('k, 'v) harray \<Rightarrow> nat \<Rightarrow> bool" where
  "rising le a i \<longleftrightarrow>
    (\<forall>j<length a. 0 < j \<longrightarrow> j \<noteq> i \<longrightarrow> le (get_key a (get_parent j)) (get_key a j)) \<and>
    (\<forall>j<length a. 0 < j \<longrightarrow> get_parent j = i \<longrightarrow> 0 < i \<longrightarrow> le (get_key a (get_parent i)) (get_key a j))"

lemma get_parent_less: "0 < j \<Longrightarrow> get_parent j < j"
  by (simp add: get_parent_def)

lemma get_parent_child [simp]: "get_parent (get_left i) = i" "get_parent (get_right i) = i"
  by (simp_all add: get_parent_def get_left_def get_right_def)

lemma child_pos [simp]: "0 < get_left i" "0 < get_right i" "get_left i \<noteq> i" "get_right i \<noteq> i"
  by (simp_all add: get_left_def get_right_def)

lemma get_parent_eq_iff: "0 < j \<Longrightarrow> get_parent j = i \<longleftrightarrow> j = get_left i \<or> j = get_right i"
  by (simp add: get_parent_def get_left_def get_right_def) arith

lemma get_key_swap_at:
  assumes "i < length a" and "j < length a"
  shows "get_key (swap_at a i j) k =
    (if k = j then get_key a i else if k = i then get_key a j else get_key a k)"
  using nth_swap_at [OF assms, of k] by (auto simp: get_key_def)

lemma length_heapify [simp]: "length (heapify lt a i) = length a"
  by (induction lt a i rule: heapify.induct) (subst heapify.simps, auto simp: Let_def)

lemma length_sift_up [simp]: "length (sift_up le a i) = length a"
  by (induction le a i rule: sift_up.induct) (subst sift_up.simps, auto simp: Let_def)

lemma mset_heapify [simp]: "i < length a \<Longrightarrow> mset (heapify lt a i) = mset a"
proof (induction lt a i rule: heapify.induct)
  case (1 lt a root)
  show ?case
    using "1.prems" "1.IH" heapify_pick_cases [of lt a root]
    by (subst heapify.simps) (auto simp: Let_def)
qed

lemma mset_sift_up [simp]: "i < length a \<Longrightarrow> mset (sift_up le a i) = mset a"
proof (induction le a i rule: sift_up.induct)
  case (1 le a i)
  have "i \<noteq> 0 \<Longrightarrow> get_parent i < length a"
    using "1.prems" get_parent_less [of i] by simp
  then show ?case
    using "1.prems" "1.IH" by (subst sift_up.simps) (auto simp: Let_def)
qed

section \<open>The sifting loops restore the order\<close>

text \<open>What the loops need of the comparison; both directions of a linear order have it.\<close>

locale heap_order =
  fixes le :: "'k \<Rightarrow> 'k \<Rightarrow> bool" and lt :: "'k \<Rightarrow> 'k \<Rightarrow> bool"
  assumes le_refl: "le x x"
    and le_trans: "le x y \<Longrightarrow> le y z \<Longrightarrow> le x z"
    and lt_iff: "lt x y \<longleftrightarrow> \<not> le y x"
    and le_total: "le x y \<or> le y x"
begin

lemma pick_le_left: "get_left i < length a \<Longrightarrow> le (get_key a (heapify_pick lt a i)) (get_key a (get_left i))"
  using le_total [of "get_key a i" "get_key a (get_left i)"]
    le_total [of "get_key a (get_right i)" "get_key a (get_left i)"]
  by (auto simp: heapify_pick_def Let_def lt_iff le_refl intro: le_trans)

lemma pick_le_right: "get_right i < length a \<Longrightarrow> le (get_key a (heapify_pick lt a i)) (get_key a (get_right i))"
  by (auto simp: heapify_pick_def Let_def lt_iff le_refl)

lemma pick_le_root: "le (get_key a (heapify_pick lt a i)) (get_key a i)"
  using le_total [of "get_key a i" "get_key a (get_left i)"]
    le_total [of "get_key a i" "get_key a (get_right i)"]
    le_total [of "get_key a (get_right i)" "get_key a (get_left i)"]
  by (auto simp: heapify_pick_def Let_def lt_iff le_refl intro: le_trans)

lemma pick_le_children:
  assumes "0 < j" and "j < length a" and "get_parent j = i"
  shows "le (get_key a (heapify_pick lt a i)) (get_key a j)"
  using assms pick_le_left pick_le_right by (auto simp: get_parent_eq_iff)

lemma sinking_swap:
  assumes s: "sinking le a i" and i: "i < length a" and m: "m = heapify_pick lt a i" "m \<noteq> i"
  shows "sinking le (swap_at a i m) m"
proof -
  have ml: "m < length a" and mi: "get_parent m = i" and m0: "0 < m"
    using heapify_pick_cases [of lt a i] m by auto
  have up: "le (get_key a m) (get_key a i)"
    using m pick_le_root by simp
  have kids: "le (get_key a m) (get_key a j)" if "0 < j" "j < length a" "get_parent j = i" for j
    using pick_le_children [OF that] m by simp
  note k = get_key_swap_at [OF i ml]
  have "le (get_key (swap_at a i m) (get_parent j)) (get_key (swap_at a i m) j)"
    if j: "j < length a" "0 < j" "get_parent j \<noteq> m" for j
  proof (cases "j = i")
    case True
    then have "get_parent j \<noteq> i" using get_parent_less [OF j(2)] by simp
    moreover have "le (get_key a (get_parent i)) (get_key a m)"
      using s ml m0 mi True j by (auto simp: sinking_def)
    ultimately show ?thesis using True j m(2) by (simp add: k)
  next
    case False
    show ?thesis
      using False j s up kids mi m(2) by (auto simp: k sinking_def)
  qed
  moreover have "le (get_key (swap_at a i m) (get_parent m)) (get_key (swap_at a i m) j)"
    if j: "j < length a" "0 < j" "get_parent j = m" for j
  proof -
    have "j \<noteq> m" "j \<noteq> i" using j mi m0 get_parent_less [OF j(2)] get_parent_less [OF m0] by auto
    moreover have "le (get_key a m) (get_key a j)"
      using s j m(2) by (auto simp: sinking_def)
    ultimately show ?thesis using mi m(2) by (simp add: k)
  qed
  ultimately show ?thesis by (simp add: sinking_def)
qed

lemma sinking_done:
  assumes s: "sinking le a i" and m: "heapify_pick lt a i = i"
  shows "is_heap le a"
proof -
  have "le (get_key a (get_parent j)) (get_key a j)" if "j < length a" "0 < j" for j
    using s that pick_le_children [OF that(2,1) refl] m
    by (cases "get_parent j = i") (auto simp: sinking_def)
  then show ?thesis by (simp add: is_heap_def)
qed

lemma heapify_is_heap: "sinking le a i \<Longrightarrow> i < length a \<Longrightarrow> is_heap le (heapify lt a i)"
proof (induction "length a - i" arbitrary: a i rule: less_induct)
  case less
  let ?m = "heapify_pick lt a i"
  show ?case
  proof (cases "?m = i")
    case True
    with sinking_done [OF less.prems(1) True] show ?thesis
      by (subst heapify.simps) simp
  next
    case False
    then have m: "i < ?m" "?m < length a"
      using heapify_pick_cases [of lt a i] by (auto simp: get_left_def get_right_def)
    then have "is_heap le (heapify lt (swap_at a i ?m) ?m)"
      using sinking_swap [OF less.prems refl False] by (intro less.hyps) auto
    with False show ?thesis
      by (subst heapify.simps) (simp add: Let_def)
  qed
qed

lemma rising_swap:
  assumes r: "rising le a i" and i: "i < length a" and i0: "0 < i"
    and bad: "\<not> le (get_key a (get_parent i)) (get_key a i)"
  shows "rising le (swap_at a i (get_parent i)) (get_parent i)"
proof -
  let ?p = "get_parent i"
  have pi: "?p < i" and pl: "?p < length a"
    using get_parent_less [OF i0] i by auto
  have ip: "le (get_key a i) (get_key a ?p)"
    using bad le_total by blast
  note k = get_key_swap_at [OF i pl]
  have "le (get_key (swap_at a i ?p) (get_parent j)) (get_key (swap_at a i ?p) j)"
    if j: "j < length a" "0 < j" "j \<noteq> ?p" for j
  proof -
    have "get_parent j \<noteq> j" using get_parent_less [OF j(2)] by simp
    moreover have "j \<noteq> i \<Longrightarrow> le (get_key a (get_parent j)) (get_key a j)"
      using r j by (auto simp: rising_def)
    moreover have "get_parent j = i \<Longrightarrow> le (get_key a ?p) (get_key a j)"
      using r j i0 by (auto simp: rising_def)
    moreover have "j \<noteq> i \<Longrightarrow> get_parent j = ?p \<Longrightarrow> le (get_key a i) (get_key a j)"
      using r j ip le_trans by (auto simp: rising_def)
    ultimately show ?thesis using j pi ip by (auto simp: k)
  qed
  moreover have "le (get_key (swap_at a i ?p) (get_parent ?p)) (get_key (swap_at a i ?p) j)"
    if j: "j < length a" "0 < j" "get_parent j = ?p" "0 < ?p" for j
  proof -
    have pp: "get_parent ?p < ?p" using get_parent_less [OF j(4)] .
    have up: "le (get_key a (get_parent ?p)) (get_key a ?p)"
      using r pl j(4) pi by (auto simp: rising_def)
    have "j \<noteq> ?p" using j get_parent_less [OF j(2)] by auto
    moreover have "j \<noteq> i \<Longrightarrow> le (get_key a ?p) (get_key a j)"
      using r j by (auto simp: rising_def)
    ultimately show ?thesis
      using up pp pi le_trans by (auto simp: k)
  qed
  ultimately show ?thesis by (simp add: rising_def)
qed

lemma sift_up_is_heap: "rising le a i \<Longrightarrow> i < length a \<Longrightarrow> is_heap le (sift_up le a i)"
proof (induction i arbitrary: a rule: less_induct)
  case (less i)
  let ?p = "get_parent i"
  show ?case
  proof (cases "i = 0 \<or> le (get_key a ?p) (get_key a i)")
    case True
    then have "is_heap le a"
      using less.prems by (auto simp: is_heap_def rising_def)
    with True show ?thesis by (subst sift_up.simps) (auto simp: Let_def)
  next
    case False
    then have p: "?p < i" using get_parent_less [of i] by simp
    have "is_heap le (sift_up le (swap_at a i ?p) ?p)"
      using less.IH [OF p rising_swap [OF less.prems(1,2)]] False p less.prems(2) by simp
    with False show ?thesis by (subst sift_up.simps) (simp add: Let_def)
  qed
qed

lemma rising_snoc: "is_heap le a \<Longrightarrow> rising le (a @ [x]) (length a)"
proof -
  assume h: "is_heap le a"
  have "le (get_key (a @ [x]) (get_parent j)) (get_key (a @ [x]) j)"
    if "j < length (a @ [x])" "0 < j" "j \<noteq> length a" for j
    using h that get_parent_less [of j] by (auto simp: is_heap_def get_key_def nth_append)
  moreover have "get_parent j \<noteq> length a" if "j < length (a @ [x])" "0 < j" for j
    using that get_parent_less [of j] by auto
  ultimately show ?thesis by (auto simp: rising_def)
qed

lemma is_heap_insert: "is_heap le a \<Longrightarrow> is_heap le (heap_insert le k v a)"
  using rising_snoc sift_up_is_heap by (fastforce simp: heap_insert_def Let_def)

lemma mset_insert: "mset (heap_insert le k v a) = mset a + {#\<lparr>key = k, val = v\<rparr>#}"
  by (simp add: heap_insert_def Let_def)

lemma sinking_pop:
  assumes h: "is_heap le a" and a: "1 < length a"
  shows "sinking le (butlast (a[0 := last a])) 0"
proof -
  have "le (get_key (butlast (a[0 := last a])) (get_parent j)) (get_key (butlast (a[0 := last a])) j)"
    if j: "j < length a - 1" "0 < j" "get_parent j \<noteq> 0" for j
  proof -
    have "get_parent j < length a - 1" using j get_parent_less [OF j(2)] by simp
    then show ?thesis
      using h j a by (simp add: is_heap_def get_key_def nth_butlast)
  qed
  then show ?thesis by (auto simp: sinking_def)
qed

lemma pop_refines:
  assumes h: "is_heap le a" and a: "a \<noteq> []"
  obtains b where "heap_pop lt a = Inr b" and "is_heap le b" and "mset a = add_mset (a ! 0) (mset b)"
proof (cases "length a = 1")
  case True
  then obtain x where "a = [x]" by (auto simp: length_Suc_conv)
  then show ?thesis by (intro that [of "[]"]) (auto simp: heap_pop_def is_heap_def)
next
  case False
  then have l: "1 < length a" using a by (cases a) auto
  obtain x y ys where ax: "a = x # ys @ [y]"
    using l by (cases a; cases "tl a" rule: rev_cases) auto
  let ?b = "heapify lt (butlast (a[0 := last a])) 0"
  show ?thesis
  proof (rule that [of ?b])
    show "heap_pop lt a = Inr ?b" using a False by (simp add: heap_pop_def)
    show "is_heap le ?b"
      using heapify_is_heap [OF sinking_pop [OF h l]] l by simp
    show "mset a = add_mset (a ! 0) (mset ?b)" using l by (simp add: ax)
  qed
qed

lemma root_least:
  assumes h: "is_heap le a" and "i < length a"
  shows "le (get_key a 0) (get_key a i)"
  using \<open>i < length a\<close>
proof (induction i rule: less_induct)
  case (less i)
  show ?case
  proof (cases "i = 0")
    case False
    then have "le (get_key a 0) (get_key a (get_parent i))"
      using less get_parent_less [of i] by simp
    moreover have "le (get_key a (get_parent i)) (get_key a i)"
      using h False less.prems by (simp add: is_heap_def)
    ultimately show ?thesis by (rule le_trans)
  qed (simp add: le_refl)
qed

lemma root_least_mem: "is_heap le a \<Longrightarrow> x \<in> set a \<Longrightarrow> le (key (a ! 0)) (key x)"
  using root_least by (fastforce simp: in_set_conv_nth get_key_def)

end

interpretation min_order: heap_order "(\<le>) :: 'k::linorder \<Rightarrow> 'k \<Rightarrow> bool" "(<)"
  by unfold_locales auto

interpretation max_order: heap_order "(\<ge>) :: 'k::linorder \<Rightarrow> 'k \<Rightarrow> bool" "(>)"
  by unfold_locales auto

section \<open>The contract of a priority queue\<close>

text \<open>Taking \<open>n\<close> elements out of a queue with \<open>peak\<close> and \<open>pop\<close>, first one first.\<close>

primrec pq_drain :: "(('k, 'v) harray \<Rightarrow> 'v kres) \<Rightarrow> (('k, 'v) harray \<Rightarrow> ('k, 'v) harray kres) \<Rightarrow>
    nat \<Rightarrow> ('k, 'v) harray \<Rightarrow> 'v list kres" where
  "pq_drain peak pop 0 q = Inr []"
| "pq_drain peak pop (Suc n) q =
    kbind (peak q) (\<lambda>v. kbind (pop q) (\<lambda>r. kbind (pq_drain peak pop n r) (\<lambda>vs. Inr (v # vs))))"

text \<open>
  What the scheduler relies on when it keeps its sleepers in a heap: the elements are a
  multiset, \<open>pop\<close> removes the element that \<open>peak\<close> shows, and that element comes before every
  other one in the order \<open>le\<close> of the keys.
\<close>

locale prio_queue =
  fixes le :: "'k \<Rightarrow> 'k \<Rightarrow> bool"
    and invar :: "('k, 'v) harray \<Rightarrow> bool"
    and ins :: "'k \<Rightarrow> 'v \<Rightarrow> ('k, 'v) harray \<Rightarrow> ('k, 'v) harray"
    and peak :: "('k, 'v) harray \<Rightarrow> 'v kres"
    and pop :: "('k, 'v) harray \<Rightarrow> ('k, 'v) harray kres"
  assumes invar_empty: "invar []"
    and invar_ins: "invar q \<Longrightarrow> invar (ins k v q)"
    and mset_ins: "mset (ins k v q) = mset q + {#\<lparr>key = k, val = v\<rparr>#}"
    and pop_spec: "invar q \<Longrightarrow> q \<noteq> [] \<Longrightarrow>
      \<exists>n r. peak q = Inr (val n) \<and> pop q = Inr r \<and> invar r \<and> mset q = add_mset n (mset r) \<and>
            (\<forall>x \<in> set q. le (key n) (key x))"
    and peak_empty: "\<exists>e. peak [] = Inl (Panic e)"
    and pop_empty: "\<exists>e. pop [] = Inl (Panic e)"
begin

lemma fold_ins_invar: "invar q \<Longrightarrow> invar (fold (\<lambda>(k, v). ins k v) kvs q)"
  by (induction kvs arbitrary: q) (auto simp: invar_ins)

lemma fold_ins_mset:
  "mset (fold (\<lambda>(k, v). ins k v) kvs q) = mset q + mset (map (\<lambda>(k, v). \<lparr>key = k, val = v\<rparr>) kvs)"
  by (induction kvs arbitrary: q) (auto simp: mset_ins)

lemma size_pop: "invar q \<Longrightarrow> q \<noteq> [] \<Longrightarrow> pop q = Inr r \<Longrightarrow> length q = Suc (length r)"
  using pop_spec [of q] by (metis Inr_inject size_add_mset size_mset)

lemma drain_sorted:
  "invar q \<Longrightarrow> \<exists>ns. pq_drain peak pop (length q) q = Inr (map val ns) \<and>
     sorted_wrt (\<lambda>m n. le (key m) (key n)) ns \<and> mset ns = mset q"
proof (induction "length q" arbitrary: q)
  case 0
  then show ?case by (intro exI [of _ "[]"]) simp
next
  case (Suc n)
  have "q \<noteq> []" using Suc.hyps(2) by auto
  from pop_spec [OF Suc.prems this] obtain m r
    where pk: "peak q = Inr (val m)" and pp: "pop q = Inr r" and r: "invar r"
      and ms: "mset q = add_mset m (mset r)" and least: "\<forall>x \<in> set q. le (key m) (key x)"
    by blast
  have len: "n = length r" using size_pop [OF Suc.prems \<open>q \<noteq> []\<close> pp] Suc.hyps(2) by simp
  from Suc.hyps(1) [OF len r] obtain ns
    where ns: "pq_drain peak pop (length r) r = Inr (map val ns)"
      and sw: "sorted_wrt (\<lambda>m n. le (key m) (key n)) ns" and mn: "mset ns = mset r"
    by blast
  have "set ns \<subseteq> set q" using ms mn by (metis set_mset_add_mset_insert set_mset_mset subset_insertI)
  then have "sorted_wrt (\<lambda>m n. le (key m) (key n)) (m # ns)" using sw least by auto
  moreover have "pq_drain peak pop (length q) q = Inr (map val (m # ns))"
    using ns pk pp by (simp add: Suc.hyps(2) [symmetric] len)
  ultimately show ?case using ms mn by (intro exI [of _ "m # ns"]) simp
qed

end

interpretation kmin: prio_queue "(\<le>) :: 'k::linorder \<Rightarrow> 'k \<Rightarrow> bool" "is_heap (\<le>)"
  kmin_insert kmin_peak kmin_pop
proof
  fix q :: "('k, 'v) harray"
  assume h: "is_heap (\<le>) q" and q: "q \<noteq> []"
  obtain r where "heap_pop (<) q = Inr r" "is_heap (\<le>) r" "mset q = add_mset (q ! 0) (mset r)"
    by (rule min_order.pop_refines [OF h q])
  then show "\<exists>n r. kmin_peak q = Inr (val n) \<and> kmin_pop q = Inr r \<and> is_heap (\<le>) r \<and>
      mset q = add_mset n (mset r) \<and> (\<forall>x \<in> set q. key n \<le> key x)"
    using min_order.root_least_mem [OF h] q
    by (intro exI [of _ "q ! 0"] exI [of _ r]) (simp add: kmin_peak_def kmin_pop_def heap_peak_def)
qed (simp_all add: kmin_insert_def kmin_peak_def kmin_pop_def heap_peak_def heap_pop_def
      min_order.is_heap_insert min_order.mset_insert is_heap_def [of _ "[]"])

interpretation kmax: prio_queue "(\<ge>) :: 'k::linorder \<Rightarrow> 'k \<Rightarrow> bool" "is_heap (\<ge>)"
  kmax_insert kmax_peak kmax_pop
proof
  fix q :: "('k, 'v) harray"
  assume h: "is_heap (\<ge>) q" and q: "q \<noteq> []"
  obtain r where "heap_pop (>) q = Inr r" "is_heap (\<ge>) r" "mset q = add_mset (q ! 0) (mset r)"
    by (rule max_order.pop_refines [OF h q])
  then show "\<exists>n r. kmax_peak q = Inr (val n) \<and> kmax_pop q = Inr r \<and> is_heap (\<ge>) r \<and>
      mset q = add_mset n (mset r) \<and> (\<forall>x \<in> set q. key n \<ge> key x)"
    using max_order.root_least_mem [OF h] q
    by (intro exI [of _ "q ! 0"] exI [of _ r]) (simp add: kmax_peak_def kmax_pop_def heap_peak_def)
qed (simp_all add: kmax_insert_def kmax_peak_def kmax_pop_def heap_peak_def heap_pop_def
      max_order.is_heap_insert max_order.mset_insert is_heap_def [of _ "[]"])

section \<open>Properties\<close>

lemma kmin_fold_mset:
  "mset (fold (\<lambda>(k, v). kmin_insert k v) kvs []) = mset (map (\<lambda>(k, v). \<lparr>key = k, val = v\<rparr>) kvs)"
  using kmin.fold_ins_mset [of kvs "[]"] by simp

text \<open>
  C36: A \<^verbatim>\<open>kmin_heap\<close> filled by \<^verbatim>\<open>insert\<close> in any order and emptied by \<^verbatim>\<open>peak\<close> and \<^verbatim>\<open>pop\<close> never
  panics and gives back exactly the inserted pairs, with their keys in ascending order.
\<close>

theorem kmin_heap_sorts:
  "\<exists>out. pq_drain kmin_peak kmin_pop (length kvs) (fold (\<lambda>(k, v). kmin_insert k v) kvs []) =
      Inr (map snd out) \<and> sorted (map fst out) \<and> mset out = mset kvs"
proof -
  let ?q = "fold (\<lambda>(k, v). kmin_insert k v) kvs []"
  have len: "length ?q = length kvs"
    using arg_cong [OF kmin_fold_mset, of size, of kvs] by simp
  obtain ns where ns: "pq_drain kmin_peak kmin_pop (length ?q) ?q = Inr (map val ns)"
    "sorted_wrt (\<lambda>m n. key m \<le> key n) ns" "mset ns = mset ?q"
    using kmin.drain_sorted [OF kmin.fold_ins_invar [OF kmin.invar_empty], of kvs] by blast
  let ?out = "map (\<lambda>n. (key n, val n)) ns"
  have "mset ?out = image_mset (\<lambda>n. (key n, val n)) (mset (map (\<lambda>(k, v). \<lparr>key = k, val = v\<rparr>) kvs))"
    using ns(3) by (simp add: kmin_fold_mset)
  also have "\<dots> = mset kvs"
    by (simp add: image_mset.compositionality comp_def case_prod_beta)
  finally show ?thesis
    using ns len by (intro exI [of _ ?out]) (simp add: comp_def sorted_map)
qed

text \<open>
  Every \<^verbatim>\<open>kmax_heap\<close> in heap order keeps that order under \<^verbatim>\<open>insert\<close> and \<^verbatim>\<open>pop\<close>; \<^verbatim>\<open>pop\<close> removes
  one element, the one \<^verbatim>\<open>peak\<close> returns, whose key no other element exceeds.
\<close>

theorem kmax_heap_ops:
  assumes "is_heap (\<ge>) a" and "a \<noteq> []"
  shows "\<exists>m b. kmax_peak a = Inr (val m) \<and> kmax_pop a = Inr b \<and> is_heap (\<ge>) b \<and>
      mset a = add_mset m (mset b) \<and> (\<forall>x \<in> set a. key x \<le> key m) \<and>
      is_heap (\<ge>) (kmax_insert k v a) \<and> mset (kmax_insert k v a) = add_mset \<lparr>key = k, val = v\<rparr> (mset a)"
proof -
  obtain m b where "kmax_peak a = Inr (val m)" "kmax_pop a = Inr b" "is_heap (\<ge>) b"
    "mset a = add_mset m (mset b)" "\<forall>x \<in> set a. key m \<ge> key x"
    using kmax.pop_spec [OF assms] by blast
  then show ?thesis
    using kmax.invar_ins [OF assms(1)] kmax.mset_ins [of k v a] by auto
qed

end
