(* ===== verification/Klist.thy ===== *)
theory Klist
  imports Kernel_Prelude
begin

text \<open>
  The circular doubly linked list \<^verbatim>\<open>klist\<close> (\<^verbatim>\<open>include/containers/klist.hpp\<close>), modelled on an
  explicit heap of nodes. A list object has the two members of the class, \<open>l_head\<close> and \<open>l_size\<close>;
  its nodes live in the heap \<open>h\<close>, and every operation takes and returns the heap. Following a
  null pointer or a freed node is a \<open>Fault\<close>. The address that \<^verbatim>\<open>new node\<close> returns is an argument
  of the operations that allocate; the lemmas assume of it only that it is not in use.

  \<open>rep h l ps\<close> says that the list object \<open>l\<close> is well formed and that \<open>ps\<close> are its nodes and
  elements from the head on; every operation is shown to act on \<open>map snd ps\<close> as the list
  operation it stands for.
\<close>

type_synonym addr = nat

record 'a lnode =
  n_prev :: addr
  n_next :: addr
  n_data :: 'a

type_synonym 'a lheap = "addr \<rightharpoonup> 'a lnode"

record klist =
  l_head :: "addr option"
  l_size :: nat

section \<open>The operations\<close>

definition ld :: "'a lheap \<Rightarrow> addr \<Rightarrow> 'a lnode kres" where
  "ld h p = (case h p of None \<Rightarrow> Inl (Fault ''invalid node'') | Some n \<Rightarrow> Inr n)"

definition set_next :: "addr \<Rightarrow> addr \<Rightarrow> 'a lheap \<Rightarrow> 'a lheap kres" where
  "set_next p q h = kbind (ld h p) (\<lambda>n. Inr (h(p \<mapsto> n\<lparr>n_next := q\<rparr>)))"

definition set_prev :: "addr \<Rightarrow> addr \<Rightarrow> 'a lheap \<Rightarrow> 'a lheap kres" where
  "set_prev p q h = kbind (ld h p) (\<lambda>n. Inr (h(p \<mapsto> n\<lparr>n_prev := q\<rparr>)))"

definition deref_head :: "klist \<Rightarrow> addr kres" where
  "deref_head l = (case l_head l of None \<Rightarrow> Inl (Fault ''null head'') | Some p \<Rightarrow> Inr p)"

definition klist_new :: klist where
  "klist_new = \<lparr>l_head = None, l_size = 0\<rparr>"

definition klist_empty :: "klist \<Rightarrow> bool" where
  "klist_empty l \<longleftrightarrow> l_size l = 0"

definition klist_front :: "'a lheap \<Rightarrow> klist \<Rightarrow> 'a kres" where
  "klist_front h l = kbind (deref_head l) (\<lambda>p. kbind (ld h p) (\<lambda>n. Inr (n_data n)))"

definition klist_back :: "'a lheap \<Rightarrow> klist \<Rightarrow> 'a kres" where
  "klist_back h l = kbind (deref_head l) (\<lambda>p. kbind (ld h p) (\<lambda>n.
     kbind (ld h (n_prev n)) (\<lambda>m. Inr (n_data m))))"

text \<open>\<open>walk\<close> is the loop \<^verbatim>\<open>while (pos--) n = n->next\<close>.\<close>

primrec walk :: "'a lheap \<Rightarrow> nat \<Rightarrow> addr \<Rightarrow> addr kres" where
  "walk h 0 p = Inr p"
| "walk h (Suc k) p = kbind (ld h p) (\<lambda>n. walk h k (n_next n))"

definition klist_nth :: "'a lheap \<Rightarrow> klist \<Rightarrow> nat \<Rightarrow> 'a kres" where
  "klist_nth h l pos = kbind (deref_head l) (\<lambda>p. kbind (walk h pos p) (\<lambda>q.
     kbind (ld h q) (\<lambda>n. Inr (n_data n))))"

definition klist_push_front :: "addr \<Rightarrow> 'a \<Rightarrow> 'a lheap \<Rightarrow> klist \<Rightarrow> ('a lheap \<times> klist) kres" where
  "klist_push_front n t h l =
    (if klist_empty l
     then Inr (h(n \<mapsto> \<lparr>n_prev = n, n_next = n, n_data = t\<rparr>), \<lparr>l_head = Some n, l_size = l_size l + 1\<rparr>)
     else kbind (deref_head l) (\<lambda>p. kbind (ld h p) (\<lambda>hn.
       let h1 = h(n \<mapsto> \<lparr>n_prev = n_prev hn, n_next = p, n_data = t\<rparr>)
       in kbind (set_next (n_prev hn) n h1) (\<lambda>h2. kbind (set_prev p n h2) (\<lambda>h3.
            Inr (h3, \<lparr>l_head = Some n, l_size = l_size l + 1\<rparr>))))))"

definition klist_push_back :: "addr \<Rightarrow> 'a \<Rightarrow> 'a lheap \<Rightarrow> klist \<Rightarrow> ('a lheap \<times> klist) kres" where
  "klist_push_back n t h l =
    (if klist_empty l
     then Inr (h(n \<mapsto> \<lparr>n_prev = n, n_next = n, n_data = t\<rparr>), \<lparr>l_head = Some n, l_size = l_size l + 1\<rparr>)
     else kbind (deref_head l) (\<lambda>p. kbind (ld h p) (\<lambda>hn.
       let h1 = h(n \<mapsto> \<lparr>n_prev = n_prev hn, n_next = p, n_data = t\<rparr>)
       in kbind (set_next (n_prev hn) n h1) (\<lambda>h2. kbind (set_prev p n h2) (\<lambda>h3.
            Inr (h3, l\<lparr>l_size := l_size l + 1\<rparr>))))))"

definition klist_remove_node :: "addr option \<Rightarrow> 'a lheap \<Rightarrow> klist \<Rightarrow> (bool \<times> 'a lheap \<times> klist) kres" where
  "klist_remove_node np h l =
    (case np of None \<Rightarrow> Inr (False, h, l)
     | Some n \<Rightarrow>
       if klist_empty l then Inr (False, h, l)
       else let l1 = l\<lparr>l_size := l_size l - 1\<rparr>
         in if klist_empty l1 then Inr (True, h(n := None), l1\<lparr>l_head := None\<rparr>)
            else kbind (ld h n) (\<lambda>nn.
              let l2 = (if l_head l1 = Some n then l1\<lparr>l_head := Some (n_next nn)\<rparr> else l1)
              in kbind (set_next (n_prev nn) (n_next nn) h) (\<lambda>h1. kbind (ld h1 n) (\<lambda>n1.
                 kbind (set_prev (n_next n1) (n_prev n1) h1) (\<lambda>h2.
                   Inr (True, h2(n := None), l2))))))"

definition klist_erase :: "nat \<Rightarrow> 'a lheap \<Rightarrow> klist \<Rightarrow> (bool \<times> 'a lheap \<times> klist) kres" where
  "klist_erase pos h l =
    (if klist_empty l \<or> pos \<ge> l_size l then Inr (False, h, l)
     else kbind (deref_head l) (\<lambda>p. kbind (walk h pos p) (\<lambda>q. klist_remove_node (Some q) h l)))"

text \<open>\<open>find_node\<close> is the loop of \<^verbatim>\<open>remove\<close>: the node of the first element equal to \<open>t\<close>.\<close>

primrec find_node :: "'a \<Rightarrow> 'a lheap \<Rightarrow> nat \<Rightarrow> addr \<Rightarrow> addr option kres" where
  "find_node t h 0 p = Inr None"
| "find_node t h (Suc k) p = kbind (ld h p) (\<lambda>n.
     if n_data n = t then Inr (Some p) else find_node t h k (n_next n))"

definition klist_remove :: "'a \<Rightarrow> 'a lheap \<Rightarrow> klist \<Rightarrow> (bool \<times> 'a lheap \<times> klist) kres" where
  "klist_remove t h l =
    (if klist_empty l then Inr (False, h, l)
     else kbind (deref_head l) (\<lambda>p. kbind (find_node t h (l_size l) p) (\<lambda>np.
       case np of None \<Rightarrow> Inr (False, h, l) | Some n \<Rightarrow> klist_remove_node (Some n) h l)))"

definition klist_pop_front :: "'a lheap \<Rightarrow> klist \<Rightarrow> ('a lheap \<times> klist) kres" where
  "klist_pop_front h l =
    (if klist_empty l then Inr (h, l)
     else kbind (deref_head l) (\<lambda>n.
       let l1 = l\<lparr>l_size := l_size l - 1\<rparr>
       in if klist_empty l1 then Inr (h(n := None), l1\<lparr>l_head := None\<rparr>)
          else kbind (ld h n) (\<lambda>nn. kbind (set_prev (n_next nn) (n_prev nn) h) (\<lambda>h1.
            kbind (ld h1 n) (\<lambda>n1. kbind (set_next (n_prev n1) (n_next n1) h1) (\<lambda>h2.
            kbind (ld h2 n) (\<lambda>n2. Inr (h2(n := None), l1\<lparr>l_head := Some (n_next n2)\<rparr>))))))))"

definition klist_pop_back :: "'a lheap \<Rightarrow> klist \<Rightarrow> ('a lheap \<times> klist) kres" where
  "klist_pop_back h l =
    (if klist_empty l then Inr (h, l)
     else kbind (deref_head l) (\<lambda>p. kbind (ld h p) (\<lambda>hn.
       let n = n_prev hn; l1 = l\<lparr>l_size := l_size l - 1\<rparr>
       in if klist_empty l1 then Inr (h(n := None), l1\<lparr>l_head := None\<rparr>)
          else kbind (ld h n) (\<lambda>nn. kbind (set_prev (n_next nn) (n_prev nn) h) (\<lambda>h1.
            kbind (ld h1 n) (\<lambda>n1. kbind (set_next (n_prev n1) (n_next n1) h1) (\<lambda>h2.
              Inr (h2(n := None), l1))))))))"

definition klist_rotate_next :: "'a lheap \<Rightarrow> klist \<Rightarrow> klist kres" where
  "klist_rotate_next h l =
    (if klist_empty l then Inr l
     else kbind (deref_head l) (\<lambda>p. kbind (ld h p) (\<lambda>n. Inr (l\<lparr>l_head := Some (n_next n)\<rparr>))))"

definition klist_rotate_prev :: "'a lheap \<Rightarrow> klist \<Rightarrow> klist kres" where
  "klist_rotate_prev h l =
    (if klist_empty l then Inr l
     else kbind (deref_head l) (\<lambda>p. kbind (ld h p) (\<lambda>n. Inr (l\<lparr>l_head := Some (n_prev n)\<rparr>))))"

text \<open>The loop of \<^verbatim>\<open>reverse\<close>: swap the two links of each node, following the old \<open>next\<close>.\<close>

primrec reverse_loop :: "nat \<Rightarrow> addr \<Rightarrow> 'a lheap \<Rightarrow> 'a lheap kres" where
  "reverse_loop 0 p h = Inr h"
| "reverse_loop (Suc k) p h = kbind (ld h p) (\<lambda>n.
     reverse_loop k (n_next n) (h(p \<mapsto> n\<lparr>n_next := n_prev n, n_prev := n_next n\<rparr>)))"

definition klist_reverse :: "'a lheap \<Rightarrow> klist \<Rightarrow> ('a lheap \<times> klist) kres" where
  "klist_reverse h l =
    (if klist_empty l then Inr (h, l)
     else kbind (deref_head l) (\<lambda>p. kbind (reverse_loop (l_size l) p h) (\<lambda>h1.
       kbind (ld h1 p) (\<lambda>n. Inr (h1, l\<lparr>l_head := Some (n_next n)\<rparr>)))))"

text \<open>\<^verbatim>\<open>clear\<close> runs \<^verbatim>\<open>pop_back\<close> until \<^verbatim>\<open>empty()\<close>; each round lowers \<open>l_size\<close>, so it is the fuel.\<close>

primrec clear_loop :: "nat \<Rightarrow> 'a lheap \<Rightarrow> klist \<Rightarrow> ('a lheap \<times> klist) kres" where
  "clear_loop 0 h l = Inr (h, l)"
| "clear_loop (Suc k) h l =
    (if klist_empty l then Inr (h, l)
     else kbind (klist_pop_back h l) (\<lambda>(h1, l1). clear_loop k h1 l1))"

definition klist_clear :: "'a lheap \<Rightarrow> klist \<Rightarrow> ('a lheap \<times> klist) kres" where
  "klist_clear h l = clear_loop (l_size l) h l"

text \<open>
  The constructors. \<^verbatim>\<open>klist(init)\<close> and \<^verbatim>\<open>klist(count, value)\<close> push one element after the other into
  the addresses that \<^verbatim>\<open>new\<close> returns (its panic, when there is none, included). The copy
  constructor pushes the elements it meets while \<open>p\<close> walks over \<open>other\<close>; copy assignment clears
  the target first.
\<close>

primrec push_all :: "addr list \<Rightarrow> 'a list \<Rightarrow> 'a lheap \<Rightarrow> klist \<Rightarrow> ('a lheap \<times> klist) kres" where
  "push_all ns [] h l = Inr (h, l)"
| "push_all ns (x # xs) h l = (case ns of [] \<Rightarrow> Inl (Panic ''out of memory'')
     | n # ns' \<Rightarrow> kbind (klist_push_back n x h l) (\<lambda>(h1, l1). push_all ns' xs h1 l1))"

definition klist_init :: "addr list \<Rightarrow> 'a list \<Rightarrow> 'a lheap \<Rightarrow> ('a lheap \<times> klist) kres" where
  "klist_init ns xs h = push_all ns xs h klist_new"

definition klist_fill :: "addr list \<Rightarrow> nat \<Rightarrow> 'a \<Rightarrow> 'a lheap \<Rightarrow> ('a lheap \<times> klist) kres" where
  "klist_fill ns k v h = push_all ns (replicate k v) h klist_new"

definition klist_move :: "klist \<Rightarrow> klist \<times> klist" where
  "klist_move other = (\<lparr>l_head = l_head other, l_size = l_size other\<rparr>, other\<lparr>l_head := None, l_size := 0\<rparr>)"

primrec copy_loop :: "nat \<Rightarrow> addr list \<Rightarrow> addr \<Rightarrow> 'a lheap \<Rightarrow> klist \<Rightarrow> ('a lheap \<times> klist) kres" where
  "copy_loop 0 ns p h l = Inr (h, l)"
| "copy_loop (Suc k) ns p h l = kbind (ld h p) (\<lambda>m. case ns of [] \<Rightarrow> Inl (Panic ''out of memory'')
     | n # ns' \<Rightarrow> kbind (klist_push_back n (n_data m) h l) (\<lambda>(h1, l1).
         kbind (ld h1 p) (\<lambda>m1. copy_loop k ns' (n_next m1) h1 l1)))"

definition klist_copy :: "addr list \<Rightarrow> 'a lheap \<Rightarrow> klist \<Rightarrow> ('a lheap \<times> klist) kres" where
  "klist_copy ns h other =
    (if klist_empty other then Inr (h, klist_new)
     else kbind (deref_head other) (\<lambda>p. copy_loop (l_size other) ns p h klist_new))"

definition klist_assign :: "addr list \<Rightarrow> 'a lheap \<Rightarrow> klist \<Rightarrow> klist \<Rightarrow> ('a lheap \<times> klist) kres" where
  "klist_assign ns h l other = kbind (klist_clear h l) (\<lambda>(h1, l1).
     if l_size other = 0 then Inr (h1, l1)
     else kbind (deref_head other) (\<lambda>p. copy_loop (l_size other) ns p h1 l1))"

definition klist_move_assign :: "'a lheap \<Rightarrow> klist \<Rightarrow> klist \<Rightarrow> ('a lheap \<times> klist \<times> klist) kres" where
  "klist_move_assign h l other = kbind (klist_clear h l) (\<lambda>(h1, l1).
     Inr (h1, \<lparr>l_head = l_head other, l_size = l_size other\<rparr>, \<lparr>l_head = None, l_size = 0\<rparr>))"

section \<open>The representation of a list\<close>

text \<open>
  \<open>dseg h a ps b\<close>: the nodes \<open>ps\<close> hang together in \<open>h\<close>; the first one has \<open>a\<close> before it and the
  last one \<open>b\<close> after it.
\<close>

definition first_of :: "(addr \<times> 'a) list \<Rightarrow> addr \<Rightarrow> addr" where
  "first_of ps b = (case ps of [] \<Rightarrow> b | q # _ \<Rightarrow> fst q)"

definition last_of :: "addr \<Rightarrow> (addr \<times> 'a) list \<Rightarrow> addr" where
  "last_of a ps = (if ps = [] then a else fst (last ps))"

fun dseg :: "'a lheap \<Rightarrow> addr \<Rightarrow> (addr \<times> 'a) list \<Rightarrow> addr \<Rightarrow> bool" where
  "dseg h a [] b \<longleftrightarrow> True"
| "dseg h a ((p, x) # ps) b \<longleftrightarrow>
     h p = Some \<lparr>n_prev = a, n_next = first_of ps b, n_data = x\<rparr> \<and> dseg h p ps b"

definition rep :: "'a lheap \<Rightarrow> klist \<Rightarrow> (addr \<times> 'a) list \<Rightarrow> bool" where
  "rep h l ps \<longleftrightarrow> l_size l = length ps \<and> distinct (map fst ps) \<and>
     (if ps = [] then l_head l = None
      else l_head l = Some (fst (hd ps)) \<and> dseg h (fst (last ps)) ps (fst (hd ps)))"

lemma first_of_simps [simp]:
  "first_of [] b = b" "first_of (q # ps) b = fst q"
  "first_of (ps @ qs) b = first_of ps (first_of qs b)"
  by (simp_all add: first_of_def split: list.splits)

lemma last_of_simps [simp]:
  "last_of a [] = a" "last_of a (q # ps) = last_of (fst q) ps"
  "last_of a (ps @ qs) = last_of (last_of a ps) qs"
  by (auto simp: last_of_def)

lemma dseg_append [simp]:
  "dseg h a (ps @ qs) b \<longleftrightarrow> dseg h a ps (first_of qs b) \<and> dseg h (last_of a ps) qs b"
  by (induction h a ps b rule: dseg.induct) simp_all

lemma dseg_frame [simp]: "p \<notin> fst ` set ps \<Longrightarrow> dseg (h(p := v)) a ps b \<longleftrightarrow> dseg h a ps b"
  by (induction h a ps b rule: dseg.induct) simp_all

lemma dseg_cong: "\<forall>p \<in> fst ` set ps. h p = h' p \<Longrightarrow> dseg h a ps b \<longleftrightarrow> dseg h' a ps b"
  by (induction h a ps b rule: dseg.induct) simp_all

lemma dseg_dom: "dseg h a ps b \<Longrightarrow> fst ` set ps \<subseteq> dom h"
  by (induction h a ps b rule: dseg.induct) (simp_all add: domI)

lemma ld_Some [simp]: "h p = Some n \<Longrightarrow> ld h p = Inr n"
  by (simp add: ld_def)

lemma rep_Nil: "rep h l [] \<longleftrightarrow> l_size l = 0 \<and> l_head l = None"
  by (auto simp: rep_def)

lemma rep_Cons:
  "rep h l ((p, x) # ps) \<longleftrightarrow>
    l_size l = Suc (length ps) \<and> p \<notin> fst ` set ps \<and> distinct (map fst ps) \<and> l_head l = Some p \<and>
    h p = Some \<lparr>n_prev = last_of p ps, n_next = first_of ps p, n_data = x\<rparr> \<and> dseg h p ps p"
  by (auto simp: rep_def last_of_def)

lemma rep_empty [simp]: "rep h l ps \<Longrightarrow> klist_empty l \<longleftrightarrow> ps = []"
  by (auto simp: rep_def klist_empty_def)

lemma rep_frame: "rep h l ps \<Longrightarrow> p \<notin> fst ` set ps \<Longrightarrow> rep (h(p := v)) l ps"
  by (auto simp: rep_def)

lemma rep_dom: "rep h l ps \<Longrightarrow> fst ` set ps \<subseteq> dom h"
  by (cases "ps = []") (auto simp: rep_def dest: dseg_dom)

lemma list_ends_cases:
  obtains "ps = []" | p x where "ps = [(p, x)]"
  | p x rs q y where "ps = (p, x) # rs @ [(q, y)]"
  by (metis list.exhaust rev_exhaust surj_pair)

lemmas klist_step = set_next_def set_prev_def deref_head_def klist_empty_def

section \<open>What the operations do\<close>

lemma klist_new_rep [simp]: "rep h klist_new []"
  by (simp add: rep_def klist_new_def)

text \<open>
  \<open>same_outside A h h'\<close>: the heaps agree on every address outside \<open>A\<close>, the frame of an
  operation that works on the nodes \<open>A\<close>.
\<close>

definition same_outside :: "addr set \<Rightarrow> 'a lheap \<Rightarrow> 'a lheap \<Rightarrow> bool" where
  "same_outside A h h' \<longleftrightarrow> (\<forall>q. q \<notin> A \<longrightarrow> h' q = h q)"

lemma same_outside_refl [simp]: "same_outside A h h"
  by (simp add: same_outside_def)

lemma same_outside_upd [simp]: "p \<in> A \<Longrightarrow> same_outside A h (h'(p := v)) \<longleftrightarrow> same_outside A h h'"
  by (auto simp: same_outside_def)

lemma same_outside_trans: "same_outside A h h1 \<Longrightarrow> same_outside B h1 h2 \<Longrightarrow> same_outside (A \<union> B) h h2"
  by (simp add: same_outside_def)

lemma same_outside_mono: "same_outside A h h' \<Longrightarrow> A \<subseteq> B \<Longrightarrow> same_outside B h h'"
  by (auto simp: same_outside_def)

lemma rep_same_outside: "same_outside A h h' \<Longrightarrow> A \<inter> fst ` set ps = {} \<Longrightarrow> rep h l ps \<Longrightarrow> rep h' l ps"
proof -
  assume s: "same_outside A h h'" "A \<inter> fst ` set ps = {}" "rep h l ps"
  then have "\<forall>p \<in> fst ` set ps. h p = h' p"
    unfolding same_outside_def by (metis disjoint_iff)
  from dseg_cong [OF this] s(3) show "rep h' l ps"
    by (auto simp: rep_def split: if_splits)
qed

lemma klist_push_back_rep:
  assumes "rep h l ps" "n \<notin> dom h"
  shows "\<exists>h' l'. klist_push_back n t h l = Inr (h', l') \<and> rep h' l' (ps @ [(n, t)]) \<and>
    dom h' = insert n (dom h) \<and> same_outside (insert n (fst ` set ps)) h h'"
proof -
  have n: "n \<notin> fst ` set ps" using rep_dom [OF assms(1)] assms(2) by blast
  show ?thesis
  proof (cases rule: list_ends_cases [of ps])
    case 1
    then show ?thesis using assms
      by (simp add: klist_push_back_def rep_Nil klist_empty_def) (simp add: rep_Cons)
  next
    case (2 p x)
    then show ?thesis using assms n
      by (simp add: klist_push_back_def rep_Cons klist_step) (auto simp: same_outside_def)
  next
    case (3 p x rs q y)
    then show ?thesis using assms n
      by (simp add: klist_push_back_def rep_Cons klist_step) (auto simp: same_outside_def)
  qed
qed

lemma klist_push_front_rep:
  assumes "rep h l ps" "n \<notin> dom h"
  shows "\<exists>h' l'. klist_push_front n t h l = Inr (h', l') \<and> rep h' l' ((n, t) # ps) \<and>
    dom h' = insert n (dom h) \<and> same_outside (insert n (fst ` set ps)) h h'"
proof -
  have n: "n \<notin> fst ` set ps" using rep_dom [OF assms(1)] assms(2) by blast
  show ?thesis
  proof (cases rule: list_ends_cases [of ps])
    case 1
    then show ?thesis using assms
      by (simp add: klist_push_front_def rep_Nil klist_empty_def) (simp add: rep_Cons)
  next
    case (2 p x)
    then show ?thesis using assms n
      by (simp add: klist_push_front_def rep_Cons klist_step) (auto simp: same_outside_def)
  next
    case (3 p x rs q y)
    then show ?thesis using assms n
      by (simp add: klist_push_front_def rep_Cons klist_step) (auto simp: same_outside_def)
  qed
qed

lemma klist_pop_front_rep:
  assumes "rep h l ((n, t) # ps)"
  shows "\<exists>h' l'. klist_pop_front h l = Inr (h', l') \<and> rep h' l' ps \<and>
    dom h' = dom h - {n} \<and> same_outside (insert n (fst ` set ps)) h h'"
proof (cases rule: list_ends_cases [of ps])
  case 1
  then show ?thesis using assms
    by (simp add: klist_pop_front_def rep_Cons rep_Nil klist_step)
next
  case (2 p x)
  then show ?thesis using assms
    by (simp add: klist_pop_front_def rep_Cons klist_step) (auto simp: same_outside_def)
next
  case (3 p x rs q y)
  then show ?thesis using assms
    by (simp add: klist_pop_front_def rep_Cons klist_step) (auto simp: same_outside_def)
qed

lemma klist_pop_back_rep:
  assumes "rep h l (ps @ [(n, t)])"
  shows "\<exists>h' l'. klist_pop_back h l = Inr (h', l') \<and> rep h' l' ps \<and>
    dom h' = dom h - {n} \<and> same_outside (insert n (fst ` set ps)) h h'"
proof (cases rule: list_ends_cases [of ps])
  case 1
  then show ?thesis using assms
    by (simp add: klist_pop_back_def rep_Cons rep_Nil klist_step)
next
  case (2 p x)
  then show ?thesis using assms
    by (simp add: klist_pop_back_def rep_Cons klist_step) (auto simp: same_outside_def)
next
  case (3 p x rs q y)
  then show ?thesis using assms
    by (simp add: klist_pop_back_def rep_Cons klist_step) (auto simp: same_outside_def)
qed

text \<open>Unlinking a node in the middle, by the shape of the list before and after it.\<close>

lemma klist_remove_node_rep:
  assumes "rep h l (ps @ (n, t) # qs)"
  shows "\<exists>h' l'. klist_remove_node (Some n) h l = Inr (True, h', l') \<and> rep h' l' (ps @ qs) \<and>
    dom h' = dom h - {n} \<and> same_outside (insert n (fst ` set (ps @ qs))) h h'"
proof (cases rule: list_ends_cases [of ps])
  case 1
  note ps = this
  show ?thesis
  proof (cases rule: list_ends_cases [of qs])
    case 1
    then show ?thesis using ps assms by (simp add: klist_remove_node_def rep_Cons rep_Nil klist_step)
  next
    case (2 p x)
    then show ?thesis using ps assms
      by (simp add: klist_remove_node_def rep_Cons klist_step) (auto simp: same_outside_def)
  next
    case (3 p x rs q y)
    then show ?thesis using ps assms
      by (simp add: klist_remove_node_def rep_Cons klist_step) (auto simp: same_outside_def)
  qed
next
  case (2 p x)
  then show ?thesis using assms
    by (cases qs) (auto simp: klist_remove_node_def rep_Cons klist_step same_outside_def)
next
  case (3 p x rs q y)
  then show ?thesis using assms
    by (cases qs) (auto simp: klist_remove_node_def rep_Cons klist_step same_outside_def)
qed


subsection \<open>Reading and searching\<close>

lemma klist_front_rep: "rep h l ((p, x) # ps) \<Longrightarrow> klist_front h l = Inr x"
  by (simp add: klist_front_def rep_Cons deref_head_def)

lemma klist_back_rep: "rep h l (ps @ [(p, x)]) \<Longrightarrow> klist_back h l = Inr x"
  by (cases ps) (auto simp: klist_back_def rep_Cons deref_head_def)

lemma walk_add: "walk h (m + n) p = kbind (walk h m p) (walk h n)"
  by (induction m arbitrary: p) (simp_all add: ld_def split: option.split)

lemma walk_dseg: "dseg h a ps b \<Longrightarrow> k \<le> length ps \<Longrightarrow> walk h k (first_of ps b) = Inr (first_of (drop k ps) b)"
proof (induction k arbitrary: a ps)
  case (Suc k)
  then obtain p x qs where "ps = (p, x) # qs" by (cases ps) auto
  with Suc.prems Suc.IH [of p qs] show ?case by simp
qed simp

lemma rep_dseg: "rep h l ps \<Longrightarrow> ps \<noteq> [] \<Longrightarrow>
    l_head l = Some (fst (hd ps)) \<and> dseg h (fst (last ps)) ps (fst (hd ps))"
  by (simp add: rep_def)

lemma first_of_hd: "ps \<noteq> [] \<Longrightarrow> first_of ps b = fst (hd ps)"
  by (cases ps) auto

lemma first_of_drop: "k < length ps \<Longrightarrow> first_of (drop k ps) b = fst (ps ! k)"
  by (simp add: first_of_hd hd_drop_conv_nth)

lemma walk_rep:
  assumes "rep h l ps" "ps \<noteq> []"
  shows "walk h k (fst (hd ps)) = Inr (fst (ps ! (k mod length ps)))"
proof (induction k rule: less_induct)
  case (less k)
  note w = walk_dseg [of h "fst (last ps)" ps "fst (hd ps)"]
  show ?case
  proof (cases "k < length ps")
    case True
    then show ?thesis using w [of k] rep_dseg [OF assms] assms(2)
      by (simp add: first_of_hd first_of_drop hd_drop_conv_nth)
  next
    case False
    then have "walk h k (fst (hd ps)) = walk h (k - length ps) (fst (hd ps))"
      using walk_add [of h "length ps" "k - length ps"] w [of "length ps"] rep_dseg [OF assms] assms(2)
      by (simp add: first_of_hd)
    with less [of "k - length ps"] False assms(2) show ?thesis
      by (cases ps) (simp_all add: le_mod_geq)
  qed
qed

lemma dseg_nth: "dseg h a ps b \<Longrightarrow> i < length ps \<Longrightarrow> \<exists>n. h (fst (ps ! i)) = Some n \<and> n_data n = snd (ps ! i)"
proof (induction h a ps b arbitrary: i rule: dseg.induct)
  case (2 h a p x ps b)
  then show ?case by (cases i) auto
qed simp

lemma klist_nth_rep:
  assumes "rep h l ps" "ps \<noteq> []"
  shows "klist_nth h l i = Inr (snd (ps ! (i mod length ps)))"
proof -
  obtain n where "h (fst (ps ! (i mod length ps))) = Some n" "n_data n = snd (ps ! (i mod length ps))"
    using dseg_nth [of h _ ps _ "i mod length ps"] rep_dseg [OF assms] assms(2) by auto
  then show ?thesis
    using walk_rep [OF assms, of i] rep_dseg [OF assms] by (simp add: klist_nth_def deref_head_def)
qed

lemma klist_nth_empty: "rep h l [] \<Longrightarrow> klist_nth h l i = Inl (Fault ''null head'')"
  by (simp add: klist_nth_def rep_Nil deref_head_def)

lemma klist_erase_rep:
  assumes "rep h l ps" "i < length ps"
  shows "\<exists>h' l'. klist_erase i h l = Inr (True, h', l') \<and> rep h' l' (take i ps @ drop (Suc i) ps) \<and>
    dom h' = dom h - {fst (ps ! i)} \<and> same_outside (fst ` set ps) h h'"
proof -
  have ps: "ps = take i ps @ (fst (ps ! i), snd (ps ! i)) # drop (Suc i) ps"
    using assms(2) by (simp add: id_take_nth_drop)
  have ne: "ps \<noteq> []" and sz: "l_size l = length ps" using assms by (auto simp: rep_def)
  have *: "klist_erase i h l = klist_remove_node (Some (fst (ps ! i))) h l"
    using walk_rep [OF assms(1) ne, of i] rep_dseg [OF assms(1) ne] assms(2) sz ne
    by (simp add: klist_erase_def klist_empty_def deref_head_def)
  have "insert (fst (ps ! i)) (fst ` set (take i ps @ drop (Suc i) ps)) \<subseteq> fst ` set ps"
    using assms(2) by (auto dest: in_set_takeD in_set_dropD)
  with klist_remove_node_rep [of h l "take i ps" "fst (ps ! i)" "snd (ps ! i)" "drop (Suc i) ps"]
  show ?thesis using assms(1) unfolding * ps [symmetric] by (blast intro: same_outside_mono)
qed

lemma klist_erase_out_of_range: "rep h l ps \<Longrightarrow> length ps \<le> i \<Longrightarrow> klist_erase i h l = Inr (False, h, l)"
  by (simp add: klist_erase_def rep_def)

lemma find_node_dseg:
  "dseg h a ps b \<Longrightarrow> find_node t h (length ps) (first_of ps b) = Inr (map_option fst (find (\<lambda>q. snd q = t) ps))"
  by (induction h a ps b rule: dseg.induct) auto

lemma find_Some_split:
  "find P xs = Some x \<Longrightarrow> \<exists>us vs. xs = us @ x # vs \<and> P x \<and> (\<forall>u \<in> set us. \<not> P u)"
proof (induction xs)
  case (Cons y ys)
  then show ?case
  proof (cases "P y")
    case False
    with Cons obtain us vs where "ys = us @ x # vs \<and> P x \<and> (\<forall>u \<in> set us. \<not> P u)" by auto
    with False have "y # ys = (y # us) @ x # vs \<and> P x \<and> (\<forall>u \<in> set (y # us). \<not> P u)" by simp
    then show ?thesis by blast
  qed force
qed simp

lemma remove1_map_split:
  "f x = t \<Longrightarrow> \<forall>u \<in> set us. f u \<noteq> t \<Longrightarrow> map f (us @ vs) = remove1 t (map f (us @ x # vs))"
  by (induction us) auto

lemma klist_remove_rep:
  assumes "rep h l ps"
  shows "\<exists>h' l' ps'. klist_remove t h l = Inr (t \<in> snd ` set ps, h', l') \<and> rep h' l' ps' \<and>
    map snd ps' = remove1 t (map snd ps) \<and> same_outside (fst ` set ps) h h'"
proof (cases "ps = []")
  case True
  then show ?thesis using assms by (auto simp: klist_remove_def)
next
  case ne: False
  have f: "klist_remove t h l = (case find (\<lambda>q. snd q = t) ps of None \<Rightarrow> Inr (False, h, l)
      | Some q \<Rightarrow> klist_remove_node (Some (fst q)) h l)"
    using find_node_dseg [of h "fst (last ps)" ps "fst (hd ps)" t] rep_dseg [OF assms ne] assms ne
    by (simp add: klist_remove_def klist_empty_def deref_head_def first_of_hd rep_def split: option.split)
  show ?thesis
  proof (cases "find (\<lambda>q. snd q = t) ps")
    case None
    then have "t \<notin> snd ` set ps" by (auto simp: find_None_iff)
    with f None assms show ?thesis by (auto simp: remove1_idem intro!: exI [of _ ps])
  next
    case (Some q)
    then obtain us vs where s: "ps = us @ q # vs" "snd q = t" "\<forall>u \<in> set us. snd u \<noteq> t"
      using find_Some_split [OF Some] by blast
    then have "t \<in> snd ` set ps" "insert (fst q) (fst ` set (us @ vs)) = fst ` set ps" by auto
    moreover have "map snd (us @ vs) = remove1 t (map snd ps)"
      using remove1_map_split [of snd q t us vs] s by simp
    moreover obtain h' l' where "klist_remove_node (Some (fst q)) h l = Inr (True, h', l')"
      "rep h' l' (us @ vs)" "same_outside (insert (fst q) (fst ` set (us @ vs))) h h'"
      using klist_remove_node_rep [of h l us "fst q" "snd q" vs] assms s(1) by auto
    ultimately show ?thesis using f Some by (intro exI [of _ h'] exI [of _ l'] exI [of _ "us @ vs"]) simp
  qed
qed

subsection \<open>Rotating, reversing and clearing\<close>

lemma klist_rotate_next_rep:
  assumes "rep h l (q # ps)"
  shows "\<exists>l'. klist_rotate_next h l = Inr l' \<and> rep h l' (ps @ [q])"
proof (cases q)
  case (Pair p x)
  with assms show ?thesis
    by (cases ps) (auto simp: klist_rotate_next_def klist_step rep_Cons)
qed

lemma klist_rotate_prev_rep:
  assumes "rep h l (ps @ [q])"
  shows "\<exists>l'. klist_rotate_prev h l = Inr l' \<and> rep h l' (q # ps)"
proof (cases q)
  case (Pair p x)
  with assms show ?thesis
    by (cases ps) (auto simp: klist_rotate_prev_def klist_step rep_Cons)
qed

definition swap_links :: "addr set \<Rightarrow> 'a lheap \<Rightarrow> 'a lheap" where
  "swap_links A h = (\<lambda>p. if p \<in> A then map_option (\<lambda>n. n\<lparr>n_next := n_prev n, n_prev := n_next n\<rparr>) (h p) else h p)"

lemma swap_links_empty [simp]: "swap_links {} h = h"
  by (simp add: swap_links_def)

lemma swap_links_insert:
  "h p = Some n \<Longrightarrow> p \<notin> A \<Longrightarrow>
   swap_links A (h(p \<mapsto> n\<lparr>n_next := n_prev n, n_prev := n_next n\<rparr>)) = swap_links (insert p A) h"
  by (rule ext) (simp add: swap_links_def)

lemma reverse_loop_dseg:
  "dseg h a ps b \<Longrightarrow> distinct (map fst ps) \<Longrightarrow>
   reverse_loop (length ps) (first_of ps b) h = Inr (swap_links (fst ` set ps) h)"
proof (induction ps arbitrary: h a)
  case (Cons q ps)
  obtain p x where q: "q = (p, x)" by (cases q)
  let ?n = "\<lparr>n_prev = a, n_next = first_of ps b, n_data = x\<rparr>"
  let ?h = "h(p \<mapsto> ?n\<lparr>n_next := n_prev ?n, n_prev := n_next ?n\<rparr>)"
  have p: "h p = Some ?n" "p \<notin> fst ` set ps" using Cons.prems q by auto
  have "dseg ?h p ps b" using Cons.prems p(2) q by simp
  then have "reverse_loop (length ps) (first_of ps b) ?h = Inr (swap_links (fst ` set ps) ?h)"
    by (rule Cons.IH) (use Cons.prems in simp)
  with swap_links_insert [of h p ?n, OF p] p(1) q show ?case by simp
qed simp

lemma last_of_rev: "last_of b (rev ps) = first_of ps b"
  by (cases ps) (auto simp: last_of_def)

lemma dseg_swap_links: "dseg h a ps b \<Longrightarrow> fst ` set ps \<subseteq> A \<Longrightarrow> dseg (swap_links A h) b (rev ps) a"
  by (induction h a ps b rule: dseg.induct) (simp_all add: last_of_rev swap_links_def)

lemma klist_reverse_rep:
  assumes "rep h l ps"
  shows "\<exists>h' l'. klist_reverse h l = Inr (h', l') \<and> rep h' l' (rev ps) \<and>
    dom h' = dom h \<and> same_outside (fst ` set ps) h h'"
proof (cases "ps = []")
  case True
  then show ?thesis using assms by (simp add: klist_reverse_def)
next
  case ne: False
  let ?h = "swap_links (fst ` set ps) h" and ?l = "l\<lparr>l_head := Some (fst (last ps))\<rparr>"
  have d: "l_head l = Some (fst (hd ps))" "dseg h (fst (last ps)) ps (fst (hd ps))"
    using rep_dseg [OF assms ne] by auto
  have sz: "l_size l = length ps" "distinct (map fst ps)" using assms by (auto simp: rep_def)
  have loop: "reverse_loop (length ps) (fst (hd ps)) h = Inr ?h"
    using reverse_loop_dseg [OF d(2) sz(2)] ne by (simp add: first_of_hd)
  have "\<exists>n. ?h (fst (hd ps)) = Some n \<and> n_next n = fst (last ps)"
    using d(2) ne by (cases ps) (auto simp: swap_links_def)
  then have "klist_reverse h l = Inr (?h, ?l)"
    using loop d(1) sz(1) ne by (auto simp: klist_reverse_def klist_empty_def deref_head_def)
  moreover have "rep ?h ?l (rev ps)"
    using dseg_swap_links [OF d(2) order_refl] sz ne by (simp add: rep_def hd_rev last_rev rev_map [symmetric])
  moreover have "dom ?h = dom h" "same_outside (fst ` set ps) h ?h"
    by (auto simp: swap_links_def same_outside_def split: if_splits)
  ultimately show ?thesis by blast
qed

lemma clear_loop_rep:
  "rep h l ps \<Longrightarrow> \<exists>h' l'. clear_loop (length ps) h l = Inr (h', l') \<and> rep h' l' [] \<and>
    dom h' = dom h - fst ` set ps \<and> same_outside (fst ` set ps) h h'"
proof (induction ps arbitrary: h l rule: rev_induct)
  case (snoc q ps)
  obtain h1 l1 where 1: "klist_pop_back h l = Inr (h1, l1)" "rep h1 l1 ps" "dom h1 = dom h - {fst q}"
      "same_outside (insert (fst q) (fst ` set ps)) h h1"
    using klist_pop_back_rep [of h l ps "fst q" "snd q"] snoc.prems by auto
  from snoc.IH [OF 1(2)] obtain h2 l2 where 2: "clear_loop (length ps) h1 l1 = Inr (h2, l2)" "rep h2 l2 []"
    "dom h2 = dom h1 - fst ` set ps" "same_outside (fst ` set ps) h1 h2" by blast
  have "same_outside (fst ` set (ps @ [q])) h h2"
    using same_outside_trans [OF 1(4) 2(4)] by (rule same_outside_mono) auto
  then show ?case using 1 2 snoc.prems by (auto simp del: rep_empty simp: klist_empty_def rep_def)
qed simp

lemma klist_clear_rep:
  "rep h l ps \<Longrightarrow> \<exists>h' l'. klist_clear h l = Inr (h', l') \<and> rep h' l' [] \<and>
    dom h' = dom h - fst ` set ps \<and> same_outside (fst ` set ps) h h'"
  using clear_loop_rep [of h l ps] by (simp add: klist_clear_def rep_def)

subsection \<open>Building and copying\<close>

lemma push_all_rep:
  "rep h l ps \<Longrightarrow> distinct ns \<Longrightarrow> set ns \<inter> dom h = {} \<Longrightarrow> length xs \<le> length ns \<Longrightarrow>
   \<exists>h' l'. push_all ns xs h l = Inr (h', l') \<and> rep h' l' (ps @ zip ns xs) \<and>
     same_outside (fst ` set ps \<union> set ns) h h'"
proof (induction xs arbitrary: ns h l ps)
  case (Cons x xs)
  then obtain n ns' where ns: "ns = n # ns'" by (cases ns) auto
  obtain h1 l1 where 1: "klist_push_back n x h l = Inr (h1, l1)" "rep h1 l1 (ps @ [(n, x)])"
      "dom h1 = insert n (dom h)" "same_outside (insert n (fst ` set ps)) h h1"
    using klist_push_back_rep [of h l ps n x] Cons.prems ns by auto
  obtain h2 l2 where 2: "push_all ns' xs h1 l1 = Inr (h2, l2)" "rep h2 l2 ((ps @ [(n, x)]) @ zip ns' xs)"
      "same_outside (fst ` set (ps @ [(n, x)]) \<union> set ns') h1 h2"
    using Cons.IH [OF 1(2), of ns'] Cons.prems ns 1(3) by auto
  have "same_outside (fst ` set ps \<union> set ns) h h2"
    using same_outside_trans [OF 1(4) 2(3)] by (rule same_outside_mono) (auto simp: ns)
  with 1 2 ns show ?case by simp
qed auto

lemma copy_loop_rep:
  "dseg h a qs b \<Longrightarrow> rep h l ts \<Longrightarrow> fst ` set ts \<inter> fst ` set qs = {} \<Longrightarrow> distinct ns \<Longrightarrow>
   set ns \<inter> dom h = {} \<Longrightarrow> length qs \<le> length ns \<Longrightarrow>
   \<exists>h' l'. copy_loop (length qs) ns (first_of qs b) h l = Inr (h', l') \<and>
     rep h' l' (ts @ zip ns (map snd qs)) \<and> same_outside (fst ` set ts \<union> set ns) h h'"
proof (induction qs arbitrary: a ns h l ts)
  case (Cons q qs)
  obtain p x where q: "q = (p, x)" by (cases q)
  from Cons.prems obtain n ns' where ns: "ns = n # ns'" by (cases ns) auto
  have dq: "fst ` set (q # qs) \<subseteq> dom h" using dseg_dom [OF Cons.prems(1)] .
  have hp: "h p = Some \<lparr>n_prev = a, n_next = first_of qs b, n_data = x\<rparr>" "dseg h p qs b"
    using Cons.prems(1) q by auto
  obtain h1 l1 where 1: "klist_push_back n x h l = Inr (h1, l1)" "rep h1 l1 (ts @ [(n, x)])"
      "dom h1 = insert n (dom h)" "same_outside (insert n (fst ` set ts)) h h1"
    using klist_push_back_rep [of h l ts n x] Cons.prems ns by auto
  have same: "\<forall>r \<in> fst ` set (q # qs). h r = h1 r"
    using 1(4) Cons.prems(3,5) dq ns unfolding same_outside_def by (metis disjoint_iff insert_iff list.set_intros(1) subsetD)
  then have d1: "dseg h1 p qs b" using dseg_cong [of qs h h1] hp(2) by simp
  have "n \<notin> fst ` set (q # qs)" using dq Cons.prems(5) ns by auto
  then have "fst ` set (ts @ [(n, x)]) \<inter> fst ` set qs = {}" using Cons.prems(3) by auto
  with Cons.IH [OF d1 1(2), of ns'] Cons.prems ns 1(3)
  obtain h2 l2 where 2: "copy_loop (length qs) ns' (first_of qs b) h1 l1 = Inr (h2, l2)"
      "rep h2 l2 ((ts @ [(n, x)]) @ zip ns' (map snd qs))"
      "same_outside (fst ` set (ts @ [(n, x)]) \<union> set ns') h1 h2" by auto
  have "same_outside (fst ` set ts \<union> set ns) h h2"
    using same_outside_trans [OF 1(4) 2(3)] by (rule same_outside_mono) (auto simp: ns)
  with 1 2 ns hp q same show ?case by simp
qed auto

lemma klist_copy_rep:
  assumes "rep h other ps" "distinct ns" "set ns \<inter> dom h = {}" "length ps \<le> length ns"
  shows "\<exists>h' l'. klist_copy ns h other = Inr (h', l') \<and> rep h' l' (zip ns (map snd ps)) \<and> same_outside (set ns) h h'"
proof (cases "ps = []")
  case True
  then show ?thesis using assms by (auto simp: klist_copy_def)
next
  case ne: False
  have "l_size other = length ps" using assms(1) by (simp add: rep_def)
  with rep_dseg [OF assms(1) ne] copy_loop_rep [of h "fst (last ps)" ps "fst (hd ps)" klist_new "[]" ns] assms
  show ?thesis using ne by (simp add: klist_copy_def deref_head_def first_of_hd)
qed

lemma klist_assign_rep:
  assumes "rep h l ts" "rep h other ps" "fst ` set ts \<inter> fst ` set ps = {}"
    "distinct ns" "set ns \<inter> dom h = {}" "length ps \<le> length ns"
  shows "\<exists>h' l'. klist_assign ns h l other = Inr (h', l') \<and> rep h' l' (zip ns (map snd ps)) \<and> rep h' other ps"
proof -
  obtain h1 l1 where 1: "klist_clear h l = Inr (h1, l1)" "rep h1 l1 []" "dom h1 = dom h - fst ` set ts"
      "same_outside (fst ` set ts) h h1"
    using klist_clear_rep [OF assms(1)] by blast
  have o: "rep h1 other ps" by (rule rep_same_outside [OF 1(4) assms(3,2)])
  show ?thesis
  proof (cases "ps = []")
    case True
    then show ?thesis using 1 o by (simp add: klist_assign_def rep_Nil)
  next
    case ne: False
    have "set ns \<inter> dom h1 = {}" using 1(3) assms(5) by auto
    then obtain h2 l2 where 2: "copy_loop (length ps) ns (fst (hd ps)) h1 l1 = Inr (h2, l2)"
        "rep h2 l2 (zip ns (map snd ps))" "same_outside (set ns) h1 h2"
      using copy_loop_rep [of h1 "fst (last ps)" ps "fst (hd ps)" l1 "[]" ns] rep_dseg [OF o ne] 1 assms ne
      by (auto simp: first_of_hd)
    moreover have "rep h2 other ps"
      using rep_same_outside [OF 2(3) _ o] rep_dom [OF assms(2)] assms(5) by blast
    ultimately show ?thesis using 1 o ne by (auto simp: klist_assign_def rep_def deref_head_def)
  qed
qed

section \<open>The queue interface\<close>

text \<open>
  What the ready queue of the scheduler asks of its container: a first-in first-out queue over
  states \<open>s\<close>, related to its contents by \<open>R\<close>. \<open>fresh s n\<close> says that the address \<open>n\<close> that the
  allocator returned is not in use.
\<close>

locale fifo_queue =
  fixes R :: "'s \<Rightarrow> 'a list \<Rightarrow> bool"
    and fresh :: "'s \<Rightarrow> 'n \<Rightarrow> bool"
    and enq :: "'n \<Rightarrow> 'a \<Rightarrow> 's \<Rightarrow> 's kres"
    and deq :: "'s \<Rightarrow> 's kres"
    and first :: "'s \<Rightarrow> 'a kres"
    and is_empty :: "'s \<Rightarrow> bool"
  assumes enq: "R s xs \<Longrightarrow> fresh s n \<Longrightarrow> \<exists>s'. enq n x s = Inr s' \<and> R s' (xs @ [x])"
    and deq: "R s (x # xs) \<Longrightarrow> \<exists>s'. deq s = Inr s' \<and> R s' xs"
    and first: "R s (x # xs) \<Longrightarrow> first s = Inr x"
    and is_empty: "R s xs \<Longrightarrow> is_empty s \<longleftrightarrow> xs = []"
begin

lemma not_empty: "R s (x # xs) \<Longrightarrow> \<not> is_empty s"
  by (simp add: is_empty)

lemma serve: "R s (x # xs) \<Longrightarrow> \<exists>s'. kbind (first s) (\<lambda>y. kbind (deq s) (\<lambda>t. Inr (y, t))) = Inr (x, s') \<and> R s' xs"
  using first deq by fastforce

end

definition klq_rep :: "'a lheap \<times> klist \<Rightarrow> 'a list \<Rightarrow> bool" where
  "klq_rep s xs \<longleftrightarrow> (\<exists>ps. rep (fst s) (snd s) ps \<and> map snd ps = xs)"

interpretation klq: fifo_queue klq_rep "\<lambda>s n. n \<notin> dom (fst s)" "\<lambda>n x (h, l). klist_push_back n x h l"
  "\<lambda>(h, l). klist_pop_front h l" "\<lambda>(h, l). klist_front h l" "\<lambda>(h, l). klist_empty l"
proof unfold_locales
  fix s :: "'a lheap \<times> klist" and xs n and x :: 'a
  assume "klq_rep s xs" "n \<notin> dom (fst s)"
  then obtain ps where "rep (fst s) (snd s) ps" "map snd ps = xs" by (auto simp: klq_rep_def)
  from klist_push_back_rep [OF this(1), of n x] this(2) \<open>n \<notin> dom (fst s)\<close>
  show "\<exists>s'. (case s of (h, l) \<Rightarrow> klist_push_back n x h l) = Inr s' \<and> klq_rep s' (xs @ [x])"
    by (fastforce simp: klq_rep_def split_beta intro: exI [of _ "ps @ [(n, x)]"])
next
  fix s :: "'a lheap \<times> klist" and xs and x :: 'a
  assume "klq_rep s (x # xs)"
  then obtain p ps where r: "rep (fst s) (snd s) ((p, x) # ps)" "map snd ps = xs" by (auto simp: klq_rep_def)
  from klist_pop_front_rep [OF r(1)] r(2)
  show "\<exists>s'. (case s of (h, l) \<Rightarrow> klist_pop_front h l) = Inr s' \<and> klq_rep s' xs"
    by (fastforce simp: klq_rep_def split_beta)
  show "(case s of (h, l) \<Rightarrow> klist_front h l) = Inr x"
    using klist_front_rep [OF r(1)] by (simp add: split_beta)
next
  fix s :: "'a lheap \<times> klist" and xs
  assume "klq_rep s xs"
  then show "(case s of (h, l) \<Rightarrow> klist_empty l) \<longleftrightarrow> xs = []"
    by (auto simp: klq_rep_def split_beta)
qed

section \<open>Properties\<close>

text \<open>
  C31: on a well-formed list with nodes \<open>ps\<close>, \<^verbatim>\<open>push_front\<close> and \<^verbatim>\<open>push_back\<close> (with an unused address
  from \<^verbatim>\<open>new\<close>), \<^verbatim>\<open>reverse\<close> and \<^verbatim>\<open>clear\<close> all succeed, and give a well-formed list whose elements are
  those of the list operation; \<^verbatim>\<open>clear\<close> frees exactly the nodes of the list, and no operation
  writes to a node that is not the list's own.
\<close>

theorem klist_updates_refine:
  assumes "rep h l ps" "n \<notin> dom h"
  shows "(\<exists>h' l'. klist_push_front n t h l = Inr (h', l') \<and> rep h' l' ((n, t) # ps) \<and>
            same_outside (insert n (fst ` set ps)) h h') \<and>
    (\<exists>h' l'. klist_push_back n t h l = Inr (h', l') \<and> rep h' l' (ps @ [(n, t)]) \<and>
            same_outside (insert n (fst ` set ps)) h h') \<and>
    (\<exists>h' l'. klist_reverse h l = Inr (h', l') \<and> rep h' l' (rev ps) \<and>
            dom h' = dom h \<and> same_outside (fst ` set ps) h h') \<and>
    (\<exists>h' l'. klist_clear h l = Inr (h', l') \<and> rep h' l' [] \<and>
            dom h' = dom h - fst ` set ps \<and> same_outside (fst ` set ps) h h')"
  using klist_push_front_rep [OF assms, of t] klist_push_back_rep [OF assms, of t]
  by (intro conjI klist_reverse_rep [OF assms(1)] klist_clear_rep [OF assms(1)]) blast+

text \<open>A list of two elements, built by the operations, that the witnesses below use.\<close>

definition ex_heap :: "nat lheap" where
  "ex_heap = [1 \<mapsto> \<lparr>n_prev = 2, n_next = 2, n_data = 10\<rparr>, 2 \<mapsto> \<lparr>n_prev = 1, n_next = 1, n_data = 20\<rparr>]"

definition ex_list :: klist where
  "ex_list = \<lparr>l_head = Some 1, l_size = 2\<rparr>"

lemma ex_rep: "rep ex_heap ex_list [(1, 10), (2, 20)]"
  by (simp add: rep_def ex_heap_def ex_list_def)

lemma ex_built: "klist_init [1, 2] [10, 20] Map.empty = Inr (ex_heap, ex_list)"
  by (simp add: klist_init_def klist_new_def klist_push_back_def klist_step ex_heap_def ex_list_def fun_upd_twist)

lemma ex_fresh: "n \<notin> {1, 2} \<Longrightarrow> n \<notin> dom ex_heap"
  by (simp add: ex_heap_def)

theorem klist_updates_refine_witness:
  "\<exists>h' l'. klist_reverse ex_heap ex_list = Inr (h', l') \<and> rep h' l' [(2, 20), (1, 10)]"
  using klist_updates_refine [OF ex_rep, of 3 30] ex_fresh [of 3] by auto

text \<open>
\<^verbatim>\<open>pop_front\<close>, \<^verbatim>\<open>pop_back\<close>, \<^verbatim>\<open>erase(i)\<close> and \<^verbatim>\<open>remove(t)\<close> on a well-formed list take out the first, the
  last, the \<open>i\<close>-th element and the first occurrence of \<open>t\<close>, leave the list well formed, free
  the node taken out and touch no other list; \<^verbatim>\<open>erase\<close> past the end changes nothing and returns
  false, as does \<^verbatim>\<open>remove\<close> of an element that is not there.
\<close>

theorem klist_removals_refine:
  assumes "rep h l ps"
  shows "(ps \<noteq> [] \<longrightarrow> (\<exists>h' l'. klist_pop_front h l = Inr (h', l') \<and> rep h' l' (tl ps) \<and> dom h' = dom h - {fst (hd ps)})) \<and>
    (ps \<noteq> [] \<longrightarrow> (\<exists>h' l'. klist_pop_back h l = Inr (h', l') \<and> rep h' l' (butlast ps) \<and> dom h' = dom h - {fst (last ps)})) \<and>
    (i < length ps \<longrightarrow> (\<exists>h' l'. klist_erase i h l = Inr (True, h', l') \<and> rep h' l' (take i ps @ drop (Suc i) ps) \<and>
       dom h' = dom h - {fst (ps ! i)} \<and> same_outside (fst ` set ps) h h')) \<and>
    (length ps \<le> i \<longrightarrow> klist_erase i h l = Inr (False, h, l)) \<and>
    (\<exists>h' l' ps'. klist_remove t h l = Inr (t \<in> snd ` set ps, h', l') \<and> rep h' l' ps' \<and>
       map snd ps' = remove1 t (map snd ps) \<and> same_outside (fst ` set ps) h h')"
proof -
  have "\<exists>h' l'. klist_pop_front h l = Inr (h', l') \<and> rep h' l' (tl ps) \<and> dom h' = dom h - {fst (hd ps)}"
    if "ps \<noteq> []" using that assms klist_pop_front_rep [of h l "fst (hd ps)" "snd (hd ps)" "tl ps"] by auto
  moreover have "\<exists>h' l'. klist_pop_back h l = Inr (h', l') \<and> rep h' l' (butlast ps) \<and> dom h' = dom h - {fst (last ps)}"
    if "ps \<noteq> []" using that assms klist_pop_back_rep [of h l "butlast ps" "fst (last ps)" "snd (last ps)"] by auto
  ultimately show ?thesis
    using klist_erase_rep [OF assms, of i] klist_erase_out_of_range [OF assms, of i] klist_remove_rep [OF assms, of t]
    by blast
qed

text \<open>
  Copying is deep. The copy constructor and copy assignment (to a list with other nodes) give
  a well-formed list with the same elements in the same order in fresh nodes, and leave the source
  as it was, with its own nodes.
\<close>

theorem klist_copy_deep:
  assumes "rep h other ps" "distinct ns" "set ns \<inter> dom h = {}" "length ps \<le> length ns"
    and "rep h l ts" "fst ` set ts \<inter> fst ` set ps = {}"
  shows "(\<exists>h' l' qs. klist_copy ns h other = Inr (h', l') \<and> rep h' l' qs \<and> map snd qs = map snd ps \<and>
            fst ` set qs \<subseteq> set ns \<and> rep h' other ps) \<and>
    (\<exists>h' l' qs. klist_assign ns h l other = Inr (h', l') \<and> rep h' l' qs \<and> map snd qs = map snd ps \<and>
            fst ` set qs \<subseteq> set ns \<and> rep h' other ps)"
proof -
  have z: "map snd (zip ns (map snd ps)) = map snd ps" "fst ` set (zip ns (map snd ps)) \<subseteq> set ns"
    using assms(4) by (simp_all add: set_zip_leftD subset_iff image_iff min_def map_snd_zip_take) (auto dest: set_zip_leftD)
  obtain h' l' where c: "klist_copy ns h other = Inr (h', l')" "rep h' l' (zip ns (map snd ps))" "same_outside (set ns) h h'"
    using klist_copy_rep [OF assms(1-4)] by blast
  have "rep h' other ps" using rep_same_outside [OF c(3) _ assms(1)] rep_dom [OF assms(1)] assms(3) by blast
  with c z klist_assign_rep [OF assms(5,1,6,2-4)] show ?thesis by blast
qed

text \<open>
  Indexing never leaves the ring: \<^verbatim>\<open>operator[](pos)\<close> on a list with elements reads the element at
  \<open>pos mod size()\<close>, and on an empty list follows the null head.
\<close>

theorem klist_index_wraps:
  assumes "rep h l ps"
  shows "klist_nth h l i = (if ps = [] then Inl (Fault ''null head'') else Inr (map snd ps ! (i mod l_size l)))"
  using assms klist_nth_rep [OF assms, of i] klist_nth_empty [of h l i] by (cases "ps = []") (auto simp: rep_def)

end
