(* ===== verification/Kvector.thy ===== *)
theory Kvector
  imports Kernel_Prelude
begin

text \<open>
  The growable array \<^verbatim>\<open>kvector\<close> (\<^verbatim>\<open>include/containers/kvector.hpp\<close>). The buffer \<^verbatim>\<open>_data\<close> is a list
  of cells, \<open>None\<close> for raw memory that holds no constructed element; reading a raw cell or going
  past the buffer is a \<open>Fault\<close>. An element that is destroyed, trivially or not, leaves a raw cell. \<^verbatim>\<open>kalloc\<close> does not return when memory runs out (the frame
  allocator panics), so the operations describe the runs in which it returns, and sizes are
  natural numbers: a vector fits in the 2 GiB that the frame allocator manages. Where the source
  computes \<^verbatim>\<open>_size - 1\<close> on an empty vector the wrap-around is written out.

  \<open>vec_ok\<close> is the class invariant and \<open>vec_list\<close> the list of elements a vector stands for.
\<close>

record 'a kvector =
  v_data :: "'a option list"
  v_size :: nat
  v_capacity :: nat

definition INITIAL_CAPACITY :: nat where
  "INITIAL_CAPACITY = 16"

definition GROWTH_RATE :: nat where
  "GROWTH_RATE = 2"

section \<open>The operations\<close>

definition v_read :: "'a kvector \<Rightarrow> nat \<Rightarrow> 'a kres" where
  "v_read v i = (if i < length (v_data v)
     then (case v_data v ! i of None \<Rightarrow> Inl (Fault ''raw cell'') | Some x \<Rightarrow> Inr x)
     else Inl (Fault ''out of bounds''))"

definition v_write :: "nat \<Rightarrow> 'a \<Rightarrow> 'a kvector \<Rightarrow> 'a kvector kres" where
  "v_write i x v = (if i < length (v_data v) then Inr (v\<lparr>v_data := (v_data v)[i := Some x]\<rparr>)
     else Inl (Fault ''out of bounds''))"

definition kvector_new :: "'a kvector" where
  "kvector_new = \<lparr>v_data = [], v_size = 0, v_capacity = 0\<rparr>"

definition kvector_empty :: "'a kvector \<Rightarrow> bool" where
  "kvector_empty v \<longleftrightarrow> v_size v = 0"

definition grow :: "'a kvector \<Rightarrow> 'a kvector" where
  "grow v = (let new_capacity = (if v_capacity v = 0 then INITIAL_CAPACITY else v_capacity v * GROWTH_RATE)
     in v\<lparr>v_data := take (v_size v) (v_data v) @ replicate (new_capacity - v_size v) None,
          v_capacity := new_capacity\<rparr>)"

lemma grow_capacity: "v_capacity (grow v) = (if v_capacity v = 0 then 16 else 2 * v_capacity v)"
  by (simp add: grow_def INITIAL_CAPACITY_def GROWTH_RATE_def Let_def)

function ensure_capacity :: "nat \<Rightarrow> 'a kvector \<Rightarrow> 'a kvector" where
  "ensure_capacity new_capacity v =
    (if v_capacity v < new_capacity then ensure_capacity new_capacity (grow v) else v)"
  by pat_completeness auto
termination
  by (relation "measure (\<lambda>(n, v). n - v_capacity v)") (auto simp: grow_capacity)

declare ensure_capacity.simps [simp del]

definition kvector_reserve :: "nat \<Rightarrow> 'a kvector \<Rightarrow> 'a kvector" where
  "kvector_reserve n v = ensure_capacity n v"

definition kvector_push_back :: "'a \<Rightarrow> 'a kvector \<Rightarrow> 'a kvector kres" where
  "kvector_push_back t v = (let v1 = ensure_capacity (v_size v + 1) v
     in kbind (v_write (v_size v1) t v1) (\<lambda>v2. Inr (v2\<lparr>v_size := v_size v2 + 1\<rparr>)))"

definition kvector_pop_back :: "'a kvector \<Rightarrow> 'a kvector" where
  "kvector_pop_back v = (if kvector_empty v then v
     else v\<lparr>v_size := v_size v - 1, v_data := (v_data v)[v_size v - 1 := None]\<rparr>)"

definition kvector_clear :: "'a kvector \<Rightarrow> 'a kvector" where
  "kvector_clear v = (if kvector_empty v then v
     else v\<lparr>v_data := replicate (v_size v) None @ drop (v_size v) (v_data v), v_size := 0\<rparr>)"

definition kvector_front :: "'a kvector \<Rightarrow> 'a kres" where
  "kvector_front v = v_read v 0"

definition kvector_back :: "'a kvector \<Rightarrow> 'a kres" where
  "kvector_back v = (if v_size v = 0 then Inl (Fault ''out of bounds'') else v_read v (v_size v - 1))"

text \<open>\<open>debug\<close> is the build option \<^verbatim>\<open>KERNEL_DEBUG\<close>, off by default.\<close>

definition kvector_nth :: "bool \<Rightarrow> 'a kvector \<Rightarrow> nat \<Rightarrow> 'a kres" where
  "kvector_nth debug v i = (if debug \<and> i \<ge> v_size v then Inl (Panic ''kvector: index out of bounds'')
     else v_read v i)"

text \<open>The elements of an initializer list, or of another vector, constructed one after the other.\<close>

primrec construct_all :: "'a list \<Rightarrow> 'a kvector \<Rightarrow> 'a kvector kres" where
  "construct_all [] v = Inr v"
| "construct_all (x # xs) v = kbind (v_write (v_size v) x v) (\<lambda>v1. construct_all xs (v1\<lparr>v_size := v_size v1 + 1\<rparr>))"

primrec push_back_all :: "'a list \<Rightarrow> 'a kvector \<Rightarrow> 'a kvector kres" where
  "push_back_all [] v = Inr v"
| "push_back_all (x # xs) v = kbind (kvector_push_back x v) (push_back_all xs)"

definition kvector_init :: "'a list \<Rightarrow> 'a kvector kres" where
  "kvector_init xs = construct_all xs (ensure_capacity (length xs) kvector_new)"

definition kvector_fill :: "nat \<Rightarrow> 'a \<Rightarrow> 'a kvector kres" where
  "kvector_fill n x = push_back_all (replicate n x) (ensure_capacity n kvector_new)"

text \<open>
  The copy loop, or \<^verbatim>\<open>memcpy\<close>: \<open>k\<close> elements of \<open>other\<close> from index \<open>i\<close> on, into the cells of \<open>v\<close>
  with the same indices.
\<close>

primrec copy_cells :: "nat \<Rightarrow> nat \<Rightarrow> 'a kvector \<Rightarrow> 'a kvector \<Rightarrow> 'a kvector kres" where
  "copy_cells 0 i other v = Inr v"
| "copy_cells (Suc k) i other v = kbind (v_read other i) (\<lambda>x. kbind (v_write i x v) (copy_cells k (i + 1) other))"

definition kvector_copy :: "'a kvector \<Rightarrow> 'a kvector kres" where
  "kvector_copy other = (if kvector_empty other then Inr kvector_new
     else kbind (copy_cells (v_size other) 0 other (ensure_capacity (v_size other) kvector_new))
       (\<lambda>v. Inr (v\<lparr>v_size := v_size other\<rparr>)))"

definition kvector_assign :: "'a kvector \<Rightarrow> 'a kvector \<Rightarrow> 'a kvector kres" where
  "kvector_assign v other =
    (let v1 = (kvector_clear v)\<lparr>v_data := [], v_capacity := 0\<rparr>
     in kbind (copy_cells (v_size other) 0 other (ensure_capacity (v_size other) v1))
          (\<lambda>v2. Inr (v2\<lparr>v_size := v_size other\<rparr>)))"

definition kvector_assign_init :: "'a kvector \<Rightarrow> 'a list \<Rightarrow> 'a kvector kres" where
  "kvector_assign_init v xs = push_back_all xs (ensure_capacity (length xs) (kvector_clear v))"

definition kvector_move :: "'a kvector \<Rightarrow> 'a kvector \<times> 'a kvector" where
  "kvector_move other = (other, other\<lparr>v_data := [], v_size := 0, v_capacity := 0\<rparr>)"

text \<open>\<open>dflt\<close> is the value-initialised element \<^verbatim>\<open>T{}\<close>.\<close>

primrec construct_from :: "'a \<Rightarrow> nat \<Rightarrow> nat \<Rightarrow> 'a kvector \<Rightarrow> 'a kvector kres" where
  "construct_from dflt 0 i v = Inr v"
| "construct_from dflt (Suc k) i v = kbind (v_write i dflt v) (construct_from dflt k (i + 1))"

definition kvector_resize :: "'a \<Rightarrow> nat \<Rightarrow> 'a kvector \<Rightarrow> 'a kvector kres" where
  "kvector_resize dflt new_size v = (if new_size \<le> v_size v then Inr v
     else kbind (construct_from dflt (new_size - v_size v) (v_size v) (ensure_capacity new_size v))
       (\<lambda>v1. Inr (v1\<lparr>v_size := new_size\<rparr>)))"

text \<open>\<open>shift_loop i n\<close> runs the body of \<^verbatim>\<open>erase\<close> for the indices \<open>i\<close>, \<open>i + 1\<close>, ... below \<open>n\<close>.\<close>

function shift_loop :: "nat \<Rightarrow> nat \<Rightarrow> 'a kvector \<Rightarrow> 'a kvector kres" where
  "shift_loop i n v = (if i < n then kbind (v_read v (i + 1)) (\<lambda>x. kbind (v_write i x v) (shift_loop (i + 1) n)) else Inr v)"
  by pat_completeness auto
termination
  by (relation "measure (\<lambda>(i, n, v). n - i)") auto

declare shift_loop.simps [simp del]

definition kvector_erase :: "nat \<Rightarrow> 'a kvector \<Rightarrow> 'a kvector kres" where
  "kvector_erase pos v = (if pos \<ge> v_size v then Inr v
     else kbind (shift_loop pos (v_size v - 1) v) (\<lambda>v1. Inr (v1\<lparr>v_size := v_size v1 - 1\<rparr>)))"

function bubble_loop :: "nat \<Rightarrow> nat \<Rightarrow> 'a kvector \<Rightarrow> 'a kvector kres" where
  "bubble_loop i n v = (if i < n
     then kbind (v_read v i) (\<lambda>temp. kbind (v_read v (i + 1)) (\<lambda>x.
       kbind (v_write i x v) (\<lambda>v1. kbind (v_write (i + 1) temp v1) (bubble_loop (i + 1) n))))
     else Inr v)"
  by pat_completeness auto
termination
  by (relation "measure (\<lambda>(i, n, v). n - i)") auto

declare bubble_loop.simps [simp del]

definition kvector_move_to_end :: "nat \<Rightarrow> 'a kvector \<Rightarrow> 'a kvector kres" where
  "kvector_move_to_end pos v = bubble_loop pos (if v_size v = 0 then 2 ^ 64 - 1 else v_size v - 1) v"

section \<open>The invariant and the elements\<close>

definition vec_ok :: "'a kvector \<Rightarrow> bool" where
  "vec_ok v \<longleftrightarrow> v_size v \<le> v_capacity v \<and> length (v_data v) = v_capacity v \<and>
     (\<forall>i < v_size v. v_data v ! i \<noteq> None)"

definition vec_list :: "'a kvector \<Rightarrow> 'a list" where
  "vec_list v = map the (take (v_size v) (v_data v))"

lemma length_vec_list [simp]: "vec_ok v \<Longrightarrow> length (vec_list v) = v_size v"
  by (simp add: vec_ok_def vec_list_def)

text \<open>The cells of a well-formed vector: its elements and then the rest of the buffer.\<close>

lemma vec_cells:
  assumes "vec_ok v"
  shows "v_data v = map Some (vec_list v) @ drop (v_size v) (v_data v)"
proof -
  have "map (Some \<circ> the) (take (v_size v) (v_data v)) = take (v_size v) (v_data v)"
    using assms by (intro map_idI) (auto simp: vec_ok_def in_set_conv_nth)
  then have e: "map Some (vec_list v) = take (v_size v) (v_data v)" unfolding vec_list_def map_map .
  show ?thesis unfolding e append_take_drop_id ..
qed

lemma vec_repI:
  "v_data v = map Some xs @ rest \<Longrightarrow> v_size v = length xs \<Longrightarrow> v_capacity v = length xs + length rest \<Longrightarrow>
   vec_ok v \<and> vec_list v = xs"
  by (simp add: vec_ok_def vec_list_def nth_append comp_def)

lemma vec_repE:
  assumes "vec_ok v"
  obtains rest where "v_data v = map Some (vec_list v) @ rest" "v_size v = length (vec_list v)"
    "v_capacity v = length (vec_list v) + length rest"
proof (rule that [OF vec_cells [OF assms]])
  show "v_size v = length (vec_list v)" using assms by simp
  show "v_capacity v = length (vec_list v) + length (drop (v_size v) (v_data v))"
    using assms length_vec_list [OF assms] by (simp add: vec_ok_def)
qed

lemma v_read_rep: "v_data v = map Some xs @ rest \<Longrightarrow> i < length xs \<Longrightarrow> v_read v i = Inr (xs ! i)"
  by (simp add: v_read_def nth_append)

lemma v_write_rep: "v_data v = map Some xs @ rest \<Longrightarrow> i < length xs \<Longrightarrow>
    v_write i y v = Inr (v\<lparr>v_data := map Some (xs[i := y]) @ rest\<rparr>)"
  by (simp add: v_write_def list_update_append1 map_update)

lemma v_write_next: "v_data v = map Some xs @ r # rest \<Longrightarrow>
    v_write (length xs) y v = Inr (v\<lparr>v_data := map Some (xs @ [y]) @ rest\<rparr>)"
  by (simp add: v_write_def list_update_append)

lemma grow_rep:
  assumes "vec_ok v"
  shows "vec_ok (grow v) \<and> vec_list (grow v) = vec_list v"
proof -
  obtain rest where "v_data v = map Some (vec_list v) @ rest" "v_size v = length (vec_list v)"
    "v_capacity v = length (vec_list v) + length rest" by (rule vec_repE [OF assms])
  then show ?thesis
    by (intro vec_repI [of _ _ "replicate (v_capacity (grow v) - v_size v) None"])
       (simp_all add: grow_def INITIAL_CAPACITY_def GROWTH_RATE_def Let_def)
qed

lemma ensure_capacity_rep:
  "vec_ok v \<Longrightarrow> vec_ok (ensure_capacity n v) \<and> vec_list (ensure_capacity n v) = vec_list v \<and>
     n \<le> v_capacity (ensure_capacity n v)"
  by (induction n v rule: ensure_capacity.induct) (subst (1 2 3) ensure_capacity.simps, simp add: grow_rep)


lemma kvector_new_rep [simp]: "vec_ok kvector_new" "vec_list kvector_new = []"
  by (simp_all add: vec_ok_def vec_list_def kvector_new_def)

section \<open>What the operations do\<close>

lemma kvector_push_back_rep:
  assumes "vec_ok v"
  shows "\<exists>v'. kvector_push_back t v = Inr v' \<and> vec_ok v' \<and> vec_list v' = vec_list v @ [t]"
proof -
  let ?w = "ensure_capacity (v_size v + 1) v"
  have w: "vec_ok ?w" "vec_list ?w = vec_list v" "v_size v + 1 \<le> v_capacity ?w"
    using ensure_capacity_rep [OF assms, of "v_size v + 1"] by auto
  obtain rest where r: "v_data ?w = map Some (vec_list v) @ rest" "v_size ?w = length (vec_list v)"
      "v_capacity ?w = length (vec_list v) + length rest"
    using vec_repE [OF w(1)] w(2) by metis
  then obtain c rest' where "rest = c # rest'" using w(3) assms by (cases rest) auto
  note c = this
  let ?v = "?w\<lparr>v_data := map Some (vec_list v @ [t]) @ rest', v_size := v_size ?w + 1\<rparr>"
  have "vec_ok ?v \<and> vec_list ?v = vec_list v @ [t]"
    using r c by (intro vec_repI [of _ _ rest']) simp_all
  with r c v_write_next [of ?w "vec_list v" c rest' t] show ?thesis
    by (simp add: kvector_push_back_def Let_def)
qed

lemma push_back_all_rep:
  "vec_ok v \<Longrightarrow> \<exists>v'. push_back_all xs v = Inr v' \<and> vec_ok v' \<and> vec_list v' = vec_list v @ xs"
proof (induction xs arbitrary: v)
  case (Cons x xs)
  from kvector_push_back_rep [OF Cons.prems, of x] Cons.IH show ?case by fastforce
qed simp

lemma construct_all_rep:
  "vec_ok v \<Longrightarrow> v_size v + length xs \<le> v_capacity v \<Longrightarrow>
   \<exists>v'. construct_all xs v = Inr v' \<and> vec_ok v' \<and> vec_list v' = vec_list v @ xs"
proof (induction xs arbitrary: v)
  case (Cons x xs)
  obtain rest where r: "v_data v = map Some (vec_list v) @ rest" "v_size v = length (vec_list v)"
      "v_capacity v = length (vec_list v) + length rest" by (rule vec_repE [OF Cons.prems(1)])
  then obtain c rest' where c: "rest = c # rest'" using Cons.prems(2) by (cases rest) auto
  let ?v = "v\<lparr>v_data := map Some (vec_list v @ [x]) @ rest', v_size := v_size v + 1\<rparr>"
  have "vec_ok ?v \<and> vec_list ?v = vec_list v @ [x]"
    using r c by (intro vec_repI [of _ _ rest']) simp_all
  with Cons.IH [of ?v] v_write_next [of v "vec_list v" c rest' x] r c Cons.prems(2) show ?case by simp
qed simp

lemma kvector_pop_back_rep:
  assumes "vec_ok v"
  shows "vec_ok (kvector_pop_back v) \<and> vec_list (kvector_pop_back v) = butlast (vec_list v)"
proof (cases "vec_list v" rule: rev_cases)
  case Nil
  then show ?thesis using assms length_vec_list [OF assms] by (simp add: kvector_pop_back_def kvector_empty_def)
next
  case (snoc xs x)
  obtain rest where r: "v_data v = map Some (vec_list v) @ rest" "v_size v = length (vec_list v)"
      "v_capacity v = length (vec_list v) + length rest" by (rule vec_repE [OF assms])
  then show ?thesis using snoc
    by (intro vec_repI [of _ _ "None # rest"]) (simp_all add: kvector_pop_back_def kvector_empty_def list_update_append)
qed

lemma kvector_clear_rep:
  assumes "vec_ok v"
  shows "vec_ok (kvector_clear v) \<and> vec_list (kvector_clear v) = []"
  using assms by (auto simp: kvector_clear_def kvector_empty_def vec_ok_def vec_list_def)

lemma copy_cells_rep:
  "v_data other = map Some (xs @ ys) @ ro \<Longrightarrow> v_data v = map Some xs @ rest \<Longrightarrow> length ys \<le> length rest \<Longrightarrow>
   copy_cells (length ys) (length xs) other v = Inr (v\<lparr>v_data := map Some (xs @ ys) @ drop (length ys) rest\<rparr>)"
proof (induction ys arbitrary: xs v rest)
  case (Cons y ys)
  then obtain c rest' where c: "rest = c # rest'" by (cases rest) auto
  have "v_read other (length xs) = Inr y"
    using v_read_rep [of other "xs @ y # ys" ro "length xs"] Cons.prems(1) by simp
  with Cons.IH [of "xs @ [y]" "v\<lparr>v_data := map Some (xs @ [y]) @ rest'\<rparr>" rest'] v_write_next [of v xs c rest' y] Cons.prems c
  show ?case by simp
qed simp

lemma copy_into_fresh:
  assumes "vec_ok other" "vec_ok v" "vec_list v = []"
  shows "\<exists>v'. copy_cells (v_size other) 0 other (ensure_capacity (v_size other) v) = Inr v' \<and>
    vec_ok (v'\<lparr>v_size := v_size other\<rparr>) \<and> vec_list (v'\<lparr>v_size := v_size other\<rparr>) = vec_list other"
proof -
  let ?w = "ensure_capacity (v_size other) v"
  have w: "vec_ok ?w" "vec_list ?w = []" "v_size other \<le> v_capacity ?w"
    using ensure_capacity_rep [OF assms(2), of "v_size other"] assms(3) by auto
  obtain rest where r: "v_data ?w = rest" "v_capacity ?w = length rest"
    using vec_repE [OF w(1)] w(2) by (metis append_Nil list.map(1) list.size(3) add_0)
  obtain ro where o: "v_data other = map Some (vec_list other) @ ro" "v_size other = length (vec_list other)"
    using vec_repE [OF assms(1)] by metis
  have "copy_cells (v_size other) 0 other ?w = Inr (?w\<lparr>v_data := map Some (vec_list other) @ drop (v_size other) rest\<rparr>)"
    using copy_cells_rep [of other "[]" "vec_list other" ro ?w rest] o r w(3) by simp
  moreover let ?v = "?w\<lparr>v_data := map Some (vec_list other) @ drop (v_size other) rest, v_size := v_size other\<rparr>"
  have "vec_ok ?v \<and> vec_list ?v = vec_list other"
    using r o w(3) by (intro vec_repI [of _ _ "drop (v_size other) rest"]) simp_all
  ultimately show ?thesis by simp
qed


lemma kvector_copy_rep:
  "vec_ok other \<Longrightarrow> \<exists>v'. kvector_copy other = Inr v' \<and> vec_ok v' \<and> vec_list v' = vec_list other"
  using copy_into_fresh [of other kvector_new]
  by (auto simp: kvector_copy_def kvector_empty_def) (simp add: vec_list_def)

lemma kvector_assign_rep:
  assumes "vec_ok other"
  shows "\<exists>v'. kvector_assign v other = Inr v' \<and> vec_ok v' \<and> vec_list v' = vec_list other"
proof -
  let ?v = "(kvector_clear v)\<lparr>v_data := [], v_capacity := 0\<rparr>"
  have "vec_ok ?v" "vec_list ?v = []"
    by (auto simp: kvector_clear_def kvector_empty_def vec_ok_def vec_list_def)
  from copy_into_fresh [OF assms this] show ?thesis by (auto simp: kvector_assign_def Let_def)
qed

lemma kvector_assign_init_rep:
  assumes "vec_ok v"
  shows "\<exists>v'. kvector_assign_init v xs = Inr v' \<and> vec_ok v' \<and> vec_list v' = xs"
  using kvector_clear_rep [OF assms] ensure_capacity_rep [of "kvector_clear v" "length xs"]
    push_back_all_rep [of "ensure_capacity (length xs) (kvector_clear v)" xs]
  by (simp add: kvector_assign_init_def)

lemma ensure_capacity_new:
  fixes w :: "'a kvector"
  assumes "w = ensure_capacity n kvector_new"
  shows "vec_ok w \<and> vec_list w = [] \<and> v_size w = 0 \<and> n \<le> v_capacity w"
proof -
  have "vec_ok w" "vec_list w = []" "n \<le> v_capacity w"
    using ensure_capacity_rep [of "kvector_new :: 'a kvector" n] assms by simp_all
  with length_vec_list [of w] show ?thesis by simp
qed

lemma kvector_init_rep: "\<exists>v'. kvector_init xs = Inr v' \<and> vec_ok v' \<and> vec_list v' = xs"
  unfolding kvector_init_def using construct_all_rep [of "ensure_capacity (length xs) kvector_new" xs]
  by (simp add: ensure_capacity_new [OF refl])

lemma kvector_fill_rep: "\<exists>v'. kvector_fill n x = Inr v' \<and> vec_ok v' \<and> vec_list v' = replicate n x"
  unfolding kvector_fill_def using push_back_all_rep [of "ensure_capacity n kvector_new" "replicate n x"]
  by (simp add: ensure_capacity_new [OF refl])

lemma construct_from_rep:
  "v_data v = map Some xs @ rest \<Longrightarrow> k \<le> length rest \<Longrightarrow>
   construct_from d k (length xs) v = Inr (v\<lparr>v_data := map Some (xs @ replicate k d) @ drop k rest\<rparr>)"
proof (induction k arbitrary: xs v rest)
  case (Suc k)
  then obtain c rest' where c: "rest = c # rest'" by (cases rest) auto
  with Suc.IH [of "v\<lparr>v_data := map Some (xs @ [d]) @ rest'\<rparr>" "xs @ [d]" rest'] v_write_next [of v xs c rest' d] Suc.prems
  show ?case by simp
qed simp

lemma kvector_resize_rep:
  assumes "vec_ok v"
  shows "\<exists>v'. kvector_resize d n v = Inr v' \<and> vec_ok v' \<and> vec_list v' = vec_list v @ replicate (n - v_size v) d"
proof (cases "n \<le> v_size v")
  case True
  then show ?thesis using assms by (simp add: kvector_resize_def)
next
  case False
  let ?w = "ensure_capacity n v"
  have w: "vec_ok ?w" "vec_list ?w = vec_list v" "n \<le> v_capacity ?w"
    using ensure_capacity_rep [OF assms, of n] by auto
  obtain rest where r: "v_data ?w = map Some (vec_list v) @ rest" "v_capacity ?w = length (vec_list v) + length rest"
    using vec_repE [OF w(1)] w(2) by metis
  let ?v = "?w\<lparr>v_data := map Some (vec_list v @ replicate (n - v_size v) d) @ drop (n - v_size v) rest, v_size := n\<rparr>"
  have "vec_ok ?v \<and> vec_list ?v = vec_list v @ replicate (n - v_size v) d"
    using r w False assms by (intro vec_repI [of _ _ "drop (n - v_size v) rest"]) simp_all
  moreover have "construct_from d (n - v_size v) (v_size v) ?w =
      Inr (?w\<lparr>v_data := map Some (vec_list v @ replicate (n - v_size v) d) @ drop (n - v_size v) rest\<rparr>)"
    using construct_from_rep [OF r(1), of "n - v_size v" d] r w False assms by simp
  ultimately show ?thesis using False by (simp add: kvector_resize_def)
qed

lemma shift_loop_rep:
  "v_data v = map Some (xs @ ys) @ rest \<Longrightarrow> ys \<noteq> [] \<Longrightarrow>
   shift_loop (length xs) (length xs + length ys - 1) v =
     Inr (v\<lparr>v_data := map Some (xs @ tl ys @ [last ys]) @ rest\<rparr>)"
proof (induction "length ys" arbitrary: xs ys v)
  case (Suc k)
  then obtain y zs where y: "ys = y # zs" by (cases ys) auto
  show ?case
  proof (cases zs)
    case Nil
    then show ?thesis using y Suc.prems by (simp add: shift_loop.simps)
  next
    case (Cons z ws)
    have "v_read v (Suc (length xs)) = Inr z"
      using v_read_rep [of v "xs @ ys" rest "Suc (length xs)"] Suc.prems(1) y Cons by (simp add: nth_append)
    moreover have "v_write (length xs) z v = Inr (v\<lparr>v_data := map Some ((xs @ [z]) @ zs) @ rest\<rparr>)"
      using v_write_rep [of v "xs @ ys" rest "length xs" z] Suc.prems(1) y by (simp add: list_update_append)
    moreover have "shift_loop (Suc (length xs)) (length xs + length zs) (v\<lparr>v_data := map Some ((xs @ [z]) @ zs) @ rest\<rparr>) =
        Inr (v\<lparr>v_data := map Some ((xs @ [z]) @ tl zs @ [last zs]) @ rest\<rparr>)"
      using Suc.hyps(1) [of zs "v\<lparr>v_data := map Some ((xs @ [z]) @ zs) @ rest\<rparr>" "xs @ [z]"] Suc.hyps(2) y Cons by simp
    ultimately show ?thesis using y Cons by (subst shift_loop.simps) simp
  qed
qed simp

lemma kvector_erase_rep:
  assumes "vec_ok v" "i < v_size v"
  shows "\<exists>v'. kvector_erase i v = Inr v' \<and> vec_ok v' \<and> vec_list v' = take i (vec_list v) @ drop (Suc i) (vec_list v)"
proof -
  obtain rest where r: "v_data v = map Some (vec_list v) @ rest" "v_size v = length (vec_list v)"
      "v_capacity v = length (vec_list v) + length rest" by (rule vec_repE [OF assms(1)])
  let ?xs = "take i (vec_list v)" and ?ys = "drop i (vec_list v)" and ?zs = "drop (Suc i) (vec_list v)"
  let ?w = "v\<lparr>v_data := map Some (?xs @ ?zs @ [last ?ys]) @ rest\<rparr>"
  have "shift_loop i (v_size v - 1) v = Inr ?w"
    using shift_loop_rep [of v ?xs ?ys rest] r assms(2) by (simp add: tl_drop drop_Suc)
  moreover have "vec_ok (?w\<lparr>v_size := v_size v - 1\<rparr>) \<and> vec_list (?w\<lparr>v_size := v_size v - 1\<rparr>) = ?xs @ ?zs"
    using r assms(2) by (intro vec_repI [of _ _ "Some (last ?ys) # rest"]) simp_all
  ultimately show ?thesis using assms(2) by (simp add: kvector_erase_def)
qed

lemma bubble_loop_rep:
  "v_data v = map Some (xs @ y # ys) @ rest \<Longrightarrow>
   bubble_loop (length xs) (length xs + length ys) v = Inr (v\<lparr>v_data := map Some (xs @ ys @ [y]) @ rest\<rparr>)"
proof (induction ys arbitrary: xs v)
  case Nil
  then show ?case by (simp add: bubble_loop.simps)
next
  case (Cons z zs)
  let ?v1 = "v\<lparr>v_data := map Some (xs @ z # z # zs) @ rest\<rparr>"
  let ?v2 = "v\<lparr>v_data := map Some ((xs @ [z]) @ y # zs) @ rest\<rparr>"
  have "v_read v (length xs) = Inr y" "v_read v (Suc (length xs)) = Inr z"
    using v_read_rep [OF Cons.prems, of "length xs"] v_read_rep [OF Cons.prems, of "Suc (length xs)"]
    by (simp_all add: nth_append)
  moreover have "v_write (length xs) z v = Inr ?v1"
    using v_write_rep [OF Cons.prems, of "length xs" z] by (simp add: list_update_append)
  moreover have "v_write (Suc (length xs)) y ?v1 = Inr ?v2"
    using v_write_rep [of ?v1 "xs @ z # z # zs" rest "Suc (length xs)" y] by (simp add: list_update_append)
  moreover have "bubble_loop (Suc (length xs)) (Suc (length xs + length zs)) ?v2 =
      Inr (v\<lparr>v_data := map Some (xs @ (z # zs) @ [y]) @ rest\<rparr>)"
    using Cons.IH [of ?v2 "xs @ [z]"] by simp
  ultimately show ?case by (subst bubble_loop.simps) simp
qed

lemma kvector_move_to_end_rep:
  assumes "vec_ok v" "i < v_size v"
  shows "\<exists>v'. kvector_move_to_end i v = Inr v' \<and> vec_ok v' \<and>
    vec_list v' = take i (vec_list v) @ drop (Suc i) (vec_list v) @ [vec_list v ! i]"
proof -
  obtain rest where r: "v_data v = map Some (vec_list v) @ rest" "v_size v = length (vec_list v)"
      "v_capacity v = length (vec_list v) + length rest" by (rule vec_repE [OF assms(1)])
  let ?xs = "take i (vec_list v)" and ?ys = "drop (Suc i) (vec_list v)" and ?y = "vec_list v ! i"
  let ?w = "v\<lparr>v_data := map Some (?xs @ ?ys @ [?y]) @ rest\<rparr>"
  have "vec_list v = ?xs @ ?y # ?ys" using assms(2) r(2) by (simp add: id_take_nth_drop)
  then have "bubble_loop i (v_size v - 1) v = Inr ?w"
    using bubble_loop_rep [of v ?xs ?y ?ys rest] r assms(2) by simp
  moreover have "vec_ok ?w \<and> vec_list ?w = ?xs @ ?ys @ [?y]"
    using r assms(2) by (intro vec_repI [of _ _ rest]) simp_all
  ultimately show ?thesis using assms(2) by (simp add: kvector_move_to_end_def)
qed

lemma kvector_move_to_end_empty: "kvector_move_to_end 0 kvector_new = Inl (Fault ''out of bounds'')"
  by (simp add: kvector_move_to_end_def kvector_new_def bubble_loop.simps v_read_def)

section \<open>The sequence interface\<close>

text \<open>
  What the kernel asks of its growable sequences: append at the end, drop the last element, read by
  index. Appending a whole list one element at a time appends it.
\<close>

locale growable_seq =
  fixes ok :: "'s \<Rightarrow> bool"
    and elems :: "'s \<Rightarrow> 'a list"
    and append1 :: "'a \<Rightarrow> 's \<Rightarrow> 's kres"
    and drop_last :: "'s \<Rightarrow> 's"
    and get :: "'s \<Rightarrow> nat \<Rightarrow> 'a kres"
  assumes append1: "ok s \<Longrightarrow> \<exists>s'. append1 x s = Inr s' \<and> ok s' \<and> elems s' = elems s @ [x]"
    and drop_last: "ok s \<Longrightarrow> ok (drop_last s) \<and> elems (drop_last s) = butlast (elems s)"
    and get: "ok s \<Longrightarrow> i < length (elems s) \<Longrightarrow> get s i = Inr (elems s ! i)"
begin

lemma append_get:
  assumes "ok s"
  shows "\<exists>s'. append1 x s = Inr s' \<and> ok s' \<and> get s' (length (elems s)) = Inr x \<and>
    (\<forall>i < length (elems s). get s' i = get s i)"
proof -
  obtain s' where s: "append1 x s = Inr s'" "ok s'" "elems s' = elems s @ [x]"
    using append1 [OF assms] by blast
  then have "get s' i = get s i" if "i < length (elems s)" for i
    using get [OF s(2), of i] get [OF assms that] that by (simp add: nth_append)
  with s get [OF s(2), of "length (elems s)"] show ?thesis by simp
qed

lemma append_drop_last:
  "ok s \<Longrightarrow> \<exists>s'. append1 x s = Inr s' \<and> ok s' \<and> elems (drop_last s') = elems s"
  using append1 [of s x] drop_last by fastforce

end

interpretation kvec: growable_seq vec_ok vec_list kvector_push_back kvector_pop_back "kvector_nth debug"
proof unfold_locales
  fix s :: "'a kvector" and i
  assume s: "vec_ok s" "i < length (vec_list s)"
  from vec_repE [OF s(1)] obtain rest where "v_data s = map Some (vec_list s) @ rest" by blast
  with s v_read_rep [of s "vec_list s" rest i] show "kvector_nth debug s i = Inr (vec_list s ! i)"
    by (simp add: kvector_nth_def)
qed (simp_all add: kvector_push_back_rep kvector_pop_back_rep)

section \<open>Properties\<close>

text \<open>
  Every operation that changes a \<^verbatim>\<open>kvector\<close> keeps it well formed and acts on its elements as
  the list operation it stands for: \<^verbatim>\<open>push_back\<close> appends, \<^verbatim>\<open>pop_back\<close> drops the last, \<^verbatim>\<open>erase\<close> takes out
  the \<open>i\<close>-th, \<^verbatim>\<open>move_to_end\<close> moves it to the back, \<^verbatim>\<open>resize\<close> pads with default elements and never
  shrinks, \<^verbatim>\<open>reserve\<close> gives the capacity and keeps the elements. None of them faults.
\<close>

theorem kvector_updates_refine:
  assumes "vec_ok v" "i < v_size v"
  shows "(\<exists>w. kvector_push_back x v = Inr w \<and> vec_ok w \<and> vec_list w = vec_list v @ [x]) \<and>
    vec_ok (kvector_pop_back v) \<and> vec_list (kvector_pop_back v) = butlast (vec_list v) \<and>
    vec_ok (kvector_clear v) \<and> vec_list (kvector_clear v) = [] \<and>
    vec_ok (kvector_reserve n v) \<and> vec_list (kvector_reserve n v) = vec_list v \<and> n \<le> v_capacity (kvector_reserve n v) \<and>
    (\<exists>w. kvector_resize x n v = Inr w \<and> vec_ok w \<and> vec_list w = vec_list v @ replicate (n - v_size v) x) \<and>
    (\<exists>w. kvector_erase i v = Inr w \<and> vec_ok w \<and> vec_list w = take i (vec_list v) @ drop (Suc i) (vec_list v)) \<and>
    (\<exists>w. kvector_move_to_end i v = Inr w \<and> vec_ok w \<and>
       vec_list w = take i (vec_list v) @ drop (Suc i) (vec_list v) @ [vec_list v ! i])"
  by (intro conjI kvector_push_back_rep kvector_resize_rep kvector_erase_rep kvector_move_to_end_rep
      kvector_pop_back_rep [THEN conjunct1] kvector_pop_back_rep [THEN conjunct2]
      kvector_clear_rep [THEN conjunct1] kvector_clear_rep [THEN conjunct2] assms)
     (simp_all add: kvector_reserve_def ensure_capacity_rep assms)

text \<open>
  The constructors build the vector they describe (an initializer list, \<open>n\<close> copies of a value,
  a copy of another vector), and both assignments replace whatever the target held.
\<close>

theorem kvector_builders_refine:
  assumes "vec_ok other" "vec_ok v"
  shows "(\<exists>w. kvector_init xs = Inr w \<and> vec_ok w \<and> vec_list w = xs) \<and>
    (\<exists>w. kvector_fill n x = Inr w \<and> vec_ok w \<and> vec_list w = replicate n x) \<and>
    (\<exists>w. kvector_copy other = Inr w \<and> vec_ok w \<and> vec_list w = vec_list other) \<and>
    (\<exists>w. kvector_assign v other = Inr w \<and> vec_ok w \<and> vec_list w = vec_list other) \<and>
    (\<exists>w. kvector_assign_init v xs = Inr w \<and> vec_ok w \<and> vec_list w = xs)"
  by (intro conjI kvector_init_rep kvector_fill_rep kvector_copy_rep kvector_assign_rep kvector_assign_init_rep assms)

end
