(* ===== verification/Kstring.thy ===== *)
theory Kstring
  imports Kernel_Prelude
begin

text \<open>
  The string class: \<^verbatim>\<open>include/containers/kstring.hpp\<close> and \<^verbatim>\<open>include/containers/kstring_view.hpp\<close>. The buffer is a list of cells, \<open>None\<close>
  one that has not been written since \<^verbatim>\<open>kalloc\<close>; a pointer can also be null or point to memory that was freed, and
  following it then is a fault, as is reading a cell that was not written. Lengths are natural numbers: a string of \<open>2 ^ 63\<close> bytes
  does not fit in memory. A \<^verbatim>\<open>const char*\<close> is the text before its terminator, or \<open>None\<close> for null.
\<close>

section \<open>Definitions\<close>

datatype sbuf = Null | Dangling | Buf "char option list"

record kstring =
  ks_data :: sbuf
  ks_len :: nat
  ks_cap :: nat

definition NUL :: char where
  "NUL = CHR 0x00"

definition cget :: "char option list \<Rightarrow> nat \<Rightarrow> char kres" where
  "cget cs i = (if i < length cs then (case cs ! i of Some c \<Rightarrow> Inr c | None \<Rightarrow> Inl (Fault ''uninitialised'')) else Inl (Fault ''out of bounds''))"

definition cset :: "nat \<Rightarrow> char \<Rightarrow> char option list \<Rightarrow> char option list kres" where
  "cset i c cs = (if i < length cs then Inr (cs[i := Some c]) else Inl (Fault ''out of bounds''))"

definition rd :: "kstring \<Rightarrow> nat \<Rightarrow> char kres" where
  "rd k i = (case ks_data k of Buf cs \<Rightarrow> cget cs i | _ \<Rightarrow> Inl (Fault ''string data''))"

definition wr :: "nat \<Rightarrow> char \<Rightarrow> kstring \<Rightarrow> kstring kres" where
  "wr i c k = (case ks_data k of Buf cs \<Rightarrow> kbind (cset i c cs) (\<lambda>cs. Inr (k\<lparr>ks_data := Buf cs\<rparr>)) | _ \<Rightarrow> Inl (Fault ''string data''))"

primrec wr_list :: "nat \<Rightarrow> char list \<Rightarrow> kstring \<Rightarrow> kstring kres" where
  "wr_list i [] k = Inr k"
| "wr_list i (c # cs) k = kbind (wr i c k) (wr_list (Suc i) cs)"

definition KS_INITIAL_CAPACITY :: nat where
  "KS_INITIAL_CAPACITY = 16"

definition KS_GROWTH_RATE :: nat where
  "KS_GROWTH_RATE = 2"

definition ks_grow :: "kstring \<Rightarrow> kstring kres" where
  "ks_grow k = (let new_capacity = (if ks_cap k = 0 then KS_INITIAL_CAPACITY else ks_cap k * KS_GROWTH_RATE) in
     case ks_data k of Null \<Rightarrow> Inr (k\<lparr>ks_data := Buf (replicate new_capacity None), ks_cap := new_capacity\<rparr>)
     | Dangling \<Rightarrow> Inl (Fault ''string data'')
     | Buf cs \<Rightarrow> if ks_len k \<le> length cs
         then Inr (k\<lparr>ks_data := Buf (take (ks_len k) cs @ replicate (new_capacity - ks_len k) None), ks_cap := new_capacity\<rparr>)
         else Inl (Fault ''out of bounds''))"

lemma ks_grow_cap: "ks_grow k = Inr k' \<Longrightarrow> ks_cap k < ks_cap k'"
  by (auto simp: ks_grow_def KS_INITIAL_CAPACITY_def KS_GROWTH_RATE_def Let_def split: sbuf.splits if_splits)

function ks_ensure_capacity :: "nat \<Rightarrow> kstring \<Rightarrow> kstring kres" where
  "ks_ensure_capacity new_size k = (if ks_cap k < new_size then kbind (ks_grow k) (ks_ensure_capacity new_size) else Inr k)"
  by pat_completeness auto
termination
  by (relation "measure (\<lambda>(n, k). n - ks_cap k)") (auto dest!: ks_grow_cap)

declare ks_ensure_capacity.simps [simp del]

definition ensure_null_terminated :: "kstring \<Rightarrow> kstring kres" where
  "ensure_null_terminated k = (if ks_data k = Null then Inr k else wr (ks_len k) NUL k)"

definition kstring_new :: kstring where
  "kstring_new = \<lparr>ks_data = Null, ks_len = 0, ks_cap = 0\<rparr>"

definition kstring_cstr :: "string option \<Rightarrow> kstring kres" where
  "kstring_cstr s = (case s of None \<Rightarrow> Inr kstring_new | Some s \<Rightarrow>
     kbind (ks_ensure_capacity (length s + 1) kstring_new) (\<lambda>k. kbind (wr_list 0 (s @ [NUL]) k) (\<lambda>k. Inr (k\<lparr>ks_len := length s\<rparr>))))"

text \<open>\<open>mem\<close> are the bytes that can be read from the pointer on.\<close>

definition kstring_count :: "char list option \<Rightarrow> nat \<Rightarrow> kstring kres" where
  "kstring_count mem cnt = (case mem of None \<Rightarrow> Inr kstring_new | Some mem \<Rightarrow>
     kbind (ks_ensure_capacity (cnt + 1) kstring_new) (\<lambda>k.
     if length mem < cnt + 1 then Inl (Fault ''out of bounds'')
     else kbind (wr_list 0 (take (cnt + 1) mem) k) (\<lambda>k. wr cnt NUL (k\<lparr>ks_len := cnt\<rparr>))))"

text \<open>A view: the bytes that can be read from its pointer on, and its length.\<close>

record kstring_view =
  kv_data :: "char list"
  kv_len :: nat

definition kstring_view_ctor :: "kstring_view \<Rightarrow> kstring kres" where
  "kstring_view_ctor sv = kbind (ks_ensure_capacity (kv_len sv + 1) kstring_new) (\<lambda>k.
     if length (kv_data sv) < kv_len sv + 1 then Inl (Fault ''out of bounds'')
     else kbind (wr_list 0 (take (kv_len sv + 1) (kv_data sv)) k) (\<lambda>k. wr (kv_len sv) NUL (k\<lparr>ks_len := kv_len sv\<rparr>)))"

definition kstring_move :: "kstring \<Rightarrow> kstring \<times> kstring" where
  "kstring_move other = (\<lparr>ks_data = ks_data other, ks_len = ks_len other, ks_cap = ks_cap other\<rparr>, kstring_new)"

text \<open>The first \<open>n\<close> bytes of another string.\<close>

primrec rd_list :: "kstring \<Rightarrow> nat \<Rightarrow> nat \<Rightarrow> char list kres" where
  "rd_list k i 0 = Inr []"
| "rd_list k i (Suc n) = kbind (rd k i) (\<lambda>c. kbind (rd_list k (Suc i) n) (\<lambda>cs. Inr (c # cs)))"

definition kstring_copy :: "kstring \<Rightarrow> kstring kres" where
  "kstring_copy other = (if ks_len other = 0 then Inr kstring_new
     else kbind (ks_ensure_capacity (ks_len other + 1) kstring_new) (\<lambda>k.
       kbind (rd_list other 0 (ks_len other + 1)) (\<lambda>cs. kbind (wr_list 0 cs k) (\<lambda>k. Inr (k\<lparr>ks_len := ks_len other\<rparr>)))))"

text \<open>The assignments: \<open>this\<close> is another object than \<open>other\<close>. The old buffer is freed.\<close>

definition kstring_move_assign :: "kstring \<Rightarrow> kstring \<Rightarrow> kstring \<times> kstring" where
  "kstring_move_assign this other = kstring_move other"

definition kstring_assign :: "kstring \<Rightarrow> kstring \<Rightarrow> kstring kres" where
  "kstring_assign this other = (let k = this\<lparr>ks_data := Null, ks_len := 0, ks_cap := 0\<rparr> in
     if ks_len other = 0 then Inr k
     else kbind (ks_ensure_capacity (ks_len other + 1) k) (\<lambda>k.
       kbind (rd_list other 0 (ks_len other + 1)) (\<lambda>cs. kbind (wr_list 0 cs k) (\<lambda>k. Inr (k\<lparr>ks_len := ks_len other\<rparr>)))))"

definition kstring_assign_cstr :: "kstring \<Rightarrow> string option \<Rightarrow> kstring kres" where
  "kstring_assign_cstr this s = (let k = this\<lparr>ks_data := Null, ks_len := 0, ks_cap := 0\<rparr> in
     case s of None \<Rightarrow> Inr k | Some s \<Rightarrow>
       kbind (ks_ensure_capacity (length s + 1) k) (\<lambda>k. kbind (wr_list 0 (s @ [NUL]) k) (\<lambda>k. Inr (k\<lparr>ks_len := length s\<rparr>))))"

text \<open>\<^verbatim>\<open>kfree(_data)\<close> leaves the pointer, the length and the capacity as they were; of a null pointer it does nothing.\<close>

definition kstring_assign_view :: "kstring \<Rightarrow> kstring_view \<Rightarrow> kstring kres" where
  "kstring_assign_view this sv = (let k = this\<lparr>ks_data := (if ks_data this = Null then Null else Dangling)\<rparr> in
     kbind (ks_ensure_capacity (kv_len sv + 1) k) (\<lambda>k.
     if length (kv_data sv) < kv_len sv + 1 then Inl (Fault ''out of bounds'')
     else kbind (wr_list 0 (take (kv_len sv + 1) (kv_data sv)) k) (\<lambda>k. Inr (k\<lparr>ks_len := kv_len sv\<rparr>))))"

definition kstring_empty :: "kstring \<Rightarrow> bool" where
  "kstring_empty k \<longleftrightarrow> ks_len k = 0"

definition kstring_front :: "kstring \<Rightarrow> char kres" where
  "kstring_front k = rd k 0"

text \<open>\<^verbatim>\<open>_length - 1\<close> wraps around for an empty string.\<close>

definition kstring_back :: "kstring \<Rightarrow> char kres" where
  "kstring_back k = (if ks_len k = 0 then Inl (Fault ''out of bounds'') else rd k (ks_len k - 1))"

definition kstring_nth :: "kstring \<Rightarrow> nat \<Rightarrow> char kres" where
  "kstring_nth k i = rd k i"

text \<open>\<^verbatim>\<open>c_str\<close> read up to the terminator.\<close>

primrec c_str_from :: "nat \<Rightarrow> nat \<Rightarrow> (nat \<Rightarrow> char kres) \<Rightarrow> string kres" where
  "c_str_from 0 i r = Inl (Fault ''out of bounds'')"
| "c_str_from (Suc n) i r = kbind (r i) (\<lambda>c. if c = NUL then Inr [] else kbind (c_str_from n (Suc i) r) (\<lambda>cs. Inr (c # cs)))"

definition kstring_c_str :: "kstring \<Rightarrow> string kres" where
  "kstring_c_str k = (if ks_data k = Null then Inr [] else c_str_from (Suc (ks_cap k)) 0 (rd k))"

text \<open>
  The loops of \<^verbatim>\<open>find\<close>, the same in both classes, over the way they read a character: does \<open>str\<close> occur at \<open>i\<close>, and where is the
  first occurrence from \<open>i\<close> on? \<^verbatim>\<open>npos\<close> is \<open>None\<close>.
\<close>

primrec match_at :: "(nat \<Rightarrow> char kres) \<Rightarrow> nat \<Rightarrow> string \<Rightarrow> bool kres" where
  "match_at r i [] = Inr True"
| "match_at r i (c # cs) = kbind (r i) (\<lambda>x. if x \<noteq> c then Inr False else match_at r (Suc i) cs)"

function find_from :: "(nat \<Rightarrow> char kres) \<Rightarrow> nat \<Rightarrow> string \<Rightarrow> nat \<Rightarrow> nat option kres" where
  "find_from r len str i = (if i + length str - 1 < len
     then kbind (match_at r i str) (\<lambda>found. if found then Inr (Some i) else find_from r len str (Suc i)) else Inr None)"
  by pat_completeness auto
termination
  by (relation "measure (\<lambda>(r, len, str, i). Suc len - i)") auto

declare find_from.simps [simp del]

definition kstring_find :: "kstring \<Rightarrow> string option \<Rightarrow> nat option kres" where
  "kstring_find k s = (case s of None \<Rightarrow> Inr None | Some str \<Rightarrow>
     if length str = 0 \<or> length str > ks_len k then Inr None else find_from (rd k) (ks_len k) str 0)"

definition kstring_push_back :: "char \<Rightarrow> kstring \<Rightarrow> kstring kres" where
  "kstring_push_back c k = kbind (ks_ensure_capacity (ks_len k + 2) k) (\<lambda>k. kbind (wr (ks_len k) c k) (\<lambda>k.
     kbind (wr (ks_len k + 1) NUL k) (\<lambda>k. Inr (k\<lparr>ks_len := ks_len k + 1\<rparr>))))"

text \<open>
  The private \<^verbatim>\<open>trim\<close>: \<open>trim_b\<close> and \<open>trim_e\<close> move the two iterators, and the test reads the character before it compares the
  iterators.
\<close>

function trim_b :: "kstring \<Rightarrow> char \<Rightarrow> nat \<Rightarrow> nat \<Rightarrow> nat kres" where
  "trim_b k c b e = kbind (rd k b) (\<lambda>x. if x = c \<and> b < e then trim_b k c (Suc b) e else Inr b)"
  by pat_completeness auto
termination
  by (relation "measure (\<lambda>(k, c, b, e). e - b)") auto

function trim_e :: "kstring \<Rightarrow> char \<Rightarrow> nat \<Rightarrow> nat \<Rightarrow> nat kres" where
  "trim_e k c b e = kbind (rd k e) (\<lambda>x. if x = c \<and> e > b then trim_e k c b (e - 1) else Inr e)"
  by pat_completeness auto
termination
  by (relation "measure (\<lambda>(k, c, b, e). e)") auto

declare trim_b.simps [simp del] trim_e.simps [simp del]

primrec ks_push_all :: "char list \<Rightarrow> kstring \<Rightarrow> kstring kres" where
  "ks_push_all [] k = Inr k"
| "ks_push_all (c # cs) k = kbind (kstring_push_back c k) (ks_push_all cs)"

definition trim :: "bool \<Rightarrow> bool \<Rightarrow> char \<Rightarrow> kstring \<Rightarrow> kstring kres" where
  "trim front back c k = (if \<not> front \<and> \<not> back then kstring_copy k
     else kbind (if front then trim_b k c 0 (ks_len k) else Inr 0) (\<lambda>b.
       kbind (if back then trim_e k c b (ks_len k) else Inr (ks_len k)) (\<lambda>e.
         if e \<le> b then kstring_cstr (Some [])
         else kbind (ks_ensure_capacity (e - b) kstring_new) (\<lambda>result.
           kbind (rd_list k b (e - b)) (\<lambda>cs. ks_push_all cs result)))))"

definition kstring_trim_front :: "char \<Rightarrow> kstring \<Rightarrow> kstring kres" where
  "kstring_trim_front c k = trim True False c k"

definition kstring_trim_back :: "char \<Rightarrow> kstring \<Rightarrow> kstring kres" where
  "kstring_trim_back c k = trim False True c k"

definition kstring_trim :: "char \<Rightarrow> kstring \<Rightarrow> kstring kres" where
  "kstring_trim c k = trim True True c k"

definition kstring_pop_back :: "kstring \<Rightarrow> kstring kres" where
  "kstring_pop_back k = (if ks_len k = 0 then Inr k else ensure_null_terminated (k\<lparr>ks_len := ks_len k - 1\<rparr>))"

definition kstring_clear :: "kstring \<Rightarrow> kstring kres" where
  "kstring_clear k = ensure_null_terminated (k\<lparr>ks_len := 0\<rparr>)"

function ks_reverse_loop :: "nat \<Rightarrow> nat \<Rightarrow> kstring \<Rightarrow> kstring kres" where
  "ks_reverse_loop s e k = (if s < e then kbind (rd k s) (\<lambda>t. kbind (rd k e) (\<lambda>x. kbind (wr s x k) (\<lambda>k. kbind (wr e t k) (\<lambda>k.
     ks_reverse_loop (Suc s) (e - 1) k)))) else Inr k)"
  by pat_completeness auto
termination
  by (relation "measure (\<lambda>(s, e, k). e - s)") auto

declare ks_reverse_loop.simps [simp del]

definition kstring_reverse :: "kstring \<Rightarrow> kstring kres" where
  "kstring_reverse k = (if ks_len k = 0 then Inr k else ks_reverse_loop 0 (ks_len k - 1) k)"

text \<open>The loop of \<^verbatim>\<open>insert\<close>: \<open>i\<close> runs from \<^verbatim>\<open>_length + 1\<close> down to \<^verbatim>\<open>pos + 1\<close>.\<close>

definition shift_up :: "nat \<Rightarrow> nat \<Rightarrow> kstring \<Rightarrow> kstring kres" where
  "shift_up hi pos = kfor 0 (hi - pos) (\<lambda>j k. let i = hi - j in kbind (rd k (i - 1)) (\<lambda>x. wr i x k))"

definition kstring_insert :: "nat \<Rightarrow> char \<Rightarrow> kstring \<Rightarrow> kstring kres" where
  "kstring_insert pos c k = (if pos > ks_len k then Inr k
     else kbind (ks_ensure_capacity (ks_len k + 1) k) (\<lambda>k.
       kbind (if pos = ks_len k then kstring_push_back c k
         else kbind (shift_up (ks_len k + 1) pos k) (\<lambda>k. kbind (wr pos c k) (\<lambda>k. Inr (k\<lparr>ks_len := ks_len k + 1\<rparr>)))) ensure_null_terminated))"

definition kstring_erase :: "nat \<Rightarrow> kstring \<Rightarrow> kstring kres" where
  "kstring_erase pos k = (if pos \<ge> ks_len k then Inr k
     else kbind (kfor pos (ks_len k) (\<lambda>i k. kbind (rd k (i + 1)) (\<lambda>x. wr i x k)) k) (\<lambda>k.
       ensure_null_terminated (k\<lparr>ks_len := ks_len k - 1\<rparr>)))"

definition kstring_truncate :: "nat \<Rightarrow> kstring \<Rightarrow> kstring kres" where
  "kstring_truncate pos k = (if pos \<ge> ks_len k then Inr k else ensure_null_terminated (k\<lparr>ks_len := pos\<rparr>))"

text \<open>\<open>None\<close> for the length is \<^verbatim>\<open>npos\<close>.\<close>

definition kstring_substr :: "nat \<Rightarrow> nat option \<Rightarrow> kstring \<Rightarrow> kstring kres" where
  "kstring_substr pos len k = (if pos \<ge> ks_len k then kstring_cstr (Some [])
     else kbind (ks_ensure_capacity (ks_len k) kstring_new) (\<lambda>result.
       kbind (rd_list k pos (case len of None \<Rightarrow> ks_len k - pos | Some n \<Rightarrow> min n (ks_len k - pos))) (\<lambda>cs. ks_push_all cs result)))"

definition kstring_append :: "kstring \<Rightarrow> kstring \<Rightarrow> kstring kres" where
  "kstring_append other k = (if ks_len other = 0 then Inr k
     else kbind (ks_ensure_capacity (ks_len k + ks_len other + 1) k) (\<lambda>k.
       kbind (rd_list other 0 (ks_len other + 1)) (\<lambda>cs. kbind (wr_list (ks_len k) cs k) (\<lambda>k. Inr (k\<lparr>ks_len := ks_len k + ks_len other\<rparr>)))))"

definition kstring_append_cstr :: "string option \<Rightarrow> kstring \<Rightarrow> kstring kres" where
  "kstring_append_cstr s k = (case s of None \<Rightarrow> Inr k | Some s \<Rightarrow>
     kbind (ks_ensure_capacity (ks_len k + length s + 1) k) (\<lambda>k. kbind (wr_list (ks_len k) (s @ [NUL]) k) (\<lambda>k. Inr (k\<lparr>ks_len := ks_len k + length s\<rparr>))))"

definition kstring_append_char :: "char \<Rightarrow> kstring \<Rightarrow> kstring kres" where
  "kstring_append_char c k = kstring_push_back c k"

definition kstring_plus :: "kstring \<Rightarrow> kstring \<Rightarrow> kstring kres" where
  "kstring_plus k other = kbind (kstring_copy k) (kstring_append other)"

definition kstring_plus_cstr :: "kstring \<Rightarrow> string option \<Rightarrow> kstring kres" where
  "kstring_plus_cstr k s = kbind (kstring_copy k) (kstring_append_cstr s)"

definition cstr_plus_kstring :: "string option \<Rightarrow> kstring \<Rightarrow> kstring kres" where
  "cstr_plus_kstring lhs rhs = kbind (kstring_cstr lhs) (kstring_append rhs)"

primrec memcmp_eq :: "(nat \<Rightarrow> char kres) \<Rightarrow> (nat \<Rightarrow> char kres) \<Rightarrow> nat \<Rightarrow> nat \<Rightarrow> bool kres" where
  "memcmp_eq r q i 0 = Inr True"
| "memcmp_eq r q i (Suc n) = kbind (r i) (\<lambda>x. kbind (q i) (\<lambda>y. if x \<noteq> y then Inr False else memcmp_eq r q (Suc i) n))"

definition kstring_eq :: "kstring \<Rightarrow> kstring \<Rightarrow> bool kres" where
  "kstring_eq k other = (if ks_len k \<noteq> ks_len other then Inr False else memcmp_eq (rd k) (rd other) 0 (ks_len k))"

text \<open>\<^verbatim>\<open>strcmp\<close> stops at the first difference or at the terminator.\<close>

primrec strcmp_eq :: "kstring \<Rightarrow> nat \<Rightarrow> string \<Rightarrow> bool kres" where
  "strcmp_eq k i [] = kbind (rd k i) (\<lambda>x. Inr (x = NUL))"
| "strcmp_eq k i (c # cs) = kbind (rd k i) (\<lambda>x. if x \<noteq> c then Inr False else strcmp_eq k (Suc i) cs)"

definition kstring_eq_cstr :: "kstring \<Rightarrow> string option \<Rightarrow> bool kres" where
  "kstring_eq_cstr k s = (case s of None \<Rightarrow> Inr (ks_len k = 0)
     | Some s \<Rightarrow> if ks_len k = 0 then Inr (s = []) else strcmp_eq k 0 s)"

definition kstring_starts_with :: "kstring \<Rightarrow> kstring \<Rightarrow> bool kres" where
  "kstring_starts_with k other = (if ks_len other > ks_len k then Inr False else memcmp_eq (rd k) (rd other) 0 (ks_len other))"

definition kstring_ends_with :: "char \<Rightarrow> kstring \<Rightarrow> bool kres" where
  "kstring_ends_with c k = (if ks_len k > 0 then kbind (kstring_back k) (\<lambda>x. Inr (x = c)) else Inr False)"

subsection \<open>Views\<close>

text \<open>The rest of \<^verbatim>\<open>kstring_view\<close>. The constructor of one argument takes the length from \<^verbatim>\<open>strlen\<close>.\<close>

primrec strlen_at :: "char list \<Rightarrow> nat kres" where
  "strlen_at [] = Inl (Fault ''out of bounds'')"
| "strlen_at (c # cs) = (if c = NUL then Inr 0 else kbind (strlen_at cs) (\<lambda>n. Inr (Suc n)))"

definition kv_cstr :: "char list \<Rightarrow> kstring_view kres" where
  "kv_cstr mem = kbind (strlen_at mem) (\<lambda>n. Inr \<lparr>kv_data = mem, kv_len = n\<rparr>)"

definition kv_new :: "char list \<Rightarrow> nat \<Rightarrow> kstring_view" where
  "kv_new mem len = \<lparr>kv_data = mem, kv_len = len\<rparr>"

definition kv_empty :: "kstring_view \<Rightarrow> bool" where
  "kv_empty v \<longleftrightarrow> kv_len v = 0"

definition kv_nth :: "kstring_view \<Rightarrow> nat \<Rightarrow> char kres" where
  "kv_nth v i = (if i < length (kv_data v) then Inr (kv_data v ! i) else Inl (Fault ''out of bounds''))"

definition kv_front :: "kstring_view \<Rightarrow> char kres" where
  "kv_front v = kv_nth v 0"

definition kv_back :: "kstring_view \<Rightarrow> char kres" where
  "kv_back v = (if kv_len v = 0 then Inl (Fault ''out of bounds'') else kv_nth v (kv_len v - 1))"

definition kv_find :: "kstring_view \<Rightarrow> string option \<Rightarrow> nat option kres" where
  "kv_find v s = (case s of None \<Rightarrow> Inr None | Some str \<Rightarrow>
     if length str = 0 \<or> length str > kv_len v then Inr None else find_from (kv_nth v) (kv_len v) str 0)"

text \<open>The length is compared with the length of the whole view, not of what is left of it behind \<open>pos\<close>.\<close>

definition kv_substr :: "nat \<Rightarrow> nat option \<Rightarrow> kstring_view \<Rightarrow> kstring_view kres" where
  "kv_substr pos len v = (if pos \<ge> kv_len v then kv_cstr [NUL]
     else case len of None \<Rightarrow> kv_cstr (drop pos (kv_data v))
       | Some n \<Rightarrow> if n \<ge> kv_len v then kv_cstr (drop pos (kv_data v)) else Inr (kv_new (drop pos (kv_data v)) n))"

definition kv_eq :: "kstring_view \<Rightarrow> kstring_view \<Rightarrow> bool kres" where
  "kv_eq v w = (if kv_len v \<noteq> kv_len w then Inr False else memcmp_eq (kv_nth v) (kv_nth w) 0 (kv_len v))"

section \<open>Well-formed strings\<close>

text \<open>\<open>part k t\<close>: the buffer starts with the text \<open>t\<close>; \<open>repr k t\<close>: it is terminated, too.\<close>

definition part :: "kstring \<Rightarrow> string \<Rightarrow> bool" where
  "part k t \<longleftrightarrow> ks_len k = length t \<and> (if ks_data k = Null then t = [] \<and> ks_cap k = 0
     else \<exists>rest. ks_data k = Buf (map Some t @ rest) \<and> ks_cap k = length t + length rest)"

definition repr :: "kstring \<Rightarrow> string \<Rightarrow> bool" where
  "repr k t \<longleftrightarrow> ks_len k = length t \<and> (if ks_data k = Null then t = [] \<and> ks_cap k = 0
     else \<exists>rest. ks_data k = Buf (map Some (t @ [NUL]) @ rest) \<and> ks_cap k = length t + 1 + length rest)"

lemma repr_part: "repr k t \<Longrightarrow> part k t"
  by (auto simp: repr_def part_def)

lemma repr_len: "repr k t \<Longrightarrow> ks_len k = length t"
  by (simp add: repr_def)

lemma part_len: "part k t \<Longrightarrow> ks_len k = length t"
  by (simp add: part_def)

lemma repr_new [simp]: "repr kstring_new []"
  by (simp add: repr_def kstring_new_def)

lemma repr_bufE:
  assumes "repr k t" "t \<noteq> []"
  obtains rest where "ks_data k = Buf (map Some (t @ [NUL]) @ rest)" "ks_cap k = length t + 1 + length rest" "ks_len k = length t"
  using assms by (auto simp: repr_def split: if_splits)

lemma grow_part:
  assumes "part k t"
  shows "\<exists>k'. ks_grow k = Inr k' \<and> part k' t \<and> ks_data k' \<noteq> Null"
proof (cases "ks_data k")
  case Null
  then show ?thesis using assms by (auto simp: part_def ks_grow_def Let_def)
next
  case (Buf cs)
  then obtain rest where r: "cs = map Some t @ rest" "ks_cap k = length t + length rest" using assms by (auto simp: part_def)
  then show ?thesis using Buf assms
    by (auto simp: part_def ks_grow_def Let_def KS_INITIAL_CAPACITY_def KS_GROWTH_RATE_def)
qed (use assms in \<open>auto simp: part_def\<close>)

lemma ensure_part:
  "part k t \<Longrightarrow> \<exists>k'. ks_ensure_capacity n k = Inr k' \<and> part k' t \<and> n \<le> ks_cap k'"
proof (induction n k rule: ks_ensure_capacity.induct)
  case (1 n k)
  show ?case
  proof (cases "ks_cap k < n")
    case True
    obtain k' where k': "ks_grow k = Inr k'" "part k' t" using grow_part [OF "1.prems"] by blast
    then show ?thesis using True "1.IH" [OF True k'] by (subst ks_ensure_capacity.simps) simp
  next
    case False
    then show ?thesis using "1.prems" by (subst ks_ensure_capacity.simps) simp
  qed
qed

lemma ensure_same: "n \<le> ks_cap k \<Longrightarrow> ks_ensure_capacity n k = Inr k"
  by (subst ks_ensure_capacity.simps) simp

text \<open>After the capacity is ensured there is room for what is written behind the text.\<close>

lemma ensure_room:
  assumes "part k t" "length t < n"
  obtains k' rest where "ks_ensure_capacity n k = Inr k'" "ks_data k' = Buf (map Some t @ rest)" "ks_cap k' = length t + length rest" "n \<le> length t + length rest"
    "ks_len k' = length t"
proof -
  obtain k' where k': "ks_ensure_capacity n k = Inr k'" "part k' t" "n \<le> ks_cap k'" using ensure_part [OF assms(1)] by blast
  then have "ks_data k' \<noteq> Null" using assms(2) by (auto simp: part_def)
  then obtain rest where "ks_data k' = Buf (map Some t @ rest)" "ks_cap k' = length t + length rest" using k'(2) by (auto simp: part_def)
  then show thesis using k' that [of k' rest] by (simp add: part_def)
qed

lemma wr_list_room:
  "ks_data k = Buf (map Some t @ rest) \<Longrightarrow> length xs \<le> length rest \<Longrightarrow>
   wr_list (length t) xs k = Inr (k\<lparr>ks_data := Buf (map Some (t @ xs) @ drop (length xs) rest)\<rparr>)"
proof (induction xs arbitrary: k t rest)
  case (Cons x xs)
  obtain r rs where r: "rest = r # rs" using Cons.prems(2) by (cases rest) auto
  let ?k = "k\<lparr>ks_data := Buf (map Some (t @ [x]) @ rs)\<rparr>"
  have "wr (length t) x k = Inr ?k" using Cons.prems r by (simp add: wr_def cset_def list_update_append)
  moreover have "wr_list (length (t @ [x])) xs ?k = Inr (?k\<lparr>ks_data := Buf (map Some ((t @ [x]) @ xs) @ drop (length xs) rs)\<rparr>)"
    by (rule Cons.IH) (use Cons.prems r in auto)
  ultimately show ?case using r by simp
qed simp

text \<open>Writing a terminated text behind the text that is there.\<close>

lemma write_end:
  assumes "part k t" "n = length t + length xs + 1"
  obtains k' where "ks_ensure_capacity n k = Inr k'" "ks_len k' = length t" "\<exists>k''. wr_list (length t) (xs @ [NUL]) k' = Inr k'' \<and> ks_len k'' = length t \<and> repr (k''\<lparr>ks_len := length t + length xs\<rparr>) (t @ xs)"
proof -
  obtain k' rest where k': "ks_ensure_capacity n k = Inr k'" "ks_data k' = Buf (map Some t @ rest)" "ks_cap k' = length t + length rest"
      "n \<le> length t + length rest" "ks_len k' = length t"
    using ensure_room [OF assms(1), of n] assms(2) by auto
  let ?k = "k'\<lparr>ks_data := Buf (map Some (t @ xs @ [NUL]) @ drop (length (xs @ [NUL])) rest)\<rparr>"
  have "wr_list (length t) (xs @ [NUL]) k' = Inr ?k" by (rule wr_list_room [OF k'(2)]) (use k'(4) assms(2) in simp)
  moreover have "repr (?k\<lparr>ks_len := length t + length xs\<rparr>) (t @ xs)" using k'(3,4) assms(2) by (auto simp: repr_def)
  ultimately show thesis using that [OF k'(1,5)] k'(5) by simp
qed

lemma rd_repr: "repr k t \<Longrightarrow> t \<noteq> [] \<Longrightarrow> i \<le> length t \<Longrightarrow> rd k i = Inr ((t @ [NUL]) ! i)"
proof -
  assume a: "repr k t" "t \<noteq> []" "i \<le> length t"
  obtain rest where r: "ks_data k = Buf (map Some (t @ [NUL]) @ rest)" using repr_bufE [OF a(1,2)] by blast
  have "(map Some (t @ [NUL]) @ rest) ! i = Some ((t @ [NUL]) ! i)" using a(3) by (simp add: nth_append)
  then show ?thesis using r a(3) by (simp add: rd_def cget_def)
qed

lemma rd_list_repr: "repr k t \<Longrightarrow> t \<noteq> [] \<Longrightarrow> i + n \<le> length t + 1 \<Longrightarrow> rd_list k i n = Inr (take n (drop i (t @ [NUL])))"
proof (induction n arbitrary: i)
  case (Suc n)
  have "take (Suc n) (drop i (t @ [NUL])) = (t @ [NUL]) ! i # take n (drop (Suc i) (t @ [NUL]))"
    using Suc.prems(3) by (subst Cons_nth_drop_Suc [symmetric]) simp_all
  then show ?case using Suc rd_repr [OF Suc.prems(1,2), of i] by simp
qed simp

section \<open>The operations\<close>

lemma push_back_repr:
  assumes "part k t"
  shows "\<exists>k'. kstring_push_back c k = Inr k' \<and> repr k' (t @ [c])"
proof -
  have l: "ks_len k = length t" using assms by (simp add: part_def)
  obtain k' rest where k': "ks_ensure_capacity (length t + 2) k = Inr k'" "ks_data k' = Buf (map Some t @ rest)" "ks_cap k' = length t + length rest"
      "length t + 2 \<le> length t + length rest" "ks_len k' = length t"
    by (rule ensure_room [OF assms, of "length t + 2"]) auto
  obtain x y rs where r: "rest = x # y # rs" using k'(4) by (cases rest; cases "tl rest") auto
  have 1: "wr (length t) c k' = Inr (k'\<lparr>ks_data := Buf (map Some t @ Some c # y # rs)\<rparr>)"
    using k'(2) r by (simp add: wr_def cset_def list_update_append)
  have 2: "wr (length t + 1) NUL (k'\<lparr>ks_data := Buf (map Some t @ Some c # y # rs)\<rparr>) = Inr (k'\<lparr>ks_data := Buf (map Some t @ Some c # Some NUL # rs)\<rparr>)"
    by (simp add: wr_def cset_def list_update_append)
  show ?thesis unfolding kstring_push_back_def l k'(1) kbind_simps k'(5) 1
    using 2 k'(3,5) r by (auto simp: repr_def)
qed

lemma push_all_repr: "part k t \<Longrightarrow> xs \<noteq> [] \<Longrightarrow> \<exists>k'. ks_push_all xs k = Inr k' \<and> repr k' (t @ xs)"
proof (induction xs arbitrary: k t)
  case (Cons x xs)
  obtain k1 where k1: "kstring_push_back x k = Inr k1" "repr k1 (t @ [x])" using push_back_repr [OF Cons.prems(1)] by blast
  show ?case
  proof (cases "xs = []")
    case False
    then show ?thesis using Cons.IH [OF repr_part [OF k1(2)]] k1(1) by auto
  qed (use k1 in simp)
qed simp

text \<open>Cutting the text and terminating it.\<close>

lemma terminate_repr:
  assumes "repr k t" "n \<le> length t"
  shows "\<exists>k'. ensure_null_terminated (k\<lparr>ks_len := n\<rparr>) = Inr k' \<and> repr k' (take n t)"
proof (cases "ks_data k = Null")
  case True
  then show ?thesis using assms by (auto simp: ensure_null_terminated_def repr_def)
next
  case False
  then obtain rest where r: "ks_data k = Buf (map Some (t @ [NUL]) @ rest)" "ks_cap k = length t + 1 + length rest" using assms(1) by (auto simp: repr_def)
  have "(map Some (t @ [NUL]) @ rest)[n := Some NUL] = map Some (take n t @ [NUL]) @ drop (Suc n) (map Some (t @ [NUL]) @ rest)"
    using assms(2) by (subst upd_conv_take_nth_drop) (auto simp: take_map)
  then show ?thesis using r assms(2)
    by (auto simp: ensure_null_terminated_def wr_def cset_def repr_def intro!: exI [of _ "drop (Suc n) (map Some (t @ [NUL]) @ rest)"])
qed

lemma append_repr:
  assumes "repr k t" "repr l u"
  shows "\<exists>k'. kstring_append l k = Inr k' \<and> repr k' (t @ u)"
proof (cases "u = []")
  case True
  then show ?thesis using assms repr_len [OF assms(2)] by (auto simp: kstring_append_def)
next
  case False
  obtain k1 where k1: "ks_ensure_capacity (length t + length u + 1) k = Inr k1" "ks_len k1 = length t"
      "\<exists>k2. wr_list (length t) (u @ [NUL]) k1 = Inr k2 \<and> ks_len k2 = length t \<and> repr (k2\<lparr>ks_len := length t + length u\<rparr>) (t @ u)"
    by (rule write_end [OF repr_part [OF assms(1)] refl, of u]) blast
  have "rd_list l 0 (length u + 1) = Inr (u @ [NUL])" using rd_list_repr [OF assms(2) False, of 0 "length u + 1"] by simp
  then show ?thesis using k1 False repr_len [OF assms(1)] repr_len [OF assms(2)] by (auto simp: kstring_append_def)
qed

lemma append_cstr_repr:
  assumes "repr k t"
  shows "\<exists>k'. kstring_append_cstr (Some u) k = Inr k' \<and> repr k' (t @ u)"
proof -
  obtain k1 where k1: "ks_ensure_capacity (length t + length u + 1) k = Inr k1" "ks_len k1 = length t"
      "\<exists>k2. wr_list (length t) (u @ [NUL]) k1 = Inr k2 \<and> ks_len k2 = length t \<and> repr (k2\<lparr>ks_len := length t + length u\<rparr>) (t @ u)"
    by (rule write_end [OF repr_part [OF assms] refl, of u]) blast
  then show ?thesis using repr_len [OF assms] by (auto simp: kstring_append_cstr_def)
qed

lemma cstr_repr: "\<exists>k. kstring_cstr (Some u) = Inr k \<and> repr k u"
proof -
  obtain k1 where k1: "ks_ensure_capacity (length u + 1) kstring_new = Inr k1" "ks_len k1 = 0"
      "\<exists>k2. wr_list 0 (u @ [NUL]) k1 = Inr k2 \<and> ks_len k2 = 0 \<and> repr (k2\<lparr>ks_len := length u\<rparr>) u"
    using write_end [OF repr_part [OF repr_new], of "length u + 1" u] by auto
  then show ?thesis by (auto simp: kstring_cstr_def)
qed

lemma copy_repr:
  assumes "repr l u"
  shows "\<exists>k. kstring_copy l = Inr k \<and> repr k u" "\<exists>k. kstring_assign this l = Inr k \<and> repr k u"
proof -
  let ?k = "this\<lparr>ks_data := Null, ks_len := 0, ks_cap := 0\<rparr>"
  have p: "repr ?k []" by (simp add: repr_def)
  have *: "\<exists>k. (if ks_len l = 0 then Inr k0 else kbind (ks_ensure_capacity (ks_len l + 1) k0) (\<lambda>k.
       kbind (rd_list l 0 (ks_len l + 1)) (\<lambda>cs. kbind (wr_list 0 cs k) (\<lambda>k. Inr (k\<lparr>ks_len := ks_len l\<rparr>))))) = Inr k \<and> repr k u"
    if k0: "repr k0 []" for k0
  proof (cases "u = []")
    case False
    have "rd_list l 0 (length u + 1) = Inr (u @ [NUL])" using rd_list_repr [OF assms False, of 0 "length u + 1"] by simp
    moreover obtain k1 where "ks_ensure_capacity (length u + 1) k0 = Inr k1"
        "\<exists>k2. wr_list 0 (u @ [NUL]) k1 = Inr k2 \<and> ks_len k2 = 0 \<and> repr (k2\<lparr>ks_len := length u\<rparr>) u"
      by (rule write_end [OF repr_part [OF k0], of "length u + 1" u]) auto
    ultimately show ?thesis using False repr_len [OF assms] by auto
  qed (use repr_len [OF assms] k0 in simp)
  show "\<exists>k. kstring_copy l = Inr k \<and> repr k u" using * [OF repr_new] by (simp add: kstring_copy_def)
  show "\<exists>k. kstring_assign this l = Inr k \<and> repr k u" using * [OF p] by (simp only: kstring_assign_def Let_def)
qed

lemma reverse_loop:
  "ks_data k = Buf (map Some (a @ m @ b) @ rest) \<Longrightarrow> Suc e = length a + length m \<Longrightarrow>
   ks_reverse_loop (length a) e k = Inr (k\<lparr>ks_data := Buf (map Some (a @ rev m @ b) @ rest)\<rparr>)"
proof (induction "length m" arbitrary: k a m b e rule: less_induct)
  case less
  show ?case
  proof (cases "length m \<le> 1")
    case True
    then have "rev m = m" by (cases m; cases "tl m") auto
    then show ?thesis using True less.prems by (subst ks_reverse_loop.simps) auto
  next
    case False
    then obtain x m' y where m: "m = x # m' @ [y]" by (cases m; cases "tl m" rule: rev_cases) auto
    then have e: "e = length a + length m' + 1" using less.prems(2) by simp
    have xy: "rd k (length a) = Inr x" "rd k e = Inr y" using less.prems(1) m e by (auto simp: rd_def cget_def nth_append)
    let ?k1 = "k\<lparr>ks_data := Buf (map Some (a @ (y # m' @ [y]) @ b) @ rest)\<rparr>"
    let ?k2 = "k\<lparr>ks_data := Buf (map Some ((a @ [y]) @ m' @ (x # b)) @ rest)\<rparr>"
    have w: "wr (length a) y k = Inr ?k1" "wr e x ?k1 = Inr ?k2"
      using less.prems(1) m e by (auto simp: wr_def cset_def list_update_append)
    have "ks_reverse_loop (length (a @ [y])) (e - 1) ?k2 = Inr (?k2\<lparr>ks_data := Buf (map Some ((a @ [y]) @ rev m' @ (x # b)) @ rest)\<rparr>)"
      by (rule less.hyps) (use m e in auto)
    then show ?thesis using xy w e m by (subst ks_reverse_loop.simps) simp
  qed
qed

lemma reverse_repr:
  assumes "repr k t"
  shows "\<exists>k'. kstring_reverse k = Inr k' \<and> repr k' (rev t)"
proof (cases "t = []")
  case False
  obtain rest where r: "ks_data k = Buf (map Some (t @ [NUL]) @ rest)" "ks_cap k = length t + 1 + length rest" "ks_len k = length t"
    by (rule repr_bufE [OF assms False])
  have "ks_reverse_loop (length []) (length t - 1) k = Inr (k\<lparr>ks_data := Buf (map Some ([] @ rev t @ [NUL]) @ rest)\<rparr>)"
    using reverse_loop [of k "[]" t "[NUL]" rest "length t - 1"] r(1) False by simp
  then show ?thesis using r False by (auto simp: kstring_reverse_def repr_def)
qed (use assms repr_len [OF assms] in \<open>simp add: kstring_reverse_def\<close>)

lemma erase_repr:
  assumes "repr k t"
  shows "\<exists>k'. kstring_erase pos k = Inr k' \<and> repr k' (take pos t @ drop (Suc pos) t)"
proof (cases "pos < length t")
  case True
  then have "t \<noteq> []" by auto
  then obtain rest where r: "ks_data k = Buf (map Some (t @ [NUL]) @ rest)" "ks_cap k = length t + 1 + length rest" "ks_len k = length t"
    using repr_bufE [OF assms] by blast
  let ?w = "t @ [NUL]" and ?m = "take pos t @ drop (Suc pos) t @ [NUL]"
  have "\<exists>k'. kfor pos (length t) (\<lambda>i k. kbind (rd k (i + 1)) (\<lambda>x. wr i x k)) k = Inr k' \<and>
      k' = k\<lparr>ks_data := Buf (map Some (take (length t) ?m @ drop (length t) ?w) @ rest)\<rparr>"
  proof (rule kfor_rule)
    show "k = k\<lparr>ks_data := Buf (map Some (take pos ?m @ drop pos ?w) @ rest)\<rparr>"
      using r(1) True by (simp add: min_def del: map_append)
  next
    fix i l
    assume i: "pos \<le> i" "i < length t" and l: "l = k\<lparr>ks_data := Buf (map Some (take i ?m @ drop i ?w) @ rest)\<rparr>"
    have m: "length ?m = length t" "?m ! i = ?w ! Suc i" using i True by (auto simp: nth_append min_def)
    have d: "drop i ?w = ?w ! i # drop (Suc i) ?w" using i by (subst Cons_nth_drop_Suc) auto
    have d': "drop (Suc i) ?w = ?w ! Suc i # drop (Suc (Suc i)) ?w" using i by (subst Cons_nth_drop_Suc) auto
    have t: "take (Suc i) ?m = take i ?m @ [?w ! Suc i]" using m i by (metis take_Suc_conv_app_nth)
    have li: "length (take i ?m) = i" using m i by simp
    define A B where "A = take i ?m" and "B = drop (Suc (Suc i)) ?w"
    have "l = k\<lparr>ks_data := Buf (map Some (A @ ?w ! i # ?w ! Suc i # B) @ rest)\<rparr>" unfolding l d d' A_def B_def ..
    then have "rd l (i + 1) = Inr (?w ! Suc i)" "wr i (?w ! Suc i) l = Inr (k\<lparr>ks_data := Buf (map Some (A @ ?w ! Suc i # ?w ! Suc i # B) @ rest)\<rparr>)"
      using li unfolding A_def [symmetric] by (simp_all add: rd_def cget_def wr_def cset_def nth_append list_update_append)
    then show "\<exists>l'. kbind (rd l (i + 1)) (\<lambda>x. wr i x l) = Inr l' \<and> l' = k\<lparr>ks_data := Buf (map Some (take (Suc i) ?m @ drop (Suc i) ?w) @ rest)\<rparr>"
      unfolding t d' A_def B_def by simp
  qed (use True in simp)
  then obtain k' where k': "kfor pos (length t) (\<lambda>i k. kbind (rd k (i + 1)) (\<lambda>x. wr i x k)) k = Inr k'"
      "k' = k\<lparr>ks_data := Buf (map Some (take (length t) ?m @ drop (length t) ?w) @ rest)\<rparr>" by blast
  have q: "take (length t) ?m @ drop (length t) ?w = (take pos t @ drop (Suc pos) t) @ [NUL, NUL]" using True by simp
  have "ensure_null_terminated (k'\<lparr>ks_len := length t - 1\<rparr>) = Inr (k'\<lparr>ks_len := length t - 1\<rparr>)"
    unfolding k'(2) q using True by (simp add: ensure_null_terminated_def wr_def cset_def list_update_append nth_append) linarith
  moreover have "repr (k'\<lparr>ks_len := length t - 1\<rparr>) (take pos t @ drop (Suc pos) t)"
    unfolding k'(2) q using True r by (auto simp: repr_def)
  ultimately show ?thesis using True k' r by (simp add: kstring_erase_def)
qed (use assms repr_len [OF assms] in \<open>simp add: kstring_erase_def\<close>)

lemma shift_up_ok:
  assumes "ks_data k = Buf (map Some w @ y # rs)" "pos \<le> length w"
  shows "\<exists>x. shift_up (length w) pos k = Inr (k\<lparr>ks_data := Buf (map Some (take pos w) @ x # map Some (drop pos w) @ rs)\<rparr>)"
proof -
  let ?I = "\<lambda>j l. \<exists>x. l = k\<lparr>ks_data := Buf (map Some (take (length w - j) w) @ x # map Some (drop (length w - j) w) @ rs)\<rparr>"
  have "\<exists>l. shift_up (length w) pos k = Inr l \<and> ?I (length w - pos) l"
    unfolding shift_up_def
  proof (rule kfor_rule)
    have "k = k\<lparr>ks_data := Buf (map Some w @ y # rs)\<rparr>" using assms(1) by simp
    then show "?I 0 k" by auto
  next
    fix j l assume j: "j < length w - pos" and "?I j l"
    then obtain x where l: "l = k\<lparr>ks_data := Buf (map Some (take (length w - j) w) @ x # map Some (drop (length w - j) w) @ rs)\<rparr>" by blast
    obtain i where i: "length w - j = Suc i" "length w - Suc j = i" "i < length w" using j by (cases "length w - j") auto
    have t: "take (Suc i) w = take i w @ [w ! i]" using i(3) by (simp add: take_Suc_conv_app_nth)
    have d: "drop i w = w ! i # drop (Suc i) w" using i(3) by (simp add: Cons_nth_drop_Suc)
    have li: "length (take i w) = i" using i(3) by simp
    define A where "A = take i w"
    have "l = k\<lparr>ks_data := Buf (map Some A @ Some (w ! i) # x # map Some (drop (Suc i) w) @ rs)\<rparr>" unfolding l i(1) t A_def by simp
    then have "rd l i = Inr (w ! i)" "wr (Suc i) (w ! i) l = Inr (k\<lparr>ks_data := Buf (map Some A @ Some (w ! i) # Some (w ! i) # map Some (drop (Suc i) w) @ rs)\<rparr>)"
      using li unfolding A_def [symmetric] by (simp_all add: rd_def cget_def wr_def cset_def nth_append list_update_append)
    then show "\<exists>l'. (let i = length w - j in kbind (rd l (i - 1)) (\<lambda>x. wr i x l)) = Inr l' \<and> ?I (Suc j) l'"
      unfolding i d A_def by (auto simp: Let_def)
  qed simp
  then show ?thesis using assms(2) by auto
qed

lemma insert_repr:
  assumes "repr k t" "pos < length t" "length t + 2 \<le> ks_cap k"
  shows "\<exists>k'. kstring_insert pos c k = Inr k' \<and> repr k' (take pos t @ c # drop pos t)"
proof -
  have "t \<noteq> []" using assms(2) by auto
  then obtain rest where r: "ks_data k = Buf (map Some (t @ [NUL]) @ rest)" "ks_cap k = length t + 1 + length rest" "ks_len k = length t"
    using repr_bufE [OF assms(1)] by blast
  then obtain y rs where y: "rest = y # rs" using assms(3) by (cases rest) auto
  obtain x where x: "shift_up (length t + 1) pos k = Inr (k\<lparr>ks_data := Buf (map Some (take pos t) @ x # map Some (drop pos t @ [NUL]) @ rs)\<rparr>)"
    using shift_up_ok [of k "t @ [NUL]" y rs pos] r(1) y assms(2) by auto
  let ?k = "k\<lparr>ks_data := Buf (map Some (take pos t @ c # drop pos t @ [NUL]) @ rs)\<rparr>"
  have 1: "wr pos c (k\<lparr>ks_data := Buf (map Some (take pos t) @ x # map Some (drop pos t @ [NUL]) @ rs)\<rparr>) = Inr ?k"
    using assms(2) by (simp add: wr_def cset_def list_update_append)
  have "(map Some (take pos t @ c # drop pos t @ [NUL]) @ rs)[length t + 1 := Some NUL] = map Some (take pos t @ c # drop pos t @ [NUL]) @ rs"
    using assms(2) by (intro list_update_same_conv [THEN iffD2]) (auto simp: nth_append nth_Cons')
  then have "ensure_null_terminated (?k\<lparr>ks_len := length t + 1\<rparr>) = Inr (?k\<lparr>ks_len := length t + 1\<rparr>)"
    using assms(2) by (simp add: ensure_null_terminated_def wr_def cset_def)
  moreover have "repr (?k\<lparr>ks_len := length t + 1\<rparr>) (take pos t @ c # drop pos t)" using r y assms(2) by (auto simp: repr_def)
  ultimately show ?thesis using x 1 assms(2,3) r ensure_same [of "length t + 1" k] by (simp add: kstring_insert_def)
qed

lemma insert_end_repr:
  assumes "repr k t"
  shows "\<exists>k'. kstring_insert (length t) c k = Inr k' \<and> repr k' (t @ [c])"
proof -
  obtain k1 where k1: "ks_ensure_capacity (length t + 1) k = Inr k1" "part k1 t" using ensure_part [OF repr_part [OF assms]] by blast
  obtain k2 where k2: "kstring_push_back c k1 = Inr k2" "repr k2 (t @ [c])" using push_back_repr [OF k1(2)] by blast
  have "k2\<lparr>ks_len := length (t @ [c])\<rparr> = k2" using repr_len [OF k2(2)] by simp
  then show ?thesis using terminate_repr [OF k2(2), of "length (t @ [c])"] k1 k2 repr_len [OF assms] part_len [OF k1(2)]
    by (simp add: kstring_insert_def)
qed

text \<open>In the middle of a text that fills its buffer up to the terminator, the terminator is moved out of the buffer.\<close>

lemma insert_overflow:
  assumes "repr k t" "pos < length t" "ks_cap k = length t + 1"
  shows "kstring_insert pos c k = Inl (Fault ''out of bounds'')"
proof -
  have "t \<noteq> []" using assms(2) by auto
  then obtain rest where r: "ks_data k = Buf (map Some (t @ [NUL]) @ rest)" "ks_cap k = length t + 1 + length rest" "ks_len k = length t"
    using repr_bufE [OF assms(1)] by blast
  have "kfor 0 (length t + 1 - pos) body k = Inl e" if "body 0 k = Inl e" for body e
    using that assms(2) by (subst kfor.simps) simp
  moreover have "rd k (length t) = Inr NUL" "wr (length t + 1) NUL k = Inl (Fault ''out of bounds'')"
    using r assms(3) by (auto simp: rd_def cget_def wr_def cset_def nth_append)
  ultimately have "shift_up (length t + 1) pos k = Inl (Fault ''out of bounds'')"
    unfolding shift_up_def by (simp add: Let_def)
  then show ?thesis using assms(2,3) r ensure_same [of "length t + 1" k] by (simp add: kstring_insert_def)
qed

section \<open>Queries\<close>

text \<open>A reader \<open>r\<close> of the text \<open>t\<close>.\<close>

definition reads :: "(nat \<Rightarrow> char kres) \<Rightarrow> string \<Rightarrow> bool" where
  "reads r t \<longleftrightarrow> (\<forall>i < length t. r i = Inr (t ! i))"

lemma reads_repr: "repr k t \<Longrightarrow> reads (rd k) t"
  by (cases "t = []") (auto simp: reads_def rd_repr nth_append)

lemma match_at_reads:
  "reads r t \<Longrightarrow> i + length u \<le> length t \<Longrightarrow> match_at r i u = Inr (take (length u) (drop i t) = u)"
proof (induction u arbitrary: i)
  case (Cons c u)
  then show ?case by (auto simp: reads_def Cons_nth_drop_Suc [symmetric])
qed simp

text \<open>The first occurrence of \<open>u\<close> in \<open>t\<close> from \<open>i\<close> on.\<close>

definition first_occ :: "string \<Rightarrow> string \<Rightarrow> nat \<Rightarrow> nat option \<Rightarrow> bool" where
  "first_occ t u i r \<longleftrightarrow> (case r of
     Some j \<Rightarrow> i \<le> j \<and> take (length u) (drop j t) = u \<and> (\<forall>l. i \<le> l \<and> l < j \<longrightarrow> take (length u) (drop l t) \<noteq> u)
   | None \<Rightarrow> \<forall>l \<ge> i. take (length u) (drop l t) \<noteq> u)"

lemma first_occ_next: "first_occ t u (Suc i) r \<Longrightarrow> take (length u) (drop i t) \<noteq> u \<Longrightarrow> first_occ t u i r"
  by (auto simp: first_occ_def Suc_le_eq split: option.splits) (metis le_neq_implies_less)+

lemma first_occ_none:
  assumes "length t < i + length u" "u \<noteq> []"
  shows "first_occ t u i None"
proof -
  have "take (length u) (drop l t) \<noteq> u" if "i \<le> l" for l
  proof -
    have "length (take (length u) (drop l t)) < length u" using that assms by (cases u) auto
    then show ?thesis by auto
  qed
  then show ?thesis by (simp add: first_occ_def)
qed

lemma find_from_reads:
  assumes "reads r t" "u \<noteq> []"
  shows "\<exists>p. find_from r (length t) u i = Inr p \<and> first_occ t u i p"
proof (induction "Suc (length t) - i" arbitrary: i)
  case 0
  then show ?case using assms first_occ_none [of t i u] by (subst find_from.simps) (cases u, auto)
next
  case (Suc n)
  show ?case
  proof (cases "i + length u \<le> length t")
    case True
    then have i: "i + length u - 1 < length t" using assms(2) by (cases u) auto
    have n: "n = Suc (length t) - Suc i" using Suc.hyps(2) by simp
    show ?thesis
    proof (cases "take (length u) (drop i t) = u")
      case False
      then show ?thesis using Suc.hyps(1) [OF n] first_occ_next [OF _ False] match_at_reads [OF assms(1) True] i by (subst find_from.simps) auto
    qed (use match_at_reads [OF assms(1) True] i in \<open>subst find_from.simps, auto simp: first_occ_def\<close>)
  next
    case False
    then show ?thesis using first_occ_none [of t i u] assms(2) by (subst find_from.simps) auto
  qed
qed

lemma memcmp_reads:
  "reads r t \<Longrightarrow> reads q u \<Longrightarrow> i + n \<le> length t \<Longrightarrow> i + n \<le> length u \<Longrightarrow> memcmp_eq r q i n = Inr (take n (drop i t) = take n (drop i u))"
proof (induction n arbitrary: i)
  case (Suc n)
  then show ?case by (auto simp: reads_def Cons_nth_drop_Suc [symmetric])
qed simp

lemma strcmp_repr:
  "repr k t \<Longrightarrow> t \<noteq> [] \<Longrightarrow> NUL \<notin> set t \<Longrightarrow> NUL \<notin> set u \<Longrightarrow> i \<le> length t \<Longrightarrow> strcmp_eq k i u = Inr (drop i t = u)"
proof (induction u arbitrary: i)
  case Nil
  then have "t ! i \<noteq> NUL" if "i < length t" using nth_mem [OF that] by metis
  with Nil show ?case using rd_repr [of k t i] by (cases "i = length t") (auto simp: nth_append)
next
  case (Cons c u)
  then show ?case using rd_repr [of k t i]
    by (cases "i = length t") (auto simp: Cons_nth_drop_Suc [symmetric] nth_append)
qed

lemma c_str_from_reads:
  "reads r (t @ [NUL]) \<Longrightarrow> NUL \<notin> set t \<Longrightarrow> i \<le> length t \<Longrightarrow> length t - i < n \<Longrightarrow> c_str_from n i r = Inr (drop i t)"
proof (induction n arbitrary: i)
  case (Suc n)
  have "r i = Inr ((t @ [NUL]) ! i)" using Suc.prems by (auto simp: reads_def)
  moreover have "t ! i \<noteq> NUL" if "i < length t" using nth_mem [OF that] Suc.prems(2) by metis
  ultimately show ?case using Suc by (cases "i = length t") (auto simp: Cons_nth_drop_Suc [symmetric] nth_append)
qed simp

lemma reads_cells: "reads (cget (map Some t @ rest)) t"
  by (simp add: reads_def cget_def nth_append)

lemma c_str_repr:
  assumes "repr k t" "NUL \<notin> set t"
  shows "kstring_c_str k = Inr t"
proof (cases "ks_data k = Null")
  case False
  then obtain rest where r: "ks_data k = Buf (map Some (t @ [NUL]) @ rest)" "ks_cap k = length t + 1 + length rest" using assms(1) by (auto simp: repr_def)
  have "reads (rd k) (t @ [NUL])" using reads_cells [of "t @ [NUL]" rest] r(1) by (simp add: reads_def rd_def)
  from c_str_from_reads [OF this assms(2), of 0 "Suc (ks_cap k)"] show ?thesis using r False by (simp add: kstring_c_str_def)
qed (use assms(1) in \<open>auto simp: kstring_c_str_def repr_def\<close>)

lemma trim_b_repr:
  "repr k t \<Longrightarrow> t \<noteq> [] \<Longrightarrow> c \<noteq> NUL \<Longrightarrow> b \<le> length t \<Longrightarrow> \<exists>b'. trim_b k c b (length t) = Inr b' \<and> b' \<le> length t \<and> drop b' t = dropWhile (\<lambda>x. x = c) (drop b t)"
proof (induction "length t - b" arbitrary: b)
  case 0
  then show ?case using rd_repr [of k t b] by (subst trim_b.simps) auto
next
  case (Suc n)
  then have b: "b < length t" "n = length t - Suc b" by auto
  have "\<exists>b'. trim_b k c (Suc b) (length t) = Inr b' \<and> b' \<le> length t \<and> drop b' t = dropWhile (\<lambda>x. x = c) (drop (Suc b) t)"
    by (rule Suc.hyps(1) [OF b(2)]) (use Suc.prems b in auto)
  then show ?case using Suc.prems b rd_repr [of k t b]
    by (subst trim_b.simps) (auto simp: Cons_nth_drop_Suc [symmetric] nth_append)
qed

lemma trim_e_repr: "repr k t \<Longrightarrow> t \<noteq> [] \<Longrightarrow> c \<noteq> NUL \<Longrightarrow> trim_e k c b (length t) = Inr (length t)"
  using rd_repr [of k t "length t"] by (subst trim_e.simps) auto

lemma copy_out_repr:
  assumes "repr k t" "b < e" "e \<le> length t"
  shows "\<exists>k'. kbind (ks_ensure_capacity n kstring_new) (\<lambda>result. kbind (rd_list k b (e - b)) (\<lambda>cs. ks_push_all cs result)) = Inr k' \<and>
    repr k' (take (e - b) (drop b t))"
proof -
  obtain r where r: "ks_ensure_capacity n kstring_new = Inr r" "part r []" using ensure_part [OF repr_part [OF repr_new]] by blast
  have "t \<noteq> []" using assms(2,3) by auto
  then have "rd_list k b (e - b) = Inr (take (e - b) (drop b t))"
    using rd_list_repr [OF assms(1), of b "e - b"] assms(2,3) by simp
  moreover have "take (e - b) (drop b t) \<noteq> []" using assms(2,3) by auto
  ultimately show ?thesis using r push_all_repr [OF r(2)] by fastforce
qed

lemma trim_repr:
  assumes "repr k t" "t \<noteq> []" "c \<noteq> NUL"
  shows "\<exists>k'. trim front back c k = Inr k' \<and> repr k' (if front then dropWhile (\<lambda>x. x = c) t else t)"
proof -
  have l: "ks_len k = length t" by (rule repr_len [OF assms(1)])
  obtain b where b: "(if front then trim_b k c 0 (length t) else Inr 0) = Inr b" "b \<le> length t" "drop b t = (if front then dropWhile (\<lambda>x. x = c) t else t)"
    using trim_b_repr [OF assms, of 0] by (cases front) auto
  have e: "(if back then trim_e k c b (length t) else Inr (length t)) = Inr (length t)" using trim_e_repr [OF assms] by simp
  show ?thesis
  proof (cases "front \<or> back")
    case True
    then have q: "trim front back c k = (if length t \<le> b then kstring_cstr (Some [])
         else kbind (ks_ensure_capacity (length t - b) kstring_new) (\<lambda>result.
           kbind (rd_list k b (length t - b)) (\<lambda>cs. ks_push_all cs result)))"
      unfolding trim_def l b(1) kbind_simps e by auto
    show ?thesis
    proof (cases "length t \<le> b")
      case False
      then show ?thesis using copy_out_repr [OF assms(1), of b "length t" "length t - b"] unfolding q b(3) [symmetric] by simp
    qed (use b(3) cstr_repr [of "[]"] in \<open>simp add: q\<close>)
  next
    case False
    then show ?thesis using copy_repr(1) [OF assms(1)] by (simp add: trim_def)
  qed
qed

subsection \<open>Views of a text\<close>

text \<open>\<open>views v t\<close>: the view \<open>v\<close> is of the text \<open>t\<close>, which the terminator follows in memory.\<close>

definition views :: "kstring_view \<Rightarrow> string \<Rightarrow> bool" where
  "views v t \<longleftrightarrow> kv_len v = length t \<and> NUL \<notin> set t \<and> (\<exists>rest. kv_data v = t @ NUL # rest)"

lemma strlen_text: "NUL \<notin> set t \<Longrightarrow> strlen_at (t @ NUL # rest) = Inr (length t)"
  by (induction t) auto

lemma views_cstr: "NUL \<notin> set t \<Longrightarrow> \<exists>v. kv_cstr (t @ NUL # rest) = Inr v \<and> views v t"
  by (auto simp: kv_cstr_def strlen_text views_def)

lemma reads_views: "views v t \<Longrightarrow> reads (kv_nth v) t"
  by (auto simp: views_def reads_def kv_nth_def nth_append)

lemma kv_find_views:
  assumes "views v t" "u \<noteq> []"
  shows "\<exists>p. kv_find v (Some u) = Inr p \<and> first_occ t u 0 p"
proof (cases "length u > length t")
  case True
  then show ?thesis using first_occ_none [of t 0 u] assms by (auto simp: kv_find_def views_def)
qed (use find_from_reads [OF reads_views [OF assms(1)] assms(2), of 0] assms in \<open>auto simp: kv_find_def views_def\<close>)

lemma kv_substr_rest:
  assumes "views v t"
  shows "\<exists>w. kv_substr pos None v = Inr w \<and> views w (drop pos t)"
proof (cases "pos < length t")
  case True
  then obtain rest where "kv_data v = t @ NUL # rest" using assms by (auto simp: views_def)
  then show ?thesis using True assms views_cstr [of "drop pos t" rest] set_drop_subset [of pos t] by (auto simp: kv_substr_def views_def)
next
  case False
  then show ?thesis using assms views_cstr [of "[]" "[]"] by (auto simp: kv_substr_def views_def)
qed

lemma kv_substr_prefix:
  assumes "views v t" "n < length t"
  shows "kv_substr 0 (Some n) v = Inr (kv_new (kv_data v) n)"
  using assms by (auto simp: kv_substr_def views_def)

text \<open>The string made of a view: the bytes it shows, also where no terminator follows them.\<close>

lemma view_ctor_repr:
  assumes "kv_len v < length (kv_data v)"
  shows "\<exists>k. kstring_view_ctor v = Inr k \<and> repr k (take (kv_len v) (kv_data v))"
proof -
  let ?n = "kv_len v" and ?d = "kv_data v"
  obtain k rest where k: "ks_ensure_capacity (?n + 1) kstring_new = Inr k" "ks_data k = Buf (map Some [] @ rest)" "ks_cap k = length rest" "?n + 1 \<le> length rest"
    by (rule ensure_room [OF repr_part [OF repr_new], of "?n + 1"]) auto
  have t: "take (?n + 1) ?d = take ?n ?d @ [?d ! ?n]" using assms by (simp add: take_Suc_conv_app_nth)
  let ?k = "k\<lparr>ks_data := Buf (map Some (take ?n ?d) @ Some NUL # drop (?n + 1) rest)\<rparr>\<lparr>ks_len := ?n\<rparr>"
  have "wr_list 0 (take (?n + 1) ?d) k = Inr (k\<lparr>ks_data := Buf (map Some (take ?n ?d) @ Some (?d ! ?n) # drop (?n + 1) rest)\<rparr>)"
    using wr_list_room [OF k(2), of "take (?n + 1) ?d"] k(4) assms unfolding t by simp
  then have "kstring_view_ctor v = Inr ?k" using k(1) assms by (simp add: kstring_view_ctor_def wr_def cset_def list_update_append)
  moreover have "repr ?k (take ?n ?d)" using k(3,4) assms by (auto simp: repr_def)
  ultimately show ?thesis by blast
qed

lemma view_ctor_views: "views v t \<Longrightarrow> \<exists>k. kstring_view_ctor v = Inr k \<and> repr k t"
  using view_ctor_repr [of v] by (auto simp: views_def)

lemma view_ctor_prefix:
  "views v t \<Longrightarrow> n < length t \<Longrightarrow> \<exists>k. kstring_view_ctor (kv_new (kv_data v) n) = Inr k \<and> repr k (take n t)"
  using view_ctor_repr [of "kv_new (kv_data v) n"] by (auto simp: views_def kv_new_def)

section \<open>Properties\<close>

lemma kstring_updates:
  assumes "repr k t" "repr l u"
  shows "\<exists>k'. kstring_push_back c k = Inr k' \<and> repr k' (t @ [c])"
    and "\<exists>k'. kstring_pop_back k = Inr k' \<and> repr k' (butlast t)"
    and "\<exists>k'. kstring_clear k = Inr k' \<and> repr k' []"
    and "\<exists>k'. kstring_reverse k = Inr k' \<and> repr k' (rev t)"
    and "\<exists>k'. kstring_erase pos k = Inr k' \<and> repr k' (take pos t @ drop (Suc pos) t)"
    and "\<exists>k'. kstring_truncate pos k = Inr k' \<and> repr k' (take pos t)"
    and "\<exists>k'. kstring_append l k = Inr k' \<and> repr k' (t @ u)"
    and "\<exists>k'. kstring_append_cstr (Some s) k = Inr k' \<and> repr k' (t @ s)"
    and "\<exists>k'. kstring_append_char c k = Inr k' \<and> repr k' (t @ [c])"
    and "\<exists>k'. kstring_copy l = Inr k' \<and> repr k' u"
    and "\<exists>k'. kstring_assign k l = Inr k' \<and> repr k' u"
    and "\<exists>k'. kstring_plus k l = Inr k' \<and> repr k' (t @ u)"
proof -
  note tr = terminate_repr [OF assms(1)]
  show "\<exists>k'. kstring_push_back c k = Inr k' \<and> repr k' (t @ [c])" "\<exists>k'. kstring_append_char c k = Inr k' \<and> repr k' (t @ [c])"
    unfolding kstring_append_char_def by (rule push_back_repr [OF repr_part [OF assms(1)]])+
  show "\<exists>k'. kstring_pop_back k = Inr k' \<and> repr k' (butlast t)"
    using tr [of "length t - 1"] assms(1) repr_len [OF assms(1)] by (cases "t = []") (simp_all add: kstring_pop_back_def butlast_conv_take)
  show "\<exists>k'. kstring_clear k = Inr k' \<and> repr k' []" using tr [of 0] by (simp add: kstring_clear_def)
  show "\<exists>k'. kstring_truncate pos k = Inr k' \<and> repr k' (take pos t)"
    using tr [of pos] assms(1) repr_len [OF assms(1)] by (simp add: kstring_truncate_def)
  obtain k' where k': "kstring_copy k = Inr k'" "repr k' t" using copy_repr(1) [OF assms(1)] by blast
  show "\<exists>k'. kstring_plus k l = Inr k' \<and> repr k' (t @ u)" using append_repr [OF k'(2) assms(2)] k'(1) by (simp add: kstring_plus_def)
qed (rule reverse_repr [OF assms(1)] erase_repr [OF assms(1)] append_repr [OF assms] append_cstr_repr [OF assms(1)] copy_repr [OF assms(2)])+



lemma kstring_queries:
  assumes "repr k t" "repr l u" "NUL \<notin> set t" "NUL \<notin> set s"
  shows "s \<noteq> [] \<Longrightarrow> \<exists>p. kstring_find k (Some s) = Inr p \<and> first_occ t s 0 p"
    and "pos < length t \<Longrightarrow> n \<noteq> Some 0 \<Longrightarrow> \<exists>k'. kstring_substr pos n k = Inr k' \<and>
      repr k' (case n of None \<Rightarrow> drop pos t | Some n \<Rightarrow> take n (drop pos t))"
    and "kstring_eq k l = Inr (t = u)"
    and "kstring_eq_cstr k (Some s) = Inr (t = s)"
    and "kstring_starts_with k l = Inr (\<exists>v. t = u @ v)"
    and "kstring_ends_with c k = Inr (\<exists>v. t = v @ [c])"
    and "kstring_c_str k = Inr t"
proof -
  note len = repr_len [OF assms(1)] repr_len [OF assms(2)] and rs = reads_repr [OF assms(1)] reads_repr [OF assms(2)]
  show "\<exists>p. kstring_find k (Some s) = Inr p \<and> first_occ t s 0 p" if "s \<noteq> []"
    using find_from_reads [OF rs(1) that, of 0] first_occ_none [of t 0 s] that len by (cases "length s > length t") (auto simp: kstring_find_def)
  show "\<exists>k'. kstring_substr pos n k = Inr k' \<and> repr k' (case n of None \<Rightarrow> drop pos t | Some n \<Rightarrow> take n (drop pos t))"
    if p: "pos < length t" "n \<noteq> Some 0"
  proof -
    let ?n = "case n of None \<Rightarrow> length t - pos | Some m \<Rightarrow> min m (length t - pos)"
    have "pos < pos + ?n" "pos + ?n \<le> length t" using p by (auto split: option.splits)
    from copy_out_repr [OF assms(1) this, of "length t"]
    show ?thesis using p len by (cases n) (auto simp: kstring_substr_def min_def)
  qed
  show "kstring_eq k l = Inr (t = u)"
    using memcmp_reads [OF rs, of 0 "length t"] len by (auto simp: kstring_eq_def)
  show "kstring_eq_cstr k (Some s) = Inr (t = s)"
    using strcmp_repr [OF assms(1) _ assms(3,4), of 0] len by (cases "t = []") (auto simp: kstring_eq_cstr_def)
  show "kstring_starts_with k l = Inr (\<exists>v. t = u @ v)"
    using memcmp_reads [OF rs, of 0 "length u"] len by (auto simp: kstring_starts_with_def) (metis append_take_drop_id)+
  show "kstring_ends_with c k = Inr (\<exists>v. t = v @ [c])"
  proof (cases t rule: rev_cases)
    case (snoc v x)
    then show ?thesis using rd_repr [OF assms(1), of "length v"] len by (simp add: kstring_ends_with_def kstring_back_def nth_append)
  qed (use len in \<open>simp add: kstring_ends_with_def\<close>)
  show "kstring_c_str k = Inr t"
    by (rule c_str_repr [OF assms(1,3)])
qed

text \<open>
  The queries of a well-formed \<^verbatim>\<open>kstring\<close> read no cell outside its buffer and answer for its text: \<^verbatim>\<open>find\<close> gives the first
  occurrence and \<^verbatim>\<open>npos\<close> when there is none, \<^verbatim>\<open>substr\<close> of a part that is not empty copies it, \<^verbatim>\<open>operator==\<close> of two strings and of
  a C string, \<^verbatim>\<open>starts_with\<close> and \<^verbatim>\<open>ends_with\<close> compare the texts, \<^verbatim>\<open>c_str\<close> shows the text.
\<close>

theorem kstring_queries_exact:
  assumes "repr k t" "repr l u" "NUL \<notin> set t" "NUL \<notin> set s"
  shows "(s \<noteq> [] \<longrightarrow> (\<exists>p. kstring_find k (Some s) = Inr p \<and> first_occ t s 0 p)) \<and>
    (pos < length t \<longrightarrow> n \<noteq> Some 0 \<longrightarrow> (\<exists>k'. kstring_substr pos n k = Inr k' \<and> repr k' (case n of None \<Rightarrow> drop pos t | Some n \<Rightarrow> take n (drop pos t)))) \<and>
    (kstring_eq k l = Inr (t = u)) \<and>
    (kstring_eq_cstr k (Some s) = Inr (t = s)) \<and>
    (kstring_starts_with k l = Inr (\<exists>v. t = u @ v)) \<and>
    (kstring_ends_with c k = Inr (\<exists>v. t = v @ [c])) \<and>
    (kstring_c_str k = Inr t)"
  using kstring_queries [OF assms] by blast

lemma kstring_insert_cases:
  assumes "repr k t"
  shows "pos < length t \<Longrightarrow> ks_cap k \<noteq> length t + 1 \<Longrightarrow> \<exists>k'. kstring_insert pos c k = Inr k' \<and> repr k' (take pos t @ c # drop pos t)"
    and "pos < length t \<Longrightarrow> ks_cap k = length t + 1 \<Longrightarrow> kstring_insert pos c k = Inl (Fault ''out of bounds'')"
    and "pos = length t \<Longrightarrow> \<exists>k'. kstring_insert pos c k = Inr k' \<and> repr k' (t @ [c])"
    and "pos > length t \<Longrightarrow> kstring_insert pos c k = Inr k"
proof -
  show "\<exists>k'. kstring_insert pos c k = Inr k' \<and> repr k' (take pos t @ c # drop pos t)" if "pos < length t" "ks_cap k \<noteq> length t + 1"
  proof -
    have "t \<noteq> []" using that(1) by auto
    then have "length t + 1 \<le> ks_cap k" using assms by (auto simp: repr_def split: if_splits)
    then have "length t + 2 \<le> ks_cap k" using that(2) by simp
    then show ?thesis by (rule insert_repr [OF assms that(1)])
  qed
qed (use insert_overflow [OF assms] insert_end_repr [OF assms] repr_len [OF assms] in \<open>auto simp: kstring_insert_def\<close>)

text \<open>
  \<^verbatim>\<open>insert\<close> puts the character in at its position, at the end and in the middle, and ignores a position behind the end - but a
  text that fills its buffer up to the terminator is not grown when the character goes into the middle: the terminator is then written
  behind the buffer.
\<close>

theorem kstring_insert_exact:
  assumes "repr k t"
  shows "(pos < length t \<longrightarrow> ks_cap k \<noteq> length t + 1 \<longrightarrow> (\<exists>k'. kstring_insert pos c k = Inr k' \<and> repr k' (take pos t @ c # drop pos t))) \<and>
    (pos < length t \<longrightarrow> ks_cap k = length t + 1 \<longrightarrow> kstring_insert pos c k = Inl (Fault ''out of bounds'')) \<and>
    (pos = length t \<longrightarrow> (\<exists>k'. kstring_insert pos c k = Inr k' \<and> repr k' (t @ [c]))) \<and>
    (pos > length t \<longrightarrow> kstring_insert pos c k = Inr k)"
  using kstring_insert_cases [OF assms] by blast

text \<open>A line of fifteen characters, the buffer's sixteen bytes full.\<close>

definition full_line :: kstring where
  "full_line = \<lparr>ks_data = Buf (map Some (replicate 15 (CHR ''x'') @ [NUL])), ks_len = 15, ks_cap = 16\<rparr>"

text \<open>
  \<^verbatim>\<open>trim_front\<close> drops the leading occurrences of the character. \<^verbatim>\<open>trim_back\<close> drops nothing, for it looks at the cell of the
  terminator; so \<^verbatim>\<open>trim\<close>, which is to trim both ends, only trims the front.
\<close>

theorem kstring_trim_keeps_back:
  assumes "repr k t" "t \<noteq> []" "c \<noteq> NUL"
  shows "\<exists>k'. kstring_trim_front c k = Inr k' \<and> repr k' (dropWhile (\<lambda>x. x = c) t)"
    and "\<exists>k'. kstring_trim_back c k = Inr k' \<and> repr k' t"
    and "\<exists>k'. kstring_trim c k = Inr k' \<and> repr k' (dropWhile (\<lambda>x. x = c) t)"
  using trim_repr [OF assms, of True] trim_repr [OF assms, of False] by (auto simp: kstring_trim_front_def kstring_trim_back_def kstring_trim_def)

text \<open>
  The assignment from a view frees the old buffer and goes on with the pointer to it: every string that has a buffer is then read or
  written after it was freed.
\<close>

lemma kstring_assign_view_faults:
  assumes "repr k t" "ks_data k \<noteq> Null" "kv_len v < length (kv_data v)"
  shows "kstring_assign_view k v = Inl (Fault ''string data'')"
proof -
  let ?k = "k\<lparr>ks_data := Dangling\<rparr>"
  have g: "ks_grow ?k = Inl (Fault ''string data'')" by (simp add: ks_grow_def Let_def)
  obtain c cs where c: "take (kv_len v + 1) (kv_data v) = c # cs" using assms(3) by (cases "kv_data v") auto
  show ?thesis
  proof (cases "ks_cap k < kv_len v + 1")
    case True
    then have "ks_ensure_capacity (kv_len v + 1) ?k = Inl (Fault ''string data'')" using g by (subst ks_ensure_capacity.simps) simp
    then show ?thesis using assms(2) by (simp add: kstring_assign_view_def Let_def)
  next
    case False
    then have "ks_ensure_capacity (kv_len v + 1) ?k = Inr ?k" by (subst ks_ensure_capacity.simps) simp
    moreover have "wr_list 0 (take (kv_len v + 1) (kv_data v)) ?k = Inl (Fault ''string data'')" unfolding c by (simp add: wr_def cset_def)
    ultimately show ?thesis using assms(2,3) by (simp add: kstring_assign_view_def Let_def)
  qed
qed

end
