(* ===== verification/Fmt.thy ===== *)
theory Fmt
  imports Kstring
begin

text \<open>
  Formatting and parsing of numbers: \<^verbatim>\<open>include/fmt/fmt.hpp\<close>. The caller's buffer of 128 bytes and the local one of 64 are lists of cells as in
  \<^verbatim>\<open>Kstring\<close>, and an access outside of them is a fault. Numbers are 64-bit words; an argument of a smaller type is converted to \<^verbatim>\<open>uintmax_t\<close> or
  \<^verbatim>\<open>intmax_t\<close> before it is formatted.
\<close>

section \<open>Definitions\<close>

definition DEC_CHARS :: string where
  "DEC_CHARS = ''0123456789''"

definition HEX_CHARS :: string where
  "HEX_CHARS = ''0123456789ABCDEF''"

definition OCT_CHARS :: string where
  "OCT_CHARS = ''01234567''"

definition BIN_CHARS :: string where
  "BIN_CHARS = ''01''"

datatype NumberFormat = DEC | HEX | BIN | OCT

definition is_numeric :: "char \<Rightarrow> bool" where
  "is_numeric c \<longleftrightarrow> of_char c \<ge> (48 :: nat) \<and> of_char c \<le> (57 :: nat)"

definition is_alpha :: "char \<Rightarrow> bool" where
  "is_alpha c \<longleftrightarrow> of_char c \<ge> (97 :: nat) \<and> of_char c \<le> (122 :: nat) \<or> of_char c \<ge> (65 :: nat) \<and> of_char c \<le> (90 :: nat)"

definition number_format_divisor :: "NumberFormat \<Rightarrow> nat" where
  "number_format_divisor f = (case f of DEC \<Rightarrow> 10 | HEX \<Rightarrow> 16 | OCT \<Rightarrow> 8 | BIN \<Rightarrow> 2)"

text \<open>The first loop of \<^verbatim>\<open>insert\<close>; counting down below zero would leave the buffer.\<close>

primrec insert_shift :: "nat \<Rightarrow> nat \<Rightarrow> nat \<Rightarrow> char option list \<Rightarrow> char option list kres" where
  "insert_shift pos num 0 b = kbind (cget b 0) (\<lambda>c. kbind (cset num c b) (\<lambda>b. if 0 = pos then Inr b else Inl (Fault ''out of bounds'')))"
| "insert_shift pos num (Suc i) b = kbind (cget b (Suc i)) (\<lambda>c. kbind (cset (Suc i + num) c b) (\<lambda>b. if Suc i = pos then Inr b else insert_shift pos num i b))"

definition fmt_insert :: "char option list \<Rightarrow> nat \<Rightarrow> nat \<Rightarrow> nat \<Rightarrow> char \<Rightarrow> (nat \<times> char option list) kres" where
  "fmt_insert buffer pos index num pad = (if pos \<ge> index then Inr (0, buffer)
     else kbind (insert_shift pos num (index - 1) buffer) (\<lambda>buffer.
       kbind (kfor pos (pos + num) (\<lambda>i b. cset i pad b) buffer) (\<lambda>buffer. Inr (num, buffer))))"

text \<open>The arithmetic of \<^verbatim>\<open>pad_zero\<close> is on \<^verbatim>\<open>size_t\<close>: the difference wraps around before its low bits are taken.\<close>

definition pad_zero :: "char option list \<Rightarrow> nat \<Rightarrow> int \<Rightarrow> (nat \<times> char option list) kres" where
  "pad_zero buffer index min_len = (let len = of_nat index - 2 :: 64 word; zeros = and (word_of_int min_len - len) (word_of_int (min_len - 1)) in
     fmt_insert buffer 2 index (unat zeros) (CHR ''0''))"

definition number_format_char :: "nat \<Rightarrow> NumberFormat \<Rightarrow> char kres" where
  "number_format_char i f = cget (map Some ((case f of DEC \<Rightarrow> DEC_CHARS | HEX \<Rightarrow> HEX_CHARS | OCT \<Rightarrow> OCT_CHARS | BIN \<Rightarrow> BIN_CHARS) @ [NUL])) i"

definition to_string_prefix :: "NumberFormat \<Rightarrow> nat \<Rightarrow> char option list \<Rightarrow> (nat \<times> char option list) kres" where
  "to_string_prefix f index b = (case f of DEC \<Rightarrow> Inr (index, b)
     | _ \<Rightarrow> kbind (cset index (CHR ''0'') b) (\<lambda>b. kbind (cset (index + 1) (case f of HEX \<Rightarrow> CHR ''x'' | BIN \<Rightarrow> CHR ''b'' | _ \<Rightarrow> CHR ''o'') b) (\<lambda>b. Inr (index + 2, b))))"

lemma div_base_less:
  assumes "0 < (n :: 64 word)"
  shows "unat (n div of_nat (number_format_divisor f)) < unat n"
proof -
  have "unat (of_nat (number_format_divisor f) :: 64 word) \<ge> 2" by (cases f) (simp_all add: number_format_divisor_def)
  moreover have "0 < unat n" using assms by (simp add: word_less_nat_alt)
  ultimately show ?thesis by (simp add: unat_div_distrib)
qed

function to_string_digits :: "NumberFormat \<Rightarrow> 64 word \<Rightarrow> nat \<Rightarrow> char option list \<Rightarrow> (nat \<times> char option list) kres" where
  "to_string_digits f unum ri reverse = (if unum > 0
     then kbind (number_format_char (unat (unum mod of_nat (number_format_divisor f))) f) (\<lambda>c. kbind (cset ri c reverse) (\<lambda>reverse.
       to_string_digits f (unum div of_nat (number_format_divisor f)) (ri + 1) reverse))
     else Inr (ri, reverse))"
  by pat_completeness auto
termination
  by (relation "measure (\<lambda>(f, n, ri, r). unat n)") (auto simp: div_base_less)

declare to_string_digits.simps [simp del]

primrec to_string_copy :: "nat \<Rightarrow> char option list \<Rightarrow> nat \<Rightarrow> char option list \<Rightarrow> (nat \<times> char option list) kres" where
  "to_string_copy 0 reverse index b = Inr (index, b)"
| "to_string_copy (Suc ri) reverse index b = kbind (cget reverse ri) (\<lambda>c. kbind (cset index c b) (to_string_copy ri reverse (index + 1)))"

text \<open>What the two \<^verbatim>\<open>to_string\<close> functions do from the prefix on, the same in both.\<close>

definition to_string_body :: "64 word \<Rightarrow> nat \<Rightarrow> char option list \<Rightarrow> NumberFormat \<Rightarrow> char option list kres" where
  "to_string_body unum index b f =
     kbind (to_string_prefix f index b) (\<lambda>(index, b).
     kbind (if unum = 0 then kbind (cset index (CHR ''0'') b) (\<lambda>b. Inr (index + 1, b)) else Inr (index, b)) (\<lambda>(index, b).
     kbind (to_string_digits f unum 0 (replicate 64 None)) (\<lambda>(ri, reverse).
     kbind (to_string_copy ri reverse index b) (\<lambda>(index, b).
     kbind (if f \<noteq> DEC then kbind (pad_zero b index 4) (\<lambda>(n, b). Inr (index + n, b)) else Inr (index, b)) (\<lambda>(index, b).
     cset index NUL b)))))"

definition to_string_u :: "64 word \<Rightarrow> char option list \<Rightarrow> NumberFormat \<Rightarrow> char option list kres" where
  "to_string_u unum buffer f = to_string_body unum 0 buffer f"

definition to_string_s :: "64 word \<Rightarrow> char option list \<Rightarrow> NumberFormat \<Rightarrow> char option list kres" where
  "to_string_s num buffer f = (if sint num < 0
     then kbind (cset 0 (CHR ''-'') buffer) (\<lambda>b. to_string_body (- num) 1 b f)
     else to_string_body num 0 buffer f)"

text \<open>The overloads of \<^verbatim>\<open>to_string\<close>, by the type of the argument; the result is a C string, read from the buffer where it was written there.\<close>

datatype fmt_arg = UInt "64 word" | SInt "64 word" | HexU "64 word" | HexS "64 word" | BinU "64 word" | BinS "64 word" | OctU "64 word" | OctS "64 word"
  | HexPtr "64 word" | Ptr "64 word" | KStr kstring | CStr "string option"

definition buf_text :: "char option list \<Rightarrow> string option kres" where
  "buf_text b = kbind (c_str_from (length b) 0 (cget b)) (\<lambda>t. Inr (Some t))"

definition to_string :: "fmt_arg \<Rightarrow> char option list \<Rightarrow> string option kres" where
  "to_string a buffer = (case a of
       UInt n \<Rightarrow> kbind (to_string_u n buffer DEC) buf_text
     | SInt n \<Rightarrow> kbind (to_string_s n buffer DEC) buf_text
     | HexU n \<Rightarrow> kbind (to_string_u n buffer HEX) buf_text
     | HexS n \<Rightarrow> kbind (to_string_s n buffer HEX) buf_text
     | BinU n \<Rightarrow> kbind (to_string_u n buffer BIN) buf_text
     | BinS n \<Rightarrow> kbind (to_string_s n buffer BIN) buf_text
     | OctU n \<Rightarrow> kbind (to_string_u n buffer OCT) buf_text
     | OctS n \<Rightarrow> kbind (to_string_s n buffer OCT) buf_text
     | HexPtr n \<Rightarrow> kbind (to_string_u n buffer HEX) buf_text
     | Ptr n \<Rightarrow> kbind (to_string_u n buffer HEX) buf_text
     | KStr k \<Rightarrow> kbind (kstring_c_str k) (\<lambda>t. Inr (Some t))
     | CStr s \<Rightarrow> Inr s)"

text \<open>\<^verbatim>\<open>char\<close> is signed.\<close>

definition char_int :: "char \<Rightarrow> int" where
  "char_int c = (if of_char c < (128 :: int) then of_char c else of_char c - 256)"

primrec parse_uint_loop :: "(nat \<Rightarrow> char kres) \<Rightarrow> 64 word \<Rightarrow> nat \<Rightarrow> nat \<Rightarrow> 64 word \<Rightarrow> 64 word kres" where
  "parse_uint_loop r divisor 0 i result = Inr result"
| "parse_uint_loop r divisor (Suc n) i result = kbind (r i) (\<lambda>c. if c = NUL then Inr result
     else parse_uint_loop r divisor n (Suc i) (result * divisor + word_of_int (char_int c - 48)))"

definition parse_uint :: "(nat \<Rightarrow> char kres) \<Rightarrow> nat \<Rightarrow> NumberFormat \<Rightarrow> 64 word kres" where
  "parse_uint str len f = parse_uint_loop str (of_nat (number_format_divisor f)) len 0 0"

definition parse_uint_kstring :: "kstring \<Rightarrow> NumberFormat \<Rightarrow> 64 word kres" where
  "parse_uint_kstring str f = parse_uint (if ks_data str = Null then cget [Some NUL] else rd str) (ks_len str) f"

definition parse_int :: "char \<Rightarrow> int" where
  "parse_int c = char_int c - 48"

primrec sprintf :: "fmt_arg list \<Rightarrow> kstring_view \<Rightarrow> kstring kres" where
  "sprintf [] format = kstring_view_ctor format"
| "sprintf (first # rest) format = kbind (kv_find format (Some ''{}'')) (\<lambda>pos. case pos of None \<Rightarrow> kstring_view_ctor format
     | Some pos \<Rightarrow> kbind (kv_substr 0 (Some pos) format) (\<lambda>v. kbind (kstring_view_ctor v) (\<lambda>t. kbind (kstring_append t kstring_new) (\<lambda>str.
         kbind (to_string first (replicate 128 None)) (\<lambda>s. kbind (kstring_append_cstr s str) (\<lambda>str.
         kbind (kv_substr (pos + 2) None format) (\<lambda>v. kbind (sprintf rest v) (\<lambda>t. kstring_append t str))))))))"

section \<open>What is written into the buffers\<close>

text \<open>\<open>holds n b w\<close>: the buffer \<open>b\<close> of \<open>n\<close> bytes starts with the text \<open>w\<close>.\<close>

definition holds :: "nat \<Rightarrow> char option list \<Rightarrow> string \<Rightarrow> bool" where
  "holds n b w \<longleftrightarrow> length b = n \<and> (\<exists>rest. b = map Some w @ rest)"

lemma holds_le: "holds n b w \<Longrightarrow> length w \<le> n"
  by (auto simp: holds_def)

lemma holds_nth: "holds n b w \<longleftrightarrow> length b = n \<and> length w \<le> n \<and> (\<forall>j < length w. b ! j = Some (w ! j))"
proof
  assume a: "length b = n \<and> length w \<le> n \<and> (\<forall>j < length w. b ! j = Some (w ! j))"
  then have "take (length w) b = map Some w" by (intro nth_equalityI) auto
  then have "b = map Some w @ drop (length w) b" by (metis append_take_drop_id)
  with a show "holds n b w" by (auto simp: holds_def)
qed (auto simp: holds_def nth_append)

lemma cset_holds:
  assumes "holds n b w" "length w < n"
  shows "\<exists>b'. cset (length w) c b = Inr b' \<and> holds n b' (w @ [c])"
proof -
  obtain x rest where "b = map Some w @ x # rest" using assms by (auto simp: holds_def) (metis append_Nil2 length_map less_irrefl list.exhaust)
  then show ?thesis using assms by (auto simp: cset_def holds_def list_update_append)
qed

lemma cget_holds: "holds n b w \<Longrightarrow> i < length w \<Longrightarrow> cget b i = Inr (w ! i)"
  by (auto simp: holds_def cget_def nth_append)

lemma buf_text_holds: "holds n b (w @ [NUL]) \<Longrightarrow> NUL \<notin> set w \<Longrightarrow> buf_text b = Inr (Some w)"
  using c_str_from_reads [of "cget b" w 0 "length b"] holds_le [of n b "w @ [NUL]"]
  by (auto simp: buf_text_def reads_def cget_holds) (auto simp: holds_def)

subsection \<open>Digits\<close>

fun digits :: "nat \<Rightarrow> nat \<Rightarrow> nat list" where
  "digits b n = (if b < 2 \<or> n = 0 then [] else digits b (n div b) @ [n mod b])"

declare digits.simps [simp del]

definition digit_text :: "nat \<Rightarrow> nat \<Rightarrow> string" where
  "digit_text b n = map (\<lambda>d. HEX_CHARS ! d) (digits b n)"

lemma digits_less: "d \<in> set (digits b n) \<Longrightarrow> d < b"
proof (induction b n rule: digits.induct)
  case (1 b n)
  then show ?case using digits.simps [of b n] by (auto split: if_splits)
qed

lemma digits_bound: "n < b ^ k \<Longrightarrow> length (digits b n) \<le> k"
proof (induction k arbitrary: n)
  case (Suc k)
  show ?case
  proof (cases "b < 2 \<or> n = 0")
    case False
    then have "n div b < b ^ k" using Suc.prems by (simp add: div_less_iff_less_mult mult.commute)
    then show ?thesis using False Suc.IH [of "n div b"] by (subst digits.simps) simp
  qed (simp add: digits.simps)
qed (simp add: digits.simps)

lemma base_pos [simp]: "2 \<le> number_format_divisor f" "\<not> number_format_divisor f < 2" "number_format_divisor f \<le> 16"
  by (cases f; simp add: number_format_divisor_def)+

lemma digits_64: "length (digits (number_format_divisor f) (unat (n :: 64 word))) \<le> 64"
proof (rule digits_bound)
  have "unat n < 2 ^ 64" using unsigned_less [of n] by simp
  also have "(2 :: nat) ^ 64 \<le> number_format_divisor f ^ 64" by (rule power_mono) simp_all
  finally show "unat n < number_format_divisor f ^ 64" .
qed

lemma number_format_char_ok: "i < number_format_divisor f \<Longrightarrow> number_format_char i f = Inr (HEX_CHARS ! i)"
proof -
  assume i: "i < number_format_divisor f"
  have e: "DEC_CHARS = take 10 HEX_CHARS" "OCT_CHARS = take 8 HEX_CHARS" "BIN_CHARS = take 2 HEX_CHARS" "length HEX_CHARS = 16"
    by (simp_all add: DEC_CHARS_def OCT_CHARS_def BIN_CHARS_def HEX_CHARS_def)
  show ?thesis using i e(4) by (cases f) (simp_all add: number_format_char_def number_format_divisor_def cget_def e(1-3) nth_append)
qed

lemma unat_base: "unat (of_nat (number_format_divisor f) :: 64 word) = number_format_divisor f"
  by (cases f) (simp_all add: number_format_divisor_def)

lemma to_string_digits_ok:
  "holds 64 r w \<Longrightarrow> length w + length (digits (number_format_divisor f) (unat n)) \<le> 64 \<Longrightarrow>
   \<exists>r'. to_string_digits f n (length w) r = Inr (length w + length (digits (number_format_divisor f) (unat n)), r') \<and>
     holds 64 r' (w @ rev (digit_text (number_format_divisor f) (unat n)))"
proof (induction f n "length w" r arbitrary: w rule: to_string_digits.induct)
  case (1 f n r)
  let ?b = "number_format_divisor f"
  show ?case
  proof (cases "n > 0")
    case True
    then have n0: "unat n \<noteq> 0" by (simp add: word_less_nat_alt)
    have d: "digits ?b (unat n) = digits ?b (unat n div ?b) @ [unat n mod ?b]" using n0 by (subst digits.simps) simp
    have dm: "unat (n div of_nat ?b) = unat n div ?b" "unat (n mod of_nat ?b) = unat n mod ?b" by (simp_all add: unat_div_distrib unat_mod_distrib unat_base)
    have "?b > 0" using base_pos(1) [of f] by linarith
    then have c: "number_format_char (unat (n mod of_nat ?b)) f = Inr (HEX_CHARS ! (unat n mod ?b))"
      unfolding dm by (intro number_format_char_ok) simp
    obtain r1 where r1: "cset (length w) (HEX_CHARS ! (unat n mod ?b)) r = Inr r1" "holds 64 r1 (w @ [HEX_CHARS ! (unat n mod ?b)])"
      using cset_holds [OF "1.prems"(1)] "1.prems"(2) d by auto
    have "\<exists>r'. to_string_digits f (n div of_nat ?b) (length (w @ [HEX_CHARS ! (unat n mod ?b)])) r1 = Inr (length (w @ [HEX_CHARS ! (unat n mod ?b)]) + length (digits ?b (unat (n div of_nat ?b))), r') \<and>
       holds 64 r' ((w @ [HEX_CHARS ! (unat n mod ?b)]) @ rev (digit_text ?b (unat (n div of_nat ?b))))"
      by (rule "1.hyps" [OF True c r1(1)]) (use r1(2) "1.prems"(2) d dm in auto)
    then show ?thesis using True c r1(1) d dm by (subst to_string_digits.simps) (auto simp: digit_text_def)
  next
    case False
    then have "unat n = 0" by (simp add: word_less_nat_alt)
    then show ?thesis using False "1.prems"(1) by (subst to_string_digits.simps) (auto simp: digits.simps digit_text_def)
  qed
qed

lemma to_string_copy_ok:
  "holds 64 r (rev u @ v) \<Longrightarrow> holds 128 b w \<Longrightarrow> length w + length u \<le> 128 \<Longrightarrow>
   \<exists>b'. to_string_copy (length u) r (length w) b = Inr (length w + length u, b') \<and> holds 128 b' (w @ u)"
proof (induction u arbitrary: v b w)
  case (Cons c u)
  have "cget r (length u) = Inr c" using cget_holds [OF Cons.prems(1), of "length u"] by (simp add: nth_append)
  moreover obtain b1 where b1: "cset (length w) c b = Inr b1" "holds 128 b1 (w @ [c])" using cset_holds [OF Cons.prems(2)] Cons.prems(3) by auto
  moreover have "holds 64 r (rev u @ (c # v))" using Cons.prems(1) by simp
  from Cons.IH [OF this b1(2)] have "\<exists>b'. to_string_copy (length u) r (Suc (length w)) b1 = Inr (length w + length (c # u), b') \<and> holds 128 b' (w @ c # u)"
    using Cons.prems(3) by simp
  ultimately show ?case by simp
qed simp

subsection \<open>Padding\<close>

lemma insert_shift_ok:
  "pos \<le> i \<Longrightarrow> i + num < length b \<Longrightarrow> (\<forall>j \<le> i. b ! j = Some (w ! j)) \<Longrightarrow>
   \<exists>b'. insert_shift pos num i b = Inr b' \<and> length b' = length b \<and> (\<forall>j. pos \<le> j \<and> j \<le> i \<longrightarrow> b' ! (j + num) = Some (w ! j)) \<and>
     (\<forall>j. j < pos \<or> j > i + num \<longrightarrow> b' ! j = b ! j)"
proof (induction i arbitrary: b)
  case 0
  then show ?case by (auto simp: cget_def cset_def)
next
  case (Suc i)
  let ?b = "b[Suc i + num := Some (w ! Suc i)]"
  have g: "cget b (Suc i) = Inr (w ! Suc i)" "cset (Suc i + num) (w ! Suc i) b = Inr ?b" using Suc.prems by (auto simp: cget_def cset_def)
  show ?case
  proof (cases "pos = Suc i")
    case False
    have "\<exists>b'. insert_shift pos num i ?b = Inr b' \<and> length b' = length ?b \<and> (\<forall>j. pos \<le> j \<and> j \<le> i \<longrightarrow> b' ! (j + num) = Some (w ! j)) \<and>
       (\<forall>j. j < pos \<or> j > i + num \<longrightarrow> b' ! j = ?b ! j)"
      by (rule Suc.IH) (use Suc.prems False in auto)
    then obtain b' where b': "insert_shift pos num i ?b = Inr b'" "length b' = length ?b" "\<forall>j. pos \<le> j \<and> j \<le> i \<longrightarrow> b' ! (j + num) = Some (w ! j)"
       "\<forall>j. j < pos \<or> j > i + num \<longrightarrow> b' ! j = ?b ! j" by blast
    have "b' ! (j + num) = Some (w ! j)" if "pos \<le> j" "j \<le> Suc i" for j
      using that b'(3,4) Suc.prems(2) by (cases "j = Suc i") auto
    moreover have "b' ! j = b ! j" if "j < pos \<or> j > Suc i + num" for j
      using that b'(4) Suc.prems(1) by auto
    ultimately show ?thesis using g b'(1,2) False by auto
  qed (use g Suc.prems in auto)
qed

lemma fill_ok:
  assumes "hi \<le> length b" "lo \<le> hi"
  shows "\<exists>b'. kfor lo hi (\<lambda>i b. cset i pad b) b = Inr b' \<and> (length b' = length b \<and> (\<forall>j. b' ! j = (if lo \<le> j \<and> j < hi then Some pad else b ! j)))"
proof (rule kfor_rule)
  fix i t
  assume "lo \<le> i" "i < hi" and t: "length t = length b \<and> (\<forall>j. t ! j = (if lo \<le> j \<and> j < i then Some pad else b ! j))"
  then show "\<exists>t'. cset i pad t = Inr t' \<and> (length t' = length b \<and> (\<forall>j. t' ! j = (if lo \<le> j \<and> j < Suc i then Some pad else b ! j)))"
    using assms by (auto simp: cset_def nth_list_update less_Suc_eq)
qed (use assms in auto)

lemma fmt_insert_ok:
  assumes "holds n b (u @ v)" "v \<noteq> []" "length u + length v + num \<le> n"
  shows "\<exists>b'. fmt_insert b (length u) (length u + length v) num pad = Inr (num, b') \<and> holds n b' (u @ replicate num pad @ v)"
proof -
  let ?w = "u @ v" and ?p = "length u" and ?i = "length u + length v - 1"
  have l: "length b = n" "\<forall>j < length ?w. b ! j = Some (?w ! j)" using assms(1) by (auto simp: holds_nth)
  have i: "?p \<le> ?i" "?i < length ?w" using assms(2) by (cases v; simp)+
  obtain b1 where b1: "insert_shift ?p num ?i b = Inr b1" "length b1 = n" "\<forall>j. ?p \<le> j \<and> j \<le> ?i \<longrightarrow> b1 ! (j + num) = Some (?w ! j)"
     "\<forall>j. j < ?p \<longrightarrow> b1 ! j = b ! j"
  proof -
    have "?i + num < length b" "\<forall>j \<le> ?i. b ! j = Some (?w ! j)" using i l assms(3) by auto
    from insert_shift_ok [OF i(1) this] show thesis using l(1) by (elim exE conjE) (rule that, auto)
  qed
  obtain b2 where b2: "kfor ?p (?p + num) (\<lambda>i b. cset i pad b) b1 = Inr b2" "length b2 = n" "\<And>j. b2 ! j = (if ?p \<le> j \<and> j < ?p + num then Some pad else b1 ! j)"
    using fill_ok [of "?p + num" b1 ?p pad] assms(3) b1(2) by auto
  have "b2 ! j = Some ((u @ replicate num pad @ v) ! j)" if j: "j < length (u @ replicate num pad @ v)" for j
  proof -
    consider "j < ?p" | "?p \<le> j" "j < ?p + num" | "?p + num \<le> j" by linarith
    then show ?thesis
    proof cases
      case 1
      then show ?thesis using b2(3) b1(4) l(2) by (simp add: nth_append)
    next
      case 3
      have "j - num \<le> ?i" "?p \<le> j - num" using j 3 by (auto simp: less_Suc_eq_le [symmetric] assms(2))
      then have "b1 ! j = Some (?w ! (j - num))" using b1(3) [rule_format, of "j - num"] 3 by auto
      moreover have "(u @ replicate num pad @ v) ! j = ?w ! (j - num)" using 3 by (auto simp: nth_append add.commute)
      moreover have "b2 ! j = b1 ! j" using 3 b2(3) [of j] by simp
      ultimately show ?thesis by simp
    qed (use b2(3) in \<open>auto simp: nth_append\<close>)
  qed
  then have "holds n b2 (u @ replicate num pad @ v)" using b2(2) assms(3) by (simp add: holds_nth)
  then show ?thesis using b1(1) b2(1) assms(2) by (simp add: fmt_insert_def)
qed

text \<open>The number of zeros: up to the next multiple of four.\<close>

definition zeros :: "nat \<Rightarrow> nat" where
  "zeros len = (4 - len mod 4) mod 4"

lemma zeros_int: "(4 - int len) mod 4 = int (zeros len)"
proof -
  have "len mod 4 < 4" by simp
  then consider "len mod 4 = 0" | "len mod 4 = 1" | "len mod 4 = 2" | "len mod 4 = 3" by linarith
  then show ?thesis by cases (simp_all add: zeros_def, presburger+)
qed

lemma zeros_word:
  assumes "index = len + 2" "len < 2 ^ 32"
  shows "unat (and (word_of_int 4 - (of_nat index - 2 :: 64 word)) (word_of_int (4 - 1))) = zeros len"
proof -
  have "and x 3 = x mod 4" for x :: "64 word" using take_bit_eq_mask [of 2 x] by (simp add: mask_eq_exp_minus_1 take_bit_eq_mod)
  then have "and (word_of_int 4 - (of_nat index - 2 :: 64 word)) (word_of_int (4 - 1)) = (4 - of_nat len) mod 4" using assms(1) by simp
  moreover have "uint ((4 - of_nat len :: 64 word) mod 4) = (4 - int len) mod 4"
  proof -
    have "uint (4 - of_nat len :: 64 word) = (4 - int len) mod 2 ^ 64"
      using uint_word_of_int [of "4 - int len", where 'a = 64] by simp
    then show ?thesis by (simp add: uint_mod mod_mod_cancel)
  qed
  moreover have "(4 - int len) mod 4 = int (zeros len)" by (rule zeros_int)
  ultimately show ?thesis by (simp add: unat_eq_nat_uint)
qed

subsection \<open>The text of a number\<close>

definition num_text :: "nat \<Rightarrow> nat \<Rightarrow> string" where
  "num_text b n = (if n = 0 then ''0'' else digit_text b n)"

definition prefix_text :: "NumberFormat \<Rightarrow> string" where
  "prefix_text f = (case f of DEC \<Rightarrow> [] | HEX \<Rightarrow> ''0x'' | BIN \<Rightarrow> ''0b'' | OCT \<Rightarrow> ''0o'')"

definition padded :: "NumberFormat \<Rightarrow> string \<Rightarrow> string" where
  "padded f t = (if f = DEC then t else take 2 t @ replicate (zeros (length t - 2)) (CHR ''0'') @ drop 2 t)"

lemma zeros_less: "zeros n < 4"
  by (simp add: zeros_def)

lemma num_text_len: "0 < length (num_text (number_format_divisor f) (unat n))" "length (num_text (number_format_divisor f) (unat (n :: 64 word))) \<le> 64"
  using digits_64 [of f n] digits.simps [of "number_format_divisor f" "unat n"] by (auto simp: num_text_def digit_text_def)

lemma digit_not_NUL: "d < 16 \<Longrightarrow> HEX_CHARS ! d \<noteq> NUL"
proof -
  assume "d < 16"
  then have "HEX_CHARS ! d \<in> set HEX_CHARS" by (intro nth_mem) (simp add: HEX_CHARS_def)
  moreover have "NUL \<notin> set HEX_CHARS" by (simp add: HEX_CHARS_def NUL_def)
  ultimately show ?thesis by metis
qed

lemma num_text_NUL: "b \<le> 16 \<Longrightarrow> NUL \<notin> set (num_text b n)"
proof
  assume b: "b \<le> 16" and "NUL \<in> set (num_text b n)"
  then obtain d where d: "d \<in> set (digits b n)" "HEX_CHARS ! d = NUL" by (auto simp: num_text_def digit_text_def NUL_def split: if_splits)
  then have "d < 16" using digits_less [OF d(1)] b by simp
  then show False using digit_not_NUL d(2) by blast
qed

lemma prefix_ok:
  assumes "holds 128 b w" "length w \<le> 1"
  shows "\<exists>b'. to_string_prefix f (length w) b = Inr (length w + length (prefix_text f), b') \<and> holds 128 b' (w @ prefix_text f)"
proof (cases "f = DEC")
  case False
  let ?c = "case f of HEX \<Rightarrow> CHR ''x'' | BIN \<Rightarrow> CHR ''b'' | _ \<Rightarrow> CHR ''o''"
  obtain b1 where b1: "cset (length w) (CHR ''0'') b = Inr b1" "holds 128 b1 (w @ ''0'')" using cset_holds [OF assms(1)] assms(2) by auto
  obtain b2 where b2: "cset (length w + 1) ?c b1 = Inr b2" "holds 128 b2 (w @ [CHR ''0'', ?c])" using cset_holds [OF b1(2), of ?c] assms(2) by auto
  have "prefix_text f = [CHR ''0'', ?c]" using False by (cases f) (simp_all add: prefix_text_def)
  moreover have "to_string_prefix f (length w) b = Inr (length w + 2, b2)" using False b1(1) b2(1) by (cases f) (simp_all add: to_string_prefix_def)
  ultimately show ?thesis using b2(2) by simp
qed (use assms in \<open>simp add: to_string_prefix_def prefix_text_def\<close>)

lemma pad_zero_ok:
  assumes "holds 128 b w" "3 \<le> length w" "length w \<le> 70"
  shows "\<exists>b'. pad_zero b (length w) 4 = Inr (zeros (length w - 2), b') \<and> holds 128 b' (take 2 w @ replicate (zeros (length w - 2)) (CHR ''0'') @ drop 2 w)"
proof -
  have z: "unat (and (word_of_int 4 - (of_nat (length w) - 2 :: 64 word)) (word_of_int (4 - 1))) = zeros (length w - 2)"
    by (rule zeros_word) (use assms in auto)
  have l: "length (take 2 w) = 2" "length (take 2 w) + length (drop 2 w) = length w" using assms(2) by auto
  have "\<exists>b'. fmt_insert b (length (take 2 w)) (length (take 2 w) + length (drop 2 w)) (zeros (length w - 2)) (CHR ''0'') = Inr (zeros (length w - 2), b') \<and>
      holds 128 b' (take 2 w @ replicate (zeros (length w - 2)) (CHR ''0'') @ drop 2 w)"
    by (rule fmt_insert_ok) (use assms zeros_less [of "length w - 2"] in auto)
  then show ?thesis unfolding l(2) unfolding pad_zero_def Let_def z l(1) .
qed

lemma to_string_body_ok:
  assumes "holds 128 b w" "length w \<le> 1"
  shows "\<exists>b'. to_string_body n (length w) b f = Inr b' \<and> holds 128 b' (padded f (w @ prefix_text f @ num_text (number_format_divisor f) (unat n)) @ [NUL])"
proof -
  let ?d = "number_format_divisor f" and ?n = "num_text (number_format_divisor f) (unat n)"
  let ?p = "w @ prefix_text f"
  obtain b1 where b1: "to_string_prefix f (length w) b = Inr (length ?p, b1)" "holds 128 b1 ?p" using prefix_ok [OF assms, of f] by auto
  have lp: "length ?p \<le> 3" "f \<noteq> DEC \<Longrightarrow> 2 \<le> length ?p" using assms(2) by (cases f; simp add: prefix_text_def)+
  obtain b2 q where b2: "(if n = 0 then kbind (cset (length ?p) (CHR ''0'') b1) (\<lambda>b. Inr (length ?p + 1, b)) else Inr (length ?p, b1)) = Inr (length q, b2)"
      "holds 128 b2 q" "q @ digit_text ?d (unat n) = ?p @ ?n" "length q \<le> 4"
  proof (cases "n = 0")
    case True
    obtain b2 where "cset (length ?p) (CHR ''0'') b1 = Inr b2" "holds 128 b2 (?p @ ''0'')" using cset_holds [OF b1(2)] lp(1) by auto
    then show thesis using True lp(1) by (intro that [of "?p @ ''0''" b2]) (auto simp: num_text_def digit_text_def digits.simps)
  next
    case False
    then have "unat n \<noteq> 0" by (simp add: unat_eq_zero)
    then show thesis using False b1(2) lp(1) by (intro that [of ?p b1]) (auto simp: num_text_def)
  qed
  have dl: "length (digits ?d (unat n)) \<le> 64" by (rule digits_64)
  have "holds 64 (replicate 64 None) []" by (simp add: holds_def)
  from to_string_digits_ok [OF this, of f n] obtain r where r: "to_string_digits f n 0 (replicate 64 None) = Inr (length (digit_text ?d (unat n)), r)"
      "holds 64 r (rev (digit_text ?d (unat n)) @ [])" using dl by (auto simp: digit_text_def)
  obtain b3 where b3: "to_string_copy (length (digit_text ?d (unat n))) r (length q) b2 = Inr (length (?p @ ?n), b3)" "holds 128 b3 (?p @ ?n)"
  proof -
    have "length q + length (digit_text ?d (unat n)) \<le> 128" using b2(4) dl by (simp add: digit_text_def)
    from to_string_copy_ok [OF r(2) b2(2) this] show thesis unfolding length_append [symmetric] b2(3) by (elim exE conjE) (rule that)
  qed
  have ln: "1 \<le> length ?n" "length ?n \<le> 64" using num_text_len [of f n] by (simp_all add: Suc_le_eq)
  obtain b4 where b4: "(if f \<noteq> DEC then kbind (pad_zero b3 (length (?p @ ?n)) 4) (\<lambda>(m, b). Inr (length (?p @ ?n) + m, b)) else Inr (length (?p @ ?n), b3)) =
      Inr (length (padded f (?p @ ?n)), b4)" "holds 128 b4 (padded f (?p @ ?n))"
  proof (cases "f = DEC")
    case False
    have "3 \<le> length (?p @ ?n)" "length (?p @ ?n) \<le> 70" using lp(1) lp(2) [OF False] ln by auto
    from pad_zero_ok [OF b3(2) this] show thesis using False lp(2) ln by (elim exE conjE) (rule that, auto simp: padded_def)
  qed (use that b3 in \<open>simp add: padded_def\<close>)
  have "length (padded f (?p @ ?n)) < 128"
  proof -
    have "length (padded f t) \<le> length t + 4" for t using zeros_less [of "length t - 2"] by (auto simp: padded_def)
    from this [of "?p @ ?n"] show ?thesis using lp(1) ln by simp
  qed
  from cset_holds [OF b4(2) this, of NUL] show ?thesis
    unfolding to_string_body_def b1(1) kbind_simps prod.case b2(1) r(1) b3(1) b4(1) by (simp only: append_assoc)
qed

lemma padded_NUL: "NUL \<notin> set t \<Longrightarrow> NUL \<notin> set (padded f t)"
  using set_take_subset [of 2 t] set_drop_subset [of 2 t] by (auto simp: padded_def NUL_def)

text \<open>The text of a number in each format.\<close>

definition text_u :: "64 word \<Rightarrow> NumberFormat \<Rightarrow> string" where
  "text_u n f = padded f (prefix_text f @ num_text (number_format_divisor f) (unat n))"

definition text_s :: "64 word \<Rightarrow> NumberFormat \<Rightarrow> string" where
  "text_s n f = (if sint n < 0 then padded f (CHR ''-'' # prefix_text f @ num_text (number_format_divisor f) (unat (- n))) else text_u n f)"

lemma prefix_NUL: "NUL \<notin> set (prefix_text f)"
  by (cases f) (auto simp: prefix_text_def NUL_def)

lemma text_NUL: "NUL \<notin> set (text_u n f)" "NUL \<notin> set (text_s n f)"
  using prefix_NUL num_text_NUL [OF base_pos(3)] by (auto simp: text_u_def text_s_def NUL_def intro!: padded_NUL [unfolded NUL_def])

lemma to_string_u_holds:
  assumes "length b = 128"
  shows "\<exists>b'. to_string_u n b f = Inr b' \<and> holds 128 b' (text_u n f @ [NUL])"
  using to_string_body_ok [of b "[]" n f] assms by (simp add: to_string_u_def text_u_def holds_def)

lemma to_string_s_holds:
  assumes "length b = 128"
  shows "\<exists>b'. to_string_s n b f = Inr b' \<and> holds 128 b' (text_s n f @ [NUL])"
proof (cases "sint n < 0")
  case True
  obtain b1 where b1: "cset 0 (CHR ''-'') b = Inr b1" "holds 128 b1 ''-''" using cset_holds [of 128 b "[]" "CHR ''-''"] assms by (auto simp: holds_def)
  then show ?thesis using to_string_body_ok [OF b1(2), of "- n" f] True by (simp add: to_string_s_def text_s_def)
next
  case False
  then show ?thesis using to_string_u_holds [OF assms] by (simp add: to_string_s_def to_string_u_def text_s_def)
qed

subsection \<open>Parsing\<close>

lemma char_int_digit: "d < 10 \<Longrightarrow> char_int (HEX_CHARS ! d) - 48 = int d \<and> HEX_CHARS ! d \<noteq> NUL"
proof -
  assume "d < 10"
  then have "d \<in> {0, 1, 2, 3, 4, 5, 6, 7, 8, 9}" by auto
  then show ?thesis by (elim insertE emptyE; simp add: HEX_CHARS_def char_int_def NUL_def)
qed

lemma parse_loop_digits:
  "(\<forall>j < length ds. r (i + j) = Inr (HEX_CHARS ! (ds ! j))) \<Longrightarrow> r (i + length ds) = Inr NUL \<Longrightarrow> \<forall>d \<in> set ds. d < 10 \<Longrightarrow> length ds \<le> n \<Longrightarrow>
   parse_uint_loop r (of_nat b) n i (of_nat a) = Inr (of_nat (foldl (\<lambda>a d. a * b + d) a ds))"
proof (induction ds arbitrary: i n a)
  case Nil
  then show ?case by (cases n) auto
next
  case (Cons d ds)
  obtain m where m: "n = Suc m" using Cons.prems(4) by (cases n) auto
  have c: "r i = Inr (HEX_CHARS ! d)" using Cons.prems(1) by (metis add_0_right length_greater_0_conv list.discI nth_Cons_0)
  have d: "char_int (HEX_CHARS ! d) - 48 = int d" "HEX_CHARS ! d \<noteq> NUL" using char_int_digit [of d] Cons.prems(3) by auto
  have v: "(of_nat a * of_nat b + word_of_int (char_int (HEX_CHARS ! d) - 48) :: 64 word) = of_nat (a * b + d)" unfolding d(1) by simp
  have "parse_uint_loop r (of_nat b) m (Suc i) (of_nat (a * b + d)) = Inr (of_nat (foldl (\<lambda>a d. a * b + d) (a * b + d) ds))"
  proof (rule Cons.IH)
    show "\<forall>j < length ds. r (Suc i + j) = Inr (HEX_CHARS ! (ds ! j))"
    proof (intro allI impI)
      fix j assume "j < length ds"
      then show "r (Suc i + j) = Inr (HEX_CHARS ! (ds ! j))" using Cons.prems(1) [rule_format, of "Suc j"] by simp
    qed
  qed (use Cons.prems m in auto)
  then show ?case using m c d(2) v by simp
qed

lemma digits_value: "2 \<le> b \<Longrightarrow> foldl (\<lambda>a d. a * b + d) 0 (digits b n) = n"
proof (induction b n rule: digits.induct)
  case (1 b n)
  then show ?case by (subst digits.simps) (auto simp: mult.commute)
qed

text \<open>The digits of \<open>num_text\<close>, with the one of zero.\<close>

definition num_digits :: "nat \<Rightarrow> nat \<Rightarrow> nat list" where
  "num_digits b n = (if n = 0 then [0] else digits b n)"

lemma num_text_digits: "num_text b n = map (\<lambda>d. HEX_CHARS ! d) (num_digits b n)"
  by (simp add: num_text_def num_digits_def digit_text_def HEX_CHARS_def)

lemma parse_uint_text:
  assumes "reads r (num_text (number_format_divisor f) n @ [NUL])" "number_format_divisor f \<le> 10" "length (num_text (number_format_divisor f) n) \<le> len"
  shows "parse_uint r len f = Inr (of_nat n)"
proof -
  let ?b = "number_format_divisor f"
  have r: "r j = Inr ((num_text ?b n @ [NUL]) ! j)" if "j \<le> length (num_text ?b n)" for j using assms(1) that by (simp add: reads_def)
  have "parse_uint_loop r (of_nat ?b) len 0 (of_nat 0) = Inr (of_nat (foldl (\<lambda>a d. a * ?b + d) 0 (num_digits ?b n)))"
  proof (rule parse_loop_digits)
    show "\<forall>j < length (num_digits ?b n). r (0 + j) = Inr (HEX_CHARS ! (num_digits ?b n ! j))" using r by (simp add: num_text_digits nth_append)
    show "r (0 + length (num_digits ?b n)) = Inr NUL" using r by (simp add: num_text_digits nth_append)
    show "\<forall>d \<in> set (num_digits ?b n). d < 10" 
    proof
      fix d assume "d \<in> set (num_digits ?b n)"
      then have "d = 0 \<or> d < ?b" using digits_less [of d ?b n] by (auto simp: num_digits_def split: if_splits)
      then show "d < 10" using assms(2) by auto
    qed
  qed (use assms(3) in \<open>simp add: num_text_digits\<close>)
  moreover have "foldl (\<lambda>a d. a * ?b + d) 0 (num_digits ?b n) = n" using digits_value [OF base_pos(1)] by (simp add: num_digits_def)
  ultimately show ?thesis by (simp add: parse_uint_def)
qed

section \<open>Properties of numbers\<close>

lemma to_string_texts:
  assumes "length buffer = 128"
  shows "\<exists>b. to_string_u n buffer f = Inr b \<and> length b = 128 \<and>
      buf_text b = Inr (Some (let ds = num_text (number_format_divisor f) (unat n) in
        prefix_text f @ (if f = DEC then [] else replicate (zeros (length ds)) (CHR ''0'')) @ ds))"
    and "sint n < 0 \<Longrightarrow> \<exists>b. to_string_s n buffer DEC = Inr b \<and> length b = 128 \<and> buf_text b = Inr (Some (CHR ''-'' # num_text 10 (unat (- n))))"
    and "sint n < 0 \<Longrightarrow> f \<noteq> DEC \<Longrightarrow> \<exists>b. to_string_s n buffer f = Inr b \<and> length b = 128 \<and>
      buf_text b = Inr (Some (let ds = num_text (number_format_divisor f) (unat (- n)) in
        ''-0'' @ replicate (zeros (length ds + 1)) (CHR ''0'') @ tl (prefix_text f) @ ds))"
    and "0 \<le> sint n \<Longrightarrow> to_string_s n buffer f = to_string_u n buffer f"
proof -
  have h: "length b = 128 \<and> buf_text b = Inr (Some w)" if "holds 128 b (w @ [NUL])" "NUL \<notin> set w" for b w
    using that buf_text_holds [OF that] by (simp add: holds_def)
  have u: "text_u n f = (let ds = num_text (number_format_divisor f) (unat n) in
        prefix_text f @ (if f = DEC then [] else replicate (zeros (length ds)) (CHR ''0'')) @ ds)"
    by (cases f) (simp_all add: text_u_def padded_def prefix_text_def Let_def)
  show "\<exists>b. to_string_u n buffer f = Inr b \<and> length b = 128 \<and> buf_text b = Inr (Some (let ds = num_text (number_format_divisor f) (unat n) in
        prefix_text f @ (if f = DEC then [] else replicate (zeros (length ds)) (CHR ''0'')) @ ds))"
    unfolding u [symmetric] using to_string_u_holds [OF assms, of n f] h text_NUL(1) [of n f] by auto
  show "\<exists>b. to_string_s n buffer DEC = Inr b \<and> length b = 128 \<and> buf_text b = Inr (Some (CHR ''-'' # num_text 10 (unat (- n))))" if "sint n < 0"
  proof -
    have t: "text_s n DEC = CHR ''-'' # num_text 10 (unat (- n))" using that by (simp add: text_s_def padded_def prefix_text_def number_format_divisor_def)
    show ?thesis unfolding t [symmetric] using to_string_s_holds [OF assms, of n DEC] h text_NUL(2) [of n DEC] by auto
  qed
  show "\<exists>b. to_string_s n buffer f = Inr b \<and> length b = 128 \<and> buf_text b = Inr (Some (let ds = num_text (number_format_divisor f) (unat (- n)) in
        ''-0'' @ replicate (zeros (length ds + 1)) (CHR ''0'') @ tl (prefix_text f) @ ds))" if "sint n < 0" "f \<noteq> DEC"
  proof -
    have t: "text_s n f = (let ds = num_text (number_format_divisor f) (unat (- n)) in ''-0'' @ replicate (zeros (length ds + 1)) (CHR ''0'') @ tl (prefix_text f) @ ds)"
      using that by (cases f) (simp_all add: text_s_def padded_def prefix_text_def Let_def)
    show ?thesis unfolding t [symmetric] using to_string_s_holds [OF assms, of n f] h text_NUL(2) [of n f] by auto
  qed
  show "to_string_s n buffer f = to_string_u n buffer f" if "0 \<le> sint n" using that by (simp add: to_string_s_def to_string_u_def)
qed

text \<open>
  C33: \<^verbatim>\<open>to_string\<close> of any 64-bit number in any format terminates, stays inside its buffers and writes the number's text: the prefix of the format, zeros up to
  a multiple of four digits except in decimal, and the digits, most significant first; a negative number in decimal has the sign in front. Of a
  negative number in another format the zeros land inside of the prefix, behind its \<open>0\<close>, and are counted with the prefix's letter.
\<close>

theorem to_string_text:
  assumes "length buffer = 128"
  shows "(\<exists>b. to_string_u n buffer f = Inr b \<and> length b = 128 \<and> buf_text b = Inr (Some (let ds = num_text (number_format_divisor f) (unat n) in prefix_text f @ (if f = DEC then [] else replicate (zeros (length ds)) (CHR ''0'')) @ ds))) \<and>
    (sint n < 0 \<longrightarrow> (\<exists>b. to_string_s n buffer DEC = Inr b \<and> length b = 128 \<and> buf_text b = Inr (Some (CHR ''-'' # num_text 10 (unat (- n)))))) \<and>
    (sint n < 0 \<longrightarrow> f \<noteq> DEC \<longrightarrow> (\<exists>b. to_string_s n buffer f = Inr b \<and> length b = 128 \<and> buf_text b = Inr (Some (let ds = num_text (number_format_divisor f) (unat (- n)) in ''-0'' @ replicate (zeros (length ds + 1)) (CHR ''0'') @ tl (prefix_text f) @ ds)))) \<and>
    (0 \<le> sint n \<longrightarrow> to_string_s n buffer f = to_string_u n buffer f)"
  using to_string_texts [OF assms] by blast

theorem to_string_text_witness:
  "\<exists>b. to_string_s (- 1) (replicate 128 None) HEX = Inr b \<and> length b = 128 \<and> buf_text b = Inr (Some ''-000x1'')"
proof -
  have "sint (- 1 :: 64 word) < 0" by simp
  moreover have "num_text 16 1 = ''1''" by (simp add: num_text_def digit_text_def digits.simps HEX_CHARS_def)
  moreover have "replicate (zeros (Suc 1)) (CHR ''0'') = ''00''" by (simp add: zeros_def numeral_2_eq_2)
  ultimately show ?thesis using to_string_text [of "replicate 128 None" "- 1" HEX] by (simp add: number_format_divisor_def prefix_text_def)
qed

text \<open>C34: \<^verbatim>\<open>parse_uint\<close> reads back every 64-bit number that \<^verbatim>\<open>to_string\<close> wrote in decimal.\<close>

theorem parse_to_string_roundtrip:
  "\<exists>b. to_string_u n (replicate 128 None) DEC = Inr b \<and> parse_uint (cget b) 128 DEC = Inr n"
proof -
  obtain b where b: "to_string_u n (replicate 128 None) DEC = Inr b" "holds 128 b (text_u n DEC @ [NUL])"
    using to_string_u_holds [of "replicate 128 None" n DEC] by auto
  have t: "text_u n DEC = num_text (number_format_divisor DEC) (unat n)" by (simp add: text_u_def padded_def prefix_text_def)
  have "reads (cget b) (text_u n DEC @ [NUL])" using cget_holds [OF b(2)] by (simp add: reads_def)
  then have "parse_uint (cget b) 128 DEC = Inr (of_nat (unat n))" unfolding t
    by (rule parse_uint_text) (use num_text_len(2) [of DEC n] in \<open>auto simp: number_format_divisor_def\<close>)
  then show ?thesis using b(1) by simp
qed

section \<open>Format strings\<close>

text \<open>The text of an argument, and what a format string means: each \<open>{}\<close> is replaced by the next argument while there are any.\<close>

definition arg_shows :: "fmt_arg \<Rightarrow> string \<Rightarrow> bool" where
  "arg_shows a t \<longleftrightarrow> (case a of UInt n \<Rightarrow> t = text_u n DEC | SInt n \<Rightarrow> t = text_s n DEC | HexU n \<Rightarrow> t = text_u n HEX | HexS n \<Rightarrow> t = text_s n HEX
     | BinU n \<Rightarrow> t = text_u n BIN | BinS n \<Rightarrow> t = text_s n BIN | OctU n \<Rightarrow> t = text_u n OCT | OctS n \<Rightarrow> t = text_s n OCT
     | HexPtr n \<Rightarrow> t = text_u n HEX | Ptr n \<Rightarrow> t = text_u n HEX | KStr k \<Rightarrow> repr k t \<and> NUL \<notin> set t | CStr s \<Rightarrow> t = (case s of None \<Rightarrow> [] | Some s \<Rightarrow> s))"

function fmt_subst :: "string \<Rightarrow> string list \<Rightarrow> string" where
  "fmt_subst t [] = t"
| "fmt_subst [] (a # as) = []"
| "fmt_subst (c # t) (a # as) = (if take 2 (c # t) = ''{}'' then a @ fmt_subst (tl t) as else c # fmt_subst t (a # as))"
  by pat_completeness auto
termination
  by (relation "measure (\<lambda>(t, as). length t)") auto

lemma subst_none: "\<forall>l. take 2 (drop l t) \<noteq> ''{}'' \<Longrightarrow> fmt_subst t as = t"
proof (induction t as rule: fmt_subst.induct)
  case (3 c t a as)
  have "take 2 (c # t) \<noteq> ''{}''" using "3.prems" [rule_format, of 0] by simp
  moreover have "\<forall>l. take 2 (drop l t) \<noteq> ''{}''" using "3.prems" by (metis drop_Suc_Cons)
  ultimately show ?case using "3.IH"(2) by auto
qed auto

lemma subst_some:
  "take 2 (drop p t) = ''{}'' \<Longrightarrow> \<forall>l < p. take 2 (drop l t) \<noteq> ''{}'' \<Longrightarrow> fmt_subst t (a # as) = take p t @ a @ fmt_subst (drop (p + 2) t) as"
proof (induction p arbitrary: t)
  case 0
  then obtain c u where "t = c # u" by (cases t) auto
  then show ?case using 0 by (cases u) auto
next
  case (Suc p)
  then obtain c u where t: "t = c # u" by (cases t) auto
  have n: "take 2 (c # u) \<noteq> ''{}''" using Suc.prems(2) t by (metis drop_0 zero_less_Suc)
  have "take 2 (drop p u) = ''{}''" "\<forall>l < p. take 2 (drop l u) \<noteq> ''{}''" using Suc.prems t by (auto dest: spec [of _ "Suc _"])
  from Suc.IH [OF this] show ?case using n t by auto
qed

lemma to_string_shows:
  assumes "arg_shows a t" "length b = 128"
  shows "\<exists>s. to_string a b = Inr s \<and> (s = Some t \<or> s = None \<and> t = [])"
proof -
  have u: "kbind (to_string_u n b f) buf_text = Inr (Some (text_u n f))" for n f
    using to_string_u_holds [OF assms(2), of n f] buf_text_holds text_NUL(1) by auto
  have s: "kbind (to_string_s n b f) buf_text = Inr (Some (text_s n f))" for n f
    using to_string_s_holds [OF assms(2), of n f] buf_text_holds text_NUL(2) by auto
  show ?thesis
  proof (cases a)
    case (KStr k)
    then have k: "repr k t" "NUL \<notin> set t" using assms(1) by (simp_all add: arg_shows_def)
    show ?thesis using c_str_repr [OF k] KStr by (simp add: to_string_def)
  qed (use assms(1) u s in \<open>auto simp: arg_shows_def to_string_def split: option.splits\<close>)
qed

lemma append_opt_repr:
  assumes "repr k t" "s = Some u \<or> s = None \<and> u = []"
  shows "\<exists>k'. kstring_append_cstr s k = Inr k' \<and> repr k' (t @ u)"
  using assms append_cstr_repr [OF assms(1)] by (auto simp: kstring_append_cstr_def)

text \<open>
  \<^verbatim>\<open>sprintf\<close> succeeds on every format string and replaces the placeholders \<open>{}\<close>, from left to right, by the texts of the arguments; surplus arguments are
  dropped and surplus placeholders stay as they are.
\<close>

theorem sprintf_text:
  assumes "views v t" "list_all2 arg_shows as us"
  shows "\<exists>k. sprintf as v = Inr k \<and> repr k (fmt_subst t us)"
  using assms
proof (induction as arbitrary: v t us)
  case Nil
  then show ?case using view_ctor_views by simp
next
  case (Cons a as)
  obtain u us' where us: "us = u # us'" "arg_shows a u" "list_all2 arg_shows as us'" using Cons.prems(2) by (auto simp: list_all2_Cons1)
  obtain p where p: "kv_find v (Some ''{}'') = Inr p" "first_occ t ''{}'' 0 p" using kv_find_views [OF Cons.prems(1), of "''{}''"] by auto
  show ?case
  proof (cases p)
    case None
    then have "fmt_subst t us = t" using p(2) by (intro subst_none) (simp add: first_occ_def numeral_2_eq_2)
    then show ?thesis using p(1) None view_ctor_views [OF Cons.prems(1)] by simp
  next
    case (Some i)
    have i: "take 2 (drop i t) = ''{}''" "\<forall>l < i. take 2 (drop l t) \<noteq> ''{}''" using p(2) Some by (auto simp: first_occ_def numeral_2_eq_2)
    then have "i < length t" by (cases "i < length t") auto
    note sub = kv_substr_prefix [OF Cons.prems(1) this] and pre = view_ctor_prefix [OF Cons.prems(1) this]
    obtain k0 where k0: "kstring_view_ctor (kv_new (kv_data v) i) = Inr k0" "repr k0 (take i t)" using pre by blast
    obtain k1 where k1: "kstring_append k0 kstring_new = Inr k1" "repr k1 (take i t)" using append_repr [OF repr_new k0(2)] by auto
    obtain s where s: "to_string a (replicate 128 None) = Inr s" "s = Some u \<or> s = None \<and> u = []" using to_string_shows [OF us(2), of "replicate 128 None"] by auto
    obtain k2 where k2: "kstring_append_cstr s k1 = Inr k2" "repr k2 (take i t @ u)" using append_opt_repr [OF k1(2) s(2)] by blast
    obtain w where w: "kv_substr (i + 2) None v = Inr w" "views w (drop (i + 2) t)" using kv_substr_rest [OF Cons.prems(1)] by blast
    obtain k3 where k3: "sprintf as w = Inr k3" "repr k3 (fmt_subst (drop (i + 2) t) us')" using Cons.IH [OF w(2) us(3)] by blast
    obtain k4 where k4: "kstring_append k3 k2 = Inr k4" "repr k4 ((take i t @ u) @ fmt_subst (drop (i + 2) t) us')" using append_repr [OF k2(2) k3(2)] by blast
    have "fmt_subst t us = (take i t @ u) @ fmt_subst (drop (i + 2) t) us'" using subst_some [OF i, of u us'] us(1) by simp
    then show ?thesis using p(1) Some sub k0(1) k1(1) s(1) k2(1) w(1) k3(1) k4 by simp
  qed
qed

end
