(* ===== verification/Algo.thy ===== *)
theory Algo
  imports Fmt Kvector Klist
begin

text \<open>
  Splitting and joining strings: \<^verbatim>\<open>lib/algo/algo.cpp\<close> and \<^verbatim>\<open>include/algo/algo.hpp\<close>. The pair of iterators of a string or of a view is a way to read its
  characters and their number.
\<close>

section \<open>Definitions\<close>

definition split_step :: "(nat \<Rightarrow> char kres) \<Rightarrow> char \<Rightarrow> nat \<Rightarrow> kstring kvector \<times> kstring \<Rightarrow> (kstring kvector \<times> kstring) kres" where
  "split_step r delim i = (\<lambda>(result, part). kbind (r i) (\<lambda>c.
     if c = delim then
       (if \<not> kstring_empty part then kbind (kstring_copy part) (\<lambda>p. kbind (kvector_push_back p result) (\<lambda>result.
          kbind (kstring_assign_cstr part (Some [])) (\<lambda>part. Inr (result, part))))
        else Inr (result, part))
     else kbind (kstring_append_char c part) (\<lambda>part. Inr (result, part))))"

definition split_range :: "(nat \<Rightarrow> char kres) \<Rightarrow> nat \<Rightarrow> char \<Rightarrow> kstring kvector kres" where
  "split_range r n delim = kbind (kstring_cstr (Some [])) (\<lambda>part.
     kbind (kfor 0 n (split_step r delim) (kvector_new, part)) (\<lambda>(result, part).
     if \<not> kstring_empty part then kbind (kstring_copy part) (\<lambda>p. kvector_push_back p result) else Inr result))"

definition split_str :: "kstring \<Rightarrow> char \<Rightarrow> kstring kvector kres" where
  "split_str str delim = split_range (rd str) (ks_len str) delim"

definition split_view :: "kstring_view \<Rightarrow> char \<Rightarrow> kstring kvector kres" where
  "split_view sv delim = split_range (kv_nth sv) (kv_len sv) delim"

definition tokenize_step :: "(nat \<Rightarrow> char kres) \<Rightarrow> char \<Rightarrow> nat \<Rightarrow> kstring kvector \<times> kstring \<times> char \<Rightarrow> (kstring kvector \<times> kstring \<times> char) kres" where
  "tokenize_step r delim i = (\<lambda>(result, part, last). kbind (r i) (\<lambda>c.
     if c = delim then kbind (kstring_copy part) (\<lambda>p. kbind (kvector_push_back p result) (\<lambda>result.
       kbind (kstring_assign_cstr part (Some [])) (\<lambda>part. Inr (result, part, c))))
     else kbind (kstring_append_char c part) (\<lambda>part. Inr (result, part, c))))"

definition tokenize :: "(nat \<Rightarrow> char kres) \<Rightarrow> nat \<Rightarrow> char \<Rightarrow> kstring kvector kres" where
  "tokenize r n delim = kbind (kstring_cstr (Some [])) (\<lambda>part.
     kbind (kfor 0 n (tokenize_step r delim) (kvector_new, part, NUL)) (\<lambda>(result, part, last).
     if \<not> kstring_empty part \<or> last = delim then kbind (kstring_copy part) (\<lambda>p. kvector_push_back p result) else Inr result))"

text \<open>\<^verbatim>\<open>join\<close> of a range of strings, \<open>elem\<close> what its iterator shows.\<close>

definition join_range :: "(nat \<Rightarrow> kstring kres) \<Rightarrow> nat \<Rightarrow> char \<Rightarrow> kstring kres" where
  "join_range elem n delim =
     kbind (kfor 0 n (\<lambda>i result. kbind (elem i) (\<lambda>e. kbind (kstring_append e result) (kstring_append_char delim))) kstring_new) (\<lambda>result.
     if \<not> kstring_empty result then kstring_pop_back result else Inr result)"

definition join_kvector :: "kstring kvector \<Rightarrow> char \<Rightarrow> kstring kres" where
  "join_kvector v delim = join_range (v_read v) (v_size v) delim"

text \<open>\<^verbatim>\<open>join\<close> of a list, whose items \<^verbatim>\<open>to_string\<close> formats; \<open>arg\<close> is the overload that their type selects.\<close>

definition join_klist :: "('a \<Rightarrow> fmt_arg) \<Rightarrow> 'a lheap \<Rightarrow> klist \<Rightarrow> char \<Rightarrow> kstring kres" where
  "join_klist arg h list delim =
     kbind (kfor 0 (l_size list) (\<lambda>i result. kbind (klist_nth h list i) (\<lambda>item. kbind (to_string (arg item) (replicate 128 None)) (\<lambda>s.
       kbind (kstring_append_cstr s result) (kstring_push_back delim)))) kstring_new) (\<lambda>result.
     if \<not> kstring_empty result then kstring_pop_back result else Inr result)"

section \<open>Fields\<close>

fun fields :: "char \<Rightarrow> string \<Rightarrow> string list" where
  "fields d [] = [[]]"
| "fields d (c # t) = (if c = d then [] # fields d t else (c # hd (fields d t)) # tl (fields d t))"

lemma fields_ne [simp]: "fields d t \<noteq> []"
  by (cases t) auto

lemma fields_snoc: "fields d (t @ [c]) = (if c = d then fields d t @ [[]] else butlast (fields d t) @ [last (fields d t) @ [c]])"
proof (induction t)
  case (Cons x t)
  obtain f fs where "fields d t = f # fs" by (cases "fields d t") auto
  then show ?case using Cons by (cases fs) auto
qed simp

lemma fields_free: "u \<in> set (fields d t) \<Longrightarrow> d \<notin> set u"
proof (induction t arbitrary: u)
  case (Cons x t)
  obtain f fs where "fields d t = f # fs" by (cases "fields d t") auto
  then show ?case using Cons by (auto split: if_splits)
qed simp

lemma fields_concat: "concat (fields d t) = filter (\<lambda>c. c \<noteq> d) t"
proof (induction t)
  case (Cons x t)
  obtain f fs where "fields d t = f # fs" by (cases "fields d t") auto
  then show ?case using Cons by auto
qed simp

lemma fields_join: "butlast (concat (map (\<lambda>u. u @ [d]) (fields d t))) = t"
proof (induction t)
  case (Cons x t)
  obtain f fs where f: "fields d t = f # fs" by (cases "fields d t") auto
  then show ?case using Cons by (auto simp: butlast_append split: if_splits)
qed simp

lemma concat_nonempty: "concat (filter (\<lambda>p. p \<noteq> []) ps) = concat ps"
  by (induction ps) auto

lemma last_fields: "t \<noteq> [] \<Longrightarrow> last (fields d t) = [] \<longleftrightarrow> last t = d"
  by (cases t rule: rev_cases) (auto simp: fields_snoc)

section \<open>Vectors of strings\<close>

definition texts :: "kstring kvector \<Rightarrow> string list \<Rightarrow> bool" where
  "texts v us \<longleftrightarrow> vec_ok v \<and> list_all2 repr (vec_list v) us"

lemma texts_new: "texts kvector_new []"
  by (simp add: texts_def)

lemma push_copy_texts:
  assumes "texts v us" "repr p u"
  shows "\<exists>q v'. kstring_copy p = Inr q \<and> kvector_push_back q v = Inr v' \<and> texts v' (us @ [u])"
proof -
  obtain q where q: "kstring_copy p = Inr q" "repr q u" using copy_repr(1) [OF assms(2)] by blast
  show ?thesis using kvector_push_back_rep [of v q] assms(1) q by (auto simp: texts_def list_all2_appendI)
qed

lemma assign_empty: "\<exists>k'. kstring_assign_cstr k (Some []) = Inr k' \<and> repr k' []"
proof -
  let ?k = "k\<lparr>ks_data := Null, ks_len := 0, ks_cap := 0\<rparr>"
  have "part ?k []" by (simp add: part_def)
  then obtain k1 where k1: "ks_ensure_capacity 1 ?k = Inr k1" "ks_len k1 = 0"
      "\<exists>k2. wr_list 0 [NUL] k1 = Inr k2 \<and> ks_len k2 = 0 \<and> repr (k2\<lparr>ks_len := 0\<rparr>) []"
    by (rule write_end [of _ _ 1 "[]"]) auto
  then show ?thesis by (auto simp: kstring_assign_cstr_def Let_def)
qed

lemma repr_empty: "repr k t \<Longrightarrow> kstring_empty k \<longleftrightarrow> t = []"
  by (auto simp: kstring_empty_def repr_def)

text \<open>What the two loops do with a character.\<close>

lemma loop_parts:
  assumes "texts v us" "repr p u"
  obtains q v' k l where "kstring_copy p = Inr q" "kvector_push_back q v = Inr v'" "texts v' (us @ [u])"
    "kstring_assign_cstr p (Some []) = Inr k" "repr k []" "kstring_append_char c p = Inr l" "repr l (u @ [c])"
proof -
  obtain l where "kstring_append_char c p = Inr l" "repr l (u @ [c])"
    using push_back_repr [OF repr_part [OF assms(2)], of c] by (auto simp: kstring_append_char_def)
  then show thesis using push_copy_texts [OF assms] assign_empty [of p] that by blast
qed

lemma split_step_ok:
  assumes "texts v us" "repr p u" "r i = Inr c"
  shows "\<exists>v' p'. split_step r d i (v, p) = Inr (v', p') \<and>
    texts v' (if c = d \<and> u \<noteq> [] then us @ [u] else us) \<and> repr p' (if c = d then [] else u @ [c])"
  using assms repr_empty [OF assms(2)] by (rule_tac loop_parts [OF assms(1,2), of c]) (auto simp: split_step_def)

lemma tokenize_step_ok:
  assumes "texts v us" "repr p u" "r i = Inr c"
  shows "\<exists>v' p'. tokenize_step r d i (v, p, x) = Inr (v', p', c) \<and> texts v' (if c = d then us @ [u] else us) \<and> repr p' (if c = d then [] else u @ [c])"
  using assms by (rule_tac loop_parts [OF assms(1,2), of c]) (auto simp: tokenize_step_def)

lemma filter_fields:
  "filter (\<lambda>u. u \<noteq> []) (fields d w) = filter (\<lambda>u. u \<noteq> []) (butlast (fields d w)) @ (if last (fields d w) = [] then [] else [last (fields d w)])"
  by (subst append_butlast_last_id [OF fields_ne, symmetric]) (simp only: filter_append, simp)

lemma split_range_ok:
  assumes "reads r t"
  shows "\<exists>v. split_range r (length t) d = Inr v \<and> texts v (filter (\<lambda>u. u \<noteq> []) (fields d t))"
proof -
  let ?I = "\<lambda>i s. \<exists>v p. s = (v, p) \<and> texts v (filter (\<lambda>u. u \<noteq> []) (butlast (fields d (take i t)))) \<and> repr p (last (fields d (take i t)))"
  obtain p0 where p0: "kstring_cstr (Some []) = Inr p0" "repr p0 []" using cstr_repr by blast
  have "\<exists>s. kfor 0 (length t) (split_step r d) (kvector_new, p0) = Inr s \<and> ?I (length t) s"
  proof (rule kfor_rule)
    fix i s assume i: "i < length t" and "?I i s"
    then obtain v p where s: "s = (v, p)" "texts v (filter (\<lambda>u. u \<noteq> []) (butlast (fields d (take i t))))" "repr p (last (fields d (take i t)))" by blast
    have t: "take (Suc i) t = take i t @ [t ! i]" using i by (simp add: take_Suc_conv_app_nth)
    have "r i = Inr (t ! i)" using assms i by (simp add: reads_def)
    from split_step_ok [OF s(2,3), of r i, OF this, of d] show "\<exists>s'. split_step r d i s = Inr s' \<and> ?I (Suc i) s'"
      unfolding t fields_snoc s(1) using filter_fields [of d "take i t"] by (cases "t ! i = d") auto
  qed (use p0 texts_new in auto)
  then obtain v p where vp: "kfor 0 (length t) (split_step r d) (kvector_new, p0) = Inr (v, p)" "texts v (filter (\<lambda>u. u \<noteq> []) (butlast (fields d t)))" "repr p (last (fields d t))"
    by auto
  show ?thesis using push_copy_texts [OF vp(2,3)] vp(2) repr_empty [OF vp(3)]
    unfolding split_range_def p0(1) kbind_simps vp(1) prod.case filter_fields [of d t] by (cases "last (fields d t) = []") auto
qed

lemma tokenize_ok:
  assumes "reads r t" "d \<noteq> NUL"
  shows "\<exists>v. tokenize r (length t) d = Inr v \<and> texts v (if t = [] then [] else fields d t)"
proof -
  let ?I = "\<lambda>i s. \<exists>v p x. s = (v, p, x) \<and> texts v (butlast (fields d (take i t))) \<and> repr p (last (fields d (take i t))) \<and> x = (if i = 0 then NUL else t ! (i - 1))"
  obtain p0 where p0: "kstring_cstr (Some []) = Inr p0" "repr p0 []" using cstr_repr by blast
  have "\<exists>s. kfor 0 (length t) (tokenize_step r d) (kvector_new, p0, NUL) = Inr s \<and> ?I (length t) s"
  proof (rule kfor_rule)
    fix i s assume i: "i < length t" and "?I i s"
    then obtain v p x where s: "s = (v, p, x)" "texts v (butlast (fields d (take i t)))" "repr p (last (fields d (take i t)))" by blast
    have t: "take (Suc i) t = take i t @ [t ! i]" using i by (simp add: take_Suc_conv_app_nth)
    have "r i = Inr (t ! i)" using assms i by (simp add: reads_def)
    from tokenize_step_ok [OF s(2,3), of r i, OF this, of d x] show "\<exists>s'. tokenize_step r d i s = Inr s' \<and> ?I (Suc i) s'"
      unfolding t fields_snoc s(1) using append_butlast_last_id [OF fields_ne, of d "take i t"] by (cases "t ! i = d") auto
  qed (use p0 texts_new in auto)
  then obtain v p x where vp: "kfor 0 (length t) (tokenize_step r d) (kvector_new, p0, NUL) = Inr (v, p, x)" "texts v (butlast (fields d t))" "repr p (last (fields d t))"
      "x = (if t = [] then NUL else last t)"
    by (auto simp: last_conv_nth)
  have e: "(\<not> kstring_empty p \<or> x = d) \<longleftrightarrow> t \<noteq> []"
    using repr_empty [OF vp(3)] last_fields [of t d] vp(4) assms(2) by (cases "t = []") auto
  show ?thesis using push_copy_texts [OF vp(2,3)] vp(2) append_butlast_last_id [OF fields_ne, of d t]
    unfolding tokenize_def p0(1) kbind_simps vp(1) prod.case e by (cases "t = []") auto
qed

lemma join_range_ok:
  assumes "\<forall>i < length us. \<exists>k. elem i = Inr k \<and> repr k (us ! i)"
  shows "\<exists>k. join_range elem (length us) d = Inr k \<and> repr k (butlast (concat (map (\<lambda>u. u @ [d]) us)))"
proof -
  let ?c = "\<lambda>i. concat (map (\<lambda>u. u @ [d]) (take i us))"
  have "\<exists>k. kfor 0 (length us) (\<lambda>i result. kbind (elem i) (\<lambda>e. kbind (kstring_append e result) (kstring_append_char d))) kstring_new = Inr k \<and> repr k (?c (length us))"
  proof (rule kfor_rule)
    fix i k assume i: "i < length us" and k: "repr k (?c i)"
    obtain e where e: "elem i = Inr e" "repr e (us ! i)" using assms i by blast
    obtain k1 where k1: "kstring_append e k = Inr k1" "repr k1 (?c i @ us ! i)" using append_repr [OF k e(2)] by blast
    have c: "?c (Suc i) = (?c i @ us ! i) @ [d]" using i by (simp add: take_Suc_conv_app_nth)
    show "\<exists>k'. kbind (elem i) (\<lambda>e. kbind (kstring_append e k) (kstring_append_char d)) = Inr k' \<and> repr k' (?c (Suc i))"
      using push_back_repr [OF repr_part [OF k1(2)], of d] e(1) k1(1) unfolding c by (simp add: kstring_append_char_def)
  qed auto
  then obtain k where k: "kfor 0 (length us) (\<lambda>i result. kbind (elem i) (\<lambda>e. kbind (kstring_append e result) (kstring_append_char d))) kstring_new = Inr k"
      "repr k (?c (length us))" by blast
  show ?thesis using terminate_repr [OF k(2), of "length (?c (length us)) - 1"] k repr_empty [OF k(2)] repr_len [OF k(2)]
    by (auto simp: join_range_def kstring_pop_back_def butlast_conv_take kstring_empty_def)
qed

lemma join_texts:
  assumes "texts v us"
  shows "\<exists>k. join_kvector v d = Inr k \<and> repr k (butlast (concat (map (\<lambda>u. u @ [d]) us)))"
proof -
  have l: "v_size v = length us" using assms by (auto simp: texts_def dest!: list_all2_lengthD)
  obtain rest where "v_data v = map Some (vec_list v) @ rest" using vec_repE [of v] assms by (auto simp: texts_def)
  then have "v_read v i = Inr (vec_list v ! i)" if "i < length us" for i
    using that l assms v_read_rep [of v "vec_list v" rest i] by (simp add: texts_def)
  moreover have "repr (vec_list v ! i) (us ! i)" if "i < length us" for i using that assms by (auto simp: texts_def list_all2_conv_all_nth)
  ultimately show ?thesis unfolding join_kvector_def l by (intro join_range_ok) blast
qed

section \<open>Properties\<close>

lemma split_parts:
  assumes "repr k t" "views w u" "d \<noteq> NUL"
  shows "\<exists>v. split_str k d = Inr v \<and> texts v (filter (\<lambda>p. p \<noteq> []) (fields d t))"
    and "\<exists>v. split_view w d = Inr v \<and> texts v (filter (\<lambda>p. p \<noteq> []) (fields d u))"
    and "\<exists>v. tokenize (rd k) (ks_len k) d = Inr v \<and> texts v (if t = [] then [] else fields d t)"
    and "\<forall>p \<in> set (fields d t). d \<notin> set p"
    and "concat (filter (\<lambda>p. p \<noteq> []) (fields d t)) = filter (\<lambda>c. c \<noteq> d) t"
  using split_range_ok [OF reads_repr [OF assms(1)]] split_range_ok [OF reads_views [OF assms(2)]] tokenize_ok [OF reads_repr [OF assms(1)] assms(3)]
    repr_len [OF assms(1)] assms(2) fields_free fields_concat [of d t]
  by (auto simp: split_str_def split_view_def views_def concat_nonempty)

text \<open>
  C35: \<^verbatim>\<open>split\<close> of a string and of a view succeeds and gives the fields between the delimiters that are not empty, in order: no part contains the
  delimiter and together the parts are the text without the delimiters. \<^verbatim>\<open>tokenize\<close> keeps the empty fields.
\<close>

theorem split_fields:
  assumes "repr k t" "views w u" "d \<noteq> NUL"
  shows "(\<exists>v. split_str k d = Inr v \<and> texts v (filter (\<lambda>p. p \<noteq> []) (fields d t))) \<and>
    (\<exists>v. split_view w d = Inr v \<and> texts v (filter (\<lambda>p. p \<noteq> []) (fields d u))) \<and>
    (\<exists>v. tokenize (rd k) (ks_len k) d = Inr v \<and> texts v (if t = [] then [] else fields d t)) \<and>
    (\<forall>p \<in> set (fields d t). d \<notin> set p) \<and>
    (concat (filter (\<lambda>p. p \<noteq> []) (fields d t)) = filter (\<lambda>c. c \<noteq> d) t)"
  using split_parts [OF assms] by blast

theorem split_fields_witness:
  "\<exists>k v. kstring_cstr (Some ''/bin//sh'') = Inr k \<and> split_str k (CHR ''/'') = Inr v \<and> texts v [''bin'', ''sh'']"
proof -
  obtain k where k: "kstring_cstr (Some ''/bin//sh'') = Inr k" "repr k ''/bin//sh''" using cstr_repr by blast
  have "views \<lparr>kv_data = [NUL], kv_len = 0\<rparr> []" "CHR ''/'' \<noteq> NUL" by (simp_all add: views_def NUL_def)
  from split_fields [OF k(2) this] k(1) show ?thesis by simp
qed

text \<open>C28: \<^verbatim>\<open>join\<close> of what \<^verbatim>\<open>tokenize\<close> gives, with the same delimiter, is the string again.\<close>

theorem tokenize_join_roundtrip:
  assumes "repr k t" "d \<noteq> NUL"
  shows "\<exists>v k'. tokenize (rd k) (ks_len k) d = Inr v \<and> join_kvector v d = Inr k' \<and> repr k' t"
proof -
  obtain v where v: "tokenize (rd k) (ks_len k) d = Inr v" "texts v (if t = [] then [] else fields d t)"
    using tokenize_ok [OF reads_repr [OF assms(1)] assms(2)] repr_len [OF assms(1)] by auto
  then show ?thesis using join_texts [OF v(2), of d] fields_join [of d t] by (cases "t = []") auto
qed

end
