(* ===== verification/Pmm.thy ===== *)
theory Pmm
  imports Kernel_Prelude
begin

text \<open>
  The physical memory manager (\<^verbatim>\<open>lib/memory/pmm.cpp\<close>): a bitmap of 64-bit entries with one bit per
  4 KiB frame, 0 for free, and the boot code that feeds it with the memory map
  (\<^verbatim>\<open>init_memory\<close> in \<^verbatim>\<open>lib/boot/limine-boot.cpp\<close>). The file's static variables are the record \<open>pmm\<close>.
  Addresses and counters are 64-bit words; frame numbers are quotients of addresses by 4096 and
  cannot wrap, so they are natural numbers. An index past the bitmap is a \<open>Fault\<close>. Each operation
  is the critical section that the lock \<^verbatim>\<open>g_pmm_spinlock\<close> makes of it.

  \<open>free_set s\<close> is the set of frames whose bit says free, and \<open>avail s\<close> those of them between the
  search cursor and the end of the region.
\<close>

record pmm =
  frame_bitmap :: "u64 list"
  frame_bitmap_start :: nat
  frame_bitmap_end :: nat
  total_memory :: u64
  total_frames :: u64
  free_frames :: u64

definition MAX_MEMORY_BYTES :: u64 where
  "MAX_MEMORY_BYTES = 2147483648"

definition FRAME_SIZE :: nat where
  "FRAME_SIZE = 4096"

definition FRAME_BITMAP_ENTRY_SIZE :: nat where
  "FRAME_BITMAP_ENTRY_SIZE = 64"

definition FRAME_BITMAP_SIZE :: nat where
  "FRAME_BITMAP_SIZE = unat MAX_MEMORY_BYTES div FRAME_SIZE div FRAME_BITMAP_ENTRY_SIZE"

definition FRAME_USED :: u64 where
  "FRAME_USED = 1"

lemmas pmm_consts = FRAME_SIZE_def FRAME_BITMAP_ENTRY_SIZE_def FRAME_USED_def

lemma FRAME_BITMAP_SIZE_eq: "FRAME_BITMAP_SIZE = 8192"
  by (simp add: FRAME_BITMAP_SIZE_def MAX_MEMORY_BYTES_def pmm_consts)

section \<open>The operations\<close>

definition bitmap_entry :: "pmm \<Rightarrow> nat \<Rightarrow> u64 kres" where
  "bitmap_entry s i = (if i < length (frame_bitmap s) then Inr (frame_bitmap s ! i)
     else Inl (Fault ''frame_bitmap index''))"

definition is_frame_free :: "nat \<Rightarrow> pmm \<Rightarrow> bool kres" where
  "is_frame_free frame s =
    (let index = frame div FRAME_BITMAP_ENTRY_SIZE; offset = frame mod FRAME_BITMAP_ENTRY_SIZE
     in kbind (bitmap_entry s index) (\<lambda>entry. Inr (entry AND push_bit offset FRAME_USED = 0)))"

definition set_frame_used :: "nat \<Rightarrow> pmm \<Rightarrow> pmm kres" where
  "set_frame_used frame s =
    (let index = frame div FRAME_BITMAP_ENTRY_SIZE; offset = frame mod FRAME_BITMAP_ENTRY_SIZE
     in kbind (bitmap_entry s index) (\<lambda>entry.
          Inr (s\<lparr>frame_bitmap := (frame_bitmap s)[index := entry OR push_bit offset FRAME_USED],
                 free_frames := free_frames s - 1\<rparr>)))"

definition set_frame_free :: "nat \<Rightarrow> pmm \<Rightarrow> pmm kres" where
  "set_frame_free frame s =
    (let index = frame div FRAME_BITMAP_ENTRY_SIZE; offset = frame mod FRAME_BITMAP_ENTRY_SIZE
     in kbind (bitmap_entry s index) (\<lambda>entry.
          Inr (s\<lparr>frame_bitmap := (frame_bitmap s)[index := entry AND NOT (push_bit offset FRAME_USED)],
                 free_frames := free_frames s + 1\<rparr>)))"

definition pmm_init :: "pmm \<Rightarrow> pmm" where
  "pmm_init s = s\<lparr>frame_bitmap := replicate FRAME_BITMAP_SIZE 0xFFFFFFFFFFFFFFFF,
     total_memory := 0, total_frames := 0, free_frames := 0\<rparr>"

function free_loop :: "nat \<Rightarrow> nat \<Rightarrow> pmm \<Rightarrow> pmm kres" where
  "free_loop frame_start frame_end s =
    (if frame_start \<le> frame_end then kbind (set_frame_free frame_start s) (free_loop (frame_start + 1) frame_end)
     else Inr s)"
  by pat_completeness auto
termination
  by (relation "measure (\<lambda>(a, b, s). Suc b - a)") auto

function used_loop :: "nat \<Rightarrow> nat \<Rightarrow> pmm \<Rightarrow> pmm kres" where
  "used_loop frame_start frame_end s =
    (if frame_start \<le> frame_end then kbind (set_frame_used frame_start s) (used_loop (frame_start + 1) frame_end)
     else Inr s)"
  by pat_completeness auto
termination
  by (relation "measure (\<lambda>(a, b, s). Suc b - a)") auto

declare free_loop.simps [simp del] used_loop.simps [simp del]

definition set_addr_free :: "u64 \<Rightarrow> u64 \<Rightarrow> pmm \<Rightarrow> pmm kres" where
  "set_addr_free addr len s =
    (let frame_start = unat addr div FRAME_SIZE; frame_end = unat (addr + len) div FRAME_SIZE
     in free_loop frame_start frame_end (s\<lparr>frame_bitmap_start := frame_start, frame_bitmap_end := frame_end\<rparr>))"

definition set_addr_used :: "u64 \<Rightarrow> u64 \<Rightarrow> pmm \<Rightarrow> pmm kres" where
  "set_addr_used addr len s =
    used_loop (unat addr div FRAME_SIZE) (unat (addr + len) div FRAME_SIZE) s"

definition add_region :: "u64 \<Rightarrow> u64 \<Rightarrow> pmm \<Rightarrow> pmm kres" where
  "add_region addr len s =
    (let frames = total_frames s + (len div of_nat FRAME_SIZE + 1);
         s1 = s\<lparr>total_memory := total_memory s + len, total_frames := frames, free_frames := free_frames s + frames\<rparr>
     in kbind (set_addr_free addr len s1) (set_frame_used 0))"

definition add_free_memory :: "u64 \<Rightarrow> u64 \<Rightarrow> pmm \<Rightarrow> pmm kres" where
  "add_free_memory addr len s =
    (if addr + len \<ge> MAX_MEMORY_BYTES
     then if addr \<ge> MAX_MEMORY_BYTES then Inr s
          else add_region addr (MAX_MEMORY_BYTES - addr) s
     else add_region addr len s)"

definition free_frame :: "u64 \<Rightarrow> pmm \<Rightarrow> pmm kres" where
  "free_frame phys s = set_frame_free (unat phys div FRAME_SIZE) s"

function alloc_loop :: "nat \<Rightarrow> pmm \<Rightarrow> (u64 \<times> pmm) kres" where
  "alloc_loop frame s =
    (if frame < frame_bitmap_end s
     then kbind (is_frame_free frame s) (\<lambda>free.
       if free then kbind (set_frame_used frame s) (\<lambda>s1.
         Inr (of_nat (frame * FRAME_SIZE), s1\<lparr>frame_bitmap_start := frame + 1\<rparr>))
       else alloc_loop (frame + 1) s)
     else Inl (Panic ''PMM: Out of physical memory''))"
  by pat_completeness auto
termination
  by (relation "measure (\<lambda>(frame, s). frame_bitmap_end s - frame)") auto

declare alloc_loop.simps [simp del]

definition alloc_frame :: "pmm \<Rightarrow> (u64 \<times> pmm) kres" where
  "alloc_frame s = alloc_loop (frame_bitmap_start s) s"

text \<open>The memory map of the boot loader; \<open>LIMINE_MEMMAP_USABLE\<close> is type 0.\<close>

record memmap_entry =
  me_base :: u64
  me_length :: u64
  me_type :: u64

primrec add_entries :: "memmap_entry list \<Rightarrow> pmm \<Rightarrow> pmm kres" where
  "add_entries [] s = Inr s"
| "add_entries (e # es) s =
    (if me_type e = 0 then kbind (add_free_memory (me_base e) (me_length e) s) (add_entries es)
     else add_entries es s)"

definition init_memory :: "memmap_entry list \<Rightarrow> pmm \<Rightarrow> pmm kres" where
  "init_memory entries s = add_entries entries (pmm_init s)"

section \<open>The frames that are free\<close>

definition free_bits :: "u64 list \<Rightarrow> nat set" where
  "free_bits bm = {f. f < 64 * length bm \<and> \<not> bit (bm ! (f div 64)) (f mod 64)}"

abbreviation free_set :: "pmm \<Rightarrow> nat set" where
  "free_set s \<equiv> free_bits (frame_bitmap s)"

definition pmm_ok :: "pmm \<Rightarrow> bool" where
  "pmm_ok s \<longleftrightarrow> length (frame_bitmap s) = FRAME_BITMAP_SIZE \<and> frame_bitmap_end s \<le> 64 * FRAME_BITMAP_SIZE"

definition avail :: "pmm \<Rightarrow> nat set" where
  "avail s = free_set s \<inter> {frame_bitmap_start s ..< frame_bitmap_end s}"

lemma finite_free_bits [simp]: "finite (free_bits bm)" "finite (avail s)"
  by (simp_all add: free_bits_def avail_def)

lemma frame_index: "f < 64 * n \<longleftrightarrow> f div 64 < (n :: nat)"
  by (simp add: div_less_iff_less_mult mult.commute)

lemma is_frame_free_eq:
  "is_frame_free f s = (if f < 64 * length (frame_bitmap s) then Inr (f \<in> free_set s)
     else Inl (Fault ''frame_bitmap index''))"
  by (simp add: is_frame_free_def bitmap_entry_def free_bits_def frame_index pmm_consts
      bit_iff_and_push_bit_not_eq_0)

lemma same_entry: "f div 64 = g div 64 \<Longrightarrow> f mod 64 = g mod 64 \<longleftrightarrow> f = (g :: nat)"
  by (metis div_mult_mod_eq)

lemma free_bits_update:
  assumes "f < 64 * length bm"
  shows "free_bits (bm[f div 64 := bm ! (f div 64) OR push_bit (f mod 64) 1]) = free_bits bm - {f}"
    and "free_bits (bm[f div 64 := bm ! (f div 64) AND NOT (push_bit (f mod 64) 1)]) = insert f (free_bits bm)"
  using assms by (auto simp: free_bits_def frame_index nth_list_update bit_simps same_entry)

lemma set_frame_used_eq:
  assumes "f < 64 * length (frame_bitmap s)"
  shows "\<exists>bm. set_frame_used f s = Inr (s\<lparr>frame_bitmap := bm, free_frames := free_frames s - 1\<rparr>) \<and>
    free_bits bm = free_set s - {f} \<and> length bm = length (frame_bitmap s)"
  using assms free_bits_update(1) [OF assms]
  by (intro exI [of _ "(frame_bitmap s)[f div 64 := frame_bitmap s ! (f div 64) OR push_bit (f mod 64) 1]"])
     (simp add: set_frame_used_def bitmap_entry_def frame_index pmm_consts Let_def)

lemma set_frame_free_eq:
  assumes "f < 64 * length (frame_bitmap s)"
  shows "\<exists>bm. set_frame_free f s = Inr (s\<lparr>frame_bitmap := bm, free_frames := free_frames s + 1\<rparr>) \<and>
    free_bits bm = insert f (free_set s) \<and> length bm = length (frame_bitmap s)"
  using assms free_bits_update(2) [OF assms]
  by (intro exI [of _ "(frame_bitmap s)[f div 64 := frame_bitmap s ! (f div 64) AND NOT (push_bit (f mod 64) 1)]"])
     (simp add: set_frame_free_def bitmap_entry_def frame_index pmm_consts Let_def)

lemma frame_bitmap_index_fault:
  assumes "64 * length (frame_bitmap s) \<le> f"
  shows "set_frame_used f s = Inl (Fault ''frame_bitmap index'')"
    and "set_frame_free f s = Inl (Fault ''frame_bitmap index'')"
  using assms frame_index [of f "length (frame_bitmap s)"]
  by (simp_all add: set_frame_used_def set_frame_free_def bitmap_entry_def pmm_consts)

section \<open>Allocating and freeing\<close>

lemma alloc_loop_none:
  assumes "frame_bitmap_end s \<le> 64 * length (frame_bitmap s)"
  shows "free_set s \<inter> {f ..< frame_bitmap_end s} = {} \<Longrightarrow> alloc_loop f s = Inl (Panic ''PMM: Out of physical memory'')"
proof (induction "frame_bitmap_end s - f" arbitrary: f)
  case 0
  then show ?case by (simp add: alloc_loop.simps)
next
  case (Suc k)
  then have f: "f < frame_bitmap_end s" by simp
  with Suc.prems have "f \<notin> free_set s" by auto
  with f assms have "is_frame_free f s = Inr False" by (simp add: is_frame_free_eq)
  moreover have "free_set s \<inter> {f + 1 ..< frame_bitmap_end s} = {}" using Suc.prems by fastforce
  then have "alloc_loop (f + 1) s = Inl (Panic ''PMM: Out of physical memory'')"
    using Suc.hyps(2) by (intro Suc.hyps(1)) simp_all
  ultimately show ?case using f by (subst alloc_loop.simps) simp
qed

lemma alloc_loop_some:
  assumes "frame_bitmap_end s \<le> 64 * length (frame_bitmap s)" "g \<in> free_set s" "g < frame_bitmap_end s"
  shows "f \<le> g \<Longrightarrow> \<forall>h. f \<le> h \<and> h < g \<longrightarrow> h \<notin> free_set s \<Longrightarrow>
    \<exists>bm. alloc_loop f s = Inr (of_nat (g * FRAME_SIZE),
        s\<lparr>frame_bitmap := bm, free_frames := free_frames s - 1, frame_bitmap_start := g + 1\<rparr>) \<and>
      free_bits bm = free_set s - {g} \<and> length bm = length (frame_bitmap s)"
proof (induction "g - f" arbitrary: f)
  case 0
  then have f: "f = g" by simp
  have "is_frame_free f s = Inr True" using assms f by (simp add: is_frame_free_eq)
  moreover obtain bm where "set_frame_used f s = Inr (s\<lparr>frame_bitmap := bm, free_frames := free_frames s - 1\<rparr>)"
      "free_bits bm = free_set s - {f}" "length bm = length (frame_bitmap s)"
    using set_frame_used_eq [of f s] assms f by auto
  ultimately show ?case using assms(3) f by (subst alloc_loop.simps) (auto intro!: exI [of _ bm])
next
  case (Suc k)
  then have "f < g" by simp
  with Suc.prems(2) assms have "is_frame_free f s = Inr False" "f < frame_bitmap_end s"
    by (auto simp: is_frame_free_eq)
  with Suc.hyps(1) [of "f + 1"] Suc.hyps(2) Suc.prems(2) \<open>f < g\<close> show ?case
    by (subst alloc_loop.simps) simp
qed

definition frame_of :: "u64 \<Rightarrow> nat" where
  "frame_of p = unat p div FRAME_SIZE"

definition page_aligned :: "u64 \<Rightarrow> bool" where
  "page_aligned p \<longleftrightarrow> unat p mod FRAME_SIZE = 0"

lemma unat_frame_addr: "g < 64 * FRAME_BITMAP_SIZE \<Longrightarrow> unat (of_nat (g * FRAME_SIZE) :: u64) = g * FRAME_SIZE"
  unfolding FRAME_BITMAP_SIZE_eq pmm_consts by (subst unat_of_nat) simp

lemma frame_of_addr: "g < 64 * FRAME_BITMAP_SIZE \<Longrightarrow>
    frame_of (of_nat (g * FRAME_SIZE)) = g \<and> page_aligned (of_nat (g * FRAME_SIZE))"
  unfolding frame_of_def page_aligned_def by (subst (1 2) unat_frame_addr) (simp_all add: pmm_consts)

lemma avail_after_alloc:
  assumes "g \<in> avail s" "\<forall>h \<in> avail s. g \<le> h"
  shows "(free_set s - {g}) \<inter> {g + 1 ..< frame_bitmap_end s} = avail s - {g}"
  using assms by (fastforce simp: avail_def)

lemma alloc_frame_some:
  assumes "pmm_ok s" "avail s \<noteq> {}"
  shows "\<exists>p s'. alloc_frame s = Inr (p, s') \<and> pmm_ok s' \<and> page_aligned p \<and> frame_of p = Min (avail s) \<and>
    avail s' = avail s - {frame_of p} \<and> free_set s' = free_set s - {frame_of p} \<and> free_frames s' = free_frames s - 1"
proof -
  define g where "g = Min (avail s)"
  have g: "g \<in> avail s" "\<forall>h \<in> avail s. g \<le> h" using assms(2) by (simp_all add: g_def)
  have least: "\<forall>h. frame_bitmap_start s \<le> h \<and> h < g \<longrightarrow> h \<notin> free_set s"
  proof (intro allI impI notI)
    fix h assume h: "frame_bitmap_start s \<le> h \<and> h < g" "h \<in> free_set s"
    with g(1) have "h \<in> avail s" by (simp add: avail_def)
    with g(2) h show False by auto
  qed
  have b: "g < 64 * FRAME_BITMAP_SIZE" "frame_bitmap_end s \<le> 64 * length (frame_bitmap s)"
    using g assms(1) by (auto simp: avail_def pmm_ok_def)
  obtain bm where s: "alloc_frame s = Inr (of_nat (g * FRAME_SIZE),
        s\<lparr>frame_bitmap := bm, free_frames := free_frames s - 1, frame_bitmap_start := g + 1\<rparr>)"
      "free_bits bm = free_set s - {g}" "length bm = length (frame_bitmap s)"
    using alloc_loop_some [OF b(2) _ _ _ least] g unfolding alloc_frame_def avail_def by auto
  let ?s = "s\<lparr>frame_bitmap := bm, free_frames := free_frames s - 1, frame_bitmap_start := g + 1\<rparr>"
  have "avail ?s = avail s - {g}" using avail_after_alloc [OF g] s(2) by (simp add: avail_def)
  moreover have "pmm_ok ?s" using assms(1) s(3) by (simp add: pmm_ok_def)
  ultimately show ?thesis unfolding g_def [symmetric] using s frame_of_addr [OF b(1)]
    by (intro exI [of _ "of_nat (g * FRAME_SIZE)"] exI [of _ ?s]) simp
qed

lemma alloc_frame_none:
  "pmm_ok s \<Longrightarrow> avail s = {} \<Longrightarrow> alloc_frame s = Inl (Panic ''PMM: Out of physical memory'')"
  by (simp add: alloc_frame_def avail_def pmm_ok_def alloc_loop_none)

lemma free_frame_eq:
  assumes "pmm_ok s" "frame_of p < 64 * FRAME_BITMAP_SIZE"
  shows "\<exists>s'. free_frame p s = Inr s' \<and> pmm_ok s' \<and> free_set s' = insert (frame_of p) (free_set s) \<and>
    free_frames s' = free_frames s + 1 \<and> frame_bitmap_start s' = frame_bitmap_start s \<and> frame_bitmap_end s' = frame_bitmap_end s"
  using set_frame_free_eq [of "frame_of p" s] assms by (auto simp: free_frame_def frame_of_def pmm_ok_def)

section \<open>Registering memory\<close>

lemma free_loop_eq:
  "b < 64 * length (frame_bitmap s) \<Longrightarrow>
   \<exists>bm. free_loop a b s = Inr (s\<lparr>frame_bitmap := bm, free_frames := free_frames s + of_nat (Suc b - a)\<rparr>) \<and>
     free_bits bm = free_set s \<union> {a .. b} \<and> length bm = length (frame_bitmap s)"
proof (induction "Suc b - a" arbitrary: a s)
  case 0
  then show ?case by (auto simp: free_loop.simps intro!: exI [of _ "frame_bitmap s"])
next
  case (Suc k)
  then have ab: "a \<le> b" "{a .. b} = insert a {a + 1 .. b}" by auto
  obtain bm1 where 1: "set_frame_free a s = Inr (s\<lparr>frame_bitmap := bm1, free_frames := free_frames s + 1\<rparr>)"
      "free_bits bm1 = insert a (free_set s)" "length bm1 = length (frame_bitmap s)"
    using set_frame_free_eq [of a s] Suc.prems ab by auto
  let ?s = "s\<lparr>frame_bitmap := bm1, free_frames := free_frames s + 1\<rparr>"
  have k: "k = Suc b - (a + 1)" using Suc.hyps(2) by simp
  obtain bm where 2: "free_loop (a + 1) b ?s = Inr (?s\<lparr>frame_bitmap := bm, free_frames := free_frames ?s + of_nat (Suc b - (a + 1))\<rparr>)"
     "free_bits bm = free_set ?s \<union> {a + 1 .. b}" "length bm = length (frame_bitmap ?s)"
    using Suc.hyps(1) [OF k, of ?s] Suc.prems 1(3) by auto
  have "Suc b - a = Suc (Suc b - (a + 1))" using ab(1) by simp
  then have n: "free_frames s + of_nat (Suc b - a) = free_frames ?s + of_nat (Suc b - (a + 1))"
    by (simp only: of_nat_Suc) simp
  have "free_loop a b s = free_loop (a + 1) b ?s" using 1(1) ab(1) by (subst free_loop.simps) simp
  with 1 2 ab(2) show ?case unfolding n by (intro exI [of _ bm]) auto
qed

lemma free_loop_fault:
  "a \<le> b \<Longrightarrow> 64 * length (frame_bitmap s) \<le> b \<Longrightarrow> free_loop a b s = Inl (Fault ''frame_bitmap index'')"
proof (induction "b - a" arbitrary: a s)
  case 0
  then show ?case by (simp add: free_loop.simps frame_bitmap_index_fault)
next
  case (Suc k)
  show ?case
  proof (cases "a < 64 * length (frame_bitmap s)")
    case True
    then obtain s1 where "set_frame_free a s = Inr s1" "length (frame_bitmap s1) = length (frame_bitmap s)"
      using set_frame_free_eq [of a s] by fastforce
    with Suc.hyps(1) [of "a + 1" s1] Suc.hyps(2) Suc.prems show ?thesis by (subst free_loop.simps) simp
  next
    case False
    with Suc.prems show ?thesis by (simp add: free_loop.simps frame_bitmap_index_fault)
  qed
qed

lemma add_region_eq:
  fixes addr len :: u64
  defines "fs \<equiv> unat addr div FRAME_SIZE" and "fe \<equiv> unat (addr + len) div FRAME_SIZE"
  assumes "length (frame_bitmap s) = FRAME_BITMAP_SIZE" "fe < 64 * FRAME_BITMAP_SIZE"
  shows "\<exists>s'. add_region addr len s = Inr s' \<and> pmm_ok s' \<and> free_set s' = (free_set s \<union> {fs .. fe}) - {0} \<and>
    frame_bitmap_start s' = fs \<and> frame_bitmap_end s' = fe \<and> total_memory s' = total_memory s + len \<and>
    total_frames s' = total_frames s + (len div 4096 + 1) \<and>
    free_frames s' = free_frames s + total_frames s' + of_nat (Suc fe - fs) - 1"
proof -
  let ?n = "total_frames s + (len div of_nat FRAME_SIZE + 1)"
  let ?s1 = "s\<lparr>total_memory := total_memory s + len, total_frames := ?n, free_frames := free_frames s + ?n,
    frame_bitmap_start := fs, frame_bitmap_end := fe\<rparr>"
  obtain bm where 1: "free_loop fs fe ?s1 = Inr (?s1\<lparr>frame_bitmap := bm, free_frames := free_frames ?s1 + of_nat (Suc fe - fs)\<rparr>)"
      "free_bits bm = free_set s \<union> {fs .. fe}" "length bm = FRAME_BITMAP_SIZE"
    using free_loop_eq [of fe ?s1 fs] assms(3,4) by auto
  let ?s2 = "?s1\<lparr>frame_bitmap := bm, free_frames := free_frames ?s1 + of_nat (Suc fe - fs)\<rparr>"
  obtain bm' where 2: "set_frame_used 0 ?s2 = Inr (?s2\<lparr>frame_bitmap := bm', free_frames := free_frames ?s2 - 1\<rparr>)"
      "free_bits bm' = free_bits bm - {0}" "length bm' = FRAME_BITMAP_SIZE"
    using set_frame_used_eq [of 0 ?s2] 1(3) assms(4) by auto
  have "add_region addr len s = Inr (?s2\<lparr>frame_bitmap := bm', free_frames := free_frames ?s2 - 1\<rparr>)"
    unfolding add_region_def set_addr_free_def Let_def using 1(1) 2(1) by (simp add: fs_def fe_def)
  then show ?thesis using 1 2 assms(4) by (simp add: pmm_ok_def FRAME_SIZE_def)
qed

lemma add_free_memory_truncates_fault:
  assumes "length (frame_bitmap s) = FRAME_BITMAP_SIZE" "addr < MAX_MEMORY_BYTES" "MAX_MEMORY_BYTES \<le> addr + len"
  shows "add_free_memory addr len s = Inl (Fault ''frame_bitmap index'')"
proof -
  have "unat addr div 4096 \<le> unat MAX_MEMORY_BYTES div 4096"
    using assms(2) by (intro div_le_mono) (simp add: word_less_nat_alt)
  then have "free_loop (unat addr div 4096) 524288 t = Inl (Fault ''frame_bitmap index'')"
    if "length (frame_bitmap t) = FRAME_BITMAP_SIZE" for t
    using that by (intro free_loop_fault) (simp_all add: MAX_MEMORY_BYTES_def FRAME_BITMAP_SIZE_eq)
  then show ?thesis using assms
    by (simp add: add_free_memory_def add_region_def set_addr_free_def pmm_consts not_le Let_def)
       (simp add: MAX_MEMORY_BYTES_def)
qed

section \<open>The allocator as an interface\<close>

text \<open>
  What the page tables and the heaps ask of the source of frames: a call returns an aligned frame
  that was available and is no longer, or panics when there is none.
\<close>

primrec alloc_many :: "('s \<Rightarrow> (u64 \<times> 's) kres) \<Rightarrow> nat \<Rightarrow> 's \<Rightarrow> (u64 list \<times> 's) kres" where
  "alloc_many alloc 0 s = Inr ([], s)"
| "alloc_many alloc (Suc k) s = kbind (alloc s) (\<lambda>(p, s1).
     kbind (alloc_many alloc k s1) (\<lambda>(ps, s2). Inr (p # ps, s2)))"

locale frame_source =
  fixes ok :: "'s \<Rightarrow> bool"
    and av :: "'s \<Rightarrow> nat set"
    and alloc :: "'s \<Rightarrow> (u64 \<times> 's) kres"
  assumes av_finite: "finite (av s)"
    and alloc_some: "ok s \<Longrightarrow> av s \<noteq> {} \<Longrightarrow> \<exists>p s'. alloc s = Inr (p, s') \<and> ok s' \<and> page_aligned p \<and>
      frame_of p \<in> av s \<and> av s' = av s - {frame_of p}"
    and alloc_none: "ok s \<Longrightarrow> av s = {} \<Longrightarrow> \<exists>m. alloc s = Inl (Panic m)"
begin

lemma alloc_many_some:
  "ok s \<Longrightarrow> k \<le> card (av s) \<Longrightarrow> \<exists>ps s'. alloc_many alloc k s = Inr (ps, s') \<and> ok s' \<and> length ps = k \<and>
     list_all page_aligned ps \<and> distinct (map frame_of ps) \<and> frame_of ` set ps \<subseteq> av s \<and> av s' = av s - frame_of ` set ps"
proof (induction k arbitrary: s)
  case (Suc k)
  then have "av s \<noteq> {}" by auto
  with Suc.prems(1) obtain p s1 where 1: "alloc s = Inr (p, s1)" "ok s1" "page_aligned p" "frame_of p \<in> av s"
      "av s1 = av s - {frame_of p}" using alloc_some by blast
  then have "k \<le> card (av s1)" using Suc.prems(2) av_finite [of s] by simp
  from Suc.IH [OF 1(2) this] obtain ps s2 where "alloc_many alloc k s1 = Inr (ps, s2)" "ok s2" "length ps = k"
      "list_all page_aligned ps" "distinct (map frame_of ps)" "frame_of ` set ps \<subseteq> av s1" "av s2 = av s1 - frame_of ` set ps"
    by blast
  with 1 show ?case by auto
qed simp

lemma alloc_many_none: "ok s \<Longrightarrow> card (av s) < k \<Longrightarrow> \<exists>m. alloc_many alloc k s = Inl (Panic m)"
proof (induction k arbitrary: s)
  case (Suc k)
  show ?case
  proof (cases "av s = {}")
    case True
    with alloc_none Suc.prems show ?thesis by fastforce
  next
    case False
    with Suc.prems(1) obtain p s1 where 1: "alloc s = Inr (p, s1)" "ok s1" "frame_of p \<in> av s"
      "av s1 = av s - {frame_of p}" using alloc_some by blast
    moreover have "0 < card (av s)" using av_finite [of s] False by (simp add: card_gt_0_iff)
    ultimately have "card (av s1) < k" using Suc.prems(2) av_finite [of s] by simp
    with Suc.IH [OF 1(2)] 1 show ?thesis by fastforce
  qed
qed simp

end

interpretation pmm_frames: frame_source pmm_ok avail alloc_frame
proof unfold_locales
  fix s assume "pmm_ok s" "avail s \<noteq> {}"
  from alloc_frame_some [OF this] Min_in [OF finite_free_bits(2) this(2)]
  show "\<exists>p s'. alloc_frame s = Inr (p, s') \<and> pmm_ok s' \<and> page_aligned p \<and>
      frame_of p \<in> avail s \<and> avail s' = avail s - {frame_of p}" by auto
qed (simp_all add: alloc_frame_none)

section \<open>Histories\<close>

text \<open>
  Runs of the allocator by the rest of the kernel, with the set of frames it has handed out and
  not got back. A frame is freed by its holder only; the order of the calls is arbitrary.
\<close>

inductive pmm_run :: "pmm \<Rightarrow> nat set \<Rightarrow> pmm \<Rightarrow> nat set \<Rightarrow> bool" where
  pmm_run_refl: "pmm_run s own s own"
| pmm_run_alloc: "pmm_run s own t own' \<Longrightarrow> alloc_frame t = Inr (p, t') \<Longrightarrow> pmm_run s own t' (insert (frame_of p) own')"
| pmm_run_free: "pmm_run s own t own' \<Longrightarrow> frame_of p \<in> own' \<Longrightarrow> free_frame p t = Inr t' \<Longrightarrow>
    pmm_run s own t' (own' - {frame_of p})"

definition pmm_inv :: "pmm \<Rightarrow> nat set \<Rightarrow> bool" where
  "pmm_inv s own \<longleftrightarrow> pmm_ok s \<and> own \<subseteq> {1 ..< 64 * FRAME_BITMAP_SIZE} \<and> own \<inter> free_set s = {} \<and> 0 \<notin> free_set s"

lemma alloc_frame_inv:
  assumes "pmm_ok s" "alloc_frame s = Inr (p, s')"
  shows "pmm_ok s' \<and> page_aligned p \<and> frame_of p \<in> avail s \<and> avail s' = avail s - {frame_of p} \<and>
    free_set s' = free_set s - {frame_of p} \<and> free_frames s' = free_frames s - 1"
proof -
  have ne: "avail s \<noteq> {}" using alloc_frame_none [OF assms(1)] assms(2) by auto
  from alloc_frame_some [OF assms(1) ne] assms(2) Min_in [OF finite_free_bits(2) ne] show ?thesis by auto
qed

lemma avail_bounds: "pmm_ok s \<Longrightarrow> f \<in> avail s \<Longrightarrow> f < 64 * FRAME_BITMAP_SIZE \<and> f \<in> free_set s"
  by (auto simp: avail_def pmm_ok_def)

lemma pmm_run_inv:
  "pmm_run s own t own' \<Longrightarrow> pmm_inv s own \<Longrightarrow>
   pmm_inv t own' \<and> free_frames t - of_nat (card (free_set t)) = free_frames s - of_nat (card (free_set s))"
proof (induction rule: pmm_run.induct)
  case (pmm_run_alloc s own t own' p t')
  then have t: "pmm_inv t own'" and c: "free_frames t - of_nat (card (free_set t)) = free_frames s - of_nat (card (free_set s))"
    by auto
  have a: "pmm_ok t'" "frame_of p \<in> avail t" "free_set t' = free_set t - {frame_of p}" "free_frames t' = free_frames t - 1"
    using alloc_frame_inv [OF _ pmm_run_alloc.hyps(2)] t by (auto simp: pmm_inv_def)
  have b: "frame_of p < 64 * FRAME_BITMAP_SIZE" "frame_of p \<in> free_set t"
    using avail_bounds [OF _ a(2)] t by (auto simp: pmm_inv_def)
  then have "card (free_set t) = Suc (card (free_set t'))"
    using card_Suc_Diff1 [OF finite_free_bits(1) b(2)] a(3) by simp
  with c a(4) have "free_frames t' - of_nat (card (free_set t')) = free_frames s - of_nat (card (free_set s))"
    by (simp add: diff_diff_eq)
  moreover have "pmm_inv t' (insert (frame_of p) own')"
    using t a b by (auto simp: pmm_inv_def Suc_le_eq intro: gr0I)
  ultimately show ?case by simp
next
  case (pmm_run_free s own t own' p t')
  then have t: "pmm_inv t own'" and c: "free_frames t - of_nat (card (free_set t)) = free_frames s - of_nat (card (free_set s))"
    by auto
  have p: "frame_of p < 64 * FRAME_BITMAP_SIZE" "frame_of p \<noteq> 0" "frame_of p \<notin> free_set t"
    using t pmm_run_free.hyps(2) by (auto simp: pmm_inv_def)
  have f: "pmm_ok t'" "free_set t' = insert (frame_of p) (free_set t)" "free_frames t' = free_frames t + 1"
    using free_frame_eq [OF _ p(1), of t] t pmm_run_free.hyps(3) by (auto simp: pmm_inv_def)
  then have "card (free_set t') = Suc (card (free_set t))" using p(3) by simp
  with c f(3) have "free_frames t' - of_nat (card (free_set t')) = free_frames s - of_nat (card (free_set s))" by simp
  with t f p show ?case by (auto simp: pmm_inv_def)
qed simp

text \<open>The statics of the file before \<^verbatim>\<open>init\<close> runs.\<close>

definition pmm_zero :: pmm where
  "pmm_zero = \<lparr>frame_bitmap = replicate FRAME_BITMAP_SIZE 0, frame_bitmap_start = 0, frame_bitmap_end = 0,
     total_memory = 0, total_frames = 0, free_frames = 0\<rparr>"

lemma free_set_init: "free_set (pmm_init s) = {}"
proof -
  have m: "(0xFFFFFFFFFFFFFFFF :: u64) = -1" by simp
  show ?thesis unfolding pmm_init_def m free_bits_def by (auto simp: frame_index bit_simps)
qed

lemma pmm_init_inv: "pmm_inv (pmm_init pmm_zero) {}"
  unfolding pmm_inv_def free_set_init by (simp add: pmm_ok_def pmm_init_def pmm_zero_def)

text \<open>A region that lies below the 2 GiB limit.\<close>

definition region_ok :: "u64 \<Rightarrow> u64 \<Rightarrow> bool" where
  "region_ok addr len \<longleftrightarrow> unat addr + unat len < unat MAX_MEMORY_BYTES"

lemma region_unat: "region_ok addr len \<Longrightarrow> unat (addr + len) = unat addr + unat len"
  unfolding region_ok_def MAX_MEMORY_BYTES_def by (subst unat_add_lem [symmetric]) simp

lemma add_free_memory_eq:
  assumes "length (frame_bitmap s) = FRAME_BITMAP_SIZE" "region_ok addr len"
  shows "\<exists>s'. add_free_memory addr len s = Inr s' \<and> pmm_ok s' \<and>
    free_set s' = (free_set s \<union> {frame_of addr .. frame_of (addr + len)}) - {0} \<and>
    frame_bitmap_start s' = frame_of addr \<and> frame_bitmap_end s' = frame_of (addr + len) \<and>
    total_memory s' = total_memory s + len \<and> total_frames s' = total_frames s + (len div 4096 + 1) \<and>
    free_frames s' = free_frames s + total_frames s' + of_nat (Suc (frame_of (addr + len)) - frame_of addr) - 1"
proof -
  have u: "unat (addr + len) < 2147483648"
    using assms(2) region_unat [OF assms(2)] by (simp add: region_ok_def MAX_MEMORY_BYTES_def)
  then have "frame_of (addr + len) < 64 * FRAME_BITMAP_SIZE"
    unfolding frame_of_def FRAME_BITMAP_SIZE_eq pmm_consts by linarith
  moreover have "\<not> MAX_MEMORY_BYTES \<le> addr + len"
    using u by (simp add: word_le_nat_alt MAX_MEMORY_BYTES_def)
  ultimately show ?thesis
    using add_region_eq [OF assms(1), of addr len] by (simp add: add_free_memory_def frame_of_def)
qed

section \<open>Properties\<close>

text \<open>
  C19: \<^verbatim>\<open>alloc_frame\<close> is first fit: when a frame is free between the cursor and the end of the region it
  returns the address of the lowest such frame, page aligned, marks exactly that frame used and
  lowers the counter by one; when there is none it panics. It never indexes past the bitmap.
\<close>

theorem alloc_frame_first_fit:
  assumes "pmm_ok s"
  shows "(avail s = {} \<longrightarrow> alloc_frame s = Inl (Panic ''PMM: Out of physical memory'')) \<and>
    (avail s \<noteq> {} \<longrightarrow> (\<exists>p s'. alloc_frame s = Inr (p, s') \<and> pmm_ok s' \<and> page_aligned p \<and> frame_of p = Min (avail s) \<and>
       avail s' = avail s - {frame_of p} \<and> free_set s' = free_set s - {frame_of p} \<and> free_frames s' = free_frames s - 1))"
  using alloc_frame_none [OF assms] alloc_frame_some [OF assms] by blast

lemma ex_region:
  obtains s where "add_free_memory 0x100000 0x2000 (pmm_init pmm_zero) = Inr s" "pmm_ok s" "pmm_inv s {}" "avail s = {256, 257}"
proof -
  obtain s where s: "add_free_memory 0x100000 0x2000 (pmm_init pmm_zero) = Inr s" "pmm_ok s" "free_set s = {256 .. 258} - {0}"
      "frame_bitmap_start s = 256" "frame_bitmap_end s = 258"
    using add_free_memory_eq [of "pmm_init pmm_zero" "0x100000" "0x2000"] unfolding free_set_init
    by (auto simp: pmm_init_def region_ok_def MAX_MEMORY_BYTES_def frame_of_def pmm_consts)
  moreover have "avail s = {256, 257}" unfolding avail_def s(3-5) by auto
  moreover have "pmm_inv s {}" unfolding pmm_inv_def s(3) using s(2) by simp
  ultimately show ?thesis using that by blast
qed

theorem alloc_frame_first_fit_witness:
  "\<exists>s p s'. add_free_memory 0x100000 0x2000 (pmm_init pmm_zero) = Inr s \<and> alloc_frame s = Inr (p, s') \<and>
     frame_of p = 256 \<and> avail s' = {257}"
proof -
  obtain s where s: "add_free_memory 0x100000 0x2000 (pmm_init pmm_zero) = Inr s" "pmm_ok s" "avail s = {256, 257}"
    using ex_region by blast
  from alloc_frame_first_fit [OF s(2)] s(3) obtain p s' where "alloc_frame s = Inr (p, s')" "frame_of p = 256" "avail s' = {257}"
    by auto
  with s(1) show ?thesis by blast
qed

text \<open>
  C20: frames are never handed out twice. In any run of allocations and of frees by the holder, in
  any order, from a state where the frames handed out are marked used, the next frame allocated is
  not held by anyone and is not frame 0; and the difference between \<^verbatim>\<open>get_free_frames\<close> and the number
  of frames whose bit is free is the one the run started with.
\<close>

theorem pmm_exclusive_frames:
  assumes "pmm_inv s own" "pmm_run s own t own'" "alloc_frame t = Inr (p, t')"
  shows "frame_of p \<notin> own' \<and> frame_of p \<noteq> 0 \<and> page_aligned p \<and> pmm_inv t' (insert (frame_of p) own') \<and>
    free_frames t' - of_nat (card (free_set t')) = free_frames s - of_nat (card (free_set s))"
proof -
  have t: "pmm_inv t own'" using pmm_run_inv [OF assms(2,1)] by simp
  then have "page_aligned p" "frame_of p \<in> free_set t"
    using alloc_frame_inv [OF _ assms(3)] avail_bounds [of t "frame_of p"] by (auto simp: pmm_inv_def)
  with t pmm_run_inv [OF pmm_run_alloc [OF assms(2,3)] assms(1)] show ?thesis
    by (auto simp: pmm_inv_def)
qed

theorem pmm_exclusive_frames_witness:
  "\<exists>s t t' p q. pmm_inv s {} \<and> alloc_frame s = Inr (p, t) \<and> alloc_frame t = Inr (q, t') \<and> frame_of p \<noteq> frame_of q"
proof -
  obtain s where s: "pmm_ok s" "pmm_inv s {}" "avail s = {256, 257}" using ex_region by blast
  obtain p t where t: "alloc_frame s = Inr (p, t)" "pmm_ok t" "frame_of p = 256" "avail t = {257}"
    using alloc_frame_some [OF s(1)] s(3) by auto
  obtain q t' where q: "alloc_frame t = Inr (q, t')" using alloc_frame_some [OF t(2)] t(4) by auto
  from pmm_exclusive_frames [OF s(2) pmm_run_alloc [OF pmm_run_refl t(1)] q] have "frame_of p \<noteq> frame_of q" by auto
  with s(2) t(1) q show ?thesis by blast
qed

text \<open>
  A region below 2 GiB is registered whole: every frame of the region but frame 0 can be
  allocated afterwards, and as many calls as there are frames return distinct aligned frames of
  that region, while one call more panics. The regions registered before it are free in the
  bitmap, but no call can return a frame of theirs any more.
\<close>

theorem add_free_memory_region:
  assumes "length (frame_bitmap s) = FRAME_BITMAP_SIZE" "region_ok addr len"
  shows "\<exists>s'. add_free_memory addr len s = Inr s' \<and> avail s' = {frame_of addr ..< frame_of (addr + len)} - {0} \<and>
    free_set s' = (free_set s \<union> {frame_of addr .. frame_of (addr + len)}) - {0} \<and>
    (\<exists>ps t. alloc_many alloc_frame (card (avail s')) s' = Inr (ps, t) \<and> list_all page_aligned ps \<and>
       distinct (map frame_of ps) \<and> frame_of ` set ps \<subseteq> avail s' \<and> length ps = card (avail s')) \<and>
    (\<exists>m. alloc_many alloc_frame (card (avail s') + 1) s' = Inl (Panic m))"
proof -
  obtain s' where s: "add_free_memory addr len s = Inr s'" "pmm_ok s'"
      "free_set s' = (free_set s \<union> {frame_of addr .. frame_of (addr + len)}) - {0}"
      "frame_bitmap_start s' = frame_of addr" "frame_bitmap_end s' = frame_of (addr + len)"
    using add_free_memory_eq [OF assms] by blast
  have "avail s' = {frame_of addr ..< frame_of (addr + len)} - {0}"
    unfolding avail_def s(3-5) by auto
  with s pmm_frames.alloc_many_some [OF s(2) order_refl] pmm_frames.alloc_many_none [OF s(2), of "card (avail s') + 1"]
  show ?thesis by auto
qed

text \<open>
  A region that reaches the 2 GiB limit is not truncated safely: \<^verbatim>\<open>add_free_memory\<close> shortens it to
  end at the limit and then frees the frame at the limit too, whose bit is past the end of
  \<^verbatim>\<open>frame_bitmap\<close>; a region that starts at or above the limit is ignored.
\<close>

theorem add_free_memory_limit:
  assumes "length (frame_bitmap s) = FRAME_BITMAP_SIZE" "MAX_MEMORY_BYTES \<le> addr + len"
  shows "add_free_memory addr len s =
    (if addr < MAX_MEMORY_BYTES then Inl (Fault ''frame_bitmap index'') else Inr s)"
  using add_free_memory_truncates_fault [OF assms(1) _ assms(2)] assms(2)
  by (auto simp: add_free_memory_def)

text \<open>
  The counter of free frames overstates: after \<^verbatim>\<open>init\<close> and one region that does not hold frame
  0, \<^verbatim>\<open>get_free_frames\<close> is the number of free frames plus \<^verbatim>\<open>total_frames - 1\<close>, because
  \<^verbatim>\<open>add_free_memory\<close> adds the region's frames to a counter that \<^verbatim>\<open>set_frame_free\<close> also counts up.
\<close>

theorem free_frames_overcount:
  assumes "region_ok addr len" "0 < frame_of addr"
  shows "\<exists>s'. add_free_memory addr len (pmm_init s) = Inr s' \<and>
    free_frames s' = of_nat (card (free_set s')) + total_frames s' - 1"
proof -
  obtain s' where "add_free_memory addr len (pmm_init s) = Inr s'"
      "free_set s' = {frame_of addr .. frame_of (addr + len)} - {0}"
      "free_frames s' = total_frames s' + of_nat (Suc (frame_of (addr + len)) - frame_of addr) - 1"
    using add_free_memory_eq [OF _ assms(1), of "pmm_init s"] unfolding free_set_init by (auto simp: pmm_init_def)
  moreover have "{frame_of addr .. frame_of (addr + len)} - {0} = {frame_of addr .. frame_of (addr + len)}"
    using assms(2) by auto
  ultimately show ?thesis by simp
qed

end
