(* ===== verification/Vmm.thy ===== *)
theory Vmm
  imports Pmm
begin

unbundle bit_operations_syntax

text \<open>
  The virtual memory manager (\<^verbatim>\<open>arch/x64/memory/vmm.cpp\<close>, \<^verbatim>\<open>vmm.hpp\<close>): the four levels of page tables,
  mapping and unmapping, the cursors of the kernel's and the processes' heaps, and creating, copying and
  freeing the address space of a process.

  Physical memory is \<open>mem\<close>: for each frame number, the 512 words of 8 bytes of that frame. The entries
  of the tables are such words, with the bit-fields of \<^verbatim>\<open>PML4E\<close>, \<^verbatim>\<open>PDPTE\<close>, \<^verbatim>\<open>PDE\<close> and \<^verbatim>\<open>PTE\<close> at their
  positions. A pointer to a table is the 64-bit address the code has, in the direct map at
  \<open>hhdm_offset\<close>; following it subtracts the offset. An access past the 512 entries of a table is a
  \<open>Fault\<close>. An access through a page that the tables do not map (\<open>vload\<close>, \<open>vstore\<close>) is one too; the CPU's
  translation of such an address is the walk of \<^verbatim>\<open>find_pte\<close> from \<^verbatim>\<open>cr3\<close>, without a TLB (every change
  of an entry is followed by \<^verbatim>\<open>invlpg\<close> in the code). The spin lock that makes each operation one step
  is not part of the state.
\<close>

record Heap =
  pml4_idx :: nat
  pdpt_idx :: nat
  pd_idx :: nat
  pt_idx :: nat

type_synonym pmem = "nat \<Rightarrow> nat \<Rightarrow> u64"

record vmm =
  mem :: pmem
  vpmm :: pmm
  kernel_pml4 :: u64
  hhdm_offset :: u64
  kheap :: Heap
  cr3 :: u64
  cr4 :: u64

definition NUM_PT_ENTRIES :: nat where
  "NUM_PT_ENTRIES = 512"

definition PAGE_SIZE :: u64 where
  "PAGE_SIZE = 4096"

definition PAGE_MASK :: u64 where
  "PAGE_MASK = 0xFFF"

definition PAGE_WRITE :: u32 where "PAGE_WRITE = 0x02"
definition PAGE_USER :: u32 where "PAGE_USER = 0x04"
definition PAGE_CACHE_DISABLE :: u32 where "PAGE_CACHE_DISABLE = 0x08"
definition PAGE_GLOBAL :: u32 where "PAGE_GLOBAL = 0x10"
definition PAGE_NX :: u32 where "PAGE_NX = 0x20"

section \<open>Bit-fields\<close>

definition put_bit :: "nat \<Rightarrow> bool \<Rightarrow> u64 \<Rightarrow> u64" where
  "put_bit n b e = (if b then set_bit n e else unset_bit n e)"

text \<open>The 40 bits of the field \<^verbatim>\<open>addr\<close>, which start at bit 12 in all four kinds of entries.\<close>

definition ent_addr :: "u64 \<Rightarrow> u64" where
  "ent_addr e = take_bit 40 (drop_bit 12 e)"

definition put_addr :: "u64 \<Rightarrow> u64 \<Rightarrow> u64" where
  "put_addr a e = (e AND NOT (push_bit 12 (mask 40))) OR push_bit 12 (take_bit 40 a)"

definition has_flag :: "u32 \<Rightarrow> u32 \<Rightarrow> bool" where
  "has_flag flags f \<longleftrightarrow> flags AND f \<noteq> 0"

section \<open>Pointers and entries\<close>

definition hhdm_ptov :: "vmm \<Rightarrow> u64 \<Rightarrow> u64" where
  "hhdm_ptov s phys = phys + hhdm_offset s"

definition hhdm_vtop :: "vmm \<Rightarrow> u64 \<Rightarrow> u64" where
  "hhdm_vtop s virt = virt - hhdm_offset s"

definition get_kernel_pml4_index :: "vmm \<Rightarrow> nat" where
  "get_kernel_pml4_index s = unat (drop_bit 39 (hhdm_offset s) AND 0x1FF)"

text \<open>\<open>ldq s p i\<close> is \<open>p[i]\<close> and \<open>stq p i x\<close> is \<open>p[i] = x\<close> for a pointer \<open>p\<close> to a table.\<close>

definition ldq :: "vmm \<Rightarrow> u64 \<Rightarrow> nat \<Rightarrow> u64 kres" where
  "ldq s p i = (if i < NUM_PT_ENTRIES then Inr (mem s (frame_of (hhdm_vtop s p)) i) else Inl (Fault ''page table index''))"

definition stq :: "u64 \<Rightarrow> nat \<Rightarrow> u64 \<Rightarrow> vmm \<Rightarrow> vmm kres" where
  "stq p i x s = (if i < NUM_PT_ENTRIES
     then let t = frame_of (hhdm_vtop s p) in Inr (s\<lparr>mem := (mem s)(t := (mem s t)(i := x))\<rparr>)
     else Inl (Fault ''page table index''))"

definition get_pdpt :: "vmm \<Rightarrow> u64 \<Rightarrow> u64" where
  "get_pdpt s pml4e = hhdm_ptov s (push_bit 12 (ent_addr pml4e))"

definition get_pd :: "vmm \<Rightarrow> u64 \<Rightarrow> u64" where
  "get_pd s pdpte = hhdm_ptov s (push_bit 12 (ent_addr pdpte))"

definition get_pt :: "vmm \<Rightarrow> u64 \<Rightarrow> u64" where
  "get_pt s pde = hhdm_ptov s (push_bit 12 (ent_addr pde))"

definition get_pte_phys_frame :: "u64 \<Rightarrow> u64" where
  "get_pte_phys_frame pte = push_bit 12 (ent_addr pte)"

definition is_page_aligned :: "u64 \<Rightarrow> bool" where
  "is_page_aligned addr \<longleftrightarrow> addr AND PAGE_MASK = 0"

definition page_align :: "u64 \<Rightarrow> u64" where
  "page_align addr = addr AND NOT PAGE_MASK"

definition idx_of :: "nat \<Rightarrow> u64 \<Rightarrow> nat" where
  "idx_of n virt = unat (drop_bit n virt AND 0x1FF)"

definition kassert_not_null :: "u64 \<Rightarrow> unit kres" where
  "kassert_not_null p = kassert (p \<noteq> 0) ''null pointer''"

section \<open>Heap cursors\<close>

definition get_next_heap_virt_page :: "Heap \<Rightarrow> u64 kres" where
  "get_next_heap_virt_page heap =
    (let field = (\<lambda>i n. push_bit n (of_nat i AND 0x1FF) :: u64);
         virt_page = field (pml4_idx heap) 39 OR field (pdpt_idx heap) 30 OR field (pd_idx heap) 21 OR field (pt_idx heap) 12;
         virt_page = (if virt_page AND push_bit 47 1 \<noteq> 0 then virt_page OR push_bit 48 0xFFFF else virt_page)
     in kbind (kassert (is_page_aligned virt_page) ''is_page_aligned(virt_page)'') (\<lambda>_. Inr virt_page))"

definition advance_heap :: "Heap \<Rightarrow> Heap" where
  "advance_heap h =
    (let h = h\<lparr>pt_idx := pt_idx h + 1\<rparr>
     in if pt_idx h < NUM_PT_ENTRIES then h
        else let h = h\<lparr>pt_idx := 0, pd_idx := pd_idx h + 1\<rparr>
          in if pd_idx h < NUM_PT_ENTRIES then h
             else let h = h\<lparr>pd_idx := 0, pdpt_idx := pdpt_idx h + 1\<rparr>
               in if pdpt_idx h < NUM_PT_ENTRIES then h
                  else h\<lparr>pdpt_idx := 0, pml4_idx := pml4_idx h + 1\<rparr>)"

section \<open>Walking and filling the tables\<close>

text \<open>The result is the entry's place: the table it is in and its index.\<close>

definition find_pte :: "vmm \<Rightarrow> u64 \<Rightarrow> u64 \<Rightarrow> (u64 \<times> nat) option kres" where
  "find_pte s pml4 virt =
    kbind (ldq s pml4 (idx_of 39 virt)) (\<lambda>pml4e. if \<not> bit pml4e 0 then Inr None
    else let pdpt = get_pdpt s pml4e in
    kbind (ldq s pdpt (idx_of 30 virt)) (\<lambda>pdpte. if \<not> bit pdpte 0 then Inr None
    else let pd = get_pd s pdpte in
    kbind (ldq s pd (idx_of 21 virt)) (\<lambda>pde. if \<not> bit pde 0 then Inr None
    else let pt = get_pt s pde in
    kbind (ldq s pt (idx_of 12 virt)) (\<lambda>pte. if \<not> bit pte 0 then Inr None
    else Inr (Some (pt, idx_of 12 virt))))))"

definition populate_pml4e :: "u64 \<Rightarrow> u64 \<Rightarrow> u32 \<Rightarrow> u64 kres" where
  "populate_pml4e e phys_frame flags = kbind (kassert (is_page_aligned phys_frame) ''is_page_aligned(phys_frame)'') (\<lambda>_.
    Inr (put_addr (drop_bit 12 phys_frame) (put_bit 5 False (put_bit 4 False (put_bit 3 False
      (put_bit 2 (has_flag flags PAGE_USER) (put_bit 1 True (put_bit 0 True e))))))))"

definition populate_pdpte :: "u64 \<Rightarrow> u64 \<Rightarrow> u32 \<Rightarrow> u64 kres" where
  "populate_pdpte e phys_frame flags = kbind (kassert (is_page_aligned phys_frame) ''is_page_aligned(phys_frame)'') (\<lambda>_.
    Inr (put_addr (drop_bit 12 phys_frame) (put_bit 7 False (put_bit 5 False (put_bit 4 False (put_bit 3 False
      (put_bit 2 (has_flag flags PAGE_USER) (put_bit 1 True (put_bit 0 True e)))))))))"

definition populate_pde :: "u64 \<Rightarrow> u64 \<Rightarrow> u32 \<Rightarrow> u64 kres" where
  "populate_pde e phys_frame flags = kbind (kassert (is_page_aligned phys_frame) ''is_page_aligned(phys_frame)'') (\<lambda>_.
    Inr (put_addr (drop_bit 12 phys_frame) (put_bit 7 False (put_bit 5 False (put_bit 4 False (put_bit 3 False
      (put_bit 2 (has_flag flags PAGE_USER) (put_bit 1 True (put_bit 0 True e)))))))))"

definition populate_pte :: "u64 \<Rightarrow> u64 \<Rightarrow> u32 \<Rightarrow> u64 kres" where
  "populate_pte e phys_frame flags = kbind (kassert (is_page_aligned phys_frame) ''is_page_aligned(phys_frame)'') (\<lambda>_.
    Inr (put_bit 63 (has_flag flags PAGE_NX) (put_addr (drop_bit 12 phys_frame) (put_bit 8 (has_flag flags PAGE_GLOBAL)
      (put_bit 7 False (put_bit 6 False (put_bit 5 False (put_bit 4 (has_flag flags PAGE_CACHE_DISABLE) (put_bit 3 False
      (put_bit 2 (has_flag flags PAGE_USER) (put_bit 1 (has_flag flags PAGE_WRITE) (put_bit 0 True e))))))))))))"

text \<open>Returning the frame an entry points to; the four functions of the code differ in the entry's type.\<close>

definition free_pte :: "u64 \<Rightarrow> nat \<Rightarrow> vmm \<Rightarrow> vmm kres" where
  "free_pte p i s = kbind (ldq s p i) (\<lambda>e. kbind (free_frame (push_bit 12 (ent_addr e)) (vpmm s)) (\<lambda>m.
    stq p i (put_bit 0 False e) (s\<lparr>vpmm := m\<rparr>)))"

definition free_pde :: "u64 \<Rightarrow> nat \<Rightarrow> vmm \<Rightarrow> vmm kres" where
  "free_pde p i s = kbind (ldq s p i) (\<lambda>e. kbind (free_frame (push_bit 12 (ent_addr e)) (vpmm s)) (\<lambda>m.
    stq p i (put_bit 0 False e) (s\<lparr>vpmm := m\<rparr>)))"

definition free_pdpte :: "u64 \<Rightarrow> nat \<Rightarrow> vmm \<Rightarrow> vmm kres" where
  "free_pdpte p i s = kbind (ldq s p i) (\<lambda>e. kbind (free_frame (push_bit 12 (ent_addr e)) (vpmm s)) (\<lambda>m.
    stq p i (put_bit 0 False e) (s\<lparr>vpmm := m\<rparr>)))"

definition free_pml4e :: "u64 \<Rightarrow> nat \<Rightarrow> vmm \<Rightarrow> vmm kres" where
  "free_pml4e p i s = kbind (ldq s p i) (\<lambda>e. kbind (free_frame (push_bit 12 (ent_addr e)) (vpmm s)) (\<lambda>m.
    stq p i (put_bit 0 False e) (s\<lparr>vpmm := m\<rparr>)))"

definition zero_page :: "u64 \<Rightarrow> vmm \<Rightarrow> vmm kres" where
  "zero_page virt s = kbind (kassert_not_null virt) (\<lambda>_. kfor 0 NUM_PT_ENTRIES (\<lambda>i. stq virt i 0) s)"

definition ensure_pdpte_present :: "u64 \<Rightarrow> nat \<Rightarrow> u32 \<Rightarrow> vmm \<Rightarrow> (u64 \<times> vmm) kres" where
  "ensure_pdpte_present p i flags s = kbind (ldq s p i) (\<lambda>e.
     kbind (if \<not> bit e 0
       then kbind (alloc_frame (vpmm s)) (\<lambda>(phys_frame, m).
            kbind (populate_pml4e e phys_frame flags) (\<lambda>e'.
            kbind (stq p i e' (s\<lparr>vpmm := m\<rparr>)) (zero_page (hhdm_ptov s phys_frame))))
       else Inr s) (\<lambda>s1.
     kbind (ldq s1 p i) (\<lambda>e1. Inr (get_pdpt s1 e1, s1))))"

definition ensure_pde_present :: "u64 \<Rightarrow> nat \<Rightarrow> u32 \<Rightarrow> vmm \<Rightarrow> (u64 \<times> vmm) kres" where
  "ensure_pde_present p i flags s = kbind (ldq s p i) (\<lambda>e.
     kbind (if \<not> bit e 0
       then kbind (alloc_frame (vpmm s)) (\<lambda>(phys_frame, m).
            kbind (populate_pdpte e phys_frame flags) (\<lambda>e'.
            kbind (stq p i e' (s\<lparr>vpmm := m\<rparr>)) (zero_page (hhdm_ptov s phys_frame))))
       else Inr s) (\<lambda>s1.
     kbind (ldq s1 p i) (\<lambda>e1. Inr (get_pd s1 e1, s1))))"

definition ensure_pte_present :: "u64 \<Rightarrow> nat \<Rightarrow> u32 \<Rightarrow> vmm \<Rightarrow> (u64 \<times> vmm) kres" where
  "ensure_pte_present p i flags s = kbind (ldq s p i) (\<lambda>e.
     kbind (if \<not> bit e 0
       then kbind (alloc_frame (vpmm s)) (\<lambda>(phys_frame, m).
            kbind (populate_pde e phys_frame flags) (\<lambda>e'.
            kbind (stq p i e' (s\<lparr>vpmm := m\<rparr>)) (zero_page (hhdm_ptov s phys_frame))))
       else Inr s) (\<lambda>s1.
     kbind (ldq s1 p i) (\<lambda>e1. Inr (get_pt s1 e1, s1))))"

section \<open>Mapping and unmapping\<close>

definition map_heap_page :: "u64 \<Rightarrow> Heap \<Rightarrow> u64 \<Rightarrow> u32 \<Rightarrow> vmm \<Rightarrow> (u64 \<times> Heap \<times> vmm) kres" where
  "map_heap_page pml4 heap phys_addr flags s =
    kbind (kassert_not_null pml4) (\<lambda>_.
    let phys_frame = page_align phys_addr; phys_offset = phys_addr AND PAGE_MASK in
    kbind (get_next_heap_virt_page heap) (\<lambda>virt_page.
    kbind (ensure_pdpte_present pml4 (pml4_idx heap) flags s) (\<lambda>(pdpt, s1).
    kbind (ensure_pde_present pdpt (pdpt_idx heap) flags s1) (\<lambda>(pd, s2).
    kbind (ensure_pte_present pd (pd_idx heap) flags s2) (\<lambda>(pt, s3).
    kbind (ldq s3 pt (pt_idx heap)) (\<lambda>pte.
    kbind (populate_pte pte phys_frame flags) (\<lambda>pte'.
    kbind (stq pt (pt_idx heap) pte' s3) (\<lambda>s4.
      Inr (virt_page + phys_offset, advance_heap heap, s4)))))))))"

definition map_phys :: "u64 \<Rightarrow> u32 \<Rightarrow> vmm \<Rightarrow> (u64 \<times> vmm) kres" where
  "map_phys phys_addr flags s =
    kbind (map_heap_page (kernel_pml4 s) (kheap s) phys_addr (flags OR PAGE_WRITE OR PAGE_GLOBAL) s) (\<lambda>(v, h, s1).
      Inr (v, s1\<lparr>kheap := h\<rparr>))"

definition map_page_to_frame :: "u64 \<Rightarrow> u64 \<Rightarrow> u64 \<Rightarrow> u32 \<Rightarrow> vmm \<Rightarrow> vmm kres" where
  "map_page_to_frame pml4 virt_page phys_frame flags s =
    kbind (kassert_not_null pml4) (\<lambda>_.
    kbind (kassert (is_page_aligned virt_page) ''is_page_aligned(virt_page)'') (\<lambda>_.
    kbind (kassert (is_page_aligned phys_frame) ''is_page_aligned(phys_frame)'') (\<lambda>_.
    kbind (ensure_pdpte_present pml4 (idx_of 39 virt_page) flags s) (\<lambda>(pdpt, s1).
    kbind (ensure_pde_present pdpt (idx_of 30 virt_page) flags s1) (\<lambda>(pd, s2).
    kbind (ensure_pte_present pd (idx_of 21 virt_page) flags s2) (\<lambda>(pt, s3).
    kbind (ldq s3 pt (idx_of 12 virt_page)) (\<lambda>pte.
    kbind (populate_pte pte phys_frame flags) (\<lambda>pte'.
      stq pt (idx_of 12 virt_page) pte' s3))))))))"

definition map_pages :: "u64 \<Rightarrow> u64 \<Rightarrow> u64 \<Rightarrow> u32 \<Rightarrow> vmm \<Rightarrow> vmm kres" where
  "map_pages pml4 virt_addr bytes flags s =
    kbind (kassert_not_null pml4) (\<lambda>_.
    kbind (kassert (bytes > 0) ''bytes > 0'') (\<lambda>_.
    let page_start = virt_addr AND NOT (PAGE_SIZE - 1);
        page_end = (virt_addr + bytes + PAGE_SIZE - 1) AND NOT (PAGE_SIZE - 1);
        num_pages = (page_end - page_start) div PAGE_SIZE in
    kbind (kassert (is_page_aligned page_start) ''is_page_aligned(page_start)'') (\<lambda>_.
    kbind (kassert (is_page_aligned page_end) ''is_page_aligned(page_end)'') (\<lambda>_.
    kbind (kassert (page_start < page_end) ''page_start < page_end'') (\<lambda>_.
    kbind (kassert (num_pages > 0) ''num_pages > 0'') (\<lambda>_.
      kfor 0 (unat num_pages) (\<lambda>page s.
        kbind (alloc_frame (vpmm s)) (\<lambda>(phys_frame, m).
          map_page_to_frame pml4 (page_start + of_nat page * PAGE_SIZE) phys_frame flags (s\<lparr>vpmm := m\<rparr>))) s))))))"

definition map_user_pages :: "u64 \<Rightarrow> u64 \<Rightarrow> u64 \<Rightarrow> vmm \<Rightarrow> vmm kres" where
  "map_user_pages pml4 virt bytes s = map_pages pml4 virt bytes (PAGE_USER OR PAGE_WRITE) s"

definition unmap_page :: "u64 \<Rightarrow> u64 \<Rightarrow> vmm \<Rightarrow> vmm kres" where
  "unmap_page pml4 virt_page s =
    kbind (kassert_not_null pml4) (\<lambda>_.
    kbind (kassert (is_page_aligned virt_page) ''is_page_aligned(virt_page)'') (\<lambda>_.
    kbind (find_pte s pml4 virt_page) (\<lambda>r. case r of None \<Rightarrow> Inr s
      | Some (pt, i) \<Rightarrow> kbind (ldq s pt i) (\<lambda>pte.
          kbind (free_frame (get_pte_phys_frame pte) (vpmm s)) (\<lambda>m. stq pt i 0 (s\<lparr>vpmm := m\<rparr>))))))"

definition unmap_mem_at :: "u64 \<Rightarrow> u64 \<Rightarrow> u64 \<Rightarrow> vmm \<Rightarrow> vmm kres" where
  "unmap_mem_at pml4 virt_page num_pages s = kbind (kassert_not_null pml4) (\<lambda>_.
     kfor 0 (unat num_pages) (\<lambda>page. unmap_page pml4 (virt_page + of_nat page * PAGE_SIZE)) s)"

section \<open>Kernel memory\<close>

text \<open>Reading and writing a word through the page tables that \<^verbatim>\<open>cr3\<close> points to.\<close>

definition vload :: "vmm \<Rightarrow> u64 \<Rightarrow> u64 kres" where
  "vload s virt = kbind (find_pte s (hhdm_ptov s (cr3 s)) virt) (\<lambda>r. case r of None \<Rightarrow> Inl (Fault ''page fault'')
     | Some (pt, i) \<Rightarrow> kbind (ldq s pt i) (\<lambda>pte.
         Inr (mem s (frame_of (get_pte_phys_frame pte)) (unat (drop_bit 3 (virt AND PAGE_MASK))))))"

definition vstore :: "u64 \<Rightarrow> u64 \<Rightarrow> vmm \<Rightarrow> vmm kres" where
  "vstore virt x s = kbind (find_pte s (hhdm_ptov s (cr3 s)) virt) (\<lambda>r. case r of None \<Rightarrow> Inl (Fault ''page fault'')
     | Some (pt, i) \<Rightarrow> kbind (ldq s pt i) (\<lambda>pte. if \<not> bit pte 1 then Inl (Fault ''page fault'')
         else let f = frame_of (get_pte_phys_frame pte)
           in Inr (s\<lparr>mem := (mem s)(f := (mem s f)(unat (drop_bit 3 (virt AND PAGE_MASK)) := x))\<rparr>)))"

definition alloc_kernel_page :: "vmm \<Rightarrow> (u64 \<times> vmm) kres" where
  "alloc_kernel_page s = kbind (alloc_frame (vpmm s)) (\<lambda>(phys_frame, m). map_phys phys_frame 0 (s\<lparr>vpmm := m\<rparr>))"

definition free_kernel_page :: "u64 \<Rightarrow> vmm \<Rightarrow> vmm kres" where
  "free_kernel_page virt_addr s = (if virt_addr = 0 then Inr s
     else unmap_page (kernel_pml4 s) (page_align virt_addr) s)"

definition map_heap_pages :: "u64 \<Rightarrow> Heap \<Rightarrow> u64 \<Rightarrow> u32 \<Rightarrow> vmm \<Rightarrow> (u64 \<times> Heap \<times> vmm) kres" where
  "map_heap_pages pml4 heap bytes flags s =
    kbind (kassert_not_null pml4) (\<lambda>_.
    let total = bytes + 8; num_pages = (total + PAGE_SIZE - 1) div PAGE_SIZE in
    kbind (kfor 0 (unat num_pages) (\<lambda>_ (first_page, h, s).
        kbind (alloc_frame (vpmm s)) (\<lambda>(phys_frame, m).
        kbind (map_heap_page pml4 h phys_frame flags (s\<lparr>vpmm := m\<rparr>)) (\<lambda>(virt_page, h', s').
          Inr (if first_page = 0 then virt_page else first_page, h', s')))) (0, heap, s)) (\<lambda>(first_page, h, s1).
    kbind (kassert_not_null first_page) (\<lambda>_.
    kbind (vstore first_page num_pages s1) (\<lambda>s2. Inr (first_page + 8, h, s2)))))"

definition alloc_kernel :: "u64 \<Rightarrow> vmm \<Rightarrow> (u64 \<times> vmm) kres" where
  "alloc_kernel bytes s =
    kbind (map_heap_pages (kernel_pml4 s) (kheap s) bytes (PAGE_WRITE OR PAGE_GLOBAL) s) (\<lambda>(v, h, s1).
      Inr (v, s1\<lparr>kheap := h\<rparr>))"

definition free_kernel :: "u64 \<Rightarrow> vmm \<Rightarrow> vmm kres" where
  "free_kernel virt_addr s = (if virt_addr = 0 then Inr s
     else let virt_page = page_align virt_addr in kbind (vload s virt_page) (\<lambda>num_pages.
       if num_pages = 0 then Inr s
       else kfor 0 (unat num_pages) (\<lambda>page s. unmap_page (kernel_pml4 s) (virt_page + of_nat page * PAGE_SIZE) s) s))"

section \<open>Address spaces\<close>

definition init_pml4 :: "vmm \<Rightarrow> vmm" where
  "init_pml4 s = s\<lparr>kernel_pml4 := hhdm_ptov s (page_align (cr3 s))\<rparr>"

text \<open>The address \<^verbatim>\<open>virt_page\<close> that the code computes at the end is not used.\<close>

definition init_kheap :: "vmm \<Rightarrow> vmm kres" where
  "init_kheap s =
    (let h = \<lparr>pml4_idx = get_kernel_pml4_index s + 1, pdpt_idx = 0, pd_idx = 0, pt_idx = 0\<rparr>; s = s\<lparr>kheap := h\<rparr> in
     kbind (ensure_pdpte_present (kernel_pml4 s) (pml4_idx h) 0 s) (\<lambda>(pdpt, s1).
     kbind (ensure_pde_present pdpt (pdpt_idx h) 0 s1) (\<lambda>(pd, s2).
     kbind (ensure_pte_present pd (pd_idx h) 0 s2) (\<lambda>(pt, s3).
     kbind (kassert_not_null pt) (\<lambda>_. Inr s3)))))"

definition switch_pml4 :: "u64 \<Rightarrow> vmm \<Rightarrow> vmm kres" where
  "switch_pml4 pml4 s = kbind (kassert_not_null pml4) (\<lambda>_. Inr (s\<lparr>cr3 := hhdm_vtop s pml4\<rparr>))"

definition init_cr4 :: "vmm \<Rightarrow> vmm kres" where
  "init_cr4 s = (let s = s\<lparr>cr4 := cr4 s OR (push_bit 7 1 OR push_bit 11 1 OR push_bit 20 1 OR push_bit 21 1)\<rparr>
     in switch_pml4 (kernel_pml4 s) s)"

definition vmm_init :: "u64 \<Rightarrow> vmm \<Rightarrow> vmm kres" where
  "vmm_init offset s = kbind (init_kheap (init_pml4 (s\<lparr>hhdm_offset := offset\<rparr>))) init_cr4"

definition create_user_pml4 :: "vmm \<Rightarrow> (u64 \<times> vmm) kres" where
  "create_user_pml4 s = kbind (alloc_frame (vpmm s)) (\<lambda>(phys, m).
     let new_pml4 = hhdm_ptov s phys in
     kbind (kassert_not_null new_pml4) (\<lambda>_.
     kbind (zero_page new_pml4 (s\<lparr>vpmm := m\<rparr>)) (\<lambda>s1.
     kbind (kfor (get_kernel_pml4_index s1) NUM_PT_ENTRIES (\<lambda>i s.
       kbind (ldq s (kernel_pml4 s) i) (\<lambda>e. stq new_pml4 i e s)) s1) (\<lambda>s2. Inr (new_pml4, s2)))))"

definition free_pt_loop :: "u64 \<Rightarrow> vmm \<Rightarrow> vmm kres" where
  "free_pt_loop pt = kfor 0 NUM_PT_ENTRIES (\<lambda>i s. kbind (ldq s pt i) (\<lambda>e.
     if \<not> bit e 0 then Inr s else free_pte pt i s))"

definition free_pd_loop :: "u64 \<Rightarrow> vmm \<Rightarrow> vmm kres" where
  "free_pd_loop pd = kfor 0 NUM_PT_ENTRIES (\<lambda>i s. kbind (ldq s pd i) (\<lambda>e.
     if \<not> bit e 0 then Inr s else kbind (free_pt_loop (get_pt s e) s) (free_pde pd i)))"

definition free_pdpt_loop :: "u64 \<Rightarrow> vmm \<Rightarrow> vmm kres" where
  "free_pdpt_loop pdpt = kfor 0 NUM_PT_ENTRIES (\<lambda>i s. kbind (ldq s pdpt i) (\<lambda>e.
     if \<not> bit e 0 then Inr s else kbind (free_pd_loop (get_pd s e) s) (free_pdpte pdpt i)))"

definition free_user_pml4 :: "u64 \<Rightarrow> vmm \<Rightarrow> vmm kres" where
  "free_user_pml4 pml4 s = (if pml4 = kernel_pml4 s then Inr s
     else kbind (kfor 0 (get_kernel_pml4_index s) (\<lambda>i s. kbind (ldq s pml4 i) (\<lambda>e.
            if \<not> bit e 0 then Inr s else kbind (free_pdpt_loop (get_pdpt s e) s) (free_pml4e pml4 i))) s) (\<lambda>s1.
          kbind (zero_page pml4 s1) (\<lambda>s2.
          kbind (free_frame (hhdm_vtop s2 pml4) (vpmm s2)) (\<lambda>m. Inr (s2\<lparr>vpmm := m\<rparr>)))))"

text \<open>\<^verbatim>\<open>memcpy(to, from, PAGE_SIZE)\<close> between two pages of the direct map, word by word.\<close>

definition memcpy_page :: "u64 \<Rightarrow> u64 \<Rightarrow> vmm \<Rightarrow> vmm kres" where
  "memcpy_page to from = kfor 0 NUM_PT_ENTRIES (\<lambda>i s. kbind (ldq s from i) (\<lambda>x. stq to i x s))"

definition clone_pt_loop :: "u64 \<Rightarrow> u64 \<Rightarrow> vmm \<Rightarrow> vmm kres" where
  "clone_pt_loop new_pt pt = kfor 0 NUM_PT_ENTRIES (\<lambda>i s. kbind (ldq s pt i) (\<lambda>e.
     if \<not> bit e 0 then Inr s
     else kbind (alloc_frame (vpmm s)) (\<lambda>(phys_frame, m).
       kbind (stq new_pt i (put_addr (drop_bit 12 phys_frame) e) (s\<lparr>vpmm := m\<rparr>)) (\<lambda>s1.
       kbind (ldq s1 pt i) (\<lambda>from. kbind (ldq s1 new_pt i) (\<lambda>to.
         memcpy_page (hhdm_ptov s1 (push_bit 12 (ent_addr to))) (hhdm_ptov s1 (push_bit 12 (ent_addr from))) s1))))))"

definition clone_pd_loop :: "u64 \<Rightarrow> u64 \<Rightarrow> vmm \<Rightarrow> vmm kres" where
  "clone_pd_loop new_pd pd = kfor 0 NUM_PT_ENTRIES (\<lambda>i s. kbind (ldq s pd i) (\<lambda>e.
     if \<not> bit e 0 then Inr s
     else kbind (ensure_pte_present new_pd i PAGE_USER s) (\<lambda>(new_pt, s1).
       kbind (ldq s1 pd i) (\<lambda>e1. clone_pt_loop new_pt (get_pt s1 e1) s1))))"

definition clone_pdpt_loop :: "u64 \<Rightarrow> u64 \<Rightarrow> vmm \<Rightarrow> vmm kres" where
  "clone_pdpt_loop new_pdpt pdpt = kfor 0 NUM_PT_ENTRIES (\<lambda>i s. kbind (ldq s pdpt i) (\<lambda>e.
     if \<not> bit e 0 then Inr s
     else kbind (ensure_pde_present new_pdpt i PAGE_USER s) (\<lambda>(new_pd, s1).
       kbind (ldq s1 pdpt i) (\<lambda>e1. clone_pd_loop new_pd (get_pd s1 e1) s1))))"

definition clone_user_pml4 :: "u64 \<Rightarrow> vmm \<Rightarrow> (u64 \<times> vmm) kres" where
  "clone_user_pml4 pml4 s = kbind (alloc_frame (vpmm s)) (\<lambda>(phys, m).
     let new_pml4 = hhdm_ptov s phys in
     kbind (kassert_not_null new_pml4) (\<lambda>_.
     kbind (zero_page new_pml4 (s\<lparr>vpmm := m\<rparr>)) (\<lambda>s1.
     let kernel_start = get_kernel_pml4_index s1 in
     kbind (kfor kernel_start NUM_PT_ENTRIES (\<lambda>i s. kbind (ldq s pml4 i) (\<lambda>e. stq new_pml4 i e s)) s1) (\<lambda>s2.
     kbind (kfor 0 kernel_start (\<lambda>i s. kbind (ldq s pml4 i) (\<lambda>e.
       if \<not> bit e 0 then Inr s
       else kbind (ensure_pdpte_present new_pml4 i PAGE_USER s) (\<lambda>(new_pdpt, s1).
         kbind (ldq s1 pml4 i) (\<lambda>e1. clone_pdpt_loop new_pdpt (get_pdpt s1 e1) s1)))) s2) (\<lambda>s3. Inr (new_pml4, s3))))))"

definition create_user_heap :: "u64 \<Rightarrow> vmm \<Rightarrow> (Heap \<times> vmm) kres" where
  "create_user_heap pml4 s =
    (let h = \<lparr>pml4_idx = 1, pdpt_idx = 0, pd_idx = 0, pt_idx = 0\<rparr> in
     kbind (ensure_pdpte_present pml4 (pml4_idx h) PAGE_USER s) (\<lambda>(pdpt, s1).
     kbind (ensure_pde_present pdpt (pdpt_idx h) PAGE_USER s1) (\<lambda>(pd, s2).
     kbind (ensure_pte_present pd (pd_idx h) PAGE_USER s2) (\<lambda>(pt, s3).
     kbind (kassert_not_null pt) (\<lambda>_. Inr (h, s3))))))"

definition clone_user_heap :: "Heap \<Rightarrow> u64 \<Rightarrow> vmm \<Rightarrow> (Heap \<times> vmm) kres" where
  "clone_user_heap existing pml4 s =
    (let h = \<lparr>pml4_idx = pml4_idx existing, pdpt_idx = pdpt_idx existing, pd_idx = pd_idx existing, pt_idx = pt_idx existing\<rparr> in
     kbind (ensure_pdpte_present pml4 (pml4_idx h) PAGE_USER s) (\<lambda>(pdpt, s1).
     kbind (ensure_pde_present pdpt (pdpt_idx h) PAGE_USER s1) (\<lambda>(pd, s2).
     kbind (ensure_pte_present pd (pd_idx h) PAGE_USER s2) (\<lambda>(pt, s3).
     kbind (kassert_not_null pt) (\<lambda>_. Inr (h, s3))))))"

definition user_max_addr :: u64 where
  "user_max_addr = 0x0000800000000000"

definition is_user_ptr :: "u64 \<Rightarrow> bool" where
  "is_user_ptr addr \<longleftrightarrow> addr < user_max_addr"

definition is_user_addr :: "u64 \<Rightarrow> u64 \<Rightarrow> bool" where
  "is_user_addr addr bytes \<longleftrightarrow> addr < user_max_addr \<and> bytes \<le> user_max_addr - addr"

end
