(* ===== verification/Vmm_Tree.thy ===== *)
theory Vmm_Tree
  imports Vmm
begin

unbundle bit_operations_syntax

text \<open>
  Page tables as trees. A table is the root of a tree of frames: \<open>frames k I m t\<close> are the frames reached
  from table \<open>t\<close> through \<open>k\<close> levels of present entries, where the entries of \<open>t\<close> itself are those with an index
  in \<open>I\<close> (the part of a PML4 that belongs to one owner). \<open>tree k I m t\<close> says that no frame is reached in
  two ways. The central lemma is what one write to an entry does to such a tree.
\<close>

section \<open>Bit-field lemmas\<close>

lemma NUM_PT_ENTRIES_eq [simp]: "NUM_PT_ENTRIES = 512"
  by (simp add: NUM_PT_ENTRIES_def)

lemma bit_put_bit [simp]: "bit (put_bit n b e) k = (if n = k \<and> k < 64 then b else bit e k)"
  by (auto simp: put_bit_def bit_simps dest: bit_imp_le_length)

lemma bit_put_addr: "bit (put_addr a e) k = (if 12 \<le> k \<and> k < 52 then bit a (k - 12) else bit e k)"
  by (auto simp: put_addr_def bit_simps dest: bit_imp_le_length)

lemma bit_put_addr_low [simp]: "k < 12 \<Longrightarrow> bit (put_addr a e) k = bit e k" "51 < k \<Longrightarrow> bit (put_addr a e) k = bit e k"
  by (simp_all add: bit_put_addr)

lemma ent_addr_put_bit [simp]: "n < 12 \<or> 51 < n \<Longrightarrow> ent_addr (put_bit n b e) = ent_addr e"
  by (rule bit_word_eqI) (auto simp: ent_addr_def bit_simps)

lemma ent_addr_put_addr [simp]: "ent_addr (put_addr a e) = take_bit 40 a"
  by (rule bit_word_eqI) (auto simp: ent_addr_def bit_put_addr bit_simps)

definition ent_frame :: "u64 \<Rightarrow> nat" where
  "ent_frame e = unat (ent_addr e)"

lemma unat_drop_bit_12: "unat (drop_bit 12 (p :: u64)) = frame_of p"
  by (simp add: frame_of_def FRAME_SIZE_def drop_bit_eq_div unat_div)

lemma ent_frame_small: "ent_frame e < 2 ^ 40"
  unfolding ent_frame_def ent_addr_def unsigned_take_bit_eq by (rule take_bit_nat_less_exp)

lemma frame_of_push: "frame_of (push_bit 12 (ent_addr e)) = ent_frame e"
proof -
  have "unat (ent_addr e) < 2 ^ 40" using ent_frame_small [of e] by (simp add: ent_frame_def)
  then have "unat (push_bit 12 (ent_addr e)) = unat (ent_addr e) * 4096"
    by (simp add: push_bit_eq_mult unat_word_ariths)
  then show ?thesis by (simp add: frame_of_def FRAME_SIZE_def ent_frame_def)
qed

lemma ent_frame_put [simp]:
  "n < 12 \<or> 51 < n \<Longrightarrow> ent_frame (put_bit n b e) = ent_frame e"
  "frame_of p < 2 ^ 40 \<Longrightarrow> ent_frame (put_addr (drop_bit 12 p) e) = frame_of p"
  by (simp_all add: ent_frame_def unsigned_take_bit_eq unat_drop_bit_12 take_bit_nat_eq_self)

lemma is_page_aligned_iff: "is_page_aligned p \<longleftrightarrow> page_aligned p"
proof -
  have "p AND PAGE_MASK = take_bit 12 p" by (simp add: PAGE_MASK_def take_bit_eq_mask mask_numeral mask_eq_exp_minus_1)
  moreover have "take_bit 12 p = 0 \<longleftrightarrow> unat p mod 4096 = 0"
    by (simp add: unat_eq_0 [symmetric] take_bit_eq_mod unat_mod del: unat_eq_0)
  ultimately show ?thesis by (simp add: is_page_aligned_def page_aligned_def FRAME_SIZE_def)
qed

section \<open>Trees of frames\<close>

definition present :: "pmem \<Rightarrow> nat \<Rightarrow> nat \<Rightarrow> bool" where
  "present m t i \<longleftrightarrow> bit (m t i) 0"

definition child :: "pmem \<Rightarrow> nat \<Rightarrow> nat \<Rightarrow> nat" where
  "child m t i = ent_frame (m t i)"

primrec frames :: "nat \<Rightarrow> nat set \<Rightarrow> pmem \<Rightarrow> nat \<Rightarrow> nat set" where
  "frames 0 I m t = {t}"
| "frames (Suc k) I m t = insert t (\<Union>i \<in> {i \<in> I. present m t i}. frames k {..<512} m (child m t i))"

primrec tree :: "nat \<Rightarrow> nat set \<Rightarrow> pmem \<Rightarrow> nat \<Rightarrow> bool" where
  "tree 0 I m t \<longleftrightarrow> True"
| "tree (Suc k) I m t \<longleftrightarrow> (\<forall>i \<in> I. present m t i \<longrightarrow> tree k {..<512} m (child m t i) \<and> t \<notin> frames k {..<512} m (child m t i) \<and>
     (\<forall>j \<in> I. present m t j \<and> i \<noteq> j \<longrightarrow> frames k {..<512} m (child m t i) \<inter> frames k {..<512} m (child m t j) = {}))"

primrec walk :: "pmem \<Rightarrow> nat \<Rightarrow> nat list \<Rightarrow> nat option" where
  "walk m t [] = Some t"
| "walk m t (i # p) = (if present m t i then walk m (child m t i) p else None)"

text \<open>A path of indices that starts in \<open>I\<close>.\<close>

definition path_in :: "nat set \<Rightarrow> nat list \<Rightarrow> bool" where
  "path_in I p \<longleftrightarrow> (case p of [] \<Rightarrow> True | i # is \<Rightarrow> i \<in> I \<and> set is \<subseteq> {..<512})"

lemma path_in_simps [simp]: "path_in I []" "path_in I (i # p) \<longleftrightarrow> i \<in> I \<and> path_in {..<512} p"
  by (auto simp: path_in_def split: list.splits)

lemma root_in_frames [simp, intro]: "t \<in> frames k I m t"
  by (cases k) simp_all

lemma child_frames_sub: "i \<in> I \<Longrightarrow> present m t i \<Longrightarrow> frames k {..<512} m (child m t i) \<subseteq> frames (Suc k) I m t"
  by auto

lemma frames_mono_level: "frames k I m t \<subseteq> frames (Suc k) I m t"
proof (induction k arbitrary: I t)
  case (Suc k)
  show ?case using Suc.IH [of "{..<512}"] by (subst (1 2) frames.simps(2)) blast
qed simp

lemma tree_SucI:
  assumes "\<And>i. i \<in> I \<Longrightarrow> present m t i \<Longrightarrow> tree k {..<512} m (child m t i)"
    and "\<And>i. i \<in> I \<Longrightarrow> present m t i \<Longrightarrow> t \<notin> frames k {..<512} m (child m t i)"
    and "\<And>i j. i \<in> I \<Longrightarrow> present m t i \<Longrightarrow> j \<in> I \<Longrightarrow> present m t j \<Longrightarrow> i \<noteq> j \<Longrightarrow>
      frames k {..<512} m (child m t i) \<inter> frames k {..<512} m (child m t j) = {}"
  shows "tree (Suc k) I m t"
  using assms by simp

lemma tree_SucD:
  assumes "tree (Suc k) I m t" "i \<in> I" "present m t i"
  shows "tree k {..<512} m (child m t i)" "t \<notin> frames k {..<512} m (child m t i)"
    "j \<in> I \<Longrightarrow> present m t j \<Longrightarrow> i \<noteq> j \<Longrightarrow> frames k {..<512} m (child m t i) \<inter> frames k {..<512} m (child m t j) = {}"
  using assms by simp_all

declare tree.simps(2) [simp del]

lemma tree_lower: "tree (Suc k) I m t \<Longrightarrow> tree k I m t"
proof (induction k arbitrary: I t)
  case (Suc k)
  have sub: "frames k {..<512} m c \<subseteq> frames (Suc k) {..<512} m c" for c by (rule frames_mono_level)
  show ?case
  proof (rule tree_SucI)
    fix i assume i: "i \<in> I" "present m t i"
    note d = tree_SucD [OF Suc.prems i]
    show "tree k {..<512} m (child m t i)" using Suc.IH d(1) .
    show "t \<notin> frames k {..<512} m (child m t i)" using d(2) sub by blast
    show "frames k {..<512} m (child m t i) \<inter> frames k {..<512} m (child m t j) = {}" if "j \<in> I" "present m t j" "i \<noteq> j" for j
      using d(3) [OF that] sub [of "child m t i"] sub [of "child m t j"] by blast
  qed
qed simp

lemma walk_in_frames: "walk m t p = Some u \<Longrightarrow> path_in I p \<Longrightarrow> length p \<le> k \<Longrightarrow> u \<in> frames k I m t"
proof (induction p arbitrary: I t k)
  case (Cons i p)
  then obtain k' where "k = Suc k'" by (cases k) auto
  with Cons show ?case by (auto split: if_splits)
qed auto

lemma walk_append: "walk m t (p @ q) = (case walk m t p of None \<Rightarrow> None | Some u \<Rightarrow> walk m u q)"
  by (induction p arbitrary: t) auto

text \<open>The tree only depends on the tables in it, not on what is in its leaves.\<close>

lemma frames_cong: "(\<And>u. u \<in> frames k I m t \<Longrightarrow> m' u = m u) \<Longrightarrow> frames (Suc k) I m' t = frames (Suc k) I m t"
proof (induction k arbitrary: I t)
  case 0
  then show ?case by (simp add: present_def child_def)
next
  case (Suc k)
  have t: "m' t = m t" using Suc.prems by simp
  have "frames (Suc k) {..<512} m' (child m t i) = frames (Suc k) {..<512} m (child m t i)" if "i \<in> I" "present m t i" for i
    by (rule Suc.IH) (rule Suc.prems, rule subsetD [OF child_frames_sub [OF that]])
  with t show ?case by (subst (1 2) frames.simps(2)) (simp add: present_def child_def)
qed

lemma frames_cong': "(\<And>u. u \<in> frames k I m t \<Longrightarrow> m' u = m u) \<Longrightarrow> frames k I m' t = frames k I m t"
proof (cases k)
  case (Suc n)
  assume a: "\<And>u. u \<in> frames k I m t \<Longrightarrow> m' u = m u"
  show ?thesis unfolding Suc by (rule frames_cong) (rule a, unfold Suc, rule subsetD [OF frames_mono_level])
qed simp

lemma tree_cong: "(\<And>u. u \<in> frames k I m t \<Longrightarrow> m' u = m u) \<Longrightarrow> tree (Suc k) I m t \<Longrightarrow> tree (Suc k) I m' t"
proof (induction k arbitrary: I t)
  case 0
  then show ?case by (simp add: present_def child_def tree.simps(2))
next
  case (Suc k)
  have t: "m' t = m t" using Suc.prems(1) by simp
  have sub: "u \<in> frames k {..<512} m (child m t i) \<Longrightarrow> m' u = m u" if "i \<in> I" "present m t i" for i u
    by (rule Suc.prems(1), rule subsetD [OF child_frames_sub [OF that]])
  have f: "frames (Suc k) {..<512} m' (child m t i) = frames (Suc k) {..<512} m (child m t i)" if "i \<in> I" "present m t i" for i
    by (rule frames_cong) (rule sub [OF that])
  show ?case
  proof (rule tree_SucI)
    fix i assume "i \<in> I" "present m' t i"
    then have i: "i \<in> I" "present m t i" "child m' t i = child m t i" using t by (simp_all add: present_def child_def)
    note d = tree_SucD [OF Suc.prems(2) i(1,2)]
    show "tree (Suc k) {..<512} m' (child m' t i)" unfolding i(3) by (rule Suc.IH [OF sub [OF i(1,2)] d(1)])
    show "t \<notin> frames (Suc k) {..<512} m' (child m' t i)" unfolding i(3) f [OF i(1,2)] by (rule d(2))
    fix j assume "j \<in> I" "present m' t j" "i \<noteq> j"
    then have j: "j \<in> I" "present m t j" "child m' t j = child m t j" "i \<noteq> j" using t by (simp_all add: present_def child_def)
    show "frames (Suc k) {..<512} m' (child m' t i) \<inter> frames (Suc k) {..<512} m' (child m' t j) = {}"
      unfolding i(3) j(3) f [OF i(1,2)] f [OF j(1,2)] by (rule d(3) [OF j(1,2,4)])
  qed
qed

lemma tree_cong': "(\<And>u. u \<in> frames k I m t \<Longrightarrow> m' u = m u) \<Longrightarrow> tree k I m t \<Longrightarrow> tree k I m' t"
proof (cases k)
  case (Suc n)
  assume a: "\<And>u. u \<in> frames k I m t \<Longrightarrow> m' u = m u" and t: "tree k I m t"
  show ?thesis unfolding Suc by (rule tree_cong) (rule a, unfold Suc, rule subsetD [OF frames_mono_level], assumption, rule t [unfolded Suc])
qed simp

lemma walk_cong:
  "(\<And>u. u \<in> frames k I m t \<Longrightarrow> m' u = m u) \<Longrightarrow> path_in I p \<Longrightarrow> length p \<le> Suc k \<Longrightarrow> walk m' t p = walk m t p"
proof (induction p arbitrary: I t k)
  case (Cons i p)
  have t: "m' t = m t" using Cons.prems by simp
  show ?case
  proof (cases "present m t i \<and> p \<noteq> []")
    case True
    then obtain k' where k: "k = Suc k'" using Cons.prems by (cases k) auto
    have "walk m' (child m t i) p = walk m (child m t i) p"
      by (rule Cons.IH [of k' "{..<512}"]) (use Cons.prems True k in auto)
    then show ?thesis using t by (simp add: present_def child_def)
  qed (use t in \<open>auto simp: present_def child_def\<close>)
qed simp

declare frames.simps(2) [simp del]

lemma subtree_frames:
  "walk m r p = Some t \<Longrightarrow> path_in I p \<Longrightarrow> frames n (if p = [] then I else {..<512}) m t \<subseteq> frames (length p + n) I m r"
proof (induction p arbitrary: I r)
  case (Cons j p)
  then have j: "present m r j" "j \<in> I" "walk m (child m r j) p = Some t" "path_in {..<512} p" by (auto split: if_splits)
  from Cons.IH [OF j(3,4)] child_frames_sub [OF j(2,1), of "length p + n"] show ?case by (cases "p = []") auto
qed simp

lemma walk_tree:
  "tree (length p + n) I m r \<Longrightarrow> walk m r p = Some t \<Longrightarrow> path_in I p \<Longrightarrow> tree n (if p = [] then I else {..<512}) m t"
proof (induction p arbitrary: I r)
  case (Cons j p)
  then have j: "present m r j" "j \<in> I" "walk m (child m r j) p = Some t" "path_in {..<512} p" by (auto split: if_splits)
  have "tree (length p + n) {..<512} m (child m r j)" using tree_SucD(1) [OF _ j(2,1)] Cons.prems(1) by simp
  from Cons.IH [OF this j(3,4)] show ?case by (cases "p = []") auto
qed simp

text \<open>One entry of the table at the end of path \<open>p\<close> is overwritten, possibly by one that points to a new subtree.\<close>

lemma tree_update_here:
  assumes "tree (Suc n) I m t" "i \<in> I"
    and m': "m' t = (m t)(i := e)" "\<And>u. u \<in> frames (Suc n) I m t \<Longrightarrow> u \<noteq> t \<Longrightarrow> m' u = m u"
    and new: "bit e 0 \<Longrightarrow> tree n {..<512} m' (ent_frame e)"
      "bit e 0 \<Longrightarrow> frames n {..<512} m' (ent_frame e) \<inter> frames (Suc n) I m t = {}"
  shows "tree (Suc n) I m' t \<and> frames (Suc n) I m' t =
    (frames (Suc n) I m t - (if present m t i then frames n {..<512} m (child m t i) else {})) \<union>
    (if bit e 0 then frames n {..<512} m' (ent_frame e) else {})"
proof -
  have o: "present m' t j = present m t j \<and> child m' t j = child m t j" if "j \<noteq> i" for j
    using that m'(1) by (simp add: present_def child_def)
  have e: "present m' t i = bit e 0" "child m' t i = ent_frame e" using m'(1) by (simp_all add: present_def child_def)
  have a: "m' u = m u" if "j \<in> I" "present m t j" "u \<in> frames n {..<512} m (child m t j)" for j u
    using m'(2) subsetD [OF child_frames_sub [OF that(1,2)] that(3)] tree_SucD(2) [OF assms(1) that(1,2)] that(3) by auto
  have f: "frames n {..<512} m' (child m t j) = frames n {..<512} m (child m t j)" if "j \<in> I" "present m t j" for j
    by (rule frames_cong') (rule a [OF that])
  have tr: "tree n {..<512} m' (child m t j)" if "j \<in> I" "present m t j" for j
    by (rule tree_cong' [OF a [OF that] tree_SucD(1) [OF assms(1) that]])
  have nsub: "frames n {..<512} m' (ent_frame e) \<inter> frames n {..<512} m (child m t j) = {}" "t \<notin> frames n {..<512} m' (ent_frame e)"
    if "bit e 0" "j \<in> I" "present m t j" for j
    using new(2) [OF that(1)] child_frames_sub [OF that(2,3), of n] by auto
  have tn: "bit e 0 \<Longrightarrow> t \<notin> frames n {..<512} m' (ent_frame e)" using new(2) by auto
  have "tree (Suc n) I m' t"
  proof (rule tree_SucI)
    fix j assume j: "j \<in> I" "present m' t j"
    show "tree n {..<512} m' (child m' t j)" using j e o new(1) tr by (cases "j = i") auto
    show "t \<notin> frames n {..<512} m' (child m' t j)" using j e o tn f tree_SucD(2) [OF assms(1)] by (cases "j = i") auto
    fix l assume l: "l \<in> I" "present m' t l" "j \<noteq> l"
    show "frames n {..<512} m' (child m' t j) \<inter> frames n {..<512} m' (child m' t l) = {}"
    proof (cases "j = i \<or> l = i")
      case True
      then show ?thesis using j l e o nsub(1) f by (elim disjE) (auto simp: Int_commute)
    next
      case False
      then show ?thesis using tree_SucD(3) [OF assms(1), of j l] j l o f by auto
    qed
  qed
  moreover have pj: "present m' t j \<longleftrightarrow> (if j = i then bit e 0 else present m t j)" for j using e(1) o [of j] by simp
  have P: "{j \<in> I. present m' t j} = {j \<in> I. present m t j \<and> j \<noteq> i} \<union> (if bit e 0 then {i} else {})"
    unfolding pj using assms(2) by (auto split: if_splits)
  have "(\<Union>j \<in> {j \<in> I. present m t j \<and> j \<noteq> i}. frames n {..<512} m' (child m' t j)) =
      (\<Union>j \<in> {j \<in> I. present m t j \<and> j \<noteq> i}. frames n {..<512} m (child m t j))" using o f by simp
  then have "frames (Suc n) I m' t = insert t ((\<Union>j \<in> {j \<in> I. present m t j \<and> j \<noteq> i}. frames n {..<512} m (child m t j)) \<union>
      (if bit e 0 then frames n {..<512} m' (ent_frame e) else {}))"
    unfolding frames.simps(2) P UN_Un using e(2) by auto
  moreover have "frames (Suc n) I m t - (if present m t i then frames n {..<512} m (child m t i) else {}) =
      insert t (\<Union>j \<in> {j \<in> I. present m t j \<and> j \<noteq> i}. frames n {..<512} m (child m t j))"
    unfolding frames.simps(2) using assms(2) tree_SucD(2,3) [OF assms(1)] by (auto split: if_splits)
  ultimately show ?thesis by auto
qed

lemma tree_update:
  assumes "tree (length p + Suc n) I m r" "walk m r p = Some t" "path_in I (p @ [i])"
    and m': "m' t = (m t)(i := e)" "\<And>u. u \<in> frames (length p + Suc n) I m r \<Longrightarrow> u \<noteq> t \<Longrightarrow> m' u = m u"
    and new: "bit e 0 \<Longrightarrow> tree n {..<512} m' (ent_frame e)"
      "bit e 0 \<Longrightarrow> frames n {..<512} m' (ent_frame e) \<inter> frames (length p + Suc n) I m r = {}"
  shows "tree (length p + Suc n) I m' r \<and> frames (length p + Suc n) I m' r =
    (frames (length p + Suc n) I m r - (if present m t i then frames n {..<512} m (child m t i) else {})) \<union>
    (if bit e 0 then frames n {..<512} m' (ent_frame e) else {}) \<and> walk m' r p = Some t"
  using assms
proof (induction p arbitrary: I r)
  case Nil
  from tree_update_here [of n I m t i m' e] Nil show ?case by (simp add: fun_upd_def)
next
  case (Cons j p)
  let ?c = "child m r j"
  define K where "K = length p + Suc n"
  have j: "present m r j" "j \<in> I" "walk m ?c p = Some t" "path_in {..<512} (p @ [i])" using Cons.prems(2,3) by (auto split: if_splits)
  have tr: "tree (Suc K) I m r" using Cons.prems(1) by (simp add: K_def)
  have pre: "\<And>u. u \<in> frames (Suc K) I m r \<Longrightarrow> u \<noteq> t \<Longrightarrow> m' u = m u" using Cons.prems(5) by (simp add: K_def)
  have nw: "bit e 0 \<Longrightarrow> frames n {..<512} m' (ent_frame e) \<inter> frames (Suc K) I m r = {}" using Cons.prems(7) by (simp add: K_def)
  have sub: "frames K {..<512} m ?c \<subseteq> frames (Suc K) I m r" by (rule child_frames_sub [OF j(2,1)])
  have pp: "path_in {..<512} p" using j(4) by (cases p) (auto simp: path_in_def)
  have tin: "t \<in> frames K {..<512} m ?c" by (rule walk_in_frames [OF j(3) pp]) (simp add: K_def)
  then have rt: "r \<noteq> t" using tree_SucD(2) [OF tr j(2,1)] by auto
  then have mr: "m' r = m r" using pre by simp
  have ih: "tree K {..<512} m' ?c" "frames K {..<512} m' ?c =
      (frames K {..<512} m ?c - (if present m t i then frames n {..<512} m (child m t i) else {})) \<union>
      (if bit e 0 then frames n {..<512} m' (ent_frame e) else {})" "walk m' ?c p = Some t"
    using Cons.IH [OF tree_SucD(1) [OF tr j(2,1), unfolded K_def] j(3,4) Cons.prems(4) _ Cons.prems(6), folded K_def] pre nw sub by blast+
  have o: "present m' r l = present m r l" "child m' r l = child m r l" for l using mr by (simp_all add: present_def child_def)
  have a: "m' u = m u" if "l \<in> I" "present m r l" "l \<noteq> j" "u \<in> frames K {..<512} m (child m r l)" for l u
  proof -
    have "u \<noteq> t" using tree_SucD(3) [OF tr j(2,1) that(1,2)] that(3,4) tin by auto
    moreover have "u \<in> frames (Suc K) I m r" by (rule subsetD [OF child_frames_sub [OF that(1,2)] that(4)])
    ultimately show ?thesis using pre by simp
  qed
  have f: "frames K {..<512} m' (child m r l) = frames K {..<512} m (child m r l)" if "l \<in> I" "present m r l" "l \<noteq> j" for l
    by (rule frames_cong') (rule a [OF that])
  have lt: "tree K {..<512} m' (child m r l)" if "l \<in> I" "present m r l" "l \<noteq> j" for l
    by (rule tree_cong' [OF a [OF that] tree_SucD(1) [OF tr that(1,2)]])
  have cj: "frames K {..<512} m' ?c \<inter> X = {}" if "X \<subseteq> frames (Suc K) I m r" "X \<inter> frames K {..<512} m ?c = {}" for X
    unfolding ih(2) using that nw by (auto split: if_splits)
  have old: "present m t i \<Longrightarrow> frames n {..<512} m (child m t i) \<subseteq> frames K {..<512} m ?c"
    using subtree_frames [of m ?c "p @ [i]" "child m t i" "{..<512}" n] j(3,4) by (simp add: walk_append K_def)
  have T: "tree (Suc K) I m' r"
  proof (rule tree_SucI)
    fix l assume l: "l \<in> I" "present m' r l"
    note l' = l(2) [unfolded o(1)]
    show "tree K {..<512} m' (child m' r l)" unfolding o(2) using ih(1) lt [OF l(1) l'] by (cases "l = j") auto
    have rn: "r \<notin> frames K {..<512} m ?c" "{r} \<subseteq> frames (Suc K) I m r" using tree_SucD(2) [OF tr j(2,1)] by auto
    show "r \<notin> frames K {..<512} m' (child m' r l)"
      unfolding o(2) using cj [of "{r}"] rn f [OF l(1) l'] tree_SucD(2) [OF tr l(1) l'] by (cases "l = j") auto
    fix h assume h: "h \<in> I" "present m' r h" "l \<noteq> h"
    note h' = h(2) [unfolded o(1)]
    have dis: "frames K {..<512} m (child m r l) \<inter> frames K {..<512} m (child m r h) = {}" by (rule tree_SucD(3) [OF tr l(1) l' h(1) h' h(3)])
    show "frames K {..<512} m' (child m' r l) \<inter> frames K {..<512} m' (child m' r h) = {}"
    proof (cases "l = j \<or> h = j")
      case True
      then show ?thesis
        using cj [OF child_frames_sub [OF l(1) l']] cj [OF child_frames_sub [OF h(1) h']] f [OF l(1) l'] f [OF h(1) h'] dis h(3) unfolding o(2)
        by (elim disjE) (auto simp: Int_commute)
    next
      case False
      then show ?thesis unfolding o(2) using f [OF l(1) l'] f [OF h(1) h'] dis by simp
    qed
  qed
  have S: "{l \<in> I. present m r l} = insert j {l \<in> I. present m r l \<and> l \<noteq> j}" using j(1,2) by auto
  let ?R = "\<Union>l \<in> {l \<in> I. present m r l \<and> l \<noteq> j}. frames K {..<512} m (child m r l)"
  have R: "(\<Union>l \<in> {l \<in> I. present m r l \<and> l \<noteq> j}. frames K {..<512} m' (child m r l)) = ?R" using f by simp
  have "insert r ?R \<inter> frames K {..<512} m ?c = {}" using tree_SucD(2,3) [OF tr j(2,1)] by blast
  then have F: "frames (Suc K) I m' r = (frames (Suc K) I m r - (if present m t i then frames n {..<512} m (child m t i) else {})) \<union>
      (if bit e 0 then frames n {..<512} m' (ent_frame e) else {})"
    unfolding frames.simps(2) o S UN_insert R ih(2) using old by (auto split: if_splits)
  have "walk m' r (j # p) = Some t" using o j(1) ih(3) by simp
  with T F show ?case by (simp add: K_def)
qed

text \<open>Paths that do not go through the entry see no change; those that do continue in the new subtree.\<close>

lemma walk_update:
  assumes "tree (length p + Suc n) I m r" "walk m r p = Some t" "path_in I p"
    and m': "m' t = (m t)(i := e)" "\<And>u. u \<in> frames (length p + Suc n) I m r \<Longrightarrow> u \<noteq> t \<Longrightarrow> m' u = m u"
    and q: "path_in I q" "length q \<le> length p + Suc n" "take (Suc (length p)) q \<noteq> p @ [i]"
  shows "walk m' r q = walk m r q"
  using assms
proof (induction p arbitrary: I r q)
  case Nil
  then have rt: "r = t" by simp
  show ?case
  proof (cases q)
    case (Cons j q')
    then have ji: "j \<noteq> i" using Nil by simp
    have pc: "present m' r j = present m r j" "child m' r j = child m r j" using Nil.prems(4) ji by (simp_all add: rt present_def child_def)
    have "walk m' (child m r j) q' = walk m (child m r j) q'" if pj: "present m r j"
    proof (rule walk_cong [of n "{..<512}"])
      have jI: "j \<in> I" using Nil.prems(6) Cons by simp
      fix u assume u: "u \<in> frames n {..<512} m (child m r j)"
      have tr: "tree (Suc n) I m r" using Nil.prems(1) by simp
      show "m' u = m u" using Nil.prems(5) subsetD [OF child_frames_sub [OF jI pj] u] tree_SucD(2) [OF tr jI pj] u rt by auto
    qed (use Nil Cons in auto)
    with pc Cons show ?thesis by simp
  qed simp
next
  case (Cons j p)
  define K where "K = length p + Suc n"
  have j: "present m r j" "j \<in> I" "walk m (child m r j) p = Some t" "path_in {..<512} p" using Cons.prems(2,3) by (auto split: if_splits)
  have tr: "tree (Suc K) I m r" using Cons.prems(1) by (simp add: K_def)
  have pre: "\<And>u. u \<in> frames (Suc K) I m r \<Longrightarrow> u \<noteq> t \<Longrightarrow> m' u = m u" using Cons.prems(5) by (simp add: K_def)
  have tin: "t \<in> frames K {..<512} m (child m r j)" by (rule walk_in_frames [OF j(3,4)]) (simp add: K_def)
  then have "m' r = m r" using pre [of r] tree_SucD(2) [OF tr j(2,1)] by auto
  then have pc: "present m' r l = present m r l" "child m' r l = child m r l" for l by (simp_all add: present_def child_def)
  show ?case
  proof (cases q)
    case q: (Cons l q')
    have lI: "l \<in> I" "path_in {..<512} q'" "length q' \<le> K" using Cons.prems(6,7) q by (auto simp: K_def)
    have "walk m' (child m r l) q' = walk m (child m r l) q'" if pl: "present m r l"
    proof (cases "l = j")
      case True
      show ?thesis unfolding True
      proof (rule Cons.IH [OF tree_SucD(1) [OF tr j(2,1), unfolded K_def] j(3,4) Cons.prems(4) _ lI(2)])
        show "length q' \<le> length p + Suc n" using lI(3) by (simp add: K_def)
        show "take (Suc (length p)) q' \<noteq> p @ [i]" using Cons.prems(8) q True by simp
        show "m' u = m u" if "u \<in> frames (length p + Suc n) {..<512} m (child m r j)" "u \<noteq> t" for u
          using pre subsetD [OF child_frames_sub [OF j(2,1)]] that by (simp add: K_def)
      qed
    next
      case False
      show ?thesis
      proof (rule walk_cong [of K "{..<512}"])
        fix u assume u: "u \<in> frames K {..<512} m (child m r l)"
        have "u \<noteq> t" using tree_SucD(3) [OF tr j(2,1) lI(1) pl] False tin u by auto
        then show "m' u = m u" using pre subsetD [OF child_frames_sub [OF lI(1) pl] u] by simp
      qed (use lI in auto)
    qed
    then show ?thesis using pc q by simp
  qed simp
qed

text \<open>In a tree, two paths that lead to the same frame are the same path, and every frame is at the end of one.\<close>

lemma walk_inj:
  "tree k I m r \<Longrightarrow> path_in I p \<Longrightarrow> path_in I q \<Longrightarrow> length p \<le> k \<Longrightarrow> length q \<le> k \<Longrightarrow>
   walk m r p = Some t \<Longrightarrow> walk m r q = Some t \<Longrightarrow> p = q"
proof (induction p arbitrary: I r q k)
  case Nil
  show ?case
  proof (cases q)
    case (Cons j q')
    then obtain k' where k: "k = Suc k'" using Nil.prems(5) by (cases k) auto
    have "j \<in> I" "present m r j" "walk m (child m r j) q' = Some r" "path_in {..<512} q'" "length q' \<le> k'"
      using Nil.prems Cons k by (auto split: if_splits)
    then show ?thesis using tree_SucD(2) [of k' I m r j] walk_in_frames Nil.prems(1) k by blast
  qed simp
next
  case (Cons i p)
  then obtain k' where k: "k = Suc k'" by (cases k) auto
  have tr: "tree (Suc k') I m r" using Cons.prems(1) k by simp
  have i: "i \<in> I" "present m r i" "walk m (child m r i) p = Some t" "path_in {..<512} p" "length p \<le> k'"
    using Cons.prems k by (auto split: if_splits)
  show ?case
  proof (cases q)
    case Nil
    then show ?thesis using Cons.prems(7) walk_in_frames [OF i(3,4,5)] tree_SucD(2) [OF tr i(1,2)] by simp
  next
    case q: (Cons j q')
    have j: "j \<in> I" "present m r j" "walk m (child m r j) q' = Some t" "path_in {..<512} q'" "length q' \<le> k'"
      using Cons.prems q k by (auto split: if_splits)
    have "i = j" using tree_SucD(3) [OF tr i(1,2) j(1,2)] walk_in_frames [OF i(3,4,5)] walk_in_frames [OF j(3,4,5)] by blast
    moreover have "p = q'"
      by (rule Cons.IH [OF tree_SucD(1) [OF tr i(1,2)] i(4) j(4) i(5) j(5) i(3)]) (use j(3) \<open>i = j\<close> in simp)
    ultimately show ?thesis using q by simp
  qed
qed

lemma frames_walk: "u \<in> frames k I m t \<Longrightarrow> \<exists>p. path_in I p \<and> length p \<le> k \<and> walk m t p = Some u"
proof (induction k arbitrary: I t)
  case 0
  then show ?case by (intro exI [of _ "[]"]) simp
next
  case (Suc k)
  show ?case
  proof (cases "u = t")
    case False
    with Suc.prems obtain i where i: "i \<in> I" "present m t i" "u \<in> frames k {..<512} m (child m t i)"
      by (auto simp: frames.simps(2))
    with Suc.IH obtain p where "path_in {..<512} p" "length p \<le> k" "walk m (child m t i) p = Some u" by blast
    with i show ?thesis by (intro exI [of _ "i # p"]) simp
  qed (intro exI [of _ "[]"], simp)
qed

lemma finite_frames: "finite I \<Longrightarrow> finite (frames k I m t)"
  by (induction k arbitrary: I t) (simp_all add: frames.simps(2))

text \<open>A leaf of the tree is not one of its tables.\<close>

lemma leaf_not_inner:
  assumes "tree (Suc k) I m r" "walk m r p = Some t" "path_in I p" "length p = Suc k"
  shows "t \<notin> frames k I m r"
proof
  assume "t \<in> frames k I m r"
  then obtain q where "path_in I q" "length q \<le> k" "walk m r q = Some t" using frames_walk by blast
  with walk_inj [OF assms(1,3), of q t] assms(2,4) show False by auto
qed

section \<open>Looking up an entry\<close>

definition lookup :: "pmem \<Rightarrow> nat \<Rightarrow> nat list \<Rightarrow> nat \<Rightarrow> u64 option" where
  "lookup m r p i = (case walk m r p of None \<Rightarrow> None | Some t \<Rightarrow> if present m t i then Some (m t i) else None)"

lemma lookup_cong:
  assumes "\<And>u. u \<in> frames k I m r \<Longrightarrow> m' u = m u" "path_in I p" "length p \<le> k"
  shows "lookup m' r p i = lookup m r p i"
proof -
  have w: "walk m' r p = walk m r p" using walk_cong [OF assms(1,2)] assms(3) by simp
  show ?thesis
  proof (cases "walk m r p")
    case (Some t)
    then have "m' t = m t" using walk_in_frames [OF Some assms(2,3)] assms(1) by blast
    with w Some show ?thesis by (simp add: lookup_def present_def)
  qed (use w in \<open>simp add: lookup_def\<close>)
qed

end
