(* ===== verification/Vmm_Inv.thy ===== *)
theory Vmm_Inv
  imports Vmm_Tree
begin

unbundle bit_operations_syntax

text \<open>
  The operations of the virtual memory manager on well-formed address spaces. \<open>space_ok k I s r\<close>: the tables
  below the part \<open>I\<close> of the PML4 in frame \<open>r\<close> form a tree of frames that are not free. With \<open>k = 3\<close> the tree
  is the tables alone, with \<open>k = 4\<close> it includes the pages they map, so that no page is mapped twice.
\<close>

section \<open>Accesses through the direct map\<close>

definition tab :: "vmm \<Rightarrow> u64 \<Rightarrow> nat" where
  "tab s p = frame_of (hhdm_vtop s p)"

text \<open>No frame of physical memory is at the null pointer of the direct map.\<close>

definition hhdm_ok :: "vmm \<Rightarrow> bool" where
  "hhdm_ok s \<longleftrightarrow> 0 < hhdm_offset s \<and> unat (hhdm_offset s) + 2 ^ 31 \<le> 2 ^ 64"

definition ctl_eq :: "vmm \<Rightarrow> vmm \<Rightarrow> bool" where
  "ctl_eq s s' \<longleftrightarrow> kernel_pml4 s' = kernel_pml4 s \<and> hhdm_offset s' = hhdm_offset s \<and> kheap s' = kheap s \<and> cr3 s' = cr3 s \<and> cr4 s' = cr4 s"

lemma ctl_eq_refl [simp]: "ctl_eq s s"
  by (simp add: ctl_eq_def)

lemma ctl_eq_trans: "ctl_eq s t \<Longrightarrow> ctl_eq t u \<Longrightarrow> ctl_eq s u"
  by (simp add: ctl_eq_def)

lemma ctl_eq_tab: "ctl_eq s s' \<Longrightarrow> tab s' p = tab s p" "ctl_eq s s' \<Longrightarrow> hhdm_ptov s' x = hhdm_ptov s x"
    "ctl_eq s s' \<Longrightarrow> hhdm_ok s' = hhdm_ok s" "ctl_eq s s' \<Longrightarrow> get_kernel_pml4_index s' = get_kernel_pml4_index s"
  by (simp_all add: ctl_eq_def tab_def hhdm_vtop_def hhdm_ptov_def hhdm_ok_def get_kernel_pml4_index_def)

lemma ctl_eq_upd [simp]: "ctl_eq s (s'\<lparr>mem := x\<rparr>) = ctl_eq s s'" "ctl_eq s (s'\<lparr>vpmm := y\<rparr>) = ctl_eq s s'"
  by (simp_all add: ctl_eq_def)

lemma vtop_ptov [simp]: "hhdm_vtop s (hhdm_ptov s x) = x"
  by (simp add: hhdm_vtop_def hhdm_ptov_def)

lemma tab_ptov [simp]: "tab s (hhdm_ptov s x) = frame_of x"
  by (simp add: tab_def)

lemma tab_upd [simp]: "tab (s\<lparr>mem := x\<rparr>) p = tab s p" "tab (s\<lparr>vpmm := y\<rparr>) p = tab s p"
    "hhdm_ptov (s\<lparr>mem := x\<rparr>) q = hhdm_ptov s q" "hhdm_ptov (s\<lparr>vpmm := y\<rparr>) q = hhdm_ptov s q"
  by (simp_all add: tab_def hhdm_vtop_def hhdm_ptov_def)

lemma tab_get [simp]: "tab s (get_pdpt s e) = ent_frame e" "tab s (get_pd s e) = ent_frame e" "tab s (get_pt s e) = ent_frame e"
  by (simp_all add: get_pdpt_def get_pd_def get_pt_def frame_of_push)

lemma ldq_eq [simp]: "i < 512 \<Longrightarrow> ldq s p i = Inr (mem s (tab s p) i)"
  by (simp add: ldq_def tab_def)

lemma stq_eq [simp]: "i < 512 \<Longrightarrow> stq p i x s = Inr (s\<lparr>mem := (mem s)(tab s p := (mem s (tab s p))(i := x))\<rparr>)"
  by (simp add: stq_def tab_def Let_def)

lemma kfor_words:
  "a \<le> b \<Longrightarrow> b \<le> 512 \<Longrightarrow> (\<And>i t. a \<le> i \<Longrightarrow> i < b \<Longrightarrow> body i t = stq p i (g i) t) \<Longrightarrow>
   kfor a b body s = Inr (s\<lparr>mem := (mem s)(tab s p := (\<lambda>i. if a \<le> i \<and> i < b then g i else mem s (tab s p) i))\<rparr>)"
proof (induction "b - a" arbitrary: a s)
  case 0
  then have "b = a" by simp
  moreover have "(\<lambda>i. if a \<le> i \<and> i < a then g i else mem s (tab s p) i) = mem s (tab s p)" by (rule ext) auto
  ultimately show ?case by (simp add: kfor.simps)
next
  case (Suc n)
  then have ab: "a < b" by simp
  let ?s = "s\<lparr>mem := (mem s)(tab s p := (mem s (tab s p))(a := g a))\<rparr>"
  have "kfor a b body s = kfor (Suc a) b body ?s" using ab Suc.prems by (subst kfor.simps) simp
  also have "\<dots> = Inr (?s\<lparr>mem := (mem ?s)(tab ?s p := (\<lambda>i. if Suc a \<le> i \<and> i < b then g i else mem ?s (tab ?s p) i))\<rparr>)"
    by (rule Suc.hyps(1)) (use ab Suc in auto)
  also have "\<dots> = Inr (s\<lparr>mem := (mem s)(tab s p := (\<lambda>i. if a \<le> i \<and> i < b then g i else mem s (tab s p) i))\<rparr>)"
    using ab by (auto simp: fun_eq_iff intro!: arg_cong [where f = "\<lambda>m. s\<lparr>mem := m\<rparr>"])
  finally show ?case .
qed

definition zeroed :: "(nat \<Rightarrow> u64) \<Rightarrow> nat \<Rightarrow> u64" where
  "zeroed w i = (if i < 512 then 0 else w i)"

lemma zero_page_eq: "virt \<noteq> 0 \<Longrightarrow> zero_page virt s = Inr (s\<lparr>mem := (mem s)(tab s virt := zeroed (mem s (tab s virt)))\<rparr>)"
  using kfor_words [of 0 512 "\<lambda>i. stq virt i 0" virt "\<lambda>_. 0" s]
  by (simp add: zero_page_def kassert_not_null_def zeroed_def [abs_def])

lemma zeroed_absent [simp]: "i < 512 \<Longrightarrow> \<not> present (m(t := zeroed w)) t i"
  by (simp add: present_def zeroed_def)

lemma frames_zeroed [simp]: "m t = zeroed w \<Longrightarrow> frames n {..<512} m t = {t}" "m t = zeroed w \<Longrightarrow> tree n {..<512} m t"
  by (cases n; simp add: frames.simps(2) tree.simps(2) present_def zeroed_def)+

lemma ptov_nonnull: "hhdm_ok s \<Longrightarrow> page_aligned p \<Longrightarrow> frame_of p < 64 * FRAME_BITMAP_SIZE \<Longrightarrow> hhdm_ptov s p \<noteq> 0"
proof -
  assume a: "hhdm_ok s" "page_aligned p" "frame_of p < 64 * FRAME_BITMAP_SIZE"
  then have p: "unat p < 2 ^ 31" by (simp add: frame_of_def page_aligned_def FRAME_SIZE_def FRAME_BITMAP_SIZE_eq)
  have h: "0 < unat (hhdm_offset s)" "unat (hhdm_offset s) + 2 ^ 31 \<le> 2 ^ 64" using a(1) by (simp_all add: hhdm_ok_def unat_gt_0 word_gt_0)
  have "unat (p + hhdm_offset s) = unat p + unat (hhdm_offset s)" by (rule unat_add_lem [THEN iffD1]) (use p h in simp)
  with h(1) show ?thesis unfolding hhdm_ptov_def by (metis add_gr_0 unat_0 less_numeral_extra(3))
qed

section \<open>Well-formed address spaces\<close>

definition space_ok :: "nat \<Rightarrow> nat set \<Rightarrow> vmm \<Rightarrow> nat \<Rightarrow> bool" where
  "space_ok k I s r \<longleftrightarrow> pmm_ok (vpmm s) \<and> tree k I (mem s) r \<and>
     (\<forall>f \<in> frames k I (mem s) r. f < 64 * FRAME_BITMAP_SIZE \<and> f \<notin> free_set (vpmm s))"

text \<open>\<open>extends k I r N s s'\<close>: from \<open>s\<close> to \<open>s'\<close> the address space has taken the frames \<open>N\<close>, and nothing else has changed.\<close>

definition extends :: "nat \<Rightarrow> nat set \<Rightarrow> nat \<Rightarrow> nat set \<Rightarrow> vmm \<Rightarrow> vmm \<Rightarrow> bool" where
  "extends k I r N s s' \<longleftrightarrow> space_ok k I s' r \<and> ctl_eq s s' \<and> N \<subseteq> avail (vpmm s) \<and>
     avail (vpmm s') = avail (vpmm s) - N \<and> free_set (vpmm s') = free_set (vpmm s) - N \<and>
     frames k I (mem s') r = frames k I (mem s) r \<union> N \<and>
     (\<forall>u. u \<notin> frames k I (mem s) r \<union> N \<longrightarrow> mem s' u = mem s u)"

lemma extends_refl: "space_ok k I s r \<Longrightarrow> extends k I r {} s s"
  by (simp add: extends_def)

lemma extends_trans: "extends k I r M s t \<Longrightarrow> extends k I r N t u \<Longrightarrow> extends k I r (M \<union> N) s u"
  unfolding extends_def by (intro conjI) (auto intro: ctl_eq_trans)

definition pop_ok :: "(u64 \<Rightarrow> u64 \<Rightarrow> u32 \<Rightarrow> u64 kres) \<Rightarrow> bool" where
  "pop_ok pop \<longleftrightarrow> (\<forall>e phys flags. page_aligned phys \<and> frame_of phys < 2 ^ 40 \<longrightarrow>
     (\<exists>e'. pop e phys flags = Inr e' \<and> bit e' 0 \<and> ent_frame e' = frame_of phys))"

lemma pop_ok_populate: "pop_ok populate_pml4e" "pop_ok populate_pdpte" "pop_ok populate_pde" "pop_ok populate_pte"
  by (simp_all add: pop_ok_def populate_pml4e_def populate_pdpte_def populate_pde_def populate_pte_def is_page_aligned_iff)

text \<open>The three functions that make sure a table is present, in one.\<close>

definition ensure_gen :: "(u64 \<Rightarrow> u64 \<Rightarrow> u32 \<Rightarrow> u64 kres) \<Rightarrow> u64 \<Rightarrow> nat \<Rightarrow> u32 \<Rightarrow> vmm \<Rightarrow> (u64 \<times> vmm) kres" where
  "ensure_gen pop p i flags s = kbind (ldq s p i) (\<lambda>e.
     kbind (if \<not> bit e 0
       then kbind (alloc_frame (vpmm s)) (\<lambda>(phys_frame, m).
            kbind (pop e phys_frame flags) (\<lambda>e'.
            kbind (stq p i e' (s\<lparr>vpmm := m\<rparr>)) (zero_page (hhdm_ptov s phys_frame))))
       else Inr s) (\<lambda>s1.
     kbind (ldq s1 p i) (\<lambda>e1. Inr (get_pdpt s1 e1, s1))))"

lemma ensure_gen_eqs:
  "ensure_pdpte_present = ensure_gen populate_pml4e" "ensure_pde_present = ensure_gen populate_pdpte"
  "ensure_pte_present = ensure_gen populate_pde"
  by (intro ext, simp add: ensure_gen_def ensure_pdpte_present_def ensure_pde_present_def ensure_pte_present_def
      get_pdpt_def get_pd_def get_pt_def)+

lemma ensure_present:
  "i < 512 \<Longrightarrow> present (mem s) (tab s p) i \<Longrightarrow> ensure_gen pop p i flags s = Inr (get_pdpt s (mem s (tab s p) i), s)"
  by (simp add: ensure_gen_def present_def)

lemma ensure_absent:
  assumes "i < 512" "\<not> present (mem s) (tab s p) i" "pop_ok pop" "hhdm_ok s" "pmm_ok (vpmm s)" "avail (vpmm s) \<noteq> {}"
    "tab s p \<notin> free_set (vpmm s)"
  shows "\<exists>q s' e f m. ensure_gen pop p i flags s = Inr (q, s') \<and> tab s' q = f \<and> bit e 0 \<and> ent_frame e = f \<and> f \<in> avail (vpmm s) \<and>
    pmm_ok m \<and> avail m = avail (vpmm s) - {f} \<and> free_set m = free_set (vpmm s) - {f} \<and>
    s' = s\<lparr>vpmm := m, mem := (mem s)(tab s p := (mem s (tab s p))(i := e), f := zeroed (mem s f))\<rparr>"
proof -
  obtain a m where a: "alloc_frame (vpmm s) = Inr (a, m)" "pmm_ok m" "page_aligned a" "frame_of a = Min (avail (vpmm s))"
      "avail m = avail (vpmm s) - {frame_of a}" "free_set m = free_set (vpmm s) - {frame_of a}"
    using alloc_frame_some [OF assms(5,6)] by blast
  have f: "frame_of a \<in> avail (vpmm s)" using a(4) assms(6) by simp
  then have b: "frame_of a < 64 * FRAME_BITMAP_SIZE" "frame_of a \<in> free_set (vpmm s)" using avail_bounds [OF assms(5)] by auto
  then have "frame_of a < 2 ^ 40" by (simp add: FRAME_BITMAP_SIZE_eq)
  then obtain e where e: "pop (mem s (tab s p) i) a flags = Inr e" "bit e 0" "ent_frame e = frame_of a"
    using assms(3) a(3) unfolding pop_ok_def by blast
  have ne: "frame_of a \<noteq> tab s p" using b(2) assms(7) by auto
  have nn: "hhdm_ptov s a \<noteq> 0" by (rule ptov_nonnull [OF assms(4) a(3) b(1)])
  have np: "\<not> bit (mem s (tab s p) i) 0" using assms(2) by (simp add: present_def)
  let ?s' = "s\<lparr>vpmm := m, mem := (mem s)(tab s p := (mem s (tab s p))(i := e), frame_of a := zeroed (mem s (frame_of a)))\<rparr>"
  have "ensure_gen pop p i flags s = Inr (get_pdpt ?s' e, ?s')"
    using assms(1) np a(1) e(1) ne nn by (simp add: ensure_gen_def zero_page_eq)
  with a e f show ?thesis by (intro exI conjI) (assumption, simp_all)
qed

lemma path_in_append: "path_in I (p @ q) \<Longrightarrow> path_in I p"
  by (cases p) (auto simp: path_in_def)

text \<open>A table in the tree gets an entry that points to a page of zeros: nothing that could be looked up has changed.\<close>

lemma ensure_ok:
  assumes "space_ok (length p + Suc n) I s r" "walk (mem s) r p = Some (tab s q)" "path_in I (p @ [i])" "i < 512" "pop_ok pop"
    "hhdm_ok s" "present (mem s) (tab s q) i \<or> avail (vpmm s) \<noteq> {}"
  shows "\<exists>q' s' N. ensure_gen pop q i flags s = Inr (q', s') \<and> extends (length p + Suc n) I r N s s' \<and> card N \<le> 1 \<and>
    walk (mem s') r (p @ [i]) = Some (tab s' q') \<and>
    (\<forall>w j. path_in I w \<and> length w \<le> length p + Suc n \<and> j < 512 \<and> (w, j) \<noteq> (p, i) \<longrightarrow> lookup (mem s') r w j = lookup (mem s) r w j)"
proof (cases "present (mem s) (tab s q) i")
  case True
  have "tab s (get_pdpt s (mem s (tab s q) i)) = child (mem s) (tab s q) i" by (simp add: child_def)
  with ensure_present [OF assms(4) True, of pop flags] True assms(1,2) show ?thesis
    by (intro exI [of _ "get_pdpt s (mem s (tab s q) i)"] exI [of _ s] exI [of _ "{}"]) (simp add: extends_refl walk_append)
next
  case False
  let ?K = "length p + Suc n"
  have sp: "pmm_ok (vpmm s)" "tree ?K I (mem s) r" "\<And>f. f \<in> frames ?K I (mem s) r \<Longrightarrow> f < 64 * FRAME_BITMAP_SIZE \<and> f \<notin> free_set (vpmm s)"
    using assms(1) unfolding space_ok_def by blast+
  have pi: "path_in I p" by (rule path_in_append [OF assms(3)])
  have tin: "tab s q \<in> frames ?K I (mem s) r" by (rule walk_in_frames [OF assms(2) pi]) simp
  have av: "avail (vpmm s) \<noteq> {}" using assms(7) False by blast
  obtain q' s' e f m where en: "ensure_gen pop q i flags s = Inr (q', s')" "tab s' q' = f" "bit e 0" "ent_frame e = f" "f \<in> avail (vpmm s)"
      "pmm_ok m" "avail m = avail (vpmm s) - {f}" "free_set m = free_set (vpmm s) - {f}"
      "s' = s\<lparr>vpmm := m, mem := (mem s)(tab s q := (mem s (tab s q))(i := e), f := zeroed (mem s f))\<rparr>"
    using ensure_absent [OF assms(4) False assms(5,6) sp(1) av conjunct2 [OF sp(3) [OF tin]], of flags] by (elim exE conjE) (rule that)
  have fb: "f < 64 * FRAME_BITMAP_SIZE" "f \<in> free_set (vpmm s)" using avail_bounds [OF sp(1) en(5)] by auto
  have fn: "f \<notin> frames ?K I (mem s) r" using sp(3) fb(2) by blast
  have ft: "f \<noteq> tab s q" using fn tin by blast
  let ?m = "mem s'"
  have mz: "?m f = zeroed (mem s f)" using en(9) by simp
  have mt: "?m (tab s q) = (mem s (tab s q))(i := e)" using en(9) ft by simp
  have mo: "?m u = mem s u" if "u \<noteq> tab s q" "u \<noteq> f" for u using en(9) that by simp
  have mu: "u \<in> frames ?K I (mem s) r \<Longrightarrow> u \<noteq> tab s q \<Longrightarrow> ?m u = mem s u" for u using mo fn by blast
  have fz: "frames n {..<512} ?m f = {f}" "tree n {..<512} ?m f"
    using frames_zeroed [of ?m f "mem s f" n] mz by simp_all
  have up: "tree ?K I ?m r" "frames ?K I ?m r = frames ?K I (mem s) r \<union> {f}" "walk ?m r p = Some (tab s q)"
    using tree_update [OF sp(2) assms(2,3) mt mu] en(3,4) fz fn False by auto
  have wk: "walk ?m r (p @ [i]) = Some f" using up(3) mt en(3,4) by (simp add: walk_append present_def child_def)
  have sps: "space_ok ?K I s' r" unfolding space_ok_def using up(1,2) en(6,8,9) sp(3) fb(1) by auto
  have "extends ?K I r {f} s s'"
    unfolding extends_def using sps up(2) en(5,7,8,9) mo tin by auto
  moreover have "lookup ?m r w j = lookup (mem s) r w j"
    if w: "path_in I w" "length w \<le> length p + Suc n" "j < 512" "(w, j) \<noteq> (p, i)" for w j
  proof (cases "take (Suc (length p)) w = p @ [i]")
    case thru: True
    define v where "v = drop (Suc (length p)) w"
    have wv: "w = p @ i # v" using append_take_drop_id [of "Suc (length p)" w] thru by (simp add: v_def)
    have "walk (mem s) r w = None" using assms(2) False by (simp add: wv walk_append)
    moreover have "lookup ?m r w j = None"
    proof (cases v)
      case Nil
      then show ?thesis using wk wv mz w(3) by (simp add: lookup_def present_def zeroed_def)
    next
      case (Cons l v')
      then have "l < 512" using w(1) wv by (cases p) (auto simp: path_in_def)
      then have "walk ?m f v = None" using mz Cons by (simp add: present_def zeroed_def)
      then show ?thesis using wk wv walk_append [of ?m r "p @ [i]" v] by (simp add: lookup_def)
    qed
    ultimately show ?thesis by (simp add: lookup_def)
  next
    case False
    have ww: "walk ?m r w = walk (mem s) r w" by (rule walk_update [OF sp(2) assms(2) pi mt mu w(1)]) (use w(2) False in auto)
    show ?thesis
    proof (cases "walk (mem s) r w")
      case (Some t)
      have tf: "t \<noteq> f" using walk_in_frames [OF Some w(1), of ?K] w(2) fn by auto
      have "present ?m t j = present (mem s) t j \<and> ?m t j = mem s t j \<or> t = tab s q \<and> j = i"
        using mo mt tf by (cases "t = tab s q") (auto simp: present_def)
      moreover have "t = tab s q \<Longrightarrow> w = p" using walk_inj [OF sp(2) w(1) pi _ _ Some] assms(2) w(2) by simp
      ultimately show ?thesis using ww Some w(2,4) by (auto simp: lookup_def)
    qed (use ww in \<open>simp add: lookup_def\<close>)
  qed
  ultimately show ?thesis using en(1,2) wk by (intro exI [of _ q'] exI [of _ s'] exI [of _ "{f}"]) auto
qed

lemma idx_less [simp]: "idx_of n v < 512"
proof -
  have "unat (drop_bit n v AND 0x1FF) \<le> unat (0x1FF :: u64)" by (rule word_le_nat_alt [THEN iffD1]) (rule word_and_le1)
  then show ?thesis by (simp add: idx_of_def)
qed

definition path_of :: "u64 \<Rightarrow> nat list" where
  "path_of v = [idx_of 39 v, idx_of 30 v, idx_of 21 v]"

lemma length_path_of [simp]: "length (path_of v) = 3"
  by (simp add: path_of_def)

lemma path_in_path_of: "idx_of 39 v \<in> I \<Longrightarrow> path_in I (path_of v)"
  by (simp add: path_of_def)

lemma ensure_step:
  assumes "space_ok k I s r" "length p < k" "walk (mem s) r p = Some (tab s q)" "path_in I (p @ [i])" "i < 512" "pop_ok pop"
    "hhdm_ok s" "1 \<le> card (avail (vpmm s))"
  shows "\<exists>q' s' N. ensure_gen pop q i flags s = Inr (q', s') \<and> extends k I r N s s' \<and> card N \<le> 1 \<and>
    walk (mem s') r (p @ [i]) = Some (tab s' q') \<and>
    (\<forall>w j. path_in I w \<and> length w \<le> k \<and> j < 512 \<and> (w, j) \<noteq> (p, i) \<longrightarrow> lookup (mem s') r w j = lookup (mem s) r w j)"
proof -
  obtain n where k: "k = length p + Suc n" using assms(2) less_iff_Suc_add by auto
  have "avail (vpmm s) \<noteq> {}" using assms(8) by auto
  then show ?thesis unfolding k using ensure_ok [OF assms(1) [unfolded k] assms(3-7)] by blast
qed

lemma extends_avail: "extends k I r N s t \<Longrightarrow> card (avail (vpmm s)) \<le> card (avail (vpmm t)) + card N"
  using card_Diff_subset [of N "avail (vpmm s)"] finite_subset [of N "avail (vpmm s)"] by (auto simp: extends_def)

lemma extends_space: "extends k I r N s t \<Longrightarrow> space_ok k I t r" "extends k I r N s t \<Longrightarrow> hhdm_ok t = hhdm_ok s"
    "extends k I r N s t \<Longrightarrow> tab t p = tab s p" "extends k I r N s t \<Longrightarrow> ctl_eq s t"
  by (simp_all add: extends_def ctl_eq_tab)

text \<open>The three tables on the way to a page, made present one after the other.\<close>

lemma ensure_path:
  assumes "space_ok k I s (tab s q)" "3 \<le> k" "path_in I [a, b, c]" "a < 512" "hhdm_ok s" "3 \<le> card (avail (vpmm s))"
  shows "\<exists>pdpt s1 pd s2 pt s3 N. ensure_pdpte_present q a flags s = Inr (pdpt, s1) \<and> ensure_pde_present pdpt b flags s1 = Inr (pd, s2) \<and>
    ensure_pte_present pd c flags s2 = Inr (pt, s3) \<and> extends k I (tab s q) N s s3 \<and> card N \<le> 3 \<and>
    walk (mem s3) (tab s q) [a, b, c] = Some (tab s3 pt) \<and>
    (\<forall>w j. path_in I w \<and> length w = 3 \<and> j < 512 \<longrightarrow> lookup (mem s3) (tab s q) w j = lookup (mem s) (tab s q) w j)"
proof -
  let ?r = "tab s q"
  have l: "path_in I ([] @ [a])" "path_in I ([a] @ [b])" "path_in I ([a, b] @ [c])" "b < 512" "c < 512" using assms(3) by simp_all
  obtain p1 s1 N1 where 1: "ensure_gen populate_pml4e q a flags s = Inr (p1, s1)" "extends k I ?r N1 s s1" "card N1 \<le> 1"
      "walk (mem s1) ?r ([] @ [a]) = Some (tab s1 p1)"
      "\<forall>w j. path_in I w \<and> length w \<le> k \<and> j < 512 \<and> (w, j) \<noteq> ([], a) \<longrightarrow> lookup (mem s1) ?r w j = lookup (mem s) ?r w j"
    using ensure_step [OF assms(1) _ _ l(1) assms(4) pop_ok_populate(1) assms(5), of q flags] assms(2,6) by auto
  have c1: "2 \<le> card (avail (vpmm s1))" "hhdm_ok s1" using 1(3) extends_avail [OF 1(2)] assms(5,6) extends_space(2) [OF 1(2)] by simp_all
  obtain p2 s2 N2 where 2: "ensure_gen populate_pdpte p1 b flags s1 = Inr (p2, s2)" "extends k I ?r N2 s1 s2" "card N2 \<le> 1"
      "walk (mem s2) ?r ([a] @ [b]) = Some (tab s2 p2)"
      "\<forall>w j. path_in I w \<and> length w \<le> k \<and> j < 512 \<and> (w, j) \<noteq> ([a], b) \<longrightarrow> lookup (mem s2) ?r w j = lookup (mem s1) ?r w j"
    using ensure_step [OF extends_space(1) [OF 1(2)] _ 1(4) [unfolded append_Nil] l(2,4) pop_ok_populate(2) c1(2), of flags] assms(2) c1(1) by auto
  have c2: "1 \<le> card (avail (vpmm s2))" "hhdm_ok s2" using 2(3) extends_avail [OF 2(2)] c1 extends_space(2) [OF 2(2)] by simp_all
  obtain p3 s3 N3 where 3: "ensure_gen populate_pde p2 c flags s2 = Inr (p3, s3)" "extends k I ?r N3 s2 s3" "card N3 \<le> 1"
      "walk (mem s3) ?r ([a, b] @ [c]) = Some (tab s3 p3)"
      "\<forall>w j. path_in I w \<and> length w \<le> k \<and> j < 512 \<and> (w, j) \<noteq> ([a, b], c) \<longrightarrow> lookup (mem s3) ?r w j = lookup (mem s2) ?r w j"
    using ensure_step [OF extends_space(1) [OF 2(2)] _ 2(4) [unfolded append_Cons append_Nil] l(3,5) pop_ok_populate(3) c2(2), of flags]
      assms(2) c2(1) by auto
  have "card (N1 \<union> N2 \<union> N3) \<le> 3" using 1(3) 2(3) 3(3) card_Un_le [of "N1 \<union> N2" N3] card_Un_le [of N1 N2] by linarith
  moreover have "extends k I ?r (N1 \<union> N2 \<union> N3) s s3" by (rule extends_trans [OF extends_trans [OF 1(2) 2(2)] 3(2)])
  moreover have "lookup (mem s3) ?r w j = lookup (mem s) ?r w j" if w: "path_in I w" "length w = 3" "j < 512" for w j
  proof -
    have "w \<noteq> []" "w \<noteq> [a]" "w \<noteq> [a, b]" using w(2) by auto
    then show ?thesis using 1(5) 2(5) 3(5) w assms(2) by simp
  qed
  ultimately show ?thesis using 1(1) 2(1) 3(1,4) unfolding ensure_gen_eqs by auto
qed

lemma space_ok_lower: "space_ok (Suc k) I s r \<Longrightarrow> space_ok k I s r"
  using tree_lower frames_mono_level unfolding space_ok_def by blast

text \<open>Writing an entry of a page table, which is a leaf of the tree of tables.\<close>

lemma leaf_write:
  assumes "space_ok (Suc k) I s r" "walk (mem s) r p = Some t" "path_in I p" "length p = Suc k"
    "s' = s\<lparr>mem := (mem s)(t := (mem s t)(i := e))\<rparr>"
  shows "space_ok (Suc k) I s' r" "frames (Suc k) I (mem s') r = frames (Suc k) I (mem s) r" "walk (mem s') r p = Some t"
    "path_in I w \<Longrightarrow> length w = Suc k \<Longrightarrow> lookup (mem s') r w j =
      (if w = p \<and> j = i then if bit e 0 then Some e else None else lookup (mem s) r w j)"
proof -
  have tr: "tree (Suc k) I (mem s) r" using assms(1) by (simp add: space_ok_def)
  have nt: "t \<notin> frames k I (mem s) r" by (rule leaf_not_inner [OF tr assms(2-4)])
  have same: "u \<in> frames k I (mem s) r \<Longrightarrow> mem s' u = mem s u" for u using nt assms(5) by auto
  show f: "frames (Suc k) I (mem s') r = frames (Suc k) I (mem s) r" by (rule frames_cong [OF same])
  have "tree (Suc k) I (mem s') r" by (rule tree_cong [OF same tr])
  with f show "space_ok (Suc k) I s' r" using assms(1,5) by (simp add: space_ok_def)
  have wk: "walk (mem s') r w = walk (mem s) r w" if "path_in I w" "length w = Suc k" for w
    using walk_cong [OF same that(1)] that(2) by simp
  show "walk (mem s') r p = Some t" using wk [OF assms(3,4)] assms(2) by simp
  assume w: "path_in I w" "length w = Suc k"
  show "lookup (mem s') r w j = (if w = p \<and> j = i then if bit e 0 then Some e else None else lookup (mem s) r w j)"
  proof (cases "walk (mem s) r w")
    case None
    then show ?thesis using wk [OF w] assms(2) by (auto simp: lookup_def)
  next
    case (Some u)
    have "u = t \<longleftrightarrow> w = p" using walk_inj [OF tr w(1) assms(3), of t] Some assms(2,4) w(2) by auto
    then show ?thesis using wk [OF w] Some assms(5) by (auto simp: lookup_def present_def)
  qed
qed

text \<open>The same write when the pages are part of the tree: the new page must be one that is not in it.\<close>

lemma page_write:
  assumes "space_ok 4 I s r" "walk (mem s) r p = Some t" "path_in I (p @ [i])" "length p = 3"
    "s' = s\<lparr>mem := (mem s)(t := (mem s t)(i := e))\<rparr>"
    "bit e 0 \<Longrightarrow> ent_frame e \<notin> frames 4 I (mem s) r \<and> ent_frame e < 64 * FRAME_BITMAP_SIZE \<and> ent_frame e \<notin> free_set (vpmm s)"
  shows "space_ok 4 I s' r" "frames 4 I (mem s') r = (frames 4 I (mem s) r - (if present (mem s) t i then {child (mem s) t i} else {})) \<union>
      (if bit e 0 then {ent_frame e} else {})"
proof -
  have k: "length p + Suc 0 = 4" using assms(4) by simp
  have tr: "tree (length p + Suc 0) I (mem s) r" using assms(1) unfolding k by (simp add: space_ok_def)
  have mt: "mem s' t = (mem s t)(i := e)" using assms(5) by simp
  have mo: "u \<noteq> t \<Longrightarrow> mem s' u = mem s u" for u using assms(5) by simp
  note up = tree_update [OF tr assms(2,3) mt mo, unfolded k, simplified]
  show f: "frames 4 I (mem s') r = (frames 4 I (mem s) r - (if present (mem s) t i then {child (mem s) t i} else {})) \<union>
      (if bit e 0 then {ent_frame e} else {})" using up assms(6) by auto
  have "tree 4 I (mem s') r" using up assms(6) by auto
  moreover have "\<forall>g \<in> frames 4 I (mem s') r. g < 64 * FRAME_BITMAP_SIZE \<and> g \<notin> free_set (vpmm s')"
    unfolding f using assms(1,5,6) by (auto simp: space_ok_def split: if_splits)
  ultimately show "space_ok 4 I s' r" using assms(1,5) by (simp add: space_ok_def)
qed

section \<open>Mapping a page\<close>

lemma populate_pte_eq:
  assumes "page_aligned phys" "frame_of phys < 2 ^ 40"
  shows "\<exists>e'. populate_pte e phys flags = Inr e' \<and> bit e' 0 \<and> ent_frame e' = frame_of phys \<and> bit e' 1 = has_flag flags PAGE_WRITE \<and>
    bit e' 2 = has_flag flags PAGE_USER \<and> bit e' 63 = has_flag flags PAGE_NX"
  using assms by (simp add: populate_pte_def is_page_aligned_iff)

lemma extends_N: "extends k I r N s s' \<Longrightarrow> pmm_ok (vpmm s) \<Longrightarrow> N = free_set (vpmm s) - free_set (vpmm s')"
  using avail_bounds [of "vpmm s"] unfolding extends_def by blast

text \<open>The body that \<^verbatim>\<open>map_page_to_frame\<close> and \<^verbatim>\<open>map_heap_page\<close> share, on the tables alone.\<close>

definition maps_entry :: "nat set \<Rightarrow> nat \<Rightarrow> nat list \<Rightarrow> nat \<Rightarrow> u64 \<Rightarrow> vmm \<Rightarrow> vmm \<Rightarrow> bool" where
  "maps_entry I r p d e s s' \<longleftrightarrow> (\<forall>w j. path_in I w \<and> length w = 3 \<and> j < 512 \<longrightarrow>
     lookup (mem s') r w j = (if w = p \<and> j = d then Some e else lookup (mem s) r w j))"

lemma map_core:
  assumes "space_ok 3 I s (tab s q)" "path_in I [a, b, c]" "a < 512" "d < 512" "hhdm_ok s" "3 \<le> card (avail (vpmm s))"
    "page_aligned phys" "frame_of phys < 2 ^ 40"
  shows "\<exists>pdpt s1 pd s2 pt s3 e s4 N. ensure_pdpte_present q a flags s = Inr (pdpt, s1) \<and> ensure_pde_present pdpt b flags s1 = Inr (pd, s2) \<and>
    ensure_pte_present pd c flags s2 = Inr (pt, s3) \<and> populate_pte (mem s3 (tab s3 pt) d) phys flags = Inr e \<and> stq pt d e s3 = Inr s4 \<and>
    extends 3 I (tab s q) N s s4 \<and> card N \<le> 3 \<and> maps_entry I (tab s q) [a, b, c] d e s s4 \<and>
    bit e 0 \<and> ent_frame e = frame_of phys \<and> bit e 1 = has_flag flags PAGE_WRITE \<and> bit e 2 = has_flag flags PAGE_USER"
proof -
  let ?r = "tab s q"
  obtain pdpt s1 pd s2 pt s3 N where 1: "ensure_pdpte_present q a flags s = Inr (pdpt, s1)" "ensure_pde_present pdpt b flags s1 = Inr (pd, s2)"
      "ensure_pte_present pd c flags s2 = Inr (pt, s3)" "extends 3 I ?r N s s3" "card N \<le> 3" "walk (mem s3) ?r [a, b, c] = Some (tab s3 pt)"
      "\<forall>w j. path_in I w \<and> length w = 3 \<and> j < 512 \<longrightarrow> lookup (mem s3) ?r w j = lookup (mem s) ?r w j"
    using ensure_path [OF assms(1) order_refl assms(2,3,5,6), of flags] by (elim exE conjE) (rule that)
  obtain e where e: "populate_pte (mem s3 (tab s3 pt) d) phys flags = Inr e" "bit e 0" "ent_frame e = frame_of phys"
      "bit e 1 = has_flag flags PAGE_WRITE" "bit e 2 = has_flag flags PAGE_USER"
    using populate_pte_eq [OF assms(7,8)] by blast
  let ?s4 = "s3\<lparr>mem := (mem s3)(tab s3 pt := (mem s3 (tab s3 pt))(d := e))\<rparr>"
  have k: "Suc 2 = 3" "length [a, b, c] = Suc 2" by simp_all
  have sp: "space_ok (Suc 2) I s3 ?r" unfolding k(1) by (rule extends_space(1) [OF 1(4)])
  note lw = leaf_write [OF sp 1(6) assms(2) k(2) refl [of ?s4], unfolded k(1)]
  have pin: "tab s3 pt \<in> frames 3 I (mem s3) ?r" by (rule walk_in_frames [OF 1(6) assms(2)]) simp
  have "extends 3 I ?r N s ?s4"
    using 1(4) lw(1,2) pin unfolding extends_def by auto
  moreover have "maps_entry I ?r [a, b, c] d e s ?s4"
    unfolding maps_entry_def using lw(4) 1(7) e(2) by (auto simp del: walk.simps path_in_simps)
  moreover have "stq pt d e s3 = Inr ?s4" using assms(4) by simp
  ultimately show ?thesis using 1(1-3,5) e by blast
qed

text \<open>With the pages in the tree.\<close>

lemma map_core_pages:
  assumes "space_ok 4 I s (tab s q)" "path_in I [a, b, c]" "a < 512" "d < 512" "hhdm_ok s" "3 \<le> card (avail (vpmm s))"
    "ensure_pdpte_present q a flags s = Inr (pdpt, s1)" "ensure_pde_present pdpt b flags s1 = Inr (pd, s2)"
    "ensure_pte_present pd c flags s2 = Inr (pt, s3)" "stq pt d e s3 = Inr s4" "bit e 0" "ent_frame e = f"
    "f \<notin> frames 4 I (mem s) (tab s q)" "f < 64 * FRAME_BITMAP_SIZE" "f \<notin> free_set (vpmm s)"
  shows "space_ok 4 I s4 (tab s q)" "lookup (mem s) (tab s q) [a, b, c] d = None \<Longrightarrow>
    frames 4 I (mem s4) (tab s q) = frames 4 I (mem s) (tab s q) \<union> (free_set (vpmm s) - free_set (vpmm s4)) \<union> {f}"
proof -
  let ?r = "tab s q"
  obtain N where N: "extends 4 I ?r N s s3" "walk (mem s3) ?r [a, b, c] = Some (tab s3 pt)"
      "\<forall>w j. path_in I w \<and> length w = 3 \<and> j < 512 \<longrightarrow> lookup (mem s3) ?r w j = lookup (mem s) ?r w j"
    using ensure_path [OF assms(1) _ assms(2,3,5,6), of flags] assms(7-9) by auto
  have s4: "s4 = s3\<lparr>mem := (mem s3)(tab s3 pt := (mem s3 (tab s3 pt))(d := e))\<rparr>" using assms(4,10) by simp
  have n: "N = free_set (vpmm s) - free_set (vpmm s4)" using extends_N [OF N(1)] assms(1) by (simp add: s4 space_ok_def)
  have fs: "f \<notin> frames 4 I (mem s3) ?r" "f \<notin> free_set (vpmm s3)" using N(1) assms(13,15) unfolding extends_def n by auto
  have pd: "path_in I ([a, b, c] @ [d])" using assms(2,4) by simp
  note pw = page_write [OF extends_space(1) [OF N(1)] N(2) pd _ s4] assms(12,14)
  from pw fs show "space_ok 4 I s4 ?r" by auto
  assume "lookup (mem s) ?r [a, b, c] d = None"
  then have "lookup (mem s3) ?r [a, b, c] d = None" using N(3) assms(2,4) by simp
  then have "\<not> present (mem s3) (tab s3 pt) d" unfolding lookup_def N(2) by (simp split: if_splits)
  with pw(2) fs assms(11,12,14) N(1) show "frames 4 I (mem s4) ?r = frames 4 I (mem s) ?r \<union> (free_set (vpmm s) - free_set (vpmm s4)) \<union> {f}"
    unfolding n [symmetric] extends_def by auto
qed

definition pte_flags :: "u32 \<Rightarrow> u64 \<Rightarrow> bool" where
  "pte_flags flags e \<longleftrightarrow> bit e 0 \<and> bit e 1 = has_flag flags PAGE_WRITE \<and> bit e 2 = has_flag flags PAGE_USER"

lemma map_page_ok:
  assumes "space_ok 3 I s (tab s q)" "idx_of 39 v \<in> I" "hhdm_ok s" "3 \<le> card (avail (vpmm s))" "q \<noteq> 0"
    "page_aligned v" "page_aligned phys" "frame_of phys < 2 ^ 40"
  shows "\<exists>s' N e. map_page_to_frame q v phys flags s = Inr s' \<and> extends 3 I (tab s q) N s s' \<and> card N \<le> 3 \<and>
    maps_entry I (tab s q) (path_of v) (idx_of 12 v) e s s' \<and> pte_flags flags e \<and> ent_frame e = frame_of phys \<and>
    (space_ok 4 I s (tab s q) \<and> frame_of phys \<notin> frames 4 I (mem s) (tab s q) \<union> free_set (vpmm s) \<and> frame_of phys < 64 * FRAME_BITMAP_SIZE \<longrightarrow>
       space_ok 4 I s' (tab s q))"
proof -
  have pin: "path_in I [idx_of 39 v, idx_of 30 v, idx_of 21 v]" using assms(2) by simp
  obtain pdpt s1 pd s2 pt s3 e s4 N where c: "ensure_pdpte_present q (idx_of 39 v) flags s = Inr (pdpt, s1)"
      "ensure_pde_present pdpt (idx_of 30 v) flags s1 = Inr (pd, s2)" "ensure_pte_present pd (idx_of 21 v) flags s2 = Inr (pt, s3)"
      "populate_pte (mem s3 (tab s3 pt) (idx_of 12 v)) phys flags = Inr e" "stq pt (idx_of 12 v) e s3 = Inr s4"
      "extends 3 I (tab s q) N s s4" "card N \<le> 3" "maps_entry I (tab s q) (path_of v) (idx_of 12 v) e s s4" "bit e 0"
      "ent_frame e = frame_of phys" "bit e 1 = has_flag flags PAGE_WRITE" "bit e 2 = has_flag flags PAGE_USER"
    using map_core [OF assms(1) pin idx_less idx_less [of 12 v] assms(3,4,7,8), of flags, folded path_of_def] by (elim exE conjE) (rule that)
  have "map_page_to_frame q v phys flags s = Inr s4"
    using c(1-5) assms(5-7) by (simp add: map_page_to_frame_def kassert_not_null_def is_page_aligned_iff)
  moreover have "space_ok 4 I s4 (tab s q)" if "space_ok 4 I s (tab s q)" "frame_of phys \<notin> frames 4 I (mem s) (tab s q) \<union> free_set (vpmm s)"
      "frame_of phys < 64 * FRAME_BITMAP_SIZE"
    using map_core_pages(1) [OF that(1) pin idx_less idx_less assms(3,4) c(1-3,5,9,10)] that(2,3) by simp
  ultimately show ?thesis using c(6-12) unfolding pte_flags_def by blast
qed

section \<open>Finding and unmapping a page\<close>

lemma find_pte_eq:
  "find_pte s q v = Inr (case walk (mem s) (tab s q) (path_of v) of None \<Rightarrow> None
     | Some t \<Rightarrow> if present (mem s) t (idx_of 12 v)
         then Some (get_pt s (mem s (the (walk (mem s) (tab s q) [idx_of 39 v, idx_of 30 v])) (idx_of 21 v)), idx_of 12 v) else None)"
  by (simp add: find_pte_def Let_def path_of_def present_def child_def)

lemma find_pte_cases:
  obtains "find_pte s q v = Inr None" "lookup (mem s) (tab s q) (path_of v) (idx_of 12 v) = None"
  | pt where "find_pte s q v = Inr (Some (pt, idx_of 12 v))" "walk (mem s) (tab s q) (path_of v) = Some (tab s pt)"
    "lookup (mem s) (tab s q) (path_of v) (idx_of 12 v) = Some (mem s (tab s pt) (idx_of 12 v))"
proof (cases "lookup (mem s) (tab s q) (path_of v) (idx_of 12 v)")
  case None
  then have "find_pte s q v = Inr None" unfolding find_pte_eq lookup_def by (auto split: option.splits if_splits)
  with None that(1) show ?thesis by blast
next
  case (Some e)
  then obtain t where t: "walk (mem s) (tab s q) (path_of v) = Some t" "present (mem s) t (idx_of 12 v)" "e = mem s t (idx_of 12 v)"
    unfolding lookup_def by (auto split: option.splits if_splits)
  let ?u = "the (walk (mem s) (tab s q) [idx_of 39 v, idx_of 30 v])"
  have "t = ent_frame (mem s ?u (idx_of 21 v))" using t(1) by (auto simp: path_of_def child_def split: if_splits)
  with t Some that(2) [of "get_pt s (mem s ?u (idx_of 21 v))"] show ?thesis by (simp add: find_pte_eq)
qed

lemma unmap_page_ok:
  assumes "space_ok 4 I s (tab s q)" "idx_of 39 v \<in> I" "q \<noteq> 0" "page_aligned v"
  shows "lookup (mem s) (tab s q) (path_of v) (idx_of 12 v) = None \<Longrightarrow> unmap_page q v s = Inr s"
    and "lookup (mem s) (tab s q) (path_of v) (idx_of 12 v) = Some e \<Longrightarrow> \<exists>s'. unmap_page q v s = Inr s' \<and> ctl_eq s s' \<and>
      space_ok 4 I s' (tab s q) \<and> free_set (vpmm s') = insert (ent_frame e) (free_set (vpmm s)) \<and>
      frames 4 I (mem s') (tab s q) = frames 4 I (mem s) (tab s q) - {ent_frame e} \<and> ent_frame e \<in> frames 4 I (mem s) (tab s q) \<and>
      (\<forall>w j. path_in I w \<and> length w = 3 \<and> j < 512 \<longrightarrow>
         lookup (mem s') (tab s q) w j = (if w = path_of v \<and> j = idx_of 12 v then None else lookup (mem s) (tab s q) w j)) \<and>
      (\<forall>u. u \<notin> frames 3 I (mem s) (tab s q) \<longrightarrow> mem s' u = mem s u)"
proof -
  let ?r = "tab s q" and ?d = "idx_of 12 v"
  have al: "kassert (is_page_aligned v) msg = Inr ()" "kassert_not_null q = Inr ()" for msg using assms(3,4) by (simp_all add: is_page_aligned_iff kassert_not_null_def)
  show "lookup (mem s) ?r (path_of v) ?d = None \<Longrightarrow> unmap_page q v s = Inr s"
    by (rule find_pte_cases [of s q v]) (simp_all add: unmap_page_def al)
  assume l: "lookup (mem s) ?r (path_of v) ?d = Some e"
  obtain pt where pt: "find_pte s q v = Inr (Some (pt, ?d))" "walk (mem s) ?r (path_of v) = Some (tab s pt)" "e = mem s (tab s pt) ?d"
    by (rule find_pte_cases [of s q v]) (use l in auto)
  have pr: "present (mem s) (tab s pt) ?d" using l pt(2) by (auto simp: lookup_def split: if_splits)
  have k: "length (path_of v) = Suc 2" "Suc 2 = 3" "length (path_of v @ [?d]) \<le> 4" by simp_all
  have pi: "path_in I (path_of v)" "path_in I (path_of v @ [?d])" using assms(2) by (simp_all add: path_of_def)
  have pp: "pmm_ok (vpmm s)" using assms(1) by (simp add: space_ok_def)
  have ein: "ent_frame e \<in> frames 4 I (mem s) ?r"
    by (rule walk_in_frames [OF _ pi(2) k(3)]) (use pt pr in \<open>simp add: walk_append child_def\<close>)
  then have eb: "ent_frame e < 64 * FRAME_BITMAP_SIZE" using assms(1) by (simp add: space_ok_def)
  obtain m where m: "free_frame (push_bit 12 (ent_addr e)) (vpmm s) = Inr m" "pmm_ok m" "free_set m = insert (ent_frame e) (free_set (vpmm s))"
    using free_frame_eq [OF pp, of "push_bit 12 (ent_addr e)"] eb by (auto simp: frame_of_push)
  let ?s0 = "s\<lparr>mem := (mem s)(tab s pt := (mem s (tab s pt))(?d := 0))\<rparr>"
  let ?s' = "?s0\<lparr>vpmm := m\<rparr>"
  have un: "unmap_page q v s = Inr ?s'" using pt m(1) by (simp add: unmap_page_def al get_pte_phys_frame_def)
  have pw: "space_ok 4 I ?s0 ?r" "frames 4 I (mem ?s0) ?r = frames 4 I (mem s) ?r - {ent_frame e}"
    using page_write [OF assms(1) pt(2) pi(2) _ refl [of ?s0]] pr pt(3) by (simp_all add: child_def)
  have "space_ok 4 I ?s' ?r" using pw m(2,3) by (auto simp: space_ok_def)
  moreover have s3: "space_ok 3 I s ?r" using space_ok_lower [of 3 I s ?r] assms(1) by simp
  have "lookup (mem ?s') ?r w j = (if w = path_of v \<and> j = ?d then None else lookup (mem s) ?r w j)"
    if "path_in I w" "length w = 3" "j < 512" for w j
    using leaf_write(4) [OF s3 [folded k(2)] pt(2) pi(1) k(1) refl [of ?s0], of w j] that by simp
  moreover have "tab s pt \<in> frames 3 I (mem s) ?r" by (rule walk_in_frames [OF pt(2) pi(1)]) simp
  ultimately show "\<exists>s'. unmap_page q v s = Inr s' \<and> ctl_eq s s' \<and> space_ok 4 I s' ?r \<and> free_set (vpmm s') = insert (ent_frame e) (free_set (vpmm s)) \<and>
      frames 4 I (mem s') ?r = frames 4 I (mem s) ?r - {ent_frame e} \<and> ent_frame e \<in> frames 4 I (mem s) ?r \<and>
      (\<forall>w j. path_in I w \<and> length w = 3 \<and> j < 512 \<longrightarrow>
         lookup (mem s') ?r w j = (if w = path_of v \<and> j = ?d then None else lookup (mem s) ?r w j)) \<and>
      (\<forall>u. u \<notin> frames 3 I (mem s) ?r \<longrightarrow> mem s' u = mem s u)"
    using un m(3) pw(2) ein by (intro exI [of _ ?s']) auto
qed

section \<open>Addresses and indices\<close>

lemma idx_of_nat: "idx_of n v = unat v div 2 ^ n mod 512"
proof -
  have "drop_bit n v AND 0x1FF = take_bit 9 (drop_bit n v)" by (simp add: take_bit_eq_mask mask_numeral mask_eq_exp_minus_1)
  then have "idx_of n v = unat (drop_bit n v) mod 512" by (simp add: idx_of_def unsigned_take_bit_eq take_bit_eq_mod unat_mod)
  also have "unat (drop_bit n v) = unat v div 2 ^ n" unfolding unat_drop_bit_eq by (rule drop_bit_eq_div)
  finally show ?thesis .
qed

lemma digits4: "(x :: nat) < 512 ^ 4 \<Longrightarrow>
  x = x mod 512 + 512 * (x div 512 mod 512 + 512 * (x div 512 div 512 mod 512 + 512 * (x div 512 div 512 div 512 mod 512)))"
proof -
  assume "x < 512 ^ 4"
  then have "x div 512 div 512 div 512 < 512" by (simp add: div_mult2_eq [symmetric] less_mult_imp_div_less)
  then show ?thesis by (metis add.commute mod_less mult_div_mod_eq)
qed

lemma digits4_inj:
  assumes "(x :: nat) < 512 ^ 4" "y < 512 ^ 4" "x mod 512 = y mod 512" "x div 512 mod 512 = y div 512 mod 512"
    "x div 512 div 512 mod 512 = y div 512 div 512 mod 512" "x div 512 div 512 div 512 mod 512 = y div 512 div 512 div 512 mod 512"
  shows "x = y"
  by (subst digits4 [OF assms(1)], subst digits4 [OF assms(2)]) (simp only: assms(3-6))

lemma page_key_inj:
  assumes "path_of v = path_of w" "idx_of 12 v = idx_of 12 w" "page_aligned v" "page_aligned w" "unat v < 2 ^ 48" "unat w < 2 ^ 48"
  shows "v = w"
proof -
  let ?x = "unat v div 4096" and ?y = "unat w div 4096"
  have d: "unat u div 549755813888 = unat u div 4096 div 512 div 512 div 512" "unat u div 1073741824 = unat u div 4096 div 512 div 512"
      "unat u div 2097152 = unat u div 4096 div 512" for u :: u64
    by (simp_all add: div_mult2_eq [symmetric])
  have e: "?x mod 512 = ?y mod 512" "?x div 512 mod 512 = ?y div 512 mod 512" "?x div 512 div 512 mod 512 = ?y div 512 div 512 mod 512"
      "?x div 512 div 512 div 512 mod 512 = ?y div 512 div 512 div 512 mod 512"
    using assms(1,2) unfolding path_of_def by (simp_all add: idx_of_nat d)
  have "?x < 512 ^ 4" "?y < 512 ^ 4" using assms(5,6) by (simp_all add: less_mult_imp_div_less)
  then have "?x = ?y" using e by (rule digits4_inj)
  moreover have "unat v mod 4096 = unat w mod 4096" using assms(3,4) by (simp add: page_aligned_def FRAME_SIZE_def)
  ultimately have "unat v = unat w" by (metis mult_div_mod_eq)
  then show ?thesis by (simp add: word_unat_eq_iff)
qed

lemma unat_low_bits: "unat (v AND NOT (PAGE_SIZE - 1)) = unat v div 4096 * 4096"
proof -
  have "NOT (PAGE_SIZE - 1) = NOT (mask 12 :: u64)" by (simp add: PAGE_SIZE_def mask_eq_exp_minus_1)
  then have "v AND NOT (PAGE_SIZE - 1) = push_bit 12 (drop_bit 12 v)"
    by (intro bit_word_eqI) (auto simp: bit_simps)
  then have "v AND NOT (PAGE_SIZE - 1) = drop_bit 12 v * 4096" by (simp add: push_bit_eq_mult)
  moreover have "unat (drop_bit 12 v) * 4096 < 2 ^ 64" using unsigned_less [of v, where ?'a = nat] unat_drop_bit_12 [of v]
    by (simp add: frame_of_def FRAME_SIZE_def)
  ultimately show ?thesis using unat_drop_bit_12 [of v] by (simp add: unat_word_ariths frame_of_def FRAME_SIZE_def)
qed

section \<open>Mapping a range\<close>

text \<open>The state after the first \<open>j\<close> pages from \<open>base\<close> on have been mapped to new frames.\<close>

definition mapped_upto :: "nat set \<Rightarrow> nat \<Rightarrow> u64 \<Rightarrow> u32 \<Rightarrow> vmm \<Rightarrow> nat \<Rightarrow> vmm \<Rightarrow> bool" where
  "mapped_upto I r base flags s j t \<longleftrightarrow> space_ok 4 I t r \<and> ctl_eq s t \<and> avail (vpmm t) \<subseteq> avail (vpmm s) \<and> free_set (vpmm t) \<subseteq> free_set (vpmm s) \<and>
     card (avail (vpmm s)) \<le> card (avail (vpmm t)) + 4 * j \<and>
     (\<forall>u. u \<notin> frames 3 I (mem s) r \<union> free_set (vpmm s) \<longrightarrow> mem t u = mem s u) \<and> frames 3 I (mem t) r \<subseteq> frames 3 I (mem s) r \<union> free_set (vpmm s) \<and>
     (\<forall>i < j. \<exists>e. lookup (mem t) r (path_of (base + of_nat i * PAGE_SIZE)) (idx_of 12 (base + of_nat i * PAGE_SIZE)) = Some e \<and>
        pte_flags flags e \<and> ent_frame e \<in> avail (vpmm s)) \<and>
     (\<forall>w d. path_in I w \<and> length w = 3 \<and> d < 512 \<and>
        (\<forall>i < j. (w, d) \<noteq> (path_of (base + of_nat i * PAGE_SIZE), idx_of 12 (base + of_nat i * PAGE_SIZE))) \<longrightarrow> lookup (mem t) r w d = lookup (mem s) r w d)"

lemma page_at:
  assumes "page_aligned base" "unat base + (j + 1) * 4096 \<le> 2 ^ 47"
  shows "page_aligned (base + of_nat j * PAGE_SIZE)" "unat (base + of_nat j * PAGE_SIZE) = unat base + j * 4096"
    "idx_of 39 (base + of_nat j * PAGE_SIZE) < 256"
proof -
  have "unat (of_nat j * PAGE_SIZE :: u64) = j * 4096" using assms(2) by (simp add: PAGE_SIZE_def unat_word_ariths unat_of_nat)
  moreover have "unat base + j * 4096 < 2 ^ 64" using assms(2) by simp
  ultimately show u: "unat (base + of_nat j * PAGE_SIZE) = unat base + j * 4096" by (simp add: unat_word_ariths)
  show "page_aligned (base + of_nat j * PAGE_SIZE)" using assms(1) unfolding page_aligned_def u by (simp add: FRAME_SIZE_def)
  have "(unat base + j * 4096) div 2 ^ 39 < 256" using assms(2) by (simp add: less_mult_imp_div_less)
  then show "idx_of 39 (base + of_nat j * PAGE_SIZE) < 256" unfolding idx_of_nat u by simp
qed

lemma map_pages_step:
  assumes "mapped_upto I r base flags s j t" "tab s q = r" "{..<256} \<subseteq> I" "hhdm_ok s" "4 * j + 4 \<le> card (avail (vpmm s))" "q \<noteq> 0"
    "page_aligned base" "unat base + (j + 1) * 4096 \<le> 2 ^ 47"
  shows "\<exists>t'. kbind (alloc_frame (vpmm t)) (\<lambda>(phys, m). map_page_to_frame q (base + of_nat j * PAGE_SIZE) phys flags (t\<lparr>vpmm := m\<rparr>)) = Inr t' \<and>
    mapped_upto I r base flags s (Suc j) t'"
proof -
  let ?v = "base + of_nat j * PAGE_SIZE"
  note u = assms(1) [unfolded mapped_upto_def]
  note v = page_at [OF assms(7,8)]
  have ct: "ctl_eq s t" and sp: "space_ok 4 I t r" and av: "avail (vpmm t) \<subseteq> avail (vpmm s)" and fs: "free_set (vpmm t) \<subseteq> free_set (vpmm s)" using u by auto
  have pp: "pmm_ok (vpmm t)" using sp by (simp add: space_ok_def)
  have "card (avail (vpmm s)) \<le> card (avail (vpmm t)) + 4 * j" using u by blast
  then have c4: "4 \<le> card (avail (vpmm t))" using assms(5) by linarith
  then have ne: "avail (vpmm t) \<noteq> {}" by auto
  obtain a m where a: "alloc_frame (vpmm t) = Inr (a, m)" "pmm_ok m" "page_aligned a" "frame_of a = Min (avail (vpmm t))"
      "avail m = avail (vpmm t) - {frame_of a}" "free_set m = free_set (vpmm t) - {frame_of a}"
    using alloc_frame_some [OF pp ne] by blast
  have fa: "frame_of a \<in> avail (vpmm t)" using a(4) ne by simp
  then have fb: "frame_of a < 64 * FRAME_BITMAP_SIZE" "frame_of a \<in> free_set (vpmm t)" using avail_bounds [OF pp] by auto
  let ?t = "t\<lparr>vpmm := m\<rparr>"
  have tq: "tab ?t q = r" using ctl_eq_tab(1) [OF ct] assms(2) by simp
  have sp4: "space_ok 4 I ?t r" using sp a(2,6) by (auto simp: space_ok_def)
  have sp3: "space_ok 3 I ?t r" using space_ok_lower [of 3 I ?t r] sp4 by simp
  have iv: "idx_of 39 ?v \<in> I" using v(3) assms(3) by auto
  have hh: "hhdm_ok ?t" using ctl_eq_tab(3) [of s ?t] ct assms(4) by simp
  have c3: "3 \<le> card (avail (vpmm ?t))" using c4 a(5) fa by simp
  have fr: "frame_of a \<notin> frames 4 I (mem ?t) r \<union> free_set (vpmm ?t)" using sp fb(2) a(6) by (auto simp: space_ok_def)
  have f40: "frame_of a < 2 ^ 40" using fb(1) by (simp add: FRAME_BITMAP_SIZE_eq)
  obtain t' N e where m: "map_page_to_frame q ?v a flags ?t = Inr t'" "extends 3 I r N ?t t'" "card N \<le> 3"
      "maps_entry I r (path_of ?v) (idx_of 12 ?v) e ?t t'" "pte_flags flags e" "ent_frame e = frame_of a" "space_ok 4 I t' r"
    using map_page_ok [of I ?t q ?v a flags, unfolded tq, OF sp3 iv hh c3 assms(6) v(1) a(3) f40] sp4 fr fb(1) by blast
  note ex = m(2) [unfolded extends_def]
  have "avail m \<subseteq> free_set m" "N \<subseteq> avail m" using avail_bounds [OF a(2)] ex by auto
  then have N: "N \<subseteq> free_set (vpmm s)" "frame_of a \<in> avail (vpmm s)" using a(6) fs av fa by blast+
  have lk: "lookup (mem t') r w d = (if w = path_of ?v \<and> d = idx_of 12 ?v then Some e else lookup (mem t) r w d)"
    if "path_in I w" "length w = 3" "d < 512" for w d using m(4) that by (simp add: maps_entry_def)
  have "mapped_upto I r base flags s (Suc j) t'" unfolding mapped_upto_def
  proof (intro conjI allI impI)
    show "space_ok 4 I t' r" by (rule m(7))
    show "ctl_eq s t'" using ctl_eq_trans [OF ct] ex by (simp add: ctl_eq_def)
    show "avail (vpmm t') \<subseteq> avail (vpmm s)" "free_set (vpmm t') \<subseteq> free_set (vpmm s)" using ex a(5,6) av fs by auto
    show "card (avail (vpmm s)) \<le> card (avail (vpmm t')) + 4 * Suc j"
    proof -
      have "card (avail (vpmm t)) \<le> card (avail (vpmm ?t)) + 1" using a(5) fa by simp
      moreover have "card (avail (vpmm s)) \<le> card (avail (vpmm t)) + 4 * j" using u by blast
      ultimately show ?thesis using extends_avail [OF m(2)] m(3) by simp
    qed
    show "frames 3 I (mem t') r \<subseteq> frames 3 I (mem s) r \<union> free_set (vpmm s)" using ex N(1) u by auto
    show "mem t' x = mem s x" if "x \<notin> frames 3 I (mem s) r \<union> free_set (vpmm s)" for x
    proof -
      have "x \<notin> frames 3 I (mem ?t) r \<union> N" using that u N(1) by auto
      then show ?thesis using ex u that by simp
    qed
    show "\<exists>e. lookup (mem t') r (path_of (base + of_nat i * PAGE_SIZE)) (idx_of 12 (base + of_nat i * PAGE_SIZE)) = Some e \<and>
        pte_flags flags e \<and> ent_frame e \<in> avail (vpmm s)" if i: "i < Suc j" for i
    proof -
      let ?w = "base + of_nat i * PAGE_SIZE"
      have "unat base + (i + 1) * 4096 \<le> 2 ^ 47" using i assms(8) by simp
      note w = page_at [OF assms(7) this]
      have "path_in I (path_of ?w)" using w(3) assms(3) by (intro path_in_path_of) auto
      then have "lookup (mem t') r (path_of ?w) (idx_of 12 ?w) =
          (if path_of ?w = path_of ?v \<and> idx_of 12 ?w = idx_of 12 ?v then Some e else lookup (mem t) r (path_of ?w) (idx_of 12 ?w))"
        using lk by simp
      then show ?thesis using m(5,6) N(2) u i by (cases "i = j") auto
    qed
    fix w d
    assume w: "path_in I w \<and> length w = 3 \<and> d < 512 \<and>
      (\<forall>i < Suc j. (w, d) \<noteq> (path_of (base + of_nat i * PAGE_SIZE), idx_of 12 (base + of_nat i * PAGE_SIZE)))"
    have "(w, d) \<noteq> (path_of ?v, idx_of 12 ?v)" using w lessI by blast
    then have "lookup (mem t') r w d = lookup (mem t) r w d" using lk [of w d] w by auto
    then show "lookup (mem t') r w d = lookup (mem s) r w d" using u w by (simp add: less_SucI)
  qed
  with a(1) m(1) show ?thesis by simp
qed

lemma map_pages_bounds:
  assumes "0 < bytes" "unat v + unat bytes \<le> 2 ^ 47"
  defines "ps \<equiv> v AND NOT (PAGE_SIZE - 1)" and "pe \<equiv> (v + bytes + PAGE_SIZE - 1) AND NOT (PAGE_SIZE - 1)"
  shows "page_aligned ps" "page_aligned pe" "ps < pe" "unat ps + unat ((pe - ps) div PAGE_SIZE) * 4096 \<le> 2 ^ 47" "0 < (pe - ps) div PAGE_SIZE"
    "unat ((pe - ps) div PAGE_SIZE) = (unat v + unat bytes + 4095) div 4096 - unat v div 4096"
proof -
  have b: "0 < unat bytes" using assms(1) by (simp add: unat_gt_0)
  have e: "unat (v + bytes + PAGE_SIZE - 1) = unat v + unat bytes + 4095"
    using assms(2) by (simp add: PAGE_SIZE_def unat_word_ariths unat_sub_if')
  have u: "unat ps = unat v div 4096 * 4096" "unat pe = (unat v + unat bytes + 4095) div 4096 * 4096"
    unfolding ps_def pe_def unat_low_bits e by simp_all
  show "page_aligned ps" "page_aligned pe" by (simp_all add: page_aligned_def FRAME_SIZE_def u)
  have lt: "unat v div 4096 < (unat v + unat bytes + 4095) div 4096" using b by linarith
  then show l: "ps < pe" by (simp add: word_less_nat_alt u)
  have "unat (pe - ps) = unat pe - unat ps" using l by (simp add: unat_sub_if' word_less_nat_alt)
  then show n: "unat ((pe - ps) div PAGE_SIZE) = (unat v + unat bytes + 4095) div 4096 - unat v div 4096"
    by (simp add: unat_div u PAGE_SIZE_def flip: diff_mult_distrib)
  show "0 < (pe - ps) div PAGE_SIZE" using lt by (simp add: word_less_nat_alt n)
  show "unat ps + unat ((pe - ps) div PAGE_SIZE) * 4096 \<le> 2 ^ 47" using assms(2) lt unfolding u n by (simp add: diff_mult_distrib)
qed

lemma map_pages_ok:
  assumes "space_ok 4 I s (tab s q)" "{..<256} \<subseteq> I" "hhdm_ok s" "q \<noteq> 0" "0 < bytes" "unat v + unat bytes \<le> 2 ^ 47"
    "n = (unat v + unat bytes + 4095) div 4096 - unat v div 4096" "4 * n \<le> card (avail (vpmm s))"
  shows "\<exists>s'. map_pages q v bytes flags s = Inr s' \<and> mapped_upto I (tab s q) (v AND NOT (PAGE_SIZE - 1)) flags s n s'"
proof -
  let ?r = "tab s q" and ?ps = "v AND NOT (PAGE_SIZE - 1)" and ?pe = "(v + bytes + PAGE_SIZE - 1) AND NOT (PAGE_SIZE - 1)"
  note b = map_pages_bounds [OF assms(5,6)]
  have n: "unat ((?pe - ?ps) div PAGE_SIZE) = n" using b(6) assms(7) by simp
  have z: "mapped_upto I ?r ?ps flags s 0 s" using assms(1) by (simp add: mapped_upto_def)
  have "\<exists>s'. kfor 0 n (\<lambda>page s. kbind (alloc_frame (vpmm s)) (\<lambda>(phys_frame, m).
      map_page_to_frame q (?ps + of_nat page * PAGE_SIZE) phys_frame flags (s\<lparr>vpmm := m\<rparr>))) s = Inr s' \<and> mapped_upto I ?r ?ps flags s n s'"
  proof (rule kfor_rule [where I = "mapped_upto I ?r ?ps flags s", OF z])
    fix i t assume i: "i < n" "mapped_upto I ?r ?ps flags s i t"
    have "unat ?ps + (i + 1) * 4096 \<le> 2 ^ 47"
    proof -
      have "(i + 1) * 4096 \<le> n * 4096" using i(1) by simp
      then show ?thesis using b(4) unfolding n by linarith
    qed
    moreover have "4 * i + 4 \<le> card (avail (vpmm s))" using i(1) assms(8) by linarith
    ultimately show "\<exists>t'. kbind (alloc_frame (vpmm t)) (\<lambda>(phys_frame, m).
        map_page_to_frame q (?ps + of_nat i * PAGE_SIZE) phys_frame flags (t\<lparr>vpmm := m\<rparr>)) = Inr t' \<and> mapped_upto I ?r ?ps flags s (Suc i) t'"
      using map_pages_step [OF i(2) refl assms(2,3) _ assms(4) b(1)] by blast
  qed simp
  then show ?thesis
    using assms(4,5) b(1-3,5) by (simp add: map_pages_def Let_def kassert_not_null_def is_page_aligned_iff n)
qed

end
