(* ===== verification/Vmm_Free.thy ===== *)
theory Vmm_Free
  imports Vmm_Inv
begin

text \<open>
  Freeing an address space: the four nested loops of \<^verbatim>\<open>free_user_pml4\<close> return every frame of the tree to the
  physical memory manager, each exactly once, and touch no frame outside it. One lemma covers a loop at
  any level, given what the loop below it does.
\<close>

text \<open>What a loop below a table does: it frees the frames below \<open>c\<close>, but not \<open>c\<close> itself.\<close>

definition frees :: "nat \<Rightarrow> nat set \<Rightarrow> (u64 \<Rightarrow> vmm \<Rightarrow> vmm kres) \<Rightarrow> bool" where
  "frees k I sub \<longleftrightarrow> (\<forall>s q. pmm_ok (vpmm s) \<and> tree k I (mem s) (tab s q) \<and> frames k I (mem s) (tab s q) \<subseteq> {..<64 * FRAME_BITMAP_SIZE} \<longrightarrow>
     (\<exists>s'. sub q s = Inr s' \<and> ctl_eq s s' \<and> pmm_ok (vpmm s') \<and>
       free_set (vpmm s') = free_set (vpmm s) \<union> (frames k I (mem s) (tab s q) - {tab s q}) \<and>
       (\<forall>u. u \<notin> frames k I (mem s) (tab s q) \<longrightarrow> mem s' u = mem s u)))"

lemma frees_0: "frees 0 I (\<lambda>_. Inr)"
  by (simp add: frees_def)

lemma free_pte_eq:
  assumes "i < 512" "pmm_ok (vpmm s)" "child (mem s) (tab s p) i < 64 * FRAME_BITMAP_SIZE"
  shows "\<exists>m. free_pte p i s = Inr (s\<lparr>vpmm := m, mem := (mem s)(tab s p := (mem s (tab s p))(i := put_bit 0 False (mem s (tab s p) i)))\<rparr>) \<and>
    pmm_ok m \<and> free_set m = insert (child (mem s) (tab s p) i) (free_set (vpmm s))"
  using free_frame_eq [OF assms(2), of "push_bit 12 (ent_addr (mem s (tab s p) i))"] assms
  by (auto simp: free_pte_def frame_of_push child_def)

lemma free_entry_eqs: "free_pde = free_pte" "free_pdpte = free_pte" "free_pml4e = free_pte"
  by (intro ext, simp add: free_pte_def free_pde_def free_pdpte_def free_pml4e_def)+

text \<open>The frames below the first \<open>i\<close> entries of a table.\<close>

definition below :: "nat \<Rightarrow> pmem \<Rightarrow> nat \<Rightarrow> nat \<Rightarrow> nat set" where
  "below k m t i = (\<Union>j \<in> {j. j < i \<and> present m t j}. frames k {..<512} m (child m t j))"

lemma below_Suc: "below k m t (Suc i) = below k m t i \<union> (if present m t i then frames k {..<512} m (child m t i) else {})"
  by (auto simp: below_def less_Suc_eq)

lemma frames_below: "frames (Suc k) {..<i} m t = insert t (below k m t i)"
  by (auto simp: frames.simps(2) below_def)

lemma below_mono: "i \<le> b \<Longrightarrow> below k m t i \<subseteq> below k m t b"
  by (auto simp: below_def intro: less_le_trans)

lemma below_disjoint:
  assumes "tree (Suc k) {..<b} m t" "i < b" "present m t i"
  shows "frames k {..<512} m (child m t i) \<inter> insert t (below k m t i) = {}"
proof -
  have iI: "i \<in> {..<b}" using assms(2) by simp
  have "frames k {..<512} m (child m t i) \<inter> frames k {..<512} m (child m t j) = {}" if "j < i" "present m t j" for j
    by (rule tree_SucD(3) [OF assms(1) iI assms(3)]) (use that assms(2) in auto)
  with tree_SucD(2) [OF assms(1) iI assms(3)] show ?thesis unfolding below_def by blast
qed

lemma root_not_below: "tree (Suc k) {..<b} m t \<Longrightarrow> i \<le> b \<Longrightarrow> t \<notin> below k m t i"
  using tree_SucD(2) [of k "{..<b}" m t] by (fastforce simp: below_def)

definition freed_upto :: "nat \<Rightarrow> u64 \<Rightarrow> vmm \<Rightarrow> nat \<Rightarrow> vmm \<Rightarrow> bool" where
  "freed_upto k q s i t \<longleftrightarrow> ctl_eq s t \<and> pmm_ok (vpmm t) \<and> free_set (vpmm t) = free_set (vpmm s) \<union> below k (mem s) (tab s q) i \<and>
     (\<forall>j \<ge> i. mem t (tab s q) j = mem s (tab s q) j) \<and>
     (\<forall>u. u \<notin> insert (tab s q) (below k (mem s) (tab s q) i) \<longrightarrow> mem t u = mem s u)"

lemma free_loop_step:
  assumes "frees k {..<512} sub" "freed_upto k q s i t" "i < b" "b \<le> 512" "tree (Suc k) {..<b} (mem s) (tab s q)"
    "frames (Suc k) {..<b} (mem s) (tab s q) \<subseteq> {..<64 * FRAME_BITMAP_SIZE}"
  shows "\<exists>t'. kbind (ldq t q i) (\<lambda>e. if \<not> bit e 0 then Inr t else kbind (sub (get_pdpt t e) t) (free_pte q i)) = Inr t' \<and>
    freed_upto k q s (Suc i) t'"
proof -
  let ?c = "tab s q" and ?d = "child (mem s) (tab s q) i"
  note f = assms(2) [unfolded freed_upto_def]
  have tq: "tab t q = ?c" using f by (simp add: ctl_eq_tab)
  have e: "mem t ?c i = mem s ?c i" using f by simp
  have i512: "i < 512" using assms(3,4) by simp
  show ?thesis
  proof (cases "present (mem s) ?c i")
    case False
    then show ?thesis using f i512 tq e by (intro exI [of _ t]) (auto simp: present_def freed_upto_def below_Suc)
  next
    case True
    have dis: "frames k {..<512} (mem s) ?d \<inter> insert ?c (below k (mem s) ?c i) = {}" by (rule below_disjoint [OF assms(5,3) True])
    have same: "mem t u = mem s u" if "u \<in> frames k {..<512} (mem s) ?d" for u using f dis that by blast
    have fr: "frames k {..<512} (mem t) ?d = frames k {..<512} (mem s) ?d" by (rule frames_cong' [OF same])
    have iI: "i \<in> {..<b}" using assms(3) by simp
    have tr: "tree k {..<512} (mem t) ?d" by (rule tree_cong' [OF same tree_SucD(1) [OF assms(5) iI True]])
    have tp: "tab t (get_pdpt t (mem s ?c i)) = ?d" by (simp add: child_def)
    have bd: "frames k {..<512} (mem s) ?d \<subseteq> {..<64 * FRAME_BITMAP_SIZE}" using child_frames_sub [OF iI True, of k] assms(6) by blast
    obtain t1 where t1: "sub (get_pdpt t (mem s ?c i)) t = Inr t1" "ctl_eq t t1" "pmm_ok (vpmm t1)"
        "free_set (vpmm t1) = free_set (vpmm t) \<union> (frames k {..<512} (mem s) ?d - {?d})"
        "\<forall>u. u \<notin> frames k {..<512} (mem s) ?d \<longrightarrow> mem t1 u = mem t u"
      using assms(1) [unfolded frees_def, rule_format, of t "get_pdpt t (mem s ?c i)"] f tr bd unfolding tp fr by blast
    have c1: "mem t1 ?c = mem t ?c" using t1(5) dis by blast
    have t1q: "tab t1 q = ?c" using ctl_eq_tab(1) [OF t1(2)] tq by simp
    have ch: "child (mem t1) (tab t1 q) i = ?d" using c1 t1q e by (simp add: child_def)
    have "?d < 64 * FRAME_BITMAP_SIZE" using bd by auto
    then obtain m where m: "free_pte q i t1 = Inr (t1\<lparr>vpmm := m, mem := (mem t1)(?c := (mem t1 ?c)(i := put_bit 0 False (mem t1 ?c i)))\<rparr>)"
        "pmm_ok m" "free_set m = insert ?d (free_set (vpmm t1))"
      using free_pte_eq [OF i512 t1(3), of q] unfolding ch unfolding t1q by blast
    let ?t' = "t1\<lparr>vpmm := m, mem := (mem t1)(?c := (mem t1 ?c)(i := put_bit 0 False (mem t1 ?c i)))\<rparr>"
    have "bit (mem s ?c i) 0" using True by (simp add: present_def)
    then have "kbind (ldq t q i) (\<lambda>e. if \<not> bit e 0 then Inr t else kbind (sub (get_pdpt t e) t) (free_pte q i)) = Inr ?t'"
      using i512 tq e t1(1) m(1) by simp
    moreover have "freed_upto k q s (Suc i) ?t'" unfolding freed_upto_def
    proof (intro conjI allI impI)
      show "ctl_eq s ?t'" using f t1(2) ctl_eq_trans by (simp, blast)
      show "pmm_ok (vpmm ?t')" using m(2) by simp
      show "free_set (vpmm ?t') = free_set (vpmm s) \<union> below k (mem s) ?c (Suc i)"
        using m(3) t1(4) f True root_in_frames [of ?d k "{..<512}" "mem s"] by (auto simp: below_Suc)
      show "mem ?t' ?c j = mem s ?c j" if "Suc i \<le> j" for j using that c1 f by simp
      show "mem ?t' u = mem s u" if "u \<notin> insert ?c (below k (mem s) ?c (Suc i))" for u
        using that t1(5) f True by (simp add: below_Suc)
    qed
    ultimately show ?thesis by blast
  qed
qed

lemma free_loop_frees:
  assumes "frees k {..<512} sub" "b \<le> 512"
  shows "frees (Suc k) {..<b} (\<lambda>q. kfor 0 b (\<lambda>i s. kbind (ldq s q i) (\<lambda>e.
    if \<not> bit e 0 then Inr s else kbind (sub (get_pdpt s e) s) (free_pte q i))))"
  unfolding frees_def
proof (intro allI impI; elim conjE)
  fix s q
  assume a: "pmm_ok (vpmm s)" "tree (Suc k) {..<b} (mem s) (tab s q)" "frames (Suc k) {..<b} (mem s) (tab s q) \<subseteq> {..<64 * FRAME_BITMAP_SIZE}"
  let ?body = "\<lambda>i s. kbind (ldq s q i) (\<lambda>e. if \<not> bit e 0 then Inr s else kbind (sub (get_pdpt s e) s) (free_pte q i))"
  have z: "freed_upto k q s 0 s" using a(1) by (simp add: freed_upto_def below_def)
  have "\<exists>s'. kfor 0 b ?body s = Inr s' \<and> freed_upto k q s b s'"
    by (rule kfor_rule [where I = "freed_upto k q s", OF z]) (use free_loop_step [OF assms(1) _ _ assms(2) a(2,3)] in auto)
  then obtain s' where "kfor 0 b ?body s = Inr s'" "freed_upto k q s b s'" by blast
  moreover have "tab s q \<notin> below k (mem s) (tab s q) b" by (rule root_not_below [OF a(2) order_refl])
  then have "frames (Suc k) {..<b} (mem s) (tab s q) - {tab s q} = below k (mem s) (tab s q) b" by (auto simp: frames_below)
  ultimately show "\<exists>s'. kfor 0 b ?body s = Inr s' \<and> ctl_eq s s' \<and> pmm_ok (vpmm s') \<and>
      free_set (vpmm s') = free_set (vpmm s) \<union> (frames (Suc k) {..<b} (mem s) (tab s q) - {tab s q}) \<and>
      (\<forall>u. u \<notin> frames (Suc k) {..<b} (mem s) (tab s q) \<longrightarrow> mem s' u = mem s u)"
    by (auto simp: freed_upto_def frames_below)
qed

lemma free_loops: "frees 1 {..<512} free_pt_loop" "frees 2 {..<512} free_pd_loop" "frees 3 {..<512} free_pdpt_loop"
proof -
  have g: "get_pt s e = get_pdpt s e" "get_pd s e = get_pdpt s e" for s e by (simp_all add: get_pdpt_def get_pd_def get_pt_def)
  have n: "Suc 0 = 1" "Suc 1 = 2" "Suc 2 = 3" by simp_all
  show 1: "frees 1 {..<512} free_pt_loop"
    using free_loop_frees [OF frees_0, of 512] unfolding free_pt_loop_def [abs_def] kbind_simps NUM_PT_ENTRIES_eq n by simp
  show 2: "frees 2 {..<512} free_pd_loop"
    using free_loop_frees [OF 1, of 512] unfolding free_pd_loop_def [abs_def] free_entry_eqs g NUM_PT_ENTRIES_eq n by simp
  show "frees 3 {..<512} free_pdpt_loop"
    using free_loop_frees [OF 2, of 512] unfolding free_pdpt_loop_def [abs_def] free_entry_eqs g NUM_PT_ENTRIES_eq n by simp
qed

lemma kernel_index_less: "get_kernel_pml4_index s < 512"
  using idx_less [of 39 "hhdm_offset s"] by (simp add: get_kernel_pml4_index_def idx_of_def)

lemma free_user_pml4_ok:
  assumes "space_ok 4 {..<get_kernel_pml4_index s} s (tab s q)" "q \<noteq> kernel_pml4 s" "q \<noteq> 0"
  shows "\<exists>s'. free_user_pml4 q s = Inr s' \<and> ctl_eq s s' \<and> pmm_ok (vpmm s') \<and>
    free_set (vpmm s') = free_set (vpmm s) \<union> frames 4 {..<get_kernel_pml4_index s} (mem s) (tab s q) \<and>
    (\<forall>u. u \<notin> frames 4 {..<get_kernel_pml4_index s} (mem s) (tab s q) \<longrightarrow> mem s' u = mem s u)"
proof -
  let ?K = "get_kernel_pml4_index s" and ?r = "tab s q"
  have sp: "pmm_ok (vpmm s)" "tree (Suc 3) {..<?K} (mem s) ?r" "frames (Suc 3) {..<?K} (mem s) ?r \<subseteq> {..<64 * FRAME_BITMAP_SIZE}"
    using assms(1) by (auto simp: space_ok_def)
  have k4: "Suc 3 = 4" by simp
  obtain s1 where s1: "kfor 0 ?K (\<lambda>i s. kbind (ldq s q i) (\<lambda>e.
        if \<not> bit e 0 then Inr s else kbind (free_pdpt_loop (get_pdpt s e) s) (free_pte q i))) s = Inr s1"
      "ctl_eq s s1" "pmm_ok (vpmm s1)" "free_set (vpmm s1) = free_set (vpmm s) \<union> (frames 4 {..<?K} (mem s) ?r - {?r})"
      "\<forall>u. u \<notin> frames 4 {..<?K} (mem s) ?r \<longrightarrow> mem s1 u = mem s u"
    using free_loop_frees [OF free_loops(3) less_imp_le [OF kernel_index_less], unfolded frees_def k4, rule_format, of s s q] sp unfolding k4 by blast
  have t1: "tab s1 q = ?r" by (rule ctl_eq_tab(1) [OF s1(2)])
  let ?s2 = "s1\<lparr>mem := (mem s1)(?r := zeroed (mem s1 ?r))\<rparr>"
  have z: "zero_page q s1 = Inr ?s2" using zero_page_eq [OF assms(3), of s1] by (simp add: t1)
  have "frame_of (hhdm_vtop ?s2 q) = ?r" using t1 by (simp add: tab_def hhdm_vtop_def)
  moreover have "?r < 64 * FRAME_BITMAP_SIZE" using sp(3) by auto
  ultimately obtain m where m: "free_frame (hhdm_vtop ?s2 q) (vpmm ?s2) = Inr m" "pmm_ok m" "free_set m = insert ?r (free_set (vpmm s1))"
    using free_frame_eq [of "vpmm ?s2" "hhdm_vtop ?s2 q"] s1(3) by auto
  have "free_user_pml4 q s = Inr (?s2\<lparr>vpmm := m\<rparr>)"
    unfolding free_user_pml4_def free_entry_eqs using assms(2) s1(1) z m(1) by simp
  then show ?thesis using s1 m by (intro exI [of _ "?s2\<lparr>vpmm := m\<rparr>"]) auto
qed

end
