(* ===== verification/Vmm_Clone.thy ===== *)
theory Vmm_Clone
  imports Vmm_Free
begin

unbundle bit_operations_syntax

text \<open>
  Copying an address space: \<^verbatim>\<open>clone_user_pml4\<close> builds a second tree of tables with new frames, in which every
  page of the first has a copy with the same contents and flags. As for freeing, one lemma covers the loop over
  a table at any level, given what is done for one entry.
\<close>

definition same_flags :: "u64 \<Rightarrow> u64 \<Rightarrow> bool" where
  "same_flags e e' \<longleftrightarrow> (\<forall>b. b < 12 \<or> 51 < b \<longrightarrow> bit e' b = bit e b)"

text \<open>\<open>cloned k I m m' t c\<close>: the tree at \<open>c\<close> in \<open>m'\<close> maps what the tree at \<open>t\<close> in \<open>m\<close> maps, to pages with the same contents.\<close>

primrec cloned :: "nat \<Rightarrow> nat set \<Rightarrow> pmem \<Rightarrow> pmem \<Rightarrow> nat \<Rightarrow> nat \<Rightarrow> bool" where
  "cloned 0 I m m' t c \<longleftrightarrow> (\<forall>i < 512. m' c i = m t i)"
| "cloned (Suc k) I m m' t c \<longleftrightarrow> (\<forall>i \<in> I. (present m' c i \<longleftrightarrow> present m t i) \<and>
     (present m t i \<longrightarrow> cloned k {..<512} m m' (child m t i) (child m' c i) \<and> (k = 0 \<longrightarrow> same_flags (m t i) (m' c i))))"

lemma cloned_cong:
  "(\<And>u. u \<in> frames k I m t \<Longrightarrow> n u = m u) \<Longrightarrow> (\<And>u. u \<in> frames k I m' c \<Longrightarrow> n' u = m' u) \<Longrightarrow> cloned k I m m' t c \<Longrightarrow> cloned k I n n' t c"
proof (induction k arbitrary: I t c)
  case 0
  then show ?case by simp
next
  case (Suc k)
  have e: "n t = m t" "n' c = m' c" using Suc.prems(1,2) by auto
  have "cloned k {..<512} n n' (child m t i) (child m' c i)" if i: "i \<in> I" "present m t i" for i
  proof (rule Suc.IH)
    have pc: "present m' c i" using Suc.prems(3) i by simp
    show "n u = m u" if "u \<in> frames k {..<512} m (child m t i)" for u by (rule Suc.prems(1)) (rule subsetD [OF child_frames_sub [OF i] that])
    show "n' u = m' u" if "u \<in> frames k {..<512} m' (child m' c i)" for u
      by (rule Suc.prems(2)) (rule subsetD [OF child_frames_sub [OF i(1) pc] that])
    show "cloned k {..<512} m m' (child m t i) (child m' c i)" using Suc.prems(3) i by simp
  qed
  with Suc.prems(3) e show ?case by (simp add: present_def child_def)
qed

section \<open>Copying one entry\<close>

definition took :: "nat set \<Rightarrow> vmm \<Rightarrow> vmm \<Rightarrow> bool" where
  "took N s t \<longleftrightarrow> ctl_eq s t \<and> pmm_ok (vpmm t) \<and> N \<subseteq> avail (vpmm s) \<and> avail (vpmm t) = avail (vpmm s) - N \<and>
     free_set (vpmm t) = free_set (vpmm s) - N"

lemma took_trans: "took M s t \<Longrightarrow> took N t u \<Longrightarrow> took (M \<union> N) s u"
  unfolding took_def by (auto intro: ctl_eq_trans)

definition entry_pre :: "nat \<Rightarrow> nat \<Rightarrow> u64 \<Rightarrow> u64 \<Rightarrow> vmm \<Rightarrow> bool" where
  "entry_pre k i q' q s \<longleftrightarrow> i < 512 \<and> pmm_ok (vpmm s) \<and> hhdm_ok s \<and> present (mem s) (tab s q) i \<and> \<not> present (mem s) (tab s q') i \<and>
     tree k {..<512} (mem s) (child (mem s) (tab s q) i) \<and>
     insert (tab s q) (frames k {..<512} (mem s) (child (mem s) (tab s q) i)) \<inter> insert (tab s q') (free_set (vpmm s)) = {} \<and>
     tab s q' \<notin> free_set (vpmm s) \<and> card (frames k {..<512} (mem s) (child (mem s) (tab s q) i)) \<le> card (avail (vpmm s))"

definition entry_post :: "nat \<Rightarrow> nat \<Rightarrow> u64 \<Rightarrow> u64 \<Rightarrow> vmm \<Rightarrow> nat set \<Rightarrow> vmm \<Rightarrow> bool" where
  "entry_post k i q' q s N t \<longleftrightarrow> took N s t \<and> (\<forall>u. u \<notin> insert (tab s q') N \<longrightarrow> mem t u = mem s u) \<and>
     (\<forall>j. j \<noteq> i \<longrightarrow> mem t (tab s q') j = mem s (tab s q') j) \<and> present (mem t) (tab s q') i \<and>
     frames k {..<512} (mem t) (child (mem t) (tab s q') i) = N \<and> tree k {..<512} (mem t) (child (mem t) (tab s q') i) \<and>
     cloned k {..<512} (mem s) (mem t) (child (mem s) (tab s q) i) (child (mem t) (tab s q') i) \<and>
     (k = 0 \<longrightarrow> same_flags (mem s (tab s q) i) (mem t (tab s q') i)) \<and>
     card N = card (frames k {..<512} (mem s) (child (mem s) (tab s q) i))"

definition clones_entry :: "nat \<Rightarrow> (u64 \<Rightarrow> u64 \<Rightarrow> nat \<Rightarrow> vmm \<Rightarrow> vmm kres) \<Rightarrow> bool" where
  "clones_entry k step \<longleftrightarrow> (\<forall>i q' q s. entry_pre k i q' q s \<longrightarrow> (\<exists>t N. step q' q i s = Inr t \<and> entry_post k i q' q s N t))"

section \<open>Copying a table\<close>

definition clones :: "nat \<Rightarrow> nat set \<Rightarrow> (u64 \<Rightarrow> u64 \<Rightarrow> vmm \<Rightarrow> vmm kres) \<Rightarrow> bool" where
  "clones k I op \<longleftrightarrow> (\<forall>q' q s. pmm_ok (vpmm s) \<and> hhdm_ok s \<and> tree k I (mem s) (tab s q) \<and>
     frames k I (mem s) (tab s q) \<inter> insert (tab s q') (free_set (vpmm s)) = {} \<and> tab s q' \<notin> free_set (vpmm s) \<and>
     (\<forall>i \<in> I. \<not> present (mem s) (tab s q') i) \<and> card (frames k I (mem s) (tab s q)) \<le> card (avail (vpmm s)) + 1 \<longrightarrow>
     (\<exists>t N. op q' q s = Inr t \<and> took N s t \<and> (\<forall>u. u \<notin> insert (tab s q') N \<longrightarrow> mem t u = mem s u) \<and>
       (\<forall>j. j \<notin> I \<longrightarrow> mem t (tab s q') j = mem s (tab s q') j) \<and> frames k I (mem t) (tab s q') = insert (tab s q') N \<and>
       tree k I (mem t) (tab s q') \<and> cloned k I (mem s) (mem t) (tab s q) (tab s q') \<and>
       card (insert (tab s q') N) = card (frames k I (mem s) (tab s q))))"

definition cloned_upto :: "nat \<Rightarrow> u64 \<Rightarrow> u64 \<Rightarrow> vmm \<Rightarrow> nat \<Rightarrow> vmm \<Rightarrow> bool" where
  "cloned_upto k q' q s i t \<longleftrightarrow> (\<exists>N. took N s t \<and> (\<forall>u. u \<notin> insert (tab s q') N \<longrightarrow> mem t u = mem s u) \<and>
     (\<forall>j \<ge> i. mem t (tab s q') j = mem s (tab s q') j) \<and> frames (Suc k) {..<i} (mem t) (tab s q') = insert (tab s q') N \<and>
     tree (Suc k) {..<i} (mem t) (tab s q') \<and> cloned (Suc k) {..<i} (mem s) (mem t) (tab s q) (tab s q') \<and>
     card N = card (below k (mem s) (tab s q) i))"

lemma finite_below [simp]: "finite (below k m t i)"
  unfolding below_def by (auto intro: finite_frames)

text \<open>One more entry of the new table is filled: entry \<open>i\<close> of \<open>c\<close> gets a subtree on the frames \<open>M\<close>.\<close>

definition grows :: "nat \<Rightarrow> nat \<Rightarrow> nat \<Rightarrow> pmem \<Rightarrow> nat set \<Rightarrow> pmem \<Rightarrow> nat set \<Rightarrow> bool" where
  "grows k i c m N m' M \<longleftrightarrow> (\<forall>j. j \<noteq> i \<longrightarrow> m' c j = m c j) \<and> (\<forall>u. u \<notin> insert c M \<longrightarrow> m' u = m u) \<and>
     tree (Suc k) {..<i} m c \<and> frames (Suc k) {..<i} m c = insert c N \<and> present m' c i \<and>
     frames k {..<512} m' (child m' c i) = M \<and> tree k {..<512} m' (child m' c i) \<and> N \<inter> M = {} \<and> c \<notin> N \<and> c \<notin> M"

lemma grows_old:
  assumes "grows k i c m N m' M" "j \<noteq> i"
  shows "present m' c j = present m c j" "child m' c j = child m c j"
  using assms by (simp_all add: grows_def present_def child_def)

lemma grows_old_mem:
  assumes g: "grows k i c m N m' M" and j: "j < i" "present m c j"
  shows "frames k {..<512} m (child m c j) \<subseteq> N"
    and "u \<in> frames k {..<512} m (child m c j) \<Longrightarrow> m' u = m u"
    and "frames k {..<512} m' (child m c j) = frames k {..<512} m (child m c j)"
proof -
  have "frames k {..<512} m (child m c j) \<subseteq> insert c N"
    using child_frames_sub [of j "{..<i}" m c k] j g by (simp add: grows_def)
  moreover have "c \<notin> frames k {..<512} m (child m c j)" using tree_SucD(2) [of k "{..<i}" m c j] j g by (simp add: grows_def)
  ultimately show s: "frames k {..<512} m (child m c j) \<subseteq> N" by blast
  have eq: "m' u = m u" if "u \<in> frames k {..<512} m (child m c j)" for u
  proof -
    have "u \<in> N" using s that by blast
    then have "u \<notin> insert c M" using g unfolding grows_def by blast
    then show ?thesis using g unfolding grows_def by blast
  qed
  then show "u \<in> frames k {..<512} m (child m c j) \<Longrightarrow> m' u = m u" .
  show "frames k {..<512} m' (child m c j) = frames k {..<512} m (child m c j)" by (rule frames_cong' [OF eq])
qed

lemma grows_frames:
  assumes g: "grows k i c m N m' M"
  shows "frames (Suc k) {..<Suc i} m' c = insert c (N \<union> M)"
proof -
  have S: "{j \<in> {..<Suc i}. present m' c j} = insert i {j \<in> {..<i}. present m c j}"
    using grows_old(1) [OF g] g [unfolded grows_def] by (auto simp: less_Suc_eq)
  have "frames (Suc k) {..<Suc i} m' c = M \<union> insert c (\<Union>j \<in> {j \<in> {..<i}. present m c j}. frames k {..<512} m' (child m' c j))"
    unfolding frames.simps(2) S UN_insert using g by (simp add: grows_def)
  also have "(\<Union>j \<in> {j \<in> {..<i}. present m c j}. frames k {..<512} m' (child m' c j)) =
      (\<Union>j \<in> {j \<in> {..<i}. present m c j}. frames k {..<512} m (child m c j))"
    using grows_old(2) [OF g] grows_old_mem(3) [OF g] by simp
  also have "insert c (\<Union>j \<in> {j \<in> {..<i}. present m c j}. frames k {..<512} m (child m c j)) = insert c N"
    using g by (simp add: grows_def frames.simps(2))
  finally show ?thesis by (simp add: Un_commute)
qed

lemma grows_tree:
  assumes g: "grows k i c m N m' M"
  shows "tree (Suc k) {..<Suc i} m' c"
proof (rule tree_SucI)
  have new: "frames k {..<512} m' (child m' c i) = M" "tree k {..<512} m' (child m' c i)" "c \<notin> N" "c \<notin> M" "N \<inter> M = {}"
    and tr: "tree (Suc k) {..<i} m c" using g by (simp_all add: grows_def)
  have old: "j < i \<and> present m c j" if "j \<in> {..<Suc i}" "present m' c j" "j \<noteq> i" for j using that grows_old(1) [OF g] by simp
  have N: "frames k {..<512} m' (child m' c j) \<subseteq> N" if "j < i \<and> present m c j" for j
    using grows_old_mem(1,3) [OF g, of j] grows_old(2) [OF g, of j] that by simp
  fix j assume j: "j \<in> {..<Suc i}" "present m' c j"
  show "tree k {..<512} m' (child m' c j)"
  proof (cases "j = i")
    case False
    then have ji: "j < i" "present m c j" using old [OF j] by simp_all
    have "tree k {..<512} m' (child m c j)" by (rule tree_cong' [OF grows_old_mem(2) [OF g ji] tree_SucD(1) [OF tr]]) (use ji in auto)
    then show ?thesis using grows_old(2) [OF g False] by simp
  qed (use new in simp)
  show "c \<notin> frames k {..<512} m' (child m' c j)" using N [OF old [OF j]] new by (cases "j = i") auto
  fix l assume l: "l \<in> {..<Suc i}" "present m' c l" "j \<noteq> l"
  consider "j = i" "l \<noteq> i" | "l = i" "j \<noteq> i" | "j \<noteq> i" "l \<noteq> i" using l(3) by blast
  then show "frames k {..<512} m' (child m' c j) \<inter> frames k {..<512} m' (child m' c l) = {}"
  proof cases
    case 1
    then show ?thesis using N [OF old [OF l(1,2)]] new by auto
  next
    case 2
    then show ?thesis using N [OF old [OF j]] new by auto
  next
    case 3
    then have "frames k {..<512} m (child m c j) \<inter> frames k {..<512} m (child m c l) = {}"
      using old [OF j] old [OF l(1,2)] l(3) by (intro tree_SucD(3) [OF tr]) auto
    then show ?thesis using 3 old [OF j] old [OF l(1,2)] grows_old(2) [OF g] grows_old_mem(3) [OF g] by simp
  qed
qed

lemma grows_cloned:
  assumes g: "grows k i c m N m' M" and cl: "cloned (Suc k) {..<i} n m t c"
    and new: "present n t i" "cloned k {..<512} n m' (child n t i) (child m' c i)" "k = 0 \<longrightarrow> same_flags (n t i) (m' c i)"
  shows "cloned (Suc k) {..<Suc i} n m' t c"
  unfolding cloned.simps(2)
proof (intro ballI)
  fix j assume "j \<in> {..<Suc i}"
  then consider "j = i" | "j < i" "j \<noteq> i" by fastforce
  then show "(present m' c j \<longleftrightarrow> present n t j) \<and> (present n t j \<longrightarrow>
      cloned k {..<512} n m' (child n t j) (child m' c j) \<and> (k = 0 \<longrightarrow> same_flags (n t j) (m' c j)))"
  proof cases
    case 1
    then show ?thesis using new g by (simp add: grows_def)
  next
    case 2
    have m: "m' c j = m c j" using g 2(2) by (simp add: grows_def)
    have c: "(present m c j \<longleftrightarrow> present n t j) \<and> (present n t j \<longrightarrow>
        cloned k {..<512} n m (child n t j) (child m c j) \<and> (k = 0 \<longrightarrow> same_flags (n t j) (m c j)))" using cl 2(1) by simp
    have "cloned k {..<512} n m' (child n t j) (child m c j)" if "present n t j"
      by (rule cloned_cong [of k "{..<512}" n _ n m]) (use c that grows_old_mem(2) [OF g 2(1)] in auto)
    then show ?thesis using c m grows_old [OF g 2(2)] by simp
  qed
qed

text \<open>One entry of the old table is not present: nothing changes.\<close>

lemma absent_upto:
  assumes "\<not> present m c i"
  shows "frames (Suc k) {..<Suc i} m c = frames (Suc k) {..<i} m c" "tree (Suc k) {..<i} m c \<Longrightarrow> tree (Suc k) {..<Suc i} m c"
    "\<not> present n t i \<Longrightarrow> cloned (Suc k) {..<i} n m t c \<Longrightarrow> cloned (Suc k) {..<Suc i} n m t c"
proof -
  have S: "{j \<in> {..<Suc i}. present m c j} = {j \<in> {..<i}. present m c j}" using assms by (auto simp: less_Suc_eq)
  have *: "j \<in> {..<Suc i} \<Longrightarrow> present m c j \<Longrightarrow> j \<in> {..<i}" for j using S by blast
  show "frames (Suc k) {..<Suc i} m c = frames (Suc k) {..<i} m c" unfolding frames.simps(2) S ..
  show "tree (Suc k) {..<i} m c \<Longrightarrow> tree (Suc k) {..<Suc i} m c"
    by (rule tree_SucI) (use * in \<open>auto dest: tree_SucD\<close>)
  show "\<not> present n t i \<Longrightarrow> cloned (Suc k) {..<i} n m t c \<Longrightarrow> cloned (Suc k) {..<Suc i} n m t c"
    using assms by (auto simp: less_Suc_eq)
qed

lemma clone_loop_step:
  assumes "clones_entry k step" "cloned_upto k q' q s i t" "i < b" "b \<le> 512"
    "pmm_ok (vpmm s)" "hhdm_ok s" "tree (Suc k) {..<b} (mem s) (tab s q)"
    "frames (Suc k) {..<b} (mem s) (tab s q) \<inter> insert (tab s q') (free_set (vpmm s)) = {}" "tab s q' \<notin> free_set (vpmm s)"
    "\<forall>i \<in> {..<b}. \<not> present (mem s) (tab s q') i" "card (frames (Suc k) {..<b} (mem s) (tab s q)) \<le> card (avail (vpmm s)) + 1"
  shows "\<exists>t'. kbind (ldq t q i) (\<lambda>e. if \<not> bit e 0 then Inr t else step q' q i t) = Inr t' \<and> cloned_upto k q' q s (Suc i) t'"
proof -
  let ?c = "tab s q'" and ?t = "tab s q" and ?d = "child (mem s) (tab s q) i"
  obtain N where N: "took N s t" "\<forall>u. u \<notin> insert ?c N \<longrightarrow> mem t u = mem s u" "\<forall>j \<ge> i. mem t ?c j = mem s ?c j"
      "frames (Suc k) {..<i} (mem t) ?c = insert ?c N" "tree (Suc k) {..<i} (mem t) ?c" "cloned (Suc k) {..<i} (mem s) (mem t) ?t ?c"
      "card N = card (below k (mem s) ?t i)"
    using assms(2) unfolding cloned_upto_def by blast
  have ct: "ctl_eq s t" using N(1) by (simp add: took_def)
  note tb = ctl_eq_tab(1) [OF ct]
  have av: "avail (vpmm s) \<subseteq> free_set (vpmm s)" using avail_bounds [OF assms(5)] by blast
  have Nf: "N \<subseteq> free_set (vpmm s)" using N(1) av by (auto simp: took_def)
  have F: "insert ?t (below k (mem s) ?t b) \<inter> insert ?c (free_set (vpmm s)) = {}" using assms(8) by (simp add: frames_below)
  have tt: "mem t ?t = mem s ?t" using N(2) Nf F by blast
  have i512: "i < 512" and iI: "i \<in> {..<b}" using assms(3,4) by simp_all
  have nc: "\<not> present (mem t) ?c i" using N(3) assms(10) iI by (simp add: present_def)
  show ?thesis
  proof (cases "present (mem s) ?t i")
    case False
    have "cloned_upto k q' q s (Suc i) t"
      unfolding cloned_upto_def using N False absent_upto [OF nc, where k = k] by (intro exI [of _ N]) (simp add: below_Suc del: cloned.simps)
    then show ?thesis using i512 False by (intro exI [of _ t]) (simp add: tb tt present_def)
  next
    case True
    have db: "frames k {..<512} (mem s) ?d \<subseteq> below k (mem s) ?t b" using True assms(3) by (auto simp: below_def)
    have same: "mem t u = mem s u" if "u \<in> frames k {..<512} (mem s) ?d" for u using N(2) Nf F db that by blast
    have cd: "child (mem t) ?t i = ?d" "present (mem t) ?t i" using tt True by (simp_all add: child_def present_def)
    have fr: "frames k {..<512} (mem t) ?d = frames k {..<512} (mem s) ?d" by (rule frames_cong' [OF same])
    have tr: "tree k {..<512} (mem t) ?d" by (rule tree_cong' [OF same tree_SucD(1) [OF assms(7) iI True]])
    have dis: "below k (mem s) ?t i \<inter> frames k {..<512} (mem s) ?d = {}" using below_disjoint [OF assms(7,3) True] by blast
    have bs: "below k (mem s) ?t (Suc i) = below k (mem s) ?t i \<union> frames k {..<512} (mem s) ?d" using True by (simp add: below_Suc)
    then have cb: "card (below k (mem s) ?t (Suc i)) = card (below k (mem s) ?t i) + card (frames k {..<512} (mem s) ?d)"
      using dis by (simp add: card_Un_disjoint finite_frames)
    have "card (below k (mem s) ?t (Suc i)) \<le> card (below k (mem s) ?t b)" by (intro card_mono finite_below below_mono) (use assms(3) in simp)
    also have "\<dots> \<le> card (avail (vpmm s))" using assms(11) root_not_below [OF assms(7) order_refl] by (simp add: frames_below)
    finally have "card (frames k {..<512} (mem s) ?d) + card N \<le> card (avail (vpmm s))" using cb N(7) by simp
    moreover have "card (avail (vpmm t)) = card (avail (vpmm s)) - card N"
      using N(1) card_Diff_subset [of N "avail (vpmm s)"] finite_subset [of N "avail (vpmm s)"] by (simp add: took_def)
    ultimately have ca: "card (frames k {..<512} (mem s) ?d) \<le> card (avail (vpmm t))" by linarith
    have "entry_pre k i q' q t"
      unfolding entry_pre_def tb cd(1) fr using i512 N(1) ctl_eq_tab(3) [OF ct] assms(6,9) cd(2) nc tr ca F db Nf by (auto simp: took_def)
    then obtain t' M where st: "step q' q i t = Inr t'" "entry_post k i q' q t M t'" using assms(1) unfolding clones_entry_def by blast
    note p = st(2) [unfolded entry_post_def tb cd(1) fr]
    have tM: "took (N \<union> M) s t'" using p N(1) took_trans by blast
    have "M \<subseteq> avail (vpmm s) - N" using p N(1) by (simp add: took_def)
    then have NM: "N \<inter> M = {}" "?c \<notin> N" "?c \<notin> M" using assms(9) Nf av by blast+
    have g: "grows k i ?c (mem t) N (mem t') M" unfolding grows_def using p N(4,5) NM by simp
    have "cloned k {..<512} (mem s) (mem t') ?d (child (mem t') ?c i)"
      by (rule cloned_cong [of k "{..<512}" "mem t" _ _ "mem t'"]) (use p same fr in auto)
    then have cl': "cloned (Suc k) {..<Suc i} (mem s) (mem t') ?t ?c" using p tt by (intro grows_cloned [OF g N(6) True]) auto
    have fin: "finite N" "finite M" using tM finite_subset [of "N \<union> M" "avail (vpmm s)"] by (auto simp: took_def)
    have "cloned_upto k q' q s (Suc i) t'" unfolding cloned_upto_def
    proof (intro exI [of _ "N \<union> M"] conjI allI impI)
      show "mem t' u = mem s u" if "u \<notin> insert ?c (N \<union> M)" for u using that p N(2) by simp
      show "mem t' ?c j = mem s ?c j" if "Suc i \<le> j" for j using that p N(3) by simp
      show "card (N \<union> M) = card (below k (mem s) ?t (Suc i))" using cb N(7) p NM(1) fin by (simp add: card_Un_disjoint)
    qed (use tM grows_frames [OF g] grows_tree [OF g] cl' in auto)
    then show ?thesis using st(1) i512 True by (intro exI [of _ t']) (simp add: tb tt present_def)
  qed
qed

lemma clone_loop_clones:
  assumes "clones_entry k step" "b \<le> 512"
  shows "clones (Suc k) {..<b} (\<lambda>q' q. kfor 0 b (\<lambda>i s. kbind (ldq s q i) (\<lambda>e. if \<not> bit e 0 then Inr s else step q' q i s)))"
  unfolding clones_def
proof (intro allI impI; elim conjE)
  fix q' q s
  let ?c = "tab s q'" and ?t = "tab s q"
  let ?body = "\<lambda>i s. kbind (ldq s q i) (\<lambda>e. if \<not> bit e 0 then Inr s else step q' q i s)"
  assume a: "pmm_ok (vpmm s)" "hhdm_ok s" "tree (Suc k) {..<b} (mem s) ?t" "frames (Suc k) {..<b} (mem s) ?t \<inter> insert ?c (free_set (vpmm s)) = {}"
    "?c \<notin> free_set (vpmm s)" "\<forall>i \<in> {..<b}. \<not> present (mem s) ?c i" "card (frames (Suc k) {..<b} (mem s) ?t) \<le> card (avail (vpmm s)) + 1"
  have z: "cloned_upto k q' q s 0 s" unfolding cloned_upto_def
    by (intro exI [of _ "{}"]) (use a(1) in \<open>simp add: took_def frames.simps(2) below_def tree.simps(2)\<close>)
  have "\<exists>t. kfor 0 b ?body s = Inr t \<and> cloned_upto k q' q s b t"
    by (rule kfor_rule [where I = "cloned_upto k q' q s", OF z]) (use clone_loop_step [OF assms(1) _ _ assms(2) a] in auto)
  then obtain t N where t: "kfor 0 b ?body s = Inr t" "took N s t" "\<forall>u. u \<notin> insert ?c N \<longrightarrow> mem t u = mem s u"
      "\<forall>j \<ge> b. mem t ?c j = mem s ?c j" "frames (Suc k) {..<b} (mem t) ?c = insert ?c N"
      "tree (Suc k) {..<b} (mem t) ?c" "cloned (Suc k) {..<b} (mem s) (mem t) ?t ?c" "card N = card (below k (mem s) ?t b)"
    unfolding cloned_upto_def by blast
  have "N \<subseteq> avail (vpmm s)" using t(2) by (simp add: took_def)
  then have "finite N" "?c \<notin> N" using finite_subset [of N "avail (vpmm s)"] avail_bounds [OF a(1)] a(5) by auto
  then have "card (insert ?c N) = card (frames (Suc k) {..<b} (mem s) ?t)"
    using t(8) root_not_below [OF a(3) order_refl] by (simp add: frames_below)
  with t show "\<exists>t N. kfor 0 b ?body s = Inr t \<and> took N s t \<and> (\<forall>u. u \<notin> insert ?c N \<longrightarrow> mem t u = mem s u) \<and>
      (\<forall>j. j \<notin> {..<b} \<longrightarrow> mem t ?c j = mem s ?c j) \<and> frames (Suc k) {..<b} (mem t) ?c = insert ?c N \<and>
      tree (Suc k) {..<b} (mem t) ?c \<and> cloned (Suc k) {..<b} (mem s) (mem t) ?t ?c \<and>
      card (insert ?c N) = card (frames (Suc k) {..<b} (mem s) ?t)"
    by (intro exI [of _ t] exI [of _ N]) auto
qed

section \<open>The levels\<close>

lemma kfor_copy:
  assumes "a \<le> b" "b \<le> 512" "tab s p \<noteq> tab s q"
  shows "kfor a b (\<lambda>i s. kbind (ldq s q i) (\<lambda>x. stq p i x s)) s =
    Inr (s\<lparr>mem := (mem s)(tab s p := (\<lambda>i. if a \<le> i \<and> i < b then mem s (tab s q) i else mem s (tab s p) i))\<rparr>)"
proof -
  define S where "S j = s\<lparr>mem := (mem s)(tab s p := (\<lambda>i. if a \<le> i \<and> i < j then mem s (tab s q) i else mem s (tab s p) i))\<rparr>" for j
  let ?body = "\<lambda>i s. kbind (ldq s q i) (\<lambda>x. stq p i x s)"
  have "(\<lambda>i. if a \<le> i \<and> i < a then mem s (tab s q) i else mem s (tab s p) i) = mem s (tab s p)" by (rule ext) auto
  then have "S a = s" by (simp add: S_def)
  moreover have "?body i (S i) = Inr (S (Suc i))" if "a \<le> i" "i < b" for i
  proof -
    have "(\<lambda>j. if a \<le> j \<and> j < i then mem s (tab s q) j else mem s (tab s p) j)(i := mem s (tab s q) i) =
        (\<lambda>j. if a \<le> j \<and> j < Suc i then mem s (tab s q) j else mem s (tab s p) j)" using that by (auto simp: fun_eq_iff)
    then show ?thesis using that assms unfolding S_def by simp
  qed
  ultimately have "\<exists>t. kfor a b ?body s = Inr t \<and> t = S b" by (intro kfor_rule [where I = "\<lambda>i t. t = S i"]) (use assms(1) in auto)
  then show ?thesis by (auto simp: S_def)
qed

lemma memcpy_page_eq: "tab s p \<noteq> tab s q \<Longrightarrow> memcpy_page p q s =
    Inr (s\<lparr>mem := (mem s)(tab s p := (\<lambda>i. if i < 512 then mem s (tab s q) i else mem s (tab s p) i))\<rparr>)"
  using kfor_copy [of 0 512 s p q] by (simp add: memcpy_page_def)

lemma same_flags_put_addr: "same_flags e (put_addr a e)"
  by (auto simp: same_flags_def)

lemma clones_entry_table:
  assumes sub: "clones (Suc k) {..<512} op" and pop: "pop_ok pop"
  shows "clones_entry (Suc k) (\<lambda>q' q i s. kbind (ensure_gen pop q' i PAGE_USER s) (\<lambda>(n, s1). kbind (ldq s1 q i) (\<lambda>e. op n (get_pdpt s1 e) s1)))"
  unfolding clones_entry_def
proof (intro allI impI)
  fix i q' q s
  assume pre: "entry_pre (Suc k) i q' q s"
  let ?c = "tab s q'" and ?t = "tab s q" and ?d = "child (mem s) (tab s q) i"
  let ?F = "frames (Suc k) {..<512} (mem s) ?d"
  note pr = pre [unfolded entry_pre_def]
  have c0: "i < 512" "\<not> present (mem s) ?c i" "hhdm_ok s" "pmm_ok (vpmm s)" "?c \<notin> free_set (vpmm s)" using pr by simp_all
  have c1: "1 \<le> card ?F" by (simp add: Suc_le_eq card_gt_0_iff finite_frames) blast
  then have av: "avail (vpmm s) \<noteq> {}" using pr by auto
  obtain n s1 e f m where s1: "ensure_gen pop q' i PAGE_USER s = Inr (n, s1)" "tab s1 n = f" "bit e 0" "ent_frame e = f" "f \<in> avail (vpmm s)"
      "pmm_ok m" "avail m = avail (vpmm s) - {f}" "free_set m = free_set (vpmm s) - {f}"
      "s1 = s\<lparr>vpmm := m, mem := (mem s)(?c := (mem s ?c)(i := e), f := zeroed (mem s f))\<rparr>"
    using ensure_absent [OF c0(1,2) pop c0(3,4) av c0(5), of PAGE_USER] by (elim exE conjE) (rule that)
  have ff: "f \<in> free_set (vpmm s)" using avail_bounds s1(5) pr by blast
  have ct: "ctl_eq s s1" using s1(9) by simp
  note tb = ctl_eq_tab(1) [OF ct]
  have ne: "f \<noteq> ?c" "?t \<noteq> ?c" "?t \<noteq> f" "f \<notin> ?F" "?c \<notin> ?F" using ff pr by auto
  have mt: "mem s1 ?t = mem s ?t" and mF: "u \<in> ?F \<Longrightarrow> mem s1 u = mem s u" for u using s1(9) ne by auto
  have mf: "mem s1 f = zeroed (mem s f)" and mc: "mem s1 ?c = (mem s ?c)(i := e)" using s1(9) ne by simp_all
  have fr: "frames (Suc k) {..<512} (mem s1) ?d = ?F" by (rule frames_cong' [OF mF])
  have tr: "tree (Suc k) {..<512} (mem s1) ?d" by (rule tree_cong' [OF mF]) (use pr in auto)
  let ?q = "get_pdpt s1 (mem s ?t i)"
  have tq: "tab s1 ?q = ?d" by (simp add: child_def)
  have "card (avail (vpmm s1)) + 1 = card (avail (vpmm s))" using s1(5,7,9) av by (simp add: card_gt_0_iff)
  then have "card ?F \<le> card (avail (vpmm s1)) + 1" using pr by simp
  moreover have "?F \<inter> insert f (free_set (vpmm s1)) = {}" using pr s1(8,9) ne by auto
  ultimately obtain t N where t: "op n ?q s1 = Inr t" "took N s1 t" "\<forall>u. u \<notin> insert f N \<longrightarrow> mem t u = mem s1 u"
      "frames (Suc k) {..<512} (mem t) f = insert f N" "tree (Suc k) {..<512} (mem t) f" "cloned (Suc k) {..<512} (mem s1) (mem t) ?d f"
      "card (insert f N) = card ?F"
    using sub [unfolded clones_def, rule_format, of s1 ?q n] tr fr s1 mf ctl_eq_tab(3) [OF ct] pr
    unfolding tq s1(2) fr by (auto simp: present_def zeroed_def)
  have "took {f} s s1" using ct s1 by (simp add: took_def)
  then have tk: "took (insert f N) s t" using took_trans t(2) by fastforce
  have cN: "?c \<notin> insert f N" using tk ne pr avail_bounds [of "vpmm s"] unfolding took_def by blast
  then have mtc: "mem t ?c = (mem s ?c)(i := e)" using t(3) mc by simp
  then have ch: "child (mem t) ?c i = f" "present (mem t) ?c i" using s1(3,4) by (simp_all add: child_def present_def)
  have "cloned (Suc k) {..<512} (mem s) (mem t) ?d f"
    by (rule cloned_cong [of "Suc k" _ "mem s1" _ _ "mem t"]) (use t(6) mF fr in auto)
  then have "entry_post (Suc k) i q' q s (insert f N) t"
    unfolding entry_post_def ch(1) using tk t ch(2) mtc s1(9) by auto
  moreover have "kbind (ensure_gen pop q' i PAGE_USER s) (\<lambda>(n, s1). kbind (ldq s1 q i) (\<lambda>e. op n (get_pdpt s1 e) s1)) = Inr t"
    using s1(1) t(1) mt pr tb by simp
  ultimately show "\<exists>t N. kbind (ensure_gen pop q' i PAGE_USER s) (\<lambda>(n, s1). kbind (ldq s1 q i) (\<lambda>e. op n (get_pdpt s1 e) s1)) = Inr t \<and>
      entry_post (Suc k) i q' q s N t" by blast
qed

definition clone_pte :: "u64 \<Rightarrow> u64 \<Rightarrow> nat \<Rightarrow> vmm \<Rightarrow> vmm kres" where
  "clone_pte new_pt pt i s = kbind (alloc_frame (vpmm s)) (\<lambda>(phys_frame, m).
     kbind (ldq s pt i) (\<lambda>e. kbind (stq new_pt i (put_addr (drop_bit 12 phys_frame) e) (s\<lparr>vpmm := m\<rparr>)) (\<lambda>s1.
     kbind (ldq s1 pt i) (\<lambda>from. kbind (ldq s1 new_pt i) (\<lambda>to.
       memcpy_page (hhdm_ptov s1 (push_bit 12 (ent_addr to))) (hhdm_ptov s1 (push_bit 12 (ent_addr from))) s1)))))"

lemma clone_pt_loop_eq:
  "clone_pt_loop q' q = kfor 0 512 (\<lambda>i s. kbind (ldq s q i) (\<lambda>e. if \<not> bit e 0 then Inr s else clone_pte q' q i s))"
proof -
  have "(\<lambda>i s. kbind (ldq s q i) (\<lambda>e. if \<not> bit e 0 then Inr s
     else kbind (alloc_frame (vpmm s)) (\<lambda>(phys_frame, m).
       kbind (stq q' i (put_addr (drop_bit 12 phys_frame) e) (s\<lparr>vpmm := m\<rparr>)) (\<lambda>s1.
       kbind (ldq s1 q i) (\<lambda>from. kbind (ldq s1 q' i) (\<lambda>to.
         memcpy_page (hhdm_ptov s1 (push_bit 12 (ent_addr to))) (hhdm_ptov s1 (push_bit 12 (ent_addr from))) s1)))))) =
    (\<lambda>i s. kbind (ldq s q i) (\<lambda>e. if \<not> bit e 0 then Inr s else clone_pte q' q i s))"
    by (intro ext) (simp add: clone_pte_def ldq_def)
  then show ?thesis unfolding clone_pt_loop_def NUM_PT_ENTRIES_def by simp
qed

lemma clones_entry_page: "clones_entry 0 clone_pte"
  unfolding clones_entry_def
proof (intro allI impI)
  fix i q' q s
  assume pre: "entry_pre 0 i q' q s"
  let ?c = "tab s q'" and ?t = "tab s q" and ?d = "child (mem s) (tab s q) i"
  have pr: "i < 512" "pmm_ok (vpmm s)" "present (mem s) ?t i" "?t \<noteq> ?c" "?d \<noteq> ?c" "?t \<notin> free_set (vpmm s)" "?d \<notin> free_set (vpmm s)"
      "?c \<notin> free_set (vpmm s)" "avail (vpmm s) \<noteq> {}"
    using pre by (auto simp: entry_pre_def)
  obtain a m where a: "alloc_frame (vpmm s) = Inr (a, m)" "pmm_ok m" "page_aligned a" "frame_of a = Min (avail (vpmm s))"
      "avail m = avail (vpmm s) - {frame_of a}" "free_set m = free_set (vpmm s) - {frame_of a}"
    using alloc_frame_some [OF pr(2,9)] by blast
  let ?f = "frame_of a" and ?e = "put_addr (drop_bit 12 a) (mem s ?t i)"
  have f: "?f \<in> avail (vpmm s)" using a(4) pr(9) by simp
  then have b: "?f < 64 * FRAME_BITMAP_SIZE" "?f \<in> free_set (vpmm s)" using avail_bounds [OF pr(2)] by auto
  have e: "ent_frame ?e = ?f" "bit ?e 0" using a(3) b(1) pr(3) by (simp_all add: FRAME_BITMAP_SIZE_eq present_def)
  have ne: "?f \<noteq> ?c" "?f \<noteq> ?t" "?f \<noteq> ?d" using b(2) pr by auto
  define s1 where "s1 = s\<lparr>vpmm := m, mem := (mem s)(?c := (mem s ?c)(i := ?e))\<rparr>"
  define t where "t = s1\<lparr>mem := (mem s1)(?f := (\<lambda>j. if j < 512 then mem s1 ?d j else mem s1 ?f j))\<rparr>"
  have tb: "tab s1 x = tab s x" for x by (rule ctl_eq_tab(1)) (simp add: s1_def)
  have "memcpy_page (hhdm_ptov s1 (push_bit 12 (ent_addr ?e))) (hhdm_ptov s1 (push_bit 12 (ent_addr (mem s ?t i)))) s1 = Inr t"
    (is "memcpy_page ?x ?y s1 = _")
  proof -
    have t1: "tab s1 ?x = ?f" by (simp only: tab_ptov frame_of_push e(1))
    have t2: "tab s1 ?y = ?d" by (simp only: tab_ptov frame_of_push child_def)
    show ?thesis using memcpy_page_eq [of s1 ?x ?y] ne(3) unfolding t1 t2 t_def by simp
  qed
  then have st: "clone_pte q' q i s = Inr t" using pr a(1) tb by (simp add: s1_def clone_pte_def)
  have "took {?f} s t" using a f by (simp add: took_def t_def s1_def)
  moreover have "child (mem t) ?c i = ?f" "present (mem t) ?c i" using ne e by (simp_all add: child_def present_def t_def s1_def)
  ultimately have "entry_post 0 i q' q s {?f} t" unfolding entry_post_def using ne pr
    by (simp add: t_def s1_def same_flags_put_addr)
  with st show "\<exists>t N. clone_pte q' q i s = Inr t \<and> entry_post 0 i q' q s N t" by blast
qed

lemma clone_loops: "clones (Suc 0) {..<512} clone_pt_loop" "clones (Suc (Suc 0)) {..<512} clone_pd_loop" "clones 3 {..<512} clone_pdpt_loop"
proof -
  show pt: "clones (Suc 0) {..<512} clone_pt_loop"
    using clone_loop_clones [OF clones_entry_page, of 512] unfolding clone_pt_loop_eq [abs_def] by simp
  have g: "get_pt s e = get_pdpt s e" "get_pd s e = get_pdpt s e" for s e by (simp_all add: get_pt_def get_pdpt_def get_pd_def)
  show pd: "clones (Suc (Suc 0)) {..<512} clone_pd_loop"
    using clone_loop_clones [OF clones_entry_table [OF pt pop_ok_populate(3)], of 512]
    unfolding clone_pd_loop_def [abs_def] ensure_gen_eqs g NUM_PT_ENTRIES_def by simp
  show "clones 3 {..<512} clone_pdpt_loop"
    using clone_loop_clones [OF clones_entry_table [OF pd pop_ok_populate(2)], of 512]
    unfolding clone_pdpt_loop_def [abs_def] ensure_gen_eqs g NUM_PT_ENTRIES_def numeral_3_eq_3 by simp
qed

lemma clone_user_pml4_ok:
  assumes sp: "space_ok 4 {..<get_kernel_pml4_index s} s (tab s q)" and hh: "hhdm_ok s"
    and ca: "card (frames 4 {..<get_kernel_pml4_index s} (mem s) (tab s q)) \<le> card (avail (vpmm s))"
  shows "\<exists>q' s' N. clone_user_pml4 q s = Inr (q', s') \<and> took N s s' \<and> (\<forall>u. u \<notin> N \<longrightarrow> mem s' u = mem s u) \<and>
    frames 4 {..<get_kernel_pml4_index s} (mem s') (tab s q') = N \<and> tree 4 {..<get_kernel_pml4_index s} (mem s') (tab s q') \<and>
    cloned 4 {..<get_kernel_pml4_index s} (mem s) (mem s') (tab s q) (tab s q') \<and>
    (\<forall>i. get_kernel_pml4_index s \<le> i \<and> i < 512 \<longrightarrow> mem s' (tab s q') i = mem s (tab s q) i) \<and>
    card N = card (frames 4 {..<get_kernel_pml4_index s} (mem s) (tab s q))"
proof -
  let ?K = "get_kernel_pml4_index s" and ?t = "tab s q"
  let ?F = "frames 4 {..<?K} (mem s) ?t"
  have k4: "Suc 3 = 4" by simp
  have pp: "pmm_ok (vpmm s)" and tr: "tree 4 {..<?K} (mem s) ?t" and fF: "?F \<inter> free_set (vpmm s) = {}" using sp by (auto simp: space_ok_def)
  have "1 \<le> card ?F" by (simp add: Suc_le_eq card_gt_0_iff finite_frames) blast
  then have av: "avail (vpmm s) \<noteq> {}" using ca by auto
  obtain a m where a: "alloc_frame (vpmm s) = Inr (a, m)" "pmm_ok m" "page_aligned a" "frame_of a = Min (avail (vpmm s))"
      "avail m = avail (vpmm s) - {frame_of a}" "free_set m = free_set (vpmm s) - {frame_of a}"
    using alloc_frame_some [OF pp av] by blast
  define f where "f = frame_of a"
  have f: "f \<in> avail (vpmm s)" "f < 64 * FRAME_BITMAP_SIZE" "f \<in> free_set (vpmm s)"
    using a(4) av avail_bounds [OF pp, of f] by (simp_all add: f_def)
  have fnF: "f \<notin> ?F" using f(3) fF by blast
  then have ft: "f \<noteq> ?t" by blast
  define q' where "q' = hhdm_ptov s a"
  have q': "tab s q' = f" "q' \<noteq> 0" using ptov_nonnull [OF hh a(3)] f(2) by (simp_all add: q'_def f_def)
  define s1 where "s1 = s\<lparr>vpmm := m, mem := (mem s)(f := zeroed (mem s f))\<rparr>"
  define s2 where "s2 = s1\<lparr>mem := (mem s1)(f := (\<lambda>i. if ?K \<le> i \<and> i < 512 then mem s1 ?t i else mem s1 f i))\<rparr>"
  have c1: "ctl_eq s s1" and c2: "ctl_eq s s2" by (simp_all add: s1_def s2_def)
  note tb = ctl_eq_tab(1) [OF c1] ctl_eq_tab(1) [OF c2]
  have m2: "mem s2 u = mem s u" if "u \<noteq> f" for u using that by (simp add: s1_def s2_def)
  have f2: "\<not> present (mem s2) f i" if "i < ?K" for i
    using that kernel_index_less [of s] by (simp add: s1_def s2_def present_def zeroed_def)
  have e1: "kfor ?K NUM_PT_ENTRIES (\<lambda>i s. kbind (ldq s q i) (\<lambda>e. stq q' i e s)) s1 = Inr s2"
    using kfor_copy [of ?K 512 s1 q' q] kernel_index_less [of s] ft unfolding tb q' NUM_PT_ENTRIES_def s2_def by simp
  have sF: "u \<in> ?F \<Longrightarrow> mem s2 u = mem s u" for u using m2 [of u] fnF by (cases "u = f") auto
  have F2: "frames 4 {..<?K} (mem s2) ?t = ?F" by (rule frames_cong' [OF sF])
  have T2: "tree 4 {..<?K} (mem s2) ?t" by (rule tree_cong' [OF sF tr])
  have p2: "vpmm s2 = m" by (simp add: s1_def s2_def)
  have "card ?F \<le> card (avail m) + 1" using ca f(1) a(5) av by (simp add: f_def [symmetric] card_gt_0_iff)
  moreover have "?F \<inter> insert f (free_set m) = {}" using fF fnF a(6) by auto
  ultimately have H: "pmm_ok (vpmm s2) \<and> hhdm_ok s2 \<and> tree 4 {..<?K} (mem s2) (tab s2 q) \<and>
      frames 4 {..<?K} (mem s2) (tab s2 q) \<inter> insert (tab s2 q') (free_set (vpmm s2)) = {} \<and> tab s2 q' \<notin> free_set (vpmm s2) \<and>
      (\<forall>i \<in> {..<?K}. \<not> present (mem s2) (tab s2 q') i) \<and> card (frames 4 {..<?K} (mem s2) (tab s2 q)) \<le> card (avail (vpmm s2)) + 1"
    unfolding tb q' F2 p2 using a(2,6) T2 f2 ctl_eq_tab(3) [OF c2] hh by (simp add: f_def)
  let ?loop = "\<lambda>q' q. kfor 0 ?K (\<lambda>i s. kbind (ldq s q i) (\<lambda>e. if \<not> bit e 0 then Inr s else
      kbind (ensure_pdpte_present q' i PAGE_USER s) (\<lambda>(n, s1). kbind (ldq s1 q i) (\<lambda>e1. clone_pdpt_loop n (get_pdpt s1 e1) s1))))"
  have n4: "4 = Suc (Suc (Suc (Suc 0)))" by simp
  have lp: "clones 4 {..<?K} ?loop"
    using clone_loop_clones [OF clones_entry_table [OF clone_loops(3) [unfolded numeral_3_eq_3] pop_ok_populate(1)], of ?K] kernel_index_less [of s]
    unfolding ensure_gen_eqs n4 by simp
  obtain t N where t: "?loop q' q s2 = Inr t" "took N s2 t" "\<forall>u. u \<notin> insert f N \<longrightarrow> mem t u = mem s2 u"
      "\<forall>j. j \<notin> {..<?K} \<longrightarrow> mem t f j = mem s2 f j" "frames 4 {..<?K} (mem t) f = insert f N" "tree 4 {..<?K} (mem t) f"
      "cloned 4 {..<?K} (mem s2) (mem t) ?t f" "card (insert f N) = card ?F"
    using lp [unfolded clones_def, THEN spec, THEN spec, THEN spec, THEN mp, OF H, unfolded tb q' F2] by (elim exE conjE) (rule that)
  have "took {f} s s2" using c2 a(2,5,6) f(1) p2 by (simp add: took_def f_def)
  then have tk: "took (insert f N) s t" using took_trans t(2) by fastforce
  have cl: "cloned 4 {..<?K} (mem s) (mem t) ?t f" by (rule cloned_cong [OF _ _ t(7)]) (use sF F2 in auto)
  have k1: "get_kernel_pml4_index s1 = ?K" by (rule ctl_eq_tab(4) [OF c1])
  have e0: "zero_page q' (s\<lparr>vpmm := m\<rparr>) = Inr s1" using q' by (simp add: zero_page_eq s1_def)
  have "clone_user_pml4 q s = Inr (q', t)"
    using e0 e1 t(1) q'(2) k1 unfolding clone_user_pml4_def a(1) kbind_simps prod.case Let_def q'_def [symmetric]
    by (simp add: kassert_not_null_def)
  moreover have "mem t f i = mem s ?t i" if "?K \<le> i" "i < 512" for i using that t(4) ft by (simp add: s1_def s2_def)
  ultimately show ?thesis using tk cl t(3,5,6,8) m2 q'(1)
    by (intro exI [of _ q'] exI [of _ t] exI [of _ "insert f N"]) auto
qed

section \<open>What a copy means for the translation of addresses\<close>

lemma cloned_walk:
  "cloned k I m m' t c \<Longrightarrow> path_in I p \<Longrightarrow> length p \<le> k \<Longrightarrow> (walk m' c p = None) = (walk m t p = None)"
proof (induction p arbitrary: k I t c)
  case (Cons i p)
  then obtain k' where k: "k = Suc k'" by (cases k) auto
  then show ?case using Cons by auto
qed simp

lemma cloned_page:
  "cloned (length p) I m m' t c \<Longrightarrow> path_in I p \<Longrightarrow> walk m t p = Some u \<Longrightarrow> walk m' c p = Some u' \<Longrightarrow> i < 512 \<Longrightarrow> m' u' i = m u i"
proof (induction p arbitrary: I t c)
  case (Cons j p)
  then show ?case by (auto split: if_splits)
qed simp

lemma cloned_flags:
  "cloned (Suc (length p)) I m m' t c \<Longrightarrow> path_in I (p @ [i]) \<Longrightarrow> lookup m t p i = Some e \<Longrightarrow>
   \<exists>e'. lookup m' c p i = Some e' \<and> same_flags e e'"
proof (induction p arbitrary: I t c)
  case Nil
  then show ?case by (auto simp: lookup_def split: if_splits)
next
  case (Cons j p)
  have j: "j \<in> I" "path_in {..<512} (p @ [i])" "present m t j" "lookup m (child m t j) p i = Some e"
    using Cons.prems(2,3) by (auto simp: lookup_def split: if_splits)
  then have "cloned (Suc (length p)) {..<512} m m' (child m t j) (child m' c j)" "present m' c j" using Cons.prems(1) by (simp_all del: cloned.simps add: cloned.simps(2) [of "Suc (length p)"])
  then show ?case using Cons.IH [OF _ j(2,4)] by (simp add: lookup_def)
qed

end
