(* ===== verification/Vmm_Props.thy ===== *)
theory Vmm_Props
  imports Vmm_Clone
begin

unbundle bit_operations_syntax

text \<open>
  What the virtual memory manager promises its callers: mapping and unmapping change the translation of exactly
  the pages asked for, a copy of an address space has the same contents in other frames, and freeing it gives back
  exactly the frames it holds. At the end, the example state on which the hypotheses are shown to hold.
\<close>

section \<open>An example: an empty address space\<close>

definition ex_vmm :: "pmm \<Rightarrow> vmm" where
  "ex_vmm m = \<lparr>mem = (\<lambda>_ _. 0), vpmm = m, kernel_pml4 = 0xFFFF800000004000, hhdm_offset = 0xFFFF800000000000,
     kheap = \<lparr>pml4_idx = 257, pdpt_idx = 0, pd_idx = 0, pt_idx = 0\<rparr>, cr3 = 0x4000, cr4 = 0\<rparr>"

lemma frames_zero_mem [simp]: "frames k I (\<lambda>_ _. 0) r = {r}"
  by (cases k) (simp_all add: frames.simps(2) present_def)

lemma tree_zero_mem [simp]: "tree k I (\<lambda>_ _. 0) r"
  by (cases k) (simp_all add: tree.simps(2) present_def)

lemma ex_space:
  obtains s where "space_ok 4 {..<256} s (tab s 0xFFFF800000005000)" "hhdm_ok s" "get_kernel_pml4_index s = 256" "kernel_pml4 s = 0xFFFF800000004000"
    "16 \<le> card (avail (vpmm s))" "mem s = (\<lambda>_ _. 0)" "tab s 0xFFFF800000005000 = 5" "6 \<notin> free_set (vpmm s)" "7 \<notin> free_set (vpmm s)"
    "tab s (kernel_pml4 s) \<notin> free_set (vpmm s)" "tab s 0 \<notin> free_set (vpmm s)"
proof -
  obtain m where m: "pmm_ok m" "free_set m = {256 .. 272} - {0}" "frame_bitmap_start m = 256" "frame_bitmap_end m = 272"
    using add_free_memory_eq [of "pmm_init pmm_zero" "0x100000" "0x10000"] unfolding free_set_init
    by (auto simp: pmm_init_def region_ok_def MAX_MEMORY_BYTES_def frame_of_def pmm_consts)
  have "avail m = {256 ..< 272}" unfolding avail_def m(2-4) by auto
  then have "16 \<le> card (avail m)" by simp
  moreover have "tab (ex_vmm m) 0xFFFF800000005000 = 5"
    by (simp add: tab_def hhdm_vtop_def ex_vmm_def frame_of_def pmm_consts)
  moreover have "tab (ex_vmm m) (kernel_pml4 (ex_vmm m)) = 4" "tab (ex_vmm m) 0 = 34359738368"
    by (simp_all add: tab_def hhdm_vtop_def ex_vmm_def frame_of_def pmm_consts)
  moreover have "get_kernel_pml4_index (ex_vmm m) = 256"
    by (simp add: get_kernel_pml4_index_def ex_vmm_def)
  moreover have "hhdm_ok (ex_vmm m)" by (simp add: hhdm_ok_def ex_vmm_def)
  ultimately show ?thesis
    using m(1,2) by (intro that [of "ex_vmm m"]) (simp_all add: space_ok_def ex_vmm_def FRAME_BITMAP_SIZE_eq)
qed

section \<open>Mapping and unmapping\<close>

lemma space_ok_tables: "space_ok 4 I s r \<Longrightarrow> space_ok 3 I s r"
  using frames_mono_level [of 3 I "mem s" r] tree_lower [of 3 I "mem s" r] unfolding space_ok_def by auto

lemma walk_lookup: "lookup m r p i = Some e \<Longrightarrow> walk m r (p @ [i]) = Some (ent_frame e)"
  by (auto simp: lookup_def walk_append child_def split: option.splits if_splits)

text \<open>In an address space no two pages share a frame.\<close>

lemma lookup_inj:
  assumes "space_ok 4 I s r" "path_in I (p @ [i])" "path_in I (w @ [j])" "length p = 3" "length w = 3"
    "lookup (mem s) r p i = Some e" "lookup (mem s) r w j = Some e'" "ent_frame e = ent_frame e'"
  shows "p = w \<and> i = j"
proof -
  have "p @ [i] = w @ [j]"
    by (rule walk_inj [of 4 I "mem s" r]) (use assms walk_lookup [OF assms(6)] walk_lookup [OF assms(7)] in \<open>auto simp: space_ok_def\<close>)
  then show ?thesis by simp
qed

lemma path_in_page: "idx_of 39 v \<in> I \<Longrightarrow> path_in I (path_of v @ [idx_of 12 v])"
  by (simp add: path_of_def idx_less)

lemma user_idx: "unat v < 2 ^ 47 \<Longrightarrow> idx_of 39 v < 256"
  by (simp add: idx_of_nat)



text \<open>
  \<^verbatim>\<open>unmap_page\<close> of a page that is not mapped changes nothing; of a mapped page, it removes that translation and no other,
  makes exactly its frame free, and writes no memory but the tables of that address space.
\<close>

theorem unmap_page_exact:
  assumes "space_ok 4 I s (tab s q)" "idx_of 39 v \<in> I" "q \<noteq> 0" "page_aligned v"
  shows "case lookup (mem s) (tab s q) (path_of v) (idx_of 12 v) of
      None \<Rightarrow> unmap_page q v s = Inr s
    | Some e \<Rightarrow> \<exists>s'. unmap_page q v s = Inr s' \<and> space_ok 4 I s' (tab s q) \<and>
        free_set (vpmm s') = insert (ent_frame e) (free_set (vpmm s)) \<and> ent_frame e \<notin> free_set (vpmm s) \<and>
        (\<forall>w j. path_in I w \<and> length w = 3 \<and> j < 512 \<longrightarrow>
           lookup (mem s') (tab s q) w j = (if w = path_of v \<and> j = idx_of 12 v then None else lookup (mem s) (tab s q) w j)) \<and>
        (\<forall>u. u \<notin> frames 3 I (mem s) (tab s q) \<longrightarrow> mem s' u = mem s u)"
  using unmap_page_ok [OF assms] assms(1) unfolding space_ok_def by (auto split: option.splits)

text \<open>
\<^verbatim>\<open>map_page_to_frame\<close> of a page that is not mapped, then \<^verbatim>\<open>unmap_page\<close> of it, gives back the translation of every
  address, and makes the frame free; the tables that were added stay.
\<close>

theorem map_unmap_roundtrip:
  assumes "space_ok 4 I s (tab s q)" "idx_of 39 v \<in> I" "hhdm_ok s" "3 \<le> card (avail (vpmm s))" "q \<noteq> 0" "page_aligned v" "page_aligned phys"
    "frame_of phys < 64 * FRAME_BITMAP_SIZE" "frame_of phys \<notin> frames 4 I (mem s) (tab s q) \<union> free_set (vpmm s)"
    "lookup (mem s) (tab s q) (path_of v) (idx_of 12 v) = None"
  shows "\<exists>s1 s2. map_page_to_frame q v phys flags s = Inr s1 \<and> unmap_page q v s1 = Inr s2 \<and> space_ok 4 I s2 (tab s q) \<and>
    (\<forall>w j. path_in I w \<and> length w = 3 \<and> j < 512 \<longrightarrow> lookup (mem s2) (tab s q) w j = lookup (mem s) (tab s q) w j) \<and>
    frame_of phys \<in> free_set (vpmm s2)"
proof -
  have sp3: "space_ok 3 I s (tab s q)" by (rule space_ok_tables [OF assms(1)])
  have b: "frame_of phys < 2 ^ 40" using assms(8) by (simp add: FRAME_BITMAP_SIZE_eq)
  obtain s1 N e where s1: "map_page_to_frame q v phys flags s = Inr s1" "extends 3 I (tab s q) N s s1"
      "maps_entry I (tab s q) (path_of v) (idx_of 12 v) e s s1" "ent_frame e = frame_of phys" "space_ok 4 I s1 (tab s q)"
    using map_page_ok [OF sp3 assms(2-7) b, of flags] assms(1,8,9) by blast
  have t: "tab s1 q = tab s q" by (rule ctl_eq_tab(1)) (use s1(2) in \<open>simp add: extends_def\<close>)
  have l: "lookup (mem s1) (tab s1 q) (path_of v) (idx_of 12 v) = Some e"
    using s1(3) path_in_path_of [OF assms(2)] idx_less [of 12 v] unfolding t maps_entry_def by simp
  obtain s2 where s2: "unmap_page q v s1 = Inr s2" "space_ok 4 I s2 (tab s q)" "free_set (vpmm s2) = insert (ent_frame e) (free_set (vpmm s1))"
      "\<forall>w j. path_in I w \<and> length w = 3 \<and> j < 512 \<longrightarrow>
         lookup (mem s2) (tab s q) w j = (if w = path_of v \<and> j = idx_of 12 v then None else lookup (mem s1) (tab s q) w j)"
    using unmap_page_ok(2) [OF s1(5) [folded t] assms(2,5,6) l] unfolding t by (elim exE conjE) (rule that)
  have "lookup (mem s2) (tab s q) w j = lookup (mem s) (tab s q) w j" if "path_in I w" "length w = 3" "j < 512" for w j
    using s2(4) s1(3) that assms(10) unfolding maps_entry_def by auto
  then show ?thesis using s1(1,4) s2(1-3) by (intro exI [of _ s1] exI [of _ s2]) simp
qed

lemma maps_entry_frames:
  assumes "maps_entry I r p d e s s'" "u \<in> frames 4 I (mem s') r" "u \<notin> frames 3 I (mem s') r"
  obtains "u = ent_frame e" | w j e' where "path_in I (w @ [j])" "length w = 3" "(w, j) \<noteq> (p, d)" "lookup (mem s) r w j = Some e'" "u = ent_frame e'"
proof -
  obtain x where x: "path_in I x" "length x \<le> 4" "walk (mem s') r x = Some u" using frames_walk [OF assms(2)] by blast
  have "length x = 4" using x walk_in_frames [OF x(3,1), of 3] assms(3) by (cases "length x = 4") auto
  then obtain w j where w: "x = w @ [j]" "length w = 3" by (cases x rule: rev_cases) auto
  then have wj: "path_in I w" "j < 512" using x(1) by (cases w; auto simp: path_in_def)+
  obtain e' where e': "lookup (mem s') r w j = Some e'" "ent_frame e' = u"
    using x(3) w(1) by (auto simp: walk_append lookup_def child_def split: option.splits if_splits)
  show thesis
  proof (cases "(w, j) = (p, d)")
    case True
    then show thesis using e' assms(1) wj w(2) by (intro that(1)) (simp add: maps_entry_def)
  next
    case False
    then have "lookup (mem s) r w j = Some e'" using e'(1) assms(1) wj w(2) unfolding maps_entry_def by auto
    then show thesis using that(2) x(1) w False e'(2) by metis
  qed
qed

text \<open>
\<^verbatim>\<open>map_page_to_frame\<close> of a page that is mapped already replaces the translation, and the old frame is lost: it is
  not free, and the address space does not hold it any more, so neither \<^verbatim>\<open>unmap_page\<close> nor \<^verbatim>\<open>free_user_pml4\<close> will free it.
\<close>

theorem map_page_over_mapped_leaks:
  assumes "space_ok 4 I s (tab s q)" "idx_of 39 v \<in> I" "hhdm_ok s" "3 \<le> card (avail (vpmm s))" "q \<noteq> 0" "page_aligned v" "page_aligned phys"
    "frame_of phys < 64 * FRAME_BITMAP_SIZE" "frame_of phys \<notin> frames 4 I (mem s) (tab s q) \<union> free_set (vpmm s)"
    "lookup (mem s) (tab s q) (path_of v) (idx_of 12 v) = Some old"
  shows "\<exists>s'. map_page_to_frame q v phys flags s = Inr s' \<and>
    ent_frame old \<notin> free_set (vpmm s') \<and> ent_frame old \<notin> frames 4 I (mem s') (tab s q)"
proof -
  let ?r = "tab s q" and ?f = "ent_frame old"
  have sp3: "space_ok 3 I s ?r" by (rule space_ok_tables [OF assms(1)])
  have b: "frame_of phys < 2 ^ 40" using assms(8) by (simp add: FRAME_BITMAP_SIZE_eq)
  have pin: "path_in I (path_of v @ [idx_of 12 v])" by (rule path_in_page [OF assms(2)])
  have tr: "tree (Suc 3) I (mem s) ?r" using assms(1) by (simp add: space_ok_def)
  have wo: "walk (mem s) ?r (path_of v @ [idx_of 12 v]) = Some ?f" by (rule walk_lookup [OF assms(10)])
  have old: "?f \<in> frames 4 I (mem s) ?r" "?f \<notin> frames 3 I (mem s) ?r" "?f \<noteq> frame_of phys"
    using walk_in_frames [OF wo pin, of 4] leaf_not_inner [OF tr wo pin] assms(9) by auto
  obtain s' N e where s': "map_page_to_frame q v phys flags s = Inr s'" "extends 3 I ?r N s s'"
      "maps_entry I ?r (path_of v) (idx_of 12 v) e s s'" "ent_frame e = frame_of phys" "space_ok 4 I s' ?r"
    using map_page_ok [OF sp3 assms(2-7) b, of flags] assms(1,8,9) by blast
  have ff: "?f \<notin> free_set (vpmm s)" using old(1) assms(1) by (simp add: space_ok_def)
  moreover have "pmm_ok (vpmm s)" using assms(1) by (simp add: space_ok_def)
  ultimately have "?f \<notin> N" using s'(2) avail_bounds [of "vpmm s" ?f] by (auto simp: extends_def)
  then have nf: "?f \<notin> free_set (vpmm s')" "?f \<notin> frames 3 I (mem s') ?r" using s'(2) old(2) ff by (simp_all add: extends_def)
  have "?f \<notin> frames 4 I (mem s') ?r"
  proof
    assume "?f \<in> frames 4 I (mem s') ?r"
    from s'(3) this nf(2) show False
    proof (cases rule: maps_entry_frames)
      case 1
      then show False using s'(4) old(3) by simp
    next
      case (2 w j e')
      then show False using lookup_inj [OF assms(1) 2(1) pin 2(2) _ 2(4) assms(10)] by simp
    qed
  qed
  then show ?thesis using s'(1) nf(1) by blast
qed

text \<open>
  The check of a user buffer does not wrap: \<^verbatim>\<open>is_user_addr\<close> accepts a range exactly when all of it is below the end of the user
  half, for every 64-bit address and size.
\<close>

theorem is_user_addr_exact:
  "is_user_addr addr bytes \<longleftrightarrow> unat addr < 2 ^ 47 \<and> unat addr + unat bytes \<le> 2 ^ 47"
proof -
  have u: "unat user_max_addr = 2 ^ 47" by (simp add: user_max_addr_def)
  have "unat (user_max_addr - addr) = 2 ^ 47 - unat addr" if "addr < user_max_addr"
    using that u by (simp add: unat_sub_if' word_less_nat_alt)
  then show ?thesis unfolding is_user_addr_def word_less_nat_alt word_le_nat_alt u by (auto simp: u word_less_nat_alt)
qed

section \<open>Address spaces\<close>

text \<open>
  C22: \<^verbatim>\<open>clone_user_pml4\<close>, with as many free frames as the address space holds, returns a table from which every user page that
  was mapped is mapped, to another frame, with the same flags and the same contents, and no other user page is; the
  kernel half is shared; and the original tables and pages are not written.
\<close>

theorem clone_user_pml4_copies:
  assumes "space_ok 4 {..<get_kernel_pml4_index s} s (tab s q)" "hhdm_ok s"
    "card (frames 4 {..<get_kernel_pml4_index s} (mem s) (tab s q)) \<le> card (avail (vpmm s))"
  shows "\<exists>q' s'. clone_user_pml4 q s = Inr (q', s') \<and> space_ok 4 {..<get_kernel_pml4_index s} s' (tab s q') \<and>
    frames 4 {..<get_kernel_pml4_index s} (mem s') (tab s q') \<subseteq> avail (vpmm s) \<and>
    (\<forall>u. u \<notin> avail (vpmm s) \<longrightarrow> mem s' u = mem s u) \<and>
    (\<forall>i. get_kernel_pml4_index s \<le> i \<and> i < 512 \<longrightarrow> mem s' (tab s q') i = mem s (tab s q) i) \<and>
    (\<forall>p i. path_in {..<get_kernel_pml4_index s} (p @ [i]) \<and> length p = 3 \<longrightarrow>
       (case lookup (mem s) (tab s q) p i of
          None \<Rightarrow> lookup (mem s') (tab s q') p i = None
        | Some e \<Rightarrow> \<exists>e'. lookup (mem s') (tab s q') p i = Some e' \<and> same_flags e e' \<and> ent_frame e' \<in> avail (vpmm s) \<and>
            (\<forall>j < 512. mem s' (ent_frame e') j = mem s (ent_frame e) j)))"
proof -
  let ?I = "{..<get_kernel_pml4_index s}" and ?r = "tab s q"
  obtain q' s' N where c: "clone_user_pml4 q s = Inr (q', s')" "took N s s'" "\<forall>u. u \<notin> N \<longrightarrow> mem s' u = mem s u"
      "frames 4 ?I (mem s') (tab s q') = N" "tree 4 ?I (mem s') (tab s q')" "cloned 4 ?I (mem s) (mem s') ?r (tab s q')"
      "\<forall>i. get_kernel_pml4_index s \<le> i \<and> i < 512 \<longrightarrow> mem s' (tab s q') i = mem s ?r i"
    using clone_user_pml4_ok [OF assms] by (elim exE conjE) (rule that)
  have pp: "pmm_ok (vpmm s)" using assms(1) by (simp add: space_ok_def)
  have N: "N \<subseteq> avail (vpmm s)" "N \<inter> free_set (vpmm s') = {}" "pmm_ok (vpmm s')" using c(2) by (auto simp: took_def)
  have "space_ok 4 ?I s' (tab s q')" using c(4,5) N avail_bounds [OF pp] unfolding space_ok_def by blast
  moreover have "case lookup (mem s) ?r p i of
          None \<Rightarrow> lookup (mem s') (tab s q') p i = None
        | Some e \<Rightarrow> \<exists>e'. lookup (mem s') (tab s q') p i = Some e' \<and> same_flags e e' \<and> ent_frame e' \<in> avail (vpmm s) \<and>
            (\<forall>j < 512. mem s' (ent_frame e') j = mem s (ent_frame e) j)" if p: "path_in ?I (p @ [i])" "length p = 3" for p i
  proof (cases "lookup (mem s) ?r p i")
    case None
    have "walk (mem s) ?r (p @ [i]) = None" using None by (auto simp: lookup_def walk_append split: option.splits if_splits)
    then have "walk (mem s') (tab s q') (p @ [i]) = None" using cloned_walk [OF c(6) p(1)] p(2) by simp
    then show ?thesis using None walk_lookup [of "mem s'" "tab s q'" p i] by (cases "lookup (mem s') (tab s q') p i") auto
  next
    case (Some e)
    have c4: "cloned (Suc (length p)) ?I (mem s) (mem s') ?r (tab s q')" "cloned (length (p @ [i])) ?I (mem s) (mem s') ?r (tab s q')"
      using c(6) p(2) by (simp_all del: cloned.simps)
    obtain e' where e': "lookup (mem s') (tab s q') p i = Some e'" "same_flags e e'" using cloned_flags [OF c4(1) p(1) Some] by blast
    have "ent_frame e' \<in> N" using walk_in_frames [OF walk_lookup [OF e'(1)] p(1), of 4] p(2) c(4) by simp
    then show ?thesis using cloned_page [OF c4(2) p(1) walk_lookup [OF Some] walk_lookup [OF e'(1)]] Some e' N(1) by auto
  qed
  ultimately show ?thesis using c(1,3,4,7) N(1) by (intro exI [of _ q'] exI [of _ s']) blast
qed

theorem clone_user_pml4_copies_witness:
  "\<exists>s q' s'. clone_user_pml4 0xFFFF800000005000 s = Inr (q', s') \<and> tab s q' \<in> avail (vpmm s) \<and> space_ok 4 {..<256} s' (tab s q')"
proof -
  obtain s where s: "space_ok 4 {..<256} s (tab s 0xFFFF800000005000)" "hhdm_ok s" "get_kernel_pml4_index s = 256" "16 \<le> card (avail (vpmm s))"
      "mem s = (\<lambda>_ _. 0)" by (rule ex_space)
  then show ?thesis using clone_user_pml4_copies [of s "0xFFFF800000005000"] root_in_frames by fastforce
qed

text \<open>
  C23: \<^verbatim>\<open>free_user_pml4\<close> of a copy made by \<^verbatim>\<open>clone_user_pml4\<close> gives back exactly the frames the copy took: the set of free frames
  is the one before the copy, the original address space is as before, and no page or table of it has been written.
\<close>

theorem clone_free_roundtrip:
  assumes "space_ok 4 {..<get_kernel_pml4_index s} s (tab s q)" "hhdm_ok s" "tab s (kernel_pml4 s) \<notin> free_set (vpmm s)" "tab s 0 \<notin> free_set (vpmm s)"
    "card (frames 4 {..<get_kernel_pml4_index s} (mem s) (tab s q)) \<le> card (avail (vpmm s))"
  shows "\<exists>q' s1 s2. clone_user_pml4 q s = Inr (q', s1) \<and> free_user_pml4 q' s1 = Inr s2 \<and> free_set (vpmm s2) = free_set (vpmm s) \<and>
    space_ok 4 {..<get_kernel_pml4_index s} s2 (tab s q) \<and> (\<forall>u. u \<notin> free_set (vpmm s) \<longrightarrow> mem s2 u = mem s u)"
proof -
  let ?I = "{..<get_kernel_pml4_index s}" and ?r = "tab s q"
  obtain q' s' N where c: "clone_user_pml4 q s = Inr (q', s')" "took N s s'" "\<forall>u. u \<notin> N \<longrightarrow> mem s' u = mem s u"
      "frames 4 ?I (mem s') (tab s q') = N" "tree 4 ?I (mem s') (tab s q')"
    using clone_user_pml4_ok [OF assms(1,2,5)] by (elim exE conjE) (rule that)
  have pp: "pmm_ok (vpmm s)" and sp: "frames 4 ?I (mem s) ?r \<inter> free_set (vpmm s) = {}" "tree 4 ?I (mem s) ?r"
    "\<forall>f \<in> frames 4 ?I (mem s) ?r. f < 64 * FRAME_BITMAP_SIZE" using assms(1) by (auto simp: space_ok_def)
  have ct: "ctl_eq s s'" and N: "N \<subseteq> avail (vpmm s)" "free_set (vpmm s') = free_set (vpmm s) - N" "pmm_ok (vpmm s')" using c(2) by (auto simp: took_def)
  have Nf: "N \<subseteq> free_set (vpmm s)" using N(1) avail_bounds [OF pp] by blast
  note tb = ctl_eq_tab(1,4) [OF ct]
  have sp': "space_ok 4 {..<get_kernel_pml4_index s'} s' (tab s' q')"
    unfolding tb using c(4,5) N avail_bounds [OF pp] unfolding space_ok_def by blast
  have qN: "tab s q' \<in> N" using c(4) by blast
  then have ne: "q' \<noteq> kernel_pml4 s'" "q' \<noteq> 0" using Nf assms(3,4) ct by (auto simp: ctl_eq_def)
  obtain s2 where s2: "free_user_pml4 q' s' = Inr s2" "pmm_ok (vpmm s2)" "free_set (vpmm s2) = free_set (vpmm s') \<union> N"
      "\<forall>u. u \<notin> N \<longrightarrow> mem s2 u = mem s' u"
    using free_user_pml4_ok [OF sp' ne] unfolding tb c(4) by (elim exE conjE) (rule that)
  have fs: "free_set (vpmm s2) = free_set (vpmm s)" using s2(3) N(2) Nf by blast
  have same: "mem s2 u = mem s u" if "u \<notin> free_set (vpmm s)" for u using that Nf s2(4) c(3) by (metis subsetD)
  have sF: "mem s2 u = mem s u" if "u \<in> frames 4 ?I (mem s) ?r" for u using same that sp(1) by blast
  have "frames 4 ?I (mem s2) ?r = frames 4 ?I (mem s) ?r" by (rule frames_cong' [OF sF])
  moreover have "tree 4 ?I (mem s2) ?r" by (rule tree_cong' [OF sF sp(2)])
  ultimately have "space_ok 4 ?I s2 ?r" using s2(2) sp fs unfolding space_ok_def by auto
  then show ?thesis using c(1) s2(1) fs same by blast
qed

theorem clone_free_roundtrip_witness:
  "\<exists>s q' s1 s2. clone_user_pml4 0xFFFF800000005000 s = Inr (q', s1) \<and> free_user_pml4 q' s1 = Inr s2 \<and> free_set (vpmm s2) = free_set (vpmm s)"
proof -
  obtain s where s: "space_ok 4 {..<256} s (tab s 0xFFFF800000005000)" "hhdm_ok s" "get_kernel_pml4_index s = 256" "16 \<le> card (avail (vpmm s))"
      "mem s = (\<lambda>_ _. 0)" "tab s (kernel_pml4 s) \<notin> free_set (vpmm s)" "tab s 0 \<notin> free_set (vpmm s)" by (rule ex_space)
  then show ?thesis using clone_free_roundtrip [of s "0xFFFF800000005000"] by fastforce
qed

end
