(* ===== verification/Vmm_Heap.thy ===== *)
theory Vmm_Heap
  imports Vmm_Props
begin

unbundle bit_operations_syntax

text \<open>
  The kernel's heap: the part of the address space above the kernel's direct map, whose pages are handed out in the order
  of their addresses by a cursor that never goes back. The words of its pages are seen as a partial function \<open>words\<close> of
  their addresses, and the lemmas say what loads and stores through the page tables, \<^verbatim>\<open>alloc_kernel_page\<close> and
  \<^verbatim>\<open>free_kernel_page\<close> do to it; the slab allocator is verified over these lemmas.
\<close>

section \<open>The cursor\<close>

definition heap_pos :: "Heap \<Rightarrow> nat" where
  "heap_pos h = ((pml4_idx h * 512 + pdpt_idx h) * 512 + pd_idx h) * 512 + pt_idx h"

definition heap_wf :: "Heap \<Rightarrow> bool" where
  "heap_wf h \<longleftrightarrow> pdpt_idx h < 512 \<and> pd_idx h < 512 \<and> pt_idx h < 512"

lemma advance_heap_pos: "heap_wf h \<Longrightarrow> heap_wf (advance_heap h) \<and> heap_pos (advance_heap h) = Suc (heap_pos h)"
  by (auto simp: heap_wf_def heap_pos_def advance_heap_def Let_def)

lemma push_of_nat: "push_bit n (of_nat i :: u64) = of_nat (i * 2 ^ n)"
  by (simp add: push_bit_eq_mult)

lemma field_bit: "bit (push_bit n (of_nat i AND 0x1FF) :: u64) k \<Longrightarrow> n \<le> k \<and> k < n + 9"
proof -
  assume b: "bit (push_bit n (of_nat i AND 0x1FF) :: u64) k"
  have "(of_nat i AND 0x1FF :: u64) = take_bit 9 (of_nat i)" by (simp add: take_bit_eq_mask mask_numeral mask_eq_exp_minus_1)
  with b show ?thesis by (auto simp: bit_simps)
qed

lemma field_eq: "i < 512 \<Longrightarrow> (of_nat i AND 0x1FF :: u64) = of_nat i"
proof -
  assume i: "i < 512"
  have "(of_nat i AND 0x1FF :: u64) = take_bit 9 (of_nat i)" by (simp add: take_bit_eq_mask mask_numeral mask_eq_exp_minus_1)
  also have "\<dots> = of_nat (take_bit 9 i)" by (simp add: take_bit_of_nat)
  also have "take_bit 9 i = i" using i by (simp add: take_bit_nat_eq_self)
  finally show ?thesis .
qed

definition page_addr :: "nat \<Rightarrow> u64" where
  "page_addr n = of_nat (2 ^ 64 - 2 ^ 48 + 4096 * n)"

lemma unat_page_addr: "n < 2 ^ 36 \<Longrightarrow> unat (page_addr n) = 2 ^ 64 - 2 ^ 48 + 4096 * n"
  unfolding page_addr_def by (subst unat_of_nat, rule mod_less) simp

lemma next_heap_page:
  assumes "heap_wf h" "256 \<le> pml4_idx h" "pml4_idx h < 512"
  shows "get_next_heap_virt_page h = Inr (page_addr (heap_pos h))"
proof -
  define A B C D where "A = (push_bit 39 (of_nat (pml4_idx h) AND 0x1FF) :: u64)" and "B = (push_bit 30 (of_nat (pdpt_idx h) AND 0x1FF) :: u64)"
    and "C = (push_bit 21 (of_nat (pd_idx h) AND 0x1FF) :: u64)" and "D = (push_bit 12 (of_nat (pt_idx h) AND 0x1FF) :: u64)"
  define E where "E = (push_bit 48 0xFFFF :: u64)"
  let ?v = "A OR B OR C OR D"
  have w: "pdpt_idx h < 512" "pd_idx h < 512" "pt_idx h < 512" using assms(1) by (simp_all add: heap_wf_def)
  have bits: "bit A k \<Longrightarrow> 39 \<le> k \<and> k < 48" "bit B k \<Longrightarrow> 30 \<le> k \<and> k < 39" "bit C k \<Longrightarrow> 21 \<le> k \<and> k < 30" "bit D k \<Longrightarrow> 12 \<le> k \<and> k < 21" for k
    unfolding A_def B_def C_def D_def by (drule field_bit, simp)+
  have bE: "bit E k \<Longrightarrow> 48 \<le> k" for k unfolding E_def by (simp only: bit_push_bit_iff)
  have "C OR D = C + D" by (rule disjunctive_add [symmetric]) (use bits in fastforce)
  moreover have "B OR (C OR D) = B + (C OR D)" by (rule disjunctive_add [symmetric]) (use bits in \<open>fastforce simp: bit_or_iff\<close>)
  moreover have "A OR (B OR (C OR D)) = A + (B OR (C OR D))" by (rule disjunctive_add [symmetric]) (use bits in \<open>fastforce simp: bit_or_iff\<close>)
  ultimately have "?v = A + (B + (C + D))" by (simp add: or.assoc)
  also have "\<dots> = of_nat (heap_pos h * 4096)"
    unfolding A_def B_def C_def D_def field_eq [OF assms(3)] field_eq [OF w(1)] field_eq [OF w(2)] field_eq [OF w(3)] push_of_nat
    by (simp add: heap_pos_def algebra_simps)
  finally have v: "?v = of_nat (heap_pos h * 4096)" .
  have p: "heap_pos h < 2 ^ 36" "2 ^ 35 \<le> heap_pos h" using w assms(2,3) by (simp_all add: heap_pos_def)
  have "heap_pos h * 4096 div 2 ^ 47 = 1" using p by (intro div_nat_eqI) simp_all
  then have "bit (heap_pos h * 4096) 47" by (simp only: bit_iff_odd) simp
  then have "bit ?v 47" unfolding v by (simp only: bit_of_nat_iff) (simp add: exp_eq_0_imp_not_bit)
  then have b: "?v AND push_bit 47 1 \<noteq> 0" by (simp only: push_bit_of_1 and_exp_eq_0_iff_not_bit) simp
  have "?v OR E = ?v + E" by (rule disjunctive_add [symmetric]) (use bits bE in \<open>fastforce simp: bit_or_iff\<close>)
  then have e: "?v OR E = page_addr (heap_pos h)" unfolding v by (simp add: page_addr_def E_def)
  have "is_page_aligned (page_addr (heap_pos h))"
    unfolding is_page_aligned_iff page_aligned_def FRAME_SIZE_def unat_page_addr [OF p(1)] by (simp add: mod_eq_0_iff_dvd dvd_add)
  then show ?thesis using b e unfolding get_next_heap_virt_page_def Let_def A_def B_def C_def D_def E_def by simp
qed

section \<open>The words of the heap's pages\<close>

definition kroot :: "vmm \<Rightarrow> nat" where
  "kroot s = tab s (kernel_pml4 s)"

definition hidx :: "vmm \<Rightarrow> nat set" where
  "hidx s = {Suc (get_kernel_pml4_index s) ..< 512}"

definition entry :: "vmm \<Rightarrow> u64 \<Rightarrow> u64 option" where
  "entry s a = lookup (mem s) (kroot s) (path_of a) (idx_of 12 a)"

definition heap_word :: "vmm \<Rightarrow> u64 \<Rightarrow> bool" where
  "heap_word s a \<longleftrightarrow> 2 ^ 64 - 2 ^ 48 \<le> unat a \<and> idx_of 39 a \<in> hidx s \<and> unat a mod 8 = 0"

definition word_idx :: "u64 \<Rightarrow> nat" where
  "word_idx a = unat a mod 4096 div 8"

definition words :: "vmm \<Rightarrow> u64 \<rightharpoonup> u64" where
  "words s a = (if heap_word s a then map_option (\<lambda>e. mem s (ent_frame e) (word_idx a)) (entry s a) else None)"

definition page_no :: "u64 \<Rightarrow> nat" where
  "page_no a = ((idx_of 39 a * 512 + idx_of 30 a) * 512 + idx_of 21 a) * 512 + idx_of 12 a"

lemma word_idx_eq: "unat (drop_bit 3 (a AND PAGE_MASK)) = word_idx a"
proof -
  have "a AND PAGE_MASK = take_bit 12 a" by (simp add: PAGE_MASK_def take_bit_eq_mask mask_numeral mask_eq_exp_minus_1)
  then have "unat (drop_bit 3 (a AND PAGE_MASK)) = drop_bit 3 (take_bit 12 (unat a))" by (simp only: unat_drop_bit_eq unsigned_take_bit_eq)
  then show ?thesis by (simp add: word_idx_def drop_bit_eq_div take_bit_eq_mod)
qed

lemma word_idx_less [simp]: "word_idx a < 512"
  by (simp add: word_idx_def less_mult_imp_div_less)

lemma digit512: "(y + 512 * c) mod 512 = y mod (512 :: nat)" "(y + 512 * c) div 512 = y div 512 + (c :: nat)"
  by simp_all

lemma digit512_inj: "b < 512 \<Longrightarrow> d < 512 \<Longrightarrow> a * 512 + b = c * 512 + d \<longleftrightarrow> a = c \<and> b = (d :: nat)"
proof
  assume b: "b < 512" "d < 512" and eq: "a * 512 + b = c * 512 + d"
  have "a = (a * 512 + b) div 512" using b(1) by simp
  also have "\<dots> = c" unfolding eq using b(2) by simp
  finally show "a = c \<and> b = d" using eq by simp
qed simp

lemma unat_page_no: "2 ^ 64 - 2 ^ 48 \<le> unat a \<Longrightarrow> unat a = 2 ^ 64 - 2 ^ 48 + 4096 * page_no a + unat a mod 4096"
proof -
  assume a: "2 ^ 64 - 2 ^ 48 \<le> unat a"
  define x where "x = unat a div 4096"
  have u: "unat a = x * 4096 + unat a mod 4096" "unat a mod 4096 < 4096" by (simp_all add: x_def)
  have "unat a < 2 ^ 64" by (rule order_less_le_trans [OF unsigned_less]) simp
  then have x: "x < 2 ^ 52" "2 ^ 52 - 2 ^ 36 \<le> x" using a u by simp_all
  define y where "y = x - (2 ^ 52 - 2 ^ 36)"
  have y: "y < 512 ^ 4" and xy: "x = y + 512 * (512 * (512 * (512 * 65535)))" using x by (simp_all add: y_def)
  have i: "idx_of 12 a = x mod 512" "idx_of 21 a = x div 512 mod 512" "idx_of 30 a = x div 512 div 512 mod 512" "idx_of 39 a = x div 512 div 512 div 512 mod 512"
    by (simp_all add: idx_of_nat x_def div_mult2_eq [symmetric])
  have "page_no a = y" unfolding page_no_def i xy digit512 using digits4 [OF y] by (simp add: algebra_simps)
  then have "x = 2 ^ 52 - 2 ^ 36 + page_no a" using xy by simp
  then show ?thesis using u(1) by simp
qed

lemma digit512_less: "a < n \<Longrightarrow> b < 512 \<Longrightarrow> a * 512 + b < n * (512 :: nat)"
  by linarith

lemma page_no_less: "page_no a < 2 ^ 36"
proof -
  have "page_no a < 512 * 512 * 512 * 512" unfolding page_no_def by (intro digit512_less idx_less)
  then show ?thesis by simp
qed

lemma page_no_key: "path_of a = path_of b \<and> idx_of 12 a = idx_of 12 b \<longleftrightarrow> page_no a = page_no b"
  unfolding page_no_def path_of_def digit512_inj [OF idx_less idx_less] by simp

lemma page_no_eq: "2 ^ 64 - 2 ^ 48 \<le> unat a \<Longrightarrow> unat a < 2 ^ 64 - 2 ^ 48 + 4096 * n + 4096 \<Longrightarrow> 2 ^ 64 - 2 ^ 48 + 4096 * n \<le> unat a \<Longrightarrow> page_no a = n"
  using unat_page_no [of a] by (simp add: mod_less_divisor)

lemma word_inj:
  assumes "heap_word s a" "heap_word s b" "page_no a = page_no b" "word_idx a = word_idx b"
  shows "a = b"
proof -
  have m: "unat x mod 4096 = word_idx x * 8" if "heap_word s x" for x
  proof -
    have "unat x mod 4096 mod 8 = 0" using that by (simp add: heap_word_def mod_mod_cancel)
    then show ?thesis using div_mult_mod_eq [of "unat x mod 4096" 8] by (simp add: word_idx_def)
  qed
  have "unat a = unat b" using unat_page_no [of a] unat_page_no [of b] m [OF assms(1)] m [OF assms(2)] assms by (simp add: heap_word_def)
  then show ?thesis by (simp add: word_unat_eq_iff)
qed

section \<open>The invariant\<close>

text \<open>
  The tables of the heap are well formed and in use, all its pages can be written, and no page at or after the cursor is
  mapped. The kernel's direct map starts in the upper half, and its own table is the one in \<^verbatim>\<open>cr3\<close>.
\<close>

definition heap_inv :: "vmm \<Rightarrow> bool" where
  "heap_inv s \<longleftrightarrow> space_ok 4 (hidx s) s (kroot s) \<and> hhdm_ok s \<and> kernel_pml4 s \<noteq> 0 \<and> frame_of (cr3 s) = kroot s \<and>
     256 \<le> get_kernel_pml4_index s \<and> heap_wf (kheap s) \<and> pml4_idx (kheap s) \<in> hidx s \<and>
     (\<forall>a e. idx_of 39 a \<in> hidx s \<and> entry s a = Some e \<longrightarrow> bit e 1 \<and> page_no a < heap_pos (kheap s))"

lemma kernel_eqs: "ctl_eq s t \<Longrightarrow> kroot t = kroot s" "ctl_eq s t \<Longrightarrow> hidx t = hidx s"
  using ctl_eq_tab [of s t] by (simp_all add: kroot_def hidx_def ctl_eq_def)

lemma entry_frame:
  assumes "heap_inv s" "idx_of 39 a \<in> hidx s" "entry s a = Some e"
  shows "ent_frame e \<in> frames 4 (hidx s) (mem s) (kroot s)" "ent_frame e \<notin> frames 3 (hidx s) (mem s) (kroot s)"
proof -
  have w: "walk (mem s) (kroot s) (path_of a @ [idx_of 12 a]) = Some (ent_frame e)" using assms(3) unfolding entry_def by (rule walk_lookup)
  have p: "path_in (hidx s) (path_of a @ [idx_of 12 a])" by (rule path_in_page [OF assms(2)])
  show "ent_frame e \<in> frames 4 (hidx s) (mem s) (kroot s)" using walk_in_frames [OF w p, of 4] by simp
  have "tree (Suc 3) (hidx s) (mem s) (kroot s)" using assms(1) by (simp add: heap_inv_def space_ok_def)
  from leaf_not_inner [OF this w p] show "ent_frame e \<notin> frames 3 (hidx s) (mem s) (kroot s)" by simp
qed

lemma entry_inj:
  assumes "heap_inv s" "idx_of 39 a \<in> hidx s" "idx_of 39 b \<in> hidx s" "entry s a = Some e" "entry s b = Some e'" "ent_frame e = ent_frame e'"
  shows "page_no a = page_no b"
  using lookup_inj [OF _ path_in_page [OF assms(2)] path_in_page [OF assms(3)] _ _ assms(4,5) [unfolded entry_def] assms(6)] assms(1)
  by (simp add: heap_inv_def page_no_key)

lemma find_pte_entry:
  assumes "heap_inv s" "entry s a = Some e"
  obtains pt where "find_pte s (hhdm_ptov s (cr3 s)) a = Inr (Some (pt, idx_of 12 a))" "mem s (tab s pt) (idx_of 12 a) = e"
proof -
  have r: "frame_of (cr3 s) = kroot s" using assms(1) by (simp add: heap_inv_def)
  show ?thesis
    by (cases rule: find_pte_cases [of s "hhdm_ptov s (cr3 s)" a]) (use assms(2) that in \<open>auto simp: entry_def r\<close>)
qed

lemma vload_words:
  assumes h: "heap_inv s" and w: "words s a = Some x"
  shows "vload s a = Inr x"
proof -
  obtain e where e: "entry s a = Some e" "x = mem s (ent_frame e) (word_idx a)" using w by (auto simp: words_def split: if_splits)
  obtain pt where "find_pte s (hhdm_ptov s (cr3 s)) a = Inr (Some (pt, idx_of 12 a))" "mem s (tab s pt) (idx_of 12 a) = e"
    by (rule find_pte_entry [OF h e(1)])
  then show ?thesis unfolding vload_def word_idx_eq by (simp add: e(2) get_pte_phys_frame_def frame_of_push)
qed

lemma vstore_words:
  assumes h: "heap_inv s" and w: "words s a = Some x"
  shows "\<exists>s'. vstore a y s = Inr s' \<and> heap_inv s' \<and> words s' = (words s)(a \<mapsto> y) \<and> ctl_eq s s' \<and> vpmm s' = vpmm s"
proof -
  obtain e where e: "heap_word s a" "entry s a = Some e" "x = mem s (ent_frame e) (word_idx a)" using w by (auto simp: words_def split: if_splits)
  have ia: "idx_of 39 a \<in> hidx s" using e(1) by (simp add: heap_word_def)
  have b: "bit e 1" using h e(2) ia by (auto simp: heap_inv_def)
  define s' where "s' = s\<lparr>mem := (mem s)(ent_frame e := (mem s (ent_frame e))(word_idx a := y))\<rparr>"
  have st: "vstore a y s = Inr s'"
    by (rule find_pte_entry [OF h e(2)])
       (use b in \<open>simp add: vstore_def word_idx_eq del: drop_bit_and, simp add: get_pte_phys_frame_def frame_of_push s'_def Let_def\<close>)
  have ct: "ctl_eq s s'" by (simp add: s'_def)
  note k = kernel_eqs [OF ct]
  have same: "mem s' u = mem s u" if "u \<in> frames 3 (hidx s) (mem s) (kroot s)" for u
    using that entry_frame(2) [OF h ia e(2)] by (auto simp: s'_def)
  have en: "entry s' c = entry s c" if "idx_of 39 c \<in> hidx s" for c
    unfolding entry_def k by (rule lookup_cong [OF same]) (use path_in_path_of [OF that] in auto)
  have fr: "frames (Suc 3) (hidx s) (mem s') (kroot s) = frames (Suc 3) (hidx s) (mem s) (kroot s)" by (rule frames_cong [OF same])
  have tr: "tree (Suc 3) (hidx s) (mem s') (kroot s)" by (rule tree_cong [OF same]) (use h in \<open>auto simp: heap_inv_def space_ok_def\<close>)
  have sp: "space_ok 4 (hidx s) s' (kroot s)" using h fr tr by (simp add: heap_inv_def space_ok_def) (simp add: s'_def)
  have "heap_inv s'" unfolding heap_inv_def k using h sp en ctl_eq_tab [OF ct] ct by (auto simp: heap_inv_def ctl_eq_def)
  moreover have "words s' = (words s)(a \<mapsto> y)"
  proof
    fix c
    have hw: "heap_word s' c = heap_word s c" by (simp add: heap_word_def k)
    show "words s' c = ((words s)(a \<mapsto> y)) c"
    proof (cases "heap_word s c \<and> entry s c \<noteq> None")
      case True
      then obtain e' where c: "heap_word s c" "idx_of 39 c \<in> hidx s" "entry s c = Some e'" by (auto simp: heap_word_def)
      have "c = a" if "ent_frame e' = ent_frame e" "word_idx c = word_idx a"
        using entry_inj [OF h c(2) ia c(3) e(2) that(1)] word_inj [OF c(1) e(1)] that(2) by simp
      moreover have "words s' c = Some (mem s' (ent_frame e') (word_idx c))" "words s c = Some (mem s (ent_frame e') (word_idx c))"
        using c en [OF c(2)] by (simp_all add: words_def hw)
      moreover have "ent_frame e' = ent_frame e" if "c = a" using that c(3) e(2) by simp
      ultimately show ?thesis by (cases "ent_frame e' = ent_frame e \<and> word_idx c = word_idx a") (auto simp: s'_def)
    next
      case False
      then have "c \<noteq> a" using e by auto
      then show ?thesis using False en [of c] by (auto simp: words_def heap_word_def k)
    qed
  qed
  ultimately show ?thesis using st ct by (intro exI [of _ s']) (simp add: s'_def)
qed

section \<open>Taking and giving back a page\<close>

lemma heap_key:
  assumes "heap_wf h"
  shows "path_of a = [pml4_idx h, pdpt_idx h, pd_idx h] \<and> idx_of 12 a = pt_idx h \<longleftrightarrow> page_no a = heap_pos h"
proof -
  have "pdpt_idx h < 512" "pd_idx h < 512" "pt_idx h < 512" using assms by (simp_all add: heap_wf_def)
  then show ?thesis unfolding page_no_def heap_pos_def path_of_def by (simp only: digit512_inj idx_less) auto
qed

lemma page_align_eq: "page_aligned p \<Longrightarrow> page_align p = p" "page_aligned p \<Longrightarrow> p AND PAGE_MASK = 0"
proof -
  assume p: "page_aligned p"
  then show "p AND PAGE_MASK = 0" by (simp add: is_page_aligned_iff [symmetric] is_page_aligned_def)
  moreover have "p = (p AND PAGE_MASK) OR (p AND NOT PAGE_MASK)" by (rule bit_word_eqI) (auto simp: bit_simps)
  ultimately show "page_align p = p" by (simp add: page_align_def)
qed

lemma kheap_upd [simp]: "kroot (s\<lparr>kheap := h\<rparr>) = kroot s" "hidx (s\<lparr>kheap := h\<rparr>) = hidx s" "entry (s\<lparr>kheap := h\<rparr>) = entry s"
    "heap_word (s\<lparr>kheap := h\<rparr>) = heap_word s" "words (s\<lparr>kheap := h\<rparr>) = words s" "space_ok k I (s\<lparr>kheap := h\<rparr>) r = space_ok k I s r"
    "hhdm_ok (s\<lparr>kheap := h\<rparr>) = hhdm_ok s" "get_kernel_pml4_index (s\<lparr>kheap := h\<rparr>) = get_kernel_pml4_index s"
  by (auto simp: fun_eq_iff kroot_def tab_def hhdm_vtop_def hidx_def get_kernel_pml4_index_def entry_def heap_word_def words_def space_ok_def hhdm_ok_def)

lemma alloc_kernel_page_words:
  assumes h: "heap_inv s" and av: "4 \<le> card (avail (vpmm s))" and last: "pml4_idx (advance_heap (kheap s)) < 512"
  defines "n \<equiv> heap_pos (kheap s)"
  shows "\<exists>s'. alloc_kernel_page s = Inr (page_addr n, s') \<and> heap_inv s' \<and> kheap s' = advance_heap (kheap s) \<and> hidx s' = hidx s \<and>
    card (avail (vpmm s)) \<le> card (avail (vpmm s')) + 4 \<and> (\<forall>a. page_no a \<noteq> n \<longrightarrow> words s' a = words s a) \<and>
    (\<forall>a. heap_word s a \<and> page_no a = n \<longrightarrow> words s a = None \<and> words s' a \<noteq> None)"
proof -
  let ?I = "hidx s" and ?r = "kroot s" and ?q = "kernel_pml4 s"
  let ?A = "pml4_idx (kheap s)" and ?B = "pdpt_idx (kheap s)" and ?C = "pd_idx (kheap s)" and ?D = "pt_idx (kheap s)"
  have inv: "space_ok 4 ?I s ?r" "hhdm_ok s" "?q \<noteq> 0" "frame_of (cr3 s) = ?r" "256 \<le> get_kernel_pml4_index s" "heap_wf (kheap s)" "?A \<in> ?I"
    and ent: "\<And>a e. idx_of 39 a \<in> ?I \<Longrightarrow> entry s a = Some e \<Longrightarrow> bit e 1 \<and> page_no a < n" using h by (auto simp: heap_inv_def n_def)
  have A: "256 \<le> ?A" "?A < 512" using inv(5,7) by (simp_all add: hidx_def)
  have pp: "pmm_ok (vpmm s)" using inv(1) by (simp add: space_ok_def)
  have ne: "avail (vpmm s) \<noteq> {}" using av by auto
  obtain f m where f: "alloc_frame (vpmm s) = Inr (f, m)" "pmm_ok m" "page_aligned f" "frame_of f = Min (avail (vpmm s))"
      "avail m = avail (vpmm s) - {frame_of f}" "free_set m = free_set (vpmm s) - {frame_of f}"
    using alloc_frame_some [OF pp ne] by blast
  have fa: "frame_of f \<in> avail (vpmm s)" using f(4) ne by simp
  then have fb: "frame_of f < 64 * FRAME_BITMAP_SIZE" "frame_of f \<in> free_set (vpmm s)" using avail_bounds [OF pp] by auto
  define s0 where "s0 = s\<lparr>vpmm := m\<rparr>"
  have c0: "ctl_eq s s0" by (simp add: s0_def)
  note k0 = kernel_eqs [OF c0] ctl_eq_tab [OF c0]
  have t0: "tab s0 ?q = ?r" using k0(1) by (simp add: kroot_def s0_def)
  have sp0: "space_ok 4 ?I s0 ?r" using inv(1) f(2,6) by (auto simp: space_ok_def s0_def)
  have a0: "3 \<le> card (avail (vpmm s0))" using av fa f(5) by (simp add: s0_def card_Diff_singleton)
  define fl where "fl = PAGE_WRITE OR PAGE_GLOBAL"
  have pin: "path_in ?I [?A, ?B, ?C]" "?D < 512" using inv(6,7) by (simp_all add: heap_wf_def)
  have hh0: "hhdm_ok s0" using inv(2) k0 by simp
  have f40: "frame_of f < 2 ^ 40" using fb(1) by (simp add: FRAME_BITMAP_SIZE_eq)
  obtain pdpt s1 pd s2 pt s3 e s4 N where c: "ensure_pdpte_present ?q ?A fl s0 = Inr (pdpt, s1)" "ensure_pde_present pdpt ?B fl s1 = Inr (pd, s2)"
      "ensure_pte_present pd ?C fl s2 = Inr (pt, s3)" "populate_pte (mem s3 (tab s3 pt) ?D) f fl = Inr e" "stq pt ?D e s3 = Inr s4"
      "extends 3 ?I ?r N s0 s4" "card N \<le> 3" "maps_entry ?I ?r [?A, ?B, ?C] ?D e s0 s4" "bit e 0" "ent_frame e = frame_of f" "bit e 1 = has_flag fl PAGE_WRITE"
    using map_core [OF space_ok_tables [OF sp0 [folded t0]] pin(1) A(2) pin(2) hh0 a0 f(3) f40, of fl] unfolding t0 by (elim exE conjE) (rule that)
  have w: "bit e 1" unfolding c(11) fl_def by (simp add: has_flag_def PAGE_WRITE_def PAGE_GLOBAL_def)
  have nf: "frame_of f \<notin> frames 4 ?I (mem s0) ?r" "frame_of f \<notin> free_set (vpmm s0)"
    using fb(2) inv(1) f(6) by (auto simp: space_ok_def s0_def)
  have sp4: "space_ok 4 ?I s4 ?r"
    using map_core_pages(1) [OF sp0 [folded t0] pin(1) A(2) pin(2) hh0 a0 c(1-3,5,9,10)] nf fb(1) unfolding t0 by simp
  have c4: "ctl_eq s s4" using c(6) c0 by (auto simp: extends_def intro: ctl_eq_trans)
  note k4 = kernel_eqs [OF c4] ctl_eq_tab [OF c4]
  define s' where "s' = s4\<lparr>kheap := advance_heap (kheap s)\<rparr>"
  have en: "entry s4 a = (if page_no a = n then Some e else entry s a)" if "idx_of 39 a \<in> ?I" for a
    using c(8) path_in_path_of [OF that] heap_key [OF inv(6), of a] unfolding maps_entry_def entry_def k4 n_def by (auto simp: s0_def)
  have adv: "heap_wf (advance_heap (kheap s))" "heap_pos (advance_heap (kheap s)) = Suc n" using advance_heap_pos [OF inv(6)] by (auto simp: n_def)
  have ai: "pml4_idx (advance_heap (kheap s)) \<in> ?I" using last inv(7) by (auto simp: hidx_def advance_heap_def Let_def split: if_splits)
  have hi: "heap_inv s'" unfolding heap_inv_def s'_def using sp4 inv ent en w adv ai c4 k4
    by (auto simp: ctl_eq_def less_Suc_eq split: if_splits)
  have "alloc_kernel_page s = Inr (page_addr n, s')"
    using f(1) c(1-5) next_heap_page [OF inv(6) A] inv(3) page_align_eq [OF f(3)] pin(2)
    unfolding alloc_kernel_page_def map_phys_def map_heap_page_def or.left_neutral fl_def [symmetric]
    by (simp add: Let_def kassert_not_null_def s'_def n_def s0_def)
  moreover have "card (avail (vpmm s)) \<le> card (avail (vpmm s')) + 4" 
    using extends_avail [OF c(6)] c(7) f(5) fa by (simp add: s'_def s0_def card_Diff_singleton)
  moreover have "words s' a = words s a" if "page_no a \<noteq> n" for a
  proof (cases "heap_word s a \<and> entry s a \<noteq> None")
    case True
    then obtain e' where e': "idx_of 39 a \<in> ?I" "entry s a = Some e'" by (auto simp: heap_word_def)
    have "ent_frame e' \<notin> free_set (vpmm s)" using entry_frame(1) [OF h e'] inv(1) by (simp add: space_ok_def)
    moreover have "N \<subseteq> avail (vpmm s)" using c(6) f(5) by (auto simp: extends_def s0_def)
    ultimately have "ent_frame e' \<notin> N" using avail_bounds [OF pp, of "ent_frame e'"] by blast
    then have "mem s4 (ent_frame e') = mem s (ent_frame e')" using c(6) entry_frame(2) [OF h e'] by (simp add: extends_def s0_def)
    then show ?thesis using True e' en [OF e'(1)] that by (simp add: words_def s'_def heap_word_def k4)
  qed (use en [of a] that in \<open>auto simp: words_def s'_def heap_word_def k4\<close>)
  moreover have "words s a = None \<and> words s' a \<noteq> None" if "heap_word s a" "page_no a = n" for a
    using that en [of a] ent [of a] by (cases "entry s a") (auto simp: words_def s'_def heap_word_def k4)
  ultimately show ?thesis using hi by (intro exI [of _ s']) (simp add: s'_def k4)
qed

lemma free_kernel_page_words:
  assumes h: "heap_inv s" and p: "page_aligned p" "words s p \<noteq> None"
  shows "\<exists>s'. free_kernel_page p s = Inr s' \<and> heap_inv s' \<and> ctl_eq s s' \<and>
    words s' = (\<lambda>a. if page_no a = page_no p then None else words s a)"
proof -
  let ?I = "hidx s" and ?r = "kroot s" and ?q = "kernel_pml4 s"
  have inv: "space_ok 4 ?I s ?r" "?q \<noteq> 0" using h by (simp_all add: heap_inv_def)
  have t: "tab s ?q = ?r" by (simp add: kroot_def)
  obtain e where e: "heap_word s p" "entry s p = Some e" using p(2) by (auto simp: words_def split: if_splits)
  have ip: "idx_of 39 p \<in> ?I" and p0: "p \<noteq> 0" using e(1) by (auto simp: heap_word_def)
  obtain s' where s': "unmap_page ?q p s = Inr s'" "ctl_eq s s'" "space_ok 4 ?I s' ?r" 
      "\<forall>w j. path_in ?I w \<and> length w = 3 \<and> j < 512 \<longrightarrow> lookup (mem s') ?r w j = (if w = path_of p \<and> j = idx_of 12 p then None else lookup (mem s) ?r w j)"
      "\<forall>u. u \<notin> frames 3 ?I (mem s) ?r \<longrightarrow> mem s' u = mem s u"
    using unmap_page_ok(2) [OF inv(1) [folded t] ip inv(2) p(1) e(2) [unfolded entry_def, folded t]] unfolding t by (elim exE conjE) (rule that)
  note k = kernel_eqs [OF s'(2)] ctl_eq_tab [OF s'(2)]
  have en: "entry s' a = (if page_no a = page_no p then None else entry s a)" if "idx_of 39 a \<in> ?I" for a
    using s'(4) path_in_path_of [OF that] page_no_key [of a p] unfolding entry_def k by auto
  have "heap_inv s'" unfolding heap_inv_def k using h s'(2,3) en by (auto simp: heap_inv_def ctl_eq_def split: if_splits)
  moreover have "words s' a = (if page_no a = page_no p then None else words s a)" for a
  proof (cases "heap_word s a \<and> entry s a \<noteq> None")
    case True
    then obtain e' where e': "idx_of 39 a \<in> ?I" "entry s a = Some e'" by (auto simp: heap_word_def)
    have "mem s' (ent_frame e') = mem s (ent_frame e')" using s'(5) entry_frame(2) [OF h e'] by blast
    then show ?thesis using True e' en [OF e'(1)] by (simp add: words_def heap_word_def k)
  qed (use en [of a] in \<open>auto simp: words_def heap_word_def k\<close>)
  ultimately show ?thesis using s'(1,2) p0 page_align_eq(1) [OF p(1)] by (intro exI [of _ s']) (auto simp: free_kernel_page_def)
qed

end
