(* ===== verification/Slab.thy ===== *)
theory Slab
  imports Vmm_Heap
begin

unbundle bit_operations_syntax

text \<open>
  The slab allocator and the kernel's allocation functions: \<^verbatim>\<open>lib/memory/slab.cpp\<close>, \<^verbatim>\<open>include/memory/slab.hpp\<close> and
  \<^verbatim>\<open>lib/memory/memory.cpp\<close>, on top of the virtual memory manager. A \<^verbatim>\<open>Slab\<close> lives at the start of its page, so its
  fields are words of kernel memory read and written through the page tables: \<open>magic\<close>, \<open>free_head\<close>, \<open>next_slab\<close> and \<open>prev_slab\<close> at
  offsets 0, 8, 16 and 24, and the bytes \<open>size_class_index\<close> and \<open>free_chunks\<close> at offsets 32 and 33. The null pointer is 0.
\<close>

section \<open>Definitions\<close>

definition SLAB_MAGIC :: u64 where
  "SLAB_MAGIC = 0x51AB51AB51AB51AB"

definition sizeof_Slab :: u64 where
  "sizeof_Slab = 40"

record SizeClass =
  sc_index :: u8
  sc_size :: u64
  num_slabs :: u64
  first_slab :: u64
  chunks_per_slab :: u8

definition chunks_per_slab_of :: "u64 \<Rightarrow> u8" where
  "chunks_per_slab_of chunk_size = ucast ((PAGE_SIZE - sizeof_Slab) div chunk_size)"

definition new_class :: "u8 \<Rightarrow> u64 \<Rightarrow> SizeClass" where
  "new_class i bytes = \<lparr>sc_index = i, sc_size = bytes, num_slabs = 0, first_slab = 0, chunks_per_slab = chunks_per_slab_of bytes\<rparr>"

definition init_classes :: "SizeClass list" where
  "init_classes = [new_class 0 32, new_class 1 64, new_class 2 128, new_class 3 256, new_class 4 512, new_class 5 1024]"

record kmm =
  kvm :: vmm
  classes :: "SizeClass list"

definition load :: "u64 \<Rightarrow> kmm \<Rightarrow> u64 kres" where
  "load a s = vload (kvm s) a"

definition store :: "u64 \<Rightarrow> u64 \<Rightarrow> kmm \<Rightarrow> kmm kres" where
  "store a x s = kbind (vstore a x (kvm s)) (\<lambda>v. Inr (s\<lparr>kvm := v\<rparr>))"

definition get_byte :: "nat \<Rightarrow> u64 \<Rightarrow> u8" where
  "get_byte k w = ucast (drop_bit (8 * k) w)"

definition put_byte :: "nat \<Rightarrow> u8 \<Rightarrow> u64 \<Rightarrow> u64" where
  "put_byte k b w = (w AND NOT (push_bit (8 * k) 0xFF)) OR push_bit (8 * k) (ucast b)"

definition load_byte :: "u64 \<Rightarrow> nat \<Rightarrow> kmm \<Rightarrow> u8 kres" where
  "load_byte a k s = kbind (load a s) (\<lambda>w. Inr (get_byte k w))"

definition store_byte :: "u64 \<Rightarrow> nat \<Rightarrow> u8 \<Rightarrow> kmm \<Rightarrow> kmm kres" where
  "store_byte a k b s = kbind (load a s) (\<lambda>w. store a (put_byte k b w) s)"

definition try_get_slab :: "u64 \<Rightarrow> kmm \<Rightarrow> u64 kres" where
  "try_get_slab addr s = (if addr = 0 then Inr 0
     else let slab = addr AND NOT 0xFFF in kbind (load slab s) (\<lambda>magic. Inr (if magic = SLAB_MAGIC then slab else 0)))"

definition is_slab :: "u64 \<Rightarrow> kmm \<Rightarrow> bool kres" where
  "is_slab addr s = kbind (try_get_slab addr s) (\<lambda>p. Inr (p \<noteq> 0))"

definition can_alloc :: "u64 \<Rightarrow> bool" where
  "can_alloc bytes \<longleftrightarrow> bytes \<le> 1024"

text \<open>The class is given by its index in \<^verbatim>\<open>classes\<close>.\<close>

definition get_size_class :: "u64 \<Rightarrow> nat option" where
  "get_size_class bytes =
    (if bytes \<le> 32 then Some 0 else if bytes \<le> 64 then Some 1 else if bytes \<le> 128 then Some 2
     else if bytes \<le> 256 then Some 3 else if bytes \<le> 512 then Some 4 else if bytes \<le> 1024 then Some 5 else None)"

definition get_class :: "nat \<Rightarrow> kmm \<Rightarrow> SizeClass kres" where
  "get_class i s = (if i < length (classes s) then Inr (classes s ! i) else Inl (Fault ''classes index''))"

definition init_chunks :: "u64 \<Rightarrow> u8 \<Rightarrow> u64 \<Rightarrow> kmm \<Rightarrow> kmm kres" where
  "init_chunks first_chunk num_chunks chunk_size s =
    kbind (kfor 0 (unat num_chunks - 1) (\<lambda>chunk_idx s.
      let this_chunk = first_chunk + of_nat chunk_idx * chunk_size; next_chunk = this_chunk + chunk_size in
      kbind (kassert_not_null this_chunk) (\<lambda>_. kbind (kassert_not_null next_chunk) (\<lambda>_. store this_chunk next_chunk s))) s)
    (store (first_chunk + (ucast num_chunks - 1) * chunk_size) 0)"

definition create_slab :: "nat \<Rightarrow> kmm \<Rightarrow> (u64 \<times> kmm) kres" where
  "create_slab i s = kbind (get_class i s) (\<lambda>sc.
     kbind (alloc_kernel_page (kvm s)) (\<lambda>(slab, v).
     kbind (init_chunks (slab + sizeof_Slab) (chunks_per_slab sc) (sc_size sc) (s\<lparr>kvm := v\<rparr>)) (\<lambda>s1.
     kbind (store slab SLAB_MAGIC s1) (\<lambda>s2.
     kbind (store_byte (slab + 32) 0 (sc_index sc) s2) (\<lambda>s3.
     kbind (store (slab + 8) (slab + sizeof_Slab) s3) (\<lambda>s4.
     kbind (store_byte (slab + 32) 1 (chunks_per_slab sc) s4) (\<lambda>s5.
     kbind (if first_slab sc \<noteq> 0 then store (first_slab sc + 24) slab s5 else Inr s5) (\<lambda>s6.
     kbind (store (slab + 16) (first_slab sc) s6) (\<lambda>s7.
     kbind (store (slab + 24) 0 s7) (\<lambda>s8.
       Inr (slab, s8\<lparr>classes := (classes s8)[i := sc\<lparr>first_slab := slab, num_slabs := num_slabs sc + 1\<rparr>]\<rparr>)))))))))))"

definition destroy_slab :: "nat \<Rightarrow> u64 \<Rightarrow> kmm \<Rightarrow> kmm kres" where
  "destroy_slab i slab s = (if slab = 0 then Inr s
     else kbind (get_class i s) (\<lambda>sc. kbind (load (slab + 24) s) (\<lambda>prev. kbind (load (slab + 16) s) (\<lambda>nxt.
       if prev = 0 \<and> nxt = 0 then Inr s
       else kbind (if prev \<noteq> 0 then kbind (store (prev + 16) nxt s) (\<lambda>s1. Inr (sc, s1)) else Inr (sc\<lparr>first_slab := nxt\<rparr>, s)) (\<lambda>(sc1, s1).
         kbind (if nxt \<noteq> 0 then store (nxt + 24) prev s1 else Inr s1) (\<lambda>s2.
         let s3 = s2\<lparr>classes := (classes s2)[i := sc1\<lparr>num_slabs := num_slabs sc1 - 1\<rparr>]\<rparr> in
         kbind (free_kernel_page slab (kvm s3)) (\<lambda>v. Inr (s3\<lparr>kvm := v\<rparr>))))))))"

text \<open>
  The loop of \<^verbatim>\<open>alloc\<close> over the slabs of a class. It makes one round more than the class has slabs at most, unless the list is
  damaged; that is the fuel.
\<close>

primrec find_slab :: "nat \<Rightarrow> u64 \<Rightarrow> kmm \<Rightarrow> u64 kres" where
  "find_slab 0 slab s = Inl (Fault ''slab list'')"
| "find_slab (Suc k) slab s = (if slab = 0 then Inr 0
     else kbind (load (slab + 8) s) (\<lambda>free_head. if free_head \<noteq> 0 then Inr slab
       else kbind (load (slab + 16) s) (\<lambda>next_slab. find_slab k next_slab s)))"

definition slab_alloc :: "u64 \<Rightarrow> kmm \<Rightarrow> (u64 \<times> kmm) kres" where
  "slab_alloc bytes s = (case get_size_class bytes of None \<Rightarrow> Inl (Fault ''null size class'')
     | Some i \<Rightarrow> kbind (get_class i s) (\<lambda>sc. kbind (find_slab (Suc (unat (num_slabs sc))) (first_slab sc) s) (\<lambda>slab.
         kbind (if slab = 0 then create_slab i s else Inr (slab, s)) (\<lambda>(slab, s1).
         kbind (kassert_not_null slab) (\<lambda>_.
         kbind (load (slab + 8) s1) (\<lambda>chunk.
         kbind (load chunk s1) (\<lambda>nxt.
         kbind (store (slab + 8) nxt s1) (\<lambda>s2.
         kbind (load_byte (slab + 32) 1 s2) (\<lambda>n.
         kbind (store_byte (slab + 32) 1 (n - 1) s2) (\<lambda>s3. Inr (chunk, s3)))))))))))"

definition slab_free :: "u64 \<Rightarrow> kmm \<Rightarrow> kmm kres" where
  "slab_free addr s = kbind (try_get_slab addr s) (\<lambda>slab. if slab = 0 then Inr s
     else kbind (load_byte (slab + 32) 0 s) (\<lambda>i.
       kbind (load (slab + 8) s) (\<lambda>free_head.
       kbind (store addr free_head s) (\<lambda>s1.
       kbind (store (slab + 8) addr s1) (\<lambda>s2.
       kbind (load_byte (slab + 32) 1 s2) (\<lambda>n.
       kbind (store_byte (slab + 32) 1 (n + 1) s2) (\<lambda>s3.
       kbind (load_byte (slab + 32) 1 s3) (\<lambda>n'.
       kbind (get_class (unat i) s3) (\<lambda>sc.
         if n' = chunks_per_slab sc \<and> num_slabs sc > 1 then destroy_slab (unat i) slab s3 else Inr s3)))))))))"

definition total_slabs :: "kmm \<Rightarrow> u64" where
  "total_slabs s = foldl (\<lambda>total sc. total + num_slabs sc) 0 (classes s)"

definition kmalloc :: "u64 \<Rightarrow> kmm \<Rightarrow> (u64 \<times> kmm) kres" where
  "kmalloc bytes s = (if bytes = 0 then Inr (0, s)
     else if can_alloc bytes then slab_alloc bytes s
     else kbind (alloc_kernel bytes (kvm s)) (\<lambda>(p, v). Inr (p, s\<lparr>kvm := v\<rparr>)))"

definition kfree :: "u64 \<Rightarrow> kmm \<Rightarrow> kmm kres" where
  "kfree ptr s = (if ptr = 0 then Inr s
     else kbind (is_slab ptr s) (\<lambda>b. if b then slab_free ptr s
       else kbind (free_kernel ptr (kvm s)) (\<lambda>v. Inr (s\<lparr>kvm := v\<rparr>))))"

end
