(* ===== verification/Slab_Inv.thy ===== *)
theory Slab_Inv
  imports Slab
begin

unbundle bit_operations_syntax

text \<open>
  The invariant of the slab allocator. Addresses are written \<open>wa n j\<close>, word \<open>j\<close> of page \<open>n\<close>, and memory is the partial function
  \<open>V s n j\<close>; under \<open>heap_inv\<close> the loads and stores of the code are lookups and updates of it, so the rest is about
  lists of pages and lists of chunk numbers.
\<close>

section \<open>Words by page and index\<close>

definition wa :: "nat \<Rightarrow> nat \<Rightarrow> u64" where
  "wa n j = page_addr n + of_nat (8 * j)"

lemma unat_wa: "n < 2 ^ 36 \<Longrightarrow> j < 512 \<Longrightarrow> unat (wa n j) = 2 ^ 64 - 2 ^ 48 + 4096 * n + 8 * j"
  unfolding wa_def page_addr_def of_nat_add [symmetric] by (subst unat_of_nat, rule mod_less) simp

lemma page_no_wa: "n < 2 ^ 36 \<Longrightarrow> j < 512 \<Longrightarrow> page_no (wa n j) = n"
  by (rule page_no_eq) (simp_all add: unat_wa)

lemma word_idx_wa: "n < 2 ^ 36 \<Longrightarrow> j < 512 \<Longrightarrow> word_idx (wa n j) = j"
proof -
  assume a: "n < 2 ^ 36" "j < 512"
  have "unat (wa n j) mod 4096 = (8 * j + 4096 * (n + (2 ^ 52 - 2 ^ 36))) mod 4096" unfolding unat_wa [OF a] by (simp add: algebra_simps)
  also have "\<dots> = 8 * j" unfolding mod_mult_self2 using a(2) by simp
  finally show ?thesis by (simp add: word_idx_def)
qed

lemma wa_inj: "n < 2 ^ 36 \<Longrightarrow> j < 512 \<Longrightarrow> m < 2 ^ 36 \<Longrightarrow> k < 512 \<Longrightarrow> wa n j = wa m k \<longleftrightarrow> n = m \<and> j = k"
  using page_no_wa [of n j] page_no_wa [of m k] word_idx_wa [of n j] word_idx_wa [of m k] by auto

lemma wa_add: "wa n j + of_nat (8 * k) = wa n (j + k)"
  by (simp add: wa_def algebra_simps)

lemma wa_offsets: "wa n 0 + 8 = wa n 1" "wa n 0 + 16 = wa n 2" "wa n 0 + 24 = wa n 3" "wa n 0 + 32 = wa n 4" "wa n 0 + sizeof_Slab = wa n 5"
  using wa_add [of n 0 1] wa_add [of n 0 2] wa_add [of n 0 3] wa_add [of n 0 4] wa_add [of n 0 5] by (simp_all add: sizeof_Slab_def numeral_2_eq_2)

lemma wa_nonzero: "n < 2 ^ 36 \<Longrightarrow> j < 512 \<Longrightarrow> wa n j \<noteq> 0"
  using unat_wa [of n j] by auto

lemma wa_0: "wa n 0 = page_addr n"
  by (simp add: wa_def)

lemma page_aligned_wa: "n < 2 ^ 36 \<Longrightarrow> page_aligned (wa n 0)"
  unfolding page_aligned_def FRAME_SIZE_def by (subst unat_wa) (simp_all add: mod_eq_0_iff_dvd dvd_add)

lemma wa_page: "n < 2 ^ 36 \<Longrightarrow> j < 512 \<Longrightarrow> wa n j AND NOT 0xFFF = wa n 0"
proof -
  assume a: "n < 2 ^ 36" "j < 512"
  have "NOT 0xFFF = NOT (PAGE_SIZE - 1)" by (simp add: PAGE_SIZE_def)
  then have "unat (wa n j AND NOT 0xFFF) = unat (wa n j) div 4096 * 4096" using unat_low_bits [of "wa n j"] by simp
  also have "unat (wa n j) div 4096 = (8 * j + 4096 * (n + (2 ^ 52 - 2 ^ 36))) div 4096" unfolding unat_wa [OF a] by (simp add: algebra_simps)
  also have "\<dots> = n + (2 ^ 52 - 2 ^ 36)" using a(2) by (subst div_mult_self2) simp_all
  finally have "unat (wa n j AND NOT 0xFFF) = unat (wa n 0)" using unat_wa [OF a(1), of 0] by simp
  then show ?thesis by (simp only: word_unat_eq_iff)
qed

definition V :: "kmm \<Rightarrow> nat \<Rightarrow> nat \<rightharpoonup> u64" where
  "V s n j = (if n < 2 ^ 36 \<and> j < 512 then words (kvm s) (wa n j) else None)"

definition put :: "nat \<Rightarrow> nat \<Rightarrow> u64 \<Rightarrow> kmm \<Rightarrow> kmm" where
  "put n j y s = (case store (wa n j) y s of Inl _ \<Rightarrow> s | Inr s' \<Rightarrow> s')"

lemma V_classes [simp]: "V (s\<lparr>classes := x\<rparr>) = V s"
  by (simp add: V_def fun_eq_iff)

abbreviation good :: "kmm \<Rightarrow> bool" where
  "good s \<equiv> heap_inv (kvm s)"

lemma load_V: "good s \<Longrightarrow> V s n j = Some x \<Longrightarrow> load (wa n j) s = Inr x"
  by (auto simp: V_def load_def vload_words split: if_splits)

lemma put_props:
  assumes "good s" "V s n j \<noteq> None"
  shows "store (wa n j) y s = Inr (put n j y s)" "good (put n j y s)" "V (put n j y s) = (V s)(n := (V s n)(j \<mapsto> y))" "classes (put n j y s) = classes s"
    "ctl_eq (kvm s) (kvm (put n j y s))" "vpmm (kvm (put n j y s)) = vpmm (kvm s)"
proof -
  have b: "n < 2 ^ 36" "j < 512" "words (kvm s) (wa n j) \<noteq> None" using assms(2) by (auto simp: V_def split: if_splits)
  then obtain v where v: "vstore (wa n j) y (kvm s) = Inr v" "heap_inv v" "words v = (words (kvm s))(wa n j \<mapsto> y)" "ctl_eq (kvm s) v" "vpmm v = vpmm (kvm s)"
    using vstore_words [OF assms(1), of "wa n j" _ y] by blast
  have p: "put n j y s = s\<lparr>kvm := v\<rparr>" using v(1) by (simp add: put_def store_def)
  show "store (wa n j) y s = Inr (put n j y s)" unfolding p using v(1) by (simp add: store_def)
  show "good (put n j y s)" "classes (put n j y s) = classes s" "ctl_eq (kvm s) (kvm (put n j y s))" "vpmm (kvm (put n j y s)) = vpmm (kvm s)"
    using v unfolding p by simp_all
  show "V (put n j y s) = (V s)(n := (V s n)(j \<mapsto> y))"
    using v(3) b unfolding p by (auto simp: V_def fun_eq_iff wa_inj)
qed

lemma put_eqs:
  "good s \<Longrightarrow> V s n j \<noteq> None \<Longrightarrow> store (wa n j) y s = Inr (put n j y s)"
  "good s \<Longrightarrow> V s n j \<noteq> None \<Longrightarrow> good (put n j y s)"
  "good s \<Longrightarrow> V s n j \<noteq> None \<Longrightarrow> V (put n j y s) = (V s)(n := (V s n)(j \<mapsto> y))"
  "good s \<Longrightarrow> V s n j \<noteq> None \<Longrightarrow> classes (put n j y s) = classes s"
  by (fact put_props)+

section \<open>Bytes\<close>

lemma get_put_byte: "k < 8 \<Longrightarrow> get_byte k (put_byte k b w) = b" "k < 8 \<Longrightarrow> m < 8 \<Longrightarrow> k \<noteq> m \<Longrightarrow> get_byte m (put_byte k b w) = get_byte m w"
proof -
  have F: "bit (0xFF :: u64) i \<longleftrightarrow> i < 8" for i
  proof -
    have "(0xFF :: u64) = mask 8" by (simp add: mask_eq_exp_minus_1)
    then show ?thesis by (simp only: bit_mask_iff) auto
  qed
  have bp: "bit (put_byte k b w) i = (if 8 * k \<le> i \<and> i < 8 * k + 8 then bit b (i - 8 * k) else bit w i)" if "i < 64" for i
    using that unfolding put_byte_def bit_or_iff bit_and_iff bit_not_iff bit_push_bit_iff F
    by (auto simp: bit_ucast_iff dest: bit_imp_le_length)
  show "k < 8 \<Longrightarrow> get_byte k (put_byte k b w) = b"
    by (rule bit_word_eqI) (auto simp: get_byte_def bit_ucast_iff bit_drop_bit_eq bp)
  show "k < 8 \<Longrightarrow> m < 8 \<Longrightarrow> k \<noteq> m \<Longrightarrow> get_byte m (put_byte k b w) = get_byte m w"
    by (rule bit_word_eqI) (auto simp: get_byte_def bit_ucast_iff bit_drop_bit_eq bp)
qed

lemma load_byte_V: "good s \<Longrightarrow> V s n j = Some w \<Longrightarrow> load_byte (wa n j) k s = Inr (get_byte k w)"
  by (simp add: load_byte_def load_V)

lemma store_byte_V: "good s \<Longrightarrow> V s n j = Some w \<Longrightarrow> store_byte (wa n j) k b s = Inr (put n j (put_byte k b w) s)"
  by (simp add: store_byte_def load_V put_eqs(1))

section \<open>Size classes\<close>

definition csize :: "nat \<Rightarrow> nat" where
  "csize c = 32 * 2 ^ c"

definition cps :: "nat \<Rightarrow> nat" where
  "cps c = 4056 div csize c"

text \<open>Word \<open>cw c i\<close> of a page is the first of chunk \<open>i\<close>.\<close>

definition cw :: "nat \<Rightarrow> nat \<Rightarrow> nat" where
  "cw c i = 5 + i * (4 * 2 ^ c)"

lemma cps_bound: "i < cps c \<Longrightarrow> cw c i + 4 * 2 ^ c \<le> 512"
proof -
  assume "i < cps c"
  then have "Suc i * csize c \<le> 4056 div csize c * csize c" by (intro mult_le_mono1) (simp add: cps_def)
  also have "\<dots> \<le> 4056" by simp
  finally show ?thesis by (simp add: csize_def cw_def)
qed

lemma cw_bounds: "i < cps c \<Longrightarrow> cw c i < 512" "5 \<le> cw c i"
proof -
  have "0 < 4 * (2 :: nat) ^ c" by simp
  then show "i < cps c \<Longrightarrow> cw c i < 512" using cps_bound [of i c] by linarith
qed (simp add: cw_def)

lemma cw_inj [simp]: "cw c i = cw c j \<longleftrightarrow> i = j"
  by (simp add: cw_def)

lemma cw_disjoint: "i < j \<Longrightarrow> cw c i + 4 * 2 ^ c \<le> cw c j"
proof -
  assume "i < j"
  then have "Suc i * (4 * 2 ^ c) \<le> j * (4 * 2 ^ c)" by (intro mult_le_mono1) simp
  then show ?thesis by (simp add: cw_def)
qed

lemma less6: "c < 6 \<Longrightarrow> c = 0 \<or> c = 1 \<or> c = 2 \<or> c = 3 \<or> c = 4 \<or> c = (5 :: nat)"
  by linarith

lemma cps_less: "c < 6 \<Longrightarrow> 3 \<le> cps c \<and> cps c \<le> 126"
  by (drule less6) (auto simp: cps_def csize_def)

lemma get_size_class_some: "get_size_class b = Some c \<Longrightarrow> c < 6 \<and> unat b \<le> csize c"
  by (auto simp: get_size_class_def csize_def word_le_nat_alt split: if_splits)

lemma get_size_class_small: "unat b \<le> 1024 \<Longrightarrow> \<exists>c. get_size_class b = Some c"
  by (auto simp: get_size_class_def word_le_nat_alt)

section \<open>A slab\<close>

fun ptr :: "nat \<Rightarrow> nat \<Rightarrow> nat list \<Rightarrow> u64" where
  "ptr c n [] = 0"
| "ptr c n (i # is) = wa n (cw c i)"

primrec links :: "(nat \<Rightarrow> nat \<rightharpoonup> u64) \<Rightarrow> nat \<Rightarrow> nat \<Rightarrow> nat list \<Rightarrow> bool" where
  "links M c n [] \<longleftrightarrow> True"
| "links M c n (i # is) \<longleftrightarrow> M n (cw c i) = Some (ptr c n is) \<and> links M c n is"

lemma links_cong: "(\<And>i. i \<in> set fl \<Longrightarrow> M' n (cw c i) = M n (cw c i)) \<Longrightarrow> links M' c n fl = links M c n fl"
  by (induction fl) auto

text \<open>Page \<open>n\<close> is a slab of class \<open>c\<close> between \<open>prev\<close> and \<open>nxt\<close>, and \<open>fl\<close> are its free chunks in the order of its free list.\<close>

definition slab_ok :: "(nat \<Rightarrow> nat \<rightharpoonup> u64) \<Rightarrow> nat \<Rightarrow> nat \<Rightarrow> u64 \<Rightarrow> u64 \<Rightarrow> nat list \<Rightarrow> bool" where
  "slab_ok M c n prev nxt fl \<longleftrightarrow> n < 2 ^ 36 \<and> (\<forall>j < 512. M n j \<noteq> None) \<and> M n 0 = Some SLAB_MAGIC \<and> M n 1 = Some (ptr c n fl) \<and>
     M n 2 = Some nxt \<and> M n 3 = Some prev \<and> (\<exists>w. M n 4 = Some w \<and> get_byte 0 w = of_nat c \<and> get_byte 1 w = of_nat (length fl)) \<and>
     links M c n fl \<and> distinct fl \<and> set fl \<subseteq> {..<cps c}"

lemma slab_ok_cong: "M' n = M n \<Longrightarrow> slab_ok M' c n prev nxt fl = slab_ok M c n prev nxt fl"
proof -
  assume "M' n = M n"
  then have "links M' c n fl = links M c n fl" "M' n = M n" using links_cong [of fl M' n c M] by simp_all
  then show ?thesis by (simp add: slab_ok_def)
qed

lemma slab_ok_upd:
  assumes "slab_ok M c n prev nxt fl"
  shows "slab_ok (M(n := (M n)(2 \<mapsto> x))) c n prev x fl" "slab_ok (M(n := (M n)(3 \<mapsto> x))) c n x nxt fl"
proof -
  have "cw c i \<noteq> 2" "cw c i \<noteq> 3" for i using cw_bounds(2) [of c i] by auto
  then have "links (M(n := (M n)(2 \<mapsto> x))) c n fl = links M c n fl" "links (M(n := (M n)(3 \<mapsto> x))) c n fl = links M c n fl"
    by (auto intro!: links_cong)
  then show "slab_ok (M(n := (M n)(2 \<mapsto> x))) c n prev x fl" "slab_ok (M(n := (M n)(3 \<mapsto> x))) c n x nxt fl"
    using assms by (auto simp: slab_ok_def)
qed

lemma slab_ok_take:
  assumes "slab_ok M c n prev nxt (i # is)" "M n 4 = Some w"
  shows "slab_ok (M(n := (M n)(1 \<mapsto> ptr c n is, 4 \<mapsto> put_byte 1 (get_byte 1 w - 1) w))) c n prev nxt is"
proof -
  let ?M = "M(n := (M n)(1 \<mapsto> ptr c n is, 4 \<mapsto> put_byte 1 (get_byte 1 w - 1) w))"
  have "cw c j \<noteq> 1" "cw c j \<noteq> 4" for j using cw_bounds(2) [of c j] by auto
  then have "links ?M c n is = links M c n is" by (intro links_cong) auto
  then show ?thesis using assms by (auto simp: slab_ok_def get_put_byte)
qed

lemma slab_ok_give:
  assumes "slab_ok M c n prev nxt fl" "M n 4 = Some w" "i < cps c" "i \<notin> set fl"
  shows "slab_ok (M(n := (M n)(cw c i \<mapsto> ptr c n fl, 1 \<mapsto> wa n (cw c i), 4 \<mapsto> put_byte 1 (get_byte 1 w + 1) w))) c n prev nxt (i # fl)"
proof -
  let ?M = "M(n := (M n)(cw c i \<mapsto> ptr c n fl, 1 \<mapsto> wa n (cw c i), 4 \<mapsto> put_byte 1 (get_byte 1 w + 1) w))"
  have b: "cw c j \<noteq> 0" "cw c j \<noteq> 1" "cw c j \<noteq> 2" "cw c j \<noteq> 3" "cw c j \<noteq> 4" for j using cw_bounds(2) [of c j] by auto
  have "links ?M c n fl = links M c n fl" using assms(4) b by (intro links_cong) auto
  then show ?thesis using assms b [of i] b [of i, symmetric] by (auto simp: slab_ok_def get_put_byte)
qed

section \<open>The list of slabs of a class\<close>

fun pptr :: "nat list \<Rightarrow> u64 \<Rightarrow> u64" where
  "pptr [] nxt = nxt"
| "pptr (n # ns) nxt = wa n 0"

fun lastp :: "u64 \<Rightarrow> nat list \<Rightarrow> u64" where
  "lastp prev [] = prev"
| "lastp prev (n # ns) = lastp (wa n 0) ns"

primrec seg :: "(nat \<Rightarrow> nat \<rightharpoonup> u64) \<Rightarrow> (nat \<Rightarrow> nat list) \<Rightarrow> nat \<Rightarrow> u64 \<Rightarrow> nat list \<Rightarrow> u64 \<Rightarrow> bool" where
  "seg M F c prev [] nxt \<longleftrightarrow> True"
| "seg M F c prev (n # ns) nxt \<longleftrightarrow> slab_ok M c n prev (pptr ns nxt) (F n) \<and> seg M F c (wa n 0) ns nxt"

lemma pptr_hd: "ns \<noteq> [] \<Longrightarrow> pptr ns x = wa (hd ns) 0"
  by (cases ns) simp_all

lemma pptr_append [simp]: "pptr (xs @ ys) nxt = pptr xs (pptr ys nxt)"
  by (cases xs) simp_all

lemma seg_append [simp]: "seg M F c prev (xs @ ys) nxt \<longleftrightarrow> seg M F c prev xs (pptr ys nxt) \<and> seg M F c (lastp prev xs) ys nxt"
  by (induction xs arbitrary: prev) auto

lemma seg_cong: "(\<And>n. n \<in> set ns \<Longrightarrow> M' n = M n \<and> F' n = F n) \<Longrightarrow> seg M' F' c prev ns nxt = seg M F c prev ns nxt"
proof (induction ns arbitrary: prev)
  case (Cons n ns)
  have "slab_ok M' c n prev (pptr ns nxt) (F' n) = slab_ok M c n prev (pptr ns nxt) (F n)" using Cons.prems [of n] slab_ok_cong [of M' n M] by simp
  then show ?case using Cons by simp
qed simp

lemma seg_member: "seg M F c prev ns nxt \<Longrightarrow> n \<in> set ns \<Longrightarrow> \<exists>p q. slab_ok M c n p q (F n)"
  by (induction ns arbitrary: prev) auto

lemma seg_bound: "seg M F c prev ns nxt \<Longrightarrow> n \<in> set ns \<Longrightarrow> n < 2 ^ 36"
  by (drule (1) seg_member) (auto simp: slab_ok_def)

lemma lastp_snoc [simp]: "lastp prev (xs @ [n]) = wa n 0"
  by (induction xs arbitrary: prev) auto

text \<open>Changing the pointer that ends or starts a segment.\<close>

lemma seg_set_next:
  assumes "seg M F c prev (xs @ [n]) nxt" "n \<notin> set xs"
  shows "seg (M(n := (M n)(2 \<mapsto> nxt'))) F c prev (xs @ [n]) nxt'"
proof -
  have "seg (M(n := (M n)(2 \<mapsto> nxt'))) F c prev xs (wa n 0) = seg M F c prev xs (wa n 0)" using assms(2) by (intro seg_cong) auto
  then show ?thesis using assms(1) slab_ok_upd(1) by auto
qed

lemma seg_set_prev:
  assumes "seg M F c prev (n # ns) nxt" "n \<notin> set ns"
  shows "seg (M(n := (M n)(3 \<mapsto> prev'))) F c prev' (n # ns) nxt"
proof -
  have "seg (M(n := (M n)(3 \<mapsto> prev'))) F c (wa n 0) ns nxt = seg M F c (wa n 0) ns nxt" using assms(2) by (intro seg_cong) auto
  then show ?thesis using assms(1) slab_ok_upd(2) by auto
qed

lemma find_slab_seg:
  "seg (V s) F c prev ns 0 \<Longrightarrow> good s \<Longrightarrow> length ns < k \<Longrightarrow>
   find_slab k (pptr ns 0) s = Inr (case find (\<lambda>n. F n \<noteq> []) ns of None \<Rightarrow> 0 | Some n \<Rightarrow> wa n 0)"
proof (induction ns arbitrary: prev k)
  case Nil
  then show ?case by (cases k) auto
next
  case (Cons n ns)
  then obtain k' where k: "k = Suc k'" by (cases k) auto
  have ok: "slab_ok (V s) c n prev (pptr ns 0) (F n)" using Cons.prems(1) by simp
  then have b: "n < 2 ^ 36" "load (wa n 1) s = Inr (ptr c n (F n))" "load (wa n 2) s = Inr (pptr ns 0)"
    using Cons.prems(2) by (simp_all add: slab_ok_def load_V)
  have "ptr c n (F n) = 0 \<longleftrightarrow> F n = []"
  proof (cases "F n")
    case (Cons i js)
    then have "i < cps c" using ok by (simp add: slab_ok_def)
    then show ?thesis using Cons wa_nonzero [OF b(1)] cw_bounds(1) by simp
  qed simp
  then show ?case using k b wa_nonzero [OF b(1), of 0] Cons.IH [of "wa n 0" k'] Cons.prems by (simp add: wa_offsets)
qed

section \<open>The invariant\<close>

definition class_of :: "nat \<Rightarrow> nat list \<Rightarrow> SizeClass" where
  "class_of c ns = \<lparr>sc_index = of_nat c, sc_size = of_nat (csize c), num_slabs = of_nat (length ns), first_slab = pptr ns 0, chunks_per_slab = of_nat (cps c)\<rparr>"

definition sinv :: "kmm \<Rightarrow> (nat \<Rightarrow> nat list) \<Rightarrow> (nat \<Rightarrow> nat list) \<Rightarrow> bool" where
  "sinv s L F \<longleftrightarrow> good s \<and> classes s = map (\<lambda>c. class_of c (L c)) [0..<6] \<and> (\<forall>c < 6. seg (V s) F c 0 (L c) 0 \<and> distinct (L c)) \<and>
     (\<forall>c < 6. \<forall>d < 6. c \<noteq> d \<longrightarrow> set (L c) \<inter> set (L d) = {})"

lemma class_of_sel [simp]: "sc_index (class_of c ns) = of_nat c" "sc_size (class_of c ns) = of_nat (csize c)" "num_slabs (class_of c ns) = of_nat (length ns)"
    "first_slab (class_of c ns) = pptr ns 0" "chunks_per_slab (class_of c ns) = of_nat (cps c)"
  by (simp_all add: class_of_def)

lemma class_of_push: "class_of c ns\<lparr>first_slab := wa n 0, num_slabs := of_nat (length ns) + 1\<rparr> = class_of c (n # ns)"
  by (simp add: class_of_def)

lemma sinv_class: "sinv s L F \<Longrightarrow> c < 6 \<Longrightarrow> get_class c s = Inr (class_of c (L c))"
  by (simp add: sinv_def get_class_def)

lemma sinv_length: "sinv s L F \<Longrightarrow> c < 6 \<Longrightarrow> length (L c) \<le> 2 ^ 36"
proof -
  assume a: "sinv s L F" "c < 6"
  then have "set (L c) \<subseteq> {..<2 ^ 36}" using seg_bound by (fastforce simp: sinv_def)
  then have "card (set (L c)) \<le> 2 ^ 36" using card_mono [of "{..<2 ^ 36}" "set (L c)"] by simp
  then show ?thesis using a by (simp add: sinv_def distinct_card)
qed

lemma sinv_num_slabs: "sinv s L F \<Longrightarrow> c < 6 \<Longrightarrow> unat (num_slabs (class_of c (L c))) = length (L c)"
  using sinv_length [of s L F c] by (simp add: class_of_def unat_of_nat)

text \<open>A change to one slab of a class.\<close>

lemma sinv_change:
  assumes i: "sinv s L F" and c: "c < 6" "L c = xs @ n # ys" and g: "good t" "classes t = classes s"
    and m: "\<And>m. m \<noteq> n \<Longrightarrow> V t m = V s m" and ok: "\<And>p q. slab_ok (V s) c n p q (F n) \<Longrightarrow> slab_ok (V t) c n p q fl"
  shows "sinv t L (F(n := fl))"
proof -
  have sg: "seg (V s) F d 0 (L d) 0 \<and> distinct (L d)" if "d < 6" for d using i that by (simp add: sinv_def)
  have other: "seg (V t) (F(n := fl)) d p ns q = seg (V s) F d p ns q" if "n \<notin> set ns" for d p ns q
    by (rule seg_cong) (use m that in auto)
  have "seg (V t) (F(n := fl)) d 0 (L d) 0" if d: "d < 6" for d
  proof (cases "d = c")
    case True
    have "n \<notin> set xs" "n \<notin> set ys" using sg [OF c(1)] c(2) by auto
    then show ?thesis using sg [OF c(1)] ok True c(2) by (simp add: other)
  next
    case False
    then have "n \<notin> set (L d)" using i c d by (auto simp: sinv_def)
    then show ?thesis using other sg [OF d] by simp
  qed
  then show ?thesis using i g by (simp add: sinv_def)
qed

section \<open>Taking a chunk\<close>

definition take_chunk :: "u64 \<Rightarrow> kmm \<Rightarrow> (u64 \<times> kmm) kres" where
  "take_chunk slab s1 = kbind (kassert_not_null slab) (\<lambda>_. kbind (load (slab + 8) s1) (\<lambda>chunk. kbind (load chunk s1) (\<lambda>nxt.
     kbind (store (slab + 8) nxt s1) (\<lambda>s2. kbind (load_byte (slab + 32) 1 s2) (\<lambda>n. kbind (store_byte (slab + 32) 1 (n - 1) s2) (\<lambda>s3. Inr (chunk, s3)))))))"

lemma take_chunk_ok:
  assumes i: "sinv s L F" "c < 6" "n \<in> set (L c)" "F n = i # js"
  shows "\<exists>t. take_chunk (wa n 0) s = Inr (wa n (cw c i), t) \<and> sinv t L (F(n := js)) \<and> (\<forall>m j. m \<noteq> n \<or> 5 \<le> j \<longrightarrow> V t m j = V s m j)"
proof -
  obtain xs ys where L: "L c = xs @ n # ys" using i(3) split_list by metis
  have g: "good s" using i(1) by (simp add: sinv_def)
  have sg: "seg (V s) F c 0 (L c) 0" using i(1,2) by (simp add: sinv_def)
  obtain p q where ok: "slab_ok (V s) c n p q (i # js)" using seg_member [OF sg i(3)] i(4) by auto
  obtain w where w: "V s n 4 = Some w" using ok by (auto simp: slab_ok_def)
  define s2 where "s2 = put n 1 (ptr c n js) s"
  define t where "t = put n 4 (put_byte 1 (get_byte 1 w - 1) w) s2"
  have v1: "V s n 1 \<noteq> None" using ok by (simp add: slab_ok_def)
  note p2 = put_props [OF g v1, of "ptr c n js", folded s2_def]
  have w2: "V s2 n 4 = Some w" using p2(3) w by simp
  note pt = put_props [OF p2(2), of n 4 "put_byte 1 (get_byte 1 w - 1) w", folded t_def]
  have Vt: "V t = (V s)(n := (V s n)(1 \<mapsto> ptr c n js, 4 \<mapsto> put_byte 1 (get_byte 1 w - 1) w))" using pt(3) w2 p2(3) by simp
  have ld: "load (wa n 1) s = Inr (wa n (cw c i))" "load (wa n (cw c i)) s = Inr (ptr c n js)" using ok g by (simp_all add: load_V slab_ok_def)
  have "wa n 0 \<noteq> 0" using ok wa_nonzero [of n 0] by (simp add: slab_ok_def)
  then have "take_chunk (wa n 0) s = Inr (wa n (cw c i), t)"
    unfolding take_chunk_def wa_offsets using ld p2(1) load_byte_V [OF p2(2) w2] store_byte_V [OF p2(2) w2]
    by (simp add: kassert_not_null_def t_def)
  moreover have "sinv t L (F(n := js))"
  proof (rule sinv_change [OF i(1,2) L])
    show "good t" "classes t = classes s" using pt(2,4) p2(4) w2 by simp_all
    show "V t m = V s m" if "m \<noteq> n" for m using Vt that by simp
    show "slab_ok (V t) c n p q js" if "slab_ok (V s) c n p q (F n)" for p q
      unfolding Vt by (rule slab_ok_take [OF that [unfolded i(4)] w])
  qed
  ultimately show ?thesis using Vt by (intro exI [of _ t]) auto
qed

section \<open>Creating a slab\<close>

definition room :: "kmm \<Rightarrow> bool" where
  "room s \<longleftrightarrow> 4 \<le> card (avail (vpmm (kvm s))) \<and> pml4_idx (advance_heap (kheap (kvm s))) < 512"

lemma alloc_page_V:
  assumes g: "good s" and r: "room s"
  shows "\<exists>v n. alloc_kernel_page (kvm s) = Inr (wa n 0, v) \<and> n < 2 ^ 36 \<and> good (s\<lparr>kvm := v\<rparr>) \<and> (\<forall>j. V s n j = None) \<and>
    (\<forall>m. m \<noteq> n \<longrightarrow> V (s\<lparr>kvm := v\<rparr>) m = V s m) \<and> (\<forall>j < 512. V (s\<lparr>kvm := v\<rparr>) n j \<noteq> None)"
proof -
  define n where "n = heap_pos (kheap (kvm s))"
  have h: "heap_wf (kheap (kvm s))" "pml4_idx (kheap (kvm s)) \<in> hidx (kvm s)" using g by (simp_all add: heap_inv_def)
  then have n: "n < 2 ^ 36" by (simp add: n_def heap_pos_def heap_wf_def hidx_def)
  obtain v where v: "alloc_kernel_page (kvm s) = Inr (page_addr n, v)" "heap_inv v" "\<forall>a. page_no a \<noteq> n \<longrightarrow> words v a = words (kvm s) a"
      "\<forall>a. heap_word (kvm s) a \<and> page_no a = n \<longrightarrow> words (kvm s) a = None \<and> words v a \<noteq> None"
    using alloc_kernel_page_words [OF g] r unfolding room_def n_def [symmetric] by blast
  have hw: "heap_word (kvm s) (wa n j)" if j: "j < 512" for j
  proof -
    have "idx_of 39 (wa n j) = pml4_idx (kheap (kvm s))"
      using heap_key [OF h(1), of "wa n j"] page_no_wa [OF n j] by (simp add: n_def path_of_def)
    moreover have "unat (wa n j) mod 8 = 0" unfolding unat_wa [OF n j] by (simp add: mod_eq_0_iff_dvd dvd_add)
    ultimately show ?thesis using h(2) unat_wa [OF n j] by (simp add: heap_word_def)
  qed
  have "V (s\<lparr>kvm := v\<rparr>) m = V s m" if "m \<noteq> n" for m using v(3) that page_no_wa by (auto simp: V_def fun_eq_iff)
  moreover have "V s n j = None" for j using v(4) hw page_no_wa [OF n] by (simp add: V_def)
  moreover have "V (s\<lparr>kvm := v\<rparr>) n j \<noteq> None" if "j < 512" for j using that v(4) hw page_no_wa [OF n] n by (simp add: V_def)
  ultimately show ?thesis using v(1,2) n by (intro exI [of _ v] exI [of _ n]) (simp add: wa_0)
qed

definition page_of :: "nat \<Rightarrow> kmm \<Rightarrow> kmm \<Rightarrow> bool" where
  "page_of n s t \<longleftrightarrow> good t \<and> classes t = classes s \<and> (\<forall>m. m \<noteq> n \<longrightarrow> V t m = V s m) \<and> (\<forall>j < 512. V t n j \<noteq> None)"

lemma page_of_put: "page_of n s t \<Longrightarrow> j < 512 \<Longrightarrow> store (wa n j) y t = Inr (put n j y t) \<and> page_of n s (put n j y t) \<and> V (put n j y t) n = (V t n)(j \<mapsto> y)"
  using put_props [of t n j y] unfolding page_of_def by auto

lemma chunk_addr: "wa n 5 + of_nat i * of_nat (csize c) = wa n (cw c i)"
  using wa_add [of n 5 "i * (4 * 2 ^ c)"] by (simp add: cw_def csize_def algebra_simps)

lemma links_upt: "(\<And>i. a \<le> i \<Longrightarrow> i < b \<Longrightarrow> M n (cw c i) = Some (if Suc i < b then wa n (cw c (Suc i)) else 0)) \<Longrightarrow> links M c n [a..<b]"
proof (induction "b - a" arbitrary: a)
  case (Suc k)
  then have ab: "a < b" by simp
  have "links M c n [Suc a..<b]" using Suc by simp
  moreover have "ptr c n [Suc a..<b] = (if Suc a < b then wa n (cw c (Suc a)) else 0)" by (simp add: upt_conv_Cons)
  ultimately show ?case using ab Suc.prems [of a] by (simp add: upt_conv_Cons)
qed simp

lemma init_chunks_ok:
  assumes p: "page_of n s t" and c: "c < 6" and n: "n < 2 ^ 36"
  shows "\<exists>t'. init_chunks (wa n 5) (of_nat (cps c)) (of_nat (csize c)) t = Inr t' \<and> page_of n s t' \<and> links (V t') c n [0..<cps c]"
proof -
  let ?I = "\<lambda>k u. page_of n s u \<and> (\<forall>i < k. V u n (cw c i) = Some (wa n (cw c (Suc i))))"
  let ?body = "\<lambda>i u. let this_chunk = wa n 5 + of_nat i * of_nat (csize c); next_chunk = this_chunk + of_nat (csize c) in
      kbind (kassert_not_null this_chunk) (\<lambda>_. kbind (kassert_not_null next_chunk) (\<lambda>_. store this_chunk next_chunk u))"
  have cp: "3 \<le> cps c" "cps c \<le> 126" using cps_less [OF c] by auto
  have nx: "wa n (cw c i) + of_nat (csize c) = wa n (cw c (Suc i))" for i using chunk_addr [of n "Suc i" c] chunk_addr [of n i c] by (simp add: algebra_simps)
  have "\<exists>u. kfor 0 (cps c - 1) ?body t = Inr u \<and> ?I (cps c - 1) u"
  proof (rule kfor_rule [where I = ?I])
    fix i u assume i: "i < cps c - 1" and u: "?I i u"
    have b: "cw c i < 512" "cw c (Suc i) < 512" using i by (auto intro: cw_bounds(1))
    note pu = page_of_put [OF conjunct1 [OF u] b(1), of "wa n (cw c (Suc i))"]
    show "\<exists>u'. ?body i u = Inr u' \<and> ?I (Suc i) u'"
      unfolding Let_def chunk_addr nx using pu u wa_nonzero [OF n b(1)] wa_nonzero [OF n b(2)]
      by (intro exI [of _ "put n (cw c i) (wa n (cw c (Suc i))) u"]) (auto simp: kassert_not_null_def less_Suc_eq)
  qed (use p in auto)
  then obtain u where u: "kfor 0 (cps c - 1) ?body t = Inr u" "page_of n s u" "\<forall>i < cps c - 1. V u n (cw c i) = Some (wa n (cw c (Suc i)))" by auto
  have l: "cw c (cps c - 1) < 512" using cp by (intro cw_bounds(1)) simp
  note pu = page_of_put [OF u(2) l, of 0]
  have lk: "links (V (put n (cw c (cps c - 1)) 0 u)) c n [0..<cps c]"
    by (rule links_upt) (use pu u(3) in \<open>auto simp: less_Suc_eq_le split: if_splits\<close>)
  have un: "unat (of_nat (cps c) :: u8) = cps c" using cp by (simp add: unat_of_nat)
  have "ucast (of_nat (cps c) :: u8) = (of_nat (cps c) :: u64)" using cp by (simp add: word_unat_eq_iff unsigned_ucast_eq unat_of_nat take_bit_nat_eq_self)
  then have "wa n 5 + (ucast (of_nat (cps c) :: u8) - 1) * of_nat (csize c) = wa n (cw c (cps c - 1))"
    using chunk_addr [of n "cps c - 1" c] cp by (simp add: of_nat_diff)
  then show ?thesis using u(1) pu lk by (intro exI [of _ "put n (cw c (cps c - 1)) 0 u"]) (simp add: init_chunks_def un)
qed

lemma sinv_link_front:
  assumes i: "sinv s L F" and c: "c < 6" and fresh: "\<And>d. d < 6 \<Longrightarrow> n \<notin> set (L d)" and g: "good t"
    and cl: "classes t = (classes s)[c := class_of c (n # L c)]" and ok: "slab_ok (V t) c n 0 (pptr (L c) 0) fl"
    and m: "\<And>m. m \<noteq> n \<Longrightarrow> V t m = (if L c \<noteq> [] \<and> m = hd (L c) then (V s m)(3 \<mapsto> wa n 0) else V s m)"
  shows "sinv t (L(c := n # L c)) (F(n := fl))"
proof -
  let ?L = "L(c := n # L c)" and ?F = "F(n := fl)"
  have sg: "seg (V s) F d 0 (L d) 0" "distinct (L d)" if "d < 6" for d using i that by (auto simp: sinv_def)
  have dj: "set (L d) \<inter> set (L e) = {}" if "d < 6" "e < 6" "d \<noteq> e" for d e using i that by (simp add: sinv_def)
  have "seg (V t) ?F c (wa n 0) (L c) 0"
  proof (cases "L c")
    case (Cons f fs)
    have "seg (V t) ?F c (wa n 0) (f # fs) 0 = seg ((V s)(f := (V s f)(3 \<mapsto> wa n 0))) F c (wa n 0) (f # fs) 0"
      by (rule seg_cong) (use m fresh [OF c] sg(2) [OF c] Cons in auto)
    then show ?thesis using seg_set_prev [of "V s" F c 0 f fs 0 "wa n 0"] sg [OF c] unfolding Cons by simp
  qed simp
  moreover have "seg (V t) ?F d 0 (L d) 0" if "d < 6" "d \<noteq> c" for d
  proof -
    have "L c \<noteq> [] \<Longrightarrow> hd (L c) \<notin> set (L d)" using dj [OF that(1) c that(2)] hd_in_set [of "L c"] by blast
    then have "seg (V t) ?F d 0 (L d) 0 = seg (V s) F d 0 (L d) 0" by (intro seg_cong) (use m fresh [OF that(1)] in auto)
    then show ?thesis using sg(1) [OF that(1)] by simp
  qed
  ultimately have "seg (V t) ?F d 0 (?L d) 0" if "d < 6" for d using that ok by simp
  moreover have "distinct (?L d)" if "d < 6" for d using that sg(2) fresh [OF c] by simp
  moreover have "set (?L d) \<inter> set (?L e) = {}" if "d < 6" "e < 6" "d \<noteq> e" for d e using that dj fresh by auto
  moreover have "classes t = map (\<lambda>d. class_of d (?L d)) [0..<6]"
    using i c unfolding cl by (auto simp: sinv_def intro!: nth_equalityI simp: nth_list_update)
  ultimately show ?thesis unfolding sinv_def using g by blast
qed

lemma init_header_ok:
  assumes p: "page_of n s s1"
  shows "\<exists>s2 s3 s4 s5 w. store (wa n 0) SLAB_MAGIC s1 = Inr s2 \<and> store_byte (wa n 4) 0 ci s2 = Inr s3 \<and> store (wa n 1) (wa n 5) s3 = Inr s4 \<and>
    store_byte (wa n 4) 1 nc s4 = Inr s5 \<and> page_of n s s5 \<and> get_byte 0 w = ci \<and> get_byte 1 w = nc \<and>
    V s5 n = (V s1 n)(0 \<mapsto> SLAB_MAGIC, 1 \<mapsto> wa n 5, 4 \<mapsto> w)"
proof -
  obtain w where w: "V s1 n 4 = Some w" using p by (fastforce simp: page_of_def)
  define s2 w3 where "s2 = put n 0 SLAB_MAGIC s1" and "w3 = put_byte 0 ci w"
  define s3 where "s3 = put n 4 w3 s2"
  define s4 w5 where "s4 = put n 1 (wa n 5) s3" and "w5 = put_byte 1 nc w3"
  define s5 where "s5 = put n 4 w5 s4"
  have p2: "store (wa n 0) SLAB_MAGIC s1 = Inr s2" "page_of n s s2" "V s2 n = (V s1 n)(0 \<mapsto> SLAB_MAGIC)" using page_of_put [OF p, of 0] by (simp_all add: s2_def)
  have p3: "store (wa n 4) w3 s2 = Inr s3" "page_of n s s3" "V s3 n = (V s2 n)(4 \<mapsto> w3)" using page_of_put [OF p2(2), of 4] by (simp_all add: s3_def)
  have p4: "store (wa n 1) (wa n 5) s3 = Inr s4" "page_of n s s4" "V s4 n = (V s3 n)(1 \<mapsto> wa n 5)" using page_of_put [OF p3(2), of 1] by (simp_all add: s4_def)
  have p5: "store (wa n 4) w5 s4 = Inr s5" "page_of n s s5" "V s5 n = (V s4 n)(4 \<mapsto> w5)" using page_of_put [OF p4(2), of 4] by (simp_all add: s5_def)
  have l: "load (wa n 4) s2 = Inr w" "load (wa n 4) s4 = Inr w3" using p2 p4 p3(3) w load_V [of s2 n 4] load_V [of s4 n 4] by (simp_all add: page_of_def)
  have "store_byte (wa n 4) 0 ci s2 = Inr s3" "store_byte (wa n 4) 1 nc s4 = Inr s5"
    using l p3(1) p5(1) by (simp_all add: store_byte_def w3_def w5_def)
  moreover have "get_byte 0 w5 = ci" "get_byte 1 w5 = nc" by (simp_all add: w5_def w3_def get_put_byte)
  moreover have "V s5 n = (V s1 n)(0 \<mapsto> SLAB_MAGIC, 1 \<mapsto> wa n 5, 4 \<mapsto> w5)" using p2(3) p3(3) p4(3) p5(3) by auto
  ultimately show ?thesis using p2(1) p4(1) p5(2) by blast
qed

lemma sinv_first:
  assumes "sinv s L F" "c < 6" "L c \<noteq> []"
  obtains p q where "slab_ok (V s) c (hd (L c)) p q (F (hd (L c)))" "pptr (L c) 0 = wa (hd (L c)) 0" "wa (hd (L c)) 0 \<noteq> 0"
proof -
  have "seg (V s) F c 0 (L c) 0" using assms(1,2) by (simp add: sinv_def)
  then obtain p q where "slab_ok (V s) c (hd (L c)) p q (F (hd (L c)))" using seg_member [OF _ hd_in_set [OF assms(3)]] by blast
  then show thesis using pptr_hd [OF assms(3)] wa_nonzero [of "hd (L c)" 0] by (intro that [of p q]) (simp_all add: slab_ok_def)
qed

lemma link_front_ok:
  assumes i: "sinv s L F" and c: "c < 6" and fresh: "n \<notin> set (L c)" and p: "page_of n s s5"
  shows "\<exists>s6 s7 t. (if pptr (L c) 0 \<noteq> 0 then store (pptr (L c) 0 + 24) (wa n 0) s5 else Inr s5) = Inr s6 \<and>
    store (wa n 2) (pptr (L c) 0) s6 = Inr s7 \<and> store (wa n 3) 0 s7 = Inr t \<and> good t \<and> classes t = classes s \<and>
    V t n = (V s5 n)(2 \<mapsto> pptr (L c) 0, 3 \<mapsto> 0) \<and>
    (\<forall>m. m \<noteq> n \<longrightarrow> V t m = (if L c \<noteq> [] \<and> m = hd (L c) then (V s m)(3 \<mapsto> wa n 0) else V s m))"
proof -
  let ?f = "hd (L c)" and ?x = "pptr (L c) 0"
  have P: "good s5" "classes s5 = classes s" "\<And>m. m \<noteq> n \<Longrightarrow> V s5 m = V s m" "\<And>j. j < 512 \<Longrightarrow> V s5 n j \<noteq> None" using p by (simp_all add: page_of_def)
  have "\<exists>s6. (if ?x \<noteq> 0 then store (?x + 24) (wa n 0) s5 else Inr s5) = Inr s6 \<and> good s6 \<and> classes s6 = classes s \<and>
      V s6 = (if L c \<noteq> [] then (V s5)(?f := (V s5 ?f)(3 \<mapsto> wa n 0)) else V s5) \<and> (L c \<noteq> [] \<longrightarrow> ?f \<noteq> n)"
  proof (cases "L c = []")
    case False
    obtain p q where ok: "slab_ok (V s) c ?f p q (F ?f)" "?x = wa ?f 0" "wa ?f 0 \<noteq> 0" by (rule sinv_first [OF i c False])
    have ne: "?f \<noteq> n" using hd_in_set [OF False] fresh by auto
    have "V s5 ?f 3 \<noteq> None" using ok(1) P(3) [OF ne] by (simp add: slab_ok_def)
    from put_eqs [OF P(1) this, of "wa n 0"] show ?thesis using ok False ne P(2) by (intro exI [of _ "put ?f 3 (wa n 0) s5"]) (simp add: wa_offsets)
  qed (use P in simp)
  then obtain s6 where s6: "(if ?x \<noteq> 0 then store (?x + 24) (wa n 0) s5 else Inr s5) = Inr s6" "good s6" "classes s6 = classes s"
      "V s6 = (if L c \<noteq> [] then (V s5)(?f := (V s5 ?f)(3 \<mapsto> wa n 0)) else V s5)" "L c \<noteq> [] \<longrightarrow> ?f \<noteq> n" by blast
  have n6: "V s6 n = V s5 n" using s6(4,5) by auto
  note q7 = put_props [OF s6(2), of n 2 ?x]
  note q8 = put_props [OF q7(2), of n 3 0]
  have N: "V s6 n 2 \<noteq> None" "V (put n 2 ?x s6) n 3 \<noteq> None" using P(4) [of 2] P(4) [of 3] n6 q7(3) by auto
  define t where "t = put n 3 0 (put n 2 ?x s6)"
  have T: "store (wa n 2) ?x s6 = Inr (put n 2 ?x s6)" "store (wa n 3) 0 (put n 2 ?x s6) = Inr t" "good t" "classes t = classes s"
    using q7(1,4) q8(1,2,4) N s6(3) by (simp_all add: t_def)
  have Vt: "V t = (V s6)(n := (V s5 n)(2 \<mapsto> ?x, 3 \<mapsto> 0))" using q7(3) q8(3) N n6 by (simp add: t_def)
  have "V t m = (if L c \<noteq> [] \<and> m = ?f then (V s m)(3 \<mapsto> wa n 0) else V s m)" if "m \<noteq> n" for m
    using that P(3) [OF that] by (auto simp: Vt s6(4))
  then show ?thesis using s6(1) T Vt by (intro exI [of _ s6] exI [of _ "put n 2 ?x s6"] exI [of _ t]) simp
qed

lemma create_slab_ok:
  assumes i: "sinv s L F" and c: "c < 6" and r: "room s"
  shows "\<exists>t n. create_slab c s = Inr (wa n 0, t) \<and> (\<forall>d < 6. n \<notin> set (L d)) \<and> sinv t (L(c := n # L c)) (F(n := [0..<cps c])) \<and>
    (\<forall>m j. m \<noteq> n \<and> 5 \<le> j \<longrightarrow> V t m j = V s m j)"
proof -
  have g: "good s" using i by (simp add: sinv_def)
  obtain v n where v: "alloc_kernel_page (kvm s) = Inr (wa n 0, v)" "n < 2 ^ 36" "good (s\<lparr>kvm := v\<rparr>)" "\<forall>j. V s n j = None"
      "\<forall>m. m \<noteq> n \<longrightarrow> V (s\<lparr>kvm := v\<rparr>) m = V s m" "\<forall>j < 512. V (s\<lparr>kvm := v\<rparr>) n j \<noteq> None"
    using alloc_page_V [OF g r] by blast
  have fresh: "n \<notin> set (L d)" if "d < 6" for d
  proof
    assume "n \<in> set (L d)"
    moreover have "seg (V s) F d 0 (L d) 0" using i that by (simp add: sinv_def)
    ultimately obtain p q where "slab_ok (V s) d n p q (F n)" using seg_member by blast
    then show False using v(4) by (simp add: slab_ok_def)
  qed
  have "page_of n s (s\<lparr>kvm := v\<rparr>)" using v by (simp add: page_of_def)
  then obtain s1 where s1: "init_chunks (wa n 5) (of_nat (cps c)) (of_nat (csize c)) (s\<lparr>kvm := v\<rparr>) = Inr s1" "page_of n s s1" "links (V s1) c n [0..<cps c]"
    using init_chunks_ok [OF _ c v(2)] by blast
  obtain s2 s3 s4 s5 w where h: "store (wa n 0) SLAB_MAGIC s1 = Inr s2" "store_byte (wa n 4) 0 (of_nat c) s2 = Inr s3" "store (wa n 1) (wa n 5) s3 = Inr s4"
      "store_byte (wa n 4) 1 (of_nat (cps c)) s4 = Inr s5" "page_of n s s5" "get_byte 0 w = of_nat c" "get_byte 1 w = of_nat (cps c)"
      "V s5 n = (V s1 n)(0 \<mapsto> SLAB_MAGIC, 1 \<mapsto> wa n 5, 4 \<mapsto> w)"
    using init_header_ok [OF s1(2), of "of_nat c" "of_nat (cps c)"] by (elim exE conjE) (rule that)
  obtain s6 s7 t' where l: "(if pptr (L c) 0 \<noteq> 0 then store (pptr (L c) 0 + 24) (wa n 0) s5 else Inr s5) = Inr s6"
      "store (wa n 2) (pptr (L c) 0) s6 = Inr s7" "store (wa n 3) 0 s7 = Inr t'" "good t'" "classes t' = classes s"
      "V t' n = (V s5 n)(2 \<mapsto> pptr (L c) 0, 3 \<mapsto> 0)"
      "\<forall>m. m \<noteq> n \<longrightarrow> V t' m = (if L c \<noteq> [] \<and> m = hd (L c) then (V s m)(3 \<mapsto> wa n 0) else V s m)"
    using link_front_ok [OF i c fresh [OF c] h(5)] by (elim exE conjE) (rule that)
  define t where "t = t'\<lparr>classes := (classes t')[c := class_of c (n # L c)]\<rparr>"
  have Vt: "V t = V t'" by (simp add: t_def V_def fun_eq_iff)
  have Vn: "V t n = (V s1 n)(0 \<mapsto> SLAB_MAGIC, 1 \<mapsto> wa n 5, 4 \<mapsto> w, 2 \<mapsto> pptr (L c) 0, 3 \<mapsto> 0)" unfolding Vt l(6) h(8) ..
  have "links (V t) c n [0..<cps c] = links (V s1) c n [0..<cps c]"
  proof (rule links_cong)
    fix i show "V t n (cw c i) = V s1 n (cw c i)" unfolding Vn using cw_bounds(2) [of c i] by simp
  qed
  then have lk: "links (V t) c n [0..<cps c]" using s1(3) by simp
  have "ptr c n [0..<cps c] = wa n 5" using cps_less [OF c] by (simp add: upt_conv_Cons cw_def)
  moreover have "V t n j \<noteq> None" if "j < 512" for j using s1(2) that unfolding Vn by (simp add: page_of_def)
  ultimately have ok: "slab_ok (V t) c n 0 (pptr (L c) 0) [0..<cps c]" unfolding slab_ok_def using v(2) lk h(6,7) by (simp add: Vn subset_iff)
  have "sinv t (L(c := n # L c)) (F(n := [0..<cps c]))"
    by (rule sinv_link_front [OF i c fresh _ _ ok]) (use l(4,5,7) in \<open>simp_all add: t_def\<close>)
  moreover have "create_slab c s = Inr (wa n 0, t)"
    unfolding create_slab_def sinv_class [OF i c] kbind_simps v(1) prod.case wa_offsets class_of_sel s1(1) h(1-4) l(1-3) class_of_push t_def ..
  moreover have "V t m j = V s m j" if "m \<noteq> n" "5 \<le> j" for m j using l(7) that by (simp add: Vt)
  ultimately show ?thesis using fresh by blast
qed

end
