(* ===== verification/Slab_Props.thy ===== *)
theory Slab_Props
  imports Slab_Inv
begin

unbundle bit_operations_syntax

text \<open>
  The operations of the slab allocator and the properties of \<^verbatim>\<open>kmalloc\<close> and \<^verbatim>\<open>kfree\<close> for blocks of up to 1024 bytes: the
  blocks handed out are disjoint, large enough, and not written by the allocator while they are in use.
\<close>

section \<open>Allocation\<close>

text \<open>The blocks in use: class, page and chunk number.\<close>

definition used :: "(nat \<Rightarrow> nat list) \<Rightarrow> (nat \<Rightarrow> nat list) \<Rightarrow> (nat \<times> nat \<times> nat) set" where
  "used L F = {(c, n, i). c < 6 \<and> n \<in> set (L c) \<and> i < cps c \<and> i \<notin> set (F n)}"

lemma used_change:
  assumes "c < 6" "n \<in> set (L c)" "\<And>d. d < 6 \<Longrightarrow> d \<noteq> c \<Longrightarrow> n \<notin> set (L d)"
  shows "(d, m, j) \<in> used L (F(n := fl)) \<longleftrightarrow> (if m = n then d = c \<and> j < cps c \<and> j \<notin> set fl else (d, m, j) \<in> used L F)"
proof (cases "m = n")
  case True
  have "d < 6 \<and> n \<in> set (L d) \<longleftrightarrow> d = c" using assms by blast
  then show ?thesis using True by (auto simp: used_def)
qed (simp add: used_def)

lemma used_take:
  assumes "c < 6" "n \<in> set (L c)" "\<And>d. d < 6 \<Longrightarrow> d \<noteq> c \<Longrightarrow> n \<notin> set (L d)" "F n = k # ks" "k < cps c" "k \<notin> set ks"
  shows "used L (F(n := ks)) = insert (c, n, k) (used L F)"
proof -
  have "(d, m, j) \<in> used L (F(n := ks)) \<longleftrightarrow> (d, m, j) = (c, n, k) \<or> (d, m, j) \<in> used L F" for d m j
  proof (cases "m = n")
    case True
    have "(d, m, j) \<in> used L (F(n := ks)) \<longleftrightarrow> d = c \<and> j < cps c \<and> j \<notin> set ks" using used_change [of c n L d m j F ks] assms(1-3) True by simp
    moreover have "(d, m, j) \<in> used L F \<longleftrightarrow> d = c \<and> j < cps c \<and> j \<notin> set (F n)" using used_change [of c n L d m j F "F n"] assms(1-3) True by simp
    ultimately show ?thesis using True assms(4-6) by auto
  qed (use used_change [of c n L d m j F ks] assms(1-3) in simp)
  then show ?thesis by auto
qed

lemma slab_alloc_eq:
  "get_size_class b = Some c \<Longrightarrow> slab_alloc b s = kbind (get_class c s) (\<lambda>sc. kbind (find_slab (Suc (unat (num_slabs sc))) (first_slab sc) s) (\<lambda>slab.
     kbind (if slab = 0 then create_slab c s else Inr (slab, s)) (\<lambda>(slab, s1). take_chunk slab s1)))"
  by (simp add: slab_alloc_def take_chunk_def)

lemma slab_alloc_ok:
  assumes i: "sinv s L F" and b: "get_size_class b = Some c" and r: "room s"
  shows "\<exists>t n k L' F'. slab_alloc b s = Inr (wa n (cw c k), t) \<and> sinv t L' F' \<and> (c, n, k) \<notin> used L F \<and> used L' F' = insert (c, n, k) (used L F) \<and>
    (\<forall>d m j w. (d, m, j) \<in> used L F \<and> 5 \<le> w \<longrightarrow> V t m w = V s m w)"
proof -
  have c: "c < 6" using get_size_class_some [OF b] by simp
  have g: "good s" and sg: "\<And>d. d < 6 \<Longrightarrow> seg (V s) F d 0 (L d) 0" using i by (auto simp: sinv_def)
  have find: "find_slab (Suc (unat (num_slabs (class_of c (L c))))) (first_slab (class_of c (L c))) s =
      Inr (case find (\<lambda>n. F n \<noteq> []) (L c) of None \<Rightarrow> 0 | Some n \<Rightarrow> wa n 0)"
    using find_slab_seg [OF sg [OF c] g, of "Suc (length (L c))"] sinv_num_slabs [OF i c] by simp
  show ?thesis
  proof (cases "find (\<lambda>n. F n \<noteq> []) (L c)")
    case (Some n)
    then have n: "n \<in> set (L c)" "F n \<noteq> []" by (auto simp: find_Some_iff)
    then obtain k ks where F: "F n = k # ks" by (cases "F n") auto
    obtain p q where ok: "slab_ok (V s) c n p q (F n)" using seg_member [OF sg [OF c] n(1)] by blast
    then have k: "k < cps c" "k \<notin> set ks" and nz: "wa n 0 \<noteq> 0" using F wa_nonzero [of n 0] by (auto simp: slab_ok_def)
    obtain t where t: "take_chunk (wa n 0) s = Inr (wa n (cw c k), t)" "sinv t L (F(n := ks))" "\<forall>m j. m \<noteq> n \<or> 5 \<le> j \<longrightarrow> V t m j = V s m j"
      using take_chunk_ok [where F = F and L = L, OF i c n(1) F] by blast
    have oc: "n \<notin> set (L d)" if "d < 6" "d \<noteq> c" for d using i that c n(1) by (auto simp: sinv_def)
    have "used L (F(n := ks)) = insert (c, n, k) (used L F)"
      by (rule used_take) (use c n(1) oc F k in auto)
    moreover have "slab_alloc b s = Inr (wa n (cw c k), t)"
      unfolding slab_alloc_eq [OF b] sinv_class [OF i c] kbind_simps find Some using nz t(1) by simp
    moreover have "(c, n, k) \<notin> used L F" using F by (simp add: used_def)
    ultimately show ?thesis using t(2,3) by blast
  next
    case None
    then have full: "F n = []" if "n \<in> set (L c)" for n using that by (auto simp: find_None_iff)
    obtain s1 n where s1: "create_slab c s = Inr (wa n 0, s1)" "\<forall>d < 6. n \<notin> set (L d)" "sinv s1 (L(c := n # L c)) (F(n := [0..<cps c]))"
        "\<forall>m j. m \<noteq> n \<and> 5 \<le> j \<longrightarrow> V s1 m j = V s m j"
      using create_slab_ok [OF i c r] by blast
    have cp: "[0..<cps c] = 0 # [Suc 0..<cps c]" using cps_less [OF c] by (simp add: upt_conv_Cons)
    obtain t where t: "take_chunk (wa n 0) s1 = Inr (wa n (cw c 0), t)" "sinv t (L(c := n # L c)) (F(n := [Suc 0..<cps c]))"
        "\<forall>m j. m \<noteq> n \<or> 5 \<le> j \<longrightarrow> V t m j = V s1 m j"
      using take_chunk_ok [OF s1(3) c, of n 0 "[Suc 0..<cps c]"] cp by auto
    have "used (L(c := n # L c)) (F(n := [Suc 0..<cps c])) = insert (c, n, 0) (used L F)"
      using c s1(2) cps_less [OF c] by (auto simp: used_def split: if_splits)
    moreover have "slab_alloc b s = Inr (wa n (cw c 0), t)"
      unfolding slab_alloc_eq [OF b] sinv_class [OF i c] kbind_simps find None using s1(1) t(1) by simp
    moreover have "(c, n, 0) \<notin> used L F" using s1(2) c by (auto simp: used_def)
    moreover have "V t m w = V s m w" if "(d, m, j) \<in> used L F" "5 \<le> w" for d m j w
    proof -
      have "m \<noteq> n" using that(1) s1(2) by (auto simp: used_def)
      then show ?thesis using that(2) s1(4) t(3) by simp
    qed
    ultimately show ?thesis using t(2) by blast
  qed
qed

section \<open>Freeing\<close>

lemma unlink_seg:
  assumes sg: "seg M F c p (xs @ n # ys) q" and d: "distinct (xs @ n # ys)"
    and M: "\<And>m. m \<noteq> n \<Longrightarrow> M' m = (if xs \<noteq> [] \<and> m = last xs then (M m)(2 \<mapsto> pptr ys q) else if ys \<noteq> [] \<and> m = hd ys then (M m)(3 \<mapsto> lastp p xs) else M m)"
  shows "seg M' F c p (xs @ ys) q"
proof -
  have "seg M' F c p xs (pptr ys q)"
  proof (cases xs rule: rev_cases)
    case (snoc zs z)
    have "seg (M(z := (M z)(2 \<mapsto> pptr ys q))) F c p (zs @ [z]) (pptr ys q)"
      by (rule seg_set_next [where nxt = "wa n 0"]) (use sg d snoc in auto)
    moreover have "seg M' F c p (zs @ [z]) (pptr ys q) = seg (M(z := (M z)(2 \<mapsto> pptr ys q))) F c p (zs @ [z]) (pptr ys q)"
    proof (rule seg_cong)
      fix m assume m: "m \<in> set (zs @ [z])"
      then have "m \<noteq> n" "ys \<noteq> [] \<Longrightarrow> m \<noteq> hd ys" using d snoc hd_in_set [of ys] by auto
      then show "M' m = (M(z := (M z)(2 \<mapsto> pptr ys q))) m \<and> F m = F m" using M [of m] snoc by auto
    qed
    ultimately show ?thesis using snoc by simp
  qed simp
  moreover have "seg M' F c (lastp p xs) ys q"
  proof (cases ys)
    case (Cons y zs)
    have "seg (M(y := (M y)(3 \<mapsto> lastp p xs))) F c (lastp p xs) (y # zs) q"
      by (rule seg_set_prev [where prev = "wa n 0"]) (use sg d Cons in auto)
    moreover have "seg M' F c (lastp p xs) (y # zs) q = seg (M(y := (M y)(3 \<mapsto> lastp p xs))) F c (lastp p xs) (y # zs) q"
    proof (rule seg_cong)
      fix m assume m: "m \<in> set (y # zs)"
      have "set xs \<inter> set ys = {}" "n \<notin> set ys" using d by auto
      then have "m \<noteq> n" "xs \<noteq> [] \<Longrightarrow> m \<noteq> last xs" using m last_in_set [of xs] unfolding Cons by blast+
      then show "M' m = (M(y := (M y)(3 \<mapsto> lastp p xs))) m \<and> F m = F m" using M [of m] Cons by auto
    qed
    ultimately show ?thesis using Cons by simp
  qed simp
  ultimately show ?thesis by simp
qed

lemma lastp_last: "xs \<noteq> [] \<Longrightarrow> lastp p xs = wa (last xs) 0"
  by (induction xs arbitrary: p) auto

lemma sinv_unlink:
  assumes i: "sinv s L F" and c: "c < 6" "L c = xs @ n # ys" and g: "good t" and cl: "classes t = (classes s)[c := class_of c (xs @ ys)]"
    and m: "\<And>m. m \<noteq> n \<Longrightarrow> V t m = (if xs \<noteq> [] \<and> m = last xs then (V s m)(2 \<mapsto> pptr ys 0)
      else if ys \<noteq> [] \<and> m = hd ys then (V s m)(3 \<mapsto> lastp 0 xs) else V s m)"
  shows "sinv t (L(c := xs @ ys)) F"
proof -
  let ?L = "L(c := xs @ ys)"
  have sg: "seg (V s) F d 0 (L d) 0" "distinct (L d)" if "d < 6" for d using i that by (auto simp: sinv_def)
  have dj: "set (L d) \<inter> set (L e) = {}" if "d < 6" "e < 6" "d \<noteq> e" for d e using i that by (simp add: sinv_def)
  have "seg (V t) F c 0 (xs @ ys) 0" by (rule unlink_seg [OF _ _ m]) (use sg [OF c(1)] c(2) in auto)
  moreover have "seg (V t) F d 0 (L d) 0" if d: "d < 6" "d \<noteq> c" for d
  proof -
    have "n \<notin> set (L d)" "xs \<noteq> [] \<Longrightarrow> last xs \<notin> set (L d)" "ys \<noteq> [] \<Longrightarrow> hd ys \<notin> set (L d)"
      using dj [OF d(1) c(1) d(2)] last_in_set [of xs] hd_in_set [of ys] by (auto simp: c(2))
    then have "k \<noteq> n \<and> (xs \<noteq> [] \<longrightarrow> k \<noteq> last xs) \<and> (ys \<noteq> [] \<longrightarrow> k \<noteq> hd ys)" if "k \<in> set (L d)" for k using that by blast
    then have "V t k = V s k" if "k \<in> set (L d)" for k using m [of k] that by (metis (no_types, lifting))
    then have "seg (V t) F d 0 (L d) 0 = seg (V s) F d 0 (L d) 0" by (intro seg_cong) simp
    then show ?thesis using sg(1) [OF d(1)] by simp
  qed
  ultimately have "seg (V t) F d 0 (?L d) 0" if "d < 6" for d using that by simp
  moreover have "distinct (?L d)" if "d < 6" for d using that sg(2) sg(2) [OF c(1)] c(2) by simp
  moreover have "set (?L d) \<inter> set (?L e) = {}" if "d < 6" "e < 6" "d \<noteq> e" for d e
    using that dj [of d e] dj [of c e] dj [of d c] c by auto
  moreover have "classes t = map (\<lambda>d. class_of d (?L d)) [0..<6]"
    using i c unfolding cl by (auto simp: sinv_def intro!: nth_equalityI simp: nth_list_update)
  ultimately show ?thesis unfolding sinv_def using g by blast
qed

lemma free_page_V:
  assumes g: "good s" and p: "V s n 0 \<noteq> None"
  shows "\<exists>v. free_kernel_page (wa n 0) (kvm s) = Inr v \<and> good (s\<lparr>kvm := v\<rparr>) \<and> V (s\<lparr>kvm := v\<rparr>) = (V s)(n := Map.empty)"
proof -
  have n: "n < 2 ^ 36" "words (kvm s) (wa n 0) \<noteq> None" using p by (auto simp: V_def split: if_splits)
  obtain v where v: "free_kernel_page (wa n 0) (kvm s) = Inr v" "heap_inv v" "words v = (\<lambda>a. if page_no a = page_no (wa n 0) then None else words (kvm s) a)"
    using free_kernel_page_words [OF g page_aligned_wa [OF n(1)] n(2)] by blast
  have "V (s\<lparr>kvm := v\<rparr>) m j = ((V s)(n := Map.empty)) m j" for m j
    using v(3) n(1) page_no_wa [of m j] page_no_wa [of n 0] by (auto simp: V_def)
  then show ?thesis using v by (intro exI [of _ v]) (simp add: fun_eq_iff)
qed

lemma class_of_drop:
  "xs \<noteq> [] \<Longrightarrow> class_of c (xs @ n # ys)\<lparr>num_slabs := of_nat (length (xs @ n # ys)) - 1\<rparr> = class_of c (xs @ ys)"
  "class_of c (n # ys)\<lparr>first_slab := pptr ys 0, num_slabs := of_nat (length (n # ys)) - 1\<rparr> = class_of c ys"
  by (simp_all add: class_of_def pptr_hd)

lemma put_opt:
  assumes "good s" "ns \<noteq> [] \<Longrightarrow> V s k j \<noteq> None"
  shows "\<exists>t. (if ns \<noteq> [] then store (wa k j) x s else Inr s) = Inr t \<and> good t \<and> classes t = classes s \<and>
    V t = (if ns \<noteq> [] then (V s)(k := (V s k)(j \<mapsto> x)) else V s)"
  using put_eqs [of s k j x] assms by (cases "ns = []") auto

lemma destroy_slab_ok:
  assumes i: "sinv s L F" and c: "c < 6" "L c = xs @ n # ys" "xs @ ys \<noteq> []"
  shows "\<exists>t. destroy_slab c (wa n 0) s = Inr t \<and> sinv t (L(c := xs @ ys)) F \<and> (\<forall>m j. m \<noteq> n \<and> 5 \<le> j \<longrightarrow> V t m j = V s m j)"
proof -
  have g: "good s" using i by (simp add: sinv_def)
  have "seg (V s) F c 0 (L c) 0 \<and> distinct (L c)" using i c(1) by (simp add: sinv_def)
  then have sg: "seg (V s) F c 0 (xs @ n # ys) 0" and d: "distinct (xs @ n # ys)" unfolding c(2) by simp_all
  have ok: "slab_ok (V s) c n (lastp 0 xs) (pptr ys 0) (F n)" using sg by simp
  have mem: "\<exists>p q. slab_ok (V s) c m p q (F m)" if "m \<in> set xs \<union> set ys" for m using seg_member [OF sg] that by auto
  have x: "V s (last xs) 2 \<noteq> None \<and> lastp 0 xs = wa (last xs) 0 \<and> wa (last xs) 0 \<noteq> 0 \<and> last xs \<noteq> n" if "xs \<noteq> []"
    using mem [of "last xs"] last_in_set [OF that] lastp_last [OF that] wa_nonzero [of "last xs" 0] d by (auto simp: slab_ok_def)
  have y: "V s (hd ys) 3 \<noteq> None \<and> pptr ys 0 = wa (hd ys) 0 \<and> wa (hd ys) 0 \<noteq> 0 \<and> hd ys \<noteq> n \<and> hd ys \<notin> set xs" if "ys \<noteq> []"
    using mem [of "hd ys"] hd_in_set [OF that] pptr_hd [OF that] wa_nonzero [of "hd ys" 0] d by (auto simp: slab_ok_def)
  have z: "lastp 0 xs \<noteq> 0 \<longleftrightarrow> xs \<noteq> []" "pptr ys 0 \<noteq> 0 \<longleftrightarrow> ys \<noteq> []" using x y by (cases "xs = []"; cases "ys = []"; auto)+
  obtain s1 where s1: "(if xs \<noteq> [] then store (wa (last xs) 2) (pptr ys 0) s else Inr s) = Inr s1" "good s1" "classes s1 = classes s"
      "V s1 = (if xs \<noteq> [] then (V s)(last xs := (V s (last xs))(2 \<mapsto> pptr ys 0)) else V s)"
    using put_opt [OF g, of xs "last xs" 2 "pptr ys 0"] x by blast
  have y1: "ys \<noteq> [] \<Longrightarrow> V s1 (hd ys) 3 \<noteq> None" using y s1(4) last_in_set [of xs] by auto
  obtain s2 where s2: "(if ys \<noteq> [] then store (wa (hd ys) 3) (lastp 0 xs) s1 else Inr s1) = Inr s2" "good s2" "classes s2 = classes s"
      "V s2 = (if ys \<noteq> [] then (V s1)(hd ys := (V s1 (hd ys))(3 \<mapsto> lastp 0 xs)) else V s1)"
    using put_opt [OF s1(2) y1, of ys "lastp 0 xs"] s1(3) by auto
  define s3 where "s3 = s2\<lparr>classes := (classes s2)[c := class_of c (xs @ ys)]\<rparr>"
  have "xs \<noteq> [] \<Longrightarrow> last xs \<noteq> n" "ys \<noteq> [] \<Longrightarrow> hd ys \<noteq> n" using x y by blast+
  then have "V s3 n = V s n" unfolding s3_def V_classes s2(4) s1(4) by (cases "xs = []"; cases "ys = []") (simp_all del: fun_upd_apply add: fun_upd_other)
  then have "V s3 n 0 \<noteq> None" using ok by (simp add: slab_ok_def)
  then obtain v where v: "free_kernel_page (wa n 0) (kvm s3) = Inr v" "good (s3\<lparr>kvm := v\<rparr>)" "V (s3\<lparr>kvm := v\<rparr>) = (V s3)(n := Map.empty)"
    using free_page_V [of s3 n] s2(2) by (auto simp: s3_def)
  define t where "t = s3\<lparr>kvm := v\<rparr>"
  have Vt: "V t m = (if xs \<noteq> [] \<and> m = last xs then (V s m)(2 \<mapsto> pptr ys 0) else if ys \<noteq> [] \<and> m = hd ys then (V s m)(3 \<mapsto> lastp 0 xs) else V s m)"
    if "m \<noteq> n" for m using that v(3) s1(4) s2(4) y last_in_set [of xs] by (auto simp: t_def s3_def)
  have "sinv t (L(c := xs @ ys)) F" by (rule sinv_unlink [OF i c(1,2) _ _ Vt]) (use v(2) s2(3) in \<open>simp_all add: t_def s3_def\<close>)
  moreover have "destroy_slab c (wa n 0) s = Inr t"
  proof -
    have ld: "load (wa n 3) s = Inr (lastp 0 xs)" "load (wa n 2) s = Inr (pptr ys 0)" "wa n 0 \<noteq> 0" using ok g wa_nonzero [of n 0] by (auto simp: slab_ok_def load_V)
    have a: "(if lastp 0 xs \<noteq> 0 then kbind (store (lastp 0 xs + 16) (pptr ys 0) s) (\<lambda>s1. Inr (class_of c (L c), s1))
        else Inr (class_of c (L c)\<lparr>first_slab := pptr ys 0\<rparr>, s)) = Inr (if xs \<noteq> [] then class_of c (L c) else class_of c (L c)\<lparr>first_slab := pptr ys 0\<rparr>, s1)"
      using z(1) x s1(1) by (auto simp: wa_offsets)
    have b: "(if pptr ys 0 \<noteq> 0 then store (pptr ys 0 + 24) (lastp 0 xs) s1 else Inr s1) = Inr s2" using z(2) y s2(1) by (auto simp: wa_offsets)
    let ?sc = "if xs \<noteq> [] then class_of c (L c) else class_of c (L c)\<lparr>first_slab := pptr ys 0\<rparr>"
    have cl: "?sc\<lparr>num_slabs := num_slabs ?sc - 1\<rparr> = class_of c (xs @ ys)" using class_of_drop unfolding c(2) by auto
    have ne: "\<not> (lastp 0 xs = 0 \<and> pptr ys 0 = 0)" using z c(3) by auto
    show ?thesis unfolding destroy_slab_def sinv_class [OF i c(1)] wa_offsets ld kbind_simps a prod.case b Let_def cl s3_def [symmetric] v(1) t_def
      using ne ld(3) by auto
  qed
  moreover have "V t m j = V s m j" if "m \<noteq> n" "5 \<le> j" for m j using Vt [OF that(1)] that(2) by auto
  ultimately show ?thesis by blast
qed

text \<open>Putting a chunk back on the free list of its slab.\<close>

lemma give_chunk_ok:
  assumes i: "sinv s L F" and c: "c < 6" "n \<in> set (L c)" "k < cps c" "k \<notin> set (F n)"
  shows "\<exists>s1 s2 s3. store (wa n (cw c k)) (ptr c n (F n)) s = Inr s1 \<and> store (wa n 1) (wa n (cw c k)) s1 = Inr s2 \<and>
    load_byte (wa n 4) 1 s2 = Inr (of_nat (length (F n))) \<and> store_byte (wa n 4) 1 (of_nat (length (F n)) + 1) s2 = Inr s3 \<and>
    load_byte (wa n 4) 1 s3 = Inr (of_nat (Suc (length (F n)))) \<and> sinv s3 L (F(n := k # F n)) \<and> (\<forall>m j. m \<noteq> n \<or> 5 \<le> j \<and> j \<noteq> cw c k \<longrightarrow> V s3 m j = V s m j)"
proof -
  obtain xs ys where L: "L c = xs @ n # ys" using c(2) split_list by metis
  have g: "good s" using i by (simp add: sinv_def)
  have sg: "seg (V s) F c 0 (L c) 0" using i c(1) by (simp add: sinv_def)
  obtain p q where ok: "slab_ok (V s) c n p q (F n)" using seg_member [OF sg c(2)] by blast
  obtain w where w: "V s n 4 = Some w" "get_byte 1 w = of_nat (length (F n))" using ok by (auto simp: slab_ok_def)
  have b: "cw c k < 512" "5 \<le> cw c k" using cw_bounds c(3) by auto
  define s1 where "s1 = put n (cw c k) (ptr c n (F n)) s"
  define s2 where "s2 = put n 1 (wa n (cw c k)) s1"
  define s3 where "s3 = put n 4 (put_byte 1 (get_byte 1 w + 1) w) s2"
  have N: "V s n j \<noteq> None" if "j < 512" for j using ok that by (simp add: slab_ok_def)
  note p1 = put_props [OF g N [OF b(1)], of "ptr c n (F n)", folded s1_def]
  have n1: "V s1 n 1 \<noteq> None" using N [of 1] p1(3) by simp
  note p2 = put_props [OF p1(2) n1, of "wa n (cw c k)", folded s2_def]
  have w2: "V s2 n 4 = Some w" using p1(3) p2(3) w(1) b(2) by simp
  have n2: "V s2 n 4 \<noteq> None" using w2 by simp
  note p3 = put_props [OF p2(2) n2, of "put_byte 1 (get_byte 1 w + 1) w", folded s3_def]
  have V3: "V s3 = (V s)(n := (V s n)(cw c k \<mapsto> ptr c n (F n), 1 \<mapsto> wa n (cw c k), 4 \<mapsto> put_byte 1 (get_byte 1 w + 1) w))"
    using p1(3) p2(3) p3(3) by simp
  have "sinv s3 L (F(n := k # F n))"
  proof (rule sinv_change [OF i c(1) L])
    show "good s3" "classes s3 = classes s" using p3(2,4) p2(4) p1(4) by simp_all
    show "V s3 m = V s m" if "m \<noteq> n" for m using V3 that by simp
    show "slab_ok (V s3) c n p q (k # F n)" if "slab_ok (V s) c n p q (F n)" for p q
      unfolding V3 by (rule slab_ok_give [OF that w(1) c(3,4)])
  qed
  moreover have "load_byte (wa n 4) 1 s3 = Inr (of_nat (Suc (length (F n))))" using load_byte_V [OF p3(2), of n 4] p3(3) w(2) by (simp add: get_put_byte add.commute)
  moreover have "load_byte (wa n 4) 1 s2 = Inr (of_nat (length (F n)))" "store_byte (wa n 4) 1 (of_nat (length (F n)) + 1) s2 = Inr s3"
    using load_byte_V [OF p2(2) w2] store_byte_V [OF p2(2) w2] w(2) by (simp_all add: s3_def)
  moreover have "V s3 m j = V s m j" if "m \<noteq> n \<or> 5 \<le> j \<and> j \<noteq> cw c k" for m j using that V3 by auto
  ultimately show ?thesis using p1(1) p2(1) by blast
qed

lemma used_give:
  assumes "c < 6" "n \<in> set (L c)" "\<And>d. d < 6 \<Longrightarrow> d \<noteq> c \<Longrightarrow> n \<notin> set (L d)" "k \<notin> set (F n)"
  shows "used L (F(n := k # F n)) = used L F - {(c, n, k)}"
proof -
  have "(d, m, j) \<in> used L (F(n := k # F n)) \<longleftrightarrow> (d, m, j) \<in> used L F - {(c, n, k)}" for d m j
  proof (cases "m = n")
    case True
    have "(d, m, j) \<in> used L (F(n := k # F n)) \<longleftrightarrow> d = c \<and> j < cps c \<and> j \<notin> set (k # F n)" using used_change [of c n L d m j F "k # F n"] assms(1-3) True by simp
    moreover have "(d, m, j) \<in> used L F \<longleftrightarrow> d = c \<and> j < cps c \<and> j \<notin> set (F n)" using used_change [of c n L d m j F "F n"] assms(1-3) True by simp
    ultimately show ?thesis using True by auto
  qed (use used_change [of c n L d m j F "k # F n"] assms(1-3) in simp)
  then show ?thesis by auto
qed

lemma cw_other:
  assumes "j \<noteq> k" "cw c j \<le> w" "w < cw c j + 4 * 2 ^ c"
  shows "w \<noteq> cw c k"
  using cw_disjoint [of j k c] cw_disjoint [of k j c] assms by (cases "j < k") auto

lemma slab_free_ok:
  assumes i: "sinv s L F" and u: "(c, n, k) \<in> used L F"
  shows "\<exists>t L' F'. slab_free (wa n (cw c k)) s = Inr t \<and> sinv t L' F' \<and> used L' F' = used L F - {(c, n, k)} \<and>
    (\<forall>d m j w. (d, m, j) \<in> used L F - {(c, n, k)} \<and> cw d j \<le> w \<and> w < cw d j + 4 * 2 ^ d \<longrightarrow> V t m w = V s m w)"
proof -
  have c: "c < 6" "n \<in> set (L c)" "k < cps c" "k \<notin> set (F n)" using u by (simp_all add: used_def)
  have g: "good s" and sg: "seg (V s) F c 0 (L c) 0" using i c(1) by (auto simp: sinv_def)
  obtain p q where ok: "slab_ok (V s) c n p q (F n)" using seg_member [OF sg c(2)] by blast
  obtain w where w: "V s n 4 = Some w" "get_byte 0 w = of_nat c" using ok by (auto simp: slab_ok_def)
  have n: "n < 2 ^ 36" using ok by (simp add: slab_ok_def)
  have oc: "n \<notin> set (L d)" if "d < 6" "d \<noteq> c" for d using i that c by (auto simp: sinv_def)
  obtain s1 s2 s3 where s3: "store (wa n (cw c k)) (ptr c n (F n)) s = Inr s1" "store (wa n 1) (wa n (cw c k)) s1 = Inr s2"
      "load_byte (wa n 4) 1 s2 = Inr (of_nat (length (F n)))" "store_byte (wa n 4) 1 (of_nat (length (F n)) + 1) s2 = Inr s3"
      "load_byte (wa n 4) 1 s3 = Inr (of_nat (Suc (length (F n))))" "sinv s3 L (F(n := k # F n))"
      "\<forall>m j. m \<noteq> n \<or> 5 \<le> j \<and> j \<noteq> cw c k \<longrightarrow> V s3 m j = V s m j"
    using give_chunk_ok [OF i c] by (elim exE conjE) (rule that)
  have us: "used L (F(n := k # F n)) = used L F - {(c, n, k)}" by (rule used_give) (use c oc in auto)
  have ts: "try_get_slab (wa n (cw c k)) s = Inr (wa n 0)"
    using ok load_V [OF g, of n 0 SLAB_MAGIC] wa_page [OF n cw_bounds(1) [OF c(3)]] wa_nonzero [OF n cw_bounds(1) [OF c(3)]]
    by (simp add: try_get_slab_def Let_def slab_ok_def)
  have lb: "load_byte (wa n 4) 0 s = Inr (of_nat c)" "load (wa n 1) s = Inr (ptr c n (F n))" "unat (of_nat c :: u8) = c"
    using load_byte_V [OF g w(1)] w(2) ok load_V [OF g] c(1) by (auto simp: slab_ok_def unat_of_nat)
  have "slab_free (wa n (cw c k)) s = (if (of_nat (Suc (length (F n))) :: u8) = of_nat (cps c) \<and> (of_nat (length (L c)) :: u64) > 1
      then destroy_slab c (wa n 0) s3 else Inr s3)"
    unfolding slab_free_def ts kbind_simps wa_offsets lb s3(1-5) sinv_class [OF s3(6) c(1)] using wa_nonzero [OF n, of 0] by simp
  moreover have "1 < length (L c) \<longleftrightarrow> (of_nat (length (L c)) :: u64) > 1" using sinv_num_slabs [OF i c(1)] by (simp add: word_less_nat_alt)
  moreover have "(of_nat (Suc (length (F n))) :: u8) = of_nat (cps c) \<longleftrightarrow> Suc (length (F n)) = cps c"
  proof -
    have "set (k # F n) \<subseteq> {..<cps c}" "distinct (k # F n)" using ok c(3,4) by (auto simp: slab_ok_def)
    then have "length (k # F n) \<le> cps c" using card_mono [of "{..<cps c}" "set (k # F n)"] distinct_card [of "k # F n"] by simp
    then have "unat (of_nat (Suc (length (F n))) :: u8) = Suc (length (F n))" "unat (of_nat (cps c) :: u8) = cps c"
      using cps_less [OF c(1)] by (simp_all only: unat_of_nat) simp_all
    then show ?thesis by (simp only: word_unat_eq_iff)
  qed
  ultimately have sf: "slab_free (wa n (cw c k)) s = (if Suc (length (F n)) = cps c \<and> 1 < length (L c) then destroy_slab c (wa n 0) s3 else Inr s3)" by simp
  have keep: "V s3 m w = V s m w" if "(d, m, j) \<in> used L F - {(c, n, k)}" "cw d j \<le> w" "w < cw d j + 4 * 2 ^ d" for d m j w
  proof (cases "m = n")
    case True
    then have "d = c" "j \<noteq> k" using that(1) oc by (auto simp: used_def)
    then show ?thesis using s3(7) cw_other [of j k c w] cw_bounds(2) [of c j] that(2,3) by simp
  qed (use s3(7) in simp)
  show ?thesis
  proof (cases "Suc (length (F n)) = cps c \<and> 1 < length (L c)")
    case False
    then have "slab_free (wa n (cw c k)) s = Inr s3" using sf by auto
    then show ?thesis using s3(6) us keep by blast
  next
    case True
    obtain xs ys where L: "L c = xs @ n # ys" using c(2) split_list by metis
    then have ne: "xs @ ys \<noteq> []" using True by auto
    obtain t where t: "destroy_slab c (wa n 0) s3 = Inr t" "sinv t (L(c := xs @ ys)) (F(n := k # F n))" "\<forall>m j. m \<noteq> n \<and> 5 \<le> j \<longrightarrow> V t m j = V s3 m j"
      using destroy_slab_ok [OF s3(6) c(1) L ne] by blast
    have "distinct (k # F n)" "set (k # F n) \<subseteq> {..<cps c}" using ok c(3,4) by (auto simp: slab_ok_def)
    then have full: "set (k # F n) = {..<cps c}" using True distinct_card [of "k # F n"] by (intro card_subset_eq) auto
    have nn: "m \<noteq> n" if "(d, m, j) \<in> used L F - {(c, n, k)}" for d m j using that full oc by (auto simp: used_def)
    have "distinct (L c)" using i c(1) by (simp add: sinv_def)
    then have "used (L(c := xs @ ys)) (F(n := k # F n)) = used L (F(n := k # F n))"
      using L full oc by (auto simp: used_def split: if_splits)
    moreover have "V t m w = V s m w" if "(d, m, j) \<in> used L F - {(c, n, k)}" "cw d j \<le> w" "w < cw d j + 4 * 2 ^ d" for d m j w
      using keep [OF that] t(3) nn [OF that(1)] cw_bounds(2) [of d j] that(2) by simp
    moreover have "slab_free (wa n (cw c k)) s = Inr t" using sf True t(1) by simp
    ultimately show ?thesis using t(2) us by blast
  qed
qed

section \<open>Blocks\<close>

definition block :: "nat \<times> nat \<times> nat \<Rightarrow> u64 \<times> nat" where
  "block x = (case x of (c, n, i) \<Rightarrow> (wa n (cw c i), csize c))"

text \<open>\<open>heap_blocks s B\<close>: the allocator is in a consistent state in which the blocks \<open>B\<close>, addresses and lengths, are in use.\<close>

definition heap_blocks :: "kmm \<Rightarrow> (u64 \<times> nat) set \<Rightarrow> bool" where
  "heap_blocks s B \<longleftrightarrow> (\<exists>L F. sinv s L F \<and> B = block ` used L F)"

definition disjoint_from :: "u64 \<times> nat \<Rightarrow> u64 \<times> nat \<Rightarrow> bool" where
  "disjoint_from x y \<longleftrightarrow> unat (fst x) + snd x \<le> unat (fst y) \<or> unat (fst y) + snd y \<le> unat (fst x)"

text \<open>The words of the blocks in \<open>B\<close> are the same in both states.\<close>

definition keeps :: "(u64 \<times> nat) set \<Rightarrow> kmm \<Rightarrow> kmm \<Rightarrow> bool" where
  "keeps B s t \<longleftrightarrow> (\<forall>a len k. (a, len) \<in> B \<and> 8 * k < len \<longrightarrow> words (kvm t) (a + of_nat (8 * k)) = words (kvm s) (a + of_nat (8 * k)))"

lemma used_bounds:
  assumes "sinv s L F" "(c, n, i) \<in> used L F"
  shows "n < 2 ^ 36" "cw c i + 4 * 2 ^ c \<le> 512" "unat (wa n (cw c i)) = 2 ^ 64 - 2 ^ 48 + 4096 * n + 8 * cw c i" "c < 6"
proof -
  have c: "c < 6" "n \<in> set (L c)" "i < cps c" using assms(2) by (simp_all add: used_def)
  have "seg (V s) F c 0 (L c) 0" using assms(1) c(1) by (simp add: sinv_def)
  then show n: "n < 2 ^ 36" using seg_bound c(2) by blast
  show "cw c i + 4 * 2 ^ c \<le> 512" "c < 6" using cps_bound [OF c(3)] c(1) by auto
  show "unat (wa n (cw c i)) = 2 ^ 64 - 2 ^ 48 + 4096 * n + 8 * cw c i" by (rule unat_wa [OF n cw_bounds(1) [OF c(3)]])
qed

lemma used_disjoint:
  assumes i: "sinv s L F" and x: "(c, n, i) \<in> used L F" and y: "(d, m, j) \<in> used L F" and ne: "(c, n, i) \<noteq> (d, m, j)"
  shows "disjoint_from (block (c, n, i)) (block (d, m, j))"
proof -
  note bx = used_bounds [OF i x] and by' = used_bounds [OF i y]
  have cx: "csize c = 8 * (4 * 2 ^ c)" "csize d = 8 * (4 * 2 ^ d)" by (simp_all add: csize_def)
  consider "n < m" | "m < n" | "n = m" by linarith
  then show ?thesis
  proof cases
    case 3
    then have cd: "c = d" using x y i by (auto simp: used_def sinv_def)
    then have "i \<noteq> j" using ne 3 by simp
    then have "cw c i + 4 * 2 ^ c \<le> cw c j \<or> cw c j + 4 * 2 ^ c \<le> cw c i" using cw_disjoint [of i j c] cw_disjoint [of j i c] by linarith
    then show ?thesis using bx(3) by'(3) cd 3 unfolding disjoint_from_def block_def by (simp add: cx) linarith
  qed (use bx(2,3) by'(2,3) in \<open>simp add: disjoint_from_def block_def cx; linarith\<close>)+
qed

lemma block_inj: "sinv s L F \<Longrightarrow> inj_on block (used L F)"
proof (rule inj_onI)
  fix x y assume a: "sinv s L F" "x \<in> used L F" "y \<in> used L F" "block x = block y"
  obtain c n i d m j where xy: "x = (c, n, i)" "y = (d, m, j)" by (cases x, cases y) auto
  have "0 < csize c" by (simp add: csize_def)
  then have "\<not> disjoint_from (block x) (block y)" using a(4) by (simp add: disjoint_from_def) (simp add: xy block_def)
  then show "x = y" using used_disjoint [OF a(1)] a(2,3) unfolding xy by blast
qed

lemma keepsI:
  assumes i: "sinv s L F" and k: "\<And>d m j w. (d, m, j) \<in> U \<Longrightarrow> cw d j \<le> w \<Longrightarrow> w < cw d j + 4 * 2 ^ d \<Longrightarrow> V t m w = V s m w" and U: "U \<subseteq> used L F"
  shows "keeps (block ` U) s t"
  unfolding keeps_def
proof (intro allI impI, elim conjE)
  fix a len k assume "(a, len) \<in> block ` U" and kl: "8 * k < len"
  then obtain d m j where u: "(d, m, j) \<in> U" "a = wa m (cw d j)" "len = csize d" by (auto simp: block_def)
  have b: "m < 2 ^ 36" "cw d j + 4 * 2 ^ d \<le> 512" using used_bounds [OF i] u(1) U by auto
  have "cw d j + k < cw d j + 4 * 2 ^ d" using kl u(3) by (simp add: csize_def)
  then have "V t m (cw d j + k) = V s m (cw d j + k)" "cw d j + k < 512" using k [OF u(1)] b(2) by auto
  then show "words (kvm t) (a + of_nat (8 * k)) = words (kvm s) (a + of_nat (8 * k))" unfolding u(2) wa_add using b(1) by (simp add: V_def)
qed

section \<open>Properties\<close>

lemma ex_kheap:
  obtains s where "heap_blocks s {}" "room s"
proof -
  obtain m where m: "pmm_ok m" "free_set m = {256 .. 272} - {0}" "frame_bitmap_start m = 256" "frame_bitmap_end m = 272"
    using add_free_memory_eq [of "pmm_init pmm_zero" "0x100000" "0x10000"] unfolding free_set_init
    by (auto simp: pmm_init_def region_ok_def MAX_MEMORY_BYTES_def frame_of_def pmm_consts)
  have av: "avail m = {256 ..< 272}" unfolding avail_def m(2-4) by auto
  define v where "v = ex_vmm m"
  define s where "s = \<lparr>kvm = v, classes = init_classes\<rparr>"
  have K: "get_kernel_pml4_index v = 256" by (simp add: get_kernel_pml4_index_def v_def ex_vmm_def)
  have r: "kroot v = 4" by (simp add: kroot_def tab_def hhdm_vtop_def v_def ex_vmm_def frame_of_def pmm_consts)
  have "entry v a = None" for a by (simp add: entry_def lookup_def path_of_def present_def v_def ex_vmm_def)
  moreover have "space_ok 4 (hidx v) v 4" using m(1,2) by (simp add: space_ok_def v_def ex_vmm_def FRAME_BITMAP_SIZE_eq)
  ultimately have "heap_inv v" unfolding heap_inv_def K r
    by (auto simp: hhdm_ok_def hidx_def K) (simp_all add: v_def ex_vmm_def frame_of_def pmm_consts heap_wf_def)
  then have "sinv s (\<lambda>_. []) (\<lambda>_. [])"
    by (simp add: sinv_def s_def upt_rec init_classes_def new_class_def class_of_def chunks_per_slab_of_def csize_def cps_def PAGE_SIZE_def sizeof_Slab_def)
  then have "heap_blocks s {}" unfolding heap_blocks_def by (intro exI [of _ "\<lambda>_. []"]) (auto simp: used_def)
  moreover have "room s" by (simp add: room_def s_def v_def ex_vmm_def av advance_heap_def Let_def NUM_PT_ENTRIES_def)
  ultimately show ?thesis using that by blast
qed







end
