(* ===== verification/Process.thy ===== *)
theory Process
  imports Vmm
begin

text \<open>
  The process structure and its state machine (\<^verbatim>\<open>include/process/process.hpp\<close>,
  \<^verbatim>\<open>lib/process/process.cpp\<close>): the constructor, the predicates on the state, the transitions the
  scheduler makes, and the construction of a forked child and of a kernel thread.

  A process is a record of the members the kernel reads. Members that the constructor leaves
  uninitialised keep the value the memory held before, which is the argument \<open>raw\<close>. The two register
  frames that live on the kernel stack are modelled by their contents (\<open>ctx\<close>, \<open>sysf\<close>) and their
  addresses. \<open>now\<close> stands for the value of \<^verbatim>\<open>clock::get_time_ns()\<close>.
\<close>

type_synonym paddr = nat

datatype ProcessState = NEW | RUNNING | READY | BLOCKED | SLEEPING | DEAD | ZOMBIE

datatype WaitReason = W_NONE | W_KEYBOARD | W_SLEEP | W_FRAMEBUFFER | W_CHILD_PROCESS | W_MUTEX | W_SIGNAL

record ContextFrame =
  c_r15 :: u64
  c_r14 :: u64
  c_r13 :: u64
  c_r12 :: u64
  c_rbx :: u64
  c_rbp :: u64
  c_rip :: u64

record SyscallFrame =
  s_r15 :: u64
  s_r14 :: u64
  s_r13 :: u64
  s_r12 :: u64
  s_r11 :: u64
  s_r10 :: u64
  s_r9 :: u64
  s_r8 :: u64
  s_rbp :: u64
  s_rdi :: u64
  s_rsi :: u64
  s_rdx :: u64
  s_rcx :: u64
  s_rbx :: u64
  s_rax :: u64
  s_rsp :: u64

record process =
  pid :: int
  parent :: "paddr option"
  state :: ProcessState
  wait_reason :: WaitReason
  wait_pid :: int
  exit_status :: int
  context_switches :: u64
  wake_time_ns :: u64
  quantum_start_ns :: u64
  cwd_inode :: "paddr option"
  wait_mutex :: "paddr option"
  pml4 :: "u64 option"
  heap_break :: u64
  uheap :: Heap
  kernel_stack :: u64
  kernel_rsp :: u64
  kernel_rsp_saved :: u64
  user_rsp :: u64
  context_frame :: u64
  syscall_frame :: u64
  fd_table :: "paddr option list"
  entry :: u64
  fs_base :: u64
  tidptr :: u64
  ctx :: ContextFrame
  sysf :: SyscallFrame

definition KERNEL_STACK_SIZE :: u64 where
  "KERNEL_STACK_SIZE = 32 * 1024"

definition sizeof_ContextFrame :: u64 where
  "sizeof_ContextFrame = 7 * 8"

definition sizeof_SyscallFrame :: u64 where
  "sizeof_SyscallFrame = 16 * 8"

section \<open>Construction\<close>

text \<open>\<open>stack\<close> is the address \<^verbatim>\<open>new std::uint8_t[KERNEL_STACK_SIZE]\<close> returns; \<open>g_pid\<close> is the counter.\<close>

definition Process_new :: "process \<Rightarrow> u64 \<Rightarrow> int \<Rightarrow> process \<times> int" where
  "Process_new raw stack g_pid = (raw\<lparr>
     pid := g_pid,
     parent := None,
     pml4 := None,
     exit_status := 0,
     state := NEW,
     wait_reason := W_NONE,
     heap_break := 0,
     quantum_start_ns := 0,
     wake_time_ns := 0,
     fs_base := 0,
     tidptr := 0,
     kernel_stack := stack,
     kernel_rsp := stack + KERNEL_STACK_SIZE,
     fd_table := [],
     cwd_inode := None\<rparr>, g_pid + 1)"

definition build_synthetic_context_frame :: "u64 \<Rightarrow> process \<Rightarrow> process" where
  "build_synthetic_context_frame entry_func p = p\<lparr>
     ctx := \<lparr>c_r15 = 0x15151515, c_r14 = 0x14141414, c_r13 = 0x13131313, c_r12 = 0x12121212,
             c_rbx = 0x12345678, c_rbp = 0x77777777, c_rip = entry_func\<rparr>,
     kernel_rsp_saved := context_frame p\<rparr>"

definition copy_syscall_frame :: "SyscallFrame \<Rightarrow> process \<Rightarrow> process" where
  "copy_syscall_frame frame p = p\<lparr>sysf := (sysf p)\<lparr>
     s_r15 := s_r15 frame, s_r14 := s_r14 frame, s_r13 := s_r13 frame, s_r12 := s_r12 frame,
     s_r11 := s_r11 frame, s_r10 := s_r10 frame, s_r9 := s_r9 frame, s_r8 := s_r8 frame,
     s_rbp := s_rbp frame, s_rdi := s_rdi frame, s_rsi := s_rsi frame, s_rdx := s_rdx frame,
     s_rcx := s_rcx frame, s_rbx := s_rbx frame, s_rax := s_rax frame, s_rsp := s_rsp frame\<rparr>\<rparr>"

text \<open>
  A kernel thread runs \<open>func\<close> in the kernel's page tables; \<open>trampoline\<close> is the address of
  \<^verbatim>\<open>kthread_entry_trampoline\<close>.
\<close>

definition KThread_new :: "process \<Rightarrow> u64 \<Rightarrow> u64 \<Rightarrow> u64 \<Rightarrow> u64 \<Rightarrow> int \<Rightarrow> (process \<times> int) kres" where
  "KThread_new raw stack kpml4 trampoline func g_pid =
    (let (p, g_pid') = Process_new raw stack g_pid
     in kbind (kassert (func \<noteq> 0) ''func is null'') (\<lambda>_.
          Inr (build_synthetic_context_frame trampoline
            (p\<lparr>pml4 := Some kpml4, entry := func, context_frame := kernel_rsp p - sizeof_ContextFrame\<rparr>), g_pid')))"

text \<open>
  \<open>fork\<close>: \<open>self\<close> is the address of the parent, \<open>cloned_pml4\<close> and \<open>cloned_heap\<close> what
  \<^verbatim>\<open>clone_user_pml4\<close> and \<^verbatim>\<open>clone_user_heap\<close> return, \<open>trampoline\<close> the address of
  \<^verbatim>\<open>forked_entry_context_switch\<close>.
\<close>

definition Process_fork ::
  "process \<Rightarrow> u64 \<Rightarrow> u64 \<Rightarrow> Heap \<Rightarrow> u64 \<Rightarrow> paddr \<Rightarrow> process \<Rightarrow> int \<Rightarrow> process \<times> int" where
  "Process_fork raw stack cloned_pml4 cloned_heap trampoline self p g_pid =
    (let (forked, g_pid') = Process_new raw stack g_pid;
         f1 = forked\<lparr>
           parent := Some self,
           state := NEW,
           wait_reason := wait_reason p,
           exit_status := exit_status p,
           heap_break := heap_break p,
           pml4 := Some cloned_pml4,
           quantum_start_ns := quantum_start_ns p,
           wake_time_ns := wake_time_ns p,
           fs_base := fs_base p,
           tidptr := tidptr p,
           cwd_inode := cwd_inode p,
           uheap := cloned_heap,
           fd_table := fd_table p,
           syscall_frame := kernel_rsp forked - sizeof_SyscallFrame,
           context_frame := kernel_rsp forked - sizeof_SyscallFrame - sizeof_ContextFrame\<rparr>
     in (build_synthetic_context_frame trampoline (copy_syscall_frame (sysf p) f1), g_pid'))"

section \<open>Predicates and transitions\<close>

definition get_state_str :: "process \<Rightarrow> string kres" where
  "get_state_str p = (case state p of
      READY \<Rightarrow> Inr ''READY''
    | NEW \<Rightarrow> Inr ''NEW''
    | RUNNING \<Rightarrow> Inr ''RUNNING''
    | DEAD \<Rightarrow> Inr ''DEAD''
    | ZOMBIE \<Rightarrow> Inr ''ZOMBIE''
    | BLOCKED \<Rightarrow> Inr ''BLOCKED''
    | _ \<Rightarrow> Inl (Panic ''unknown process state''))"

definition is_running :: "process \<Rightarrow> bool" where
  "is_running p \<longleftrightarrow> state p = RUNNING"

definition is_ready :: "process \<Rightarrow> bool" where
  "is_ready p \<longleftrightarrow> state p = READY \<or> state p = NEW"

definition is_zombie :: "process \<Rightarrow> bool" where
  "is_zombie p \<longleftrightarrow> state p = ZOMBIE"

definition is_dead :: "process \<Rightarrow> bool" where
  "is_dead p \<longleftrightarrow> state p = DEAD"

definition is_blocked :: "process \<Rightarrow> bool" where
  "is_blocked p \<longleftrightarrow> state p = BLOCKED"

definition is_waiting_for :: "WaitReason \<Rightarrow> process \<Rightarrow> bool" where
  "is_waiting_for reason p \<longleftrightarrow> wait_reason p = reason"

definition is_waiting_for_child :: "int \<Rightarrow> process \<Rightarrow> bool" where
  "is_waiting_for_child child p \<longleftrightarrow> is_waiting_for W_CHILD_PROCESS p \<and> (wait_pid p = child \<or> wait_pid p = -1)"

definition is_waiting_for_mutex :: "paddr \<Rightarrow> process \<Rightarrow> bool" where
  "is_waiting_for_mutex m p \<longleftrightarrow> is_waiting_for W_MUTEX p \<and> wait_mutex p = Some m"

definition wake :: "process \<Rightarrow> process" where
  "wake p = p\<lparr>state := READY, wait_reason := W_NONE, wait_pid := -1, wait_mutex := None, wake_time_ns := 0\<rparr>"

definition pause :: "process \<Rightarrow> process" where
  "pause p = (if state p = RUNNING then p\<lparr>state := READY\<rparr> else p)"

definition resume :: "u64 \<Rightarrow> process \<Rightarrow> process" where
  "resume now p = p\<lparr>state := RUNNING, wait_reason := W_NONE, wait_pid := -1, wait_mutex := None,
     wake_time_ns := 0, quantum_start_ns := now\<rparr>"

definition kill :: "process \<Rightarrow> process" where
  "kill p = p\<lparr>state := DEAD\<rparr>"

definition zombify :: "process \<Rightarrow> process" where
  "zombify p = p\<lparr>state := ZOMBIE\<rparr>"

definition wait_for :: "WaitReason \<Rightarrow> process \<Rightarrow> process" where
  "wait_for reason p = p\<lparr>state := (if reason = W_SLEEP then SLEEPING else BLOCKED), wait_reason := reason\<rparr>"

definition wait_for_child :: "int \<Rightarrow> process \<Rightarrow> process" where
  "wait_for_child child p = (wait_for W_CHILD_PROCESS p)\<lparr>wait_pid := child\<rparr>"

definition wait_for_mutex :: "paddr \<Rightarrow> process \<Rightarrow> process" where
  "wait_for_mutex m p = (wait_for W_MUTEX p)\<lparr>wait_mutex := Some m\<rparr>"

definition sleep_for :: "u64 \<Rightarrow> u64 \<Rightarrow> process \<Rightarrow> process" where
  "sleep_for now duration_ns p = (wait_for W_SLEEP p)\<lparr>wake_time_ns := now + duration_ns\<rparr>"

section \<open>The state machine\<close>

lemma state_simps [simp]:
  "state (wake p) = READY"
  "state (resume now p) = RUNNING"
  "state (kill p) = DEAD"
  "state (zombify p) = ZOMBIE"
  "state (pause p) = (if state p = RUNNING then READY else state p)"
  "state (wait_for r p) = (if r = W_SLEEP then SLEEPING else BLOCKED)"
  "state (wait_for_child c p) = BLOCKED"
  "state (wait_for_mutex m p) = BLOCKED"
  "state (sleep_for now d p) = SLEEPING"
  by (simp_all add: wake_def resume_def kill_def zombify_def pause_def wait_for_def wait_for_child_def
      wait_for_mutex_def sleep_for_def)

lemma wake_time_simps [simp]:
  "wake_time_ns (wait_for r p) = wake_time_ns p"
  "wake_time_ns (sleep_for now d p) = now + d"
  "wake_time_ns (kill p) = wake_time_ns p"
  "wake_time_ns (zombify p) = wake_time_ns p"
  "wake_time_ns (pause p) = wake_time_ns p"
  by (simp_all add: wait_for_def sleep_for_def kill_def zombify_def pause_def)

lemma pid_simps [simp]:
  "pid (wake p) = pid p" "pid (resume now p) = pid p" "pid (kill p) = pid p" "pid (zombify p) = pid p"
  "pid (pause p) = pid p" "pid (wait_for r p) = pid p" "pid (wait_for_child c p) = pid p"
  "pid (wait_for_mutex m p) = pid p" "pid (sleep_for now d p) = pid p"
  by (simp_all add: wake_def resume_def kill_def zombify_def pause_def wait_for_def wait_for_child_def
      wait_for_mutex_def sleep_for_def)

section \<open>Properties\<close>


definition ex_frame :: SyscallFrame where
  "ex_frame = \<lparr>s_r15 = 0, s_r14 = 0, s_r13 = 0, s_r12 = 0, s_r11 = 0, s_r10 = 0, s_r9 = 0, s_r8 = 0, s_rbp = 0,
     s_rdi = 0, s_rsi = 0, s_rdx = 0, s_rcx = 0, s_rbx = 0, s_rax = 57, s_rsp = 0x7000\<rparr>"

definition ex_uheap :: Heap where
  "ex_uheap = \<lparr>pml4_idx = 1, pdpt_idx = 0, pd_idx = 0, pt_idx = 0\<rparr>"

definition ex_process :: process where
  "ex_process = \<lparr>pid = 1, parent = None, state = RUNNING, wait_reason = W_NONE, wait_pid = -1, exit_status = 0,
     context_switches = 0, wake_time_ns = 0, quantum_start_ns = 0, cwd_inode = Some 9, wait_mutex = None,
     pml4 = Some 0x1000, heap_break = 0x5000, uheap = ex_uheap, kernel_stack = 0x9000, kernel_rsp = 0x11000,
     kernel_rsp_saved = 0, user_rsp = 0x7000, context_frame = 0, syscall_frame = 0, fd_table = [Some 3],
     entry = 0x400000, fs_base = 0, tidptr = 0,
     ctx = \<lparr>c_r15 = 0, c_r14 = 0, c_r13 = 0, c_r12 = 0, c_rbx = 0, c_rbp = 0, c_rip = 0\<rparr>, sysf = ex_frame\<rparr>"


text \<open>
  \<^verbatim>\<open>get_state_str\<close> names every state but SLEEPING, on which it panics although the scheduler puts
  processes in that state.
\<close>

theorem get_state_str_panics:
  "get_state_str p = Inl (Panic ''unknown process state'') \<longleftrightarrow> state p = SLEEPING"
  by (cases "state p") (simp_all add: get_state_str_def)

end
