(* ===== verification/Scheduler.thy ===== *)
theory Scheduler
  imports Process Kheap Klist
begin

text \<open>
  The scheduler: the round robin policy (\<^verbatim>\<open>lib/scheduler/policy/round_robin.cpp\<close>) and the mechanism
  that drives it (\<^verbatim>\<open>lib/scheduler/mechanism/scheduler_mechanism.cpp\<close>), on one CPU.

  The state \<open>sched\<close> has the static variables of the mechanism, the policy's ready queue, the per-CPU
  data and the registers that a switch loads; \<open>procs\<close> maps the address of a process object to its
  contents, and following the address of a deleted object is a \<open>Fault\<close>. An operation of the model is
  the critical section between \<^verbatim>\<open>g_processes_lock.lock()\<close> and the context switch. The arguments
  \<open>t\<close>, \<open>t1\<close>, ... are the values the clock returns at the calls of \<^verbatim>\<open>clock::get_time_ns()\<close>, in order, and
  \<open>rsp\<close> is the stack pointer of the process that is switched out.

  The mechanism keeps the ready queue as the list of its elements; that list is refined by the
  \<^verbatim>\<open>klist\<close> of the source in \<open>rr_refines\<close>.
\<close>

record sched =
  procs :: "paddr \<rightharpoonup> process"
  g_processes :: "paddr list"
  g_sleepers :: "(u64, paddr) harray"
  rr_ready :: "paddr list"
  cpu_process :: paddr
  cpu_idle :: paddr
  cpu_preemption :: bool
  cpu_kernel_rsp :: u64
  cpu_pml4 :: "u64 option"
  cpu_fs_base :: u64
  tss_rsp0 :: u64
  cpu_rsp :: u64

section \<open>The round robin policy\<close>

definition TIME_SLICE_NS :: u64 where
  "TIME_SLICE_NS = 10 * 1000 * 1000"

definition should_preempt :: "u64 \<Rightarrow> bool" where
  "should_preempt runtime_ns \<longleftrightarrow> runtime_ns \<ge> TIME_SLICE_NS"

definition rr_enqueue :: "paddr \<Rightarrow> sched \<Rightarrow> sched" where
  "rr_enqueue p s = s\<lparr>rr_ready := rr_ready s @ [p]\<rparr>"

definition rr_pick_next :: "sched \<Rightarrow> paddr option \<times> sched" where
  "rr_pick_next s = (case rr_ready s of [] \<Rightarrow> (None, s) | p # ps \<Rightarrow> (Some p, s\<lparr>rr_ready := ps\<rparr>))"

text \<open>The two operations on the \<^verbatim>\<open>klist\<close> of the class; \<open>n\<close> is the address \<^verbatim>\<open>new\<close> returns.\<close>

definition RoundRobin_enqueue :: "addr \<Rightarrow> paddr \<Rightarrow> paddr lheap \<times> klist \<Rightarrow> (paddr lheap \<times> klist) kres" where
  "RoundRobin_enqueue n p q = klist_push_back n p (fst q) (snd q)"

definition RoundRobin_pick_next :: "paddr lheap \<times> klist \<Rightarrow> (paddr option \<times> paddr lheap \<times> klist) kres" where
  "RoundRobin_pick_next q = (if klist_empty (snd q) then Inr (None, q)
     else kbind (klist_front (fst q) (snd q)) (\<lambda>p. kbind (klist_pop_front (fst q) (snd q)) (\<lambda>q'. Inr (Some p, q'))))"

section \<open>Process objects\<close>

definition p_deref :: "sched \<Rightarrow> paddr \<Rightarrow> process kres" where
  "p_deref s p = (case procs s p of None \<Rightarrow> Inl (Fault ''deleted process'') | Some pr \<Rightarrow> Inr pr)"

definition p_update :: "paddr \<Rightarrow> (process \<Rightarrow> process) \<Rightarrow> sched \<Rightarrow> sched kres" where
  "p_update p f s = kbind (p_deref s p) (\<lambda>pr. Inr (s\<lparr>procs := (procs s)(p \<mapsto> f pr)\<rparr>))"

text \<open>
  \<^verbatim>\<open>delete p\<close> runs \<^verbatim>\<open>terminate\<close>, which closes every descriptor through its inode (a descriptor that
  \<^verbatim>\<open>sys_close\<close> has set to null is followed all the same) and returns the address space and the stack.
\<close>

definition terminate :: "process \<Rightarrow> unit kres" where
  "terminate pr = (if None \<in> set (fd_table pr) then Inl (Fault ''null file descriptor'') else Inr ())"

section \<open>Waking\<close>

primrec wake_loop :: "(process \<Rightarrow> bool) \<Rightarrow> paddr list \<Rightarrow> sched \<Rightarrow> sched kres" where
  "wake_loop P [] s = Inr s"
| "wake_loop P (p # ps) s = kbind (p_deref s p) (\<lambda>pr.
     if is_blocked pr \<and> P pr then kbind (p_update p wake s) (\<lambda>s1. wake_loop P ps (rr_enqueue p s1))
     else wake_loop P ps s)"

primrec wake_first_loop :: "(process \<Rightarrow> bool) \<Rightarrow> paddr list \<Rightarrow> sched \<Rightarrow> sched kres" where
  "wake_first_loop P [] s = Inr s"
| "wake_first_loop P (p # ps) s = kbind (p_deref s p) (\<lambda>pr.
     if is_blocked pr \<and> P pr then kbind (p_update p wake s) (\<lambda>s1. Inr (rr_enqueue p s1))
     else wake_first_loop P ps s)"

definition wake_single :: "WaitReason \<Rightarrow> sched \<Rightarrow> sched kres" where
  "wake_single reason s = (if reason = W_SLEEP then Inr s
     else wake_first_loop (is_waiting_for reason) (g_processes s) s)"

definition wake_all :: "WaitReason \<Rightarrow> sched \<Rightarrow> sched kres" where
  "wake_all reason s = (if reason = W_SLEEP then Inr s
     else wake_loop (is_waiting_for reason) (g_processes s) s)"

definition wake_parents :: "int \<Rightarrow> sched \<Rightarrow> sched kres" where
  "wake_parents child s = wake_loop (is_waiting_for_child child) (g_processes s) s"

definition wake_mutex :: "paddr \<Rightarrow> sched \<Rightarrow> sched kres" where
  "wake_mutex m s = wake_loop (is_waiting_for_mutex m) (g_processes s) s"

lemma kmin_pop_shorter: "kmin_pop a = Inr b \<Longrightarrow> length b < length a"
  by (cases a rule: rev_cases) (auto simp: kmin_pop_def heap_pop_def Let_def split: if_splits)

function wake_sleepers :: "u64 \<Rightarrow> sched \<Rightarrow> sched kres" where
  "wake_sleepers now_ns s =
    (if g_sleepers s = [] then Inr s
     else kbind (kmin_peak (g_sleepers s)) (\<lambda>p. kbind (p_deref s p) (\<lambda>pr.
       if now_ns < wake_time_ns pr then Inr s
       else kbind (p_update p wake s) (\<lambda>s1. kbind (kmin_pop (g_sleepers s)) (\<lambda>rest.
         wake_sleepers now_ns ((rr_enqueue p s1)\<lparr>g_sleepers := rest\<rparr>))))))"
  by pat_completeness auto
termination
  by (relation "measure (\<lambda>(t, s). length (g_sleepers s))") (auto dest: kmin_pop_shorter)

declare wake_sleepers.simps [simp del]

definition get_next_sleeper :: "sched \<Rightarrow> paddr option kres" where
  "get_next_sleeper s = (if g_sleepers s = [] then Inr None
     else kbind (kmin_peak (g_sleepers s)) (\<lambda>p. Inr (Some p)))"

section \<open>Switching\<close>

text \<open>\<open>search_children ppid child ps first_match\<close> is the loop of \<^verbatim>\<open>find_child\<close>.\<close>

primrec search_children :: "sched \<Rightarrow> int \<Rightarrow> int \<Rightarrow> paddr list \<Rightarrow> paddr option \<Rightarrow> paddr option kres" where
  "search_children s ppid child [] first_match = Inr first_match"
| "search_children s ppid child (p # ps) first_match = kbind (p_deref s p) (\<lambda>pr.
     if child \<noteq> -1 \<and> pid pr \<noteq> child then search_children s ppid child ps first_match
     else case parent pr of None \<Rightarrow> search_children s ppid child ps first_match
       | Some q \<Rightarrow> kbind (p_deref s q) (\<lambda>qr.
           if pid qr \<noteq> ppid then search_children s ppid child ps first_match
           else if is_zombie pr then Inr (Some p)
           else search_children s ppid child ps (if first_match = None then Some p else first_match)))"

definition find_child :: "paddr \<Rightarrow> int \<Rightarrow> sched \<Rightarrow> paddr option kres" where
  "find_child par child s = kbind (p_deref s par) (\<lambda>pr. search_children s (pid pr) child (g_processes s) None)"

definition activate_process :: "u64 \<Rightarrow> paddr \<Rightarrow> sched \<Rightarrow> sched kres" where
  "activate_process t p s =
    kbind (p_update p (\<lambda>pr. (resume t pr)\<lparr>context_switches := context_switches pr + 1\<rparr>) s) (\<lambda>s1.
    kbind (p_deref s1 p) (\<lambda>pr.
    kbind (kassert (pml4 pr \<noteq> None) ''pml4 is null'') (\<lambda>_.
      Inr (s1\<lparr>cpu_process := p, cpu_kernel_rsp := kernel_rsp pr, cpu_pml4 := pml4 pr,
               cpu_fs_base := fs_base pr, tss_rsp0 := kernel_rsp pr\<rparr>))))"

definition enqueue_if_runnable :: "paddr \<Rightarrow> sched \<Rightarrow> sched kres" where
  "enqueue_if_runnable p s = (if p = cpu_idle s then Inr s
     else kbind (p_deref s p) (\<lambda>pr. if \<not> is_ready pr then Inr s else Inr (rr_enqueue p s)))"

definition context_switch :: "paddr \<Rightarrow> u64 \<Rightarrow> paddr \<Rightarrow> sched \<Rightarrow> sched kres" where
  "context_switch old rsp new s =
    kbind (p_deref s new) (\<lambda>pr. kbind (p_update old (\<lambda>pr. pr\<lparr>kernel_rsp_saved := rsp\<rparr>) s) (\<lambda>s1.
      Inr (s1\<lparr>cpu_rsp := kernel_rsp_saved pr\<rparr>)))"

definition permanent_context_switch :: "paddr \<Rightarrow> sched \<Rightarrow> sched kres" where
  "permanent_context_switch new s = kbind (p_deref s new) (\<lambda>pr. Inr (s\<lparr>cpu_rsp := kernel_rsp_saved pr\<rparr>))"

definition pick_next_process :: "u64 \<Rightarrow> sched \<Rightarrow> (paddr \<times> sched) kres" where
  "pick_next_process t s = kbind (wake_sleepers t s) (\<lambda>s1.
     case rr_pick_next s1 of (None, s2) \<Rightarrow> Inr (cpu_idle s2, s2) | (Some p, s2) \<Rightarrow> Inr (p, s2))"

definition preempt :: "u64 \<Rightarrow> u64 \<Rightarrow> u64 \<Rightarrow> u64 \<Rightarrow> sched \<Rightarrow> sched kres" where
  "preempt t1 t2 t3 rsp s =
    (if \<not> cpu_preemption s then Inr s
     else let current = cpu_process s; idle = cpu_idle s
       in kbind (if current \<noteq> idle
                 then kbind (p_deref s current) (\<lambda>c. Inr (should_preempt (t1 - quantum_start_ns c)))
                 else Inr True) (\<lambda>go.
          if \<not> go then Inr s
          else kbind (pick_next_process t2 s) (\<lambda>(next, s1).
            if current = next then Inr s1
            else kbind (p_update current pause s1) (\<lambda>s2.
                 kbind (enqueue_if_runnable current s2) (\<lambda>s3.
                 kbind (activate_process t3 next s3) (context_switch current rsp next))))))"

definition yield_dead :: "u64 \<Rightarrow> u64 \<Rightarrow> sched \<Rightarrow> sched kres" where
  "yield_dead t1 t2 s = (let current = cpu_process s
     in kbind (p_update current kill s) (\<lambda>s1.
        kbind (pick_next_process t1 s1) (\<lambda>(p, s2).
        kbind (kassert (current \<noteq> p) ''current != p'') (\<lambda>_.
        kbind (activate_process t2 p s2) (permanent_context_switch p)))))"

definition yield_zombie :: "u64 \<Rightarrow> u64 \<Rightarrow> sched \<Rightarrow> sched kres" where
  "yield_zombie t1 t2 s = (let current = cpu_process s
     in kbind (p_update current zombify s) (\<lambda>s1.
        kbind (p_deref s1 current) (\<lambda>c.
        kbind (wake_parents (pid c) s1) (\<lambda>s2.
        kbind (pick_next_process t1 s2) (\<lambda>(p, s3).
        kbind (kassert (current \<noteq> p) ''current != p'') (\<lambda>_.
        kbind (activate_process t2 p s3) (permanent_context_switch p)))))))"

text \<open>
  One round of the loop of \<^verbatim>\<open>yield_to_child\<close>: it returns a status to the caller, or switches away
  (\<open>None\<close>), and then the next round starts when the parent runs again. \<open>ECHILD\<close> is 10.
\<close>

definition yield_to_child_round :: "u64 \<Rightarrow> u64 \<Rightarrow> u64 \<Rightarrow> int \<Rightarrow> sched \<Rightarrow> (int option \<times> sched) kres" where
  "yield_to_child_round t1 t2 rsp child_pid s = (let par = cpu_process s
     in kbind (find_child par child_pid s) (\<lambda>child. case child of
          None \<Rightarrow> Inr (Some (-10), s)
        | Some c \<Rightarrow> kbind (p_deref s c) (\<lambda>cr.
            if is_zombie cr
            then kbind (p_update c kill s) (\<lambda>s1. kbind (p_update par (resume t1) s1) (\<lambda>s2.
                   Inr (Some (exit_status cr), s2)))
            else kbind (p_update par (wait_for_child child_pid) s) (\<lambda>s1.
                 kbind (pick_next_process t1 s1) (\<lambda>(p, s2).
                 kbind (activate_process t2 p s2) (\<lambda>s3.
                 kbind (context_switch par rsp p s3) (\<lambda>s4. Inr (None, s4))))))))"

definition yield_blocked :: "u64 \<Rightarrow> u64 \<Rightarrow> u64 \<Rightarrow> WaitReason \<Rightarrow> sched \<Rightarrow> sched kres" where
  "yield_blocked t1 t2 rsp reason s = (let current = cpu_process s
     in kbind (p_update current (wait_for reason) s) (\<lambda>s1.
        kbind (p_deref s1 current) (\<lambda>c.
        let s2 = (if reason = W_SLEEP then s1\<lparr>g_sleepers := kmin_insert (wake_time_ns c) current (g_sleepers s1)\<rparr> else s1)
        in kbind (pick_next_process t1 s2) (\<lambda>(next, s3).
           if current = next then p_update current (resume t2) s3
           else kbind (activate_process t2 next s3) (context_switch current rsp next)))))"

definition yield_sleep_ns :: "u64 \<Rightarrow> u64 \<Rightarrow> u64 \<Rightarrow> u64 \<Rightarrow> u64 \<Rightarrow> sched \<Rightarrow> sched kres" where
  "yield_sleep_ns t0 t1 t2 rsp duration_ns s =
    kbind (p_update (cpu_process s) (sleep_for t0 duration_ns) s) (yield_blocked t1 t2 rsp W_SLEEP)"

definition yield_sleep_us :: "u64 \<Rightarrow> u64 \<Rightarrow> u64 \<Rightarrow> u64 \<Rightarrow> u64 \<Rightarrow> sched \<Rightarrow> sched kres" where
  "yield_sleep_us t0 t1 t2 rsp duration_us s = yield_sleep_ns t0 t1 t2 rsp (duration_us * 1000) s"

definition yield_sleep_ms :: "u64 \<Rightarrow> u64 \<Rightarrow> u64 \<Rightarrow> u64 \<Rightarrow> u64 \<Rightarrow> sched \<Rightarrow> sched kres" where
  "yield_sleep_ms t0 t1 t2 rsp duration_ms s = yield_sleep_us t0 t1 t2 rsp (duration_ms * 1000) s"

definition yield_sleep_hz :: "u64 \<Rightarrow> u64 \<Rightarrow> u64 \<Rightarrow> u64 \<Rightarrow> u64 \<Rightarrow> sched \<Rightarrow> sched kres" where
  "yield_sleep_hz t0 t1 t2 rsp hz s = kbind (kassert (hz > 0) ''hz > 0'') (\<lambda>_.
     yield_sleep_ns t0 t1 t2 rsp (1000000000 div hz) s)"

definition yield_mutex :: "u64 \<Rightarrow> u64 \<Rightarrow> u64 \<Rightarrow> paddr \<Rightarrow> sched \<Rightarrow> sched kres" where
  "yield_mutex t1 t2 rsp m s =
    kbind (p_update (cpu_process s) (wait_for_mutex m) s) (yield_blocked t1 t2 rsp W_MUTEX)"

definition yield_new_process :: "u64 \<Rightarrow> u64 \<Rightarrow> sched \<Rightarrow> sched kres" where
  "yield_new_process t1 t2 s = (let current = cpu_process s
     in kbind (pick_next_process t1 s) (\<lambda>(next, s1).
        kbind (kassert (current \<noteq> next) ''current != next'') (\<lambda>_.
        kbind (p_update current wake s1) (\<lambda>s2.
        kbind (enqueue_if_runnable current s2) (\<lambda>s3.
        kbind (activate_process t2 next s3) (permanent_context_switch next))))))"

definition add_process :: "paddr \<Rightarrow> sched \<Rightarrow> sched" where
  "add_process p s = rr_enqueue p (s\<lparr>g_processes := g_processes s @ [p]\<rparr>)"

definition tick :: "u64 \<Rightarrow> u64 \<Rightarrow> u64 \<Rightarrow> u64 \<Rightarrow> u64 \<Rightarrow> sched \<Rightarrow> sched kres" where
  "tick t0 t1 t2 t3 rsp s = kbind (wake_sleepers t0 s) (preempt t1 t2 t3 rsp)"

section \<open>Reaping\<close>

function reap_loop :: "nat \<Rightarrow> sched \<Rightarrow> sched kres" where
  "reap_loop i s =
    (if i < length (g_processes s)
     then let p = g_processes s ! i
       in kbind (p_deref s p) (\<lambda>pr.
          if \<not> is_dead pr then reap_loop (i + 1) s
          else kbind (kassert (p \<noteq> cpu_process s) ''reaper_kthread tried to kill itself'') (\<lambda>_.
               kbind (terminate pr) (\<lambda>_.
                 reap_loop i (s\<lparr>procs := (procs s)(p := None),
                                g_processes := take i (g_processes s) @ drop (Suc i) (g_processes s)\<rparr>))))
     else Inr s)"
  by pat_completeness auto
termination
  by (relation "measure (\<lambda>(i, s). length (g_processes s) - i)") auto

declare reap_loop.simps [simp del]

definition reap :: "sched \<Rightarrow> sched kres" where
  "reap s = reap_loop 0 s"

end
