(* ===== verification/Scheduler_Inv.thy ===== *)
theory Scheduler_Inv
  imports Scheduler
begin

text \<open>
  The invariant of the scheduler, \<open>sched_ok\<close>: the ready queue and the heap of sleepers hold exactly the
  processes that are ready and asleep, and the one process that runs is the current one. Every
  operation of the mechanism is shown to return from a state in which the invariant holds, without
  a panic or an access to a deleted process, and to keep it.
\<close>

section \<open>The invariant\<close>

definition pr_of :: "sched \<Rightarrow> paddr \<Rightarrow> process" where
  "pr_of s p = the (procs s p)"

definition pset :: "paddr \<Rightarrow> process \<Rightarrow> sched \<Rightarrow> sched" where
  "pset p x s = s\<lparr>procs := (procs s)(p \<mapsto> x)\<rparr>"

text \<open>Every process the mechanism knows of exists and has page tables; idle is not in the list.\<close>

definition tables_ok :: "sched \<Rightarrow> bool" where
  "tables_ok s \<longleftrightarrow> distinct (g_processes s) \<and> cpu_idle s \<notin> set (g_processes s) \<and>
     (\<forall>p \<in> insert (cpu_idle s) (set (g_processes s)). p \<in> dom (procs s) \<and> pml4 (pr_of s p) \<noteq> None)"

text \<open>
  Outside the set \<open>X\<close> of processes in transit, the ready queue holds each process that is ready
  exactly once and no other, and the heap of sleepers holds each sleeping process exactly once,
  under its waking time, and no other.
\<close>

definition queues_ok :: "paddr set \<Rightarrow> sched \<Rightarrow> bool" where
  "queues_ok X s \<longleftrightarrow> distinct (rr_ready s) \<and>
     set (rr_ready s) = {p \<in> set (g_processes s). p \<notin> X \<and> is_ready (pr_of s p)} \<and>
     is_heap (\<le>) (g_sleepers s) \<and> distinct (map val (g_sleepers s)) \<and>
     val ` set (g_sleepers s) = {p \<in> set (g_processes s). p \<notin> X \<and> state (pr_of s p) = SLEEPING} \<and>
     (\<forall>n \<in> set (g_sleepers s). wake_time_ns (pr_of s (val n)) = key n)"

definition sched_ok :: "sched \<Rightarrow> bool" where
  "sched_ok s \<longleftrightarrow> tables_ok s \<and> queues_ok {} s \<and> cpu_process s \<in> insert (cpu_idle s) (set (g_processes s)) \<and>
     (\<forall>p \<in> set (g_processes s). state (pr_of s p) = RUNNING \<longleftrightarrow> p = cpu_process s)"

lemma pset_simps [simp]:
  "g_processes (pset p x s) = g_processes s" "g_sleepers (pset p x s) = g_sleepers s"
  "rr_ready (pset p x s) = rr_ready s" "cpu_process (pset p x s) = cpu_process s"
  "cpu_idle (pset p x s) = cpu_idle s" "cpu_preemption (pset p x s) = cpu_preemption s"
  "procs (pset p x s) = (procs s)(p \<mapsto> x)" "pr_of (pset p x s) q = (if q = p then x else pr_of s q)"
  by (simp_all add: pset_def pr_of_def)

lemma enqueue_simps [simp]:
  "g_processes (rr_enqueue p s) = g_processes s" "g_sleepers (rr_enqueue p s) = g_sleepers s"
  "rr_ready (rr_enqueue p s) = rr_ready s @ [p]" "cpu_process (rr_enqueue p s) = cpu_process s"
  "cpu_idle (rr_enqueue p s) = cpu_idle s" "cpu_preemption (rr_enqueue p s) = cpu_preemption s"
  "procs (rr_enqueue p s) = procs s" "pr_of (rr_enqueue p s) = pr_of s"
  by (simp_all add: rr_enqueue_def pr_of_def fun_eq_iff)

lemma pr_of_upd [simp]:
  "pr_of (s\<lparr>rr_ready := a\<rparr>) = pr_of s" "pr_of (s\<lparr>g_sleepers := b\<rparr>) = pr_of s"
  "pr_of (s\<lparr>cpu_process := c\<rparr>) = pr_of s" "pr_of (s\<lparr>cpu_rsp := r\<rparr>) = pr_of s"
  "pr_of (s\<lparr>g_processes := g\<rparr>) = pr_of s"
  "pr_of (s\<lparr>cpu_process := c, cpu_kernel_rsp := k, cpu_pml4 := m, cpu_fs_base := f, tss_rsp0 := t\<rparr>) = pr_of s"
  by (simp_all add: pr_of_def fun_eq_iff)

lemma known_deref:
  assumes "tables_ok s" "p \<in> insert (cpu_idle s) (set (g_processes s))"
  shows "p_deref s p = Inr (pr_of s p)" and "p_update p f s = Inr (pset p (f (pr_of s p)) s)"
    and "pml4 (pr_of s p) \<noteq> None"
  using assms by (auto simp: tables_ok_def p_deref_def p_update_def pr_of_def pset_def)

lemma tables_ok_pset [simp]: "tables_ok s \<Longrightarrow> pml4 x \<noteq> None \<Longrightarrow> tables_ok (pset p x s)"
  by (auto simp: tables_ok_def)

lemma tables_ok_cong:
  "g_processes s' = g_processes s \<Longrightarrow> cpu_idle s' = cpu_idle s \<Longrightarrow> procs s' = procs s \<Longrightarrow> tables_ok s' \<longleftrightarrow> tables_ok s"
  by (simp add: tables_ok_def pr_of_def)

lemma tables_ok_upd [simp]:
  "tables_ok (rr_enqueue p s) \<longleftrightarrow> tables_ok s" "tables_ok (s\<lparr>rr_ready := a\<rparr>) \<longleftrightarrow> tables_ok s"
  "tables_ok (s\<lparr>g_sleepers := b\<rparr>) \<longleftrightarrow> tables_ok s" "tables_ok (s\<lparr>cpu_rsp := r\<rparr>) \<longleftrightarrow> tables_ok s"
  "tables_ok (s\<lparr>cpu_process := c, cpu_kernel_rsp := k, cpu_pml4 := m, cpu_fs_base := f, tss_rsp0 := t\<rparr>) \<longleftrightarrow> tables_ok s"
  by (rule tables_ok_cong; simp)+

lemma queues_ok_cong:
  "g_processes s' = g_processes s \<Longrightarrow> rr_ready s' = rr_ready s \<Longrightarrow> g_sleepers s' = g_sleepers s \<Longrightarrow>
   procs s' = procs s \<Longrightarrow> queues_ok X s' \<longleftrightarrow> queues_ok X s"
  by (simp add: queues_ok_def pr_of_def)

lemma queues_ok_upd [simp]:
  "queues_ok X (s\<lparr>cpu_rsp := r\<rparr>) \<longleftrightarrow> queues_ok X s"
  "queues_ok X (s\<lparr>cpu_process := c, cpu_kernel_rsp := k, cpu_pml4 := m, cpu_fs_base := f, tss_rsp0 := t\<rparr>) \<longleftrightarrow> queues_ok X s"
  by (rule queues_ok_cong; simp)+

text \<open>A process that no queue holds: in transit, or neither ready nor asleep.\<close>

definition unqueued :: "paddr set \<Rightarrow> sched \<Rightarrow> paddr \<Rightarrow> bool" where
  "unqueued X s p \<longleftrightarrow> p \<in> X \<or> \<not> is_ready (pr_of s p) \<and> state (pr_of s p) \<noteq> SLEEPING"

lemma unqueued_notin:
  "queues_ok X s \<Longrightarrow> unqueued X s p \<Longrightarrow> p \<notin> set (rr_ready s) \<and> p \<notin> val ` set (g_sleepers s)"
  by (auto simp: queues_ok_def unqueued_def)

lemma queues_enqueue:
  assumes "queues_ok X s" "p \<in> set (g_processes s)" "unqueued X s p" "is_ready x"
  shows "queues_ok (X - {p}) (rr_enqueue p (pset p x s))"
proof -
  note n = unqueued_notin [OF assms(1,3)]
  have "state x \<noteq> SLEEPING" using assms(4) by (auto simp: is_ready_def)
  with n assms show ?thesis by (auto simp: queues_ok_def)
qed

lemma queues_leave:
  assumes "queues_ok X s" "unqueued X s p" "\<not> is_ready x" "state x \<noteq> SLEEPING"
  shows "queues_ok (X - {p}) (pset p x s)"
  using unqueued_notin [OF assms(1,2)] assms by (auto simp: queues_ok_def)

lemma queues_transit:
  assumes "queues_ok X s" "unqueued X s p"
  shows "queues_ok (insert p X) (pset p x s)"
  using unqueued_notin [OF assms] assms by (auto simp: queues_ok_def unqueued_def)

lemma queues_unknown: "queues_ok X s \<Longrightarrow> p \<notin> set (g_processes s) \<Longrightarrow> queues_ok X (pset p x s)"
  by (auto simp: queues_ok_def)

lemma queues_pick:
  assumes "queues_ok {} s" "rr_ready s = p # ps"
  shows "queues_ok {p} (s\<lparr>rr_ready := ps\<rparr>)" and "p \<in> set (g_processes s)" and "is_ready (pr_of s p)"
proof -
  have "p \<in> set (rr_ready s)" using assms(2) by simp
  then show p: "p \<in> set (g_processes s)" "is_ready (pr_of s p)" using assms(1) by (auto simp: queues_ok_def)
  then have "state (pr_of s p) \<noteq> SLEEPING" by (auto simp: is_ready_def)
  moreover have "set ps = set (rr_ready s) - {p}" using assms by (auto simp: queues_ok_def)
  ultimately show "queues_ok {p} (s\<lparr>rr_ready := ps\<rparr>)" using assms by (auto simp: queues_ok_def)
qed

lemma queues_sleep:
  assumes "queues_ok X s" "p \<in> set (g_processes s)" "p \<in> X" "state (pr_of s p) = SLEEPING"
  shows "queues_ok (X - {p}) (s\<lparr>g_sleepers := kmin_insert (wake_time_ns (pr_of s p)) p (g_sleepers s)\<rparr>)"
proof -
  let ?h = "kmin_insert (wake_time_ns (pr_of s p)) p (g_sleepers s)"
  have m: "mset ?h = mset (g_sleepers s) + {#\<lparr>key = wake_time_ns (pr_of s p), val = p\<rparr>#}" by (rule kmin.mset_ins)
  then have st: "set ?h = insert \<lparr>key = wake_time_ns (pr_of s p), val = p\<rparr> (set (g_sleepers s))"
    by (metis add_mset_add_single set_mset_add_mset_insert set_mset_mset)
  have ms: "mset (map val ?h) = mset (p # map val (g_sleepers s))" using m by simp
  have "p \<notin> val ` set (g_sleepers s)" "distinct (map val (g_sleepers s))"
    using assms(1,3) by (simp_all add: queues_ok_def)
  then have "distinct (map val ?h)" using mset_eq_imp_distinct_iff [OF ms] by simp
  moreover have "is_heap (\<le>) ?h" using assms(1) by (simp add: queues_ok_def kmin.invar_ins)
  moreover have "\<not> is_ready (pr_of s p)" using assms(4) by (simp add: is_ready_def)
  ultimately show ?thesis using assms st by (auto simp: queues_ok_def)
qed

text \<open>
  \<open>wakes A s s'\<close>: \<open>s'\<close> is \<open>s\<close> with the processes \<open>A\<close> woken, and nothing else of the process table or
  of the CPU changed.
\<close>

definition wakes :: "paddr set \<Rightarrow> sched \<Rightarrow> sched \<Rightarrow> bool" where
  "wakes A s s' \<longleftrightarrow> g_processes s' = g_processes s \<and> cpu_process s' = cpu_process s \<and> cpu_idle s' = cpu_idle s \<and>
     cpu_preemption s' = cpu_preemption s \<and> (\<forall>q. pr_of s' q = (if q \<in> A then wake (pr_of s q) else pr_of s q))"

lemma wakes_refl [simp]: "wakes {} s s"
  by (simp add: wakes_def)

lemma wakes_trans: "wakes A s t \<Longrightarrow> wakes B t u \<Longrightarrow> A \<inter> B = {} \<Longrightarrow> wakes (A \<union> B) s u"
  by (auto simp: wakes_def)

lemma pml4_wake [simp]: "pml4 (wake x) = pml4 x"
  by (simp add: wake_def)

lemma is_ready_wake [simp]: "is_ready (wake x)"
  by (simp add: is_ready_def)

lemma wake_step:
  assumes "tables_ok s" "queues_ok {} s" "p \<in> set (g_processes s)" "unqueued {} s p"
  shows "p_update p wake s = Inr (pset p (wake (pr_of s p)) s)"
    and "tables_ok (rr_enqueue p (pset p (wake (pr_of s p)) s))"
    and "queues_ok {} (rr_enqueue p (pset p (wake (pr_of s p)) s))"
    and "wakes {p} s (rr_enqueue p (pset p (wake (pr_of s p)) s))"
  using known_deref [OF assms(1), of p] assms queues_enqueue [OF assms(2,3,4) is_ready_wake]
  by (simp_all add: wakes_def)

lemma wake_loop_ok:
  "tables_ok s \<Longrightarrow> queues_ok {} s \<Longrightarrow> distinct ps \<Longrightarrow> set ps \<subseteq> set (g_processes s) \<Longrightarrow>
   \<exists>s'. wake_loop P ps s = Inr s' \<and> tables_ok s' \<and> queues_ok {} s' \<and>
     wakes {p \<in> set ps. is_blocked (pr_of s p) \<and> P (pr_of s p)} s s' \<and> g_sleepers s' = g_sleepers s \<and>
     rr_ready s' = rr_ready s @ filter (\<lambda>p. is_blocked (pr_of s p) \<and> P (pr_of s p)) ps"
proof (induction ps arbitrary: s)
  case (Cons p ps)
  have d: "p_deref s p = Inr (pr_of s p)" using known_deref(1) Cons.prems by simp
  show ?case
  proof (cases "is_blocked (pr_of s p) \<and> P (pr_of s p)")
    case True
    let ?s = "rr_enqueue p (pset p (wake (pr_of s p)) s)"
    have "unqueued {} s p" using True by (simp add: unqueued_def is_blocked_def is_ready_def)
    note w = wake_step [OF Cons.prems(1,2) _ this]
    have "\<exists>s'. wake_loop P ps ?s = Inr s' \<and> tables_ok s' \<and> queues_ok {} s' \<and>
       wakes {p \<in> set ps. is_blocked (pr_of ?s p) \<and> P (pr_of ?s p)} ?s s' \<and> g_sleepers s' = g_sleepers ?s \<and>
       rr_ready s' = rr_ready ?s @ filter (\<lambda>p. is_blocked (pr_of ?s p) \<and> P (pr_of ?s p)) ps"
      by (rule Cons.IH) (use Cons.prems w in auto)
    moreover have "{q \<in> set ps. is_blocked (pr_of ?s q) \<and> P (pr_of ?s q)} = {q \<in> set ps. is_blocked (pr_of s q) \<and> P (pr_of s q)}"
      "filter (\<lambda>q. is_blocked (pr_of ?s q) \<and> P (pr_of ?s q)) ps = filter (\<lambda>q. is_blocked (pr_of s q) \<and> P (pr_of s q)) ps"
      using Cons.prems(3) by (auto intro!: filter_cong)
    ultimately obtain s' where s': "wake_loop P ps ?s = Inr s'" "tables_ok s'" "queues_ok {} s'"
       "wakes {q \<in> set ps. is_blocked (pr_of s q) \<and> P (pr_of s q)} ?s s'" "g_sleepers s' = g_sleepers s"
       "rr_ready s' = rr_ready s @ [p] @ filter (\<lambda>q. is_blocked (pr_of s q) \<and> P (pr_of s q)) ps"
      by auto
    have "{q \<in> set (p # ps). is_blocked (pr_of s q) \<and> P (pr_of s q)} = {p} \<union> {q \<in> set ps. is_blocked (pr_of s q) \<and> P (pr_of s q)}"
      using True by auto
    moreover have "wakes ({p} \<union> {q \<in> set ps. is_blocked (pr_of s q) \<and> P (pr_of s q)}) s s'"
      by (rule wakes_trans [OF w(4) s'(4)]) (use Cons.prems in auto)
    ultimately show ?thesis using s' d w(1) True Cons.prems by simp
  next
    case False
    then have "{q \<in> set (p # ps). is_blocked (pr_of s q) \<and> P (pr_of s q)} = {q \<in> set ps. is_blocked (pr_of s q) \<and> P (pr_of s q)}"
      "wake_loop P (p # ps) s = wake_loop P ps s"
      "filter (\<lambda>q. is_blocked (pr_of s q) \<and> P (pr_of s q)) (p # ps) = filter (\<lambda>q. is_blocked (pr_of s q) \<and> P (pr_of s q)) ps"
      using d by auto
    with Cons.IH [OF Cons.prems(1,2)] Cons.prems(3,4) show ?thesis by simp
  qed
qed simp

lemma wake_first_loop_ok:
  "tables_ok s \<Longrightarrow> queues_ok {} s \<Longrightarrow> set ps \<subseteq> set (g_processes s) \<Longrightarrow>
   wake_first_loop P ps s = (case find (\<lambda>p. is_blocked (pr_of s p) \<and> P (pr_of s p)) ps of
     None \<Rightarrow> Inr s | Some p \<Rightarrow> Inr (rr_enqueue p (pset p (wake (pr_of s p)) s)))"
proof (induction ps)
  case (Cons p ps)
  have "p_deref s p = Inr (pr_of s p)" "p_update p wake s = Inr (pset p (wake (pr_of s p)) s)"
    using known_deref(1,2) Cons.prems by simp_all
  with Cons show ?case by simp
qed simp

lemma queues_wake_sleeper:
  assumes "tables_ok s" "queues_ok {} s" "kmin_pop (g_sleepers s) = Inr rest" "is_heap (\<le>) rest"
    "mset (g_sleepers s) = add_mset n (mset rest)"
  defines "s' \<equiv> (rr_enqueue (val n) (pset (val n) (wake (pr_of s (val n))) s))\<lparr>g_sleepers := rest\<rparr>"
  shows "tables_ok s'" "queues_ok {} s'" "wakes {val n} s s'" "val n \<in> set (g_processes s)"
    "val ` set rest = val ` set (g_sleepers s) - {val n}"
proof -
  have st: "set (g_sleepers s) = insert n (set rest)" using assms(5) by (metis set_mset_add_mset_insert set_mset_mset)
  have ms: "mset (map val (g_sleepers s)) = mset (val n # map val rest)" using assms(5) by simp
  have "distinct (map val (g_sleepers s))" using assms(2) by (simp add: queues_ok_def)
  then have "distinct (val n # map val rest)" using mset_eq_imp_distinct_iff [OF ms] by blast
  then have d: "val n \<notin> val ` set rest" "distinct (map val rest)" by simp_all
  then show v: "val ` set rest = val ` set (g_sleepers s) - {val n}" using st by auto
  have "val n \<in> val ` set (g_sleepers s)" using st by simp
  then have sl: "val n \<in> set (g_processes s) \<and> state (pr_of s (val n)) = SLEEPING"
    using assms(2) by (simp add: queues_ok_def)
  then show g: "val n \<in> set (g_processes s)" by simp
  from sl have nr: "val n \<notin> set (rr_ready s)" using assms(2) by (simp add: queues_ok_def is_ready_def)
  show "tables_ok s'" using known_deref(3) [OF assms(1)] assms(1) g by (simp add: s'_def)
  show "wakes {val n} s s'" by (simp add: wakes_def s'_def)
  have ne: "val m \<noteq> val n" if "m \<in> set rest" for m using d(1) that by (metis imageI)
  have keys: "\<forall>m \<in> set rest. wake_time_ns (pr_of s' (val m)) = key m"
    using assms(2) st ne by (simp add: queues_ok_def s'_def)
  have vals: "val ` set rest = {p \<in> set (g_processes s). state (pr_of s' p) = SLEEPING}"
    using assms(2) v by (auto simp: queues_ok_def s'_def)
  have ready: "set (rr_ready s) \<union> {val n} = {p \<in> set (g_processes s). is_ready (pr_of s' p)}"
    using assms(2) g by (auto simp: queues_ok_def s'_def)
  show "queues_ok {} s'" unfolding queues_ok_def
    using keys vals ready assms(2,4) d(2) nr by (simp add: s'_def queues_ok_def)
qed

lemma wake_sleepers_ok:
  "tables_ok s \<Longrightarrow> queues_ok {} s \<Longrightarrow>
   \<exists>s' ws. wake_sleepers t s = Inr s' \<and> tables_ok s' \<and> queues_ok {} s' \<and> wakes (set ws) s s' \<and>
     rr_ready s' = rr_ready s @ ws \<and>
     set ws = {p \<in> val ` set (g_sleepers s). wake_time_ns (pr_of s p) \<le> t} \<and>
     val ` set (g_sleepers s') = {p \<in> val ` set (g_sleepers s). t < wake_time_ns (pr_of s p)} \<and>
     sorted (map (\<lambda>p. wake_time_ns (pr_of s p)) ws)"
proof (induction "length (g_sleepers s)" arbitrary: s rule: less_induct)
  case less
  show ?case
  proof (cases "g_sleepers s = []")
    case True
    then show ?thesis using less.prems by (intro exI [of _ s] exI [of _ "[]"]) (simp add: wake_sleepers.simps)
  next
    case ne: False
    have heap: "is_heap (\<le>) (g_sleepers s)" using less.prems(2) by (simp add: queues_ok_def)
    obtain n rest where n: "kmin_peak (g_sleepers s) = Inr (val n)" "kmin_pop (g_sleepers s) = Inr rest"
        "is_heap (\<le>) rest" "mset (g_sleepers s) = add_mset n (mset rest)" "\<forall>x \<in> set (g_sleepers s). key n \<le> key x"
      using kmin.pop_spec [OF heap ne] by blast
    note w = queues_wake_sleeper [OF less.prems n(2-4)]
    have keys: "\<forall>x \<in> set (g_sleepers s). wake_time_ns (pr_of s (val x)) = key x"
      using less.prems(2) by (simp add: queues_ok_def)
    have nin: "n \<in> set (g_sleepers s)" using n(4) by (metis set_mset_mset union_single_eq_member)
    have least: "\<forall>p \<in> val ` set (g_sleepers s). key n \<le> wake_time_ns (pr_of s p)"
      using keys n(5) by simp
    have d: "p_deref s (val n) = Inr (pr_of s (val n))" "p_update (val n) wake s = Inr (pset (val n) (wake (pr_of s (val n))) s)"
      using known_deref(1,2) [OF less.prems(1)] w(4) by simp_all
    show ?thesis
    proof (cases "t < key n")
      case True
      then have "wake_sleepers t s = Inr s"
        using ne n(1) d(1) keys nin by (subst wake_sleepers.simps) simp
      moreover have "{p \<in> val ` set (g_sleepers s). wake_time_ns (pr_of s p) \<le> t} = {}"
        "{p \<in> val ` set (g_sleepers s). t < wake_time_ns (pr_of s p)} = val ` set (g_sleepers s)"
        using least True by force+
      ultimately show ?thesis using less.prems by (intro exI [of _ s] exI [of _ "[]"]) simp
    next
      case False
      let ?s = "(rr_enqueue (val n) (pset (val n) (wake (pr_of s (val n))) s))\<lparr>g_sleepers := rest\<rparr>"
      have step: "wake_sleepers t s = wake_sleepers t ?s"
        using ne n(1,2) d keys nin False by (subst wake_sleepers.simps) simp
      have "length rest < length (g_sleepers s)" using kmin_pop_shorter [OF n(2)] .
      then obtain s' ws where s': "wake_sleepers t ?s = Inr s'" "tables_ok s'" "queues_ok {} s'" "wakes (set ws) ?s s'"
          "rr_ready s' = rr_ready s @ val n # ws" "set ws = {p \<in> val ` set rest. wake_time_ns (pr_of ?s p) \<le> t}"
          "val ` set (g_sleepers s') = {p \<in> val ` set rest. t < wake_time_ns (pr_of ?s p)}"
          "sorted (map (\<lambda>p. wake_time_ns (pr_of ?s p)) ws)"
        using less.hyps [of ?s, OF _ w(1,2)] by auto
      have eq: "\<forall>p \<in> val ` set rest. pr_of ?s p = pr_of s p" using w(5) by auto
      have sub: "set ws \<subseteq> val ` set rest" using s'(6) by auto
      have "wakes ({val n} \<union> set ws) s s'" by (rule wakes_trans [OF w(3) s'(4)]) (use sub w(5) in auto)
      moreover have "set (val n # ws) = {p \<in> val ` set (g_sleepers s). wake_time_ns (pr_of s p) \<le> t}"
        using s'(6) eq w(5) nin keys False by auto
      moreover have "val ` set (g_sleepers s') = {p \<in> val ` set (g_sleepers s). t < wake_time_ns (pr_of s p)}"
        using s'(7) eq w(5) nin keys False by auto
      moreover have "val n \<notin> set ws" using sub w(5) by auto
      then have "map (\<lambda>p. wake_time_ns (pr_of ?s p)) ws = map (\<lambda>p. wake_time_ns (pr_of s p)) ws"
        by (intro map_cong) auto
      with s'(8) have "sorted (map (\<lambda>p. wake_time_ns (pr_of s p)) ws)" by (simp only:)
      then have "sorted (map (\<lambda>p. wake_time_ns (pr_of s p)) (val n # ws))"
        using least sub w(5) keys nin by auto
      ultimately show ?thesis using step s'(1-3,5) by (intro exI [of _ s'] exI [of _ "val n # ws"]) simp
    qed
  qed
qed

lemma queues_drop: "p \<notin> set (g_processes s) \<Longrightarrow> queues_ok {p} s \<longleftrightarrow> queues_ok {} s"
  by (auto simp: queues_ok_def)

lemma pick_next_ok:
  assumes "tables_ok s" "queues_ok {} s"
  shows "\<exists>next s' ws. pick_next_process t s = Inr (next, s') \<and> tables_ok s' \<and> queues_ok {next} s' \<and> wakes (set ws) s s' \<and>
    set ws = {p \<in> val ` set (g_sleepers s). wake_time_ns (pr_of s p) \<le> t} \<and>
    (case rr_ready s @ ws of [] \<Rightarrow> next = cpu_idle s \<and> rr_ready s' = []
     | p # ps \<Rightarrow> next = p \<and> rr_ready s' = ps \<and> next \<in> set (g_processes s) \<and> is_ready (pr_of s' next))"
proof -
  obtain s1 ws where 1: "wake_sleepers t s = Inr s1" "tables_ok s1" "queues_ok {} s1" "wakes (set ws) s s1"
      "rr_ready s1 = rr_ready s @ ws" "set ws = {p \<in> val ` set (g_sleepers s). wake_time_ns (pr_of s p) \<le> t}"
    using wake_sleepers_ok [OF assms, of t] by (elim exE conjE) (rule that)
  have c: "g_processes s1 = g_processes s" "cpu_idle s1 = cpu_idle s" using 1(4) by (simp_all add: wakes_def)
  show ?thesis
  proof (cases "rr_ready s @ ws")
    case Nil
    have "cpu_idle s \<notin> set (g_processes s1)" using 1(2) c by (simp add: tables_ok_def)
    then have "queues_ok {cpu_idle s} s1" using 1(3) by (simp add: queues_drop)
    moreover have "pick_next_process t s = Inr (cpu_idle s, s1)"
      using 1(1,5) c Nil by (simp add: pick_next_process_def rr_pick_next_def)
    ultimately show ?thesis
      by (intro exI [of _ "cpu_idle s"] exI [of _ s1] exI [of _ ws] conjI 1(2,4,6)) (simp_all add: Nil 1(5))
  next
    case (Cons p ps)
    then have r: "rr_ready s1 = p # ps" using 1(5) by simp
    from queues_pick [OF 1(3) r] 1 c Cons r show ?thesis
      by (intro exI [of _ p] exI [of _ "s1\<lparr>rr_ready := ps\<rparr>"] exI [of _ ws])
         (simp add: pick_next_process_def rr_pick_next_def wakes_def)
  qed
qed

lemma queues_same_state:
  "queues_ok X s \<Longrightarrow> state x = state (pr_of s p) \<Longrightarrow> wake_time_ns x = wake_time_ns (pr_of s p) \<Longrightarrow> queues_ok X (pset p x s)"
  by (auto simp: queues_ok_def is_ready_def split: if_splits)

lemma activate_ok:
  assumes "tables_ok s" "queues_ok {p} s" "p \<in> insert (cpu_idle s) (set (g_processes s))"
  shows "\<exists>s'. activate_process t p s = Inr s' \<and> tables_ok s' \<and> queues_ok {} s' \<and> cpu_process s' = p \<and>
    g_processes s' = g_processes s \<and> cpu_idle s' = cpu_idle s \<and> cpu_preemption s' = cpu_preemption s \<and>
    rr_ready s' = rr_ready s \<and> g_sleepers s' = g_sleepers s \<and> state (pr_of s' p) = RUNNING \<and>
    (\<forall>q. q \<noteq> p \<longrightarrow> pr_of s' q = pr_of s q) \<and> quantum_start_ns (pr_of s' p) = t \<and>
    cpu_pml4 s' = pml4 (pr_of s p) \<and> cpu_kernel_rsp s' = kernel_rsp (pr_of s p) \<and> tss_rsp0 s' = kernel_rsp (pr_of s p) \<and>
    cpu_fs_base s' = fs_base (pr_of s p) \<and> kernel_rsp_saved (pr_of s' p) = kernel_rsp_saved (pr_of s p)"
proof -
  let ?x = "(resume t (pr_of s p))\<lparr>context_switches := context_switches (pr_of s p) + 1\<rparr>"
  note d = known_deref [OF assms(1,3)]
  have x: "pml4 ?x = pml4 (pr_of s p)" "\<not> is_ready ?x" "state ?x = RUNNING" "kernel_rsp ?x = kernel_rsp (pr_of s p)"
      "fs_base ?x = fs_base (pr_of s p)" "kernel_rsp_saved ?x = kernel_rsp_saved (pr_of s p)" "quantum_start_ns ?x = t"
    by (simp_all add: resume_def is_ready_def)
  have t: "tables_ok (pset p ?x s)" using assms(1) d(3) x(1) by simp
  have q: "queues_ok {} (pset p ?x s)"
    using queues_leave [OF assms(2), of p ?x] x by (simp add: unqueued_def)
  have "p_deref (pset p ?x s) p = Inr ?x" using known_deref(1) [OF t, of p] assms(3) by simp
  then have "activate_process t p s = Inr ((pset p ?x s)\<lparr>cpu_process := p, cpu_kernel_rsp := kernel_rsp ?x,
      cpu_pml4 := pml4 ?x, cpu_fs_base := fs_base ?x, tss_rsp0 := kernel_rsp ?x\<rparr>)"
    using d(2,3) x(1) by (simp add: activate_process_def)
  with t q x show ?thesis by simp
qed

lemma context_switch_ok:
  assumes "tables_ok s" "queues_ok X s" "old \<in> insert (cpu_idle s) (set (g_processes s))"
    "new \<in> insert (cpu_idle s) (set (g_processes s))"
  shows "\<exists>s'. context_switch old rsp new s = Inr s' \<and> tables_ok s' \<and> queues_ok X s' \<and> cpu_process s' = cpu_process s \<and>
    g_processes s' = g_processes s \<and> cpu_idle s' = cpu_idle s \<and> rr_ready s' = rr_ready s \<and> g_sleepers s' = g_sleepers s \<and>
    (\<forall>q. state (pr_of s' q) = state (pr_of s q)) \<and> cpu_rsp s' = kernel_rsp_saved (pr_of s new) \<and>
    kernel_rsp_saved (pr_of s' old) = rsp"
proof -
  let ?x = "(pr_of s old)\<lparr>kernel_rsp_saved := rsp\<rparr>"
  have "tables_ok (pset old ?x s)" "queues_ok X (pset old ?x s)"
    using assms known_deref(3) [OF assms(1,3)] by (simp_all add: queues_same_state)
  with known_deref [OF assms(1,3)] known_deref [OF assms(1,4)] show ?thesis by (simp add: context_switch_def)
qed

section \<open>The operations keep the invariant\<close>

definition known :: "sched \<Rightarrow> paddr set" where
  "known s = insert (cpu_idle s) (set (g_processes s))"

text \<open>The state between descheduling the current process and switching to the nx one.\<close>

definition between :: "sched \<Rightarrow> bool" where
  "between s \<longleftrightarrow> tables_ok s \<and> queues_ok {} s \<and> (\<forall>p \<in> set (g_processes s). state (pr_of s p) \<noteq> RUNNING)"

lemma state_wakes: "wakes A s s' \<Longrightarrow> state (pr_of s' q) = (if q \<in> A then READY else state (pr_of s q))"
  by (simp add: wakes_def)

lemma due_sleepers_asleep:
  "queues_ok X s \<Longrightarrow> p \<in> val ` set (g_sleepers s) \<Longrightarrow> p \<in> set (g_processes s) \<and> state (pr_of s p) = SLEEPING"
  by (auto simp: queues_ok_def)

lemma switch_away:
  assumes "between s"
  shows "\<exists>nx s1 s2 ws. pick_next_process t1 s = Inr (nx, s1) \<and> activate_process t2 nx s1 = Inr s2 \<and>
    sched_ok s2 \<and> nx \<in> known s \<and> cpu_process s2 = nx \<and> g_processes s2 = g_processes s \<and> cpu_idle s2 = cpu_idle s \<and>
    nx = hd (rr_ready s @ ws @ [cpu_idle s]) \<and> rr_ready s2 = tl (rr_ready s @ ws) \<and>
    set ws = {p \<in> val ` set (g_sleepers s). wake_time_ns (pr_of s p) \<le> t1} \<and>
    (\<forall>q. q \<noteq> nx \<longrightarrow> pr_of s2 q = (if q \<in> set ws then wake (pr_of s q) else pr_of s q))"
proof -
  from assms have t: "tables_ok s" and q: "queues_ok {} s" and r: "\<forall>p \<in> set (g_processes s). state (pr_of s p) \<noteq> RUNNING"
    by (simp_all add: between_def)
  obtain nx s1 ws where 1: "pick_next_process t1 s = Inr (nx, s1)" "tables_ok s1" "queues_ok {nx} s1" "wakes (set ws) s s1"
      "set ws = {p \<in> val ` set (g_sleepers s). wake_time_ns (pr_of s p) \<le> t1}"
      "case rr_ready s @ ws of [] \<Rightarrow> nx = cpu_idle s \<and> rr_ready s1 = []
       | p # ps \<Rightarrow> nx = p \<and> rr_ready s1 = ps \<and> nx \<in> set (g_processes s) \<and> is_ready (pr_of s1 nx)"
    using pick_next_ok [OF t q, of t1] by (elim exE conjE) (rule that)
  have c: "g_processes s1 = g_processes s" "cpu_idle s1 = cpu_idle s"
    and w: "\<forall>q. pr_of s1 q = (if q \<in> set ws then wake (pr_of s q) else pr_of s q)"
    using 1(4) by (simp_all add: wakes_def)
  have k: "nx \<in> known s" and tl: "rr_ready s1 = tl (rr_ready s @ ws)"
    using 1(6) by (simp_all add: known_def split: list.splits)
  have hd: "nx = hd (rr_ready s @ ws @ [cpu_idle s])"
  proof (cases "rr_ready s @ ws")
    case Nil
    then show ?thesis using 1(6) by simp
  next
    case (Cons p ps)
    then have "rr_ready s @ ws @ [cpu_idle s] = p # ps @ [cpu_idle s]" by (metis append.assoc append_Cons)
    then have "hd (rr_ready s @ ws @ [cpu_idle s]) = p" by (simp only: list.sel)
    moreover have "nx = p" using 1(6) Cons by simp
    ultimately show ?thesis by (simp only:)
  qed
  obtain s2 where 2: "activate_process t2 nx s1 = Inr s2" "tables_ok s2" "queues_ok {} s2" "cpu_process s2 = nx"
      "g_processes s2 = g_processes s1" "cpu_idle s2 = cpu_idle s1" "rr_ready s2 = rr_ready s1"
      "state (pr_of s2 nx) = RUNNING" "\<forall>q. q \<noteq> nx \<longrightarrow> pr_of s2 q = pr_of s1 q"
    using activate_ok [OF 1(2,3), of t2] k c unfolding known_def by auto
  have "state (pr_of s2 p) = RUNNING \<longleftrightarrow> p = nx" if "p \<in> set (g_processes s)" for p
    using 2(8,9) w r that by (cases "p = nx") auto
  then have "sched_ok s2" unfolding sched_ok_def using 2 k c by (simp add: known_def)
  with 1 2 c w k hd tl show ?thesis by (intro exI [of _ nx] exI [of _ s1] exI [of _ s2] exI [of _ ws]) simp
qed

lemma sched_ok_D:
  assumes "sched_ok s"
  shows "tables_ok s" "queues_ok {} s" "cpu_process s \<in> known s"
    "cpu_process s \<noteq> cpu_idle s \<Longrightarrow> cpu_process s \<in> set (g_processes s) \<and> state (pr_of s (cpu_process s)) = RUNNING"
    "\<And>p. p \<in> set (g_processes s) \<Longrightarrow> p \<noteq> cpu_process s \<Longrightarrow> state (pr_of s p) \<noteq> RUNNING"
  using assms by (auto simp: sched_ok_def known_def)

text \<open>Taking the current process off the CPU with a new content \<open>x\<close> that no queue has to hold.\<close>

lemma leave_cpu:
  assumes "tables_ok s" "queues_ok {cpu_process s} s" "cpu_process s \<in> set (g_processes s)"
    "\<forall>p \<in> set (g_processes s). p \<noteq> cpu_process s \<longrightarrow> state (pr_of s p) \<noteq> RUNNING"
    "pml4 x = pml4 (pr_of s (cpu_process s))" "state x \<in> {BLOCKED, DEAD, ZOMBIE}"
  shows "between (pset (cpu_process s) x s)"
proof -
  have "pml4 x \<noteq> None" using known_deref(3) [OF assms(1)] assms(3,5) by simp
  moreover have "queues_ok {} (pset (cpu_process s) x s)"
    using queues_leave [OF assms(2), of "cpu_process s" x] assms(6) by (auto simp: unqueued_def is_ready_def)
  ultimately show ?thesis using assms by (auto simp: between_def)
qed

lemma current_transit:
  assumes "sched_ok s" "cpu_process s \<noteq> cpu_idle s" "pml4 x = pml4 (pr_of s (cpu_process s))"
  defines "s' \<equiv> pset (cpu_process s) x s"
  shows "tables_ok s'" "queues_ok {cpu_process s} s'" "cpu_process s \<in> set (g_processes s')"
    "\<forall>p \<in> set (g_processes s'). p \<noteq> cpu_process s \<longrightarrow> state (pr_of s' p) \<noteq> RUNNING"
proof -
  note d = sched_ok_D [OF assms(1)]
  have "pml4 x \<noteq> None" using known_deref(3) [OF d(1)] d(3) assms(3) by (simp add: known_def)
  with d(1) show "tables_ok s'" by (simp add: s'_def)
  have "unqueued {} s (cpu_process s)" using d(4) assms(2) by (simp add: unqueued_def is_ready_def)
  from queues_transit [OF d(2) this] show "queues_ok {cpu_process s} s'" by (simp add: s'_def)
  show "cpu_process s \<in> set (g_processes s')" using d(4) assms(2) by (simp add: s'_def)
  show "\<forall>p \<in> set (g_processes s'). p \<noteq> cpu_process s \<longrightarrow> state (pr_of s' p) \<noteq> RUNNING"
    using d(5) by (simp add: s'_def)
qed

lemma pml4_simps [simp]:
  "pml4 (kill p) = pml4 p" "pml4 (zombify p) = pml4 p" "pml4 (wait_for r p) = pml4 p" "pml4 (pause p) = pml4 p"
  "pml4 (wait_for_child c p) = pml4 p" "pml4 (wait_for_mutex m p) = pml4 p" "pml4 (sleep_for t d p) = pml4 p"
  "pml4 (resume t p) = pml4 p"
  by (simp_all add: kill_def zombify_def wait_for_def wait_for_child_def wait_for_mutex_def sleep_for_def resume_def pause_def)

lemma pset_pset [simp]: "pset p x (pset p y s) = pset p x s"
  by (simp add: pset_def)

lemma current_leaves:
  assumes "sched_ok s" "cpu_process s \<noteq> cpu_idle s" "pml4 x = pml4 (pr_of s (cpu_process s))" "state x \<in> {BLOCKED, DEAD, ZOMBIE}"
  shows "between (pset (cpu_process s) x s)"
  using leave_cpu [of "pset (cpu_process s) (pr_of s (cpu_process s)) s" x] assms(3,4)
    current_transit [OF assms(1,2) refl] by simp

lemma permanent_switch_ok:
  assumes "sched_ok s" "p \<in> known s"
  shows "\<exists>s'. permanent_context_switch p s = Inr s' \<and> sched_ok s' \<and> s' = s\<lparr>cpu_rsp := kernel_rsp_saved (pr_of s p)\<rparr>"
  using known_deref(1) [OF sched_ok_D(1) [OF assms(1)]] assms by (simp add: permanent_context_switch_def known_def sched_ok_def)

lemma sched_ok_switch:
  assumes "sched_ok s" "old \<in> known s" "new \<in> known s"
  shows "\<exists>s'. context_switch old rsp new s = Inr s' \<and> sched_ok s' \<and> cpu_process s' = cpu_process s \<and>
    g_processes s' = g_processes s \<and> cpu_idle s' = cpu_idle s \<and> rr_ready s' = rr_ready s \<and>
    (\<forall>q. state (pr_of s' q) = state (pr_of s q)) \<and> cpu_rsp s' = kernel_rsp_saved (pr_of s new) \<and>
    kernel_rsp_saved (pr_of s' old) = rsp"
proof -
  note d = sched_ok_D [OF assms(1)]
  obtain s' where "context_switch old rsp new s = Inr s'" "tables_ok s'" "queues_ok {} s'" "cpu_process s' = cpu_process s"
      "g_processes s' = g_processes s" "cpu_idle s' = cpu_idle s" "rr_ready s' = rr_ready s"
      "\<forall>q. state (pr_of s' q) = state (pr_of s q)" "cpu_rsp s' = kernel_rsp_saved (pr_of s new)"
      "kernel_rsp_saved (pr_of s' old) = rsp"
    using context_switch_ok [OF d(1,2), of old new rsp] assms(2,3) unfolding known_def by auto
  with assms(1) show ?thesis by (simp add: sched_ok_def)
qed


lemma sched_ok_cases:
  assumes "sched_ok s" "cpu_process s \<noteq> cpu_idle s"
  shows "p_update (cpu_process s) f s = Inr (pset (cpu_process s) (f (pr_of s (cpu_process s))) s)"
    and "p_deref s (cpu_process s) = Inr (pr_of s (cpu_process s))"
  using known_deref(1,2) [OF sched_ok_D(1) [OF assms(1)]] sched_ok_D(3) [OF assms(1)] by (simp_all add: known_def)

text \<open>A process that is not ready and not due is not the one the policy picks.\<close>

lemma next_not:
  assumes "between s" "nx = hd (rr_ready s @ ws @ [cpu_idle s])" "c \<noteq> cpu_idle s"
    "\<not> is_ready (pr_of s c)" "c \<notin> set ws"
  shows "nx \<noteq> c"
proof -
  have "c \<notin> set (rr_ready s)" using assms(1,4) by (auto simp: between_def queues_ok_def)
  with assms(2,3,5) show ?thesis by (cases "rr_ready s"; cases ws) auto
qed

lemma yield_dead_ok:
  assumes "sched_ok s" "cpu_process s \<noteq> cpu_idle s"
  shows "\<exists>s'. yield_dead t1 t2 s = Inr s' \<and> sched_ok s' \<and> g_processes s' = g_processes s \<and> cpu_idle s' = cpu_idle s \<and>
    state (pr_of s' (cpu_process s)) = DEAD \<and> cpu_process s' \<noteq> cpu_process s \<and>
    cpu_rsp s' = kernel_rsp_saved (pr_of s' (cpu_process s'))"
proof -
  let ?c = "cpu_process s" and ?s = "pset (cpu_process s) (kill (pr_of s (cpu_process s))) s"
  have b: "between ?s" by (rule current_leaves [OF assms]) simp_all
  obtain nx s1 s2 ws where s: "pick_next_process t1 ?s = Inr (nx, s1)" "activate_process t2 nx s1 = Inr s2" "sched_ok s2"
      "nx \<in> known s" "cpu_process s2 = nx" "g_processes s2 = g_processes s" "cpu_idle s2 = cpu_idle s"
      "nx = hd (rr_ready ?s @ ws @ [cpu_idle ?s])" "set ws = {p \<in> val ` set (g_sleepers ?s). wake_time_ns (pr_of ?s p) \<le> t1}"
      "\<forall>q. q \<noteq> nx \<longrightarrow> pr_of s2 q = (if q \<in> set ws then wake (pr_of ?s q) else pr_of ?s q)"
    using switch_away [OF b, of t1 t2] by (auto simp: known_def)
  have w: "?c \<notin> set ws" using s(9) due_sleepers_asleep [of "{}" ?s ?c] b by (auto simp: between_def)
  have ne: "nx \<noteq> ?c" by (rule next_not [OF b s(8)]) (use assms(2) w in \<open>simp_all add: is_ready_def\<close>)
  obtain s3 where "permanent_context_switch nx s2 = Inr s3" "sched_ok s3" "s3 = s2\<lparr>cpu_rsp := kernel_rsp_saved (pr_of s2 nx)\<rparr>"
    using permanent_switch_ok [OF s(3), of nx] s(4,6,7) by (auto simp: known_def)
  with s ne w sched_ok_cases [OF assms] show ?thesis by (simp add: yield_dead_def Let_def)
qed

lemma between_wake_loop:
  assumes "between s"
  shows "\<exists>s'. wake_loop P (g_processes s) s = Inr s' \<and> between s' \<and> g_sleepers s' = g_sleepers s \<and>
    wakes {p \<in> set (g_processes s). is_blocked (pr_of s p) \<and> P (pr_of s p)} s s' \<and>
    rr_ready s' = rr_ready s @ filter (\<lambda>p. is_blocked (pr_of s p) \<and> P (pr_of s p)) (g_processes s)"
proof -
  have t: "tables_ok s" "queues_ok {} s" "distinct (g_processes s)" using assms by (auto simp: between_def tables_ok_def)
  obtain s' where s': "wake_loop P (g_processes s) s = Inr s'" "tables_ok s'" "queues_ok {} s'"
      "wakes {p \<in> set (g_processes s). is_blocked (pr_of s p) \<and> P (pr_of s p)} s s'" "g_sleepers s' = g_sleepers s"
      "rr_ready s' = rr_ready s @ filter (\<lambda>p. is_blocked (pr_of s p) \<and> P (pr_of s p)) (g_processes s)"
    using wake_loop_ok [OF t order_refl, of P] by (elim exE conjE) (rule that)
  then have "between s'" using assms by (auto simp: between_def wakes_def)
  with s' show ?thesis by blast
qed

lemma yield_zombie_ok:
  assumes "sched_ok s" "cpu_process s \<noteq> cpu_idle s"
  shows "\<exists>s'. yield_zombie t1 t2 s = Inr s' \<and> sched_ok s' \<and> g_processes s' = g_processes s \<and> cpu_idle s' = cpu_idle s \<and>
    state (pr_of s' (cpu_process s)) = ZOMBIE \<and> cpu_process s' \<noteq> cpu_process s \<and>
    (\<forall>q \<in> set (g_processes s). is_blocked (pr_of s q) \<and> is_waiting_for_child (pid (pr_of s (cpu_process s))) (pr_of s q) \<longrightarrow>
       state (pr_of s' q) \<in> {READY, RUNNING})"
proof -
  let ?c = "cpu_process s" and ?s = "pset (cpu_process s) (zombify (pr_of s (cpu_process s))) s"
  let ?P = "is_waiting_for_child (pid (pr_of s (cpu_process s)))"
  have b: "between ?s" by (rule current_leaves [OF assms]) simp_all
  obtain s0 where z: "wake_loop ?P (g_processes ?s) ?s = Inr s0" "between s0" "g_sleepers s0 = g_sleepers s"
      "wakes {p \<in> set (g_processes ?s). is_blocked (pr_of ?s p) \<and> ?P (pr_of ?s p)} ?s s0"
    using between_wake_loop [OF b, of ?P] by auto
  have c0: "g_processes s0 = g_processes s" "cpu_idle s0 = cpu_idle s"
    and w0: "\<And>q. pr_of s0 q = (if q \<in> set (g_processes ?s) \<and> is_blocked (pr_of ?s q) \<and> ?P (pr_of ?s q)
      then wake (pr_of ?s q) else pr_of ?s q)"
    using z(4) by (simp_all add: wakes_def)
  have zc: "state (pr_of s0 ?c) = ZOMBIE" by (simp add: w0 is_blocked_def)
  obtain nx s1 s2 ws where s: "pick_next_process t1 s0 = Inr (nx, s1)" "activate_process t2 nx s1 = Inr s2" "sched_ok s2"
      "nx \<in> known s" "cpu_process s2 = nx" "g_processes s2 = g_processes s" "cpu_idle s2 = cpu_idle s"
      "nx = hd (rr_ready s0 @ ws @ [cpu_idle s0])" "set ws = {p \<in> val ` set (g_sleepers s0). wake_time_ns (pr_of s0 p) \<le> t1}"
      "\<forall>q. q \<noteq> nx \<longrightarrow> pr_of s2 q = (if q \<in> set ws then wake (pr_of s0 q) else pr_of s0 q)"
    using switch_away [OF z(2), of t1 t2] c0 by (auto simp: known_def)
  have w: "?c \<notin> set ws" using s(9) due_sleepers_asleep [of "{}" s0 ?c] z(2) zc by (auto simp: between_def)
  have ne: "nx \<noteq> ?c" by (rule next_not [OF z(2) s(8)]) (use assms(2) w zc c0 in \<open>simp_all add: is_ready_def\<close>)
  have run: "state (pr_of s2 nx) = RUNNING \<or> nx = cpu_idle s"
    using s(3,4,5,6) by (auto simp: sched_ok_def known_def)
  have "state (pr_of s2 q) \<in> {READY, RUNNING}"
    if "q \<in> set (g_processes s)" "is_blocked (pr_of s q)" "?P (pr_of s q)" for q
  proof (cases "q = nx")
    case True
    have "q \<noteq> cpu_idle s" using that(1) sched_ok_D(1) [OF assms(1)] by (auto simp: tables_ok_def)
    with True run show ?thesis by simp
  next
    case False
    have "q \<noteq> ?c" using that sched_ok_D(4) [OF assms] by (auto simp: is_blocked_def)
    with False s(10) w0 [of q] that show ?thesis by simp
  qed
  moreover obtain s3 where "permanent_context_switch nx s2 = Inr s3" "sched_ok s3" "s3 = s2\<lparr>cpu_rsp := kernel_rsp_saved (pr_of s2 nx)\<rparr>"
    using permanent_switch_ok [OF s(3), of nx] s(4,6,7) by (auto simp: known_def)
  moreover have "p_deref ?s ?c = Inr (zombify (pr_of s ?c))" by (simp add: p_deref_def)
  ultimately show ?thesis using s z ne w zc sched_ok_cases [OF assms]
    by (simp add: yield_zombie_def wake_parents_def Let_def)
qed

lemma resume_self:
  assumes "tables_ok s" "queues_ok {cpu_process s} s" "cpu_process s \<in> set (g_processes s)"
    "\<forall>q \<in> set (g_processes s). q \<noteq> cpu_process s \<longrightarrow> state (pr_of s q) \<noteq> RUNNING"
  shows "\<exists>s'. p_update (cpu_process s) (resume t) s = Inr s' \<and> sched_ok s' \<and> g_processes s' = g_processes s \<and>
    cpu_idle s' = cpu_idle s \<and> cpu_process s' = cpu_process s \<and> (\<forall>q. q \<noteq> cpu_process s \<longrightarrow> pr_of s' q = pr_of s q)"
proof -
  let ?c = "cpu_process s"
  have u: "p_update ?c (resume t) s = Inr (pset ?c (resume t (pr_of s ?c)) s)" "pml4 (pr_of s ?c) \<noteq> None"
    using known_deref(2,3) [OF assms(1), of ?c] assms(3) by simp_all
  have "queues_ok {} (pset ?c (resume t (pr_of s ?c)) s)"
    using queues_leave [OF assms(2), of ?c] by (simp add: unqueued_def is_ready_def)
  with assms u(2) have "sched_ok (pset ?c (resume t (pr_of s ?c)) s)" by (auto simp: sched_ok_def)
  with u(1) show ?thesis by simp
qed

lemma yield_blocked_ok:
  assumes "tables_ok s" "queues_ok {cpu_process s} s" "cpu_process s \<in> set (g_processes s)"
    "\<forall>p \<in> set (g_processes s). p \<noteq> cpu_process s \<longrightarrow> state (pr_of s p) \<noteq> RUNNING"
  shows "\<exists>s'. yield_blocked t1 t2 rsp r s = Inr s' \<and> sched_ok s' \<and> g_processes s' = g_processes s \<and> cpu_idle s' = cpu_idle s \<and>
    (r \<noteq> W_SLEEP \<longrightarrow> state (pr_of s' (cpu_process s)) = BLOCKED \<and> cpu_process s' \<noteq> cpu_process s) \<and>
    (r = W_SLEEP \<and> t1 < wake_time_ns (pr_of s (cpu_process s)) \<longrightarrow>
       state (pr_of s' (cpu_process s)) = SLEEPING \<and> cpu_process s' \<noteq> cpu_process s)"
proof -
  let ?c = "cpu_process s" and ?x = "wait_for r (pr_of s (cpu_process s))"
  let ?s1 = "pset ?c ?x s"
  let ?s2 = "if r = W_SLEEP then ?s1\<lparr>g_sleepers := kmin_insert (wake_time_ns ?x) ?c (g_sleepers ?s1)\<rparr> else ?s1"
  have idle: "?c \<noteq> cpu_idle s" using assms(1,3) by (auto simp: tables_ok_def)
  have pm: "pml4 ?x \<noteq> None" using known_deref(3) [OF assms(1)] assms(3) by simp
  have q1: "queues_ok {?c} ?s1" using queues_transit [OF assms(2), of ?c ?x] by (simp add: unqueued_def)
  have b: "between ?s2"
  proof (cases "r = W_SLEEP")
    case True
    have "queues_ok {} (?s1\<lparr>g_sleepers := kmin_insert (wake_time_ns ?x) ?c (g_sleepers ?s1)\<rparr>)"
      using queues_sleep [OF q1, of ?c] assms(3) True by simp
    then show ?thesis using True assms(1,4) pm by (auto simp: between_def)
  next
    case False
    then show ?thesis using leave_cpu [OF assms(1-4), of ?x] by simp
  qed
  have step: "yield_blocked t1 t2 rsp r s = kbind (pick_next_process t1 ?s2) (\<lambda>(nx, s3).
      if ?c = nx then p_update ?c (resume t2) s3 else kbind (activate_process t2 nx s3) (context_switch ?c rsp nx))"
    using known_deref(2) [OF assms(1), of ?c "wait_for r"] assms(3) by (simp add: yield_blocked_def Let_def p_deref_def)
  have c2: "g_processes ?s2 = g_processes s" "cpu_idle ?s2 = cpu_idle s" "cpu_process ?s2 = ?c" "pr_of ?s2 ?c = ?x" by simp_all
  obtain nx s3 s4 ws where s: "pick_next_process t1 ?s2 = Inr (nx, s3)" "activate_process t2 nx s3 = Inr s4" "sched_ok s4"
      "nx \<in> known ?s2" "cpu_process s4 = nx" "g_processes s4 = g_processes ?s2" "cpu_idle s4 = cpu_idle ?s2"
      "nx = hd (rr_ready ?s2 @ ws @ [cpu_idle ?s2])" "set ws = {p \<in> val ` set (g_sleepers ?s2). wake_time_ns (pr_of ?s2 p) \<le> t1}"
      "\<forall>q. q \<noteq> nx \<longrightarrow> pr_of s4 q = (if q \<in> set ws then wake (pr_of ?s2 q) else pr_of ?s2 q)"
    using switch_away [OF b, of t1 t2] by (elim exE conjE) (rule that)
  show ?thesis
  proof (cases "?c = nx")
    case True
    have self: "r = W_SLEEP \<and> wake_time_ns (pr_of s ?c) \<le> t1"
    proof (rule ccontr)
      assume n: "\<not> (r = W_SLEEP \<and> wake_time_ns (pr_of s ?c) \<le> t1)"
      have "?c \<notin> set ws"
      proof
        assume "?c \<in> set ws"
        then have "?c \<in> val ` set (g_sleepers ?s2)" "wake_time_ns ?x \<le> t1" using s(9) c2(4) by auto
        with due_sleepers_asleep [of "{}" ?s2 ?c] b c2(4) n show False by (auto simp: between_def split: if_splits)
      qed
      moreover have "\<not> is_ready (pr_of ?s2 ?c)" using c2(4) by (simp add: is_ready_def)
      ultimately have "nx \<noteq> ?c" using idle c2(2) by (intro next_not [OF b s(8)]) simp_all
      with True show False by simp
    qed
    have bq: "tables_ok ?s2" "queues_ok {} ?s2" using b by (simp_all add: between_def)
    obtain vs where p: "tables_ok s3" "queues_ok {nx} s3" "wakes (set vs) ?s2 s3"
      using pick_next_ok [OF bq, of t1] s(1) by auto
    have c3: "g_processes s3 = g_processes s" "cpu_idle s3 = cpu_idle s" "cpu_process s3 = ?c"
      and w3: "\<forall>q. pr_of s3 q = (if q \<in> set vs then wake (pr_of ?s2 q) else pr_of ?s2 q)"
      using p(3) c2 by (simp_all add: wakes_def)
    have r3: "state (pr_of s3 q) \<noteq> RUNNING" if "q \<in> set (g_processes s)" for q
      using w3 b that by (auto simp: between_def)
    obtain s5 where "p_update ?c (resume t2) s3 = Inr s5" "sched_ok s5" "g_processes s5 = g_processes s3" "cpu_idle s5 = cpu_idle s3"
      using resume_self [OF p(1), of t2] p(2) True c3 r3 assms(3) by auto
    with step s(1) True c3 self show ?thesis by auto
  next
    case False
    obtain s5 where s5: "context_switch ?c rsp nx s4 = Inr s5" "sched_ok s5" "cpu_process s5 = cpu_process s4"
        "g_processes s5 = g_processes s4" "cpu_idle s5 = cpu_idle s4" "\<forall>q. state (pr_of s5 q) = state (pr_of s4 q)"
      using sched_ok_switch [OF s(3), of ?c nx rsp] s(4,6,7) c2 assms(3) by (auto simp: known_def)
    have "state (pr_of s5 ?c) = (if ?c \<in> set ws then READY else state ?x)"
      using s5(6) s(10) False c2(4) by simp
    moreover have "?c \<in> set ws \<Longrightarrow> r = W_SLEEP \<and> wake_time_ns (pr_of s ?c) \<le> t1"
      using s(9) c2(4) due_sleepers_asleep [of "{}" ?s2 ?c] b by (auto simp: between_def split: if_splits)
    ultimately show ?thesis using step s(1,2,5,6,7) s5 False c2 by auto
  qed
qed

lemma yield_sleep_ok:
  assumes "sched_ok s" "cpu_process s \<noteq> cpu_idle s"
  shows "\<exists>s'. yield_sleep_ns t0 t1 t2 rsp d s = Inr s' \<and> sched_ok s' \<and> g_processes s' = g_processes s \<and> cpu_idle s' = cpu_idle s \<and>
    (t1 < t0 + d \<longrightarrow> state (pr_of s' (cpu_process s)) = SLEEPING \<and> cpu_process s' \<noteq> cpu_process s)"
proof -
  let ?x = "sleep_for t0 d (pr_of s (cpu_process s))"
  from current_transit [OF assms, of ?x] yield_blocked_ok [of "pset (cpu_process s) ?x s" t1 t2 rsp W_SLEEP]
  show ?thesis by (simp add: yield_sleep_ns_def sched_ok_cases [OF assms])
qed

lemma yield_mutex_ok:
  assumes "sched_ok s" "cpu_process s \<noteq> cpu_idle s"
  shows "\<exists>s'. yield_mutex t1 t2 rsp m s = Inr s' \<and> sched_ok s' \<and> g_processes s' = g_processes s \<and> cpu_idle s' = cpu_idle s \<and>
    state (pr_of s' (cpu_process s)) = BLOCKED \<and> cpu_process s' \<noteq> cpu_process s"
proof -
  let ?x = "wait_for_mutex m (pr_of s (cpu_process s))"
  from current_transit [OF assms, of ?x] yield_blocked_ok [of "pset (cpu_process s) ?x s" t1 t2 rsp W_MUTEX]
  show ?thesis by (simp add: yield_mutex_def sched_ok_cases [OF assms])
qed

lemma yield_blocked_sched_ok:
  assumes "sched_ok s" "cpu_process s \<noteq> cpu_idle s" "r \<noteq> W_SLEEP"
  shows "\<exists>s'. yield_blocked t1 t2 rsp r s = Inr s' \<and> sched_ok s' \<and> g_processes s' = g_processes s \<and> cpu_idle s' = cpu_idle s \<and>
    state (pr_of s' (cpu_process s)) = BLOCKED \<and> cpu_process s' \<noteq> cpu_process s"
proof -
  note d = sched_ok_D [OF assms(1)]
  have c: "cpu_process s \<in> set (g_processes s)" "state (pr_of s (cpu_process s)) = RUNNING" using d(4) assms(2) by auto
  then have "queues_ok {cpu_process s} s" using d(2) by (auto simp: queues_ok_def is_ready_def)
  from yield_blocked_ok [OF d(1) this c(1), of t1 t2 rsp r] d(5) assms(3) show ?thesis by auto
qed

text \<open>Every parent that a process of the list points to still exists.\<close>

definition parents_ok :: "sched \<Rightarrow> bool" where
  "parents_ok s \<longleftrightarrow> (\<forall>p \<in> set (g_processes s). \<forall>q. parent (pr_of s p) = Some q \<longrightarrow> q \<in> dom (procs s))"

definition is_child :: "sched \<Rightarrow> int \<Rightarrow> int \<Rightarrow> paddr \<Rightarrow> bool" where
  "is_child s ppid child p \<longleftrightarrow> (child = -1 \<or> pid (pr_of s p) = child) \<and>
     (\<exists>q. parent (pr_of s p) = Some q \<and> pid (pr_of s q) = ppid)"

lemma search_children_ok:
  assumes "tables_ok s" "parents_ok s"
  shows "set ps \<subseteq> set (g_processes s) \<Longrightarrow>
    search_children s ppid child ps fm = Inr (
      case find (\<lambda>p. is_child s ppid child p \<and> is_zombie (pr_of s p)) ps of Some p \<Rightarrow> Some p
      | None \<Rightarrow> (case fm of Some p \<Rightarrow> Some p | None \<Rightarrow> find (is_child s ppid child) ps))"
proof (induction ps arbitrary: fm)
  case (Cons p ps)
  have d: "p_deref s p = Inr (pr_of s p)" using known_deref(1) [OF assms(1)] Cons.prems by simp
  have q: "p_deref s q = Inr (pr_of s q)" if "parent (pr_of s p) = Some q" for q
  proof -
    have "q \<in> dom (procs s)" using assms(2) Cons.prems that unfolding parents_ok_def by (meson list.set_intros(1) subsetD)
    then show ?thesis by (auto simp: p_deref_def pr_of_def)
  qed
  from Cons d q show ?case
    by (cases "parent (pr_of s p)"; cases fm) (auto simp: is_child_def split: option.splits)
qed (simp split: option.split)

lemma find_child_ok:
  assumes "sched_ok s" "parents_ok s"
  shows "find_child (cpu_process s) child s = Inr (
      let P = is_child s (pid (pr_of s (cpu_process s))) child in
      case find (\<lambda>p. P p \<and> is_zombie (pr_of s p)) (g_processes s) of Some p \<Rightarrow> Some p
      | None \<Rightarrow> find P (g_processes s))"
  using search_children_ok [OF sched_ok_D(1) [OF assms(1)] assms(2) order_refl] known_deref(1) [OF sched_ok_D(1) [OF assms(1)]]
    sched_ok_D(3) [OF assms(1)] by (simp add: find_child_def known_def Let_def split: option.split)

lemma find_in: "find P xs = Some x \<Longrightarrow> x \<in> set xs \<and> P x"
  by (induction xs) (auto split: if_splits)

lemma find_child_known:
  "sched_ok s \<Longrightarrow> parents_ok s \<Longrightarrow> find_child (cpu_process s) child s = Inr (Some c) \<Longrightarrow> c \<in> set (g_processes s)"
  by (auto simp: find_child_ok Let_def dest!: find_in split: option.splits)

lemma reap_child_ok:
  assumes "sched_ok s" "cpu_process s \<noteq> cpu_idle s" "c \<in> set (g_processes s)" "is_zombie (pr_of s c)"
  shows "\<exists>s1 s2. p_update c kill s = Inr s1 \<and> p_update (cpu_process s) (resume t) s1 = Inr s2 \<and> sched_ok s2 \<and>
    g_processes s2 = g_processes s \<and> cpu_idle s2 = cpu_idle s \<and> cpu_process s2 = cpu_process s \<and> state (pr_of s2 c) = DEAD"
proof -
  note d = sched_ok_D [OF assms(1)]
  let ?c = "cpu_process s" and ?s1 = "pset c (kill (pr_of s c)) s"
  have ne: "c \<noteq> ?c" using d(4) assms(2,4) by (auto simp: is_zombie_def)
  have u: "p_update c kill s = Inr ?s1" "tables_ok ?s1"
    using known_deref(2,3) [OF d(1), of c] assms(3) d(1) by simp_all
  have "queues_ok {} ?s1"
    using queues_leave [OF d(2), of c "kill (pr_of s c)"] assms(4) by (simp add: unqueued_def is_zombie_def is_ready_def)
  then have q: "queues_ok {?c} ?s1" using d(4) assms(2) ne by (auto simp: queues_ok_def is_ready_def)
  have "\<forall>q \<in> set (g_processes s). q \<noteq> ?c \<longrightarrow> state (pr_of ?s1 q) \<noteq> RUNNING" using d(5) by simp
  with resume_self [OF u(2), of t] q d(4) assms(2) obtain s2 where "p_update ?c (resume t) ?s1 = Inr s2" "sched_ok s2"
      "g_processes s2 = g_processes s" "cpu_idle s2 = cpu_idle s" "cpu_process s2 = ?c" "\<forall>q. q \<noteq> ?c \<longrightarrow> pr_of s2 q = pr_of ?s1 q"
    by auto
  with u(1) ne show ?thesis by simp
qed

lemma yield_to_child_ok:
  assumes "sched_ok s" "cpu_process s \<noteq> cpu_idle s" "parents_ok s"
  shows "\<exists>r s'. yield_to_child_round t1 t2 rsp child s = Inr (r, s') \<and> sched_ok s' \<and>
    g_processes s' = g_processes s \<and> cpu_idle s' = cpu_idle s \<and>
    (case find_child (cpu_process s) child s of
       Inr (Some c) \<Rightarrow> c \<in> set (g_processes s) \<and>
         (if is_zombie (pr_of s c) then r = Some (exit_status (pr_of s c)) \<and> state (pr_of s' c) = DEAD \<and> cpu_process s' = cpu_process s
          else r = None \<and> state (pr_of s' (cpu_process s)) = BLOCKED \<and> cpu_process s' \<noteq> cpu_process s)
     | Inr None \<Rightarrow> r = Some (-10) \<and> s' = s | _ \<Rightarrow> False)"
proof -
  note d = sched_ok_D [OF assms(1)]
  let ?p = "cpu_process s"
  obtain fc where f: "find_child ?p child s = Inr fc" using find_child_ok [OF assms(1,3)] by blast
  show ?thesis
  proof (cases fc)
    case None
    then show ?thesis using f assms(1) by (simp add: yield_to_child_round_def Let_def)
  next
    case (Some c)
    have c: "c \<in> set (g_processes s)" using find_child_known [OF assms(1,3)] f Some by simp
    have dc: "p_deref s c = Inr (pr_of s c)" using known_deref(1) [OF d(1)] c by simp
    show ?thesis
    proof (cases "is_zombie (pr_of s c)")
      case True
      from reap_child_ok [OF assms(1,2) c True, of t1] obtain s1 s2 where "p_update c kill s = Inr s1"
          "p_update ?p (resume t1) s1 = Inr s2" "sched_ok s2" "g_processes s2 = g_processes s" "cpu_idle s2 = cpu_idle s"
          "cpu_process s2 = ?p" "state (pr_of s2 c) = DEAD" by (elim exE conjE)
      with f Some c dc True show ?thesis by (simp add: yield_to_child_round_def Let_def)
    next
      case False
      let ?s = "pset ?p (wait_for_child child (pr_of s ?p)) s"
      have b: "between ?s" by (rule current_leaves [OF assms(1,2)]) simp_all
      obtain nx s1 s2 ws where s: "pick_next_process t1 ?s = Inr (nx, s1)" "activate_process t2 nx s1 = Inr s2" "sched_ok s2"
          "nx \<in> known s" "cpu_process s2 = nx" "g_processes s2 = g_processes s" "cpu_idle s2 = cpu_idle s"
          "nx = hd (rr_ready ?s @ ws @ [cpu_idle ?s])" "set ws = {p \<in> val ` set (g_sleepers ?s). wake_time_ns (pr_of ?s p) \<le> t1}"
          "\<forall>q. q \<noteq> nx \<longrightarrow> pr_of s2 q = (if q \<in> set ws then wake (pr_of ?s q) else pr_of ?s q)"
        using switch_away [OF b, of t1 t2] by (auto simp: known_def)
      have w: "?p \<notin> set ws" using s(9) due_sleepers_asleep [of "{}" ?s ?p] b by (auto simp: between_def)
      have ne: "nx \<noteq> ?p" by (rule next_not [OF b s(8)]) (use assms(2) w in \<open>simp_all add: is_ready_def\<close>)
      obtain s3 where "context_switch ?p rsp nx s2 = Inr s3" "sched_ok s3" "cpu_process s3 = cpu_process s2"
          "g_processes s3 = g_processes s2" "cpu_idle s3 = cpu_idle s2" "\<forall>q. state (pr_of s3 q) = state (pr_of s2 q)"
        using sched_ok_switch [OF s(3), of ?p nx rsp] s(4,6,7) d(3) by (auto simp: known_def)
      with s ne w f Some c dc False sched_ok_cases [OF assms(1,2)] show ?thesis
        by (simp add: yield_to_child_round_def Let_def)
    qed
  qed
qed

lemma requeue_current:
  assumes "sched_ok s" "pick_next_process t1 s = Inr (nx, s1)" "nx \<noteq> cpu_process s"
    "cpu_process s \<noteq> cpu_idle s \<longrightarrow> is_ready (f (pr_of s1 (cpu_process s)))"
    "pml4 (f (pr_of s1 (cpu_process s))) = pml4 (pr_of s1 (cpu_process s))"
  shows "\<exists>s2 s3 s4. p_update (cpu_process s) f s1 = Inr s2 \<and> enqueue_if_runnable (cpu_process s) s2 = Inr s3 \<and>
    activate_process t2 nx s3 = Inr s4 \<and> sched_ok s4 \<and> cpu_process s4 = nx \<and> nx \<in> known s \<and>
    g_processes s4 = g_processes s \<and> cpu_idle s4 = cpu_idle s \<and>
    (cpu_process s \<noteq> cpu_idle s \<longrightarrow> cpu_process s \<in> set (rr_ready s4))"
proof -
  note d = sched_ok_D [OF assms(1)]
  let ?c = "cpu_process s" and ?x = "f (pr_of s1 (cpu_process s))"
  obtain ws where p: "tables_ok s1" "queues_ok {nx} s1" "wakes (set ws) s s1"
      "set ws = {p \<in> val ` set (g_sleepers s). wake_time_ns (pr_of s p) \<le> t1}"
      "case rr_ready s @ ws of [] \<Rightarrow> nx = cpu_idle s \<and> rr_ready s1 = []
       | p # ps \<Rightarrow> nx = p \<and> rr_ready s1 = ps \<and> nx \<in> set (g_processes s) \<and> is_ready (pr_of s1 nx)"
    using pick_next_ok [OF d(1,2), of t1] assms(2) by auto
  have c: "g_processes s1 = g_processes s" "cpu_idle s1 = cpu_idle s" "cpu_process s1 = ?c" using p(3) by (simp_all add: wakes_def)
  have nx: "nx \<in> known s" using p(5) by (simp add: known_def split: list.splits)
  have u: "p_update ?c f s1 = Inr (pset ?c ?x s1)" "pml4 ?x \<noteq> None"
    using known_deref(2,3) [OF p(1), of ?c] d(3) c assms(5) by (simp_all add: known_def)
  define s3 where "s3 = (if ?c = cpu_idle s then pset ?c ?x s1 else rr_enqueue ?c (pset ?c ?x s1))"
  have c3: "g_processes s3 = g_processes s" "cpu_idle s3 = cpu_idle s" "pr_of s3 q = (if q = ?c then ?x else pr_of s1 q)"
      "?c \<noteq> cpu_idle s \<Longrightarrow> ?c \<in> set (rr_ready s3)" for q
    using c by (simp_all add: s3_def)
  have q3: "queues_ok {nx} s3" "tables_ok s3" unfolding s3_def
  proof -
    show "tables_ok (if ?c = cpu_idle s then pset ?c ?x s1 else rr_enqueue ?c (pset ?c ?x s1))" using tables_ok_pset [OF p(1) u(2)] by auto
    show "queues_ok {nx} (if ?c = cpu_idle s then pset ?c ?x s1 else rr_enqueue ?c (pset ?c ?x s1))"
    proof (cases "?c = cpu_idle s")
      case True
      then show ?thesis using p(1,2) queues_unknown [OF p(2), of ?c ?x] d(1) c by (simp add: tables_ok_def)
    next
      case False
      have "?c \<notin> set ws" using p(4) d(4) False due_sleepers_asleep [OF d(2), of ?c] by auto
      then have "state (pr_of s1 ?c) = RUNNING" using p(3) d(4) False by (simp add: wakes_def)
      then have "unqueued {nx} s1 ?c" by (simp add: unqueued_def is_ready_def)
      then have "queues_ok ({nx} - {?c}) (rr_enqueue ?c (pset ?c ?x s1))"
        using queues_enqueue [OF p(2)] d(4) False c assms(4) by simp
      then show ?thesis using False assms(3) by (simp add: insert_Diff_if)
    qed
  qed
  have e: "enqueue_if_runnable ?c (pset ?c ?x s1) = Inr s3"
    using assms(4) c by (simp add: enqueue_if_runnable_def p_deref_def s3_def)
  obtain s4 where 4: "activate_process t2 nx s3 = Inr s4" "tables_ok s4" "queues_ok {} s4" "cpu_process s4 = nx"
      "g_processes s4 = g_processes s3" "cpu_idle s4 = cpu_idle s3" "rr_ready s4 = rr_ready s3"
      "state (pr_of s4 nx) = RUNNING" "\<forall>q. q \<noteq> nx \<longrightarrow> pr_of s4 q = pr_of s3 q"
    using activate_ok [of s3 nx t2] q3 nx c3 by (auto simp: known_def)
  have "state (pr_of s4 q) = RUNNING \<longleftrightarrow> q = nx" if "q \<in> set (g_processes s)" for q
  proof (cases "q = nx")
    case False
    then have "pr_of s4 q = (if q = ?c then ?x else pr_of s1 q)" using 4(9) c3(3) by auto
    moreover have "q = ?c \<Longrightarrow> state ?x \<noteq> RUNNING" using assms(4) d(1) that by (auto simp: is_ready_def tables_ok_def)
    moreover have "q \<noteq> ?c \<Longrightarrow> state (pr_of s1 q) \<noteq> RUNNING" using state_wakes [OF p(3)] d(5) that by auto
    ultimately show ?thesis using False by auto
  qed (simp add: 4(8))
  then have "sched_ok s4" using 4 c3 nx by (auto simp: sched_ok_def known_def)
  with u(1) e 4 nx c3 show ?thesis by auto
qed

lemma preempt_ok:
  assumes "sched_ok s"
  shows "\<exists>s'. preempt t1 t2 t3 rsp s = Inr s' \<and> sched_ok s' \<and> g_processes s' = g_processes s \<and> cpu_idle s' = cpu_idle s"
proof -
  note d = sched_ok_D [OF assms]
  let ?c = "cpu_process s"
  obtain nx s1 ws where p: "pick_next_process t2 s = Inr (nx, s1)" "tables_ok s1" "queues_ok {nx} s1" "wakes (set ws) s s1"
      "set ws = {p \<in> val ` set (g_sleepers s). wake_time_ns (pr_of s p) \<le> t2}"
      "case rr_ready s @ ws of [] \<Rightarrow> nx = cpu_idle s \<and> rr_ready s1 = []
       | p # ps \<Rightarrow> nx = p \<and> rr_ready s1 = ps \<and> nx \<in> set (g_processes s) \<and> is_ready (pr_of s1 nx)"
    using pick_next_ok [OF d(1,2), of t2] by (elim exE conjE) (rule that)
  have c1: "g_processes s1 = g_processes s" "cpu_idle s1 = cpu_idle s" "cpu_process s1 = ?c" using p(4) by (simp_all add: wakes_def)
  have run: "?c \<noteq> cpu_idle s \<Longrightarrow> state (pr_of s1 ?c) = RUNNING"
    using state_wakes [OF p(4)] p(5) d(4) due_sleepers_asleep [OF d(2), of ?c] by auto
  have go: "\<exists>b. (if ?c \<noteq> cpu_idle s then kbind (p_deref s ?c) (\<lambda>c. Inr (should_preempt (t1 - quantum_start_ns c))) else Inr True) = Inr b"
    using known_deref(1) [OF d(1)] d(3) by (auto simp: known_def)
  show ?thesis
  proof (cases "?c = nx")
    case True
    have "?c = cpu_idle s"
    proof (rule ccontr)
      assume n: "?c \<noteq> cpu_idle s"
      with True p(6) have "is_ready (pr_of s1 ?c)" by (auto split: list.splits)
      with run [OF n] show False by (simp add: is_ready_def)
    qed
    moreover from this True have "queues_ok {} s1" using p(3) c1 d(1) by (simp add: queues_drop tables_ok_def)
    ultimately have "sched_ok s1" using p(2) c1 d(3,5) state_wakes [OF p(4)]
      by (auto simp: sched_ok_def known_def tables_ok_def)
    with go True p(1) c1 assms show ?thesis by (auto simp: preempt_def Let_def)
  next
    case False
    have pa: "?c \<noteq> cpu_idle s \<longrightarrow> is_ready (pause (pr_of s1 ?c))" using run by (simp add: is_ready_def)
    obtain s2 s3 s4 where q: "p_update ?c pause s1 = Inr s2" "enqueue_if_runnable ?c s2 = Inr s3"
        "activate_process t3 nx s3 = Inr s4" "sched_ok s4" "cpu_process s4 = nx" "nx \<in> known s"
        "g_processes s4 = g_processes s" "cpu_idle s4 = cpu_idle s"
      using requeue_current [OF assms p(1), of pause t3] pa False by auto
    obtain s5 where "context_switch ?c rsp nx s4 = Inr s5" "sched_ok s5" "g_processes s5 = g_processes s4" "cpu_idle s5 = cpu_idle s4"
      using sched_ok_switch [OF q(4), of ?c nx rsp] q(6-8) d(3) by (auto simp: known_def)
    with go False p(1) q assms show ?thesis by (auto simp: preempt_def Let_def)
  qed
qed

lemma wake_sleepers_sched_ok:
  assumes "sched_ok s"
  shows "\<exists>s'. wake_sleepers t s = Inr s' \<and> sched_ok s' \<and> g_processes s' = g_processes s \<and> cpu_idle s' = cpu_idle s \<and> cpu_process s' = cpu_process s"
proof -
  note d = sched_ok_D [OF assms]
  obtain s' ws where w: "wake_sleepers t s = Inr s'" "tables_ok s'" "queues_ok {} s'" "wakes (set ws) s s'"
      "rr_ready s' = rr_ready s @ ws" "set ws = {p \<in> val ` set (g_sleepers s). wake_time_ns (pr_of s p) \<le> t}"
    using wake_sleepers_ok [OF d(1,2), of t] by (elim exE conjE) (rule that)
  have c: "g_processes s' = g_processes s" "cpu_idle s' = cpu_idle s" "cpu_process s' = cpu_process s" using w(4) by (simp_all add: wakes_def)
  have "state (pr_of s' p) = RUNNING \<longleftrightarrow> p = cpu_process s" if "p \<in> set (g_processes s)" for p
  proof -
    have "state (pr_of s p) = RUNNING \<longleftrightarrow> p = cpu_process s" using assms that by (simp add: sched_ok_def)
    moreover have "p \<in> set ws \<Longrightarrow> state (pr_of s p) = SLEEPING"
      using due_sleepers_asleep [OF d(2), of p] unfolding w(6) by blast
    ultimately show ?thesis using state_wakes [OF w(4), of p] by auto
  qed
  then have "sched_ok s'" using w(2,3) c assms by (simp add: sched_ok_def)
  with w(1) c show ?thesis by blast
qed

lemma tick_ok:
  assumes "sched_ok s"
  shows "\<exists>s'. tick t0 t1 t2 t3 rsp s = Inr s' \<and> sched_ok s' \<and> g_processes s' = g_processes s \<and> cpu_idle s' = cpu_idle s"
proof -
  obtain s1 where "wake_sleepers t0 s = Inr s1" "sched_ok s1" "g_processes s1 = g_processes s" "cpu_idle s1 = cpu_idle s"
    using wake_sleepers_sched_ok [OF assms] by blast
  with preempt_ok [of s1 t1 t2 t3 rsp] show ?thesis by (simp add: tick_def)
qed

lemma yield_new_process_ok:
  assumes "sched_ok s" "cpu_process s \<noteq> cpu_idle s"
  shows "\<exists>s'. yield_new_process t1 t2 s = Inr s' \<and> sched_ok s' \<and> g_processes s' = g_processes s \<and> cpu_idle s' = cpu_idle s \<and>
    cpu_process s \<in> set (rr_ready s')"
proof -
  note d = sched_ok_D [OF assms(1)]
  let ?c = "cpu_process s"
  obtain nx s1 ws where p: "pick_next_process t1 s = Inr (nx, s1)" "wakes (set ws) s s1"
      "set ws = {p \<in> val ` set (g_sleepers s). wake_time_ns (pr_of s p) \<le> t1}"
      "case rr_ready s @ ws of [] \<Rightarrow> nx = cpu_idle s \<and> rr_ready s1 = []
       | p # ps \<Rightarrow> nx = p \<and> rr_ready s1 = ps \<and> nx \<in> set (g_processes s) \<and> is_ready (pr_of s1 nx)"
    using pick_next_ok [OF d(1,2), of t1] by (elim exE conjE) (rule that)
  have "state (pr_of s1 ?c) = RUNNING"
    using state_wakes [OF p(2)] p(3) d(4) assms(2) due_sleepers_asleep [OF d(2), of ?c] by auto
  then have ne: "nx \<noteq> ?c" using p(4) assms(2) by (auto simp: is_ready_def split: list.splits)
  obtain s2 s3 s4 where q: "p_update ?c wake s1 = Inr s2" "enqueue_if_runnable ?c s2 = Inr s3"
      "activate_process t2 nx s3 = Inr s4" "sched_ok s4" "cpu_process s4 = nx" "nx \<in> known s"
      "g_processes s4 = g_processes s" "cpu_idle s4 = cpu_idle s" "?c \<in> set (rr_ready s4)"
    using requeue_current [OF assms(1) p(1) ne, of wake t2] assms(2) by auto
  obtain s5 where "permanent_context_switch nx s4 = Inr s5" "sched_ok s5" "s5 = s4\<lparr>cpu_rsp := kernel_rsp_saved (pr_of s4 nx)\<rparr>"
    using permanent_switch_ok [OF q(4), of nx] q(6-8) by (auto simp: known_def)
  with p(1) ne q show ?thesis by (simp add: yield_new_process_def Let_def)
qed

lemma wake_loop_sched_ok:
  assumes "sched_ok s"
  shows "\<exists>s'. wake_loop P (g_processes s) s = Inr s' \<and> sched_ok s' \<and> g_processes s' = g_processes s \<and> cpu_idle s' = cpu_idle s \<and>
    (\<forall>p \<in> set (g_processes s). is_blocked (pr_of s p) \<and> P (pr_of s p) \<longrightarrow> p \<in> set (rr_ready s'))"
proof -
  note d = sched_ok_D [OF assms]
  have dist: "distinct (g_processes s)" using d(1) by (simp add: tables_ok_def)
  obtain s' where w: "wake_loop P (g_processes s) s = Inr s'" "tables_ok s'" "queues_ok {} s'"
      "wakes {p \<in> set (g_processes s). is_blocked (pr_of s p) \<and> P (pr_of s p)} s s'" "g_sleepers s' = g_sleepers s"
      "rr_ready s' = rr_ready s @ filter (\<lambda>p. is_blocked (pr_of s p) \<and> P (pr_of s p)) (g_processes s)"
    using wake_loop_ok [OF d(1,2) dist order_refl, of P] by (elim exE conjE) (rule that)
  have c: "g_processes s' = g_processes s" "cpu_idle s' = cpu_idle s" "cpu_process s' = cpu_process s" using w(4) by (simp_all add: wakes_def)
  have "state (pr_of s' p) = RUNNING \<longleftrightarrow> p = cpu_process s" if "p \<in> set (g_processes s)" for p
    using state_wakes [OF w(4), of p] assms that by (auto simp: sched_ok_def is_blocked_def)
  then have "sched_ok s'" using w(2,3) c assms by (simp add: sched_ok_def)
  with w(1,6) c show ?thesis by auto
qed

lemma wake_single_ok:
  assumes "sched_ok s"
  shows "\<exists>s'. wake_single r s = Inr s' \<and> sched_ok s' \<and> g_processes s' = g_processes s \<and> cpu_idle s' = cpu_idle s"
proof (cases "r = W_SLEEP")
  case False
  note d = sched_ok_D [OF assms]
  let ?f = "find (\<lambda>p. is_blocked (pr_of s p) \<and> is_waiting_for r (pr_of s p)) (g_processes s)"
  show ?thesis
  proof (cases ?f)
    case None
    then show ?thesis using False assms wake_first_loop_ok [OF d(1,2) order_refl, of "is_waiting_for r"] by (simp add: wake_single_def)
  next
    case (Some p)
    then have p: "p \<in> set (g_processes s)" "is_blocked (pr_of s p)" using find_in [OF Some] by auto
    have "unqueued {} s p" using p(2) by (simp add: unqueued_def is_blocked_def is_ready_def)
    from wake_step [OF d(1,2) p(1) this] have "sched_ok (rr_enqueue p (pset p (wake (pr_of s p)) s))"
      using assms p by (auto simp: sched_ok_def is_blocked_def)
    then show ?thesis using False Some wake_first_loop_ok [OF d(1,2) order_refl, of "is_waiting_for r"] by (simp add: wake_single_def)
  qed
qed (simp add: wake_single_def assms)

lemma add_process_ok:
  assumes "sched_ok s" "p \<notin> known s" "procs s p = Some x" "pml4 x \<noteq> None" "is_ready x"
  shows "sched_ok (add_process p s) \<and> p \<in> set (rr_ready (add_process p s))"
proof -
  have x: "pr_of s p = x" "state x \<noteq> RUNNING" "state x \<noteq> SLEEPING" using assms(3,5) by (auto simp: pr_of_def is_ready_def)
  have g: "p \<notin> set (g_processes s)" "p \<noteq> cpu_idle s" using assms(2) by (auto simp: known_def)
  have "tables_ok (add_process p s)" using sched_ok_D(1) [OF assms(1)] g assms(3,4) x(1)
    by (auto simp: tables_ok_def add_process_def)
  moreover have "queues_ok {} (add_process p s)" using sched_ok_D(2) [OF assms(1)] g assms(5) x
    by (auto simp: queues_ok_def add_process_def)
  ultimately show ?thesis using assms(1) g x by (auto simp: sched_ok_def add_process_def)
qed

subsection \<open>Reaping\<close>

definition drop_process :: "nat \<Rightarrow> sched \<Rightarrow> sched" where
  "drop_process i s = s\<lparr>procs := (procs s)(g_processes s ! i := None),
     g_processes := take i (g_processes s) @ drop (Suc i) (g_processes s)\<rparr>"

lemma set_drop_nth: "distinct xs \<Longrightarrow> i < length xs \<Longrightarrow> set (take i xs @ drop (Suc i) xs) = set xs - {xs ! i}"
proof -
  assume d: "distinct xs" "i < length xs"
  have "xs = take i xs @ xs ! i # drop (Suc i) xs" using d(2) by (rule id_take_nth_drop)
  with d(1) have "distinct (take i xs @ xs ! i # drop (Suc i) xs)" "set xs = insert (xs ! i) (set (take i xs @ drop (Suc i) xs))"
    by (metis, metis Un_insert_right list.simps(15) set_append)
  then show ?thesis by auto
qed

lemma drop_process_simps:
  "g_processes (drop_process i s) = take i (g_processes s) @ drop (Suc i) (g_processes s)"
  "cpu_idle (drop_process i s) = cpu_idle s" "cpu_process (drop_process i s) = cpu_process s"
  "rr_ready (drop_process i s) = rr_ready s" "g_sleepers (drop_process i s) = g_sleepers s"
  "procs (drop_process i s) = (procs s)(g_processes s ! i := None)"
  "q \<noteq> g_processes s ! i \<Longrightarrow> pr_of (drop_process i s) q = pr_of s q"
  by (simp_all add: drop_process_def pr_of_def)

lemma drop_process_ok:
  assumes "sched_ok s" "i < length (g_processes s)" "is_dead (pr_of s (g_processes s ! i))"
  shows "sched_ok (drop_process i s)" "g_processes s ! i \<noteq> cpu_process s"
proof -
  note d = sched_ok_D [OF assms(1)]
  let ?p = "g_processes s ! i" and ?s = "drop_process i s"
  have dist: "distinct (g_processes s)" "?p \<in> set (g_processes s)" using d(1) assms(2) by (simp_all add: tables_ok_def)
  moreover have "cpu_idle s \<notin> set (g_processes s)" using d(1) by (simp add: tables_ok_def)
  ultimately have idle: "?p \<noteq> cpu_idle s" by metis
  have st: "set (g_processes ?s) = set (g_processes s) - {?p}" using set_drop_nth [OF dist(1) assms(2)] by (simp add: drop_process_simps)
  show ne: "?p \<noteq> cpu_process s" using d(4) assms(3) dist idle by (auto simp: is_dead_def)
  have pr: "pr_of ?s q = pr_of s q" if "q \<in> insert (cpu_idle s) (set (g_processes ?s))" for q
    using that st idle by (intro drop_process_simps(7)) auto
  have dead: "\<not> is_ready (pr_of s ?p)" "state (pr_of s ?p) \<noteq> SLEEPING" "state (pr_of s ?p) \<noteq> RUNNING"
    using assms(3) by (simp_all add: is_dead_def is_ready_def)
  have "distinct (g_processes ?s)" using dist(1) by (simp add: drop_process_simps set_take_disj_set_drop_if_distinct)
  then have "tables_ok ?s" using d(1) st pr idle by (auto simp: tables_ok_def drop_process_simps(2,6))
  moreover have "queues_ok {} ?s"
  proof -
    have n: "?p \<notin> val ` set (g_sleepers s)" using d(2) dead by (auto simp: queues_ok_def)
    have e: "{p \<in> set (g_processes ?s). Q (pr_of ?s p)} = {p \<in> set (g_processes s). Q (pr_of s p)}"
      if "\<not> Q (pr_of s ?p)" for Q :: "process \<Rightarrow> bool"
    proof (rule Collect_cong)
      fix q show "q \<in> set (g_processes ?s) \<and> Q (pr_of ?s q) \<longleftrightarrow> q \<in> set (g_processes s) \<and> Q (pr_of s q)"
      proof (cases "q = ?p")
        case True
        then show ?thesis using st that by simp
      next
        case False
        then have "q \<in> set (g_processes ?s) \<longleftrightarrow> q \<in> set (g_processes s)" using st by simp
        moreover have "q \<in> set (g_processes ?s) \<Longrightarrow> pr_of ?s q = pr_of s q" using pr by simp
        ultimately show ?thesis by auto
      qed
    qed
    have "set (rr_ready s) = {p \<in> set (g_processes ?s). is_ready (pr_of ?s p)}"
      using d(2) e [of is_ready] dead(1) by (simp add: queues_ok_def)
    moreover have "val ` set (g_sleepers s) = {p \<in> set (g_processes ?s). state (pr_of ?s p) = SLEEPING}"
      using d(2) e [of "\<lambda>x. state x = SLEEPING"] dead(2) by (simp add: queues_ok_def)
    moreover have "\<forall>n \<in> set (g_sleepers s). wake_time_ns (pr_of ?s (val n)) = key n"
    proof
      fix m assume m: "m \<in> set (g_sleepers s)"
      then have "val m \<noteq> ?p" using n by (metis imageI)
      with m d(2) show "wake_time_ns (pr_of ?s (val m)) = key m" by (simp add: queues_ok_def drop_process_simps(7))
    qed
    ultimately show ?thesis using d(2) by (simp add: queues_ok_def drop_process_simps)
  qed
  ultimately show "sched_ok ?s" using assms(1) st pr ne by (auto simp: sched_ok_def drop_process_simps(2,3))
qed

lemma reap_loop_ok:
  assumes "sched_ok s" "\<forall>p \<in> set (g_processes s). is_dead (pr_of s p) \<longrightarrow> None \<notin> set (fd_table (pr_of s p))" "i \<le> length (g_processes s)"
  shows "\<exists>s'. reap_loop i s = Inr s' \<and> sched_ok s' \<and> cpu_idle s' = cpu_idle s \<and> cpu_process s' = cpu_process s \<and> rr_ready s' = rr_ready s \<and>
    g_processes s' = take i (g_processes s) @ filter (\<lambda>p. \<not> is_dead (pr_of s p)) (drop i (g_processes s)) \<and>
    procs s' = (\<lambda>p. if p \<in> set (drop i (g_processes s)) \<and> is_dead (pr_of s p) then None else procs s p)"
  using assms
proof (induction "length (g_processes s) - i" arbitrary: i s)
  case 0
  then show ?case by (simp add: reap_loop.simps)
next
  case (Suc k)
  then have i: "i < length (g_processes s)" by simp
  let ?p = "g_processes s ! i"
  have pd: "p_deref s ?p = Inr (pr_of s ?p)" using known_deref(1) [OF sched_ok_D(1) [OF Suc.prems(1)]] i by simp
  have dr: "drop i (g_processes s) = ?p # drop (Suc i) (g_processes s)" using i by (simp add: Cons_nth_drop_Suc)
  show ?case
  proof (cases "is_dead (pr_of s ?p)")
    case False
    have "reap_loop i s = reap_loop (i + 1) s" using i pd False by (subst reap_loop.simps) (simp add: Let_def)
    moreover have "take (Suc i) (g_processes s) = take i (g_processes s) @ [?p]" using i by (rule take_Suc_conv_app_nth)
    moreover have k: "k = length (g_processes s) - (i + 1)" "i + 1 \<le> length (g_processes s)" using Suc.hyps(2) i by simp_all
    ultimately show ?thesis using Suc.hyps(1) [OF k(1) Suc.prems(1,2) k(2)] False dr by (auto simp: fun_eq_iff)
  next
    case True
    note dp = drop_process_ok [OF Suc.prems(1) i True]
    let ?s = "drop_process i s"
    have fd: "None \<notin> set (fd_table (pr_of s ?p))" using Suc.prems(2) i True by simp
    have step: "reap_loop i s = reap_loop i ?s"
      using i pd True fd dp(2) by (subst reap_loop.simps) (simp add: Let_def terminate_def drop_process_def)
    have dist: "distinct (g_processes s)" using sched_ok_D(1) [OF Suc.prems(1)] by (simp add: tables_ok_def)
    have notin: "?p \<notin> set (drop (Suc i) (g_processes s))"
      using dist dr by (metis distinct.simps(2) distinct_drop)
    have st: "set (g_processes ?s) = set (g_processes s) - {?p}" using set_drop_nth [OF dist i] by (simp add: drop_process_simps)
    have pr: "\<forall>q \<in> set (g_processes ?s). pr_of ?s q = pr_of s q" using st by (auto intro: drop_process_simps(7))
    have g: "take i (g_processes ?s) = take i (g_processes s)" "drop i (g_processes ?s) = drop (Suc i) (g_processes s)"
      using i by (simp_all add: drop_process_simps)
    have k: "k = length (g_processes ?s) - i" "i \<le> length (g_processes ?s)" using Suc.hyps(2) i by (simp_all add: drop_process_simps)
    have "\<forall>p \<in> set (g_processes ?s). is_dead (pr_of ?s p) \<longrightarrow> None \<notin> set (fd_table (pr_of ?s p))"
      using Suc.prems(2) st pr by auto
    from Suc.hyps(1) [OF k(1) dp(1) this k(2)] obtain s' where s': "reap_loop i ?s = Inr s'" "sched_ok s'" "cpu_idle s' = cpu_idle s"
        "cpu_process s' = cpu_process s" "rr_ready s' = rr_ready s"
        "g_processes s' = take i (g_processes s) @ filter (\<lambda>p. \<not> is_dead (pr_of ?s p)) (drop (Suc i) (g_processes s))"
        "procs s' = (\<lambda>p. if p \<in> set (drop (Suc i) (g_processes s)) \<and> is_dead (pr_of ?s p) then None else procs ?s p)"
      unfolding g by (auto simp: drop_process_simps)
    have eq: "pr_of ?s q = pr_of s q" if "q \<in> set (drop (Suc i) (g_processes s))" for q
      using pr that unfolding drop_process_simps(1) by simp
    have "filter (\<lambda>p. \<not> is_dead (pr_of ?s p)) (drop (Suc i) (g_processes s)) = filter (\<lambda>p. \<not> is_dead (pr_of s p)) (drop i (g_processes s))"
      using eq dr True by (auto intro!: filter_cong)
    moreover have "procs s' = (\<lambda>p. if p \<in> set (drop i (g_processes s)) \<and> is_dead (pr_of s p) then None else procs s p)"
      using s'(7) eq dr True notin by (auto simp: fun_eq_iff drop_process_simps)
    ultimately show ?thesis using step s' by simp
  qed
qed

end
