(* ===== verification/Scheduler_Props.thy ===== *)
theory Scheduler_Props
  imports Scheduler_Inv
begin

text \<open>
  The properties of the scheduler: the ready queue of the policy is refined by its \<^verbatim>\<open>klist\<close> and served
  in order, no sequence of operations panics or loses a process, each operation does what its comment
  promises, and the places where the code does not: a process that is preempted between marking
  itself asleep and entering the heap of sleepers, and the parent pointers that reaping leaves behind.
\<close>

section \<open>Operations as data\<close>

datatype sop =
    Tick u64 u64 u64 u64 u64
  | YieldDead u64 u64
  | YieldZombie u64 u64
  | YieldBlocked u64 u64 u64 WaitReason
  | YieldSleep u64 u64 u64 u64 u64
  | YieldMutex u64 u64 u64 paddr
  | YieldNew u64 u64
  | WaitChild u64 u64 u64 int
  | WakeSingle WaitReason
  | WakeAll WaitReason
  | WakeMutex paddr
  | AddProcess paddr process
  | Reap

text \<open>\<open>AddProcess p x\<close> is \<^verbatim>\<open>add_process\<close> on an object that \<^verbatim>\<open>new\<close> has just put at \<open>p\<close>.\<close>

fun exec :: "sop \<Rightarrow> sched \<Rightarrow> sched kres" where
  "exec (Tick t0 t1 t2 t3 rsp) s = tick t0 t1 t2 t3 rsp s"
| "exec (YieldDead t1 t2) s = yield_dead t1 t2 s"
| "exec (YieldZombie t1 t2) s = yield_zombie t1 t2 s"
| "exec (YieldBlocked t1 t2 rsp r) s = yield_blocked t1 t2 rsp r s"
| "exec (YieldSleep t0 t1 t2 rsp d) s = yield_sleep_ns t0 t1 t2 rsp d s"
| "exec (YieldMutex t1 t2 rsp m) s = yield_mutex t1 t2 rsp m s"
| "exec (YieldNew t1 t2) s = yield_new_process t1 t2 s"
| "exec (WaitChild t1 t2 rsp c) s = kbind (yield_to_child_round t1 t2 rsp c s) (\<lambda>(r, s'). Inr s')"
| "exec (WakeSingle r) s = wake_single r s"
| "exec (WakeAll r) s = wake_all r s"
| "exec (WakeMutex m) s = wake_mutex m s"
| "exec (AddProcess p x) s = Inr (add_process p (pset p x s))"
| "exec Reap s = reap s"

text \<open>
  What the callers provide: the idle process never yields, sleeping goes through \<^verbatim>\<open>yield_sleep_ns\<close>, a
  process that is added is new and ready and has page tables, a process that waits for a child finds
  the parents of the others alive, and a dead process has no descriptor that was closed.
\<close>

fun allowed :: "sop \<Rightarrow> sched \<Rightarrow> bool" where
  "allowed (YieldDead t1 t2) s = (cpu_process s \<noteq> cpu_idle s)"
| "allowed (YieldZombie t1 t2) s = (cpu_process s \<noteq> cpu_idle s)"
| "allowed (YieldBlocked t1 t2 rsp r) s = (cpu_process s \<noteq> cpu_idle s \<and> r \<noteq> W_SLEEP)"
| "allowed (YieldSleep t0 t1 t2 rsp d) s = (cpu_process s \<noteq> cpu_idle s)"
| "allowed (YieldMutex t1 t2 rsp m) s = (cpu_process s \<noteq> cpu_idle s)"
| "allowed (YieldNew t1 t2) s = (cpu_process s \<noteq> cpu_idle s)"
| "allowed (WaitChild t1 t2 rsp c) s = (cpu_process s \<noteq> cpu_idle s \<and> parents_ok s)"
| "allowed (AddProcess p x) s = (p \<notin> known s \<and> is_ready x \<and> pml4 x \<noteq> None)"
| "allowed Reap s = (\<forall>p \<in> set (g_processes s). is_dead (pr_of s p) \<longrightarrow> None \<notin> set (fd_table (pr_of s p)))"
| "allowed _ s = True"

lemma sched_ok_pset_new: "sched_ok s \<Longrightarrow> p \<notin> known s \<Longrightarrow> sched_ok (pset p x s)"
  by (auto simp: sched_ok_def known_def tables_ok_def queues_unknown)

lemma exec_ok:
  assumes "sched_ok s" "allowed op s"
  shows "\<exists>s'. exec op s = Inr s' \<and> sched_ok s'"
proof (cases op)
  case (Tick t0 t1 t2 t3 rsp)
  then show ?thesis using tick_ok [OF assms(1)] by fastforce
next
  case (YieldDead t1 t2)
  then show ?thesis using yield_dead_ok [OF assms(1)] assms(2) by fastforce
next
  case (YieldZombie t1 t2)
  then show ?thesis using yield_zombie_ok [OF assms(1), of t1 t2] assms(2) by auto
next
  case (YieldBlocked t1 t2 rsp r)
  then show ?thesis using yield_blocked_sched_ok [OF assms(1)] assms(2) by fastforce
next
  case (YieldSleep t0 t1 t2 rsp d)
  then show ?thesis using yield_sleep_ok [OF assms(1), of t0 t1 t2 rsp d] assms(2) by auto
next
  case (YieldMutex t1 t2 rsp m)
  then show ?thesis using yield_mutex_ok [OF assms(1)] assms(2) by fastforce
next
  case (YieldNew t1 t2)
  then show ?thesis using yield_new_process_ok [OF assms(1)] assms(2) by fastforce
next
  case (WaitChild t1 t2 rsp c)
  then show ?thesis using yield_to_child_ok [OF assms(1), of t1 t2 rsp c] assms(2) by auto
next
  case (WakeSingle r)
  then show ?thesis using wake_single_ok [OF assms(1)] by fastforce
next
  case (WakeAll r)
  then show ?thesis using wake_loop_sched_ok [OF assms(1), of "is_waiting_for r"] assms(1) by (auto simp: wake_all_def)
next
  case (WakeMutex m)
  then show ?thesis using wake_loop_sched_ok [OF assms(1), of "is_waiting_for_mutex m"] by (auto simp: wake_mutex_def)
next
  case (AddProcess p x)
  then show ?thesis using add_process_ok [of "pset p x s" p x] sched_ok_pset_new [OF assms(1)] assms(2) by (simp add: known_def)
next
  case Reap
  then show ?thesis using reap_loop_ok [OF assms(1), of 0] assms(2) by (auto simp: reap_def)
qed

primrec exec_all :: "sop list \<Rightarrow> sched \<Rightarrow> sched kres" where
  "exec_all [] s = Inr s"
| "exec_all (op # ops) s = kbind (exec op s) (exec_all ops)"

primrec allowed_all :: "sop list \<Rightarrow> sched \<Rightarrow> bool" where
  "allowed_all [] s \<longleftrightarrow> True"
| "allowed_all (op # ops) s \<longleftrightarrow> allowed op s \<and> (\<forall>s'. exec op s = Inr s' \<longrightarrow> allowed_all ops s')"

section \<open>A system with two processes\<close>

definition ex_sched :: sched where
  "ex_sched = \<lparr>procs = [0 \<mapsto> ex_process\<lparr>pid := 0, state := READY\<rparr>, 1 \<mapsto> ex_process, 2 \<mapsto> ex_process\<lparr>pid := 2, parent := Some 1, state := READY\<rparr>],
     g_processes = [1, 2], g_sleepers = [], rr_ready = [2], cpu_process = 1, cpu_idle = 0, cpu_preemption = True,
     cpu_kernel_rsp = 0, cpu_pml4 = None, cpu_fs_base = 0, tss_rsp0 = 0, cpu_rsp = 0\<rparr>"

lemma ex_sched_simps:
  "pr_of ex_sched 0 = ex_process\<lparr>pid := 0, state := READY\<rparr>" "pr_of ex_sched 1 = ex_process"
  "pr_of ex_sched 2 = ex_process\<lparr>pid := 2, parent := Some 1, state := READY\<rparr>"
  by (simp_all add: pr_of_def ex_sched_def)

lemma ex_sched_ok: "sched_ok ex_sched" "cpu_process ex_sched \<noteq> cpu_idle ex_sched" "parents_ok ex_sched" "cpu_process ex_sched = 1"
  "g_processes ex_sched = [1, 2]" "rr_ready ex_sched = [2]" "cpu_idle ex_sched = 0" "cpu_preemption ex_sched"
  by (auto simp: sched_ok_def tables_ok_def queues_ok_def parents_ok_def is_ready_def is_heap_def pr_of_def ex_sched_def ex_process_def)

text \<open>The same processes with the second one asleep until 5, or blocked on the mutex 5.\<close>

definition ex_sleeping :: sched where
  "ex_sleeping = pset 2 (ex_process\<lparr>pid := 2, state := SLEEPING, wake_time_ns := 5\<rparr>) ex_sched\<lparr>rr_ready := [], g_sleepers := [\<lparr>key = 5, val = 2\<rparr>]\<rparr>"

definition ex_blocked :: sched where
  "ex_blocked = pset 2 (ex_process\<lparr>pid := 2, state := BLOCKED, wait_reason := W_MUTEX, wait_mutex := Some 5\<rparr>) ex_sched\<lparr>rr_ready := []\<rparr>"

lemma ex_sleeping_ok: "sched_ok ex_sleeping" "g_processes ex_sleeping = [1, 2]" "rr_ready ex_sleeping = []"
  "state (pr_of ex_sleeping 1) = RUNNING" "state (pr_of ex_sleeping 2) = SLEEPING" "wake_time_ns (pr_of ex_sleeping 2) = 5"
  by (auto simp: ex_sleeping_def pset_def sched_ok_def tables_ok_def queues_ok_def is_ready_def is_heap_def pr_of_def ex_sched_def ex_process_def)

lemma ex_blocked_ok: "sched_ok ex_blocked" "g_processes ex_blocked = [1, 2]" "rr_ready ex_blocked = []"
  "is_blocked (pr_of ex_blocked 2)" "is_waiting_for_mutex 5 (pr_of ex_blocked 2)" "\<not> is_blocked (pr_of ex_blocked 1)"
  by (auto simp: ex_blocked_def pset_def sched_ok_def tables_ok_def queues_ok_def is_ready_def is_blocked_def is_waiting_for_def is_waiting_for_mutex_def is_heap_def pr_of_def ex_sched_def ex_process_def)

section \<open>Sleepers outside the heap\<close>

text \<open>
  A process that is marked asleep but is neither in the heap of sleepers nor in the ready queue nor on
  the CPU: no operation looks at it, so no operation changes that.
\<close>

definition stray :: "bool \<Rightarrow> paddr \<Rightarrow> sched \<Rightarrow> bool" where
  "stray off_cpu c s \<longleftrightarrow> c \<in> set (g_processes s) \<and> c \<in> dom (procs s) \<and> state (pr_of s c) = SLEEPING \<and> c \<notin> val ` set (g_sleepers s) \<and>
     c \<notin> set (rr_ready s) \<and> (off_cpu \<longrightarrow> c \<noteq> cpu_process s) \<and> c \<noteq> cpu_idle s"

abbreviation lost :: "paddr \<Rightarrow> sched \<Rightarrow> bool" where
  "lost \<equiv> stray True"

lemma lost_update: "p_update q f s = Inr s' \<Longrightarrow> q \<noteq> c \<Longrightarrow> stray b c s \<Longrightarrow> stray b c s'"
  by (auto simp: p_update_def p_deref_def stray_def pr_of_def split: option.splits)

lemma update_frame:
  "p_update q f s = Inr s' \<Longrightarrow> cpu_process s' = cpu_process s \<and> cpu_idle s' = cpu_idle s \<and> g_processes s' = g_processes s \<and>
     rr_ready s' = rr_ready s \<and> g_sleepers s' = g_sleepers s"
  by (auto simp: p_update_def kbind_Inr_iff)

lemma lost_enqueue: "q \<noteq> c \<Longrightarrow> stray b c s \<Longrightarrow> stray b c (rr_enqueue q s)"
  by (simp add: stray_def rr_enqueue_def pr_of_def)

lemma lost_not_blocked: "stray b c s \<Longrightarrow> p_deref s q = Inr x \<Longrightarrow> state x \<noteq> SLEEPING \<Longrightarrow> q \<noteq> c"
  by (auto simp: stray_def p_deref_def pr_of_def split: option.splits)

lemma lost_wake_loop: "wake_loop P ps s = Inr s' \<Longrightarrow> stray b c s \<Longrightarrow> stray b c s'"
proof (induction ps arbitrary: s)
  case (Cons p ps)
  then obtain x where x: "p_deref s p = Inr x" by (auto simp: kbind_Inr_iff)
  show ?case
  proof (cases "is_blocked x \<and> P x")
    case True
    with Cons.prems x obtain s1 where "p_update p wake s = Inr s1" "wake_loop P ps (rr_enqueue p s1) = Inr s'"
      by (auto simp: kbind_Inr_iff)
    moreover have "p \<noteq> c" using lost_not_blocked [OF Cons.prems(2) x] True by (simp add: is_blocked_def)
    ultimately show ?thesis using Cons.IH Cons.prems(2) lost_update lost_enqueue by blast
  next
    case False
    with Cons x show ?thesis by (simp add: if_not_P)
  qed
qed simp

lemma lost_wake_first: "wake_first_loop P ps s = Inr s' \<Longrightarrow> stray b c s \<Longrightarrow> stray b c s'"
proof (induction ps)
  case (Cons p ps)
  then obtain x where x: "p_deref s p = Inr x" by (auto simp: kbind_Inr_iff)
  show ?case
  proof (cases "is_blocked x \<and> P x")
    case True
    with Cons.prems x obtain s1 where "p_update p wake s = Inr s1" "rr_enqueue p s1 = s'"
      by (auto simp: kbind_Inr_iff)
    moreover have "p \<noteq> c" using lost_not_blocked [OF Cons.prems(2) x] True by (simp add: is_blocked_def)
    ultimately show ?thesis using Cons.prems(2) lost_update lost_enqueue by blast
  next
    case False
    with Cons x show ?thesis by (simp add: if_not_P)
  qed
qed simp

lemma kmin_pop_subset: "kmin_pop a = Inr b \<Longrightarrow> set b \<subseteq> set a"
proof (cases a rule: rev_cases)
  case (snoc ys y)
  assume b: "kmin_pop a = Inr b"
  show ?thesis
  proof (cases ys)
    case (Cons z zs)
    then have "b = heapify (<) (y # zs) 0" using b snoc by (simp add: kmin_pop_def heap_pop_def butlast_append)
    then have "mset b = mset (y # zs)" by simp
    then have "set b = set (y # zs)" by (rule mset_eq_setD)
    then show ?thesis using snoc Cons by auto
  qed (use b snoc in \<open>simp add: kmin_pop_def heap_pop_def\<close>)
qed (simp add: kmin_pop_def heap_pop_def)

lemma lost_wake_sleepers: "wake_sleepers t s = Inr s' \<Longrightarrow> stray b c s \<Longrightarrow> stray b c s'"
proof (induction "length (g_sleepers s)" arbitrary: s rule: less_induct)
  case less
  show ?case
  proof (cases "g_sleepers s = []")
    case True
    then show ?thesis using less.prems by (simp add: wake_sleepers.simps)
  next
    case ne: False
    let ?p = "val (g_sleepers s ! 0)"
    have pc: "?p \<noteq> c" using less.prems(2) ne by (auto simp: stray_def)
    obtain x where x: "p_deref s ?p = Inr x"
      using less.prems(1) ne by (subst (asm) wake_sleepers.simps) (auto simp: kmin_peak_def heap_peak_def kbind_Inr_iff)
    show ?thesis
    proof (cases "t < wake_time_ns x")
      case True
      then show ?thesis using less.prems x ne by (simp add: wake_sleepers.simps kmin_peak_def heap_peak_def)
    next
      case False
      then obtain s1 rest where r: "p_update ?p wake s = Inr s1" "kmin_pop (g_sleepers s) = Inr rest"
          "wake_sleepers t ((rr_enqueue ?p s1)\<lparr>g_sleepers := rest\<rparr>) = Inr s'"
        using less.prems(1) ne x by (subst (asm) wake_sleepers.simps) (auto simp: kmin_peak_def heap_peak_def kbind_Inr_iff)
      have "stray b c (rr_enqueue ?p s1)" using lost_update [OF r(1) pc less.prems(2)] pc lost_enqueue by blast
      then have "stray b c ((rr_enqueue ?p s1)\<lparr>g_sleepers := rest\<rparr>)"
        using kmin_pop_subset [OF r(2)] less.prems(2) by (auto simp: stray_def pr_of_def)
      then show ?thesis using less.hyps [OF _ r(3)] kmin_pop_shorter [OF r(2)] by simp
    qed
  qed
qed

lemma lost_pick_next: "pick_next_process t s = Inr (p, s') \<Longrightarrow> stray b c s \<Longrightarrow> stray b c s' \<and> p \<noteq> c"
proof -
  assume a: "pick_next_process t s = Inr (p, s')" "stray b c s"
  then obtain s1 where w: "wake_sleepers t s = Inr s1" by (auto simp: pick_next_process_def kbind_Inr_iff)
  then have l: "stray b c s1" using lost_wake_sleepers a(2) by blast
  show ?thesis
    using a(1) w l by (cases "rr_ready s1") (auto simp: pick_next_process_def rr_pick_next_def stray_def pr_of_def)
qed

lemma stray_update: "p_update q f s = Inr s' \<Longrightarrow> stray b c s \<Longrightarrow> state (f (pr_of s c)) = SLEEPING \<Longrightarrow> stray b c s'"
  by (auto simp: p_update_def p_deref_def stray_def pr_of_def split: option.splits)

lemma lost_activate: "activate_process t p s = Inr s' \<Longrightarrow> p \<noteq> c \<Longrightarrow> stray b c s \<Longrightarrow> lost c s'"
proof -
  assume a: "activate_process t p s = Inr s'" "p \<noteq> c" "stray b c s"
  then obtain s1 and x :: process where u: "p_update p (\<lambda>pr. (resume t pr)\<lparr>context_switches := context_switches pr + 1\<rparr>) s = Inr s1"
      "Inr (s1\<lparr>cpu_process := p, cpu_kernel_rsp := kernel_rsp x, cpu_pml4 := pml4 x, cpu_fs_base := fs_base x, tss_rsp0 := kernel_rsp x\<rparr>) =
        (Inr s' :: sched kres)"
    unfolding activate_process_def by (elim kbind_InrE) (rule that)
  from lost_update [OF u(1) a(2,3)] a(2) u(2) show ?thesis by (auto simp: stray_def pr_of_def)
qed

lemma lost_switch: "context_switch old rsp new s = Inr s' \<Longrightarrow> stray b c s \<Longrightarrow> stray b c s'"
proof -
  assume a: "context_switch old rsp new s = Inr s'" "stray b c s"
  then obtain s1 and x :: process where u: "p_update old (\<lambda>pr. pr\<lparr>kernel_rsp_saved := rsp\<rparr>) s = Inr s1" 
      "Inr (s1\<lparr>cpu_rsp := kernel_rsp_saved x\<rparr>) = (Inr s' :: sched kres)"
    unfolding context_switch_def by (elim kbind_InrE) (rule that)
  have "stray b c s1" using stray_update [OF u(1) a(2)] a(2) by (simp add: stray_def)
  with u(2) show ?thesis by (auto simp: stray_def pr_of_def)
qed

lemma lost_permanent: "permanent_context_switch new s = Inr s' \<Longrightarrow> lost c s \<Longrightarrow> lost c s'"
  by (auto simp: permanent_context_switch_def kbind_Inr_iff stray_def pr_of_def)

lemma lost_enqueue_if: "enqueue_if_runnable p s = Inr s' \<Longrightarrow> p \<noteq> c \<Longrightarrow> stray b c s \<Longrightarrow> stray b c s'"
  by (auto simp: enqueue_if_runnable_def kbind_Inr_iff lost_enqueue split: if_splits)

lemma lost_cpu: "lost c s \<Longrightarrow> cpu_process s \<noteq> c" "lost c s \<Longrightarrow> cpu_idle s \<noteq> c"
  by (auto simp: stray_def)

lemma lost_preempt: "preempt t1 t2 t3 rsp s = Inr s' \<Longrightarrow> lost c s \<Longrightarrow> lost c s'"
proof -
  assume a: "preempt t1 t2 t3 rsp s = Inr s'" "lost c s"
  consider "s' = s" | nx s1 where "pick_next_process t2 s = Inr (nx, s1)" "cpu_process s = nx" "s' = s1"
    | nx s1 s2 s3 s4 where "pick_next_process t2 s = Inr (nx, s1)" "p_update (cpu_process s) pause s1 = Inr s2"
      "enqueue_if_runnable (cpu_process s) s2 = Inr s3" "activate_process t3 nx s3 = Inr s4"
      "context_switch (cpu_process s) rsp nx s4 = Inr s'"
    using a(1) by (auto simp: preempt_def Let_def kbind_Inr_iff split: if_splits)
  then show ?thesis
  proof cases
    case 1
    with a(2) show ?thesis by simp
  next
    case 2
    with lost_pick_next [OF _ a(2)] show ?thesis by blast
  next
    case 3
    note l = lost_pick_next [OF 3(1) a(2)] lost_cpu(1) [OF a(2)]
    from lost_update [OF 3(2) l(2) conjunct1 [OF l(1)]] lost_enqueue_if [OF 3(3) l(2)] lost_activate [OF 3(4) conjunct2 [OF l(1)]]
      lost_switch [OF 3(5)] show ?thesis by blast
  qed
qed

text \<open>The tail that all yields share: pick the next process, activate it and switch to it.\<close>

lemma lost_tail:
  assumes "pick_next_process t1 s = Inr (p, s1)" "lost c s" "old \<noteq> c"
  shows "activate_process t2 p s1 = Inr s2 \<Longrightarrow> context_switch old rsp p s2 = Inr s' \<Longrightarrow> lost c s'"
    "activate_process t2 p s1 = Inr s2 \<Longrightarrow> permanent_context_switch p s2 = Inr s' \<Longrightarrow> lost c s'"
  using lost_pick_next [OF assms(1,2)] assms(3) lost_activate lost_switch lost_permanent by blast+

lemma lost_yield_dead: "yield_dead t1 t2 s = Inr s' \<Longrightarrow> lost c s \<Longrightarrow> lost c s'"
  unfolding yield_dead_def Let_def kbind_Inr_iff split_beta
  by (elim exE conjE) (metis lost_tail(2) lost_update lost_cpu(1) prod.collapse)

lemma lost_yield_zombie: "yield_zombie t1 t2 s = Inr s' \<Longrightarrow> lost c s \<Longrightarrow> lost c s'"
proof -
  assume a: "yield_zombie t1 t2 s = Inr s'" "lost c s"
  note pc = lost_cpu(1) [OF a(2)]
  obtain s1 and x :: process and s2 p s3 s4 where y: "p_update (cpu_process s) zombify s = Inr s1" "wake_loop (is_waiting_for_child (pid x)) (g_processes s1) s1 = Inr s2"
      "pick_next_process t1 s2 = Inr (p, s3)" "activate_process t2 p s3 = Inr s4" "permanent_context_switch p s4 = Inr s'"
    using a(1) unfolding yield_zombie_def wake_parents_def Let_def by (elim kbind_InrE2 kbind_InrE) (rule that)
  from lost_tail(2) [OF y(3) lost_wake_loop [OF y(2) lost_update [OF y(1) pc a(2)]] pc y(4,5)] show ?thesis .
qed

lemma lost_insert: "q \<noteq> c \<Longrightarrow> lost c s \<Longrightarrow> lost c (s\<lparr>g_sleepers := kmin_insert k q (g_sleepers s)\<rparr>)"
proof -
  have "set (kmin_insert k q (g_sleepers s)) = insert \<lparr>key = k, val = q\<rparr> (set (g_sleepers s))"
    using arg_cong [OF kmin.mset_ins [of k q "g_sleepers s"], of set_mset] by simp
  then show "q \<noteq> c \<Longrightarrow> lost c s \<Longrightarrow> ?thesis" by (auto simp: stray_def pr_of_def)
qed

lemma lost_yield_blocked: "yield_blocked t1 t2 rsp r s = Inr s' \<Longrightarrow> lost c s \<Longrightarrow> lost c s'"
proof -
  assume a: "yield_blocked t1 t2 rsp r s = Inr s'" "lost c s"
  then obtain s1 x where u: "p_update (cpu_process s) (wait_for r) s = Inr s1" "p_deref s1 (cpu_process s) = Inr x"
    by (auto simp: yield_blocked_def Let_def kbind_Inr_iff)
  let ?s2 = "if r = W_SLEEP then s1\<lparr>g_sleepers := kmin_insert (wake_time_ns x) (cpu_process s) (g_sleepers s1)\<rparr> else s1"
  have l2: "lost c ?s2" using lost_update [OF u(1) lost_cpu(1) [OF a(2)] a(2)] lost_insert [OF lost_cpu(1) [OF a(2)]] by simp
  obtain p s3 where p: "pick_next_process t1 ?s2 = Inr (p, s3)"
      "(if cpu_process s = p then p_update (cpu_process s) (resume t2) s3
        else kbind (activate_process t2 p s3) (context_switch (cpu_process s) rsp p)) = Inr s'"
    using a(1) u by (auto simp: yield_blocked_def Let_def kbind_Inr_iff)
  show ?thesis
    using p(2) lost_update [OF _ lost_cpu(1) [OF a(2)] conjunct1 [OF lost_pick_next [OF p(1) l2]]]
      lost_tail(1) [OF p(1) l2 lost_cpu(1) [OF a(2)]]
    by (auto simp: kbind_Inr_iff split: if_splits)
qed

lemma lost_yield_sleep: "yield_sleep_ns t0 t1 t2 rsp d s = Inr s' \<Longrightarrow> lost c s \<Longrightarrow> lost c s'"
  unfolding yield_sleep_ns_def kbind_Inr_iff using lost_update lost_cpu(1) lost_yield_blocked by blast

lemma lost_yield_mutex: "yield_mutex t1 t2 rsp m s = Inr s' \<Longrightarrow> lost c s \<Longrightarrow> lost c s'"
  unfolding yield_mutex_def kbind_Inr_iff using lost_update lost_cpu(1) lost_yield_blocked by blast

lemma lost_yield_new: "yield_new_process t1 t2 s = Inr s' \<Longrightarrow> lost c s \<Longrightarrow> lost c s'"
proof -
  assume a: "yield_new_process t1 t2 s = Inr s'" "lost c s"
  then obtain p s1 s2 s3 s4 where y: "pick_next_process t1 s = Inr (p, s1)" "p_update (cpu_process s) wake s1 = Inr s2"
      "enqueue_if_runnable (cpu_process s) s2 = Inr s3" "activate_process t2 p s3 = Inr s4" "permanent_context_switch p s4 = Inr s'"
    by (auto simp: yield_new_process_def Let_def kbind_Inr_iff)
  note l = lost_pick_next [OF y(1) a(2)] lost_cpu(1) [OF a(2)]
  from lost_update [OF y(2) l(2) conjunct1 [OF l(1)]] lost_enqueue_if [OF y(3) l(2)] lost_activate [OF y(4) conjunct2 [OF l(1)]]
    lost_permanent [OF y(5)] show ?thesis by blast
qed

lemma lost_wait_child: "yield_to_child_round t1 t2 rsp child s = Inr (r, s') \<Longrightarrow> lost c s \<Longrightarrow> lost c s'"
proof -
  assume a: "yield_to_child_round t1 t2 rsp child s = Inr (r, s')" "lost c s"
  note pc = lost_cpu(1) [OF a(2)]
  consider "s' = s"
    | q x s1 where "p_deref s q = Inr x" "is_zombie x" "p_update q kill s = Inr s1" "p_update (cpu_process s) (resume t1) s1 = Inr s'"
    | p s1 s2 s3 where "p_update (cpu_process s) (wait_for_child child) s = Inr s1" "pick_next_process t1 s1 = Inr (p, s2)"
        "activate_process t2 p s2 = Inr s3" "context_switch (cpu_process s) rsp p s3 = Inr s'"
    using a(1) by (auto simp: yield_to_child_round_def Let_def kbind_Inr_iff split: option.splits if_splits)
  then show ?thesis
  proof cases
    case 1
    with a(2) show ?thesis by simp
  next
    case 2
    have "q \<noteq> c" using lost_not_blocked [OF a(2) 2(1)] 2(2) by (simp add: is_zombie_def)
    from lost_update [OF 2(4) pc lost_update [OF 2(3) this a(2)]] show ?thesis .
  next
    case 3
    from lost_tail(1) [OF 3(2) lost_update [OF 3(1) pc a(2)] pc 3(3,4)] show ?thesis .
  qed
qed

lemma lost_reap: "reap_loop i s = Inr s' \<Longrightarrow> lost c s \<Longrightarrow> lost c s'"
proof (induction i s rule: reap_loop.induct)
  case (1 i s)
  show ?case
  proof (cases "i < length (g_processes s)")
    case i: True
    let ?p = "g_processes s ! i"
    let ?s1 = "s\<lparr>procs := (procs s)(?p := None), g_processes := take i (g_processes s) @ drop (Suc i) (g_processes s)\<rparr>"
    obtain x where x: "p_deref s ?p = Inr x" using 1(3) i by (subst (asm) reap_loop.simps) (auto simp: kbind_Inr_iff Let_def)
    show ?thesis
    proof (cases "is_dead x")
      case False
      then have "reap_loop (i + 1) s = Inr s'" using 1(3) i x by (subst (asm) reap_loop.simps) simp
      then show ?thesis using 1(1) [OF i refl x False] 1(4) by simp
    next
      case True
      then have pc: "?p \<noteq> c" using lost_not_blocked [OF 1(4) x] by (simp add: is_dead_def)
      have r: "?p \<noteq> cpu_process s" "terminate x = Inr ()" "reap_loop i ?s1 = Inr s'"
        using 1(3) i x True by (subst (asm) reap_loop.simps, auto simp: kbind_Inr_iff kassert_def Let_def split: if_splits)+
      have "c \<in> set (g_processes ?s1)"
        using 1(4) pc i id_take_nth_drop [OF i] by (auto simp: stray_def) (metis Un_iff list.set_intros(1) set_ConsD set_append)
      then have "lost c ?s1" using 1(4) pc by (auto simp: stray_def pr_of_def)
      then show ?thesis using 1(2) [OF i refl x, of "()" "()"] True r by simp
    qed
  next
    case False
    then show ?thesis using 1(3,4) by (simp add: reap_loop.simps)
  qed
qed

text \<open>A timer interrupt that finds its current process marked asleep pauses it for good.\<close>

lemma stray_not_enqueued: "enqueue_if_runnable c s = Inr s' \<Longrightarrow> stray b c s \<Longrightarrow> s' = s"
  by (auto simp: enqueue_if_runnable_def p_deref_def stray_def is_ready_def pr_of_def split: if_splits option.splits)

lemma stray_preempt:
  assumes "preempt t1 t2 t3 rsp s = Inr s'" "stray False (cpu_process s) s" "cpu_preemption s"
    "should_preempt (t1 - quantum_start_ns (pr_of s (cpu_process s)))"
  shows "lost (cpu_process s) s'"
proof -
  let ?c = "cpu_process s"
  have d: "p_deref s ?c = Inr (pr_of s ?c)" "?c \<noteq> cpu_idle s" using assms(2) by (auto simp: stray_def p_deref_def pr_of_def)
  obtain nx s1 where 1: "pick_next_process t2 s = Inr (nx, s1)" using assms d by (auto simp: preempt_def Let_def kbind_Inr_iff)
  note l1 = lost_pick_next [OF 1 assms(2)]
  obtain s2 s3 s4 where 2: "p_update ?c pause s1 = Inr s2" "enqueue_if_runnable ?c s2 = Inr s3" "activate_process t3 nx s3 = Inr s4"
      "context_switch ?c rsp nx s4 = Inr s'"
    using assms d 1 l1 by (auto simp: preempt_def Let_def kbind_Inr_iff)
  have "stray False ?c s2" using stray_update [OF 2(1) conjunct1 [OF l1]] l1 by (simp add: stray_def pause_def)
  moreover from this have "s3 = s2" using stray_not_enqueued [OF 2(2)] by simp
  ultimately have "lost ?c s4" using lost_activate [OF 2(3)] l1 by blast
  with lost_switch [OF 2(4)] show ?thesis by blast
qed

lemma lost_forever: "exec op s = Inr s' \<Longrightarrow> allowed op s \<Longrightarrow> lost c s \<Longrightarrow> lost c s'"
proof (cases op)
  case (AddProcess p x)
  then show "exec op s = Inr s' \<Longrightarrow> allowed op s \<Longrightarrow> lost c s \<Longrightarrow> lost c s'"
    by (auto simp: add_process_def rr_enqueue_def stray_def known_def pset_def pr_of_def)
qed (auto simp: tick_def wake_single_def wake_all_def wake_mutex_def reap_def kbind_Inr_iff lost_wake_sleepers
      intro: lost_wake_sleepers lost_preempt lost_yield_dead lost_yield_zombie lost_yield_blocked lost_yield_sleep lost_yield_mutex
        lost_yield_new lost_wait_child lost_wake_loop lost_wake_first lost_reap split: if_splits)

section \<open>Properties\<close>



text \<open>
  C37: the ready queue of \<^verbatim>\<open>RoundRobinScheduler\<close>, a \<^verbatim>\<open>klist\<close> on the heap, implements the list that the
  mechanism sees: when the \<^verbatim>\<open>klist\<close> represents the list, \<^verbatim>\<open>enqueue\<close> into an unused node and \<^verbatim>\<open>pick_next\<close>
  return, give the same process (or none), and leave a \<^verbatim>\<open>klist\<close> that represents the new list.
\<close>

theorem round_robin_refines:
  assumes "klq_rep q (rr_ready s)" "n \<notin> dom (fst q)"
  shows "(\<exists>q'. RoundRobin_enqueue n p q = Inr q' \<and> klq_rep q' (rr_ready (rr_enqueue p s))) \<and>
    (\<exists>q'. RoundRobin_pick_next q = Inr (fst (rr_pick_next s), q') \<and> klq_rep q' (rr_ready (snd (rr_pick_next s))))"
proof (intro conjI)
  from klq.enq [OF assms, of p] show "\<exists>q'. RoundRobin_enqueue n p q = Inr q' \<and> klq_rep q' (rr_ready (rr_enqueue p s))"
    by (simp add: RoundRobin_enqueue_def split_beta)
  show "\<exists>q'. RoundRobin_pick_next q = Inr (fst (rr_pick_next s), q') \<and> klq_rep q' (rr_ready (snd (rr_pick_next s)))"
  proof (cases "rr_ready s")
    case Nil
    then show ?thesis using klq.is_empty [OF assms(1)] assms(1)
      by (simp add: RoundRobin_pick_next_def rr_pick_next_def split_beta)
  next
    case (Cons x xs)
    with assms(1) have r: "klq_rep q (x # xs)" by simp
    from klq.first [OF r] klq.deq [OF r] klq.is_empty [OF r] Cons show ?thesis
      by (auto simp: RoundRobin_pick_next_def rr_pick_next_def split_beta)
  qed
qed

theorem round_robin_refines_witness:
  "\<exists>q'. RoundRobin_pick_next (ex_heap, ex_list) = Inr (Some 10, q') \<and> klq_rep q' [20]"
proof -
  have "klq_rep (ex_heap, ex_list) (rr_ready (ex_sched\<lparr>rr_ready := [10, 20]\<rparr>))"
    using ex_rep by (auto simp: klq_rep_def)
  from round_robin_refines [OF this, of 3 0] ex_fresh [of 3] show ?thesis by (simp add: rr_pick_next_def)
qed

text \<open>Interleaved calls of the policy, and the processes it picks.\<close>

datatype rr_op = Enq paddr | Pick

primrec rr_run :: "rr_op list \<Rightarrow> sched \<Rightarrow> paddr list \<times> sched" where
  "rr_run [] s = ([], s)"
| "rr_run (op # ops) s = (case op of
      Enq p \<Rightarrow> rr_run ops (rr_enqueue p s)
    | Pick \<Rightarrow> (case rr_pick_next s of (None, s1) \<Rightarrow> rr_run ops s1
        | (Some p, s1) \<Rightarrow> (let (out, s2) = rr_run ops s1 in (p # out, s2))))"

primrec enqueued :: "rr_op list \<Rightarrow> paddr list" where
  "enqueued [] = []"
| "enqueued (op # ops) = (case op of Enq p \<Rightarrow> p # enqueued ops | Pick \<Rightarrow> enqueued ops)"

text \<open>
  The policy is first come, first served: over any interleaving of \<^verbatim>\<open>enqueue\<close> and \<^verbatim>\<open>pick_next\<close>, the
  processes picked, in order, followed by those still waiting, are those that were waiting at the
  start followed by those enqueued, in order. Nobody is skipped, repeated or starved.
\<close>

theorem round_robin_fifo:
  "fst (rr_run ops s) @ rr_ready (snd (rr_run ops s)) = rr_ready s @ enqueued ops"
proof (induction ops arbitrary: s)
  case (Cons op ops)
  show ?case
  proof (cases op)
    case (Enq p)
    then show ?thesis using Cons.IH [of "rr_enqueue p s"] by simp
  next
    case Pick
    then show ?thesis using Cons.IH [of s] Cons.IH [of "s\<lparr>rr_ready := tl (rr_ready s)\<rparr>"]
      by (cases "rr_ready s") (auto simp: rr_pick_next_def split_beta Let_def)
  qed
qed simp

text \<open>
  \<^verbatim>\<open>wake_sleepers\<close> wakes exactly the processes whose waking time has come, in the order of their
  waking times, and puts them at the end of the ready queue; all others stay in the heap. It always
  terminates.
\<close>

theorem wake_sleepers_exact:
  assumes "sched_ok s"
  shows "\<exists>s' ws. wake_sleepers t s = Inr s' \<and> sched_ok s' \<and> rr_ready s' = rr_ready s @ ws \<and>
    set ws = {p \<in> set (g_processes s). state (pr_of s p) = SLEEPING \<and> wake_time_ns (pr_of s p) \<le> t} \<and>
    sorted (map (\<lambda>p. wake_time_ns (pr_of s p)) ws) \<and>
    {p \<in> set (g_processes s'). state (pr_of s' p) = SLEEPING} =
      {p \<in> set (g_processes s). state (pr_of s p) = SLEEPING \<and> t < wake_time_ns (pr_of s p)}"
proof -
  note d = sched_ok_D [OF assms]
  have sl: "val ` set (g_sleepers s) = {p \<in> set (g_processes s). state (pr_of s p) = SLEEPING}"
    using d(2) by (simp add: queues_ok_def)
  obtain s' ws where w: "wake_sleepers t s = Inr s'" "rr_ready s' = rr_ready s @ ws"
      "set ws = {p \<in> val ` set (g_sleepers s). wake_time_ns (pr_of s p) \<le> t}"
      "val ` set (g_sleepers s') = {p \<in> val ` set (g_sleepers s). t < wake_time_ns (pr_of s p)}"
      "sorted (map (\<lambda>p. wake_time_ns (pr_of s p)) ws)"
    using wake_sleepers_ok [OF d(1,2), of t] by (elim exE conjE) (rule that)
  have ok: "sched_ok s'" using wake_sleepers_sched_ok [OF assms, of t] w(1) by (elim exE conjE) simp
  then have sl': "val ` set (g_sleepers s') = {p \<in> set (g_processes s'). state (pr_of s' p) = SLEEPING}"
    using sched_ok_D(2) [OF ok] by (simp add: queues_ok_def)
  show ?thesis
  proof (intro exI conjI)
    show "wake_sleepers t s = Inr s'" "sched_ok s'" "rr_ready s' = rr_ready s @ ws"
      "sorted (map (\<lambda>p. wake_time_ns (pr_of s p)) ws)" using ok w(1,2,5) by simp_all
    show "set ws = {p \<in> set (g_processes s). state (pr_of s p) = SLEEPING \<and> wake_time_ns (pr_of s p) \<le> t}"
      using w(3) unfolding sl by simp
    show "{p \<in> set (g_processes s'). state (pr_of s' p) = SLEEPING} =
      {p \<in> set (g_processes s). state (pr_of s p) = SLEEPING \<and> t < wake_time_ns (pr_of s p)}"
      using w(4) unfolding sl sl' by simp
  qed
qed

text \<open>
  Waking by reason, by child and by mutex wakes exactly the blocked processes that wait for it,
  in the order of the process list, and leaves every other process as it was.
\<close>

theorem wake_exact:
  assumes "sched_ok s" "r \<noteq> W_SLEEP"
    and "f = wake_all r \<and> P = is_waiting_for r \<or> f = wake_parents c \<and> P = is_waiting_for_child c \<or>
         f = wake_mutex m \<and> P = is_waiting_for_mutex m"
  shows "\<exists>s'. f s = Inr s' \<and> sched_ok s' \<and>
    rr_ready s' = rr_ready s @ filter (\<lambda>p. is_blocked (pr_of s p) \<and> P (pr_of s p)) (g_processes s) \<and>
    (\<forall>p. pr_of s' p = (if p \<in> set (g_processes s) \<and> is_blocked (pr_of s p) \<and> P (pr_of s p) then wake (pr_of s p) else pr_of s p))"
proof -
  note d = sched_ok_D [OF assms(1)]
  have f: "f s = wake_loop P (g_processes s) s"
    using assms(2,3) by (auto simp: wake_all_def wake_parents_def wake_mutex_def)
  have dist: "distinct (g_processes s)" using d(1) by (simp add: tables_ok_def)
  obtain s' where w: "wake_loop P (g_processes s) s = Inr s'" "sched_ok s'" using wake_loop_sched_ok [OF assms(1)] by blast
  with wake_loop_ok [OF d(1,2) dist order_refl, of P] f show ?thesis by (auto simp: wakes_def)
qed

text \<open>
  C38: a process that exits becomes a zombie, every process blocked on it becomes runnable, and the
  CPU goes to another process; a dead process stays dead and never is the next to run.
\<close>

theorem exit_wakes_waiters:
  assumes "sched_ok s" "cpu_process s \<noteq> cpu_idle s"
  shows "(\<exists>s'. yield_zombie t1 t2 s = Inr s' \<and> sched_ok s' \<and> state (pr_of s' (cpu_process s)) = ZOMBIE \<and> cpu_process s' \<noteq> cpu_process s \<and>
      (\<forall>q \<in> set (g_processes s). is_blocked (pr_of s q) \<and> is_waiting_for_child (pid (pr_of s (cpu_process s))) (pr_of s q) \<longrightarrow>
         state (pr_of s' q) \<in> {READY, RUNNING})) \<and>
    (\<exists>s'. yield_dead t1 t2 s = Inr s' \<and> sched_ok s' \<and> state (pr_of s' (cpu_process s)) = DEAD \<and> cpu_process s' \<noteq> cpu_process s)"
  using yield_zombie_ok [OF assms, of t1 t2] yield_dead_ok [OF assms, of t1 t2] by blast

theorem exit_wakes_waiters_witness:
  "\<exists>s'. yield_zombie 1 2 ex_sched = Inr s' \<and> state (pr_of s' 1) = ZOMBIE \<and> cpu_process s' \<noteq> 1"
  using exit_wakes_waiters [OF ex_sched_ok(1,2), of 1 2] unfolding ex_sched_ok(4) by blast

text \<open>
  One round of waiting for a child. With the parents of all processes alive, it returns
  \<^verbatim>\<open>-ECHILD\<close> when there is no matching child, returns the exit status of a zombie child and marks
  it dead, preferring a zombie to a living child, and otherwise blocks the caller and switches away.
\<close>

theorem wait_for_child_round:
  assumes "sched_ok s" "cpu_process s \<noteq> cpu_idle s" "parents_ok s"
    and P: "P = is_child s (pid (pr_of s (cpu_process s))) child"
  shows "\<exists>r s'. yield_to_child_round t1 t2 rsp child s = Inr (r, s') \<and> sched_ok s' \<and>
    (case find (\<lambda>p. P p \<and> is_zombie (pr_of s p)) (g_processes s) of
       Some c \<Rightarrow> r = Some (exit_status (pr_of s c)) \<and> state (pr_of s' c) = DEAD \<and> cpu_process s' = cpu_process s
     | None \<Rightarrow> if \<exists>p \<in> set (g_processes s). P p
         then r = None \<and> state (pr_of s' (cpu_process s)) = BLOCKED \<and> cpu_process s' \<noteq> cpu_process s
         else r = Some (-10) \<and> s' = s)"
proof -
  obtain r s' where y: "yield_to_child_round t1 t2 rsp child s = Inr (r, s')" "sched_ok s'"
      "case find_child (cpu_process s) child s of
       Inr (Some c) \<Rightarrow> c \<in> set (g_processes s) \<and>
         (if is_zombie (pr_of s c) then r = Some (exit_status (pr_of s c)) \<and> state (pr_of s' c) = DEAD \<and> cpu_process s' = cpu_process s
          else r = None \<and> state (pr_of s' (cpu_process s)) = BLOCKED \<and> cpu_process s' \<noteq> cpu_process s)
     | Inr None \<Rightarrow> r = Some (-10) \<and> s' = s | _ \<Rightarrow> False"
    using yield_to_child_ok [OF assms(1-3), of t1 t2 rsp child] by (elim exE conjE) (rule that)
  have f: "find_child (cpu_process s) child s = Inr (
      case find (\<lambda>p. P p \<and> is_zombie (pr_of s p)) (g_processes s) of Some p \<Rightarrow> Some p | None \<Rightarrow> find P (g_processes s))"
    unfolding P using find_child_ok [OF assms(1,3), of child] by (simp add: Let_def)
  show ?thesis
  proof (cases "find (\<lambda>p. P p \<and> is_zombie (pr_of s p)) (g_processes s)")
    case z: None
    then have nz: "\<forall>p \<in> set (g_processes s). P p \<longrightarrow> \<not> is_zombie (pr_of s p)" by (auto simp: find_None_iff)
    show ?thesis
    proof (cases "find P (g_processes s)")
      case n: None
      then have "\<not> (\<exists>p \<in> set (g_processes s). P p)" by (auto simp: find_None_iff)
      then show ?thesis using y f z n by (intro exI [of _ r] exI [of _ s']) simp
    next
      case (Some c)
      then have "c \<in> set (g_processes s)" "P c" using find_in [OF Some] by auto
      then show ?thesis using y f z Some nz by (intro exI [of _ r] exI [of _ s']) auto
    qed
  next
    case (Some c)
    then have "is_zombie (pr_of s c)" using find_in [OF Some] by simp
    then show ?thesis using y f Some by (intro exI [of _ r] exI [of _ s']) simp
  qed
qed

text \<open>
  The reaper removes exactly the dead processes from the process list and deletes them, and
  changes nothing else, when no dead process has a closed descriptor; with one that does, it follows
  a null pointer.
\<close>

theorem reap_removes_dead:
  assumes "sched_ok s"
  shows "((\<forall>p \<in> set (g_processes s). is_dead (pr_of s p) \<longrightarrow> None \<notin> set (fd_table (pr_of s p))) \<longrightarrow>
      (\<exists>s'. reap s = Inr s' \<and> sched_ok s' \<and> rr_ready s' = rr_ready s \<and> cpu_process s' = cpu_process s \<and>
        g_processes s' = filter (\<lambda>p. \<not> is_dead (pr_of s p)) (g_processes s) \<and>
        procs s' = (\<lambda>p. if p \<in> set (g_processes s) \<and> is_dead (pr_of s p) then None else procs s p))) \<and>
    (\<forall>p ps. g_processes s = p # ps \<and> is_dead (pr_of s p) \<and> None \<in> set (fd_table (pr_of s p)) \<longrightarrow>
      reap s = Inl (Fault ''null file descriptor''))"
proof (intro conjI allI impI; (elim conjE)?)
  assume "\<forall>p \<in> set (g_processes s). is_dead (pr_of s p) \<longrightarrow> None \<notin> set (fd_table (pr_of s p))"
  from reap_loop_ok [OF assms this, of 0] show "\<exists>s'. reap s = Inr s' \<and> sched_ok s' \<and> rr_ready s' = rr_ready s \<and>
      cpu_process s' = cpu_process s \<and> g_processes s' = filter (\<lambda>p. \<not> is_dead (pr_of s p)) (g_processes s) \<and>
      procs s' = (\<lambda>p. if p \<in> set (g_processes s) \<and> is_dead (pr_of s p) then None else procs s p)"
    by (auto simp: reap_def)
next
  fix p ps
  assume p: "g_processes s = p # ps" "is_dead (pr_of s p)" "None \<in> set (fd_table (pr_of s p))"
  then have "p_deref s p = Inr (pr_of s p)" "p \<noteq> cpu_process s"
    using known_deref(1) [OF sched_ok_D(1) [OF assms], of p] assms by (auto simp: sched_ok_def is_dead_def)
  then show "reap s = Inl (Fault ''null file descriptor'')"
    unfolding reap_def using p by (subst reap_loop.simps) (simp add: terminate_def)
qed

text \<open>
  A parent that dies first. Deleting it leaves the parent pointer of its child in place, so a
  process that then waits for its children follows a pointer to a deleted object: after \<^verbatim>\<open>reap\<close> has
  removed the parent of a listed process, \<^verbatim>\<open>find_child\<close> for any child faults when it gets to it first.
\<close>

theorem reaped_parent_dangles:
  assumes "g_processes s = p # ps" "p \<in> dom (procs s)" "parent (pr_of s p) = Some q" "q \<notin> dom (procs s)" "w \<in> dom (procs s)"
  shows "find_child w (-1) s = Inl (Fault ''deleted process'')"
  using assms by (auto simp: find_child_def p_deref_def pr_of_def domIff)

text \<open>
  C39: a lost wake-up. \<^verbatim>\<open>yield_sleep_ns\<close> marks the current process asleep before it takes the lock and
  puts the process into the heap of sleepers. When a tick ends the time slice in between, the process is
  switched away and is in no queue; whatever the kernel does afterwards, it is never woken again.
\<close>

theorem preempted_sleeper_is_lost:
  assumes "sched_ok s" "cpu_process s \<noteq> cpu_idle s" "cpu_preemption s"
    "should_preempt (t1 - quantum_start_ns (pr_of s (cpu_process s)))"
    "preempt t1 t2 t3 rsp (pset (cpu_process s) (sleep_for t0 d (pr_of s (cpu_process s))) s) = Inr s1"
    "exec_all ops s1 = Inr s'" "allowed_all ops s1"
  shows "lost (cpu_process s) s'"
proof -
  let ?c = "cpu_process s" and ?s = "pset (cpu_process s) (sleep_for t0 d (pr_of s (cpu_process s))) s"
  have "?c \<notin> set (rr_ready s)" "?c \<notin> val ` set (g_sleepers s)" "?c \<in> set (g_processes s)"
    using sched_ok_D [OF assms(1)] assms(2) by (auto simp: queues_ok_def is_ready_def known_def)
  then have "stray False ?c ?s" using assms(2) by (simp add: stray_def pset_def pr_of_def)
  then have "lost ?c s1"
    using stray_preempt [OF assms(5)] assms(3,4) by (simp add: pset_def pr_of_def sleep_for_def wait_for_def)
  with assms(6,7) show ?thesis
  proof (induction ops arbitrary: s1)
    case (Cons op ops)
    then obtain s2 where "exec op s1 = Inr s2" by (auto simp: kbind_Inr_iff)
    with Cons lost_forever [of op s1 s2] show ?case by (auto simp: kbind_Inr_iff)
  qed simp
qed

theorem preempted_sleeper_is_lost_witness:
  "\<exists>s1. preempt 10000000 2 3 4 (pset 1 (sleep_for 0 5 (pr_of ex_sched 1)) ex_sched) = Inr s1 \<and> lost 1 s1"
proof -
  have q: "quantum_start_ns (pr_of ex_sched 1) = 0" by (simp add: ex_sched_simps ex_process_def del: One_nat_def)
  have "\<exists>s1. preempt 10000000 2 3 4 (pset 1 (sleep_for 0 5 (pr_of ex_sched 1)) ex_sched) = Inr s1"
    by (simp add: preempt_def pick_next_process_def wake_sleepers.simps rr_pick_next_def p_update_def p_deref_def enqueue_if_runnable_def
        activate_process_def context_switch_def ex_sched_def ex_process_def pset_def pr_of_def sleep_for_def wait_for_def should_preempt_def
        TIME_SLICE_NS_def pause_def is_ready_def resume_def kbind_def kassert_def Let_def del: One_nat_def)
  then obtain s1 where s1: "preempt 10000000 2 3 4 (pset 1 (sleep_for 0 5 (pr_of ex_sched 1)) ex_sched) = Inr s1" by blast
  with preempted_sleeper_is_lost [OF ex_sched_ok(1,2,8), of 10000000 2 3 4 0 5 s1 "[]" s1] q
  show ?thesis by (simp add: ex_sched_ok should_preempt_def TIME_SLICE_NS_def del: One_nat_def)
qed

end
