(* ===== verification/Framebuffer.thy ===== *)
theory Framebuffer
  imports Kstring
begin

text \<open>
  The frame buffer and the bitmap font: \<^verbatim>\<open>lib/framebuffer/framebuffer.cpp\<close>, \<^verbatim>\<open>include/framebuffer/framebuffer.hpp\<close> and \<^verbatim>\<open>include/gfx/fonts/font8x16.hpp\<close>. The video
  memory and the back buffer are lists of bytes and an access outside of them is a fault. Every drawing operation holds \<^verbatim>\<open>g_fb_spinlock\<close>, so it is one step.
  Coordinates are 32-bit and wrap around where they do in the code; in \<^verbatim>\<open>draw_line\<close>, whose arguments are checked against the size of the screen, they are integers.
\<close>

section \<open>Definitions\<close>

subsection \<open>The font\<close>

record font =
  font_width :: nat
  font_height :: nat
  get_glyph :: "char \<Rightarrow> u8 list"

definition font8x16 :: "u8 list list" where
  "font8x16 =
    [[0x00, 0x00, 0x00, 0x00, 0x00, 0x00, 0x00, 0x00, 0x00, 0x00, 0x00, 0x00, 0x00, 0x00, 0x00, 0x00],
     [0x00, 0x00, 0x18, 0x3C, 0x3C, 0x3C, 0x18, 0x18, 0x18, 0x00, 0x18, 0x18, 0x00, 0x00, 0x00, 0x00],
     [0x00, 0x66, 0x66, 0x66, 0x24, 0x00, 0x00, 0x00, 0x00, 0x00, 0x00, 0x00, 0x00, 0x00, 0x00, 0x00],
     [0x00, 0x00, 0x00, 0x6C, 0x6C, 0xFE, 0x6C, 0x6C, 0x6C, 0xFE, 0x6C, 0x6C, 0x00, 0x00, 0x00, 0x00],
     [0x18, 0x18, 0x7C, 0xC6, 0xC2, 0xC0, 0x7C, 0x06, 0x06, 0x86, 0xC6, 0x7C, 0x18, 0x18, 0x00, 0x00],
     [0x00, 0x00, 0x00, 0x00, 0xC2, 0xC6, 0x0C, 0x18, 0x30, 0x60, 0xC6, 0x86, 0x00, 0x00, 0x00, 0x00],
     [0x00, 0x00, 0x38, 0x6C, 0x6C, 0x38, 0x76, 0xDC, 0xCC, 0xCC, 0xCC, 0x76, 0x00, 0x00, 0x00, 0x00],
     [0x00, 0x30, 0x30, 0x30, 0x60, 0x00, 0x00, 0x00, 0x00, 0x00, 0x00, 0x00, 0x00, 0x00, 0x00, 0x00],
     [0x00, 0x00, 0x0C, 0x18, 0x30, 0x30, 0x30, 0x30, 0x30, 0x30, 0x18, 0x0C, 0x00, 0x00, 0x00, 0x00],
     [0x00, 0x00, 0x30, 0x18, 0x0C, 0x0C, 0x0C, 0x0C, 0x0C, 0x0C, 0x18, 0x30, 0x00, 0x00, 0x00, 0x00],
     [0x00, 0x00, 0x00, 0x00, 0x00, 0x66, 0x3C, 0xFF, 0x3C, 0x66, 0x00, 0x00, 0x00, 0x00, 0x00, 0x00],
     [0x00, 0x00, 0x00, 0x00, 0x00, 0x18, 0x18, 0x7E, 0x18, 0x18, 0x00, 0x00, 0x00, 0x00, 0x00, 0x00],
     [0x00, 0x00, 0x00, 0x00, 0x00, 0x00, 0x00, 0x00, 0x00, 0x18, 0x18, 0x18, 0x30, 0x00, 0x00, 0x00],
     [0x00, 0x00, 0x00, 0x00, 0x00, 0x00, 0x00, 0xFE, 0x00, 0x00, 0x00, 0x00, 0x00, 0x00, 0x00, 0x00],
     [0x00, 0x00, 0x00, 0x00, 0x00, 0x00, 0x00, 0x00, 0x00, 0x00, 0x18, 0x18, 0x00, 0x00, 0x00, 0x00],
     [0x00, 0x00, 0x00, 0x00, 0x02, 0x06, 0x0C, 0x18, 0x30, 0x60, 0xC0, 0x80, 0x00, 0x00, 0x00, 0x00],
     [0x00, 0x00, 0x38, 0x6C, 0xC6, 0xC6, 0xD6, 0xD6, 0xC6, 0xC6, 0x6C, 0x38, 0x00, 0x00, 0x00, 0x00],
     [0x00, 0x00, 0x18, 0x38, 0x78, 0x18, 0x18, 0x18, 0x18, 0x18, 0x18, 0x7E, 0x00, 0x00, 0x00, 0x00],
     [0x00, 0x00, 0x7C, 0xC6, 0x06, 0x0C, 0x18, 0x30, 0x60, 0xC0, 0xC6, 0xFE, 0x00, 0x00, 0x00, 0x00],
     [0x00, 0x00, 0x7C, 0xC6, 0x06, 0x06, 0x3C, 0x06, 0x06, 0x06, 0xC6, 0x7C, 0x00, 0x00, 0x00, 0x00],
     [0x00, 0x00, 0x0C, 0x1C, 0x3C, 0x6C, 0xCC, 0xFE, 0x0C, 0x0C, 0x0C, 0x1E, 0x00, 0x00, 0x00, 0x00],
     [0x00, 0x00, 0xFE, 0xC0, 0xC0, 0xC0, 0xFC, 0x06, 0x06, 0x06, 0xC6, 0x7C, 0x00, 0x00, 0x00, 0x00],
     [0x00, 0x00, 0x38, 0x60, 0xC0, 0xC0, 0xFC, 0xC6, 0xC6, 0xC6, 0xC6, 0x7C, 0x00, 0x00, 0x00, 0x00],
     [0x00, 0x00, 0xFE, 0xC6, 0x06, 0x06, 0x0C, 0x18, 0x30, 0x30, 0x30, 0x30, 0x00, 0x00, 0x00, 0x00],
     [0x00, 0x00, 0x7C, 0xC6, 0xC6, 0xC6, 0x7C, 0xC6, 0xC6, 0xC6, 0xC6, 0x7C, 0x00, 0x00, 0x00, 0x00],
     [0x00, 0x00, 0x7C, 0xC6, 0xC6, 0xC6, 0x7E, 0x06, 0x06, 0x06, 0x0C, 0x78, 0x00, 0x00, 0x00, 0x00],
     [0x00, 0x00, 0x00, 0x00, 0x18, 0x18, 0x00, 0x00, 0x00, 0x18, 0x18, 0x00, 0x00, 0x00, 0x00, 0x00],
     [0x00, 0x00, 0x00, 0x00, 0x18, 0x18, 0x00, 0x00, 0x00, 0x18, 0x18, 0x30, 0x00, 0x00, 0x00, 0x00],
     [0x00, 0x00, 0x00, 0x06, 0x0C, 0x18, 0x30, 0x60, 0x30, 0x18, 0x0C, 0x06, 0x00, 0x00, 0x00, 0x00],
     [0x00, 0x00, 0x00, 0x00, 0x00, 0x7E, 0x00, 0x00, 0x7E, 0x00, 0x00, 0x00, 0x00, 0x00, 0x00, 0x00],
     [0x00, 0x00, 0x00, 0x60, 0x30, 0x18, 0x0C, 0x06, 0x0C, 0x18, 0x30, 0x60, 0x00, 0x00, 0x00, 0x00],
     [0x00, 0x00, 0x7C, 0xC6, 0xC6, 0x0C, 0x18, 0x18, 0x18, 0x00, 0x18, 0x18, 0x00, 0x00, 0x00, 0x00],
     [0x00, 0x00, 0x00, 0x7C, 0xC6, 0xC6, 0xDE, 0xDE, 0xDE, 0xDC, 0xC0, 0x7C, 0x00, 0x00, 0x00, 0x00],
     [0x00, 0x00, 0x10, 0x38, 0x6C, 0xC6, 0xC6, 0xFE, 0xC6, 0xC6, 0xC6, 0xC6, 0x00, 0x00, 0x00, 0x00],
     [0x00, 0x00, 0xFC, 0x66, 0x66, 0x66, 0x7C, 0x66, 0x66, 0x66, 0x66, 0xFC, 0x00, 0x00, 0x00, 0x00],
     [0x00, 0x00, 0x3C, 0x66, 0xC2, 0xC0, 0xC0, 0xC0, 0xC0, 0xC2, 0x66, 0x3C, 0x00, 0x00, 0x00, 0x00],
     [0x00, 0x00, 0xF8, 0x6C, 0x66, 0x66, 0x66, 0x66, 0x66, 0x66, 0x6C, 0xF8, 0x00, 0x00, 0x00, 0x00],
     [0x00, 0x00, 0xFE, 0x66, 0x62, 0x68, 0x78, 0x68, 0x60, 0x62, 0x66, 0xFE, 0x00, 0x00, 0x00, 0x00],
     [0x00, 0x00, 0xFE, 0x66, 0x62, 0x68, 0x78, 0x68, 0x60, 0x60, 0x60, 0xF0, 0x00, 0x00, 0x00, 0x00],
     [0x00, 0x00, 0x3C, 0x66, 0xC2, 0xC0, 0xC0, 0xDE, 0xC6, 0xC6, 0x66, 0x3A, 0x00, 0x00, 0x00, 0x00],
     [0x00, 0x00, 0xC6, 0xC6, 0xC6, 0xC6, 0xFE, 0xC6, 0xC6, 0xC6, 0xC6, 0xC6, 0x00, 0x00, 0x00, 0x00],
     [0x00, 0x00, 0x3C, 0x18, 0x18, 0x18, 0x18, 0x18, 0x18, 0x18, 0x18, 0x3C, 0x00, 0x00, 0x00, 0x00],
     [0x00, 0x00, 0x1E, 0x0C, 0x0C, 0x0C, 0x0C, 0x0C, 0xCC, 0xCC, 0xCC, 0x78, 0x00, 0x00, 0x00, 0x00],
     [0x00, 0x00, 0xE6, 0x66, 0x66, 0x6C, 0x78, 0x78, 0x6C, 0x66, 0x66, 0xE6, 0x00, 0x00, 0x00, 0x00],
     [0x00, 0x00, 0xF0, 0x60, 0x60, 0x60, 0x60, 0x60, 0x60, 0x62, 0x66, 0xFE, 0x00, 0x00, 0x00, 0x00],
     [0x00, 0x00, 0xC6, 0xEE, 0xFE, 0xFE, 0xD6, 0xC6, 0xC6, 0xC6, 0xC6, 0xC6, 0x00, 0x00, 0x00, 0x00],
     [0x00, 0x00, 0xC6, 0xE6, 0xF6, 0xFE, 0xDE, 0xCE, 0xC6, 0xC6, 0xC6, 0xC6, 0x00, 0x00, 0x00, 0x00],
     [0x00, 0x00, 0x7C, 0xC6, 0xC6, 0xC6, 0xC6, 0xC6, 0xC6, 0xC6, 0xC6, 0x7C, 0x00, 0x00, 0x00, 0x00],
     [0x00, 0x00, 0xFC, 0x66, 0x66, 0x66, 0x7C, 0x60, 0x60, 0x60, 0x60, 0xF0, 0x00, 0x00, 0x00, 0x00],
     [0x00, 0x00, 0x7C, 0xC6, 0xC6, 0xC6, 0xC6, 0xC6, 0xC6, 0xD6, 0xDE, 0x7C, 0x0C, 0x0E, 0x00, 0x00],
     [0x00, 0x00, 0xFC, 0x66, 0x66, 0x66, 0x7C, 0x6C, 0x66, 0x66, 0x66, 0xE6, 0x00, 0x00, 0x00, 0x00],
     [0x00, 0x00, 0x7C, 0xC6, 0xC6, 0x60, 0x38, 0x0C, 0x06, 0xC6, 0xC6, 0x7C, 0x00, 0x00, 0x00, 0x00],
     [0x00, 0x00, 0xFF, 0xDB, 0x99, 0x18, 0x18, 0x18, 0x18, 0x18, 0x18, 0x3C, 0x00, 0x00, 0x00, 0x00],
     [0x00, 0x00, 0xC6, 0xC6, 0xC6, 0xC6, 0xC6, 0xC6, 0xC6, 0xC6, 0xC6, 0x7C, 0x00, 0x00, 0x00, 0x00],
     [0x00, 0x00, 0xC6, 0xC6, 0xC6, 0xC6, 0xC6, 0xC6, 0xC6, 0x6C, 0x38, 0x10, 0x00, 0x00, 0x00, 0x00],
     [0x00, 0x00, 0xC6, 0xC6, 0xC6, 0xC6, 0xD6, 0xD6, 0xD6, 0xFE, 0xEE, 0x6C, 0x00, 0x00, 0x00, 0x00],
     [0x00, 0x00, 0xC6, 0xC6, 0x6C, 0x7C, 0x38, 0x38, 0x7C, 0x6C, 0xC6, 0xC6, 0x00, 0x00, 0x00, 0x00],
     [0x00, 0x00, 0xC3, 0xC3, 0xC3, 0x66, 0x3C, 0x18, 0x18, 0x18, 0x18, 0x3C, 0x00, 0x00, 0x00, 0x00],
     [0x00, 0x00, 0xFE, 0xC6, 0x86, 0x0C, 0x18, 0x30, 0x60, 0xC2, 0xC6, 0xFE, 0x00, 0x00, 0x00, 0x00],
     [0x00, 0x00, 0x3C, 0x30, 0x30, 0x30, 0x30, 0x30, 0x30, 0x30, 0x30, 0x3C, 0x00, 0x00, 0x00, 0x00],
     [0x00, 0x00, 0x00, 0x80, 0xC0, 0xE0, 0x70, 0x38, 0x1C, 0x0E, 0x06, 0x02, 0x00, 0x00, 0x00, 0x00],
     [0x00, 0x00, 0x3C, 0x0C, 0x0C, 0x0C, 0x0C, 0x0C, 0x0C, 0x0C, 0x0C, 0x3C, 0x00, 0x00, 0x00, 0x00],
     [0x10, 0x38, 0x6C, 0xC6, 0x00, 0x00, 0x00, 0x00, 0x00, 0x00, 0x00, 0x00, 0x00, 0x00, 0x00, 0x00],
     [0x00, 0x00, 0x00, 0x00, 0x00, 0x00, 0x00, 0x00, 0x00, 0x00, 0x00, 0x00, 0x00, 0xFF, 0x00, 0x00],
     [0x30, 0x30, 0x18, 0x00, 0x00, 0x00, 0x00, 0x00, 0x00, 0x00, 0x00, 0x00, 0x00, 0x00, 0x00, 0x00],
     [0x00, 0x00, 0x00, 0x00, 0x00, 0x78, 0x0C, 0x7C, 0xCC, 0xCC, 0xCC, 0x76, 0x00, 0x00, 0x00, 0x00],
     [0x00, 0x00, 0xE0, 0x60, 0x60, 0x78, 0x6C, 0x66, 0x66, 0x66, 0x66, 0x7C, 0x00, 0x00, 0x00, 0x00],
     [0x00, 0x00, 0x00, 0x00, 0x00, 0x7C, 0xC6, 0xC0, 0xC0, 0xC0, 0xC6, 0x7C, 0x00, 0x00, 0x00, 0x00],
     [0x00, 0x00, 0x1C, 0x0C, 0x0C, 0x3C, 0x6C, 0xCC, 0xCC, 0xCC, 0xCC, 0x76, 0x00, 0x00, 0x00, 0x00],
     [0x00, 0x00, 0x00, 0x00, 0x00, 0x7C, 0xC6, 0xFE, 0xC0, 0xC0, 0xC6, 0x7C, 0x00, 0x00, 0x00, 0x00],
     [0x00, 0x00, 0x38, 0x6C, 0x64, 0x60, 0xF0, 0x60, 0x60, 0x60, 0x60, 0xF0, 0x00, 0x00, 0x00, 0x00],
     [0x00, 0x00, 0x00, 0x00, 0x00, 0x76, 0xCC, 0xCC, 0xCC, 0xCC, 0xCC, 0x7C, 0x0C, 0xCC, 0x78, 0x00],
     [0x00, 0x00, 0xE0, 0x60, 0x60, 0x6C, 0x76, 0x66, 0x66, 0x66, 0x66, 0xE6, 0x00, 0x00, 0x00, 0x00],
     [0x00, 0x00, 0x18, 0x18, 0x00, 0x38, 0x18, 0x18, 0x18, 0x18, 0x18, 0x3C, 0x00, 0x00, 0x00, 0x00],
     [0x00, 0x00, 0x06, 0x06, 0x00, 0x0E, 0x06, 0x06, 0x06, 0x06, 0x06, 0x06, 0x66, 0x66, 0x3C, 0x00],
     [0x00, 0x00, 0xE0, 0x60, 0x60, 0x66, 0x6C, 0x78, 0x78, 0x6C, 0x66, 0xE6, 0x00, 0x00, 0x00, 0x00],
     [0x00, 0x00, 0x38, 0x18, 0x18, 0x18, 0x18, 0x18, 0x18, 0x18, 0x18, 0x3C, 0x00, 0x00, 0x00, 0x00],
     [0x00, 0x00, 0x00, 0x00, 0x00, 0xE6, 0xFF, 0xDB, 0xDB, 0xDB, 0xDB, 0xDB, 0x00, 0x00, 0x00, 0x00],
     [0x00, 0x00, 0x00, 0x00, 0x00, 0xDC, 0x66, 0x66, 0x66, 0x66, 0x66, 0x66, 0x00, 0x00, 0x00, 0x00],
     [0x00, 0x00, 0x00, 0x00, 0x00, 0x7C, 0xC6, 0xC6, 0xC6, 0xC6, 0xC6, 0x7C, 0x00, 0x00, 0x00, 0x00],
     [0x00, 0x00, 0x00, 0x00, 0x00, 0xDC, 0x66, 0x66, 0x66, 0x66, 0x66, 0x7C, 0x60, 0x60, 0xF0, 0x00],
     [0x00, 0x00, 0x00, 0x00, 0x00, 0x76, 0xCC, 0xCC, 0xCC, 0xCC, 0xCC, 0x7C, 0x0C, 0x0C, 0x1E, 0x00],
     [0x00, 0x00, 0x00, 0x00, 0x00, 0xDC, 0x76, 0x66, 0x60, 0x60, 0x60, 0xF0, 0x00, 0x00, 0x00, 0x00],
     [0x00, 0x00, 0x00, 0x00, 0x00, 0x7C, 0xC6, 0x60, 0x38, 0x0C, 0xC6, 0x7C, 0x00, 0x00, 0x00, 0x00],
     [0x00, 0x00, 0x10, 0x30, 0x30, 0xFC, 0x30, 0x30, 0x30, 0x30, 0x36, 0x1C, 0x00, 0x00, 0x00, 0x00],
     [0x00, 0x00, 0x00, 0x00, 0x00, 0xCC, 0xCC, 0xCC, 0xCC, 0xCC, 0xCC, 0x76, 0x00, 0x00, 0x00, 0x00],
     [0x00, 0x00, 0x00, 0x00, 0x00, 0xC3, 0xC3, 0xC3, 0xC3, 0x66, 0x3C, 0x18, 0x00, 0x00, 0x00, 0x00],
     [0x00, 0x00, 0x00, 0x00, 0x00, 0xC6, 0xC6, 0xC6, 0xD6, 0xD6, 0xFE, 0x6C, 0x00, 0x00, 0x00, 0x00],
     [0x00, 0x00, 0x00, 0x00, 0x00, 0xC6, 0x6C, 0x38, 0x38, 0x38, 0x6C, 0xC6, 0x00, 0x00, 0x00, 0x00],
     [0x00, 0x00, 0x00, 0x00, 0x00, 0xC6, 0xC6, 0xC6, 0xC6, 0xC6, 0xC6, 0x7E, 0x06, 0x0C, 0xF8, 0x00],
     [0x00, 0x00, 0x00, 0x00, 0x00, 0xFE, 0xCC, 0x18, 0x30, 0x60, 0xC6, 0xFE, 0x00, 0x00, 0x00, 0x00],
     [0x00, 0x00, 0x0E, 0x18, 0x18, 0x18, 0x70, 0x18, 0x18, 0x18, 0x18, 0x0E, 0x00, 0x00, 0x00, 0x00],
     [0x00, 0x00, 0x18, 0x18, 0x18, 0x18, 0x00, 0x18, 0x18, 0x18, 0x18, 0x18, 0x00, 0x00, 0x00, 0x00],
     [0x00, 0x00, 0x70, 0x18, 0x18, 0x18, 0x0E, 0x18, 0x18, 0x18, 0x18, 0x70, 0x00, 0x00, 0x00, 0x00],
     [0x00, 0x00, 0x76, 0xDC, 0x00, 0x00, 0x00, 0x00, 0x00, 0x00, 0x00, 0x00, 0x00, 0x00, 0x00, 0x00]]"

text \<open>\<^verbatim>\<open>char\<close> is signed, so that the bytes from 128 on are below 32.\<close>

definition get_glyph8x16 :: "char \<Rightarrow> u8 list" where
  "get_glyph8x16 c = (if of_char c < (32 :: nat) \<or> of_char c > (126 :: nat) then font8x16 ! 0 else font8x16 ! (of_char c - 32))"

definition Font8x16 :: font where
  "Font8x16 = \<lparr>font_width = 8, font_height = 16, get_glyph = get_glyph8x16\<rparr>"

subsection \<open>The frame buffer\<close>

definition RGB_BLACK :: u32 where
  "RGB_BLACK = 0x00000000"

definition RGB_OFFB :: u64 where
  "RGB_OFFB = 0"

definition RGB_OFFG :: u64 where
  "RGB_OFFG = 1"

definition RGB_OFFR :: u64 where
  "RGB_OFFR = 2"

record FrameBufferInfo =
  fbi_width :: u64
  fbi_height :: u64
  fbi_pitch :: u64
  fbi_bpp :: u16
  fbi_vram :: "u8 list"

record framebuffer =
  fb_width :: u64
  fb_height :: u64
  fb_num_pixels :: u64
  fb_pitch :: u64
  fb_bpp :: u16
  vram :: "u8 list"
  vram_size :: u64
  vram_buff :: "u8 list"
  needs_redraw :: bool
  redraw_times :: "u64 list"

definition get_screen_width :: "framebuffer \<Rightarrow> u32" where
  "get_screen_width s = ucast (fb_width s)"

definition get_screen_height :: "framebuffer \<Rightarrow> u32" where
  "get_screen_height s = ucast (fb_height s)"

text \<open>\<^verbatim>\<open>y * fb_pitch\<close> is a product of 64-bit numbers, \<^verbatim>\<open>x * (fb_bpp / 8)\<close> one of 32-bit numbers.\<close>

definition get_pixel_offset :: "framebuffer \<Rightarrow> u32 \<Rightarrow> u32 \<Rightarrow> u64" where
  "get_pixel_offset s x y = ucast y * fb_pitch s + ucast (x * ucast (fb_bpp s div 8))"

text \<open>Copying the back buffer, eight bytes at a time; \<open>t\<close> and \<open>t'\<close> are the times before and after.\<close>

definition fb_redraw :: "u64 \<Rightarrow> u64 \<Rightarrow> framebuffer \<Rightarrow> framebuffer kres" where
  "fb_redraw t t' s = (if needs_redraw s
     then let n = unat (vram_size s div 8) * 8 in
       if n \<le> length (vram s) \<and> n \<le> length (vram_buff s)
       then Inr (s\<lparr>vram := take n (vram_buff s) @ drop n (vram s), needs_redraw := False, redraw_times := redraw_times s @ [t' - t]\<rparr>)
       else Inl (Fault ''out of bounds'')
     else Inr s)"

text \<open>\<open>raw\<close> is what the memory that \<^verbatim>\<open>new\<close> returns holds; it is as long as asked for. Starting the thread that redraws is the scheduler's.\<close>

definition fb_init :: "u8 list \<Rightarrow> FrameBufferInfo \<Rightarrow> framebuffer \<Rightarrow> framebuffer" where
  "fb_init raw info s = (let n = fbi_width info * fbi_height info; sz = n * ucast (fbi_bpp info div 8) in
     s\<lparr>fb_width := fbi_width info, fb_height := fbi_height info, fb_num_pixels := n, fb_pitch := fbi_pitch info, fb_bpp := fbi_bpp info,
       vram := fbi_vram info, vram_size := sz, vram_buff := take (unat sz) (raw @ replicate (unat sz) 0)\<rparr>)"

definition fb_get :: "u64 \<Rightarrow> framebuffer \<Rightarrow> u8 kres" where
  "fb_get i s = (if unat i < length (vram_buff s) then Inr (vram_buff s ! unat i) else Inl (Fault ''out of bounds''))"

definition fb_set :: "u64 \<Rightarrow> u8 \<Rightarrow> framebuffer \<Rightarrow> framebuffer kres" where
  "fb_set i v s = (if unat i < length (vram_buff s) then Inr (s\<lparr>vram_buff := (vram_buff s)[unat i := v]\<rparr>) else Inl (Fault ''out of bounds''))"

definition get_pixel :: "u32 \<Rightarrow> u32 \<Rightarrow> framebuffer \<Rightarrow> u32 kres" where
  "get_pixel x y s = (let offset = get_pixel_offset s x y in
     kbind (fb_get (offset + RGB_OFFB) s) (\<lambda>b. kbind (fb_get (offset + RGB_OFFG) s) (\<lambda>g. kbind (fb_get (offset + RGB_OFFR) s) (\<lambda>r.
       Inr (ucast b OR push_bit 8 (ucast g) OR push_bit 16 (ucast r))))))"

definition draw_pixel :: "u32 \<Rightarrow> u32 \<Rightarrow> u8 \<Rightarrow> u8 \<Rightarrow> u8 \<Rightarrow> framebuffer \<Rightarrow> framebuffer kres" where
  "draw_pixel x y red green blue s = (let offset = get_pixel_offset s x y in
     kbind (fb_set (offset + RGB_OFFB) blue s) (\<lambda>s. kbind (fb_set (offset + RGB_OFFG) green s) (\<lambda>s. kbind (fb_set (offset + RGB_OFFR) red s) (\<lambda>s.
       Inr (s\<lparr>needs_redraw := True\<rparr>)))))"

text \<open>The bytes of a colour.\<close>

definition c_blue :: "u32 \<Rightarrow> u8" where
  "c_blue color = ucast (color AND 0xFF)"

definition c_green :: "u32 \<Rightarrow> u8" where
  "c_green color = ucast (drop_bit 8 color AND 0xFF)"

definition c_red :: "u32 \<Rightarrow> u8" where
  "c_red color = ucast (drop_bit 16 color AND 0xFF)"

definition draw_pixel_color :: "u32 \<Rightarrow> u32 \<Rightarrow> u32 \<Rightarrow> framebuffer \<Rightarrow> framebuffer kres" where
  "draw_pixel_color x y color = draw_pixel x y (c_red color) (c_green color) (c_blue color)"

text \<open>The loops over a rectangle; its far edges wrap around.\<close>

definition over_rect :: "u32 \<Rightarrow> u32 \<Rightarrow> u32 \<Rightarrow> u32 \<Rightarrow> (u32 \<Rightarrow> u32 \<Rightarrow> framebuffer \<Rightarrow> framebuffer kres) \<Rightarrow> framebuffer \<Rightarrow> framebuffer kres" where
  "over_rect x y w h body = kfor (unat x) (unat (x + w)) (\<lambda>px. kfor (unat y) (unat (y + h)) (\<lambda>py. body (of_nat px) (of_nat py)))"

definition invert_rec :: "u32 \<Rightarrow> u32 \<Rightarrow> u32 \<Rightarrow> u32 \<Rightarrow> framebuffer \<Rightarrow> framebuffer kres" where
  "invert_rec x y w h = over_rect x y w h (\<lambda>px py s. kbind (get_pixel px py s) (\<lambda>color. draw_pixel_color px py (NOT color) s))"

text \<open>
  The loops of \<^verbatim>\<open>draw_x_dominant_line\<close> and \<^verbatim>\<open>draw_y_dominant_line\<close> are the same with the coordinates exchanged; \<open>a\<close> is the coordinate that moves in every iteration and \<open>plot\<close>
  the call of \<^verbatim>\<open>draw_pixel\<close>. The step of \<open>a\<close> is the sign of the difference of the end points, which is that of \<open>a1 - a\<close> in every iteration, for the loop ends when \<open>a\<close> has come to \<open>a1\<close>.
\<close>

function line_loop :: "(int \<Rightarrow> int \<Rightarrow> framebuffer \<Rightarrow> framebuffer kres) \<Rightarrow> int \<Rightarrow> int \<Rightarrow> int \<Rightarrow> int \<Rightarrow> int \<Rightarrow> int \<Rightarrow> int \<Rightarrow> framebuffer \<Rightarrow> framebuffer kres" where
  "line_loop plot a1 sb da db a b d s = (if a \<noteq> a1
     then kbind (plot a b s) (\<lambda>s.
       let (b, d) = (if d > 0 then (b + sb, d + 2 * (db - da)) else (b, d + 2 * db)) in
         line_loop plot a1 sb da db (a + (if a1 \<ge> a then 1 else - 1)) b d s)
     else Inr s)"
  by pat_completeness auto
termination
  by (relation "measure (\<lambda>(plot, a1, sb, da, db, a, b, d, s). nat \<bar>a1 - a\<bar>)") auto

declare line_loop.simps [simp del]

definition draw_x_dominant_line :: "int \<Rightarrow> int \<Rightarrow> int \<Rightarrow> int \<Rightarrow> int \<Rightarrow> int \<Rightarrow> u32 \<Rightarrow> framebuffer \<Rightarrow> framebuffer kres" where
  "draw_x_dominant_line x0 y0 x1 y1 dx dy color =
     line_loop (\<lambda>x y. draw_pixel (word_of_int x) (word_of_int y) (c_red color) (c_green color) (c_blue color))
       x1 (if y1 \<ge> y0 then 1 else - 1) dx dy x0 y0 (2 * dy - dx)"

definition draw_y_dominant_line :: "int \<Rightarrow> int \<Rightarrow> int \<Rightarrow> int \<Rightarrow> int \<Rightarrow> int \<Rightarrow> u32 \<Rightarrow> framebuffer \<Rightarrow> framebuffer kres" where
  "draw_y_dominant_line x0 y0 x1 y1 dx dy color =
     line_loop (\<lambda>y x. draw_pixel (word_of_int x) (word_of_int y) (c_red color) (c_green color) (c_blue color))
       y1 (if x1 \<ge> x0 then 1 else - 1) dy dx y0 x0 (2 * dx - dy)"

definition draw_line :: "int \<Rightarrow> int \<Rightarrow> int \<Rightarrow> int \<Rightarrow> u32 \<Rightarrow> framebuffer \<Rightarrow> framebuffer kres" where
  "draw_line x0 y0 x1 y1 color s = (let w = sint (ucast (fb_width s) :: u32); h = sint (ucast (fb_height s) :: u32) in
     kbind (kassert (x0 \<ge> 0 \<and> x0 < w) ''x0 out of bounds'') (\<lambda>_. kbind (kassert (x1 \<ge> 0 \<and> x1 < w) ''x1 out of bounds'') (\<lambda>_.
     kbind (kassert (y0 \<ge> 0 \<and> y0 < h) ''y0 out of bounds'') (\<lambda>_. kbind (kassert (y1 \<ge> 0 \<and> y1 < h) ''y1 out of bounds'') (\<lambda>_.
     let dx = \<bar>x1 - x0\<bar>; dy = \<bar>y1 - y0\<bar> in
       if dx \<ge> dy then draw_x_dominant_line x0 y0 x1 y1 dx dy color s else draw_y_dominant_line x0 y0 x1 y1 dx dy color s)))))"

definition outline_rect :: "u32 \<Rightarrow> u32 \<Rightarrow> u32 \<Rightarrow> u32 \<Rightarrow> u32 \<Rightarrow> framebuffer \<Rightarrow> framebuffer kres" where
  "outline_rect x y w h color s =
     kbind (kassert (ucast (x + w) < fb_width s) ''outline_rect'') (\<lambda>_. kbind (kassert (ucast (y + h) < fb_height s) ''outline_rect'') (\<lambda>_.
     kbind (kfor (unat x) (unat (x + w)) (\<lambda>px. draw_pixel (of_nat px) y (c_red color) (c_green color) (c_blue color)) s) (\<lambda>s.
     kbind (kfor (unat x) (unat (x + w)) (\<lambda>px. draw_pixel (of_nat px) (y + h) (c_red color) (c_green color) (c_blue color)) s) (\<lambda>s.
     kbind (kfor (unat y) (unat (y + h)) (\<lambda>py. draw_pixel x (of_nat py) (c_red color) (c_green color) (c_blue color)) s) (\<lambda>s.
     kfor (unat y) (unat (y + h)) (\<lambda>py. draw_pixel (x + w) (of_nat py) (c_red color) (c_green color) (c_blue color)) s)))))"

definition fill_rect :: "u32 \<Rightarrow> u32 \<Rightarrow> u32 \<Rightarrow> u32 \<Rightarrow> u32 \<Rightarrow> framebuffer \<Rightarrow> framebuffer kres" where
  "fill_rect x y w h color = over_rect x y w h (\<lambda>px py. draw_pixel px py (c_red color) (c_green color) (c_blue color))"

text \<open>A colour that is negative as an \<^verbatim>\<open>int\<close> leaves the background as it is.\<close>

definition draw_char :: "u32 \<Rightarrow> u32 \<Rightarrow> font option \<Rightarrow> char \<Rightarrow> u32 \<Rightarrow> u32 \<Rightarrow> framebuffer \<Rightarrow> framebuffer kres" where
  "draw_char x y font c fg bg s = (case font of None \<Rightarrow> Inl (Panic ''null pointer'') | Some font \<Rightarrow>
     kbind (kassert (ucast (x + of_nat (font_width font)) < fb_width s) ''x out of bounds'') (\<lambda>_.
     kbind (kassert (ucast (y + of_nat (font_height font)) < fb_height s) ''y out of bounds'') (\<lambda>_.
     let glyph = get_glyph font c in
       kfor 0 (font_height font) (\<lambda>gy s. if gy < length glyph
         then kfor 0 (font_width font) (\<lambda>gx s.
           if bit (glyph ! gy) (font_width font - gx - 1) then draw_pixel_color (x + of_nat gx) (y + of_nat gy) fg s
           else if sint bg \<ge> 0 then draw_pixel_color (x + of_nat gx) (y + of_nat gy) bg s
           else Inr s) s
         else Inl (Fault ''glyph'')) s)))"

definition draw_str :: "u32 \<Rightarrow> u32 \<Rightarrow> font option \<Rightarrow> string \<Rightarrow> u32 \<Rightarrow> u32 \<Rightarrow> framebuffer \<Rightarrow> framebuffer kres" where
  "draw_str x y font str fg bg s = (case font of None \<Rightarrow> Inl (Panic ''null pointer'') | Some f \<Rightarrow>
     kfor 0 (length str) (\<lambda>i. draw_char (x + of_nat i * of_nat (font_width f)) y font (str ! i) fg bg) s)"

text \<open>\<^verbatim>\<open>clear\<close> writes words of four bytes until its pointer is at the end of the buffer.\<close>

function clear_from :: "u32 \<Rightarrow> nat \<Rightarrow> framebuffer \<Rightarrow> framebuffer kres" where
  "clear_from color start s = (if start \<noteq> unat (vram_size s)
     then if start + 4 \<le> length (vram_buff s)
       then clear_from color (start + 4) (s\<lparr>vram_buff := (vram_buff s)[start := c_blue color, start + 1 := c_green color, start + 2 := c_red color, start + 3 := ucast (drop_bit 24 color)]\<rparr>)
       else Inl (Fault ''out of bounds'')
     else Inr s)"
  by pat_completeness auto
termination
  by (relation "measure (\<lambda>(c, i, s). length (vram_buff s) - i)") auto

declare clear_from.simps [simp del]

definition fb_clear :: "u32 \<Rightarrow> framebuffer \<Rightarrow> framebuffer kres" where
  "fb_clear color s = clear_from color 0 s"

definition clear_black :: "framebuffer \<Rightarrow> framebuffer kres" where
  "clear_black = fb_clear RGB_BLACK"

section \<open>Pixels\<close>

text \<open>A screen of \<open>w\<close> by \<open>h\<close> pixels of 32 bits, without padding between the rows.\<close>

definition fb_ok :: "nat \<Rightarrow> nat \<Rightarrow> framebuffer \<Rightarrow> bool" where
  "fb_ok w h s \<longleftrightarrow> fb_width s = of_nat w \<and> fb_height s = of_nat h \<and> fb_pitch s = of_nat (4 * w) \<and> fb_bpp s = 32 \<and>
     vram_size s = of_nat (4 * (w * h)) \<and> length (vram_buff s) = 4 * (w * h) \<and> w < 2 ^ 15 \<and> h < 2 ^ 15"

definition px_at :: "nat \<Rightarrow> nat \<Rightarrow> nat \<Rightarrow> nat" where
  "px_at w x y = 4 * (y * w + x)"

text \<open>Red, green and blue of a pixel.\<close>

definition pixel :: "nat \<Rightarrow> framebuffer \<Rightarrow> nat \<Rightarrow> nat \<Rightarrow> u8 \<times> u8 \<times> u8" where
  "pixel w s x y = (vram_buff s ! (px_at w x y + 2), vram_buff s ! (px_at w x y + 1), vram_buff s ! px_at w x y)"

lemma px_bound:
  assumes "x < w" "y < h"
  shows "px_at w x y + 3 < 4 * (w * h)"
proof -
  have "y * w + x < y * w + w" using assms(1) by simp
  also have "\<dots> = Suc y * w" by simp
  also have "\<dots> \<le> h * w" using assms(2) by (intro mult_le_mono1) simp
  finally show ?thesis by (simp add: px_at_def mult.commute)
qed

lemma px_inj:
  assumes "x < w" "x' < w" "j < 4" "j' < 4" "px_at w x y + j = px_at w x' y' + j'"
  shows "x = x' \<and> y = y' \<and> j = j'"
proof -
  have "(y * w + x) * 4 + j = (y' * w + x') * 4 + j'" using assms(5) by (simp add: px_at_def mult.commute)
  then have "((y * w + x) * 4 + j) div 4 = ((y' * w + x') * 4 + j') div 4" "((y * w + x) * 4 + j) mod 4 = ((y' * w + x') * 4 + j') mod 4" by simp_all
  then have a: "y * w + x = y' * w + x'" "j = j'" unfolding div_mult_self3 [OF zero_neq_numeral [symmetric]] mod_mult_self3 using assms(3,4) by (simp_all only: div_less mod_less)
  then have "(y * w + x) div w = (y' * w + x') div w" "(y * w + x) mod w = (y' * w + x') mod w" by simp_all
  then show ?thesis using assms(1,2) a(2) by simp
qed

lemma screen_bounds:
  assumes "fb_ok w h s" "x < w" "y < h"
  shows "px_at w x y + 3 < length (vram_buff s)" "length (vram_buff s) < 2 ^ 32" "x < 2 ^ 15" "y < 2 ^ 15"
proof -
  have "w * h \<le> 2 ^ 15 * 2 ^ 15" using assms(1) by (intro mult_le_mono) (simp_all add: fb_ok_def)
  moreover have "w * h < 2 ^ 15 * 2 ^ 15" using assms(1) by (intro mult_strict_mono) (simp_all add: fb_ok_def)
  ultimately show "length (vram_buff s) < 2 ^ 32" using assms(1) by (simp add: fb_ok_def mult.commute)
qed (use px_bound [OF assms(2,3)] assms in \<open>auto simp: fb_ok_def\<close>)

text \<open>A point that is not on the screen still has an offset in the buffer when it is not behind the last pixel.\<close>

lemma buffer_offset:
  assumes "fb_ok w h s" "x < 2 ^ 16" "y < 2 ^ 16" "y * w + x < w * h" "j < 4"
  shows "unat (get_pixel_offset s (of_nat x) (of_nat y) + of_nat j) = px_at w x y + j" "px_at w x y + 3 < length (vram_buff s)"
proof -
  have "w * h < 2 ^ 15 * 2 ^ 15" using assms(1) by (intro mult_strict_mono) (simp_all add: fb_ok_def)
  then have b: "4 * (w * h) < 2 ^ 32" by (simp add: mult.commute)
  have x: "ucast (of_nat x * ucast ((32 :: u16) div 8) :: u32) = (of_nat (x * 4) :: u64)"
  proof -
    have "(of_nat x * ucast ((32 :: u16) div 8) :: u32) = of_nat (x * 4)" by simp
    moreover have "unat (of_nat (x * 4) :: u32) = x * 4" using assms(2) unfolding unat_of_nat by (intro mod_less) simp
    ultimately show ?thesis by (metis of_nat_unat)
  qed
  have "unat (of_nat y :: u32) = y" using assms(3) by (simp add: unat_of_nat)
  then have "(ucast (of_nat y :: u32) :: u64) = of_nat y" by (metis of_nat_unat)
  then have "get_pixel_offset s (of_nat x) (of_nat y) + of_nat j = of_nat (px_at w x y + j)"
    unfolding get_pixel_offset_def using assms(1) x by (simp add: fb_ok_def px_at_def algebra_simps)
  moreover have "4 * i + j < 2 ^ 64" if "i < k" "4 * k < 2 ^ 32" for i k :: nat using that assms(5) by simp
  then have "px_at w x y + j < 2 ^ 64" unfolding px_at_def using assms(4) b by blast
  ultimately show "unat (get_pixel_offset s (of_nat x) (of_nat y) + of_nat j) = px_at w x y + j" by (simp only: unat_of_nat) (simp add: mod_less)
  show "px_at w x y + 3 < length (vram_buff s)" using assms(1,4) by (simp add: px_at_def fb_ok_def)
qed

lemma pixel_offset:
  assumes "fb_ok w h s" "x < w" "y < h" "j < 4"
  shows "unat (get_pixel_offset s (of_nat x) (of_nat y) + of_nat j) = px_at w x y + j"
  by (rule buffer_offset) (use screen_bounds [OF assms(1-3)] px_bound [OF assms(2,3)] assms in \<open>auto simp: px_at_def\<close>)

text \<open>The back buffer with one pixel set.\<close>

definition set_px :: "nat \<Rightarrow> nat \<Rightarrow> nat \<Rightarrow> u8 \<times> u8 \<times> u8 \<Rightarrow> framebuffer \<Rightarrow> framebuffer" where
  "set_px w x y c s = s\<lparr>vram_buff := (vram_buff s)[px_at w x y := snd (snd c), px_at w x y + 1 := fst (snd c), px_at w x y + 2 := fst c], needs_redraw := True\<rparr>"

lemma set_px_ok [simp]: "fb_ok w h (set_px w x y c s) \<longleftrightarrow> fb_ok w h s"
  by (simp add: fb_ok_def set_px_def)

lemma pixel_set_px:
  assumes "fb_ok w h s" "x < w" "y < h" "x' < w" "y' < h"
  shows "pixel w (set_px w x y c s) x' y' = (if x' = x \<and> y' = y then c else pixel w s x' y')"
proof -
  note b = screen_bounds [OF assms(1-3)]
  have n: "(vram_buff (set_px w x y c s)) ! (px_at w x' y' + j') =
      (if px_at w x' y' + j' = px_at w x y + 2 then fst c else if px_at w x' y' + j' = px_at w x y + 1 then fst (snd c)
       else if px_at w x' y' + j' = px_at w x y then snd (snd c) else vram_buff s ! (px_at w x' y' + j'))" for j'
    using b(1) by (simp add: set_px_def nth_list_update)
  have e: "px_at w x' y' + j' = px_at w x y + j \<longleftrightarrow> x' = x \<and> y' = y \<and> j' = j" if "j < 4" "j' < 4" for j j'
    using px_inj [of x' w x j' j y' y] that assms by auto
  have e0: "px_at w x' y' + j' = px_at w x y \<longleftrightarrow> x' = x \<and> y' = y \<and> j' = 0" if "j' < 4" for j'
    using e [of 0 j'] that by simp
  have c: "vram_buff (set_px w x y c s) ! (px_at w x' y' + j') = (if x' = x \<and> y' = y \<and> j' < 3 then [snd (snd c), fst (snd c), fst c] ! j' else vram_buff s ! (px_at w x' y' + j'))"
    if j': "j' < 4" for j'
  proof -
    have e2: "px_at w x' y' + j' = px_at w x y + 2 \<longleftrightarrow> x' = x \<and> y' = y \<and> j' = 2" by (rule e) (use j' in auto)
    have e1: "px_at w x' y' + j' = px_at w x y + 1 \<longleftrightarrow> x' = x \<and> y' = y \<and> j' = 1" by (rule e) (use j' in auto)
    consider "j' = 0" | "j' = 1" | "j' = 2" | "j' = 3" using j' by linarith
    then show ?thesis unfolding n e2 e1 e0 [OF j'] by cases auto
  qed
  show ?thesis using c [of 0] c [of 1] c [of 2] by (simp add: pixel_def numeral_2_eq_2)
qed

lemma draw_pixel_eq:
  assumes "fb_ok w h s" "x < w" "y < h"
  shows "draw_pixel (of_nat x) (of_nat y) r g b s = Inr (set_px w x y (r, g, b) s)"
proof -
  note b = screen_bounds [OF assms]
  have o: "unat (get_pixel_offset s (of_nat x) (of_nat y) + RGB_OFFB) = px_at w x y" "unat (get_pixel_offset s (of_nat x) (of_nat y) + RGB_OFFG) = px_at w x y + 1"
    "unat (get_pixel_offset s (of_nat x) (of_nat y) + RGB_OFFR) = px_at w x y + 2"
    using pixel_offset [OF assms, of 0] pixel_offset [OF assms, of 1] pixel_offset [OF assms, of 2] by (simp_all add: RGB_OFFB_def RGB_OFFG_def RGB_OFFR_def)
  show ?thesis using b(1) by (simp add: draw_pixel_def Let_def fb_set_def o set_px_def)
qed

definition rgb :: "u32 \<Rightarrow> u8 \<times> u8 \<times> u8" where
  "rgb c = (c_red c, c_green c, c_blue c)"

lemma draw_pixel_color_eq: "fb_ok w h s \<Longrightarrow> x < w \<Longrightarrow> y < h \<Longrightarrow> draw_pixel_color (of_nat x) (of_nat y) c s = Inr (set_px w x y (rgb c) s)"
  by (simp add: draw_pixel_color_def draw_pixel_eq rgb_def)

text \<open>Drawing or reading any point that has an offset in the buffer is no fault.\<close>

lemma draw_pixel_safe:
  assumes "fb_ok w h s" "x < 2 ^ 16" "y < 2 ^ 16" "y * w + x < w * h"
  shows "\<exists>s'. draw_pixel (of_nat x) (of_nat y) r g b s = Inr s' \<and> fb_ok w h s'"
proof -
  have o: "unat (get_pixel_offset s (of_nat x) (of_nat y) + RGB_OFFB) = px_at w x y" "unat (get_pixel_offset s (of_nat x) (of_nat y) + RGB_OFFG) = px_at w x y + 1"
    "unat (get_pixel_offset s (of_nat x) (of_nat y) + RGB_OFFR) = px_at w x y + 2"
    using buffer_offset(1) [OF assms, of 0] buffer_offset(1) [OF assms, of 1] buffer_offset(1) [OF assms, of 2] by (simp_all add: RGB_OFFB_def RGB_OFFG_def RGB_OFFR_def)
  show ?thesis using buffer_offset(2) [OF assms, of 0] assms(1) by (simp add: draw_pixel_def Let_def fb_set_def o fb_ok_def)
qed

lemma get_pixel_safe:
  assumes "fb_ok w h s" "x < 2 ^ 16" "y < 2 ^ 16" "y * w + x < w * h"
  shows "\<exists>p. get_pixel (of_nat x) (of_nat y) s = Inr p"
proof -
  have o: "unat (get_pixel_offset s (of_nat x) (of_nat y) + RGB_OFFB) = px_at w x y" "unat (get_pixel_offset s (of_nat x) (of_nat y) + RGB_OFFG) = px_at w x y + 1"
    "unat (get_pixel_offset s (of_nat x) (of_nat y) + RGB_OFFR) = px_at w x y + 2"
    using buffer_offset(1) [OF assms, of 0] buffer_offset(1) [OF assms, of 1] buffer_offset(1) [OF assms, of 2] by (simp_all add: RGB_OFFB_def RGB_OFFG_def RGB_OFFR_def)
  show ?thesis using buffer_offset(2) [OF assms, of 0] by (simp add: get_pixel_def Let_def fb_get_def o)
qed

text \<open>The colour that is read is the colour that was drawn.\<close>

definition of_rgb :: "u8 \<times> u8 \<times> u8 \<Rightarrow> u32" where
  "of_rgb c = (case c of (r, g, b) \<Rightarrow> ucast b OR push_bit 8 (ucast g) OR push_bit 16 (ucast r))"

lemma get_pixel_eq:
  assumes "fb_ok w h s" "x < w" "y < h"
  shows "get_pixel (of_nat x) (of_nat y) s = Inr (of_rgb (pixel w s x y))"
proof -
  note b = screen_bounds [OF assms]
  have o: "unat (get_pixel_offset s (of_nat x) (of_nat y) + RGB_OFFB) = px_at w x y" "unat (get_pixel_offset s (of_nat x) (of_nat y) + RGB_OFFG) = px_at w x y + 1"
    "unat (get_pixel_offset s (of_nat x) (of_nat y) + RGB_OFFR) = px_at w x y + 2"
    using pixel_offset [OF assms, of 0] pixel_offset [OF assms, of 1] pixel_offset [OF assms, of 2] by (simp_all add: RGB_OFFB_def RGB_OFFG_def RGB_OFFR_def)
  show ?thesis using b(1) by (simp add: get_pixel_def Let_def fb_get_def o pixel_def of_rgb_def)
qed

lemma and_ff: "(x :: u32) AND 0xFF = take_bit 8 x"
  by (simp add: take_bit_eq_mask mask_eq_exp_minus_1)

lemma rgb_not: "rgb (NOT (of_rgb (r, g, b))) = (NOT r, NOT g, NOT b)"
  unfolding rgb_def of_rgb_def c_red_def c_green_def c_blue_def and_ff prod.case
  by (intro prod_eqI; simp; intro bit_word_eqI; auto simp: bit_simps dest: bit_imp_le_length)

subsection \<open>Rectangles\<close>

text \<open>\<open>painted w h F s R s'\<close>: the pixels in \<open>R\<close> have changed by \<open>F\<close>, the others not.\<close>

definition painted :: "nat \<Rightarrow> nat \<Rightarrow> (nat \<Rightarrow> nat \<Rightarrow> u8 \<times> u8 \<times> u8 \<Rightarrow> u8 \<times> u8 \<times> u8) \<Rightarrow> framebuffer \<Rightarrow> (nat \<Rightarrow> nat \<Rightarrow> bool) \<Rightarrow> framebuffer \<Rightarrow> bool" where
  "painted w h F s R s' \<longleftrightarrow> fb_ok w h s' \<and> (\<forall>a < w. \<forall>b < h. pixel w s' a b = (if R a b then F a b (pixel w s a b) else pixel w s a b))"

lemma painted_cong: "painted w h F s R s' \<Longrightarrow> (\<And>a b. R a b \<longleftrightarrow> Q a b) \<Longrightarrow> painted w h F s Q s'"
  by (simp add: painted_def)

lemma painted_step:
  assumes "painted w h F s R u" "px < w" "i < h" "\<not> R px i"
  shows "painted w h F s (\<lambda>a b. R a b \<or> a = px \<and> b = i) (set_px w px i (F px i (pixel w u px i)) u)"
  using assms pixel_set_px [of w h u px i] by (auto simp: painted_def)

lemma painted_const:
  assumes "painted w h (\<lambda>_ _ _. c) s R u" "px < w" "i < h"
  shows "painted w h (\<lambda>_ _ _. c) s (\<lambda>a b. R a b \<or> a = px \<and> b = i) (set_px w px i c u)"
  using assms pixel_set_px [of w h u px i] by (auto simp: painted_def)

lemma painted_keep:
  assumes "painted w h F s R u" "F px i (pixel w s px i) = pixel w s px i"
  shows "painted w h F s (\<lambda>a b. R a b \<or> a = px \<and> b = i) u"
  using assms by (auto simp: painted_def)

text \<open>An operation on one pixel at a time, done once for each pixel of a rectangle.\<close>

lemma over_rect_ok:
  assumes "fb_ok w h s" "x + n \<le> w" "y + m \<le> h"
    and step: "\<And>s px py. fb_ok w h s \<Longrightarrow> px < w \<Longrightarrow> py < h \<Longrightarrow> body (of_nat px) (of_nat py) s = Inr (set_px w px py (F px py (pixel w s px py)) s)"
  shows "\<exists>s'. over_rect (of_nat x) (of_nat y) (of_nat n) (of_nat m) body s = Inr s' \<and>
    painted w h F s (\<lambda>a b. x \<le> a \<and> a < x + n \<and> y \<le> b \<and> b < y + m) s'"
proof -
  have u: "unat (of_nat x :: u32) = x" "unat (of_nat x + of_nat n :: u32) = x + n" "unat (of_nat y :: u32) = y" "unat (of_nat y + of_nat m :: u32) = y + m"
  proof -
    have l: "x + n < 2 ^ 32" "y + m < 2 ^ 32" using assms(1-3) by (auto simp: fb_ok_def)
    show "unat (of_nat x :: u32) = x" "unat (of_nat y :: u32) = y" using l by (simp_all add: unat_of_nat)
    have "(of_nat x + of_nat n :: u32) = of_nat (x + n)" "(of_nat y + of_nat m :: u32) = of_nat (y + m)" by simp_all
    then show "unat (of_nat x + of_nat n :: u32) = x + n" "unat (of_nat y + of_nat m :: u32) = y + m" using l by (simp_all only: unat_of_nat) simp_all
  qed
  let ?R = "\<lambda>px i a b. x \<le> a \<and> (a < px \<or> a = px \<and> b < i) \<and> y \<le> b \<and> b < y + m"
  have inner: "\<exists>t'. kfor y (y + m) (\<lambda>py. body (of_nat px) (of_nat py)) t = Inr t' \<and> painted w h F s (?R px (y + m)) t'"
    if px: "x \<le> px" "px < x + n" and t: "painted w h F s (?R px y) t" for px t
  proof (rule kfor_rule [where I = "\<lambda>i. painted w h F s (?R px i)"])
    fix i u assume i: "y \<le> i" "i < y + m" and u: "painted w h F s (?R px i) u"
    have b: "px < w" "i < h" using px i assms(2,3) by auto
    have "body (of_nat px) (of_nat i) u = Inr (set_px w px i (F px i (pixel w u px i)) u)" using step b u by (auto simp: painted_def)
    moreover have "painted w h F s (?R px (Suc i)) (set_px w px i (F px i (pixel w u px i)) u)"
      by (rule painted_cong [OF painted_step [OF u b]]) (use i px in \<open>auto simp: less_Suc_eq\<close>)
    ultimately show "\<exists>t'. body (of_nat px) (of_nat i) u = Inr t' \<and> painted w h F s (?R px (Suc i)) t'" by blast
  qed (use t in auto)
  have "\<exists>s'. kfor x (x + n) (\<lambda>px. kfor y (y + m) (\<lambda>py. body (of_nat px) (of_nat py))) s = Inr s' \<and> painted w h F s (?R (x + n) y) s'"
  proof (rule kfor_rule [where I = "\<lambda>px. painted w h F s (?R px y)"])
    fix px t assume px: "x \<le> px" "px < x + n" and t: "painted w h F s (?R px y) t"
    obtain t' where t': "kfor y (y + m) (\<lambda>py. body (of_nat px) (of_nat py)) t = Inr t'" "painted w h F s (?R px (y + m)) t'" using inner [OF px t] by blast
    have "painted w h F s (?R (Suc px) y) t'" by (rule painted_cong [OF t'(2)]) (auto simp: less_Suc_eq)
    then show "\<exists>t'. kfor y (y + m) (\<lambda>py. body (of_nat px) (of_nat py)) t = Inr t' \<and> painted w h F s (?R (Suc px) y) t'" using t'(1) by blast
  qed (use assms(1) in \<open>auto simp: painted_def\<close>)
  then obtain s' where s': "kfor x (x + n) (\<lambda>px. kfor y (y + m) (\<lambda>py. body (of_nat px) (of_nat py))) s = Inr s'" "painted w h F s (?R (x + n) y) s'" by blast
  have "painted w h F s (\<lambda>a b. x \<le> a \<and> a < x + n \<and> y \<le> b \<and> b < y + m) s'" by (rule painted_cong [OF s'(2)]) auto
  then show ?thesis using s'(1) unfolding over_rect_def u by auto
qed

subsection \<open>Lines\<close>

text \<open>
  Step \<open>k\<close> of the loop plots the point whose minor coordinate has moved by \<open>f k\<close>, which is within half a pixel of the exact \<open>k * db / da\<close>.
\<close>

definition near :: "int \<Rightarrow> int \<Rightarrow> nat \<Rightarrow> nat \<Rightarrow> bool" where
  "near da db k j \<longleftrightarrow> \<bar>2 * da * int j - 2 * db * int k\<bar> \<le> da"

lemma near_step:
  assumes "near da db k j" "0 \<le> db" "db \<le> da"
  shows "2 * db * (int k + 1) - da - 2 * da * int j > 0 \<Longrightarrow> near da db (Suc k) (Suc j)"
    and "\<not> 2 * db * (int k + 1) - da - 2 * da * int j > 0 \<Longrightarrow> near da db (Suc k) j"
  using assms by (auto simp: near_def algebra_simps abs_le_iff)

lemma near_le:
  assumes "near da db k j" "int k < da" "0 \<le> db"
  shows "int j \<le> db"
proof (rule ccontr)
  assume "\<not> int j \<le> db"
  then have "da * (db + 1) \<le> da * int j" using assms(2) by (intro mult_left_mono) auto
  moreover have "db * int k \<le> db * da" using assms by (intro mult_left_mono) auto
  ultimately show False using assms by (simp add: near_def algebra_simps abs_le_iff)
qed

lemma ex_from: "(\<exists>i. (k :: nat) \<le> i \<and> Q i) \<longleftrightarrow> Q k \<or> (\<exists>i. Suc k \<le> i \<and> Q i)"
  by (metis Suc_leI Suc_leD le_neq_implies_less order_refl)

lemma line_loop_ok:
  assumes db: "0 \<le> db" "db \<le> da" and sa: "sa = (if a1 \<ge> a0 then 1 else - 1)" "da = \<bar>a1 - a0\<bar>"
    and plot: "\<And>k j u. int k < da \<Longrightarrow> int j \<le> db \<Longrightarrow> fb_ok w h u \<Longrightarrow> fst (pt k j) < w \<and> snd (pt k j) < h \<and>
      plot (a0 + sa * int k) (b0 + sb * int j) u = Inr (set_px w (fst (pt k j)) (snd (pt k j)) c u)"
  shows "int (k + n) = da \<Longrightarrow> near da db k j \<Longrightarrow> painted w h (\<lambda>_ _ _. c) s R u \<Longrightarrow>
    \<exists>u' f. line_loop plot a1 sb da db (a0 + sa * int k) (b0 + sb * int j) (2 * db * (int k + 1) - da - 2 * da * int j) u = Inr u' \<and>
      (\<forall>i. k \<le> i \<and> int i < da \<longrightarrow> near da db i (f i)) \<and> (n > 0 \<longrightarrow> f k = j) \<and>
      painted w h (\<lambda>_ _ _. c) s (\<lambda>x y. R x y \<or> (\<exists>i. k \<le> i \<and> int i < da \<and> (x, y) = pt i (f i))) u'"
proof (induction n arbitrary: k j R u)
  case 0
  have "a0 + sa * int k = a1" using 0 sa by (auto split: if_splits)
  moreover have "painted w h (\<lambda>_ _ _. c) s (\<lambda>x y. R x y \<or> (\<exists>i. k \<le> i \<and> int i < da \<and> (x, y) = pt i ((\<lambda>_. 0) i))) u"
    by (rule painted_cong [OF 0(3)]) (use 0(1) in auto)
  ultimately show ?case using 0(1) by (subst line_loop.simps) (auto intro!: exI [of _ "\<lambda>_. 0"])
next
  case (Suc n)
  let ?d = "2 * db * (int k + 1) - da - 2 * da * int j"
  have k: "int k < da" "a0 + sa * int k \<noteq> a1" "a0 + sa * int k + (if a1 \<ge> a0 + sa * int k then 1 else - 1) = a0 + sa * int (Suc k)"
    using Suc.prems(1) sa by (auto split: if_splits)
  have j: "int j \<le> db" by (rule near_le [OF Suc.prems(2) k(1) db(1)])
  let ?x = "fst (pt k j)" and ?y = "snd (pt k j)"
  have p: "?x < w" "?y < h" "plot (a0 + sa * int k) (b0 + sb * int j) u = Inr (set_px w ?x ?y c u)"
    using plot [OF k(1) j, of u] Suc.prems(3) by (auto simp: painted_def)
  let ?R = "\<lambda>a b. R a b \<or> a = ?x \<and> b = ?y"
  have pt: "painted w h (\<lambda>_ _ _. c) s ?R (set_px w ?x ?y c u)" by (rule painted_const [OF Suc.prems(3) p(1,2)])
  define j' where "j' = (if ?d > 0 then Suc j else j)"
  have nj: "near da db (Suc k) j'" using near_step [OF Suc.prems(2) db] by (simp add: j'_def)
  have step: "(if ?d > 0 then (b0 + sb * int j + sb, ?d + 2 * (db - da)) else (b0 + sb * int j, ?d + 2 * db)) =
      (b0 + sb * int j', 2 * db * (int (Suc k) + 1) - da - 2 * da * int j')" by (simp add: j'_def algebra_simps)
  obtain u' f where u': "line_loop plot a1 sb da db (a0 + sa * int (Suc k)) (b0 + sb * int j') (2 * db * (int (Suc k) + 1) - da - 2 * da * int j') (set_px w ?x ?y c u) = Inr u'"
      "\<forall>i. Suc k \<le> i \<and> int i < da \<longrightarrow> near da db i (f i)"
      "painted w h (\<lambda>_ _ _. c) s (\<lambda>x y. ?R x y \<or> (\<exists>i. Suc k \<le> i \<and> int i < da \<and> (x, y) = pt i (f i))) u'"
    using Suc.IH [OF _ nj pt] Suc.prems(1) by auto
  let ?f = "f(k := j)"
  have "line_loop plot a1 sb da db (a0 + sa * int k) (b0 + sb * int j) ?d u = Inr u'"
    by (subst line_loop.simps) (simp only: k(2) p(3) step k(3) u'(1) kbind_simps Let_def prod.case if_True not_False_eq_True simp_thms)
  moreover have "\<forall>i. k \<le> i \<and> int i < da \<longrightarrow> near da db i (?f i)" using u'(2) Suc.prems(2) by (auto simp: Suc_le_eq)
  moreover have "painted w h (\<lambda>_ _ _. c) s (\<lambda>x y. R x y \<or> (\<exists>i. k \<le> i \<and> int i < da \<and> (x, y) = pt i (?f i))) u'"
  proof (rule painted_cong [OF u'(3)])
    fix x y
    have "(\<exists>i. k \<le> i \<and> int i < da \<and> (x, y) = pt i (?f i)) \<longleftrightarrow> x = ?x \<and> y = ?y \<or> (\<exists>i. Suc k \<le> i \<and> int i < da \<and> (x, y) = pt i (f i))"
    proof -
      have "(\<exists>i. Suc k \<le> i \<and> int i < da \<and> (x, y) = pt i (?f i)) \<longleftrightarrow> (\<exists>i. Suc k \<le> i \<and> int i < da \<and> (x, y) = pt i (f i))" by (rule iff_exI) auto
      moreover have "(int k < da \<and> (x, y) = pt k (?f k)) \<longleftrightarrow> x = ?x \<and> y = ?y" using k(1) by (simp add: prod_eq_iff)
      ultimately show ?thesis using ex_from [of k "\<lambda>i. int i < da \<and> (x, y) = pt i (?f i)"] by blast
    qed
    then show "(R x y \<or> x = ?x \<and> y = ?y) \<or> (\<exists>i. Suc k \<le> i \<and> int i < da \<and> (x, y) = pt i (f i)) \<longleftrightarrow>
        R x y \<or> (\<exists>i. k \<le> i \<and> int i < da \<and> (x, y) = pt i (?f i))" by blast
  qed
  ultimately show ?case by (intro exI [of _ u'] exI [of _ ?f]) auto
qed

lemma screen_int: "n < 2 ^ 15 \<Longrightarrow> sint (ucast (of_nat n :: u64) :: u32) = int n"
proof -
  assume n: "n < 2 ^ 15"
  have "unat (of_nat n :: u64) = n" using n by (simp add: unat_of_nat)
  then have "(ucast (of_nat n :: u64) :: u32) = of_nat n" by (metis of_nat_unat)
  moreover have "sint (of_nat n :: u32) = int n" using n by (simp add: signed_of_nat signed_take_bit_int_eq_self)
  ultimately show ?thesis by simp
qed

corollary line_points:
  assumes "0 \<le> db" "db \<le> da" "sa = (if a1 \<ge> a0 then 1 else - 1)" "da = \<bar>a1 - a0\<bar>" "fb_ok w h s"
    and "\<And>k j u. int k < da \<Longrightarrow> int j \<le> db \<Longrightarrow> fb_ok w h u \<Longrightarrow> fst (pt k j) < w \<and> snd (pt k j) < h \<and>
      plot (a0 + sa * int k) (b0 + sb * int j) u = Inr (set_px w (fst (pt k j)) (snd (pt k j)) c u)"
    and pt: "\<And>k j x y. int k < da \<Longrightarrow> int j \<le> db \<Longrightarrow> (x, y) = pt k j \<longleftrightarrow> (int x, int y) = Pt k j"
  shows "\<exists>u' f. line_loop plot a1 sb da db a0 b0 (2 * db - da) s = Inr u' \<and> (\<forall>i. int i < da \<longrightarrow> near da db i (f i)) \<and>
    painted w h (\<lambda>_ _ _. c) s (\<lambda>x y. \<exists>i. int i < da \<and> (int x, int y) = Pt i (f i)) u'"
proof -
  have p: "painted w h (\<lambda>_ _ _. c) s (\<lambda>_ _. False) s" using assms(5) by (simp add: painted_def)
  have n: "near da db 0 0" "int (0 + nat da) = da" using assms(1,2) by (simp_all add: near_def)
  have "\<exists>u' f. line_loop plot a1 sb da db (a0 + sa * int 0) (b0 + sb * int 0) (2 * db * (int 0 + 1) - da - 2 * da * int 0) s = Inr u' \<and>
      (\<forall>i. 0 \<le> i \<and> int i < da \<longrightarrow> near da db i (f i)) \<and> (nat da > 0 \<longrightarrow> f 0 = 0) \<and>
      painted w h (\<lambda>_ _ _. c) s (\<lambda>x y. False \<or> (\<exists>i. 0 \<le> i \<and> int i < da \<and> (x, y) = pt i (f i))) u'"
    by (rule line_loop_ok [where n = "nat da", OF assms(1-4)]) (fact assms(6) n(2,1) p)+
  then obtain u' f where u: "line_loop plot a1 sb da db (a0 + sa * int 0) (b0 + sb * int 0) (2 * db * (int 0 + 1) - da - 2 * da * int 0) s = Inr u'"
      "\<forall>i. 0 \<le> i \<and> int i < da \<longrightarrow> near da db i (f i)"
      "painted w h (\<lambda>_ _ _. c) s (\<lambda>x y. False \<or> (\<exists>i. 0 \<le> i \<and> int i < da \<and> (x, y) = pt i (f i))) u'"
    by (elim exE conjE) (rule that)
  have "painted w h (\<lambda>_ _ _. c) s (\<lambda>x y. \<exists>i. int i < da \<and> (int x, int y) = Pt i (f i)) u'"
  proof (rule painted_cong [OF u(3)])
    fix x y
    have "(x, y) = pt i (f i) \<longleftrightarrow> (int x, int y) = Pt i (f i)" if "int i < da" for i
      by (rule pt [OF that near_le [OF _ that assms(1)]]) (use u(2) that in auto)
    then show "False \<or> (\<exists>i. 0 \<le> i \<and> int i < da \<and> (x, y) = pt i (f i)) \<longleftrightarrow> (\<exists>i. int i < da \<and> (int x, int y) = Pt i (f i))" by auto
  qed
  then show ?thesis using u(1,2) by auto
qed

text \<open>The two directions of a line and its points, for end points on the screen.\<close>

definition dir :: "nat \<Rightarrow> nat \<Rightarrow> int" where
  "dir a0 a1 = (if int a1 \<ge> int a0 then 1 else - 1)"

definition dist :: "nat \<Rightarrow> nat \<Rightarrow> int" where
  "dist a0 a1 = \<bar>int a1 - int a0\<bar>"

definition line_pt :: "nat \<Rightarrow> nat \<Rightarrow> nat \<Rightarrow> nat \<Rightarrow> nat \<Rightarrow> nat \<Rightarrow> int \<times> int" where
  "line_pt x0 y0 x1 y1 k j = (if dist x0 x1 \<ge> dist y0 y1 then (int x0 + dir x0 x1 * int k, int y0 + dir y0 y1 * int j)
     else (int x0 + dir x0 x1 * int j, int y0 + dir y0 y1 * int k))"

lemma between: "x0 < n \<Longrightarrow> x1 < n \<Longrightarrow> int k \<le> dist x0 x1 \<Longrightarrow> 0 \<le> int x0 + dir x0 x1 * int k \<and> int x0 + dir x0 x1 * int k < int n"
  by (auto simp: dir_def dist_def split: if_splits)

lemma draw_line_points:
  assumes "fb_ok w h s" "x0 < w" "x1 < w" "y0 < h" "y1 < h"
  shows "\<exists>s' f. draw_line (int x0) (int y0) (int x1) (int y1) color s = Inr s' \<and>
    (\<forall>k. int k < max (dist x0 x1) (dist y0 y1) \<longrightarrow> near (max (dist x0 x1) (dist y0 y1)) (min (dist x0 x1) (dist y0 y1)) k (f k)) \<and>
    painted w h (\<lambda>_ _ _. rgb color) s (\<lambda>a b. \<exists>k. int k < max (dist x0 x1) (dist y0 y1) \<and> (int a, int b) = line_pt x0 y0 x1 y1 k (f k)) s'"
proof -
  have z: "sint (ucast (fb_width s) :: u32) = int w" "sint (ucast (fb_height s) :: u32) = int h" using assms(1) screen_int by (simp_all add: fb_ok_def)
  have px: "draw_pixel (word_of_int a) (word_of_int b) (c_red color) (c_green color) (c_blue color) u = Inr (set_px w (nat a) (nat b) (rgb color) u)"
    if "fb_ok w h u" "0 \<le> a" "a < int w" "0 \<le> b" "b < int h" for a b u
    using draw_pixel_eq [OF that(1), of "nat a" "nat b"] that by (simp add: rgb_def)
  note bx = between [OF assms(2,3)] and by' = between [OF assms(4,5)]
  have d: "0 \<le> dist x0 x1" "0 \<le> dist y0 y1" by (simp_all add: dist_def)
  let ?p = "\<lambda>x y. draw_pixel (word_of_int x) (word_of_int y) (c_red color) (c_green color) (c_blue color)"
  let ?X = "\<lambda>k. int x0 + dir x0 x1 * int k" and ?Y = "\<lambda>k. int y0 + dir y0 y1 * int k"
  have px': "nat (?X k) < w \<and> nat (?Y j) < h \<and> ?p (?X k) (?Y j) u = Inr (set_px w (nat (?X k)) (nat (?Y j)) (rgb color) u)"
    if "int k \<le> dist x0 x1" "int j \<le> dist y0 y1" "fb_ok w h u" for k j u
    using px [OF that(3), of "?X k" "?Y j"] bx [OF that(1)] by' [OF that(2)] by (simp add: nat_less_iff)
  have pt: "(x, y) = (nat (?X k), nat (?Y j)) \<longleftrightarrow> (int x, int y) = (?X k, ?Y j)"
    if "int k \<le> dist x0 x1" "int j \<le> dist y0 y1" for k j x y
    using bx [OF that(1)] by' [OF that(2)] by auto
  have l: "draw_line (int x0) (int y0) (int x1) (int y1) color s = (if dist y0 y1 \<le> dist x0 x1
      then line_loop ?p (int x1) (dir y0 y1) (dist x0 x1) (dist y0 y1) (int x0) (int y0) (2 * dist y0 y1 - dist x0 x1) s
      else line_loop (\<lambda>y x. ?p x y) (int y1) (dir x0 x1) (dist y0 y1) (dist x0 x1) (int y0) (int x0) (2 * dist x0 x1 - dist y0 y1) s)"
    using assms(2-5) z by (simp add: draw_line_def draw_x_dominant_line_def draw_y_dominant_line_def Let_def dist_def dir_def)
  show ?thesis
  proof (cases "dist y0 y1 \<le> dist x0 x1")
    case True
    then have m: "max (dist x0 x1) (dist y0 y1) = dist x0 x1" "min (dist x0 x1) (dist y0 y1) = dist y0 y1" by simp_all
    have "\<exists>s' f. line_loop ?p (int x1) (dir y0 y1) (dist x0 x1) (dist y0 y1)
          (int x0) (int y0) (2 * dist y0 y1 - dist x0 x1) s = Inr s' \<and> (\<forall>i. int i < dist x0 x1 \<longrightarrow> near (dist x0 x1) (dist y0 y1) i (f i)) \<and>
        painted w h (\<lambda>_ _ _. rgb color) s (\<lambda>a b. \<exists>k. int k < dist x0 x1 \<and> (int a, int b) = (?X k, ?Y (f k))) s'"
    proof (rule line_points [where pt = "\<lambda>k j. (nat (?X k), nat (?Y j))" and sa = "dir x0 x1"])
      fix k j u x y
      assume k: "int k < dist x0 x1" "int j \<le> dist y0 y1"
      show "(x, y) = (nat (?X k), nat (?Y j)) \<longleftrightarrow> (int x, int y) = (?X k, ?Y j)" using pt k by simp
      assume "fb_ok w h u"
      then show "fst (nat (?X k), nat (?Y j)) < w \<and> snd (nat (?X k), nat (?Y j)) < h \<and>
          ?p (?X k) (?Y j) u = Inr (set_px w (fst (nat (?X k), nat (?Y j))) (snd (nat (?X k), nat (?Y j))) (rgb color) u)"
        unfolding fst_conv snd_conv using px' [of k j] px' [of j k] k less_imp_le by blast
    qed (use True d assms(1) in \<open>simp_all add: dir_def dist_def\<close>)
    then show ?thesis unfolding m l line_pt_def if_P [OF True] .
  next
    case False
    then have m: "max (dist x0 x1) (dist y0 y1) = dist y0 y1" "min (dist x0 x1) (dist y0 y1) = dist x0 x1" by simp_all
    have "\<exists>s' f. line_loop (\<lambda>y x. ?p x y) (int y1) (dir x0 x1) (dist y0 y1) (dist x0 x1)
          (int y0) (int x0) (2 * dist x0 x1 - dist y0 y1) s = Inr s' \<and> (\<forall>i. int i < dist y0 y1 \<longrightarrow> near (dist y0 y1) (dist x0 x1) i (f i)) \<and>
        painted w h (\<lambda>_ _ _. rgb color) s (\<lambda>a b. \<exists>k. int k < dist y0 y1 \<and> (int a, int b) = (?X (f k), ?Y k)) s'"
    proof (rule line_points [where pt = "\<lambda>k j. (nat (?X j), nat (?Y k))" and sa = "dir y0 y1"])
      fix k j u x y
      assume k: "int k < dist y0 y1" "int j \<le> dist x0 x1"
      show "(x, y) = (nat (?X j), nat (?Y k)) \<longleftrightarrow> (int x, int y) = (?X j, ?Y k)" using pt k by simp
      assume "fb_ok w h u"
      then show "fst (nat (?X j), nat (?Y k)) < w \<and> snd (nat (?X j), nat (?Y k)) < h \<and>
          ?p (?X j) (?Y k) u = Inr (set_px w (fst (nat (?X j), nat (?Y k))) (snd (nat (?X j), nat (?Y k))) (rgb color) u)"
        unfolding fst_conv snd_conv using px' [of k j] px' [of j k] k less_imp_le by blast
    qed (use False d assms(1) in \<open>simp_all add: dir_def dist_def\<close>)
    then show ?thesis unfolding m l line_pt_def if_not_P [OF False] .
  qed
qed

subsection \<open>Filled, inverted and outlined rectangles\<close>

lemma fill_rect_painted:
  assumes "fb_ok w h s" "x + n \<le> w" "y + m \<le> h"
  shows "\<exists>s'. fill_rect (of_nat x) (of_nat y) (of_nat n) (of_nat m) color s = Inr s' \<and>
    painted w h (\<lambda>_ _ _. rgb color) s (\<lambda>a b. x \<le> a \<and> a < x + n \<and> y \<le> b \<and> b < y + m) s'"
  unfolding fill_rect_def by (rule over_rect_ok [OF assms]) (simp add: draw_pixel_eq rgb_def)

definition not_rgb :: "u8 \<times> u8 \<times> u8 \<Rightarrow> u8 \<times> u8 \<times> u8" where
  "not_rgb c = (case c of (r, g, b) \<Rightarrow> (NOT r, NOT g, NOT b))"

lemma invert_rec_painted:
  assumes "fb_ok w h s" "x + n \<le> w" "y + m \<le> h"
  shows "\<exists>s'. invert_rec (of_nat x) (of_nat y) (of_nat n) (of_nat m) s = Inr s' \<and>
    painted w h (\<lambda>_ _. not_rgb) s (\<lambda>a b. x \<le> a \<and> a < x + n \<and> y \<le> b \<and> b < y + m) s'"
  unfolding invert_rec_def
proof (rule over_rect_ok [OF assms])
  fix s px py assume a: "fb_ok w h s" "px < w" "py < h"
  obtain r g b where p: "pixel w s px py = (r, g, b)" by (cases "pixel w s px py")
  show "kbind (get_pixel (of_nat px) (of_nat py) s) (\<lambda>pixel. draw_pixel_color (of_nat px) (of_nat py) (NOT pixel) s)
      = Inr (set_px w px py (not_rgb (pixel w s px py)) s)"
    by (simp add: get_pixel_eq [OF a] draw_pixel_color_eq [OF a] p rgb_not not_rgb_def)
qed

text \<open>A rectangle that leaves the screen on the right goes on at the left of the next line; that is no fault as long as there is a next line.\<close>

lemma invert_rec_safe:
  assumes "fb_ok w h s" "x + n < 2 ^ 16" "y + m < 2 ^ 16" "\<And>px py. x \<le> px \<Longrightarrow> px < x + n \<Longrightarrow> y \<le> py \<Longrightarrow> py < y + m \<Longrightarrow> py * w + px < w * h"
  shows "\<exists>s'. invert_rec (of_nat x) (of_nat y) (of_nat n) (of_nat m) s = Inr s' \<and> fb_ok w h s'"
proof -
  have u: "unat (of_nat x :: u32) = x" "unat (of_nat (x + n) :: u32) = x + n" "unat (of_nat y :: u32) = y" "unat (of_nat (y + m) :: u32) = y + m"
    using assms(2,3) by (simp_all only: unat_of_nat) simp_all
  have e: "(of_nat x + of_nat n :: u32) = of_nat (x + n)" "(of_nat y + of_nat m :: u32) = of_nat (y + m)" by simp_all
  show ?thesis unfolding invert_rec_def over_rect_def e u
  proof (rule kfor_rule [where I = "\<lambda>_. fb_ok w h"])
    fix px t assume px: "x \<le> px" "px < x + n" "fb_ok w h t"
    show "\<exists>t'. kfor y (y + m) (\<lambda>py s. kbind (get_pixel (of_nat px) (of_nat py) s) (\<lambda>color. draw_pixel_color (of_nat px) (of_nat py) (NOT color) s)) t = Inr t' \<and> fb_ok w h t'"
    proof (rule kfor_rule [where I = "\<lambda>_. fb_ok w h"])
      fix py v assume py: "y \<le> py" "py < y + m" "fb_ok w h v"
      have b: "px < 2 ^ 16" "py < 2 ^ 16" "py * w + px < w * h" using px py assms(2-4) by auto
      obtain p where "get_pixel (of_nat px) (of_nat py) v = Inr p" using get_pixel_safe [OF py(3) b] by blast
      then show "\<exists>t'. kbind (get_pixel (of_nat px) (of_nat py) v) (\<lambda>color. draw_pixel_color (of_nat px) (of_nat py) (NOT color) v) = Inr t' \<and> fb_ok w h t'"
        using draw_pixel_safe [OF py(3) b] by (simp add: draw_pixel_color_def)
    qed (use px(3) in auto)
  qed (use assms(1) in auto)
qed

text \<open>A rectangle that goes below the screen is a fault.\<close>

lemma get_pixel_below:
  assumes "fb_ok w h s" "x < 2 ^ 16"
  shows "get_pixel (of_nat x) (of_nat h) s = Inl (Fault ''out of bounds'')"
proof -
  have b: "w < 2 ^ 15" "h < 2 ^ 15" using assms(1) by (simp_all add: fb_ok_def)
  then have "h * w \<le> 2 ^ 15 * 2 ^ 15" by (intro mult_le_mono) auto
  then have p: "h * (4 * w) + x * 4 < 2 ^ 64" using assms(2) by simp
  have xx: "(ucast (of_nat x * ucast ((32 :: u16) div 8) :: u32) :: u64) = of_nat (x * 4)"
  proof -
    have "(of_nat x * ucast ((32 :: u16) div 8) :: u32) = of_nat (x * 4)" by simp
    moreover have "unat (of_nat (x * 4) :: u32) = x * 4" using assms(2) unfolding unat_of_nat by (intro mod_less) simp
    ultimately show ?thesis by (metis of_nat_unat)
  qed
  have "unat (of_nat h :: u32) = h" using b(2) by (simp add: unat_of_nat)
  then have yy: "(ucast (of_nat h :: u32) :: u64) = of_nat h" by (metis of_nat_unat)
  have "get_pixel_offset s (of_nat x) (of_nat h) + RGB_OFFB = of_nat (h * (4 * w) + x * 4)"
    unfolding get_pixel_offset_def RGB_OFFB_def using assms(1) xx yy by (simp add: fb_ok_def)
  then have "unat (get_pixel_offset s (of_nat x) (of_nat h) + RGB_OFFB) = h * (4 * w) + x * 4" using p by (simp only: unat_of_nat) simp
  moreover have "length (vram_buff s) \<le> h * (4 * w)" using assms(1) by (simp add: fb_ok_def)
  ultimately show ?thesis by (simp add: get_pixel_def Let_def fb_get_def)
qed

lemma invert_rec_below:
  assumes "fb_ok w h s" "x < w" "0 < n" "x + n < 2 ^ 16" "y \<le> h" "h < y + m" "y + m < 2 ^ 16"
  shows "invert_rec (of_nat x) (of_nat y) (of_nat n) (of_nat m) s = Inl (Fault ''out of bounds'')"
proof -
  have u: "unat (of_nat x :: u32) = x" "unat (of_nat (x + n) :: u32) = x + n" "unat (of_nat y :: u32) = y" "unat (of_nat (y + m) :: u32) = y + m"
    using assms by (simp_all only: unat_of_nat) simp_all
  have e: "(of_nat x + of_nat n :: u32) = of_nat (x + n)" "(of_nat y + of_nat m :: u32) = of_nat (y + m)" by simp_all
  let ?body = "\<lambda>px py s. kbind (get_pixel (of_nat px) (of_nat py) s) (\<lambda>color. draw_pixel_color (of_nat px) (of_nat py) (NOT color) s)"
  have "\<exists>t. kfor y h (?body x) s = Inr t \<and> fb_ok w h t"
  proof (rule kfor_rule [where I = "\<lambda>_. fb_ok w h"])
    fix i t assume "y \<le> i" "i < h" "fb_ok w h t"
    then show "\<exists>t'. ?body x i t = Inr t' \<and> fb_ok w h t'" using get_pixel_eq [of w h t x i] draw_pixel_color_eq [of w h t x i] assms(2) by simp
  qed (use assms in auto)
  then obtain t where t: "kfor y h (?body x) s = Inr t" "fb_ok w h t" by blast
  have "?body x h t = Inl (Fault ''out of bounds'')" using get_pixel_below [OF t(2), of x] assms(4) by simp
  then have "kfor h (y + m) (?body x) t = Inl (Fault ''out of bounds'')" using assms(6) by (subst kfor.simps) simp
  then have "kfor y (y + m) (?body x) s = Inl (Fault ''out of bounds'')" using t(1) assms(5,6) by (subst kfor_split [of y h]) simp_all
  then show ?thesis unfolding invert_rec_def over_rect_def e u using assms(3) by (subst kfor.simps) simp
qed

text \<open>Points drawn one after the other, and the four sides of a rectangle.\<close>

lemma paint_points:
  assumes "painted w h (\<lambda>_ _ _. c) s R u" "a \<le> b"
    and "\<And>i v. a \<le> i \<Longrightarrow> i < b \<Longrightarrow> fb_ok w h v \<Longrightarrow> X i < w \<and> Y i < h \<and> body i v = Inr (set_px w (X i) (Y i) c v)"
  shows "\<exists>u'. kfor a b body u = Inr u' \<and> painted w h (\<lambda>_ _ _. c) s (\<lambda>x y. R x y \<or> (\<exists>i. a \<le> i \<and> i < b \<and> x = X i \<and> y = Y i)) u'"
proof (rule kfor_rule [where I = "\<lambda>k. painted w h (\<lambda>_ _ _. c) s (\<lambda>x y. R x y \<or> (\<exists>i. a \<le> i \<and> i < k \<and> x = X i \<and> y = Y i))"])
  fix k v assume k: "a \<le> k" "k < b" and v: "painted w h (\<lambda>_ _ _. c) s (\<lambda>x y. R x y \<or> (\<exists>i. a \<le> i \<and> i < k \<and> x = X i \<and> y = Y i)) v"
  have "fb_ok w h v" using v by (simp add: painted_def)
  then have b: "X k < w" "Y k < h" "body k v = Inr (set_px w (X k) (Y k) c v)" using assms(3) [OF k] by blast+
  have "painted w h (\<lambda>_ _ _. c) s (\<lambda>x y. R x y \<or> (\<exists>i. a \<le> i \<and> i < Suc k \<and> x = X i \<and> y = Y i)) (set_px w (X k) (Y k) c v)"
    by (rule painted_cong [OF painted_const [OF v b(1,2)]]) (use k in \<open>auto simp: less_Suc_eq\<close>)
  then show "\<exists>v'. body k v = Inr v' \<and> painted w h (\<lambda>_ _ _. c) s (\<lambda>x y. R x y \<or> (\<exists>i. a \<le> i \<and> i < Suc k \<and> x = X i \<and> y = Y i)) v'" using b(3) by blast
next
  show "painted w h (\<lambda>_ _ _. c) s (\<lambda>x y. R x y \<or> (\<exists>i. a \<le> i \<and> i < a \<and> x = X i \<and> y = Y i)) u" by (rule painted_cong [OF assms(1)]) auto
qed (rule assms(2))

lemma outline_rect_painted:
  assumes "fb_ok w h s" "x + n < w" "y + m < h"
  shows "\<exists>s'. outline_rect (of_nat x) (of_nat y) (of_nat n) (of_nat m) color s = Inr s' \<and>
    painted w h (\<lambda>_ _ _. rgb color) s (\<lambda>a b. x \<le> a \<and> a < x + n \<and> (b = y \<or> b = y + m) \<or> y \<le> b \<and> b < y + m \<and> (a = x \<or> a = x + n)) s'"
proof -
  have l: "x + n < 2 ^ 15" "y + m < 2 ^ 15" using assms by (auto simp: fb_ok_def)
  have u: "unat (of_nat x :: u32) = x" "unat (of_nat y :: u32) = y" "unat (of_nat (x + n) :: u32) = x + n" "unat (of_nat (y + m) :: u32) = y + m"
    using l by (simp_all only: unat_of_nat) simp_all
  have e: "(of_nat x + of_nat n :: u32) = of_nat (x + n)" "(of_nat y + of_nat m :: u32) = of_nat (y + m)" by simp_all
  have c: "(ucast (of_nat (x + n) :: u32) :: u64) = of_nat (x + n)" "(ucast (of_nat (y + m) :: u32) :: u64) = of_nat (y + m)" using u(3,4) by (metis of_nat_unat)+
  have g: "(of_nat (x + n) :: u64) < fb_width s" "(of_nat (y + m) :: u64) < fb_height s"
    using assms l by (simp_all add: fb_ok_def word_less_nat_alt unat_of_nat del: of_nat_add)
  have d: "draw_pixel (of_nat a) (of_nat b) (c_red color) (c_green color) (c_blue color) v = Inr (set_px w a b (rgb color) v)"
    if "fb_ok w h v" "a < w" "b < h" for a b v using draw_pixel_eq [OF that] by (simp add: rgb_def)
  have p0: "painted w h (\<lambda>_ _ _. rgb color) s (\<lambda>_ _. False) s" using assms(1) by (simp add: painted_def)
  obtain s1 where s1: "kfor x (x + n) (\<lambda>px. draw_pixel (of_nat px) (of_nat y) (c_red color) (c_green color) (c_blue color)) s = Inr s1"
      "painted w h (\<lambda>_ _ _. rgb color) s (\<lambda>a b. False \<or> (\<exists>i. x \<le> i \<and> i < x + n \<and> a = i \<and> b = y)) s1"
    using paint_points [OF p0, of x "x + n" "\<lambda>i. i" "\<lambda>_. y" "\<lambda>px. draw_pixel (of_nat px) (of_nat y) (c_red color) (c_green color) (c_blue color)"] d assms(2,3) by auto
  obtain s2 where s2: "kfor x (x + n) (\<lambda>px. draw_pixel (of_nat px) (of_nat (y + m)) (c_red color) (c_green color) (c_blue color)) s1 = Inr s2"
      "painted w h (\<lambda>_ _ _. rgb color) s (\<lambda>a b. (False \<or> (\<exists>i. x \<le> i \<and> i < x + n \<and> a = i \<and> b = y)) \<or> (\<exists>i. x \<le> i \<and> i < x + n \<and> a = i \<and> b = y + m)) s2"
    using paint_points [OF s1(2), of x "x + n" "\<lambda>i. i" "\<lambda>_. y + m" "\<lambda>px. draw_pixel (of_nat px) (of_nat (y + m)) (c_red color) (c_green color) (c_blue color)"] d assms(2,3)
    by (auto simp del: of_nat_add)
  obtain s3 where s3: "kfor y (y + m) (\<lambda>py. draw_pixel (of_nat x) (of_nat py) (c_red color) (c_green color) (c_blue color)) s2 = Inr s3"
      "painted w h (\<lambda>_ _ _. rgb color) s (\<lambda>a b. ((False \<or> (\<exists>i. x \<le> i \<and> i < x + n \<and> a = i \<and> b = y)) \<or> (\<exists>i. x \<le> i \<and> i < x + n \<and> a = i \<and> b = y + m)) \<or>
        (\<exists>i. y \<le> i \<and> i < y + m \<and> a = x \<and> b = i)) s3"
    using paint_points [OF s2(2), of y "y + m" "\<lambda>_. x" "\<lambda>i. i" "\<lambda>py. draw_pixel (of_nat x) (of_nat py) (c_red color) (c_green color) (c_blue color)"] d assms(2,3) by auto
  obtain s4 where s4: "kfor y (y + m) (\<lambda>py. draw_pixel (of_nat (x + n)) (of_nat py) (c_red color) (c_green color) (c_blue color)) s3 = Inr s4"
      "painted w h (\<lambda>_ _ _. rgb color) s (\<lambda>a b. (((False \<or> (\<exists>i. x \<le> i \<and> i < x + n \<and> a = i \<and> b = y)) \<or> (\<exists>i. x \<le> i \<and> i < x + n \<and> a = i \<and> b = y + m)) \<or>
        (\<exists>i. y \<le> i \<and> i < y + m \<and> a = x \<and> b = i)) \<or> (\<exists>i. y \<le> i \<and> i < y + m \<and> a = x + n \<and> b = i)) s4"
    using paint_points [OF s3(2), of y "y + m" "\<lambda>_. x + n" "\<lambda>i. i" "\<lambda>py. draw_pixel (of_nat (x + n)) (of_nat py) (c_red color) (c_green color) (c_blue color)"] d assms(2,3)
    by (auto simp del: of_nat_add)
  have "outline_rect (of_nat x) (of_nat y) (of_nat n) (of_nat m) color s = Inr s4"
    unfolding outline_rect_def e u c using g s1(1) s2(1) s3(1) s4(1) by (simp del: of_nat_add)
  moreover have "painted w h (\<lambda>_ _ _. rgb color) s (\<lambda>a b. x \<le> a \<and> a < x + n \<and> (b = y \<or> b = y + m) \<or> y \<le> b \<and> b < y + m \<and> (a = x \<or> a = x + n)) s4"
    by (rule painted_cong [OF s4(2)]) auto
  ultimately show ?thesis by blast
qed

subsection \<open>Characters\<close>

lemma length_font: "length font8x16 = 95" "list_all (\<lambda>g. length g = 16) font8x16"
  by (simp_all add: font8x16_def)

lemma length_glyph [simp]: "length (get_glyph8x16 c) = 16"
proof -
  have "length (font8x16 ! i) = 16" if "i < 95" for i using length_font that by (simp add: list_all_length)
  from this [of 0] this [of "of_char c - 32"] show ?thesis by (auto simp: get_glyph8x16_def)
qed

text \<open>The colour of a point of the glyph's cell: \<open>fg\<close> where its bit is set, else \<open>bg\<close>, or as it was when \<open>bg\<close> is negative.\<close>

definition glyph_px :: "nat \<Rightarrow> nat \<Rightarrow> char \<Rightarrow> u32 \<Rightarrow> u32 \<Rightarrow> nat \<Rightarrow> nat \<Rightarrow> u8 \<times> u8 \<times> u8 \<Rightarrow> u8 \<times> u8 \<times> u8" where
  "glyph_px x y c fg bg a b p = (if bit (get_glyph8x16 c ! (b - y)) (8 - (a - x) - 1) then rgb fg else if sint bg \<ge> 0 then rgb bg else p)"

lemma Font8x16_simps: "font_width Font8x16 = 8" "font_height Font8x16 = 16" "get_glyph Font8x16 = get_glyph8x16"
  by (simp_all add: Font8x16_def)

lemma cell_guard:
  assumes "fb_ok w h s" "x < 2 ^ 16" "y < 2 ^ 16"
  shows "(ucast (of_nat x + 8 :: u32) :: u64) < fb_width s \<longleftrightarrow> x + 8 < w" "(ucast (of_nat y + 16 :: u32) :: u64) < fb_height s \<longleftrightarrow> y + 16 < h"
proof -
  have g: "(ucast (of_nat a + of_nat n :: u32) :: u64) < of_nat m \<longleftrightarrow> a + n < m" if "a < 2 ^ 16" "n < 2 ^ 8" "m < 2 ^ 15" for a n m
  proof -
    have "unat (of_nat (a + n) :: u32) = a + n" using that unfolding unat_of_nat by (intro mod_less) simp
    then have "(ucast (of_nat (a + n) :: u32) :: u64) = of_nat (a + n)" by (metis of_nat_unat)
    moreover have "unat (of_nat (a + n) :: u64) = a + n" "unat (of_nat m :: u64) = m" using that unfolding unat_of_nat by (intro mod_less, simp)+
    ultimately show ?thesis by (simp add: word_less_nat_alt)
  qed
  show "(ucast (of_nat x + 8 :: u32) :: u64) < fb_width s \<longleftrightarrow> x + 8 < w" "(ucast (of_nat y + 16 :: u32) :: u64) < fb_height s \<longleftrightarrow> y + 16 < h"
    using g [of x 8 w] g [of y 16 h] assms by (simp_all add: fb_ok_def)
qed

lemma glyph_row:
  assumes "painted w h (glyph_px x y c fg bg) s (\<lambda>a b. x \<le> a \<and> a < x + 8 \<and> y \<le> b \<and> b < y + k) u" "x + 8 < w" "y + 16 < h" "k < 16"
  shows "\<exists>u'. kfor 0 8 (\<lambda>gx s. if bit (get_glyph8x16 c ! k) (8 - gx - 1) then draw_pixel_color (of_nat x + of_nat gx) (of_nat y + of_nat k) fg s
      else if sint bg \<ge> 0 then draw_pixel_color (of_nat x + of_nat gx) (of_nat y + of_nat k) bg s else Inr s) u = Inr u' \<and>
    painted w h (glyph_px x y c fg bg) s (\<lambda>a b. x \<le> a \<and> a < x + 8 \<and> y \<le> b \<and> b < y + Suc k) u'"
proof -
  let ?R = "\<lambda>i a b. x \<le> a \<and> a < x + 8 \<and> y \<le> b \<and> b < y + k \<or> x \<le> a \<and> a < x + i \<and> b = y + k"
  have "\<exists>u'. kfor 0 8 (\<lambda>gx s. if bit (get_glyph8x16 c ! k) (8 - gx - 1) then draw_pixel_color (of_nat x + of_nat gx) (of_nat y + of_nat k) fg s
      else if sint bg \<ge> 0 then draw_pixel_color (of_nat x + of_nat gx) (of_nat y + of_nat k) bg s else Inr s) u = Inr u' \<and>
    painted w h (glyph_px x y c fg bg) s (?R 8) u'"
  proof (rule kfor_rule [where I = "\<lambda>i. painted w h (glyph_px x y c fg bg) s (?R i)"])
    fix i v assume i: "i < (8 :: nat)" and v: "painted w h (glyph_px x y c fg bg) s (?R i) v"
    have ok: "fb_ok w h v" "x + i < w" "y + k < h" using v i assms(2-4) by (simp_all add: painted_def)
    note d = draw_pixel_color_eq [OF ok, unfolded of_nat_add]
    have r: "\<not> ?R i (x + i) (y + k)" by simp
    have e: "(?R i a b \<or> a = x + i \<and> b = y + k) \<longleftrightarrow> ?R (Suc i) a b" for a b using i by auto
    show "\<exists>v'. (if bit (get_glyph8x16 c ! k) (8 - i - 1) then draw_pixel_color (of_nat x + of_nat i) (of_nat y + of_nat k) fg v
        else if sint bg \<ge> 0 then draw_pixel_color (of_nat x + of_nat i) (of_nat y + of_nat k) bg v else Inr v) = Inr v' \<and>
      painted w h (glyph_px x y c fg bg) s (?R (Suc i)) v'"
    proof (cases "bit (get_glyph8x16 c ! k) (8 - i - 1) \<or> sint bg \<ge> 0")
      case True
      then show ?thesis using painted_cong [OF painted_step [OF v ok(2,3) r] e] by (auto simp: d glyph_px_def)
    next
      case False
      then show ?thesis using painted_cong [OF painted_keep [OF v, of "x + i" "y + k"] e] by (auto simp: glyph_px_def)
    qed
  next
    show "painted w h (glyph_px x y c fg bg) s (?R 0) u" by (rule painted_cong [OF assms(1)]) auto
  qed simp
  then obtain u' where "kfor 0 8 (\<lambda>gx s. if bit (get_glyph8x16 c ! k) (8 - gx - 1) then draw_pixel_color (of_nat x + of_nat gx) (of_nat y + of_nat k) fg s
      else if sint bg \<ge> 0 then draw_pixel_color (of_nat x + of_nat gx) (of_nat y + of_nat k) bg s else Inr s) u = Inr u'"
    and u': "painted w h (glyph_px x y c fg bg) s (?R 8) u'" by blast
  moreover have "painted w h (glyph_px x y c fg bg) s (\<lambda>a b. x \<le> a \<and> a < x + 8 \<and> y \<le> b \<and> b < y + Suc k) u'"
    by (rule painted_cong [OF u']) auto
  ultimately show ?thesis by blast
qed

lemma draw_char_painted:
  assumes "fb_ok w h s" "x + 8 < w" "y + 16 < h"
  shows "\<exists>s'. draw_char (of_nat x) (of_nat y) (Some Font8x16) c fg bg s = Inr s' \<and>
    painted w h (glyph_px x y c fg bg) s (\<lambda>a b. x \<le> a \<and> a < x + 8 \<and> y \<le> b \<and> b < y + 16) s'"
proof -
  have "\<exists>s'. kfor 0 16 (\<lambda>gy s. if gy < 16 then kfor 0 8 (\<lambda>gx s.
      if bit (get_glyph8x16 c ! gy) (8 - gx - 1) then draw_pixel_color (of_nat x + of_nat gx) (of_nat y + of_nat gy) fg s
      else if sint bg \<ge> 0 then draw_pixel_color (of_nat x + of_nat gx) (of_nat y + of_nat gy) bg s else Inr s) s else Inl (Fault ''glyph'')) s = Inr s' \<and>
    painted w h (glyph_px x y c fg bg) s (\<lambda>a b. x \<le> a \<and> a < x + 8 \<and> y \<le> b \<and> b < y + 16) s'"
  proof (rule kfor_rule [where I = "\<lambda>i. painted w h (glyph_px x y c fg bg) s (\<lambda>a b. x \<le> a \<and> a < x + 8 \<and> y \<le> b \<and> b < y + i)"])
    fix k u assume k: "k < (16 :: nat)" and u: "painted w h (glyph_px x y c fg bg) s (\<lambda>a b. x \<le> a \<and> a < x + 8 \<and> y \<le> b \<and> b < y + k) u"
    show "\<exists>u'. (if k < 16 then kfor 0 8 (\<lambda>gx s.
      if bit (get_glyph8x16 c ! k) (8 - gx - 1) then draw_pixel_color (of_nat x + of_nat gx) (of_nat y + of_nat k) fg s
      else if sint bg \<ge> 0 then draw_pixel_color (of_nat x + of_nat gx) (of_nat y + of_nat k) bg s else Inr s) u else Inl (Fault ''glyph'')) = Inr u' \<and>
        painted w h (glyph_px x y c fg bg) s (\<lambda>a b. x \<le> a \<and> a < x + 8 \<and> y \<le> b \<and> b < y + Suc k) u'"
      unfolding if_P [OF k] by (rule glyph_row [OF u assms(2,3) k])
  qed (use assms(1) in \<open>auto simp: painted_def\<close>)
  moreover have "x < 2 ^ 16" "y < 2 ^ 16" using assms by (auto simp: fb_ok_def)
  ultimately show ?thesis unfolding draw_char_def option.case Font8x16_simps Let_def length_glyph of_nat_numeral
    using cell_guard [OF assms(1), of x y] assms(2,3) by simp
qed

subsection \<open>Clearing, starting and redrawing\<close>

lemma screen_size:
  assumes "w < 2 ^ 15" "h < 2 ^ 15"
  shows "unat (of_nat (4 * (w * h)) :: u64) = 4 * (w * h)"
proof -
  have "w * h < 2 ^ 15 * 2 ^ 15" using assms by (intro mult_strict_mono) simp_all
  then have "4 * (w * h) < 2 ^ 64" by (simp add: mult.commute)
  then show ?thesis unfolding unat_of_nat by (intro mod_less) simp
qed

lemma clear_from_ok:
  assumes "length (vram_buff s) = 4 * n" "unat (vram_size s) = 4 * n" "k \<le> n"
  shows "\<exists>v. clear_from c (4 * k) s = Inr (s\<lparr>vram_buff := v\<rparr>) \<and> length v = 4 * n \<and>
    (\<forall>i < n. \<forall>j < 4. v ! (4 * i + j) = (if k \<le> i then [c_blue c, c_green c, c_red c, ucast (drop_bit 24 c)] ! j else vram_buff s ! (4 * i + j)))"
  using assms
proof (induction "n - k" arbitrary: k s)
  case 0
  then have "clear_from c (4 * k) s = Inr (s\<lparr>vram_buff := vram_buff s\<rparr>)" by (simp add: clear_from.simps)
  then show ?case using 0 by (intro exI [of _ "vram_buff s"]) simp
next
  case (Suc d)
  define v0 where "v0 = (vram_buff s)[4 * k := c_blue c, 4 * k + 1 := c_green c, 4 * k + 2 := c_red c, 4 * k + 3 := ucast (drop_bit 24 c)]"
  have k: "k < n" "4 * k \<noteq> 4 * n" "4 * k + 4 \<le> 4 * n" "d = n - Suc k" "Suc k \<le> n" using Suc.hyps(2) by auto
  have step: "clear_from c (4 * k) s = clear_from c (4 * Suc k) (s\<lparr>vram_buff := v0\<rparr>)"
    using k Suc.prems by (subst clear_from.simps) (simp add: add.commute v0_def)
  have l: "length (vram_buff (s\<lparr>vram_buff := v0\<rparr>)) = 4 * n" "unat (vram_size (s\<lparr>vram_buff := v0\<rparr>)) = 4 * n" using Suc.prems by (simp_all add: v0_def)
  obtain v where v: "clear_from c (4 * Suc k) (s\<lparr>vram_buff := v0\<rparr>) = Inr (s\<lparr>vram_buff := v0, vram_buff := v\<rparr>)" "length v = 4 * n"
      "\<forall>i < n. \<forall>j < 4. v ! (4 * i + j) = (if Suc k \<le> i then [c_blue c, c_green c, c_red c, ucast (drop_bit 24 c)] ! j else vram_buff (s\<lparr>vram_buff := v0\<rparr>) ! (4 * i + j))"
    using Suc.hyps(1) [OF k(4) l k(5)] by (elim exE conjE) (rule that)
  have w: "v0 ! (4 * i + j) = (if i = k then [c_blue c, c_green c, c_red c, ucast (drop_bit 24 c)] ! j else vram_buff s ! (4 * i + j))"
    if "i < n" "j < 4" for i j
  proof -
    have e: "4 * k + m = 4 * i + j \<longleftrightarrow> i = k \<and> j = m" if "m < 4" for m using \<open>j < 4\<close> that by presburger
    have e': "4 * k = 4 * i + j \<longleftrightarrow> i = k \<and> j = 0" using e [of 0] by simp
    have b: "4 * k < length (vram_buff s)" "4 * k + 1 < length (vram_buff s)" "4 * k + 2 < length (vram_buff s)" "4 * k + 3 < length (vram_buff s)"
      using k(3) Suc.prems(1) by linarith+
    have n: "v0 ! (4 * i + j) = (if i = k \<and> j = 3 then ucast (drop_bit 24 c) else if i = k \<and> j = 2 then c_red c
        else if i = k \<and> j = 1 then c_green c else if i = k \<and> j = 0 then c_blue c else vram_buff s ! (4 * i + j))"
      unfolding v0_def using e [of 1] e [of 2] e [of 3] e' b by (simp only: nth_list_update length_list_update)
    consider "j = 0" | "j = 1" | "j = 2" | "j = 3" using \<open>j < 4\<close> by linarith
    then show ?thesis unfolding n by cases auto
  qed
  have "v ! (4 * i + j) = (if k \<le> i then [c_blue c, c_green c, c_red c, ucast (drop_bit 24 c)] ! j else vram_buff s ! (4 * i + j))"
    if "i < n" "j < 4" for i j
    using v(3) w [OF that] that by (cases "Suc k \<le> i") auto
  then show ?case using step v(1,2) by auto
qed

lemma fb_clear_painted:
  assumes "fb_ok w h s"
  shows "\<exists>s'. fb_clear c s = Inr s' \<and> painted w h (\<lambda>_ _ _. rgb c) s (\<lambda>_ _. True) s' \<and> needs_redraw s' = needs_redraw s \<and> vram s' = vram s"
proof -
  have "unat (vram_size s) = 4 * (w * h)" using assms screen_size [of w h] by (simp add: fb_ok_def)
  then obtain v where v: "clear_from c (4 * 0) s = Inr (s\<lparr>vram_buff := v\<rparr>)" "length v = 4 * (w * h)"
      "\<forall>i < w * h. \<forall>j < 4. v ! (4 * i + j) = [c_blue c, c_green c, c_red c, ucast (drop_bit 24 c)] ! j"
    using clear_from_ok [of s "w * h" 0 c] assms by (auto simp: fb_ok_def)
  have "pixel w (s\<lparr>vram_buff := v\<rparr>) a b = rgb c" if "a < w" "b < h" for a b
  proof -
    have "b * w + a < w * h" using px_bound [OF that] by (simp add: px_at_def)
    then have p: "v ! (4 * (b * w + a) + j) = [c_blue c, c_green c, c_red c, ucast (drop_bit 24 c)] ! j" if "j < 4" for j using v(3) that by blast
    show ?thesis using p [of 0] p [of 1] p [of 2] by (simp add: pixel_def px_at_def rgb_def numeral_2_eq_2)
  qed
  then have "painted w h (\<lambda>_ _ _. rgb c) s (\<lambda>_ _. True) (s\<lparr>vram_buff := v\<rparr>)" using assms v(2) by (simp add: painted_def fb_ok_def)
  then show ?thesis using v(1) by (simp add: fb_clear_def)
qed

text \<open>A linear mode of 32 bits without padding gives a well-formed back buffer.\<close>

lemma fb_init_ok:
  assumes "fbi_width info = of_nat w" "fbi_height info = of_nat h" "fbi_pitch info = of_nat (4 * w)" "fbi_bpp info = 32" "w < 2 ^ 15" "h < 2 ^ 15"
  shows "fb_ok w h (fb_init raw info s)"
proof -
  have "(ucast ((32 :: u16) div 8) :: u64) = 4" by simp
  then have sz: "fbi_width info * fbi_height info * ucast (fbi_bpp info div 8) = (of_nat (4 * (w * h)) :: u64)" using assms(1,2,4) by (simp only: of_nat_mult of_nat_numeral mult_ac)
  show ?thesis unfolding fb_ok_def fb_init_def Let_def sz
    using assms screen_size [OF assms(5,6)] by (simp del: of_nat_mult)
qed

text \<open>Redrawing shows the back buffer, when a pixel has been drawn since the last time.\<close>

lemma fb_redraw_shows:
  assumes "fb_ok w h s" "length (vram s) = length (vram_buff s)" "even (w * h)"
  shows "\<exists>s'. fb_redraw t t' s = Inr s' \<and> vram s' = (if needs_redraw s then vram_buff s else vram s) \<and> \<not> needs_redraw s' \<and> fb_ok w h s'"
proof -
  have "unat (of_nat (4 * (w * h)) :: u64) = 4 * (w * h)" using assms(1) by (intro screen_size) (simp_all add: fb_ok_def)
  then have n: "unat (vram_size s div 8) * 8 = 4 * (w * h)"
    using assms(1,3) by (auto simp: fb_ok_def unat_div elim!: evenE)
  then show ?thesis using assms by (auto simp: fb_redraw_def fb_ok_def Let_def)
qed

section \<open>Properties\<close>

text \<open>
  A line between two points of the screen is drawn without a fault, one pixel for each step along its longer axis and the end point left out:
  the pixel at step \<open>k\<close> is off the exact line by at most half a pixel along the other axis, and every other pixel keeps its colour.
\<close>

theorem draw_line_half_pixel:
  assumes "fb_ok w h s" "x0 < w" "x1 < w" "y0 < h" "y1 < h"
  shows "\<exists>s' f. draw_line (int x0) (int y0) (int x1) (int y1) color s = Inr s' \<and>
    (\<forall>k. int k < max (dist x0 x1) (dist y0 y1) \<longrightarrow> \<bar>2 * max (dist x0 x1) (dist y0 y1) * int (f k) - 2 * min (dist x0 x1) (dist y0 y1) * int k\<bar> \<le> max (dist x0 x1) (dist y0 y1)) \<and> fb_ok w h s' \<and>
    (\<forall>a < w. \<forall>b < h. pixel w s' a b = (if \<exists>k. int k < max (dist x0 x1) (dist y0 y1) \<and> (int a, int b) = line_pt x0 y0 x1 y1 k (f k)
       then rgb color else pixel w s a b))"
  using draw_line_points [OF assms] unfolding painted_def near_def .

text \<open>A screen of 64 by 64 pixels.\<close>

definition fb0 :: framebuffer where
  "fb0 = fb_init [] \<lparr>fbi_width = 64, fbi_height = 64, fbi_pitch = 256, fbi_bpp = 32, fbi_vram = replicate 16384 0\<rparr>
     \<lparr>fb_width = 0, fb_height = 0, fb_num_pixels = 0, fb_pitch = 0, fb_bpp = 0, vram = [], vram_size = 0, vram_buff = [], needs_redraw = False, redraw_times = []\<rparr>"

lemma fb0_ok: "fb_ok 64 64 fb0"
  unfolding fb0_def by (rule fb_init_ok) simp_all

text \<open>
  inverting a rectangle of the screen complements its pixels and keeps the others, and inverting it once more gives every pixel back.
\<close>

lemma invert_rec_roundtrip:
  assumes "fb_ok w h s" "x + n \<le> w" "y + m \<le> h"
  shows "\<exists>s1 s2. invert_rec (of_nat x) (of_nat y) (of_nat n) (of_nat m) s = Inr s1 \<and> invert_rec (of_nat x) (of_nat y) (of_nat n) (of_nat m) s1 = Inr s2 \<and>
    (\<forall>a < w. \<forall>b < h. pixel w s1 a b = (if x \<le> a \<and> a < x + n \<and> y \<le> b \<and> b < y + m then not_rgb (pixel w s a b) else pixel w s a b) \<and>
      pixel w s2 a b = pixel w s a b)"
proof -
  obtain s1 where s1: "invert_rec (of_nat x) (of_nat y) (of_nat n) (of_nat m) s = Inr s1"
      "painted w h (\<lambda>_ _. not_rgb) s (\<lambda>a b. x \<le> a \<and> a < x + n \<and> y \<le> b \<and> b < y + m) s1" using invert_rec_painted [OF assms] by blast
  have ok: "fb_ok w h s1" using s1(2) by (simp add: painted_def)
  obtain s2 where s2: "invert_rec (of_nat x) (of_nat y) (of_nat n) (of_nat m) s1 = Inr s2"
      "painted w h (\<lambda>_ _. not_rgb) s1 (\<lambda>a b. x \<le> a \<and> a < x + n \<and> y \<le> b \<and> b < y + m) s2" using invert_rec_painted [OF ok assms(2,3)] by blast
  have "not_rgb (not_rgb c) = c" for c by (cases c) (simp add: not_rgb_def)
  then show ?thesis using s1 s2 by (auto simp: painted_def)
qed


text \<open>
  A character whose cell ends before the last column and the last row is drawn as its glyph: foreground where the bit of the glyph is set,
  background elsewhere unless the background is negative, and nothing outside of the cell changes. A cell that touches the right or the lower edge of
  the screen panics, so the last column and row of text of a screen whose size is a multiple of the font's cannot be drawn.
\<close>

theorem draw_char_exact:
  assumes "fb_ok w h s" "x < 2 ^ 16" "y < 2 ^ 16"
  shows "(x + 8 < w \<and> y + 16 < h \<longrightarrow> (\<exists>s'. draw_char (of_nat x) (of_nat y) (Some Font8x16) c fg bg s = Inr s' \<and> fb_ok w h s' \<and>
      (\<forall>a < w. \<forall>b < h. pixel w s' a b = (if x \<le> a \<and> a < x + 8 \<and> y \<le> b \<and> b < y + 16
         then if bit (get_glyph8x16 c ! (b - y)) (7 - (a - x)) then rgb fg else if sint bg \<ge> 0 then rgb bg else pixel w s a b
         else pixel w s a b)))) \<and>
    (w \<le> x + 8 \<longrightarrow> draw_char (of_nat x) (of_nat y) (Some Font8x16) c fg bg s = Inl (Panic ''x out of bounds'')) \<and>
    (x + 8 < w \<and> h \<le> y + 16 \<longrightarrow> draw_char (of_nat x) (of_nat y) (Some Font8x16) c fg bg s = Inl (Panic ''y out of bounds''))"
proof (intro conjI impI)
  assume "x + 8 < w \<and> y + 16 < h"
  then obtain s' where "draw_char (of_nat x) (of_nat y) (Some Font8x16) c fg bg s = Inr s'"
      "painted w h (glyph_px x y c fg bg) s (\<lambda>a b. x \<le> a \<and> a < x + 8 \<and> y \<le> b \<and> b < y + 16) s'" using draw_char_painted [OF assms(1), of x y] by blast
  then show "\<exists>s'. draw_char (of_nat x) (of_nat y) (Some Font8x16) c fg bg s = Inr s' \<and> fb_ok w h s' \<and>
      (\<forall>a < w. \<forall>b < h. pixel w s' a b = (if x \<le> a \<and> a < x + 8 \<and> y \<le> b \<and> b < y + 16
         then if bit (get_glyph8x16 c ! (b - y)) (7 - (a - x)) then rgb fg else if sint bg \<ge> 0 then rgb bg else pixel w s a b
         else pixel w s a b))"
    by (auto simp: painted_def glyph_px_def numeral_eq_Suc)
qed (use cell_guard [OF assms] in \<open>simp_all add: draw_char_def Font8x16_def\<close>)

end
