(* ===== verification/Console.thy ===== *)
theory Console
  imports Framebuffer Algo
begin

text \<open>
  The text console on the frame buffer, \<^verbatim>\<open>lib/console/console.cpp\<close>, and the escape sequences it understands, \<^verbatim>\<open>lib/console/ansi.cpp\<close>. The state is the static
  variables of the module together with the frame buffer it draws on; the vector of lines is a list of lists, and an index outside of it is a fault.
  \<^verbatim>\<open>set_cursor\<close> and \<^verbatim>\<open>newline\<close> call each other: \<open>set_cursor_d\<close> has the depth of the calls as its argument, and running out of it is the overflow of the kernel's stack.
  Log messages are left out.
\<close>

section \<open>Definitions\<close>

record ConsoleChar =
  cc_c :: char
  cc_fg :: u32
  cc_bg :: u32
  cc_dirty :: bool

datatype RgbColor = BLACK | WHITE | RED | GREEN | BLUE | CYAN | YELLOW | MAGENTA

primrec rgb_color :: "RgbColor \<Rightarrow> u32" where
  "rgb_color BLACK = 0x00000000"
| "rgb_color WHITE = 0x00FFFFFF"
| "rgb_color RED = 0x00FF0000"
| "rgb_color GREEN = 0x0000FF00"
| "rgb_color BLUE = 0x000000FF"
| "rgb_color CYAN = 0x0000FFFF"
| "rgb_color YELLOW = 0x00FFFF00"
| "rgb_color MAGENTA = 0x00FF00FF"

record console =
  cursor_col :: u32
  cursor_row :: u32
  current_fg :: u32
  current_bg :: u32
  prev_fg :: u32
  prev_bg :: u32
  screen_cols :: u64
  screen_rows :: u64
  viewport_offset :: u64
  cursor_enabled :: bool
  cbuffer :: "ConsoleChar list list"
  cfb :: framebuffer

text \<open>The variables before \<^verbatim>\<open>init\<close>.\<close>

definition console_static :: "framebuffer \<Rightarrow> console" where
  "console_static f = \<lparr>cursor_col = 0, cursor_row = 0, current_fg = rgb_color WHITE, current_bg = rgb_color BLACK, prev_fg = rgb_color WHITE, prev_bg = rgb_color BLACK,
     screen_cols = 0, screen_rows = 0, viewport_offset = 0, cursor_enabled = True, cbuffer = [], cfb = f\<rparr>"

definition on_fb :: "(framebuffer \<Rightarrow> framebuffer kres) \<Rightarrow> console \<Rightarrow> console kres" where
  "on_fb f s = kbind (f (cfb s)) (\<lambda>b. Inr (s\<lparr>cfb := b\<rparr>))"

definition get_cursor_pixel_x :: "int \<Rightarrow> console \<Rightarrow> u32" where
  "get_cursor_pixel_x offset s = (cursor_col s + word_of_int offset) * of_nat (font_width Font8x16)"

definition get_cursor_pixel_y :: "int \<Rightarrow> console \<Rightarrow> u32" where
  "get_cursor_pixel_y offset s = ucast ((ucast (cursor_row s) - viewport_offset s + word_of_int offset) * of_nat (font_height Font8x16))"

text \<open>The two loops that append while the index is not in the vector.\<close>

function pad_to :: "'a \<Rightarrow> nat \<Rightarrow> 'a list \<Rightarrow> 'a list" where
  "pad_to x n xs = (if n \<ge> length xs then pad_to x n (xs @ [x]) else xs)"
  by pat_completeness auto
termination
  by (relation "measure (\<lambda>(x, n, xs). Suc n - length xs)") auto

declare pad_to.simps [simp del]

definition ensure_valid_cursor_buffer_pos :: "nat \<Rightarrow> nat \<Rightarrow> console \<Rightarrow> console" where
  "ensure_valid_cursor_buffer_pos row col s = (let b = pad_to [] row (cbuffer s) in
     s\<lparr>cbuffer := b[row := pad_to \<lparr>cc_c = CHR '' '', cc_fg = current_fg s, cc_bg = current_bg s, cc_dirty = True\<rparr> col (b ! row)]\<rparr>)"

text \<open>An update of \<^verbatim>\<open>buffer[row][col]\<close>.\<close>

definition upd_cell :: "nat \<Rightarrow> nat \<Rightarrow> (ConsoleChar \<Rightarrow> ConsoleChar) \<Rightarrow> console \<Rightarrow> console kres" where
  "upd_cell row col f s = (if row < length (cbuffer s) \<and> col < length (cbuffer s ! row)
     then Inr (s\<lparr>cbuffer := (cbuffer s)[row := (cbuffer s ! row)[col := f (cbuffer s ! row ! col)]]\<rparr>) else Inl (Fault ''out of bounds''))"

definition cursor_within_viewport :: "console \<Rightarrow> bool" where
  "cursor_within_viewport s \<longleftrightarrow> ucast (cursor_row s) - viewport_offset s < screen_rows s"

definition empty_line :: "console \<Rightarrow> string" where
  "empty_line s = replicate (unat (screen_cols s)) CHR '' ''"

definition console_init :: "console \<Rightarrow> console" where
  "console_init s = s\<lparr>cursor_col := 0, cursor_row := 0, viewport_offset := 0,
     screen_cols := ucast (get_screen_width (cfb s) div of_nat (font_width Font8x16)), screen_rows := ucast (get_screen_height (cfb s) div of_nat (font_height Font8x16)),
     cursor_enabled := True\<rparr>"

definition enable_cursor :: "console \<Rightarrow> console" where
  "enable_cursor s = (if \<not> cursor_enabled s then s\<lparr>cursor_enabled := True\<rparr> else s)"

definition disable_cursor :: "console \<Rightarrow> console" where
  "disable_cursor s = (if cursor_enabled s then s\<lparr>cursor_enabled := False\<rparr> else s)"

definition draw_cursor :: "console \<Rightarrow> console kres" where
  "draw_cursor s = on_fb (invert_rec (get_cursor_pixel_x 0 s) (get_cursor_pixel_y 0 s) (of_nat (font_width Font8x16)) (of_nat (font_height Font8x16))) s"

definition erase_in_line :: "nat \<Rightarrow> nat \<Rightarrow> console \<Rightarrow> console kres" where
  "erase_in_line from to = kfor from to (\<lambda>col s. let row = unat (cursor_row s) in
     upd_cell row col (\<lambda>cc. cc\<lparr>cc_c := CHR '' '', cc_dirty := True\<rparr>) (ensure_valid_cursor_buffer_pos row col s))"

definition clear_to_eol :: "console \<Rightarrow> console kres" where
  "clear_to_eol s = erase_in_line (unat (cursor_col s)) (unat (screen_cols s)) s"

definition draw_character_at :: "char \<Rightarrow> nat \<Rightarrow> nat \<Rightarrow> u32 \<Rightarrow> u32 \<Rightarrow> console \<Rightarrow> console kres" where
  "draw_character_at c row col fg bg = (let pixel_x = of_nat (col * font_width Font8x16); pixel_y = of_nat (row * font_height Font8x16) in
     if c = CHR '' '' then on_fb (fill_rect pixel_x pixel_y (of_nat (font_width Font8x16)) (of_nat (font_height Font8x16)) bg)
     else on_fb (draw_char pixel_x pixel_y (Some Font8x16) c fg bg))"

definition redraw_cell :: "bool \<Rightarrow> nat \<Rightarrow> nat \<Rightarrow> console \<Rightarrow> console kres" where
  "redraw_cell draw_clean row col s = (let v = unat (viewport_offset s) in
     if row - v < unat (screen_rows s)
     then if row < length (cbuffer s) \<and> col < length (cbuffer s ! row)
       then let cc = cbuffer s ! row ! col in
         kbind (if draw_clean \<or> cc_dirty cc then draw_character_at (cc_c cc) (row - v) col (cc_fg cc) (cc_bg cc) s else Inr s)
           (upd_cell row col (\<lambda>cc. cc\<lparr>cc_dirty := False\<rparr>))
       else draw_character_at CHR '' '' (row - v) col (current_fg s) (current_bg s) s
     else Inr s)"

definition console_redraw :: "bool \<Rightarrow> console \<Rightarrow> console kres" where
  "console_redraw draw_clean s =
     kbind (if draw_clean then on_fb (fb_clear (current_bg s)) s else Inr s) (\<lambda>s.
     kbind (if cursor_enabled s \<and> cursor_within_viewport s then draw_cursor s else Inr s) (\<lambda>s.
     kbind (kfor (unat (viewport_offset s)) (length (cbuffer s)) (\<lambda>row. kfor 0 (unat (screen_cols s)) (redraw_cell draw_clean row)) s) (\<lambda>s.
     if cursor_enabled s \<and> cursor_within_viewport s then draw_cursor s else Inr s)))"

definition scroll :: "console \<Rightarrow> console kres" where
  "scroll s = console_redraw True (s\<lparr>viewport_offset := viewport_offset s + 1\<rparr>)"

definition newline_by :: "(u32 \<Rightarrow> u32 \<Rightarrow> console \<Rightarrow> console kres) \<Rightarrow> console \<Rightarrow> console kres" where
  "newline_by set_cursor s =
     kbind (upd_cell (unat (cursor_row s)) (unat (cursor_col s)) (\<lambda>cc. cc\<lparr>cc_dirty := True\<rparr>) s) (\<lambda>s.
     kbind (set_cursor 0 (cursor_row s + 1) s) (console_redraw False))"

primrec set_cursor_d :: "nat \<Rightarrow> u32 \<Rightarrow> u32 \<Rightarrow> console \<Rightarrow> console kres" where
  "set_cursor_d 0 = (\<lambda>col row s. Inl (Fault ''stack overflow''))"
| "set_cursor_d (Suc d) = (\<lambda>col row s. if cursor_col s = col \<and> cursor_row s = row then Inr s
     else kbind (draw_cursor (ensure_valid_cursor_buffer_pos (unat row) (unat col) s)) (\<lambda>s. let s = s\<lparr>cursor_col := col, cursor_row := row\<rparr> in
       kbind (if ucast (cursor_col s) \<ge> screen_cols s then newline_by (set_cursor_d d) s else Inr s) (\<lambda>s.
       kbind (if ucast (cursor_row s) - viewport_offset s \<ge> screen_rows s then scroll s else Inr s) draw_cursor)))"

definition CALL_DEPTH :: nat where
  "CALL_DEPTH = 64"

definition set_cursor :: "u32 \<Rightarrow> u32 \<Rightarrow> console \<Rightarrow> console kres" where
  "set_cursor = set_cursor_d CALL_DEPTH"

definition newline :: "console \<Rightarrow> console kres" where
  "newline = newline_by set_cursor"

definition set_cursor_x :: "u32 \<Rightarrow> console \<Rightarrow> console kres" where
  "set_cursor_x x s = set_cursor x (cursor_row s) s"

definition set_cursor_y :: "u32 \<Rightarrow> console \<Rightarrow> console kres" where
  "set_cursor_y y s = set_cursor (cursor_col s) y s"

text \<open>The displacements are of type \<^verbatim>\<open>int32_t\<close> and the sums wrap around.\<close>

definition move_cursor :: "u32 \<Rightarrow> u32 \<Rightarrow> console \<Rightarrow> console kres" where
  "move_cursor dx dy s = set_cursor (cursor_col s + dx) (cursor_row s + dy) s"

definition scroll_up :: "console \<Rightarrow> console kres" where
  "scroll_up s = (if viewport_offset s > 0 then console_redraw True (s\<lparr>viewport_offset := viewport_offset s - 1\<rparr>) else Inr s)"

definition scroll_down :: "console \<Rightarrow> console kres" where
  "scroll_down s = (if viewport_offset s < ucast (cursor_row s) then console_redraw True (s\<lparr>viewport_offset := viewport_offset s + 1\<rparr>) else Inr s)"

definition scroll_into_view :: "console \<Rightarrow> console" where
  "scroll_into_view s = (if cursor_within_viewport s then s else s\<lparr>viewport_offset := ucast (cursor_row s)\<rparr>)"

definition backspace :: "console \<Rightarrow> console kres" where
  "backspace s = (if cursor_col s = 0 then Inr s else move_cursor (- 1) 0 s)"

definition put_char :: "char \<Rightarrow> console \<Rightarrow> console kres" where
  "put_char c s = (if c = CHR 0x0A then newline s
     else let row = unat (cursor_row s); col = unat (cursor_col s) in
       kbind (upd_cell row col (\<lambda>cc. cc\<lparr>cc_c := c, cc_dirty := True\<rparr>) (ensure_valid_cursor_buffer_pos row col s)) (move_cursor 1 0))"

definition put_view :: "kstring_view \<Rightarrow> console \<Rightarrow> console kres" where
  "put_view sv = kfor 0 (kv_len sv) (\<lambda>i s. kbind (kv_nth sv i) (\<lambda>c. put_char c s))"

definition set_color :: "u32 \<Rightarrow> u32 \<Rightarrow> console \<Rightarrow> console" where
  "set_color fg bg s = s\<lparr>prev_fg := current_fg s, prev_bg := current_bg s, current_fg := fg, current_bg := bg\<rparr>"

definition reset_color :: "console \<Rightarrow> console" where
  "reset_color s = s\<lparr>current_fg := prev_fg s, current_bg := prev_bg s\<rparr>"

definition console_clear :: "console \<Rightarrow> console kres" where
  "console_clear s = kbind (on_fb clear_black s) (\<lambda>s. kbind (set_cursor 0 (cursor_row s + 1) s) (\<lambda>s.
     console_redraw False (s\<lparr>viewport_offset := ucast (cursor_row s)\<rparr>)))"

subsection \<open>Escape sequences\<close>

definition ANSI_ESCAPE :: char where
  "ANSI_ESCAPE = CHR 0x1B"

definition is_csi :: "(nat \<Rightarrow> char kres) \<Rightarrow> nat \<Rightarrow> bool kres" where
  "is_csi r i = kbind (r i) (\<lambda>c. if c = ANSI_ESCAPE then kbind (r (i + 1)) (\<lambda>d. Inr (d = CHR ''['')) else Inr False)"

definition is_cs_code :: "char \<Rightarrow> bool" where
  "is_cs_code c \<longleftrightarrow> c \<in> set ''ABCDEFGHJKSTm''"

definition get_default_arg :: "char \<Rightarrow> string" where
  "get_default_arg c = (if c \<in> set ''ABCDEFGHST'' then ''1'' else if c \<in> set ''JKm'' then ''0'' else [])"

definition first_arg :: "kstring kvector \<Rightarrow> u64 kres" where
  "first_arg args = kbind (kvector_front args) (\<lambda>arg. parse_uint_kstring arg DEC)"

definition cursor_forward :: "kstring kvector \<Rightarrow> console \<Rightarrow> console kres" where
  "cursor_forward args s = kbind (first_arg args) (\<lambda>val. move_cursor (ucast val) 0 s)"

definition cursor_back :: "kstring kvector \<Rightarrow> console \<Rightarrow> console kres" where
  "cursor_back args s = kbind (first_arg args) (\<lambda>val. move_cursor (ucast (- val)) 0 s)"

definition ansi_erase_in_line :: "kstring kvector \<Rightarrow> console \<Rightarrow> console kres" where
  "ansi_erase_in_line args s = kbind (first_arg args) (\<lambda>val.
     if val = 0 then erase_in_line (unat (cursor_col s)) (unat (screen_cols s)) s
     else if val = 1 then erase_in_line 0 (unat (cursor_col s)) s
     else if val = 2 then erase_in_line 0 (unat (screen_cols s)) s
     else Inr s)"

definition cursor_next_line :: "kstring kvector \<Rightarrow> console \<Rightarrow> console kres" where
  "cursor_next_line args s = kbind (first_arg args) (\<lambda>val. kfor 0 (unat val) (\<lambda>_. newline) s)"

text \<open>The first code at or after \<open>i\<close>, or the end.\<close>

function find_code :: "(nat \<Rightarrow> char kres) \<Rightarrow> nat \<Rightarrow> nat \<Rightarrow> nat kres" where
  "find_code r i e = (if i < e then kbind (r i) (\<lambda>c. if is_cs_code c then Inr i else find_code r (Suc i) e) else Inr i)"
  by pat_completeness auto
termination
  by (relation "measure (\<lambda>(r, i, e). e - i)") auto

declare find_code.simps [simp del]

definition default_args :: "string \<Rightarrow> kstring kvector \<Rightarrow> kstring kvector kres" where
  "default_args d args = kbind (kstring_cstr (Some d)) (\<lambda>default_arg.
     if kvector_empty args then kbind (kstring_copy default_arg) (\<lambda>a. kvector_push_back a args)
     else kfor 0 (v_size args) (\<lambda>i args. kbind (v_read args i) (\<lambda>arg.
       if kstring_empty arg then kbind (kstring_assign arg default_arg) (\<lambda>a. v_write i a args) else Inr args)) args)"

definition parse_csi :: "(nat \<Rightarrow> char kres) \<Rightarrow> nat \<Rightarrow> nat \<Rightarrow> console \<Rightarrow> (nat \<times> console) kres" where
  "parse_csi r begin str_end s = kbind (find_code r begin str_end) (\<lambda>iter.
     if iter = str_end then Inr (0, s)
     else kbind (r iter) (\<lambda>code.
       kbind (tokenize (\<lambda>i. r (begin + 2 + i)) (iter - (begin + 2)) CHR '';'') (\<lambda>args.
       kbind (default_args (get_default_arg code) args) (\<lambda>args.
       kbind (if code = CHR ''C'' then cursor_forward args s
              else if code = CHR ''D'' then cursor_back args s
              else if code = CHR ''K'' then ansi_erase_in_line args s
              else if code = CHR ''E'' then cursor_next_line args s
              else Inr s) (\<lambda>s. Inr (iter - begin + 1, s))))))"

definition parse_ansi_escape :: "(nat \<Rightarrow> char kres) \<Rightarrow> nat \<Rightarrow> nat \<Rightarrow> console \<Rightarrow> (nat \<times> console) kres" where
  "parse_ansi_escape r i str_end s = kbind (is_csi r i) (\<lambda>b. if b then parse_csi r i str_end s else Inr (1, s))"

text \<open>The loop of \<^verbatim>\<open>put(const kstring&)\<close>; \<open>None\<close> when it does not end.\<close>

partial_function (option) put_from :: "kstring \<Rightarrow> nat \<Rightarrow> console \<Rightarrow> console kres option" where
  "put_from str i s = (if i = ks_len str then Some (Inr s)
     else case rd str i of Inl e \<Rightarrow> Some (Inl e)
       | Inr c \<Rightarrow> if c = ANSI_ESCAPE
           then (case parse_ansi_escape (rd str) i (ks_len str) s of Inl e \<Rightarrow> Some (Inl e) | Inr (n, s) \<Rightarrow> put_from str (i + n) s)
           else (case put_char c s of Inl e \<Rightarrow> Some (Inl e) | Inr s \<Rightarrow> put_from str (Suc i) s))"

definition put_kstring :: "kstring \<Rightarrow> console \<Rightarrow> console kres option" where
  "put_kstring str s = put_from str 0 s"

section \<open>The text on the screen\<close>

text \<open>The characters of the buffer as a grid; what is not in it is a space.\<close>

definition cell :: "ConsoleChar list list \<Rightarrow> nat \<Rightarrow> nat \<Rightarrow> char" where
  "cell b i j = (if i < length b \<and> j < length (b ! i) then cc_c (b ! i ! j) else CHR '' '')"

lemma pad_to_eq: "pad_to x n xs = xs @ replicate (Suc n - length xs) x"
proof (induction x n xs rule: pad_to.induct)
  case (1 x n xs)
  show ?case
  proof (cases "n \<ge> length xs")
    case True
    then have "Suc n - length xs = Suc (n - length xs)" by simp
    then show ?thesis using True 1 by (subst pad_to.simps) simp
  qed (subst pad_to.simps, simp)
qed

lemma length_pad_to: "length (pad_to x n xs) = max (length xs) (Suc n)"
  by (simp add: pad_to_eq)

lemma nth_pad_to: "i < max (length xs) (Suc n) \<Longrightarrow> pad_to x n xs ! i = (if i < length xs then xs ! i else x)"
  by (auto simp: pad_to_eq nth_append)

text \<open>A buffer with a position made valid.\<close>

definition has :: "nat \<Rightarrow> nat \<Rightarrow> console \<Rightarrow> bool" where
  "has r c s \<longleftrightarrow> r < length (cbuffer s) \<and> c < length (cbuffer s ! r)"

lemma ensure_frame: "\<exists>b. ensure_valid_cursor_buffer_pos r c s = s\<lparr>cbuffer := b\<rparr>"
  by (auto simp: ensure_valid_cursor_buffer_pos_def Let_def)

lemma ensure_cell: "cell (cbuffer (ensure_valid_cursor_buffer_pos r c s)) i j = cell (cbuffer s) i j"
  by (auto simp: ensure_valid_cursor_buffer_pos_def Let_def cell_def length_pad_to nth_pad_to nth_list_update)

lemma ensure_has: "has r c (ensure_valid_cursor_buffer_pos r c s)" "has i j s \<Longrightarrow> has i j (ensure_valid_cursor_buffer_pos r c s)"
  by (auto simp: ensure_valid_cursor_buffer_pos_def Let_def has_def length_pad_to nth_pad_to nth_list_update)

lemma upd_cell_ok:
  assumes "has r c s"
  shows "\<exists>b. upd_cell r c f s = Inr (s\<lparr>cbuffer := b\<rparr>) \<and> (\<forall>i j. has i j (s\<lparr>cbuffer := b\<rparr>) \<longleftrightarrow> has i j s) \<and> length b = length (cbuffer s) \<and>
    (\<forall>i j. cell b i j = (if i = r \<and> j = c then cc_c (f (cbuffer s ! r ! c)) else cell (cbuffer s) i j))"
  by (rule exI [of _ "(cbuffer s)[r := (cbuffer s ! r)[c := f (cbuffer s ! r ! c)]]"])
    (use assms in \<open>auto simp: upd_cell_def has_def cell_def nth_list_update\<close>)

text \<open>
  A console on a screen with room for one more pixel to the right of and below the text. The cursor is at \<open>(r, c)\<close>, the first line shown is \<open>v\<close>, and the text is \<open>g\<close>.
\<close>

definition con_at :: "nat \<Rightarrow> nat \<Rightarrow> nat \<Rightarrow> nat \<Rightarrow> nat \<Rightarrow> nat \<Rightarrow> nat \<Rightarrow> (nat \<Rightarrow> nat \<Rightarrow> char) \<Rightarrow> console \<Rightarrow> bool" where
  "con_at w h cols rows r c v g s \<longleftrightarrow> fb_ok w h (cfb s) \<and> screen_cols s = of_nat cols \<and> screen_rows s = of_nat rows \<and> 0 < cols \<and> 0 < rows \<and> 8 * cols < w \<and> 16 * rows < h \<and>
     cursor_row s = of_nat r \<and> cursor_col s = of_nat c \<and> viewport_offset s = of_nat v \<and> r < 2 ^ 31 \<and> c \<le> cols \<and> v \<le> r \<and> has r c s \<and> (\<lambda>i j. cell (cbuffer s) i j) = g"

lemma word_nat:
  assumes "n < 2 ^ 31"
  shows "unat (of_nat n :: u32) = n" "unat (of_nat n :: u64) = n" "(ucast (of_nat n :: u32) :: u64) = of_nat n"
proof -
  show n: "unat (of_nat n :: u32) = n" "unat (of_nat n :: u64) = n" using assms by (simp_all add: unat_of_nat)
  show "(ucast (of_nat n :: u32) :: u64) = of_nat n" using n(1) by (metis of_nat_unat)
qed

lemma word_sub: "v \<le> r \<Longrightarrow> (of_nat r :: 'a::len word) - of_nat v = of_nat (r - v)"
  by simp

lemma con_atD:
  assumes "con_at w h cols rows r c v g s"
  shows "fb_ok w h (cfb s)" "cols < 2 ^ 15" "rows < 2 ^ 15" "unat (cursor_row s) = r" "unat (cursor_col s) = c" "unat (viewport_offset s) = v" "unat (screen_cols s) = cols"
    "unat (screen_rows s) = rows" "ucast (cursor_row s) - viewport_offset s = of_nat (r - v)" "has r c s" "(ucast (cursor_col s) :: u64) = of_nat c"
proof -
  show f: "fb_ok w h (cfb s)" "has r c s" using assms by (simp_all add: con_at_def)
  show b: "cols < 2 ^ 15" "rows < 2 ^ 15" using assms by (auto simp: con_at_def fb_ok_def)
  have "r < 2 ^ 31" "v < 2 ^ 31" "c < 2 ^ 31" "cols < 2 ^ 31" "rows < 2 ^ 31" using assms b by (auto simp: con_at_def)
  note word_nat [OF this(1)] word_nat [OF this(2)] word_nat [OF this(3)] word_nat [OF this(4)] word_nat [OF this(5)]
  then show "unat (cursor_row s) = r" "unat (cursor_col s) = c" "unat (viewport_offset s) = v" "unat (screen_cols s) = cols" "unat (screen_rows s) = rows"
    "ucast (cursor_row s) - viewport_offset s = of_nat (r - v)" "(ucast (cursor_col s) :: u64) = of_nat c"
    using assms by (simp_all add: con_at_def)
qed

lemma draw_cursor_ok:
  assumes "con_at w h cols rows r c v g s" "r < v + rows"
  shows "\<exists>f. draw_cursor s = Inr (s\<lparr>cfb := f\<rparr>) \<and> fb_ok w h f"
proof -
  note d = con_atD [OF assms(1)]
  have rv: "r - v < rows" "c \<le> cols" "8 * cols < w" "16 * rows < h" using assms by (auto simp: con_at_def)
  have x: "get_cursor_pixel_x 0 s = of_nat (c * 8)" using assms(1) by (simp add: get_cursor_pixel_x_def Font8x16_simps con_at_def)
  have "unat (of_nat ((r - v) * 16) :: u64) = (r - v) * 16" using rv(1) d(3) unfolding unat_of_nat by (intro mod_less) simp
  then have "ucast (of_nat ((r - v) * 16) :: u64) = (of_nat ((r - v) * 16) :: u32)" by (metis of_nat_unat)
  then have y: "get_cursor_pixel_y 0 s = of_nat ((r - v) * 16)"
    unfolding get_cursor_pixel_y_def d(9) Font8x16_simps by simp
  have "\<exists>f. invert_rec (of_nat (c * 8)) (of_nat ((r - v) * 16)) (of_nat 8) (of_nat 16) (cfb s) = Inr f \<and> fb_ok w h f"
  proof (rule invert_rec_safe [OF d(1)])
    fix px py assume p: "c * 8 \<le> px" "px < c * 8 + 8" "(r - v) * 16 \<le> py" "py < (r - v) * 16 + 16"
    have "py + 2 \<le> h" "px \<le> w + 7" "8 \<le> w" using p rv assms(1) by (auto simp: con_at_def)
    then obtain k where "h = py + 2 + k" using le_Suc_ex by blast
    then have "w * h = py * w + w + w + k * w" by (simp add: algebra_simps)
    then show "py * w + px < w * h" using \<open>px \<le> w + 7\<close> \<open>8 \<le> w\<close> by simp
  qed (use rv d(1) in \<open>auto simp: fb_ok_def\<close>)
  then obtain f where f: "invert_rec (of_nat (c * 8)) (of_nat ((r - v) * 16)) (of_nat 8) (of_nat 16) (cfb s) = Inr f" "fb_ok w h f" by blast
  have "draw_cursor s = Inr (s\<lparr>cfb := f\<rparr>)" unfolding draw_cursor_def x y Font8x16_simps on_fb_def f(1) by simp
  then show ?thesis using f(2) by blast
qed

lemma draw_character_at_ok:
  assumes "fb_ok w h (cfb s)" "8 * cols < w" "16 * rows < h" "row < rows" "col < cols"
  shows "\<exists>f. draw_character_at ch row col fg bg s = Inr (s\<lparr>cfb := f\<rparr>) \<and> fb_ok w h f"
proof -
  have b: "col * 8 + 8 < w" "row * 16 + 16 < h" using assms by auto
  have "\<exists>f. fill_rect (of_nat (col * 8)) (of_nat (row * 16)) (of_nat 8) (of_nat 16) bg (cfb s) = Inr f \<and> fb_ok w h f"
    using fill_rect_painted [OF assms(1), of "col * 8" 8 "row * 16" 16 bg] b by (auto simp: painted_def simp del: of_nat_mult of_nat_numeral)
  moreover have "\<exists>f. draw_char (of_nat (col * 8)) (of_nat (row * 16)) (Some Font8x16) ch fg bg (cfb s) = Inr f \<and> fb_ok w h f"
    using draw_char_painted [OF assms(1) b, of ch fg bg] unfolding painted_def by blast
  ultimately show ?thesis by (auto simp: draw_character_at_def Let_def Font8x16_simps on_fb_def simp del: of_nat_mult of_nat_numeral)
qed

text \<open>Redrawing keeps the text; only pixels and \<^verbatim>\<open>dirty\<close> flags change.\<close>

lemma con_at_cfb: "con_at w h cols rows r c v g s \<Longrightarrow> fb_ok w h f \<Longrightarrow> con_at w h cols rows r c v g (s\<lparr>cfb := f\<rparr>)"
  by (simp add: con_at_def has_def)

lemma con_at_upd:
  assumes "con_at w h cols rows r c v g s" "\<And>i j. has i j (s\<lparr>cbuffer := b\<rparr>) \<longleftrightarrow> has i j s" "\<And>i j. cell b i j = cell (cbuffer s) i j"
  shows "con_at w h cols rows r c v g (s\<lparr>cbuffer := b\<rparr>)"
  using assms by (simp add: con_at_def)

lemma redraw_cell_ok:
  assumes "con_at w h cols rows r c v g s" "v \<le> row" "row < length (cbuffer s)" "col < cols"
  shows "\<exists>s'. redraw_cell d row col s = Inr s' \<and> con_at w h cols rows r c v g s' \<and> length (cbuffer s') = length (cbuffer s)"
proof -
  note con = con_atD [OF assms(1)] and geo = assms(1) [unfolded con_at_def]
  have dr: "\<exists>f. draw_character_at ch (row - v) col fg bg s = Inr (s\<lparr>cfb := f\<rparr>) \<and> fb_ok w h f" if "row - v < rows" for ch fg bg
    using draw_character_at_ok [OF con(1), of cols rows "row - v" col] geo that assms(4) by blast
  have up: "\<exists>s'. upd_cell row col (\<lambda>cc. cc\<lparr>cc_dirty := False\<rparr>) (s\<lparr>cfb := f\<rparr>) = Inr s' \<and> con_at w h cols rows r c v g s' \<and> length (cbuffer s') = length (cbuffer s)"
    if h: "has row col s" and f: "fb_ok w h f" for f
  proof -
    have h': "has row col (s\<lparr>cfb := f\<rparr>)" and c': "con_at w h cols rows r c v g (s\<lparr>cfb := f\<rparr>)" using h con_at_cfb [OF assms(1) f] by (simp_all add: has_def)
    obtain b where b: "upd_cell row col (\<lambda>cc. cc\<lparr>cc_dirty := False\<rparr>) (s\<lparr>cfb := f\<rparr>) = Inr (s\<lparr>cfb := f, cbuffer := b\<rparr>)"
        "\<forall>i j. has i j (s\<lparr>cfb := f, cbuffer := b\<rparr>) \<longleftrightarrow> has i j (s\<lparr>cfb := f\<rparr>)" "length b = length (cbuffer (s\<lparr>cfb := f\<rparr>))"
        "\<forall>i j. cell b i j = (if i = row \<and> j = col then cc_c ((\<lambda>cc. cc\<lparr>cc_dirty := False\<rparr>) (cbuffer (s\<lparr>cfb := f\<rparr>) ! row ! col)) else cell (cbuffer (s\<lparr>cfb := f\<rparr>)) i j)"
      using upd_cell_ok [OF h'] by blast
    have "con_at w h cols rows r c v g (s\<lparr>cfb := f, cbuffer := b\<rparr>)"
      by (rule con_at_upd [OF c']) (use b(2,4) h in \<open>auto simp: has_def cell_def\<close>)
    then show ?thesis using b(1,3) by simp
  qed
  show ?thesis
  proof (cases "row - v < rows \<and> has row col s")
    case True
    obtain f where f: "(if d \<or> cc_dirty (cbuffer s ! row ! col) then draw_character_at (cc_c (cbuffer s ! row ! col)) (row - v) col (cc_fg (cbuffer s ! row ! col)) (cc_bg (cbuffer s ! row ! col)) s
        else Inr s) = Inr (s\<lparr>cfb := f\<rparr>)" "fb_ok w h f"
    proof (cases "d \<or> cc_dirty (cbuffer s ! row ! col)")
      case T: True
      then show ?thesis using dr [OF conjunct1 [OF True]] that by (simp only: if_True) blast
    next
      case F: False
      have "s = s\<lparr>cfb := cfb s\<rparr>" by simp
      with F show ?thesis using con(1) by (intro that [of "cfb s"]) simp_all
    qed
    have "redraw_cell d row col s = upd_cell row col (\<lambda>cc. cc\<lparr>cc_dirty := False\<rparr>) (s\<lparr>cfb := f\<rparr>)"
      unfolding redraw_cell_def Let_def con(6,8) using True f(1) by (simp add: has_def)
    then show ?thesis using up [OF conjunct2 [OF True] f(2)] by simp
  next
    case False
    consider "\<not> row - v < rows" | "row - v < rows" "\<not> has row col s" using False by blast
    then show ?thesis
    proof cases
      case 1
      then have "redraw_cell d row col s = Inr s" unfolding redraw_cell_def Let_def con(6,8) by simp
      then show ?thesis using assms(1) by simp
    next
      case 2
      obtain f where f: "draw_character_at CHR '' '' (row - v) col (current_fg s) (current_bg s) s = Inr (s\<lparr>cfb := f\<rparr>)" "fb_ok w h f" using dr [OF 2(1)] by blast
      then have "redraw_cell d row col s = Inr (s\<lparr>cfb := f\<rparr>)" unfolding redraw_cell_def Let_def con(6,8) using 2 by (auto simp: has_def)
      moreover have "con_at w h cols rows r c v g (s\<lparr>cfb := f\<rparr>)" by (rule con_at_cfb [OF assms(1) f(2)])
      ultimately show ?thesis by simp
    qed
  qed
qed

lemma within: "con_at w h cols rows r c v g s \<Longrightarrow> cursor_within_viewport s \<longleftrightarrow> r < v + rows"
proof -
  assume a: "con_at w h cols rows r c v g s"
  note con = con_atD [OF a]
  have b: "r - v < 2 ^ 31" "rows < 2 ^ 31" "v \<le> r" "screen_rows s = of_nat rows" using a con(3) by (auto simp: con_at_def)
  have "(of_nat (r - v) :: u64) < of_nat rows \<longleftrightarrow> r - v < rows" using word_nat(2) [OF b(1)] word_nat(2) [OF b(2)] by (simp add: word_less_nat_alt)
  then show ?thesis unfolding cursor_within_viewport_def con(9) b(4) using b(3) by auto
qed

lemma console_redraw_ok:
  assumes "con_at w h cols rows r c v g s"
  shows "\<exists>s'. console_redraw d s = Inr s' \<and> con_at w h cols rows r c v g s'"
proof -
  have cur: "\<exists>t'. (if cursor_enabled t \<and> cursor_within_viewport t then draw_cursor t else Inr t) = Inr t' \<and> con_at w h cols rows r c v g t'"
    if "con_at w h cols rows r c v g t" for t
    using draw_cursor_ok [OF that] con_at_cfb [OF that] within [OF that] that by auto
  obtain s1 where s1: "(if d then on_fb (fb_clear (current_bg s)) s else Inr s) = Inr s1" "con_at w h cols rows r c v g s1"
    using fb_clear_painted [OF con_atD(1) [OF assms], of "current_bg s"] con_at_cfb [OF assms] assms by (cases d) (auto simp: on_fb_def painted_def)
  obtain s2 where s2: "(if cursor_enabled s1 \<and> cursor_within_viewport s1 then draw_cursor s1 else Inr s1) = Inr s2" "con_at w h cols rows r c v g s2"
    using cur [OF s1(2)] by blast
  note con = con_atD [OF s2(2)]
  have len: "v \<le> length (cbuffer s2)" using s2(2) by (simp add: con_at_def has_def)
  have "\<exists>s3. kfor v (length (cbuffer s2)) (\<lambda>row. kfor 0 cols (redraw_cell d row)) s2 = Inr s3 \<and> (con_at w h cols rows r c v g s3 \<and> length (cbuffer s3) = length (cbuffer s2))"
  proof (rule kfor_rule [where I = "\<lambda>_ t. con_at w h cols rows r c v g t \<and> length (cbuffer t) = length (cbuffer s2)"])
    fix row t assume t: "v \<le> row" "row < length (cbuffer s2)" "con_at w h cols rows r c v g t \<and> length (cbuffer t) = length (cbuffer s2)"
    show "\<exists>t'. kfor 0 cols (redraw_cell d row) t = Inr t' \<and> con_at w h cols rows r c v g t' \<and> length (cbuffer t') = length (cbuffer s2)"
    proof (rule kfor_rule [where I = "\<lambda>_ t. con_at w h cols rows r c v g t \<and> length (cbuffer t) = length (cbuffer s2)"])
      fix col u assume "col < cols" "con_at w h cols rows r c v g u \<and> length (cbuffer u) = length (cbuffer s2)"
      then show "\<exists>t'. redraw_cell d row col u = Inr t' \<and> con_at w h cols rows r c v g t' \<and> length (cbuffer t') = length (cbuffer s2)"
        using redraw_cell_ok [of w h cols rows r c v g u row col d] t(1,2) by auto
    qed (use t in auto)
  qed (use s2(2) len in auto)
  then obtain s3 where s3: "kfor v (length (cbuffer s2)) (\<lambda>row. kfor 0 cols (redraw_cell d row)) s2 = Inr s3" "con_at w h cols rows r c v g s3" by blast
  show ?thesis using cur [OF s3(2)] unfolding console_redraw_def s1(1) kbind_simps s2(1) con(6,7) s3(1) .
qed

text \<open>Moving the cursor to a place on the same or on the next line, which scrolls when that is below the screen.\<close>

lemma set_cursor_step:
  assumes "con_at w h cols rows r c v g s" "r < v + rows" "c' < cols" "r' = r \<or> r' = Suc r" "r' < 2 ^ 31"
  shows "\<exists>s'. set_cursor_d (Suc d) (of_nat c') (of_nat r') s = Inr s' \<and> con_at w h cols rows r' c' (if r' < v + rows then v else Suc v) g s'"
proof (cases "cursor_col s = of_nat c' \<and> cursor_row s = of_nat r'")
  case True
  have "c' < 2 ^ 31" "c \<le> cols" "cols < 2 ^ 15" using assms(1,3) con_atD(2) [OF assms(1)] by (auto simp: con_at_def)
  then have "c = c'" "r = r'" using True con_atD(4,5) [OF assms(1)] word_nat(1) [of c'] word_nat(1) [OF assms(5)] by auto
  then show ?thesis using assms(1,2) True by simp
next
  case False
  have c': "c' < 2 ^ 31" "cols < 2 ^ 31" using assms(3) con_atD(2) [OF assms(1)] by auto
  note wn = word_nat [OF c'(1)] word_nat [OF assms(5)]
  define e where "e = ensure_valid_cursor_buffer_pos r' c' s"
  obtain b where b: "e = s\<lparr>cbuffer := b\<rparr>" unfolding e_def using ensure_frame by blast
  have ce: "con_at w h cols rows r c v g e"
  proof -
    have "has r c e" unfolding e_def using ensure_has(2) assms(1) by (auto simp: con_at_def)
    moreover have "cell (cbuffer e) i j = cell (cbuffer s) i j" for i j unfolding e_def by (rule ensure_cell)
    ultimately show ?thesis using assms(1) b by (simp add: con_at_def)
  qed
  have he: "has r' c' e" unfolding e_def by (rule ensure_has)
  obtain f where f: "draw_cursor e = Inr (e\<lparr>cfb := f\<rparr>)" "fb_ok w h f" using draw_cursor_ok [OF ce assms(2)] by blast
  define t where "t = e\<lparr>cfb := f, cursor_col := of_nat c', cursor_row := of_nat r'\<rparr>"
  have ct: "con_at w h cols rows r' c' v g t" using ce f(2) he assms(3-5) by (auto simp: t_def con_at_def has_def)
  note con = con_atD [OF ct]
  have nw: "\<not> ucast (cursor_col t) \<ge> screen_cols t"
    using con(11) ct assms(3) wn(2) word_nat(2) [OF c'(2)] by (simp add: con_at_def word_le_nat_alt)
  have sc: "ucast (cursor_row t) - viewport_offset t \<ge> screen_rows t \<longleftrightarrow> \<not> r' < v + rows"
    using within [OF ct] by (auto simp: cursor_within_viewport_def)
  have k: "\<exists>u. (if ucast (cursor_row t) - viewport_offset t \<ge> screen_rows t then scroll t else Inr t) = Inr u \<and>
    con_at w h cols rows r' c' (if r' < v + rows then v else Suc v) g u"
  proof (cases "r' < v + rows")
    case False
    have "con_at w h cols rows r' c' (Suc v) g (t\<lparr>viewport_offset := viewport_offset t + 1\<rparr>)"
      using ct False assms(1,2,4) by (auto simp: con_at_def has_def)
    from console_redraw_ok [OF this] show ?thesis using False sc by (simp add: scroll_def)
  qed (use sc ct in auto)
  then obtain u where u: "(if ucast (cursor_row t) - viewport_offset t \<ge> screen_rows t then scroll t else Inr t) = Inr u"
      "con_at w h cols rows r' c' (if r' < v + rows then v else Suc v) g u" by blast
  have "r' < (if r' < v + rows then v else Suc v) + rows" using assms(2,4) by auto
  from draw_cursor_ok [OF u(2) this] obtain f' where f': "draw_cursor u = Inr (u\<lparr>cfb := f'\<rparr>)" "fb_ok w h f'" by blast
  have "set_cursor_d (Suc d) (of_nat c') (of_nat r') s = Inr (u\<lparr>cfb := f'\<rparr>)"
    unfolding set_cursor_d.simps if_not_P [OF False] wn e_def [symmetric] f(1) kbind_simps Let_def t_def [symmetric] if_not_P [OF nw] u(1) f'(1) ..
  then show ?thesis using con_at_cfb [OF u(2) f'(2)] by blast
qed

text \<open>Behind the last column the cursor goes to the start of the next line.\<close>

lemma newline_by_ok:
  assumes "con_at w h cols rows r c v g s" "r < v + rows" "Suc r < 2 ^ 31"
  shows "\<exists>s'. newline_by (set_cursor_d (Suc d)) s = Inr s' \<and> con_at w h cols rows (Suc r) 0 (if Suc r < v + rows then v else Suc v) g s'"
proof -
  note con = con_atD [OF assms(1)]
  obtain b where b: "upd_cell r c (\<lambda>cc. cc\<lparr>cc_dirty := True\<rparr>) s = Inr (s\<lparr>cbuffer := b\<rparr>)" "\<forall>i j. has i j (s\<lparr>cbuffer := b\<rparr>) \<longleftrightarrow> has i j s"
      "\<forall>i j. cell b i j = (if i = r \<and> j = c then cc_c ((cbuffer s ! r ! c)\<lparr>cc_dirty := True\<rparr>) else cell (cbuffer s) i j)"
    using upd_cell_ok [OF con(10)] by blast
  have c: "con_at w h cols rows r c v g (s\<lparr>cbuffer := b\<rparr>)"
    by (rule con_at_upd [OF assms(1)]) (use b con(10) in \<open>auto simp: has_def cell_def\<close>)
  have z: "0 < cols" using assms(1) by (simp add: con_at_def)
  obtain s1 where s1: "set_cursor_d (Suc d) (of_nat 0) (of_nat (Suc r)) (s\<lparr>cbuffer := b\<rparr>) = Inr s1"
      "con_at w h cols rows (Suc r) 0 (if Suc r < v + rows then v else Suc v) g s1"
    using set_cursor_step [OF c assms(2) z _ assms(3)] by blast
  have r1: "cursor_row (s\<lparr>cbuffer := b\<rparr>) + 1 = of_nat (Suc r)" using assms(1) by (simp add: con_at_def)
  show ?thesis using console_redraw_ok [OF s1(2), of False] s1(1) unfolding newline_by_def con(4,5) b(1) kbind_simps r1 of_nat_0 by simp
qed

lemma set_cursor_wrap:
  assumes "con_at w h cols rows r c v g s" "r < v + rows" "c < cols" "Suc r < 2 ^ 31"
  shows "\<exists>s'. set_cursor_d (Suc (Suc d)) (of_nat cols) (of_nat r) s = Inr s' \<and> con_at w h cols rows (Suc r) 0 (if Suc r < v + rows then v else Suc v) g s'"
proof -
  have cl: "cols < 2 ^ 31" "r < 2 ^ 31" "c < 2 ^ 31" using assms con_atD(2) [OF assms(1)] by auto
  note wn = word_nat [OF cl(1)] word_nat [OF cl(2)]
  have ne: "\<not> (cursor_col s = of_nat cols \<and> cursor_row s = of_nat r)" using con_atD(5) [OF assms(1)] wn(1) assms(3) by auto
  define e where "e = ensure_valid_cursor_buffer_pos r cols s"
  obtain b where b: "e = s\<lparr>cbuffer := b\<rparr>" unfolding e_def using ensure_frame by blast
  have ce: "con_at w h cols rows r c v g e"
  proof -
    have "has r c e" unfolding e_def using ensure_has(2) assms(1) by (auto simp: con_at_def)
    moreover have "cell (cbuffer e) i j = cell (cbuffer s) i j" for i j unfolding e_def by (rule ensure_cell)
    ultimately show ?thesis using assms(1) b by (simp add: con_at_def)
  qed
  have he: "has r cols e" unfolding e_def by (rule ensure_has)
  obtain f where f: "draw_cursor e = Inr (e\<lparr>cfb := f\<rparr>)" "fb_ok w h f" using draw_cursor_ok [OF ce assms(2)] by blast
  define t where "t = e\<lparr>cfb := f, cursor_col := of_nat cols, cursor_row := of_nat r\<rparr>"
  have ct: "con_at w h cols rows r cols v g t" using ce f(2) he by (auto simp: t_def con_at_def has_def)
  have nw: "ucast (cursor_col t) \<ge> screen_cols t" using con_atD(11) [OF ct] ct by (simp add: con_at_def)
  let ?v = "if Suc r < v + rows then v else Suc v"
  obtain u where u: "newline_by (set_cursor_d (Suc d)) t = Inr u" "con_at w h cols rows (Suc r) 0 ?v g u" using newline_by_ok [OF ct assms(2,4)] by blast
  have v': "Suc r < ?v + rows" using assms(2) by auto
  have ns: "\<not> ucast (cursor_row u) - viewport_offset u \<ge> screen_rows u" using within [OF u(2)] v' by (auto simp: cursor_within_viewport_def)
  obtain f' where f': "draw_cursor u = Inr (u\<lparr>cfb := f'\<rparr>)" "fb_ok w h f'" using draw_cursor_ok [OF u(2) v'] by blast
  have "set_cursor_d (Suc (Suc d)) (of_nat cols) (of_nat r) s = Inr (u\<lparr>cfb := f'\<rparr>)"
    unfolding set_cursor_d.simps(2) [of "Suc d"] if_not_P [OF ne] wn e_def [symmetric] f(1) kbind_simps Let_def t_def [symmetric] if_P [OF nw] u(1) if_not_P [OF ns] f'(1) ..
  then show ?thesis using con_at_cfb [OF u(2) f'(2)] by blast
qed

subsection \<open>Characters put on the console\<close>

text \<open>What typing on a page of \<open>cols\<close> columns does: the character goes to the place of the cursor and the cursor to the next place.\<close>

definition type_char :: "nat \<Rightarrow> char \<Rightarrow> nat \<times> nat \<times> (nat \<Rightarrow> nat \<Rightarrow> char) \<Rightarrow> nat \<times> nat \<times> (nat \<Rightarrow> nat \<Rightarrow> char)" where
  "type_char cols ch = (\<lambda>(r, c, g). if ch = CHR 0x0A then (Suc r, 0, g)
     else let g' = g(r := (g r)(c := ch)) in if Suc c < cols then (r, Suc c, g') else (Suc r, 0, g'))"

text \<open>A console whose cursor is at a place on the screen.\<close>

definition con_ok :: "nat \<Rightarrow> nat \<Rightarrow> nat \<Rightarrow> nat \<Rightarrow> nat \<times> nat \<times> (nat \<Rightarrow> nat \<Rightarrow> char) \<Rightarrow> console \<Rightarrow> bool" where
  "con_ok w h cols rows = (\<lambda>(r, c, g) s. \<exists>v. con_at w h cols rows r c v g s \<and> r < v + rows \<and> c < cols)"

lemma con_okI: "con_at w h cols rows r c v g s \<Longrightarrow> r < v + rows \<Longrightarrow> c < cols \<Longrightarrow> con_ok w h cols rows (r, c, g) s"
  by (auto simp: con_ok_def)

lemma set_cursor_ok:
  assumes "con_ok w h cols rows (r, c, g) s" "c' < cols" "r' = r \<or> r' = Suc r" "r' < 2 ^ 31"
  shows "\<exists>s'. set_cursor (of_nat c') (of_nat r') s = Inr s' \<and> con_ok w h cols rows (r', c', g) s'"
proof -
  obtain v where v: "con_at w h cols rows r c v g s" "r < v + rows" using assms(1) by (auto simp: con_ok_def)
  have "CALL_DEPTH = Suc 63" by (simp add: CALL_DEPTH_def)
  with set_cursor_step [OF v assms(2-4), of 63] show ?thesis unfolding set_cursor_def using v(2) assms(2,3)
    by (fastforce intro: con_okI split: if_splits)
qed

lemma newline_ok:
  assumes "con_ok w h cols rows (r, c, g) s" "Suc r < 2 ^ 31"
  shows "\<exists>s'. newline s = Inr s' \<and> con_ok w h cols rows (Suc r, 0, g) s'"
proof -
  obtain v where v: "con_at w h cols rows r c v g s" "r < v + rows" "c < cols" using assms(1) by (auto simp: con_ok_def)
  have "CALL_DEPTH = Suc 63" by (simp add: CALL_DEPTH_def)
  with newline_by_ok [OF v(1,2) assms(2), of 63] show ?thesis unfolding newline_def set_cursor_def using v(2,3)
    by (fastforce intro: con_okI split: if_splits)
qed

lemma move_cursor_ok:
  assumes "con_ok w h cols rows (r, c, g) s" "of_nat c + dx = of_nat c'" "c' < cols"
  shows "\<exists>s'. move_cursor dx 0 s = Inr s' \<and> con_ok w h cols rows (r, c', g) s'"
proof -
  have "cursor_col s = of_nat c" "cursor_row s = of_nat r" "r < 2 ^ 31" using assms(1) by (auto simp: con_ok_def con_at_def)
  then show ?thesis using set_cursor_ok [OF assms(1,3), of r] assms(2) by (simp add: move_cursor_def)
qed

text \<open>A character of the buffer overwritten.\<close>

lemma write_cell_ok:
  assumes "con_at w h cols rows r c v g s" "f = (\<lambda>cc. cc\<lparr>cc_c := ch, cc_dirty := True\<rparr>)"
  shows "\<exists>s'. upd_cell r j f (ensure_valid_cursor_buffer_pos r j s) = Inr s' \<and> con_at w h cols rows r c v (g(r := (g r)(j := ch))) s'"
proof -
  define e where "e = ensure_valid_cursor_buffer_pos r j s"
  obtain b where b: "e = s\<lparr>cbuffer := b\<rparr>" unfolding e_def using ensure_frame by blast
  have he: "has r j e" "has r c e" unfolding e_def using ensure_has assms(1) by (auto simp: con_at_def)
  obtain b' where b': "upd_cell r j f e = Inr (e\<lparr>cbuffer := b'\<rparr>)" "\<forall>i k. has i k (e\<lparr>cbuffer := b'\<rparr>) \<longleftrightarrow> has i k e"
      "\<forall>i k. cell b' i k = (if i = r \<and> k = j then cc_c (f (cbuffer e ! r ! j)) else cell (cbuffer e) i k)"
    using upd_cell_ok [OF he(1)] by blast
  have "cell (cbuffer e) i k = cell (cbuffer s) i k" for i k unfolding e_def by (rule ensure_cell)
  moreover have "cell (cbuffer s) = g" using assms(1) by (simp add: con_at_def)
  ultimately have "cell b' i k = (g(r := (g r)(j := ch))) i k" for i k using b'(3) assms(2) by auto
  then have "con_at w h cols rows r c v (g(r := (g r)(j := ch))) (e\<lparr>cbuffer := b'\<rparr>)" using assms(1) b b'(2) he(2) by (auto simp: con_at_def)
  then show ?thesis using b'(1) unfolding e_def by blast
qed

lemma put_char_ok:
  assumes "con_ok w h cols rows (r, c, g) s" "Suc r < 2 ^ 31"
  shows "\<exists>s'. put_char ch s = Inr s' \<and> con_ok w h cols rows (type_char cols ch (r, c, g)) s'"
proof (cases "ch = CHR 0x0A")
  case True
  then show ?thesis using newline_ok [OF assms] by (simp add: put_char_def type_char_def)
next
  case False
  obtain v where v: "con_at w h cols rows r c v g s" "r < v + rows" "c < cols" using assms(1) by (auto simp: con_ok_def)
  note con = con_atD [OF v(1)]
  obtain s1 where s1: "upd_cell r c (\<lambda>cc. cc\<lparr>cc_c := ch, cc_dirty := True\<rparr>) (ensure_valid_cursor_buffer_pos r c s) = Inr s1"
      "con_at w h cols rows r c v (g(r := (g r)(c := ch))) s1"
    using write_cell_ok [OF v(1) refl] by blast
  have p: "put_char ch s = set_cursor (of_nat (Suc c)) (of_nat r) s1"
    using s1(2) unfolding put_char_def if_not_P [OF False] Let_def con(4,5) s1(1) by (simp add: move_cursor_def con_at_def add.commute)
  show ?thesis
  proof (cases "Suc c < cols")
    case True
    then show ?thesis using set_cursor_ok [OF con_okI [OF s1(2) v(2,3)] True, of r] assms(2) p False by (simp add: type_char_def Let_def)
  next
    case F: False
    then have cl: "Suc c = cols" using v(3) by simp
    have "CALL_DEPTH = Suc (Suc 62)" by (simp add: CALL_DEPTH_def)
    then obtain s2 where s2: "put_char ch s = Inr s2" "con_at w h cols rows (Suc r) 0 (if Suc r < v + rows then v else Suc v) (g(r := (g r)(c := ch))) s2"
      using set_cursor_wrap [OF s1(2) v(2,3) assms(2), of 62] p unfolding set_cursor_def cl by auto
    have "con_ok w h cols rows (Suc r, 0, g(r := (g r)(c := ch))) s2" by (rule con_okI [OF s2(2)]) (use v in auto)
    then show ?thesis using s2(1) F False by (simp add: type_char_def Let_def)
  qed
qed

lemma type_char_row: "fst (type_char cols ch p) \<le> Suc (fst p)"
  by (cases p) (auto simp: type_char_def Let_def)

lemma put_view_ok:
  assumes "con_ok w h cols rows (r, c, g) s" "r + kv_len sv < 2 ^ 31 - 1" "kv_len sv \<le> length (kv_data sv)"
  shows "\<exists>s'. put_view sv s = Inr s' \<and> con_ok w h cols rows (fold (type_char cols) (take (kv_len sv) (kv_data sv)) (r, c, g)) s'"
proof -
  let ?p = "\<lambda>i. fold (type_char cols) (take i (kv_data sv)) (r, c, g)"
  have "\<exists>s'. kfor 0 (kv_len sv) (\<lambda>i s. kbind (kv_nth sv i) (\<lambda>c. put_char c s)) s = Inr s' \<and> (con_ok w h cols rows (?p (kv_len sv)) s' \<and> fst (?p (kv_len sv)) \<le> r + kv_len sv)"
  proof (rule kfor_rule [where I = "\<lambda>i s. con_ok w h cols rows (?p i) s \<and> fst (?p i) \<le> r + i"])
    fix i t assume i: "i < kv_len sv" and t: "con_ok w h cols rows (?p i) t \<and> fst (?p i) \<le> r + i"
    have l: "i < length (kv_data sv)" using i assms(3) by simp
    obtain a b d where p: "?p i = (a, b, d)" by (metis prod_cases3)
    have "a \<le> r + i" "con_ok w h cols rows (a, b, d) t" using t p by simp_all
    moreover have "Suc a < 2 ^ 31" using t p assms(2) i by simp
    ultimately obtain t' where "put_char (kv_data sv ! i) t = Inr t'" "con_ok w h cols rows (type_char cols (kv_data sv ! i) (?p i)) t'" using put_char_ok p by metis
    moreover have "?p (Suc i) = type_char cols (kv_data sv ! i) (?p i)" using l by (simp add: take_Suc_conv_app_nth)
    moreover have "kv_nth sv i = Inr (kv_data sv ! i)" using l i by (simp add: kv_nth_def)
    ultimately show "\<exists>t'. kbind (kv_nth sv i) (\<lambda>c. put_char c t) = Inr t' \<and> con_ok w h cols rows (?p (Suc i)) t' \<and> fst (?p (Suc i)) \<le> r + Suc i"
      using type_char_row [of cols "kv_data sv ! i" "?p i"] t by auto
  qed (use assms(1) in auto)
  then show ?thesis unfolding put_view_def by blast
qed

text \<open>Erasing a part of the line of the cursor.\<close>

lemma erase_in_line_ok:
  assumes "con_ok w h cols rows (r, c, g) s" "from \<le> to"
  shows "\<exists>s'. erase_in_line from to s = Inr s' \<and> con_ok w h cols rows (r, c, g(r := (\<lambda>j. if from \<le> j \<and> j < to then CHR '' '' else g r j))) s'"
proof -
  obtain v where v: "con_at w h cols rows r c v g s" "r < v + rows" "c < cols" using assms(1) by (auto simp: con_ok_def)
  let ?g = "\<lambda>k. g(r := (\<lambda>j. if from \<le> j \<and> j < k then CHR '' '' else g r j))"
  have "\<exists>s'. erase_in_line from to s = Inr s' \<and> con_at w h cols rows r c v (?g to) s'"
    unfolding erase_in_line_def
  proof (rule kfor_rule [where I = "\<lambda>k. con_at w h cols rows r c v (?g k)"])
    fix k t assume k: "from \<le> k" and t: "con_at w h cols rows r c v (?g k) t"
    have "(?g k)(r := ((?g k) r)(k := CHR '' '')) = ?g (Suc k)" using k by (auto simp: fun_eq_iff less_Suc_eq)
    then show "\<exists>t'. (let row = unat (cursor_row t) in upd_cell row k (\<lambda>cc. cc\<lparr>cc_c := CHR '' '', cc_dirty := True\<rparr>) (ensure_valid_cursor_buffer_pos row k t)) = Inr t' \<and>
        con_at w h cols rows r c v (?g (Suc k)) t'"
      using write_cell_ok [OF t refl, of k "CHR '' ''"] unfolding Let_def con_atD(4) [OF t] by simp
  next
    have "?g from = g" by (auto simp: fun_eq_iff)
    then show "con_at w h cols rows r c v (?g from) s" using v(1) by simp
  qed (rule assms(2))
  then show ?thesis using con_okI v(2,3) by blast
qed

subsection \<open>Strings with escape sequences\<close>

text \<open>Every escape sequence of the text that starts with a bracket has a code that ends it.\<close>

function csi_ok :: "string \<Rightarrow> bool" where
  "csi_ok [] = True"
| "csi_ok (c # t) = (if c = ANSI_ESCAPE \<and> t \<noteq> [] \<and> hd t = CHR ''[''
     then (case dropWhile (\<lambda>x. \<not> is_cs_code x) (c # t) of [] \<Rightarrow> False | _ # u \<Rightarrow> csi_ok u) else csi_ok t)"
  by pat_completeness auto
termination
proof (relation "measure length")
  fix c t x u assume "dropWhile (\<lambda>x. \<not> is_cs_code x) (c # t) = x # u"
  then have "length (x # u) \<le> length (c # t)" by (metis length_dropWhile_le)
  then show "(u, c # t) \<in> measure length" by simp
qed auto

definition code_len :: "string \<Rightarrow> nat" where
  "code_len t = length (takeWhile (\<lambda>x. \<not> is_cs_code x) t)"

lemma find_code_eq:
  assumes "reads r t" "i \<le> length t"
  shows "find_code r i (length t) = Inr (i + code_len (drop i t))"
  using assms(2)
proof (induction "length t - i" arbitrary: i)
  case 0
  then show ?case by (subst find_code.simps) (simp add: code_len_def)
next
  case (Suc n)
  then have i: "i < length t" by simp
  then have "drop i t = t ! i # drop (Suc i) t" by (simp add: Cons_nth_drop_Suc)
  moreover have "find_code r (Suc i) (length t) = Inr (Suc i + code_len (drop (Suc i) t))" using Suc i by simp
  ultimately show ?case using i assms(1) by (subst find_code.simps) (simp add: code_len_def reads_def)
qed

lemma csi_ok_drop:
  assumes "i < length t"
  shows "csi_ok (drop i t) = (if t ! i = ANSI_ESCAPE \<and> Suc i < length t \<and> t ! Suc i = CHR ''[''
    then i + code_len (drop i t) < length t \<and> csi_ok (drop (i + code_len (drop i t) + 1) t) else csi_ok (drop (Suc i) t))"
proof -
  let ?P = "\<lambda>x. \<not> is_cs_code x"
  have d: "drop i t = t ! i # drop (Suc i) t" using assms by (simp add: Cons_nth_drop_Suc)
  have h: "drop (Suc i) t \<noteq> [] \<and> hd (drop (Suc i) t) = CHR ''['' \<longleftrightarrow> Suc i < length t \<and> t ! Suc i = CHR ''[''" by (auto simp: hd_drop_conv_nth)
  have w: "dropWhile ?P (drop i t) = drop (i + code_len (drop i t)) t" by (simp add: dropWhile_eq_drop code_len_def add.commute)
  have "(case dropWhile ?P (drop i t) of [] \<Rightarrow> False | _ # u \<Rightarrow> csi_ok u) \<longleftrightarrow> i + code_len (drop i t) < length t \<and> csi_ok (drop (i + code_len (drop i t) + 1) t)"
  proof (cases "i + code_len (drop i t) < length t")
    case True
    then have "drop (i + code_len (drop i t)) t = t ! (i + code_len (drop i t)) # drop (i + code_len (drop i t) + 1) t" by (metis Cons_nth_drop_Suc Suc_eq_plus1)
    then show ?thesis unfolding w using True by (simp only: list.case) simp
  next
    case False
    then have "drop (i + code_len (drop i t)) t = []" by simp
    then show ?thesis unfolding w using False by (simp only: list.case) simp
  qed
  then show ?thesis using h unfolding d csi_ok.simps by (auto simp del: csi_ok.simps)
qed

text \<open>What the parser consumes: nothing at all when a sequence has no code.\<close>

lemma parse_ansi_escape_len:
  assumes "repr k t" "i < length t" "t ! i = ANSI_ESCAPE"
  shows "(\<exists>e. parse_ansi_escape (rd k) i (length t) s = Inl e) \<or> (\<exists>s'. parse_ansi_escape (rd k) i (length t) s = Inr
    (if Suc i < length t \<and> t ! Suc i = CHR ''['' then if i + code_len (drop i t) < length t then code_len (drop i t) + 1 else 0 else 1, s'))"
proof -
  have "t \<noteq> []" using assms(2) by auto
  then have r: "rd k i = Inr (t ! i)" "rd k (i + 1) = Inr ((t @ [NUL]) ! (i + 1))" using rd_repr [OF assms(1)] assms(2) by (auto simp: nth_append)
  have b: "is_csi (rd k) i = Inr (Suc i < length t \<and> t ! Suc i = CHR ''['')"
    using r assms(2,3) by (cases "Suc i < length t") (auto simp: is_csi_def nth_append NUL_def)
  show ?thesis
  proof (cases "Suc i < length t \<and> t ! Suc i = CHR ''[''")
    case True
    have f: "find_code (rd k) i (length t) = Inr (i + code_len (drop i t))" by (rule find_code_eq [OF reads_repr [OF assms(1)]]) (use assms(2) in simp)
    have le: "i + code_len (drop i t) \<le> length t" using length_takeWhile_le [of "\<lambda>x. \<not> is_cs_code x" "drop i t"] assms(2) by (simp add: code_len_def)
    show ?thesis
    proof (cases "i + code_len (drop i t) = length t")
      case T: True
      then show ?thesis using b f True by (simp add: parse_ansi_escape_def parse_csi_def)
    next
      case F: False
      then have l: "i + code_len (drop i t) < length t" using le by simp
      have "(\<exists>e. kbind m (\<lambda>s. Inr (n, s)) = Inl e) \<or> (\<exists>s'. kbind m (\<lambda>s. Inr (n, s)) = Inr (n, s'))" for m :: "console kres" and n :: nat
        by (cases m) auto
      then have "(\<exists>e. parse_csi (rd k) i (length t) s = Inl e) \<or> (\<exists>s'. parse_csi (rd k) i (length t) s = Inr (code_len (drop i t) + 1, s'))"
        unfolding parse_csi_def f kbind_simps if_not_P [OF F] by (auto simp: kbind_def split: sum.splits)
      then show ?thesis using b True l by (auto simp: parse_ansi_escape_def)
    qed
  next
    case False
    then have "is_csi (rd k) i = Inr False" using b by simp
    then show ?thesis unfolding if_not_P [OF False] by (simp add: parse_ansi_escape_def)
  qed
qed

lemma put_from_returns:
  assumes "repr k t" "i \<le> length t" "csi_ok (drop i t)"
  shows "\<exists>y. put_from k i s = Some y"
  using assms(2,3)
proof (induction "length t - i" arbitrary: i s rule: less_induct)
  case less
  note len = repr_len [OF assms(1)]
  show ?case
  proof (cases "i = length t")
    case True
    then show ?thesis using len by (subst put_from.simps) simp
  next
    case False
    then have i: "i < length t" using less.prems(1) by simp
    have r: "rd k i = Inr (t ! i)" using reads_repr [OF assms(1)] i by (simp add: reads_def)
    have rec: "\<exists>y. put_from k (i + n) s' = Some y" if "0 < n" "i + n \<le> length t" "csi_ok (drop (i + n) t)" for n s'
      using less.hyps [of "i + n" s'] that i by simp
    show ?thesis
    proof (cases "t ! i = ANSI_ESCAPE")
      case True
      let ?n = "if Suc i < length t \<and> t ! Suc i = CHR ''['' then if i + code_len (drop i t) < length t then code_len (drop i t) + 1 else 0 else 1"
      have n: "0 < ?n" "i + ?n \<le> length t" "csi_ok (drop (i + ?n) t)" using less.prems(2) csi_ok_drop [OF i] True i by (auto simp: add.assoc split: if_splits)
      consider e where "parse_ansi_escape (rd k) i (length t) s = Inl e" | s' where "parse_ansi_escape (rd k) i (length t) s = Inr (?n, s')"
        using parse_ansi_escape_len [OF assms(1) i True, of s] by blast
      then show ?thesis
      proof cases
        case 1
        then show ?thesis using i r len True by (subst put_from.simps) simp
      next
        case 2
        then show ?thesis using rec [OF n, of s'] i r len True by (subst put_from.simps) (simp only: less_irrefl if_False sum.case prod.case, auto)
      qed
    next
      case F: False
      have "csi_ok (drop (Suc i) t)" using less.prems(2) csi_ok_drop [OF i] F by simp
      then show ?thesis using rec [of 1] i r len F by (subst put_from.simps) (auto split: sum.splits)
    qed
  qed
qed

lemma put_from_stuck:
  "put_from k i s = Some y \<Longrightarrow> repr k t \<Longrightarrow> i \<le> length t \<Longrightarrow> \<not> csi_ok (drop i t) \<Longrightarrow> \<exists>e. y = Inl e"
proof (induction k i s y rule: put_from.raw_induct [rotated, consumes 1, case_names step])
  case (step put_from str i s y)
  note len = repr_len [OF step.prems(1)]
  have i: "i < length t" using step.prems by (cases "i = length t") auto
  have r: "rd str i = Inr (t ! i)" using reads_repr [OF step.prems(1)] i by (simp add: reads_def)
  show ?case
  proof (cases "t ! i = ANSI_ESCAPE")
    case True
    define n where "n = (if Suc i < length t \<and> t ! Suc i = CHR ''['' then if i + code_len (drop i t) < length t then code_len (drop i t) + 1 else 0 else 1)"
    have n: "i + n \<le> length t" "\<not> csi_ok (drop (i + n) t)" unfolding n_def using step.prems(3) csi_ok_drop [OF i] True i by (auto simp: add.assoc split: if_splits)
    consider e where "parse_ansi_escape (rd str) i (length t) s = Inl e" | s' where "parse_ansi_escape (rd str) i (length t) s = Inr (n, s')"
      using parse_ansi_escape_len [OF step.prems(1) i True, of s] unfolding n_def by blast
    then show ?thesis
    proof cases
      case 1
      then show ?thesis using step.hyps i r len True by auto
    next
      case 2
      then have "put_from str (i + n) s' = Some y" using step.hyps i r len True by simp
      then show ?thesis using step.IH [OF _ step.prems(1) n] by blast
    qed
  next
    case False
    then have n: "\<not> csi_ok (drop (Suc i) t)" using step.prems(3) csi_ok_drop [OF i] by simp
    show ?thesis
    proof (cases "put_char (t ! i) s")
      case (Inl e)
      then have "Some (Inl e) = Some y" using step.hyps i r len False by simp
      then show ?thesis by auto
    next
      case (Inr s')
      then have "put_from str (Suc i) s' = Some y" using step.hyps i r len False by auto
      then show ?thesis using step.IH [OF _ step.prems(1) _ n] i by simp
    qed
  qed
qed

lemma put_from_diverges:
  assumes "rd k i = Inr ANSI_ESCAPE" "i \<noteq> ks_len k" "parse_ansi_escape (rd k) i (ks_len k) s = Inr (0, s)"
  shows "put_from k i s = None"
proof (rule ccontr)
  assume "put_from k i s \<noteq> None"
  then obtain y where y: "put_from k i s = Some y" by auto
  have "\<not> (k = k \<and> i = i \<and> s = s)"
    by (rule put_from.raw_induct [where P = "\<lambda>k' i' s' y. \<not> (k' = k \<and> i' = i \<and> s' = s)", OF _ y]) (use assms in \<open>auto, blast\<close>)
  then show False by simp
qed

text \<open>A string without escape sequences is typed character by character.\<close>

lemma put_from_plain:
  assumes "repr k t" "ANSI_ESCAPE \<notin> set t" "i \<le> length t" "con_ok w h cols rows (r, c, g) s" "r + length t < 2 ^ 31 - 1 + i"
  shows "\<exists>s'. put_from k i s = Some (Inr s') \<and> con_ok w h cols rows (fold (type_char cols) (drop i t) (r, c, g)) s'"
  using assms(3-5)
proof (induction "length t - i" arbitrary: i r c g s)
  case 0
  then show ?case using repr_len [OF assms(1)] by (subst put_from.simps) simp
next
  case (Suc n)
  then have i: "i < length t" by simp
  have e: "rd k i = Inr (t ! i)" using reads_repr [OF assms(1)] i by (simp add: reads_def)
  have e': "t ! i \<noteq> ANSI_ESCAPE" using assms(2) nth_mem [OF i] by metis
  have d: "drop i t = t ! i # drop (Suc i) t" using i by (simp add: Cons_nth_drop_Suc)
  obtain s1 where s1: "put_char (t ! i) s = Inr s1" "con_ok w h cols rows (type_char cols (t ! i) (r, c, g)) s1"
    using put_char_ok [OF Suc.prems(2), of "t ! i"] Suc.prems(3) i by auto
  obtain r' c' g' where p: "type_char cols (t ! i) (r, c, g) = (r', c', g')" by (metis prod_cases3)
  have "r' \<le> Suc r" using type_char_row [of cols "t ! i" "(r, c, g)"] p by simp
  then have "\<exists>s'. put_from k (Suc i) s1 = Some (Inr s') \<and> con_ok w h cols rows (fold (type_char cols) (drop (Suc i) t) (r', c', g')) s'"
    using Suc i s1(2) p by (intro Suc.hyps(1)) auto
  then show ?case using i e e' s1(1) d p repr_len [OF assms(1)] by (subst put_from.simps) simp
qed

lemma put_kstring_plain:
  assumes "repr k t" "ANSI_ESCAPE \<notin> set t" "con_ok w h cols rows (r, c, g) s" "r + length t < 2 ^ 31 - 1"
  shows "\<exists>s'. put_kstring k s = Some (Inr s') \<and> con_ok w h cols rows (fold (type_char cols) t (r, c, g)) s'"
  using put_from_plain [OF assms(1,2) _ assms(3), of 0] assms(4) by (simp add: put_kstring_def)

text \<open>A newline before the first character indexes the empty buffer.\<close>

lemma first_newline_faults: "newline (console_init (console_static f)) = Inl (Fault ''out of bounds'')"
  by (simp add: newline_def newline_by_def upd_cell_def console_init_def console_static_def)

section \<open>Properties\<close>

text \<open>A console of two lines of two characters, on a screen of 20 by 40 pixels, with its first cell in use.\<close>

definition fb1 :: framebuffer where
  "fb1 = fb_init [] \<lparr>fbi_width = 20, fbi_height = 40, fbi_pitch = 80, fbi_bpp = 32, fbi_vram = replicate 3200 0\<rparr>
     \<lparr>fb_width = 0, fb_height = 0, fb_num_pixels = 0, fb_pitch = 0, fb_bpp = 0, vram = [], vram_size = 0, vram_buff = [], needs_redraw = False, redraw_times = []\<rparr>"

definition con1 :: console where
  "con1 = ensure_valid_cursor_buffer_pos 0 0 (console_init (console_static fb1))"

lemma con1_at: "con_at 20 40 2 2 0 0 0 (\<lambda>_ _. CHR '' '') con1"
proof -
  have f: "fb_ok 20 40 fb1" unfolding fb1_def by (rule fb_init_ok) simp_all
  have z: "get_screen_width fb1 div of_nat (font_width Font8x16) = 2" "get_screen_height fb1 div of_nat (font_height Font8x16) = 2"
    using f by (simp_all add: get_screen_width_def get_screen_height_def fb_ok_def Font8x16_simps)
  show ?thesis unfolding con1_def console_init_def
    using f z by (simp add: con_at_def ensure_valid_cursor_buffer_pos_def Let_def console_static_def pad_to_eq has_def cell_def fun_eq_iff)
qed

lemma con1_ok: "con_ok 20 40 2 2 (0, 0, \<lambda>_ _. CHR '' '') con1"
  by (rule con_okI [OF con1_at]) simp_all



text \<open>
  C30: \<^verbatim>\<open>put(const kstring&)\<close> returns, or faults, on every string in which each escape sequence that starts with a bracket has a code that ends it. On any other string
  it never returns, for the parser then consumes nothing and the loop stays at the same character for ever, unless a fault stops it before.
\<close>

theorem put_kstring_terminates:
  assumes "repr k t"
  shows "(csi_ok t \<longrightarrow> (\<exists>y. put_kstring k s = Some y)) \<and> (\<not> csi_ok t \<longrightarrow> put_kstring k s = None \<or> (\<exists>e. put_kstring k s = Some (Inl e)))"
proof (intro conjI impI)
  show "\<exists>y. put_kstring k s = Some y" if "csi_ok t" unfolding put_kstring_def by (rule put_from_returns [OF assms]) (use that in auto)
  show "put_kstring k s = None \<or> (\<exists>e. put_kstring k s = Some (Inl e))" if "\<not> csi_ok t"
    using put_from_stuck [of k 0 s _ t] assms that by (cases "put_kstring k s") (auto simp: put_kstring_def)
qed

theorem put_kstring_terminates_witness:
  "\<exists>k k'. repr k [ANSI_ESCAPE, CHR ''['', CHR ''3''] \<and> put_kstring k con1 = None \<and> repr k' [ANSI_ESCAPE, CHR ''['', CHR ''3'', CHR ''C''] \<and> put_kstring k' con1 \<noteq> None"
proof -
  obtain k where k: "repr k [ANSI_ESCAPE, CHR ''['', CHR ''3'']" using cstr_repr by blast
  obtain k' where k': "repr k' [ANSI_ESCAPE, CHR ''['', CHR ''3'', CHR ''C'']" using cstr_repr by blast
  have c: "\<not> csi_ok [ANSI_ESCAPE, CHR ''['', CHR ''3'']" "csi_ok [ANSI_ESCAPE, CHR ''['', CHR ''3'', CHR ''C'']" by (simp_all add: is_cs_code_def ANSI_ESCAPE_def)
  have f: "put_kstring k con1 = None" unfolding put_kstring_def
  proof (rule put_from_diverges)
    have r: "reads (rd k) [ANSI_ESCAPE, CHR ''['', CHR ''3'']" "ks_len k = 3" using reads_repr [OF k] repr_len [OF k] by simp_all
    have "find_code (rd k) 0 3 = Inr 3" using find_code_eq [OF r(1), of 0] by (simp add: code_len_def is_cs_code_def ANSI_ESCAPE_def numeral_3_eq_3)
    then show "rd k 0 = Inr ANSI_ESCAPE" "0 \<noteq> ks_len k" "parse_ansi_escape (rd k) 0 (ks_len k) con1 = Inr (0, con1)"
      using r by (simp_all add: reads_def parse_ansi_escape_def parse_csi_def is_csi_def)
  qed
  have "put_kstring k' con1 \<noteq> None" using put_kstring_terminates [OF k', of con1] c(2) by auto
  then show ?thesis using k k' f put_kstring_terminates [OF k, of con1] by blast
qed

text \<open>
  After the view has been scrolled up by a page-up, the next character that is put faults: the cursor, on the last line that was shown, is now below the screen, and
  \<^verbatim>\<open>set_cursor\<close> inverts its rectangle without the test \<^verbatim>\<open>cursor_within_viewport\<close> that \<^verbatim>\<open>redraw\<close> makes; the rows behind the last one are not in the back buffer.
\<close>

theorem scroll_up_put_faults:
  assumes "con_at w h cols rows r c v g s" "c < cols" "0 < v" "Suc r = v + rows" "h < 16 * rows + 16" "ch \<noteq> CHR 0x0A"
  shows "\<exists>s'. scroll_up s = Inr s' \<and> put_char ch s' = Inl (Fault ''out of bounds'')"
proof -
  have "con_at w h cols rows r c (v - 1) g (s\<lparr>viewport_offset := viewport_offset s - 1\<rparr>)" using assms(1,3) by (auto simp: con_at_def has_def)
  from console_redraw_ok [OF this, of True] obtain s1 where s1: "console_redraw True (s\<lparr>viewport_offset := viewport_offset s - 1\<rparr>) = Inr s1" "con_at w h cols rows r c (v - 1) g s1" by blast
  have v: "v < 2 ^ 31" "v \<le> r" using assms(1) by (auto simp: con_at_def)
  have "viewport_offset s > 0" using con_atD(6) [OF assms(1)] assms(3) by (simp add: word_less_nat_alt)
  then have up: "scroll_up s = Inr s1" using s1(1) by (simp add: scroll_up_def)
  note con = con_atD [OF s1(2)]
  obtain s2 where s2: "upd_cell r c (\<lambda>cc. cc\<lparr>cc_c := ch, cc_dirty := True\<rparr>) (ensure_valid_cursor_buffer_pos r c s1) = Inr s2"
      "con_at w h cols rows r c (v - 1) (g(r := (g r)(c := ch))) s2"
    using write_cell_ok [OF s1(2) refl] by blast
  have p: "put_char ch s1 = set_cursor (of_nat (Suc c)) (of_nat r) s2"
    using s2(2) unfolding put_char_def if_not_P [OF assms(6)] Let_def con(4,5) s2(1) by (simp add: move_cursor_def con_at_def add.commute)
  have ne: "\<not> (cursor_col s2 = of_nat (Suc c) \<and> cursor_row s2 = of_nat r)"
  proof -
    have "Suc c < 2 ^ 31" using assms(2) con(2) by simp
    then show ?thesis using con_atD(5) [OF s2(2)] word_nat(1) [of "Suc c"] by auto
  qed
  have dc: "draw_cursor (s2\<lparr>cbuffer := b\<rparr>) = Inl (Fault ''out of bounds'')" for b
  proof -
    have rv: "r - (v - 1) = rows" using assms(3,4) by simp
    have x: "get_cursor_pixel_x 0 (s2\<lparr>cbuffer := b\<rparr>) = of_nat (c * 8)" using s2(2) by (simp add: get_cursor_pixel_x_def Font8x16_simps con_at_def)
    have "unat (of_nat (rows * 16) :: u64) = rows * 16" using con(3) unfolding unat_of_nat by (intro mod_less) simp
    then have "ucast (of_nat (rows * 16) :: u64) = (of_nat (rows * 16) :: u32)" by (metis of_nat_unat)
    then have y: "get_cursor_pixel_y 0 (s2\<lparr>cbuffer := b\<rparr>) = of_nat (rows * 16)"
      using con_atD(9) [OF s2(2)] rv by (simp add: get_cursor_pixel_y_def Font8x16_simps)
    have "invert_rec (of_nat (c * 8)) (of_nat (rows * 16)) (of_nat 8) (of_nat 16) (cfb s2) = Inl (Fault ''out of bounds'')"
      by (rule invert_rec_below [OF con_atD(1) [OF s2(2)]]) (use s1(2) assms(2,5) in \<open>auto simp: con_at_def fb_ok_def\<close>)
    then show ?thesis unfolding draw_cursor_def x y Font8x16_simps on_fb_def by (simp del: of_nat_mult of_nat_numeral)
  qed
  have "set_cursor (of_nat (Suc c)) (of_nat r) s2 = Inl (Fault ''out of bounds'')"
  proof -
    have d: "CALL_DEPTH = Suc 63" by (simp add: CALL_DEPTH_def)
    obtain b where b: "ensure_valid_cursor_buffer_pos (unat (of_nat r :: u32)) (unat (of_nat (Suc c) :: u32)) s2 = s2\<lparr>cbuffer := b\<rparr>" using ensure_frame by blast
    show ?thesis unfolding set_cursor_def d set_cursor_d.simps(2) if_not_P [OF ne] b dc by simp
  qed
  then show ?thesis using up p by simp
qed

end
