(* ===== verification/Keyboard.thy ===== *)
theory Keyboard
  imports Kernel_Prelude
begin

text \<open>
  The keyboard: \<^verbatim>\<open>arch/x64/drivers/keyboard/keyboard.cpp\<close> and the decoding of scan codes in \<^verbatim>\<open>ps2.cpp\<close>. Scan codes are bytes, as the enumerations \<^verbatim>\<open>ScanCode\<close> and
  \<^verbatim>\<open>ExtendedScanCode\<close> are; the event buffer, a \<^verbatim>\<open>klist\<close> that is only appended to and taken from at the front, is a list. The bytes that an interrupt finds in the
  controller are an argument of the handler. Talking to the controller's ports during \<^verbatim>\<open>init\<close> is not modelled.
\<close>

section \<open>Definitions\<close>

text \<open>The enumerators by name.\<close>

definition ScanCode :: "string \<Rightarrow> u8" where
  "ScanCode name = the (map_of
     [(''Nil'', 0x00), (''Escape'', 0x01), (''F1'', 0x3B), (''F2'', 0x3C), (''F3'', 0x3D), (''F4'', 0x3E), (''F5'', 0x3F), (''F6'', 0x40),
      (''F7'', 0x41), (''F8'', 0x42), (''F9'', 0x43), (''F10'', 0x44), (''F11'', 0x57), (''F12'', 0x58), (''Grave'', 0x29), (''Key1'', 0x02),
      (''Key2'', 0x03), (''Key3'', 0x04), (''Key4'', 0x05), (''Key5'', 0x06), (''Key6'', 0x07), (''Key7'', 0x08), (''Key8'', 0x09), (''Key9'', 0x0A),
      (''Key0'', 0x0B), (''Minus'', 0x0C), (''Equals'', 0x0D), (''Backspace'', 0x0E), (''Tab'', 0x0F), (''Q'', 0x10), (''W'', 0x11), (''E'', 0x12),
      (''R'', 0x13), (''T'', 0x14), (''Y'', 0x15), (''U'', 0x16), (''I'', 0x17), (''O'', 0x18), (''P'', 0x19), (''LeftBracket'', 0x1A),
      (''RightBracket'', 0x1B), (''Backslash'', 0x2B), (''CapsLock'', 0x3A), (''A'', 0x1E), (''S'', 0x1F), (''D'', 0x20), (''F'', 0x21),
      (''G'', 0x22), (''H'', 0x23), (''J'', 0x24), (''K'', 0x25), (''L'', 0x26), (''Semicolon'', 0x27), (''Apostrophe'', 0x28), (''Enter'', 0x1C),
      (''LeftShift'', 0x2A), (''Z'', 0x2C), (''X'', 0x2D), (''C'', 0x2E), (''V'', 0x2F), (''B'', 0x30), (''N'', 0x31), (''M'', 0x32),
      (''Comma'', 0x33), (''Period'', 0x34), (''Slash'', 0x35), (''RightShift'', 0x36), (''LeftCtrl'', 0x1D), (''LeftAlt'', 0x38), (''Space'', 0x39),
      (''NumLock'', 0x45), (''ScrollLock'', 0x46), (''KeypadAsterisk'', 0x37), (''KeypadMinus'', 0x4A), (''KeypadPlus'', 0x4E), (''Keypad7'', 0x47),
      (''Keypad8'', 0x48), (''Keypad9'', 0x49), (''Keypad4'', 0x4B), (''Keypad5'', 0x4C), (''Keypad6'', 0x4D), (''Keypad1'', 0x4F),
      (''Keypad2'', 0x50), (''Keypad3'', 0x51), (''Keypad0'', 0x52), (''KeypadPeriod'', 0x53)] name)"

definition ExtendedScanCode :: "string \<Rightarrow> u8" where
  "ExtendedScanCode name = the (map_of
     [(''Nil'', 0x00), (''RightAlt'', 0x38), (''RightCtrl'', 0x1D), (''KeypadSlash'', 0x35), (''KeypadEnter'', 0x1C), (''Insert'', 0x52),
      (''Delete'', 0x53), (''Home'', 0x47), (''End'', 0x4F), (''PageUp'', 0x49), (''PageDown'', 0x51), (''UpArrow'', 0x48), (''DownArrow'', 0x50),
      (''LeftArrow'', 0x4B), (''RightArrow'', 0x4D), (''LeftGui'', 0x5B), (''RightGui'', 0x5C), (''Menu'', 0x5D)] name)"

lemma scan_defs:
  "ScanCode ''Nil'' = 0x00" "ScanCode ''Backspace'' = 0x0E" "ScanCode ''E'' = 0x12" "ScanCode ''Enter'' = 0x1C" "ScanCode ''LeftCtrl'' = 0x1D"
  "ScanCode ''A'' = 0x1E" "ScanCode ''D'' = 0x20" "ScanCode ''F'' = 0x21" "ScanCode ''K'' = 0x25" "ScanCode ''LeftShift'' = 0x2A"
  "ScanCode ''B'' = 0x30" "ScanCode ''RightShift'' = 0x36" "ScanCode ''LeftAlt'' = 0x38" "ScanCode ''CapsLock'' = 0x3A"
  "ExtendedScanCode ''Nil'' = 0x00" "ExtendedScanCode ''RightCtrl'' = 0x1D" "ExtendedScanCode ''RightAlt'' = 0x38" "ExtendedScanCode ''UpArrow'' = 0x48" "ExtendedScanCode ''PageUp'' = 0x49"
  "ExtendedScanCode ''LeftArrow'' = 0x4B" "ExtendedScanCode ''RightArrow'' = 0x4D" "ExtendedScanCode ''DownArrow'' = 0x50" "ExtendedScanCode ''PageDown'' = 0x51" "ExtendedScanCode ''Delete'' = 0x53"
  by (simp_all add: ScanCode_def ExtendedScanCode_def)

definition EXTENDED_PREFIX :: u8 where "EXTENDED_PREFIX = 0xE0"
definition RELEASE_MASK :: u8 where "RELEASE_MASK = 0x80"

record KeyEvent =
  ke_scancode :: u8
  ke_extended :: u8
  ke_released :: bool
  ke_shift_held :: bool
  ke_control_held :: bool
  ke_alt_held :: bool
  ke_caps_lock_on :: bool

record keyboard =
  event_buffer :: "KeyEvent list"
  shift_held :: bool
  control_held :: bool
  alt_held :: bool
  caps_lock :: bool
  extended_pending :: bool

definition keyboard_static :: keyboard where
  "keyboard_static = \<lparr>event_buffer = [], shift_held = False, control_held = False, alt_held = False, caps_lock = False, extended_pending = False\<rparr>"

definition update_modifiers :: "u8 \<Rightarrow> u8 \<Rightarrow> bool \<Rightarrow> keyboard \<Rightarrow> keyboard" where
  "update_modifiers scancode extended released k = (let k =
     (if scancode = (ScanCode ''LeftShift'') \<or> scancode = (ScanCode ''RightShift'') then k\<lparr>shift_held := \<not> released\<rparr>
      else if scancode = (ScanCode ''LeftCtrl'') then k\<lparr>control_held := \<not> released\<rparr>
      else if scancode = (ScanCode ''LeftAlt'') then k\<lparr>alt_held := \<not> released\<rparr>
      else if scancode = (ScanCode ''CapsLock'') \<and> \<not> released then k\<lparr>caps_lock := \<not> caps_lock k\<rparr>
      else k) in
     if extended = (ExtendedScanCode ''RightCtrl'') then k\<lparr>control_held := \<not> released\<rparr>
     else if extended = (ExtendedScanCode ''RightAlt'') then k\<lparr>alt_held := \<not> released\<rparr>
     else k)"

definition push_event :: "KeyEvent \<Rightarrow> keyboard \<Rightarrow> keyboard" where
  "push_event e k = k\<lparr>event_buffer := event_buffer k @ [e]\<rparr>"

definition poll :: "keyboard \<Rightarrow> KeyEvent option \<times> keyboard" where
  "poll k = (if event_buffer k = [] then (None, k) else (Some (hd (event_buffer k)), k\<lparr>event_buffer := tl (event_buffer k)\<rparr>))"

definition handle_scancode :: "u8 \<Rightarrow> keyboard \<Rightarrow> keyboard" where
  "handle_scancode byte k = (if byte = EXTENDED_PREFIX then k\<lparr>extended_pending := True\<rparr>
     else let released = (byte AND RELEASE_MASK \<noteq> 0);
              code = byte AND NOT RELEASE_MASK;
              scancode = (if extended_pending k then (ScanCode ''Nil'') else code);
              extended = (if extended_pending k then code else (ExtendedScanCode ''Nil''));
              k = update_modifiers scancode extended released (if extended_pending k then k\<lparr>extended_pending := False\<rparr> else k) in
       push_event \<lparr>ke_scancode = scancode, ke_extended = extended, ke_released = released, ke_shift_held = shift_held k, ke_control_held = control_held k,
         ke_alt_held = alt_held k, ke_caps_lock_on = caps_lock k\<rparr> k)"

definition keyboard_interrupt_handler :: "u8 list \<Rightarrow> keyboard \<Rightarrow> keyboard" where
  "keyboard_interrupt_handler bytes = fold handle_scancode bytes"

section \<open>Modifiers\<close>

text \<open>
  The modifiers as a function of the keys that are down: what \<^verbatim>\<open>update_modifiers\<close> keeps is one flag for the two keys of each kind, so releasing one of them
  clears the flag while the other is still down.
\<close>

lemma release_bit: "RELEASE_MASK = 2 ^ 7"
  by (simp add: RELEASE_MASK_def)

lemma released_bit: "(b :: u8) AND RELEASE_MASK \<noteq> 0 \<longleftrightarrow> bit b 7"
  unfolding release_bit and_exp_eq_0_iff_not_bit by simp

lemma one_shift_of_two:
  "keyboard_interrupt_handler [0x2A, 0x36, 0xB6] keyboard_static = k \<Longrightarrow> \<not> shift_held k"
  by (auto simp: keyboard_interrupt_handler_def handle_scancode_def keyboard_static_def update_modifiers_def push_event_def scan_defs EXTENDED_PREFIX_def RELEASE_MASK_def Let_def)

text \<open>A make code and its break code, for a key without a modifier.\<close>

definition plain_event :: "u8 \<Rightarrow> bool \<Rightarrow> KeyEvent" where
  "plain_event c rel = \<lparr>ke_scancode = c, ke_extended = (ExtendedScanCode ''Nil''), ke_released = rel, ke_shift_held = False, ke_control_held = False, ke_alt_held = False, ke_caps_lock_on = False\<rparr>"

definition plain :: "keyboard \<Rightarrow> bool" where
  "plain k \<longleftrightarrow> \<not> shift_held k \<and> \<not> control_held k \<and> \<not> alt_held k \<and> \<not> caps_lock k \<and> \<not> extended_pending k"

definition modifier :: "u8 \<Rightarrow> bool" where
  "modifier c \<longleftrightarrow> c \<in> {(ScanCode ''LeftShift''), (ScanCode ''RightShift''), (ScanCode ''LeftCtrl''), (ScanCode ''LeftAlt''), (ScanCode ''CapsLock'')}"

lemma press_release:
  assumes "plain k" "c < 0x80" "\<not> modifier c" "c \<noteq> 0x60"
  shows "handle_scancode (c OR RELEASE_MASK) (handle_scancode c k) = k\<lparr>event_buffer := event_buffer k @ [plain_event c False, plain_event c True]\<rparr>"
proof -
  have b: "\<not> bit c 7" using assms(2) by (simp add: bit_iff_odd div_word_less)
  have r: "c AND RELEASE_MASK = 0" "c AND NOT RELEASE_MASK = c" "(c OR RELEASE_MASK) AND NOT RELEASE_MASK = c"
    using released_bit [of c] b by (auto simp: release_bit bit_eq_iff bit_simps)
  have r': "(c OR RELEASE_MASK) AND RELEASE_MASK \<noteq> 0" unfolding released_bit by (simp only: release_bit bit_simps) simp
  have e: "c \<noteq> EXTENDED_PREFIX" using assms(2) by (auto simp: EXTENDED_PREFIX_def)
  have e': "c OR RELEASE_MASK \<noteq> EXTENDED_PREFIX"
  proof
    assume "c OR RELEASE_MASK = EXTENDED_PREFIX"
    then have "c = EXTENDED_PREFIX AND NOT RELEASE_MASK" using r(3) by simp
    then show False using assms(4) by (simp add: EXTENDED_PREFIX_def RELEASE_MASK_def)
  qed
  have u: "update_modifiers c (ExtendedScanCode ''Nil'') rel k' = k'" for rel k'
    using assms(3) by (simp add: update_modifiers_def modifier_def scan_defs )
  have h: "handle_scancode c k = k\<lparr>event_buffer := event_buffer k @ [plain_event c False]\<rparr>"
    using assms(1) e r u by (simp add: handle_scancode_def Let_def plain_def push_event_def plain_event_def)
  have "handle_scancode (c OR RELEASE_MASK) (k\<lparr>event_buffer := event_buffer k @ [plain_event c False]\<rparr>) = k\<lparr>event_buffer := event_buffer k @ [plain_event c False, plain_event c True]\<rparr>"
    using assms(1) e' r r' u by (simp add: handle_scancode_def Let_def plain_def push_event_def plain_event_def)
  then show ?thesis using h by simp
qed

lemma type_keys:
  assumes "plain k" "\<forall>c \<in> set cs. c < 0x80 \<and> \<not> modifier c \<and> c \<noteq> 0x60"
  shows "keyboard_interrupt_handler (concat (map (\<lambda>c. [c, c OR RELEASE_MASK]) cs)) k =
    k\<lparr>event_buffer := event_buffer k @ concat (map (\<lambda>c. [plain_event c False, plain_event c True]) cs)\<rparr>"
  using assms
proof (induction cs arbitrary: k)
  case (Cons c cs)
  then show ?case using press_release [of k c] Cons.IH [of "k\<lparr>event_buffer := event_buffer k @ [plain_event c False, plain_event c True]\<rparr>"]
    by (simp add: keyboard_interrupt_handler_def plain_def)
qed (simp add: keyboard_interrupt_handler_def)

end
