(* ===== verification/Tty.thy ===== *)
theory Tty
  imports Console Keyboard
begin

text \<open>
  The terminal, \<^verbatim>\<open>lib/fs/devfs/dev_tty.cpp\<close>: the line editor with its history, over the strings, vectors and the console of the theories it imports. The state is the
  fields of \<^verbatim>\<open>DevTtyInode\<close> and the console. Reading a line is a function of the key events that arrive: between two of them the process sleeps in \<^verbatim>\<open>yield_blocked\<close>,
  and it is blocked when there are no more. The bytes that \<^verbatim>\<open>kcopy_to_user\<close> copies are part of the result.
\<close>

section \<open>Definitions\<close>

text \<open>The table of the scan codes, in lines of eight; \<open>NUL\<close> for a key that does not print.\<close>

definition scancode_to_ascii_table :: string where
  "scancode_to_ascii_table =
     [NUL, NUL] @ ''123456'' @
     ''7890-='' @ [NUL, NUL] @
     ''qwertyui'' @
     ''op[]'' @ [NUL, NUL] @ ''as'' @
     ''dfghjkl;'' @
     [CHR 0x27, CHR 0x60, NUL, CHR 0x5C] @ ''zxcv'' @
     ''bnm,./'' @ [NUL] @ ''*'' @
     [NUL] @ '' '' @ replicate 6 NUL @
     replicate 7 NUL @ ''7'' @
     ''89-456+1'' @
     ''230.'' @ replicate 4 NUL @
     replicate 40 NUL"

definition scancode_to_ascii :: "u8 \<Rightarrow> bool \<Rightarrow> char" where
  "scancode_to_ascii code caps = (let index = unat code in if index \<ge> 128 then NUL
     else let ascii = scancode_to_ascii_table ! index in
       if caps \<and> of_char ascii \<ge> (97 :: nat) \<and> of_char ascii \<le> (122 :: nat) then char_of ((of_char ascii :: nat) - 32) else ascii)"

record tty =
  tty_buffer :: kstring
  tty_history :: "kstring kvector"
  buffer_index :: nat
  history_index :: nat
  tty_con :: console

definition tty_new :: "console \<Rightarrow> tty" where
  "tty_new c = \<lparr>tty_buffer = kstring_new, tty_history = kvector_new, buffer_index = 0, history_index = 0, tty_con = c\<rparr>"

definition on_con :: "(console \<Rightarrow> console kres) \<Rightarrow> tty \<Rightarrow> tty kres" where
  "on_con f t = kbind (f (tty_con t)) (\<lambda>c. Inr (t\<lparr>tty_con := c\<rparr>))"

text \<open>What four of the operations end with: the rest of the line is put again and the cursor moved back.\<close>

definition erase_rest :: "tty \<Rightarrow> tty kres" where
  "erase_rest t = on_con (erase_in_line (unat (cursor_col (tty_con t))) (unat (screen_cols (tty_con t)))) t"

definition put_rest :: "tty \<Rightarrow> tty kres" where
  "put_rest t = kbind (kfor (buffer_index t) (ks_len (tty_buffer t)) (\<lambda>i t. kbind (kstring_nth (tty_buffer t) i) (\<lambda>c. on_con (put_char c) t)) t) (\<lambda>t.
     on_con (move_cursor (- of_nat (ks_len (tty_buffer t) - buffer_index t)) 0) t)"

definition insert_char :: "char \<Rightarrow> tty \<Rightarrow> tty kres" where
  "insert_char c t = kbind (kstring_insert (buffer_index t) c (tty_buffer t)) (\<lambda>b.
     kbind (erase_rest (t\<lparr>tty_buffer := b, buffer_index := buffer_index t + 1\<rparr>)) (\<lambda>t. kbind (on_con (put_char c) t) put_rest))"

definition delete_back :: "tty \<Rightarrow> tty kres" where
  "delete_back t = (if buffer_index t = 0 then Inr t
     else kbind (kstring_erase (buffer_index t - 1) (tty_buffer t)) (\<lambda>b.
       kbind (on_con (move_cursor (- 1) 0) (t\<lparr>tty_buffer := b, buffer_index := buffer_index t - 1\<rparr>)) (\<lambda>t. kbind (erase_rest t) put_rest)))"

definition delete_forward :: "tty \<Rightarrow> tty kres" where
  "delete_forward t = (if buffer_index t = ks_len (tty_buffer t) then Inr t
     else kbind (kstring_erase (buffer_index t) (tty_buffer t)) (\<lambda>b. kbind (erase_rest (t\<lparr>tty_buffer := b\<rparr>)) put_rest))"

definition move_left :: "tty \<Rightarrow> tty kres" where
  "move_left t = (if buffer_index t > 0 then on_con (move_cursor (- 1) 0) (t\<lparr>buffer_index := buffer_index t - 1\<rparr>) else Inr t)"

definition move_right :: "tty \<Rightarrow> tty kres" where
  "move_right t = (if buffer_index t < ks_len (tty_buffer t) then on_con (move_cursor 1 0) (t\<lparr>buffer_index := buffer_index t + 1\<rparr>) else Inr t)"

definition move_to_start :: "tty \<Rightarrow> tty kres" where
  "move_to_start t = (if buffer_index t = 0 then Inr t
     else kbind (on_con (move_cursor (- of_nat (buffer_index t)) 0) t) (\<lambda>t. Inr (t\<lparr>buffer_index := 0\<rparr>)))"

definition move_to_end :: "tty \<Rightarrow> tty kres" where
  "move_to_end t = (if buffer_index t = ks_len (tty_buffer t) then Inr t
     else kbind (on_con (move_cursor (of_nat (ks_len (tty_buffer t) - buffer_index t)) 0) t) (\<lambda>t. Inr (t\<lparr>buffer_index := ks_len (tty_buffer t)\<rparr>)))"

definition delete_to_end :: "tty \<Rightarrow> tty kres" where
  "delete_to_end t = kbind (kstring_truncate (buffer_index t) (tty_buffer t)) (\<lambda>b. erase_rest (t\<lparr>tty_buffer := b\<rparr>))"

definition add_buffer_history :: "tty \<Rightarrow> tty kres" where
  "add_buffer_history t = (if kstring_empty (tty_buffer t) then Inr t
     else kbind (if kvector_empty (tty_history t) then Inr False else kbind (kvector_back (tty_history t)) (kstring_eq (tty_buffer t))) (\<lambda>same.
       if same then Inr t
       else kbind (kstring_copy (tty_buffer t)) (\<lambda>b. kbind (kvector_push_back b (tty_history t)) (\<lambda>h.
         Inr (t\<lparr>tty_history := h, history_index := v_size h\<rparr>)))))"

text \<open>The two history keys put a string on the console, which may not return.\<close>

definition put_buffer :: "tty \<Rightarrow> tty kres option" where
  "put_buffer t = map_option (\<lambda>r. kbind r (\<lambda>c. Inr (t\<lparr>tty_con := c\<rparr>))) (put_kstring (tty_buffer t) (tty_con t))"

definition kthen :: "'a kres \<Rightarrow> ('a \<Rightarrow> 'b kres option) \<Rightarrow> 'b kres option" where
  "kthen m f = (case m of Inl e \<Rightarrow> Some (Inl e) | Inr x \<Rightarrow> f x)"

definition buffer_history_up :: "tty \<Rightarrow> tty kres option" where
  "buffer_history_up t = (if \<not> kvector_empty (tty_history t) \<and> history_index t > 0
     then kthen (kbind (kbind (move_to_start t) delete_to_end) (\<lambda>t. let t = t\<lparr>history_index := history_index t - 1\<rparr> in
       kbind (v_read (tty_history t) (history_index t)) (\<lambda>l. kbind (kstring_assign (tty_buffer t) l) (\<lambda>b. Inr (t\<lparr>tty_buffer := b, buffer_index := ks_len b\<rparr>))))) put_buffer
     else Some (Inr t))"

definition buffer_history_down :: "tty \<Rightarrow> tty kres option" where
  "buffer_history_down t = kthen (kbind (kbind (move_to_start t) delete_to_end) (\<lambda>t.
     if history_index t + 1 < v_size (tty_history t)
     then let t = t\<lparr>history_index := history_index t + 1\<rparr> in
       kbind (v_read (tty_history t) (history_index t)) (\<lambda>l. kbind (kstring_assign (tty_buffer t) l) (\<lambda>b. Inr (t\<lparr>tty_buffer := b, buffer_index := ks_len b\<rparr>)))
     else kbind (kstring_assign_cstr (tty_buffer t) (Some [])) (\<lambda>b.
       Inr (t\<lparr>tty_buffer := b, buffer_index := ks_len b, history_index := v_size (tty_history t)\<rparr>)))) put_buffer"

definition process_ctrl :: "u8 \<Rightarrow> tty \<Rightarrow> tty kres" where
  "process_ctrl c t = (if c = (ScanCode ''A'') then move_to_start t
     else if c = (ScanCode ''E'') then move_to_end t
     else if c = (ScanCode ''K'') then delete_to_end t
     else if c = (ScanCode ''B'') then move_left t
     else if c = (ScanCode ''F'') then move_right t
     else if c = (ScanCode ''D'') then delete_forward t
     else Inr t)"

text \<open>One event of the loop of \<^verbatim>\<open>read\<close>: the number of characters and the bytes copied when it was the end of the line, and the new state.\<close>

definition tty_event :: "nat \<Rightarrow> KeyEvent \<Rightarrow> tty \<Rightarrow> ((nat \<times> string) option \<times> tty) kres option" where
  "tty_event n event t = (if ke_released event then Some (Inr (None, t))
     else let scancode = ke_scancode event; extended = ke_extended event;
              caps = (ke_shift_held event \<or> ke_caps_lock_on event);
              ascii = scancode_to_ascii scancode caps;
              redraw = (\<lambda>r. map_option (\<lambda>r. kbind r (\<lambda>t. kbind (on_con (console_redraw False) t) (\<lambda>t. Inr (None, t)))) r) in
       if ke_control_held event then redraw (Some (process_ctrl scancode t))
       else if ascii \<noteq> NUL then redraw (Some (insert_char ascii t))
       else if scancode = (ScanCode ''Backspace'') then redraw (Some (delete_back t))
       else if scancode = (ScanCode ''Enter'')
         then Some (kbind (add_buffer_history t) (\<lambda>t. let len = ks_len (tty_buffer t) in
           kbind (rd_list (tty_buffer t) 0 (if len > n then n else len)) (\<lambda>bytes.
           kbind (on_con newline t) (\<lambda>t. Inr (Some (len, bytes), t)))))
       else if extended = (ExtendedScanCode ''LeftArrow'') then redraw (Some (move_left t))
       else if extended = (ExtendedScanCode ''RightArrow'') then redraw (Some (move_right t))
       else if extended = (ExtendedScanCode ''Delete'') then redraw (Some (delete_forward t))
       else if extended = (ExtendedScanCode ''UpArrow'') then redraw (buffer_history_up t)
       else if extended = (ExtendedScanCode ''DownArrow'') then redraw (buffer_history_down t)
       else if extended = (ExtendedScanCode ''PageUp'') then redraw (Some (on_con scroll_up t))
       else if extended = (ExtendedScanCode ''PageDown'') then redraw (Some (on_con scroll_down t))
       else redraw (Some (Inr t)))"

datatype read_result = Blocked tty | Line nat string tty "KeyEvent list"

fun tty_events :: "nat \<Rightarrow> KeyEvent list \<Rightarrow> tty \<Rightarrow> read_result kres option" where
  "tty_events n [] t = Some (Inr (Blocked t))"
| "tty_events n (e # es) t = (case tty_event n e t of None \<Rightarrow> None | Some r \<Rightarrow> kthen r (\<lambda>(l, t). case l of
     None \<Rightarrow> tty_events n es t | Some (len, bytes) \<Rightarrow> Some (Inr (Line len bytes t es))))"

definition tty_read :: "nat \<Rightarrow> KeyEvent list \<Rightarrow> tty \<Rightarrow> read_result kres option" where
  "tty_read n events t = kthen (kbind (kstring_assign_cstr (tty_buffer t) (Some [])) (\<lambda>b. Inr (t\<lparr>tty_buffer := b, buffer_index := 0\<rparr>))) (tty_events n events)"

text \<open>\<open>str\<close> is what \<^verbatim>\<open>kcopy_from_user\<close> has copied.\<close>

definition tty_write :: "string \<Rightarrow> nat \<Rightarrow> tty \<Rightarrow> (nat \<times> tty) kres" where
  "tty_write str n t = kbind (on_con (put_view (kv_new str n)) t) (\<lambda>t. kbind (on_con (console_redraw False) t) (\<lambda>t. Inr (n, t)))"

definition ESPIPE :: int where "ESPIPE = 29"
definition ENOTTY :: int where "ENOTTY = 25"
definition TIOCGWINSZ :: u64 where "TIOCGWINSZ = 0x5413"

definition tty_lseek :: "int \<Rightarrow> int \<Rightarrow> int" where
  "tty_lseek offset whence = - ESPIPE"

record winsize =
  ws_row :: u16
  ws_col :: u16
  ws_xpixel :: u16
  ws_ypixel :: u16

definition tty_ioctl :: "u64 \<Rightarrow> tty \<Rightarrow> int \<times> winsize option" where
  "tty_ioctl request t = (if request = TIOCGWINSZ
     then (0, Some \<lparr>ws_row = ucast (screen_rows (tty_con t)), ws_col = ucast (screen_cols (tty_con t)), ws_xpixel = 0, ws_ypixel = 0\<rparr>) else (- ENOTTY, None))"

section \<open>The line on the screen\<close>

lemma type_line:
  assumes "CHR 0x0A \<notin> set u" "c + length u < cols"
  shows "fold (type_char cols) u (r, c, g) = (r, c + length u, g(r := \<lambda>j. if c \<le> j \<and> j < c + length u then u ! (j - c) else g r j))"
  using assms
proof (induction u arbitrary: c g)
  case Nil
  then show ?case by (auto simp: fun_eq_iff)
next
  case (Cons x u)
  have "fold (type_char cols) (x # u) (r, c, g) = fold (type_char cols) u (r, Suc c, g(r := (g r)(c := x)))" using Cons.prems by (auto simp: type_char_def Let_def)
  also have "\<dots> = (r, Suc c + length u, g(r := \<lambda>j. if Suc c \<le> j \<and> j < Suc c + length u then u ! (j - Suc c) else if j = c then x else g r j))"
    by (subst Cons.IH) (use Cons.prems in \<open>auto simp: fun_eq_iff\<close>)
  also have "(\<lambda>j. if Suc c \<le> j \<and> j < Suc c + length u then u ! (j - Suc c) else if j = c then x else g r j) =
      (\<lambda>j. if c \<le> j \<and> j < c + length (x # u) then (x # u) ! (j - c) else g r j)"
    by (auto simp: fun_eq_iff nth_Cons')
  finally show ?case by simp
qed

text \<open>The line \<open>tx\<close> shown in the row \<open>r\<close> from the column \<open>c0\<close> on, the rest of the row empty.\<close>

definition line_grid :: "nat \<Rightarrow> nat \<Rightarrow> nat \<Rightarrow> string \<Rightarrow> (nat \<Rightarrow> nat \<Rightarrow> char) \<Rightarrow> nat \<Rightarrow> nat \<Rightarrow> char" where
  "line_grid cols r c0 tx g = g(r := \<lambda>j. if c0 \<le> j \<and> j < cols then if j < c0 + length tx then tx ! (j - c0) else CHR '' '' else g r j)"

definition tty_at :: "nat \<Rightarrow> nat \<Rightarrow> nat \<Rightarrow> nat \<Rightarrow> nat \<Rightarrow> nat \<Rightarrow> (nat \<Rightarrow> nat \<Rightarrow> char) \<Rightarrow> string \<times> nat \<Rightarrow> tty \<Rightarrow> bool" where
  "tty_at w h cols rows r c0 g = (\<lambda>(tx, idx) t. repr (tty_buffer t) tx \<and> idx \<le> length tx \<and> buffer_index t = idx \<and> c0 + length tx < cols \<and> CHR 0x0A \<notin> set tx \<and>
     con_ok w h cols rows (r, c0 + idx, line_grid cols r c0 tx g) (tty_con t))"

lemma con_ok_col: "con_ok w h cols rows (r, c, g) s \<Longrightarrow> unat (cursor_col s) = c \<and> unat (screen_cols s) = cols \<and> r < 2 ^ 31 \<and> cols < 2 ^ 15 \<and> c < cols"
proof -
  assume "con_ok w h cols rows (r, c, g) s"
  then obtain v where v: "con_at w h cols rows r c v g s" "c < cols" by (auto simp: con_ok_def)
  have "r < 2 ^ 31" using v(1) by (simp add: con_at_def)
  then show ?thesis using con_atD(2,5,7) [OF v(1)] v(2) by simp
qed

lemma erase_rest_ok:
  assumes "con_ok w h cols rows (r, c, g) (tty_con t)"
  shows "\<exists>s. erase_rest t = Inr (t\<lparr>tty_con := s\<rparr>) \<and> con_ok w h cols rows (r, c, g(r := (\<lambda>j. if c \<le> j \<and> j < cols then CHR '' '' else g r j))) s"
  using erase_in_line_ok [OF assms, of c cols] con_ok_col [OF assms] by (auto simp: erase_rest_def on_con_def)

lemma move_by_ok:
  assumes "con_ok w h cols rows (r, c, g) (tty_con t)" "of_nat c + dx = (of_nat c' :: u32)" "c' < cols"
  shows "\<exists>s. on_con (move_cursor dx 0) t = Inr (t\<lparr>tty_con := s\<rparr>) \<and> con_ok w h cols rows (r, c', g) s"
  using move_cursor_ok [OF assms] by (auto simp: on_con_def)

lemma put_rest_ok:
  assumes "con_ok w h cols rows (r, c, g) (tty_con t)" "repr (tty_buffer t) tx" "buffer_index t \<le> length tx" "u = drop (buffer_index t) tx"
    "CHR 0x0A \<notin> set u" "c + length u < cols" "Suc r < 2 ^ 31"
  shows "\<exists>s. put_rest t = Inr (t\<lparr>tty_con := s\<rparr>) \<and> con_ok w h cols rows (r, c, g(r := \<lambda>j. if c \<le> j \<and> j < c + length u then u ! (j - c) else g r j)) s"
proof -
  let ?i = "buffer_index t"
  let ?p = "\<lambda>i. fold (type_char cols) (take (i - ?i) u) (r, c, g)"
  have p: "?p i = (r, c + (i - ?i), g(r := \<lambda>j. if c \<le> j \<and> j < c + (i - ?i) then take (i - ?i) u ! (j - c) else g r j))" if "i \<le> length tx" for i
  proof -
    have "CHR 0x0A \<notin> set (take (i - ?i) u)" using assms(5) set_take_subset [of "i - ?i" u] by blast
    moreover have "length (take (i - ?i) u) = i - ?i" using that assms(4) by simp
    ultimately show ?thesis using type_line [of "take (i - ?i) u" c cols r g] assms(4,6) by simp
  qed
  have "\<exists>t'. kfor ?i (length tx) (\<lambda>i t. kbind (kstring_nth (tty_buffer t) i) (\<lambda>c. on_con (put_char c) t)) t = Inr t' \<and>
      (\<exists>s. t' = t\<lparr>tty_con := s\<rparr> \<and> con_ok w h cols rows (?p (length tx)) s)"
  proof (rule kfor_rule [where I = "\<lambda>i t'. \<exists>s. t' = t\<lparr>tty_con := s\<rparr> \<and> con_ok w h cols rows (?p i) s"])
    fix i t' assume i: "?i \<le> i" "i < length tx" and "\<exists>s. t' = t\<lparr>tty_con := s\<rparr> \<and> con_ok w h cols rows (?p i) s"
    then obtain s where s: "t' = t\<lparr>tty_con := s\<rparr>" "con_ok w h cols rows (?p i) s" by blast
    have k: "kstring_nth (tty_buffer t) i = Inr (tx ! i)" using reads_repr [OF assms(2)] i by (simp add: reads_def kstring_nth_def)
    obtain s' where s': "put_char (tx ! i) s = Inr s'" "con_ok w h cols rows (type_char cols (tx ! i) (?p i)) s'"
      using put_char_ok [OF s(2) [unfolded p [OF less_imp_le [OF i(2)]]] assms(7)] p [of i] i by auto
    have "take (Suc i - ?i) u = take (i - ?i) u @ [tx ! i]" using i assms(4) by (simp add: Suc_diff_le take_Suc_conv_app_nth)
    then have "?p (Suc i) = type_char cols (tx ! i) (?p i)" by simp
    then show "\<exists>t''. kbind (kstring_nth (tty_buffer t') i) (\<lambda>c. on_con (put_char c) t') = Inr t'' \<and> (\<exists>s. t'' = t\<lparr>tty_con := s\<rparr> \<and> con_ok w h cols rows (?p (Suc i)) s)"
      using s(1) s' k by (auto simp: on_con_def)
  qed (use assms(1,3) in \<open>auto intro!: exI [of _ "tty_con t"]\<close>)
  then obtain s where s: "kfor ?i (length tx) (\<lambda>i t. kbind (kstring_nth (tty_buffer t) i) (\<lambda>c. on_con (put_char c) t)) t = Inr (t\<lparr>tty_con := s\<rparr>)"
      "con_ok w h cols rows (?p (length tx)) s" by blast
  have l: "length tx - ?i = length u" using assms(4) by simp
  have c: "con_ok w h cols rows (r, c + length u, g(r := \<lambda>j. if c \<le> j \<and> j < c + length u then u ! (j - c) else g r j)) (tty_con (t\<lparr>tty_con := s\<rparr>))"
    using s(2) [unfolded p [OF order_refl]] unfolding l take_all [OF order_refl] by simp
  have e: "of_nat (c + length u) + - of_nat (length u) = (of_nat c :: u32)" by simp
  obtain s' where "on_con (move_cursor (- of_nat (length u)) 0) (t\<lparr>tty_con := s\<rparr>) = Inr (t\<lparr>tty_con := s'\<rparr>)"
      "con_ok w h cols rows (r, c, g(r := \<lambda>j. if c \<le> j \<and> j < c + length u then u ! (j - c) else g r j)) s'"
    using move_by_ok [OF c e] assms(6) by auto
  moreover have "put_rest t = on_con (move_cursor (- of_nat (length u)) 0) (t\<lparr>tty_con := s\<rparr>)" using s(1) repr_len [OF assms(2)] l by (simp add: put_rest_def)
  ultimately show ?thesis by auto
qed

text \<open>Putting the rest of the line into a row that is empty from there on.\<close>

lemma put_rest_line:
  assumes "con_ok w h cols rows (r, c0 + i, g1) (tty_con t)" "repr (tty_buffer t) tx" "buffer_index t = i" "i \<le> length tx" "CHR 0x0A \<notin> set tx" "c0 + length tx < cols" "Suc r < 2 ^ 31"
    "\<And>a b. \<not> (a = r \<and> c0 \<le> b \<and> b < cols) \<Longrightarrow> g1 a b = g a b" "\<And>j. j < i \<Longrightarrow> g1 r (c0 + j) = tx ! j" "\<And>j. c0 + i \<le> j \<Longrightarrow> j < cols \<Longrightarrow> g1 r j = CHR '' ''"
  shows "\<exists>s. put_rest t = Inr (t\<lparr>tty_con := s\<rparr>) \<and> con_ok w h cols rows (r, c0 + i, line_grid cols r c0 tx g) s"
proof -
  have n: "CHR 0x0A \<notin> set (drop i tx)" using assms(5) set_drop_subset [of i tx] by blast
  obtain s2 where s2: "put_rest t = Inr (t\<lparr>tty_con := s2\<rparr>)"
      "con_ok w h cols rows (r, c0 + i, g1(r := \<lambda>j. if c0 + i \<le> j \<and> j < c0 + i + length (drop i tx) then drop i tx ! (j - (c0 + i)) else g1 r j)) s2"
    using put_rest_ok [OF assms(1), of tx "drop i tx"] assms(2-4,6,7) n by auto
  have "g1(r := \<lambda>j. if c0 + i \<le> j \<and> j < c0 + i + length (drop i tx) then drop i tx ! (j - (c0 + i)) else g1 r j) = line_grid cols r c0 tx g"
  proof (intro ext)
    fix a b
    consider "a \<noteq> r" | "a = r" "b < c0 \<or> cols \<le> b" | j where "a = r" "b = c0 + j" "j < i" "b < cols" | j where "a = r" "b = c0 + j" "i \<le> j" "b < cols"
      by (metis le_Suc_ex not_le)
    then show "(g1(r := \<lambda>j. if c0 + i \<le> j \<and> j < c0 + i + length (drop i tx) then drop i tx ! (j - (c0 + i)) else g1 r j)) a b = line_grid cols r c0 tx g a b"
      by cases (use assms(4,6,8-10) in \<open>auto simp: line_grid_def\<close>)
  qed
  then show ?thesis using s2 by auto
qed

lemma redisplay:
  assumes "con_ok w h cols rows (r, c0 + i, g') (tty_con t)" "repr (tty_buffer t) tx" "buffer_index t = i" "i \<le> length tx" "CHR 0x0A \<notin> set tx" "c0 + length tx < cols" "Suc r < 2 ^ 31"
    "\<And>a b. \<not> (a = r \<and> c0 \<le> b \<and> b < cols) \<Longrightarrow> g' a b = g a b" "\<And>j. j < i \<Longrightarrow> g' r (c0 + j) = tx ! j"
  shows "\<exists>s. kbind (erase_rest t) put_rest = Inr (t\<lparr>tty_con := s\<rparr>) \<and> con_ok w h cols rows (r, c0 + i, line_grid cols r c0 tx g) s"
proof -
  obtain s1 where s1: "erase_rest t = Inr (t\<lparr>tty_con := s1\<rparr>)" "con_ok w h cols rows (r, c0 + i, g'(r := (\<lambda>j. if c0 + i \<le> j \<and> j < cols then CHR '' '' else g' r j))) s1"
    using erase_rest_ok [OF assms(1)] by blast
  have "\<exists>s. put_rest (t\<lparr>tty_con := s1\<rparr>) = Inr (t\<lparr>tty_con := s1, tty_con := s\<rparr>) \<and> con_ok w h cols rows (r, c0 + i, line_grid cols r c0 tx g) s"
    by (rule put_rest_line [where ?g1.0 = "g'(r := (\<lambda>j. if c0 + i \<le> j \<and> j < cols then CHR '' '' else g' r j))"]) (use s1(2) assms in auto)
  then show ?thesis using s1(1) by auto
qed

section \<open>Editing a line\<close>

text \<open>The keys of the editor, as they act on a text and a position in it.\<close>

datatype edit_key = Ins char | DelBack | DelForward | Left | Right | Home | End | Kill

primrec edit :: "edit_key \<Rightarrow> string \<times> nat \<Rightarrow> string \<times> nat" where
  "edit (Ins c) = (\<lambda>(tx, i). (take i tx @ c # drop i tx, i + 1))"
| "edit DelBack = (\<lambda>(tx, i). if i = 0 then (tx, i) else (take (i - 1) tx @ drop i tx, i - 1))"
| "edit DelForward = (\<lambda>(tx, i). (take i tx @ drop (Suc i) tx, i))"
| "edit Left = (\<lambda>(tx, i). (tx, i - 1))"
| "edit Right = (\<lambda>(tx, i). (tx, min (i + 1) (length tx)))"
| "edit Home = (\<lambda>(tx, i). (tx, 0))"
| "edit End = (\<lambda>(tx, i). (tx, length tx))"
| "edit Kill = (\<lambda>(tx, i). (take i tx, i))"

primrec tty_edit :: "edit_key \<Rightarrow> tty \<Rightarrow> tty kres" where
  "tty_edit (Ins c) = insert_char c"
| "tty_edit DelBack = delete_back"
| "tty_edit DelForward = delete_forward"
| "tty_edit Left = move_left"
| "tty_edit Right = move_right"
| "tty_edit Home = move_to_start"
| "tty_edit End = move_to_end"
| "tty_edit Kill = delete_to_end"

text \<open>
  What inserting needs: room on the row, and, inside the line, a buffer with room for one more character and the terminator, which \<^verbatim>\<open>kstring::insert\<close> does not see to.
\<close>

definition can_edit :: "nat \<Rightarrow> nat \<Rightarrow> edit_key \<Rightarrow> string \<times> nat \<Rightarrow> tty \<Rightarrow> bool" where
  "can_edit cols c0 e = (\<lambda>(tx, i) t. case e of Ins c \<Rightarrow> c \<noteq> CHR 0x0A \<and> c0 + length tx + 1 < cols \<and> (i < length tx \<longrightarrow> ks_cap (tty_buffer t) \<noteq> length tx + 1) | _ \<Rightarrow> True)"

lemma tty_atD:
  assumes "tty_at w h cols rows r c0 g (tx, i) t"
  shows "repr (tty_buffer t) tx" "i \<le> length tx" "buffer_index t = i" "c0 + length tx < cols" "CHR 0x0A \<notin> set tx"
    "con_ok w h cols rows (r, c0 + i, line_grid cols r c0 tx g) (tty_con t)" "ks_len (tty_buffer t) = length tx"
  using assms repr_len by (auto simp: tty_at_def)

lemma line_grid_in: "j < length tx \<Longrightarrow> c0 + length tx < cols \<Longrightarrow> line_grid cols r c0 tx g r (c0 + j) = tx ! j"
  by (simp add: line_grid_def)

lemma line_grid_out: "\<not> (a = r \<and> c0 \<le> b \<and> b < cols) \<Longrightarrow> line_grid cols r c0 tx g a b = g a b"
  by (auto simp: line_grid_def)

lemma insert_char_ok:
  assumes "tty_at w h cols rows r c0 g (tx, i) t" "can_edit cols c0 (Ins c) (tx, i) t" "Suc r < 2 ^ 31"
  shows "\<exists>t'. insert_char c t = Inr t' \<and> tty_at w h cols rows r c0 g (edit (Ins c) (tx, i)) t'"
proof -
  note d = tty_atD [OF assms(1)]
  have pre: "c \<noteq> CHR 0x0A" "c0 + length tx + 1 < cols" "i < length tx \<Longrightarrow> ks_cap (tty_buffer t) \<noteq> length tx + 1" using assms(2) by (auto simp: can_edit_def)
  let ?tx = "take i tx @ c # drop i tx"
  obtain b where b: "kstring_insert i c (tty_buffer t) = Inr b" "repr b ?tx"
    using kstring_insert_cases(1,3) [OF d(1), of i c] pre(3) d(2) by (cases "i < length tx") auto
  define t1 where "t1 = t\<lparr>tty_buffer := b, buffer_index := i + 1\<rparr>"
  have c1: "con_ok w h cols rows (r, c0 + i, line_grid cols r c0 tx g) (tty_con t1)" using d(6) by (simp add: t1_def)
  let ?g1 = "(line_grid cols r c0 tx g)(r := (\<lambda>j. if c0 + i \<le> j \<and> j < cols then CHR '' '' else line_grid cols r c0 tx g r j))"
  obtain s1 where s1: "erase_rest t1 = Inr (t1\<lparr>tty_con := s1\<rparr>)" "con_ok w h cols rows (r, c0 + i, ?g1) s1"
    using erase_rest_ok [OF c1] by blast
  let ?g2 = "?g1(r := (?g1 r)(c0 + i := c))"
  have "type_char cols c (r, c0 + i, ?g1) = (r, Suc (c0 + i), ?g2)" using pre(1,2) d(2) by (simp add: type_char_def Let_def)
  then obtain s2 where s2: "put_char c s1 = Inr s2" "con_ok w h cols rows (r, c0 + (i + 1), ?g2) s2" using put_char_ok [OF s1(2) assms(3), of c] by auto
  have l: "length ?tx = length tx + 1" "i + 1 \<le> length ?tx" using d(2) by auto
  have nl: "CHR 0x0A \<notin> set ?tx" using d(5) pre(1) set_take_subset [of i tx] set_drop_subset [of i tx] by auto
  have "\<exists>s. put_rest (t1\<lparr>tty_con := s2\<rparr>) = Inr (t1\<lparr>tty_con := s2, tty_con := s\<rparr>) \<and> con_ok w h cols rows (r, c0 + (i + 1), line_grid cols r c0 ?tx g) s"
  proof (rule put_rest_line)
    show "con_ok w h cols rows (r, c0 + (i + 1), ?g2) (tty_con (t1\<lparr>tty_con := s2\<rparr>))" using s2(2) by simp
    show "?g2 a b = g a b" if "\<not> (a = r \<and> c0 \<le> b \<and> b < cols)" for a b using that line_grid_out [OF that, of tx g] pre(2) d(2) by auto
    show "?g2 r (c0 + j) = ?tx ! j" if "j < i + 1" for j using that d(2,4) line_grid_in [of j tx c0 cols r g] by (auto simp: nth_append less_Suc_eq)
    show "?g2 r j = CHR '' ''" if "c0 + (i + 1) \<le> j" "j < cols" for j using that by auto
  qed (use b(2) l nl pre(2) assms(3) in \<open>auto simp: t1_def\<close>)
  then obtain s3 where s3: "put_rest (t1\<lparr>tty_con := s2\<rparr>) = Inr (t1\<lparr>tty_con := s3\<rparr>)" "con_ok w h cols rows (r, c0 + (i + 1), line_grid cols r c0 ?tx g) s3" by auto
  have "insert_char c t = Inr (t1\<lparr>tty_con := s3\<rparr>)" using b(1) s1(1) s2(1) s3(1) d(3) by (simp add: insert_char_def t1_def on_con_def)
  moreover have "tty_at w h cols rows r c0 g (edit (Ins c) (tx, i)) (t1\<lparr>tty_con := s3\<rparr>)" using b(2) l nl pre(2) s3(2) by (simp add: tty_at_def t1_def)
  ultimately show ?thesis by blast
qed

lemma delete_forward_ok:
  assumes "tty_at w h cols rows r c0 g (tx, i) t" "Suc r < 2 ^ 31"
  shows "\<exists>t'. delete_forward t = Inr t' \<and> tty_at w h cols rows r c0 g (edit DelForward (tx, i)) t'"
proof (cases "i = length tx")
  case True
  then show ?thesis using assms(1) tty_atD [OF assms(1)] by (simp add: delete_forward_def)
next
  case False
  note d = tty_atD [OF assms(1)]
  let ?tx = "take i tx @ drop (Suc i) tx"
  obtain b where b: "kstring_erase i (tty_buffer t) = Inr b" "repr b ?tx" using kstring_updates(5) [OF d(1) d(1), of i] by blast
  have l: "i \<le> length ?tx" "c0 + length ?tx < cols" using False d(2,4) by auto
  have nl: "CHR 0x0A \<notin> set ?tx" using d(5) set_take_subset [of i tx] set_drop_subset [of "Suc i" tx] by auto
  have "\<exists>s. kbind (erase_rest (t\<lparr>tty_buffer := b\<rparr>)) put_rest = Inr (t\<lparr>tty_buffer := b, tty_con := s\<rparr>) \<and> con_ok w h cols rows (r, c0 + i, line_grid cols r c0 ?tx g) s"
    by (rule redisplay [where g' = "line_grid cols r c0 tx g"])
      (use d b(2) l nl assms(2) line_grid_in [of _ tx c0 cols r g] line_grid_out [of _ r c0 _ cols tx g] in \<open>auto simp: nth_append\<close>)
  then obtain s where s: "kbind (erase_rest (t\<lparr>tty_buffer := b\<rparr>)) put_rest = Inr (t\<lparr>tty_buffer := b, tty_con := s\<rparr>)" "con_ok w h cols rows (r, c0 + i, line_grid cols r c0 ?tx g) s" by blast
  then show ?thesis using b d False l nl by (simp add: delete_forward_def tty_at_def)
qed

lemma delete_back_ok:
  assumes "tty_at w h cols rows r c0 g (tx, i) t" "Suc r < 2 ^ 31"
  shows "\<exists>t'. delete_back t = Inr t' \<and> tty_at w h cols rows r c0 g (edit DelBack (tx, i)) t'"
proof (cases "i = 0")
  case True
  then show ?thesis using assms(1) tty_atD [OF assms(1)] by (simp add: delete_back_def)
next
  case False
  note d = tty_atD [OF assms(1)]
  let ?i = "i - 1"
  let ?tx = "take ?i tx @ drop i tx"
  obtain b where b: "kstring_erase ?i (tty_buffer t) = Inr b" "repr b ?tx" using kstring_updates(5) [OF d(1) d(1), of ?i] False by auto
  have l: "?i \<le> length ?tx" "c0 + length ?tx < cols" "c0 + ?i < cols" using False d(2,4) by auto
  have nl: "CHR 0x0A \<notin> set ?tx" using d(5) set_take_subset [of ?i tx] set_drop_subset [of i tx] by auto
  define t1 where "t1 = t\<lparr>tty_buffer := b, buffer_index := ?i\<rparr>"
  have c1: "con_ok w h cols rows (r, c0 + i, line_grid cols r c0 tx g) (tty_con t1)" using d(6) by (simp add: t1_def)
  have "of_nat (c0 + i) + - 1 = (of_nat (c0 + ?i) :: u32)" using False by (cases i) simp_all
  then obtain s1 where s1: "on_con (move_cursor (- 1) 0) t1 = Inr (t1\<lparr>tty_con := s1\<rparr>)" "con_ok w h cols rows (r, c0 + ?i, line_grid cols r c0 tx g) s1"
    using move_by_ok [OF c1 _ l(3)] by blast
  have "\<exists>s. kbind (erase_rest (t1\<lparr>tty_con := s1\<rparr>)) put_rest = Inr (t1\<lparr>tty_con := s1, tty_con := s\<rparr>) \<and> con_ok w h cols rows (r, c0 + ?i, line_grid cols r c0 ?tx g) s"
    by (rule redisplay [where g' = "line_grid cols r c0 tx g"])
      (use d s1(2) b(2) l nl assms(2) line_grid_in [of _ tx c0 cols r g] line_grid_out [of _ r c0 _ cols tx g] in \<open>auto simp: nth_append t1_def\<close>)
  then obtain s where s: "kbind (erase_rest (t1\<lparr>tty_con := s1\<rparr>)) put_rest = Inr (t1\<lparr>tty_con := s\<rparr>)" "con_ok w h cols rows (r, c0 + ?i, line_grid cols r c0 ?tx g) s" by auto
  have "delete_back t = Inr (t1\<lparr>tty_con := s\<rparr>)" using b(1) s1(1) s(1) d(3) False by (simp add: delete_back_def t1_def)
  moreover have "tty_at w h cols rows r c0 g (edit DelBack (tx, i)) (t1\<lparr>tty_con := s\<rparr>)" using b(2) l nl s(2) d(2) False by (auto simp: tty_at_def t1_def)
  ultimately show ?thesis by blast
qed

text \<open>The four moves.\<close>

lemma moves_ok:
  assumes "tty_at w h cols rows r c0 g (tx, i) t"
  shows "\<exists>t'. move_left t = Inr t' \<and> tty_at w h cols rows r c0 g (edit Left (tx, i)) t'"
    and "\<exists>t'. move_right t = Inr t' \<and> tty_at w h cols rows r c0 g (edit Right (tx, i)) t'"
    and "\<exists>t'. move_to_start t = Inr t' \<and> tty_at w h cols rows r c0 g (edit Home (tx, i)) t'"
    and "\<exists>t'. move_to_end t = Inr t' \<and> tty_at w h cols rows r c0 g (edit End (tx, i)) t'"
proof -
  note d = tty_atD [OF assms]
  have mv: "\<exists>s. on_con (move_cursor dx 0) t1 = Inr (t1\<lparr>tty_con := s\<rparr>) \<and> con_ok w h cols rows (r, c0 + i', line_grid cols r c0 tx g) s"
    if "of_nat i + dx = (of_nat i' :: u32)" "i' \<le> length tx" "tty_con t1 = tty_con t" for dx i' t1
    using move_by_ok [of w h cols rows r "c0 + i" _ t1 dx "c0 + i'"] d(4,6) that by (simp add: add.assoc)
  show "\<exists>t'. move_left t = Inr t' \<and> tty_at w h cols rows r c0 g (edit Left (tx, i)) t'"
  proof (cases "i = 0")
    case False
    then have e: "of_nat i + - 1 = (of_nat (i - 1) :: u32)" "i - 1 \<le> length tx" using d(2) by (cases i, simp_all)
    from mv [OF e, of "t\<lparr>buffer_index := i - 1\<rparr>"] show ?thesis using False d e(2) by (auto simp: move_left_def tty_at_def)
  qed (use assms d in \<open>simp add: move_left_def\<close>)
  show "\<exists>t'. move_right t = Inr t' \<and> tty_at w h cols rows r c0 g (edit Right (tx, i)) t'"
  proof (cases "i < length tx")
    case True
    from mv [of 1 "i + 1" "t\<lparr>buffer_index := i + 1\<rparr>"] show ?thesis using True d by (auto simp: move_right_def tty_at_def add.commute)
  qed (use assms d in \<open>simp add: move_right_def\<close>)
  show "\<exists>t'. move_to_start t = Inr t' \<and> tty_at w h cols rows r c0 g (edit Home (tx, i)) t'"
  proof (cases "i = 0")
    case False
    from mv [of "- of_nat i" 0 t] show ?thesis using False d by (auto simp: move_to_start_def tty_at_def)
  qed (use assms d in \<open>simp add: move_to_start_def\<close>)
  show "\<exists>t'. move_to_end t = Inr t' \<and> tty_at w h cols rows r c0 g (edit End (tx, i)) t'"
  proof (cases "i = length tx")
    case False
    have "of_nat i + of_nat (length tx - i) = (of_nat (length tx) :: u32)" using d(2) by (simp flip: of_nat_add)
    from mv [OF this, of t] show ?thesis using False d by (auto simp: move_to_end_def tty_at_def)
  qed (use assms d in \<open>simp add: move_to_end_def\<close>)
qed

lemma delete_to_end_ok:
  assumes "tty_at w h cols rows r c0 g (tx, i) t"
  shows "\<exists>t'. delete_to_end t = Inr t' \<and> tty_at w h cols rows r c0 g (edit Kill (tx, i)) t'"
proof -
  note d = tty_atD [OF assms]
  obtain b where b: "kstring_truncate i (tty_buffer t) = Inr b" "repr b (take i tx)" using kstring_updates(6) [OF d(1) d(1), of i] by blast
  have c1: "con_ok w h cols rows (r, c0 + i, line_grid cols r c0 tx g) (tty_con (t\<lparr>tty_buffer := b\<rparr>))" using d(6) by simp
  obtain s where s: "erase_rest (t\<lparr>tty_buffer := b\<rparr>) = Inr (t\<lparr>tty_buffer := b, tty_con := s\<rparr>)"
      "con_ok w h cols rows (r, c0 + i, (line_grid cols r c0 tx g)(r := (\<lambda>j. if c0 + i \<le> j \<and> j < cols then CHR '' '' else line_grid cols r c0 tx g r j))) s"
    using erase_rest_ok [OF c1] by blast
  have "(line_grid cols r c0 tx g)(r := (\<lambda>j. if c0 + i \<le> j \<and> j < cols then CHR '' '' else line_grid cols r c0 tx g r j)) = line_grid cols r c0 (take i tx) g"
    using d(2) by (auto simp: line_grid_def fun_eq_iff)
  then have "tty_at w h cols rows r c0 g (edit Kill (tx, i)) (t\<lparr>tty_buffer := b, tty_con := s\<rparr>)"
    using b(2) s(2) d set_take_subset [of i tx] by (auto simp: tty_at_def)
  then show ?thesis using b(1) s(1) d(3) by (auto simp: delete_to_end_def)
qed

section \<open>The history\<close>

lemma texts_nth:
  assumes "texts v us" "i < length us"
  shows "\<exists>k. v_read v i = Inr k \<and> repr k (us ! i)" "v_size v = length us"
proof -
  have v: "vec_ok v" "list_all2 repr (vec_list v) us" using assms(1) by (simp_all add: texts_def)
  then show n: "v_size v = length us" by (metis length_vec_list list_all2_lengthD)
  obtain xs rest where x: "v_data v = map Some xs @ rest" "vec_list v = xs" using vec_repE [OF v(1)] by metis
  have l: "i < length xs" using v(2) x(2) assms(2) by (metis list_all2_lengthD)
  then show "\<exists>k. v_read v i = Inr k \<and> repr k (us ! i)" using v_read_rep [OF x(1) l] v(2) x(2) by (auto simp: list_all2_conv_all_nth)
qed

lemma texts_size: "texts v us \<Longrightarrow> v_size v = length us"
  by (metis length_vec_list list_all2_lengthD texts_def)

definition remember :: "string \<Rightarrow> string list \<Rightarrow> string list" where
  "remember tx hs = (if tx = [] \<or> hs \<noteq> [] \<and> last hs = tx then hs else hs @ [tx])"

lemma add_buffer_history_ok:
  assumes "repr (tty_buffer t) tx" "texts (tty_history t) hs" "NUL \<notin> set tx"
  shows "\<exists>v. add_buffer_history t = Inr (t\<lparr>tty_history := v, history_index := if remember tx hs = hs then history_index t else length (remember tx hs)\<rparr>) \<and> texts v (remember tx hs)"
proof -
  have e: "kstring_empty (tty_buffer t) \<longleftrightarrow> tx = []" by (rule repr_empty [OF assms(1)])
  note n = texts_size [OF assms(2)]
  have h: "kvector_empty (tty_history t) \<longleftrightarrow> hs = []" using n by (simp add: kvector_empty_def)
  have same: "(if kvector_empty (tty_history t) then Inr False else kbind (kvector_back (tty_history t)) (kstring_eq (tty_buffer t))) = Inr (hs \<noteq> [] \<and> last hs = tx)"
  proof (cases "hs = []")
    case False
    then obtain k where k: "v_read (tty_history t) (length hs - 1) = Inr k" "repr k (last hs)" using texts_nth(1) [OF assms(2), of "length hs - 1"] by (auto simp: last_conv_nth)
    then show ?thesis using False h n kstring_queries(3) [OF assms(1) k(2) assms(3), of "[]"] by (auto simp: kvector_back_def)
  qed (use h in simp)
  show ?thesis
  proof (cases "tx = [] \<or> hs \<noteq> [] \<and> last hs = tx")
    case True
    then have "add_buffer_history t = Inr t" using e same by (auto simp: add_buffer_history_def)
    moreover have "remember tx hs = hs" using True by (simp add: remember_def)
    ultimately show ?thesis using assms(2) by (intro exI [of _ "tty_history t"]) simp
  next
    case False
    obtain q v where q: "kstring_copy (tty_buffer t) = Inr q" "kvector_push_back q (tty_history t) = Inr v" "texts v (hs @ [tx])"
      using push_copy_texts [OF assms(2,1)] by blast
    have "add_buffer_history t = Inr (t\<lparr>tty_history := v, history_index := length (hs @ [tx])\<rparr>)"
      unfolding add_buffer_history_def same using e False q texts_size [OF q(3)] by auto
    then show ?thesis using False q(3) by (auto simp: remember_def)
  qed
qed

text \<open>The key \<open>Up\<close> replaces the line by the one before in the history.\<close>

lemma home_kill:
  assumes "tty_at w h cols rows r c0 g (tx, i) t"
  shows "\<exists>t1. kbind (move_to_start t) delete_to_end = Inr t1 \<and> tty_at w h cols rows r c0 g ([], 0) t1 \<and> tty_history t1 = tty_history t \<and> history_index t1 = history_index t"
proof -
  note d = tty_atD [OF assms]
  obtain t0 where t0: "move_to_start t = Inr t0" "tty_at w h cols rows r c0 g (tx, 0) t0" using moves_ok(3) [OF assms] by auto
  obtain t1 where t1: "delete_to_end t0 = Inr t1" "tty_at w h cols rows r c0 g ([], 0) t1" using delete_to_end_ok [OF t0(2)] by auto
  have f0: "tty_history t0 = tty_history t \<and> history_index t0 = history_index t"
    using t0(1) by (auto simp: move_to_start_def on_con_def kbind_Inr_iff split: if_splits)
  have f1: "tty_history t1 = tty_history t0 \<and> history_index t1 = history_index t0"
    using t1(1) by (auto simp: delete_to_end_def erase_rest_def on_con_def kbind_Inr_iff)
  show ?thesis using t0(1) t1 f0 f1 by simp
qed

lemma put_buffer_ok:
  assumes "con_ok w h cols rows (r, c0, line_grid cols r c0 [] g) (tty_con t)" "repr (tty_buffer t) tx" "buffer_index t = length tx" "c0 + length tx < cols"
    "CHR 0x0A \<notin> set tx" "ANSI_ESCAPE \<notin> set tx" "r + length tx < 2 ^ 31 - 1"
  shows "\<exists>s. put_buffer t = Some (Inr (t\<lparr>tty_con := s\<rparr>)) \<and> tty_at w h cols rows r c0 g (tx, length tx) (t\<lparr>tty_con := s\<rparr>)"
proof -
  obtain s where s: "put_kstring (tty_buffer t) (tty_con t) = Some (Inr s)" "con_ok w h cols rows (fold (type_char cols) tx (r, c0, line_grid cols r c0 [] g)) s"
    using put_kstring_plain [OF assms(2,6,1,7)] by blast
  have "(line_grid cols r c0 [] g)(r := \<lambda>j. if c0 \<le> j \<and> j < c0 + length tx then tx ! (j - c0) else line_grid cols r c0 [] g r j) = line_grid cols r c0 tx g"
    using assms(4) by (auto simp: line_grid_def fun_eq_iff)
  then have "con_ok w h cols rows (r, c0 + length tx, line_grid cols r c0 tx g) s" using s(2) type_line [OF assms(5,4), of r] by simp
  then have "tty_at w h cols rows r c0 g (tx, length tx) (t\<lparr>tty_con := s\<rparr>)" using assms(2-5) by (simp add: tty_at_def)
  then show ?thesis using s(1) by (auto simp: put_buffer_def)
qed

lemma buffer_history_up_ok:
  assumes "tty_at w h cols rows r c0 g (tx, i) t" "texts (tty_history t) hs" "history_index t = Suc k" "k < length hs"
    "c0 + length (hs ! k) < cols" "CHR 0x0A \<notin> set (hs ! k)" "ANSI_ESCAPE \<notin> set (hs ! k)" "r + length (hs ! k) < 2 ^ 31 - 1"
  shows "\<exists>t'. buffer_history_up t = Some (Inr t') \<and> tty_at w h cols rows r c0 g (hs ! k, length (hs ! k)) t' \<and> tty_history t' = tty_history t \<and> history_index t' = k"
proof -
  obtain t1 where t1: "kbind (move_to_start t) delete_to_end = Inr t1" "tty_at w h cols rows r c0 g ([], 0) t1" "tty_history t1 = tty_history t" "history_index t1 = history_index t"
    using home_kill [OF assms(1)] by blast
  note d = tty_atD [OF t1(2)]
  obtain l where l: "v_read (tty_history t) k = Inr l" "repr l (hs ! k)" using texts_nth(1) [OF assms(2,4)] by blast
  obtain b where b: "kstring_assign (tty_buffer t1) l = Inr b" "repr b (hs ! k)" using kstring_updates(11) [OF d(1) l(2)] by blast
  define t2 where "t2 = t1\<lparr>history_index := k, tty_buffer := b, buffer_index := ks_len b\<rparr>"
  obtain s where s: "put_buffer t2 = Some (Inr (t2\<lparr>tty_con := s\<rparr>))" "tty_at w h cols rows r c0 g (hs ! k, length (hs ! k)) (t2\<lparr>tty_con := s\<rparr>)"
    using put_buffer_ok [of w h cols rows r c0 g t2 "hs ! k"] d(6) b(2) repr_len [OF b(2)] assms(5-8) by (auto simp: t2_def)
  have ne: "\<not> kvector_empty (tty_history t)" using texts_size [OF assms(2)] assms(4) by (auto simp: kvector_empty_def)
  have "buffer_history_up t = put_buffer t2"
    unfolding buffer_history_up_def t1(1) using ne assms(3) t1(3,4) l(1) b(1) by (simp add: kthen_def t2_def Let_def)
  then show ?thesis using s t1(3) by (simp add: t2_def)
qed

section \<open>Typing a line\<close>

definition typable :: "char \<Rightarrow> bool" where
  "typable c \<longleftrightarrow> c \<noteq> NUL \<and> c \<in> set scancode_to_ascii_table"

definition scan_of :: "char \<Rightarrow> u8" where
  "scan_of c = of_nat (length (takeWhile (\<lambda>x. x \<noteq> c) scancode_to_ascii_table))"

lemma typable_table:
  "list_all (\<lambda>c. c \<noteq> NUL \<longrightarrow> (let i = scan_of c in i < 0x80 \<and> i \<notin> {0x2A, 0x36, 0x1D, 0x38, 0x3A, 0x60} \<and> scancode_to_ascii i False = c \<and> c \<noteq> CHR 0x0A \<and> c \<noteq> ANSI_ESCAPE)) scancode_to_ascii_table"
  by code_simp

lemma typable:
  assumes "typable c"
  shows "scan_of c < 0x80" "\<not> modifier (scan_of c)" "scan_of c \<noteq> 0x60" "scancode_to_ascii (scan_of c) False = c" "c \<noteq> CHR 0x0A" "c \<noteq> ANSI_ESCAPE" "c \<noteq> NUL"
  using typable_table assms by (auto simp: typable_def list_all_iff Let_def modifier_def scan_defs)

text \<open>A character at the end of the line: the rest of the row is erased, and the character typed.\<close>

definition echo_char :: "nat \<Rightarrow> char \<Rightarrow> nat \<times> nat \<times> (nat \<Rightarrow> nat \<Rightarrow> char) \<Rightarrow> nat \<times> nat \<times> (nat \<Rightarrow> nat \<Rightarrow> char)" where
  "echo_char cols ch = (\<lambda>(r, c, g). type_char cols ch (r, c, g(r := (\<lambda>j. if c \<le> j \<and> j < cols then CHR '' '' else g r j))))"

lemma con_ok_redraw:
  assumes "con_ok w h cols rows p s"
  shows "\<exists>s'. console_redraw d s = Inr s' \<and> con_ok w h cols rows p s'"
proof -
  obtain r c g where p: "p = (r, c, g)" by (metis prod_cases3)
  obtain v where "con_at w h cols rows r c v g s" "r < v + rows" "c < cols" using assms p by (auto simp: con_ok_def)
  then show ?thesis using console_redraw_ok [of w h cols rows r c v g s d] p con_okI by blast
qed

text \<open>The state of the terminal after typing at the end of the line.\<close>

definition typed :: "nat \<Rightarrow> nat \<Rightarrow> nat \<Rightarrow> nat \<Rightarrow> nat \<times> nat \<times> (nat \<Rightarrow> nat \<Rightarrow> char) \<Rightarrow> string \<Rightarrow> tty \<Rightarrow> tty \<Rightarrow> bool" where
  "typed w h cols rows p tx t0 t \<longleftrightarrow> repr (tty_buffer t) tx \<and> buffer_index t = length tx \<and> con_ok w h cols rows p (tty_con t) \<and>
     tty_history t = tty_history t0 \<and> history_index t = history_index t0"

lemma insert_end:
  assumes "typed w h cols rows (r, c, g) tx t0 t" "Suc r < 2 ^ 31"
  shows "\<exists>t'. insert_char ch t = Inr t' \<and> typed w h cols rows (echo_char cols ch (r, c, g)) (tx @ [ch]) t0 t'"
proof -
  have d: "repr (tty_buffer t) tx" "buffer_index t = length tx" "con_ok w h cols rows (r, c, g) (tty_con t)" using assms(1) by (simp_all add: typed_def)
  obtain b where b: "kstring_insert (length tx) ch (tty_buffer t) = Inr b" "repr b (tx @ [ch])" using kstring_insert_cases(3) [OF d(1) refl] by blast
  define t1 where "t1 = t\<lparr>tty_buffer := b, buffer_index := length tx + 1\<rparr>"
  have c1: "con_ok w h cols rows (r, c, g) (tty_con t1)" using d(3) by (simp add: t1_def)
  obtain s1 where s1: "erase_rest t1 = Inr (t1\<lparr>tty_con := s1\<rparr>)" "con_ok w h cols rows (r, c, g(r := (\<lambda>j. if c \<le> j \<and> j < cols then CHR '' '' else g r j))) s1"
    using erase_rest_ok [OF c1] by blast
  obtain s2 where s2: "put_char ch s1 = Inr s2" "con_ok w h cols rows (echo_char cols ch (r, c, g)) s2"
    using put_char_ok [OF s1(2) assms(2), of ch] by (auto simp: echo_char_def)
  have p: "put_rest (t1\<lparr>tty_con := s2\<rparr>) = Inr (t1\<lparr>tty_con := s2\<rparr>)"
    using repr_len [OF b(2)] by (simp add: put_rest_def t1_def kfor.simps on_con_def move_cursor_def set_cursor_def CALL_DEPTH_def numeral_eq_Suc)
  have "insert_char ch t = Inr (t1\<lparr>tty_con := s2\<rparr>)" using b(1) d(2) s1(1) s2(1) p by (simp add: insert_char_def t1_def on_con_def)
  moreover have "typed w h cols rows (echo_char cols ch (r, c, g)) (tx @ [ch]) t0 (t1\<lparr>tty_con := s2\<rparr>)"
    using b(2) s2(2) assms(1) by (simp add: typed_def t1_def)
  ultimately show ?thesis by blast
qed

lemma echo_row: "fst (echo_char cols ch p) \<le> Suc (fst p)"
  using type_char_row by (cases p) (fastforce simp: echo_char_def)

definition key_events :: "char \<Rightarrow> KeyEvent list" where
  "key_events c = [plain_event (scan_of c) False, plain_event (scan_of c) True]"

lemma type_event:
  assumes "typed w h cols rows p tx t0 t" "typable ch" "Suc (fst p) < 2 ^ 31"
  shows "\<exists>t'. tty_events n (key_events ch @ es) t = tty_events n es t' \<and> typed w h cols rows (echo_char cols ch p) (tx @ [ch]) t0 t'"
proof -
  obtain r c g where p: "p = (r, c, g)" by (metis prod_cases3)
  obtain t1 where t1: "insert_char ch t = Inr t1" "typed w h cols rows (echo_char cols ch p) (tx @ [ch]) t0 t1"
    using insert_end [of w h cols rows r c g tx t0 t ch] assms(1,3) p by auto
  obtain s2 where s2: "console_redraw False (tty_con t1) = Inr s2" "con_ok w h cols rows (echo_char cols ch p) s2" using con_ok_redraw t1(2) by (metis typed_def)
  have "tty_event n (plain_event (scan_of ch) False) t = Some (Inr (None, t1\<lparr>tty_con := s2\<rparr>))"
    using typable(4,7) [OF assms(2)] t1(1) s2(1) by (simp add: tty_event_def plain_event_def Let_def on_con_def)
  moreover have "tty_event n (plain_event (scan_of ch) True) t' = Some (Inr (None, t'))" for t' by (simp add: tty_event_def plain_event_def)
  ultimately have "tty_events n (key_events ch @ es) t = tty_events n es (t1\<lparr>tty_con := s2\<rparr>)" by (simp add: key_events_def kthen_def)
  moreover have "typed w h cols rows (echo_char cols ch p) (tx @ [ch]) t0 (t1\<lparr>tty_con := s2\<rparr>)" using t1(2) s2(2) by (simp add: typed_def)
  ultimately show ?thesis by blast
qed

lemma type_events:
  assumes "typed w h cols rows p tx t0 t" "\<forall>c \<in> set cs. typable c" "fst p + length cs < 2 ^ 31 - 1"
  shows "\<exists>t'. tty_events n (concat (map key_events cs) @ es) t = tty_events n es t' \<and> typed w h cols rows (fold (echo_char cols) cs p) (tx @ cs) t0 t'"
  using assms
proof (induction cs arbitrary: p tx t)
  case (Cons a cs)
  have "typable a" "Suc (fst p) < 2 ^ 31" using Cons.prems by auto
  then obtain t1 where t1: "tty_events n (key_events a @ concat (map key_events cs) @ es) t = tty_events n (concat (map key_events cs) @ es) t1"
      "typed w h cols rows (echo_char cols a p) (tx @ [a]) t0 t1"
    using type_event [OF Cons.prems(1)] by metis
  have "\<forall>c \<in> set cs. typable c" "fst (echo_char cols a p) + length cs < 2 ^ 31 - 1" using Cons.prems echo_row [of cols a p] by auto
  from Cons.IH [OF t1(2) this] show ?case using t1(1) by simp
qed auto

lemma enter_code: "scancode_to_ascii (ScanCode ''Enter'') caps = NUL" "(ScanCode ''Enter'') \<noteq> (ScanCode ''Backspace'')"
proof -
  have "scancode_to_ascii_table ! 28 = NUL" by code_simp
  then show "scancode_to_ascii (ScanCode ''Enter'') caps = NUL" by (simp add: scancode_to_ascii_def scan_defs NUL_def)
qed (simp add: scan_defs)

lemma enter_event:
  assumes "typed w h cols rows p tx t0 t" "texts (tty_history t0) hs" "NUL \<notin> set tx" "Suc (fst p) < 2 ^ 31"
  shows "\<exists>t'. tty_events n (plain_event (ScanCode ''Enter'') False # es) t = Some (Inr (Line (length tx) (take n tx) t' es)) \<and>
    texts (tty_history t') (remember tx hs) \<and> con_ok w h cols rows (type_char cols CHR 0x0A p) (tty_con t')"
proof -
  obtain r c g where p: "p = (r, c, g)" by (metis prod_cases3)
  have d: "repr (tty_buffer t) tx" "con_ok w h cols rows (r, c, g) (tty_con t)" "texts (tty_history t) hs" using assms(1,2) p by (simp_all add: typed_def)
  obtain v i where v: "add_buffer_history t = Inr (t\<lparr>tty_history := v, history_index := i\<rparr>)" "texts v (remember tx hs)" using add_buffer_history_ok [OF d(1,3) assms(3)] by blast
  obtain s where s: "newline (tty_con t) = Inr s" "con_ok w h cols rows (Suc r, 0, g) s" using newline_ok [OF d(2)] assms(4) p by auto
  have rl: "rd_list (tty_buffer t) 0 (if length tx > n then n else length tx) = Inr (take n tx)"
  proof (cases "tx = []")
    case False
    then show ?thesis using rd_list_repr [OF d(1) False, of 0 "if length tx > n then n else length tx"] by auto
  qed simp
  have "tty_event n (plain_event (ScanCode ''Enter'') False) t = Some (Inr (Some (length tx, take n tx), t\<lparr>tty_history := v, history_index := i, tty_con := s\<rparr>))"
    using enter_code v(1) s(1) rl repr_len [OF d(1)] by (cases "n < length tx") (simp_all add: tty_event_def plain_event_def Let_def on_con_def)
  then have "tty_events n (plain_event (ScanCode ''Enter'') False # es) t = Some (Inr (Line (length tx) (take n tx) (t\<lparr>tty_history := v, history_index := i, tty_con := s\<rparr>) es))"
    by (simp add: kthen_def)
  then show ?thesis using v(2) s(2) p by (auto simp: type_char_def)
qed

lemma fold_echo_row: "fst (fold (echo_char cols) cs p) \<le> fst p + length cs"
proof (induction cs arbitrary: p)
  case (Cons a cs)
  from Cons.IH [of "echo_char cols a p"] echo_row [of cols a p] show ?case by simp
qed simp

section \<open>Properties\<close>

text \<open>A console of two lines of twelve characters.\<close>

definition fb2 :: framebuffer where
  "fb2 = fb_init [] \<lparr>fbi_width = 100, fbi_height = 40, fbi_pitch = 400, fbi_bpp = 32, fbi_vram = replicate 16000 0\<rparr>
     \<lparr>fb_width = 0, fb_height = 0, fb_num_pixels = 0, fb_pitch = 0, fb_bpp = 0, vram = [], vram_size = 0, vram_buff = [], needs_redraw = False, redraw_times = []\<rparr>"

definition tty2 :: tty where
  "tty2 = tty_new (ensure_valid_cursor_buffer_pos 0 0 (console_init (console_static fb2)))"

lemma tty2_ok: "con_ok 100 40 12 2 (0, 0, \<lambda>_ _. CHR '' '') (tty_con tty2)"
proof -
  have f: "fb_ok 100 40 fb2" unfolding fb2_def by (rule fb_init_ok) simp_all
  have z: "get_screen_width fb2 div of_nat (font_width Font8x16) = 12" "get_screen_height fb2 div of_nat (font_height Font8x16) = 2"
    using f by (simp_all add: get_screen_width_def get_screen_height_def fb_ok_def Font8x16_simps)
  have "con_at 100 40 12 2 0 0 0 (\<lambda>_ _. CHR '' '') (tty_con tty2)" unfolding tty2_def console_init_def
    using f z by (simp add: tty_new_def con_at_def ensure_valid_cursor_buffer_pos_def Let_def console_static_def pad_to_eq has_def cell_def fun_eq_iff)
  then show ?thesis by (rule con_okI) simp_all
qed

lemma tty2_at: "tty_at 100 40 12 2 0 0 (\<lambda>_ _. CHR '' '') ([], 0) tty2"
proof -
  have "line_grid 12 0 0 [] (\<lambda>_ _. CHR '' '') = (\<lambda>_ _. CHR '' '')" by (auto simp: line_grid_def fun_eq_iff)
  then show ?thesis using tty2_ok by (simp add: tty_at_def) (simp add: tty2_def tty_new_def)
qed





end
