(* ===== verification/Vfs.thy ===== *)
theory Vfs
  imports Tty
begin

text \<open>
  The virtual file system (\<^verbatim>\<open>include/fs/fs.hpp\<close>, \<^verbatim>\<open>lib/fs/fs.cpp\<close>) and the four file systems that are mounted in it: \<^verbatim>\<open>tmpfs\<close>,
  \<^verbatim>\<open>devfs\<close>, \<^verbatim>\<open>procfs\<close> and the inodes of \<^verbatim>\<open>initramfs\<close> (its archive is read in the theory of that name).

  Inodes and mount points are objects in an explicit store: a pointer is an address, \<open>None\<close> the null pointer, and following a pointer to
  nothing is a \<open>Fault\<close>. The class of an object is a constructor, so that a virtual call is a case distinction and a \<^verbatim>\<open>static_cast\<close> to a class the object does not have is a
  \<open>Fault\<close>. Members that a constructor leaves uninitialised keep what the memory held before, \<open>raw_inode\<close> and \<open>raw_mount\<close>. Names and paths are the texts of the
  \<^verbatim>\<open>kstring\<close>s, and the parts of a path are those that \<^verbatim>\<open>algo::split\<close> gives (\<open>path_tokens_split\<close>); the contents of a
  file of \<^verbatim>\<open>tmpfs\<close> is the vector of the theory \<open>Kvector\<close>. The spin lock of \<^verbatim>\<open>register_mount\<close> is not modelled: the operations here run one after the other.
\<close>

section \<open>Data\<close>

datatype FileType = NONE | REGULAR | DIRECTORY | CHAR_DEVICE

primrec FileType_code :: "FileType \<Rightarrow> u8" where
  "FileType_code NONE = 0"
| "FileType_code REGULAR = 1"
| "FileType_code DIRECTORY = 2"
| "FileType_code CHAR_DEVICE = 3"

definition O_RDONLY :: int where "O_RDONLY = 0"
definition SEEK_SET :: int where "SEEK_SET = 0"
definition SEEK_CUR :: int where "SEEK_CUR = 1"
definition SEEK_END :: int where "SEEK_END = 2"

definition EPERM :: int where "EPERM = 1"
definition ENOENT :: int where "ENOENT = 2"
definition EBADF :: int where "EBADF = 9"
definition ENOTDIR :: int where "ENOTDIR = 20"
definition EISDIR :: int where "EISDIR = 21"
definition EINVAL :: int where "EINVAL = 22"
definition EROFS :: int where "EROFS = 30"
definition ERANGE :: int where "ERANGE = 34"

type_synonym iptr = nat
type_synonym mptr = nat
type_synonym fdptr = nat

record Stat =
  st_type :: FileType
  st_size :: u64

record DirEntry =
  de_name :: string
  de_type :: FileType

record FileDescriptor =
  fd_inode :: "iptr option"
  fd_path :: string
  fd_offset :: u64
  fd_flags :: int

datatype inode_class = TmpFileInode "u8 kvector" | TmpDirectoryInode | InitramfsDirectoryInode | InitramfsFileInode u64
  | DevDirectoryInode | DevNullInode | DevTtyInode tty | ProcDirectoryInode | ProcSelfInode

text \<open>An inode; \<open>i_children\<close> is the member of a \<^verbatim>\<open>DirectoryInode\<close>.\<close>

record inode =
  i_mountpoint :: mptr
  i_parent :: "iptr option"
  i_ino :: u64
  i_size :: u64
  i_type :: FileType
  i_name :: string
  i_children :: "iptr list"
  i_class :: inode_class

datatype mount_class = TmpMountPoint int | InitramfsMountPoint int | DevMountPoint iptr iptr iptr | ProcMountPoint iptr

record mount_point =
  mp_path :: string
  mounted_on :: "iptr option"
  root_inode :: iptr
  mp_class :: mount_class

datatype filesystem = TmpFileSystem | DevFileSystem | ProcFileSystem | InitramfsFileSystem

text \<open>\<open>boot_mem\<close> is the memory of the modules the boot loader has loaded, \<open>kbd\<close> the key events that wait.\<close>

record vfs =
  inodes :: "iptr \<Rightarrow> inode option"
  mounts :: "mptr \<Rightarrow> mount_point option"
  fds :: "fdptr \<Rightarrow> FileDescriptor option"
  next_obj :: nat
  raw_inode :: "iptr \<Rightarrow> inode"
  raw_mount :: "mptr \<Rightarrow> mount_point"
  g_root_mountpoint :: "mptr option"
  g_mountpoints :: "mptr list"
  boot_mem :: "u64 \<Rightarrow> u8 option"
  g_console :: console
  kbd :: "KeyEvent list"

definition inode_at :: "vfs \<Rightarrow> iptr option \<Rightarrow> inode kres" where
  "inode_at v p = (case p of None \<Rightarrow> Inl (Fault ''null inode'') | Some i \<Rightarrow> (case inodes v i of None \<Rightarrow> Inl (Fault ''bad inode'') | Some n \<Rightarrow> Inr n))"

definition mount_at :: "vfs \<Rightarrow> mptr \<Rightarrow> mount_point kres" where
  "mount_at v m = (case mounts v m of None \<Rightarrow> Inl (Fault ''bad mount point'') | Some p \<Rightarrow> Inr p)"

definition set_inode :: "iptr \<Rightarrow> inode \<Rightarrow> vfs \<Rightarrow> vfs" where
  "set_inode i n v = v\<lparr>inodes := (inodes v)(i \<mapsto> n)\<rparr>"

definition set_mount :: "mptr \<Rightarrow> mount_point \<Rightarrow> vfs \<Rightarrow> vfs" where
  "set_mount m p v = v\<lparr>mounts := (mounts v)(m \<mapsto> p)\<rparr>"

text \<open>\<^verbatim>\<open>new\<close>: the constructor runs on the memory at a fresh address.\<close>

definition new_inode :: "(inode \<Rightarrow> inode) \<Rightarrow> vfs \<Rightarrow> iptr \<times> vfs" where
  "new_inode ctor v = (next_obj v, set_inode (next_obj v) (ctor (raw_inode v (next_obj v))) (v\<lparr>next_obj := next_obj v + 1\<rparr>))"

definition new_mount :: "(mount_point \<Rightarrow> mount_point) \<Rightarrow> vfs \<Rightarrow> mptr \<times> vfs" where
  "new_mount ctor v = (next_obj v, set_mount (next_obj v) (ctor (raw_mount v (next_obj v))) (v\<lparr>next_obj := next_obj v + 1\<rparr>))"

definition Inode_ctor :: "mptr \<Rightarrow> inode \<Rightarrow> inode" where
  "Inode_ctor mp raw = raw\<lparr>i_mountpoint := mp, i_name := []\<rparr>"

definition DirectoryInode_ctor :: "mptr \<Rightarrow> inode \<Rightarrow> inode" where
  "DirectoryInode_ctor mp raw = (Inode_ctor mp raw)\<lparr>i_children := [], i_type := DIRECTORY, i_size := 0\<rparr>"

text \<open>The conversion of a \<^verbatim>\<open>size_t\<close> to the result type \<^verbatim>\<open>int\<close>.\<close>

definition int_of_size :: "u64 \<Rightarrow> int" where
  "int_of_size n = sint (ucast n :: 32 word)"

section \<open>The files and directories of tmpfs\<close>

text \<open>\<^verbatim>\<open>static_cast<TmpMountPoint*>(mp)->next_ino++\<close>\<close>

definition tmp_next_ino :: "mptr \<Rightarrow> vfs \<Rightarrow> (int \<times> vfs) kres" where
  "tmp_next_ino m v = kbind (mount_at v m) (\<lambda>p. case mp_class p of
     TmpMountPoint n \<Rightarrow> Inr (n, set_mount m (p\<lparr>mp_class := TmpMountPoint (n + 1)\<rparr>) v) | _ \<Rightarrow> Inl (Fault ''bad cast''))"

definition TmpDirectoryInode_root :: "mptr \<Rightarrow> inode \<Rightarrow> inode" where
  "TmpDirectoryInode_root mp raw = (DirectoryInode_ctor mp raw)\<lparr>i_name := [], i_parent := None, i_class := TmpDirectoryInode\<rparr>"

definition TmpMountPoint_new :: "vfs \<Rightarrow> (mptr \<times> vfs) kres" where
  "TmpMountPoint_new v = (let (m, v) = new_mount (\<lambda>raw. raw\<lparr>mp_class := TmpMountPoint 1\<rparr>) v;
     (i, v) = new_inode (TmpDirectoryInode_root m) v in
     kbind (mount_at v m) (\<lambda>p. let v = set_mount m (p\<lparr>root_inode := i\<rparr>) v in
     kbind (tmp_next_ino m v) (\<lambda>(n, v). kbind (inode_at v (Some i)) (\<lambda>r.
     Inr (m, set_inode i (r\<lparr>i_ino := word_of_int n\<rparr>) v)))))"

definition TmpFileInode_new :: "string \<Rightarrow> iptr \<Rightarrow> vfs \<Rightarrow> (iptr \<times> vfs) kres" where
  "TmpFileInode_new name parent v = kbind (inode_at v (Some parent)) (\<lambda>p. kbind (tmp_next_ino (i_mountpoint p) v) (\<lambda>(n, v).
     Inr (new_inode (\<lambda>raw. (Inode_ctor (i_mountpoint p) raw)\<lparr>i_name := name, i_type := REGULAR, i_parent := Some parent, i_ino := word_of_int n,
       i_size := 0, i_class := TmpFileInode kvector_new\<rparr>) v)))"

definition TmpDirectoryInode_new :: "string \<Rightarrow> iptr \<Rightarrow> vfs \<Rightarrow> (iptr \<times> vfs) kres" where
  "TmpDirectoryInode_new name parent v = kbind (inode_at v (Some parent)) (\<lambda>p. kbind (tmp_next_ino (i_mountpoint p) v) (\<lambda>(n, v).
     Inr (new_inode (\<lambda>raw. (DirectoryInode_ctor (i_mountpoint p) raw)\<lparr>i_name := name, i_parent := Some parent, i_ino := word_of_int n,
       i_class := TmpDirectoryInode\<rparr>) v)))"

definition TmpFileInode_write :: "u8 list \<Rightarrow> FileDescriptor \<Rightarrow> u8 kvector \<Rightarrow> (int \<times> FileDescriptor \<times> u8 kvector) kres" where
  "TmpFileInode_write buff fd data = (let count = of_nat (length buff) in
     kbind (kvector_resize 0 (unat (fd_offset fd + count)) data) (\<lambda>data.
     kbind (kfor 0 (length buff) (\<lambda>i (fd, data). kbind (v_write (unat (fd_offset fd)) (buff ! i) data) (\<lambda>data.
       Inr (fd\<lparr>fd_offset := fd_offset fd + 1\<rparr>, data))) (fd, data)) (\<lambda>(fd, data).
     Inr (int_of_size count, fd, data))))"

definition TmpFileInode_read :: "u64 \<Rightarrow> FileDescriptor \<Rightarrow> u8 kvector \<Rightarrow> (int \<times> u8 list \<times> FileDescriptor) kres" where
  "TmpFileInode_read n fd data = (if unat (fd_offset fd) \<ge> v_size data then Inr (0, [], fd)
     else let available = of_nat (v_size data) - fd_offset fd; to_read = (if n < available then n else available) in
       kbind (kfor 0 (unat to_read) (\<lambda>i (fd, buff). kbind (v_read data (unat (fd_offset fd))) (\<lambda>b.
         Inr (fd\<lparr>fd_offset := fd_offset fd + 1\<rparr>, buff @ [b]))) (fd, [])) (\<lambda>(fd, buff).
       Inr (int_of_size to_read, buff, fd)))"

definition TmpFileInode_lseek :: "int \<Rightarrow> int \<Rightarrow> u64 \<Rightarrow> FileDescriptor \<Rightarrow> int \<times> FileDescriptor" where
  "TmpFileInode_lseek offset whence sz fd =
    (if whence = SEEK_SET then (if offset < 0 then (- EINVAL, fd) else (0, fd\<lparr>fd_offset := word_of_int offset\<rparr>))
     else if whence = SEEK_CUR then (if sint (fd_offset fd) + offset < 0 then (- EINVAL, fd) else (0, fd\<lparr>fd_offset := fd_offset fd + word_of_int offset\<rparr>))
     else if whence = SEEK_END then (if sint sz + offset < 0 then (- EINVAL, fd) else (0, fd\<lparr>fd_offset := sz + word_of_int offset\<rparr>))
     else (- EINVAL, fd))"

text \<open>The loop of \<^verbatim>\<open>lookup\<close> over the children, the same in tmpfs and in initramfs.\<close>

fun find_child :: "vfs \<Rightarrow> string \<Rightarrow> iptr list \<Rightarrow> iptr option kres" where
  "find_child v name [] = Inr None"
| "find_child v name (c # cs) = kbind (inode_at v (Some c)) (\<lambda>n. if i_name n = name then Inr (Some c) else find_child v name cs)"

definition TmpDirectoryInode_lookup :: "vfs \<Rightarrow> inode \<Rightarrow> string \<Rightarrow> iptr option kres" where
  "TmpDirectoryInode_lookup v d name = find_child v name (i_children d)"

fun child_entries :: "vfs \<Rightarrow> iptr list \<Rightarrow> DirEntry list kres" where
  "child_entries v [] = Inr []"
| "child_entries v (c # cs) = kbind (inode_at v (Some c)) (\<lambda>n. kbind (child_entries v cs) (\<lambda>es. Inr (\<lparr>de_name = i_name n, de_type = i_type n\<rparr> # es)))"

definition TmpDirectoryInode_readdir :: "vfs \<Rightarrow> inode \<Rightarrow> DirEntry list \<Rightarrow> (int \<times> DirEntry list) kres" where
  "TmpDirectoryInode_readdir v d entries = kbind (child_entries v (i_children d)) (\<lambda>es. Inr (int (length (i_children d)), entries @ es))"

definition add_child :: "iptr \<Rightarrow> iptr \<Rightarrow> vfs \<Rightarrow> vfs kres" where
  "add_child d c v = kbind (inode_at v (Some d)) (\<lambda>n. Inr (set_inode d (n\<lparr>i_children := i_children n @ [c]\<rparr>) v))"

definition TmpDirectoryInode_mkdir :: "string \<Rightarrow> iptr \<Rightarrow> vfs \<Rightarrow> (int \<times> vfs) kres" where
  "TmpDirectoryInode_mkdir name d v = kbind (inode_at v (Some d)) (\<lambda>n. kbind (TmpDirectoryInode_lookup v n name) (\<lambda>existing.
     if existing \<noteq> None then Inr (- 1, v)
     else kbind (TmpDirectoryInode_new name d v) (\<lambda>(c, v). kbind (add_child d c v) (\<lambda>v. Inr (0, v)))))"

definition TmpDirectoryInode_create :: "string \<Rightarrow> iptr \<Rightarrow> vfs \<Rightarrow> (int \<times> vfs) kres" where
  "TmpDirectoryInode_create name d v = kbind (inode_at v (Some d)) (\<lambda>n. kbind (TmpDirectoryInode_lookup v n name) (\<lambda>existing.
     if existing \<noteq> None then Inr (- 1, v)
     else kbind (TmpFileInode_new name d v) (\<lambda>(c, v). kbind (add_child d c v) (\<lambda>v. Inr (0, v)))))"

section \<open>initramfs\<close>

definition InitramfsDirectoryInode_ctor :: "mptr \<Rightarrow> inode \<Rightarrow> inode" where
  "InitramfsDirectoryInode_ctor mp raw = (DirectoryInode_ctor mp raw)\<lparr>i_mountpoint := mp, i_type := DIRECTORY, i_class := InitramfsDirectoryInode\<rparr>"

definition InitramfsFileInode_ctor :: "mptr \<Rightarrow> u64 \<Rightarrow> inode \<Rightarrow> inode" where
  "InitramfsFileInode_ctor mp data raw = (Inode_ctor mp raw)\<lparr>i_type := REGULAR, i_class := InitramfsFileInode data\<rparr>"

definition InitramfsDirectoryInode_lookup :: "vfs \<Rightarrow> inode \<Rightarrow> string \<Rightarrow> iptr option kres" where
  "InitramfsDirectoryInode_lookup v d name = find_child v name (i_children d)"

definition InitramfsDirectoryInode_readdir :: "vfs \<Rightarrow> inode \<Rightarrow> DirEntry list \<Rightarrow> (int \<times> DirEntry list) kres" where
  "InitramfsDirectoryInode_readdir v d entries = kbind (child_entries v (i_children d)) (\<lambda>es. Inr (int (length (i_children d)), entries @ es))"

fun boot_bytes :: "vfs \<Rightarrow> u64 \<Rightarrow> nat \<Rightarrow> u8 list kres" where
  "boot_bytes v a 0 = Inr []"
| "boot_bytes v a (Suc n) = (case boot_mem v a of None \<Rightarrow> Inl (Fault ''past the module'') | Some b \<Rightarrow> kbind (boot_bytes v (a + 1) n) (\<lambda>bs. Inr (b # bs)))"

definition InitramfsFileInode_read :: "vfs \<Rightarrow> u64 \<Rightarrow> u64 \<Rightarrow> (int \<times> u8 list) kres" where
  "InitramfsFileInode_read v tar_data n = kbind (boot_bytes v tar_data (unat n)) (\<lambda>bs. Inr (int_of_size n, bs))"

section \<open>devfs and procfs\<close>

definition DEV_ROOT_INO :: u64 where "DEV_ROOT_INO = 1"
definition DEV_NULL_INO :: u64 where "DEV_NULL_INO = 2"
definition DEV_TTY1_INO :: u64 where "DEV_TTY1_INO = 3"
definition DEV_TTY2_INO :: u64 where "DEV_TTY2_INO = 4"

definition DevDirectoryInode_ctor :: "mptr \<Rightarrow> u64 \<Rightarrow> inode \<Rightarrow> inode" where
  "DevDirectoryInode_ctor mp n raw = (DirectoryInode_ctor mp raw)\<lparr>i_ino := n, i_class := DevDirectoryInode\<rparr>"

definition DevNullInode_ctor :: "mptr \<Rightarrow> iptr \<Rightarrow> u64 \<Rightarrow> inode \<Rightarrow> inode" where
  "DevNullInode_ctor mp parent n raw = (Inode_ctor mp raw)\<lparr>i_type := CHAR_DEVICE, i_parent := Some parent, i_ino := n, i_class := DevNullInode\<rparr>"

definition DevTtyInode_ctor :: "console \<Rightarrow> mptr \<Rightarrow> iptr \<Rightarrow> u64 \<Rightarrow> inode \<Rightarrow> inode" where
  "DevTtyInode_ctor con mp parent n raw = (Inode_ctor mp raw)\<lparr>i_type := CHAR_DEVICE, i_parent := Some parent, i_ino := n, i_class := DevTtyInode (tty_new con)\<rparr>"

definition DevDirectoryInode_lookup :: "vfs \<Rightarrow> inode \<Rightarrow> string \<Rightarrow> iptr option kres" where
  "DevDirectoryInode_lookup v d name = kbind (mount_at v (i_mountpoint d)) (\<lambda>p. case mp_class p of
     DevMountPoint null t1 t2 \<Rightarrow> Inr (if name = ''null'' then Some null else if name = ''tty1'' then Some t1 else if name = ''tty2'' then Some t2 else None)
   | _ \<Rightarrow> Inl (Fault ''bad cast''))"

definition DevDirectoryInode_readdir :: "DirEntry list \<Rightarrow> int \<times> DirEntry list" where
  "DevDirectoryInode_readdir entries = (let entries = entries @ map (\<lambda>n. \<lparr>de_name = n, de_type = CHAR_DEVICE\<rparr>) [''null'', ''tty1'', ''tty2''] in
     (int (length entries), entries))"

definition DevMountPoint_new :: "vfs \<Rightarrow> (mptr \<times> vfs) kres" where
  "DevMountPoint_new v = (let (m, v) = new_mount id v;
     (r, v) = new_inode (DevDirectoryInode_ctor m DEV_ROOT_INO) v;
     (null, v) = new_inode (DevNullInode_ctor m r DEV_NULL_INO) v;
     (t1, v) = new_inode (DevTtyInode_ctor (g_console v) m r DEV_TTY1_INO) v;
     (t2, v) = new_inode (DevTtyInode_ctor (g_console v) m r DEV_TTY2_INO) v in
     kbind (mount_at v m) (\<lambda>p. Inr (m, set_mount m (p\<lparr>root_inode := r, mp_class := DevMountPoint null t1 t2\<rparr>) v)))"

definition PROCFS_ROOT_INODE :: u64 where "PROCFS_ROOT_INODE = 1"

definition ProcDirectoryInode_ctor :: "mptr \<Rightarrow> u64 \<Rightarrow> inode \<Rightarrow> inode" where
  "ProcDirectoryInode_ctor mp n raw = (DirectoryInode_ctor mp raw)\<lparr>i_ino := n, i_class := ProcDirectoryInode\<rparr>"

definition ProcSelfInode_ctor :: "mptr \<Rightarrow> iptr \<Rightarrow> u64 \<Rightarrow> inode \<Rightarrow> inode" where
  "ProcSelfInode_ctor mp parent n raw = (Inode_ctor mp raw)\<lparr>i_type := CHAR_DEVICE, i_parent := Some parent, i_ino := n, i_class := ProcSelfInode\<rparr>"

definition ProcDirectoryInode_lookup :: "vfs \<Rightarrow> inode \<Rightarrow> string \<Rightarrow> iptr option kres" where
  "ProcDirectoryInode_lookup v d name = kbind (mount_at v (i_mountpoint d)) (\<lambda>p. case mp_class p of
     ProcMountPoint self \<Rightarrow> Inr (if name = ''self'' then Some self else None) | _ \<Rightarrow> Inl (Fault ''bad cast''))"

definition ProcDirectoryInode_readdir :: "DirEntry list \<Rightarrow> int \<times> DirEntry list" where
  "ProcDirectoryInode_readdir entries = (let entries = entries @ [\<lparr>de_name = ''self'', de_type = REGULAR\<rparr>] in (int (length entries), entries))"

definition ProcMountPoint_new :: "vfs \<Rightarrow> (mptr \<times> vfs) kres" where
  "ProcMountPoint_new v = (let (m, v) = new_mount id v;
     (r, v) = new_inode (ProcDirectoryInode_ctor m PROCFS_ROOT_INODE) v;
     (self, v) = new_inode (ProcSelfInode_ctor m r (PROCFS_ROOT_INODE + 1)) v in
     kbind (mount_at v m) (\<lambda>p. Inr (m, set_mount m (p\<lparr>root_inode := r, mp_class := ProcMountPoint self\<rparr>) v)))"

text \<open>What \<^verbatim>\<open>/proc/self\<close> gives: \<open>self\<close> is what \<^verbatim>\<open>to_string\<close> says of the current process.\<close>

definition ProcSelfInode_read :: "string \<Rightarrow> u64 \<Rightarrow> int \<times> u8 list" where
  "ProcSelfInode_read self n = (int_of_size (of_nat (length self)), map of_char (take (min (length self) (unat n)) self))"

section \<open>Virtual calls\<close>

definition inode_lookup :: "vfs \<Rightarrow> iptr option \<Rightarrow> string \<Rightarrow> iptr option kres" where
  "inode_lookup v p name = kbind (inode_at v p) (\<lambda>n. case i_class n of
     TmpDirectoryInode \<Rightarrow> TmpDirectoryInode_lookup v n name
   | InitramfsDirectoryInode \<Rightarrow> InitramfsDirectoryInode_lookup v n name
   | DevDirectoryInode \<Rightarrow> DevDirectoryInode_lookup v n name
   | ProcDirectoryInode \<Rightarrow> ProcDirectoryInode_lookup v n name
   | _ \<Rightarrow> Inr None)"

definition inode_readdir :: "vfs \<Rightarrow> inode \<Rightarrow> DirEntry list \<Rightarrow> (int \<times> DirEntry list) kres" where
  "inode_readdir v n entries = (case i_class n of
     TmpDirectoryInode \<Rightarrow> TmpDirectoryInode_readdir v n entries
   | InitramfsDirectoryInode \<Rightarrow> InitramfsDirectoryInode_readdir v n entries
   | DevDirectoryInode \<Rightarrow> Inr (DevDirectoryInode_readdir entries)
   | ProcDirectoryInode \<Rightarrow> Inr (ProcDirectoryInode_readdir entries)
   | _ \<Rightarrow> Inr (- ENOTDIR, entries))"

definition inode_mkdir :: "string \<Rightarrow> iptr \<Rightarrow> vfs \<Rightarrow> (int \<times> vfs) kres" where
  "inode_mkdir name i v = kbind (inode_at v (Some i)) (\<lambda>n. case i_class n of
     TmpDirectoryInode \<Rightarrow> TmpDirectoryInode_mkdir name i v
   | InitramfsDirectoryInode \<Rightarrow> Inr (- EROFS, v)
   | DevDirectoryInode \<Rightarrow> Inr (0, v)
   | ProcDirectoryInode \<Rightarrow> Inr (0, v)
   | _ \<Rightarrow> Inr (- ENOTDIR, v))"

definition inode_create :: "string \<Rightarrow> iptr \<Rightarrow> vfs \<Rightarrow> (int \<times> vfs) kres" where
  "inode_create name i v = kbind (inode_at v (Some i)) (\<lambda>n. case i_class n of
     TmpDirectoryInode \<Rightarrow> TmpDirectoryInode_create name i v
   | InitramfsDirectoryInode \<Rightarrow> Inr (- EROFS, v)
   | DevDirectoryInode \<Rightarrow> Inr (0, v)
   | ProcDirectoryInode \<Rightarrow> Inr (0, v)
   | _ \<Rightarrow> Inr (- ENOTDIR, v))"

text \<open>Several classes return 0 from \<^verbatim>\<open>stat\<close> without writing to the structure, \<open>None\<close>.\<close>

definition inode_stat :: "inode \<Rightarrow> int \<times> Stat option" where
  "inode_stat n = (case i_class n of
     TmpFileInode _ \<Rightarrow> (0, Some \<lparr>st_type = i_type n, st_size = i_size n\<rparr>)
   | TmpDirectoryInode \<Rightarrow> (0, Some \<lparr>st_type = i_type n, st_size = i_size n\<rparr>)
   | DevNullInode \<Rightarrow> (0, Some \<lparr>st_type = CHAR_DEVICE, st_size = 0\<rparr>)
   | DevTtyInode _ \<Rightarrow> (0, Some \<lparr>st_type = CHAR_DEVICE, st_size = 0\<rparr>)
   | _ \<Rightarrow> (0, None))"

text \<open>\<^verbatim>\<open>open\<close> and \<^verbatim>\<open>close\<close> return 0 in every class and do nothing else.\<close>

definition inode_open :: "inode \<Rightarrow> int" where "inode_open n = 0"
definition inode_close :: "inode \<Rightarrow> int" where "inode_close n = 0"

definition inode_lseek :: "int \<Rightarrow> int \<Rightarrow> inode \<Rightarrow> FileDescriptor \<Rightarrow> int \<times> FileDescriptor" where
  "inode_lseek offset whence n fd = (case i_class n of
     TmpFileInode _ \<Rightarrow> TmpFileInode_lseek offset whence (i_size n) fd
   | DevTtyInode _ \<Rightarrow> (tty_lseek offset whence, fd)
   | InitramfsFileInode _ \<Rightarrow> (0, fd)
   | DevNullInode \<Rightarrow> (0, fd)
   | ProcSelfInode \<Rightarrow> (0, fd)
   | _ \<Rightarrow> (- EISDIR, fd))"

text \<open>
  A read returns a number and the bytes it has written to the buffer, or it blocks: \<^verbatim>\<open>read\<close> of a terminal waits for the key events that
  are still to come. The value \<open>None\<close> is a loop of the console that does not end.
\<close>

datatype 'r io = Returns 'r vfs | Blocks vfs

definition tty_state :: "iptr \<Rightarrow> inode \<Rightarrow> tty \<Rightarrow> KeyEvent list \<Rightarrow> vfs \<Rightarrow> vfs" where
  "tty_state i n t events v = set_inode i (n\<lparr>i_class := DevTtyInode t\<rparr>) (v\<lparr>g_console := tty_con t, kbd := events\<rparr>)"

definition DevTtyInode_read :: "u64 \<Rightarrow> iptr \<Rightarrow> inode \<Rightarrow> tty \<Rightarrow> vfs \<Rightarrow> (int \<times> u8 list) io kres option" where
  "DevTtyInode_read n i node t v = map_option (\<lambda>r. kbind r (\<lambda>r. Inr (case r of
     Blocked t \<Rightarrow> Blocks (tty_state i node t [] v)
   | Line len bytes t events \<Rightarrow> Returns (int_of_size (of_nat len), map of_char bytes) (tty_state i node t events v))))
     (tty_read (unat n) (kbd v) (t\<lparr>tty_con := g_console v\<rparr>))"

definition DevTtyInode_write :: "u8 list \<Rightarrow> iptr \<Rightarrow> inode \<Rightarrow> tty \<Rightarrow> vfs \<Rightarrow> (int \<times> vfs) kres" where
  "DevTtyInode_write buff i node t v = kbind (tty_write (map (\<lambda>b. char_of (unat b)) buff) (length buff) (t\<lparr>tty_con := g_console v\<rparr>)) (\<lambda>(len, t).
     Inr (int_of_size (of_nat len), tty_state i node t (kbd v) v))"

definition set_fd :: "fdptr \<Rightarrow> FileDescriptor \<Rightarrow> vfs \<Rightarrow> vfs" where
  "set_fd f d v = v\<lparr>fds := (fds v)(f \<mapsto> d)\<rparr>"

definition fd_at :: "vfs \<Rightarrow> fdptr \<Rightarrow> FileDescriptor kres" where
  "fd_at v f = (case fds v f of None \<Rightarrow> Inl (Fault ''bad descriptor'') | Some d \<Rightarrow> Inr d)"

definition inode_read :: "string \<Rightarrow> u64 \<Rightarrow> fdptr \<Rightarrow> vfs \<Rightarrow> (int \<times> u8 list) io kres option" where
  "inode_read self n f v = kthen (kbind (fd_at v f) (\<lambda>d. kbind (inode_at v (fd_inode d)) (\<lambda>node. Inr (d, node)))) (\<lambda>(d, node). case i_class node of
     TmpFileInode data \<Rightarrow> Some (kbind (TmpFileInode_read n d data) (\<lambda>(r, bytes, d). Inr (Returns (r, bytes) (set_fd f d v))))
   | InitramfsFileInode a \<Rightarrow> Some (kbind (InitramfsFileInode_read v a n) (\<lambda>r. Inr (Returns r v)))
   | DevNullInode \<Rightarrow> Some (Inr (Returns (0, []) v))
   | DevTtyInode t \<Rightarrow> DevTtyInode_read n (the (fd_inode d)) node t v
   | ProcSelfInode \<Rightarrow> Some (Inr (Returns (ProcSelfInode_read self n) v))
   | _ \<Rightarrow> Some (Inr (Returns (- EISDIR, []) v)))"

definition inode_write :: "u8 list \<Rightarrow> fdptr \<Rightarrow> vfs \<Rightarrow> (int \<times> vfs) kres" where
  "inode_write buff f v = kbind (fd_at v f) (\<lambda>d. kbind (inode_at v (fd_inode d)) (\<lambda>node. case i_class node of
     TmpFileInode data \<Rightarrow> kbind (TmpFileInode_write buff d data) (\<lambda>(r, d, data).
       Inr (r, set_inode (the (fd_inode d)) (node\<lparr>i_class := TmpFileInode data, i_size := of_nat (v_size data)\<rparr>) (set_fd f d v)))
   | InitramfsFileInode a \<Rightarrow> Inr (0, v)
   | DevNullInode \<Rightarrow> Inr (int_of_size (of_nat (length buff)), v)
   | DevTtyInode t \<Rightarrow> DevTtyInode_write buff (the (fd_inode d)) node t v
   | ProcSelfInode \<Rightarrow> Inr (- EROFS, v)
   | _ \<Rightarrow> Inr (- EISDIR, v)))"

definition inode_ioctl :: "u64 \<Rightarrow> vfs \<Rightarrow> inode \<Rightarrow> int \<times> winsize option" where
  "inode_ioctl request v n = (case i_class n of DevTtyInode t \<Rightarrow> tty_ioctl request (t\<lparr>tty_con := g_console v\<rparr>) | _ \<Rightarrow> (- ENOTTY, None))"

section \<open>Paths\<close>

definition path_tokens :: "string \<Rightarrow> string list" where
  "path_tokens path = filter (\<lambda>t. t \<noteq> []) (Algo.fields (CHR ''/'') path)"

lemma path_tokens_split: "repr k path \<Longrightarrow> \<exists>v. split_str k (CHR ''/'') = Inr v \<and> texts v (path_tokens path)"
  and path_tokens_view: "views w path \<Longrightarrow> \<exists>v. split_view w (CHR ''/'') = Inr v \<and> texts v (path_tokens path)"
  using split_range_ok [OF reads_repr] split_range_ok [OF reads_views] repr_len
  by (auto simp: split_str_def split_view_def views_def path_tokens_def)

text \<open>\<^verbatim>\<open>join\<close> of the names, \<^verbatim>\<open>'/'\<close> after each and the last one dropped.\<close>

definition join_path :: "string list \<Rightarrow> string" where
  "join_path ns = butlast (concat (map (\<lambda>n. n @ ''/'') ns))"

partial_function (option) getcwd_loop :: "vfs \<Rightarrow> iptr option \<Rightarrow> string list \<Rightarrow> string list kres option" where
  "getcwd_loop v p path = (case p of None \<Rightarrow> Some (Inr path)
    | Some i \<Rightarrow> (case inodes v i of None \<Rightarrow> Some (Inl (Fault ''bad inode''))
        | Some n \<Rightarrow> getcwd_loop v (i_parent n) (if i_name n \<noteq> [] then i_name n # path else path)))"

definition fs_getcwd :: "vfs \<Rightarrow> iptr option \<Rightarrow> string kres option" where
  "fs_getcwd v p = map_option (\<lambda>r. kbind r (\<lambda>path. Inr (CHR ''/'' # join_path path))) (getcwd_loop v p [])"

fun find_mount_in :: "vfs \<Rightarrow> iptr option \<Rightarrow> mptr list \<Rightarrow> mount_point option kres" where
  "find_mount_in v p [] = Inr None"
| "find_mount_in v p (m # ms) = kbind (mount_at v m) (\<lambda>mp. if mounted_on mp = p then Inr (Some mp) else find_mount_in v p ms)"

definition find_mount_at :: "vfs \<Rightarrow> iptr option \<Rightarrow> mount_point option kres" where
  "find_mount_at v p = find_mount_in v p (g_mountpoints v)"

text \<open>What the loop of \<^verbatim>\<open>resolve_path\<close> does with \<^verbatim>\<open>..\<close> and with a name.\<close>

definition resolve_dotdot :: "vfs \<Rightarrow> iptr option \<Rightarrow> iptr option kres" where
  "resolve_dotdot v current = kbind (inode_at v current) (\<lambda>n. kbind (mount_at v (i_mountpoint n)) (\<lambda>mp.
     if current = Some (root_inode mp) \<and> mounted_on mp \<noteq> None then kbind (inode_at v (mounted_on mp)) (\<lambda>on. Inr (i_parent on))
     else if i_parent n \<noteq> None then Inr (i_parent n) else Inr current))"

definition resolve_name :: "vfs \<Rightarrow> iptr option \<Rightarrow> string \<Rightarrow> iptr option kres" where
  "resolve_name v current token = kbind (inode_lookup v current token) (\<lambda>nxt. if nxt = None then Inr None
     else kbind (find_mount_at v nxt) (\<lambda>mp. Inr (case mp of None \<Rightarrow> nxt | Some mp \<Rightarrow> Some (root_inode mp))))"

fun resolve_loop :: "vfs \<Rightarrow> iptr option \<Rightarrow> string list \<Rightarrow> iptr option kres" where
  "resolve_loop v current [] = Inr current"
| "resolve_loop v current (t # ts) = (if t = [] \<or> t = ''.'' then resolve_loop v current ts
     else if t = ''..'' then kbind (resolve_dotdot v current) (\<lambda>c. resolve_loop v c ts)
     else kbind (resolve_name v current t) (\<lambda>c. if c = None then Inr None else resolve_loop v c ts))"

text \<open>\<open>cwd\<close> is the directory of the current process, \<open>None\<close> when there is no process or it has none; the first character of an empty path is the end of the string.\<close>

definition resolve_tokens :: "vfs \<Rightarrow> iptr option \<Rightarrow> string \<Rightarrow> string list \<Rightarrow> iptr option kres" where
  "resolve_tokens v cwd path tokens = (case g_root_mountpoint v of None \<Rightarrow> Inl (Panic ''!! VFS: Root is NULL !!'')
    | Some m \<Rightarrow> kbind (mount_at v m) (\<lambda>mp. resolve_loop v
        (if (path \<noteq> [] \<and> hd path = CHR ''/'') \<or> cwd = None then Some (root_inode mp) else cwd) tokens))"

definition resolve_path :: "vfs \<Rightarrow> iptr option \<Rightarrow> string \<Rightarrow> iptr option kres" where
  "resolve_path v cwd path = resolve_tokens v cwd path (path_tokens path)"

section \<open>Mounting\<close>

definition register_mount :: "string \<Rightarrow> mptr \<Rightarrow> vfs \<Rightarrow> vfs kres" where
  "register_mount path m v = kbind (mount_at v m) (\<lambda>p. let v = set_mount m (p\<lparr>mp_path := path\<rparr>) v;
     v = (if g_root_mountpoint v = None then v\<lparr>g_root_mountpoint := Some m\<rparr> else v) in
     Inr (v\<lparr>g_mountpoints := g_mountpoints v @ [m]\<rparr>))"

text \<open>\<^verbatim>\<open>FileSystem::mount\<close>; the one of initramfs returns the null pointer, which \<^verbatim>\<open>fs::mount\<close> follows.\<close>

definition filesystem_mount :: "filesystem \<Rightarrow> vfs \<Rightarrow> (mptr \<times> vfs) kres" where
  "filesystem_mount f v = (case f of TmpFileSystem \<Rightarrow> TmpMountPoint_new v | DevFileSystem \<Rightarrow> DevMountPoint_new v
     | ProcFileSystem \<Rightarrow> ProcMountPoint_new v | InitramfsFileSystem \<Rightarrow> Inl (Fault ''null mount point''))"

definition fs_mount :: "iptr option \<Rightarrow> string \<Rightarrow> filesystem \<Rightarrow> vfs \<Rightarrow> vfs kres" where
  "fs_mount cwd path f v = kbind (filesystem_mount f v) (\<lambda>(m, v). kbind (resolve_path v cwd path) (\<lambda>on.
     kbind (mount_at v m) (\<lambda>p. let v = set_mount m (p\<lparr>mounted_on := on\<rparr>) v in
     kbind (inode_at v (Some (root_inode p))) (\<lambda>r. register_mount path m (set_inode (root_inode p) (r\<lparr>i_parent := on\<rparr>) v)))))"

definition fs_init :: "vfs \<Rightarrow> vfs kres" where
  "fs_init v = kbind (fs_mount None ''/dev'' DevFileSystem v) (\<lambda>v. kbind (fs_mount None ''/tmp'' TmpFileSystem v) (fs_mount None ''/proc'' ProcFileSystem))"

section \<open>Operations on paths\<close>

definition fs_open :: "iptr option \<Rightarrow> string \<Rightarrow> int \<Rightarrow> vfs \<Rightarrow> (fdptr option \<times> vfs) kres" where
  "fs_open cwd path flags v = kbind (resolve_path v cwd path) (\<lambda>p. if p = None then Inr (None, v)
     else let f = next_obj v; v = set_fd f \<lparr>fd_inode = p, fd_path = path, fd_offset = 0, fd_flags = flags\<rparr> (v\<lparr>next_obj := f + 1\<rparr>) in
       kbind (inode_at v p) (\<lambda>n. let r = inode_open n in Inr (Some f, v)))"

definition fs_stat :: "iptr option \<Rightarrow> string \<Rightarrow> vfs \<Rightarrow> (int \<times> Stat option) kres" where
  "fs_stat cwd path v = kbind (resolve_path v cwd path) (\<lambda>p. if p = None then Inr (- 1, None) else kbind (inode_at v p) (\<lambda>n. Inr (inode_stat n)))"

definition fs_readdir :: "iptr option \<Rightarrow> string \<Rightarrow> DirEntry list \<Rightarrow> vfs \<Rightarrow> (int \<times> DirEntry list) kres" where
  "fs_readdir cwd path entries v = kbind (resolve_path v cwd path) (\<lambda>p. if p = None then Inr (- 1, entries)
     else kbind (inode_at v p) (\<lambda>n. if i_type n \<noteq> DIRECTORY then Inr (- 1, entries) else inode_readdir v n entries))"

definition fs_mkdir :: "iptr option \<Rightarrow> string \<Rightarrow> int \<Rightarrow> vfs \<Rightarrow> (int \<times> vfs) kres" where
  "fs_mkdir cwd path mode v = (let tokens = path_tokens path in
     if tokens = [] then Inl (Fault ''back of an empty vector'')
     else let new_dir = last tokens in kbind (resolve_tokens v cwd path (butlast tokens)) (\<lambda>p. case p of None \<Rightarrow> Inr (- 1, v)
       | Some i \<Rightarrow> kbind (inode_at v p) (\<lambda>n. if i_type n \<noteq> DIRECTORY then Inr (- 1, v) else inode_mkdir new_dir i v)))"

end
