(* ===== verification/Vfs_Inv.thy ===== *)
theory Vfs_Inv
  imports Vfs
begin

text \<open>
  The invariant of the file system tree. \<open>vfs_ok\<close> says that every pointer of an inode and of a mount point leads to an object of the class the code
  takes it for, that a child names its directory as its parent, and that the root of a mounted file system has the directory it is
  mounted on as its parent. \<open>located\<close> says at which path a walk from the root finds an inode.
\<close>

section \<open>The invariant\<close>

fun class_type :: "inode_class \<Rightarrow> FileType" where
  "class_type (TmpFileInode d) = REGULAR"
| "class_type (InitramfsFileInode a) = REGULAR"
| "class_type DevNullInode = CHAR_DEVICE"
| "class_type (DevTtyInode t) = CHAR_DEVICE"
| "class_type ProcSelfInode = CHAR_DEVICE"
| "class_type c = DIRECTORY"

fun class_mount :: "inode_class \<Rightarrow> mount_class \<Rightarrow> bool" where
  "class_mount (TmpFileInode d) (TmpMountPoint n) = True"
| "class_mount TmpDirectoryInode (TmpMountPoint n) = True"
| "class_mount InitramfsDirectoryInode (InitramfsMountPoint n) = True"
| "class_mount (InitramfsFileInode a) (InitramfsMountPoint n) = True"
| "class_mount DevDirectoryInode (DevMountPoint a b c) = True"
| "class_mount DevNullInode (DevMountPoint a b c) = True"
| "class_mount (DevTtyInode t) (DevMountPoint a b c) = True"
| "class_mount ProcDirectoryInode (ProcMountPoint a) = True"
| "class_mount ProcSelfInode (ProcMountPoint a) = True"
| "class_mount c m = False"

fun devices :: "mount_class \<Rightarrow> iptr set" where
  "devices (DevMountPoint a b c) = {a, b, c}"
| "devices (ProcMountPoint a) = {a}"
| "devices m = {}"

definition has_children :: "inode_class \<Rightarrow> bool" where
  "has_children c \<longleftrightarrow> c = TmpDirectoryInode \<or> c = InitramfsDirectoryInode"

definition fixed_dir :: "inode_class \<Rightarrow> bool" where
  "fixed_dir c \<longleftrightarrow> c = DevDirectoryInode \<or> c = ProcDirectoryInode"

definition file_ok :: "inode \<Rightarrow> bool" where
  "file_ok n \<longleftrightarrow> (\<forall>d. i_class n = TmpFileInode d \<longrightarrow> vec_ok d \<and> i_size n = of_nat (v_size d))"

definition inode_ok :: "vfs \<Rightarrow> iptr \<Rightarrow> inode \<Rightarrow> bool" where
  "inode_ok v i n \<longleftrightarrow> (\<exists>p. mounts v (i_mountpoint n) = Some p \<and> class_mount (i_class n) (mp_class p) \<and> (fixed_dir (i_class n) \<longrightarrow> root_inode p = i)) \<and>
     i_type n = class_type (i_class n) \<and> (\<forall>q. i_parent n = Some q \<longrightarrow> q \<in> dom (inodes v)) \<and> file_ok n \<and>
     (has_children (i_class n) \<longrightarrow> (\<forall>c \<in> set (i_children n). \<exists>k. inodes v c = Some k \<and> i_parent k = Some i \<and> i_mountpoint k = i_mountpoint n))"

definition mount_ok :: "vfs \<Rightarrow> mptr \<Rightarrow> mount_point \<Rightarrow> bool" where
  "mount_ok v m p \<longleftrightarrow> (\<exists>r. inodes v (root_inode p) = Some r \<and> i_mountpoint r = m \<and> i_type r = DIRECTORY \<and> i_name r = [] \<and> i_parent r = mounted_on p) \<and>
     (\<forall>q. mounted_on p = Some q \<longrightarrow> (\<exists>n. inodes v q = Some n \<and> i_type n = DIRECTORY \<and> i_parent n \<noteq> None \<and> i_mountpoint n \<noteq> m)) \<and>
     (\<forall>c \<in> devices (mp_class p). \<exists>k. inodes v c = Some k \<and> i_type k = CHAR_DEVICE \<and> i_parent k = Some (root_inode p) \<and> i_mountpoint k = m)"

definition fd_ok :: "vfs \<Rightarrow> FileDescriptor \<Rightarrow> bool" where
  "fd_ok v d \<longleftrightarrow> (\<exists>i. fd_inode d = Some i \<and> i \<in> dom (inodes v))"

definition tree_ok :: "vfs \<Rightarrow> bool" where
  "tree_ok v \<longleftrightarrow> (\<forall>i n. inodes v i = Some n \<longrightarrow> i < next_obj v \<and> inode_ok v i n) \<and>
     (\<forall>m p. mounts v m = Some p \<longrightarrow> m < next_obj v \<and> mount_ok v m p) \<and>
     (\<forall>f d. fds v f = Some d \<longrightarrow> f < next_obj v \<and> fd_ok v d) \<and>
     set (g_mountpoints v) \<subseteq> dom (mounts v)"

definition vfs_ok :: "vfs \<Rightarrow> bool" where
  "vfs_ok v \<longleftrightarrow> tree_ok v \<and> (\<exists>m p. g_root_mountpoint v = Some m \<and> mounts v m = Some p \<and> mounted_on p = None)"

lemma class_type_dir: "class_type c = DIRECTORY \<longleftrightarrow> has_children c \<or> fixed_dir c"
  by (cases c) (auto simp: has_children_def fixed_dir_def)

lemma inode_at_Inr [simp]: "inode_at v (Some i) = Inr n \<longleftrightarrow> inodes v i = Some n"
  by (auto simp: inode_at_def split: option.splits)

lemma inode_at_Some: "inodes v i = Some n \<Longrightarrow> inode_at v (Some i) = Inr n"
  by simp

lemma mount_at_Inr: "mount_at v m = Inr p \<longleftrightarrow> mounts v m = Some p"
  by (auto simp: mount_at_def split: option.splits)

lemma mount_at_Some: "mounts v m = Some p \<Longrightarrow> mount_at v m = Inr p"
  by (simp add: mount_at_Inr)

lemma tree_ok_inode: "tree_ok v \<Longrightarrow> inodes v i = Some n \<Longrightarrow> i < next_obj v \<and> inode_ok v i n"
  and tree_ok_mount: "tree_ok v \<Longrightarrow> mounts v m = Some p \<Longrightarrow> m < next_obj v \<and> mount_ok v m p"
  by (auto simp: tree_ok_def)

section \<open>What a lookup finds\<close>

lemma find_child_total:
  assumes "\<forall>c \<in> set cs. c \<in> dom (inodes v)"
  shows "\<exists>r. find_child v name cs = Inr r \<and> (\<forall>c. r = Some c \<longrightarrow> c \<in> set cs \<and> (\<exists>n. inodes v c = Some n \<and> i_name n = name))"
  using assms
proof (induction cs)
  case (Cons c cs)
  then obtain n where "inodes v c = Some n" by auto
  then show ?case using Cons by (auto simp: inode_at_Some)
qed simp

lemma find_child_None:
  assumes "\<forall>c \<in> set cs. c \<in> dom (inodes v)"
  shows "find_child v name cs = Inr None \<longleftrightarrow> (\<forall>c \<in> set cs. i_name (the (inodes v c)) \<noteq> name)"
  using assms
proof (induction cs)
  case (Cons c cs)
  then obtain n where "inodes v c = Some n" by auto
  then show ?case using Cons by (auto simp: inode_at_Some)
qed simp

definition entry_of :: "vfs \<Rightarrow> iptr \<Rightarrow> inode \<Rightarrow> string \<Rightarrow> iptr \<Rightarrow> inode \<Rightarrow> bool" where
  "entry_of v d n t c k \<longleftrightarrow> inodes v c = Some k \<and> i_parent k = Some d \<and> i_mountpoint k = i_mountpoint n \<and> i_type n = DIRECTORY \<and>
     (i_type k = DIRECTORY \<longrightarrow> i_name k = t)"

lemma inode_lookup_ok:
  assumes ok: "tree_ok v" and n: "inodes v d = Some n"
  shows "\<exists>r. inode_lookup v (Some d) t = Inr r \<and> (\<forall>c. r = Some c \<longrightarrow> (\<exists>k. entry_of v d n t c k))"
proof -
  have i: "inode_ok v d n" using tree_ok_inode [OF ok n] by blast
  then obtain p where p: "mounts v (i_mountpoint n) = Some p" "class_mount (i_class n) (mp_class p)" "fixed_dir (i_class n) \<longrightarrow> root_inode p = d" by (auto simp: inode_ok_def)
  have ty: "i_type n = class_type (i_class n)" using i by (simp add: inode_ok_def)
  show ?thesis
  proof (cases "has_children (i_class n)")
    case True
    then have c: "\<forall>c \<in> set (i_children n). \<exists>k. inodes v c = Some k \<and> i_parent k = Some d \<and> i_mountpoint k = i_mountpoint n" using i by (auto simp: inode_ok_def)
    then obtain r where r: "find_child v t (i_children n) = Inr r" "\<forall>c. r = Some c \<longrightarrow> c \<in> set (i_children n) \<and> (\<exists>n. inodes v c = Some n \<and> i_name n = t)"
      using find_child_total [of "i_children n" v t] by blast
    have "inode_lookup v (Some d) t = Inr r" using True r(1) n
      by (auto simp: inode_lookup_def inode_at_Some has_children_def TmpDirectoryInode_lookup_def InitramfsDirectoryInode_lookup_def)
    moreover have "i_type n = DIRECTORY" using True ty class_type_dir by simp
    ultimately show ?thesis using r(2) c unfolding entry_of_def by fastforce
  next
    case False
    show ?thesis
    proof (cases "fixed_dir (i_class n)")
      case True
      then have root: "root_inode p = d" and d: "i_type n = DIRECTORY" using p(3) ty class_type_dir by auto
      have "mount_ok v (i_mountpoint n) p" using tree_ok_mount [OF ok p(1)] by blast
      then have dev: "\<exists>k. inodes v c = Some k \<and> i_type k = CHAR_DEVICE \<and> i_parent k = Some d \<and> i_mountpoint k = i_mountpoint n" if "c \<in> devices (mp_class p)" for c
        using that root by (auto simp: mount_ok_def)
      have "\<exists>r. inode_lookup v (Some d) t = Inr r \<and> (\<forall>c. r = Some c \<longrightarrow> c \<in> devices (mp_class p))"
        using True p(1,2) n by (cases "mp_class p")
          (auto simp: inode_lookup_def inode_at_Some fixed_dir_def mount_at_Some DevDirectoryInode_lookup_def ProcDirectoryInode_lookup_def)
      then obtain r where r: "inode_lookup v (Some d) t = Inr r" "\<forall>c. r = Some c \<longrightarrow> c \<in> devices (mp_class p)" by blast
      have "\<exists>k. entry_of v d n t c k" if "r = Some c" for c
      proof -
        obtain k where k: "inodes v c = Some k" "i_type k = CHAR_DEVICE" "i_parent k = Some d" "i_mountpoint k = i_mountpoint n" using r(2) dev \<open>r = Some c\<close> by blast
        then show ?thesis using d by (auto simp: entry_of_def)
      qed
      then show ?thesis using r(1) by blast
    next
      case F: False
      then have "inode_lookup v (Some d) t = Inr None" using False n by (auto simp: inode_lookup_def inode_at_Some fixed_dir_def has_children_def split: inode_class.splits)
      then show ?thesis by simp
    qed
  qed
qed

section \<open>Mount points\<close>

lemma find_mount_in_ok:
  assumes "set ms \<subseteq> dom (mounts v)"
  shows "\<exists>r. find_mount_in v q ms = Inr r \<and> (\<forall>p. r = Some p \<longrightarrow> (\<exists>m. m \<in> set ms \<and> mounts v m = Some p \<and> mounted_on p = q))"
  using assms
proof (induction ms)
  case (Cons m ms)
  then obtain p where "mounts v m = Some p" by auto
  then show ?case using Cons by (auto simp: mount_at_Some)
qed simp

lemma find_mount_at_ok:
  assumes "tree_ok v"
  obtains r where "find_mount_at v q = Inr r" "\<And>p. r = Some p \<Longrightarrow> \<exists>m. mounts v m = Some p \<and> mount_ok v m p \<and> mounted_on p = q"
proof -
  have "set (g_mountpoints v) \<subseteq> dom (mounts v)" using assms by (simp add: tree_ok_def)
  from find_mount_in_ok [OF this, of q] obtain r where r: "find_mount_at v q = Inr r" "\<forall>p. r = Some p \<longrightarrow> (\<exists>m. m \<in> set (g_mountpoints v) \<and> mounts v m = Some p \<and> mounted_on p = q)"
    by (auto simp: find_mount_at_def)
  show thesis by (rule that [OF r(1)]) (use r(2) tree_ok_mount [OF assms] in blast)
qed

text \<open>Where a name leads: to an entry of the directory, or through it to the root of what is mounted there.\<close>

definition leads :: "vfs \<Rightarrow> iptr \<Rightarrow> string \<Rightarrow> iptr \<Rightarrow> bool" where
  "leads v d t i \<longleftrightarrow> (\<exists>n c k. inodes v d = Some n \<and> entry_of v d n t c k \<and>
     (c = i \<or> (\<exists>m p. mounts v m = Some p \<and> mount_ok v m p \<and> mounted_on p = Some c \<and> i = root_inode p)))"

lemma resolve_name_ok:
  assumes ok: "tree_ok v" and n: "inodes v d = Some n"
  shows "\<exists>r. resolve_name v (Some d) t = Inr r \<and> (\<forall>i. r = Some i \<longrightarrow> leads v d t i)"
proof -
  obtain r where r: "inode_lookup v (Some d) t = Inr r" "\<forall>c. r = Some c \<longrightarrow> (\<exists>k. entry_of v d n t c k)" using inode_lookup_ok [OF ok n] by blast
  obtain f where f: "find_mount_at v r = Inr f" "\<And>p. f = Some p \<Longrightarrow> \<exists>m. mounts v m = Some p \<and> mount_ok v m p \<and> mounted_on p = r"
    by (rule find_mount_at_ok [OF ok]) blast
  show ?thesis
  proof (cases r)
    case None
    then show ?thesis using r(1) by (simp add: resolve_name_def)
  next
    case (Some c)
    then obtain k where k: "entry_of v d n t c k" using r(2) by blast
    show ?thesis
    proof (cases f)
      case None
      then show ?thesis using r(1) f(1) Some k n by (auto simp: resolve_name_def leads_def)
    next
      case p: (Some p)
      then obtain m where "mounts v m = Some p" "mount_ok v m p" "mounted_on p = Some c" using f(2) Some by blast
      then have "leads v d t (root_inode p)" using k n by (auto simp: leads_def)
      then show ?thesis using r(1) f(1) Some p by (auto simp: resolve_name_def)
    qed
  qed
qed

lemma leads_inode: "leads v d t i \<Longrightarrow> i \<in> dom (inodes v)"
  by (auto simp: leads_def entry_of_def mount_ok_def)

text \<open>\<^verbatim>\<open>..\<close> leads back.\<close>

lemma dotdot_leads:
  assumes ok: "tree_ok v" and l: "leads v d t i"
  shows "resolve_dotdot v (Some i) = Inr (Some d)"
proof -
  obtain n c k where n: "inodes v d = Some n" and e: "entry_of v d n t c k" and
    ci: "c = i \<or> (\<exists>m p. mounts v m = Some p \<and> mount_ok v m p \<and> mounted_on p = Some c \<and> i = root_inode p)" using l unfolding leads_def by (elim exE conjE) (rule that)
  have k: "inodes v c = Some k" "i_parent k = Some d" "i_mountpoint k = i_mountpoint n" using e by (auto simp: entry_of_def)
  from ci show ?thesis
  proof
    assume c: "c = i"
    obtain p where p: "mounts v (i_mountpoint k) = Some p" using tree_ok_inode [OF ok k(1)] by (auto simp: inode_ok_def)
    have "\<not> (i = root_inode p \<and> mounted_on p \<noteq> None)"
    proof
      assume r: "i = root_inode p \<and> mounted_on p \<noteq> None"
      then have "mounted_on p = Some d" "i_mountpoint n \<noteq> i_mountpoint k" using tree_ok_mount [OF ok p] k c n by (auto simp: mount_ok_def)
      then show False using k(3) by simp
    qed
    then show ?thesis using k c p by (auto simp: resolve_dotdot_def inode_at_Some mount_at_Some)
  next
    assume "\<exists>m p. mounts v m = Some p \<and> mount_ok v m p \<and> mounted_on p = Some c \<and> i = root_inode p"
    then obtain m p where m: "mounts v m = Some p" "mount_ok v m p" "mounted_on p = Some c" "i = root_inode p" by blast
    then show ?thesis using k by (auto simp: resolve_dotdot_def inode_at_Some mount_at_Some mount_ok_def)
  qed
qed

lemma resolve_dotdot_ok:
  assumes ok: "tree_ok v" and n: "inodes v i = Some n"
  shows "\<exists>j. resolve_dotdot v (Some i) = Inr (Some j) \<and> j \<in> dom (inodes v)"
proof -
  obtain p where p: "mounts v (i_mountpoint n) = Some p" using tree_ok_inode [OF ok n] by (auto simp: inode_ok_def)
  show ?thesis
  proof (cases "i = root_inode p \<and> mounted_on p \<noteq> None")
    case True
    then obtain q k where q: "mounted_on p = Some q" "inodes v q = Some k" "i_parent k \<noteq> None" using tree_ok_mount [OF ok p] by (auto simp: mount_ok_def)
    then have "the (i_parent k) \<in> dom (inodes v)" using tree_ok_inode [OF ok q(2)] by (auto simp: inode_ok_def)
    then show ?thesis using True n p q by (auto simp: resolve_dotdot_def inode_at_Some mount_at_Some)
  next
    case False
    then show ?thesis using n p tree_ok_inode [OF ok n] by (auto simp: resolve_dotdot_def inode_at_Some mount_at_Some inode_ok_def)
  qed
qed

section \<open>Where inodes are\<close>

definition plain_name :: "string \<Rightarrow> bool" where
  "plain_name t \<longleftrightarrow> t \<noteq> [] \<and> t \<noteq> ''.'' \<and> t \<noteq> ''..'' \<and> CHR ''/'' \<notin> set t"

text \<open>\<open>walk v r ns i\<close>: the names \<open>ns\<close> lead from \<open>r\<close> to \<open>i\<close>.\<close>

inductive walk :: "vfs \<Rightarrow> iptr \<Rightarrow> string list \<Rightarrow> iptr \<Rightarrow> bool" for v r where
  here: "walk v r [] r"
| name: "walk v r ns d \<Longrightarrow> plain_name t \<Longrightarrow> resolve_name v (Some d) t = Inr (Some i) \<Longrightarrow> walk v r (ns @ [t]) i"

inductive_cases walk_NilE: "walk v r [] i"

definition root_of :: "vfs \<Rightarrow> iptr \<Rightarrow> bool" where
  "root_of v i \<longleftrightarrow> (\<exists>m p. g_root_mountpoint v = Some m \<and> mounts v m = Some p \<and> i = root_inode p)"

definition located :: "vfs \<Rightarrow> string list \<Rightarrow> iptr \<Rightarrow> bool" where
  "located v ns i \<longleftrightarrow> (\<exists>r. root_of v r \<and> walk v r ns i)"

lemma walk_snocE:
  assumes "walk v r (ns @ [t]) i"
  obtains d where "walk v r ns d" "plain_name t" "resolve_name v (Some d) t = Inr (Some i)"
  using assms by (rule walk.cases) auto

lemma walk_plain: "walk v r ns i \<Longrightarrow> \<forall>t \<in> set ns. plain_name t"
  by (induction rule: walk.induct) auto

lemma walk_unique: "walk v r ns i \<Longrightarrow> walk v r ns j \<Longrightarrow> i = j"
proof (induction arbitrary: j rule: walk.induct)
  case here
  then show ?case by (auto elim: walk_NilE)
next
  case (name ns d t i)
  from name.prems obtain e where e: "walk v r ns e" "resolve_name v (Some e) t = Inr (Some j)" by (rule walk_snocE)
  then have "d = e" using name.IH by blast
  then show ?case using name.hyps(3) e(2) by simp
qed

lemma walk_inode:
  assumes "tree_ok v" "r \<in> dom (inodes v)" "walk v r ns i"
  shows "i \<in> dom (inodes v)"
  using assms(3)
proof (induction rule: walk.induct)
  case (name ns d t i)
  then obtain n where "inodes v d = Some n" by auto
  from resolve_name_ok [OF assms(1) this, of t] show ?case using name.hyps(3) leads_inode by auto
qed (use assms(2) in auto)

lemma walk_leads:
  assumes "tree_ok v" "r \<in> dom (inodes v)" "walk v r ns d" "resolve_name v (Some d) t = Inr (Some i)"
  shows "leads v d t i"
proof -
  obtain n where "inodes v d = Some n" using walk_inode [OF assms(1-3)] by auto
  from resolve_name_ok [OF assms(1) this, of t] show ?thesis using assms(4) by auto
qed

lemma walk_resolve: "walk v r ns i \<Longrightarrow> resolve_loop v (Some r) (ns @ ts) = resolve_loop v (Some i) ts"
proof (induction arbitrary: ts rule: walk.induct)
  case (name ns d t i)
  have "resolve_loop v (Some r) (ns @ t # ts) = resolve_loop v (Some d) (t # ts)" using name by blast
  also have "\<dots> = resolve_loop v (Some i) ts" using name.hyps by (auto simp: plain_name_def)
  finally show ?case by simp
qed simp

text \<open>The converse for plain names.\<close>

lemma resolve_walk: "walk v r ms c \<Longrightarrow> \<forall>t \<in> set ns. plain_name t \<Longrightarrow> resolve_loop v (Some c) ns = Inr (Some i) \<Longrightarrow> walk v r (ms @ ns) i"
proof (induction ns arbitrary: ms c)
  case (Cons t ns)
  then obtain x where x: "resolve_name v (Some c) t = Inr x" "x \<noteq> None" "resolve_loop v x ns = Inr (Some i)"
    by (auto simp: plain_name_def kbind_Inr_iff split: if_splits)
  then obtain d where d: "x = Some d" by blast
  have "walk v r (ms @ [t]) d" using walk.name [OF Cons.prems(1)] Cons.prems(2) x d by simp
  from Cons.IH [OF this] show ?case using Cons.prems(2) x d by simp
qed simp

text \<open>The root and \<^verbatim>\<open>..\<close>.\<close>

lemma vfs_ok_tree: "vfs_ok v \<Longrightarrow> tree_ok v"
  by (simp add: vfs_ok_def)

lemma root_ok:
  assumes "vfs_ok v" "root_of v i"
  shows "\<exists>n. inodes v i = Some n \<and> i_parent n = None \<and> i_name n = [] \<and> i_type n = DIRECTORY \<and> resolve_dotdot v (Some i) = Inr (Some i)"
proof -
  obtain m p where m: "g_root_mountpoint v = Some m" "mounts v m = Some p" "i = root_inode p" using assms(2) by (auto simp: root_of_def)
  then have "mounted_on p = None" using assms(1) by (auto simp: vfs_ok_def)
  then show ?thesis using m tree_ok_mount [OF vfs_ok_tree [OF assms(1)] m(2)] by (auto simp: mount_ok_def resolve_dotdot_def inode_at_Some mount_at_Some)
qed

lemma root_exists: "vfs_ok v \<Longrightarrow> \<exists>r. root_of v r \<and> r \<in> dom (inodes v)"
  using root_ok by (auto simp: vfs_ok_def root_of_def) blast

lemma located_inode: "vfs_ok v \<Longrightarrow> located v ns i \<Longrightarrow> i \<in> dom (inodes v)"
  unfolding located_def using root_ok walk_inode [OF vfs_ok_tree] by blast

lemma located_unique: "located v ns i \<Longrightarrow> located v ns j \<Longrightarrow> i = j"
  using walk_unique by (auto simp: located_def root_of_def)

lemma located_root: "root_of v r \<Longrightarrow> located v [] r"
  using walk.here by (auto simp: located_def)

lemma located_name: "located v ns d \<Longrightarrow> plain_name t \<Longrightarrow> resolve_name v (Some d) t = Inr (Some i) \<Longrightarrow> located v (ns @ [t]) i"
  using walk.name by (auto simp: located_def)

lemma located_dotdot:
  assumes "vfs_ok v" "located v ns i"
  shows "\<exists>j. resolve_dotdot v (Some i) = Inr (Some j) \<and> located v (butlast ns) j"
proof -
  obtain r where r: "root_of v r" "walk v r ns i" using assms(2) by (auto simp: located_def)
  then have d: "r \<in> dom (inodes v)" using root_ok [OF assms(1)] by blast
  from r(2) show ?thesis
  proof cases
    case here
    then show ?thesis using root_ok [OF assms(1) r(1)] located_root [OF r(1)] by auto
  next
    case (name ms e t)
    then have "leads v e t i" using walk_leads [OF vfs_ok_tree [OF assms(1)] d] by blast
    then show ?thesis using dotdot_leads [OF vfs_ok_tree [OF assms(1)]] name r(1) by (auto simp: located_def)
  qed
qed

text \<open>The path that is left when \<^verbatim>\<open>.\<close> and \<^verbatim>\<open>..\<close> are carried out on the names.\<close>

fun normalize :: "string list \<Rightarrow> string list \<Rightarrow> string list" where
  "normalize ns [] = ns"
| "normalize ns (t # ts) = (if t = [] \<or> t = ''.'' then normalize ns ts else if t = ''..'' then normalize (butlast ns) ts else normalize (ns @ [t]) ts)"

text \<open>The walk over the tokens of a path does not fault, and what it finds is at the normalized path.\<close>

lemma resolve_loop_located:
  assumes ok: "vfs_ok v"
  shows "located v ns c \<Longrightarrow> \<forall>t \<in> set ts. CHR ''/'' \<notin> set t \<Longrightarrow>
    \<exists>r. resolve_loop v (Some c) ts = Inr r \<and> (\<forall>i. r = Some i \<longrightarrow> located v (normalize ns ts) i)"
proof (induction ts arbitrary: ns c)
  case (Cons t ts)
  show ?case
  proof (cases "t = [] \<or> t = ''.''")
    case True
    then show ?thesis using Cons by auto
  next
    case f: False
    show ?thesis
    proof (cases "t = ''..''")
      case True
      obtain j where j: "resolve_dotdot v (Some c) = Inr (Some j)" "located v (butlast ns) j" using located_dotdot [OF ok Cons.prems(1)] by blast
      then show ?thesis using Cons.IH [OF j(2)] Cons.prems(2) True f by simp
    next
      case False
      then have p: "plain_name t" using f Cons.prems(2) by (auto simp: plain_name_def)
      obtain n where "inodes v c = Some n" using located_inode [OF ok Cons.prems(1)] by auto
      from resolve_name_ok [OF vfs_ok_tree [OF ok] this, of t] obtain r where r: "resolve_name v (Some c) t = Inr r" by blast
      show ?thesis
      proof (cases r)
        case None
        then show ?thesis using r f False by simp
      next
        case (Some i)
        then have "located v (ns @ [t]) i" using located_name [OF Cons.prems(1) p] r by simp
        from Cons.IH [OF this] show ?thesis using Cons.prems(2) f False r Some by simp
      qed
    qed
  qed
qed auto

lemma resolve_loop_total:
  assumes ok: "tree_ok v"
  shows "c \<in> dom (inodes v) \<Longrightarrow> \<exists>r. resolve_loop v (Some c) ts = Inr r \<and> (\<forall>i. r = Some i \<longrightarrow> i \<in> dom (inodes v))"
proof (induction ts arbitrary: c)
  case (Cons t ts)
  then obtain n where n: "inodes v c = Some n" by auto
  obtain j where j: "resolve_dotdot v (Some c) = Inr (Some j)" "j \<in> dom (inodes v)" using resolve_dotdot_ok [OF ok n] by blast
  obtain r where r: "resolve_name v (Some c) t = Inr r" "\<forall>i. r = Some i \<longrightarrow> i \<in> dom (inodes v)" using resolve_name_ok [OF ok n, of t] leads_inode by blast
  show ?case using Cons.IH [OF j(2)] Cons.IH [OF Cons.prems] Cons.IH j(1) r by (cases r) auto
qed auto

end
