(* ===== verification/Vfs_Path.thy ===== *)
theory Vfs_Path
  imports Vfs_Inv
begin

text \<open>
  Paths as text: what \<^verbatim>\<open>getcwd\<close> prints for a directory, and that \<^verbatim>\<open>resolve_path\<close> finds it again there.
\<close>

section \<open>Tokens\<close>

lemma fields_name: "CHR ''/'' \<notin> set t \<Longrightarrow> Algo.fields (CHR ''/'') (t @ CHR ''/'' # rest) = t # Algo.fields (CHR ''/'') rest"
  and fields_last: "CHR ''/'' \<notin> set t \<Longrightarrow> Algo.fields (CHR ''/'') t = [t]"
  by (induction t) auto

lemma join_path_Cons: "join_path (n # ns) = (if ns = [] then n else n @ CHR ''/'' # join_path ns)"
  by (cases ns) (auto simp: join_path_def butlast_append)

lemma fields_join_path: "ns \<noteq> [] \<Longrightarrow> \<forall>t \<in> set ns. CHR ''/'' \<notin> set t \<Longrightarrow> Algo.fields (CHR ''/'') (join_path ns) = ns"
proof (induction ns)
  case (Cons n ns)
  then show ?case by (cases "ns = []") (auto simp: join_path_Cons fields_name fields_last)
qed simp

lemma path_tokens_join: "\<forall>t \<in> set ns. plain_name t \<Longrightarrow> path_tokens (CHR ''/'' # join_path ns) = ns"
proof (cases "ns = []")
  case False
  assume a: "\<forall>t \<in> set ns. plain_name t"
  then have "Algo.fields (CHR ''/'') (join_path ns) = ns" using False by (intro fields_join_path) (auto simp: plain_name_def)
  moreover have "filter (\<lambda>t. t \<noteq> []) ns = ns" using a by (auto simp: filter_id_conv plain_name_def)
  ultimately show ?thesis by (simp add: path_tokens_def)
qed (simp add: path_tokens_def join_path_def)

lemma path_tokens_free: "t \<in> set (path_tokens path) \<Longrightarrow> CHR ''/'' \<notin> set t \<and> t \<noteq> []"
  using fields_free by (auto simp: path_tokens_def)

section \<open>The current directory\<close>

lemma getcwd_step: "inodes v i = Some n \<Longrightarrow> getcwd_loop v (Some i) acc = getcwd_loop v (i_parent n) (if i_name n \<noteq> [] then i_name n # acc else acc)"
  by (subst getcwd_loop.simps) simp

lemma getcwd_end: "getcwd_loop v None acc = Some (Inr acc)"
  by (subst getcwd_loop.simps) simp

lemma leads_dir:
  assumes "leads v d t i" "i_type (the (inodes v i)) = DIRECTORY" "plain_name t"
  shows "getcwd_loop v (Some i) acc = getcwd_loop v (Some d) (t # acc) \<and> i_type (the (inodes v d)) = DIRECTORY"
proof -
  obtain n c k where n: "inodes v d = Some n" and e: "entry_of v d n t c k" and
    ci: "c = i \<or> (\<exists>m p. mounts v m = Some p \<and> mount_ok v m p \<and> mounted_on p = Some c \<and> i = root_inode p)"
    using assms(1) unfolding leads_def by (elim exE conjE) (rule that)
  have k: "inodes v c = Some k" "i_parent k = Some d" "i_type n = DIRECTORY" using e by (auto simp: entry_of_def)
  have "i_type k = DIRECTORY \<and> getcwd_loop v (Some i) acc = getcwd_loop v (Some c) acc" using ci assms(2) k(1)
    by (auto simp: mount_ok_def getcwd_step)
  moreover have "getcwd_loop v (Some c) acc = getcwd_loop v (Some d) (t # acc)" if "i_type k = DIRECTORY"
    using e that assms(3) k by (simp add: getcwd_step entry_of_def plain_name_def)
  ultimately show ?thesis using n k by simp
qed

lemma getcwd_located:
  assumes ok: "vfs_ok v" and l: "located v ns i" and d: "i_type (the (inodes v i)) = DIRECTORY"
  shows "fs_getcwd v (Some i) = Some (Inr (CHR ''/'' # join_path ns))"
proof -
  obtain r where r: "root_of v r" "walk v r ns i" using l by (auto simp: located_def)
  then have dom: "r \<in> dom (inodes v)" using root_ok [OF ok] by blast
  have "getcwd_loop v (Some i) acc = Some (Inr (ns @ acc))" for acc using r(2) d
  proof (induction arbitrary: acc rule: walk.induct)
    case here
    then show ?case using root_ok [OF ok r(1)] by (auto simp: getcwd_step getcwd_end)
  next
    case (name ns d t i)
    then have "leads v d t i" using walk_leads [OF vfs_ok_tree [OF ok] dom] by blast
    from leads_dir [OF this name.prems name.hyps(2)] show ?case using name.IH by simp
  qed
  then show ?thesis by (simp add: fs_getcwd_def)
qed

section \<open>Resolution\<close>

text \<open>Where the resolution of a path begins.\<close>

definition start_names :: "string list \<Rightarrow> string \<Rightarrow> string list" where
  "start_names ns path = (if path \<noteq> [] \<and> hd path = CHR ''/'' then [] else ns)"

lemma resolve_tokens_located:
  assumes ok: "vfs_ok v" and c: "located v ns c" and free: "\<forall>t \<in> set ts. CHR ''/'' \<notin> set t"
  shows "\<exists>r. resolve_tokens v (Some c) path ts = Inr r \<and> (\<forall>i. r = Some i \<longrightarrow> located v (normalize (start_names ns path) ts) i)"
proof -
  obtain m p where m: "g_root_mountpoint v = Some m" "mounts v m = Some p" using ok by (auto simp: vfs_ok_def)
  then have "root_of v (root_inode p)" by (auto simp: root_of_def)
  from located_root [OF this] show ?thesis using m resolve_loop_located [OF ok c free] resolve_loop_located [OF ok _ free]
    by (auto simp: resolve_tokens_def mount_at_Some start_names_def)
qed

lemma resolve_path_located:
  assumes "vfs_ok v" "located v ns c"
  shows "\<exists>r. resolve_path v (Some c) path = Inr r \<and> (\<forall>i. r = Some i \<longrightarrow> located v (normalize (start_names ns path) (path_tokens path)) i)"
  unfolding resolve_path_def using resolve_tokens_located [OF assms] path_tokens_free by blast

lemma resolve_path_located_None:
  assumes "vfs_ok v"
  shows "\<exists>r. resolve_path v None path = Inr r \<and> (\<forall>i. r = Some i \<longrightarrow> located v (normalize [] (path_tokens path)) i)"
proof -
  obtain m p where m: "g_root_mountpoint v = Some m" "mounts v m = Some p" using assms by (auto simp: vfs_ok_def)
  then have "root_of v (root_inode p)" by (auto simp: root_of_def)
  from resolve_loop_located [OF assms located_root [OF this], of "path_tokens path"] show ?thesis using m path_tokens_free
    by (auto simp: resolve_path_def resolve_tokens_def mount_at_Some)
qed

lemma resolve_located:
  assumes "located v ns i"
  shows "resolve_path v cwd (CHR ''/'' # join_path ns) = Inr (Some i)"
proof -
  obtain r where r: "root_of v r" "walk v r ns i" using assms by (auto simp: located_def)
  have "path_tokens (CHR ''/'' # join_path ns) = ns" using walk_plain [OF r(2)] by (rule path_tokens_join)
  then show ?thesis using r(1) walk_resolve [OF r(2), of "[]"] by (auto simp: resolve_path_def resolve_tokens_def root_of_def mount_at_Some)
qed

end
