(* ===== verification/Vfs_Ops.thy ===== *)
theory Vfs_Ops
  imports Vfs_Path
begin

text \<open>
  The operations that change the tree keep the invariant: a new entry in a directory of \<^verbatim>\<open>tmpfs\<close> or \<^verbatim>\<open>initramfs\<close>, and a new mount.
\<close>

section \<open>Larger stores\<close>

lemma inode_ok_mono:
  assumes "inodes v \<subseteq>\<^sub>m inodes v'" "mounts v \<subseteq>\<^sub>m mounts v'" "inode_ok v i n"
  shows "inode_ok v' i n"
proof -
  have "inodes v i = Some x \<Longrightarrow> inodes v' i = Some x" "mounts v i = Some y \<Longrightarrow> mounts v' i = Some y" for i x y
    using assms(1,2) by (auto simp: map_le_def dom_def)
  then show ?thesis using assms(3) unfolding inode_ok_def by (blast dest: domD intro: domI)
qed

lemma mount_ok_mono:
  assumes "inodes v \<subseteq>\<^sub>m inodes v'" "mount_ok v m p"
  shows "mount_ok v' m p"
proof -
  have "inodes v i = Some x \<Longrightarrow> inodes v' i = Some x" for i x using assms(1) by (auto simp: map_le_def dom_def)
  then show ?thesis using assms(2) unfolding mount_ok_def by blast
qed

lemma fd_ok_mono: "inodes v \<subseteq>\<^sub>m inodes v' \<Longrightarrow> fd_ok v d \<Longrightarrow> fd_ok v' d"
  using map_le_implies_dom_le by (fastforce simp: fd_ok_def)

definition extends :: "vfs \<Rightarrow> vfs \<Rightarrow> bool" where
  "extends v v' \<longleftrightarrow> inodes v \<subseteq>\<^sub>m inodes v' \<and> mounts v \<subseteq>\<^sub>m mounts v' \<and> g_mountpoints v' = g_mountpoints v \<and> g_root_mountpoint v' = g_root_mountpoint v"

lemma extends_inode: "extends v v' \<Longrightarrow> inode_at v q = Inr n \<Longrightarrow> inode_at v' q = Inr n"
  by (auto simp: extends_def map_le_def dom_def inode_at_def split: option.splits)

lemma extends_mount: "extends v v' \<Longrightarrow> mount_at v m = Inr p \<Longrightarrow> mount_at v' m = Inr p"
  by (auto simp: extends_def map_le_def dom_def mount_at_Inr)

lemma extends_find_child: "extends v v' \<Longrightarrow> find_child v t cs = Inr r \<Longrightarrow> find_child v' t cs = Inr r"
proof (induction cs)
  case (Cons c cs)
  then obtain n where "inode_at v (Some c) = Inr n" by (auto simp: kbind_Inr_iff)
  then show ?case using Cons extends_inode [OF Cons.prems(1), of "Some c" n] by (auto simp: inode_at_Some split: if_splits)
qed simp

lemma extends_find_mount: "extends v v' \<Longrightarrow> find_mount_in v q ms = Inr r \<Longrightarrow> find_mount_in v' q ms = Inr r"
proof (induction ms)
  case (Cons m ms)
  then obtain p where "mount_at v m = Inr p" by (auto simp: kbind_Inr_iff)
  then show ?case using Cons extends_mount [OF Cons.prems(1), of m p] by (auto split: if_splits)
qed simp

lemma extends_lookup:
  assumes "extends v v'" "inode_lookup v q t = Inr r"
  shows "inode_lookup v' q t = Inr r"
proof -
  obtain n where n: "inode_at v q = Inr n" using assms(2) unfolding inode_lookup_def by (rule kbind_InrE)
  then have n': "inode_at v' q = Inr n" by (rule extends_inode [OF assms(1)])
  show ?thesis
  proof (cases "i_class n")
    case DevDirectoryInode
    then obtain p where "mount_at v (i_mountpoint n) = Inr p" using assms(2) n by (auto simp: inode_lookup_def DevDirectoryInode_lookup_def kbind_Inr_iff)
    then show ?thesis using extends_mount [OF assms(1)] assms(2) n n' DevDirectoryInode by (simp add: inode_lookup_def DevDirectoryInode_lookup_def)
  next
    case ProcDirectoryInode
    then obtain p where "mount_at v (i_mountpoint n) = Inr p" using assms(2) n by (auto simp: inode_lookup_def ProcDirectoryInode_lookup_def kbind_Inr_iff)
    then show ?thesis using extends_mount [OF assms(1)] assms(2) n n' ProcDirectoryInode by (simp add: inode_lookup_def ProcDirectoryInode_lookup_def)
  qed (use assms(2) n n' extends_find_child [OF assms(1)] in \<open>auto simp: inode_lookup_def TmpDirectoryInode_lookup_def InitramfsDirectoryInode_lookup_def\<close>)
qed

lemma extends_resolve_name:
  assumes "extends v v'" "resolve_name v q t = Inr r"
  shows "resolve_name v' q t = Inr r"
proof -
  obtain l where l: "inode_lookup v q t = Inr l" using assms(2) unfolding resolve_name_def by (rule kbind_InrE)
  then have l': "inode_lookup v' q t = Inr l" by (rule extends_lookup [OF assms(1)])
  show ?thesis
  proof (cases "l = None")
    case False
    then obtain f where f: "find_mount_at v l = Inr f" using assms(2) l by (auto simp: resolve_name_def kbind_Inr_iff)
    then have "find_mount_at v' l = Inr f" using extends_find_mount [OF assms(1)] assms(1) by (simp add: find_mount_at_def extends_def)
    then show ?thesis using assms(2) l l' f False by (auto simp: resolve_name_def)
  qed (use assms(2) l l' in \<open>simp add: resolve_name_def\<close>)
qed

lemma extends_dotdot:
  assumes "extends v v'" "resolve_dotdot v q = Inr r"
  shows "resolve_dotdot v' q = Inr r"
proof -
  obtain n where n: "inode_at v q = Inr n" using assms(2) unfolding resolve_dotdot_def by (rule kbind_InrE)
  then obtain p where p: "mount_at v (i_mountpoint n) = Inr p" using assms(2) by (auto simp: resolve_dotdot_def kbind_Inr_iff)
  show ?thesis
  proof (cases "q = Some (root_inode p) \<and> mounted_on p \<noteq> None")
    case True
    then obtain k where "inode_at v (mounted_on p) = Inr k" using assms(2) n p by (auto simp: resolve_dotdot_def kbind_Inr_iff)
    then show ?thesis using assms(2) n p True extends_inode [OF assms(1) n] extends_inode [OF assms(1), of "mounted_on p" k] extends_mount [OF assms(1) p]
      by (auto simp: resolve_dotdot_def inode_at_Some)
  next
    case False
    then show ?thesis using assms(2) n p extends_inode [OF assms(1) n] extends_mount [OF assms(1) p] by (auto simp: resolve_dotdot_def)
  qed
qed

lemma extends_resolve_loop: "extends v v' \<Longrightarrow> resolve_loop v c ts = Inr r \<Longrightarrow> resolve_loop v' c ts = Inr r"
proof (induction ts arbitrary: c)
  case (Cons t ts)
  show ?case
  proof (cases "t = [] \<or> t = ''.''")
    case False
    show ?thesis
    proof (cases "t = ''..''")
      case True
      then obtain d where d: "resolve_dotdot v c = Inr d" "resolve_loop v d ts = Inr r" using Cons.prems(2) by (auto simp: kbind_Inr_iff)
      then show ?thesis using Cons.IH Cons.prems(1) extends_dotdot True by simp
    next
      case n: False
      then obtain d where d: "resolve_name v c t = Inr d" "(if d = None then Inr None else resolve_loop v d ts) = Inr r"
        using Cons.prems(2) False by (auto simp: kbind_Inr_iff)
      then show ?thesis using Cons.IH Cons.prems(1) extends_resolve_name n False by (auto split: if_splits)
    qed
  qed (use Cons in simp)
qed simp

lemma extends_resolve_path:
  assumes "extends v v'" "resolve_path v cwd path = Inr r"
  shows "resolve_path v' cwd path = Inr r"
proof -
  obtain m where m: "g_root_mountpoint v = Some m" using assms(2) by (auto simp: resolve_path_def resolve_tokens_def split: option.splits)
  then obtain p where p: "mount_at v m = Inr p" using assms(2) by (auto simp: resolve_path_def resolve_tokens_def kbind_Inr_iff)
  show ?thesis using assms m extends_mount [OF assms(1) p] p extends_resolve_loop [OF assms(1)]
    by (auto simp: resolve_path_def resolve_tokens_def extends_def)
qed

section \<open>A new entry of a directory\<close>

definition add_entry :: "iptr \<Rightarrow> iptr \<Rightarrow> inode \<Rightarrow> inode \<Rightarrow> mount_point \<Rightarrow> vfs \<Rightarrow> vfs" where
  "add_entry w d n k p v = v\<lparr>inodes := (inodes v)(w \<mapsto> k, d \<mapsto> n\<lparr>i_children := i_children n @ [w]\<rparr>),
     mounts := (mounts v)(i_mountpoint n \<mapsto> p), next_obj := max (next_obj v) (w + 1)\<rparr>"

text \<open>\<open>w\<close> is not the address of an inode yet. The entry \<open>k\<close> belongs to the directory \<open>n\<close> at \<open>d\<close>, and \<open>p\<close> is the mount point after it has given a number to the inode.\<close>

definition entry_fits :: "vfs \<Rightarrow> iptr \<Rightarrow> iptr \<Rightarrow> inode \<Rightarrow> inode \<Rightarrow> mount_point \<Rightarrow> bool" where
  "entry_fits v w d n k p \<longleftrightarrow> inodes v w = None \<and> inodes v d = Some n \<and> has_children (i_class n) \<and> i_mountpoint k = i_mountpoint n \<and> i_parent k = Some d \<and>
     i_type k = class_type (i_class k) \<and> \<not> fixed_dir (i_class k) \<and> file_ok k \<and> (has_children (i_class k) \<longrightarrow> i_children k = []) \<and> class_mount (i_class k) (mp_class p) \<and>
     (\<exists>p0. mounts v (i_mountpoint n) = Some p0 \<and> root_inode p = root_inode p0 \<and> mounted_on p = mounted_on p0 \<and> devices (mp_class p) = devices (mp_class p0) \<and>
       class_mount (i_class n) (mp_class p) \<and> (\<forall>c. class_mount c (mp_class p) = class_mount c (mp_class p0)))"

lemma add_entry_sel [simp]:
  "inodes (add_entry w d n k p v) = (inodes v)(w \<mapsto> k, d \<mapsto> n\<lparr>i_children := i_children n @ [w]\<rparr>)"
  "mounts (add_entry w d n k p v) = (mounts v)(i_mountpoint n \<mapsto> p)" "next_obj (add_entry w d n k p v) = max (next_obj v) (w + 1)"
  "fds (add_entry w d n k p v) = fds v" "g_mountpoints (add_entry w d n k p v) = g_mountpoints v" "g_root_mountpoint (add_entry w d n k p v) = g_root_mountpoint v"
  by (simp_all add: add_entry_def)

text \<open>What an old inode is afterwards, and an old mount point.\<close>

lemma add_entry_old:
  assumes "tree_ok v" "entry_fits v w d n k p" "inodes v i = Some x"
  shows "\<exists>x'. inodes (add_entry w d n k p v) i = Some x' \<and> i_parent x' = i_parent x \<and> i_mountpoint x' = i_mountpoint x \<and> i_type x' = i_type x \<and> i_name x' = i_name x \<and>
    i_class x' = i_class x \<and> i_size x' = i_size x"
  using tree_ok_inode [OF assms(1,3)] assms(2,3) by (auto simp: entry_fits_def)

lemma add_entry_mount:
  assumes "entry_fits v w d n k p" "mounts v m = Some x"
  shows "\<exists>x'. mounts (add_entry w d n k p v) m = Some x' \<and> root_inode x' = root_inode x \<and> mounted_on x' = mounted_on x \<and> devices (mp_class x') = devices (mp_class x) \<and>
    (\<forall>c. class_mount c (mp_class x') = class_mount c (mp_class x))"
  using assms by (auto simp: entry_fits_def)

lemma add_entry_inode_ok:
  assumes t: "tree_ok v" and f: "entry_fits v w d n k p" and x: "inode_ok v i x" "inodes v i = Some x" and y: "inodes (add_entry w d n k p v) i = Some y"
  shows "inode_ok (add_entry w d n k p v) i y"
proof -
  let ?v = "add_entry w d n k p v"
  have fresh: "i \<noteq> w" "d \<noteq> w" using tree_ok_inode [OF t] x(2) f by (auto simp: entry_fits_def)
  have y': "i_parent y = i_parent x" "i_mountpoint y = i_mountpoint x" "i_type y = i_type x" "i_class y = i_class x" "i_size y = i_size x"
    using add_entry_old [OF t f x(2)] y by auto
  have ch: "\<exists>l. inodes ?v c = Some l \<and> i_parent l = Some i \<and> i_mountpoint l = i_mountpoint y" if h: "has_children (i_class y)" and c: "c \<in> set (i_children y)" for c
  proof (cases "c \<in> set (i_children x)")
    case True
    then obtain l where "inodes v c = Some l" "i_parent l = Some i" "i_mountpoint l = i_mountpoint x" using x(1) h y'(4) by (auto simp: inode_ok_def)
    then show ?thesis using add_entry_old [OF t f] y'(2) by fastforce
  next
    case False
    then have "c = w" "i = d" "n = x" using c y x(2) fresh f by (auto simp: entry_fits_def split: if_splits)
    then show ?thesis using f fresh y'(2) by (auto simp: entry_fits_def)
  qed
  obtain q where q: "mounts v (i_mountpoint x) = Some q" "class_mount (i_class x) (mp_class q)" "fixed_dir (i_class x) \<longrightarrow> root_inode q = i" using x(1) by (auto simp: inode_ok_def)
  obtain q' where q': "mounts ?v (i_mountpoint x) = Some q'" "root_inode q' = root_inode q" "\<forall>c. class_mount c (mp_class q') = class_mount c (mp_class q)" using add_entry_mount [OF f q(1)] by blast
  have "\<exists>p. mounts ?v (i_mountpoint y) = Some p \<and> class_mount (i_class y) (mp_class p) \<and> (fixed_dir (i_class y) \<longrightarrow> root_inode p = i)"
    using q q' unfolding y'(2,4) by (intro exI [of _ q']) auto
  moreover have "file_ok y" using x(1) y' by (simp add: inode_ok_def file_ok_def)
  moreover have "q \<in> dom (inodes ?v)" if "i_parent y = Some q" for q using x(1) that y'(1) by (auto simp: inode_ok_def)
  moreover have "i_type y = class_type (i_class y)" using x(1) y' by (simp add: inode_ok_def)
  ultimately show ?thesis using ch by (simp only: inode_ok_def) blast
qed

lemma add_entry_mount_ok:
  assumes t: "tree_ok v" and f: "entry_fits v w d n k p" and x: "mount_ok v m x" "mounts v m = Some x" and y: "mounts (add_entry w d n k p v) m = Some y"
  shows "mount_ok (add_entry w d n k p v) m y"
proof -
  have y': "root_inode y = root_inode x" "mounted_on y = mounted_on x" "devices (mp_class y) = devices (mp_class x)" using add_entry_mount [OF f x(2)] y by auto
  have old: "\<exists>l'. inodes (add_entry w d n k p v) i = Some l' \<and> i_parent l' = i_parent l \<and> i_mountpoint l' = i_mountpoint l \<and> i_type l' = i_type l \<and> i_name l' = i_name l" if "inodes v i = Some l" for i l
    using add_entry_old [OF t f that] by blast
  show ?thesis using x(1) unfolding mount_ok_def y' by (intro conjI allI ballI impI; elim conjE) (metis old)+
qed

lemma tree_ok_fd: "tree_ok v \<Longrightarrow> fds v f = Some d \<Longrightarrow> f < next_obj v \<and> fd_ok v d"
  unfolding tree_ok_def by blast

lemma tree_fresh: "tree_ok v \<Longrightarrow> inodes v (next_obj v) = None"
  using tree_ok_inode [of v "next_obj v"] by (cases "inodes v (next_obj v)") auto

lemma fits_fresh: "entry_fits v w d n k p \<Longrightarrow> inodes v w = None"
  by (simp add: entry_fits_def)

lemma add_entry_tree:
  assumes t: "tree_ok v" and f: "entry_fits v w d n k p"
  shows "tree_ok (add_entry w d n k p v)"
proof -
  let ?v = "add_entry w d n k p v"
  have d: "inodes v d = Some n" "\<exists>p0. mounts v (i_mountpoint n) = Some p0" using f by (auto simp: entry_fits_def)
  have fresh: "inodes v w = None" "d \<noteq> w" using fits_fresh [OF f] d by auto
  have new: "inode_ok ?v w k" using f fresh by (auto simp: inode_ok_def entry_fits_def)
  have ok: "i < next_obj ?v \<and> inode_ok ?v i y" if "inodes ?v i = Some y" for i y
  proof (cases "i = w")
    case True
    then show ?thesis using that fresh new by simp
  next
    case False
    then have "\<exists>x. inodes v i = Some x" using that d(1) by (cases "i = d") auto
    then obtain x where x: "inodes v i = Some x" by blast
    then show ?thesis using add_entry_inode_ok [OF t f _ x that] tree_ok_inode [OF t x] by auto
  qed
  have mok: "m < next_obj ?v \<and> mount_ok ?v m y" if "mounts ?v m = Some y" for m y
  proof -
    have "\<exists>x. mounts v m = Some x" using that d(2) by (cases "m = i_mountpoint n") auto
    then obtain x where x: "mounts v m = Some x" by blast
    then show ?thesis using add_entry_mount_ok [OF t f _ x that] tree_ok_mount [OF t x] by auto
  qed
  have fd: "q < next_obj ?v \<and> fd_ok ?v e" if "fds ?v q = Some e" for q e using tree_ok_fd [OF t, of q e] that by (auto simp: fd_ok_def)
  have "set (g_mountpoints ?v) \<subseteq> dom (mounts ?v)" using t by (auto simp: tree_ok_def)
  then show ?thesis using ok mok fd unfolding tree_ok_def by blast
qed

lemma add_entry_ok: "vfs_ok v \<Longrightarrow> entry_fits v w d n k p \<Longrightarrow> vfs_ok (add_entry w d n k p v)"
  using add_entry_tree [of v w d n k p] add_entry_mount [of v w d n k p] by (fastforce simp: vfs_ok_def)

text \<open>Where names lead afterwards.\<close>

lemma find_child_cong: "\<forall>c \<in> set cs. map_option i_name (inodes v c) = map_option i_name (inodes v' c) \<Longrightarrow> find_child v t cs = find_child v' t cs"
proof (induction cs)
  case (Cons c cs)
  then show ?case by (cases "inodes v c"; cases "inodes v' c") (auto simp: inode_at_def)
qed simp

lemma find_child_append: "find_child v t (cs @ ds) = kbind (find_child v t cs) (\<lambda>r. if r = None then find_child v t ds else Inr r)"
proof (induction cs)
  case (Cons c cs)
  then show ?case by (cases "inode_at v (Some c)") (auto simp: inode_at_Some)
qed simp

definition same_mounts :: "vfs \<Rightarrow> vfs \<Rightarrow> bool" where
  "same_mounts v v' \<longleftrightarrow> g_mountpoints v' = g_mountpoints v \<and>
     (\<forall>m. map_option (\<lambda>p. (mounted_on p, root_inode p)) (mounts v' m) = map_option (\<lambda>p. (mounted_on p, root_inode p)) (mounts v m))"

lemma same_mounts_find:
  assumes "same_mounts v v'"
  shows "kbind (find_mount_at v' q) (\<lambda>mp. Inr (case mp of None \<Rightarrow> x | Some mp \<Rightarrow> Some (root_inode mp))) =
    kbind (find_mount_at v q) (\<lambda>mp. Inr (case mp of None \<Rightarrow> x | Some mp \<Rightarrow> Some (root_inode mp)))"
proof -
  have "kbind (find_mount_in v' q ms) (\<lambda>mp. Inr (case mp of None \<Rightarrow> x | Some mp \<Rightarrow> Some (root_inode mp))) =
    kbind (find_mount_in v q ms) (\<lambda>mp. Inr (case mp of None \<Rightarrow> x | Some mp \<Rightarrow> Some (root_inode mp)))" for ms
  proof (induction ms)
    case (Cons m ms)
    have "map_option (\<lambda>p. (mounted_on p, root_inode p)) (mounts v' m) = map_option (\<lambda>p. (mounted_on p, root_inode p)) (mounts v m)" using assms by (simp add: same_mounts_def)
    then show ?case using Cons by (cases "mounts v m"; cases "mounts v' m") (auto simp: mount_at_def)
  qed simp
  then show ?thesis using assms by (simp add: find_mount_at_def same_mounts_def)
qed

lemma add_entry_same_mounts: "entry_fits v w d n k p \<Longrightarrow> same_mounts v (add_entry w d n k p v)"
  by (auto simp: same_mounts_def entry_fits_def)

lemma add_entry_lookup:
  assumes t: "tree_ok v" and f: "entry_fits v w d n k p" and e: "inodes v e = Some x"
  shows "inode_lookup (add_entry w d n k p v) (Some e) s =
    (if e = d \<and> s = i_name k \<and> inode_lookup v (Some d) s = Inr None then Inr (Some w) else inode_lookup v (Some e) s)"
proof -
  let ?v = "add_entry w d n k p v"
  have d: "inodes v d = Some n" "has_children (i_class n)" using f by (auto simp: entry_fits_def)
  have fresh: "inodes v w = None" "d \<noteq> w" "e \<noteq> w" using fits_fresh [OF f] d e by auto
  obtain y where y: "inodes ?v e = Some y" "i_class y = i_class x" "i_mountpoint y = i_mountpoint x" using add_entry_old [OF t f e] by blast
  have ok: "inode_ok v e x" using tree_ok_inode [OF t e] by blast
  show ?thesis
  proof (cases "has_children (i_class x)")
    case True
    then have "\<forall>c \<in> set (i_children x). map_option i_name (inodes ?v c) = map_option i_name (inodes v c)" using ok add_entry_old [OF t f] by (fastforce simp: inode_ok_def)
    then have same: "find_child ?v s (i_children x) = find_child v s (i_children x)" by (rule find_child_cong)
    have last: "find_child ?v s [w] = Inr (if i_name k = s then Some w else None)" using fresh by (simp add: inode_at_def)
    have l: "inode_lookup v (Some e) s = find_child v s (i_children x)" "inode_lookup ?v (Some e) s = find_child ?v s (i_children y)"
      using True e y by (auto simp: inode_lookup_def inode_at_Some has_children_def TmpDirectoryInode_lookup_def InitramfsDirectoryInode_lookup_def)
    show ?thesis
    proof (cases "e = d")
      case True
      then have c: "i_children y = i_children x @ [w]" using y(1) e d(1) by auto
      have "inode_lookup ?v (Some e) s = kbind (find_child v s (i_children x)) (\<lambda>r. if r = None then Inr (if i_name k = s then Some w else None) else Inr r)"
        unfolding l(2) c find_child_append same last ..
      then show ?thesis using True l(1) by (cases "find_child v s (i_children x)") auto
    next
      case False
      then have "i_children y = i_children x" using y(1) e fresh by auto
      then show ?thesis using l same False by simp
    qed
  next
    case False
    then have "e \<noteq> d" using d e by auto
    have "mount_at ?v (i_mountpoint x) = mount_at v (i_mountpoint x)" if "fixed_dir (i_class x)"
    proof (cases "i_mountpoint x = i_mountpoint n")
      case True
      have "class_mount (i_class n) (mp_class (the (mounts v (i_mountpoint n))))" using f by (auto simp: entry_fits_def)
      moreover have "class_mount (i_class x) (mp_class (the (mounts v (i_mountpoint n))))" using ok True by (auto simp: inode_ok_def)
      ultimately have False using that d(2) by (cases "mp_class (the (mounts v (i_mountpoint n)))") (auto simp: fixed_dir_def has_children_def)
      then show ?thesis ..
    qed (simp add: mount_at_def)
    then show ?thesis using False e y \<open>e \<noteq> d\<close>
      by (auto simp: inode_lookup_def inode_at_Some has_children_def fixed_dir_def DevDirectoryInode_lookup_def ProcDirectoryInode_lookup_def split: inode_class.splits)
  qed
qed

lemma add_entry_resolve_name:
  assumes t: "tree_ok v" and f: "entry_fits v w d n k p" and e: "inodes v e = Some x"
  shows "resolve_name (add_entry w d n k p v) (Some e) s =
    (if e = d \<and> s = i_name k \<and> inode_lookup v (Some d) s = Inr None then Inr (Some w) else resolve_name v (Some e) s)"
proof (cases "e = d \<and> s = i_name k \<and> inode_lookup v (Some d) s = Inr None")
  case True
  have "find_mount_at v (Some w) = Inr None"
  proof -
    obtain r where r: "find_mount_at v (Some w) = Inr r" "\<And>p. r = Some p \<Longrightarrow> \<exists>m. mounts v m = Some p \<and> mount_ok v m p \<and> mounted_on p = Some w"
      by (rule find_mount_at_ok [OF t]) blast
    have "r = None" using r(2) fits_fresh [OF f] by (cases r) (auto simp: mount_ok_def)
    then show ?thesis using r(1) by simp
  qed
  then have "kbind (find_mount_at (add_entry w d n k p v) (Some w)) (\<lambda>mp. Inr (case mp of None \<Rightarrow> Some w | Some mp \<Rightarrow> Some (root_inode mp))) = Inr (Some w)"
    using same_mounts_find [OF add_entry_same_mounts [OF f], of "Some w" "Some w"] by simp
  then show ?thesis using True add_entry_lookup [OF t f e, of s] unfolding resolve_name_def by auto
next
  case False
  then have "inode_lookup (add_entry w d n k p v) (Some e) s = inode_lookup v (Some e) s" using add_entry_lookup [OF t f e, of s] by auto
  then have "resolve_name (add_entry w d n k p v) (Some e) s = resolve_name v (Some e) s" unfolding resolve_name_def same_mounts_find [OF add_entry_same_mounts [OF f]] by simp
  then show ?thesis using False by auto
qed

lemma add_entry_leaf:
  assumes t: "tree_ok v" and f: "entry_fits v w d n k p"
  shows "resolve_name (add_entry w d n k p v) (Some w) s = Inr None"
proof -
  have "inodes v d = Some n" using f by (auto simp: entry_fits_def)
  then have "inodes (add_entry w d n k p v) w = Some k" using fits_fresh [OF f] by auto
  then have "inode_lookup (add_entry w d n k p v) (Some w) s = Inr None" using f
    by (auto simp: inode_lookup_def inode_at_Some entry_fits_def has_children_def fixed_dir_def TmpDirectoryInode_lookup_def InitramfsDirectoryInode_lookup_def split: inode_class.splits)
  then show ?thesis by (simp add: resolve_name_def)
qed

text \<open>A new entry adds one path and changes no other.\<close>

lemma add_entry_walk:
  assumes t: "tree_ok v" and f: "entry_fits v w d n k p" and r: "r \<in> dom (inodes v)" and none: "inode_lookup v (Some d) (i_name k) = Inr None" and pl: "plain_name (i_name k)"
  shows "walk (add_entry w d n k p v) r ns i \<longleftrightarrow> walk v r ns i \<or> (i = w \<and> (\<exists>ms. ns = ms @ [i_name k] \<and> walk v r ms d))"
proof
  have old: "walk (add_entry w d n k p v) r ns i" if "walk v r ns i" for ns i using that
  proof (induction rule: walk.induct)
    case (name ns e s i)
    obtain x where x: "inodes v e = Some x" using walk_inode [OF t r name.hyps(1)] by auto
    have "\<not> (e = d \<and> s = i_name k)" using name.hyps(3) none by (auto simp: resolve_name_def)
    then have "resolve_name (add_entry w d n k p v) (Some e) s = Inr (Some i)" using name.hyps(3) add_entry_resolve_name [OF t f x, of s] by auto
    then show ?case using name walk.name by blast
  qed (rule walk.here)
  have dn: "inodes v d = Some n" using f by (simp add: entry_fits_def)
  assume "walk v r ns i \<or> (i = w \<and> (\<exists>ms. ns = ms @ [i_name k] \<and> walk v r ms d))"
  then show "walk (add_entry w d n k p v) r ns i"
  proof
    assume "i = w \<and> (\<exists>ms. ns = ms @ [i_name k] \<and> walk v r ms d)"
    then obtain ms where ms: "i = w" "ns = ms @ [i_name k]" "walk v r ms d" by blast
    have "resolve_name (add_entry w d n k p v) (Some d) (i_name k) = Inr (Some i)" using add_entry_resolve_name [OF t f dn, of "i_name k"] none ms(1) by simp
    then show ?thesis using walk.name [OF old [OF ms(3)] pl] ms(2) by simp
  qed (rule old)
next
  assume "walk (add_entry w d n k p v) r ns i"
  then show "walk v r ns i \<or> (i = w \<and> (\<exists>ms. ns = ms @ [i_name k] \<and> walk v r ms d))"
  proof (induction rule: walk.induct)
    case (name ns e s i)
    show ?case
    proof (cases "walk v r ns e")
      case True
      obtain x where x: "inodes v e = Some x" using walk_inode [OF t r True] by auto
      show ?thesis
      proof (cases "e = d \<and> s = i_name k")
        case y: True
        then have "i = w" using name.hyps(3) add_entry_resolve_name [OF t f x, of s] none by simp
        then show ?thesis using y True by auto
      next
        case False
        then have "resolve_name v (Some e) s = Inr (Some i)" using name.hyps(3) add_entry_resolve_name [OF t f x, of s] by (auto split: if_splits)
        then show ?thesis using walk.name [OF True name.hyps(2)] by blast
      qed
    next
      case False
      then have "e = w" using name.IH by blast
      then show ?thesis using name.hyps(3) add_entry_leaf [OF t f, of s] by simp
    qed
  qed (simp add: walk.here)
qed

end
