(* ===== verification/Vfs_Calls.thy ===== *)
theory Vfs_Calls
  imports Vfs_Ops
begin

text \<open>
  The calls of \<^verbatim>\<open>fs.cpp\<close> on a well-formed file system: making a directory, opening and listing, mounting, and \<^verbatim>\<open>fs::init\<close>.
\<close>

section \<open>Directories of tmpfs\<close>

definition tmp_dir :: "string \<Rightarrow> iptr \<Rightarrow> inode \<Rightarrow> int \<Rightarrow> vfs \<Rightarrow> inode" where
  "tmp_dir t d n c v = (DirectoryInode_ctor (i_mountpoint n) (raw_inode v (next_obj v)))\<lparr>i_name := t, i_parent := Some d, i_ino := word_of_int c, i_class := TmpDirectoryInode\<rparr>"

definition tmp_file :: "string \<Rightarrow> iptr \<Rightarrow> inode \<Rightarrow> int \<Rightarrow> vfs \<Rightarrow> inode" where
  "tmp_file t d n c v = (Inode_ctor (i_mountpoint n) (raw_inode v (next_obj v)))\<lparr>i_name := t, i_type := REGULAR, i_parent := Some d, i_ino := word_of_int c,
     i_size := 0, i_class := TmpFileInode kvector_new\<rparr>"

lemma tmp_new_entry:
  assumes "inodes v d = Some n" "mounts v (i_mountpoint n) = Some p" "mp_class p = TmpMountPoint c" "d \<noteq> next_obj v"
  shows "kbind (TmpDirectoryInode_new t d v) (\<lambda>(c, v). kbind (add_child d c v) (\<lambda>v. Inr (r, v))) = Inr (r, add_entry (next_obj v) d n (tmp_dir t d n c v) (p\<lparr>mp_class := TmpMountPoint (c + 1)\<rparr>) v)"
    and "kbind (TmpFileInode_new t d v) (\<lambda>(c, v). kbind (add_child d c v) (\<lambda>v. Inr (r, v))) = Inr (r, add_entry (next_obj v) d n (tmp_file t d n c v) (p\<lparr>mp_class := TmpMountPoint (c + 1)\<rparr>) v)"
  using assms
  by (simp_all add: TmpDirectoryInode_new_def TmpFileInode_new_def inode_at_Some tmp_next_ino_def mount_at_Some new_inode_def set_mount_def set_inode_def add_child_def
      add_entry_def tmp_dir_def tmp_file_def)

lemma tmp_entry_fits:
  assumes "tree_ok v" "inodes v d = Some n" "i_class n = TmpDirectoryInode" "mounts v (i_mountpoint n) = Some p" "mp_class p = TmpMountPoint c"
  shows "entry_fits v (next_obj v) d n (tmp_dir t d n c v) (p\<lparr>mp_class := TmpMountPoint (c + 1)\<rparr>)" "entry_fits v (next_obj v) d n (tmp_file t d n c v) (p\<lparr>mp_class := TmpMountPoint (c + 1)\<rparr>)"
proof -
  have "class_mount x (TmpMountPoint (c + 1)) = class_mount x (TmpMountPoint c)" for x by (cases x) auto
  then show "entry_fits v (next_obj v) d n (tmp_dir t d n c v) (p\<lparr>mp_class := TmpMountPoint (c + 1)\<rparr>)" "entry_fits v (next_obj v) d n (tmp_file t d n c v) (p\<lparr>mp_class := TmpMountPoint (c + 1)\<rparr>)"
    using assms tree_fresh [OF assms(1)] by (auto simp: entry_fits_def has_children_def fixed_dir_def tmp_dir_def tmp_file_def file_ok_def DirectoryInode_ctor_def Inode_ctor_def kvector_new_def vec_ok_def)
qed

lemma tmp_dir_mount:
  assumes "tree_ok v" "inodes v d = Some n" "i_class n = TmpDirectoryInode"
  obtains p c where "mounts v (i_mountpoint n) = Some p" "mp_class p = TmpMountPoint c" "d \<noteq> next_obj v"
proof -
  obtain p where p: "mounts v (i_mountpoint n) = Some p" "class_mount TmpDirectoryInode (mp_class p)" using tree_ok_inode [OF assms(1,2)] assms(3) by (auto simp: inode_ok_def)
  then obtain c where "mp_class p = TmpMountPoint c" by (cases "mp_class p") auto
  moreover have "d \<noteq> next_obj v" using tree_ok_inode [OF assms(1,2)] by auto
  ultimately show thesis using that p(1) by blast
qed

text \<open>What \<^verbatim>\<open>mkdir\<close> returns in a directory of each class.\<close>

definition mkdir_result :: "vfs \<Rightarrow> iptr \<Rightarrow> string \<Rightarrow> int" where
  "mkdir_result v d t = (case i_class (the (inodes v d)) of TmpDirectoryInode \<Rightarrow> if inode_lookup v (Some d) t = Inr None then 0 else - 1
     | InitramfsDirectoryInode \<Rightarrow> - EROFS | DevDirectoryInode \<Rightarrow> 0 | ProcDirectoryInode \<Rightarrow> 0 | _ \<Rightarrow> - 1)"

definition makes_dir :: "vfs \<Rightarrow> iptr \<Rightarrow> string \<Rightarrow> bool" where
  "makes_dir v d t \<longleftrightarrow> i_class (the (inodes v d)) = TmpDirectoryInode \<and> inode_lookup v (Some d) t = Inr None"

definition fresh_dir :: "vfs \<Rightarrow> iptr \<Rightarrow> bool" where
  "fresh_dir v i \<longleftrightarrow> (\<exists>k. inodes v i = Some k \<and> i_type k = DIRECTORY \<and> i_class k = TmpDirectoryInode \<and> i_children k = [])"

lemma tmp_mkdir_new:
  assumes ok: "tree_ok v" and n: "inodes v d = Some n" "i_class n = TmpDirectoryInode" and l: "inode_lookup v (Some d) t = Inr None"
  shows "\<exists>k p. TmpDirectoryInode_mkdir t d v = Inr (0, add_entry (next_obj v) d n k p v) \<and> entry_fits v (next_obj v) d n k p \<and> i_name k = t \<and> fresh_dir (add_entry (next_obj v) d n k p v) (next_obj v)"
    and "\<exists>k p. TmpDirectoryInode_create t d v = Inr (0, add_entry (next_obj v) d n k p v) \<and> entry_fits v (next_obj v) d n k p \<and> i_name k = t \<and> i_class k = TmpFileInode kvector_new"
proof -
  obtain p c where p: "mounts v (i_mountpoint n) = Some p" "mp_class p = TmpMountPoint c" "d \<noteq> next_obj v" by (rule tmp_dir_mount [OF ok n])
  have lk: "TmpDirectoryInode_lookup v n t = Inr None" using l n by (simp add: inode_lookup_def inode_at_Some)
  have "fresh_dir (add_entry (next_obj v) d n (tmp_dir t d n c v) (p\<lparr>mp_class := TmpMountPoint (c + 1)\<rparr>) v) (next_obj v)"
    using p(3) by (auto simp: fresh_dir_def tmp_dir_def DirectoryInode_ctor_def)
  moreover have "TmpDirectoryInode_mkdir t d v = Inr (0, add_entry (next_obj v) d n (tmp_dir t d n c v) (p\<lparr>mp_class := TmpMountPoint (c + 1)\<rparr>) v)"
    using n lk tmp_new_entry(1) [OF n(1) p, of t "0 :: int"] by (simp add: TmpDirectoryInode_mkdir_def inode_at_Some)
  ultimately show "\<exists>k p. TmpDirectoryInode_mkdir t d v = Inr (0, add_entry (next_obj v) d n k p v) \<and> entry_fits v (next_obj v) d n k p \<and> i_name k = t \<and> fresh_dir (add_entry (next_obj v) d n k p v) (next_obj v)"
    using tmp_entry_fits(1) [OF ok n p(1,2), of t] by (intro exI [of _ "tmp_dir t d n c v"] exI [of _ "p\<lparr>mp_class := TmpMountPoint (c + 1)\<rparr>"]) (simp add: tmp_dir_def)
  have "TmpDirectoryInode_create t d v = Inr (0, add_entry (next_obj v) d n (tmp_file t d n c v) (p\<lparr>mp_class := TmpMountPoint (c + 1)\<rparr>) v)"
    using n lk tmp_new_entry(2) [OF n(1) p, of t "0 :: int"] by (simp add: TmpDirectoryInode_create_def inode_at_Some)
  then show "\<exists>k p. TmpDirectoryInode_create t d v = Inr (0, add_entry (next_obj v) d n k p v) \<and> entry_fits v (next_obj v) d n k p \<and> i_name k = t \<and> i_class k = TmpFileInode kvector_new"
    using tmp_entry_fits(2) [OF ok n p(1,2), of t] by (intro exI [of _ "tmp_file t d n c v"] exI [of _ "p\<lparr>mp_class := TmpMountPoint (c + 1)\<rparr>"]) (simp add: tmp_file_def)
qed

text \<open>An entry that is new adds its path and no other.\<close>

lemma add_entry_located:
  assumes ok: "vfs_ok v" and f: "entry_fits v w d n k p" and none: "inode_lookup v (Some d) (i_name k) = Inr None" and pl: "plain_name (i_name k)"
  shows "located (add_entry w d n k p v) ns i \<longleftrightarrow> located v ns i \<or> (i = w \<and> (\<exists>ms. ns = ms @ [i_name k] \<and> located v ms d))"
proof -
  have root: "root_of (add_entry w d n k p v) r \<longleftrightarrow> root_of v r" for r using f by (auto simp: root_of_def entry_fits_def)
  have "walk (add_entry w d n k p v) r ns i \<longleftrightarrow> walk v r ns i \<or> (i = w \<and> (\<exists>ms. ns = ms @ [i_name k] \<and> walk v r ms d))" if "root_of v r" for r
    using add_entry_walk [OF vfs_ok_tree [OF ok] f _ none pl, of r] root_ok [OF ok that] by blast
  then show ?thesis unfolding located_def root by blast
qed

lemma inode_mkdir_ok:
  assumes ok: "vfs_ok v" and n: "inodes v d = Some n" "i_type n = DIRECTORY" and pl: "plain_name t"
  shows "\<exists>v'. inode_mkdir t d v = Inr (mkdir_result v d t, v') \<and> vfs_ok v' \<and> (if makes_dir v d t
    then fresh_dir v' (next_obj v) \<and> (\<forall>ns i. located v' ns i \<longleftrightarrow> located v ns i \<or> (i = next_obj v \<and> (\<exists>ms. ns = ms @ [t] \<and> located v ms d))) else v' = v)"
proof (cases "makes_dir v d t")
  case True
  then have m: "i_class n = TmpDirectoryInode" "inode_lookup v (Some d) t = Inr None" using n by (auto simp: makes_dir_def)
  then obtain k p where k: "TmpDirectoryInode_mkdir t d v = Inr (0, add_entry (next_obj v) d n k p v)" "entry_fits v (next_obj v) d n k p" "i_name k = t" "fresh_dir (add_entry (next_obj v) d n k p v) (next_obj v)"
    using tmp_mkdir_new(1) [OF vfs_ok_tree [OF ok] n(1)] by blast
  have "inode_mkdir t d v = Inr (mkdir_result v d t, add_entry (next_obj v) d n k p v)" using m n k(1) by (simp add: inode_mkdir_def inode_at_Some mkdir_result_def)
  then show ?thesis using True k add_entry_ok [OF ok k(2)] add_entry_located [OF ok k(2)] m(2) pl by auto
next
  case False
  have dir: "i_class n \<in> {TmpDirectoryInode, InitramfsDirectoryInode, DevDirectoryInode, ProcDirectoryInode}"
  proof -
    have "class_type (i_class n) = DIRECTORY" using tree_ok_inode [OF vfs_ok_tree [OF ok] n(1)] n(2) by (simp add: inode_ok_def)
    then show ?thesis unfolding class_type_dir by (auto simp: has_children_def fixed_dir_def)
  qed
  have "inode_mkdir t d v = Inr (mkdir_result v d t, v)"
  proof (cases "i_class n = TmpDirectoryInode")
    case True
    obtain r where r: "inode_lookup v (Some d) t = Inr r" using inode_lookup_ok [OF vfs_ok_tree [OF ok] n(1)] by blast
    then have "r \<noteq> None" "TmpDirectoryInode_lookup v n t = Inr r" using False True n by (auto simp: makes_dir_def inode_lookup_def inode_at_Some)
    then show ?thesis using True n r by (auto simp: inode_mkdir_def inode_at_Some TmpDirectoryInode_mkdir_def mkdir_result_def)
  qed (use dir n in \<open>auto simp: inode_mkdir_def inode_at_Some mkdir_result_def\<close>)
  then show ?thesis using False ok by simp
qed

section \<open>Mounting\<close>

text \<open>The objects of a file system that was just made: \<open>p\<close> is its mount point at \<open>m\<close>, not yet mounted anywhere.\<close>

definition fresh_node :: "mptr \<Rightarrow> mount_point \<Rightarrow> iptr \<Rightarrow> inode \<Rightarrow> bool" where
  "fresh_node m p i n \<longleftrightarrow> m < i \<and> i_mountpoint n = m \<and> i_type n = class_type (i_class n) \<and> class_mount (i_class n) (mp_class p) \<and> file_ok n \<and>
     (has_children (i_class n) \<longrightarrow> i_children n = []) \<and> (if i = root_inode p then i_type n = DIRECTORY \<and> i_name n = []
      else i_parent n = Some (root_inode p) \<and> \<not> fixed_dir (i_class n)) \<and> (i \<in> devices (mp_class p) \<longrightarrow> i_type n = CHAR_DEVICE)"

definition fresh_fs :: "vfs \<Rightarrow> mptr \<Rightarrow> mount_point \<Rightarrow> vfs \<Rightarrow> bool" where
  "fresh_fs v m p v1 \<longleftrightarrow> m = next_obj v \<and> mounts v1 = (mounts v)(m \<mapsto> p) \<and> next_obj v < next_obj v1 \<and> fds v1 = fds v \<and> g_mountpoints v1 = g_mountpoints v \<and>
     g_root_mountpoint v1 = g_root_mountpoint v \<and> (\<exists>news. inodes v1 = inodes v ++ news \<and> (\<forall>i n. news i = Some n \<longrightarrow> i < next_obj v1 \<and> fresh_node m p i n) \<and>
       root_inode p \<in> dom news \<and> devices (mp_class p) \<subseteq> dom news)"

lemma map_add_upd: "f(x \<mapsto> y) = f ++ [x \<mapsto> y]" "(f ++ g)(x \<mapsto> y) = f ++ g(x \<mapsto> y)"
  by auto

lemmas mount_defs = new_mount_def new_inode_def set_mount_def set_inode_def mount_at_def inode_at_def tmp_next_ino_def Let_def

lemma TmpMountPoint_fresh: "\<exists>p v1. TmpMountPoint_new v = Inr (next_obj v, v1) \<and> fresh_fs v (next_obj v) p v1 \<and> i_class (the (inodes v1 (root_inode p))) = TmpDirectoryInode"
proof -
  let ?m = "next_obj v"
  let ?p = "(raw_mount v ?m)\<lparr>root_inode := ?m + 1, mp_class := TmpMountPoint 2\<rparr>"
  let ?r = "(TmpDirectoryInode_root ?m (raw_inode v (?m + 1)))\<lparr>i_ino := 1\<rparr>"
  let ?v = "v\<lparr>next_obj := ?m + 2, mounts := (mounts v)(?m \<mapsto> ?p), inodes := (inodes v)(?m + 1 \<mapsto> ?r)\<rparr>"
  have "TmpMountPoint_new v = Inr (?m, ?v)" by (simp add: TmpMountPoint_new_def mount_defs)
  moreover have "fresh_node ?m ?p (?m + 1) ?r" by (simp add: fresh_node_def TmpDirectoryInode_root_def DirectoryInode_ctor_def Inode_ctor_def file_ok_def fixed_dir_def)
  then have "fresh_fs v ?m ?p ?v" unfolding fresh_fs_def by (intro conjI exI [of _ "[?m + 1 \<mapsto> ?r]"]) (auto split: if_splits)
  moreover have "i_class (the (inodes ?v (root_inode ?p))) = TmpDirectoryInode" by (simp add: TmpDirectoryInode_root_def)
  ultimately show ?thesis by blast
qed

lemma ProcMountPoint_fresh:
  "\<exists>p v1 s. ProcMountPoint_new v = Inr (next_obj v, v1) \<and> fresh_fs v (next_obj v) p v1 \<and> i_class (the (inodes v1 (root_inode p))) = ProcDirectoryInode \<and>
    mp_class p = ProcMountPoint s \<and> i_class (the (inodes v1 s)) = ProcSelfInode"
proof -
  let ?m = "next_obj v"
  let ?p = "(raw_mount v ?m)\<lparr>root_inode := ?m + 1, mp_class := ProcMountPoint (?m + 2)\<rparr>"
  let ?r = "ProcDirectoryInode_ctor ?m PROCFS_ROOT_INODE (raw_inode v (?m + 1))"
  let ?s = "ProcSelfInode_ctor ?m (?m + 1) (PROCFS_ROOT_INODE + 1) (raw_inode v (?m + 2))"
  let ?v = "v\<lparr>next_obj := ?m + 3, inodes := (inodes v)(?m + 1 \<mapsto> ?r, ?m + 2 \<mapsto> ?s), mounts := (mounts v)(?m \<mapsto> ?p)\<rparr>"
  have "ProcMountPoint_new v = Inr (?m, ?v)" by (simp add: ProcMountPoint_new_def mount_defs numeral_3_eq_3)
  moreover have "fresh_node ?m ?p (?m + 1) ?r" by (simp add: fresh_node_def ProcDirectoryInode_ctor_def DirectoryInode_ctor_def Inode_ctor_def file_ok_def fixed_dir_def has_children_def)
  moreover have "fresh_node ?m ?p (?m + 2) ?s" by (simp add: fresh_node_def ProcSelfInode_ctor_def Inode_ctor_def file_ok_def fixed_dir_def has_children_def)
  ultimately have "ProcMountPoint_new v = Inr (?m, ?v)" "fresh_fs v ?m ?p ?v" unfolding fresh_fs_def
    by (simp, intro conjI exI [of _ "[?m + 1 \<mapsto> ?r, ?m + 2 \<mapsto> ?s]"]) (auto split: if_splits)
  moreover have "i_class (the (inodes ?v (root_inode ?p))) = ProcDirectoryInode" "i_class (the (inodes ?v (?m + 2))) = ProcSelfInode"
    by (simp_all add: ProcDirectoryInode_ctor_def ProcSelfInode_ctor_def)
  moreover have "mp_class ?p = ProcMountPoint (?m + 2)" by simp
  ultimately show ?thesis by blast
qed

lemma DevMountPoint_fresh:
  "\<exists>p v1 a b c t u. DevMountPoint_new v = Inr (next_obj v, v1) \<and> fresh_fs v (next_obj v) p v1 \<and> i_class (the (inodes v1 (root_inode p))) = DevDirectoryInode \<and>
    mp_class p = DevMountPoint a b c \<and> i_class (the (inodes v1 a)) = DevNullInode \<and> i_class (the (inodes v1 b)) = DevTtyInode t \<and> i_class (the (inodes v1 c)) = DevTtyInode u"
proof -
  let ?m = "next_obj v"
  let ?p = "(raw_mount v ?m)\<lparr>root_inode := ?m + 1, mp_class := DevMountPoint (?m + 2) (?m + 3) (?m + 4)\<rparr>"
  let ?r = "DevDirectoryInode_ctor ?m DEV_ROOT_INO (raw_inode v (?m + 1))"
  let ?a = "DevNullInode_ctor ?m (?m + 1) DEV_NULL_INO (raw_inode v (?m + 2))"
  let ?b = "DevTtyInode_ctor (g_console v) ?m (?m + 1) DEV_TTY1_INO (raw_inode v (?m + 3))"
  let ?c = "DevTtyInode_ctor (g_console v) ?m (?m + 1) DEV_TTY2_INO (raw_inode v (?m + 4))"
  let ?v = "v\<lparr>next_obj := ?m + 5, inodes := (inodes v)(?m + 1 \<mapsto> ?r, ?m + 2 \<mapsto> ?a, ?m + 3 \<mapsto> ?b, ?m + 4 \<mapsto> ?c), mounts := (mounts v)(?m \<mapsto> ?p)\<rparr>"
  have "DevMountPoint_new v = Inr (?m, ?v)" by (simp add: DevMountPoint_new_def mount_defs eval_nat_numeral)
  moreover have "fresh_node ?m ?p (?m + 1) ?r" by (simp add: fresh_node_def DevDirectoryInode_ctor_def DirectoryInode_ctor_def Inode_ctor_def file_ok_def fixed_dir_def has_children_def)
  moreover have "fresh_node ?m ?p (?m + 2) ?a" "fresh_node ?m ?p (?m + 3) ?b" "fresh_node ?m ?p (?m + 4) ?c"
    by (simp_all add: fresh_node_def DevNullInode_ctor_def DevTtyInode_ctor_def Inode_ctor_def file_ok_def fixed_dir_def has_children_def)
  ultimately have "DevMountPoint_new v = Inr (?m, ?v)" "fresh_fs v ?m ?p ?v" unfolding fresh_fs_def
    by (simp, intro conjI exI [of _ "[?m + 1 \<mapsto> ?r, ?m + 2 \<mapsto> ?a, ?m + 3 \<mapsto> ?b, ?m + 4 \<mapsto> ?c]"]) (auto split: if_splits)
  moreover have "i_class (the (inodes ?v (root_inode ?p))) = DevDirectoryInode" "i_class (the (inodes ?v (?m + 2))) = DevNullInode"
    "i_class (the (inodes ?v (?m + 3))) = DevTtyInode (tty_new (g_console v))" "i_class (the (inodes ?v (?m + 4))) = DevTtyInode (tty_new (g_console v))"
    by (simp_all add: DevDirectoryInode_ctor_def DevNullInode_ctor_def DevTtyInode_ctor_def)
  moreover have "mp_class ?p = DevMountPoint (?m + 2) (?m + 3) (?m + 4)" by simp
  ultimately show ?thesis by blast
qed

text \<open>The state after \<^verbatim>\<open>fs::mount\<close>.\<close>

definition mounted :: "mptr \<Rightarrow> mount_point \<Rightarrow> iptr option \<Rightarrow> string \<Rightarrow> vfs \<Rightarrow> vfs" where
  "mounted m p on path v1 = v1\<lparr>mounts := (mounts v1)(m \<mapsto> p\<lparr>mounted_on := on, mp_path := path\<rparr>),
     inodes := (inodes v1)(root_inode p \<mapsto> (the (inodes v1 (root_inode p)))\<lparr>i_parent := on\<rparr>), g_mountpoints := g_mountpoints v1 @ [m]\<rparr>"

definition mount_place :: "vfs \<Rightarrow> iptr option \<Rightarrow> bool" where
  "mount_place v on \<longleftrightarrow> (\<forall>q. on = Some q \<longrightarrow> (\<exists>n. inodes v q = Some n \<and> i_type n = DIRECTORY \<and> i_parent n \<noteq> None))"

lemma tree_fresh_ge: "tree_ok v \<Longrightarrow> next_obj v \<le> i \<Longrightarrow> inodes v i = None \<and> mounts v i = None"
  using tree_ok_inode [of v i] tree_ok_mount [of v i] by (cases "inodes v i"; cases "mounts v i") auto

lemma fresh_fs_old:
  assumes "tree_ok v" "fresh_fs v m p v1" "inodes v i = Some n"
  shows "inodes v1 i = Some n \<and> i \<noteq> root_inode p \<and> i_mountpoint n \<noteq> m"
proof -
  obtain news where news: "inodes v1 = inodes v ++ news" "\<forall>i n. news i = Some n \<longrightarrow> i < next_obj v1 \<and> fresh_node m p i n" "root_inode p \<in> dom news" and m: "m = next_obj v"
    using assms(2) unfolding fresh_fs_def by blast
  have lt: "i < m" "i_mountpoint n < m" using tree_ok_inode [OF assms(1,3)] tree_ok_mount [OF assms(1)] m by (auto simp: inode_ok_def)
  moreover have "m < j" if "news j = Some k" for j k using news(2) that unfolding fresh_node_def by blast
  ultimately have "news i = None" by (cases "news i") fastforce+
  then show ?thesis using news lt assms(3) by (auto simp: map_add_def)
qed

lemma fresh_fs_extends:
  assumes "tree_ok v" "fresh_fs v m p v1"
  shows "extends v v1"
proof -
  have "inodes v \<subseteq>\<^sub>m inodes v1" using fresh_fs_old [OF assms] by (fastforce simp: map_le_def)
  moreover have "mounts v \<subseteq>\<^sub>m mounts v1" using assms tree_fresh_ge [OF assms(1), of m] by (auto simp: fresh_fs_def map_le_def)
  ultimately show ?thesis using assms(2) by (auto simp: extends_def fresh_fs_def)
qed

lemma mounted_inodes:
  assumes "tree_ok v" "fresh_fs v m p v1" "inodes v i = Some n"
  shows "inodes (mounted m p on path v1) i = Some n"
  using fresh_fs_old [OF assms] by (simp add: mounted_def)

lemma mounted_mounts:
  assumes "tree_ok v" "fresh_fs v m p v1" "mounts v i = Some n"
  shows "mounts (mounted m p on path v1) i = Some n"
  using assms tree_fresh_ge [OF assms(1), of m] by (auto simp: mounted_def fresh_fs_def)

lemma mounted_ok:
  assumes t: "tree_ok v" and f: "fresh_fs v m p v1" and on: "mount_place v on"
  shows "tree_ok (mounted m p on path v1)"
proof -
  let ?v = "mounted m p on path v1" and ?p = "p\<lparr>mounted_on := on, mp_path := path\<rparr>"
  obtain news where news: "inodes v1 = inodes v ++ news" "\<forall>i n. news i = Some n \<longrightarrow> i < next_obj v1 \<and> fresh_node m p i n" "root_inode p \<in> dom news" "devices (mp_class p) \<subseteq> dom news"
    and m: "m = next_obj v" "mounts v1 = (mounts v)(m \<mapsto> p)" "next_obj v < next_obj v1" "fds v1 = fds v" "g_mountpoints v1 = g_mountpoints v"
    using f unfolding fresh_fs_def by blast
  have le: "inodes v \<subseteq>\<^sub>m inodes ?v" "mounts v \<subseteq>\<^sub>m mounts ?v" using mounted_inodes [OF t f] mounted_mounts [OF t f] by (fastforce simp: map_le_def)+
  have new: "\<exists>n. news i = Some n \<and> inodes ?v i = Some (if i = root_inode p then n\<lparr>i_parent := on\<rparr> else n)" if "i \<in> dom news" for i
    using that news(1) by (auto simp: mounted_def)
  have mp: "mounts ?v m = Some ?p" by (simp add: mounted_def)
  have dom: "q \<in> dom (inodes ?v)" if "on = Some q" for q using on that mounted_inodes [OF t f] unfolding mount_place_def by blast
  have root: "root_inode p \<in> dom (inodes ?v)" by (simp add: mounted_def)
  have iok: "i < next_obj ?v \<and> inode_ok ?v i y" if y: "inodes ?v i = Some y" for i y
  proof (cases "i \<in> dom news")
    case True
    then obtain n where n: "news i = Some n" "y = (if i = root_inode p then n\<lparr>i_parent := on\<rparr> else n)" using new y by fastforce
    then have fr: "i < next_obj v1" "fresh_node m p i n" using news(2) by auto
    have "inode_ok ?v i y" unfolding inode_ok_def using fr(2) n(2) mp dom root by (auto simp: fresh_node_def file_ok_def split: if_splits)
    then show ?thesis using fr(1) by (simp add: mounted_def)
  next
    case False
    then have "inodes v i = Some y" using y news(1,3) by (auto simp: mounted_def map_add_def split: if_splits option.splits)
    then show ?thesis using inode_ok_mono [OF le] tree_ok_inode [OF t] m(3) by (fastforce simp: mounted_def)
  qed
  have "mount_ok ?v m ?p"
  proof -
    obtain n where n: "news (root_inode p) = Some n" "inodes ?v (root_inode p) = Some (n\<lparr>i_parent := on\<rparr>)" using new [OF news(3)] by auto
    have "fresh_node m p (root_inode p) n" using news(2) n(1) by blast
    then have r: "\<exists>r. inodes ?v (root_inode p) = Some r \<and> i_mountpoint r = m \<and> i_type r = DIRECTORY \<and> i_name r = [] \<and> i_parent r = on" using n(2) by (auto simp: fresh_node_def)
    have o: "\<exists>n. inodes ?v q = Some n \<and> i_type n = DIRECTORY \<and> i_parent n \<noteq> None \<and> i_mountpoint n \<noteq> m" if "on = Some q" for q
      using on that mounted_inodes [OF t f] fresh_fs_old [OF t f] unfolding mount_place_def by blast
    have d: "\<exists>k. inodes ?v c = Some k \<and> i_type k = CHAR_DEVICE \<and> i_parent k = Some (root_inode p) \<and> i_mountpoint k = m" if "c \<in> devices (mp_class p)" for c
    proof -
      have "c \<in> dom news" using that news(4) by blast
      from new [OF this] obtain k where k: "news c = Some k" "inodes ?v c = Some (if c = root_inode p then k\<lparr>i_parent := on\<rparr> else k)" by blast
      then have "fresh_node m p c k" using news(2) by blast
      then show ?thesis using that k by (auto simp: fresh_node_def split: if_splits)
    qed
    show ?thesis unfolding mount_ok_def using r o d by simp
  qed
  then have mok: "j < next_obj ?v \<and> mount_ok ?v j y" if "mounts ?v j = Some y" for j y
    using that m mount_ok_mono [OF le(1)] tree_ok_mount [OF t, of j y] by (auto simp: mounted_def split: if_splits)
  have fd: "q < next_obj ?v \<and> fd_ok ?v e" if "fds ?v q = Some e" for q e
    using that m tree_ok_fd [OF t, of q e] fd_ok_mono [OF le(1)] by (auto simp: mounted_def)
  have "set (g_mountpoints ?v) \<subseteq> dom (mounts ?v)" using t m by (auto simp: mounted_def tree_ok_def)
  then show ?thesis using iok mok fd unfolding tree_ok_def by blast
qed

lemma fs_mount_eq:
  assumes t: "tree_ok v" and f: "fresh_fs v m p v1" and new: "filesystem_mount fs v = Inr (m, v1)" and on: "resolve_path v cwd path = Inr on" and root: "g_root_mountpoint v \<noteq> None"
  shows "fs_mount cwd path fs v = Inr (mounted m p on path v1)"
proof -
  have on1: "resolve_path v1 cwd path = Inr on" by (rule extends_resolve_path [OF fresh_fs_extends [OF t f] on])
  obtain r where r: "inodes v1 (root_inode p) = Some r" "mounts v1 m = Some p" "g_root_mountpoint v1 \<noteq> None" using f root unfolding fresh_fs_def by auto
  then show ?thesis using new on1 by (auto simp: fs_mount_def mount_at_def inode_at_def set_mount_def set_inode_def register_mount_def Let_def mounted_def)
qed

lemma fs_mount_ok:
  assumes ok: "vfs_ok v" and f: "fresh_fs v m p v1" and new: "filesystem_mount fs v = Inr (m, v1)" and on: "resolve_path v cwd path = Inr on" "mount_place v on"
  shows "fs_mount cwd path fs v = Inr (mounted m p on path v1) \<and> vfs_ok (mounted m p on path v1)"
proof -
  obtain r q where r: "g_root_mountpoint v = Some r" "mounts v r = Some q" "mounted_on q = None" using ok by (auto simp: vfs_ok_def)
  then have "mounts (mounted m p on path v1) r = Some q" using mounted_mounts [OF vfs_ok_tree [OF ok] f] by blast
  then have "vfs_ok (mounted m p on path v1)" using mounted_ok [OF vfs_ok_tree [OF ok] f on(2)] f r by (auto simp: vfs_ok_def mounted_def fresh_fs_def)
  then show ?thesis using fs_mount_eq [OF vfs_ok_tree [OF ok] f new on(1)] r(1) by simp
qed

text \<open>Where names lead after a mount.\<close>

lemma find_child_more: "find_child (v\<lparr>g_mountpoints := x\<rparr>) s cs = find_child v s cs"
  by (rule find_child_cong) simp

lemma inode_lookup_more: "inode_lookup (v\<lparr>g_mountpoints := x\<rparr>) q s = inode_lookup v q s"
  by (cases q) (auto simp: inode_lookup_def inode_at_def TmpDirectoryInode_lookup_def InitramfsDirectoryInode_lookup_def DevDirectoryInode_lookup_def
      ProcDirectoryInode_lookup_def find_child_more mount_at_def split: option.splits inode_class.splits)

lemma find_mount_append: "find_mount_in v q (ms @ ns) = kbind (find_mount_in v q ms) (\<lambda>r. if r = None then find_mount_in v q ns else Inr r)"
proof (induction ms)
  case (Cons m ms)
  then show ?case by (cases "mount_at v m") auto
qed simp

lemma find_mount_more: "find_mount_in (v\<lparr>g_mountpoints := x\<rparr>) q ms = find_mount_in v q ms"
proof (induction ms)
  case (Cons m ms)
  then show ?case by (cases "mounts v m") (auto simp: mount_at_def)
qed simp

lemma mounted_extends:
  assumes "tree_ok v" "fresh_fs v m p v1"
  shows "extends v ((mounted m p on path v1)\<lparr>g_mountpoints := g_mountpoints v\<rparr>)"
proof -
  have "inodes v \<subseteq>\<^sub>m inodes (mounted m p on path v1)" "mounts v \<subseteq>\<^sub>m mounts (mounted m p on path v1)" using mounted_inodes [OF assms] mounted_mounts [OF assms] by (fastforce simp: map_le_def)+
  then show ?thesis using assms(2) by (auto simp: extends_def fresh_fs_def mounted_def)
qed

lemma mounted_resolve_name:
  assumes t: "tree_ok v" and f: "fresh_fs v m p v1" and e: "inodes v e = Some x" and l: "inode_lookup v (Some e) s = Inr r"
  shows "resolve_name (mounted m p on path v1) (Some e) s =
    (if r \<noteq> None \<and> r = on \<and> find_mount_at v r = Inr None then Inr (Some (root_inode p)) else resolve_name v (Some e) s)"
proof -
  let ?v = "mounted m p on path v1" and ?u = "(mounted m p on path v1)\<lparr>g_mountpoints := g_mountpoints v\<rparr>"
  have ex: "extends v ?u" by (rule mounted_extends [OF t f])
  have lk: "inode_lookup ?v (Some e) s = Inr r" using extends_lookup [OF ex l] by (simp add: inode_lookup_more)
  obtain g where g: "find_mount_at v r = Inr g" by (rule find_mount_at_ok [OF t])
  have "g_mountpoints ?v = g_mountpoints v @ [m]" "mount_at ?v m = Inr (p\<lparr>mounted_on := on, mp_path := path\<rparr>)" using f by (auto simp: mounted_def fresh_fs_def mount_at_def)
  moreover have "find_mount_in ?v r (g_mountpoints v) = Inr g" using extends_find_mount [OF ex] g by (simp add: find_mount_at_def find_mount_more)
  ultimately have "find_mount_at ?v r = (if g = None then if on = r then Inr (Some (p\<lparr>mounted_on := on, mp_path := path\<rparr>)) else Inr None else Inr g)"
    by (simp add: find_mount_at_def find_mount_append)
  then show ?thesis using lk g l by (auto simp: resolve_name_def)
qed

text \<open>What is found at a path that does not go through the directory stays there.\<close>

lemma mounted_walk:
  assumes t: "tree_ok v" and f: "fresh_fs v m p v1" and r: "r \<in> dom (inodes v)"
  shows "walk v r ns i \<Longrightarrow> (\<forall>k. 0 < k \<longrightarrow> k \<le> length ns \<longrightarrow> \<not> walk v r (take k ns) q) \<Longrightarrow> walk (mounted m p (Some q) path v1) r ns i"
proof (induction rule: walk.induct)
  case (name ns d s i)
  obtain x where x: "inodes v d = Some x" using walk_inode [OF t r name.hyps(1)] by auto
  have "\<not> walk v r (take k ns) q" if "0 < k" "k \<le> length ns" for k using name.prems [rule_format, of k] that by simp
  then have w: "walk (mounted m p (Some q) path v1) r ns d" using name.IH by blast
  obtain l where l: "inode_lookup v (Some d) s = Inr l" using inode_lookup_ok [OF t x] by blast
  have "i \<noteq> q" using name.prems [rule_format, of "length ns + 1"] walk.name [OF name.hyps] by auto
  then have "\<not> (l \<noteq> None \<and> l = Some q \<and> find_mount_at v l = Inr None)" using name.hyps(3) l by (auto simp: resolve_name_def)
  then have "resolve_name (mounted m p (Some q) path v1) (Some d) s = Inr (Some i)" using mounted_resolve_name [OF t f x l, of "Some q" path] name.hyps(3) by auto
  then show ?case using walk.name [OF w name.hyps(2)] by blast
qed (rule walk.here)

lemma located_tokens: "located v ns i \<Longrightarrow> path_tokens (CHR ''/'' # join_path ns) = ns"
  unfolding located_def by (elim exE conjE, rule path_tokens_join, erule walk_plain)

lemma located_dir_unique:
  assumes "vfs_ok v" "located v ns i" "located v ms i" "i_type (the (inodes v i)) = DIRECTORY"
  shows "ns = ms"
proof -
  have "CHR ''/'' # join_path ns = CHR ''/'' # join_path ms" using getcwd_located [OF assms(1,2,4)] getcwd_located [OF assms(1,3,4)] by simp
  from arg_cong [OF this, of path_tokens] show ?thesis unfolding located_tokens [OF assms(2)] located_tokens [OF assms(3)] .
qed

text \<open>An entry with a name is not the root of a mounted file system.\<close>

lemma named_entry:
  assumes ok: "vfs_ok v" and d: "inodes v d = Some n" and r: "resolve_name v (Some d) t = Inr (Some q)" and q: "i_name (the (inodes v q)) \<noteq> []"
  shows "inode_lookup v (Some d) t = Inr (Some q)" "find_mount_at v (Some q) = Inr None" "i_parent (the (inodes v q)) = Some d"
proof -
  obtain l where l: "inode_lookup v (Some d) t = Inr l" "\<forall>c. l = Some c \<longrightarrow> (\<exists>k. entry_of v d n t c k)" using inode_lookup_ok [OF vfs_ok_tree [OF ok] d] by blast
  then obtain c where c: "l = Some c" using r by (cases l) (auto simp: resolve_name_def)
  obtain g where g: "find_mount_at v (Some c) = Inr g" "\<And>p. g = Some p \<Longrightarrow> \<exists>m. mounts v m = Some p \<and> mount_ok v m p \<and> mounted_on p = Some c"
    by (rule find_mount_at_ok [OF vfs_ok_tree [OF ok]]) blast
  have "g = None"
  proof (rule ccontr)
    assume "g \<noteq> None"
    then obtain p where p: "g = Some p" by blast
    then have "q = root_inode p" using r l(1) c g(1) by (simp add: resolve_name_def)
    then show False using g(2) [OF p] q by (auto simp: mount_ok_def)
  qed
  then have "c = q" using r l(1) c g(1) by (simp add: resolve_name_def)
  then show "inode_lookup v (Some d) t = Inr (Some q)" "find_mount_at v (Some q) = Inr None" "i_parent (the (inodes v q)) = Some d"
    using l c g(1) \<open>g = None\<close> by (auto simp: entry_of_def)
qed

definition fs_root_class :: "filesystem \<Rightarrow> inode_class" where
  "fs_root_class f = (case f of TmpFileSystem \<Rightarrow> TmpDirectoryInode | DevFileSystem \<Rightarrow> DevDirectoryInode | ProcFileSystem \<Rightarrow> ProcDirectoryInode | InitramfsFileSystem \<Rightarrow> InitramfsDirectoryInode)"

text \<open>A mount on a directory with a name: the new root takes its place and nothing else moves.\<close>

definition covers :: "vfs \<Rightarrow> string list \<Rightarrow> iptr \<Rightarrow> vfs \<Rightarrow> bool" where
  "covers v ns i v' \<longleftrightarrow> vfs_ok v' \<and> inodes v \<subseteq>\<^sub>m inodes v' \<and> i \<notin> dom (inodes v) \<and> located v' ns i \<and> (\<forall>ms j. located v ms j \<longrightarrow> (\<nexists>zs. ms = ns @ zs) \<longrightarrow> located v' ms j)"

lemma mounted_covers:
  assumes ok: "vfs_ok v" and f: "fresh_fs v m p v1" and q: "located v (ns @ [t]) q" "i_type (the (inodes v q)) = DIRECTORY" "i_name (the (inodes v q)) \<noteq> []"
    and vm: "vfs_ok (mounted m p (Some q) path v1)"
  shows "covers v (ns @ [t]) (root_inode p) (mounted m p (Some q) path v1)"
proof -
  let ?v = "mounted m p (Some q) path v1"
  have t: "tree_ok v" by (rule vfs_ok_tree [OF ok])
  obtain r d where r: "root_of v r" "walk v r ns d" "plain_name t" "resolve_name v (Some d) t = Inr (Some q)" using q(1) by (auto simp: located_def elim: walk_snocE)
  have rd: "r \<in> dom (inodes v)" using root_ok [OF ok r(1)] by blast
  obtain x where x: "inodes v d = Some x" using walk_inode [OF t rd r(2)] by auto
  obtain rm rp where rm: "g_root_mountpoint v = Some rm" "mounts v rm = Some rp" "r = root_inode rp" using r(1) by (auto simp: root_of_def)
  have "g_root_mountpoint ?v = Some rm" using f rm(1) by (simp add: mounted_def fresh_fs_def)
  then have root': "root_of ?v r" using mounted_mounts [OF t f rm(2)] rm(3) by (auto simp: root_of_def)
  have stay: "located ?v ms j" if "located v ms j" "\<nexists>zs. ms = (ns @ [t]) @ zs" for ms j
  proof -
    have w: "walk v r ms j" using that(1) r(1) by (auto simp: located_def root_of_def)
    have "\<not> walk v r (take k ms) q" for k
    proof
      assume "walk v r (take k ms) q"
      then have "located v (take k ms) q" using r(1) by (auto simp: located_def)
      then have "take k ms = ns @ [t]" using located_dir_unique [OF ok _ q(1,2)] by blast
      then have "ms = (ns @ [t]) @ drop k ms" by (metis append_take_drop_id)
      then show False using that(2) by blast
    qed
    then show ?thesis using mounted_walk [OF t f rd w] root' by (auto simp: located_def)
  qed
  have "located v ns d" using r(1,2) by (auto simp: located_def)
  then have w: "walk ?v r ns d" using stay [of ns d] root' by (auto simp: located_def root_of_def)
  note e = named_entry [OF ok x r(4) q(3)]
  have "resolve_name ?v (Some d) t = Inr (Some (root_inode p))" using mounted_resolve_name [OF t f x e(1), of "Some q" path] e(2) by simp
  then have "located ?v (ns @ [t]) (root_inode p)" using walk.name [OF w r(3)] root' by (auto simp: located_def)
  moreover have "inodes v \<subseteq>\<^sub>m inodes ?v" using mounted_inodes [OF t f] by (fastforce simp: map_le_def)
  moreover have "root_inode p \<notin> dom (inodes v)" using fresh_fs_old [OF t f] by blast
  ultimately show ?thesis using vm stay unfolding covers_def by blast
qed

lemma filesystem_fresh:
  assumes "f \<noteq> InitramfsFileSystem"
  shows "\<exists>p v1. filesystem_mount f v = Inr (next_obj v, v1) \<and> fresh_fs v (next_obj v) p v1 \<and> i_class (the (inodes v1 (root_inode p))) = fs_root_class f"
  using assms TmpMountPoint_fresh [of v] DevMountPoint_fresh [of v] ProcMountPoint_fresh [of v]
  by (cases f) (auto simp: filesystem_mount_def fs_root_class_def)

lemma named_mount_place:
  assumes "vfs_ok v" "located v (ns @ [t]) q" "i_type (the (inodes v q)) = DIRECTORY" "i_name (the (inodes v q)) \<noteq> []"
  shows "mount_place v (Some q)"
proof -
  obtain r d where r: "root_of v r" "walk v r ns d" "resolve_name v (Some d) t = Inr (Some q)" using assms(2) by (auto simp: located_def elim: walk_snocE)
  obtain x where x: "inodes v d = Some x" using walk_inode [OF vfs_ok_tree [OF assms(1)] _ r(2)] root_ok [OF assms(1) r(1)] by auto
  show ?thesis using named_entry(3) [OF assms(1) x r(3) assms(4)] located_inode [OF assms(1,2)] assms(3) by (auto simp: mount_place_def)
qed

lemma mounted_root_class: "i_class (the (inodes (mounted m p on path v1) (root_inode p))) = i_class (the (inodes v1 (root_inode p)))"
  by (simp add: mounted_def)

text \<open>
  Mounting a file system on a directory with a name succeeds: the root of the new file system, empty in the case of tmpfs, is what the path of the directory leads to, every path that does
  not go through the directory leads where it led, and the file system stays well-formed.
\<close>

lemma fs_mount_covers:
  assumes "vfs_ok v" "located v (ns @ [t]) q" "i_type (the (inodes v q)) = DIRECTORY" "i_name (the (inodes v q)) \<noteq> []" "f \<noteq> InitramfsFileSystem"
  shows "\<exists>v' i. fs_mount cwd (CHR ''/'' # join_path (ns @ [t])) f v = Inr v' \<and> covers v (ns @ [t]) i v' \<and> i_class (the (inodes v' i)) = fs_root_class f"
proof -
  obtain p v1 where p: "filesystem_mount f v = Inr (next_obj v, v1)" "fresh_fs v (next_obj v) p v1" "i_class (the (inodes v1 (root_inode p))) = fs_root_class f"
    using filesystem_fresh [OF assms(5)] by blast
  have "fs_mount cwd (CHR ''/'' # join_path (ns @ [t])) f v = Inr (mounted (next_obj v) p (Some q) (CHR ''/'' # join_path (ns @ [t])) v1) \<and>
      vfs_ok (mounted (next_obj v) p (Some q) (CHR ''/'' # join_path (ns @ [t])) v1)"
    by (rule fs_mount_ok [OF assms(1) p(2,1) resolve_located [OF assms(2)] named_mount_place [OF assms(1-4)]])
  then show ?thesis using mounted_covers [OF assms(1) p(2) assms(2-4)] mounted_root_class p(3) by metis
qed

section \<open>The devices\<close>

text \<open>Nothing is mounted on the fresh objects of a file system.\<close>

lemma mounted_device:
  assumes ok: "vfs_ok v" and f: "fresh_fs v m p v1" and on: "mount_place v on" and c: "c \<in> devices (mp_class p)" and vm: "vfs_ok (mounted m p on path v1)"
    and l: "inode_lookup (mounted m p on path v1) (Some (root_inode p)) s = Inr (Some c)"
  shows "resolve_name (mounted m p on path v1) (Some (root_inode p)) s = Inr (Some c)"
proof -
  let ?v = "mounted m p on path v1"
  obtain news where news: "inodes v1 = inodes v ++ news" "\<forall>i n. news i = Some n \<longrightarrow> i < next_obj v1 \<and> fresh_node m p i n" "devices (mp_class p) \<subseteq> dom news" and m: "m = next_obj v" "mounts v1 = (mounts v)(m \<mapsto> p)"
    using f unfolding fresh_fs_def by blast
  obtain k where k: "news c = Some k" using c news(3) by blast
  have "m < c" using news(2) k unfolding fresh_node_def by blast
  then have none: "inodes v c = None" using tree_fresh_ge [OF vfs_ok_tree [OF ok], of c] m by simp
  obtain g where g: "find_mount_at ?v (Some c) = Inr g" "\<And>p. g = Some p \<Longrightarrow> \<exists>m. mounts ?v m = Some p \<and> mount_ok ?v m p \<and> mounted_on p = Some c"
    by (rule find_mount_at_ok [OF vfs_ok_tree [OF vm]]) blast
  have "g = None"
  proof (rule ccontr)
    assume "g \<noteq> None"
    then obtain x j where x: "mounts ?v j = Some x" "mounted_on x = Some c" using g(2) by blast
    show False
    proof (cases "j = m")
      case True
      then show False using x on none by (auto simp: mounted_def mount_place_def)
    next
      case False
      then have "mounts v j = Some x" using x(1) m by (simp add: mounted_def)
      then show False using tree_ok_mount [OF vfs_ok_tree [OF ok]] x(2) none by (fastforce simp: mount_ok_def)
    qed
  qed
  then show ?thesis using l g(1) by (simp add: resolve_name_def)
qed

lemma mounted_lookup_dev:
  assumes "fresh_fs v m p v1" "i_class (the (inodes v1 (root_inode p))) = DevDirectoryInode" "mp_class p = DevMountPoint a b c"
  shows "inode_lookup (mounted m p on path v1) (Some (root_inode p)) ''null'' = Inr (Some a)"
    "inode_lookup (mounted m p on path v1) (Some (root_inode p)) ''tty1'' = Inr (Some b)"
    "inode_lookup (mounted m p on path v1) (Some (root_inode p)) ''tty2'' = Inr (Some c)"
proof -
  obtain news where news: "inodes v1 = inodes v ++ news" "\<forall>i n. news i = Some n \<longrightarrow> i < next_obj v1 \<and> fresh_node m p i n" "root_inode p \<in> dom news" using assms(1) unfolding fresh_fs_def by blast
  then obtain r where "inodes v1 (root_inode p) = Some r" "fresh_node m p (root_inode p) r" by auto
  then have "i_mountpoint (the (inodes v1 (root_inode p))) = m" by (simp add: fresh_node_def)
  then show "inode_lookup (mounted m p on path v1) (Some (root_inode p)) ''null'' = Inr (Some a)"
    "inode_lookup (mounted m p on path v1) (Some (root_inode p)) ''tty1'' = Inr (Some b)"
    "inode_lookup (mounted m p on path v1) (Some (root_inode p)) ''tty2'' = Inr (Some c)"
    using assms(2,3) by (simp_all add: mounted_def inode_lookup_def inode_at_def DevDirectoryInode_lookup_def mount_at_def)
qed

lemma mounted_lookup_proc:
  assumes "fresh_fs v m p v1" "i_class (the (inodes v1 (root_inode p))) = ProcDirectoryInode" "mp_class p = ProcMountPoint a"
  shows "inode_lookup (mounted m p on path v1) (Some (root_inode p)) ''self'' = Inr (Some a)"
proof -
  obtain news where news: "inodes v1 = inodes v ++ news" "\<forall>i n. news i = Some n \<longrightarrow> i < next_obj v1 \<and> fresh_node m p i n" "root_inode p \<in> dom news" using assms(1) unfolding fresh_fs_def by blast
  then obtain r where "inodes v1 (root_inode p) = Some r" "fresh_node m p (root_inode p) r" by auto
  then have "i_mountpoint (the (inodes v1 (root_inode p))) = m" by (simp add: fresh_node_def)
  then show ?thesis using assms(2,3) by (simp add: mounted_def inode_lookup_def inode_at_def ProcDirectoryInode_lookup_def mount_at_def)
qed

definition dev_at :: "vfs \<Rightarrow> string list \<Rightarrow> bool" where
  "dev_at v ns \<longleftrightarrow> (\<exists>i. located v (ns @ [''null'']) i \<and> i_class (the (inodes v i)) = DevNullInode) \<and>
     (\<exists>i t. located v (ns @ [''tty1'']) i \<and> i_class (the (inodes v i)) = DevTtyInode t) \<and> (\<exists>i t. located v (ns @ [''tty2'']) i \<and> i_class (the (inodes v i)) = DevTtyInode t)"

definition self_at :: "vfs \<Rightarrow> string list \<Rightarrow> bool" where
  "self_at v ns \<longleftrightarrow> (\<exists>i. located v (ns @ [''self'']) i \<and> i_class (the (inodes v i)) = ProcSelfInode)"

definition place :: "vfs \<Rightarrow> string list \<Rightarrow> bool" where
  "place v ns \<longleftrightarrow> ns \<noteq> [] \<and> (\<exists>q. located v ns q \<and> i_type (the (inodes v q)) = DIRECTORY \<and> i_name (the (inodes v q)) \<noteq> [])"

lemma fresh_fs_inside:
  assumes "fresh_fs v m p v1"
  shows "c \<in> devices (mp_class p) \<Longrightarrow> inodes (mounted m p on path v1) c = inodes v1 c"
    and "i_class (the (inodes v1 (root_inode p))) = TmpDirectoryInode \<Longrightarrow> fresh_dir (mounted m p on path v1) (root_inode p)"
proof -
  obtain news where news: "inodes v1 = inodes v ++ news" "\<forall>i n. news i = Some n \<longrightarrow> i < next_obj v1 \<and> fresh_node m p i n" "root_inode p \<in> dom news" using assms unfolding fresh_fs_def by blast
  then obtain r where r: "inodes v1 (root_inode p) = Some r" "fresh_node m p (root_inode p) r" by auto
  then show "c \<in> devices (mp_class p) \<Longrightarrow> inodes (mounted m p on path v1) c = inodes v1 c" by (auto simp: fresh_node_def mounted_def)
  show "i_class (the (inodes v1 (root_inode p))) = TmpDirectoryInode \<Longrightarrow> fresh_dir (mounted m p on path v1) (root_inode p)"
    using r by (auto simp: fresh_node_def mounted_def fresh_dir_def has_children_def)
qed

lemma place_mount:
  assumes ok: "vfs_ok v" and pl: "place v ns" and p: "filesystem_mount f v = Inr (m, v1)" "fresh_fs v m p v1"
  obtains q where "fs_mount cwd (CHR ''/'' # join_path ns) f v = Inr (mounted m p (Some q) (CHR ''/'' # join_path ns) v1)"
    "covers v ns (root_inode p) (mounted m p (Some q) (CHR ''/'' # join_path ns) v1)" "mount_place v (Some q)"
proof -
  obtain q where q: "located v ns q" "i_type (the (inodes v q)) = DIRECTORY" "i_name (the (inodes v q)) \<noteq> []" "ns \<noteq> []" using pl by (auto simp: place_def)
  have ns: "butlast ns @ [last ns] = ns" using q(4) by simp
  note mp = named_mount_place [where ns = "butlast ns" and t = "last ns", unfolded ns, OF ok q(1-3)]
  note ok' = fs_mount_ok [OF ok p(2,1) resolve_located [OF q(1)] mp]
  have "covers v ns (root_inode p) (mounted m p (Some q) (CHR ''/'' # join_path ns) v1)"
    by (rule mounted_covers [where ns = "butlast ns" and t = "last ns", unfolded ns, OF ok p(2) q(1-3)]) (use ok' in blast)
  then show thesis using that ok' mp by blast
qed

lemma covers_stays:
  assumes "vfs_ok v" "covers v ns r v'" "located v ms i" "\<nexists>zs. ms = ns @ zs"
  shows "located v' ms i \<and> inodes v' i = inodes v i"
  using assms located_inode [OF assms(1,3)] by (auto simp: covers_def map_le_def)

lemma covers_place: "vfs_ok v \<Longrightarrow> covers v ns r v' \<Longrightarrow> place v ms \<Longrightarrow> \<nexists>zs. ms = ns @ zs \<Longrightarrow> place v' ms"
  unfolding place_def using covers_stays by metis

lemma mount_dev:
  assumes ok: "vfs_ok v" and pl: "place v ns"
  shows "\<exists>v' r. fs_mount cwd (CHR ''/'' # join_path ns) DevFileSystem v = Inr v' \<and> covers v ns r v' \<and> dev_at v' ns"
proof -
  obtain p v1 a b c t u where p: "DevMountPoint_new v = Inr (next_obj v, v1)" "fresh_fs v (next_obj v) p v1" "i_class (the (inodes v1 (root_inode p))) = DevDirectoryInode"
    "mp_class p = DevMountPoint a b c" "i_class (the (inodes v1 a)) = DevNullInode" "i_class (the (inodes v1 b)) = DevTtyInode t" "i_class (the (inodes v1 c)) = DevTtyInode u"
    using DevMountPoint_fresh [of v] by (elim exE conjE) (rule that)
  have new: "filesystem_mount DevFileSystem v = Inr (next_obj v, v1)" using p(1) by (simp add: filesystem_mount_def)
  obtain q where q: "fs_mount cwd (CHR ''/'' # join_path ns) DevFileSystem v = Inr (mounted (next_obj v) p (Some q) (CHR ''/'' # join_path ns) v1)"
    "covers v ns (root_inode p) (mounted (next_obj v) p (Some q) (CHR ''/'' # join_path ns) v1)" "mount_place v (Some q)" by (rule place_mount [OF ok pl new p(2)])
  let ?v = "mounted (next_obj v) p (Some q) (CHR ''/'' # join_path ns) v1"
  have vm: "vfs_ok ?v" "located ?v ns (root_inode p)" using q(2) by (auto simp: covers_def)
  note l = mounted_lookup_dev [OF p(2-4), of "Some q" "CHR ''/'' # join_path ns"]
  have "resolve_name ?v (Some (root_inode p)) ''null'' = Inr (Some a)" "resolve_name ?v (Some (root_inode p)) ''tty1'' = Inr (Some b)" "resolve_name ?v (Some (root_inode p)) ''tty2'' = Inr (Some c)"
    using mounted_device [OF ok p(2) q(3) _ vm(1)] l p(4) by simp_all
  then have loc: "located ?v (ns @ [''null'']) a" "located ?v (ns @ [''tty1'']) b" "located ?v (ns @ [''tty2'']) c"
    using located_name [OF vm(2)] by (simp_all add: plain_name_def)
  have "inodes ?v a = inodes v1 a" "inodes ?v b = inodes v1 b" "inodes ?v c = inodes v1 c" using fresh_fs_inside(1) [OF p(2)] p(4) by simp_all
  then have "dev_at ?v ns" using loc p(5-7) unfolding dev_at_def by metis
  then show ?thesis using q(1,2) by blast
qed

lemma mount_proc:
  assumes ok: "vfs_ok v" and pl: "place v ns"
  shows "\<exists>v' r. fs_mount cwd (CHR ''/'' # join_path ns) ProcFileSystem v = Inr v' \<and> covers v ns r v' \<and> self_at v' ns"
proof -
  obtain p v1 s where p: "ProcMountPoint_new v = Inr (next_obj v, v1)" "fresh_fs v (next_obj v) p v1" "i_class (the (inodes v1 (root_inode p))) = ProcDirectoryInode"
    "mp_class p = ProcMountPoint s" "i_class (the (inodes v1 s)) = ProcSelfInode"
    using ProcMountPoint_fresh [of v] by (elim exE conjE) (rule that)
  have new: "filesystem_mount ProcFileSystem v = Inr (next_obj v, v1)" using p(1) by (simp add: filesystem_mount_def)
  obtain q where q: "fs_mount cwd (CHR ''/'' # join_path ns) ProcFileSystem v = Inr (mounted (next_obj v) p (Some q) (CHR ''/'' # join_path ns) v1)"
    "covers v ns (root_inode p) (mounted (next_obj v) p (Some q) (CHR ''/'' # join_path ns) v1)" "mount_place v (Some q)" by (rule place_mount [OF ok pl new p(2)])
  let ?v = "mounted (next_obj v) p (Some q) (CHR ''/'' # join_path ns) v1"
  have vm: "vfs_ok ?v" "located ?v ns (root_inode p)" using q(2) by (auto simp: covers_def)
  have "resolve_name ?v (Some (root_inode p)) ''self'' = Inr (Some s)"
    using mounted_device [OF ok p(2) q(3) _ vm(1)] mounted_lookup_proc [OF p(2-4)] p(4) by simp
  then have "located ?v (ns @ [''self'']) s" using located_name [OF vm(2)] by (simp add: plain_name_def)
  moreover have "inodes ?v s = inodes v1 s" using fresh_fs_inside(1) [OF p(2)] p(4) by simp
  ultimately have "self_at ?v ns" using p(5) unfolding self_at_def by metis
  then show ?thesis using q(1,2) by blast
qed

lemma mount_tmp:
  assumes ok: "vfs_ok v" and pl: "place v ns"
  shows "\<exists>v' r. fs_mount cwd (CHR ''/'' # join_path ns) TmpFileSystem v = Inr v' \<and> covers v ns r v' \<and> fresh_dir v' r"
proof -
  obtain p v1 where p: "TmpMountPoint_new v = Inr (next_obj v, v1)" "fresh_fs v (next_obj v) p v1" "i_class (the (inodes v1 (root_inode p))) = TmpDirectoryInode" using TmpMountPoint_fresh [of v] by blast
  have new: "filesystem_mount TmpFileSystem v = Inr (next_obj v, v1)" using p(1) by (simp add: filesystem_mount_def)
  show ?thesis by (rule place_mount [OF ok pl new p(2)]) (use fresh_fs_inside(2) [OF p(2,3)] in blast)
qed

lemma covers_keeps:
  assumes ok: "vfs_ok v" and c: "covers v ns r v'"
  shows "dev_at v ms \<Longrightarrow> \<forall>s. \<nexists>zs. ms @ [s] = ns @ zs \<Longrightarrow> dev_at v' ms"
  unfolding dev_at_def using covers_stays [OF ok c] by metis

text \<open>
  \<^verbatim>\<open>fs::init\<close>, run when the initramfs has directories \<^verbatim>\<open>dev\<close>, \<^verbatim>\<open>tmp\<close> and \<^verbatim>\<open>proc\<close>, gives a well-formed file system in which \<^verbatim>\<open>/dev/null\<close>,
  \<^verbatim>\<open>/dev/tty1\<close>, \<^verbatim>\<open>/dev/tty2\<close> and \<^verbatim>\<open>/proc/self\<close> lead to the devices of their names, \<^verbatim>\<open>/tmp\<close> is an empty directory of tmpfs, and everything outside the three directories is where it was.
\<close>

lemma fs_init_mounts:
  assumes "vfs_ok v" "place v [''dev'']" "place v [''tmp'']" "place v [''proc'']"
  shows "\<exists>v' t. fs_init v = Inr v' \<and> vfs_ok v' \<and> dev_at v' [''dev''] \<and> self_at v' [''proc''] \<and> located v' [''tmp''] t \<and> fresh_dir v' t \<and>
    (\<forall>ns i. located v ns i \<longrightarrow> (ns = [] \<or> hd ns \<notin> {''dev'', ''tmp'', ''proc''}) \<longrightarrow> located v' ns i \<and> inodes v' i = inodes v i)"
proof -
  obtain v1 r1 where 1: "fs_mount None ''/dev'' DevFileSystem v = Inr v1" "covers v [''dev''] r1 v1" "dev_at v1 [''dev'']"
    using mount_dev [OF assms(1,2), of None] by (auto simp: join_path_def)
  have ok1: "vfs_ok v1" and pl1: "place v1 [''tmp'']" "place v1 [''proc'']" using 1(2) covers_place [OF assms(1) 1(2)] assms(3,4) by (auto simp: covers_def)
  obtain v2 r2 where 2: "fs_mount None ''/tmp'' TmpFileSystem v1 = Inr v2" "covers v1 [''tmp''] r2 v2" "fresh_dir v2 r2"
    using mount_tmp [OF ok1 pl1(1), of None] by (auto simp: join_path_def)
  have ok2: "vfs_ok v2" and pl2: "place v2 [''proc'']" and d2: "dev_at v2 [''dev'']" and t2: "located v2 [''tmp''] r2"
    using 2(2) covers_place [OF ok1 2(2)] pl1 covers_keeps [OF ok1 2(2) 1(3)] by (auto simp: covers_def)
  obtain v3 r3 where 3: "fs_mount None ''/proc'' ProcFileSystem v2 = Inr v3" "covers v2 [''proc''] r3 v3" "self_at v3 [''proc'']"
    using mount_proc [OF ok2 pl2, of None] by (auto simp: join_path_def)
  have t3: "located v3 [''tmp''] r2" "fresh_dir v3 r2" using covers_stays [OF ok2 3(2) t2] 2(3) by (auto simp: fresh_dir_def)
  have d3: "vfs_ok v3" "dev_at v3 [''dev'']" using 3(2) covers_keeps [OF ok2 3(2) d2] by (auto simp: covers_def)
  have "located v3 ns i \<and> inodes v3 i = inodes v i" if "located v ns i" "ns = [] \<or> hd ns \<notin> {''dev'', ''tmp'', ''proc''}" for ns i
  proof -
    have n: "\<nexists>zs. ns = [''dev''] @ zs" "\<nexists>zs. ns = [''tmp''] @ zs" "\<nexists>zs. ns = [''proc''] @ zs" using that(2) by auto
    show ?thesis using covers_stays [OF assms(1) 1(2) that(1) n(1)] covers_stays [OF ok1 2(2) _ n(2)] covers_stays [OF ok2 3(2) _ n(3)] by metis
  qed
  moreover have "fs_init v = Inr v3" using 1(1) 2(1) 3(1) by (simp add: fs_init_def)
  ultimately show ?thesis using t3 d3 3(3) by blast
qed

end
