(* ===== verification/Initramfs.thy ===== *)
theory Initramfs
  imports Vfs_Calls
begin

text \<open>
  The initial file system (\<^verbatim>\<open>lib/fs/initramfs/initramfs.cpp\<close>, \<^verbatim>\<open>lib/fs/initramfs/tar.hpp\<close>): the constructor of the mount point reads a tar archive in the memory of a boot module and
  builds the tree of its entries. Addresses are 64-bit words, so that the step to the next header wraps around as in the code; a header that is not in the memory of a module is a \<open>Fault\<close>, and a
  loop over the headers that does not end is the value \<open>None\<close>. \<open>insert_inode_ok\<close> says what one entry adds to the tree; the tree of a whole archive is in \<open>Initramfs_Props\<close>.
\<close>

section \<open>The archive\<close>

text \<open>The members of \<^verbatim>\<open>TarHeader\<close> with their sizes.\<close>

definition TarHeader :: "(string \<times> nat) list" where
  "TarHeader = [(''filename'', 100), (''mode'', 8), (''uid'', 8), (''gid'', 8), (''size'', 12), (''mtime'', 12), (''checksum'', 8), (''typeflag'', 1), (''linkname'', 100),
     (''magic'', 6), (''version'', 2), (''uname'', 32), (''gname'', 32), (''devmajor'', 8), (''devminor'', 8), (''prefix'', 155), (''padding'', 12)]"

fun member_offset :: "string \<Rightarrow> (string \<times> nat) list \<Rightarrow> nat" where
  "member_offset f [] = 0"
| "member_offset f ((g, n) # fs) = (if f = g then 0 else n + member_offset f fs)"

lemma TarHeader_layout:
  "sum_list (map snd TarHeader) = 512" "member_offset ''filename'' TarHeader = 0" "member_offset ''size'' TarHeader = 124" "member_offset ''typeflag'' TarHeader = 156"
  by (simp_all add: TarHeader_def)

definition TYPEFLAG_DIR :: char where "TYPEFLAG_DIR = CHR ''5''"

definition boot_char :: "vfs \<Rightarrow> u64 \<Rightarrow> char kres" where
  "boot_char v a = (case boot_mem v a of None \<Rightarrow> Inl (Fault ''past the module'') | Some b \<Rightarrow> Inr (char_of (unat b)))"

definition header_char :: "vfs \<Rightarrow> u64 \<Rightarrow> string \<Rightarrow> nat \<Rightarrow> char kres" where
  "header_char v addr member i = boot_char v (addr + of_nat (member_offset member TarHeader + i))"

definition is_empty_header :: "vfs \<Rightarrow> u64 \<Rightarrow> bool kres" where
  "is_empty_header v header = kbind (header_char v header ''filename'' 0) (\<lambda>c. Inr (c = NUL))"

section \<open>The tree\<close>

text \<open>\<^verbatim>\<open>next_ino++\<close> in the mount point.\<close>

definition initramfs_next_ino :: "mptr \<Rightarrow> vfs \<Rightarrow> (int \<times> vfs) kres" where
  "initramfs_next_ino m v = kbind (mount_at v m) (\<lambda>p. case mp_class p of
     InitramfsMountPoint n \<Rightarrow> Inr (n, set_mount m (p\<lparr>mp_class := InitramfsMountPoint (n + 1)\<rparr>) v) | _ \<Rightarrow> Inl (Fault ''bad cast''))"

text \<open>The members of an object that was cast to \<^verbatim>\<open>InitramfsDirectoryInode*\<close>.\<close>

definition cast_dir :: "vfs \<Rightarrow> iptr \<Rightarrow> inode kres" where
  "cast_dir v i = kbind (inode_at v (Some i)) (\<lambda>n. if i_class n = InitramfsDirectoryInode then Inr n else Inl (Fault ''bad cast''))"

definition push_child :: "iptr \<Rightarrow> iptr \<Rightarrow> vfs \<Rightarrow> vfs kres" where
  "push_child d c v = kbind (cast_dir v d) (\<lambda>n. Inr (set_inode d (n\<lparr>i_children := i_children n @ [c]\<rparr>) v))"

definition new_subdir :: "mptr \<Rightarrow> string \<Rightarrow> iptr \<Rightarrow> vfs \<Rightarrow> (iptr \<times> vfs) kres" where
  "new_subdir m token current v = (let (dir, v) = new_inode (InitramfsDirectoryInode_ctor m) v in
     kbind (initramfs_next_ino m v) (\<lambda>(n, v). kbind (inode_at v (Some dir)) (\<lambda>k.
     let v = set_inode dir (k\<lparr>i_ino := word_of_int n, i_parent := Some current, i_name := token\<rparr>) v in
     kbind (push_child current dir v) (\<lambda>v. Inr (dir, v)))))"

fun insert_loop :: "mptr \<Rightarrow> string list \<Rightarrow> iptr \<Rightarrow> vfs \<Rightarrow> (iptr \<times> vfs) kres" where
  "insert_loop m [] current v = Inr (current, v)"
| "insert_loop m (token # ts) current v = kbind (cast_dir v current) (\<lambda>n. kbind (InitramfsDirectoryInode_lookup v n token) (\<lambda>existing. case existing of
     Some e \<Rightarrow> insert_loop m ts e v
   | None \<Rightarrow> kbind (new_subdir m token current v) (\<lambda>(dir, v). insert_loop m ts dir v)))"

text \<open>With no token the bound \<^verbatim>\<open>tokens.size() - 1\<close> wraps around and the loop reads past the empty vector.\<close>

definition insert_inode :: "mptr \<Rightarrow> string \<Rightarrow> iptr \<Rightarrow> vfs \<Rightarrow> vfs kres" where
  "insert_inode m path i v = kbind (mount_at v m) (\<lambda>p. let tokens = path_tokens path in
     if tokens = [] then Inl (Fault ''out of bounds'')
     else kbind (insert_loop m (butlast tokens) (root_inode p) v) (\<lambda>(current, v).
       kbind (inode_at v (Some i)) (\<lambda>n. push_child current i (set_inode i (n\<lparr>i_parent := Some current, i_name := last tokens\<rparr>) v))))"

text \<open>The inode of a header: a directory, or a file whose contents follow the header.\<close>

definition header_inode :: "mptr \<Rightarrow> u64 \<Rightarrow> u64 \<Rightarrow> vfs \<Rightarrow> (iptr \<times> vfs) kres" where
  "header_inode m addr sz v = kbind (header_char v addr ''typeflag'' 0) (\<lambda>flag.
     if flag = TYPEFLAG_DIR then let (i, v) = new_inode (InitramfsDirectoryInode_ctor m) v in
       kbind (initramfs_next_ino m v) (\<lambda>(n, v). kbind (inode_at v (Some i)) (\<lambda>k. Inr (i, set_inode i (k\<lparr>i_ino := word_of_int n\<rparr>) v)))
     else let (i, v) = new_inode (InitramfsFileInode_ctor m (addr + 512)) v in
       kbind (initramfs_next_ino m v) (\<lambda>(n, v). kbind (inode_at v (Some i)) (\<lambda>k. Inr (i, set_inode i (k\<lparr>i_size := sz, i_ino := word_of_int n\<rparr>) v))))"

text \<open>One round of the loop, up to the step to the next header: the number of blocks and the new state.\<close>

definition parse_header :: "mptr \<Rightarrow> nat \<Rightarrow> u64 \<Rightarrow> vfs \<Rightarrow> (u64 \<times> vfs) kres" where
  "parse_header m limit addr v = kbind (parse_uint (header_char v addr ''size'') 12 OCT) (\<lambda>sz.
     let num_blocks = (sz + 511) div 512; filename = (\<lambda>i. header_char v addr ''filename'' i) in
     kbind (is_empty_header v addr) (\<lambda>empty. if empty then Inr (num_blocks, v)
     else kbind (filename 0) (\<lambda>c0. kbind (filename 1) (\<lambda>c1. if c0 = CHR ''.'' \<and> c1 = NUL then Inr (num_blocks, v)
     else let start = (if c0 = CHR ''.'' \<and> c1 = CHR ''/'' then 2 else 0) in
     kbind (filename start) (\<lambda>c. if c = NUL then Inr (num_blocks, v)
     else kbind (header_inode m addr sz v) (\<lambda>(i, v). kbind (c_str_from limit start filename) (\<lambda>path.
     kbind (insert_inode m path i v) (\<lambda>v. Inr (num_blocks, v)))))))))"

partial_function (option) parse_loop :: "mptr \<Rightarrow> nat \<Rightarrow> u64 \<Rightarrow> u64 \<Rightarrow> vfs \<Rightarrow> vfs kres option" where
  "parse_loop m limit ending addr v = (if addr < ending then (case parse_header m limit addr v of Inl e \<Rightarrow> Some (Inl e)
     | Inr (num_blocks, v') \<Rightarrow> parse_loop m limit ending (addr + (512 + num_blocks * 512)) v') else Some (Inr v))"

definition parse_tar_headers :: "mptr \<Rightarrow> u64 \<Rightarrow> u64 \<Rightarrow> vfs \<Rightarrow> vfs kres option" where
  "parse_tar_headers m tar_buffer tar_size v = (let (r, v) = new_inode (InitramfsDirectoryInode_ctor m) v in
     kthen (kbind (mount_at v m) (\<lambda>p. kbind (initramfs_next_ino m (set_mount m (p\<lparr>root_inode := r\<rparr>) v)) (\<lambda>(n, v).
       kbind (inode_at v (Some r)) (\<lambda>k. Inr (set_inode r (k\<lparr>i_ino := word_of_int n, i_parent := None\<rparr>) v)))))
       (parse_loop m (unat tar_size) (tar_buffer + tar_size) tar_buffer))"

definition InitramfsMountPoint_new :: "u64 \<Rightarrow> u64 \<Rightarrow> vfs \<Rightarrow> (mptr \<times> vfs) kres option" where
  "InitramfsMountPoint_new buffer sz v = (let (m, v) = new_mount (\<lambda>raw. raw\<lparr>mp_class := InitramfsMountPoint 1\<rparr>) v in
     map_option (\<lambda>r. kbind r (\<lambda>v. Inr (m, v))) (parse_tar_headers m buffer sz v))"

text \<open>Each module of the boot loader is mounted at the root.\<close>

fun init_modules :: "(u64 \<times> u64) list \<Rightarrow> vfs \<Rightarrow> vfs kres option" where
  "init_modules [] v = Some (Inr v)"
| "init_modules ((addr, sz) # ms) v = (case InitramfsMountPoint_new addr sz v of None \<Rightarrow> None
     | Some r \<Rightarrow> kthen (kbind r (\<lambda>(m, v). register_mount ''/'' m v)) (init_modules ms))"

section \<open>Stores before anything is mounted\<close>

definition bare :: "vfs \<Rightarrow> bool" where
  "bare v \<longleftrightarrow> (\<forall>m p. mounts v m = Some p \<longrightarrow> mounted_on p = None)"

lemma bare_resolve_name:
  assumes "tree_ok v" "bare v"
  shows "resolve_name v q t = inode_lookup v q t"
proof (cases "inode_lookup v q t")
  case (Inr r)
  show ?thesis
  proof (cases r)
    case (Some c)
    obtain g where g: "find_mount_at v (Some c) = Inr g" "\<And>p. g = Some p \<Longrightarrow> \<exists>m. mounts v m = Some p \<and> mount_ok v m p \<and> mounted_on p = Some c"
      by (rule find_mount_at_ok [OF assms(1)]) blast
    then have "g = None" using assms(2) by (cases g) (auto simp: bare_def)
    then show ?thesis using Inr Some g(1) by (simp add: resolve_name_def)
  qed (use Inr in \<open>simp add: resolve_name_def\<close>)
qed (simp add: resolve_name_def)

text \<open>The state while the tree of the mount point \<open>m\<close> with the root \<open>r\<close> is built; \<open>w\<close> is the address of an inode that is not in the tree yet.\<close>

definition grown :: "mptr \<Rightarrow> iptr \<Rightarrow> vfs \<Rightarrow> bool" where
  "grown m r v \<longleftrightarrow> tree_ok v \<and> bare v \<and> (\<exists>p n. mounts v m = Some p \<and> mp_class p = InitramfsMountPoint n \<and> root_inode p = r)"

definition building :: "mptr \<Rightarrow> iptr \<Rightarrow> iptr \<Rightarrow> vfs \<Rightarrow> bool" where
  "building m r w v \<longleftrightarrow> tree_ok v \<and> bare v \<and> inodes v w = None \<and> w < next_obj v \<and> (\<exists>p n. mounts v m = Some p \<and> mp_class p = InitramfsMountPoint n \<and> root_inode p = r)"

lemma building_grown: "building m r w v \<Longrightarrow> grown m r v"
  by (auto simp: building_def grown_def)

definition init_dir :: "mptr \<Rightarrow> vfs \<Rightarrow> iptr \<Rightarrow> inode \<Rightarrow> bool" where
  "init_dir m v d n \<longleftrightarrow> inodes v d = Some n \<and> i_mountpoint n = m \<and> i_class n = InitramfsDirectoryInode"

lemma grown_root: "grown m r v \<Longrightarrow> \<exists>n. init_dir m v r n \<and> i_parent n = None \<and> i_name n = []"
proof -
  assume b: "grown m r v"
  then obtain p n where p: "mounts v m = Some p" "mp_class p = InitramfsMountPoint n" "root_inode p = r" by (auto simp: grown_def)
  have t: "tree_ok v" and on: "mounted_on p = None" using b p(1) by (auto simp: grown_def bare_def)
  obtain x where x: "inodes v r = Some x" "i_mountpoint x = m" "i_type x = DIRECTORY" "i_name x = []" "i_parent x = None"
    using tree_ok_mount [OF t p(1)] p(3) on by (auto simp: mount_ok_def)
  have "class_mount (i_class x) (InitramfsMountPoint n)" "class_type (i_class x) = DIRECTORY" using tree_ok_inode [OF t x(1)] x p by (auto simp: inode_ok_def)
  then have "i_class x = InitramfsDirectoryInode" by (cases "i_class x") auto
  then show ?thesis using x by (auto simp: init_dir_def)
qed

lemma grown_walk:
  assumes b: "grown m r v" and k: "walk v r ns i"
  shows "\<exists>n. inodes v i = Some n \<and> i_mountpoint n = m \<and> (i_class n = InitramfsDirectoryInode \<or> (\<exists>a. i_class n = InitramfsFileInode a))"
  using k
proof (induction rule: walk.induct)
  case here
  then show ?case using grown_root [OF b] by (auto simp: init_dir_def)
next
  case (name ns d t i)
  have t: "tree_ok v" "bare v" using b by (auto simp: grown_def)
  obtain p x where p: "mounts v m = Some p" "mp_class p = InitramfsMountPoint x" using b by (auto simp: grown_def)
  obtain n where n: "inodes v d = Some n" "i_mountpoint n = m" using name.IH by blast
  have "inode_lookup v (Some d) t = Inr (Some i)" using name.hyps(3) bare_resolve_name [OF t] by simp
  then obtain k where k: "entry_of v d n t i k" using inode_lookup_ok [OF t(1) n(1), of t] by auto
  then have "inodes v i = Some k" "i_mountpoint k = m" using n by (auto simp: entry_of_def)
  moreover have "class_mount (i_class k) (InitramfsMountPoint x)" using tree_ok_inode [OF t(1), of i k] p calculation by (auto simp: inode_ok_def)
  ultimately show ?case by (cases "i_class k") auto
qed

lemmas building_root = grown_root [OF building_grown]
lemmas building_walk = grown_walk [OF building_grown]

lemma walk_getcwd:
  assumes t: "tree_ok v" and r: "inodes v r = Some n" "i_parent n = None" "i_name n = []" and w: "walk v r ns i" "i_type (the (inodes v i)) = DIRECTORY"
  shows "getcwd_loop v (Some i) acc = Some (Inr (ns @ acc))"
  using w
proof (induction arbitrary: acc rule: walk.induct)
  case here
  then show ?case using r by (auto simp: getcwd_step getcwd_end)
next
  case (name ns d t i)
  then have "leads v d t i" using walk_leads [OF t] r(1) by blast
  from leads_dir [OF this name.prems name.hyps(2)] show ?case using name.IH by simp
qed

lemma building_unique:
  assumes b: "building m r w v" and "walk v r ns i" "walk v r ms i" "init_dir m v i n"
  shows "ns = ms"
proof -
  have t: "tree_ok v" using b by (simp add: building_def)
  obtain x where x: "inodes v r = Some x" "i_parent x = None" "i_name x = []" using building_root [OF b] by (auto simp: init_dir_def)
  have "i_type (the (inodes v i)) = DIRECTORY" using tree_ok_inode [OF t, of i n] assms(4) by (auto simp: inode_ok_def init_dir_def)
  then show ?thesis using walk_getcwd [OF t x assms(2), of "[]"] walk_getcwd [OF t x assms(3), of "[]"] by simp
qed

section \<open>The tree as a map\<close>

datatype entry = Dir | File u64 u64

definition kind_of :: "inode \<Rightarrow> entry" where
  "kind_of n = (case i_class n of InitramfsFileInode a \<Rightarrow> File a (i_size n) | _ \<Rightarrow> Dir)"

definition tree_at :: "vfs \<Rightarrow> iptr \<Rightarrow> string list \<Rightarrow> entry option" where
  "tree_at v r ns = (case resolve_loop v (Some r) ns of Inr (Some i) \<Rightarrow> map_option kind_of (inodes v i) | _ \<Rightarrow> None)"

lemma tree_at_walk: "walk v r ns i \<Longrightarrow> tree_at v r ns = map_option kind_of (inodes v i)"
  using walk_resolve [of v r ns i "[]"] by (simp add: tree_at_def)

lemma tree_at_Some: "\<forall>t \<in> set ns. plain_name t \<Longrightarrow> tree_at v r ns = Some e \<Longrightarrow> \<exists>i n. walk v r ns i \<and> inodes v i = Some n \<and> kind_of n = e"
proof -
  assume pl: "\<forall>t \<in> set ns. plain_name t" and e: "tree_at v r ns = Some e"
  then obtain i where i: "resolve_loop v (Some r) ns = Inr (Some i)" "map_option kind_of (inodes v i) = Some e" by (simp add: tree_at_def split: sum.splits option.splits)
  then show ?thesis using resolve_walk [OF walk.here pl i(1)] by auto
qed

lemma tree_at_None: "tree_ok v \<Longrightarrow> r \<in> dom (inodes v) \<Longrightarrow> tree_at v r ns = None \<Longrightarrow> \<not> walk v r ns i"
  using tree_at_walk walk_inode by fastforce

text \<open>A new entry is one update of the map, or none when there is already an entry of that name.\<close>

lemma add_entry_hidden:
  assumes t: "tree_ok v" and f: "entry_fits v w d n k p" and r: "r \<in> dom (inodes v)" and some: "inode_lookup v (Some d) (i_name k) \<noteq> Inr None"
  shows "walk (add_entry w d n k p v) r ns i \<longleftrightarrow> walk v r ns i"
proof
  have same: "resolve_name (add_entry w d n k p v) (Some e) s = resolve_name v (Some e) s" if "e \<in> dom (inodes v)" for e s
    using add_entry_resolve_name [OF t f, of e] that some by auto
  show "walk v r ns i" if "walk (add_entry w d n k p v) r ns i" using that
  proof (induction rule: walk.induct)
    case (name ns e s i)
    have "resolve_name v (Some e) s = Inr (Some i)" using same [OF walk_inode [OF t r name.IH]] name.hyps(3) by simp
    then show ?case by (rule walk.name [OF name.IH name.hyps(2)])
  qed (rule walk.here)
  show "walk (add_entry w d n k p v) r ns i" if "walk v r ns i" using that
  proof (induction rule: walk.induct)
    case (name ns e s i)
    have "resolve_name (add_entry w d n k p v) (Some e) s = Inr (Some i)" using same [OF walk_inode [OF t r name.hyps(1)]] name.hyps(3) by simp
    then show ?case by (rule walk.name [OF name.IH name.hyps(2)])
  qed (rule walk.here)
qed

lemma add_entry_tree_at:
  assumes b: "building m r w v" and f: "entry_fits v c d n k p" and d: "init_dir m v d n" and wd: "walk v r ms d" and pl: "plain_name (i_name k)" and ns: "\<forall>t \<in> set ns. plain_name t"
  shows "tree_at (add_entry c d n k p v) r ns = (if tree_at v r (ms @ [i_name k]) = None \<and> ns = ms @ [i_name k] then Some (kind_of k) else tree_at v r ns)"
proof -
  let ?v = "add_entry c d n k p v"
  have t: "tree_ok v" "bare v" and r: "r \<in> dom (inodes v)" using b building_root [OF b] by (auto simp: building_def init_dir_def)
  have fresh: "inodes v c = None" "d \<noteq> c" using f by (auto simp: entry_fits_def)
  have kinds: "map_option kind_of (inodes ?v i) = map_option kind_of (inodes v i)" if "i \<in> dom (inodes v)" for i
  proof -
    obtain x where x: "inodes v i = Some x" using \<open>i \<in> dom (inodes v)\<close> by auto
    obtain y where y: "inodes ?v i = Some y" "i_class y = i_class x" "i_size y = i_size x" using add_entry_old [OF t(1) f x] by blast
    then have "kind_of y = kind_of x" by (simp only: kind_of_def)
    then show ?thesis by (simp only: x y(1) option.map)
  qed
  have there: "tree_at v r (ms @ [i_name k]) = None \<longleftrightarrow> inode_lookup v (Some d) (i_name k) = Inr None"
  proof
    assume "inode_lookup v (Some d) (i_name k) = Inr None"
    then have "resolve_name v (Some d) (i_name k) = Inr None" using bare_resolve_name [OF t] by simp
    then show "tree_at v r (ms @ [i_name k]) = None" using walk_resolve [OF wd, of "[i_name k]"] pl by (simp add: tree_at_def plain_name_def)
  next
    assume none: "tree_at v r (ms @ [i_name k]) = None"
    obtain l where l: "inode_lookup v (Some d) (i_name k) = Inr l" using inode_lookup_ok [OF t(1), of d n] d by (auto simp: init_dir_def)
    have "l = None"
    proof (rule ccontr)
      assume "l \<noteq> None"
      then obtain i where "resolve_name v (Some d) (i_name k) = Inr (Some i)" using l bare_resolve_name [OF t] by auto
      then have "walk v r (ms @ [i_name k]) i" by (rule walk.name [OF wd pl])
      then show False using tree_at_None [OF t(1) r none] by blast
    qed
    then show "inode_lookup v (Some d) (i_name k) = Inr None" using l by simp
  qed
  have at: "tree_at ?v r ns = tree_at v r ns" if eq: "\<And>i. walk ?v r ns i \<longleftrightarrow> walk v r ns i"
  proof (cases "\<exists>i. walk v r ns i")
    case True
    then obtain i where i: "walk v r ns i" by blast
    then have i': "walk ?v r ns i" by (simp only: eq)
    show ?thesis by (simp only: tree_at_walk [OF i] tree_at_walk [OF i'] kinds [OF walk_inode [OF t(1) r i]])
  next
    case False
    have "tree_at v r ns = None" using tree_at_Some [OF ns, of v r] False by (cases "tree_at v r ns") blast+
    moreover have "tree_at ?v r ns = None" using tree_at_Some [OF ns, of ?v r] False eq by (cases "tree_at ?v r ns") blast+
    ultimately show ?thesis by simp
  qed
  show ?thesis
  proof (cases "inode_lookup v (Some d) (i_name k) = Inr None")
    case True
    note aw = add_entry_walk [OF t(1) f r True pl]
    have path: "walk v r ms' d \<longleftrightarrow> ms' = ms" for ms' using building_unique [OF b _ wd d] wd by blast
    show ?thesis
    proof (cases "ns = ms @ [i_name k]")
      case eq: True
      then have "walk ?v r ns c" using aw path by blast
      moreover have "inodes ?v c = Some k" using fresh by simp
      ultimately show ?thesis using tree_at_walk [of ?v r ns c] eq True there by simp
    next
      case False
      then have "walk ?v r ns i \<longleftrightarrow> walk v r ns i" for i using aw [of ns i] path by blast
      then show ?thesis using at False by simp
    qed
  next
    case False
    then show ?thesis using at add_entry_hidden [OF t(1) f r False] there by simp
  qed
qed

section \<open>Insertion\<close>

text \<open>What inserting an entry at a path does to the map: the directories on the way appear, and the entry unless the path is taken.\<close>

definition on_the_way :: "string list \<Rightarrow> string list \<Rightarrow> bool" where
  "on_the_way ns path \<longleftrightarrow> (\<exists>zs. zs \<noteq> [] \<and> path = ns @ zs)"

definition insert_entry :: "string list \<Rightarrow> entry \<Rightarrow> (string list \<Rightarrow> entry option) \<Rightarrow> string list \<Rightarrow> entry option" where
  "insert_entry path e tree ns = (if tree ns \<noteq> None then tree ns else if on_the_way ns path then Some Dir else if ns = path then Some e else None)"

definition can_insert :: "string list \<Rightarrow> (string list \<Rightarrow> entry option) \<Rightarrow> bool" where
  "can_insert path tree \<longleftrightarrow> path \<noteq> [] \<and> (\<forall>t \<in> set path. plain_name t) \<and> (\<forall>ns a n. on_the_way ns path \<longrightarrow> tree ns \<noteq> Some (File a n))"

lemma new_subdir_eq:
  assumes b: "building m r w v" and d: "init_dir m v d n"
  shows "\<exists>k p c. new_subdir m t d (set_inode w x v) = Inr (next_obj v, set_inode w x (add_entry (next_obj v) d n k p v)) \<and> entry_fits v (next_obj v) d n k p \<and>
    i_name k = t \<and> kind_of k = Dir \<and> i_class k = InitramfsDirectoryInode \<and> mp_class p = InitramfsMountPoint c \<and> root_inode p = r \<and> mounted_on p = None"
proof -
  obtain p c where p: "mounts v m = Some p" "mp_class p = InitramfsMountPoint c" "root_inode p = r" using b by (auto simp: building_def)
  have t: "tree_ok v" and w: "w < next_obj v" "inodes v w = None" and on: "mounted_on p = None" using b p(1) by (auto simp: building_def bare_def)
  have n: "inodes v d = Some n" "i_mountpoint n = m" "i_class n = InitramfsDirectoryInode" using d by (auto simp: init_dir_def)
  have ne: "d \<noteq> next_obj v" "w \<noteq> next_obj v" "d \<noteq> w" using tree_ok_inode [OF t n(1)] w n(1) by auto
  let ?k = "(InitramfsDirectoryInode_ctor m (raw_inode v (next_obj v)))\<lparr>i_ino := word_of_int c, i_parent := Some d, i_name := t\<rparr>" and ?p = "p\<lparr>mp_class := InitramfsMountPoint (c + 1)\<rparr>"
  have "new_subdir m t d (set_inode w x v) = Inr (next_obj v, set_inode w x (add_entry (next_obj v) d n ?k ?p v))"
    using p n ne by (simp add: new_subdir_def new_inode_def set_inode_def set_mount_def initramfs_next_ino_def mount_at_def inode_at_def push_child_def cast_dir_def add_entry_def Let_def fun_upd_twist)
  moreover have "class_mount y (InitramfsMountPoint (c + 1)) = class_mount y (InitramfsMountPoint c)" for y by (cases y) auto
  then have "entry_fits v (next_obj v) d n ?k ?p" using n p tree_fresh [OF t]
    by (auto simp: entry_fits_def has_children_def fixed_dir_def InitramfsDirectoryInode_ctor_def DirectoryInode_ctor_def Inode_ctor_def file_ok_def)
  ultimately show ?thesis using p(3) on by (intro exI [of _ ?k] exI [of _ ?p] exI [of _ "c + 1"]) (simp add: kind_of_def InitramfsDirectoryInode_ctor_def)
qed

lemma building_add:
  assumes b: "building m r w v" and d: "init_dir m v d n" and f: "entry_fits v c d n k p" and p: "mp_class p = InitramfsMountPoint x" "root_inode p = r" "mounted_on p = None" and w: "c \<noteq> w"
  shows "building m r w (add_entry c d n k p v)"
proof -
  have t: "tree_ok v" using b by (simp add: building_def)
  have "d \<noteq> w" using b d by (auto simp: building_def init_dir_def)
  then show ?thesis using add_entry_tree [OF t f] b d p w by (auto simp: building_def bare_def init_dir_def)
qed

text \<open>The loop over the directories of a path.\<close>

definition with_dirs :: "string list \<Rightarrow> string list \<Rightarrow> (string list \<Rightarrow> entry option) \<Rightarrow> string list \<Rightarrow> entry option" where
  "with_dirs ms ts tree ns = (if tree ns = None \<and> (\<exists>j. 0 < j \<and> j \<le> length ts \<and> ns = ms @ take j ts) then Some Dir else tree ns)"

lemma with_dirs_Cons:
  "with_dirs ms (t # ts) tree ns = with_dirs (ms @ [t]) ts (tree(ms @ [t] := (if tree (ms @ [t]) = None then Some Dir else tree (ms @ [t])))) ns"
proof -
  have "(\<exists>j. 0 < j \<and> j \<le> length (t # ts) \<and> ns = ms @ take j (t # ts)) \<longleftrightarrow> ns = ms @ [t] \<or> (\<exists>j. 0 < j \<and> j \<le> length ts \<and> ns = (ms @ [t]) @ take j ts)" (is "?l \<longleftrightarrow> ?r")
  proof
    assume ?l
    then obtain j where j: "0 < j" "j \<le> length (t # ts)" "ns = ms @ take j (t # ts)" by blast
    then obtain i where "j = Suc i" by (cases j) auto
    then show ?r using j by (cases "i = 0") auto
  next
    assume ?r
    then show ?l
    proof
      assume "ns = ms @ [t]"
      then show ?l by (intro exI [of _ 1]) simp
    next
      assume "\<exists>j. 0 < j \<and> j \<le> length ts \<and> ns = (ms @ [t]) @ take j ts"
      then obtain j where "0 < j" "j \<le> length ts" "ns = (ms @ [t]) @ take j ts" by blast
      then show ?l by (intro exI [of _ "Suc j"]) simp
    qed
  qed
  then show ?thesis by (auto simp: with_dirs_def)
qed

lemma insert_loop_ok:
  assumes "building m r w v" "walk v r ms d" "init_dir m v d n" "\<forall>t \<in> set ts. plain_name t"
    "\<forall>j a z. 0 < j \<and> j \<le> length ts \<longrightarrow> tree_at v r (ms @ take j ts) \<noteq> Some (File a z)"
  shows "\<exists>d' n' v'. insert_loop m ts d (set_inode w x v) = Inr (d', set_inode w x v') \<and> building m r w v' \<and> walk v' r (ms @ ts) d' \<and> init_dir m v' d' n' \<and> boot_mem v' = boot_mem v \<and>
    g_mountpoints v' = g_mountpoints v \<and> g_root_mountpoint v' = g_root_mountpoint v \<and> (\<forall>ns. (\<forall>t \<in> set ns. plain_name t) \<longrightarrow> tree_at v' r ns = with_dirs ms ts (tree_at v r) ns)"
  using assms
proof (induction ts arbitrary: ms d n v)
  case Nil
  then show ?case by (intro exI [of _ d] exI [of _ n] exI [of _ v]) (simp add: with_dirs_def)
next
  case (Cons t ts)
  let ?v = "set_inode w x v"
  have ok: "tree_ok v" "bare v" "inodes v w = None" using Cons.prems(1) by (auto simp: building_def)
  have n: "inodes v d = Some n" "i_class n = InitramfsDirectoryInode" "i_mountpoint n = m" using Cons.prems(3) by (auto simp: init_dir_def)
  have ne: "d \<noteq> w" using n ok(3) by auto
  have pl: "plain_name t" using Cons.prems(4) by simp
  obtain l where l: "inode_lookup v (Some d) t = Inr l" "\<forall>c. l = Some c \<longrightarrow> (\<exists>k. entry_of v d n t c k)" using inode_lookup_ok [OF ok(1) n(1)] by blast
  have ex: "extends v ?v" using ok(3) by (auto simp: extends_def set_inode_def map_le_def)
  have look: "InitramfsDirectoryInode_lookup ?v n t = Inr l"
  proof -
    have "find_child v t (i_children n) = Inr l" using l(1) n by (simp add: inode_lookup_def inode_at_Some InitramfsDirectoryInode_lookup_def)
    then show ?thesis using extends_find_child [OF ex] by (simp add: InitramfsDirectoryInode_lookup_def)
  qed
  have cast: "cast_dir ?v d = Inr n" using n ne by (simp add: cast_dir_def inode_at_def set_inode_def)
  have nofile: "tree_at v r (ms @ [t]) \<noteq> Some (File a z)" for a z using Cons.prems(5) [rule_format, of 1 a z] by simp
  have rest: "tree_at v r ((ms @ [t]) @ take j ts) \<noteq> Some (File a z)" if "0 < j \<and> j \<le> length ts" for j a z using Cons.prems(5) [rule_format, of "Suc j" a z] that by simp
  show ?case
  proof (cases l)
    case (Some e)
    then obtain k where k: "entry_of v d n t e k" using l(2) by blast
    have w: "walk v r (ms @ [t]) e" using walk.name [OF Cons.prems(2) pl] l(1) Some bare_resolve_name [OF ok(1,2)] by simp
    obtain k where k: "inodes v e = Some k" "i_mountpoint k = m" "i_class k = InitramfsDirectoryInode \<or> (\<exists>a. i_class k = InitramfsFileInode a)" using building_walk [OF Cons.prems(1) w] by blast
    have "i_class k \<noteq> InitramfsFileInode a" for a using nofile [of a "i_size k"] tree_at_walk [OF w] k(1) by (auto simp: kind_of_def)
    then have e: "init_dir m v e k" using k by (auto simp: init_dir_def)
    have "tree_at v r (ms @ [t]) \<noteq> None" using tree_at_walk [OF w] k(1) by simp
    then have "(tree_at v r)(ms @ [t] := (if tree_at v r (ms @ [t]) = None then Some Dir else tree_at v r (ms @ [t]))) = tree_at v r" by auto
    then show ?thesis using Cons.IH [OF Cons.prems(1) w e] Cons.prems(4) rest cast look Some unfolding with_dirs_Cons by simp
  next
    case None
    obtain k p c where k: "new_subdir m t d ?v = Inr (next_obj v, set_inode w x (add_entry (next_obj v) d n k p v))" "entry_fits v (next_obj v) d n k p" "i_name k = t" "kind_of k = Dir"
      "i_class k = InitramfsDirectoryInode" "mp_class p = InitramfsMountPoint c" "root_inode p = r" "mounted_on p = None"
      using new_subdir_eq [OF Cons.prems(1,3), of t x] by blast
    let ?u = "add_entry (next_obj v) d n k p v"
    have ww: "w < next_obj v" using Cons.prems(1) by (simp add: building_def)
    have b: "building m r w ?u" by (rule building_add [OF Cons.prems(1,3) k(2,6-8)]) (use ww in simp)
    have nr: "r \<in> dom (inodes v)" using building_root [OF Cons.prems(1)] by (auto simp: init_dir_def)
    have look0: "inode_lookup v (Some d) (i_name k) = Inr None" using l(1) None k(3) by simp
    have w: "walk ?u r (ms @ [t]) (next_obj v)" using add_entry_walk [OF ok(1) k(2) nr look0] pl k(3) Cons.prems(2) by blast
    have dk: "init_dir m ?u (next_obj v) k" using k(2,5) n by (auto simp: init_dir_def entry_fits_def)
    have at: "tree_at ?u r ns = ((tree_at v r)(ms @ [t] := (if tree_at v r (ms @ [t]) = None then Some Dir else tree_at v r (ms @ [t])))) ns" if "\<forall>t \<in> set ns. plain_name t" for ns
      using add_entry_tree_at [OF Cons.prems(1) k(2) Cons.prems(3,2) _ that] pl k(3,4) by auto
    have plr: "\<forall>t \<in> set ((ms @ [t]) @ take j ts). plain_name t" for j using walk_plain [OF w] Cons.prems(4) by (auto dest: in_set_takeD)
    have rest': "tree_at ?u r ((ms @ [t]) @ take j ts) \<noteq> Some (File a z)" if "0 < j \<and> j \<le> length ts" for j a z
      using rest [OF that, of a z] at [OF plr, of j] by auto
    obtain d' n' v' where i: "insert_loop m ts (next_obj v) (set_inode w x ?u) = Inr (d', set_inode w x v')" "building m r w v'" "walk v' r ((ms @ [t]) @ ts) d'" "init_dir m v' d' n'" "boot_mem v' = boot_mem ?u"
      "g_mountpoints v' = g_mountpoints ?u" "g_root_mountpoint v' = g_root_mountpoint ?u" "\<forall>ns. (\<forall>t \<in> set ns. plain_name t) \<longrightarrow> tree_at v' r ns = with_dirs (ms @ [t]) ts (tree_at ?u r) ns"
      using Cons.IH [OF b w dk] Cons.prems(4) rest' by auto
    have "tree_at v' r ns = with_dirs ms (t # ts) (tree_at v r) ns" if "\<forall>t \<in> set ns. plain_name t" for ns
      using i(8) that at [OF that] at [OF plr] unfolding with_dirs_Cons by (auto simp: with_dirs_def)
    moreover have "boot_mem ?u = boot_mem v" by (simp add: add_entry_def)
    ultimately show ?thesis using i cast look None k(1) by (intro exI [of _ d'] exI [of _ n'] exI [of _ v']) simp
  qed
qed

lemma insert_inode_ok:
  assumes b: "building m r w v" and path: "path_tokens path = ts" "can_insert ts (tree_at v r)"
    and x: "i_mountpoint x = m" "i_class x = InitramfsDirectoryInode \<and> i_children x = [] \<or> (\<exists>a. i_class x = InitramfsFileInode a)" "i_type x = class_type (i_class x)"
  shows "\<exists>v'. insert_inode m path w (set_inode w x v) = Inr v' \<and> tree_ok v' \<and> bare v' \<and> (\<exists>p c. mounts v' m = Some p \<and> mp_class p = InitramfsMountPoint c \<and> root_inode p = r) \<and>
    boot_mem v' = boot_mem v \<and> g_mountpoints v' = g_mountpoints v \<and> g_root_mountpoint v' = g_root_mountpoint v \<and>
    (\<forall>ns. (\<forall>t \<in> set ns. plain_name t) \<longrightarrow> tree_at v' r ns = insert_entry ts (kind_of x) (tree_at v r) ns)"
proof -
  obtain rn where rn: "init_dir m v r rn" using building_root [OF b] by blast
  obtain p0 c0 where p0: "mounts v m = Some p0" "root_inode p0 = r" using b by (auto simp: building_def)
  define us where "us = butlast ts"
  have ts: "ts = us @ [last ts]" "\<forall>t \<in> set us. plain_name t" "plain_name (last ts)" "ts \<noteq> []" using path(2) by (auto simp: can_insert_def us_def dest: in_set_butlastD)
  have way: "\<forall>j a z. 0 < j \<and> j \<le> length us \<longrightarrow> tree_at v r ([] @ take j us) \<noteq> Some (File a z)"
  proof (intro allI impI)
    fix j a z assume "0 < j \<and> j \<le> length us"
    then have "on_the_way (take j us) ts" using ts(1) unfolding on_the_way_def by (intro exI [of _ "drop j us @ [last ts]"]) (metis append.assoc append_take_drop_id append_is_Nil_conv list.distinct(1))
    then show "tree_at v r ([] @ take j us) \<noteq> Some (File a z)" using path(2) by (auto simp: can_insert_def)
  qed
  obtain d n u where u: "insert_loop m us r (set_inode w x v) = Inr (d, set_inode w x u)" "building m r w u" "walk u r us d" "init_dir m u d n" "boot_mem u = boot_mem v"
    "g_mountpoints u = g_mountpoints v" "g_root_mountpoint u = g_root_mountpoint v" "\<forall>ns. (\<forall>t \<in> set ns. plain_name t) \<longrightarrow> tree_at u r ns = with_dirs [] us (tree_at v r) ns"
    using insert_loop_ok [OF b walk.here rn ts(2) way, of x] by auto
  obtain p c where p: "mounts u m = Some p" "mp_class p = InitramfsMountPoint c" "root_inode p = r" using u(2) by (auto simp: building_def)
  have on: "mounted_on p = None" and w: "inodes u w = None" "w < next_obj u" "tree_ok u" "bare u" using u(2) p(1) by (auto simp: building_def bare_def)
  have n: "inodes u d = Some n" "i_mountpoint n = m" "i_class n = InitramfsDirectoryInode" using u(4) by (auto simp: init_dir_def)
  have ne: "d \<noteq> w" using n(1) w(1) by auto
  let ?k = "x\<lparr>i_parent := Some d, i_name := last ts\<rparr>" and ?v = "add_entry w d n (x\<lparr>i_parent := Some d, i_name := last ts\<rparr>) p u"
  have f: "entry_fits u w d n ?k p" using n p w(1) x by (auto simp: entry_fits_def has_children_def fixed_dir_def file_ok_def)
  have "(mounts u)(m \<mapsto> p) = mounts u" "max (next_obj u) (w + 1) = next_obj u" using p(1) w(2) by (auto simp: fun_upd_idem max_def)
  then have v: "push_child d w (set_inode w ?k (set_inode w x u)) = Inr ?v" using n ne
    by (simp add: push_child_def cast_dir_def inode_at_def set_inode_def add_entry_def fun_upd_twist)
  have "insert_inode m path w (set_inode w x v) = Inr ?v" using p0 path(1) ts(4) u(1) v by (simp add: insert_inode_def mount_at_def set_inode_def us_def inode_at_def Let_def)
  moreover have "tree_ok ?v" by (rule add_entry_tree [OF w(3) f])
  moreover have "bare ?v" using w(4) on n(2) by (auto simp: bare_def)
  moreover have "\<exists>q c. mounts ?v m = Some q \<and> mp_class q = InitramfsMountPoint c \<and> root_inode q = r" using p n(2) by auto
  moreover have "boot_mem ?v = boot_mem v" "g_mountpoints ?v = g_mountpoints v" "g_root_mountpoint ?v = g_root_mountpoint v" using u by (simp_all add: add_entry_def)
  moreover have "tree_at ?v r ns = insert_entry ts (kind_of x) (tree_at v r) ns" if "\<forall>t \<in> set ns. plain_name t" for ns
  proof -
    have k: "kind_of ?k = kind_of x" by (simp add: kind_of_def split: inode_class.split)
    have tsp: "\<forall>t \<in> set (us @ [last ts]). plain_name t" using ts(2,3) by simp
    have "tree_at ?v r ns = (if tree_at u r ts = None \<and> ns = ts then Some (kind_of x) else tree_at u r ns)"
      using add_entry_tree_at [OF u(2) f u(4,3) _ that] ts(3) k by (simp add: ts(1) [symmetric])
    moreover have "tree_at u r ns = with_dirs [] us (tree_at v r) ns" "tree_at u r ts = with_dirs [] us (tree_at v r) ts" using u(8) that tsp ts(1) by auto
    moreover have "(\<exists>j. 0 < j \<and> j \<le> length us \<and> qs = take j us) \<longleftrightarrow> qs \<noteq> [] \<and> on_the_way qs ts" for qs
    proof
      assume "\<exists>j. 0 < j \<and> j \<le> length us \<and> qs = take j us"
      then obtain j where j: "0 < j" "j \<le> length us" "qs = take j us" by blast
      then have "ts = qs @ drop j us @ [last ts]" using ts(1) by (metis append.assoc append_take_drop_id)
      then show "qs \<noteq> [] \<and> on_the_way qs ts" using j unfolding on_the_way_def by (intro conjI exI [of _ "drop j us @ [last ts]"]) auto
    next
      assume q: "qs \<noteq> [] \<and> on_the_way qs ts"
      then obtain zs where zs: "zs \<noteq> []" "ts = qs @ zs" by (auto simp: on_the_way_def)
      then have "us = qs @ butlast zs" by (simp add: us_def butlast_append)
      then show "\<exists>j. 0 < j \<and> j \<le> length us \<and> qs = take j us" using q by (intro exI [of _ "length qs"]) simp
    qed
    moreover have "\<not> on_the_way ts ts" by (simp add: on_the_way_def)
    moreover have "tree_at v r [] \<noteq> None" using tree_at_walk [OF walk.here, of v r] rn by (auto simp: init_dir_def)
    ultimately show ?thesis by (auto simp: with_dirs_def insert_entry_def)
  qed
  ultimately show ?thesis by blast
qed

end
