(* ===== verification/Initramfs_Props.thy ===== *)
theory Initramfs_Props
  imports Initramfs
begin

text \<open>
  What \<^verbatim>\<open>parse_tar_headers\<close> makes of an archive: the loop over the headers ends, and the tree is the one the entries describe. Mounted at the root, it is a well-formed file system.
\<close>

section \<open>Archives\<close>

text \<open>A block of zeros at the end of the archive, or an entry: its name, the octal digits of its size, and whether it is a directory.\<close>

datatype tar_block = Blank | Entry string "nat list" bool

definition octal :: "nat list \<Rightarrow> nat" where
  "octal ds = foldl (\<lambda>a d. a * 8 + d) 0 ds"

fun header_at :: "vfs \<Rightarrow> nat \<Rightarrow> u64 \<Rightarrow> tar_block \<Rightarrow> bool" where
  "header_at v limit a Blank \<longleftrightarrow> header_char v a ''filename'' 0 = Inr NUL \<and> header_char v a ''size'' 0 = Inr NUL"
| "header_at v limit a (Entry name ds isdir) \<longleftrightarrow> reads (header_char v a ''filename'') (name @ [NUL]) \<and> NUL \<notin> set name \<and> name \<noteq> [] \<and> length name < limit \<and>
     reads (header_char v a ''size'') (map (\<lambda>d. HEX_CHARS ! d) ds @ [NUL]) \<and> length ds \<le> 12 \<and> (\<forall>d \<in> set ds. d < 8) \<and>
     (\<exists>flag. header_char v a ''typeflag'' 0 = Inr flag \<and> (flag = TYPEFLAG_DIR \<longleftrightarrow> isdir))"

fun block_bytes :: "tar_block \<Rightarrow> u64" where
  "block_bytes Blank = 0"
| "block_bytes (Entry name ds isdir) = of_nat (octal ds)"

definition next_header :: "u64 \<Rightarrow> tar_block \<Rightarrow> u64" where
  "next_header a b = a + (512 + (block_bytes b + 511) div 512 * 512)"

fun archive :: "vfs \<Rightarrow> nat \<Rightarrow> u64 \<Rightarrow> u64 \<Rightarrow> tar_block list \<Rightarrow> bool" where
  "archive v limit ending a [] \<longleftrightarrow> \<not> a < ending"
| "archive v limit ending a (b # bs) \<longleftrightarrow> a < ending \<and> header_at v limit a b \<and> archive v limit ending (next_header a b) bs"

text \<open>The path an entry is inserted at, if any: a leading \<^verbatim>\<open>./\<close> is dropped, and the entry of the top directory is skipped.\<close>

definition entry_path :: "string \<Rightarrow> string option" where
  "entry_path name = (if name = ''.'' \<or> name = ''./'' then None else if take 2 name = ''./'' then Some (drop 2 name) else Some name)"

fun apply_block :: "u64 \<Rightarrow> tar_block \<Rightarrow> (string list \<Rightarrow> entry option) \<Rightarrow> string list \<Rightarrow> entry option" where
  "apply_block a Blank tree = tree"
| "apply_block a (Entry name ds isdir) tree = (case entry_path name of None \<Rightarrow> tree
     | Some path \<Rightarrow> insert_entry (path_tokens path) (if isdir then Dir else File (a + 512) (of_nat (octal ds))) tree)"

fun block_fits :: "tar_block \<Rightarrow> (string list \<Rightarrow> entry option) \<Rightarrow> bool" where
  "block_fits Blank tree \<longleftrightarrow> True"
| "block_fits (Entry name ds isdir) tree \<longleftrightarrow> (case entry_path name of None \<Rightarrow> True | Some path \<Rightarrow> can_insert (path_tokens path) tree)"

fun archive_tree :: "u64 \<Rightarrow> tar_block list \<Rightarrow> (string list \<Rightarrow> entry option) \<Rightarrow> string list \<Rightarrow> entry option" where
  "archive_tree a [] tree = tree"
| "archive_tree a (b # bs) tree = archive_tree (next_header a b) bs (apply_block a b tree)"

fun archive_fits :: "u64 \<Rightarrow> tar_block list \<Rightarrow> (string list \<Rightarrow> entry option) \<Rightarrow> bool" where
  "archive_fits a [] tree \<longleftrightarrow> True"
| "archive_fits a (b # bs) tree \<longleftrightarrow> block_fits b tree \<and> archive_fits (next_header a b) bs (apply_block a b tree)"

section \<open>One header\<close>

lemma header_char_cong: "boot_mem (v' :: vfs) = boot_mem (v :: vfs) \<Longrightarrow> header_char v' = header_char v"
  by (simp add: header_char_def boot_char_def fun_eq_iff)

lemma archive_cong: "boot_mem v' = boot_mem v \<Longrightarrow> archive v' limit ending a bs = archive v limit ending a bs"
proof (induction bs arbitrary: a)
  case (Cons b bs)
  then show ?case by (cases b) (simp_all add: header_char_cong [of v' v])
qed simp

lemma parse_size:
  assumes "reads r (map (\<lambda>d. HEX_CHARS ! d) ds @ [NUL])" "length ds \<le> 12" "\<forall>d \<in> set ds. d < 8"
  shows "parse_uint r 12 OCT = Inr (of_nat (octal ds))"
proof -
  have "r j = Inr ((map (\<lambda>d. HEX_CHARS ! d) ds @ [NUL]) ! j)" if "j \<le> length ds" for j using assms(1) that by (simp add: reads_def)
  then have "parse_uint_loop r (of_nat 8) 12 0 (of_nat 0) = Inr (of_nat (foldl (\<lambda>a d. a * 8 + d) 0 ds))"
    using assms(2,3) by (intro parse_loop_digits) (auto simp: nth_append)
  then show ?thesis by (simp add: parse_uint_def octal_def number_format_divisor_def)
qed

text \<open>The invariant of the loop over the headers.\<close>

definition parsed :: "mptr \<Rightarrow> iptr \<Rightarrow> vfs \<Rightarrow> (string list \<Rightarrow> entry option) \<Rightarrow> vfs \<Rightarrow> bool" where
  "parsed m r v0 tree v \<longleftrightarrow> tree_ok v \<and> bare v \<and> (\<exists>p c. mounts v m = Some p \<and> mp_class p = InitramfsMountPoint c \<and> root_inode p = r) \<and>
     boot_mem v = boot_mem v0 \<and> g_mountpoints v = g_mountpoints v0 \<and> g_root_mountpoint v = g_root_mountpoint v0 \<and>
     (\<forall>ns. (\<forall>t \<in> set ns. plain_name t) \<longrightarrow> tree_at v r ns = tree ns)"

lemma insert_entry_cong: "\<forall>t \<in> set ns. plain_name t \<Longrightarrow> tree ns = tree' ns \<Longrightarrow> insert_entry path e tree ns = insert_entry path e tree' ns"
  by (simp add: insert_entry_def)

lemma can_insert_cong:
  assumes "\<forall>ns. (\<forall>t \<in> set ns. plain_name t) \<longrightarrow> tree ns = tree' ns" "can_insert path tree'"
  shows "can_insert path tree"
  using assms by (auto simp: can_insert_def on_the_way_def)

text \<open>A mount point may change its counter or its path, and be registered.\<close>

definition mount_like :: "mount_point \<Rightarrow> mount_point \<Rightarrow> bool" where
  "mount_like p q \<longleftrightarrow> root_inode q = root_inode p \<and> mounted_on q = mounted_on p \<and> (\<exists>a b. mp_class p = InitramfsMountPoint a \<and> mp_class q = InitramfsMountPoint b)"

definition changed :: "mptr \<Rightarrow> mount_point \<Rightarrow> vfs \<Rightarrow> vfs \<Rightarrow> bool" where
  "changed m q v v' \<longleftrightarrow> inodes v' = inodes v \<and> mounts v' = (mounts v)(m \<mapsto> q) \<and> next_obj v \<le> next_obj v' \<and> fds v' = fds v \<and> boot_mem v' = boot_mem v \<and> set (g_mountpoints v') \<subseteq> insert m (set (g_mountpoints v))"

lemma changed_tree:
  assumes t: "tree_ok v" and p: "mounts v m = Some p" "mount_like p q" and c: "changed m q v v'"
  shows "tree_ok v'"
proof -
  have v': "inodes v' = inodes v" "mounts v' = (mounts v)(m \<mapsto> q)" "fds v' = fds v" "next_obj v \<le> next_obj v'" "set (g_mountpoints v') \<subseteq> insert m (set (g_mountpoints v))" using c by (auto simp: changed_def)
  obtain a b where q: "mp_class p = InitramfsMountPoint a" "mp_class q = InitramfsMountPoint b" "root_inode q = root_inode p" "mounted_on q = mounted_on p" using p(2) by (auto simp: mount_like_def)
  have cl: "class_mount x (InitramfsMountPoint b) = class_mount x (InitramfsMountPoint a)" for x by (cases x) auto
  have "inode_ok v' i n" if n: "inode_ok v i n" for i n
  proof -
    obtain s where s: "mounts v (i_mountpoint n) = Some s" "class_mount (i_class n) (mp_class s)" "fixed_dir (i_class n) \<longrightarrow> root_inode s = i" using n by (auto simp: inode_ok_def)
    have "\<exists>s. mounts v' (i_mountpoint n) = Some s \<and> class_mount (i_class n) (mp_class s) \<and> (fixed_dir (i_class n) \<longrightarrow> root_inode s = i)"
      using s p(1) q cl v'(2) by (cases "i_mountpoint n = m") auto
    then show ?thesis using n unfolding inode_ok_def v'(1) by blast
  qed
  then have io: "i < next_obj v' \<and> inode_ok v' i n" if "inodes v' i = Some n" for i n using tree_ok_inode [OF t, of i n] that v'(1,4) by auto
  have mo: "j < next_obj v' \<and> mount_ok v' j s" if "mounts v' j = Some s" for j s
    using that p(1) q v'(1,2,4) tree_ok_mount [OF t, of j] by (auto simp: mount_ok_def split: if_splits)
  have fo: "f < next_obj v' \<and> fd_ok v' d" if "fds v' f = Some d" for f d using tree_ok_fd [OF t, of f d] that v'(1,3,4) by (auto simp: fd_ok_def)
  have "set (g_mountpoints v') \<subseteq> dom (mounts v')" using t v'(2,5) unfolding tree_ok_def by auto
  then show ?thesis using io mo fo unfolding tree_ok_def by blast
qed

lemma changed_bare: "bare v \<Longrightarrow> mounts v m = Some p \<Longrightarrow> mount_like p q \<Longrightarrow> changed m q v v' \<Longrightarrow> bare v'"
  by (auto simp: bare_def mount_like_def changed_def)

lemma changed_tree_at:
  assumes t: "tree_ok v" "bare v" and p: "mounts v m = Some p" "mount_like p q" and c: "changed m q v v'" and r: "r \<in> dom (inodes v)" and pl: "\<forall>t \<in> set ns. plain_name t"
  shows "tree_at v' r ns = tree_at v r ns"
proof -
  have v': "inodes v' = inodes v" "mounts v' = (mounts v)(m \<mapsto> q)" using c by (auto simp: changed_def)
  have rn: "resolve_name v' (Some e) s = resolve_name v (Some e) s" if "e \<in> dom (inodes v)" for e s
  proof -
    obtain x where e: "inodes v e = Some x" using \<open>e \<in> dom (inodes v)\<close> by auto
    have ok: "inode_ok v e x" using tree_ok_inode [OF t(1) e] by blast
    have "i_mountpoint x \<noteq> m" if "fixed_dir (i_class x)" using ok that p by (auto simp: inode_ok_def fixed_dir_def mount_like_def)
    moreover have "find_child v' s cs = find_child v s cs" for cs by (rule find_child_cong) (simp add: v'(1))
    ultimately have "inode_lookup v' (Some e) s = inode_lookup v (Some e) s" using e v'
      by (auto simp: inode_lookup_def inode_at_def fixed_dir_def TmpDirectoryInode_lookup_def InitramfsDirectoryInode_lookup_def DevDirectoryInode_lookup_def ProcDirectoryInode_lookup_def
          mount_at_def split: inode_class.splits)
    then show ?thesis using bare_resolve_name [OF t] bare_resolve_name [OF changed_tree [OF t(1) p c] changed_bare [OF t(2) p c]] by simp
  qed
  have w: "resolve_loop v' (Some e) ms = resolve_loop v (Some e) ms" if "e \<in> dom (inodes v)" "\<forall>t \<in> set ms. plain_name t" for e ms
    using that
  proof (induction ms arbitrary: e)
    case (Cons s ms)
    obtain l where l: "resolve_name v (Some e) s = Inr l" "\<forall>i. l = Some i \<longrightarrow> i \<in> dom (inodes v)" using resolve_name_ok [OF t(1), of e _ s] Cons.prems(1) leads_inode by blast
    then show ?case using Cons rn [OF Cons.prems(1), of s] by (cases l) (auto simp: plain_name_def)
  qed simp
  show ?thesis using w [OF r pl] by (simp add: tree_at_def v'(1) split: sum.split option.split)
qed

definition counted :: "mptr \<Rightarrow> mount_point \<Rightarrow> int \<Rightarrow> vfs \<Rightarrow> vfs" where
  "counted m p c v = v\<lparr>mounts := (mounts v)(m \<mapsto> p\<lparr>mp_class := InitramfsMountPoint c\<rparr>), next_obj := next_obj v + 1\<rparr>"

lemma counted_changed: "changed m (p\<lparr>mp_class := InitramfsMountPoint c\<rparr>) v (counted m p c v)"
  and counted_like: "mp_class p = InitramfsMountPoint b \<Longrightarrow> mount_like p (p\<lparr>mp_class := InitramfsMountPoint c\<rparr>)"
  by (auto simp: changed_def counted_def mount_like_def)

lemma header_inode_eq:
  assumes p: "mounts v m = Some p" "mp_class p = InitramfsMountPoint c" and flag: "header_char v a ''typeflag'' 0 = Inr flag"
  shows "\<exists>x. header_inode m a sz v = Inr (next_obj v, set_inode (next_obj v) x (counted m p (c + 1) v)) \<and> i_mountpoint x = m \<and> i_type x = class_type (i_class x) \<and>
    (i_class x = InitramfsDirectoryInode \<and> i_children x = [] \<or> (\<exists>a. i_class x = InitramfsFileInode a)) \<and> kind_of x = (if flag = TYPEFLAG_DIR then Dir else File (a + 512) sz)"
proof (cases "flag = TYPEFLAG_DIR")
  case True
  let ?x = "(InitramfsDirectoryInode_ctor m (raw_inode v (next_obj v)))\<lparr>i_ino := word_of_int c\<rparr>"
  have "header_inode m a sz v = Inr (next_obj v, set_inode (next_obj v) ?x (counted m p (c + 1) v))"
    using p flag True by (simp add: header_inode_def new_inode_def set_inode_def set_mount_def initramfs_next_ino_def mount_at_def inode_at_def counted_def)
  then show ?thesis using True by (intro exI [of _ ?x]) (simp add: kind_of_def InitramfsDirectoryInode_ctor_def DirectoryInode_ctor_def)
next
  case False
  let ?x = "(InitramfsFileInode_ctor m (a + 512) (raw_inode v (next_obj v)))\<lparr>i_size := sz, i_ino := word_of_int c\<rparr>"
  have "header_inode m a sz v = Inr (next_obj v, set_inode (next_obj v) ?x (counted m p (c + 1) v))"
    using p flag False by (simp add: header_inode_def new_inode_def set_inode_def set_mount_def initramfs_next_ino_def mount_at_def inode_at_def counted_def)
  then show ?thesis using False by (intro exI [of _ ?x]) (simp add: kind_of_def InitramfsFileInode_ctor_def Inode_ctor_def)
qed

lemma parsed_root: "parsed m r v0 tree v \<Longrightarrow> r \<in> dom (inodes v)"
  using tree_ok_mount [of v m] by (auto simp: parsed_def mount_ok_def)

lemma parse_insert:
  assumes ps: "parsed m r v0 tree v" and fit: "can_insert (path_tokens path) tree" and flag: "header_char v a ''typeflag'' 0 = Inr flag"
  shows "\<exists>i u v'. header_inode m a sz v = Inr (i, u) \<and> insert_inode m path i u = Inr v' \<and>
    parsed m r v0 (insert_entry (path_tokens path) (if flag = TYPEFLAG_DIR then Dir else File (a + 512) sz) tree) v'"
proof -
  obtain p c where p: "mounts v m = Some p" "mp_class p = InitramfsMountPoint c" "root_inode p = r" using ps by (auto simp: parsed_def)
  have t: "tree_ok v" "bare v" and at: "\<forall>ns. (\<forall>t \<in> set ns. plain_name t) \<longrightarrow> tree_at v r ns = tree ns" using ps by (auto simp: parsed_def)
  let ?u = "counted m p (c + 1) v"
  obtain x where x: "header_inode m a sz v = Inr (next_obj v, set_inode (next_obj v) x ?u)" "i_mountpoint x = m" "i_type x = class_type (i_class x)"
    "i_class x = InitramfsDirectoryInode \<and> i_children x = [] \<or> (\<exists>a. i_class x = InitramfsFileInode a)" "kind_of x = (if flag = TYPEFLAG_DIR then Dir else File (a + 512) sz)"
    using header_inode_eq [OF p(1,2) flag] by blast
  note like = counted_like [OF p(2), of "c + 1"]
  have at': "\<forall>ns. (\<forall>t \<in> set ns. plain_name t) \<longrightarrow> tree_at ?u r ns = tree ns" using changed_tree_at [OF t p(1) like counted_changed parsed_root [OF ps]] at by simp
  have b: "building m r (next_obj v) ?u" using changed_tree [OF t(1) p(1) like counted_changed] changed_bare [OF t(2) p(1) like counted_changed] tree_fresh [OF t(1)] p(3)
    by (auto simp: building_def counted_def)
  have "can_insert (path_tokens path) (tree_at ?u r)" by (rule can_insert_cong [OF at' fit])
  from insert_inode_ok [OF b refl this x(2,4,3)] obtain v' where v': "insert_inode m path (next_obj v) (set_inode (next_obj v) x ?u) = Inr v'" "tree_ok v'" "bare v'"
    "\<exists>p c. mounts v' m = Some p \<and> mp_class p = InitramfsMountPoint c \<and> root_inode p = r" "boot_mem v' = boot_mem ?u" "g_mountpoints v' = g_mountpoints ?u" "g_root_mountpoint v' = g_root_mountpoint ?u"
    "\<forall>ns. (\<forall>t \<in> set ns. plain_name t) \<longrightarrow> tree_at v' r ns = insert_entry (path_tokens path) (kind_of x) (tree_at ?u r) ns" by blast
  have "parsed m r v0 (insert_entry (path_tokens path) (kind_of x) tree) v'" using v' ps at' by (simp add: parsed_def insert_entry_def counted_def)
  then show ?thesis using x(1,5) v'(1) by auto
qed

lemma parse_header_ok:
  assumes ps: "parsed m r v0 tree v" and h: "header_at v limit a b" and fit: "block_fits b tree"
  shows "\<exists>v'. parse_header m limit a v = Inr ((block_bytes b + 511) div 512, v') \<and> parsed m r v0 (apply_block a b tree) v'"
proof (cases b)
  case Blank
  have "parse_uint (header_char v a ''size'') 12 OCT = Inr 0" using parse_size [of "header_char v a ''size''" "[]"] h Blank by (simp add: reads_def octal_def)
  then show ?thesis using h Blank ps by (simp add: parse_header_def is_empty_header_def)
next
  case (Entry name ds isdir)
  let ?r = "header_char v a ''filename''"
  have e: "reads ?r (name @ [NUL])" "NUL \<notin> set name" "name \<noteq> []" "length name < limit" using h Entry by auto
  have sz: "parse_uint (header_char v a ''size'') 12 OCT = Inr (of_nat (octal ds))" using h Entry by (intro parse_size) auto
  obtain flag where flag: "header_char v a ''typeflag'' 0 = Inr flag" "flag = TYPEFLAG_DIR \<longleftrightarrow> isdir" using h Entry by auto
  have r: "?r i = Inr ((name @ [NUL]) ! i)" if "i \<le> length name" for i using e(1) that by (simp add: reads_def)
  obtain c0 rest where c0: "name = c0 # rest" "c0 \<noteq> NUL" using e(2,3) by (cases name) auto
  have 0: "?r 0 = Inr c0" using r [of 0] c0 by simp
  have 1: "?r 1 = Inr ((rest @ [NUL]) ! 0)" using r [of 1] c0 by simp
  define c1 where "c1 = (rest @ [NUL]) ! 0"
  define s where "s = (if c0 = CHR ''.'' \<and> c1 = CHR ''/'' then 2 else 0 :: nat)"
  have c1: "c1 = NUL \<longleftrightarrow> rest = []" "?r 1 = Inr c1" using e(2) c0 1 by (cases rest; auto simp: c1_def)+
  have le: "s \<le> length name" using c0 by (cases rest) (auto simp: NUL_def s_def c1_def)
  have st: "?r s = Inr ((name @ [NUL]) ! s)" by (rule r [OF le])
  have path: "c_str_from limit s ?r = Inr (drop s name)" using c_str_from_reads [OF e(1,2) le, of limit] e(4) by simp
  have dropped: "drop s name = [] \<longleftrightarrow> name = ''./''" "c0 = CHR ''.'' \<and> c1 = NUL \<longleftrightarrow> name = ''.''" "take 2 name = ''./'' \<longleftrightarrow> c0 = CHR ''.'' \<and> c1 = CHR ''/''"
    using c0 c1(1) by (cases rest; auto simp: NUL_def s_def c1_def)+
  have last: "(name @ [NUL]) ! s = NUL \<longleftrightarrow> drop s name = []"
  proof (cases "s = length name")
    case False
    then have "s < length name" using le by simp
    then have "(name @ [NUL]) ! s \<in> set name" by (simp add: nth_append)
    then show ?thesis using e(2) \<open>s < length name\<close> by auto
  qed simp
  have ne: "is_empty_header v a = Inr False" using 0 c0(2) by (simp add: is_empty_header_def)
  have "parse_header m limit a v = (if c0 = CHR ''.'' \<and> c1 = NUL then Inr ((of_nat (octal ds) + 511) div 512, v)
     else kbind (?r s) (\<lambda>c. if c = NUL then Inr ((of_nat (octal ds) + 511) div 512, v)
     else kbind (header_inode m a (of_nat (octal ds)) v) (\<lambda>(i, v). kbind (c_str_from limit s ?r) (\<lambda>path. kbind (insert_inode m path i v) (\<lambda>v. Inr ((of_nat (octal ds) + 511) div 512, v))))))"
    unfolding parse_header_def sz ne kbind_simps Let_def 0 c1(2) s_def by simp
  then have head: "parse_header m limit a v = (if name = ''.'' \<or> name = ''./'' then Inr ((of_nat (octal ds) + 511) div 512, v)
     else kbind (header_inode m a (of_nat (octal ds)) v) (\<lambda>(i, v). kbind (insert_inode m (drop s name) i v) (\<lambda>v. Inr ((of_nat (octal ds) + 511) div 512, v))))"
    unfolding st path kbind_simps last dropped(1,2) by simp
  show ?thesis
  proof (cases "entry_path name")
    case None
    then show ?thesis using head Entry ps by (auto simp: entry_path_def split: if_splits)
  next
    case (Some q)
    then have q: "q = drop s name" "name \<noteq> ''.''" "name \<noteq> ''./''" using dropped(3) by (auto simp: entry_path_def s_def split: if_splits)
    have "can_insert (path_tokens q) tree" using fit Entry Some by simp
    from parse_insert [OF ps this flag(1), of "of_nat (octal ds)"] obtain i u v' where v': "header_inode m a (of_nat (octal ds)) v = Inr (i, u)" "insert_inode m q i u = Inr v'"
      "parsed m r v0 (insert_entry (path_tokens q) (if flag = TYPEFLAG_DIR then Dir else File (a + 512) (of_nat (octal ds))) tree) v'" by blast
    have "parse_header m limit a v = Inr ((of_nat (octal ds) + 511) div 512, v')" using head v'(1,2) q by simp
    then show ?thesis using v'(3) flag(2) Entry Some by simp
  qed
qed

section \<open>The whole archive\<close>

lemma parse_loop_ok:
  "archive v0 limit ending a bs \<Longrightarrow> archive_fits a bs tree \<Longrightarrow> parsed m r v0 tree v \<Longrightarrow>
   \<exists>v'. parse_loop m limit ending a v = Some (Inr v') \<and> parsed m r v0 (archive_tree a bs tree) v'"
proof (induction bs arbitrary: a tree v)
  case Nil
  then show ?case by (subst parse_loop.simps) simp
next
  case (Cons b bs)
  have "boot_mem v = boot_mem v0" using Cons.prems(3) by (simp add: parsed_def)
  then have "header_at v limit a b" using Cons.prems(1) by (cases b) (simp_all add: header_char_cong [of v v0])
  from parse_header_ok [OF Cons.prems(3) this] obtain v1 where v1: "parse_header m limit a v = Inr ((block_bytes b + 511) div 512, v1)" "parsed m r v0 (apply_block a b tree) v1"
    using Cons.prems(2) by auto
  from Cons.IH [OF _ _ v1(2)] show ?case using Cons.prems(1,2) v1(1) by (subst parse_loop.simps) (auto simp: next_header_def)
qed

lemma tree_ok_unmount:
  assumes "tree_ok v" "set xs \<subseteq> dom (mounts v)"
  shows "tree_ok (v\<lparr>g_mountpoints := xs\<rparr>)"
  using assms by (auto simp: tree_ok_def inode_ok_def mount_ok_def fd_ok_def)

text \<open>The mount point with its empty root.\<close>

lemma parsed_start:
  assumes t: "tree_ok v" "bare v" and raw: "mounted_on (raw_mount v (next_obj v)) = None" and m: "m = next_obj v"
    and r: "x = (InitramfsDirectoryInode_ctor m (raw_inode v (m + 1)))\<lparr>i_ino := 1, i_parent := None\<rparr>" and p: "p = (raw_mount v m)\<lparr>root_inode := m + 1, mp_class := InitramfsMountPoint 2\<rparr>"
    and v1: "v1 = v\<lparr>next_obj := m + 2, mounts := (mounts v)(m \<mapsto> p), inodes := (inodes v)(m + 1 \<mapsto> x)\<rparr>"
  shows "parsed m (m + 1) v [[] \<mapsto> Dir] v1"
proof -
  have "fresh_node m p (m + 1) x" using r p by (simp add: fresh_node_def InitramfsDirectoryInode_ctor_def DirectoryInode_ctor_def Inode_ctor_def file_ok_def fixed_dir_def)
  then have "fresh_fs v m p v1" unfolding fresh_fs_def using m p v1 by (intro conjI exI [of _ "[m + 1 \<mapsto> x]"]) (auto split: if_splits)
  from mounted_ok [OF t(1) this, of None] have "tree_ok (mounted m p None (mp_path p) v1)" by (simp add: mount_place_def)
  then have "tree_ok ((mounted m p None (mp_path p) v1)\<lparr>g_mountpoints := g_mountpoints v\<rparr>)" using t(1) m v1 by (intro tree_ok_unmount) (auto simp: mounted_def tree_ok_def)
  moreover have "(mounted m p None (mp_path p) v1)\<lparr>g_mountpoints := g_mountpoints v\<rparr> = v1"
  proof -
    have "p\<lparr>mounted_on := None, mp_path := mp_path p\<rparr> = p" "x\<lparr>i_parent := None\<rparr> = x" using raw m p r by simp_all
    then show ?thesis using v1 p by (simp add: mounted_def)
  qed
  ultimately have ok: "tree_ok v1" by simp
  have bare: "bare v1" using t(2) raw m p v1 by (auto simp: bare_def)
  have "tree_at v1 (m + 1) ns = [[] \<mapsto> Dir] ns" if "\<forall>t \<in> set ns. plain_name t" for ns
  proof (cases ns)
    case Nil
    then show ?thesis using v1 r by (simp add: tree_at_def kind_of_def InitramfsDirectoryInode_ctor_def)
  next
    case (Cons s ss)
    have "inode_lookup v1 (Some (m + 1)) s = Inr None" using v1 r
      by (simp add: inode_lookup_def inode_at_def InitramfsDirectoryInode_lookup_def InitramfsDirectoryInode_ctor_def DirectoryInode_ctor_def)
    then show ?thesis using Cons that bare_resolve_name [OF ok bare] by (simp add: tree_at_def plain_name_def)
  qed
  then show ?thesis using ok bare v1 p by (simp add: parsed_def)
qed

lemma InitramfsMountPoint_ok:
  assumes "tree_ok v" "bare v" "mounted_on (raw_mount v (next_obj v)) = None" "archive v (unat sz) (buffer + sz) buffer bs" "archive_fits buffer bs [[] \<mapsto> Dir]"
  shows "\<exists>m r v'. InitramfsMountPoint_new buffer sz v = Some (Inr (m, v')) \<and> parsed m r v (archive_tree buffer bs [[] \<mapsto> Dir]) v'"
proof -
  define m where "m = next_obj v"
  define x where "x = (InitramfsDirectoryInode_ctor m (raw_inode v (m + 1)))\<lparr>i_ino := 1, i_parent := None\<rparr>"
  define p where "p = (raw_mount v m)\<lparr>root_inode := m + 1, mp_class := InitramfsMountPoint 2\<rparr>"
  define v1 where "v1 = v\<lparr>next_obj := m + 2, mounts := (mounts v)(m \<mapsto> p), inodes := (inodes v)(m + 1 \<mapsto> x)\<rparr>"
  have "parsed m (m + 1) v [[] \<mapsto> Dir] v1" by (rule parsed_start [OF assms(1-3) m_def x_def p_def v1_def])
  from parse_loop_ok [OF assms(4,5) this] obtain v' where v': "parse_loop m (unat sz) (buffer + sz) buffer v1 = Some (Inr v')" "parsed m (m + 1) v (archive_tree buffer bs [[] \<mapsto> Dir]) v'" by blast
  have "InitramfsMountPoint_new buffer sz v = map_option (\<lambda>r. kbind r (\<lambda>v. Inr (m, v))) (parse_loop m (unat sz) (buffer + sz) buffer v1)"
    by (simp add: InitramfsMountPoint_new_def parse_tar_headers_def new_mount_def new_inode_def set_mount_def set_inode_def mount_at_def inode_at_def initramfs_next_ino_def kthen_def
        m_def x_def p_def v1_def Let_def)
  then show ?thesis using v' by auto
qed

text \<open>
  Booting with one module that holds a tar archive: the loop over the headers ends, and the tree that is mounted at the root has exactly the entries of the archive, each file with the address
  and the size of its contents, the directories the archive leaves out added on the way. The archive may hold entries in any order as long as no path goes through a file.
\<close>

lemma init_modules_tree:
  assumes "tree_ok v" "bare v" "g_root_mountpoint v = None" "mounted_on (raw_mount v (next_obj v)) = None"
    "archive v (unat sz) (buffer + sz) buffer bs" "archive_fits buffer bs [[] \<mapsto> Dir]"
  shows "\<exists>v' m r. init_modules [(buffer, sz)] v = Some (Inr v') \<and> vfs_ok v' \<and> root_of v' r \<and> grown m r v' \<and>
    (\<forall>ns. (\<forall>t \<in> set ns. plain_name t) \<longrightarrow> tree_at v' r ns = archive_tree buffer bs [[] \<mapsto> Dir] ns)"
proof -
  obtain m r v1 where v1: "InitramfsMountPoint_new buffer sz v = Some (Inr (m, v1))" "parsed m r v (archive_tree buffer bs [[] \<mapsto> Dir]) v1" using InitramfsMountPoint_ok [OF assms(1,2,4-6)] by blast
  obtain p c where p: "mounts v1 m = Some p" "mp_class p = InitramfsMountPoint c" "root_inode p = r" and ok: "tree_ok v1" "bare v1" and g: "g_root_mountpoint v1 = None"
    and at: "\<forall>ns. (\<forall>t \<in> set ns. plain_name t) \<longrightarrow> tree_at v1 r ns = archive_tree buffer bs [[] \<mapsto> Dir] ns" using v1(2) assms(3) by (auto simp: parsed_def)
  let ?q = "p\<lparr>mp_path := ''/''\<rparr>"
  let ?v = "v1\<lparr>mounts := (mounts v1)(m \<mapsto> ?q), g_root_mountpoint := Some m, g_mountpoints := g_mountpoints v1 @ [m]\<rparr>"
  have like: "mount_like p ?q" using p by (auto simp: mount_like_def)
  have c: "changed m ?q v1 ?v" by (auto simp: changed_def)
  have "init_modules [(buffer, sz)] v = Some (Inr ?v)" using v1(1) p(1) g by (simp add: kthen_def register_mount_def mount_at_def set_mount_def Let_def)
  moreover have "vfs_ok ?v" using changed_tree [OF ok(1) p(1) like c] ok(2) p(1) by (auto simp: vfs_ok_def bare_def)
  moreover have "root_of ?v r" using p by (auto simp: root_of_def)
  moreover have "tree_at ?v r ns = archive_tree buffer bs [[] \<mapsto> Dir] ns" if "\<forall>t \<in> set ns. plain_name t" for ns
    using changed_tree_at [OF ok p(1) like c parsed_root [OF v1(2)] that] at that by simp
  moreover have "grown m r ?v" using changed_tree [OF ok(1) p(1) like c] changed_bare [OF ok(2) p(1) like c] p by (auto simp: grown_def)
  ultimately show ?thesis by blast
qed

section \<open>Booting\<close>

lemma tree_at_located:
  assumes "root_of v r" "\<forall>t \<in> set ns. plain_name t" "tree_at v r ns = Some e"
  shows "\<exists>i n. located v ns i \<and> inodes v i = Some n \<and> kind_of n = e"
  using tree_at_Some [OF assms(2,3)] assms(1) unfolding located_def by blast

lemma tree_at_place:
  assumes ok: "vfs_ok v" "grown m r v" and r: "root_of v r" and t: "plain_name t" "tree_at v r [t] = Some Dir"
  shows "place v [t]"
proof -
  have tr: "tree_ok v" "bare v" using ok(2) by (auto simp: grown_def)
  obtain i n where i: "walk v r [t] i" "inodes v i = Some n" "kind_of n = Dir" using tree_at_Some [OF _ t(2)] t(1) by auto
  then have "i_class n = InitramfsDirectoryInode" using grown_walk [OF ok(2) i(1)] by (auto simp: kind_of_def)
  then have ty: "i_type n = DIRECTORY" using tree_ok_inode [OF tr(1) i(2)] by (simp add: inode_ok_def)
  obtain x where x: "inodes v r = Some x" using root_ok [OF ok(1) r] by blast
  have "walk v r ([] @ [t]) i" using i(1) by simp
  then obtain d where "walk v r [] d" "resolve_name v (Some d) t = Inr (Some i)" by (rule walk_snocE)
  then have "inode_lookup v (Some r) t = Inr (Some i)" using bare_resolve_name [OF tr] by (auto elim: walk_NilE)
  then obtain k where "entry_of v r x t i k" using inode_lookup_ok [OF tr(1) x, of t] by auto
  then have "i_name n = t" using i(2) ty by (auto simp: entry_of_def)
  then show ?thesis using i(1,2) ty r t(1) by (auto simp: place_def located_def plain_name_def)
qed

definition boot_tree :: "u64 \<Rightarrow> tar_block list \<Rightarrow> string list \<Rightarrow> entry option" where
  "boot_tree buffer bs = archive_tree buffer bs [[] \<mapsto> Dir]"

lemma boot_file_system_all:
  assumes "tree_ok v" "bare v" "g_root_mountpoint v = None" "mounted_on (raw_mount v (next_obj v)) = None"
    "archive v (unat sz) (buffer + sz) buffer bs" "archive_fits buffer bs [[] \<mapsto> Dir]" "\<forall>t \<in> {''dev'', ''tmp'', ''proc''}. boot_tree buffer bs [t] = Some Dir"
  shows "\<exists>v1 v' t. init_modules [(buffer, sz)] v = Some (Inr v1) \<and> fs_init v1 = Inr v' \<and> vfs_ok v' \<and> dev_at v' [''dev''] \<and> self_at v' [''proc''] \<and> located v' [''tmp''] t \<and> fresh_dir v' t \<and>
    (\<forall>ns e. (\<forall>s \<in> set ns. plain_name s) \<longrightarrow> (ns = [] \<or> hd ns \<notin> {''dev'', ''tmp'', ''proc''}) \<longrightarrow> boot_tree buffer bs ns = Some e \<longrightarrow> (\<exists>i n. located v' ns i \<and> inodes v' i = Some n \<and> kind_of n = e))"
proof -
  obtain v1 m r where v1: "init_modules [(buffer, sz)] v = Some (Inr v1)" "vfs_ok v1" "root_of v1 r" "grown m r v1"
    "\<forall>ns. (\<forall>t \<in> set ns. plain_name t) \<longrightarrow> tree_at v1 r ns = boot_tree buffer bs ns" using init_modules_tree [OF assms(1-6)] unfolding boot_tree_def by blast
  have "place v1 [t]" if "t \<in> {''dev'', ''tmp'', ''proc''}" for t
    using that v1(5) [rule_format, of "[t]"] assms(7) by (intro tree_at_place [OF v1(2,4,3)]) (auto simp: plain_name_def)
  then have "place v1 [''dev'']" "place v1 [''tmp'']" "place v1 [''proc'']" by blast+
  from fs_init_mounts [OF v1(2) this] obtain v' t where v': "fs_init v1 = Inr v'" "vfs_ok v'" "dev_at v' [''dev'']" "self_at v' [''proc'']" "located v' [''tmp''] t" "fresh_dir v' t"
    "\<forall>ns i. located v1 ns i \<longrightarrow> (ns = [] \<or> hd ns \<notin> {''dev'', ''tmp'', ''proc''}) \<longrightarrow> located v' ns i \<and> inodes v' i = inodes v1 i" by blast
  have "\<exists>i n. located v' ns i \<and> inodes v' i = Some n \<and> kind_of n = e"
    if "\<forall>s \<in> set ns. plain_name s" "ns = [] \<or> hd ns \<notin> {''dev'', ''tmp'', ''proc''}" "boot_tree buffer bs ns = Some e" for ns e
    using tree_at_located [OF v1(3) that(1)] v1(5) v'(7) that by metis
  then show ?thesis using v1(1) v' by blast
qed


subsection \<open>A small archive\<close>

definition boot0_text :: "(u64 \<times> string) list" where
  "boot0_text = [(0x1000, ''dev/''), (0x109C, ''5''), (0x1200, ''tmp/''), (0x129C, ''5''), (0x1400, ''proc/''), (0x149C, ''5''), (0x1600, ''./init''), (0x167C, ''00000000003''), (0x169C, ''0''), (0x1800, ''abc'')]"

definition boot0_mem :: "u64 \<Rightarrow> u8 option" where
  "boot0_mem a = (if a - 0x1000 < 0xA00 then (case find (\<lambda>(b, s). unat (a - b) < length s) boot0_text of Some (b, s) \<Rightarrow> Some (of_char (s ! unat (a - b))) | None \<Rightarrow> Some 0) else None)"

definition boot0 :: vfs where
  "boot0 = \<lparr>inodes = Map.empty, mounts = Map.empty, fds = Map.empty, next_obj = 0,
     raw_inode = (\<lambda>_. \<lparr>i_mountpoint = 0, i_parent = None, i_ino = 0, i_size = 0, i_type = NONE, i_name = [], i_children = [], i_class = DevNullInode\<rparr>),
     raw_mount = (\<lambda>_. \<lparr>mp_path = [], mounted_on = None, root_inode = 0, mp_class = ProcMountPoint 0\<rparr>),
     g_root_mountpoint = None, g_mountpoints = [], boot_mem = boot0_mem, g_console = tty_con tty2, kbd = []\<rparr>"

definition boot0_blocks :: "tar_block list" where
  "boot0_blocks = [Entry ''dev/'' [] True, Entry ''tmp/'' [] True, Entry ''proc/'' [] True, Entry ''./init'' [0, 0, 0, 0, 0, 0, 0, 0, 0, 0, 3] False]"

lemma boot0_char: "boot_char boot0 a = (case boot0_mem a of None \<Rightarrow> Inl (Fault ''past the module'') | Some b \<Rightarrow> Inr (char_of (unat b)))"
  by (simp add: boot_char_def boot0_def)

lemmas boot0_simps = reads_def header_char_def boot0_char boot0_mem_def boot0_text_def TarHeader_layout All_less_Suc NUL_def TYPEFLAG_DIR_def HEX_CHARS_def char_of_def bit_Suc_0_iff

lemma boot0_headers:
  "header_at boot0 2560 0x1000 (Entry ''dev/'' [] True)" "header_at boot0 2560 0x1200 (Entry ''tmp/'' [] True)" "header_at boot0 2560 0x1400 (Entry ''proc/'' [] True)"
  "header_at boot0 2560 0x1600 (Entry ''./init'' [0, 0, 0, 0, 0, 0, 0, 0, 0, 0, 3] False)"
  by (simp_all add: boot0_simps)

lemma boot0_archive: "archive boot0 (unat (0xA00 :: u64)) (0x1000 + 0xA00) 0x1000 boot0_blocks"
  using boot0_headers by (simp add: boot0_blocks_def next_header_def octal_def)

lemma boot0_tokens: "path_tokens ''dev/'' = [''dev'']" "path_tokens ''tmp/'' = [''tmp'']" "path_tokens ''proc/'' = [''proc'']" "path_tokens ''init'' = [''init'']"
  by (simp_all add: path_tokens_def)

lemma single_way: "on_the_way ns [t] \<longleftrightarrow> ns = []"
  by (auto simp: on_the_way_def Cons_eq_append_conv)

lemma boot0_fits: "archive_fits 0x1000 boot0_blocks [[] \<mapsto> Dir]"
  by (simp add: boot0_blocks_def entry_path_def boot0_tokens can_insert_def single_way plain_name_def insert_entry_def)

lemma boot0_tree: "boot_tree 0x1000 boot0_blocks = [[] \<mapsto> Dir, [''dev''] \<mapsto> Dir, [''tmp''] \<mapsto> Dir, [''proc''] \<mapsto> Dir, [''init''] \<mapsto> File 0x1800 3]"
  by (rule ext) (auto simp: boot_tree_def boot0_blocks_def entry_path_def boot0_tokens insert_entry_def single_way next_header_def octal_def)

lemma boot0_ok: "tree_ok boot0" "bare boot0" "g_root_mountpoint boot0 = None" "mounted_on (raw_mount boot0 (next_obj boot0)) = None"
  by (simp_all add: boot0_def tree_ok_def bare_def)


end
