(* ===== verification/Sys_Fd.thy ===== *)
theory Sys_Fd
  imports Process Initramfs_Props
begin

text \<open>
  The system calls on files (\<^verbatim>\<open>lib/syscall/sys_fd.cpp\<close>) and the parts of a process that use the file system: its standard streams and its description (\<^verbatim>\<open>build_stdio\<close>
  and \<^verbatim>\<open>to_string\<close> in \<^verbatim>\<open>lib/process/process.cpp\<close>).

  A call takes the current process and the file system and returns its result with both of them changed. A path is the text that \<^verbatim>\<open>kstring::from_userspace\<close> has copied; the contents of a
  user buffer is a list of bytes, and what a call writes to one is part of its result; the vector of \<^verbatim>\<open>readv\<close> is taken not to lie in the buffers it names. The entries of the table of open files are pointers to descriptors in the store of the file system, \<open>None\<close> for a null entry.
\<close>

section \<open>The calls\<close>

text \<open>Addition of values of the type \<^verbatim>\<open>int\<close>, undefined where the sum is not one.\<close>

definition int_add :: "int \<Rightarrow> int \<Rightarrow> int kres" where
  "int_add a b = (if - (2 ^ 31) \<le> a + b \<and> a + b < 2 ^ 31 then Inr (a + b) else Inl (Fault ''signed overflow''))"

fun alloc_fd_loop :: "vfs \<Rightarrow> nat \<Rightarrow> paddr option list \<Rightarrow> nat option kres" where
  "alloc_fd_loop v i [] = Inr None"
| "alloc_fd_loop v i (e # es) = kbind (case e of None \<Rightarrow> Inl (Fault ''null descriptor'') | Some f \<Rightarrow> fd_at v f) (\<lambda>d. if fd_inode d = None then Inr (Some i) else alloc_fd_loop v (i + 1) es)"

definition alloc_fd :: "vfs \<Rightarrow> process \<Rightarrow> (nat \<times> process) kres" where
  "alloc_fd v p = kbind (alloc_fd_loop v 0 (fd_table p)) (\<lambda>r. case r of Some i \<Rightarrow> Inr (i, p)
     | None \<Rightarrow> Inr (length (fd_table p), p\<lparr>fd_table := fd_table p @ [None]\<rparr>))"

definition get_fd :: "process \<Rightarrow> int \<Rightarrow> fdptr option" where
  "get_fd p fd = (if fd < 0 \<or> nat fd \<ge> length (fd_table p) then None else fd_table p ! nat fd)"

definition sys_open :: "string \<Rightarrow> int \<Rightarrow> process \<Rightarrow> vfs \<Rightarrow> (int \<times> process \<times> vfs) kres" where
  "sys_open path flags p v = kbind (fs_open (cwd_inode p) path flags v) (\<lambda>(desc, v). if desc = None then Inr (- ENOENT, p, v)
     else kbind (alloc_fd v p) (\<lambda>(fd, p). Inr (int fd, p\<lparr>fd_table := (fd_table p)[fd := desc]\<rparr>, v)))"

text \<open>\<open>self\<close> is what \<^verbatim>\<open>to_string\<close> says of the current process.\<close>

definition sys_read :: "string \<Rightarrow> int \<Rightarrow> u64 \<Rightarrow> process \<Rightarrow> vfs \<Rightarrow> (int \<times> u8 list) io kres option" where
  "sys_read self fd n p v = (case get_fd p fd of None \<Rightarrow> Some (Inr (Returns (- EBADF, []) v)) | Some f \<Rightarrow> inode_read self n f v)"

definition sys_write :: "int \<Rightarrow> u8 list \<Rightarrow> process \<Rightarrow> vfs \<Rightarrow> (int \<times> vfs) kres" where
  "sys_write fd buffer p v = (case get_fd p fd of None \<Rightarrow> Inr (- EBADF, v) | Some f \<Rightarrow> inode_write buffer f v)"

text \<open>
  The loop of \<^verbatim>\<open>readv\<close> over the lengths of the buffers. The last component of the result is whether the processor may still access user memory: the return from within the loop skips \<^verbatim>\<open>clac\<close>.
\<close>

fun readv_loop :: "string \<Rightarrow> fdptr \<Rightarrow> u64 list \<Rightarrow> int \<Rightarrow> u8 list list \<Rightarrow> vfs \<Rightarrow> (int \<times> u8 list list \<times> bool) io kres option" where
  "readv_loop self f [] ttl bufs v = Some (Inr (Returns (ttl, bufs, False) v))"
| "readv_loop self f (n # ns) ttl bufs v = (if n = 0 then readv_loop self f ns ttl (bufs @ [[]]) v
     else (case inode_read self n f v of None \<Rightarrow> None | Some r \<Rightarrow> kthen r (\<lambda>r. case r of Blocks v \<Rightarrow> Some (Inr (Blocks v))
       | Returns (got, bytes) v \<Rightarrow> if got < 0 then Some (Inr (Returns (if ttl > 0 then ttl else got, bufs, True) v))
           else kthen (int_add ttl got) (\<lambda>ttl. readv_loop self f ns ttl (bufs @ [bytes]) v))))"

definition sys_readv :: "string \<Rightarrow> int \<Rightarrow> (nat \<Rightarrow> u64) \<Rightarrow> int \<Rightarrow> process \<Rightarrow> vfs \<Rightarrow> (int \<times> u8 list list \<times> bool) io kres option" where
  "sys_readv self fd iov iovcnt p v = (case get_fd p fd of None \<Rightarrow> Some (Inr (Returns (- EBADF, [], False) v))
     | Some f \<Rightarrow> if iovcnt < 0 then Some (Inr (Returns (- EINVAL, [], False) v)) else readv_loop self f (map iov [0..<nat iovcnt]) 0 [] v)"

fun writev_loop :: "fdptr \<Rightarrow> u8 list list \<Rightarrow> int \<Rightarrow> vfs \<Rightarrow> (int \<times> vfs) kres" where
  "writev_loop f [] ttl v = Inr (ttl, v)"
| "writev_loop f (b # bs) ttl v = (if b = [] then writev_loop f bs ttl v
     else kbind (inode_write b f v) (\<lambda>(written, v). if written < 0 then Inr (if ttl > 0 then ttl else written, v) else kbind (int_add ttl written) (\<lambda>ttl. writev_loop f bs ttl v)))"

definition sys_writev :: "int \<Rightarrow> (nat \<Rightarrow> u8 list) \<Rightarrow> int \<Rightarrow> process \<Rightarrow> vfs \<Rightarrow> (int \<times> vfs) kres" where
  "sys_writev fd iov iovcnt p v = (case get_fd p fd of None \<Rightarrow> Inr (- EBADF, v)
     | Some f \<Rightarrow> if iovcnt < 0 then Inr (- EINVAL, v) else writev_loop f (map iov [0..<nat iovcnt]) 0 v)"

text \<open>The inode of an open file.\<close>

definition fd_node :: "vfs \<Rightarrow> fdptr \<Rightarrow> inode kres" where
  "fd_node v f = kbind (fd_at v f) (\<lambda>d. inode_at v (fd_inode d))"

definition sys_ioctl :: "int \<Rightarrow> u64 \<Rightarrow> process \<Rightarrow> vfs \<Rightarrow> (int \<times> winsize option) kres" where
  "sys_ioctl fd request p v = (case get_fd p fd of None \<Rightarrow> Inr (- EBADF, None) | Some f \<Rightarrow> kbind (fd_node v f) (\<lambda>n. Inr (inode_ioctl request v n)))"

definition sys_close :: "int \<Rightarrow> process \<Rightarrow> vfs \<Rightarrow> (int \<times> process) kres" where
  "sys_close fd p v = (case get_fd p fd of None \<Rightarrow> Inr (- EBADF, p)
     | Some f \<Rightarrow> kbind (fd_node v f) (\<lambda>n. let result = inode_close n in Inr (result, p\<lparr>fd_table := (fd_table p)[nat fd := None]\<rparr>)))"

definition sys_stat :: "string \<Rightarrow> process \<Rightarrow> vfs \<Rightarrow> (int \<times> Stat option) kres" where
  "sys_stat path p v = fs_stat (cwd_inode p) path v"

definition sys_fstat :: "int \<Rightarrow> process \<Rightarrow> vfs \<Rightarrow> (int \<times> Stat option) kres" where
  "sys_fstat fd p v = (case get_fd p fd of None \<Rightarrow> Inr (- EBADF, None) | Some f \<Rightarrow> kbind (fd_node v f) (\<lambda>n. Inr (inode_stat n)))"

text \<open>The offset, a \<^verbatim>\<open>size_t\<close>, becomes an \<^verbatim>\<open>int\<close> in the call of \<^verbatim>\<open>lseek\<close>.\<close>

definition sys_lseek :: "int \<Rightarrow> u64 \<Rightarrow> int \<Rightarrow> process \<Rightarrow> vfs \<Rightarrow> (int \<times> vfs) kres" where
  "sys_lseek fd offset whence p v = (case get_fd p fd of None \<Rightarrow> Inr (- EBADF, v)
     | Some f \<Rightarrow> kbind (fd_at v f) (\<lambda>d. kbind (inode_at v (fd_inode d)) (\<lambda>n.
         let (r, d) = inode_lseek (int_of_size offset) whence n d in Inr (r, set_fd f d v))))"

text \<open>The result is the error, or the bytes that are copied to the buffer, the end of the string included; the number returned in that case is the address of the buffer.\<close>

definition sys_getcwd :: "u64 \<Rightarrow> process \<Rightarrow> vfs \<Rightarrow> (int + string) kres option" where
  "sys_getcwd sz p v = map_option (\<lambda>r. kbind r (\<lambda>cwd. Inr (if length cwd + 1 > unat sz then Inl (- ERANGE) else Inr (cwd @ [NUL])))) (fs_getcwd v (cwd_inode p))"

definition sys_chdir :: "string \<Rightarrow> process \<Rightarrow> vfs \<Rightarrow> (int \<times> process \<times> vfs) kres" where
  "sys_chdir path p v = kbind (fs_open (cwd_inode p) path O_RDONLY v) (\<lambda>(desc, v). case desc of None \<Rightarrow> Inr (- EBADF, p, v)
     | Some f \<Rightarrow> kbind (fd_at v f) (\<lambda>d. kbind (inode_at v (fd_inode d)) (\<lambda>n.
         if i_type n \<noteq> DIRECTORY then Inr (- ENOTDIR, p, v) else Inr (0, p\<lparr>cwd_inode := fd_inode d\<rparr>, v))))"

definition sys_fchdir :: "int \<Rightarrow> process \<Rightarrow> vfs \<Rightarrow> (int \<times> process) kres" where
  "sys_fchdir fd p v = (case get_fd p fd of None \<Rightarrow> Inr (- EBADF, p)
     | Some f \<Rightarrow> kbind (fd_at v f) (\<lambda>d. kbind (inode_at v (fd_inode d)) (\<lambda>n. if i_type n \<noteq> DIRECTORY then Inr (- ENOTDIR, p) else Inr (0, p\<lparr>cwd_inode := fd_inode d\<rparr>))))"

definition sys_mkdir :: "string \<Rightarrow> int \<Rightarrow> process \<Rightarrow> vfs \<Rightarrow> (int \<times> vfs) kres" where
  "sys_mkdir path mode p v = fs_mkdir (cwd_inode p) path mode v"

definition sys_fcntl :: "int \<Rightarrow> u32 \<Rightarrow> u64 \<Rightarrow> int" where
  "sys_fcntl fd cmd arg = 1"

section \<open>Directory entries\<close>

record linux_dirent64 =
  d_ino :: u64
  d_off :: u64
  d_reclen :: u16
  d_type :: u8
  d_name :: string

definition sizeof_dirent64 :: nat where
  "sizeof_dirent64 = 8 + 8 + 2 + 1 + 256"

text \<open>\<^verbatim>\<open>strncpy\<close> into the member \<^verbatim>\<open>d_name\<close>: the rest is filled with zeros, and a name that does not fit is cut.\<close>

definition strncpy_name :: "string \<Rightarrow> string" where
  "strncpy_name name = take 256 (name @ replicate 256 NUL)"

fun getdents_loop :: "nat \<Rightarrow> nat \<Rightarrow> DirEntry list \<Rightarrow> linux_dirent64 list" where
  "getdents_loop 0 ino entries = []"
| "getdents_loop (Suc k) ino [] = []"
| "getdents_loop (Suc k) ino (e # entries) = \<lparr>d_ino = of_nat ino, d_off = 0, d_reclen = of_nat sizeof_dirent64, d_type = FileType_code (de_type e), d_name = strncpy_name (de_name e)\<rparr> # getdents_loop k (ino + 1) entries"

definition sys_getdents64 :: "int \<Rightarrow> u32 \<Rightarrow> process \<Rightarrow> vfs \<Rightarrow> (int \<times> linux_dirent64 list \<times> vfs) kres" where
  "sys_getdents64 fd n p v = (case get_fd p fd of None \<Rightarrow> Inr (- EBADF, [], v)
     | Some f \<Rightarrow> kbind (fd_at v f) (\<lambda>d. kbind (fs_readdir (cwd_inode p) (fd_path d) [] v) (\<lambda>(r, entries).
         if unat (fd_offset d) \<ge> length entries then Inr (0, [], v)
         else let dirents = getdents_loop (unat n div sizeof_dirent64) 1 (drop (unat (fd_offset d)) entries) in
           Inr (int (length dirents * sizeof_dirent64), dirents, set_fd f (d\<lparr>fd_offset := fd_offset d + of_nat (length dirents)\<rparr>) v))))"

section \<open>Processes and files\<close>

definition O_WRONLY :: int where "O_WRONLY = 1"

definition build_stdio :: "process \<Rightarrow> vfs \<Rightarrow> (process \<times> vfs) kres" where
  "build_stdio p v = kbind (fs_open (cwd_inode p) ''/dev/tty1'' O_RDONLY v) (\<lambda>(i, v). kbind (fs_open (cwd_inode p) ''/dev/tty1'' O_WRONLY v) (\<lambda>(out, v).
     kbind (fs_open (cwd_inode p) ''/dev/tty1'' O_WRONLY v) (\<lambda>(err, v). Inr (p\<lparr>fd_table := fd_table p @ [i, out, err]\<rparr>, v))))"

definition Process_to_string :: "process \<Rightarrow> vfs \<Rightarrow> kstring kres option" where
  "Process_to_string p v = map_option (\<lambda>r. kbind r (\<lambda>cwd. kbind (kstring_cstr (Some cwd)) (\<lambda>cwd. kbind (get_state_str p) (\<lambda>st.
     let format = ''pid = {}'' @ [CHR 0x0A] @ ''cwd = {}'' @ [CHR 0x0A] @ ''state = {}'' @ [CHR 0x0A] @ ''pml4         @ {}'' @ [CHR 0x0A] @ ''kernel stack @ {}'' @ [CHR 0x0A] @
       ''kernel rsp   @ {}'' @ [CHR 0x0A] @ ''entry rip    @ {}'' @ [CHR 0x0A] @ ''context switch count = {}'' in
     sprintf [SInt (word_of_int (pid p)), KStr cwd, CStr (Some st), HexPtr (case pml4 p of None \<Rightarrow> 0 | Some a \<Rightarrow> a), HexPtr (kernel_stack p), HexU (kernel_rsp p), HexU (entry p), UInt (context_switches p)]
       \<lparr>kv_data = format @ [NUL], kv_len = length format\<rparr>)))) (fs_getcwd v (cwd_inode p))"

end
