(* ===== verification/Sys_Fd_Props.thy ===== *)
theory Sys_Fd_Props
  imports Sys_Fd Vfs_Props
begin

text \<open>
  What the system calls on files do. An open file of tmpfs is a list of bytes with an offset, and the calls refine the operations on it. In a consistent file system the calls of a process with valid
  descriptors do not fault and leave both consistent, with the exceptions that \<open>call_safe\<close> names. The current directory that \<^verbatim>\<open>getcwd\<close> reports after \<^verbatim>\<open>chdir\<close> is the normalized path.
\<close>

section \<open>Files as lists of bytes\<close>

definition overwrite :: "nat \<Rightarrow> 'a::zero list \<Rightarrow> 'a list \<Rightarrow> 'a list" where
  "overwrite off bs xs = (let ys = xs @ replicate (off + length bs - length xs) 0 in take off ys @ bs @ drop (off + length bs) ys)"

lemma length_overwrite: "length (overwrite off bs xs) = max (length xs) (off + length bs)"
  by (auto simp: overwrite_def Let_def)

lemma overwrite_read: "take (length bs) (drop off (overwrite off bs xs)) = bs"
  by (simp add: overwrite_def Let_def)

lemma overwrite_step:
  assumes "off + Suc i \<le> length ys" "i < length bs"
  shows "(take off ys @ take i bs @ drop (off + i) ys)[off + i := bs ! i] = take off ys @ take (Suc i) bs @ drop (off + Suc i) ys"
  using assms by (simp add: list_update_append take_Suc_conv_app_nth min_def Cons_nth_drop_Suc [symmetric, of "off + i"])

lemma v_write_ok:
  assumes "vec_ok v" "i < v_size v"
  shows "\<exists>v'. v_write i y v = Inr v' \<and> vec_ok v' \<and> v_size v' = v_size v \<and> vec_list v' = (vec_list v)[i := y]"
proof -
  obtain rest where r: "v_data v = map Some (vec_list v) @ rest" "v_capacity v = length (vec_list v) + length rest" "v_size v = length (vec_list v)"
    by (rule vec_repE [OF assms(1)]) blast
  let ?w = "v\<lparr>v_data := map Some ((vec_list v)[i := y]) @ rest\<rparr>"
  have "vec_ok ?w \<and> vec_list ?w = (vec_list v)[i := y]" using vec_repI [of ?w "(vec_list v)[i := y]" rest] r by simp
  then show ?thesis using v_write_rep [OF r(1), of i y] assms(2) r(3) by auto
qed

lemma v_size_list: "vec_ok v \<Longrightarrow> v_size v = length (vec_list v)"
  by (erule vec_repE) simp

lemma v_read_ok: "vec_ok v \<Longrightarrow> i < v_size v \<Longrightarrow> v_read v i = Inr (vec_list v ! i)"
  by (erule vec_repE) (simp add: v_read_rep)

lemma unat_add_of_nat: "unat (a :: u64) + n < 2 ^ 64 \<Longrightarrow> unat (a + of_nat n) = unat a + n"
  by (simp add: unat_word_ariths unat_of_nat)

lemma TmpFileInode_write_ok:
  assumes ok: "vec_ok data" and fit: "unat (fd_offset d) + length bs < 2 ^ 64"
  shows "\<exists>data'. TmpFileInode_write bs d data = Inr (int_of_size (of_nat (length bs)), d\<lparr>fd_offset := fd_offset d + of_nat (length bs)\<rparr>, data') \<and> vec_ok data' \<and>
    vec_list data' = overwrite (unat (fd_offset d)) bs (vec_list data)"
proof -
  let ?off = "unat (fd_offset d)" let ?n = "?off + length bs"
  define ys where "ys = vec_list data @ replicate (?n - v_size data) 0"
  obtain w where w: "kvector_resize 0 ?n data = Inr w" "vec_ok w" "vec_list w = ys" using kvector_resize_rep [OF ok, of 0 ?n] by (auto simp: ys_def)
  have len: "?n \<le> length ys" using v_size_list [OF ok] by (simp add: ys_def)
  define I where "I i s = (case s of (e, x) \<Rightarrow> e = d\<lparr>fd_offset := fd_offset d + of_nat i\<rparr> \<and> vec_ok x \<and> v_size x = v_size w \<and> vec_list x = take ?off ys @ take i bs @ drop (?off + i) ys)" for i s
  let ?body = "\<lambda>i (fd, data). kbind (v_write (unat (fd_offset fd)) (bs ! i) data) (\<lambda>data. Inr (fd\<lparr>fd_offset := fd_offset fd + 1\<rparr>, data))"
  have "\<exists>s. kfor 0 (length bs) ?body (d, w) = Inr s \<and> I (length bs) s"
  proof (rule kfor_rule [where I = I])
    show "\<exists>t. ?body i s = Inr t \<and> I (Suc i) t" if i: "0 \<le> i" "i < length bs" and inv: "I i s" for i s
    proof -
      obtain e x where s: "s = (e, x)" by (cases s)
      have e: "e = d\<lparr>fd_offset := fd_offset d + of_nat i\<rparr>" and x: "vec_ok x" "v_size x = v_size w" "vec_list x = take ?off ys @ take i bs @ drop (?off + i) ys"
        using inv s by (auto simp: I_def)
      have o: "unat (fd_offset d + of_nat i) = ?off + i" using fit i(2) by (intro unat_add_of_nat) simp
      have "?off + i < v_size x" using x(2) v_size_list [OF w(2)] w(3) len i(2) by simp
      then obtain y where y: "v_write (?off + i) (bs ! i) x = Inr y" "vec_ok y" "v_size y = v_size x" "vec_list y = (vec_list x)[?off + i := bs ! i]"
        using v_write_ok [OF x(1)] by blast
      have "vec_list y = take ?off ys @ take (Suc i) bs @ drop (?off + Suc i) ys" using y(4) x(3) overwrite_step [of ?off i ys bs] len i(2) by simp
      then show ?thesis using s e o y x(2) by (simp add: I_def ac_simps)
    qed
  qed (use w in \<open>simp_all add: I_def\<close>)
  then obtain x where "kfor 0 (length bs) ?body (d, w) = Inr (d\<lparr>fd_offset := fd_offset d + of_nat (length bs)\<rparr>, x)" "vec_ok x" "vec_list x = take ?off ys @ bs @ drop ?n ys" by (auto simp: I_def)
  then show ?thesis using w(1) fit v_size_list [OF ok] by (simp add: TmpFileInode_write_def Let_def unat_add_of_nat overwrite_def ys_def)
qed

lemma TmpFileInode_read_ok:
  fixes d :: FileDescriptor and n :: u64
  assumes ok: "vec_ok data" and fit: "v_size data < 2 ^ 64"
  defines "bs \<equiv> take (unat n) (drop (unat (fd_offset d)) (vec_list data))"
  shows "TmpFileInode_read n d data = Inr (int_of_size (of_nat (length bs)), bs, d\<lparr>fd_offset := fd_offset d + of_nat (length bs)\<rparr>)"
proof (cases "unat (fd_offset d) \<ge> v_size data")
  case True
  then show ?thesis using v_size_list [OF ok] by (simp add: TmpFileInode_read_def bs_def int_of_size_def)
next
  case False
  let ?off = "unat (fd_offset d)" and ?xs = "vec_list data"
  have sz: "v_size data = length ?xs" by (rule v_size_list [OF ok])
  let ?av = "of_nat (v_size data) - fd_offset d :: u64"
  have av: "unat ?av = length ?xs - ?off" using False fit sz by (simp add: unat_sub word_le_nat_alt unat_of_nat)
  define m where "m = (if n < ?av then n else ?av)"
  have m: "unat m = length bs" using av by (auto simp: m_def bs_def word_less_nat_alt)
  have le: "?off + length bs \<le> length ?xs" using False sz by (auto simp: bs_def)
  let ?body = "\<lambda>i (fd, buff). kbind (v_read data (unat (fd_offset fd))) (\<lambda>b. Inr (fd\<lparr>fd_offset := fd_offset fd + 1\<rparr>, buff @ [b]))"
  let ?I = "\<lambda>i s. s = (d\<lparr>fd_offset := fd_offset d + of_nat i\<rparr>, take i bs)"
  have "\<exists>s. kfor 0 (unat m) ?body (d, []) = Inr s \<and> ?I (unat m) s"
  proof (rule kfor_rule [where I = ?I])
    show "\<exists>t. ?body i s = Inr t \<and> ?I (Suc i) t" if i: "0 \<le> i" "i < unat m" and inv: "?I i s" for i s
    proof -
      have "unat (fd_offset d + of_nat i) = ?off + i" using i(2) le m fit sz by (intro unat_add_of_nat) simp
      moreover have "?xs ! (?off + i) = bs ! i" using i(2) m le by (simp add: bs_def)
      moreover have "take i bs @ [bs ! i] = take (Suc i) bs" using i(2) m by (simp add: take_Suc_conv_app_nth)
      ultimately show ?thesis using inv v_read_ok [OF ok, of "?off + i"] i(2) m le sz by (simp add: ac_simps)
    qed
  qed simp_all
  then have "kfor 0 (unat m) ?body (d, []) = Inr (d\<lparr>fd_offset := fd_offset d + of_nat (length bs)\<rparr>, bs)" using m by simp
  moreover have "(of_nat (length bs) :: u64) = m" using m unfolding m [symmetric] by simp
  ultimately show ?thesis using False unfolding TmpFileInode_read_def m_def [symmetric] Let_def by simp
qed

section \<open>Changes that keep the tree\<close>

lemma vfs_ok_set_fd:
  assumes "vfs_ok v" "fds v f \<noteq> None" "fd_ok v d"
  shows "vfs_ok (set_fd f d v)"
proof -
  have "tree_ok v" using assms(1) by (rule vfs_ok_tree)
  then have "tree_ok (set_fd f d v)" using assms(2,3) unfolding tree_ok_def by (auto simp: set_fd_def inode_ok_def mount_ok_def fd_ok_def)
  then show ?thesis using assms(1) by (simp add: vfs_ok_def set_fd_def)
qed

definition set_data :: "iptr \<Rightarrow> inode \<Rightarrow> u8 kvector \<Rightarrow> vfs \<Rightarrow> vfs" where
  "set_data i n data v = set_inode i (n\<lparr>i_class := TmpFileInode data, i_size := of_nat (v_size data)\<rparr>) v"

lemma vfs_ok_set_data:
  assumes ok: "vfs_ok v" and n: "inodes v i = Some n" "i_class n = TmpFileInode x" and data: "vec_ok data"
  shows "vfs_ok (set_data i n data v)"
proof -
  let ?v = "set_data i n data v"
  have t: "tree_ok v" using ok by (rule vfs_ok_tree)
  have old: "\<exists>l'. inodes ?v j = Some l' \<and> i_parent l' = i_parent l \<and> i_mountpoint l' = i_mountpoint l \<and> i_type l' = i_type l \<and> i_name l' = i_name l" if "inodes v j = Some l" for j l
    using that n by (auto simp: set_data_def set_inode_def)
  have dom: "j \<in> dom (inodes v) \<Longrightarrow> j \<in> dom (inodes ?v)" for j by (auto simp: set_data_def set_inode_def)
  have m: "mounts ?v = mounts v" "fds ?v = fds v" "g_mountpoints ?v = g_mountpoints v" "next_obj ?v = next_obj v" "g_root_mountpoint ?v = g_root_mountpoint v"
    by (simp_all add: set_data_def set_inode_def)
  have cm: "class_mount (TmpFileInode data) c = class_mount (TmpFileInode x) c" for c by (cases c) auto
  have iok: "inode_ok ?v j l'" if l: "inode_ok v j l" "inodes v j = Some l" "inodes ?v j = Some l'" for j l l'
  proof -
    have kids: "\<exists>k. inodes ?v c = Some k \<and> i_parent k = Some j \<and> i_mountpoint k = i_mountpoint l" if "\<exists>k. inodes v c = Some k \<and> i_parent k = Some j \<and> i_mountpoint k = i_mountpoint l" for c
      using that old by fastforce
    show ?thesis
    proof (cases "j = i")
      case True
      then have "l = n" "l' = n\<lparr>i_class := TmpFileInode data, i_size := of_nat (v_size data)\<rparr>" using l n by (auto simp: set_data_def set_inode_def)
      then show ?thesis using l(1) n(2) dom data cm unfolding inode_ok_def m by (auto simp: has_children_def fixed_dir_def file_ok_def)
    next
      case False
      then have "l' = l" using l by (simp add: set_data_def set_inode_def)
      then show ?thesis using l(1) dom kids unfolding inode_ok_def m by blast
    qed
  qed
  have mok: "mount_ok ?v q p" if "mount_ok v q p" for q p
    using that unfolding mount_ok_def by (intro conjI allI ballI impI; elim conjE) (metis old)+
  have fok: "fd_ok ?v e" if "fd_ok v e" for e using that by (auto simp: fd_ok_def set_data_def set_inode_def)
  have "tree_ok ?v"
    unfolding tree_ok_def
  proof (intro conjI allI impI)
    fix j l' assume l': "inodes ?v j = Some l'"
    then have "j \<in> dom (inodes v)" using n(1) by (auto simp: set_data_def set_inode_def split: if_splits)
    then obtain l where l: "inodes v j = Some l" by blast
    show "j < next_obj ?v" "inode_ok ?v j l'" using tree_ok_inode [OF t l] iok [OF _ l l'] m by auto
  next
    fix q p assume "mounts ?v q = Some p"
    then show "q < next_obj ?v" "mount_ok ?v q p" using tree_ok_mount [OF t] mok m by auto
  next
    fix f d assume "fds ?v f = Some d"
    then show "f < next_obj ?v" "fd_ok ?v d" using tree_ok_fd [OF t, of f d] fok m by auto
  qed (use t m in \<open>auto simp: tree_ok_def\<close>)
  then show ?thesis using ok m unfolding vfs_ok_def by simp
qed

section \<open>Open files of tmpfs\<close>

text \<open>The contents of the file a descriptor stands for, and the offset in it.\<close>

definition open_file :: "vfs \<Rightarrow> fdptr \<Rightarrow> (u8 list \<times> nat) option" where
  "open_file v f = (case fds v f of None \<Rightarrow> None | Some d \<Rightarrow> (case fd_inode d of None \<Rightarrow> None | Some i \<Rightarrow> (case inodes v i of None \<Rightarrow> None
     | Some n \<Rightarrow> (case i_class n of TmpFileInode data \<Rightarrow> Some (vec_list data, unat (fd_offset d)) | _ \<Rightarrow> None))))"

definition same_file :: "vfs \<Rightarrow> fdptr \<Rightarrow> fdptr \<Rightarrow> bool" where
  "same_file v f g \<longleftrightarrow> map_option fd_inode (fds v f) = map_option fd_inode (fds v g)"

lemma open_fileE:
  assumes "open_file v f = Some (xs, off)" "vfs_ok v"
  obtains d i n data where "fds v f = Some d" "fd_inode d = Some i" "inodes v i = Some n" "i_class n = TmpFileInode data" "vec_ok data" "vec_list data = xs" "unat (fd_offset d) = off"
    "i_size n = of_nat (length xs)" "v_size data = length xs"
proof -
  obtain d i n data where o: "fds v f = Some d" "fd_inode d = Some i" "inodes v i = Some n" "i_class n = TmpFileInode data" "vec_list data = xs" "unat (fd_offset d) = off"
    using assms(1) unfolding open_file_def by (auto split: option.splits inode_class.splits)
  have "vec_ok data" "i_size n = of_nat (v_size data)" using tree_ok_inode [OF vfs_ok_tree [OF assms(2)] o(3)] o(4) by (auto simp: inode_ok_def file_ok_def)
  then show thesis using that o v_size_list by metis
qed

lemma inode_write_file:
  assumes ok: "vfs_ok v" and o: "open_file v f = Some (xs, off)" and fit: "off + length bs < 2 ^ 64"
  shows "\<exists>v'. inode_write bs f v = Inr (int_of_size (of_nat (length bs)), v') \<and> vfs_ok v' \<and> open_file v' f = Some (overwrite off bs xs, off + length bs) \<and>
    (\<forall>g. g \<noteq> f \<longrightarrow> open_file v' g = (if same_file v f g then map_option (\<lambda>(ys, k). (overwrite off bs xs, k)) (open_file v g) else open_file v g)) \<and> dom (fds v') = dom (fds v) \<and> dom (inodes v') = dom (inodes v)"
proof -
  obtain d i n data where d: "fds v f = Some d" "fd_inode d = Some i" "inodes v i = Some n" "i_class n = TmpFileInode data" "vec_ok data" "vec_list data = xs" "unat (fd_offset d) = off"
    by (rule open_fileE [OF o ok])
  obtain data' where w: "TmpFileInode_write bs d data = Inr (int_of_size (of_nat (length bs)), d\<lparr>fd_offset := fd_offset d + of_nat (length bs)\<rparr>, data')" "vec_ok data'" "vec_list data' = overwrite off bs xs"
    using TmpFileInode_write_ok [OF d(5), of d bs] d(6,7) fit by auto
  let ?d = "d\<lparr>fd_offset := fd_offset d + of_nat (length bs)\<rparr>"
  let ?v = "set_data i n data' (set_fd f ?d v)"
  have "inode_write bs f v = Inr (int_of_size (of_nat (length bs)), ?v)" using d w(1) by (simp add: inode_write_def fd_at_def inode_at_Some set_data_def)
  moreover have "vfs_ok (set_fd f ?d v)" using ok d by (intro vfs_ok_set_fd) (auto simp: fd_ok_def)
  then have "vfs_ok ?v" using d w(2) by (intro vfs_ok_set_data [of _ i n data]) (auto simp: set_fd_def)
  moreover have "unat (fd_offset ?d) = off + length bs" using fit d(7) by (simp add: unat_add_of_nat)
  then have "open_file ?v f = Some (overwrite off bs xs, off + length bs)" using d w(3) by (simp add: open_file_def set_data_def set_inode_def set_fd_def)
  moreover have "open_file ?v g = (if same_file v f g then map_option (\<lambda>(ys, k). (overwrite off bs xs, k)) (open_file v g) else open_file v g)" if g: "g \<noteq> f" for g
  proof (cases "same_file v f g")
    case True
    then obtain e where "fds v g = Some e" "fd_inode e = Some i" using d by (cases "fds v g") (auto simp: same_file_def)
    then show ?thesis using True d w(3) g by (simp add: open_file_def set_data_def set_inode_def set_fd_def)
  next
    case False
    then have "fds v g = Some e \<Longrightarrow> fd_inode e \<noteq> Some i" for e using d by (auto simp: same_file_def)
    then show ?thesis using False g by (auto simp: open_file_def set_data_def set_inode_def set_fd_def split: option.splits)
  qed
  moreover have "dom (fds ?v) = dom (fds v)" "dom (inodes ?v) = dom (inodes v)" using d by (auto simp: set_data_def set_inode_def set_fd_def)
  ultimately show ?thesis by blast
qed

lemma open_file_set_fd:
  assumes "fds v f = Some d" "open_file v f = Some (xs, off)" "fd_inode e = fd_inode d"
  shows "open_file (set_fd f e v) g = (if g = f then Some (xs, unat (fd_offset e)) else open_file v g)"
  using assms by (auto simp: open_file_def set_fd_def split: option.splits inode_class.splits)

lemma inode_read_file:
  assumes ok: "vfs_ok v" and o: "open_file v f = Some (xs, off)" and fit: "length xs < 2 ^ 64"
  shows "\<exists>v'. inode_read self n f v = Some (Inr (Returns (int_of_size (of_nat (length (take (unat n) (drop off xs)))), take (unat n) (drop off xs)) v')) \<and> vfs_ok v' \<and>
    (\<forall>g. open_file v' g = (if g = f then Some (xs, off + length (take (unat n) (drop off xs))) else open_file v g)) \<and> dom (fds v') = dom (fds v) \<and> dom (inodes v') = dom (inodes v)"
proof -
  obtain d i k data where d: "fds v f = Some d" "fd_inode d = Some i" "inodes v i = Some k" "i_class k = TmpFileInode data" "vec_ok data" "vec_list data = xs" "unat (fd_offset d) = off" "v_size data = length xs"
    by (rule open_fileE [OF o ok])
  let ?bs = "take (unat n) (drop off xs)"
  let ?d = "d\<lparr>fd_offset := fd_offset d + of_nat (length ?bs)\<rparr>"
  have r: "TmpFileInode_read n d data = Inr (int_of_size (of_nat (length ?bs)), ?bs, ?d)" using TmpFileInode_read_ok [OF d(5), of n d] d fit by simp
  have "inode_read self n f v = Some (Inr (Returns (int_of_size (of_nat (length ?bs)), ?bs) (set_fd f ?d v)))" unfolding inode_read_def using d(1-4) r by (simp add: fd_at_def inode_at_Some kthen_def)
  moreover have "vfs_ok (set_fd f ?d v)" using ok d by (intro vfs_ok_set_fd) (auto simp: fd_ok_def)
  moreover have "unat (fd_offset ?d) = off + length ?bs"
  proof (cases "off < length xs")
    case True
    then have "off + length ?bs < 2 ^ 64" using fit by simp
    then show ?thesis using d(7) by (simp add: unat_add_of_nat del: length_take length_drop)
  qed (use d(7) in simp)
  then have "open_file (set_fd f ?d v) g = (if g = f then Some (xs, off + length ?bs) else open_file v g)" for g using open_file_set_fd [OF d(1) o, of ?d] by simp
  moreover have "dom (fds (set_fd f ?d v)) = dom (fds v)" "dom (inodes (set_fd f ?d v)) = dom (inodes v)" using d by (auto simp: set_fd_def)
  ultimately show ?thesis by blast
qed

lemma int_of_small: "n < 2 ^ 31 \<Longrightarrow> int_of_size (of_nat n) = int n"
  by (simp add: int_of_size_def unsigned_of_nat take_bit_nat_eq_self signed_of_nat signed_take_bit_int_eq_self)

lemma sys_lseek_file:
  assumes ok: "vfs_ok v" and o: "open_file v f = Some (xs, off)" and fd: "get_fd p fd = Some f" and fit: "k < 2 ^ 31"
  shows "\<exists>v'. sys_lseek fd (of_nat k) SEEK_SET p v = Inr (0, v') \<and> vfs_ok v' \<and> (\<forall>g. open_file v' g = (if g = f then Some (xs, k) else open_file v g))"
proof -
  obtain d i n data where d: "fds v f = Some d" "fd_inode d = Some i" "inodes v i = Some n" "i_class n = TmpFileInode data"
    by (rule open_fileE [OF o ok])
  let ?d = "d\<lparr>fd_offset := of_nat k\<rparr>"
  have "sys_lseek fd (of_nat k) SEEK_SET p v = Inr (0, set_fd f ?d v)"
    using d fd int_of_small [OF fit] by (simp add: sys_lseek_def fd_at_def inode_at_Some inode_lseek_def TmpFileInode_lseek_def)
  moreover have "vfs_ok (set_fd f ?d v)" using ok d by (intro vfs_ok_set_fd) (auto simp: fd_ok_def)
  moreover have "unat (fd_offset ?d) = k" using fit by (simp add: unat_of_nat)
  then have "open_file (set_fd f ?d v) g = (if g = f then Some (xs, k) else open_file v g)" for g using open_file_set_fd [OF d(1) o, of ?d] by simp
  ultimately show ?thesis by blast
qed

section \<open>The interface of a file\<close>

text \<open>\<open>contents\<close> is what a state says of an open file, its bytes and the offset; writing and reading start at the offset and move it.\<close>

locale byte_file =
  fixes contents :: "'s \<Rightarrow> (u8 list \<times> nat) option"
    and put :: "u8 list \<Rightarrow> 's \<Rightarrow> 's option"
    and get :: "nat \<Rightarrow> 's \<Rightarrow> (u8 list \<times> 's) option"
    and seek :: "nat \<Rightarrow> 's \<Rightarrow> 's option"
  assumes put_law: "contents s = Some (xs, off) \<Longrightarrow> off + length bs < 2 ^ 64 \<Longrightarrow> \<exists>s'. put bs s = Some s' \<and> contents s' = Some (overwrite off bs xs, off + length bs)"
    and get_law: "contents s = Some (xs, off) \<Longrightarrow> length xs < 2 ^ 64 \<Longrightarrow> n < 2 ^ 64 \<Longrightarrow> \<exists>s'. get n s = Some (take n (drop off xs), s') \<and> contents s' = Some (xs, off + length (take n (drop off xs)))"
    and seek_law: "contents s = Some (xs, off) \<Longrightarrow> k < 2 ^ 31 \<Longrightarrow> \<exists>s'. seek k s = Some s' \<and> contents s' = Some (xs, k)"
begin

lemma put_seek_get:
  assumes "contents s = Some (xs, off)" "off < 2 ^ 31" "off + length bs < 2 ^ 64" "length xs < 2 ^ 64"
  shows "\<exists>s1 s2 s3. put bs s = Some s1 \<and> seek off s1 = Some s2 \<and> get (length bs) s2 = Some (bs, s3) \<and> contents s3 = Some (overwrite off bs xs, off + length bs)"
proof -
  obtain s1 where s1: "put bs s = Some s1" "contents s1 = Some (overwrite off bs xs, off + length bs)" using put_law assms(1,3) by blast
  obtain s2 where s2: "seek off s1 = Some s2" "contents s2 = Some (overwrite off bs xs, off)" using seek_law s1(2) assms(2) by blast
  have "length (overwrite off bs xs) < 2 ^ 64" "length bs < 2 ^ 64" using assms(3,4) by (simp_all add: length_overwrite)
  then obtain s3 where "get (length bs) s2 = Some (bs, s3)" "contents s3 = Some (overwrite off bs xs, off + length bs)"
    using get_law [OF s2(2), of "length bs"] by (auto simp: overwrite_read)
  then show ?thesis using s1(1) s2(1) by blast
qed

end

text \<open>The calls of a process on one of its files.\<close>

definition proc_file :: "int \<times> process \<times> vfs \<Rightarrow> (u8 list \<times> nat) option" where
  "proc_file s = (case s of (fd, p, v) \<Rightarrow> (case get_fd p fd of None \<Rightarrow> None | Some f \<Rightarrow> if vfs_ok v then open_file v f else None))"

definition proc_put :: "u8 list \<Rightarrow> int \<times> process \<times> vfs \<Rightarrow> (int \<times> process \<times> vfs) option" where
  "proc_put bs s = (case s of (fd, p, v) \<Rightarrow> (case sys_write fd bs p v of Inl e \<Rightarrow> None | Inr (r, v') \<Rightarrow> Some (fd, p, v')))"

definition proc_get :: "nat \<Rightarrow> int \<times> process \<times> vfs \<Rightarrow> (u8 list \<times> int \<times> process \<times> vfs) option" where
  "proc_get n s = (case s of (fd, p, v) \<Rightarrow> (case sys_read [] fd (of_nat n) p v of Some (Inr (Returns (r, bytes) v')) \<Rightarrow> Some (bytes, fd, p, v') | _ \<Rightarrow> None))"

definition proc_seek :: "nat \<Rightarrow> int \<times> process \<times> vfs \<Rightarrow> (int \<times> process \<times> vfs) option" where
  "proc_seek k s = (case s of (fd, p, v) \<Rightarrow> (case sys_lseek fd (of_nat k) SEEK_SET p v of Inl e \<Rightarrow> None | Inr (r, v') \<Rightarrow> Some (fd, p, v')))"

lemma proc_fileE:
  assumes "proc_file s = Some (xs, off)"
  obtains fd p v f where "s = (fd, p, v)" "get_fd p fd = Some f" "vfs_ok v" "open_file v f = Some (xs, off)"
  using assms that by (cases s) (auto simp: proc_file_def split: option.splits if_splits)

interpretation pf: byte_file proc_file proc_put proc_get proc_seek
proof unfold_locales
  fix s xs off and bs :: "u8 list" assume s: "proc_file s = Some (xs, off)" and fit: "off + length bs < 2 ^ 64"
  obtain fd p v f where f: "s = (fd, p, v)" "get_fd p fd = Some f" "vfs_ok v" "open_file v f = Some (xs, off)" using s by (rule proc_fileE)
  obtain v' where "inode_write bs f v = Inr (int_of_size (of_nat (length bs)), v')" "vfs_ok v'" "open_file v' f = Some (overwrite off bs xs, off + length bs)"
    using inode_write_file [OF f(3,4) fit] by blast
  then show "\<exists>s'. proc_put bs s = Some s' \<and> proc_file s' = Some (overwrite off bs xs, off + length bs)" using f(1,2) by (simp add: proc_put_def sys_write_def proc_file_def)
next
  fix s xs off and n :: nat assume s: "proc_file s = Some (xs, off)" and fit: "length xs < 2 ^ 64" "n < 2 ^ 64"
  obtain fd p v f where f: "s = (fd, p, v)" "get_fd p fd = Some f" "vfs_ok v" "open_file v f = Some (xs, off)" using s by (rule proc_fileE)
  have n: "unat (of_nat n :: u64) = n" using fit(2) by (simp add: unat_of_nat)
  obtain v' where "inode_read [] (of_nat n) f v = Some (Inr (Returns (int_of_size (of_nat (length (take n (drop off xs)))), take n (drop off xs)) v'))" "vfs_ok v'"
    "open_file v' f = Some (xs, off + length (take n (drop off xs)))"
    using inode_read_file [OF f(3,4) fit(1), of "[]" "of_nat n"] unfolding n by auto
  then show "\<exists>s'. proc_get n s = Some (take n (drop off xs), s') \<and> proc_file s' = Some (xs, off + length (take n (drop off xs)))"
    using f(1,2) by (simp add: proc_get_def sys_read_def proc_file_def)
next
  fix s xs off and k :: nat assume s: "proc_file s = Some (xs, off)" and fit: "k < 2 ^ 31"
  obtain fd p v f where f: "s = (fd, p, v)" "get_fd p fd = Some f" "vfs_ok v" "open_file v f = Some (xs, off)" using s by (rule proc_fileE)
  show "\<exists>s'. proc_seek k s = Some s' \<and> proc_file s' = Some (xs, k)" using sys_lseek_file [OF f(3,4,2) fit] f(1,2) by (auto simp: proc_seek_def proc_file_def)
qed

section \<open>Descriptors\<close>

definition files_ok :: "vfs \<Rightarrow> process \<Rightarrow> bool" where
  "files_ok v p \<longleftrightarrow> (\<forall>f. Some f \<in> set (fd_table p) \<longrightarrow> f \<in> dom (fds v)) \<and> (\<forall>c. cwd_inode p = Some c \<longrightarrow> c \<in> dom (inodes v))"

lemma resolve_total:
  assumes "vfs_ok v" "\<forall>c. cwd = Some c \<longrightarrow> c \<in> dom (inodes v)"
  shows "\<exists>r. resolve_tokens v cwd path ts = Inr r \<and> (\<forall>i. r = Some i \<longrightarrow> i \<in> dom (inodes v))"
proof -
  obtain m p where m: "g_root_mountpoint v = Some m" "mounts v m = Some p" using assms(1) by (auto simp: vfs_ok_def)
  have t: "tree_ok v" using assms(1) by (rule vfs_ok_tree)
  then have r: "root_inode p \<in> dom (inodes v)" using tree_ok_mount [OF t m(2)] by (auto simp: mount_ok_def)
  define c where "c = (if (path \<noteq> [] \<and> hd path = CHR ''/'') \<or> cwd = None then root_inode p else the cwd)"
  have "c \<in> dom (inodes v)" using r assms(2) by (auto simp: c_def)
  moreover have "resolve_tokens v cwd path ts = resolve_loop v (Some c) ts" using m by (auto simp: resolve_tokens_def mount_at_Some c_def)
  ultimately show ?thesis using resolve_loop_total [OF t] by simp
qed

lemma fd_node_ok:
  assumes "vfs_ok v" "f \<in> dom (fds v)"
  obtains d i n where "fds v f = Some d" "fd_inode d = Some i" "inodes v i = Some n" "fd_at v f = Inr d" "fd_node v f = Inr n" "inode_at v (fd_inode d) = Inr n"
proof -
  obtain d where d: "fds v f = Some d" using assms(2) by blast
  then obtain i n where "fd_inode d = Some i" "inodes v i = Some n" using tree_ok_fd [OF vfs_ok_tree [OF assms(1)] d] by (auto simp: fd_ok_def)
  then show thesis using that d by (simp add: fd_node_def fd_at_def)
qed

lemma get_fd_ok: "files_ok v p \<Longrightarrow> get_fd p fd = Some f \<Longrightarrow> f \<in> dom (fds v)"
  unfolding files_ok_def get_fd_def by (metis leI nth_mem option.discI)

lemma alloc_fd_exact:
  assumes "vfs_ok v" "files_ok v p"
  shows "alloc_fd v p = (if None \<in> set (fd_table p) then Inl (Fault ''null descriptor'') else Inr (length (fd_table p), p\<lparr>fd_table := fd_table p @ [None]\<rparr>))"
proof -
  have "alloc_fd_loop v i es = (if None \<in> set es then Inl (Fault ''null descriptor'') else Inr None)" if "\<forall>f. Some f \<in> set es \<longrightarrow> f \<in> dom (fds v)" for i es
    using that
  proof (induction es arbitrary: i)
    case (Cons e es)
    show ?case
    proof (cases e)
      case (Some f)
      then have "f \<in> dom (fds v)" using Cons.prems by simp
      then obtain d i where "fd_at v f = Inr d" "fd_inode d = Some i" by (rule fd_node_ok [OF assms(1)])
      then show ?thesis using Some Cons by simp
    qed simp
  qed simp
  then show ?thesis using assms(2) by (simp add: alloc_fd_def files_ok_def)
qed

lemma fs_open_cases:
  assumes ok: "vfs_ok v" and c: "\<forall>c. cwd = Some c \<longrightarrow> c \<in> dom (inodes v)"
  obtains (missing) "resolve_path v cwd path = Inr None" "fs_open cwd path flags v = Inr (None, v)"
  | (found) i n v' where "resolve_path v cwd path = Inr (Some i)" "inodes v i = Some n" "fs_open cwd path flags v = Inr (Some (next_obj v), v')" "vfs_ok v'" "inodes v' = inodes v" "extends v v'"
      "fds v (next_obj v) = None" "fds v' = (fds v)(next_obj v \<mapsto> \<lparr>fd_inode = Some i, fd_path = path, fd_offset = 0, fd_flags = flags\<rparr>)"
proof -
  obtain r where r: "resolve_path v cwd path = Inr r" "\<forall>i. r = Some i \<longrightarrow> i \<in> dom (inodes v)" using resolve_total [OF ok c] unfolding resolve_path_def by blast
  show thesis
  proof (cases r)
    case None
    then show ?thesis using r missing by (simp add: fs_open_def)
  next
    case (Some i)
    let ?d = "\<lparr>fd_inode = Some i, fd_path = path, fd_offset = 0, fd_flags = flags\<rparr>"
    let ?v = "set_fd (next_obj v) ?d (v\<lparr>next_obj := next_obj v + 1\<rparr>)"
    have t: "tree_ok v" using ok by (rule vfs_ok_tree)
    obtain n where n: "inodes v i = Some n" using r(2) Some by auto
    then have "fs_open cwd path flags v = Inr (Some (next_obj v), ?v)" using r(1) Some by (auto simp: fs_open_def Let_def set_fd_def inode_at_def)
    moreover have "tree_ok ?v" using t n unfolding tree_ok_def by (auto simp: set_fd_def inode_ok_def mount_ok_def fd_ok_def less_Suc_eq)
    then have "vfs_ok ?v" using ok by (simp add: vfs_ok_def set_fd_def)
    moreover have "fds v (next_obj v) = None" using tree_ok_fd [OF t, of "next_obj v"] by (cases "fds v (next_obj v)") auto
    moreover have "extends v ?v" by (simp add: extends_def set_fd_def)
    ultimately show ?thesis using found [OF _ n] r(1) Some by (simp add: set_fd_def)
  qed
qed

lemma child_entries_total: "\<forall>c \<in> set cs. c \<in> dom (inodes v) \<Longrightarrow> \<exists>es. child_entries v cs = Inr es"
proof (induction cs)
  case (Cons c cs)
  then obtain es n where "child_entries v cs = Inr es" "inodes v c = Some n" by auto
  then show ?case by (simp add: inode_at_Some)
qed simp

lemma fs_readdir_total:
  assumes ok: "vfs_ok v" and c: "\<forall>c. cwd = Some c \<longrightarrow> c \<in> dom (inodes v)"
  shows "\<exists>r es. fs_readdir cwd path entries v = Inr (r, es)"
proof -
  obtain q where q: "resolve_path v cwd path = Inr q" "\<forall>i. q = Some i \<longrightarrow> i \<in> dom (inodes v)" using resolve_total [OF ok c] unfolding resolve_path_def by blast
  show ?thesis
  proof (cases q)
    case (Some i)
    then obtain n where n: "inodes v i = Some n" using q(2) by auto
    have io: "inode_ok v i n" using tree_ok_inode [OF vfs_ok_tree [OF ok] n] by blast
    have "has_children (i_class n) \<Longrightarrow> \<exists>es. child_entries v (i_children n) = Inr es" using io by (intro child_entries_total) (auto simp: inode_ok_def)
    then have "\<exists>r es. inode_readdir v n entries = Inr (r, es)"
      by (cases "i_class n") (auto simp: inode_readdir_def TmpDirectoryInode_readdir_def InitramfsDirectoryInode_readdir_def has_children_def DevDirectoryInode_readdir_def ProcDirectoryInode_readdir_def)
    then show ?thesis using q Some n by (auto simp: fs_readdir_def inode_at_def)
  qed (use q in \<open>simp add: fs_readdir_def\<close>)
qed

lemma fs_mkdir_total:
  assumes ok: "vfs_ok v" and c: "\<forall>c. cwd = Some c \<longrightarrow> c \<in> dom (inodes v)" and path: "path_tokens path \<noteq> []"
  shows "\<exists>r v'. fs_mkdir cwd path mode v = Inr (r, v') \<and> vfs_ok v' \<and> dom (inodes v) \<subseteq> dom (inodes v') \<and> fds v' = fds v"
proof -
  let ?t = "last (path_tokens path)"
  obtain q where q: "resolve_tokens v cwd path (butlast (path_tokens path)) = Inr q" "\<forall>i. q = Some i \<longrightarrow> i \<in> dom (inodes v)" using resolve_total [OF ok c] by blast
  show ?thesis
  proof (cases q)
    case (Some i)
    then obtain n where n: "inodes v i = Some n" using q(2) by auto
    have t: "tree_ok v" using ok by (rule vfs_ok_tree)
    have "\<exists>r v'. inode_mkdir ?t i v = Inr (r, v') \<and> vfs_ok v' \<and> dom (inodes v) \<subseteq> dom (inodes v') \<and> fds v' = fds v"
    proof (cases "i_class n = TmpDirectoryInode")
      case True
      obtain l where l: "inode_lookup v (Some i) ?t = Inr l" using inode_lookup_ok [OF t n] by blast
      then have lk: "TmpDirectoryInode_lookup v n ?t = Inr l" using n True by (simp add: inode_lookup_def inode_at_Some)
      show ?thesis
      proof (cases l)
        case None
        obtain k p where k: "TmpDirectoryInode_mkdir ?t i v = Inr (0, add_entry (next_obj v) i n k p v)" "entry_fits v (next_obj v) i n k p"
          using tmp_mkdir_new(1) [OF t n True] l None by blast
        have "vfs_ok (add_entry (next_obj v) i n k p v)" by (rule add_entry_ok [OF ok k(2)])
        then show ?thesis using k(1) n True by (auto simp: inode_mkdir_def inode_at_Some)
      next
        case (Some x)
        then show ?thesis using n True lk ok by (simp add: inode_mkdir_def TmpDirectoryInode_mkdir_def inode_at_Some)
      qed
    next
      case False
      then show ?thesis using n ok by (cases "i_class n") (auto simp: inode_mkdir_def inode_at_Some)
    qed
    then show ?thesis using q(1) Some n ok path by (auto simp: fs_mkdir_def Let_def inode_at_def)
  qed (use q ok path in \<open>simp add: fs_mkdir_def Let_def\<close>)
qed

section \<open>The calls do not fault\<close>

datatype file_call = Open string int | Write int "u8 list" | Ioctl int u64 | Close int | Stat_path string | Fstat int | Lseek int u64 int | Chdir string | Fchdir int | Mkdir string int
  | Getdents64 int u32

primrec file_syscall :: "file_call \<Rightarrow> process \<Rightarrow> vfs \<Rightarrow> (int \<times> process \<times> vfs) kres" where
  "file_syscall (Open path flags) p v = sys_open path flags p v"
| "file_syscall (Write fd bs) p v = kbind (sys_write fd bs p v) (\<lambda>(r, v). Inr (r, p, v))"
| "file_syscall (Ioctl fd req) p v = kbind (sys_ioctl fd req p v) (\<lambda>(r, w). Inr (r, p, v))"
| "file_syscall (Close fd) p v = kbind (sys_close fd p v) (\<lambda>(r, p). Inr (r, p, v))"
| "file_syscall (Stat_path path) p v = kbind (sys_stat path p v) (\<lambda>(r, s). Inr (r, p, v))"
| "file_syscall (Fstat fd) p v = kbind (sys_fstat fd p v) (\<lambda>(r, s). Inr (r, p, v))"
| "file_syscall (Lseek fd off whence) p v = kbind (sys_lseek fd off whence p v) (\<lambda>(r, v). Inr (r, p, v))"
| "file_syscall (Chdir path) p v = sys_chdir path p v"
| "file_syscall (Fchdir fd) p v = kbind (sys_fchdir fd p v) (\<lambda>(r, p). Inr (r, p, v))"
| "file_syscall (Mkdir path mode) p v = kbind (sys_mkdir path mode p v) (\<lambda>(r, v). Inr (r, p, v))"
| "file_syscall (Getdents64 fd n) p v = kbind (sys_getdents64 fd n p v) (\<lambda>(r, es, v). Inr (r, p, v))"

definition on_tty :: "vfs \<Rightarrow> fdptr \<Rightarrow> bool" where
  "on_tty v f = (case fds v f of None \<Rightarrow> False | Some d \<Rightarrow> (case fd_inode d of None \<Rightarrow> False | Some i \<Rightarrow> (case inodes v i of None \<Rightarrow> False
     | Some n \<Rightarrow> (case i_class n of DevTtyInode t \<Rightarrow> True | _ \<Rightarrow> False))))"

text \<open>Where a call may fault: opening a file while an entry of the table is null, making a directory at a path without a name, and writing past the range of the offset. The terminal is left to its own theory.\<close>

primrec call_safe :: "file_call \<Rightarrow> process \<Rightarrow> vfs \<Rightarrow> bool" where
  "call_safe (Open path flags) p v = (None \<notin> set (fd_table p))"
| "call_safe (Write fd bs) p v = (case get_fd p fd of None \<Rightarrow> True | Some f \<Rightarrow> \<not> on_tty v f \<and> (case open_file v f of None \<Rightarrow> True | Some (xs, off) \<Rightarrow> off + length bs < 2 ^ 64))"
| "call_safe (Ioctl fd req) p v = True"
| "call_safe (Close fd) p v = True"
| "call_safe (Stat_path path) p v = True"
| "call_safe (Fstat fd) p v = True"
| "call_safe (Lseek fd off whence) p v = True"
| "call_safe (Chdir path) p v = True"
| "call_safe (Fchdir fd) p v = True"
| "call_safe (Mkdir path mode) p v = (path_tokens path \<noteq> [])"
| "call_safe (Getdents64 fd n) p v = True"

lemma files_okI:
  assumes "files_ok v p" "dom (fds v) \<subseteq> dom (fds v')" "dom (inodes v) \<subseteq> dom (inodes v')"
  shows "files_ok v' p"
  using assms unfolding files_ok_def by blast

lemma sys_write_total:
  assumes ok: "vfs_ok v" and f: "files_ok v p" and safe: "call_safe (Write fd bs) p v"
  shows "\<exists>r v'. sys_write fd bs p v = Inr (r, v') \<and> vfs_ok v' \<and> dom (fds v') = dom (fds v) \<and> dom (inodes v') = dom (inodes v)"
proof (cases "get_fd p fd")
  case (Some g)
  obtain d i n where d: "fds v g = Some d" "fd_inode d = Some i" "inodes v i = Some n" "fd_at v g = Inr d" "inode_at v (fd_inode d) = Inr n"
    using fd_node_ok [OF ok get_fd_ok [OF f Some]] by metis
  have tty: "\<And>t. i_class n \<noteq> DevTtyInode t" using safe Some d by (auto simp: on_tty_def)
  show ?thesis
  proof (cases "open_file v g")
    case None
    then have "\<And>x. i_class n \<noteq> TmpFileInode x" using d by (auto simp: open_file_def)
    then have "\<exists>r. inode_write bs g v = Inr (r, v)" using d tty by (cases "i_class n") (auto simp: inode_write_def inode_at_def)
    then show ?thesis using Some ok by (auto simp: sys_write_def)
  next
    case (Some x)
    obtain xs off where x: "x = (xs, off)" by (cases x)
    then have "off + length bs < 2 ^ 64" using safe \<open>get_fd p fd = Some g\<close> Some by simp
    from inode_write_file [OF ok Some [unfolded x] this] show ?thesis using \<open>get_fd p fd = Some g\<close> by (auto simp: sys_write_def)
  qed
qed (use ok in \<open>simp add: sys_write_def\<close>)

lemma lseek_inode: "fd_inode (snd (inode_lseek off whence n d)) = fd_inode d"
  by (cases "i_class n") (auto simp: inode_lseek_def TmpFileInode_lseek_def)

lemma sys_lseek_total:
  assumes ok: "vfs_ok v" and f: "files_ok v p"
  shows "\<exists>r v'. sys_lseek fd off whence p v = Inr (r, v') \<and> vfs_ok v' \<and> dom (fds v') = dom (fds v) \<and> inodes v' = inodes v"
proof (cases "get_fd p fd")
  case (Some g)
  obtain d i n where d: "fds v g = Some d" "fd_inode d = Some i" "inodes v i = Some n" "fd_at v g = Inr d" "inode_at v (fd_inode d) = Inr n"
    using fd_node_ok [OF ok get_fd_ok [OF f Some]] by metis
  obtain r e where e: "inode_lseek (int_of_size off) whence n d = (r, e)" by fastforce
  then have "fd_inode e = Some i" using lseek_inode [of "int_of_size off" whence n d] d(2) by simp
  then have "vfs_ok (set_fd g e v)" using ok d by (intro vfs_ok_set_fd) (auto simp: fd_ok_def)
  moreover have "sys_lseek fd off whence p v = Inr (r, set_fd g e v)" using Some d e by (simp add: sys_lseek_def inode_at_def)
  ultimately show ?thesis using d by (auto simp: set_fd_def)
qed (use ok in \<open>simp add: sys_lseek_def\<close>)

lemma sys_getdents64_total:
  assumes ok: "vfs_ok v" and f: "files_ok v p"
  shows "\<exists>r es v'. sys_getdents64 fd n p v = Inr (r, es, v') \<and> vfs_ok v' \<and> dom (fds v') = dom (fds v) \<and> inodes v' = inodes v"
proof (cases "get_fd p fd")
  case (Some g)
  obtain d i k where d: "fds v g = Some d" "fd_inode d = Some i" "inodes v i = Some k" "fd_at v g = Inr d"
    using fd_node_ok [OF ok get_fd_ok [OF f Some]] by metis
  obtain r es where r: "fs_readdir (cwd_inode p) (fd_path d) [] v = Inr (r, es)" using fs_readdir_total [OF ok] f unfolding files_ok_def by blast
  have "vfs_ok (set_fd g (d\<lparr>fd_offset := x\<rparr>) v)" for x using ok d by (intro vfs_ok_set_fd) (auto simp: fd_ok_def)
  then show ?thesis using Some d r ok by (auto simp: sys_getdents64_def Let_def set_fd_def)
qed (use ok in \<open>simp add: sys_getdents64_def\<close>)

lemma files_cwd: "files_ok v p \<Longrightarrow> \<forall>c. cwd_inode p = Some c \<longrightarrow> c \<in> dom (inodes v)"
  by (simp add: files_ok_def)

lemma sys_chdir_total:
  assumes ok: "vfs_ok v" and f: "files_ok v p"
  shows "\<exists>r p' v'. sys_chdir path p v = Inr (r, p', v') \<and> vfs_ok v' \<and> files_ok v' p'"
  using ok files_cwd [OF f]
proof (cases rule: fs_open_cases [of v "cwd_inode p" path O_RDONLY])
  case (found i n v')
  then have "files_ok v' p" "files_ok v' (p\<lparr>cwd_inode := Some i\<rparr>)" using f by (auto simp: files_ok_def)
  then show ?thesis using found by (simp add: sys_chdir_def fd_at_def inode_at_def)
qed (use ok f in \<open>simp add: sys_chdir_def\<close>)

text \<open>
  C18: In a consistent file system \<^verbatim>\<open>sys_open\<close> returns \<open>- ENOENT\<close> and changes nothing when the path does not resolve. When it does, the result depends on the table of the process: with a null entry,
  which \<^verbatim>\<open>sys_close\<close> leaves behind, \<^verbatim>\<open>alloc_fd\<close> follows the null pointer; otherwise a new descriptor with offset 0 is appended and its index returned, and no entry is ever reused.
\<close>

theorem sys_open_exact:
  assumes "vfs_ok v" "files_ok v p"
  shows "\<exists>r. resolve_path v (cwd_inode p) path = Inr r \<and> (case r of None \<Rightarrow> sys_open path flags p v = Inr (- ENOENT, p, v)
    | Some i \<Rightarrow> if None \<in> set (fd_table p) then sys_open path flags p v = Inl (Fault ''null descriptor'')
        else (\<exists>f v'. sys_open path flags p v = Inr (int (length (fd_table p)), p\<lparr>fd_table := fd_table p @ [Some f]\<rparr>, v') \<and> fds v f = None \<and> inodes v' = inodes v \<and>
          fds v' = (fds v)(f \<mapsto> \<lparr>fd_inode = Some i, fd_path = path, fd_offset = 0, fd_flags = flags\<rparr>)))"
  using assms(1) files_cwd [OF assms(2)]
proof (cases rule: fs_open_cases [of v "cwd_inode p" path flags])
  case (found i n v')
  then have "files_ok v' p" using assms(2) by (auto simp: files_ok_def)
  from alloc_fd_exact [OF found(4) this] show ?thesis using found by (auto simp: sys_open_def)
qed (simp add: sys_open_def)

lemma sys_open_total:
  assumes ok: "vfs_ok v" and f: "files_ok v p" and none: "None \<notin> set (fd_table p)"
  shows "\<exists>r p' v'. sys_open path flags p v = Inr (r, p', v') \<and> vfs_ok v' \<and> files_ok v' p'"
  using ok files_cwd [OF f]
proof (cases rule: fs_open_cases [of v "cwd_inode p" path flags])
  case (found i n v')
  then have "files_ok v' p" "files_ok v' (p\<lparr>fd_table := fd_table p @ [Some (next_obj v)]\<rparr>)" using f by (auto simp: files_ok_def)
  then show ?thesis using alloc_fd_exact [OF found(4)] none found by (simp add: sys_open_def)
qed (use ok f in \<open>simp add: sys_open_def\<close>)

lemma get_node: "vfs_ok v \<Longrightarrow> files_ok v p \<Longrightarrow> get_fd p fd = Some f \<Longrightarrow> \<exists>n. fd_node v f = Inr n"
  using fd_node_ok get_fd_ok by metis

lemma sys_close_total:
  assumes "vfs_ok v" "files_ok v p"
  shows "\<exists>r p'. sys_close fd p v = Inr (r, p') \<and> files_ok v p'"
proof -
  have "Some f \<in> set ((fd_table p)[nat fd := None]) \<Longrightarrow> Some f \<in> set (fd_table p)" for f using set_update_subset_insert [of "fd_table p" "nat fd" None] by auto
  then have "files_ok v (p\<lparr>fd_table := (fd_table p)[nat fd := None]\<rparr>)" using assms(2) unfolding files_ok_def by simp
  then show ?thesis using assms get_node [OF assms, of fd] by (cases "get_fd p fd") (auto simp: sys_close_def)
qed

lemma sys_fchdir_total:
  assumes "vfs_ok v" "files_ok v p"
  shows "\<exists>r p'. sys_fchdir fd p v = Inr (r, p') \<and> files_ok v p'"
proof (cases "get_fd p fd")
  case (Some f)
  obtain d i n where d: "fds v f = Some d" "fd_inode d = Some i" "inodes v i = Some n" "fd_at v f = Inr d" using fd_node_ok [OF assms(1) get_fd_ok [OF assms(2) Some]] by metis
  then have "files_ok v (p\<lparr>cwd_inode := Some i\<rparr>)" using assms(2) by (auto simp: files_ok_def)
  then show ?thesis using Some d assms by (simp add: sys_fchdir_def inode_at_def)
qed (use assms in \<open>simp add: sys_fchdir_def\<close>)


section \<open>The current directory\<close>

lemma extends_located: "extends v v' \<Longrightarrow> located v ns i \<Longrightarrow> located v' ns i"
proof -
  assume e: "extends v v'" and l: "located v ns i"
  have "walk v r ms j \<Longrightarrow> walk v' r ms j" for r ms j
    by (induction rule: walk.induct) (auto intro: walk.intros extends_resolve_name [OF e])
  moreover have "root_of v r \<Longrightarrow> root_of v' r" for r using e by (auto simp: root_of_def extends_def map_le_def dom_def)
  ultimately show ?thesis using l unfolding located_def by blast
qed

text \<open>
  C7: \<^verbatim>\<open>sys_chdir\<close> from a directory at the names \<open>ns\<close>: the call returns 0 exactly when the path leads to a directory, and then \<^verbatim>\<open>sys_getcwd\<close> reports the normalized path, or \<open>- ERANGE\<close> when the buffer is too
  short for it with the end of the string; otherwise the process is unchanged.
\<close>

theorem sys_chdir_getcwd:
  assumes "vfs_ok v" "located v ns c" "cwd_inode p = Some c"
    and cwd: "cwd = CHR ''/'' # join_path (normalize (start_names ns path) (path_tokens path))"
  shows "\<exists>r v'. resolve_path v (Some c) path = Inr r \<and> (case r of None \<Rightarrow> sys_chdir path p v = Inr (- EBADF, p, v)
    | Some i \<Rightarrow> if i_type (the (inodes v i)) \<noteq> DIRECTORY then sys_chdir path p v = Inr (- ENOTDIR, p, v')
        else sys_chdir path p v = Inr (0, p\<lparr>cwd_inode := Some i\<rparr>, v') \<and>
          sys_getcwd sz (p\<lparr>cwd_inode := Some i\<rparr>) v' = Some (Inr (if length cwd + 1 > unat sz then Inl (- ERANGE) else Inr (cwd @ [NUL]))))"
proof -
  have "\<forall>d. Some c = Some d \<longrightarrow> d \<in> dom (inodes v)" using located_inode [OF assms(1,2)] by simp
  with assms(1) show ?thesis
  proof (cases rule: fs_open_cases [of v "Some c" path O_RDONLY])
    case missing
    then show ?thesis using assms(3) by (simp add: sys_chdir_def)
  next
    case (found i n v')
    have "located v (normalize (start_names ns path) (path_tokens path)) i" using resolve_path_located [OF assms(1,2), of path] found(1) by auto
    then have l: "located v' (normalize (start_names ns path) (path_tokens path)) i" by (rule extends_located [OF found(6)])
    have "fs_getcwd v' (Some i) = Some (Inr cwd)" if "i_type n = DIRECTORY" using getcwd_located [OF found(4) l] that found by (simp add: cwd)
    then show ?thesis using found assms(3) by (auto simp: sys_chdir_def sys_getcwd_def fd_at_def inode_at_def)
  qed
qed

section \<open>Open files\<close>

definition small_process :: process where
  "small_process = ex_process\<lparr>fd_table := [Some 3], cwd_inode := Some 1\<rparr>"

lemma small_files: "files_ok small_vfs small_process" "get_fd small_process 0 = Some 3" "open_file small_vfs 3 = Some ([1, 2, 3], 2)" "cwd_inode small_process = Some 1"
  by (auto simp: files_ok_def small_vfs_def small_process_def get_fd_def open_file_def small_file_def vec_list_def numeral_3_eq_3)



text \<open>
  What is written to a file of tmpfs can be read back: after \<^verbatim>\<open>write\<close> and \<^verbatim>\<open>lseek\<close> to the old offset, \<^verbatim>\<open>read\<close> of as many bytes returns exactly them.
\<close>

theorem tmpfs_write_read_roundtrip:
  assumes "vfs_ok v" "get_fd p fd = Some f" "open_file v f = Some (xs, off)" "length xs < 2 ^ 64" "off + length bs < 2 ^ 64" "off < 2 ^ 31"
  shows "\<exists>r r' v1 v2 v3. sys_write fd bs p v = Inr (r, v1) \<and> sys_lseek fd (of_nat off) SEEK_SET p v1 = Inr (r', v2) \<and>
    (\<exists>len. sys_read [] fd (of_nat (length bs)) p v2 = Some (Inr (Returns (len, bs) v3))) \<and> open_file v3 f = Some (overwrite off bs xs, off + length bs)"
proof -
  have "proc_file (fd, p, v) = Some (xs, off)" using assms(1-3) by (simp add: proc_file_def)
  then obtain s1 s2 s3 where s: "proc_put bs (fd, p, v) = Some s1" "proc_seek off s1 = Some s2" "proc_get (length bs) s2 = Some (bs, s3)" "proc_file s3 = Some (overwrite off bs xs, off + length bs)"
    using pf.put_seek_get assms(4-6) by blast
  obtain r v1 where v1: "sys_write fd bs p v = Inr (r, v1)" "s1 = (fd, p, v1)" using s(1) by (auto simp: proc_put_def split: sum.splits)
  obtain r' v2 where v2: "sys_lseek fd (of_nat off) SEEK_SET p v1 = Inr (r', v2)" "s2 = (fd, p, v2)" using s(2) v1(2) by (auto simp: proc_seek_def split: sum.splits)
  obtain len v3 where v3: "sys_read [] fd (of_nat (length bs)) p v2 = Some (Inr (Returns (len, bs) v3))" "s3 = (fd, p, v3)"
    using s(3) v2(2) by (auto simp: proc_get_def split: option.splits sum.splits io.splits)
  have "open_file v3 f = Some (overwrite off bs xs, off + length bs)" using s(4) v3(2) assms(2) by (auto simp: proc_file_def split: if_splits)
  then show ?thesis using v1(1) v2(1) v3(1) by blast
qed

theorem sys_open_exact_witness:
  "\<exists>f v'. sys_open ''/d'' 0 small_process small_vfs = Inr (1, small_process\<lparr>fd_table := [Some 3, Some f]\<rparr>, v')"
proof -
  have "resolve_path small_vfs (Some 1) ''/d'' = Inr (Some 4)"
    by (simp add: small_resolve)
  moreover have "fd_table small_process = [Some 3]" by (simp add: small_process_def)
  ultimately show ?thesis using sys_open_exact [OF small_ok small_files(1), of "''/d''" 0] small_files(4) by auto
qed


end
