(* ===== verification/Crt.thy ===== *)
theory Crt
  imports Kernel_Prelude
begin

text \<open>
  The memory and string functions of the kernel (\<^verbatim>\<open>lib/crt/crt.c\<close>) on a memory of bytes at 64-bit addresses. An access to an address that is not mapped is a \<open>Fault\<close>; a loop over the characters of a
  string that does not end is the value \<open>None\<close>. The lemmas say what each function leaves in the memory and returns; \<open>copied\<close> is the copy of a whole range at once, and \<^verbatim>\<open>memmove\<close> is that however the
  ranges overlap.
\<close>

type_synonym bytes = "u64 \<Rightarrow> u8 option"

definition ld8 :: "bytes \<Rightarrow> u64 \<Rightarrow> u8 kres" where
  "ld8 m a = (case m a of None \<Rightarrow> Inl (Fault ''page fault'') | Some b \<Rightarrow> Inr b)"

definition st8 :: "u64 \<Rightarrow> u8 \<Rightarrow> bytes \<Rightarrow> bytes kres" where
  "st8 a b m = (case m a of None \<Rightarrow> Inl (Fault ''page fault'') | Some _ \<Rightarrow> Inr (m(a \<mapsto> b)))"

section \<open>Memory functions\<close>

definition copy_byte :: "u64 \<Rightarrow> u64 \<Rightarrow> nat \<Rightarrow> bytes \<Rightarrow> bytes kres" where
  "copy_byte dest src i m = kbind (ld8 m (src + of_nat i)) (\<lambda>b. st8 (dest + of_nat i) b m)"

definition memcpy :: "u64 \<Rightarrow> u64 \<Rightarrow> u64 \<Rightarrow> bytes \<Rightarrow> bytes kres" where
  "memcpy dest src n m = kfor 0 (unat n) (copy_byte dest src) m"

text \<open>The second loop runs over \<^verbatim>\<open>i = count, ..., 1\<close> and copies the byte at \<^verbatim>\<open>i - 1\<close>.\<close>

definition memmove :: "u64 \<Rightarrow> u64 \<Rightarrow> u64 \<Rightarrow> bytes \<Rightarrow> bytes kres" where
  "memmove dest src n m = (if dest < src then kfor 0 (unat n) (copy_byte dest src) m
     else kfor 0 (unat n) (\<lambda>j. copy_byte dest src (unat n - j - 1)) m)"

definition memset :: "u64 \<Rightarrow> int \<Rightarrow> u64 \<Rightarrow> bytes \<Rightarrow> bytes kres" where
  "memset dest val n m = kfor 0 (unat n) (\<lambda>i m. st8 (dest + of_nat i) (word_of_int val) m) m"

fun memcmp_loop :: "bytes \<Rightarrow> u64 \<Rightarrow> u64 \<Rightarrow> nat \<Rightarrow> int kres" where
  "memcmp_loop m a b 0 = Inr 0"
| "memcmp_loop m a b (Suc k) = kbind (ld8 m a) (\<lambda>x. kbind (ld8 m b) (\<lambda>y. if x \<noteq> y then Inr (uint x - uint y) else memcmp_loop m (a + 1) (b + 1) k))"

definition memcmp :: "u64 \<Rightarrow> u64 \<Rightarrow> u64 \<Rightarrow> bytes \<Rightarrow> int kres" where
  "memcmp s1 s2 n m = memcmp_loop m s1 s2 (unat n)"

section \<open>String functions\<close>

partial_function (option) strlen_loop :: "bytes \<Rightarrow> u64 \<Rightarrow> u64 \<Rightarrow> u64 kres option" where
  "strlen_loop m str len = (case m (str + len) of None \<Rightarrow> Some (Inl (Fault ''page fault'')) | Some c \<Rightarrow> if c \<noteq> 0 then strlen_loop m str (len + 1) else Some (Inr len))"

definition strlen :: "u64 \<Rightarrow> bytes \<Rightarrow> u64 kres option" where
  "strlen str m = strlen_loop m str 0"

partial_function (option) strcmp_loop :: "bytes \<Rightarrow> u64 \<Rightarrow> u64 \<Rightarrow> int kres option" where
  "strcmp_loop m s1 s2 = (case m s1 of None \<Rightarrow> Some (Inl (Fault ''page fault'')) | Some x \<Rightarrow> (case m s2 of None \<Rightarrow> Some (Inl (Fault ''page fault'')) | Some y \<Rightarrow>
     if x \<noteq> 0 \<and> x = y then strcmp_loop m (s1 + 1) (s2 + 1) else Some (Inr (uint x - uint y))))"

definition strcmp :: "u64 \<Rightarrow> u64 \<Rightarrow> bytes \<Rightarrow> int kres option" where
  "strcmp s1 s2 m = strcmp_loop m s1 s2"

fun strncmp_loop :: "bytes \<Rightarrow> u64 \<Rightarrow> u64 \<Rightarrow> nat \<Rightarrow> int kres" where
  "strncmp_loop m s1 s2 0 = Inr 0"
| "strncmp_loop m s1 s2 (Suc k) = kbind (ld8 m s1) (\<lambda>x. kbind (ld8 m s2) (\<lambda>y. if x \<noteq> y \<or> x = 0 then Inr (uint x - uint y) else strncmp_loop m (s1 + 1) (s2 + 1) k))"

definition strncmp :: "u64 \<Rightarrow> u64 \<Rightarrow> u64 \<Rightarrow> bytes \<Rightarrow> int kres" where
  "strncmp s1 s2 n m = strncmp_loop m s1 s2 (unat n)"

partial_function (option) strcpy_loop :: "u64 \<Rightarrow> u64 \<Rightarrow> bytes \<Rightarrow> bytes kres option" where
  "strcpy_loop d src m = (case m src of None \<Rightarrow> Some (Inl (Fault ''page fault'')) | Some c \<Rightarrow> (case m d of None \<Rightarrow> Some (Inl (Fault ''page fault''))
     | Some _ \<Rightarrow> if c \<noteq> 0 then strcpy_loop (d + 1) (src + 1) (m(d \<mapsto> c)) else Some (Inr (m(d \<mapsto> c)))))"

definition strcpy :: "u64 \<Rightarrow> u64 \<Rightarrow> bytes \<Rightarrow> bytes kres option" where
  "strcpy dest src m = strcpy_loop dest src m"

fun strncpy_loop :: "u64 \<Rightarrow> u64 \<Rightarrow> nat \<Rightarrow> bytes \<Rightarrow> bytes kres" where
  "strncpy_loop dest src 0 m = Inr m"
| "strncpy_loop dest src (Suc k) m = kbind (ld8 m src) (\<lambda>c. if c \<noteq> 0 then kbind (st8 dest c m) (strncpy_loop (dest + 1) (src + 1) k)
     else kfor 0 (Suc k) (\<lambda>i. st8 (dest + of_nat i) 0) m)"

definition strncpy :: "u64 \<Rightarrow> u64 \<Rightarrow> u64 \<Rightarrow> bytes \<Rightarrow> bytes kres" where
  "strncpy dest src n m = strncpy_loop dest src (unat n) m"

definition strcat :: "u64 \<Rightarrow> u64 \<Rightarrow> bytes \<Rightarrow> bytes kres option" where
  "strcat dest src m = (case strlen dest m of None \<Rightarrow> None | Some (Inl e) \<Rightarrow> Some (Inl e) | Some (Inr n) \<Rightarrow> strcpy_loop (dest + n) src m)"

section \<open>Copies\<close>

definition mapped_range :: "bytes \<Rightarrow> u64 \<Rightarrow> nat \<Rightarrow> bool" where
  "mapped_range m a n \<longleftrightarrow> unat a + n \<le> 2 ^ 64 \<and> (\<forall>i < n. m (a + of_nat i) \<noteq> None)"

definition copied :: "u64 \<Rightarrow> u64 \<Rightarrow> nat set \<Rightarrow> bytes \<Rightarrow> bytes" where
  "copied dest src I m a = (if unat (a - dest) \<in> I then m (src + (a - dest)) else m a)"

lemma unat_offset: "unat (a :: u64) + i < 2 ^ 64 \<Longrightarrow> unat (a + of_nat i) = unat a + i"
  by (simp add: unat_word_ariths unat_of_nat)

lemma offset_inj: "(a :: u64) - d = of_nat i \<longleftrightarrow> a = d + of_nat i"
  by (metis add_diff_cancel_left' diff_add_cancel add.commute)

lemma copied_empty [simp]: "copied dest src {} m = m"
  by (rule ext) (simp add: copied_def)

lemma copied_out:
  assumes "i \<notin> I" "i < 2 ^ 64"
  shows "copied dest src I m (dest + of_nat i) = m (dest + of_nat i)"
  using assms by (simp add: copied_def unat_of_nat)

text \<open>One more byte, when the byte to be read has not been overwritten.\<close>

lemma copy_byte_next:
  assumes "m (src + of_nat i) = Some b" "m (dest + of_nat i) \<noteq> None" "i \<notin> I" "i < 2 ^ 64" "unat (src + of_nat i - dest) \<notin> I"
  shows "copy_byte dest src i (copied dest src I m) = Inr (copied dest src (insert i I) m)"
proof -
  have "copied dest src I m (src + of_nat i) = Some b" using assms(1,5) by (simp add: copied_def)
  moreover have "copied dest src I m (dest + of_nat i) \<noteq> None" using assms(2-4) by (simp add: copied_out)
  moreover have "(copied dest src I m)(dest + of_nat i \<mapsto> b) = copied dest src (insert i I) m"
  proof
    fix a
    have "unat (a - dest) = i \<longleftrightarrow> a = dest + of_nat i" using assms(4) offset_inj [of a dest i] by (auto simp: unat_of_nat)
    then show "((copied dest src I m)(dest + of_nat i \<mapsto> b)) a = copied dest src (insert i I) m a" using assms(1) by (auto simp: copied_def)
  qed
  ultimately show ?thesis by (auto simp: copy_byte_def ld8_def st8_def split: option.splits)
qed

text \<open>The place of a byte of the source relative to the destination.\<close>

lemma source_offset:
  fixes src dest :: u64
  assumes "unat src + n \<le> 2 ^ 64" "unat dest + n \<le> 2 ^ 64" "i < n"
  shows "unat (src + of_nat i - dest) = (if unat dest \<le> unat src + i then unat src + i - unat dest else 2 ^ 64 + unat src + i - unat dest)"
proof -
  have s: "unat (src + of_nat i) = unat src + i" using assms by (intro unat_offset) simp
  show ?thesis
  proof (cases "unat dest \<le> unat src + i")
    case True
    then show ?thesis using s by (simp add: unat_sub word_le_nat_alt)
  next
    case False
    then have "unat (src + of_nat i) < unat dest" using s by simp
    then show ?thesis using False s unsigned_less [of dest] by (simp add: unat_sub_if_size word_size)
  qed
qed

lemma copy_up:
  assumes "mapped_range m src n" "mapped_range m dest n" "\<not> (src < dest \<and> unat dest < unat src + n)"
  shows "kfor 0 n (copy_byte dest src) m = Inr (copied dest src {..<n} m)"
proof -
  have "\<exists>s. kfor 0 n (copy_byte dest src) m = Inr s \<and> s = copied dest src {..<n} m"
  proof (rule kfor_rule [where I = "\<lambda>i s. s = copied dest src {..<i} m"])
    fix i t assume i: "0 \<le> i" "i < n" and t: "t = copied dest src {..<i} m"
    obtain b where b: "m (src + of_nat i) = Some b" "m (dest + of_nat i) \<noteq> None" using assms(1,2) i(2) by (auto simp: mapped_range_def)
    have n: "unat src + n \<le> 2 ^ 64" "unat dest + n \<le> 2 ^ 64" using assms(1,2) by (auto simp: mapped_range_def)
    have "unat (src + of_nat i - dest) \<notin> {..<i}" using source_offset [OF n i(2)] assms(3) i(2) n unsigned_less [of dest] by (auto simp: word_less_nat_alt)
    then have "copy_byte dest src i t = Inr (copied dest src (insert i {..<i}) m)" unfolding t using b i(2) n by (intro copy_byte_next) auto
    then show "\<exists>t'. copy_byte dest src i t = Inr t' \<and> t' = copied dest src {..<Suc i} m" by (simp add: lessThan_Suc)
  qed simp_all
  then show ?thesis by simp
qed

lemma copy_down:
  assumes "mapped_range m src n" "mapped_range m dest n" "src \<le> dest"
  shows "kfor 0 n (\<lambda>j. copy_byte dest src (n - j - 1)) m = Inr (copied dest src {..<n} m)"
proof -
  have "\<exists>s. kfor 0 n (\<lambda>j. copy_byte dest src (n - j - 1)) m = Inr s \<and> s = copied dest src {n - n..<n} m"
  proof (rule kfor_rule [where I = "\<lambda>j s. s = copied dest src {n - j..<n} m"])
    fix j t assume j: "0 \<le> j" "j < n" and t: "t = copied dest src {n - j..<n} m"
    let ?i = "n - j - 1"
    have i: "?i < n" using j(2) by simp
    obtain b where b: "m (src + of_nat ?i) = Some b" "m (dest + of_nat ?i) \<noteq> None" using assms(1,2) i by (auto simp: mapped_range_def)
    have n: "unat src + n \<le> 2 ^ 64" "unat dest + n \<le> 2 ^ 64" using assms(1,2) by (auto simp: mapped_range_def)
    have le: "unat src \<le> unat dest" using assms(3) by (simp add: word_le_nat_alt)
    have "unat (src + of_nat ?i - dest) \<notin> {n - j..<n}"
    proof (cases "unat dest \<le> unat src + ?i")
      case True
      then have "unat (src + of_nat ?i - dest) \<le> ?i" using source_offset [OF n i] le by simp
      then show ?thesis using j(2) by auto
    next
      case False
      then have "unat (src + of_nat ?i - dest) \<ge> n" using source_offset [OF n i] n by simp
      then show ?thesis by auto
    qed
    moreover have "?i \<notin> {n - j..<n}" "?i < 2 ^ 64" using j(2) n by auto
    ultimately have "copy_byte dest src ?i t = Inr (copied dest src (insert ?i {n - j..<n}) m)" unfolding t using b by (intro copy_byte_next)
    moreover have "insert ?i {n - j..<n} = {n - Suc j..<n}" using j(2) by auto
    ultimately show "\<exists>t'. copy_byte dest src (n - j - 1) t = Inr t' \<and> t' = copied dest src {n - Suc j..<n} m" by simp
  qed simp_all
  then show ?thesis by (simp add: lessThan_atLeast0)
qed

text \<open>
  C16: \<^verbatim>\<open>memmove\<close> is the copy of the whole range at once, however the two ranges overlap, and leaves the rest of the memory as it is. \<^verbatim>\<open>memcpy\<close> does the same as \<^verbatim>\<open>memmove\<close> unless the destination begins
  inside the source behind its first byte.
\<close>

theorem memmove_memcpy_equiv:
  assumes "mapped_range m src (unat n)" "mapped_range m dest (unat n)"
  shows "memmove dest src n m = Inr (copied dest src {..<unat n} m) \<and>
    (\<not> (src < dest \<and> unat dest < unat src + unat n) \<longrightarrow> memcpy dest src n m = memmove dest src n m)"
proof (cases "dest < src")
  case True
  then have "\<not> (src < dest \<and> unat dest < unat src + unat n)" by auto
  then show ?thesis using True copy_up [OF assms] by (auto simp: memmove_def memcpy_def)
next
  case False
  then show ?thesis using copy_down [OF assms] copy_up [OF assms] by (auto simp: memmove_def memcpy_def)
qed

definition three_bytes :: bytes where
  "three_bytes = (\<lambda>a. if a = 1 then Some 10 else if a = 2 then Some 20 else if a = 3 then Some 30 else None)"

theorem memmove_memcpy_equiv_witness:
  "\<exists>m'. memmove 2 1 2 three_bytes = Inr m' \<and> m' 1 = Some 10 \<and> m' 2 = Some 10 \<and> m' 3 = Some 20 \<and> memcpy 1 2 2 three_bytes = memmove 1 2 2 three_bytes"
proof -
  have u: "unat (2 :: u64) = 2" "\<not> unat (- 1 :: u64) < 2" by (simp_all add: unsigned_minus_1_eq_mask mask_eq_exp_minus_1)
  have "mapped_range three_bytes 1 2" "mapped_range three_bytes 2 2" by (auto simp: mapped_range_def three_bytes_def dest!: less_2_cases)
  then have "memmove 2 1 2 three_bytes = Inr (copied 2 1 {..<2} three_bytes)" "memcpy 1 2 2 three_bytes = memmove 1 2 2 three_bytes"
    using memmove_memcpy_equiv [of three_bytes 1 2 2] memmove_memcpy_equiv [of three_bytes 2 2 1] unfolding u(1) by simp_all
  then show ?thesis using u(2) by (simp add: copied_def three_bytes_def)
qed

section \<open>Filling and comparing\<close>

lemma memset_fills:
  assumes "mapped_range m dest (unat n)"
  shows "memset dest val n m = Inr (\<lambda>a. if unat (a - dest) < unat n then Some (word_of_int val) else m a)"
proof -
  let ?f = "\<lambda>i a. if unat (a - dest) < i then Some (word_of_int val) else m a"
  have "\<exists>s. kfor 0 (unat n) (\<lambda>i m. st8 (dest + of_nat i) (word_of_int val) m) m = Inr s \<and> s = ?f (unat n)"
  proof (rule kfor_rule [where I = "\<lambda>i s. s = ?f i"])
    fix i t assume i: "0 \<le> i" "i < unat n" and t: "t = ?f i"
    have "unat n < 2 ^ LENGTH(64)" by (rule unsigned_less)
    then have lt: "i < 2 ^ 64" using i(2) by simp
    have "t (dest + of_nat i) \<noteq> None" using assms i(2) lt by (auto simp: t mapped_range_def unat_of_nat)
    moreover have "t(dest + of_nat i \<mapsto> word_of_int val) = ?f (Suc i)"
    proof
      fix a
      have "unat (a - dest) = i \<longleftrightarrow> a = dest + of_nat i" using lt offset_inj [of a dest i] by (auto simp: unat_of_nat)
      then show "(t(dest + of_nat i \<mapsto> word_of_int val)) a = ?f (Suc i) a" by (auto simp: t less_Suc_eq)
    qed
    ultimately show "\<exists>t'. st8 (dest + of_nat i) (word_of_int val) t = Inr t' \<and> t' = ?f (Suc i)" by (auto simp: st8_def split: option.splits)
  qed simp_all
  then show ?thesis by (simp add: memset_def)
qed

fun range_is :: "bytes \<Rightarrow> u64 \<Rightarrow> u8 list \<Rightarrow> bool" where
  "range_is m a [] = True"
| "range_is m a (x # xs) = (m a = Some x \<and> range_is m (a + 1) xs)"

lemma memcmp_loop_equal:
  "range_is m a xs \<Longrightarrow> range_is m b ys \<Longrightarrow> length xs = length ys \<Longrightarrow> \<exists>r. memcmp_loop m a b (length xs) = Inr r \<and> (r = 0 \<longleftrightarrow> xs = ys)"
proof (induction xs arbitrary: a b ys)
  case (Cons x xs)
  then obtain y ys' where y: "ys = y # ys'" by (cases ys) auto
  show ?case
  proof (cases "x = y")
    case True
    then show ?thesis using Cons y by (simp add: ld8_def)
  next
    case False
    then show ?thesis using Cons.prems y by (auto simp: ld8_def word_uint_eq_iff [symmetric])
  qed
qed simp

section \<open>Strings\<close>

text \<open>The characters of a string and its end in the memory.\<close>

fun cstr :: "bytes \<Rightarrow> u64 \<Rightarrow> u8 list \<Rightarrow> bool" where
  "cstr m a [] = (m a = Some 0)"
| "cstr m a (c # s) = (m a = Some c \<and> c \<noteq> 0 \<and> cstr m (a + 1) s)"

lemma cstr_upd: "cstr m a s \<Longrightarrow> (\<forall>i \<le> length s. d \<noteq> a + of_nat i) \<Longrightarrow> cstr (m(d \<mapsto> b)) a s"
proof (induction s arbitrary: a)
  case (Cons c s)
  have "d \<noteq> a + 1 + of_nat i" if "i \<le> length s" for i using Cons.prems(2) that by (auto simp: add.assoc dest: spec [of _ "Suc i"])
  then show ?case using Cons by (auto dest: spec [of _ 0])
qed auto

lemma strlen_loop_ok: "cstr m (str + len) s \<Longrightarrow> strlen_loop m str len = Some (Inr (len + of_nat (length s)))"
proof (induction s arbitrary: len)
  case Nil
  then show ?case by (subst strlen_loop.simps) simp
next
  case (Cons c s)
  then have "strlen_loop m str (len + 1) = Some (Inr (len + 1 + of_nat (length s)))" by (simp add: add.assoc)
  then show ?case using Cons.prems by (subst strlen_loop.simps) (simp add: add.assoc)
qed

lemma strlen_exact: "cstr m a s \<Longrightarrow> strlen a m = Some (Inr (of_nat (length s)))"
  using strlen_loop_ok [of m a 0 s] by (simp add: strlen_def)

lemma strcmp_equal: "cstr m a s \<Longrightarrow> cstr m b t \<Longrightarrow> \<exists>r. strcmp a b m = Some (Inr r) \<and> (r = 0 \<longleftrightarrow> s = t)"
  unfolding strcmp_def
proof (induction s arbitrary: a b t)
  case Nil
  then show ?case by (cases t; subst strcmp_loop.simps) (auto simp: unsigned_eq_0_iff)
next
  case (Cons c s)
  show ?case
  proof (cases t)
    case Nil
    then show ?thesis using Cons.prems by (subst strcmp_loop.simps) (auto simp: unsigned_eq_0_iff)
  next
    case (Cons d t')
    then show ?thesis using Cons.prems Cons.IH [of "a + 1" "b + 1" t'] \<open>cstr m a (c # s)\<close> by (subst strcmp_loop.simps) (auto simp: word_uint_eq_iff [symmetric])
  qed
qed

lemma strcpy_loop_ok:
  assumes "cstr m src s" "\<forall>i \<le> length s. m (d + of_nat i) \<noteq> None" "\<forall>i \<le> length s. \<forall>j \<le> length s. d + of_nat i \<noteq> src + of_nat j" "length s < 2 ^ 64"
  shows "\<exists>m'. strcpy_loop d src m = Some (Inr m') \<and> cstr m' d s \<and> (\<forall>a. (\<forall>i \<le> length s. a \<noteq> d + of_nat i) \<longrightarrow> m' a = m a)"
  using assms
proof (induction s arbitrary: m d src)
  case Nil
  then show ?case by (subst strcpy_loop.simps) (auto split: option.splits)
next
  case (Cons c s)
  let ?m = "m(d \<mapsto> c)"
  have src: "m src = Some c" "c \<noteq> 0" "m d \<noteq> None" using Cons.prems(1,2) by (auto dest: spec [of _ 0])
  have shift: "d + 1 + of_nat i = d + of_nat (Suc i)" "src + 1 + of_nat i = src + of_nat (Suc i)" for i by (simp_all add: add.assoc)
  have "d \<noteq> src + 1 + of_nat i" if "i \<le> length s" for i using Cons.prems(3) [rule_format, of 0 "Suc i"] that unfolding shift by simp
  then have "cstr ?m (src + 1) s" using Cons.prems(1) by (intro cstr_upd) simp_all
  moreover have "\<forall>i \<le> length s. ?m (d + 1 + of_nat i) \<noteq> None" using Cons.prems(2) unfolding shift by auto
  moreover have "\<forall>i \<le> length s. \<forall>j \<le> length s. d + 1 + of_nat i \<noteq> src + 1 + of_nat j" using Cons.prems(3) unfolding shift by auto
  moreover have "length s < 2 ^ 64" using Cons.prems(4) by simp
  ultimately obtain m' where m': "strcpy_loop (d + 1) (src + 1) ?m = Some (Inr m')" "cstr m' (d + 1) s" "\<forall>a. (\<forall>i \<le> length s. a \<noteq> d + 1 + of_nat i) \<longrightarrow> m' a = ?m a"
    using Cons.IH by blast
  have "d \<noteq> d + 1 + of_nat i" if "i \<le> length s" for i
  proof
    assume "d = d + 1 + of_nat i"
    then have "(of_nat (Suc i) :: u64) = 0" unfolding shift by (metis add_cancel_right_right)
    then have "2 ^ 64 dvd Suc i" by (simp only: word_of_nat_eq_0_iff) simp
    then have "2 ^ 64 \<le> Suc i" by (rule dvd_imp_le) simp
    then show False using that Cons.prems(4) by simp
  qed
  then have "m' d = Some c" using m'(3) by simp
  moreover have "m' a = m a" if "\<forall>i \<le> length (c # s). a \<noteq> d + of_nat i" for a
  proof -
    have "a \<noteq> d" "\<forall>i \<le> length s. a \<noteq> d + 1 + of_nat i" using that [rule_format, of 0] that unfolding shift by auto
    then show ?thesis using m'(3) by simp
  qed
  ultimately show ?case using m'(1,2) src by (subst strcpy_loop.simps) auto
qed

end
