(* ===== verification/Packed.thy ===== *)
theory Packed
  imports Crt
begin

text \<open>
  Packed structures in memory, for the components that read tables other programs made (\<open>Exec\<close>, \<open>Acpi\<close>): the members of a structure with their sizes, in order, and little-endian numbers of several bytes.
  A table that holds certain bytes (\<open>range_is\<close>) has members of known values.
\<close>

unbundle bit_operations_syntax

fun field_at :: "string \<Rightarrow> (string \<times> nat) list \<Rightarrow> nat \<times> nat" where
  "field_at f [] = (0, 0)"
| "field_at f ((g, n) # fs) = (if f = g then (0, n) else (let (off, k) = field_at f fs in (n + off, k)))"

text \<open>A little-endian number of \<open>k\<close> bytes.\<close>

fun ld_le :: "nat \<Rightarrow> bytes \<Rightarrow> u64 \<Rightarrow> u64 kres" where
  "ld_le 0 m a = Inr 0"
| "ld_le (Suc k) m a = kbind (ld8 m a) (\<lambda>b. kbind (ld_le k m (a + 1)) (\<lambda>w. Inr (ucast b OR push_bit 8 w)))"

definition ld_field :: "(string \<times> nat) list \<Rightarrow> string \<Rightarrow> bytes \<Rightarrow> u64 \<Rightarrow> u64 kres" where
  "ld_field layout f m a = (let (off, k) = field_at f layout in ld_le k m (a + of_nat off))"

fun le_value :: "u8 list \<Rightarrow> u64" where
  "le_value [] = 0"
| "le_value (b # bs) = ucast b OR push_bit 8 (le_value bs)"

lemma range_is_append: "range_is m a (xs @ ys) \<longleftrightarrow> range_is m a xs \<and> range_is m (a + of_nat (length xs)) ys"
  by (induction xs arbitrary: a) (auto simp: add.assoc)

lemma ld_le_value: "range_is m a bs \<Longrightarrow> ld_le (length bs) m a = Inr (le_value bs)"
  by (induction bs arbitrary: a) (simp_all add: ld8_def)

lemma range_is_part:
  assumes "range_is m a bs" "i + k \<le> length bs"
  shows "range_is m (a + of_nat i) (take k (drop i bs))"
proof -
  have "bs = take i bs @ take k (drop i bs) @ drop k (drop i bs)" by (simp only: append_take_drop_id)
  then have "range_is m a (take i bs @ take k (drop i bs) @ drop k (drop i bs))" using assms(1) by simp
  moreover have "length (take i bs) = i" using assms(2) by simp
  ultimately show ?thesis using range_is_append [of m a "take i bs"] range_is_append [of m "a + of_nat i" "take k (drop i bs)"] by simp
qed

lemma ld_field_value:
  assumes "range_is m a bs" "field_at f L = (off, k)" "off + k \<le> length bs"
  shows "ld_field L f m a = Inr (le_value (take k (drop off bs)))"
proof -
  have "length (take k (drop off bs)) = k" using assms(3) by simp
  then show ?thesis using ld_le_value [OF range_is_part [OF assms(1,3)]] assms(2) by (simp add: ld_field_def)
qed

text \<open>The memory after the bytes \<open>bs\<close> were written at \<open>a\<close>.\<close>

definition stored :: "u64 \<Rightarrow> u8 list \<Rightarrow> bytes \<Rightarrow> bytes" where
  "stored a bs m = (\<lambda>x. if unat (x - a) < length bs then Some (bs ! unat (x - a)) else m x)"

lemma range_is_stored: "length (pre @ ys) \<le> 2 ^ 64 \<Longrightarrow> range_is (stored a (pre @ ys) m) (a + of_nat (length pre)) ys"
proof (induction ys arbitrary: pre)
  case (Cons y ys)
  then have "unat (of_nat (length pre) :: u64) = length pre" by (simp add: unsigned_of_nat take_bit_nat_eq_self)
  then have "stored a (pre @ y # ys) m (a + of_nat (length pre)) = Some y" by (simp add: stored_def)
  then show ?case using Cons.IH [of "pre @ [y]"] Cons.prems by (simp add: ac_simps)
qed simp

end
