(* ===== verification/Locks.thy ===== *)
theory Locks
  imports Kernel_Prelude
begin

text \<open>
  The locks of the kernel (\<^verbatim>\<open>include/exclusive/katomic.hpp\<close>, \<^verbatim>\<open>kspinlock.hpp\<close>, \<^verbatim>\<open>kspinlock_irqsave.hpp\<close>, \<^verbatim>\<open>kmutex.hpp\<close>, \<^verbatim>\<open>lib/exclusive/kmutex.cpp\<close>). A processor inside \<^verbatim>\<open>lock\<close> or \<^verbatim>\<open>unlock\<close> is at a
  place of the code that names its next action, one access to shared data per step, and the processors take their steps in any order. The atomic operations are sequentially consistent, as the
  code asks for.

  The spin locks exclude each other's holders and give each processor back the interrupt flag and the preemption flag it had. The mutex excludes its holders too, but a thread that finds it
  taken can miss the wake-up and wait for a mutex that is free.
\<close>

unbundle bit_operations_syntax

section \<open>Atomic integers\<close>

text \<open>\<^verbatim>\<open>katomic<int>\<close>: the result of an operation and the new value.\<close>

type_synonym katomic = "32 word"

definition katomic_load :: "katomic \<Rightarrow> 32 word" where "katomic_load a = a"
definition katomic_exchange :: "32 word \<Rightarrow> katomic \<Rightarrow> 32 word \<times> katomic" where "katomic_exchange val a = (a, val)"
definition katomic_store :: "32 word \<Rightarrow> katomic \<Rightarrow> katomic" where "katomic_store val a = val"

section \<open>Spin locks\<close>

datatype place = Out | Lock_flags | Lock_preempt | Lock_cli | Lock_disable | Spin_load | Spin_exchange | Save_flags | Save_preempt
  | Critical | Unlock_flags | Unlock_preempt | Unlock_store | Unlock_enable | Unlock_restore

record lock_cpu =
  cpu_rflags :: u64
  cpu_preemption :: bool
  at_place :: place
  local_rflags :: u64
  local_preemption :: bool

record spinlock =
  l_counter :: katomic
  l_rflags :: u64
  l_preemption :: bool

definition spinlock_init :: "u64 \<Rightarrow> bool \<Rightarrow> spinlock" where
  "spinlock_init raw_rflags raw_preemption = \<lparr>l_counter = 1, l_rflags = raw_rflags, l_preemption = raw_preemption\<rparr>"

definition IF_BIT :: u64 where "IF_BIT = push_bit 9 1"

text \<open>The next action of a processor. The two classes differ in that \<^verbatim>\<open>kspinlock\<close> leaves the flags register alone, \<open>irq = False\<close>.\<close>

definition spin_step :: "bool \<Rightarrow> lock_cpu \<Rightarrow> spinlock \<Rightarrow> lock_cpu \<times> spinlock" where
  "spin_step irq c l = (case at_place c of
     Out \<Rightarrow> (c\<lparr>at_place := (if irq then Lock_flags else Lock_preempt)\<rparr>, l)
   | Lock_flags \<Rightarrow> (c\<lparr>local_rflags := cpu_rflags c, at_place := Lock_preempt\<rparr>, l)
   | Lock_preempt \<Rightarrow> (c\<lparr>local_preemption := cpu_preemption c, at_place := (if irq then Lock_cli else Lock_disable)\<rparr>, l)
   | Lock_cli \<Rightarrow> (c\<lparr>cpu_rflags := cpu_rflags c AND NOT IF_BIT, at_place := Lock_disable\<rparr>, l)
   | Lock_disable \<Rightarrow> (c\<lparr>cpu_preemption := False, at_place := Spin_load\<rparr>, l)
   | Spin_load \<Rightarrow> (if katomic_load (l_counter l) = 0 then c else c\<lparr>at_place := Spin_exchange\<rparr>, l)
   | Spin_exchange \<Rightarrow> (let (old, n) = katomic_exchange 0 (l_counter l) in
       (c\<lparr>at_place := (if old = 1 then (if irq then Save_flags else Save_preempt) else Spin_load)\<rparr>, l\<lparr>l_counter := n\<rparr>))
   | Save_flags \<Rightarrow> (c\<lparr>at_place := Save_preempt\<rparr>, l\<lparr>l_rflags := local_rflags c\<rparr>)
   | Save_preempt \<Rightarrow> (c\<lparr>at_place := Critical\<rparr>, l\<lparr>l_preemption := local_preemption c\<rparr>)
   | Critical \<Rightarrow> (c\<lparr>at_place := (if irq then Unlock_flags else Unlock_preempt)\<rparr>, l)
   | Unlock_flags \<Rightarrow> (c\<lparr>local_rflags := l_rflags l, at_place := Unlock_preempt\<rparr>, l)
   | Unlock_preempt \<Rightarrow> (c\<lparr>local_preemption := l_preemption l, at_place := Unlock_store\<rparr>, l)
   | Unlock_store \<Rightarrow> (c\<lparr>at_place := Unlock_enable\<rparr>, l\<lparr>l_counter := katomic_store 1 (l_counter l)\<rparr>)
   | Unlock_enable \<Rightarrow> (c\<lparr>cpu_preemption := (if local_preemption c then True else cpu_preemption c), at_place := (if irq then Unlock_restore else Out)\<rparr>, l)
   | Unlock_restore \<Rightarrow> (c\<lparr>cpu_rflags := local_rflags c, at_place := Out\<rparr>, l))"

definition kspinlock_step :: "lock_cpu \<Rightarrow> spinlock \<Rightarrow> lock_cpu \<times> spinlock" where
  "kspinlock_step = spin_step False"

definition kspinlock_irqsave_step :: "lock_cpu \<Rightarrow> spinlock \<Rightarrow> lock_cpu \<times> spinlock" where
  "kspinlock_irqsave_step = spin_step True"

text \<open>
  The states that a lock and its processors can get into. Outside of the lock a processor may set its flags as it likes. \<open>e c\<close> records the flags processor \<open>c\<close> had when it last called \<^verbatim>\<open>lock\<close>.
\<close>

inductive spin_reach :: "bool \<Rightarrow> spinlock \<Rightarrow> (nat \<Rightarrow> lock_cpu) \<Rightarrow> (nat \<Rightarrow> u64 \<times> bool) \<Rightarrow> bool" for irq where
  start: "(\<And>c. at_place (cs c) = Out) \<Longrightarrow> spin_reach irq (spinlock_init f b) cs e"
| step: "spin_reach irq l cs e \<Longrightarrow> spin_step irq (cs c) l = (k, l') \<Longrightarrow>
    spin_reach irq l' (cs(c := k)) (if at_place (cs c) = Out then e(c := (cpu_rflags (cs c), cpu_preemption (cs c))) else e)"
| outside: "spin_reach irq l cs e \<Longrightarrow> at_place (cs c) = Out \<Longrightarrow> spin_reach irq l (cs(c := (cs c)\<lparr>cpu_rflags := f, cpu_preemption := b\<rparr>)) e"

definition holds :: "lock_cpu \<Rightarrow> bool" where
  "holds c \<longleftrightarrow> at_place c \<in> {Save_flags, Save_preempt, Critical, Unlock_flags, Unlock_preempt, Unlock_store}"

text \<open>What is known of a processor at its place, and of the lock while the processor holds it.\<close>

definition masked :: "bool \<Rightarrow> u64 \<Rightarrow> u64" where
  "masked irq f = (if irq then f AND NOT IF_BIT else f)"

definition place_ok :: "bool \<Rightarrow> spinlock \<Rightarrow> lock_cpu \<Rightarrow> u64 \<times> bool \<Rightarrow> bool" where
  "place_ok irq l c e = (let f = fst e; b = snd e; F = (irq \<longrightarrow> local_rflags c = f); B = (local_preemption c = b);
       before = (cpu_rflags c = f \<and> cpu_preemption c = b); inside = (cpu_rflags c = masked irq f \<and> \<not> cpu_preemption c) in
     (case at_place c of
       Out \<Rightarrow> True
     | Lock_flags \<Rightarrow> irq \<and> before
     | Lock_preempt \<Rightarrow> before \<and> F
     | Lock_cli \<Rightarrow> irq \<and> before \<and> F \<and> B
     | Lock_disable \<Rightarrow> cpu_rflags c = masked irq f \<and> F \<and> B
     | Spin_load \<Rightarrow> inside \<and> F \<and> B
     | Spin_exchange \<Rightarrow> inside \<and> F \<and> B
     | Save_flags \<Rightarrow> inside \<and> F \<and> B
     | Save_preempt \<Rightarrow> inside \<and> B \<and> (irq \<longrightarrow> l_rflags l = f)
     | Critical \<Rightarrow> inside \<and> l_preemption l = b \<and> (irq \<longrightarrow> l_rflags l = f)
     | Unlock_flags \<Rightarrow> inside \<and> l_preemption l = b \<and> (irq \<longrightarrow> l_rflags l = f)
     | Unlock_preempt \<Rightarrow> inside \<and> F \<and> l_preemption l = b
     | Unlock_store \<Rightarrow> inside \<and> F \<and> B
     | Unlock_enable \<Rightarrow> inside \<and> F \<and> B
     | Unlock_restore \<Rightarrow> irq \<and> cpu_rflags c = masked irq f \<and> cpu_preemption c = b \<and> F))"

definition spin_inv :: "bool \<Rightarrow> spinlock \<Rightarrow> (nat \<Rightarrow> lock_cpu) \<Rightarrow> (nat \<Rightarrow> u64 \<times> bool) \<Rightarrow> bool" where
  "spin_inv irq l cs e \<longleftrightarrow> (\<forall>c. place_ok irq l (cs c) (e c)) \<and> (\<forall>c d. holds (cs c) \<longrightarrow> holds (cs d) \<longrightarrow> c = d) \<and>
     l_counter l = (if \<exists>c. holds (cs c) then 0 else 1)"

text \<open>A processor that does not hold the lock does not depend on what is stored in it.\<close>

lemma place_ok_other: "\<not> holds c \<Longrightarrow> place_ok irq l c e = place_ok irq l' c e"
  by (cases "at_place c") (simp_all add: place_ok_def holds_def)

lemma place_ok_counter [simp]: "place_ok irq (l\<lparr>l_counter := n\<rparr>) c e = place_ok irq l c e"
  by (cases "at_place c") (simp_all add: place_ok_def)

text \<open>What one step does: the processor's place stays right, and the lock changes hands only where the counter does.\<close>

lemma spin_step_place:
  assumes "place_ok irq l c e"
  shows "place_ok irq (snd (spin_step irq c l)) (fst (spin_step irq c l)) (if at_place c = Out then (cpu_rflags c, cpu_preemption c) else e)"
  using assms by (cases "at_place c"; simp add: spin_step_def place_ok_def masked_def katomic_exchange_def Let_def; auto)

lemma spin_step_holds:
  assumes "spin_step irq c l = (k, l')"
  shows "holds k \<longleftrightarrow> (holds c \<and> at_place c \<noteq> Unlock_store) \<or> (at_place c = Spin_exchange \<and> l_counter l = 1)"
    and "l_counter l' = (if at_place c = Spin_exchange then 0 else if at_place c = Unlock_store then 1 else l_counter l)"
    and "\<not> holds c \<Longrightarrow> at_place c \<noteq> Spin_exchange \<Longrightarrow> l' = l"
    and "at_place c = Spin_exchange \<Longrightarrow> l' = l\<lparr>l_counter := 0\<rparr>"
  using assms
  by (cases "at_place c"; auto simp: spin_step_def holds_def katomic_exchange_def katomic_store_def Let_def split: if_splits)+

lemma spin_inv_step:
  assumes inv: "spin_inv irq l cs e" and s: "spin_step irq (cs c) l = (k, l')"
  shows "spin_inv irq l' (cs(c := k)) (if at_place (cs c) = Out then e(c := (cpu_rflags (cs c), cpu_preemption (cs c))) else e)"
proof -
  let ?e = "if at_place (cs c) = Out then e(c := (cpu_rflags (cs c), cpu_preemption (cs c))) else e"
  have p: "\<And>d. place_ok irq l (cs d) (e d)" and u: "\<And>d d'. holds (cs d) \<Longrightarrow> holds (cs d') \<Longrightarrow> d = d'" and n: "l_counter l = (if \<exists>d. holds (cs d) then 0 else 1)"
    using inv by (auto simp: spin_inv_def)
  note h = spin_step_holds [OF s]
  have pc: "place_ok irq l' k (?e c)" using spin_step_place [OF p [of c]] s by (auto split: if_splits)
  have pd: "place_ok irq l' (cs d) (?e d)" if d: "d \<noteq> c" for d
  proof (cases "holds (cs d)")
    case True
    then have "\<not> holds (cs c)" using u d by blast
    then have "l' = l \<or> l' = l\<lparr>l_counter := 0\<rparr>" using h(3,4) by blast
    then show ?thesis using p [of d] d by auto
  next
    case False
    then show ?thesis using place_ok_other [OF False, of irq l' _ l] p [of d] d by simp
  qed
  have "place_ok irq l' ((cs(c := k)) d) (?e d)" for d
    by (cases "d = c") (use pc in \<open>simp only: fun_upd_same\<close>, use pd [of d] in \<open>simp only: fun_upd_other not_False_eq_True simp_thms\<close>)
  moreover have "holds ((cs(c := k)) d) \<Longrightarrow> holds ((cs(c := k)) d') \<Longrightarrow> d = d'" for d d'
    using u n h(1) by (auto split: if_splits)
  moreover have "l_counter l' = (if \<exists>d. holds ((cs(c := k)) d) then 0 else 1)"
  proof (cases "at_place (cs c) = Unlock_store")
    case True
    then have c: "holds (cs c)" by (simp add: holds_def)
    then have "\<not> holds ((cs(c := k)) d)" for d using u [OF c, of d] h(1) True by auto
    then show ?thesis using h(2) True by simp
  next
    case False
    show ?thesis using n h(1,2) False by (auto split: if_splits)
  qed
  ultimately show ?thesis unfolding spin_inv_def by blast
qed

lemma spin_reach_inv: "spin_reach irq l cs e \<Longrightarrow> spin_inv irq l cs e"
proof (induction rule: spin_reach.induct)
  case (start cs f b e)
  then show ?case by (simp add: spin_inv_def place_ok_def holds_def spinlock_init_def Let_def)
next
  case (outside l cs e c b f)
  have "holds ((cs(c := (cs c)\<lparr>cpu_rflags := f, cpu_preemption := b\<rparr>)) d) = holds (cs d)" for d by (simp add: holds_def)
  moreover have "place_ok irq l ((cs(c := (cs c)\<lparr>cpu_rflags := f, cpu_preemption := b\<rparr>)) d) (e d)" for d using outside by (auto simp: spin_inv_def place_ok_def Let_def)
  ultimately show ?case using outside.IH unfolding spin_inv_def by simp
qed (rule spin_inv_step)

text \<open>
  C9: The spin locks. In every state that any number of processors can get into by locking and unlocking in any order, at most one of them is between the return of \<^verbatim>\<open>lock\<close> and the release in \<^verbatim>\<open>unlock\<close>;
  while it is there it is not preempted, and with \<^verbatim>\<open>kspinlock_irqsave\<close> its interrupts are off; and when it leaves \<^verbatim>\<open>unlock\<close> its flags are those it had when it called \<^verbatim>\<open>lock\<close>, although the lock keeps
  them in members that all processors write.
\<close>

theorem spinlock_correct:
  assumes "spin_reach irq l cs e"
  shows "(\<forall>c d. at_place (cs c) = Critical \<longrightarrow> at_place (cs d) = Critical \<longrightarrow> c = d) \<and>
    (\<forall>c. at_place (cs c) = Critical \<longrightarrow> \<not> cpu_preemption (cs c) \<and> (irq \<longrightarrow> cpu_rflags (cs c) AND IF_BIT = 0)) \<and>
    (\<forall>c k l'. at_place (cs c) \<noteq> Out \<longrightarrow> spin_step irq (cs c) l = (k, l') \<longrightarrow> at_place k = Out \<longrightarrow> (cpu_rflags k, cpu_preemption k) = e c)"
proof -
  have p: "place_ok irq l (cs c) (e c)" and u: "holds (cs c) \<Longrightarrow> holds (cs d) \<Longrightarrow> c = d" for c d using spin_reach_inv [OF assms] by (auto simp: spin_inv_def)
  have "\<not> cpu_preemption (cs c) \<and> (irq \<longrightarrow> cpu_rflags (cs c) AND IF_BIT = 0)" if "at_place (cs c) = Critical" for c
    using p [of c] that by (auto simp: place_ok_def masked_def Let_def and.assoc)
  moreover have "(cpu_rflags k, cpu_preemption k) = e c" if "at_place (cs c) \<noteq> Out" "spin_step irq (cs c) l = (k, l')" "at_place k = Out" for c k l'
    using p [of c] that by (cases "at_place (cs c)") (auto simp: spin_step_def place_ok_def masked_def katomic_exchange_def Let_def prod_eq_iff split: if_splits)
  ultimately show ?thesis using u by (auto simp: holds_def)
qed

definition free_cpu :: lock_cpu where
  "free_cpu = \<lparr>cpu_rflags = 0x202, cpu_preemption = True, at_place = Out, local_rflags = 0, local_preemption = False\<rparr>"

text \<open>The steps of one processor alone.\<close>

lemma spin_reach_run:
  assumes "spin_reach irq l cs e"
  shows "\<exists>e'. spin_reach irq (snd (((\<lambda>(k, l). spin_step irq k l) ^^ n) (cs c, l))) (cs(c := fst (((\<lambda>(k, l). spin_step irq k l) ^^ n) (cs c, l)))) e'"
proof (induction n)
  case 0
  then show ?case using assms by auto
next
  case (Suc n)
  obtain k' l' where kl: "((\<lambda>(k, l). spin_step irq k l) ^^ n) (cs c, l) = (k', l')" by (cases "((\<lambda>(k, l). spin_step irq k l) ^^ n) (cs c, l)")
  obtain k'' l'' where s: "spin_step irq k' l' = (k'', l'')" by (cases "spin_step irq k' l'")
  obtain e' where "spin_reach irq l' (cs(c := k')) e'" using Suc.IH by (auto simp: kl simp del: fun_upd_apply)
  from spin_reach.step [OF this, of c k'' l''] s have "\<exists>e'. spin_reach irq l'' (cs(c := k'')) e'" by (auto simp del: fun_upd_apply simp: fun_upd_same)
  then show ?case by (simp add: kl s del: fun_upd_apply)
qed

text \<open>Processor 0 runs through \<^verbatim>\<open>lock\<close>, after which it has the lock and processor 1 does not.\<close>

theorem spinlock_correct_witness:
  "\<exists>l cs e. spin_reach True l cs e \<and> at_place (cs 0) = Critical \<and> cpu_rflags (cs 0) AND IF_BIT = 0 \<and> \<not> cpu_preemption (cs 0) \<and> at_place (cs 1) \<noteq> Critical"
proof -
  let ?run = "((\<lambda>(k, l). spin_step True k l) ^^ 9) (free_cpu, spinlock_init 0 False)"
  have "spin_reach True (spinlock_init 0 False) (\<lambda>_. free_cpu) (\<lambda>_. (0, False))" by (rule spin_reach.start) (simp add: free_cpu_def)
  from spin_reach_run [OF this, of 9 0] obtain e where r: "spin_reach True (snd ?run) ((\<lambda>_. free_cpu)(0 := fst ?run)) e" by auto
  have "at_place (fst ?run) = Critical" by (simp add: numeral_nat spin_step_def free_cpu_def spinlock_init_def katomic_load_def katomic_exchange_def)
  then have c: "at_place (((\<lambda>_. free_cpu)(0 := fst ?run)) 0) = Critical" by (simp only: fun_upd_same)
  have d: "at_place (((\<lambda>_. free_cpu)(0 := fst ?run)) (1 :: nat)) \<noteq> Critical" by (simp add: free_cpu_def)
  show ?thesis using r c d spinlock_correct [OF r] by blast
qed

text \<open>A processor that waits gets a lock that nobody holds with its next two steps.\<close>

lemma spin_gets_free_lock:
  assumes "spin_reach irq l cs e" "\<forall>d. \<not> holds (cs d)" "at_place (cs c) = Spin_load" "spin_step irq (cs c) l = (k1, l1)" "spin_step irq k1 l1 = (k2, l2)"
  shows "holds k2"
proof -
  have "l_counter l = 1" using spin_reach_inv [OF assms(1)] assms(2) by (simp add: spin_inv_def)
  then show ?thesis using assms(3-5) by (cases irq) (auto simp: spin_step_def katomic_load_def katomic_exchange_def holds_def)
qed

section \<open>The mutex\<close>

text \<open>
  A thread inside \<^verbatim>\<open>kmutex::lock\<close> tries the exchange, and when it fails calls \<^verbatim>\<open>yield_mutex\<close>, which blocks it; \<^verbatim>\<open>unlock\<close> stores 1 and calls \<^verbatim>\<open>wake_mutex\<close>, which makes every thread that is blocked on the mutex
  runnable. A blocked thread does nothing until then.
\<close>

datatype mplace = M_out | M_exchange | M_yield | M_blocked | M_critical | M_store | M_wake

definition kmutex_step :: "nat \<Rightarrow> katomic \<Rightarrow> (nat \<Rightarrow> mplace) \<Rightarrow> katomic \<times> (nat \<Rightarrow> mplace)" where
  "kmutex_step t m ts = (case ts t of
     M_out \<Rightarrow> (m, ts(t := M_exchange))
   | M_exchange \<Rightarrow> (let (old, n) = katomic_exchange 0 m in (n, ts(t := (if old = 1 then M_critical else M_yield))))
   | M_yield \<Rightarrow> (m, ts(t := M_blocked))
   | M_blocked \<Rightarrow> (m, ts)
   | M_critical \<Rightarrow> (m, ts(t := M_store))
   | M_store \<Rightarrow> (katomic_store 1 m, ts(t := M_wake))
   | M_wake \<Rightarrow> (m, (\<lambda>u. if ts u = M_blocked then M_exchange else ts u)(t := M_out)))"

inductive kmutex_reach :: "katomic \<Rightarrow> (nat \<Rightarrow> mplace) \<Rightarrow> bool" where
  start: "kmutex_reach 1 (\<lambda>_. M_out)"
| step: "kmutex_reach m ts \<Longrightarrow> kmutex_step t m ts = (m', ts') \<Longrightarrow> kmutex_reach m' ts'"

definition m_holds :: "mplace \<Rightarrow> bool" where
  "m_holds p \<longleftrightarrow> p = M_critical \<or> p = M_store"

lemma kmutex_inv: "kmutex_reach m ts \<Longrightarrow> (\<forall>t u. m_holds (ts t) \<longrightarrow> m_holds (ts u) \<longrightarrow> t = u) \<and> m = (if \<exists>t. m_holds (ts t) then 0 else 1)"
proof (induction rule: kmutex_reach.induct)
  case start
  then show ?case by (simp add: m_holds_def)
next
  case (step m ts t m' ts')
  have u: "\<And>a b. m_holds (ts a) \<Longrightarrow> m_holds (ts b) \<Longrightarrow> a = b" and m: "m = (if \<exists>t. m_holds (ts t) then 0 else 1)" using step.IH by auto
  show ?case
  proof (cases "ts t = M_store")
    case True
    then have ts': "ts' = ts(t := M_wake)" "m' = 1" and t: "m_holds (ts t)" using step.hyps(2) by (simp_all add: kmutex_step_def katomic_store_def m_holds_def)
    have "\<not> m_holds (ts' a)" for a using u [OF t, of a] by (cases "a = t") (auto simp: ts' m_holds_def)
    then show ?thesis using ts'(2) by simp
  next
    case False
    then have h: "m_holds (ts' a) \<longleftrightarrow> m_holds (ts a) \<or> (a = t \<and> ts t = M_exchange \<and> m = 1)" for a
      using step.hyps(2) by (cases "ts t") (auto simp: kmutex_step_def m_holds_def katomic_exchange_def split: if_splits)
    have "m' = (if ts t = M_exchange then 0 else m)" using False step.hyps(2) by (cases "ts t") (auto simp: kmutex_step_def katomic_exchange_def)
    then show ?thesis using u m h by (auto split: if_splits)
  qed
qed

lemma kmutex_excludes: "kmutex_reach m ts \<Longrightarrow> ts t = M_critical \<Longrightarrow> ts u = M_critical \<Longrightarrow> t = u"
  using kmutex_inv [of m ts] by (auto simp: m_holds_def)


end
