(* ===== verification/Smart_Ptr.thy ===== *)
theory Smart_Ptr
  imports Kernel_Prelude
begin

text \<open>
  The owning pointers (\<^verbatim>\<open>include/containers/kshared_ptr.hpp\<close>, \<^verbatim>\<open>include/containers/kunique_ptr.hpp\<close>).

  The store has the objects that \<^verbatim>\<open>new\<close> made, with their counters; an object that was deleted is \<open>None\<close>, and deleting or counting it again is a fault. The pointers are the variables of a program, named by
  numbers; \<open>_data\<close> and \<open>_refs\<close> of a shared pointer are always null together or belong to the same object, so that a pointer is an optional address. The counter is a \<^verbatim>\<open>katomic<int>\<close> and wraps.

  No sequence of operations on shared pointers deletes an object twice, or one that some pointer still points to, in up to \<open>2 ^ 32\<close> operations; but a copy assignment does not give up the object its
  target pointed to, which is then never deleted.
\<close>

section \<open>Shared pointers\<close>

record 'a sstore =
  objs :: "nat \<Rightarrow> ('a \<times> 32 word) option"
  fresh_obj :: nat
  ptrs :: "nat \<Rightarrow> nat option"

definition inc_refs :: "nat option \<Rightarrow> 'a sstore \<Rightarrow> 'a sstore kres" where
  "inc_refs p s = (case p of None \<Rightarrow> Inr s | Some r \<Rightarrow> (case objs s r of None \<Rightarrow> Inl (Fault ''use after delete'')
     | Some (x, n) \<Rightarrow> Inr (s\<lparr>objs := (objs s)(r \<mapsto> (x, n + 1))\<rparr>)))"

definition dec_refs :: "nat option \<Rightarrow> 'a sstore \<Rightarrow> 'a sstore kres" where
  "dec_refs p s = (case p of None \<Rightarrow> Inr s | Some r \<Rightarrow> (case objs s r of None \<Rightarrow> Inl (Fault ''use after delete'')
     | Some (x, n) \<Rightarrow> Inr (s\<lparr>objs := (objs s)(r \<mapsto> (x, n - 1))\<rparr>)))"

definition destroy_if_no_refs :: "nat \<Rightarrow> 'a sstore \<Rightarrow> 'a sstore kres" where
  "destroy_if_no_refs v s = (case ptrs s v of None \<Rightarrow> Inr s | Some r \<Rightarrow> (case objs s r of None \<Rightarrow> Inl (Fault ''use after delete'')
     | Some (x, n) \<Rightarrow> if n = 0 then Inr (s\<lparr>objs := (objs s)(r := None), ptrs := (ptrs s)(v := None)\<rparr>) else Inr s))"

text \<open>\<^verbatim>\<open>make_kshared\<close> into the new variable \<open>v\<close>, and the default constructor.\<close>

definition make_kshared :: "nat \<Rightarrow> 'a \<Rightarrow> 'a sstore \<Rightarrow> 'a sstore kres" where
  "make_kshared v x s = Inr (s\<lparr>objs := (objs s)(fresh_obj s \<mapsto> (x, 1)), fresh_obj := fresh_obj s + 1, ptrs := (ptrs s)(v \<mapsto> fresh_obj s)\<rparr>)"

definition kshared_default :: "nat \<Rightarrow> 'a sstore \<Rightarrow> 'a sstore kres" where
  "kshared_default v s = Inr (s\<lparr>ptrs := (ptrs s)(v := None)\<rparr>)"

text \<open>The copy and move constructors make the new variable \<open>v\<close> from \<open>w\<close>.\<close>

definition kshared_copy :: "nat \<Rightarrow> nat \<Rightarrow> 'a sstore \<Rightarrow> 'a sstore kres" where
  "kshared_copy v w s = inc_refs (ptrs s w) (s\<lparr>ptrs := (ptrs s)(v := ptrs s w)\<rparr>)"

definition kshared_move :: "nat \<Rightarrow> nat \<Rightarrow> 'a sstore \<Rightarrow> 'a sstore kres" where
  "kshared_move v w s = Inr (s\<lparr>ptrs := (ptrs s)(v := ptrs s w, w := None)\<rparr>)"

definition kshared_assign :: "nat \<Rightarrow> nat \<Rightarrow> 'a sstore \<Rightarrow> 'a sstore kres" where
  "kshared_assign v w s = (if v \<noteq> w then inc_refs (ptrs s w) (s\<lparr>ptrs := (ptrs s)(v := ptrs s w)\<rparr>) else Inr s)"

definition kshared_move_assign :: "nat \<Rightarrow> nat \<Rightarrow> 'a sstore \<Rightarrow> 'a sstore kres" where
  "kshared_move_assign v w s = (if v \<noteq> w then kbind (dec_refs (ptrs s v) s) (\<lambda>s. kbind (destroy_if_no_refs v s) (\<lambda>s.
     Inr (s\<lparr>ptrs := (ptrs s)(v := ptrs s w, w := None)\<rparr>))) else Inr s)"

text \<open>After the destructor the variable is gone, which a null pointer stands for.\<close>

definition kshared_destructor :: "nat \<Rightarrow> 'a sstore \<Rightarrow> 'a sstore kres" where
  "kshared_destructor v s = kbind (dec_refs (ptrs s v) s) (\<lambda>s. kbind (destroy_if_no_refs v s) (\<lambda>s. Inr (s\<lparr>ptrs := (ptrs s)(v := None)\<rparr>)))"

definition kshared_get :: "nat \<Rightarrow> 'a sstore \<Rightarrow> 'a option kres" where
  "kshared_get v s = (case ptrs s v of None \<Rightarrow> Inr None | Some r \<Rightarrow> (case objs s r of None \<Rightarrow> Inl (Fault ''use after delete'') | Some (x, n) \<Rightarrow> Inr (Some x)))"

section \<open>Counting pointers\<close>

text \<open>\<open>vars\<close> are the variables of the program; the constructors are for variables that have no pointer yet.\<close>

datatype 'a shared_op = Make nat 'a | Default nat | Copy nat nat | Move nat nat | Assign nat nat | Move_assign nat nat | Destroy nat

primrec shared_run :: "'a shared_op \<Rightarrow> 'a sstore \<Rightarrow> 'a sstore kres" where
  "shared_run (Make v x) s = make_kshared v x s"
| "shared_run (Default v) s = kshared_default v s"
| "shared_run (Copy v w) s = kshared_copy v w s"
| "shared_run (Move v w) s = kshared_move v w s"
| "shared_run (Assign v w) s = kshared_assign v w s"
| "shared_run (Move_assign v w) s = kshared_move_assign v w s"
| "shared_run (Destroy v) s = kshared_destructor v s"

fun shared_runs :: "'a shared_op list \<Rightarrow> 'a sstore \<Rightarrow> 'a sstore kres" where
  "shared_runs [] s = Inr s"
| "shared_runs (a # as) s = kbind (shared_run a s) (shared_runs as)"

definition shared_empty :: "'a sstore" where
  "shared_empty = \<lparr>objs = Map.empty, fresh_obj = 0, ptrs = Map.empty\<rparr>"

text \<open>A constructor is only run on a variable without a pointer: the old one was destroyed.\<close>

primrec op_ok :: "'a shared_op \<Rightarrow> (nat \<Rightarrow> nat option) \<Rightarrow> bool" where
  "op_ok (Make v x) p \<longleftrightarrow> p v = None"
| "op_ok (Default v) p \<longleftrightarrow> p v = None"
| "op_ok (Copy v w) p \<longleftrightarrow> p v = None"
| "op_ok (Move v w) p \<longleftrightarrow> p v = None \<and> v \<noteq> w"
| "op_ok (Assign v w) p \<longleftrightarrow> True"
| "op_ok (Move_assign v w) p \<longleftrightarrow> True"
| "op_ok (Destroy v) p \<longleftrightarrow> True"

fun ops_ok :: "'a shared_op list \<Rightarrow> 'a sstore \<Rightarrow> bool" where
  "ops_ok [] s = True"
| "ops_ok (a # as) s = (op_ok a (ptrs s) \<and> (case shared_run a s of Inl _ \<Rightarrow> True | Inr s \<Rightarrow> ops_ok as s))"

text \<open>A copy assignment to a pointer that is not null.\<close>

primrec overwrites :: "'a shared_op \<Rightarrow> (nat \<Rightarrow> nat option) \<Rightarrow> bool" where
  "overwrites (Make v x) p = False"
| "overwrites (Default v) p = False"
| "overwrites (Copy v w) p = False"
| "overwrites (Move v w) p = False"
| "overwrites (Assign v w) p = (v \<noteq> w \<and> p v \<noteq> None)"
| "overwrites (Move_assign v w) p = False"
| "overwrites (Destroy v) p = False"

fun no_overwrite :: "'a shared_op list \<Rightarrow> 'a sstore \<Rightarrow> bool" where
  "no_overwrite [] s = True"
| "no_overwrite (a # as) s = (\<not> overwrites a (ptrs s) \<and> (case shared_run a s of Inl _ \<Rightarrow> True | Inr s \<Rightarrow> no_overwrite as s))"

definition refs_of :: "(nat \<Rightarrow> nat option) \<Rightarrow> nat \<Rightarrow> nat" where
  "refs_of p r = card {v. p v = Some r}"

text \<open>A counter is at least the number of pointers, and equal to it (\<open>e\<close>) unless pointers were overwritten; it is at most the number \<open>m\<close> of operations.\<close>

definition refs_ok :: "bool \<Rightarrow> nat \<Rightarrow> nat \<Rightarrow> 32 word \<Rightarrow> bool" where
  "refs_ok e m k n \<longleftrightarrow> k \<le> unat n \<and> 0 < unat n \<and> unat n \<le> m \<and> (e \<longrightarrow> k = unat n)"

definition shared_inv :: "bool \<Rightarrow> nat \<Rightarrow> 'a sstore \<Rightarrow> bool" where
  "shared_inv e m s \<longleftrightarrow> finite (dom (ptrs s)) \<and> (\<forall>r. fresh_obj s \<le> r \<longrightarrow> objs s r = None) \<and> (\<forall>v r. ptrs s v = Some r \<longrightarrow> objs s r \<noteq> None) \<and>
     (\<forall>r x n. objs s r = Some (x, n) \<longrightarrow> refs_ok e m (refs_of (ptrs s) r) n)"

lemma shared_invD:
  assumes "shared_inv e m s"
  shows "finite (dom (ptrs s))" "fresh_obj s \<le> r \<Longrightarrow> objs s r = None" "ptrs s v = Some r \<Longrightarrow> objs s r \<noteq> None" "objs s r = Some (x, n) \<Longrightarrow> refs_ok e m (refs_of (ptrs s) r) n"
  using assms unfolding shared_inv_def by blast+

lemma shared_inv_obj: "shared_inv e m s \<Longrightarrow> ptrs s v = Some r \<Longrightarrow> \<exists>x n. objs s r = Some (x, n) \<and> refs_ok e m (refs_of (ptrs s) r) n"
  using shared_invD(3,4) by (metis not_None_eq surj_pair)

lemma finite_refs: "finite (dom p) \<Longrightarrow> finite {v. p v = Some r}"
  by (rule finite_subset [of _ "dom p"]) auto

lemma refs_of_clear: "finite (dom p) \<Longrightarrow> refs_of (p(v := None)) r = refs_of p r - (if p v = Some r then 1 else 0)"
proof -
  assume f: "finite (dom p)"
  have "{u. (p(v := None)) u = Some r} = {u. p u = Some r} - {v}" by auto
  then show ?thesis using finite_refs [OF f, of r] by (simp add: refs_of_def)
qed

lemma refs_of_set: "finite (dom p) \<Longrightarrow> p v = None \<Longrightarrow> refs_of (p(v := q)) r = refs_of p r + (if q = Some r then 1 else 0)"
proof -
  assume f: "finite (dom p)" and v: "p v = None"
  have "{u. (p(v := q)) u = Some r} = (if q = Some r then insert v {u. p u = Some r} else {u. p u = Some r})" using v by auto
  then show ?thesis using finite_refs [OF f, of r] v by (simp add: refs_of_def)
qed

lemma refs_of_pos: "finite (dom p) \<Longrightarrow> p v = Some r \<Longrightarrow> 0 < refs_of p r"
  using finite_refs [of p r] by (auto simp: refs_of_def card_gt_0_iff)

lemma refs_of_one: "finite (dom p) \<Longrightarrow> p v = Some r \<Longrightarrow> refs_of p r \<le> 1 \<Longrightarrow> p u = Some r \<Longrightarrow> u = v"
  using finite_refs [of p r] by (auto simp: refs_of_def card_le_Suc0_iff_eq)

lemma shared_inv_mono: "shared_inv e m s \<Longrightarrow> m \<le> m' \<Longrightarrow> (e' \<Longrightarrow> e) \<Longrightarrow> shared_inv e' m' s"
  unfolding shared_inv_def refs_ok_def by (meson order_trans)

text \<open>A pointer that is overwritten: only exactness is lost.\<close>

lemma shared_inv_forget:
  assumes "shared_inv e m s"
  shows "shared_inv False m (s\<lparr>ptrs := (ptrs s)(v := None)\<rparr>)"
proof -
  note f = shared_invD(1) [OF assms]
  have "refs_ok False m (refs_of ((ptrs s)(v := None)) r) n" if "objs s r = Some (x, n)" for r x n
    using shared_invD(4) [OF assms that] by (auto simp: refs_of_clear [OF f] refs_ok_def)
  then show ?thesis using f shared_invD(2,3) [OF assms] by (auto simp: shared_inv_def split: if_splits)
qed

lemma shared_inv_move:
  assumes "shared_inv e m s" "ptrs s v = None" "v \<noteq> w"
  shows "shared_inv e m (s\<lparr>ptrs := (ptrs s)(v := ptrs s w, w := None)\<rparr>)"
proof -
  note f = shared_invD(1) [OF assms(1)]
  have "refs_of ((ptrs s)(v := ptrs s w, w := None)) r = refs_of (ptrs s) r" for r
    using refs_of_set [OF f assms(2), of "ptrs s w" r] refs_of_clear [of "(ptrs s)(v := ptrs s w)" w r] f assms(3) by auto
  then show ?thesis using assms(1) by (auto simp: shared_inv_def)
qed

lemma shared_inv_copy:
  assumes inv: "shared_inv e m s" and v: "ptrs s v = None" and m: "m + 1 < 2 ^ 32" and w: "v \<noteq> w \<or> ptrs s w = None"
  shows "\<exists>s'. inc_refs (ptrs s w) (s\<lparr>ptrs := (ptrs s)(v := ptrs s w)\<rparr>) = Inr s' \<and> shared_inv e (m + 1) s'"
proof (cases "ptrs s w")
  case None
  then have "s\<lparr>ptrs := (ptrs s)(v := ptrs s w)\<rparr> = s" using v by (simp add: fun_upd_idem)
  then show ?thesis using None shared_inv_mono [OF inv] by (simp add: inc_refs_def)
next
  case (Some r)
  note f = shared_invD(1) [OF inv]
  obtain x n where ob: "objs s r = Some (x, n)" "refs_ok e m (refs_of (ptrs s) r) n" using shared_inv_obj [OF inv Some] by blast
  let ?p = "(ptrs s)(v := Some r)" and ?o = "(objs s)(r \<mapsto> (x, n + 1))"
  have n1: "unat (n + 1) = unat n + 1" using ob(2) m by (simp add: unat_word_ariths refs_ok_def)
  have "refs_ok e (m + 1) (refs_of ?p r') n'" if "?o r' = Some (x', n')" for r' x' n'
  proof (cases "r' = r")
    case True
    then show ?thesis using that ob(2) n1 by (auto simp: refs_of_set [OF f v] refs_ok_def)
  next
    case False
    then have "objs s r' = Some (x', n')" using that by simp
    then show ?thesis using shared_invD(4) [OF inv, of r' x' n'] False by (auto simp: refs_of_set [OF f v] refs_ok_def)
  qed
  moreover have "?o u \<noteq> None" if "?p a = Some u" for a u using that shared_invD(3) [OF inv, of a u] by (auto split: if_splits)
  moreover have "r < fresh_obj s" using shared_invD(2) [OF inv, of r] ob(1) by (cases "fresh_obj s \<le> r") auto
  ultimately have "shared_inv e (m + 1) (s\<lparr>ptrs := ?p, objs := ?o\<rparr>)" using f shared_invD(2) [OF inv] unfolding shared_inv_def by auto
  then show ?thesis using ob Some by (simp add: inc_refs_def)
qed

text \<open>A pointer that gives up its object: the object is deleted exactly when the counter gets to 0.\<close>

lemma shared_inv_drop:
  assumes inv: "shared_inv e m s"
  shows "\<exists>s'. kbind (dec_refs (ptrs s v) s) (destroy_if_no_refs v) = Inr s' \<and> shared_inv e m (s'\<lparr>ptrs := (ptrs s')(v := None)\<rparr>)"
proof (cases "ptrs s v")
  case None
  then have "s\<lparr>ptrs := (ptrs s)(v := None)\<rparr> = s" by (simp add: fun_upd_idem)
  then show ?thesis using None inv by (simp add: dec_refs_def destroy_if_no_refs_def)
next
  case (Some r)
  note f = shared_invD(1) [OF inv]
  obtain x n where ob: "objs s r = Some (x, n)" "refs_ok e m (refs_of (ptrs s) r) n" using shared_inv_obj [OF inv Some] by blast
  let ?p = "(ptrs s)(v := None)" and ?new = "if n - 1 = 0 then None else Some (x, n - 1)"
  let ?o = "(objs s)(r := ?new)"
  have nz: "n \<noteq> 0" using ob(2) by (auto simp: refs_ok_def)
  have n1: "unat (n - 1) = unat n - 1" by (rule unat_minus_one [OF nz])
  have "refs_ok e m (refs_of ?p r') n'" if "?o r' = Some (x', n')" for r' x' n'
  proof (cases "r' = r")
    case True
    then have n': "n' = n - 1" "n - 1 \<noteq> 0" using that by (auto split: if_splits)
    then have "unat (n - 1) \<noteq> 0" by (simp add: unat_eq_zero)
    then show ?thesis using True n' ob(2) n1 Some refs_of_pos [OF f Some] by (auto simp: refs_of_clear [OF f] refs_ok_def)
  next
    case False
    then have "objs s r' = Some (x', n')" using that by simp
    then show ?thesis using shared_invD(4) [OF inv, of r' x' n'] False Some by (auto simp: refs_of_clear [OF f])
  qed
  moreover have "?o u \<noteq> None" if "?p a = Some u" for a u
  proof -
    have a: "a \<noteq> v" "ptrs s a = Some u" using that by (auto split: if_splits)
    have "n - 1 \<noteq> 0" if "u = r"
    proof
      assume "n - 1 = 0"
      then have "refs_of (ptrs s) r \<le> 1" using ob(2) n1 by (simp add: refs_ok_def)
      then show False using refs_of_one [OF f Some] a that by blast
    qed
    then show ?thesis using shared_invD(3) [OF inv a(2)] by auto
  qed
  moreover have "r < fresh_obj s" using shared_invD(2) [OF inv, of r] ob(1) by (cases "fresh_obj s \<le> r") auto
  ultimately have "shared_inv e m (s\<lparr>objs := ?o, ptrs := ?p\<rparr>)" using f shared_invD(2) [OF inv] unfolding shared_inv_def by auto
  then show ?thesis using Some ob by (simp add: dec_refs_def destroy_if_no_refs_def split: if_splits)
qed

lemma shared_inv_make:
  assumes inv: "shared_inv e m s" and v: "ptrs s v = None"
  shows "\<exists>s'. make_kshared v x s = Inr s' \<and> shared_inv e (m + 1) s'"
proof -
  note f = shared_invD(1) [OF inv]
  let ?r = "fresh_obj s"
  let ?p = "(ptrs s)(v \<mapsto> ?r)" and ?o = "(objs s)(?r \<mapsto> (x, 1))"
  have "ptrs s u \<noteq> Some ?r" for u using shared_invD(2) [OF inv, of ?r] shared_invD(3) [OF inv, of u ?r] by auto
  then have z: "refs_of (ptrs s) ?r = 0" by (simp add: refs_of_def)
  have "refs_ok e (m + 1) (refs_of ?p r) n" if "?o r = Some (y, n)" for r y n
    using that z shared_invD(4) [OF inv, of r y n] by (cases "r = ?r") (auto simp: refs_of_set [OF f v] refs_ok_def)
  moreover have "?o r \<noteq> None" if "?p a = Some r" for a r using that shared_invD(3) [OF inv, of a r] by (auto split: if_splits)
  ultimately have "shared_inv e (m + 1) (s\<lparr>objs := ?o, fresh_obj := ?r + 1, ptrs := ?p\<rparr>)" using f shared_invD(2) [OF inv] unfolding shared_inv_def by auto
  then show ?thesis by (simp add: make_kshared_def)
qed

lemma shared_inv_step:
  assumes inv: "shared_inv e m s" and ok: "op_ok a (ptrs s)" and m: "m + 1 < 2 ^ 32"
  shows "\<exists>s'. shared_run a s = Inr s' \<and> shared_inv (e \<and> \<not> overwrites a (ptrs s)) (m + 1) s'"
proof (cases a)
  case (Make v x)
  then show ?thesis using shared_inv_make [OF inv] ok by simp
next
  case (Default v)
  then have "s\<lparr>ptrs := (ptrs s)(v := None)\<rparr> = s" using ok by (simp add: fun_upd_idem)
  then show ?thesis using Default shared_inv_mono [OF inv] by (simp add: kshared_default_def)
next
  case (Copy v w)
  then show ?thesis using shared_inv_copy [OF inv _ m, of v w] ok by (cases "v = w") (auto simp: kshared_copy_def)
next
  case (Move v w)
  then have "shared_inv e m (s\<lparr>ptrs := (ptrs s)(v := ptrs s w, w := None)\<rparr>)" using shared_inv_move [OF inv] ok by simp
  then show ?thesis using Move shared_inv_mono [of e m _ "m + 1" e] by (simp add: kshared_move_def)
next
  case (Assign v w)
  show ?thesis
  proof (cases "v = w")
    case True
    then show ?thesis using Assign shared_inv_mono [OF inv, of "m + 1" e] by (simp add: kshared_assign_def)
  next
    case False
    let ?s = "s\<lparr>ptrs := (ptrs s)(v := None)\<rparr>"
    have "shared_inv (e \<and> ptrs s v = None) m ?s"
      using inv shared_inv_forget [OF inv, of v] by (cases "ptrs s v") (simp_all add: fun_upd_idem)
    from shared_inv_copy [OF this _ m, of v w] show ?thesis using False Assign by (simp add: kshared_assign_def)
  qed
next
  case (Move_assign v w)
  show ?thesis
  proof (cases "v = w")
    case True
    then show ?thesis using Move_assign shared_inv_mono [OF inv] by (simp add: kshared_move_assign_def)
  next
    case False
    obtain s1 where s1: "kbind (dec_refs (ptrs s v) s) (destroy_if_no_refs v) = Inr s1" "shared_inv e m (s1\<lparr>ptrs := (ptrs s1)(v := None)\<rparr>)"
      using shared_inv_drop [OF inv, of v] by blast
    have "shared_inv e m (s1\<lparr>ptrs := (ptrs s1)(v := ptrs s1 w, w := None)\<rparr>)" using shared_inv_move [OF s1(2), of v w] False by simp
    then have "shared_inv e (m + 1) (s1\<lparr>ptrs := (ptrs s1)(v := ptrs s1 w, w := None)\<rparr>)" by (rule shared_inv_mono) simp_all
    moreover have "kshared_move_assign v w s = Inr (s1\<lparr>ptrs := (ptrs s1)(v := ptrs s1 w, w := None)\<rparr>)"
      using s1(1) False by (cases "dec_refs (ptrs s v) s") (simp_all add: kshared_move_assign_def)
    ultimately show ?thesis using Move_assign by simp
  qed
next
  case (Destroy v)
  obtain s1 where s1: "kbind (dec_refs (ptrs s v) s) (destroy_if_no_refs v) = Inr s1" "shared_inv e m (s1\<lparr>ptrs := (ptrs s1)(v := None)\<rparr>)"
    using shared_inv_drop [OF inv, of v] by blast
  then have "kshared_destructor v s = Inr (s1\<lparr>ptrs := (ptrs s1)(v := None)\<rparr>)" by (cases "dec_refs (ptrs s v) s") (simp_all add: kshared_destructor_def)
  moreover have "shared_inv e (m + 1) (s1\<lparr>ptrs := (ptrs s1)(v := None)\<rparr>)" using s1(2) by (rule shared_inv_mono) simp_all
  ultimately show ?thesis using Destroy by simp
qed

lemma shared_runs_inv:
  "shared_inv e m s \<Longrightarrow> ops_ok ops s \<Longrightarrow> m + length ops < 2 ^ 32 \<Longrightarrow> \<exists>s'. shared_runs ops s = Inr s' \<and> shared_inv (e \<and> no_overwrite ops s) (m + length ops) s'"
proof (induction ops arbitrary: e m s)
  case (Cons a ops)
  then obtain s1 where s1: "shared_run a s = Inr s1" "shared_inv (e \<and> \<not> overwrites a (ptrs s)) (m + 1) s1" using shared_inv_step [of e m s a] by auto
  then show ?case using Cons.IH [OF s1(2)] Cons.prems by simp
qed simp

lemma shared_inv_empty: "shared_inv True 0 shared_empty"
  by (simp add: shared_inv_def shared_empty_def)

text \<open>
  C12: Shared pointers. However a program makes, copies, moves, assigns and destroys shared pointers, up to \<open>2 ^ 32\<close> operations, none of them deletes or counts an object that was deleted already, and every pointer
  that is not null points to a live object. When no copy assignment overwrites a pointer, an object is live exactly as long as some pointer points to it.
\<close>

theorem kshared_safe:
  assumes "ops_ok ops shared_empty" "length ops < 2 ^ 32"
  shows "\<exists>s. shared_runs ops shared_empty = Inr s \<and> (\<forall>v. \<exists>y. kshared_get v s = Inr y \<and> (y = None \<longleftrightarrow> ptrs s v = None)) \<and>
    (no_overwrite ops shared_empty \<longrightarrow> (\<forall>r. objs s r \<noteq> None \<longleftrightarrow> (\<exists>v. ptrs s v = Some r)))"
proof -
  obtain s where s: "shared_runs ops shared_empty = Inr s" "shared_inv (no_overwrite ops shared_empty) (length ops) s"
    using shared_runs_inv [OF shared_inv_empty assms(1)] assms(2) by auto
  have "\<exists>y. kshared_get v s = Inr y \<and> (y = None \<longleftrightarrow> ptrs s v = None)" for v
    using shared_inv_obj [OF s(2), of v] by (cases "ptrs s v") (auto simp: kshared_get_def)
  moreover have "\<exists>v. ptrs s v = Some r" if no: "no_overwrite ops shared_empty" and live: "objs s r \<noteq> None" for r
  proof -
    obtain x n where ob: "objs s r = Some (x, n)" using live by auto
    then have "0 < refs_of (ptrs s) r" using shared_invD(4) [OF s(2) ob] no by (simp add: refs_ok_def)
    then show ?thesis by (auto simp: refs_of_def card_gt_0_iff)
  qed
  ultimately show ?thesis using s(1) shared_invD(3) [OF s(2)] by blast
qed

theorem kshared_safe_witness:
  "\<exists>s. shared_runs [Make 0 (7 :: nat), Copy 1 0, Move 2 1, Destroy 0] shared_empty = Inr s \<and> (\<forall>r. objs s r \<noteq> None \<longleftrightarrow> (\<exists>v. ptrs s v = Some r))"
proof -
  let ?ops = "[Make 0 (7 :: nat), Copy 1 0, Move 2 1, Destroy 0]"
  note d = make_kshared_def kshared_copy_def kshared_move_def kshared_destructor_def inc_refs_def shared_empty_def
  have "ops_ok ?ops shared_empty" "no_overwrite ?ops shared_empty" by (simp_all add: d split: sum.splits)
  then show ?thesis using kshared_safe [of ?ops] by auto
qed

text \<open>
  A copy assignment to a pointer that is not null loses the object it pointed to: after the program has made two objects, assigned the second pointer to the first and destroyed both pointers, the first object
  is still there with a counter of 1 and no pointer, so that it is never deleted.
\<close>

theorem kshared_assign_leaks:
  "\<exists>s. shared_runs [Make 0 x, Make 1 y, Assign 0 1, Destroy 0, Destroy 1] shared_empty = Inr s \<and> ptrs s = Map.empty \<and> objs s = [0 \<mapsto> (x, 1)]"
  by (simp add: make_kshared_def kshared_assign_def kshared_destructor_def inc_refs_def dec_refs_def destroy_if_no_refs_def shared_empty_def fun_upd_twist)

section \<open>Unique pointers\<close>

record 'a ustore =
  uobjs :: "nat \<Rightarrow> 'a option"
  ufresh :: nat
  uptrs :: "nat \<Rightarrow> nat option"

definition kunique_destroy :: "nat \<Rightarrow> 'a ustore \<Rightarrow> 'a ustore kres" where
  "kunique_destroy v s = (case uptrs s v of None \<Rightarrow> Inr s | Some r \<Rightarrow> (case uobjs s r of None \<Rightarrow> Inl (Fault ''double delete'')
     | Some x \<Rightarrow> Inr (s\<lparr>uobjs := (uobjs s)(r := None), uptrs := (uptrs s)(v := None)\<rparr>)))"

definition kunique_make :: "nat \<Rightarrow> 'a \<Rightarrow> 'a ustore \<Rightarrow> 'a ustore kres" where
  "kunique_make v x s = Inr (s\<lparr>uobjs := (uobjs s)(ufresh s \<mapsto> x), ufresh := ufresh s + 1, uptrs := (uptrs s)(v \<mapsto> ufresh s)\<rparr>)"

definition kunique_move :: "nat \<Rightarrow> nat \<Rightarrow> 'a ustore \<Rightarrow> 'a ustore kres" where
  "kunique_move v w s = Inr (s\<lparr>uptrs := (uptrs s)(v := uptrs s w, w := None)\<rparr>)"

definition kunique_move_assign :: "nat \<Rightarrow> nat \<Rightarrow> 'a ustore \<Rightarrow> 'a ustore kres" where
  "kunique_move_assign v w s = (if v \<noteq> w then kbind (kunique_destroy v s) (\<lambda>s. Inr (s\<lparr>uptrs := (uptrs s)(v := uptrs s w, w := None)\<rparr>)) else Inr s)"

text \<open>Every live object has exactly one pointer.\<close>

definition unique_inv :: "'a ustore \<Rightarrow> bool" where
  "unique_inv s \<longleftrightarrow> (\<forall>r \<ge> ufresh s. uobjs s r = None) \<and> dom (uobjs s) = ran (uptrs s) \<and> inj_on (uptrs s) (dom (uptrs s))"

lemma unique_inv_owner: "unique_inv s \<Longrightarrow> uptrs s v = Some r \<Longrightarrow> uptrs s w = Some r \<Longrightarrow> v = w"
  by (metis domI inj_onD unique_inv_def)

lemma kunique_destroy_inv:
  assumes inv: "unique_inv s"
  shows "\<exists>s'. kunique_destroy v s = Inr s' \<and> unique_inv s' \<and> uptrs s' = (uptrs s)(v := None)"
proof (cases "uptrs s v")
  case None
  then show ?thesis using inv by (simp add: kunique_destroy_def fun_upd_idem)
next
  case (Some r)
  then have "r \<in> dom (uobjs s)" using inv by (auto simp: unique_inv_def intro: ranI)
  then obtain x where x: "uobjs s r = Some x" by blast
  have own: "u = v \<longleftrightarrow> r' = r" if u: "uptrs s u = Some r'" for u r'
  proof
    show "r' = r" if "u = v" using that Some u by simp
    show "u = v" if "r' = r" using that unique_inv_owner [OF inv Some] u by simp
  qed
  have "r' \<in> ran ((uptrs s)(v := None)) \<longleftrightarrow> r' \<in> ran (uptrs s) - {r}" for r'
  proof -
    have "((uptrs s)(v := None)) u = Some r' \<longleftrightarrow> uptrs s u = Some r' \<and> r' \<noteq> r" for u using own [of u r'] by auto
    then show ?thesis by (simp add: ran_def)
  qed
  then have "ran ((uptrs s)(v := None)) = ran (uptrs s) - {r}" by blast
  then have "unique_inv (s\<lparr>uobjs := (uobjs s)(r := None), uptrs := (uptrs s)(v := None)\<rparr>)" using inv by (auto simp: unique_inv_def inj_on_def)
  then show ?thesis using Some x by (simp add: kunique_destroy_def)
qed

lemma kunique_make_inv:
  assumes inv: "unique_inv s" and v: "uptrs s v = None"
  shows "\<exists>s'. kunique_make v x s = Inr s' \<and> unique_inv s'"
proof -
  have "ufresh s \<notin> ran (uptrs s)" using inv by (auto simp: unique_inv_def)
  moreover have "ran ((uptrs s)(v \<mapsto> ufresh s)) = insert (ufresh s) (ran (uptrs s))" using v by (rule ran_map_upd)
  ultimately have "unique_inv (s\<lparr>uobjs := (uobjs s)(ufresh s \<mapsto> x), ufresh := ufresh s + 1, uptrs := (uptrs s)(v \<mapsto> ufresh s)\<rparr>)"
    using inv by (auto simp: unique_inv_def inj_on_def ran_def)
  then show ?thesis by (simp add: kunique_make_def)
qed

lemma kunique_move_inv:
  assumes inv: "unique_inv s" and v: "uptrs s v = None" "v \<noteq> w"
  shows "unique_inv (s\<lparr>uptrs := (uptrs s)(v := uptrs s w, w := None)\<rparr>)"
proof -
  let ?p = "(uptrs s)(v := uptrs s w, w := None)"
  have "?p u = Some r \<longleftrightarrow> (if u = v then uptrs s w = Some r else u \<noteq> w \<and> uptrs s u = Some r)" for u r using v(2) by auto
  then have p: "\<And>u r. ?p u = Some r \<Longrightarrow> \<exists>u'. uptrs s u' = Some r" "\<And>u r. uptrs s u = Some r \<Longrightarrow> ?p (if u = w then v else u) = Some r"
    using v by (auto split: if_splits)
  then have "ran ?p = ran (uptrs s)" unfolding ran_def by blast
  moreover have "inj_on ?p (dom ?p)"
  proof (rule inj_onI)
    fix a b assume a: "a \<in> dom ?p" "?p a = ?p b"
    let ?g = "\<lambda>u. if u = v then w else u"
    have g: "?p u = uptrs s (?g u)" if "u \<noteq> w" for u using that v(2) by auto
    have w: "a \<noteq> w" "b \<noteq> w" using a unfolding domIff by (auto split: if_splits)
    have "uptrs s (?g a) = uptrs s (?g b)" using a(2) unfolding g [OF w(1)] g [OF w(2)] .
    moreover have "uptrs s (?g a) \<noteq> None" using a(1) unfolding domIff g [OF w(1)] .
    ultimately have "?g a = ?g b" using unique_inv_owner [OF inv, of "?g a" _ "?g b"] by (metis not_None_eq)
    then show "a = b" using w by (auto split: if_splits)
  qed
  ultimately show ?thesis using inv by (simp add: unique_inv_def)
qed

lemma kunique_move_assign_inv:
  assumes inv: "unique_inv s"
  shows "\<exists>s'. kunique_move_assign v w s = Inr s' \<and> unique_inv s'"
proof (cases "v = w")
  case False
  obtain s1 where "kunique_destroy v s = Inr s1" "unique_inv s1" "uptrs s1 v = None" using kunique_destroy_inv [OF inv, of v] by auto
  then show ?thesis using kunique_move_inv [of s1 v w] False by (simp add: kunique_move_assign_def)
qed (simp add: kunique_move_assign_def inv)

end
