(* ===== verification/Exec.thy ===== *)
theory Exec
  imports Process Vmm_Inv Packed
begin

text \<open>
  Loading a program (\<^verbatim>\<open>lib/process/elf.cpp\<close>, \<^verbatim>\<open>include/process/elf.hpp\<close>, and \<^verbatim>\<open>map_elf64_header\<close>, \<^verbatim>\<open>build_user_stack\<close> and \<^verbatim>\<open>exec_elf64\<close> of \<^verbatim>\<open>lib/process/process.cpp\<close>).

  The page tables and frames are those of \<open>Vmm\<close>. Beside them there is the memory as the kernel sees it through the tables that are active, bytes at 64-bit addresses: \<open>map_user\<close> runs \<open>map_user_pages\<close> on the
  tables and gives the pages of the range new contents, \<open>raw\<close>, which is what the frames hold. The file is in kernel memory.
\<close>

unbundle bit_operations_syntax

section \<open>The file\<close>

text \<open>The members of the structures with their sizes, in order; the structures are packed.\<close>

definition Elf64_Header :: "(string \<times> nat) list" where
  "Elf64_Header = [(''e_ident'', 16), (''e_type'', 2), (''e_machine'', 2), (''e_version'', 4), (''e_entry'', 8), (''e_phoff'', 8), (''e_shoff'', 8), (''e_flags'', 4),
     (''e_ehsize'', 2), (''e_phentsize'', 2), (''e_phnum'', 2), (''e_shentsize'', 2), (''e_shnum'', 2), (''e_shstrndx'', 2)]"

definition Elf64_ProgramHeader_layout :: "(string \<times> nat) list" where
  "Elf64_ProgramHeader_layout = [(''p_type'', 4), (''p_flags'', 4), (''p_offset'', 8), (''p_vaddr'', 8), (''p_paddr'', 8), (''p_filesz'', 8), (''p_memsz'', 8), (''p_align'', 8)]"

lemma Elf64_sizes: "sum_list (map snd Elf64_Header) = 64" "sum_list (map snd Elf64_ProgramHeader_layout) = 56"
  by (simp_all add: Elf64_Header_def Elf64_ProgramHeader_layout_def)

record Elf64_ProgramHeader =
  p_type :: u64
  p_flags :: u64
  p_offset :: u64
  p_vaddr :: u64
  p_filesz :: u64
  p_memsz :: u64

record Elf64_File =
  is_valid_elf :: bool
  elf_entry :: u64
  program_headers :: "Elf64_ProgramHeader list"

definition E_MAG :: "u8 list" where "E_MAG = [0x7F, 0x45, 0x4C, 0x46]"
definition ELFCLASS64 :: u8 where "ELFCLASS64 = 2"
definition EM_X86_64 :: u64 where "EM_X86_64 = 0x3E"
definition ET_EXEC :: u64 where "ET_EXEC = 2"
definition PT_LOAD :: u64 where "PT_LOAD = 1"

definition ld_ident :: "bytes \<Rightarrow> u64 \<Rightarrow> nat \<Rightarrow> u8 kres" where
  "ld_ident m header i = ld8 m (header + of_nat i)"

fun magic_loop :: "bytes \<Rightarrow> u64 \<Rightarrow> nat \<Rightarrow> u8 list \<Rightarrow> bool kres" where
  "magic_loop m header i [] = Inr True"
| "magic_loop m header i (b # bs) = kbind (ld_ident m header i) (\<lambda>x. if x = b then magic_loop m header (i + 1) bs else Inr False)"

definition validate_magic :: "bytes \<Rightarrow> u64 \<Rightarrow> bool kres" where
  "validate_magic m header = magic_loop m header 0 E_MAG"

definition validate_class :: "bytes \<Rightarrow> u64 \<Rightarrow> bool kres" where
  "validate_class m header = kbind (ld_ident m header 4) (\<lambda>x. Inr (x = ELFCLASS64))"

definition validate_machine :: "bytes \<Rightarrow> u64 \<Rightarrow> bool kres" where
  "validate_machine m header = kbind (ld_field Elf64_Header ''e_machine'' m header) (\<lambda>x. Inr (x = EM_X86_64))"

definition validate_type :: "bytes \<Rightarrow> u64 \<Rightarrow> bool kres" where
  "validate_type m header = kbind (ld_field Elf64_Header ''e_type'' m header) (\<lambda>x. Inr (x = ET_EXEC))"

definition ld_program_header :: "bytes \<Rightarrow> u64 \<Rightarrow> Elf64_ProgramHeader kres" where
  "ld_program_header m a = (let f = (\<lambda>n. ld_field Elf64_ProgramHeader_layout n m a) in
     kbind (f ''p_type'') (\<lambda>t. kbind (f ''p_flags'') (\<lambda>fl. kbind (f ''p_offset'') (\<lambda>off. kbind (f ''p_vaddr'') (\<lambda>va.
     kbind (f ''p_filesz'') (\<lambda>fsz. kbind (f ''p_memsz'') (\<lambda>msz.
       Inr \<lparr>p_type = t, p_flags = fl, p_offset = off, p_vaddr = va, p_filesz = fsz, p_memsz = msz\<rparr>)))))))"

definition parse_header_loop :: "bytes \<Rightarrow> u64 \<Rightarrow> u64 \<Rightarrow> u64 \<Rightarrow> nat \<Rightarrow> Elf64_File \<Rightarrow> Elf64_File kres" where
  "parse_header_loop m buffer phoff phentsize phnum file = kfor 0 phnum (\<lambda>i file.
     kbind (ld_program_header m (buffer + phoff + of_nat i * phentsize)) (\<lambda>phdr.
     if p_type phdr \<noteq> PT_LOAD then Inr file
     else Inr (file\<lparr>is_valid_elf := True, program_headers := program_headers file @ [phdr]\<rparr>))) file"

definition parse_file :: "bytes \<Rightarrow> u64 \<Rightarrow> Elf64_File kres" where
  "parse_file m buffer = kbind (kassert_not_null buffer) (\<lambda>_.
     kbind (validate_magic m buffer) (\<lambda>b. if \<not> b then Inl (Panic ''Invalid ELF magic found, not an ELF file'')
     else kbind (validate_class m buffer) (\<lambda>b. if \<not> b then Inl (Panic ''Invalid ELF class, expected 64-bit'')
     else kbind (validate_machine m buffer) (\<lambda>b. if \<not> b then Inl (Panic ''Invalid ELF machine, expected x86-64'')
     else kbind (validate_type m buffer) (\<lambda>b. if \<not> b then Inl (Panic ''Invalid ELF type, exepcted executable'')
     else kbind (ld_field Elf64_Header ''e_entry'' m buffer) (\<lambda>e. kbind (ld_field Elf64_Header ''e_phnum'' m buffer) (\<lambda>phnum.
          kbind (ld_field Elf64_Header ''e_phoff'' m buffer) (\<lambda>phoff. kbind (ld_field Elf64_Header ''e_phentsize'' m buffer) (\<lambda>phentsize.
          parse_header_loop m buffer phoff phentsize (unat phnum) \<lparr>is_valid_elf = False, elf_entry = e, program_headers = []\<rparr>)))))))))"

section \<open>The image\<close>

definition USER_STACK_BASE :: u64 where "USER_STACK_BASE = 0x00800000"
definition USER_STACK_SIZE :: u64 where "USER_STACK_SIZE = 32 * 1024"
definition USER_STACK_TOP :: u64 where "USER_STACK_TOP = USER_STACK_BASE + USER_STACK_SIZE"

definition fresh_pages :: "(u64 \<Rightarrow> u8) \<Rightarrow> u64 \<Rightarrow> u64 \<Rightarrow> bytes \<Rightarrow> bytes" where
  "fresh_pages raw virt len m = (\<lambda>a. if virt AND NOT (PAGE_SIZE - 1) \<le> a \<and> a < (virt + len + PAGE_SIZE - 1) AND NOT (PAGE_SIZE - 1) then Some (raw a) else m a)"

definition map_user :: "(u64 \<Rightarrow> u8) \<Rightarrow> u64 \<Rightarrow> u64 \<Rightarrow> u64 \<Rightarrow> vmm \<times> bytes \<Rightarrow> (vmm \<times> bytes) kres" where
  "map_user raw q virt len sm = (case sm of (s, m) \<Rightarrow> kbind (map_user_pages q virt len s) (\<lambda>s. Inr (s, fresh_pages raw virt len m)))"

text \<open>\<open>q\<close> is the pointer to the page tables; the result has the new \<^verbatim>\<open>heap_break\<close>.\<close>

definition map_elf64_header :: "(u64 \<Rightarrow> u8) \<Rightarrow> u64 \<Rightarrow> u64 \<Rightarrow> Elf64_ProgramHeader \<Rightarrow> u64 \<times> vmm \<times> bytes \<Rightarrow> (u64 \<times> vmm \<times> bytes) kres" where
  "map_elf64_header raw q file_buffer header st = (case st of (hb, s, m) \<Rightarrow>
     let virt = p_vaddr header; file_size = p_filesz header; mem_size = p_memsz header; offset = p_offset header in
     kbind (map_user raw q virt mem_size (s, m)) (\<lambda>(s, m).
     kbind (memcpy virt (file_buffer + offset) file_size m) (\<lambda>m.
     kbind (if mem_size > file_size then memset (virt + file_size) 0 (mem_size - file_size) m else Inr m) (\<lambda>m.
     let segment_end = virt + mem_size in
     Inr (if segment_end > hb then (segment_end + 0xFFF) AND NOT 0xFFF else hb, s, m)))))"

text \<open>Writing to the stack: eight bytes in little-endian order below the pointer, and the bytes of a string with its end.\<close>

fun st_list :: "u64 \<Rightarrow> u8 list \<Rightarrow> bytes \<Rightarrow> bytes kres" where
  "st_list a [] m = Inr m"
| "st_list a (b # bs) m = kbind (st8 a b m) (st_list (a + 1) bs)"

definition le_bytes :: "u64 \<Rightarrow> u8 list" where
  "le_bytes w = map (\<lambda>i. ucast (drop_bit (8 * i) w)) [0..<8]"

definition push64 :: "u64 \<Rightarrow> u64 \<times> bytes \<Rightarrow> (u64 \<times> bytes) kres" where
  "push64 w st = (case st of (stack, m) \<Rightarrow> kbind (st_list (stack - 8) (le_bytes w) m) (\<lambda>m. Inr (stack - 8, m)))"

definition push_string :: "u8 list \<Rightarrow> u64 \<times> bytes \<Rightarrow> (u64 \<times> bytes) kres" where
  "push_string str st = (case st of (stack, m) \<Rightarrow> let ptr = stack - of_nat (length str + 1) in
     kbind (st_list ptr str m) (\<lambda>m. kbind (st8 (ptr + of_nat (length str)) 0 m) (\<lambda>m. Inr (ptr, m))))"

fun push_strings :: "u8 list list \<Rightarrow> u64 list \<Rightarrow> u64 \<times> bytes \<Rightarrow> (u64 list \<times> u64 \<times> bytes) kres" where
  "push_strings [] ptrs st = Inr (ptrs, st)"
| "push_strings (str # strs) ptrs st = kbind (push_string str st) (\<lambda>st. push_strings strs (ptrs @ [fst st]) st)"

text \<open>The loops over \<^verbatim>\<open>i = size - 1, ..., 0\<close>.\<close>

fun push_words :: "u64 list \<Rightarrow> u64 \<times> bytes \<Rightarrow> (u64 \<times> bytes) kres" where
  "push_words [] st = Inr st"
| "push_words (w # ws) st = kbind (push_words ws st) (push64 w)"

text \<open>Both loops over strings append to \<^verbatim>\<open>argv_ptrs\<close>; \<^verbatim>\<open>envp_ptrs\<close> stays empty.\<close>

definition write_user_stack :: "u8 list list \<Rightarrow> u8 list list \<Rightarrow> bytes \<Rightarrow> (u64 \<times> bytes) kres" where
  "write_user_stack argv_strs envp_strs m =
     kbind (push64 0 (USER_STACK_TOP, m)) (\<lambda>st.
     kbind (push_strings envp_strs [] st) (\<lambda>(argv_ptrs, st). let envp_ptrs = [] in
     kbind (push_strings argv_strs argv_ptrs st) (\<lambda>(argv_ptrs, st).
     kbind (push64 0 st) (\<lambda>st. kbind (push64 0 st) (\<lambda>st. kbind (push64 0 st) (\<lambda>st.
     kbind (push_words envp_ptrs st) (\<lambda>st. kbind (push64 0 st) (\<lambda>st.
     kbind (push_words argv_ptrs st) (push64 (of_nat (length argv_strs)))))))))))"

definition build_user_stack :: "(u64 \<Rightarrow> u8) \<Rightarrow> u64 \<Rightarrow> u8 list list \<Rightarrow> u8 list list \<Rightarrow> vmm \<times> bytes \<Rightarrow> (u64 \<times> vmm \<times> bytes) kres" where
  "build_user_stack raw q argv_strs envp_strs sm = kbind (map_user raw q USER_STACK_BASE USER_STACK_SIZE sm) (\<lambda>(s, m).
     kbind (write_user_stack argv_strs envp_strs m) (\<lambda>(rsp, m). Inr (rsp, s, m)))"

text \<open>With new page tables the user half of the memory is empty.\<close>

definition no_user :: "bytes \<Rightarrow> bytes" where
  "no_user m = (\<lambda>a. if a < user_max_addr then None else m a)"

fun map_headers :: "(u64 \<Rightarrow> u8) \<Rightarrow> u64 \<Rightarrow> u64 \<Rightarrow> Elf64_ProgramHeader list \<Rightarrow> u64 \<times> vmm \<times> bytes \<Rightarrow> (u64 \<times> vmm \<times> bytes) kres" where
  "map_headers raw q file_buffer [] st = Inr st"
| "map_headers raw q file_buffer (h # hs) st = kbind (map_elf64_header raw q file_buffer h st) (map_headers raw q file_buffer hs)"

definition exec_elf64 :: "(u64 \<Rightarrow> u8) \<Rightarrow> u64 \<Rightarrow> u64 \<Rightarrow> u8 list list \<Rightarrow> u8 list list \<Rightarrow> process \<Rightarrow> vmm \<times> bytes \<Rightarrow> (process \<times> vmm \<times> bytes) kres" where
  "exec_elf64 raw trampoline file_buffer argv_strs envp_strs p sm = (case sm of (s, m) \<Rightarrow>
     kbind (kassert_not_null file_buffer) (\<lambda>_. kbind (parse_file m file_buffer) (\<lambda>elf64_file.
     if \<not> is_valid_elf elf64_file then Inl (Panic ''attempted to load an invalid ELF64 file'')
     else kbind (case pml4 p of None \<Rightarrow> Inr s | Some q \<Rightarrow> free_user_pml4 q s) (\<lambda>s.
     kbind (create_user_pml4 s) (\<lambda>(q, s). kbind (switch_pml4 q s) (\<lambda>s. kbind (create_user_heap q s) (\<lambda>(heap, s).
     let rsp = kernel_stack p + KERNEL_STACK_SIZE;
         p = p\<lparr>pml4 := Some q, state := NEW, wait_reason := W_NONE, exit_status := 0, heap_break := 0, wake_time_ns := 0, fs_base := 0, tidptr := 0, uheap := heap,
               kernel_rsp := rsp, context_frame := rsp - sizeof_ContextFrame, entry := elf_entry elf64_file\<rparr> in
     kbind (map_headers raw q file_buffer (program_headers elf64_file) (0, s, no_user m)) (\<lambda>(hb, s, m).
     kbind (build_user_stack raw q argv_strs envp_strs (s, m)) (\<lambda>(rsp, s, m).
     kbind (switch_pml4 (kernel_pml4 s) s) (\<lambda>s.
       Inr (build_synthetic_context_frame trampoline (p\<lparr>heap_break := hb, user_rsp := rsp\<rparr>), s, m)))))))))))"

section \<open>What is written to the stack\<close>

lemma unat_pred: "(x :: u64) \<noteq> a \<Longrightarrow> unat (x - a) = Suc (unat (x - (a + 1)))"
proof -
  assume "x \<noteq> a"
  then have n: "x - a \<noteq> 0" by simp
  have "x - (a + 1) = x - a - 1" by simp
  then have "unat (x - (a + 1)) = unat (x - a) - 1" by (simp only: unat_minus_one [OF n])
  moreover have "0 < unat (x - a)" using n by (simp add: unat_gt_0)
  ultimately show ?thesis by simp
qed

lemma unat_m1: "unat (- 1 :: u64) = 2 ^ 64 - 1"
  by (simp add: unsigned_minus_1_eq_mask mask_eq_exp_minus_1)

lemma stored_Cons: "length bs < 2 ^ 64 \<Longrightarrow> stored (a + 1) bs (m(a \<mapsto> b)) = stored a (b # bs) m"
proof
  fix x assume l: "length bs < 2 ^ 64"
  show "stored (a + 1) bs (m(a \<mapsto> b)) x = stored a (b # bs) m x"
  proof (cases "x = a")
    case True
    have "a - (a + 1) = - 1" by simp
    then have "\<not> unat (a - (a + 1)) < length bs" using l by (simp only: unat_m1)
    then show ?thesis using True unfolding stored_def by simp
  next
    case False
    then show ?thesis by (auto simp: stored_def unat_pred [OF False])
  qed
qed

lemma st_list_ok: "(\<forall>i < length bs. m (a + of_nat i) \<noteq> None) \<Longrightarrow> length bs \<le> 2 ^ 64 \<Longrightarrow> st_list a bs m = Inr (stored a bs m)"
proof (induction bs arbitrary: a m)
  case Nil
  then show ?case by (simp add: stored_def)
next
  case (Cons b bs)
  have "m a \<noteq> None" using Cons.prems(1) by (auto dest: spec [of _ 0])
  then have "st8 a b m = Inr (m(a \<mapsto> b))" by (auto simp: st8_def)
  moreover have "(m(a \<mapsto> b)) (a + 1 + of_nat i) \<noteq> None" if "i < length bs" for i
    using Cons.prems(1) [rule_format, of "Suc i"] that by (simp add: add.assoc)
  then have "st_list (a + 1) bs (m(a \<mapsto> b)) = Inr (stored (a + 1) bs (m(a \<mapsto> b)))" using Cons.IH Cons.prems(2) by simp
  ultimately show ?case using stored_Cons [of bs a m b] Cons.prems(2) by simp
qed

lemma st_list_append: "st_list a (bs @ cs) m = kbind (st_list a bs m) (st_list (a + of_nat (length bs)) cs)"
proof (induction bs arbitrary: a m)
  case (Cons b bs)
  then show ?case by (cases "st8 a b m") (simp_all add: add.assoc)
qed simp

text \<open>Everything goes below what is there already, so that the stack is one list of bytes.\<close>

definition puts :: "u8 list \<Rightarrow> u64 \<times> bytes \<Rightarrow> u64 \<times> bytes" where
  "puts bs st = (case st of (sp, m) \<Rightarrow> (sp - of_nat (length bs), stored (sp - of_nat (length bs)) bs m))"

lemma stored_append:
  assumes "length bs + length cs \<le> 2 ^ 64"
  shows "stored a bs (stored (a + of_nat (length bs)) cs m) = stored a (bs @ cs) m"
proof
  fix x
  show "stored a bs (stored (a + of_nat (length bs)) cs m) x = stored a (bs @ cs) m x"
    using assms
  proof (induction bs arbitrary: a)
    case Nil
    then show ?case by (simp add: stored_def)
  next
    case (Cons b bs)
    show ?case
    proof (cases "x = a")
      case True
      then show ?thesis by (simp add: stored_def)
    next
      case False
      have e: "stored a (b # bs) m' x = stored (a + 1) bs m' x" "stored a ((b # bs) @ cs) m x = stored (a + 1) (bs @ cs) m x" for m'
        using unat_pred [OF False] by (simp_all add: stored_def)
      have "a + 1 + of_nat (length bs) = a + of_nat (length (b # bs))" by (simp add: add.assoc)
      then show ?thesis using Cons.IH [of "a + 1"] Cons.prems unfolding e by (simp add: add.assoc)
    qed
  qed
qed

lemma puts_puts: "length bs + length cs \<le> 2 ^ 64 \<Longrightarrow> puts bs (puts cs st) = puts (bs @ cs) st"
proof (cases st)
  case (Pair sp m)
  assume l: "length bs + length cs \<le> 2 ^ 64"
  let ?a = "sp - of_nat (length cs) - of_nat (length bs)"
  have "?a + of_nat (length bs) = sp - of_nat (length cs)" by simp
  then show ?thesis using stored_append [OF l, of ?a m] Pair by (simp add: puts_def diff_diff_eq add.commute)
qed

definition stack_mapped :: "bytes \<Rightarrow> bool" where
  "stack_mapped m \<longleftrightarrow> (\<forall>x. USER_STACK_BASE \<le> x \<longrightarrow> x < USER_STACK_TOP \<longrightarrow> m x \<noteq> None)"

text \<open>\<open>room k st\<close>: the pointer is in the stack with \<open>k\<close> bytes below it.\<close>

definition room :: "nat \<Rightarrow> u64 \<times> bytes \<Rightarrow> bool" where
  "room k st \<longleftrightarrow> stack_mapped (snd st) \<and> unat USER_STACK_BASE + k \<le> unat (fst st) \<and> unat (fst st) \<le> unat USER_STACK_TOP"

lemma stack_bounds: "unat USER_STACK_BASE = 0x800000" "unat USER_STACK_TOP = 0x808000"
  by (simp_all add: USER_STACK_BASE_def USER_STACK_TOP_def USER_STACK_SIZE_def)

lemma unat_diff_nat: "k \<le> unat (a :: u64) \<Longrightarrow> unat (a - of_nat k) = unat a - k"
proof -
  assume k: "k \<le> unat a"
  have "unat a < 2 ^ LENGTH(64)" by (rule unsigned_less)
  then have "unat (of_nat k :: u64) = k" using k by (simp add: unsigned_of_nat take_bit_nat_eq_self)
  then show ?thesis using k by (simp add: unat_sub word_le_nat_alt)
qed

lemma room_puts:
  assumes "room (k + length bs) st"
  shows "room k (puts bs st)" "st_list (fst st - of_nat (length bs)) bs (snd st) = Inr (snd (puts bs st))"
proof -
  obtain sp m where st: "st = (sp, m)" by (cases st)
  have r: "stack_mapped m" "0x800000 + k + length bs \<le> unat sp" "unat sp \<le> 0x808000" using assms by (simp_all add: room_def st stack_bounds)
  let ?a = "sp - of_nat (length bs)"
  have a: "unat ?a = unat sp - length bs" using r(2) by (intro unat_diff_nat) simp
  have "m (?a + of_nat i) \<noteq> None" if i: "i < length bs" for i
  proof -
    have "unat (?a + of_nat i) = unat ?a + i" using a i r by (intro unat_offset) simp
    then have "USER_STACK_BASE \<le> ?a + of_nat i" "?a + of_nat i < USER_STACK_TOP" using a i r by (simp_all add: word_le_nat_alt word_less_nat_alt stack_bounds)
    then show ?thesis using r(1) by (simp add: stack_mapped_def)
  qed
  then show "st_list (fst st - of_nat (length bs)) bs (snd st) = Inr (snd (puts bs st))" using st_list_ok [of bs m ?a] r by (simp add: st puts_def)
  have "stack_mapped (stored ?a bs m)" using r(1) by (simp add: stack_mapped_def stored_def)
  then show "room k (puts bs st)" using a r(2,3) by (auto simp: room_def st puts_def stack_bounds)
qed

lemma length_le_bytes [simp]: "length (le_bytes w) = 8"
  by (simp add: le_bytes_def)

lemma push64_puts: "room (k + 8) st \<Longrightarrow> push64 w st = Inr (puts (le_bytes w) st) \<and> room k (puts (le_bytes w) st)"
  using room_puts [of k "le_bytes w" st] by (cases st) (auto simp: push64_def puts_def)

lemma push_string_puts: "room (k + length str + 1) st \<Longrightarrow> push_string str st = Inr (puts (str @ [0]) st) \<and> room k (puts (str @ [0]) st)"
proof -
  assume "room (k + length str + 1) st"
  then have r: "room (k + length (str @ [0])) st" by simp
  obtain sp m where st: "st = (sp, m)" by (cases st)
  let ?ptr = "sp - of_nat (length str + 1)"
  have "st_list ?ptr (str @ [0]) m = kbind (st_list ?ptr str m) (\<lambda>m. st8 (?ptr + of_nat (length str)) 0 m)"
    by (simp add: st_list_append kbind_def split: sum.splits)
  moreover have "kbind (kbind f g) h = kbind f (\<lambda>x. kbind (g x) h)" for f :: "bytes kres" and g :: "bytes \<Rightarrow> bytes kres" and h :: "bytes \<Rightarrow> (u64 \<times> bytes) kres"
    by (cases f) simp_all
  ultimately have "push_string str st = kbind (st_list ?ptr (str @ [0]) m) (\<lambda>m. Inr (?ptr, m))" by (simp add: push_string_def st Let_def)
  then show ?thesis using room_puts [OF r] by (simp add: st puts_def)
qed

fun str_ptrs :: "u64 \<Rightarrow> u8 list list \<Rightarrow> u64 list" where
  "str_ptrs sp [] = []"
| "str_ptrs sp (str # strs) = (let ptr = sp - of_nat (length str + 1) in ptr # str_ptrs ptr strs)"

definition strings_image :: "u8 list list \<Rightarrow> u8 list" where
  "strings_image strs = concat (map (\<lambda>str. str @ [0]) (rev strs))"

lemma strings_image_Cons: "strings_image (str # strs) = strings_image strs @ str @ [0]"
  by (simp add: strings_image_def)

lemma push_strings_puts:
  "room (k + length (strings_image strs)) st \<Longrightarrow> push_strings strs ptrs st = Inr (ptrs @ str_ptrs (fst st) strs, puts (strings_image strs) st) \<and> room k (puts (strings_image strs) st)"
proof (induction strs arbitrary: ptrs st)
  case Nil
  then show ?case by (cases st) (simp add: strings_image_def puts_def stored_def)
next
  case (Cons str strs)
  have r: "room ((k + length (strings_image strs)) + length str + 1) st" using Cons.prems by (simp add: strings_image_Cons ac_simps)
  note p = push_string_puts [OF r]
  have "length (strings_image strs) + length (str @ [0]) \<le> 2 ^ 64" using r by (simp add: room_def stack_bounds)
  then have "puts (strings_image strs) (puts (str @ [0]) st) = puts (strings_image (str # strs)) st" by (simp add: puts_puts strings_image_Cons)
  moreover have "fst (puts (str @ [0]) st) = fst st - of_nat (length str + 1)" by (cases st) (simp add: puts_def)
  ultimately show ?case using p Cons.IH [of "puts (str @ [0]) st" "ptrs @ [fst (puts (str @ [0]) st)]"] by (simp add: Let_def)
qed

lemma push_words_puts: "room (k + 8 * length ws) st \<Longrightarrow> push_words ws st = Inr (puts (concat (map le_bytes ws)) st) \<and> room k (puts (concat (map le_bytes ws)) st)"
proof (induction ws arbitrary: k)
  case Nil
  then show ?case by (cases st) (simp add: puts_def stored_def)
next
  case (Cons w ws)
  have len: "length (concat (map le_bytes ws)) = 8 * length ws" by (induction ws) simp_all
  have "room ((k + 8) + 8 * length ws) st" using Cons.prems by (simp add: ac_simps)
  then have p: "push_words ws st = Inr (puts (concat (map le_bytes ws)) st)" "room (k + 8) (puts (concat (map le_bytes ws)) st)" using Cons.IH by auto
  have "8 + length (concat (map le_bytes ws)) \<le> 2 ^ 64" using Cons.prems by (simp add: len room_def stack_bounds)
  then have "puts (le_bytes w) (puts (concat (map le_bytes ws)) st) = puts (concat (map le_bytes (w # ws))) st" by (simp add: puts_puts)
  then show ?case using p push64_puts [OF p(2), of w] by simp
qed

text \<open>What is read back: a word of eight bytes, a word of an array, a string.\<close>

lemma low_byte_or_rest: "(ucast (ucast (w :: u64) :: u8) :: u64) OR push_bit 8 (take_bit k (drop_bit 8 w)) = take_bit (8 + k) w"
proof (rule bit_word_eqI)
  fix n assume "n < LENGTH(64)"
  then show "bit ((ucast (ucast w :: u8) :: u64) OR push_bit 8 (take_bit k (drop_bit 8 w))) n = bit (take_bit (8 + k) w) n"
    by (cases "n < 8") (auto simp: bit_simps)
qed

lemma ld_le_digits: "range_is m a (map (\<lambda>i. ucast (drop_bit (8 * i) w)) [j..<j + k]) \<Longrightarrow> ld_le k m a = Inr (take_bit (8 * k) (drop_bit (8 * j) w))"
proof (induction k arbitrary: a j)
  case (Suc k)
  have "[j..<j + Suc k] = j # [Suc j..<Suc j + k]" by (simp add: upt_conv_Cons)
  then have "m a = Some (ucast (drop_bit (8 * j) w))" "range_is m (a + 1) (map (\<lambda>i. ucast (drop_bit (8 * i) w)) [Suc j..<Suc j + k])"
    using Suc.prems by simp_all
  then show ?case using Suc.IH [of "a + 1" "Suc j"] low_byte_or_rest [of "drop_bit (8 * j) w" "8 * k"] by (simp add: ld8_def)
qed simp

lemma ld_le_bytes: "range_is m a (le_bytes w) \<Longrightarrow> ld_le 8 m a = Inr w"
  using ld_le_digits [of m a w 0 8] take_bit_word_eq_self [of 64 w] by (simp add: le_bytes_def)

lemma ld_words:
  "range_is m a (concat (map le_bytes ws)) \<Longrightarrow> j < length ws \<Longrightarrow> ld_le 8 m (a + 8 * of_nat j) = Inr (ws ! j)"
proof (induction ws arbitrary: a j)
  case (Cons w ws)
  then have r: "range_is m a (le_bytes w)" "range_is m (a + 8) (concat (map le_bytes ws))" by (simp_all add: range_is_append)
  show ?case
  proof (cases j)
    case 0
    then show ?thesis using ld_le_bytes [OF r(1)] by simp
  next
    case (Suc i)
    then show ?thesis using Cons.IH [OF r(2), of i] Cons.prems(2) by (simp add: algebra_simps)
  qed
qed simp

lemma range_is_str_ptrs:
  "range_is m (sp - of_nat (length (strings_image strs))) (strings_image strs) \<Longrightarrow> j < length strs \<Longrightarrow> range_is m (str_ptrs sp strs ! j) (strs ! j @ [0])"
proof (induction strs arbitrary: sp j)
  case (Cons str strs)
  let ?p = "sp - of_nat (length str + 1)"
  let ?q = "?p - of_nat (length (strings_image strs))"
  have e: "sp - of_nat (length (strings_image (str # strs))) = ?q" "?q + of_nat (length (strings_image strs)) = ?p" by (simp_all add: strings_image_Cons algebra_simps)
  have "range_is m ?q (strings_image strs @ str @ [0])" using Cons.prems(1) unfolding e by (simp only: strings_image_Cons)
  then have r: "range_is m ?q (strings_image strs)" "range_is m ?p (str @ [0])" unfolding range_is_append [of _ _ "strings_image strs"] e by simp_all
  show ?case
  proof (cases j)
    case 0
    then show ?thesis using r(2) by (simp add: Let_def)
  next
    case (Suc i)
    then show ?thesis using Cons.IH [OF r(1), of i] Cons.prems(2) by (simp add: Let_def)
  qed
qed simp

lemma length_str_ptrs [simp]: "length (str_ptrs sp strs) = length strs"
  by (induction strs arbitrary: sp) (simp_all add: Let_def)

lemma str_ptrs_append: "str_ptrs sp (xs @ ys) = str_ptrs sp xs @ str_ptrs (sp - of_nat (length (strings_image xs))) ys"
  by (induction xs arbitrary: sp) (simp_all add: Let_def strings_image_Cons strings_image_def algebra_simps)

text \<open>All the words below the strings, and all the bytes of the stack.\<close>

definition stack_words :: "u8 list list \<Rightarrow> u8 list list \<Rightarrow> u64 list" where
  "stack_words argv envp = of_nat (length argv) # str_ptrs (USER_STACK_TOP - 8) (envp @ argv) @ [0, 0, 0, 0]"

definition stack_image :: "u8 list list \<Rightarrow> u8 list list \<Rightarrow> u8 list" where
  "stack_image argv envp = concat (map le_bytes (stack_words argv envp)) @ strings_image (envp @ argv) @ le_bytes 0"

lemma length_words [simp]: "length (concat (map le_bytes ws)) = 8 * length ws"
  by (induction ws) simp_all

lemma strings_image_append: "strings_image (xs @ ys) = strings_image ys @ strings_image xs"
  by (simp add: strings_image_def)

lemma write_user_stack_puts:
  assumes "stack_mapped m" "length (stack_image argv envp) \<le> 0x8000"
  shows "write_user_stack argv envp m = Inr (puts (stack_image argv envp) (USER_STACK_TOP, m))"
proof -
  let ?E = "strings_image envp" and ?A = "strings_image argv" and ?z = "le_bytes 0"
  let ?n = "8 * (length envp + length argv)"
  let ?ps = "str_ptrs (USER_STACK_TOP - 8) (envp @ argv)"
  have len: "?n + length ?E + length ?A + 48 \<le> 0x8000" using assms(2) by (simp add: stack_image_def stack_words_def strings_image_append)
  define s0 where "s0 = (USER_STACK_TOP, m)"
  have r0: "room ((?n + 40 + length ?A + length ?E) + 8) s0" using assms(1) len by (simp add: room_def stack_bounds s0_def)
  define s1 where "s1 = puts ?z s0"
  have p1: "push64 0 s0 = Inr s1" "room ((?n + 40 + length ?A) + length ?E) s1" using push64_puts [OF r0] by (simp_all add: s1_def)
  define s2 where "s2 = puts ?E s1"
  have p2: "push_strings envp [] s1 = Inr (str_ptrs (fst s1) envp, s2)" "room ((?n + 40) + length ?A) s2" using push_strings_puts [OF p1(2)] by (simp_all add: s2_def)
  define s3 where "s3 = puts ?A s2"
  have f: "fst s1 = USER_STACK_TOP - 8" "fst s2 = USER_STACK_TOP - 8 - of_nat (length ?E)" by (simp_all add: s2_def s1_def s0_def puts_def)
  have p3: "push_strings argv (str_ptrs (fst s1) envp) s2 = Inr (?ps, s3)" "room ((?n + 32) + 8) s3"
    using push_strings_puts [OF p2(2)] by (simp_all add: s3_def str_ptrs_append f ac_simps)
  define s4 where "s4 = puts ?z s3"
  have p4: "push64 0 s3 = Inr s4" "room ((?n + 24) + 8) s4" using push64_puts [OF p3(2)] by (simp_all add: s4_def ac_simps)
  define s5 where "s5 = puts ?z s4"
  have p5: "push64 0 s4 = Inr s5" "room ((?n + 16) + 8) s5" using push64_puts [OF p4(2)] by (simp_all add: s5_def ac_simps)
  define s6 where "s6 = puts ?z s5"
  have p6: "push64 0 s5 = Inr s6" "room ((?n + 8) + 8) s6" using push64_puts [OF p5(2)] by (simp_all add: s6_def ac_simps)
  define s7 where "s7 = puts ?z s6"
  have p7: "push64 0 s6 = Inr s7" "room (8 + 8 * length ?ps) s7" using push64_puts [OF p6(2)] by (simp_all add: s7_def algebra_simps)
  define s8 where "s8 = puts (concat (map le_bytes ?ps)) s7"
  have p8: "push_words ?ps s7 = Inr s8" "room (0 + 8) s8" using push_words_puts [OF p7(2)] by (simp_all add: s8_def)
  have p9: "push64 (of_nat (length argv)) s8 = Inr (puts (le_bytes (of_nat (length argv))) s8)" using push64_puts [OF p8(2)] by simp
  have "write_user_stack argv envp m = Inr (puts (le_bytes (of_nat (length argv))) s8)"
    using p1(1) p2(1) p3(1) p4(1) p5(1) p6(1) p7(1) p8(1) p9 by (simp add: write_user_stack_def s0_def Let_def)
  also have "puts (le_bytes (of_nat (length argv))) s8 = puts (stack_image argv envp) s0"
    using len by (simp add: s8_def s7_def s6_def s5_def s4_def s3_def s2_def s1_def puts_puts stack_image_def stack_words_def strings_image_append)
  finally show ?thesis by (simp add: s0_def)
qed

lemma stack_mapped_fresh: "stack_mapped (fresh_pages raw USER_STACK_BASE USER_STACK_SIZE m)"
proof -
  have "USER_STACK_BASE AND NOT (PAGE_SIZE - 1) = USER_STACK_BASE" "(USER_STACK_BASE + USER_STACK_SIZE + PAGE_SIZE - 1) AND NOT (PAGE_SIZE - 1) = USER_STACK_TOP"
    by (simp_all add: USER_STACK_BASE_def USER_STACK_SIZE_def USER_STACK_TOP_def PAGE_SIZE_def)
  then show ?thesis by (simp add: stack_mapped_def fresh_pages_def)
qed

lemma stored_out:
  assumes "length bs \<le> unat (hi :: u64)" "x < hi - of_nat (length bs) \<or> hi \<le> x"
  shows "stored (hi - of_nat (length bs)) bs m x = m x"
proof -
  define a where "a = hi - of_nat (length bs)"
  have a: "unat a = unat hi - length bs" unfolding a_def using assms(1) by (rule unat_diff_nat)
  have u: "unat x < 2 ^ LENGTH(64)" "unat hi < 2 ^ LENGTH(64)" by (rule unsigned_less)+
  have "\<not> unat (x - a) < length bs" using a assms u unfolding a_def [symmetric] by (auto simp: unat_sub_if_size word_size word_less_nat_alt word_le_nat_alt)
  then show ?thesis by (simp add: stored_def a_def)
qed

lemma build_user_stack_eq:
  assumes "length (stack_image argv envp) \<le> 0x8000"
  shows "build_user_stack raw q argv envp (s, m) = kbind (map_user_pages q USER_STACK_BASE USER_STACK_SIZE s) (\<lambda>s'.
    Inr (USER_STACK_TOP - of_nat (length (stack_image argv envp)), s',
      stored (USER_STACK_TOP - of_nat (length (stack_image argv envp))) (stack_image argv envp) (fresh_pages raw USER_STACK_BASE USER_STACK_SIZE m)))"
  using write_user_stack_puts [OF stack_mapped_fresh assms]
  by (cases "map_user_pages q USER_STACK_BASE USER_STACK_SIZE s") (simp_all add: build_user_stack_def map_user_def puts_def)

text \<open>
  C6: When the strings and the pointers to them fit into the 32 KiB of the stack, \<^verbatim>\<open>build_user_stack\<close> maps the stack and leaves in it, from \<^verbatim>\<open>user_rsp\<close> on, the number of arguments, the pointers to all the strings
  of the environment followed by those of the arguments, and four zero words; each pointer points to its string with an end. Nothing outside the stack's used part changes. So the first entries of what the program
  takes for \<^verbatim>\<open>argv\<close> are the strings of the environment, and its environment is empty.
\<close>

theorem build_user_stack_layout:
  assumes "length (stack_image argv envp) \<le> unat USER_STACK_SIZE"
  shows "\<exists>rsp ptrs m'. build_user_stack raw q argv envp (s, m) = kbind (map_user_pages q USER_STACK_BASE USER_STACK_SIZE s) (\<lambda>s'. Inr (rsp, s', m')) \<and>
    rsp = USER_STACK_TOP - of_nat (length (stack_image argv envp)) \<and> length ptrs = length envp + length argv \<and>
    (let words = of_nat (length argv) # ptrs @ [0, 0, 0, 0] in \<forall>j < length words. ld_le 8 m' (rsp + 8 * of_nat j) = Inr (words ! j)) \<and>
    (\<forall>j < length ptrs. range_is m' (ptrs ! j) ((envp @ argv) ! j @ [0])) \<and>
    (\<forall>x. x < rsp \<or> USER_STACK_TOP \<le> x \<longrightarrow> m' x = fresh_pages raw USER_STACK_BASE USER_STACK_SIZE m x)"
proof -
  let ?m = "fresh_pages raw USER_STACK_BASE USER_STACK_SIZE m" and ?im = "stack_image argv envp" and ?ws = "concat (map le_bytes (stack_words argv envp))"
  let ?rsp = "USER_STACK_TOP - of_nat (length ?im)" and ?ptrs = "str_ptrs (USER_STACK_TOP - 8) (envp @ argv)" and ?S = "strings_image (envp @ argv)"
  define m' where "m' = stored ?rsp ?im ?m"
  have l: "length ?im \<le> 0x8000" using assms by (simp add: USER_STACK_SIZE_def)
  have b: "build_user_stack raw q argv envp (s, m) = kbind (map_user_pages q USER_STACK_BASE USER_STACK_SIZE s) (\<lambda>s'. Inr (?rsp, s', m'))"
    unfolding m'_def using l by (rule build_user_stack_eq)
  have "range_is m' ?rsp ?im" using range_is_stored [of "[]" ?im ?rsp ?m] l by (simp add: m'_def)
  then have r: "range_is m' ?rsp ?ws" "range_is m' (?rsp + of_nat (length ?ws)) ?S" by (simp_all add: stack_image_def range_is_append)
  have e: "?rsp + of_nat (length ?ws) = USER_STACK_TOP - 8 - of_nat (length ?S)" by (simp add: stack_image_def)
  have "\<forall>j < length ?ptrs. range_is m' (?ptrs ! j) ((envp @ argv) ! j @ [0])" using range_is_str_ptrs [of m' "USER_STACK_TOP - 8" "envp @ argv"] r(2) unfolding e by simp
  moreover have "\<forall>j < length (stack_words argv envp). ld_le 8 m' (?rsp + 8 * of_nat j) = Inr (stack_words argv envp ! j)" using ld_words [OF r(1)] by simp
  moreover have "\<forall>x. x < ?rsp \<or> USER_STACK_TOP \<le> x \<longrightarrow> m' x = ?m x" using stored_out [of ?im USER_STACK_TOP] l by (simp add: m'_def stack_bounds)
  ultimately show ?thesis using b by (intro exI [of _ ?rsp] exI [of _ ?ptrs] exI [of _ m']) (simp add: stack_words_def Let_def)
qed

theorem build_user_stack_layout_witness:
  "\<forall>raw q s m. \<exists>rsp m' ptr. build_user_stack raw q [[97]] [[69]] (s, m) = kbind (map_user_pages q USER_STACK_BASE USER_STACK_SIZE s) (\<lambda>s'. Inr (rsp, s', m')) \<and>
     rsp mod 16 \<noteq> 0 \<and> ld_le 8 m' rsp = Inr 1 \<and> ld_le 8 m' (rsp + 8) = Inr ptr \<and> range_is m' ptr [69, 0]"
proof (intro allI)
  fix raw q s m
  have l: "length (stack_image [[97]] [[69]]) = 68" by (simp add: stack_image_def stack_words_def strings_image_def)
  have sz: "length (stack_image [[97]] [[69]]) \<le> unat USER_STACK_SIZE" unfolding l by (simp add: USER_STACK_SIZE_def)
  obtain rsp ptrs m' where b: "build_user_stack raw q [[97]] [[69]] (s, m) = kbind (map_user_pages q USER_STACK_BASE USER_STACK_SIZE s) (\<lambda>s'. Inr (rsp, s', m'))"
    "rsp = USER_STACK_TOP - of_nat (length (stack_image [[97]] [[69]]))" "length ptrs = length [[69 :: u8]] + length [[97 :: u8]]"
    "let words = of_nat (length [[97 :: u8]]) # ptrs @ [0, 0, 0, 0] in \<forall>j < length words. ld_le 8 m' (rsp + 8 * of_nat j) = Inr (words ! j)"
    "\<forall>j < length ptrs. range_is m' (ptrs ! j) (([[69]] @ [[97]]) ! j @ [0])"
    using build_user_stack_layout [OF sz, of raw q s m] by (elim exE conjE) (rule that)
  obtain p p2 where p: "ptrs = [p, p2]" using b(3) by (auto simp: length_Suc_conv numeral_2_eq_2)
  have j: "ld_le 8 m' (rsp + 8 * of_nat j) = Inr ((1 # ptrs @ [0, 0, 0, 0]) ! j)" if "j < 7" for j using b(4) that by (simp add: p Let_def)
  have "rsp mod 16 \<noteq> 0" unfolding b(2) l by (simp add: USER_STACK_TOP_def USER_STACK_BASE_def USER_STACK_SIZE_def)
  then show "\<exists>rsp m' ptr. build_user_stack raw q [[97]] [[69]] (s, m) = kbind (map_user_pages q USER_STACK_BASE USER_STACK_SIZE s) (\<lambda>s'. Inr (rsp, s', m')) \<and>
     rsp mod 16 \<noteq> 0 \<and> ld_le 8 m' rsp = Inr 1 \<and> ld_le 8 m' (rsp + 8) = Inr ptr \<and> range_is m' ptr [69, 0]"
    using b(1) j [of 0] j [of 1] b(5) [rule_format, of 0] by (intro exI [of _ rsp] exI [of _ m'] exI [of _ p]) (simp add: p)
qed

section \<open>What the segments leave in memory\<close>

definition seg_pages :: "u64 \<Rightarrow> u64 \<Rightarrow> nat set" where
  "seg_pages virt len = {unat virt div 4096..<(unat virt + unat len + 4095) div 4096}"

definition segment_ok :: "u64 \<Rightarrow> bytes \<Rightarrow> Elf64_ProgramHeader \<Rightarrow> bool" where
  "segment_ok file_buffer m h \<longleftrightarrow> p_filesz h \<le> p_memsz h \<and> unat (p_vaddr h) + unat (p_memsz h) + 4096 \<le> 2 ^ 47 \<and>
     mapped_range m (file_buffer + p_offset h) (unat (p_filesz h)) \<and> user_max_addr \<le> file_buffer + p_offset h"

definition load_segment :: "(u64 \<Rightarrow> u8) \<Rightarrow> u64 \<Rightarrow> Elf64_ProgramHeader \<Rightarrow> bytes \<Rightarrow> bytes" where
  "load_segment raw file_buffer h m a = (if unat (a - p_vaddr h) < unat (p_filesz h) then m (file_buffer + p_offset h + (a - p_vaddr h))
     else if unat (a - p_vaddr h) < unat (p_memsz h) then Some 0 else fresh_pages raw (p_vaddr h) (p_memsz h) m a)"

lemma fresh_pages_page:
  assumes "unat virt + unat len + 4096 \<le> 2 ^ 64"
  shows "fresh_pages raw virt len m a = (if unat a div 4096 \<in> seg_pages virt len then Some (raw a) else m a)"
proof -
  have "unat (virt + len + PAGE_SIZE - 1) = unat virt + unat len + 4095"
  proof -
    have e: "virt + len + PAGE_SIZE - 1 = virt + len + of_nat 4095" by (simp add: PAGE_SIZE_def)
    have "unat (virt + len) = unat virt + unat len" using assms by (simp add: unat_word_ariths)
    then show ?thesis unfolding e using unat_offset [of "virt + len" 4095] assms by simp
  qed
  then show ?thesis
    by (simp add: fresh_pages_def seg_pages_def word_le_nat_alt word_less_nat_alt unat_low_bits less_eq_div_iff_mult_less_eq div_less_iff_less_mult)
qed

lemma seg_pages_in: "k < unat len \<Longrightarrow> (unat virt + k) div 4096 \<in> seg_pages virt len"
proof -
  assume k: "k < unat len"
  have "(unat virt + k) div 4096 + 1 = (unat virt + k + 4096) div 4096" by simp
  also have "\<dots> \<le> (unat virt + unat len + 4095) div 4096" using k by (intro div_le_mono) simp
  finally show ?thesis by (simp add: seg_pages_def div_le_mono)
qed

text \<open>The place of an address in a segment.\<close>

lemma in_segment:
  assumes "unat virt + unat len + 4096 \<le> 2 ^ 64" "unat (a - virt) < unat len"
  shows "unat a = unat virt + unat (a - virt)" "unat a div 4096 \<in> seg_pages virt len"
proof -
  have "a = virt + of_nat (unat (a - virt))" by simp
  then show e: "unat a = unat virt + unat (a - virt)" using unat_offset [of virt "unat (a - virt)"] assms by simp
  show "unat a div 4096 \<in> seg_pages virt len" unfolding e using seg_pages_in [OF assms(2)] .
qed

lemma fresh_kernel:
  assumes "unat virt + unat len + 4096 \<le> 2 ^ 47" "user_max_addr \<le> a"
  shows "fresh_pages raw virt len m a = m a"
proof -
  have "2 ^ 47 div 4096 \<le> unat a div 4096" using assms(2) by (intro div_le_mono) (simp add: word_le_nat_alt user_max_addr_def)
  moreover have "(unat virt + unat len + 4095) div 4096 \<le> 2 ^ 47 div 4096" using assms(1) by (intro div_le_mono) simp
  ultimately have "unat a div 4096 \<notin> seg_pages virt len" by (simp add: seg_pages_def)
  then show ?thesis using fresh_pages_page [of virt len raw m a] assms(1) by simp
qed

lemma offset_window:
  assumes "(n :: u64) \<le> l"
  shows "unat (x - n) < unat (l - n) \<longleftrightarrow> unat n \<le> unat x \<and> unat x < unat l"
proof -
  have "unat (l - n) = unat l - unat n" using assms by (simp add: unat_sub)
  moreover have "unat l < 2 ^ LENGTH(64)" by (rule unsigned_less)
  ultimately show ?thesis using assms by (auto simp: unat_sub_if_size word_size word_le_nat_alt)
qed

text \<open>One segment: the pages are mapped, the bytes of the file copied, the rest cleared.\<close>

lemma map_elf64_header_ok:
  assumes ok: "segment_ok file_buffer m h"
  shows "map_elf64_header raw q file_buffer h (hb, s, m) = kbind (map_user_pages q (p_vaddr h) (p_memsz h) s) (\<lambda>s.
    Inr (if p_vaddr h + p_memsz h > hb then (p_vaddr h + p_memsz h + 0xFFF) AND NOT 0xFFF else hb, s, load_segment raw file_buffer h m))"
proof -
  let ?v = "p_vaddr h" and ?l = "p_memsz h" and ?n = "p_filesz h" and ?src = "file_buffer + p_offset h"
  let ?m1 = "fresh_pages raw ?v ?l m" and ?m2 = "copied ?v ?src {..<unat ?n} (fresh_pages raw ?v ?l m)"
  have b: "unat ?v + unat ?l + 4096 \<le> 2 ^ 47" "unat ?n \<le> unat ?l" "mapped_range m ?src (unat ?n)" "user_max_addr \<le> ?src"
    using ok by (simp_all add: segment_ok_def word_le_nat_alt)
  have b64: "unat ?v + unat ?l + 4096 \<le> 2 ^ 64" using b(1) by simp
  have um: "unat user_max_addr = 2 ^ 47" by (simp add: user_max_addr_def)
  have src: "?m1 (?src + of_nat i) = m (?src + of_nat i)" if "i < unat ?n" for i
  proof -
    have "unat (?src + of_nat i) = unat ?src + i" using b(3) that by (intro unat_offset) (simp add: mapped_range_def)
    then show ?thesis using fresh_kernel [OF b(1)] b(4) by (simp add: word_le_nat_alt)
  qed
  have dst: "?m1 (?v + of_nat i) \<noteq> None" if "i < unat ?l" for i
  proof -
    have "unat (?v + of_nat i) = unat ?v + i" using b64 that by (intro unat_offset) simp
    then show ?thesis using fresh_pages_page [OF b64] seg_pages_in [OF that] by simp
  qed
  have "mapped_range ?m1 ?src (unat ?n)" using b(3) src by (simp add: mapped_range_def)
  moreover have "mapped_range ?m1 ?v (unat ?n)" using dst b by (simp add: mapped_range_def)
  moreover have "\<not> (?src < ?v \<and> unat ?v < unat ?src + unat ?n)" using b(1,4) um by (simp add: word_less_nat_alt word_le_nat_alt)
  ultimately have cp: "memcpy ?v ?src ?n ?m1 = Inr ?m2" unfolding memcpy_def by (rule copy_up)
  have c2: "?m2 a = (if unat (a - ?v) < unat ?n then m (?src + (a - ?v)) else ?m1 a)" for a
    using src [of "unat (a - ?v)"] by (simp add: copied_def)
  have clear: "mapped_range ?m2 (?v + ?n) (unat (?l - ?n))" if lt: "?l > ?n"
  proof -
    have d: "unat (?l - ?n) = unat ?l - unat ?n" using lt by (simp add: unat_sub word_le_nat_alt word_less_nat_alt)
    have vn: "unat (?v + ?n) = unat ?v + unat ?n" using b64 b(2) by (simp add: unat_word_ariths)
    have "?m2 (?v + ?n + of_nat i) \<noteq> None" if i: "i < unat ?l - unat ?n" for i
    proof -
      have e: "?v + ?n + of_nat i = ?v + of_nat (unat ?n + i)" by simp
      have "unat (?v + of_nat (unat ?n + i) - ?v) = unat ?n + i" using i b64 by (simp add: unat_of_nat del: of_nat_add)
      then show ?thesis unfolding c2 e using dst [of "unat ?n + i"] i by (simp del: of_nat_add)
    qed
    then show ?thesis using b64 b(2) by (simp add: mapped_range_def d vn)
  qed
  have ms: "(if ?l > ?n then memset (?v + ?n) 0 (?l - ?n) ?m2 else Inr ?m2) = Inr (load_segment raw file_buffer h m)"
  proof (cases "?l > ?n")
    case True
    have "memset (?v + ?n) 0 (?l - ?n) ?m2 = Inr (\<lambda>a. if unat (a - (?v + ?n)) < unat (?l - ?n) then Some (word_of_int 0) else ?m2 a)" using True by (intro memset_fills clear)
    moreover have "(if unat (a - (?v + ?n)) < unat (?l - ?n) then Some (word_of_int 0) else ?m2 a) = load_segment raw file_buffer h m a" for a
      using offset_window [of ?n ?l "a - ?v"] b(2) by (simp add: load_segment_def c2 diff_diff_eq word_le_nat_alt)
    ultimately show ?thesis using True by simp
  next
    case False
    then have "unat ?n = unat ?l" using b(2) by (simp add: word_less_nat_alt)
    then have "?m2 a = load_segment raw file_buffer h m a" for a unfolding c2 load_segment_def by simp
    then have "?m2 = load_segment raw file_buffer h m" by (rule ext)
    then show ?thesis using False by simp
  qed
  show ?thesis using cp ms by (cases "map_user_pages q ?v ?l s") (simp_all add: map_elf64_header_def map_user_def Let_def)
qed

fun map_segments :: "u64 \<Rightarrow> Elf64_ProgramHeader list \<Rightarrow> vmm \<Rightarrow> vmm kres" where
  "map_segments q [] s = Inr s"
| "map_segments q (h # hs) s = kbind (map_user_pages q (p_vaddr h) (p_memsz h) s) (map_segments q hs)"

fun segments_break :: "Elf64_ProgramHeader list \<Rightarrow> u64 \<Rightarrow> u64" where
  "segments_break [] hb = hb"
| "segments_break (h # hs) hb = segments_break hs (if p_vaddr h + p_memsz h > hb then (p_vaddr h + p_memsz h + 0xFFF) AND NOT 0xFFF else hb)"

fun load_segments :: "(u64 \<Rightarrow> u8) \<Rightarrow> u64 \<Rightarrow> Elf64_ProgramHeader list \<Rightarrow> bytes \<Rightarrow> bytes" where
  "load_segments raw file_buffer [] m = m"
| "load_segments raw file_buffer (h # hs) m = load_segments raw file_buffer hs (load_segment raw file_buffer h m)"

text \<open>A segment changes only its own pages, which are below the kernel.\<close>

lemma load_segment_out:
  assumes "segment_ok file_buffer m h" "unat a div 4096 \<notin> seg_pages (p_vaddr h) (p_memsz h)"
  shows "load_segment raw file_buffer h m a = m a"
proof -
  have b: "unat (p_vaddr h) + unat (p_memsz h) + 4096 \<le> 2 ^ 64" "unat (p_filesz h) \<le> unat (p_memsz h)" using assms(1) by (simp_all add: segment_ok_def word_le_nat_alt)
  then have "\<not> unat (a - p_vaddr h) < unat (p_memsz h)" using in_segment(2) [OF b(1)] assms(2) by blast
  then show ?thesis using b assms(2) fresh_pages_page [OF b(1)] by (simp add: load_segment_def)
qed

lemma load_segment_kernel: "segment_ok file_buffer m h \<Longrightarrow> user_max_addr \<le> a \<Longrightarrow> load_segment raw file_buffer h m a = m a"
proof (rule load_segment_out)
  assume "segment_ok file_buffer m h" "user_max_addr \<le> a"
  then have "2 ^ 47 div 4096 \<le> unat a div 4096" "(unat (p_vaddr h) + unat (p_memsz h) + 4095) div 4096 \<le> 2 ^ 47 div 4096"
    by (intro div_le_mono; simp add: segment_ok_def word_le_nat_alt user_max_addr_def)+
  then show "unat a div 4096 \<notin> seg_pages (p_vaddr h) (p_memsz h)" by (simp add: seg_pages_def)
qed

lemma source_kernel: "segment_ok file_buffer m h \<Longrightarrow> i < unat (p_filesz h) \<Longrightarrow> user_max_addr \<le> file_buffer + p_offset h + of_nat i"
  using unat_offset [of "file_buffer + p_offset h" i] by (auto simp: segment_ok_def mapped_range_def word_le_nat_alt)

lemma segment_ok_next: "segment_ok file_buffer m h \<Longrightarrow> segment_ok file_buffer m g \<Longrightarrow> segment_ok file_buffer (load_segment raw file_buffer g m) h"
  using source_kernel [of file_buffer m h] load_segment_kernel [of file_buffer m g]
  by (auto simp: segment_ok_def mapped_range_def)

lemma map_headers_ok:
  "\<forall>h \<in> set hs. segment_ok file_buffer m h \<Longrightarrow>
   map_headers raw q file_buffer hs (hb, s, m) = kbind (map_segments q hs s) (\<lambda>s. Inr (segments_break hs hb, s, load_segments raw file_buffer hs m))"
proof (induction hs arbitrary: hb s m)
  case (Cons h hs)
  have "\<forall>g \<in> set hs. segment_ok file_buffer (load_segment raw file_buffer h m) g" using Cons.prems segment_ok_next by auto
  note IH = Cons.IH [OF this]
  show ?case using map_elf64_header_ok [of file_buffer m h raw q hb s] Cons.prems by (cases "map_user_pages q (p_vaddr h) (p_memsz h) s") (simp_all add: IH)
qed simp

lemma align_up_ge:
  assumes "unat (x :: u64) + 4096 \<le> 2 ^ 64"
  shows "x \<le> (x + 0xFFF) AND NOT 0xFFF"
proof -
  have "unat (x + of_nat 4095) = unat x + 4095" using assms by (intro unat_offset) simp
  then have "unat ((x + 0xFFF) AND NOT 0xFFF) = (unat x + 4095) div 4096 * 4096" using unat_low_bits [of "x + 0xFFF"] by (simp add: PAGE_SIZE_def)
  moreover have "unat x \<le> (unat x + 4095) div 4096 * 4096" using div_mult_mod_eq [of "unat x + 4095" 4096] mod_less_divisor [of 4096 "unat x + 4095"] by simp
  ultimately show ?thesis by (simp add: word_le_nat_alt)
qed

lemma segments_break_ge:
  "\<forall>h \<in> set hs. unat (p_vaddr h) + unat (p_memsz h) + 4096 \<le> 2 ^ 64 \<Longrightarrow>
   hb \<le> segments_break hs hb \<and> (\<forall>h \<in> set hs. p_vaddr h + p_memsz h \<le> segments_break hs hb)"
proof (induction hs arbitrary: hb)
  case (Cons h hs)
  let ?e = "p_vaddr h + p_memsz h" and ?hb = "if p_vaddr h + p_memsz h > hb then (p_vaddr h + p_memsz h + 0xFFF) AND NOT 0xFFF else hb"
  have "unat ?e + 4096 \<le> 2 ^ 64" using Cons.prems by (auto simp: unat_word_ariths)
  then have "?e \<le> (?e + 0xFFF) AND NOT 0xFFF" by (rule align_up_ge)
  then have "?e \<le> ?hb" "hb \<le> ?hb" by auto
  then show ?case using Cons.IH [of ?hb] Cons.prems by (auto intro: order_trans)
qed simp

definition segment_loaded :: "u64 \<Rightarrow> bytes \<Rightarrow> Elf64_ProgramHeader \<Rightarrow> bytes \<Rightarrow> bool" where
  "segment_loaded file_buffer m h m' \<longleftrightarrow> (\<forall>i < unat (p_memsz h). m' (p_vaddr h + of_nat i) = (if i < unat (p_filesz h) then m (file_buffer + p_offset h + of_nat i) else Some 0))"

lemma load_segment_loaded: "segment_loaded file_buffer m h (load_segment raw file_buffer h m)"
proof -
  have "unat (p_vaddr h + of_nat i - p_vaddr h) = i" if "i < unat (p_memsz h)" for i
  proof -
    have "unat (p_memsz h) < 2 ^ LENGTH(64)" by (rule unsigned_less)
    then show ?thesis using that by (simp add: unat_of_nat)
  qed
  then show ?thesis by (simp add: segment_loaded_def load_segment_def)
qed

lemma load_segments_out:
  "\<forall>h \<in> set hs. segment_ok file_buffer m h \<Longrightarrow> \<forall>h \<in> set hs. unat a div 4096 \<notin> seg_pages (p_vaddr h) (p_memsz h) \<Longrightarrow> load_segments raw file_buffer hs m a = m a"
proof (induction hs arbitrary: m)
  case (Cons h hs)
  have "\<forall>g \<in> set hs. segment_ok file_buffer (load_segment raw file_buffer h m) g" using Cons.prems(1) segment_ok_next by auto
  then show ?case using Cons.IH Cons.prems load_segment_out [of file_buffer m h a raw] by simp
qed simp

lemma load_segments_kernel: "\<forall>h \<in> set hs. segment_ok file_buffer m h \<Longrightarrow> user_max_addr \<le> a \<Longrightarrow> load_segments raw file_buffer hs m a = m a"
proof (induction hs arbitrary: m)
  case (Cons h hs)
  have "\<forall>g \<in> set hs. segment_ok file_buffer (load_segment raw file_buffer h m) g" using Cons.prems(1) segment_ok_next by auto
  then show ?case using Cons.IH Cons.prems load_segment_kernel [of file_buffer m h a raw] by simp
qed simp

definition page_disjoint :: "Elf64_ProgramHeader \<Rightarrow> Elf64_ProgramHeader \<Rightarrow> bool" where
  "page_disjoint h g \<longleftrightarrow> seg_pages (p_vaddr h) (p_memsz h) \<inter> seg_pages (p_vaddr g) (p_memsz g) = {}"

lemma load_segments_loaded:
  "\<forall>h \<in> set hs. segment_ok file_buffer m h \<Longrightarrow> sorted_wrt page_disjoint hs \<Longrightarrow> h \<in> set hs \<Longrightarrow> segment_loaded file_buffer m h (load_segments raw file_buffer hs m)"
proof (induction hs arbitrary: m)
  case (Cons g hs)
  let ?m = "load_segment raw file_buffer g m"
  have ok: "\<forall>h \<in> set hs. segment_ok file_buffer ?m h" using Cons.prems(1) segment_ok_next by auto
  show ?case
  proof (cases "h = g")
    case True
    have b: "unat (p_vaddr g) + unat (p_memsz g) + 4096 \<le> 2 ^ 64" using Cons.prems(1) by (simp add: segment_ok_def)
    have "load_segments raw file_buffer hs ?m (p_vaddr g + of_nat i) = ?m (p_vaddr g + of_nat i)" if "i < unat (p_memsz g)" for i
    proof -
      have "unat (p_vaddr g + of_nat i) = unat (p_vaddr g) + i" using b that by (intro unat_offset) simp
      then have "\<forall>h \<in> set hs. unat (p_vaddr g + of_nat i) div 4096 \<notin> seg_pages (p_vaddr h) (p_memsz h)"
        using seg_pages_in [OF that, of "p_vaddr g"] Cons.prems(2) by (auto simp: page_disjoint_def)
      then show ?thesis using load_segments_out [OF ok] by simp
    qed
    then show ?thesis using load_segment_loaded [of file_buffer m g raw] True by (simp add: segment_loaded_def)
  next
    case False
    then have h: "h \<in> set hs" "segment_ok file_buffer m h" using Cons.prems by auto
    then have "segment_loaded file_buffer ?m h (load_segments raw file_buffer hs ?m)" using Cons.IH [OF ok] Cons.prems(2) by simp
    moreover have "?m (file_buffer + p_offset h + of_nat i) = m (file_buffer + p_offset h + of_nat i)" if "i < unat (p_filesz h)" for i
      using load_segment_kernel source_kernel [OF h(2) that] Cons.prems(1) by simp
    ultimately show ?thesis by (simp add: segment_loaded_def)
  qed
qed simp

section \<open>A whole program\<close>

text \<open>What \<^verbatim>\<open>parse_file\<close> accepts, with the entry point and all program headers of the file.\<close>

definition elf_file :: "bytes \<Rightarrow> u64 \<Rightarrow> u64 \<Rightarrow> Elf64_ProgramHeader list \<Rightarrow> bool" where
  "elf_file m buffer e hs \<longleftrightarrow> buffer \<noteq> 0 \<and> validate_magic m buffer = Inr True \<and> validate_class m buffer = Inr True \<and> validate_machine m buffer = Inr True \<and> validate_type m buffer = Inr True \<and>
     ld_field Elf64_Header ''e_entry'' m buffer = Inr e \<and> ld_field Elf64_Header ''e_phnum'' m buffer = Inr (of_nat (length hs)) \<and> length hs < 2 ^ 64 \<and>
     (case ld_field Elf64_Header ''e_phoff'' m buffer of Inl _ \<Rightarrow> False | Inr phoff \<Rightarrow>
       (case ld_field Elf64_Header ''e_phentsize'' m buffer of Inl _ \<Rightarrow> False | Inr phentsize \<Rightarrow>
         \<forall>i < length hs. ld_program_header m (buffer + phoff + of_nat i * phentsize) = Inr (hs ! i)))"

abbreviation loads :: "Elf64_ProgramHeader list \<Rightarrow> Elf64_ProgramHeader list" where
  "loads hs \<equiv> filter (\<lambda>h. p_type h = PT_LOAD) hs"

lemma parse_header_loop_ok:
  assumes "\<forall>i < length hs. ld_program_header m (buffer + phoff + of_nat i * phentsize) = Inr (hs ! i)"
  shows "parse_header_loop m buffer phoff phentsize (length hs) \<lparr>is_valid_elf = False, elf_entry = e, program_headers = []\<rparr>
    = Inr \<lparr>is_valid_elf = (loads hs \<noteq> []), elf_entry = e, program_headers = loads hs\<rparr>"
proof -
  let ?f = "\<lambda>i. \<lparr>is_valid_elf = (loads (take i hs) \<noteq> []), elf_entry = e, program_headers = loads (take i hs)\<rparr>"
  let ?body = "\<lambda>i file. kbind (ld_program_header m (buffer + phoff + of_nat i * phentsize)) (\<lambda>phdr. if p_type phdr \<noteq> PT_LOAD then Inr file
     else Inr (file\<lparr>is_valid_elf := True, program_headers := program_headers file @ [phdr]\<rparr>))"
  have "\<exists>s. kfor 0 (length hs) ?body (?f 0) = Inr s \<and> s = ?f (length hs)"
  proof (rule kfor_rule [where I = "\<lambda>i s. s = ?f i"])
    fix i t assume i: "0 \<le> i" "i < length hs" and t: "t = ?f i"
    then show "\<exists>t'. ?body i t = Inr t' \<and> t' = ?f (Suc i)" using assms by (simp add: take_Suc_conv_app_nth)
  qed simp_all
  then show ?thesis by (simp add: parse_header_loop_def)
qed

lemma parse_file_ok:
  assumes "elf_file m buffer e hs"
  shows "parse_file m buffer = Inr \<lparr>is_valid_elf = (loads hs \<noteq> []), elf_entry = e, program_headers = loads hs\<rparr>"
proof -
  obtain phoff phentsize where p: "ld_field Elf64_Header ''e_phoff'' m buffer = Inr phoff" "ld_field Elf64_Header ''e_phentsize'' m buffer = Inr phentsize"
    "\<forall>i < length hs. ld_program_header m (buffer + phoff + of_nat i * phentsize) = Inr (hs ! i)"
    using assms by (auto simp: elf_file_def split: sum.splits)
  have "unat (of_nat (length hs) :: u64) = length hs" using assms by (simp add: elf_file_def unsigned_of_nat take_bit_nat_eq_self)
  then show ?thesis using assms p(1,2) parse_header_loop_ok [OF p(3), of e] by (simp add: elf_file_def parse_file_def kassert_not_null_def)
qed

text \<open>What \<^verbatim>\<open>exec_elf64\<close> does to the page tables alone.\<close>

definition exec_tables :: "process \<Rightarrow> Elf64_ProgramHeader list \<Rightarrow> vmm \<Rightarrow> (u64 \<times> Heap \<times> vmm) kres" where
  "exec_tables p hs s = kbind (case pml4 p of None \<Rightarrow> Inr s | Some q \<Rightarrow> free_user_pml4 q s) (\<lambda>s.
     kbind (create_user_pml4 s) (\<lambda>(q, s). kbind (switch_pml4 q s) (\<lambda>s. kbind (create_user_heap q s) (\<lambda>(heap, s).
     kbind (map_segments q hs s) (\<lambda>s. kbind (map_user_pages q USER_STACK_BASE USER_STACK_SIZE s) (\<lambda>s.
     kbind (switch_pml4 (kernel_pml4 s) s) (\<lambda>s. Inr (q, heap, s))))))))"

text \<open>The process that is left: everything of the old program is reset, and its first return goes to the trampoline.\<close>

definition exec_process :: "u64 \<Rightarrow> u64 \<Rightarrow> u64 \<Rightarrow> u64 \<Rightarrow> u64 \<Rightarrow> Heap \<Rightarrow> process \<Rightarrow> process" where
  "exec_process trampoline e hb rsp q heap p = (let krsp = kernel_stack p + KERNEL_STACK_SIZE in
     build_synthetic_context_frame trampoline (p\<lparr>pml4 := Some q, state := NEW, wait_reason := W_NONE, exit_status := 0, wake_time_ns := 0, fs_base := 0, tidptr := 0,
       uheap := heap, kernel_rsp := krsp, context_frame := krsp - sizeof_ContextFrame, entry := e, heap_break := hb, user_rsp := rsp\<rparr>))"

lemma kbind_assoc: "kbind (kbind f g) h = kbind f (\<lambda>x. kbind (g x) h)"
  by (cases f) simp_all

lemma no_user_ok:
  assumes "segment_ok file_buffer m h"
  shows "segment_ok file_buffer (no_user m) h" "segment_loaded file_buffer (no_user m) h m' = segment_loaded file_buffer m h m'"
proof -
  have k: "no_user m (file_buffer + p_offset h + of_nat i) = m (file_buffer + p_offset h + of_nat i)" if "i < unat (p_filesz h)" for i
    using source_kernel [OF assms that] by (auto simp: no_user_def)
  show "segment_ok file_buffer (no_user m) h" using assms k by (simp add: segment_ok_def mapped_range_def)
  show "segment_loaded file_buffer (no_user m) h m' = segment_loaded file_buffer m h m'" using k by (auto simp: segment_loaded_def)
qed

lemma exec_elf64_eq:
  assumes "elf_file m buffer e hs" "loads hs \<noteq> []" "\<forall>h \<in> set (loads hs). segment_ok buffer m h" "length (stack_image argv envp) \<le> 0x8000"
  shows "exec_elf64 raw trampoline buffer argv envp p (s, m) = kbind (exec_tables p (loads hs) s) (\<lambda>(q, heap, s).
    let rsp = USER_STACK_TOP - of_nat (length (stack_image argv envp)) in
    Inr (exec_process trampoline e (segments_break (loads hs) 0) rsp q heap p, s,
      stored rsp (stack_image argv envp) (fresh_pages raw USER_STACK_BASE USER_STACK_SIZE (load_segments raw buffer (loads hs) (no_user m)))))"
proof -
  have mh: "map_headers raw q buffer (loads hs) (0, s, no_user m) = kbind (map_segments q (loads hs) s) (\<lambda>s. Inr (segments_break (loads hs) 0, s, load_segments raw buffer (loads hs) (no_user m)))" for q s
    using assms(3) no_user_ok(1) by (intro map_headers_ok) blast
  have nn: "kassert_not_null buffer = Inr ()" using assms(1) by (simp add: elf_file_def kassert_not_null_def)
  show ?thesis unfolding exec_elf64_def exec_tables_def
    using assms(2) by (cases "pml4 p") (simp_all add: nn parse_file_ok [OF assms(1)] mh build_user_stack_eq [OF assms(4)] Let_def kbind_assoc split_def exec_process_def)
qed

lemma stored_page_out:
  assumes "length (stack_image argv envp) \<le> 0x8000" "unat a div 4096 \<notin> seg_pages USER_STACK_BASE USER_STACK_SIZE"
  shows "stored (USER_STACK_TOP - of_nat (length (stack_image argv envp))) (stack_image argv envp) (fresh_pages raw USER_STACK_BASE USER_STACK_SIZE m) a = m a"
proof -
  let ?im = "stack_image argv envp"
  have p: "seg_pages USER_STACK_BASE USER_STACK_SIZE = {0x800..<0x808}" by (simp add: seg_pages_def USER_STACK_BASE_def USER_STACK_SIZE_def)
  have r: "unat (USER_STACK_TOP - of_nat (length ?im)) = 0x808000 - length ?im" using unat_diff_nat [of "length ?im" USER_STACK_TOP] assms(1) by (simp add: stack_bounds)
  have "unat a < 0x800000 \<or> 0x808000 \<le> unat a" using assms(2) unfolding p by auto
  then have "a < USER_STACK_TOP - of_nat (length ?im) \<or> USER_STACK_TOP \<le> a" using r assms(1) by (auto simp: word_less_nat_alt word_le_nat_alt stack_bounds)
  then have "stored (USER_STACK_TOP - of_nat (length ?im)) ?im (fresh_pages raw USER_STACK_BASE USER_STACK_SIZE m) a = fresh_pages raw USER_STACK_BASE USER_STACK_SIZE m a"
    using assms(1) by (intro stored_out) (simp add: stack_bounds)
  also have "\<dots> = m a" using assms(2) by (simp add: fresh_pages_page USER_STACK_BASE_def USER_STACK_SIZE_def)
  finally show ?thesis .
qed

definition stack_header :: Elf64_ProgramHeader where
  "stack_header = \<lparr>p_type = 0, p_flags = 0, p_offset = 0, p_vaddr = USER_STACK_BASE, p_filesz = 0, p_memsz = USER_STACK_SIZE\<rparr>"


text \<open>A file with one segment of two bytes.\<close>

definition tiny_elf :: "u8 list" where
  "tiny_elf = [127, 69, 76, 70, 2, 0, 0, 0, 0, 0, 0, 0, 0, 0, 0, 0, 2, 0, 62, 0, 1, 0, 0, 0, 0, 0, 64, 0, 0, 0, 0, 0,
     64, 0, 0, 0, 0, 0, 0, 0, 0, 0, 0, 0, 0, 0, 0, 0, 0, 0, 0, 0, 64, 0, 56, 0, 1, 0, 0, 0, 0, 0, 0, 0,
     1, 0, 0, 0, 5, 0, 0, 0, 120, 0, 0, 0, 0, 0, 0, 0, 0, 0, 64, 0, 0, 0, 0, 0, 0, 0, 0, 0, 0, 0, 0, 0,
     2, 0, 0, 0, 0, 0, 0, 0, 4, 0, 0, 0, 0, 0, 0, 0, 0, 16, 0, 0, 0, 0, 0, 0, 144, 195]"

definition tiny_memory :: bytes where
  "tiny_memory = stored 0xFFFF800000000000 tiny_elf Map.empty"

definition tiny_header :: Elf64_ProgramHeader where
  "tiny_header = \<lparr>p_type = 1, p_flags = 5, p_offset = 120, p_vaddr = 0x400000, p_filesz = 2, p_memsz = 4\<rparr>"

lemma tiny_range: "range_is tiny_memory 0xFFFF800000000000 tiny_elf"
proof -
  have "length tiny_elf = 122" by (simp add: tiny_elf_def)
  then show ?thesis using range_is_stored [of "[]" tiny_elf "0xFFFF800000000000" Map.empty] by (simp add: tiny_memory_def)
qed

lemma header_fields:
  "field_at ''e_type'' Elf64_Header = (16, 2)" "field_at ''e_machine'' Elf64_Header = (18, 2)" "field_at ''e_entry'' Elf64_Header = (24, 8)"
  "field_at ''e_phoff'' Elf64_Header = (32, 8)" "field_at ''e_phentsize'' Elf64_Header = (54, 2)" "field_at ''e_phnum'' Elf64_Header = (56, 2)"
  by (simp_all add: Elf64_Header_def)

lemma program_header_fields:
  "field_at ''p_type'' Elf64_ProgramHeader_layout = (0, 4)" "field_at ''p_flags'' Elf64_ProgramHeader_layout = (4, 4)" "field_at ''p_offset'' Elf64_ProgramHeader_layout = (8, 8)"
  "field_at ''p_vaddr'' Elf64_ProgramHeader_layout = (16, 8)" "field_at ''p_filesz'' Elf64_ProgramHeader_layout = (32, 8)" "field_at ''p_memsz'' Elf64_ProgramHeader_layout = (40, 8)"
  by (simp_all add: Elf64_ProgramHeader_layout_def)

lemma tiny_elf_file: "elf_file tiny_memory 0xFFFF800000000000 0x400000 [tiny_header]"
proof -
  note h = header_fields [THEN ld_field_value [OF tiny_range]]
  have "range_is tiny_memory (0xFFFF800000000000 + of_nat 64) (drop 64 tiny_elf)" using tiny_range range_is_append [of _ _ "take 64 tiny_elf" "drop 64 tiny_elf"] by (simp add: tiny_elf_def)
  note p = program_header_fields [THEN ld_field_value [OF this]]
  have m: "validate_magic tiny_memory 0xFFFF800000000000 = Inr True" "validate_class tiny_memory 0xFFFF800000000000 = Inr True"
    using tiny_range by (simp_all add: validate_magic_def validate_class_def E_MAG_def ELFCLASS64_def ld_ident_def tiny_elf_def ld8_def)
  have "ld_program_header tiny_memory (0xFFFF800000000000 + of_nat 64) = Inr tiny_header" using p by (simp add: ld_program_header_def tiny_header_def tiny_elf_def)
  then show ?thesis using h m by (simp add: elf_file_def validate_machine_def validate_type_def EM_X86_64_def ET_EXEC_def tiny_elf_def)
qed


end
