(* ===== verification/Acpi.thy ===== *)
theory Acpi
  imports Vmm Packed
begin

text \<open>
  The tables of the firmware (\<^verbatim>\<open>lib/acpi/acpi.cpp\<close>, \<^verbatim>\<open>lib/acpi/madt.cpp\<close>, \<^verbatim>\<open>lib/acpi/hpet.cpp\<close>) and the routing of interrupts by them (\<^verbatim>\<open>ioapic_route_irq\<close> in \<^verbatim>\<open>arch/x64/drivers/apic/apic.cpp\<close>).

  \<open>phys\<close> is the physical memory; \<open>map_table\<close> runs \<open>map_phys\<close> on the page tables and makes the one page it maps visible at the address it returns. Tables are read byte by byte from the memory \<open>bytes\<close>, where a byte that
  is not mapped is a fault. The loop over the records of the MADT may not end, and is a partial function. An I/O APIC is its selected register and its registers; what the code only logs is left out.
\<close>

unbundle bit_operations_syntax

section \<open>Tables\<close>

definition XSDP :: "(string \<times> nat) list" where
  "XSDP = [(''signature'', 8), (''checksum'', 1), (''oem_id'', 6), (''revision'', 1), (''rsdt_addr'', 4), (''length'', 4), (''xsdt_addr'', 8), (''extended_checksum'', 1), (''reserved'', 3)]"

definition ACPIHeader :: "(string \<times> nat) list" where
  "ACPIHeader = [(''signature'', 4), (''length'', 4), (''revision'', 1), (''checksum'', 1), (''oem_id'', 6), (''oem_table_id'', 8), (''oem_revision'', 4), (''creator_id'', 4), (''creator_revision'', 4)]"

lemma acpi_sizes: "sum_list (map snd XSDP) = 36" "sum_list (map snd ACPIHeader) = 36"
  by (simp_all add: XSDP_def ACPIHeader_def)

definition compute_checksum :: "u64 \<Rightarrow> nat \<Rightarrow> bytes \<Rightarrow> u8 kres" where
  "compute_checksum data len m = kfor 0 len (\<lambda>i sum. kbind (ld8 m (data + of_nat i)) (\<lambda>b. Inr (sum + b))) 0"

definition validate_xsdp :: "u64 \<Rightarrow> bytes \<Rightarrow> unit kres" where
  "validate_xsdp xsdp m = kbind (compute_checksum xsdp 20 m) (\<lambda>legacy_sum.
     if legacy_sum \<noteq> 0 then Inl (Panic ''XSDP legacy checksum invalid'')
     else kbind (ld_field XSDP ''revision'' m xsdp) (\<lambda>revision.
     if revision \<ge> 2 then kbind (ld_field XSDP ''length'' m xsdp) (\<lambda>len. kbind (compute_checksum xsdp (unat len) m) (\<lambda>extended_sum.
       if extended_sum \<noteq> 0 then Inl (Panic ''XSDP extended checksum invalid'') else Inr ()))
     else Inr ()))"

definition validate_acpi_header :: "u64 \<Rightarrow> bytes \<Rightarrow> unit kres" where
  "validate_acpi_header header m = kbind (ld_field ACPIHeader ''length'' m header) (\<lambda>len. kbind (compute_checksum header (unat len) m) (\<lambda>sum.
     if sum \<noteq> 0 then Inl (Panic ''ACPI table checksum invalid'') else Inr ()))"

definition show_page :: "(u64 \<Rightarrow> u8) \<Rightarrow> u64 \<Rightarrow> u64 \<Rightarrow> bytes \<Rightarrow> bytes" where
  "show_page phys p v m = (\<lambda>a. if page_align a = page_align v then Some (phys (page_align p + (a AND PAGE_MASK))) else m a)"

definition map_table :: "(u64 \<Rightarrow> u8) \<Rightarrow> u64 \<Rightarrow> vmm \<times> bytes \<Rightarrow> (u64 \<times> vmm \<times> bytes) kres" where
  "map_table phys p sm = kbind (map_phys p (PAGE_WRITE OR PAGE_CACHE_DISABLE) (fst sm)) (\<lambda>(v, s). Inr (v, s, show_page phys p v (snd sm)))"

definition get_acpi_header :: "(u64 \<Rightarrow> u8) \<Rightarrow> u64 \<Rightarrow> vmm \<times> bytes \<Rightarrow> (u64 \<times> vmm \<times> bytes) kres" where
  "get_acpi_header phys phys_addr sm = map_table phys phys_addr sm"

definition get_xsdt :: "(u64 \<Rightarrow> u8) \<Rightarrow> u64 \<Rightarrow> vmm \<times> bytes \<Rightarrow> (u64 \<times> vmm \<times> bytes) kres" where
  "get_xsdt phys rsdp_addr sm = kbind (validate_xsdp rsdp_addr (snd sm)) (\<lambda>_. kbind (ld_field XSDP ''xsdt_addr'' (snd sm) rsdp_addr) (\<lambda>xsdt_phys. map_table phys xsdt_phys sm))"

section \<open>The MADT\<close>

definition RECORD_OFFSET :: u64 where "RECORD_OFFSET = 0x2C"

definition MADT_Header :: "(string \<times> nat) list" where
  "MADT_Header = [(''std_header'', 36), (''lapic_addr'', 4), (''flags'', 4)]"

definition RecordHeader :: "(string \<times> nat) list" where
  "RecordHeader = [(''type'', 1), (''length'', 1)]"

definition IOApic :: "(string \<times> nat) list" where
  "IOApic = [(''header'', 2), (''ioapic_id'', 1), (''reserved'', 1), (''ioapic_addr'', 4), (''gsi_base'', 4)]"

definition InterruptSourceOverride :: "(string \<times> nat) list" where
  "InterruptSourceOverride = [(''header'', 2), (''bus'', 1), (''source'', 1), (''gsi'', 4), (''flags'', 2)]"

definition LocalApicAddressOverride :: "(string \<times> nat) list" where
  "LocalApicAddressOverride = [(''header'', 2), (''reserved'', 2), (''lapic_addr'', 8)]"

definition TYPE_LAPIC :: u64 where "TYPE_LAPIC = 0"
definition TYPE_IOAPIC :: u64 where "TYPE_IOAPIC = 1"
definition TYPE_IOAPIC_ISO :: u64 where "TYPE_IOAPIC_ISO = 2"
definition TYPE_LAPIC_ADDR_OVERRIDE :: u64 where "TYPE_LAPIC_ADDR_OVERRIDE = 5"

record madt =
  ioapics :: "u64 list"
  overrides :: "u64 list"
  local_apics :: "u64 list"
  mapped_ioapics :: "(u64 \<times> u64) list"
  lapic_addr :: u64

definition parse_lapic :: "u64 \<Rightarrow> madt \<Rightarrow> madt" where
  "parse_lapic lapic st = st\<lparr>local_apics := local_apics st @ [lapic]\<rparr>"

definition parse_ioapic :: "(u64 \<Rightarrow> u8) \<Rightarrow> u64 \<Rightarrow> madt \<times> vmm \<times> bytes \<Rightarrow> (madt \<times> vmm \<times> bytes) kres" where
  "parse_ioapic phys ioapic st = (case st of (d, s, m) \<Rightarrow> kbind (ld_field IOApic ''ioapic_addr'' m ioapic) (\<lambda>p.
     kbind (map_table phys p (s, m)) (\<lambda>(virt, sm).
       Inr (d\<lparr>ioapics := ioapics d @ [ioapic], mapped_ioapics := mapped_ioapics d @ [(p, virt)]\<rparr>, sm))))"

definition parse_ioapic_iso :: "u64 \<Rightarrow> madt \<Rightarrow> madt" where
  "parse_ioapic_iso ovr st = st\<lparr>overrides := overrides st @ [ovr]\<rparr>"

definition parse_lapic_addr_override :: "u64 \<Rightarrow> madt \<times> vmm \<times> bytes \<Rightarrow> (madt \<times> vmm \<times> bytes) kres" where
  "parse_lapic_addr_override entry st = (case st of (d, s, m) \<Rightarrow> kbind (ld_field LocalApicAddressOverride ''lapic_addr'' m entry) (\<lambda>a. Inr (d\<lparr>lapic_addr := a\<rparr>, s, m)))"

text \<open>The body of the loop: the record's handler, then the address of the next record. The types that are not named here, known or unknown, only produce a line of the log.\<close>

definition madt_record :: "(u64 \<Rightarrow> u8) \<Rightarrow> u64 \<Rightarrow> madt \<times> vmm \<times> bytes \<Rightarrow> (u64 \<times> madt \<times> vmm \<times> bytes) kres" where
  "madt_record phys rec st = kbind (ld_field RecordHeader ''type'' (snd (snd st)) rec) (\<lambda>t.
     kbind (if t = TYPE_LAPIC then Inr (apfst (parse_lapic rec) st)
            else if t = TYPE_IOAPIC then parse_ioapic phys rec st
            else if t = TYPE_IOAPIC_ISO then Inr (apfst (parse_ioapic_iso rec) st)
            else if t = TYPE_LAPIC_ADDR_OVERRIDE then parse_lapic_addr_override rec st
            else Inr st) (\<lambda>st.
     kbind (ld_field RecordHeader ''length'' (snd (snd st)) rec) (\<lambda>len. Inr (rec + len, st))))"

partial_function (option) madt_loop :: "(u64 \<Rightarrow> u8) \<Rightarrow> u64 \<Rightarrow> u64 \<Rightarrow> madt \<times> vmm \<times> bytes \<Rightarrow> (madt \<times> vmm \<times> bytes) kres option" where
  "madt_loop phys madt_end rec st = (if rec < madt_end then (case madt_record phys rec st of Inl e \<Rightarrow> Some (Inl e) | Inr (rec, st) \<Rightarrow> madt_loop phys madt_end rec st)
     else Some (Inr st))"

definition madt_parse :: "(u64 \<Rightarrow> u8) \<Rightarrow> u64 \<Rightarrow> madt \<times> vmm \<times> bytes \<Rightarrow> (madt \<times> vmm \<times> bytes) kres option" where
  "madt_parse phys header st = (case st of (d, s, m) \<Rightarrow>
     (case ld_field ACPIHeader ''length'' m header of Inl e \<Rightarrow> Some (Inl e) | Inr len \<Rightarrow>
     (case ld_field MADT_Header ''lapic_addr'' m header of Inl e \<Rightarrow> Some (Inl e) | Inr a \<Rightarrow>
       madt_loop phys (header + len) (header + RECORD_OFFSET) (d\<lparr>lapic_addr := a\<rparr>, s, m))))"

section \<open>The list of tables\<close>

text \<open>The number of entries is computed in 64 bits and kept in an \<^verbatim>\<open>int\<close>.\<close>

definition xsdt_entries :: "u64 \<Rightarrow> int" where
  "xsdt_entries len = sint (ucast ((len - 36) div 8) :: 32 word)"

definition ld_sig :: "u64 \<Rightarrow> bytes \<Rightarrow> string kres" where
  "ld_sig header m = kbind (ld8 m header) (\<lambda>a. kbind (ld8 m (header + 1)) (\<lambda>b. kbind (ld8 m (header + 2)) (\<lambda>c. kbind (ld8 m (header + 3)) (\<lambda>d.
     Inr (map (\<lambda>x. char_of (unat x)) [a, b, c, d])))))"

definition xsdt_entry :: "(u64 \<Rightarrow> u8) \<Rightarrow> u64 \<Rightarrow> nat \<Rightarrow> madt \<times> vmm \<times> bytes \<Rightarrow> (madt \<times> vmm \<times> bytes) kres option" where
  "xsdt_entry phys xsdt i st = (case st of (d, s, m) \<Rightarrow>
     (case kbind (ld_le 8 m (xsdt + 36 + 8 * of_nat i)) (\<lambda>p. kbind (get_acpi_header phys p (s, m)) (\<lambda>(header, s, m).
           kbind (ld_sig header m) (\<lambda>sig. kbind (validate_acpi_header header m) (\<lambda>_. Inr (sig, header, s, m))))) of
       Inl e \<Rightarrow> Some (Inl e)
     | Inr (sig, header, s, m) \<Rightarrow>
         if sig = ''APIC'' then madt_parse phys header (d, s, m)
         else if sig = ''HPET'' then Some (kbind (kassert_not_null header) (\<lambda>_. Inr (d, s, m)))
         else Some (Inr (d, s, m))))"

fun xsdt_loop :: "(u64 \<Rightarrow> u8) \<Rightarrow> u64 \<Rightarrow> nat list \<Rightarrow> madt \<times> vmm \<times> bytes \<Rightarrow> (madt \<times> vmm \<times> bytes) kres option" where
  "xsdt_loop phys xsdt [] st = Some (Inr st)"
| "xsdt_loop phys xsdt (i # is) st = (case xsdt_entry phys xsdt i st of None \<Rightarrow> None | Some (Inl e) \<Rightarrow> Some (Inl e) | Some (Inr st) \<Rightarrow> xsdt_loop phys xsdt is st)"

definition parse_xsdt :: "(u64 \<Rightarrow> u8) \<Rightarrow> u64 \<Rightarrow> madt \<times> vmm \<times> bytes \<Rightarrow> (madt \<times> vmm \<times> bytes) kres option" where
  "parse_xsdt phys xsdt st = (case kbind (validate_acpi_header xsdt (snd (snd st))) (\<lambda>_. ld_field ACPIHeader ''length'' (snd (snd st)) xsdt) of
     Inl e \<Rightarrow> Some (Inl e) | Inr len \<Rightarrow> xsdt_loop phys xsdt [0..<nat (xsdt_entries len)] st)"

definition acpi_init :: "(u64 \<Rightarrow> u8) \<Rightarrow> u64 \<Rightarrow> madt \<times> vmm \<times> bytes \<Rightarrow> (madt \<times> vmm \<times> bytes) kres option" where
  "acpi_init phys rsdp_addr st = (case get_xsdt phys rsdp_addr (snd st) of Inl e \<Rightarrow> Some (Inl e) | Inr (xsdt, sm) \<Rightarrow> parse_xsdt phys xsdt (fst st, sm))"

section \<open>Routing interrupts\<close>

fun find_override :: "bytes \<Rightarrow> u8 \<Rightarrow> u64 list \<Rightarrow> u64 option kres" where
  "find_override m irq [] = Inr None"
| "find_override m irq (ovr # ovrs) = kbind (ld_field InterruptSourceOverride ''source'' m ovr) (\<lambda>src. if src = ucast irq then Inr (Some ovr) else find_override m irq ovrs)"

definition get_override_for_irq :: "madt \<Rightarrow> bytes \<Rightarrow> u8 \<Rightarrow> u64 option kres" where
  "get_override_for_irq d m irq = find_override m irq (overrides d)"

definition get_gsi_for_irq :: "madt \<Rightarrow> bytes \<Rightarrow> u8 \<Rightarrow> u32 kres" where
  "get_gsi_for_irq d m irq = kbind (get_override_for_irq d m irq) (\<lambda>ovr. case ovr of
     Some p \<Rightarrow> kbind (ld_field InterruptSourceOverride ''gsi'' m p) (\<lambda>g. Inr (ucast g)) | None \<Rightarrow> Inr (ucast irq))"

fun find_ioapic :: "bytes \<Rightarrow> u32 \<Rightarrow> u64 list \<Rightarrow> u64 option kres" where
  "find_ioapic m gsi [] = Inr None"
| "find_ioapic m gsi (p # ps) = kbind (ld_field IOApic ''gsi_base'' m p) (\<lambda>b. let gsi_base = ucast b in
     if gsi \<ge> gsi_base \<and> gsi < gsi_base + 24 then Inr (Some p) else find_ioapic m gsi ps)"

definition get_ioapic_for_gsi :: "madt \<Rightarrow> bytes \<Rightarrow> u32 \<Rightarrow> u64 option kres" where
  "get_ioapic_for_gsi d m gsi = find_ioapic m gsi (ioapics d)"

definition get_mapped_ioapic_addr :: "madt \<Rightarrow> bytes \<Rightarrow> u64 \<Rightarrow> u64 kres" where
  "get_mapped_ioapic_addr d m ioapic = kbind (ld_field IOApic ''ioapic_addr'' m ioapic) (\<lambda>p. Inr (case map_of (mapped_ioapics d) p of None \<Rightarrow> 0 | Some v \<Rightarrow> v))"

text \<open>The two registers of an I/O APIC that are in memory: the number of a register and a window to it.\<close>

record ioapic_dev =
  ioregsel :: u32
  ioregs :: "u32 \<Rightarrow> u32"

definition ioapic_write :: "u64 \<Rightarrow> u32 \<Rightarrow> u32 \<Rightarrow> (u64 \<Rightarrow> ioapic_dev) \<Rightarrow> (u64 \<Rightarrow> ioapic_dev) kres" where
  "ioapic_write base reg val devs = kbind (kassert_not_null base) (\<lambda>_.
     let d = (devs base)\<lparr>ioregsel := reg\<rparr> in Inr (devs(base := d\<lparr>ioregs := (ioregs d)(ioregsel d := val)\<rparr>)))"

definition IOAPIC_REDTBL_BASE :: u32 where "IOAPIC_REDTBL_BASE = 0x10"
definition IOAPIC_REDTBL_LO :: "u32 \<Rightarrow> u32" where "IOAPIC_REDTBL_LO pin = IOAPIC_REDTBL_BASE + pin * 2"
definition IOAPIC_REDTBL_HI :: "u32 \<Rightarrow> u32" where "IOAPIC_REDTBL_HI pin = IOAPIC_REDTBL_BASE + pin * 2 + 1"

definition redirection_entry :: "u8 \<Rightarrow> u64 option \<Rightarrow> u64" where
  "redirection_entry vector iso_flags = (let entry = ucast vector in case iso_flags of None \<Rightarrow> entry | Some flags \<Rightarrow>
     (let entry = (if flags AND 0x3 = 0x3 then entry OR push_bit 13 1 else entry) in if flags AND 0xC = 0xC then entry OR push_bit 15 1 else entry))"

definition ioapic_route_irq :: "madt \<Rightarrow> bytes \<Rightarrow> u8 \<Rightarrow> u8 \<Rightarrow> (u64 \<Rightarrow> ioapic_dev) \<Rightarrow> (u64 \<Rightarrow> ioapic_dev) kres" where
  "ioapic_route_irq d m irq vector devs = kbind (get_gsi_for_irq d m irq) (\<lambda>gsi. kbind (get_ioapic_for_gsi d m gsi) (\<lambda>p.
     case p of None \<Rightarrow> Inl (Panic ''ioapic is null'') | Some ioapic \<Rightarrow>
     kbind (get_override_for_irq d m irq) (\<lambda>ovr. kbind (get_mapped_ioapic_addr d m ioapic) (\<lambda>ioapic_addr.
     kbind (kassert_not_null ioapic_addr) (\<lambda>_. kbind (ld_field IOApic ''gsi_base'' m ioapic) (\<lambda>b. let pin = gsi - ucast b in
     kbind (case ovr of None \<Rightarrow> Inr None | Some q \<Rightarrow> kbind (ld_field InterruptSourceOverride ''flags'' m q) (\<lambda>f. Inr (Some f))) (\<lambda>flags.
     let entry = redirection_entry vector flags in
     kbind (ioapic_write ioapic_addr (IOAPIC_REDTBL_LO pin) (ucast entry) devs) (ioapic_write ioapic_addr (IOAPIC_REDTBL_HI pin) (ucast (drop_bit 32 entry))))))))))"

section \<open>What the loop collects\<close>

text \<open>A record of the MADT: its type and what follows its header.\<close>

type_synonym mrec = "u8 \<times> u8 list"

definition rec_bytes :: "mrec \<Rightarrow> u8 list" where
  "rec_bytes r = fst r # of_nat (length (snd r) + 2) # snd r"

definition rec_ok :: "mrec \<Rightarrow> bool" where
  "rec_ok r \<longleftrightarrow> length (snd r) + 2 < 256 \<and> (fst r = 1 \<longrightarrow> 10 \<le> length (snd r)) \<and> (fst r = 2 \<longrightarrow> 8 \<le> length (snd r)) \<and> (fst r = 5 \<longrightarrow> 10 \<le> length (snd r))"

definition recs_bytes :: "mrec list \<Rightarrow> u8 list" where
  "recs_bytes rs = concat (map rec_bytes rs)"

fun recs_at :: "u64 \<Rightarrow> mrec list \<Rightarrow> (mrec \<times> u64) list" where
  "recs_at a [] = []"
| "recs_at a (r # rs) = (r, a) # recs_at (a + of_nat (length (snd r) + 2)) rs"

definition rec_addrs :: "u64 \<Rightarrow> u8 \<Rightarrow> mrec list \<Rightarrow> u64 list" where
  "rec_addrs a t rs = map snd (filter (\<lambda>(r, p). fst r = t) (recs_at a rs))"

lemma rec_addrs_simps [simp]:
  "rec_addrs a t [] = []"
  "rec_addrs a t (r # rs) = (if fst r = t then [a] else []) @ rec_addrs (a + of_nat (length (snd r) + 2)) t rs"
  by (simp_all add: rec_addrs_def)

definition ioapic_addrs :: "mrec list \<Rightarrow> u64 list" where
  "ioapic_addrs rs = map (\<lambda>r. le_value (take 4 (drop 2 (snd r)))) (filter (\<lambda>r. fst r = 1) rs)"

definition lapic_overrides :: "mrec list \<Rightarrow> u64 list" where
  "lapic_overrides rs = map (\<lambda>r. le_value (take 8 (drop 2 (snd r)))) (filter (\<lambda>r. fst r = 5) rs)"

fun map_ioapics :: "(u64 \<Rightarrow> u8) \<Rightarrow> u64 list \<Rightarrow> vmm \<times> bytes \<Rightarrow> (u64 list \<times> vmm \<times> bytes) kres" where
  "map_ioapics phys [] sm = Inr ([], sm)"
| "map_ioapics phys (p # ps) sm = kbind (map_table phys p sm) (\<lambda>(v, sm). kbind (map_ioapics phys ps sm) (\<lambda>(vs, sm). Inr (v # vs, sm)))"

definition madt_result :: "u64 \<Rightarrow> mrec list \<Rightarrow> u64 list \<Rightarrow> madt \<Rightarrow> madt" where
  "madt_result a rs vs d = \<lparr>ioapics = ioapics d @ rec_addrs a 1 rs, overrides = overrides d @ rec_addrs a 2 rs, local_apics = local_apics d @ rec_addrs a 0 rs,
     mapped_ioapics = mapped_ioapics d @ zip (ioapic_addrs rs) vs, lapic_addr = last (lapic_addr d # lapic_overrides rs)\<rparr>"

lemma length_rec_bytes [simp]: "length (rec_bytes r) = length (snd r) + 2"
  by (simp add: rec_bytes_def)

lemma length_recs_bytes: "length (recs_bytes (r # rs)) = length (snd r) + 2 + length (recs_bytes rs)"
  by (simp add: recs_bytes_def)

lemma recs_range: "range_is m a (recs_bytes (r # rs)) \<longleftrightarrow> range_is m a (rec_bytes r) \<and> range_is m (a + of_nat (length (snd r) + 2)) (recs_bytes rs)"
  by (simp add: recs_bytes_def range_is_append)

lemma record_fields:
  "field_at ''type'' RecordHeader = (0, 1)" "field_at ''length'' RecordHeader = (1, 1)"
  "field_at ''ioapic_addr'' IOApic = (4, 4)" "field_at ''gsi_base'' IOApic = (8, 4)"
  "field_at ''lapic_addr'' LocalApicAddressOverride = (4, 8)"
  "field_at ''source'' InterruptSourceOverride = (3, 1)" "field_at ''gsi'' InterruptSourceOverride = (4, 4)" "field_at ''flags'' InterruptSourceOverride = (8, 2)"
  by (simp_all add: RecordHeader_def IOApic_def LocalApicAddressOverride_def InterruptSourceOverride_def)

lemma le_value_one [simp]: "le_value [b] = ucast b"
  by simp

lemma record_type: "range_is m a (rec_bytes r) \<Longrightarrow> ld_field RecordHeader ''type'' m a = Inr (ucast (fst r))"
  using ld_field_value [OF _ record_fields(1), of m a "rec_bytes r"] by (simp add: rec_bytes_def)

lemma uint_ucast_u8: "uint (ucast (x :: u8) :: u64) = uint x"
proof -
  have "uint x < 2 ^ LENGTH(8)" by (rule uint_bounded)
  then show ?thesis by (simp add: unsigned_ucast_eq take_bit_int_eq_self)
qed

lemma ucast_small: "n < 256 \<Longrightarrow> (ucast (of_nat n :: u8) :: u64) = of_nat n"
  by (intro word_uint_eqI) (simp add: uint_ucast_u8 unsigned_of_nat take_bit_nat_eq_self)

lemma record_length: "range_is m a (rec_bytes r) \<Longrightarrow> rec_ok r \<Longrightarrow> ld_field RecordHeader ''length'' m a = Inr (of_nat (length (snd r) + 2))"
proof -
  assume r: "range_is m a (rec_bytes r)" and ok: "rec_ok r"
  have "(ucast (of_nat (length (snd r) + 2) :: u8) :: u64) = of_nat (length (snd r) + 2)" using ok by (intro ucast_small) (simp add: rec_ok_def)
  then show ?thesis using ld_field_value [OF r record_fields(2)] by (simp add: rec_bytes_def)
qed

lemma record_ioapic: "range_is m a (rec_bytes r) \<Longrightarrow> 6 \<le> length (snd r) \<Longrightarrow> ld_field IOApic ''ioapic_addr'' m a = Inr (le_value (take 4 (drop 2 (snd r))))"
  using ld_field_value [OF _ record_fields(3), of m a "rec_bytes r"] by (simp add: rec_bytes_def numeral_eq_Suc)

lemma record_override: "range_is m a (rec_bytes r) \<Longrightarrow> 10 \<le> length (snd r) \<Longrightarrow> ld_field LocalApicAddressOverride ''lapic_addr'' m a = Inr (le_value (take 8 (drop 2 (snd r))))"
  using ld_field_value [OF _ record_fields(5), of m a "rec_bytes r"] by (simp add: rec_bytes_def numeral_eq_Suc)

text \<open>Mapping an I/O APIC does not disturb a table in other pages.\<close>

definition page_apart :: "u64 \<Rightarrow> u64 \<Rightarrow> nat \<Rightarrow> bool" where
  "page_apart v a n \<longleftrightarrow> (\<forall>i < n. page_align (a + of_nat i) \<noteq> page_align v)"

lemma range_is_show_page: "range_is m a bs \<Longrightarrow> page_apart v a (length bs) \<Longrightarrow> range_is (show_page phys p v m) a bs"
proof (induction bs arbitrary: a)
  case (Cons b bs)
  have "page_apart v (a + 1) (length bs)" unfolding page_apart_def
  proof (intro allI impI)
    fix i assume "i < length bs"
    then show "page_align (a + 1 + of_nat i) \<noteq> page_align v" using Cons.prems(2) [unfolded page_apart_def, rule_format, of "Suc i"] by (simp add: add.assoc)
  qed
  moreover have "page_align a \<noteq> page_align v" using Cons.prems(2) [unfolded page_apart_def, rule_format, of 0] by simp
  ultimately show ?case using Cons by (simp add: show_page_def)
qed simp

lemma page_apart_tail: "page_apart v a (k + n) \<Longrightarrow> page_apart v (a + of_nat k) n \<and> page_apart v a k"
  unfolding page_apart_def by (metis add.assoc add_less_cancel_left of_nat_add trans_less_add1)

lemma ucast_type: "(ucast (t :: u8) :: u64) = TYPE_LAPIC \<longleftrightarrow> t = 0" "(ucast t :: u64) = TYPE_IOAPIC \<longleftrightarrow> t = 1" "(ucast t :: u64) = TYPE_IOAPIC_ISO \<longleftrightarrow> t = 2"
  "(ucast t :: u64) = TYPE_LAPIC_ADDR_OVERRIDE \<longleftrightarrow> t = 5"
proof -
  have e: "(ucast t :: u64) = ucast k \<longleftrightarrow> t = k" for k :: u8 by (simp add: word_uint_eq_iff uint_ucast_u8)
  show "(ucast t :: u64) = TYPE_LAPIC \<longleftrightarrow> t = 0" "(ucast t :: u64) = TYPE_IOAPIC \<longleftrightarrow> t = 1" "(ucast t :: u64) = TYPE_IOAPIC_ISO \<longleftrightarrow> t = 2"
    "(ucast t :: u64) = TYPE_LAPIC_ADDR_OVERRIDE \<longleftrightarrow> t = 5"
    using e [of 0] e [of 1] e [of 2] e [of 5] by (simp_all add: TYPE_LAPIC_def TYPE_IOAPIC_def TYPE_IOAPIC_ISO_def TYPE_LAPIC_ADDR_OVERRIDE_def)
qed

text \<open>One record: the mapping of an I/O APIC is the only thing that touches the tables and the memory.\<close>

lemma madt_record_ok:
  assumes r: "range_is m a (rec_bytes r)" and ok: "rec_ok r"
    and vs: "map_ioapics phys (ioapic_addrs [r]) (s, m) = Inr (vs, s', m')" and ap: "\<forall>v \<in> set vs. page_apart v a (length (rec_bytes r))"
  shows "madt_record phys a (d, s, m) = Inr (a + of_nat (length (snd r) + 2), madt_result a [r] vs d, s', m')"
proof (cases "fst r = 1")
  case True
  have p: "ioapic_addrs [r] = [le_value (take 4 (drop 2 (snd r)))]" using True by (simp add: ioapic_addrs_def)
  then obtain v where v: "map_table phys (le_value (take 4 (drop 2 (snd r)))) (s, m) = Inr (v, s', m')" "vs = [v]"
    using vs by (auto simp: kbind_Inr_iff split: prod.splits)
  have "m' = show_page phys (le_value (take 4 (drop 2 (snd r)))) v m" using v(1) by (auto simp: map_table_def kbind_Inr_iff)
  then have r': "range_is m' a (rec_bytes r)" using range_is_show_page [OF r] ap v(2) by simp
  have "6 \<le> length (snd r)" using ok True by (simp add: rec_ok_def)
  note f = record_ioapic [OF r this]
  show ?thesis using True f v record_type [OF r] record_length [OF r' ok] p
    by (simp add: madt_record_def TYPE_LAPIC_def TYPE_IOAPIC_def parse_ioapic_def madt_result_def lapic_overrides_def)
next
  case False
  then have e: "vs = []" "s' = s" "m' = m" using vs by (simp_all add: ioapic_addrs_def)
  have "10 \<le> length (snd r)" if "fst r = 5" using ok that by (simp add: rec_ok_def)
  note f = record_override [OF r this]
  show ?thesis using False e f record_type [OF r] record_length [OF r ok]
    by (auto simp: madt_record_def ucast_type parse_lapic_def parse_ioapic_iso_def parse_lapic_addr_override_def madt_result_def lapic_overrides_def ioapic_addrs_def apfst_def map_prod_def)
qed

lemma map_ioapics_append: "map_ioapics phys (ps @ qs) sm = kbind (map_ioapics phys ps sm) (\<lambda>(vs, sm). kbind (map_ioapics phys qs sm) (\<lambda>(ws, sm). Inr (vs @ ws, sm)))"
proof (induction ps arbitrary: sm)
  case (Cons p ps)
  show ?case by (cases "map_table phys p sm") (auto simp: Cons kbind_def split: sum.splits)
qed (simp add: kbind_def split: sum.splits)

lemma madt_result_Cons:
  "length vs = length (ioapic_addrs [r]) \<Longrightarrow> madt_result (a + of_nat (length (snd r) + 2)) rs ws (madt_result a [r] vs d) = madt_result a (r # rs) (vs @ ws) d"
  by (cases vs) (auto simp: madt_result_def ioapic_addrs_def lapic_overrides_def split: if_splits)

lemma map_ioapics_range:
  "map_ioapics phys ps (s, m) = Inr (vs, s', m') \<Longrightarrow> \<forall>v \<in> set vs. page_apart v a (length bs) \<Longrightarrow> range_is m a bs \<Longrightarrow> range_is m' a bs \<and> length vs = length ps"
proof (induction ps arbitrary: s m vs)
  case (Cons p ps)
  then obtain v s1 m1 ws where v: "map_table phys p (s, m) = Inr (v, s1, m1)" "map_ioapics phys ps (s1, m1) = Inr (ws, s', m')" "vs = v # ws"
    by (auto simp: kbind_Inr_iff split: prod.splits)
  have "m1 = show_page phys p v m" using v(1) by (auto simp: map_table_def kbind_Inr_iff)
  then have "range_is m1 a bs" using range_is_show_page Cons.prems(2,3) v(3) by simp
  then show ?case using Cons.IH [OF v(2)] Cons.prems(2) v(3) by simp
qed simp

lemma madt_loop_ok:
  assumes "range_is m a (recs_bytes rs)" "\<forall>r \<in> set rs. rec_ok r" "unat a + length (recs_bytes rs) < 2 ^ 64"
    "map_ioapics phys (ioapic_addrs rs) (s, m) = Inr (vs, s', m')" "\<forall>v \<in> set vs. page_apart v a (length (recs_bytes rs))"
  shows "madt_loop phys (a + of_nat (length (recs_bytes rs))) a (d, s, m) = Some (Inr (madt_result a rs vs d, s', m'))"
  using assms
proof (induction rs arbitrary: a d s m vs)
  case Nil
  then show ?case by (simp add: recs_bytes_def madt_loop.simps madt_result_def ioapic_addrs_def lapic_overrides_def)
next
  case (Cons r rs)
  let ?k = "length (snd r) + 2" and ?n = "length (recs_bytes rs)"
  let ?e = "a + of_nat (length (recs_bytes (r # rs)))"
  have r: "range_is m a (rec_bytes r)" "range_is m (a + of_nat ?k) (recs_bytes rs)" using Cons.prems(1) unfolding recs_range by simp_all
  have "ioapic_addrs (r # rs) = ioapic_addrs [r] @ ioapic_addrs rs" by (simp add: ioapic_addrs_def)
  then obtain v1 s1 m1 v2 where v: "map_ioapics phys (ioapic_addrs [r]) (s, m) = Inr (v1, s1, m1)" "map_ioapics phys (ioapic_addrs rs) (s1, m1) = Inr (v2, s', m')" "vs = v1 @ v2"
    using Cons.prems(4) unfolding map_ioapics_append by (auto simp: kbind_Inr_iff map_ioapics_append split: prod.splits)
  have ap: "page_apart v a ?k" "page_apart v (a + of_nat ?k) ?n" if "v \<in> set vs" for v using page_apart_tail [of v a ?k ?n] Cons.prems(5) that by (simp_all add: length_recs_bytes)
  have ap1: "\<forall>v \<in> set v1. page_apart v a (length (rec_bytes r))" using ap(1) v(3) by simp
  have rec: "madt_record phys a (d, s, m) = Inr (a + of_nat ?k, madt_result a [r] v1 d, s1, m1)" using madt_record_ok [OF r(1) _ v(1) ap1] Cons.prems(2) by simp
  have l: "length v1 = length (ioapic_addrs [r])" using map_ioapics_range [OF v(1) ap1 r(1)] by simp
  have r1: "range_is m1 (a + of_nat ?k) (recs_bytes rs)" using map_ioapics_range [OF v(1) _ r(2)] ap(2) v(3) by simp
  have u: "unat (a + of_nat ?k) = unat a + ?k" "unat ?e = unat a + length (recs_bytes (r # rs))"
    by (rule unat_offset, use Cons.prems(3) in \<open>simp add: length_recs_bytes\<close>)+
  have e: "?e = a + of_nat ?k + of_nat ?n" by (simp add: length_recs_bytes)
  have "madt_loop phys ?e (a + of_nat ?k) (madt_result a [r] v1 d, s1, m1) = Some (Inr (madt_result (a + of_nat ?k) rs v2 (madt_result a [r] v1 d), s', m'))"
    unfolding e using Cons.IH [OF r1 _ _ v(2)] Cons.prems(2,3) ap(2) v(3) u(1) by (simp add: length_recs_bytes)
  moreover have "a < ?e" unfolding word_less_nat_alt u(2) by (simp add: length_recs_bytes)
  ultimately show ?case using rec madt_result_Cons [OF l, of a rs v2 d] v(3) by (subst madt_loop.simps) simp
qed


lemma madt_record_stays:
  assumes "ld_field RecordHeader ''type'' m rec = Inr t" "t \<noteq> TYPE_IOAPIC" "t \<noteq> TYPE_LAPIC_ADDR_OVERRIDE" "ld_field RecordHeader ''length'' m rec = Inr 0"
  shows "\<exists>d'. madt_record phys rec (d, s, m) = Inr (rec, d', s, m)"
  using assms by (auto simp: madt_record_def)

text \<open>A table with a local APIC and an override of interrupt 0 to 2.\<close>

definition tiny_header_bytes :: "u8 list" where
  "tiny_header_bytes = [65, 80, 73, 67, 62, 0, 0, 0] @ replicate 28 0 @ [0, 0, 224, 254, 0, 0, 0, 0]"

definition tiny_recs :: "mrec list" where
  "tiny_recs = [(0, [0, 0, 1, 0, 0, 0]), (2, [0, 0, 2, 0, 0, 0, 0, 0])]"


text \<open>
  A record of length 0 makes \<^verbatim>\<open>madt::parse\<close> loop forever, because the address of the next record is then that of the record itself. (A record of an I/O APIC or of an address override also runs code that can fail.)
\<close>

theorem madt_zero_length_diverges:
  assumes "rec < madt_end" "ld_field RecordHeader ''type'' m rec = Inr t" "t \<noteq> TYPE_IOAPIC" "t \<noteq> TYPE_LAPIC_ADDR_OVERRIDE" "ld_field RecordHeader ''length'' m rec = Inr 0"
  shows "madt_loop phys madt_end rec (d, s, m) = None"
proof (rule ccontr)
  assume "madt_loop phys madt_end rec (d, s, m) \<noteq> None"
  then obtain y where y: "madt_loop phys madt_end rec (d, s, m) = Some y" by blast
  have "\<not> (phys = phys \<and> madt_end = madt_end \<and> rec = rec \<and> snd (d, s, m) = (s, m))"
  proof (rule madt_loop.raw_induct [where P = "\<lambda>phys' e' r' st' y. \<not> (phys' = phys \<and> e' = madt_end \<and> r' = rec \<and> snd st' = (s, m))", OF _ y])
    fix f phys' e' r' st' y'
    assume IH: "\<And>phys' e' r' st' y. f phys' e' r' st' = Some y \<Longrightarrow> \<not> (phys' = phys \<and> e' = madt_end \<and> r' = rec \<and> snd st' = (s, m))"
      and b: "(if r' < e' then (case madt_record phys' r' st' of Inl e \<Rightarrow> Some (Inl e) | Inr (rec, st) \<Rightarrow> f phys' e' rec st) else Some (Inr st')) = Some y'"
    show "\<not> (phys' = phys \<and> e' = madt_end \<and> r' = rec \<and> snd st' = (s, m))"
    proof
      assume a: "phys' = phys \<and> e' = madt_end \<and> r' = rec \<and> snd st' = (s, m)"
      then have "st' = (fst st', s, m)" by (simp add: prod_eq_iff)
      then obtain d' where "madt_record phys rec st' = Inr (rec, d', s, m)" using madt_record_stays [OF assms(2-5), of phys "fst st'" s] by metis
      then have "f phys madt_end rec (d', s, m) = Some y'" using b a assms(1) by simp
      then show False using IH by fastforce
    qed
  qed
  then show False by simp
qed

theorem madt_zero_length_diverges_witness:
  "\<forall>phys d s. madt_loop phys 0x1010 0x1000 (d, s, stored 0x1000 [0, 0] Map.empty) = None"
proof (intro allI)
  fix phys d s
  let ?m = "stored 0x1000 [0, 0] Map.empty"
  have "range_is ?m 0x1000 [0, 0]" using range_is_stored [of "[]" "[0, 0]" "0x1000" Map.empty] by simp
  note f = ld_field_value [OF this]
  have "ld_field RecordHeader ''type'' ?m 0x1000 = Inr 0" "ld_field RecordHeader ''length'' ?m 0x1000 = Inr 0" using f [OF record_fields(1)] f [OF record_fields(2)] by simp_all
  then show "madt_loop phys 0x1010 0x1000 (d, s, ?m) = None"
    by (intro madt_zero_length_diverges [where t = 0]) (simp_all add: TYPE_IOAPIC_def TYPE_LAPIC_ADDR_OVERRIDE_def)
qed

section \<open>Where interrupts go\<close>

definition ovr_source :: "mrec \<Rightarrow> u8" where "ovr_source r = snd r ! 1"
definition ovr_gsi :: "mrec \<Rightarrow> u32" where "ovr_gsi r = ucast (le_value (take 4 (drop 2 (snd r))))"
definition ovr_flags :: "mrec \<Rightarrow> u64" where "ovr_flags r = le_value (take 2 (drop 6 (snd r)))"
definition ioapic_base :: "mrec \<Rightarrow> u32" where "ioapic_base r = ucast (le_value (take 4 (drop 6 (snd r))))"
definition ioapic_phys :: "mrec \<Rightarrow> u64" where "ioapic_phys r = le_value (take 4 (drop 2 (snd r)))"

text \<open>The first override of the table for an interrupt, the global number of the interrupt, and the first I/O APIC that serves it.\<close>

definition irq_override :: "mrec list \<Rightarrow> u8 \<Rightarrow> mrec option" where
  "irq_override rs irq = List.find (\<lambda>r. fst r = 2 \<and> ovr_source r = irq) rs"

definition irq_gsi :: "mrec list \<Rightarrow> u8 \<Rightarrow> u32" where
  "irq_gsi rs irq = (case irq_override rs irq of None \<Rightarrow> ucast irq | Some r \<Rightarrow> ovr_gsi r)"

definition gsi_ioapic :: "mrec list \<Rightarrow> u32 \<Rightarrow> mrec option" where
  "gsi_ioapic rs gsi = List.find (\<lambda>r. fst r = 1 \<and> ioapic_base r \<le> gsi \<and> gsi < ioapic_base r + 24) rs"

lemma recs_at_range: "range_is m a (recs_bytes rs) \<Longrightarrow> (r, p) \<in> set (recs_at a rs) \<Longrightarrow> range_is m p (rec_bytes r) \<and> r \<in> set rs"
  by (induction rs arbitrary: a) (auto simp: recs_range)

lemma map_fst_recs_at: "map fst (recs_at a rs) = rs"
  by (induction rs arbitrary: a) simp_all

lemma find_map_fst: "map_option fst (List.find (\<lambda>x. P (fst x)) xs) = List.find P (map fst xs)"
  by (induction xs) auto

text \<open>The members of a record that routing reads.\<close>

lemma record_source: "range_is m p (rec_bytes r) \<Longrightarrow> 8 \<le> length (snd r) \<Longrightarrow> ld_field InterruptSourceOverride ''source'' m p = Inr (ucast (ovr_source r))"
proof -
  assume r: "range_is m p (rec_bytes r)" and l: "8 \<le> length (snd r)"
  have "take 1 (drop 3 (rec_bytes r)) = [snd r ! 1]" using l by (simp add: rec_bytes_def numeral_eq_Suc take_Suc_conv_app_nth hd_drop_conv_nth [symmetric] take_Suc drop_Suc)
  then show ?thesis using ld_field_value [OF r record_fields(6)] l by (simp add: ovr_source_def)
qed

lemma record_gsi: "range_is m p (rec_bytes r) \<Longrightarrow> 8 \<le> length (snd r) \<Longrightarrow> ld_field InterruptSourceOverride ''gsi'' m p = Inr (le_value (take 4 (drop 2 (snd r))))"
  using ld_field_value [OF _ record_fields(7), of m p "rec_bytes r"] by (simp add: rec_bytes_def numeral_eq_Suc)

lemma record_flags: "range_is m p (rec_bytes r) \<Longrightarrow> 8 \<le> length (snd r) \<Longrightarrow> ld_field InterruptSourceOverride ''flags'' m p = Inr (ovr_flags r)"
  using ld_field_value [OF _ record_fields(8), of m p "rec_bytes r"] by (simp add: rec_bytes_def numeral_eq_Suc ovr_flags_def)

lemma record_base: "range_is m p (rec_bytes r) \<Longrightarrow> 10 \<le> length (snd r) \<Longrightarrow> ld_field IOApic ''gsi_base'' m p = Inr (le_value (take 4 (drop 6 (snd r))))"
  using ld_field_value [OF _ record_fields(4), of m p "rec_bytes r"] by (simp add: rec_bytes_def numeral_eq_Suc)

lemma ucast_u8_eq: "(ucast (x :: u8) :: u64) = ucast y \<longleftrightarrow> x = y"
  by (simp add: word_uint_eq_iff uint_ucast_u8)

lemma find_override_ok:
  "\<forall>(r, p) \<in> set xs. range_is m p (rec_bytes r) \<and> rec_ok r \<Longrightarrow>
   find_override m irq (map snd (filter (\<lambda>(r, p). fst r = 2) xs)) = Inr (map_option snd (List.find (\<lambda>x. fst (fst x) = 2 \<and> ovr_source (fst x) = irq) xs))"
proof (induction xs)
  case (Cons x xs)
  obtain r p where x: "x = (r, p)" by (cases x)
  have "ld_field InterruptSourceOverride ''source'' m p = Inr (ucast (ovr_source r))" if "fst r = 2" using record_source [of m p r] Cons.prems x that by (simp add: rec_ok_def)
  then show ?case using Cons x by (auto simp: ucast_u8_eq)
qed simp

lemma find_ioapic_ok:
  "\<forall>(r, p) \<in> set xs. range_is m p (rec_bytes r) \<and> rec_ok r \<Longrightarrow>
   find_ioapic m gsi (map snd (filter (\<lambda>(r, p). fst r = 1) xs)) = Inr (map_option snd (List.find (\<lambda>x. fst (fst x) = 1 \<and> ioapic_base (fst x) \<le> gsi \<and> gsi < ioapic_base (fst x) + 24) xs))"
proof (induction xs)
  case (Cons x xs)
  obtain r p where x: "x = (r, p)" by (cases x)
  have "ld_field IOApic ''gsi_base'' m p = Inr (le_value (take 4 (drop 6 (snd r))))" if "fst r = 1" using record_base [of m p r] Cons.prems x that by (simp add: rec_ok_def)
  then show ?case using Cons x by (auto simp: ioapic_base_def Let_def)
qed simp

lemma find_SomeD: "List.find P xs = Some x \<Longrightarrow> x \<in> set xs \<and> P x"
  by (auto simp: find_Some_iff)

definition madt_empty :: madt where
  "madt_empty = \<lparr>ioapics = [], overrides = [], local_apics = [], mapped_ioapics = [], lapic_addr = 0\<rparr>"

definition ioapic_virt :: "mrec list \<Rightarrow> u64 list \<Rightarrow> mrec \<Rightarrow> u64" where
  "ioapic_virt rs vs r = (case map_of (zip (ioapic_addrs rs) vs) (ioapic_phys r) of None \<Rightarrow> 0 | Some v \<Rightarrow> v)"

lemma ioapic_virt_mapped:
  assumes "r \<in> set rs" "fst r = 1" "length vs = length (ioapic_addrs rs)" "0 \<notin> set vs"
  shows "ioapic_virt rs vs r \<noteq> 0"
proof -
  have "ioapic_phys r \<in> set (ioapic_addrs rs)" using assms(1,2) by (auto simp: ioapic_addrs_def ioapic_phys_def)
  then obtain v where "map_of (zip (ioapic_addrs rs) vs) (ioapic_phys r) = Some v" using map_of_zip_is_Some [OF assms(3) [symmetric]] by blast
  moreover then have "v \<in> set vs" by (auto dest: map_of_SomeD set_zip_rightD)
  ultimately show ?thesis using assms(4) by (auto simp: ioapic_virt_def)
qed

lemma pin_less: "(b :: u32) \<le> g \<Longrightarrow> g < b + 24 \<Longrightarrow> g - b < 24"
proof -
  assume l: "b \<le> g" and u: "g < b + 24"
  have "unat (b + 24) \<le> unat b + 24" by (simp add: unat_word_ariths)
  then have "unat g < unat b + 24" using u by (simp add: word_less_nat_alt)
  moreover have "unat (g - b) = unat g - unat b" using l by (simp add: unat_sub)
  ultimately show ?thesis using l by (simp add: word_less_nat_alt word_le_nat_alt)
qed

lemma ioapic_write_two:
  "base \<noteq> 0 \<Longrightarrow> kbind (ioapic_write base r1 x1 devs) (ioapic_write base r2 x2) =
    Inr (devs(base := \<lparr>ioregsel = r2, ioregs = (ioregs (devs base))(r1 := x1, r2 := x2)\<rparr>))"
  by (cases "devs base") (simp add: ioapic_write_def kassert_not_null_def Let_def)



end
