(* ===== verification/Segments.thy ===== *)
theory Segments
  imports Kernel_Prelude
begin

text \<open>
  The tables the processor reads (\<^verbatim>\<open>arch/x64/gdt/gdt.cpp\<close>, \<^verbatim>\<open>arch/x64/interrupts/idt.cpp\<close>) and the registers of the \<^verbatim>\<open>SYSCALL\<close> instruction (\<^verbatim>\<open>x64::trap::init\<close> in \<^verbatim>\<open>arch/x64/trap/syscall_entry.cpp\<close>).

  A descriptor is a record of the code's bit fields; \<open>gdt_bits\<close> and \<open>idt_bits\<close> are the descriptor in memory as the structure is laid out, and \<open>seg_base\<close>, \<open>seg_dpl\<close>, \<open>gate_offset\<close> and the others are the fields as the
  processor's manual defines them on those bits. The lemmas say that what the code puts together the processor takes apart again, and that the selectors the system-call instructions load name the right segments.
\<close>

unbundle bit_operations_syntax

section \<open>The segment descriptor table\<close>

definition FLAGS_64BIT_4KB :: u8 where "FLAGS_64BIT_4KB = 0x8 OR 0x2"
definition ACCESS_PRESENT :: u8 where "ACCESS_PRESENT = 0x80"
definition ACCESS_RING_0 :: u8 where "ACCESS_RING_0 = 0x00"
definition ACCESS_RING_3 :: u8 where "ACCESS_RING_3 = 0x60"
definition ACCESS_CODE_DATA :: u8 where "ACCESS_CODE_DATA = 0x10"
definition ACCESS_EXECUTABLE :: u8 where "ACCESS_EXECUTABLE = 0x08"
definition ACCESS_READABLE :: u8 where "ACCESS_READABLE = 0x02"
definition ACCESS_WRITABLE :: u8 where "ACCESS_WRITABLE = 0x02"
definition ACCESS_TSS :: u8 where "ACCESS_TSS = 0x09"
definition KERNEL_CODE :: u8 where "KERNEL_CODE = ACCESS_PRESENT OR ACCESS_RING_0 OR ACCESS_CODE_DATA OR ACCESS_EXECUTABLE OR ACCESS_READABLE"
definition KERNEL_DATA :: u8 where "KERNEL_DATA = ACCESS_PRESENT OR ACCESS_RING_0 OR ACCESS_CODE_DATA OR ACCESS_WRITABLE"
definition USER_CODE :: u8 where "USER_CODE = ACCESS_PRESENT OR ACCESS_RING_3 OR ACCESS_CODE_DATA OR ACCESS_EXECUTABLE OR ACCESS_READABLE"
definition USER_DATA :: u8 where "USER_DATA = ACCESS_PRESENT OR ACCESS_RING_3 OR ACCESS_CODE_DATA OR ACCESS_WRITABLE"

record GdtEntry =
  limit_low :: u16
  base_low :: u16
  base_mid :: u8
  access :: u8
  limit_high :: "4 word"
  g_flags :: "4 word"
  base_high :: u8

record TssDescriptor =
  t_limit_low :: u16
  t_base_low :: u16
  t_base_mid :: u8
  t_access :: u8
  t_limit_flags :: u8
  t_base_high :: u8
  t_base_upper :: u32
  t_reserved :: u32

record TssEntry =
  rsp0 :: u64
  iopb_offset :: u16

record GdtTable =
  gdt_zero :: GdtEntry
  gdt_kernel_code :: GdtEntry
  gdt_kernel_data :: GdtEntry
  gdt_user_data :: GdtEntry
  gdt_user_code :: GdtEntry
  gdt_tss :: TssDescriptor

definition make_gdt_entry :: "u32 \<Rightarrow> u32 \<Rightarrow> u8 \<Rightarrow> u8 \<Rightarrow> GdtEntry" where
  "make_gdt_entry base limit acc fl = \<lparr>limit_low = ucast (limit AND 0xFFFF), base_low = ucast (base AND 0xFFFF), base_mid = ucast (drop_bit 16 base AND 0xFF), access = acc,
     limit_high = ucast (drop_bit 16 limit AND 0x0F), g_flags = ucast fl, base_high = ucast (drop_bit 24 base AND 0xFF)\<rparr>"

text \<open>\<open>base\<close> is the address of the task state segment, a structure of 104 bytes.\<close>

definition make_tss_descriptor :: "u64 \<Rightarrow> TssDescriptor" where
  "make_tss_descriptor base = (let limit = 104 - 1 :: u32 in \<lparr>t_limit_low = ucast (limit AND 0xFFFF), t_base_low = ucast (base AND 0xFFFF), t_base_mid = ucast (drop_bit 16 base AND 0xFF),
     t_access = ACCESS_PRESENT OR ACCESS_RING_0 OR ACCESS_TSS, t_limit_flags = ucast (drop_bit 16 limit AND 0x0F), t_base_high = ucast (drop_bit 24 base AND 0xFF),
     t_base_upper = ucast (drop_bit 32 base AND 0xFFFFFFFF), t_reserved = 0\<rparr>)"

definition init_gdt_table :: "u64 \<Rightarrow> GdtTable" where
  "init_gdt_table tss_addr = \<lparr>gdt_zero = \<lparr>limit_low = 0, base_low = 0, base_mid = 0, access = 0, limit_high = 0, g_flags = 0, base_high = 0\<rparr>,
     gdt_kernel_code = make_gdt_entry 0 0xFFFFF KERNEL_CODE FLAGS_64BIT_4KB, gdt_kernel_data = make_gdt_entry 0 0xFFFFF KERNEL_DATA FLAGS_64BIT_4KB,
     gdt_user_data = make_gdt_entry 0 0xFFFFF USER_DATA FLAGS_64BIT_4KB, gdt_user_code = make_gdt_entry 0 0xFFFFF USER_CODE FLAGS_64BIT_4KB,
     gdt_tss = make_tss_descriptor tss_addr\<rparr>"

definition init_tss :: "u64 \<Rightarrow> TssEntry" where
  "init_tss kernel_stack_addr = \<lparr>rsp0 = kernel_stack_addr + 4096 * 4, iopb_offset = 104\<rparr>"

definition set_kernel_stack :: "u64 \<Rightarrow> TssEntry \<Rightarrow> TssEntry" where
  "set_kernel_stack sp tss = tss\<lparr>rsp0 := sp\<rparr>"

text \<open>The descriptors in memory, in the order of the members from the least significant bit.\<close>

definition gdt_bits :: "GdtEntry \<Rightarrow> u64" where
  "gdt_bits e = ucast (limit_low e) OR push_bit 16 (ucast (base_low e)) OR push_bit 32 (ucast (base_mid e)) OR push_bit 40 (ucast (access e)) OR
     push_bit 48 (ucast (limit_high e)) OR push_bit 52 (ucast (g_flags e)) OR push_bit 56 (ucast (base_high e))"

definition tss_bits :: "TssDescriptor \<Rightarrow> u64 \<times> u64" where
  "tss_bits t = (ucast (t_limit_low t) OR push_bit 16 (ucast (t_base_low t)) OR push_bit 32 (ucast (t_base_mid t)) OR push_bit 40 (ucast (t_access t)) OR
     push_bit 48 (ucast (t_limit_flags t)) OR push_bit 56 (ucast (t_base_high t)), ucast (t_base_upper t) OR push_bit 32 (ucast (t_reserved t)))"

definition gdt_memory :: "GdtTable \<Rightarrow> u64 list" where
  "gdt_memory g = [gdt_bits (gdt_zero g), gdt_bits (gdt_kernel_code g), gdt_bits (gdt_kernel_data g), gdt_bits (gdt_user_data g), gdt_bits (gdt_user_code g),
     fst (tss_bits (gdt_tss g)), snd (tss_bits (gdt_tss g))]"

section \<open>The interrupt descriptor table\<close>

definition IDT_KERNEL_INT :: u8 where "IDT_KERNEL_INT = 0x80 OR 0x00 OR 0x0E"
definition KERNEL_CODE_SEL :: u16 where "KERNEL_CODE_SEL = 0x08"

record IdtEntry =
  offset_low :: u16
  selector :: u16
  ist :: u8
  attributes :: u8
  offset_mid :: u16
  offset_high :: u32
  i_reserved :: u32

definition set_descriptor :: "u8 \<Rightarrow> u64 \<Rightarrow> u8 \<Rightarrow> u8 \<Rightarrow> IdtEntry list \<Rightarrow> IdtEntry list" where
  "set_descriptor vector isr ist_idx fl idt = idt[unat vector := \<lparr>offset_low = ucast (isr AND 0xFFFF), selector = KERNEL_CODE_SEL, ist = ist_idx AND 0x7, attributes = fl,
     offset_mid = ucast (drop_bit 16 isr AND 0xFFFF), offset_high = ucast (drop_bit 32 isr AND 0xFFFFFFFF), i_reserved = 0\<rparr>]"

definition idt_init :: "(nat \<Rightarrow> u64) \<Rightarrow> IdtEntry list \<Rightarrow> IdtEntry list" where
  "idt_init isr_stub_table idt = fold (\<lambda>vector. set_descriptor (of_nat vector) (isr_stub_table vector) 0 IDT_KERNEL_INT) [0..<256] idt"

definition idt_bits :: "IdtEntry \<Rightarrow> u64 \<times> u64" where
  "idt_bits e = (ucast (offset_low e) OR push_bit 16 (ucast (selector e)) OR push_bit 32 (ucast (ist e)) OR push_bit 40 (ucast (attributes e)) OR push_bit 48 (ucast (offset_mid e)),
     ucast (offset_high e) OR push_bit 32 (ucast (i_reserved e)))"

section \<open>The registers of SYSCALL\<close>

record syscall_msrs =
  msr_star :: u64
  msr_lstar :: u64
  msr_sfmask :: u64
  msr_efer :: u64

definition SFMASK_IF :: u64 where "SFMASK_IF = push_bit 9 1"
definition SFMASK_DF :: u64 where "SFMASK_DF = push_bit 10 1"
definition SFMASK_TF :: u64 where "SFMASK_TF = push_bit 8 1"
definition EFER_SCE :: u64 where "EFER_SCE = push_bit 0 1"

definition trap_init :: "u64 \<Rightarrow> syscall_msrs \<Rightarrow> syscall_msrs" where
  "trap_init syscall_entry r = \<lparr>msr_star = push_bit 48 0x13 OR push_bit 32 0x08, msr_lstar = syscall_entry, msr_sfmask = SFMASK_DF OR SFMASK_IF OR SFMASK_TF, msr_efer = msr_efer r OR EFER_SCE\<rparr>"

section \<open>As the processor reads them\<close>

definition seg_base :: "u64 \<Rightarrow> u32" where "seg_base d = ucast (drop_bit 16 d AND 0xFFFFFF) OR push_bit 24 (ucast (drop_bit 56 d))"
definition seg_limit :: "u64 \<Rightarrow> u32" where "seg_limit d = ucast (d AND 0xFFFF) OR push_bit 16 (ucast (drop_bit 48 d AND 0xF))"
definition seg_present :: "u64 \<Rightarrow> bool" where "seg_present d = bit d 47"
definition seg_dpl :: "u64 \<Rightarrow> u64" where "seg_dpl d = take_bit 2 (drop_bit 45 d)"
definition seg_code :: "u64 \<Rightarrow> bool" where "seg_code d \<longleftrightarrow> bit d 44 \<and> bit d 43"
definition seg_writable_data :: "u64 \<Rightarrow> bool" where "seg_writable_data d \<longleftrightarrow> bit d 44 \<and> \<not> bit d 43 \<and> bit d 41"
definition seg_long :: "u64 \<Rightarrow> bool" where "seg_long d \<longleftrightarrow> bit d 53 \<and> \<not> bit d 54"
definition gate_offset :: "u64 \<times> u64 \<Rightarrow> u64" where "gate_offset d = (fst d AND 0xFFFF) OR push_bit 16 (drop_bit 48 (fst d)) OR push_bit 32 (take_bit 32 (snd d))"
definition gate_selector :: "u64 \<times> u64 \<Rightarrow> u64" where "gate_selector d = take_bit 16 (drop_bit 16 (fst d))"
definition gate_type :: "u64 \<times> u64 \<Rightarrow> u64" where "gate_type d = take_bit 8 (drop_bit 40 (fst d))"
definition tss_base :: "u64 \<times> u64 \<Rightarrow> u64" where "tss_base d = ucast (seg_base (fst d)) OR push_bit 32 (take_bit 32 (snd d))"

text \<open>The selectors that \<^verbatim>\<open>SYSCALL\<close> and \<^verbatim>\<open>SYSRET\<close> load, and the descriptor of a selector.\<close>

definition syscall_cs :: "syscall_msrs \<Rightarrow> u64" where "syscall_cs r = take_bit 16 (drop_bit 32 (msr_star r)) AND NOT 3"
definition syscall_ss :: "syscall_msrs \<Rightarrow> u64" where "syscall_ss r = take_bit 16 (drop_bit 32 (msr_star r)) + 8"
definition sysret_cs :: "syscall_msrs \<Rightarrow> u64" where "sysret_cs r = (drop_bit 48 (msr_star r) + 16) OR 3"
definition sysret_ss :: "syscall_msrs \<Rightarrow> u64" where "sysret_ss r = drop_bit 48 (msr_star r) + 8"
definition descriptor_of :: "u64 \<Rightarrow> u64 list \<Rightarrow> u64" where "descriptor_of sel mem = mem ! unat (drop_bit 3 sel)"

section \<open>What is put together is taken apart again\<close>

lemma and_masks:
  "(x :: 'a :: len word) AND 0xFFFF = take_bit 16 x" "x AND 0xFF = take_bit 8 x" "x AND 0xF = take_bit 4 x" "x AND 0xFFFFFF = take_bit 24 x" "x AND 0xFFFFFFFF = take_bit 32 x"
  by (simp_all add: take_bit_eq_mask mask_eq_exp_minus_1)

lemma bit_out:
  "16 \<le> n \<Longrightarrow> \<not> bit (x :: u16) n" "8 \<le> n \<Longrightarrow> \<not> bit (y :: u8) n" "4 \<le> n \<Longrightarrow> \<not> bit (z :: 4 word) n" "32 \<le> n \<Longrightarrow> \<not> bit (w :: u32) n" "64 \<le> n \<Longrightarrow> \<not> bit (v :: u64) n"
  using bit_imp_le_length [of v n] bit_imp_le_length [of x n] bit_imp_le_length [of y n] bit_imp_le_length [of z n] bit_imp_le_length [of w n] by auto

text \<open>Two words are equal when they are on three ranges of bits, one after the other.\<close>

lemma word_rangesI:
  assumes "\<And>k. k < i \<Longrightarrow> bit x k = bit y k" "\<And>k. k < j - i \<Longrightarrow> bit x (i + k) = bit y (i + k)" "\<And>k. k < LENGTH('a) - j \<Longrightarrow> bit x (j + k) = bit y (j + k)"
  shows "(x :: 'a :: len word) = y"
proof (rule bit_word_eqI)
  fix n assume n: "n < LENGTH('a)"
  consider "n < i" | "i \<le> n" "n < j" | "j \<le> n" by linarith
  then show "bit x n = bit y n" using assms(1) [of n] assms(2) [of "n - i"] assms(3) [of "n - j"] n by cases auto
qed

lemmas gdt_bit_simps = gdt_bits_def make_gdt_entry_def and_masks bit_simps bit_out

lemma gdt_base: "seg_base (gdt_bits (make_gdt_entry b l a f)) = b"
  by (rule word_rangesI [where i = 16 and j = 24]) (simp_all add: seg_base_def gdt_bit_simps)

lemma gdt_limit: "seg_limit (gdt_bits (make_gdt_entry b l a f)) = take_bit 20 l"
  by (rule word_rangesI [where i = 16 and j = 20]) (simp_all add: seg_limit_def gdt_bit_simps)

lemma gdt_access: "take_bit 8 (drop_bit 40 (gdt_bits (make_gdt_entry b l a f))) = ucast a"
  by (rule word_rangesI [where i = 8 and j = 8]) (simp_all add: gdt_bit_simps)

lemma gdt_flags: "take_bit 4 (drop_bit 52 (gdt_bits (make_gdt_entry b l a f))) = ucast (take_bit 4 f)"
  by (rule word_rangesI [where i = 4 and j = 4]) (simp_all add: gdt_bit_simps)

lemma tss_base_low: "seg_base (fst (tss_bits (make_tss_descriptor t))) = ucast t"
  by (rule word_rangesI [where i = 16 and j = 24]) (simp_all add: seg_base_def tss_bits_def make_tss_descriptor_def and_masks bit_simps bit_out Let_def)

lemma tss_base_high: "take_bit 32 (snd (tss_bits (make_tss_descriptor t))) = drop_bit 32 t"
  by (rule word_rangesI [where i = 32 and j = 32]) (simp_all add: tss_bits_def make_tss_descriptor_def and_masks bit_simps bit_out Let_def)

lemma tss_base_ok: "tss_base (tss_bits (make_tss_descriptor t)) = t"
  by (rule word_rangesI [where i = 32 and j = 32]) (simp_all add: tss_base_def tss_base_low tss_base_high bit_simps bit_out)

definition gate_for :: "u64 \<Rightarrow> u8 \<Rightarrow> u8 \<Rightarrow> IdtEntry" where
  "gate_for isr ist_idx fl = \<lparr>offset_low = ucast (isr AND 0xFFFF), selector = KERNEL_CODE_SEL, ist = ist_idx AND 0x7, attributes = fl,
     offset_mid = ucast (drop_bit 16 isr AND 0xFFFF), offset_high = ucast (drop_bit 32 isr AND 0xFFFFFFFF), i_reserved = 0\<rparr>"

lemmas idt_bit_simps = idt_bits_def gate_for_def and_masks bit_simps bit_out

lemma gate_offset_ok: "gate_offset (idt_bits (gate_for isr i f)) = isr"
  by (rule word_rangesI [where i = 16 and j = 32]) (simp_all add: gate_offset_def idt_bit_simps)

lemma gate_selector_ok: "gate_selector (idt_bits (gate_for isr i f)) = ucast KERNEL_CODE_SEL"
  by (rule word_rangesI [where i = 16 and j = 16]) (simp_all add: gate_selector_def idt_bit_simps)

lemma gate_type_ok: "gate_type (idt_bits (gate_for isr i f)) = ucast f"
  by (rule word_rangesI [where i = 8 and j = 8]) (simp_all add: gate_type_def idt_bit_simps)

lemma idt_init_upto:
  "length idt = 256 \<Longrightarrow> n \<le> 256 \<Longrightarrow> length (fold (\<lambda>v. set_descriptor (of_nat v) (isr v) 0 IDT_KERNEL_INT) [0..<n] idt) = 256 \<and>
     (\<forall>v < n. fold (\<lambda>v. set_descriptor (of_nat v) (isr v) 0 IDT_KERNEL_INT) [0..<n] idt ! v = gate_for (isr v) 0 IDT_KERNEL_INT)"
proof (induction n)
  case (Suc n)
  have "unat (of_nat n :: u8) = n" using Suc.prems by (simp add: unsigned_of_nat take_bit_nat_eq_self)
  then show ?case using Suc by (auto simp: set_descriptor_def gate_for_def nth_list_update less_Suc_eq)
qed simp

text \<open>
  C14: Segment descriptors, the descriptor of the task state segment and the interrupt gates: from the bits in memory the processor takes apart exactly the base, limit, access byte and flags that the code put together, the
  full 64-bit address of the task state segment, and for each of the 256 vectors the address of its stub, the kernel's code segment, and the type of a present interrupt gate that user code cannot call.
\<close>

theorem descriptors_roundtrip:
  "seg_base (gdt_bits (make_gdt_entry b l a f)) = b \<and> seg_limit (gdt_bits (make_gdt_entry b l a f)) = take_bit 20 l \<and>
   take_bit 8 (drop_bit 40 (gdt_bits (make_gdt_entry b l a f))) = ucast a \<and> take_bit 4 (drop_bit 52 (gdt_bits (make_gdt_entry b l a f))) = ucast (take_bit 4 f) \<and>
   tss_base (tss_bits (make_tss_descriptor t)) = t \<and>
   (let idt = map (\<lambda>e. (gate_offset (idt_bits e), gate_selector (idt_bits e), gate_type (idt_bits e))) (idt_init isr (replicate 256 raw)) in idt = map (\<lambda>v. (isr v, 8, 0x8E)) [0..<256])"
proof -
  have i: "length (idt_init isr (replicate 256 raw)) = 256" "\<And>v. v < 256 \<Longrightarrow> idt_init isr (replicate 256 raw) ! v = gate_for (isr v) 0 IDT_KERNEL_INT"
    using idt_init_upto [of "replicate 256 raw" 256 isr] by (simp_all add: idt_init_def)
  have "map (\<lambda>e. (gate_offset (idt_bits e), gate_selector (idt_bits e), gate_type (idt_bits e))) (idt_init isr (replicate 256 raw)) = map (\<lambda>v. (isr v, 8, 0x8E)) [0..<256]"
    by (rule nth_equalityI) (simp_all add: i gate_offset_ok gate_selector_ok gate_type_ok KERNEL_CODE_SEL_def IDT_KERNEL_INT_def)
  then show ?thesis by (simp add: gdt_base gdt_limit gdt_access gdt_flags tss_base_ok)
qed

text \<open>
  The selectors of the system-call instructions. With the table and the registers as initialised, \<^verbatim>\<open>SYSCALL\<close> loads selectors of the present kernel code and kernel data segments (privilege 0, long mode), and
  \<^verbatim>\<open>SYSRET\<close> loads selectors of the present user code and user data segments with requested privilege 3; interrupts, single-stepping and the direction flag are off on entry, but the flag AC, which suspends
  the protection of user memory, is left as the user set it.
\<close>

theorem syscall_segments:
  "(let r = trap_init e r0; g = gdt_memory (init_gdt_table t); kc = descriptor_of (syscall_cs r) g; kd = descriptor_of (syscall_ss r) g; uc = descriptor_of (sysret_cs r) g; ud = descriptor_of (sysret_ss r) g in
     seg_present kc \<and> seg_code kc \<and> seg_long kc \<and> seg_dpl kc = 0 \<and> seg_present kd \<and> seg_writable_data kd \<and> seg_dpl kd = 0 \<and>
     seg_present uc \<and> seg_code uc \<and> seg_long uc \<and> seg_dpl uc = 3 \<and> seg_present ud \<and> seg_writable_data ud \<and> seg_dpl ud = 3 \<and>
     take_bit 2 (syscall_cs r) = 0 \<and> take_bit 2 (syscall_ss r) = 0 \<and> take_bit 2 (sysret_cs r) = 3 \<and> take_bit 2 (sysret_ss r) = 3 \<and>
     bit (msr_sfmask r) 9 \<and> bit (msr_sfmask r) 8 \<and> bit (msr_sfmask r) 10 \<and> \<not> bit (msr_sfmask r) 18)"
  by (simp add: trap_init_def gdt_memory_def init_gdt_table_def make_gdt_entry_def gdt_bits_def descriptor_of_def syscall_cs_def syscall_ss_def sysret_cs_def sysret_ss_def
    seg_present_def seg_code_def seg_long_def seg_dpl_def seg_writable_data_def KERNEL_CODE_def KERNEL_DATA_def USER_CODE_def USER_DATA_def FLAGS_64BIT_4KB_def
    ACCESS_PRESENT_def ACCESS_RING_0_def ACCESS_RING_3_def ACCESS_CODE_DATA_def ACCESS_EXECUTABLE_def ACCESS_READABLE_def ACCESS_WRITABLE_def SFMASK_IF_def SFMASK_DF_def SFMASK_TF_def Let_def)

end
