(* ===== verification/Syscalls.thy ===== *)
theory Syscalls
  imports Exec
begin

text \<open>
  The system calls: the switch on their numbers (\<^verbatim>\<open>arch/x64/trap/syscall_entry.cpp\<close>), and those on the memory and the registers of the calling process (\<^verbatim>\<open>lib/syscall/sys_mem.cpp\<close>, \<^verbatim>\<open>sys_prctl.cpp\<close>,
  \<^verbatim>\<open>sys_thread.cpp\<close>, \<^verbatim>\<open>sys_getpid\<close>). A decoded call has its arguments at the width of the handler's parameters. The calls on files are in \<open>Sys_Fd\<close>, those that change which process runs in \<open>Scheduler\<close>; the dispatcher
  takes a function for them. The memory is that of \<open>Exec\<close>: page tables and frames of \<open>Vmm\<close>, and the bytes the process sees.
\<close>

unbundle bit_operations_syntax

section \<open>Numbers and arguments\<close>

definition SYS_READ :: u64 where "SYS_READ = 0"
definition SYS_WRITE :: u64 where "SYS_WRITE = 1"
definition SYS_OPEN :: u64 where "SYS_OPEN = 2"
definition SYS_CLOSE :: u64 where "SYS_CLOSE = 3"
definition SYS_STAT :: u64 where "SYS_STAT = 4"
definition SYS_FSTAT :: u64 where "SYS_FSTAT = 5"
definition SYS_LSEEK :: u64 where "SYS_LSEEK = 8"
definition SYS_PAUSE :: u64 where "SYS_PAUSE = 34"
definition SYS_NANOSLEEP :: u64 where "SYS_NANOSLEEP = 35"
definition SYS_GETPID :: u64 where "SYS_GETPID = 39"
definition SYS_MMAP :: u64 where "SYS_MMAP = 9"
definition SYS_MUNMAP :: u64 where "SYS_MUNMAP = 11"
definition SYS_IOCTL :: u64 where "SYS_IOCTL = 16"
definition SYS_READV :: u64 where "SYS_READV = 19"
definition SYS_WRITEV :: u64 where "SYS_WRITEV = 20"
definition SYS_BRK :: u64 where "SYS_BRK = 12"
definition SYS_EXIT :: u64 where "SYS_EXIT = 60"
definition SYS_EXIT_GROUP :: u64 where "SYS_EXIT_GROUP = 231"
definition SYS_GETCWD :: u64 where "SYS_GETCWD = 79"
definition SYS_CHDIR :: u64 where "SYS_CHDIR = 80"
definition SYS_MKDIR :: u64 where "SYS_MKDIR = 83"
definition SYS_ARCH_PRCTL :: u64 where "SYS_ARCH_PRCTL = 158"
definition SYS_SET_TID_ADDR :: u64 where "SYS_SET_TID_ADDR = 218"
definition SYS_FCHDIR :: u64 where "SYS_FCHDIR = 81"
definition SYS_FNCTL :: u64 where "SYS_FNCTL = 72"
definition SYS_GETDENTS64 :: u64 where "SYS_GETDENTS64 = 217"
definition SYS_FORK :: u64 where "SYS_FORK = 57"
definition SYS_VFORK :: u64 where "SYS_VFORK = 58"
definition SYS_WAIT4 :: u64 where "SYS_WAIT4 = 61"
definition SYS_EXECVE :: u64 where "SYS_EXECVE = 59"

text \<open>\<^verbatim>\<open>int\<close> parameters and file descriptors are the low 32 bits of a register; pointers and sizes are all 64.\<close>

datatype syscall_call = Sys_read u32 u64 u64 | Sys_write u32 u64 u64 | Sys_open u64 u32 | Sys_close u32 | Sys_stat u64 u64 | Sys_fstat u32 u64 | Sys_lseek u32 u64 u32 | Sys_pause | Sys_sleep_ns u64 | Sys_getpid | Sys_mmap u64 u64 u32 u32 u32 u64 | Sys_munmap u64 u64 | Sys_ioctl u32 u64 u64 | Sys_readv u32 u64 u32 | Sys_writev u32 u64 u32 | Sys_brk u64 | Sys_exit u32 | Sys_getcwd u64 u64 | Sys_chdir u64 | Sys_mkdir u64 u32 | Sys_arch_prctl u32 u64 | Sys_set_tid_address u64 | Sys_fchdir u32 | Sys_fcntl u32 u32 u64 | Sys_getdents64 u32 u64 u32 | Sys_fork | Sys_vfork | Sys_wait4 u32 u64 u32 u64 | Sys_execve u64 u64 u64 | Sys_unsupported

definition syscall_name :: "u64 \<Rightarrow> string" where
  "syscall_name n =
    (if n = SYS_READ then ''read''
     else if n = SYS_WRITE then ''write''
     else if n = SYS_OPEN then ''open''
     else if n = SYS_CLOSE then ''close''
     else if n = SYS_STAT then ''stat''
     else if n = SYS_FSTAT then ''fstat''
     else if n = SYS_LSEEK then ''lseek''
     else if n = SYS_PAUSE then ''pause''
     else if n = SYS_NANOSLEEP then ''nanosleep''
     else if n = SYS_GETPID then ''getpid''
     else if n = SYS_MMAP then ''mmap''
     else if n = SYS_MUNMAP then ''munmap''
     else if n = SYS_IOCTL then ''ioctl''
     else if n = SYS_READV then ''readv''
     else if n = SYS_WRITEV then ''writev''
     else if n = SYS_BRK then ''brk''
     else if n = SYS_EXIT then ''exit''
     else if n = SYS_EXIT_GROUP then ''exit_group''
     else if n = SYS_GETCWD then ''getcwd''
     else if n = SYS_CHDIR then ''chdir''
     else if n = SYS_MKDIR then ''mkdir''
     else if n = SYS_ARCH_PRCTL then ''arch_prctl''
     else if n = SYS_SET_TID_ADDR then ''set_tid_addr''
     else if n = SYS_FCHDIR then ''fchdir''
     else if n = SYS_FNCTL then ''fnctl''
     else if n = SYS_GETDENTS64 then ''getdents64''
     else if n = SYS_FORK then ''fork''
     else if n = SYS_VFORK then ''vfork''
     else if n = SYS_WAIT4 then ''wait4''
     else if n = SYS_EXECVE then ''execve''
     else ''unknown syscall'')"

definition syscall_decode :: "SyscallFrame \<Rightarrow> syscall_call" where
  "syscall_decode f = (let n = s_rax f; a1 = s_rdi f; a2 = s_rsi f; a3 = s_rdx f; a4 = s_r10 f; a5 = s_r8 f; a6 = s_r9 f in
     if n = SYS_READ then Sys_read (ucast a1) a2 a3
     else if n = SYS_WRITE then Sys_write (ucast a1) a2 a3
     else if n = SYS_OPEN then Sys_open a1 (ucast a2)
     else if n = SYS_CLOSE then Sys_close (ucast a1)
     else if n = SYS_STAT then Sys_stat a1 a2
     else if n = SYS_FSTAT then Sys_fstat (ucast a1) a2
     else if n = SYS_LSEEK then Sys_lseek (ucast a1) a2 (ucast a3)
     else if n = SYS_PAUSE then Sys_pause
     else if n = SYS_NANOSLEEP then Sys_sleep_ns a1
     else if n = SYS_GETPID then Sys_getpid
     else if n = SYS_MMAP then Sys_mmap a1 a2 (ucast a3) (ucast a4) (ucast a5) a6
     else if n = SYS_MUNMAP then Sys_munmap a1 a2
     else if n = SYS_IOCTL then Sys_ioctl (ucast a1) a2 a3
     else if n = SYS_READV then Sys_readv (ucast a1) a2 (ucast a3)
     else if n = SYS_WRITEV then Sys_writev (ucast a1) a2 (ucast a3)
     else if n = SYS_BRK then Sys_brk a1
     else if n = SYS_EXIT then Sys_exit (ucast a1)
     else if n = SYS_EXIT_GROUP then Sys_exit (ucast a1)
     else if n = SYS_GETCWD then Sys_getcwd a1 a2
     else if n = SYS_CHDIR then Sys_chdir a1
     else if n = SYS_MKDIR then Sys_mkdir a1 (ucast a2)
     else if n = SYS_ARCH_PRCTL then Sys_arch_prctl (ucast a1) a2
     else if n = SYS_SET_TID_ADDR then Sys_set_tid_address a1
     else if n = SYS_FCHDIR then Sys_fchdir (ucast a1)
     else if n = SYS_FNCTL then Sys_fcntl (ucast a1) (ucast a2) a3
     else if n = SYS_GETDENTS64 then Sys_getdents64 (ucast a1) a2 (ucast a3)
     else if n = SYS_FORK then Sys_fork
     else if n = SYS_VFORK then Sys_vfork
     else if n = SYS_WAIT4 then Sys_wait4 (ucast a1) a2 (ucast a3) a4
     else if n = SYS_EXECVE then Sys_execve a1 a2 0
     else Sys_unsupported)"

section \<open>The calls on memory and registers\<close>

text \<open>The running process with its memory, and the base of the segment FS of the processor.\<close>

record kstate =
  ks_proc :: process
  ks_vmm :: vmm
  ks_mem :: bytes
  ks_fs :: u64

definition proc_pml4 :: "process \<Rightarrow> u64" where
  "proc_pml4 p = (case pml4 p of None \<Rightarrow> 0 | Some q \<Rightarrow> q)"

definition sys_brk :: "(u64 \<Rightarrow> u8) \<Rightarrow> u64 \<Rightarrow> kstate \<Rightarrow> (u64 \<times> kstate) kres" where
  "sys_brk raw addr k = (if addr = 0 then Inr (heap_break (ks_proc k), k)
     else let hb_start = heap_break (ks_proc k); hb_end = addr in
     if hb_end \<le> hb_start then Inr (hb_start, k)
     else kbind (map_user raw (proc_pml4 (ks_proc k)) hb_start (hb_end - hb_start) (ks_vmm k, ks_mem k)) (\<lambda>(s, m).
       Inr (hb_end, k\<lparr>ks_proc := (ks_proc k)\<lparr>heap_break := hb_end\<rparr>, ks_vmm := s, ks_mem := m\<rparr>)))"

definition MAP_ANONYMOUS :: u32 where "MAP_ANONYMOUS = 0x20"

text \<open>The pages that \<open>map_heap_pages\<close> maps follow each other, and the first eight bytes hold their number.\<close>

definition sys_mmap :: "(u64 \<Rightarrow> u8) \<Rightarrow> u64 \<Rightarrow> u32 \<Rightarrow> kstate \<Rightarrow> (u64 \<times> kstate) kres" where
  "sys_mmap raw len flags k = (if flags AND MAP_ANONYMOUS = 0 then Inr (- 1, k)
     else kbind (map_heap_pages (proc_pml4 (ks_proc k)) (uheap (ks_proc k)) len (PAGE_WRITE OR PAGE_USER) (ks_vmm k)) (\<lambda>(v, h, s).
       let n = (len + 8 + PAGE_SIZE - 1) div PAGE_SIZE in
       kbind (st_list (v - 8) (le_bytes n) (fresh_pages raw (v - 8) (n * PAGE_SIZE) (ks_mem k))) (\<lambda>m.
       Inr (v, k\<lparr>ks_proc := (ks_proc k)\<lparr>uheap := h\<rparr>, ks_vmm := s, ks_mem := m\<rparr>))))"

definition sys_munmap :: "kstate \<Rightarrow> (u64 \<times> kstate) kres" where
  "sys_munmap k = Inr (0, k)"

definition ARCH_SET_FS :: u32 where "ARCH_SET_FS = 0x1002"
definition ARCH_GET_FS :: u32 where "ARCH_GET_FS = 0x1003"

definition sys_arch_prctl :: "u32 \<Rightarrow> u64 \<Rightarrow> kstate \<Rightarrow> (u64 \<times> kstate) kres" where
  "sys_arch_prctl code addr k = (if code = ARCH_SET_FS then Inr (0, k\<lparr>ks_fs := addr, ks_proc := (ks_proc k)\<lparr>fs_base := addr\<rparr>\<rparr>)
     else if code = ARCH_GET_FS then Inr (fs_base (ks_proc k), k) else Inr (0, k))"

definition sys_set_tid_address :: "u64 \<Rightarrow> kstate \<Rightarrow> (u64 \<times> kstate) kres" where
  "sys_set_tid_address tp k = Inr (word_of_int (pid (ks_proc k)), k\<lparr>ks_proc := (ks_proc k)\<lparr>tidptr := tp\<rparr>\<rparr>)"

definition sys_getpid :: "kstate \<Rightarrow> (u64 \<times> kstate) kres" where
  "sys_getpid k = Inr (word_of_int (pid (ks_proc k)), k)"

definition sys_vfork :: "kstate \<Rightarrow> (u64 \<times> kstate) kres" where
  "sys_vfork k = Inr (- 1, k)"

text \<open>A negative \<^verbatim>\<open>int\<close> result is sign-extended to the 64 bits of RAX.\<close>

definition syscall_dispatcher :: "(syscall_call \<Rightarrow> kstate \<Rightarrow> (u64 \<times> kstate) kres) \<Rightarrow> (u64 \<Rightarrow> u8) \<Rightarrow> u64 \<Rightarrow> SyscallFrame \<Rightarrow> kstate \<Rightarrow> (u64 \<times> kstate) kres" where
  "syscall_dispatcher other raw frame f k = (let k = k\<lparr>ks_proc := (ks_proc k)\<lparr>syscall_frame := frame\<rparr>\<rparr> in case syscall_decode f of
     Sys_brk a \<Rightarrow> sys_brk raw a k | Sys_mmap _ len _ flags _ _ \<Rightarrow> sys_mmap raw len flags k | Sys_munmap _ _ \<Rightarrow> sys_munmap k
   | Sys_arch_prctl code a \<Rightarrow> sys_arch_prctl code a k | Sys_set_tid_address t \<Rightarrow> sys_set_tid_address t k | Sys_getpid \<Rightarrow> sys_getpid k | Sys_vfork \<Rightarrow> sys_vfork k
   | Sys_unsupported \<Rightarrow> Inr (- 38, k) | c \<Rightarrow> other c k)"

lemmas syscall_numbers = SYS_READ_def SYS_WRITE_def SYS_OPEN_def SYS_CLOSE_def SYS_STAT_def SYS_FSTAT_def SYS_LSEEK_def SYS_PAUSE_def SYS_NANOSLEEP_def SYS_GETPID_def SYS_MMAP_def SYS_MUNMAP_def SYS_IOCTL_def SYS_READV_def SYS_WRITEV_def SYS_BRK_def SYS_EXIT_def SYS_EXIT_GROUP_def SYS_GETCWD_def SYS_CHDIR_def SYS_MKDIR_def SYS_ARCH_PRCTL_def SYS_SET_TID_ADDR_def SYS_FCHDIR_def SYS_FNCTL_def SYS_GETDENTS64_def SYS_FORK_def SYS_VFORK_def SYS_WAIT4_def SYS_EXECVE_def

lemma syscall_name_known: "syscall_decode f = Sys_unsupported \<longleftrightarrow> syscall_name (s_rax f) = ''unknown syscall''"
  by (simp add: syscall_decode_def syscall_name_def Let_def)



text \<open>
  The dispatcher and the names of the calls agree: a number has a name other than the one for unknown calls exactly when the switch handles it. For any other number the dispatcher returns -ENOSYS in 64 bits and changes
  nothing but the process's pointer to its frame.
\<close>

theorem dispatch_unknown:
  "(syscall_decode f = Sys_unsupported) = (syscall_name (s_rax f) = ''unknown syscall'') \<and>
   (syscall_name (s_rax f) = ''unknown syscall'' \<longrightarrow> syscall_dispatcher other raw frame f k = Inr (0xFFFFFFFFFFFFFFDA, k\<lparr>ks_proc := (ks_proc k)\<lparr>syscall_frame := frame\<rparr>\<rparr>))"
proof -
  have "syscall_dispatcher other raw frame f k = Inr (0xFFFFFFFFFFFFFFDA, k\<lparr>ks_proc := (ks_proc k)\<lparr>syscall_frame := frame\<rparr>\<rparr>)" if "syscall_decode f = Sys_unsupported"
    using that by (simp add: syscall_dispatcher_def Let_def)
  then show ?thesis using syscall_name_known [of f] by blast
qed

theorem dispatch_unknown_witness:
  "\<forall>other raw frame k. syscall_dispatcher other raw frame (ex_frame\<lparr>s_rax := 141\<rparr>) k = Inr (0xFFFFFFFFFFFFFFDA, k\<lparr>ks_proc := (ks_proc k)\<lparr>syscall_frame := frame\<rparr>\<rparr>)"
proof -
  have "syscall_name 141 = ''unknown syscall''" by (simp add: syscall_name_def syscall_numbers)
  then show ?thesis using dispatch_unknown [of "ex_frame\<lparr>s_rax := 141\<rparr>"] by simp
qed

end
