(* ===== verification/Timer.thy ===== *)
theory Timer
  imports Kernel_Prelude
begin

text \<open>
  Time and interrupts: the clock on the time stamp counter (\<^verbatim>\<open>arch/x64/drivers/tsc/tsc.cpp\<close>), the divisor of the old timer (\<^verbatim>\<open>arch/x64/drivers/pit/pit.cpp\<close>), the timer interrupt (\<^verbatim>\<open>timer_init\<close> and
  \<^verbatim>\<open>apic_timer_handler\<close> in \<^verbatim>\<open>arch/x64/drivers/apic/apic.cpp\<close>) and the table of interrupt handlers (\<^verbatim>\<open>arch/x64/interrupts/irq.cpp\<close>). All arithmetic is on 64-bit words as in the code; the value of the counter is
  an argument wherever the code reads it, and so are the wake time of the next sleeper, which \<open>Scheduler\<close> keeps, and what a handler does.
\<close>

unbundle bit_operations_syntax

section \<open>The clock\<close>

record tsc =
  boot_tsc :: u64
  tsc_freq :: u64

definition get_ticks :: "tsc \<Rightarrow> u64 \<Rightarrow> u64" where
  "get_ticks c now = now - boot_tsc c"

definition get_time_ns :: "tsc \<Rightarrow> u64 \<Rightarrow> u64" where
  "get_time_ns c now = (let delta = get_ticks c now; secs = delta div tsc_freq c; remainder_cycles = delta mod tsc_freq c in
     secs * 1000000000 + (remainder_cycles * 1000000000) div tsc_freq c)"

definition get_time_us :: "tsc \<Rightarrow> u64 \<Rightarrow> u64" where "get_time_us c now = get_time_ns c now div 1000"
definition get_time_ms :: "tsc \<Rightarrow> u64 \<Rightarrow> u64" where "get_time_ms c now = get_time_ns c now div 1000000"

definition ns_to_ticks :: "tsc \<Rightarrow> u64 \<Rightarrow> u64" where
  "ns_to_ticks c ns = (let secs = ns div 1000000000; remainder_ns = ns mod 1000000000 in secs * tsc_freq c + (remainder_ns * tsc_freq c) div 1000000000)"

definition ns_to_raw_ticks :: "tsc \<Rightarrow> u64 \<Rightarrow> u64" where "ns_to_raw_ticks c ns = ns_to_ticks c ns + boot_tsc c"
definition ticks_from_now :: "tsc \<Rightarrow> u64 \<Rightarrow> u64 \<Rightarrow> u64" where "ticks_from_now c now ns = now + ns_to_ticks c ns"

text \<open>\<open>t0\<close> and \<open>t1\<close> are the counter before and after five waits of 20 ms.\<close>

definition tsc_init :: "u64 \<Rightarrow> u64 \<Rightarrow> tsc" where
  "tsc_init t0 t1 = \<lparr>boot_tsc = t0, tsc_freq = ((t1 - t0) * 1000) div 100\<rparr>"

text \<open>The number of ticks the old timer is programmed with, and its two bytes.\<close>

definition pit_divisor :: "u32 \<Rightarrow> u16" where
  "pit_divisor ms = ucast ((1193182 * ms) div 1000)"

definition pit_bytes :: "u32 \<Rightarrow> u8 \<times> u8" where
  "pit_bytes ms = (ucast (pit_divisor ms AND 0xFF), ucast (drop_bit 8 (pit_divisor ms) AND 0xFF))"

section \<open>The timer interrupt\<close>

record apic_timer =
  interrupt_deadline :: u64
  interrupt_delta :: u64

definition timer_init :: "tsc \<Rightarrow> apic_timer" where
  "timer_init c = (let d = ns_to_ticks c 1000000 in \<lparr>interrupt_deadline = d, interrupt_delta = d\<rparr>)"

text \<open>\<open>sleeper\<close> is the wake time of the next sleeper, if there is one. The new deadline is written to the register of the timer.\<close>

definition apic_timer_handler :: "tsc \<Rightarrow> u64 option \<Rightarrow> apic_timer \<Rightarrow> apic_timer" where
  "apic_timer_handler c sleeper t = (let t = t\<lparr>interrupt_deadline := interrupt_deadline t + interrupt_delta t\<rparr> in
     case sleeper of None \<Rightarrow> t | Some wake_time_ns \<Rightarrow> (let d = ns_to_raw_ticks c wake_time_ns in if d < interrupt_deadline t then t\<lparr>interrupt_deadline := d\<rparr> else t))"

section \<open>The handlers\<close>

definition EXC_MAX :: u64 where "EXC_MAX = 0x1F"
definition NUM_IRQ_HANDLERS :: u64 where "NUM_IRQ_HANDLERS = 256"

definition register_irq_handler :: "u32 \<Rightarrow> ('s \<Rightarrow> 's kres) \<Rightarrow> ('s \<Rightarrow> 's kres) option list \<Rightarrow> ('s \<Rightarrow> 's kres) option list" where
  "register_irq_handler vector handler hs = (if ucast vector > EXC_MAX \<and> ucast vector < NUM_IRQ_HANDLERS then hs[unat vector := Some handler] else hs)"

definition EXC_PAGE_FAULT :: u64 where "EXC_PAGE_FAULT = 14"

definition exception_names :: "string list" where
  "exception_names = [''Divide Error (#DE)'', ''Debug (#DB)'', ''Non-Maskable Interrupt (NMI)'', ''Breakpoint (#BP)'',
    ''Overflow (#OF)'', ''Bound Range Exceeded (#BR)'', ''Invalid Opcode (#UD)'', ''Device Not Available (#NM)'',
    ''Double Fault (#DF)'', ''Coprocessor Segment Overrun'', ''Invalid TSS (#TS)'', ''Segment Not Present (#NP)'',
    ''Stack Segment Fault (#SS)'', ''General Protection Fault (#GP)'', ''Page Fault (#PF)'', ''Reserved'',
    ''x87 FPU Error (#MF)'', ''Alignment Check (#AC)'', ''Machine Check (#MC)'', ''SIMD Floating-Point (#XM)'',
    ''Virtualization Exception (#VE)'', ''Control Protection (#CP)'', ''Reserved'', ''Reserved'',
    ''Reserved'', ''Reserved'', ''Reserved'', ''Reserved'',
    ''Hypervisor Injection (#HV)'', ''VMM Communication (#VC)'', ''Security Exception (#SX)'', ''Reserved'']"

text \<open>What the code of a page fault says, as the words of the message.\<close>

definition handle_page_fault :: "u64 \<Rightarrow> string list" where
  "handle_page_fault err =
    [if bit err 0 then ''Protection violation'' else ''Page not present'', if bit err 1 then '', Write'' else '', Read'', if bit err 2 then '', User mode'' else '', Kernel mode'',
     if bit err 3 then '', Reserved bit set'' else [], if bit err 4 then '', Instruction fetch'' else []]"

text \<open>The handler of exceptions prints its message and then halts for ever with interrupts off, which is a \<open>Panic\<close> with that message.\<close>

definition handle_exception :: "u64 \<Rightarrow> u64 \<Rightarrow> 's kres" where
  "handle_exception vector err = (if unat vector < length exception_names
     then Inl (Panic (exception_names ! unat vector @ (if vector = EXC_PAGE_FAULT then concat (handle_page_fault err) else []))) else Inl (Fault ''past exception_names''))"

definition handle_irq :: "('s \<Rightarrow> 's kres) option list \<Rightarrow> u64 \<Rightarrow> 's \<Rightarrow> 's kres" where
  "handle_irq hs vector s = (if unat vector < length hs then (case hs ! unat vector of Some h \<Rightarrow> h s | None \<Rightarrow> Inr s) else Inl (Fault ''past irq_handlers''))"

definition interrupt_handler :: "('s \<Rightarrow> 's kres) option list \<Rightarrow> u64 \<Rightarrow> u64 \<Rightarrow> 's \<Rightarrow> 's kres" where
  "interrupt_handler hs vector err s = (if vector \<le> EXC_MAX then handle_exception vector err else handle_irq hs vector s)"

section \<open>Precision of the clock\<close>

lemma scale_split: "(n div d) * k + ((n mod d) * k) div d = n * k div (d :: nat)" if "0 < d"
proof -
  have "n * k = (n div d * k) * d + (n mod d) * k" by (metis add_mult_distrib div_mult_mod_eq mult.assoc mult.commute)
  then show ?thesis using that by (simp add: div_mult_self3)
qed

text \<open>The two conversions are exact divisions, rounded down, and do not overflow for a counter below 18 GHz.\<close>

lemma get_time_ns_exact:
  assumes f: "0 < unat (tsc_freq c)" "unat (tsc_freq c) \<le> 18000000000" and n: "unat (get_ticks c now) * 1000000000 div unat (tsc_freq c) < 2 ^ 64"
  shows "unat (get_time_ns c now) = unat (get_ticks c now) * 1000000000 div unat (tsc_freq c)"
proof -
  define d fr where "d = unat (get_ticks c now)" and "fr = unat (tsc_freq c)"
  have k: "unat (1000000000 :: u64) = 1000000000" by simp
  have r: "d mod fr < fr" using f by (simp add: fr_def)
  then have "d mod fr \<le> 18000000000" using f(2) by (simp add: fr_def)
  then have "(d mod fr) * 1000000000 \<le> 18000000000 * 1000000000" by (rule mult_right_mono) simp
  then have "(d mod fr) * 1000000000 < 2 ^ 64" by simp
  then have m: "unat ((get_ticks c now mod tsc_freq c) * 1000000000) = (d mod fr) * 1000000000" by (simp add: unat_word_ariths unat_mod_distrib d_def fr_def)
  have e: "d div fr * 1000000000 + (d mod fr) * 1000000000 div fr = d * 1000000000 div fr" using f(1) by (intro scale_split) (simp add: fr_def)
  then have "d div fr * 1000000000 + (d mod fr) * 1000000000 div fr < 2 ^ 64" using n by (simp add: d_def fr_def)
  then show ?thesis unfolding get_time_ns_def Let_def using m e
    by (simp add: unat_word_ariths unat_div_distrib d_def fr_def)
qed

lemma ns_to_ticks_exact:
  assumes f: "unat (tsc_freq c) \<le> 18000000000" and n: "unat ns * unat (tsc_freq c) div 1000000000 < 2 ^ 64"
  shows "unat (ns_to_ticks c ns) = unat ns * unat (tsc_freq c) div 1000000000"
proof -
  define d fr where "d = unat ns" and "fr = unat (tsc_freq c)"
  have "d mod 1000000000 \<le> 1000000000" "fr \<le> 18000000000" using f by (simp_all add: fr_def)
  then have "(d mod 1000000000) * fr \<le> 1000000000 * 18000000000" by (rule mult_mono) simp_all
  then have "(d mod 1000000000) * fr < 2 ^ 64" by simp
  then have m: "unat ((ns mod 1000000000) * tsc_freq c) = (d mod 1000000000) * fr" by (simp add: unat_word_ariths unat_mod_distrib d_def fr_def)
  have e: "d div 1000000000 * fr + (d mod 1000000000) * fr div 1000000000 = d * fr div 1000000000" by (intro scale_split) simp
  then have "d div 1000000000 * fr + (d mod 1000000000) * fr div 1000000000 < 2 ^ 64" using n by (simp add: d_def fr_def)
  moreover from this have q: "unat ((ns div 1000000000) * tsc_freq c) = d div 1000000000 * fr" by (simp add: unat_mult_lem [THEN iffD1] unat_div_distrib d_def fr_def)
  ultimately show ?thesis unfolding ns_to_ticks_def Let_def using m e q by (simp add: unat_add_lem [THEN iffD1] unat_div_distrib d_def fr_def)
qed

text \<open>There and back: the time at the tick that stands for a time is not later, and earlier by at most the length of one tick and one nanosecond.\<close>

lemma div_add_le: "0 < c \<Longrightarrow> (a + b) div c \<le> a div c + b div c + (1 :: nat)"
proof -
  assume c: "0 < c"
  have "a mod c + b mod c < 2 * c" using mod_less_divisor [OF c, of a] mod_less_divisor [OF c, of b] by linarith
  then have "(a mod c + b mod c) div c < 2" by (rule less_mult_imp_div_less)
  moreover have "(a + b) div c = a div c + b div c + (a mod c + b mod c) div c" by (rule div_add1_eq)
  ultimately show ?thesis by linarith
qed

lemma there_and_back:
  fixes ns fr :: nat
  assumes "0 < fr"
  defines "T \<equiv> ns * fr div 1000000000"
  shows "T * 1000000000 div fr \<le> ns" "ns \<le> T * 1000000000 div fr + 1000000000 div fr + 1"
proof -
  have t: "T * 1000000000 \<le> ns * fr" "ns * fr < T * 1000000000 + 1000000000" unfolding T_def using div_mult_mod_eq [of "ns * fr" 1000000000] mod_less_divisor [of 1000000000 "ns * fr"] by linarith+
  show "T * 1000000000 div fr \<le> ns" using div_le_mono [OF t(1), of fr] assms(1) by simp
  have "ns = ns * fr div fr" using assms(1) by simp
  also have "\<dots> \<le> (T * 1000000000 + 1000000000) div fr" using t(2) by (intro div_le_mono) simp
  also have "\<dots> \<le> T * 1000000000 div fr + 1000000000 div fr + 1" using assms(1) by (rule div_add_le)
  finally show "ns \<le> T * 1000000000 div fr + 1000000000 div fr + 1" .
qed

text \<open>
  C15: The clock. For a counter of at most 18 GHz, within the range of 64-bit nanoseconds, the time is the number of ticks since boot divided by the frequency, rounded down, without any overflow in between; converting a
  time to ticks of the counter is exact in the same way; and reading the clock at the tick computed for a time gives that time or up to one tick and one nanosecond less, never more.
\<close>

theorem clock_exact:
  assumes "0 < unat (tsc_freq c)" "unat (tsc_freq c) \<le> 18000000000" "unat (get_ticks c now) * 1000000000 div unat (tsc_freq c) < 2 ^ 64" "unat ns * unat (tsc_freq c) div 1000000000 < 2 ^ 64"
  shows "unat (get_time_ns c now) = unat (get_ticks c now) * 1000000000 div unat (tsc_freq c) \<and> unat (ns_to_ticks c ns) = unat ns * unat (tsc_freq c) div 1000000000 \<and>
    unat (get_time_ns c (ns_to_raw_ticks c ns)) \<le> unat ns \<and> unat ns \<le> unat (get_time_ns c (ns_to_raw_ticks c ns)) + 1000000000 div unat (tsc_freq c) + 1"
proof -
  let ?T = "unat ns * unat (tsc_freq c) div 1000000000"
  note t = ns_to_ticks_exact [OF assms(2,4)] and b = there_and_back [OF assms(1), of "unat ns"]
  have g: "get_ticks c (ns_to_raw_ticks c ns) = ns_to_ticks c ns" by (simp add: get_ticks_def ns_to_raw_ticks_def)
  have "unat ns < 2 ^ LENGTH(64)" by (rule unsigned_less)
  then have "?T * 1000000000 div unat (tsc_freq c) < 2 ^ 64" using b(1) by simp
  then have "unat (get_time_ns c (ns_to_raw_ticks c ns)) = ?T * 1000000000 div unat (tsc_freq c)" using get_time_ns_exact [OF assms(1,2), of "ns_to_raw_ticks c ns"] by (simp add: g t)
  then show ?thesis using get_time_ns_exact [OF assms(1-3)] t b by simp
qed

theorem clock_exact_witness:
  "get_time_ns \<lparr>boot_tsc = 500, tsc_freq = 3000000000\<rparr> 3000000500 = 1000000000 \<and> unat (ns_to_ticks \<lparr>boot_tsc = 500, tsc_freq = 3000000000\<rparr> 7) = 21"
proof -
  let ?c = "\<lparr>boot_tsc = 500, tsc_freq = 3000000000\<rparr> :: tsc"
  have f: "unat (tsc_freq ?c) = 3000000000" "unat (get_ticks ?c 3000000500) = 3000000000" "unat (7 :: u64) = 7" by (simp_all add: get_ticks_def)
  have "unat (get_time_ns ?c 3000000500) = 1000000000" "unat (ns_to_ticks ?c 7) = 21" using clock_exact [of ?c 3000000500 7] unfolding f by simp_all
  moreover have "w = 1000000000" if "unat w = 1000000000" for w :: u64 using that by (simp add: word_unat_eq_iff)
  ultimately show ?thesis by simp
qed

section \<open>The deadlines\<close>

text \<open>The handler arms the earlier of the next tick and the next sleeper's time.\<close>

lemma apic_timer_handler_min:
  "interrupt_deadline (apic_timer_handler c sleeper t) = (case sleeper of None \<Rightarrow> interrupt_deadline t + interrupt_delta t
     | Some w \<Rightarrow> min (ns_to_raw_ticks c w) (interrupt_deadline t + interrupt_delta t)) \<and> interrupt_delta (apic_timer_handler c sleeper t) = interrupt_delta t"
  by (auto simp: apic_timer_handler_def Let_def min_def split: option.splits)

lemma timer_ticks: "interrupt_deadline ((apic_timer_handler c None ^^ n) (timer_init c)) = of_nat (n + 1) * ns_to_ticks c 1000000 \<and> interrupt_delta ((apic_timer_handler c None ^^ n) (timer_init c)) = ns_to_ticks c 1000000"
proof (induction n)
  case 0
  show ?case by (simp add: timer_init_def Let_def)
next
  case (Suc n)
  then show ?case using apic_timer_handler_min [of c None] by (simp add: algebra_simps)
qed

text \<open>
  The first deadline of the timer is one period after the counter was 0, not one period after now, and each interrupt moves it by one period. So at the counter value \<open>now\<close> at which the timer is started, the deadlines
  of the first \<open>now div period\<close> interrupts have already passed, and each of them makes the timer fire again at once.
\<close>

theorem timer_starts_behind:
  assumes "n < unat now div unat (ns_to_ticks c 1000000)"
  shows "interrupt_deadline ((apic_timer_handler c None ^^ n) (timer_init c)) \<le> now"
proof -
  let ?d = "ns_to_ticks c 1000000"
  have "(n + 1) * unat ?d \<le> unat now div unat ?d * unat ?d" using assms by (intro mult_right_mono) simp_all
  also have "\<dots> \<le> unat now" by (rule div_times_less_eq_dividend)
  finally have le: "(n + 1) * unat ?d \<le> unat now" .
  have "unat now < 2 ^ LENGTH(64)" by (rule unsigned_less)
  then have "unat (of_nat ((n + 1) * unat ?d) :: u64) = (n + 1) * unat ?d" using le by (simp add: unsigned_of_nat take_bit_nat_eq_self del: of_nat_mult of_nat_add)
  then have "unat (of_nat (n + 1) * ?d) = (n + 1) * unat ?d" by (simp add: algebra_simps)
  then show ?thesis using timer_ticks [of n c] le by (simp add: word_le_nat_alt)
qed

theorem timer_starts_behind_witness:
  "interrupt_deadline ((apic_timer_handler \<lparr>boot_tsc = 0, tsc_freq = 3000000000\<rparr> None ^^ 99) (timer_init \<lparr>boot_tsc = 0, tsc_freq = 3000000000\<rparr>)) \<le> 300000000"
  by (rule timer_starts_behind) (simp add: ns_to_ticks_def)

text \<open>The divisor of the old timer fits into its 16 bits for the waits of 20 ms that the calibration uses, and up to 54 ms.\<close>

lemma pit_divisor_exact: "unat ms \<le> 54 \<Longrightarrow> unat (pit_divisor ms) = 1193182 * unat ms div 1000"
proof -
  assume m: "unat ms \<le> 54"
  then have "unat (1193182 * ms) = 1193182 * unat ms" by (simp add: unat_word_ariths)
  then have e: "unat ((1193182 * ms) div 1000) = 1193182 * unat ms div 1000" by (simp add: unat_div_distrib)
  have "1193182 * unat ms div 1000 \<le> 1193182 * 54 div 1000" using m by (intro div_le_mono) simp
  then have "1193182 * unat ms div 1000 < 2 ^ 16" by simp
  then show ?thesis using e by (simp add: pit_divisor_def unsigned_ucast_eq take_bit_nat_eq_self)
qed

section \<open>Dispatching interrupts\<close>

lemma handle_exception_stops: "v \<le> EXC_MAX \<Longrightarrow> \<exists>msg. handle_exception v err = Inl (Panic (exception_names ! unat v @ msg))"
  by (simp add: handle_exception_def EXC_MAX_def exception_names_def word_le_nat_alt)

text \<open>
  With the table of 256 handlers, an exception (a vector up to 31) always stops the kernel with its name, which is in the table of names; for any other vector the function that was registered last for it runs,
  and nothing happens when there is none. A registration for one vector does not change what happens for another, and one for the vector of an exception or outside of the table is ignored.
\<close>

theorem interrupts_dispatch:
  assumes "length hs = 256" "v < 256"
  shows "length (register_irq_handler w h hs) = 256 \<and>
    (v \<le> 31 \<longrightarrow> (\<exists>msg. interrupt_handler hs v err s = Inl (Panic (exception_names ! unat v @ msg)))) \<and>
    interrupt_handler (register_irq_handler w h hs) v err s = (if v = ucast w \<and> 31 < v then h s else interrupt_handler hs v err s) \<and>
    (31 < v \<longrightarrow> interrupt_handler (replicate 256 None) v err s = Inr s)"
proof -
  have u: "unat v < 256" using assms(2) by (simp add: word_less_nat_alt)
  have "unat w < 2 ^ LENGTH(32)" by (rule unsigned_less)
  then have uw: "unat (ucast w :: u64) = unat w" by (simp add: unsigned_ucast_eq take_bit_nat_eq_self)
  then have e: "v = ucast w \<longleftrightarrow> unat v = unat w" by (simp add: word_unat_eq_iff)
  have len: "length (register_irq_handler w h hs) = 256" using assms(1) by (simp add: register_irq_handler_def)
  have exc: "v \<le> 31 \<longrightarrow> (\<exists>msg. interrupt_handler hs v err s = Inl (Panic (exception_names ! unat v @ msg)))"
    using handle_exception_stops [of v err] by (auto simp: interrupt_handler_def EXC_MAX_def)
  have "interrupt_handler (register_irq_handler w h hs) v err s = (if v = ucast w \<and> 31 < v then h s else interrupt_handler hs v err s)"
    using assms(1) u uw by (simp add: e register_irq_handler_def interrupt_handler_def handle_irq_def EXC_MAX_def NUM_IRQ_HANDLERS_def word_less_nat_alt word_le_nat_alt nth_list_update)
  moreover have "31 < v \<longrightarrow> interrupt_handler (replicate 256 None) v err s = Inr s"
    using u by (simp add: interrupt_handler_def handle_irq_def EXC_MAX_def word_less_nat_alt word_le_nat_alt)
  ultimately show ?thesis using len exc by blast
qed

theorem interrupts_dispatch_witness:
  "interrupt_handler (register_irq_handler 0x20 (\<lambda>n :: nat. Inr (n + 1)) (replicate 256 None)) 0x20 0 41 = Inr 42"
  using interrupts_dispatch [of "replicate 256 None" "0x20" "0x20" "\<lambda>n :: nat. Inr (n + 1)" 0 41] by simp

end
