(* ===== verification/Spec2Isabelle.thy ===== *)
theory Spec2Isabelle
  imports Kheap Klist Kvector Kstring Fmt Algo Pmm Vmm Vmm_Tree Vmm_Inv Vmm_Free Vmm_Clone Vmm_Props Vmm_Heap Slab Slab_Inv Slab_Props Process Scheduler Scheduler_Inv Scheduler_Props Framebuffer Console Keyboard Tty Vfs Vfs_Inv Vfs_Path Vfs_Ops Vfs_Calls Initramfs Initramfs_Props Vfs_Props Sys_Fd Sys_Fd_Props Crt Packed Locks Smart_Ptr Exec Acpi Segments Syscalls Timer
begin

text \<open>
  hltOS is a small operating system kernel in C++ for x86-64. This library models the parts of it whose behaviour is decided by the code
  itself - containers, memory management, processes and scheduling, files, the terminal, locks, the loading of programs, interrupts and
  time - as executable functions, and proves what those parts promise each other. File names below are relative to \<^verbatim>\<open>src/src/kernel/\<close>.

  \<^bold>\<open>How the code is modelled.\<close> A function of the source is a function on an explicit state, with the static variables of its file as
  the fields of a record. Its result is a \<open>kres\<close> (theory \<open>Kernel_Prelude\<close>): \<open>Inr\<close> of the new state, or \<open>Inl\<close> of the way in which the
  call does not return - \<open>Panic\<close> for \<^verbatim>\<open>kpanic\<close> and failed assertions, \<open>Fault\<close> for an access that the program must not make (a null pointer, an
  index outside of an array, freed or uninitialised memory). So \<open>f s = Inr s'\<close> says that \<open>f\<close> returns, without undefined behaviour. Integers are
  words of their width where they can overflow and natural numbers where they cannot; the comments of the theories say why. Loops are
  recursive functions with a termination proof, or \<open>kfor\<close>; a loop that may run for ever is a partial function with the value \<open>None\<close> when it does. A function that takes a spin lock is one step: the lock is held with interrupts
  off from its first to its last access of the shared variables. What lies outside of the sources - the memory that \<^verbatim>\<open>new\<close> returns, the time that the clock
  shows, the contents of registers, the memory map of the boot loader - is an argument.

  \<^bold>\<open>Containers.\<close>
  \<^item> \<open>Kheap\<close>: \<^verbatim>\<open>include/containers/kmin_heap.hpp\<close>, \<^verbatim>\<open>kmax_heap.hpp\<close>. The sifting loops are written once over the comparison; locales \<open>heap_order\<close> and
    \<open>prio_queue\<close> are interpreted for both classes. Shown: the heap order is kept, and popping gives the elements in order.
  \<^item> \<open>Klist\<close>: \<^verbatim>\<open>include/containers/klist.hpp\<close> on an explicit heap of nodes. Shown: each operation refines the operation on lists, frees what it
    unlinks and touches no other list. Locale \<open>fifo_queue\<close> is what the scheduler's policy uses.
  \<^item> \<open>Kvector\<close>: \<^verbatim>\<open>include/containers/kvector.hpp\<close> with raw cells, size and capacity. Shown: refinement of lists, growth included. Locale \<open>growable_seq\<close>.
  \<^item> \<open>Kstring\<close>: \<^verbatim>\<open>include/containers/kstring.hpp\<close>, \<^verbatim>\<open>kstring_view.hpp\<close>. Shown: updates and queries refine those on texts and never leave the buffer,
    with the one exception that \<^verbatim>\<open>insert\<close> has; \<^verbatim>\<open>trim\<close> does not trim the end; the assignment from a view uses freed memory.
  \<^item> \<open>Fmt\<close>: \<^verbatim>\<open>include/fmt/fmt.hpp\<close>. Shown: the text of every 64-bit number fits its buffers and is the expected one, parsing reads it back, and
    \<^verbatim>\<open>sprintf\<close> substitutes its arguments.
  \<^item> \<open>Algo\<close>: \<^verbatim>\<open>lib/algo/algo.cpp\<close>, \<^verbatim>\<open>include/algo/algo.hpp\<close>. Shown: what splitting gives, and that joining undoes tokenising.

  \<^bold>\<open>Memory.\<close>
  \<^item> \<open>Pmm\<close>: \<^verbatim>\<open>lib/memory/pmm.cpp\<close> and \<^verbatim>\<open>init_memory\<close> of \<^verbatim>\<open>lib/boot/limine-boot.cpp\<close>, the bitmap of physical frames. Shown: an allocation takes the first
    free frame from the cursor on, no frame is given out twice, registering memory is right below the limit of 2 GiB and writes past the
    bitmap at the limit. Locale \<open>frame_source\<close> is what the virtual memory manager relies on.
  \<^item> \<open>Vmm\<close>: \<^verbatim>\<open>arch/x64/memory/vmm.cpp\<close>, \<^verbatim>\<open>vmm.hpp\<close>. Physical memory is words, page tables are words in it. \<open>Vmm_Tree\<close> sees tables as trees of
    frames, \<open>Vmm_Inv\<close>, \<open>Vmm_Free\<close> and \<open>Vmm_Clone\<close> follow the operations on them, \<open>Vmm_Props\<close> has the promises: mapping, unmapping, copying and freeing
    address spaces change exactly what they should. \<open>Vmm_Heap\<close> is the kernel's heap as the slab allocator sees it.
  \<^item> \<open>Slab\<close>, \<open>Slab_Inv\<close>, \<open>Slab_Props\<close>: \<^verbatim>\<open>lib/memory/slab.cpp\<close>, \<^verbatim>\<open>include/memory/slab.hpp\<close>, \<^verbatim>\<open>lib/memory/memory.cpp\<close>, on the page tables of \<open>Vmm\<close>. Shown: blocks are
    disjoint, keep their contents, and are usable again after they were freed.

  \<^bold>\<open>Processes.\<close>
  \<^item> \<open>Process\<close>: \<^verbatim>\<open>lib/process/process.cpp\<close>, \<^verbatim>\<open>include/process/process.hpp\<close>: the object, its states, fork, termination. Shown: the child of a fork is a copy of its parent that returns 0.
  \<^item> \<open>Scheduler\<close>, \<open>Scheduler_Inv\<close>, \<open>Scheduler_Props\<close>: \<^verbatim>\<open>lib/scheduler/mechanism/scheduler_mechanism.cpp\<close>, \<^verbatim>\<open>lib/scheduler/policy/round_robin.cpp\<close>. Shown: an invariant of
    queues and states that every operation keeps, so that no sequence of operations panics; each operation wakes, blocks and reaps whom it
    should; the policy serves its queue in order, on the \<open>klist\<close> it really has.

  \<^item> \<open>Exec\<close>: \<^verbatim>\<open>lib/process/elf.cpp\<close> and the methods of \<^verbatim>\<open>Process\<close> that load a program, on the tables of \<open>Vmm\<close> and the bytes the process sees (\<open>Crt\<close>, \<open>Packed\<close>). Shown: the
    image of every segment, of the stack and the start state, for files whose segments share no page.
  \<^item> \<open>Syscalls\<close>: the dispatcher of \<^verbatim>\<open>arch/x64/trap/syscall_entry.cpp\<close> and the calls of \<^verbatim>\<open>lib/syscall/\<close> on memory, registers and threads. Shown: what \<^verbatim>\<open>brk\<close> maps and what
    it loses, and that the names and the dispatcher know the same calls. The calls on files are in \<open>Sys_Fd\<close>; the dispatcher takes a function for those of other components.

  \<^bold>\<open>Files.\<close>
  \<^item> \<open>Vfs\<close>: \<^verbatim>\<open>lib/fs/fs.cpp\<close> and the classes of tmpfs, devfs, procfs and initramfs as objects of a store. \<open>Vfs_Inv\<close> has the invariant of the tree, \<open>Vfs_Path\<close> and \<open>Vfs_Ops\<close> what
    resolving paths and adding entries do, \<open>Vfs_Calls\<close> and \<open>Vfs_Props\<close> the calls. Shown: \<^verbatim>\<open>getcwd\<close> and the resolution of paths are inverse across mounts, and what \<^verbatim>\<open>mkdir\<close> adds.
  \<^item> \<open>Initramfs\<close>, \<open>Initramfs_Props\<close>: \<^verbatim>\<open>lib/fs/initramfs/initramfs.cpp\<close>, \<^verbatim>\<open>tar.hpp\<close>. Shown: a well-formed archive gives exactly the tree of its entries, and booting mounts the others on it.
  \<^item> \<open>Sys_Fd\<close>, \<open>Sys_Fd_Props\<close>: \<^verbatim>\<open>lib/syscall/sys_fd.cpp\<close>. Shown: the calls are safe in a consistent file system, and reading and writing refine a file as bytes with
    an offset (locale \<open>byte_file\<close>).

  \<^bold>\<open>Screen and keyboard.\<close>
  \<^item> \<open>Framebuffer\<close>: \<^verbatim>\<open>lib/framebuffer/framebuffer.cpp\<close> and the font, on lists of bytes. Shown: what a character and the shapes draw, and that nothing is written outside.
  \<^item> \<open>Console\<close>: \<^verbatim>\<open>lib/console/console.cpp\<close>, \<^verbatim>\<open>ansi.cpp\<close>. Shown: printing refines a grid of cells with a cursor, and ends exactly unless an escape sequence is not terminated.
  \<^item> \<open>Keyboard\<close>: \<^verbatim>\<open>arch/x64/drivers/keyboard/\<close>. \<open>Tty\<close>: \<^verbatim>\<open>lib/fs/devfs/dev_tty.cpp\<close>, the line editor on all of these. Shown: editing refines a line with a cursor, and reading
    returns what was typed.

  \<^bold>\<open>Locks, pointers and bytes.\<close>
  \<^item> \<open>Crt\<close>: \<^verbatim>\<open>lib/crt/crt.c\<close> on a partial memory of bytes. Shown: what each function leaves, and that \<^verbatim>\<open>memmove\<close> and \<^verbatim>\<open>memcpy\<close> agree where they should. \<open>Packed\<close> is the reading of
    packed structures in such a memory.
  \<^item> \<open>Locks\<close>: \<^verbatim>\<open>include/exclusive/\<close> and \<^verbatim>\<open>lib/exclusive/kmutex.cpp\<close> as steps of any number of processors. Shown: exclusion, interrupts and preemption in the critical section,
    restored afterwards; and that the mutex can lose a wake-up.
  \<^item> \<open>Smart_Ptr\<close>: \<^verbatim>\<open>include/containers/kshared_ptr.hpp\<close>, \<^verbatim>\<open>kunique_ptr.hpp\<close>. Shown: no use after free and no leak, except by copy assignment.

  \<^bold>\<open>Hardware tables, interrupts and time.\<close>
  \<^item> \<open>Segments\<close>: \<^verbatim>\<open>arch/x64/gdt/\<close>, \<^verbatim>\<open>arch/x64/interrupts/idt.cpp\<close> and the registers that \<^verbatim>\<open>trap::init\<close> sets. Shown: the processor decodes what the code encodes, and the
    selectors of the system-call instructions name the right segments.
  \<^item> \<open>Acpi\<close>: \<^verbatim>\<open>lib/acpi/\<close> and the routing of interrupts of \<^verbatim>\<open>arch/x64/drivers/apic/apic.cpp\<close>. Shown: the lists that parsing a well-formed table gives, and the one
    redirection entry that routing programs.
  \<^item> \<open>Timer\<close>: \<^verbatim>\<open>arch/x64/drivers/tsc/tsc.cpp\<close>, the timer of \<^verbatim>\<open>apic.cpp\<close>, the divisor of \<^verbatim>\<open>pit.cpp\<close>, and \<^verbatim>\<open>arch/x64/interrupts/irq.cpp\<close>. Shown: conversions without overflow, deadlines, and
    which handler runs for a vector.

  \<^bold>\<open>Bounds and fuel.\<close> Reading a C string from a buffer (\<open>c_str_from\<close>) has the capacity as fuel, and running out of it is the fault of leaving the buffer. The calls of \<^verbatim>\<open>set_cursor\<close>
  and \<^verbatim>\<open>newline\<close> to each other have a depth (\<open>CALL_DEPTH\<close>), and running out of it is the overflow of the kernel's stack; the lemmas of \<open>Console\<close> show that valid
  calls stay far below. Everything else terminates or is a partial function (\<^verbatim>\<open>put\<close> of the console, \<^verbatim>\<open>getcwd\<close>, the loops over the archive, the interrupt table and C strings), and the theorems say when
  these return. Shared pointers are followed for up to \<open>2 ^ 32\<close> operations, the width of their counters.

  \<^bold>\<open>Not modelled.\<close> The assembly files; the wrappers of single instructions (\<^verbatim>\<open>arch/x64/cpu/\<close>) and the per-processor structure behind the GS register, whose values are fields of the states that use them;
  the initialisation of the local APIC, the serial port and the old interrupt controller, which only write to device registers; logging; the start of the kernel and the protocol of the boot
  loader, apart from the memory map and the modules; the demonstration in \<^verbatim>\<open>lib/gfx/gfx.cpp\<close>, which only moves shapes in endless loops; the unused index of \<^verbatim>\<open>lib/fs/initramfs/tar.cpp\<close>; the unit tests and the user programs.
  \<^verbatim>\<open>sys_execve\<close> is not composed from its parts, because the memory of \<open>Exec\<close> is one of bytes and the files of \<open>Vfs\<close> are objects of a store. The access to
  user memory is not tied to the flag AC.
\<close>

end
